(* ===== verification/Prelude.thy ===== *)
theory Prelude
  imports Main "HOL-Library.Word" "HOL-Library.Signed_Division" "HOL-Library.Monad_Syntax"
begin

unbundle bit_operations_syntax

text \<open>
  Shared vocabulary of the development: the machine types of the 32-bit kernel, the constants of
  \<^verbatim>\<open>src/src/config.h\<close> and \<^verbatim>\<open>src/src/status.h\<close>, the flat physical memory with its little-endian
  16- and 32-bit accesses, address regions, and the generic word and list lemmas the component
  theories rest on.

  Conventions.  An unsigned 32-bit value, a \<^verbatim>\<open>size_t\<close> and a pointer are \<open>32 word\<close>, so addition wraps
  as on the machine.  A C \<^verbatim>\<open>int\<close> is a HOL \<open>int\<close>; where a value crosses from unsigned to signed the
  conversion is written out (\<open>sint\<close>), and \<open>wrap32\<close> is the two's-complement wrap of signed arithmetic
  that may overflow (the kernel is built with \<^verbatim>\<open>-O0\<close>).  A \<^verbatim>\<open>char\<close> is a signed 8-bit value
  (\<open>sint\<close> of an \<open>8 word\<close>), as gcc has it on i686.
\<close>

subsection \<open>Lemma collections\<close>

named_theorems region_simps \<open>membership of addresses in memory regions\<close>
named_theorems load_store \<open>reading a 16/32-bit cell back after a write\<close>

subsection \<open>Machine types\<close>

type_synonym u8 = "8 word"
type_synonym u16 = "16 word"
type_synonym u32 = "32 word"
type_synonym mem = "u32 \<Rightarrow> u8"

abbreviation (input) NULL :: u32 where "NULL \<equiv> 0"

definition wrap32 :: "int \<Rightarrow> int" where
  "wrap32 x = sint (word_of_int x :: u32)"

subsection \<open>config.h\<close>

abbreviation (input) RAOS_TOTAL_INTERRUPTS :: "'a::numeral" where "RAOS_TOTAL_INTERRUPTS \<equiv> 512"
abbreviation (input) KERNEL_CODE_SELECTOR :: "'a::numeral" where "KERNEL_CODE_SELECTOR \<equiv> 0x08"
abbreviation (input) KERNEL_DATA_SELECTOR :: "'a::numeral" where "KERNEL_DATA_SELECTOR \<equiv> 0x10"
abbreviation (input) RAOS_HEAP_SIZE_BYTES :: "'a::numeral" where "RAOS_HEAP_SIZE_BYTES \<equiv> 104857600"
abbreviation (input) RAOS_HEAP_BLOCK_SIZE :: "'a::numeral" where "RAOS_HEAP_BLOCK_SIZE \<equiv> 4096"
abbreviation (input) RAOS_HEAP_ADDRESS :: "'a::numeral" where "RAOS_HEAP_ADDRESS \<equiv> 0x01000000"
abbreviation (input) RAOS_HEAP_TABLE_ADDRESS :: "'a::numeral" where "RAOS_HEAP_TABLE_ADDRESS \<equiv> 0x00007E00"
abbreviation (input) RAOS_SECTOR_SIZE :: "'a::numeral" where "RAOS_SECTOR_SIZE \<equiv> 512"
abbreviation (input) RAOS_MAX_FILESYSTEMS :: "'a::numeral" where "RAOS_MAX_FILESYSTEMS \<equiv> 16"
abbreviation (input) RAOS_MAX_FILE_DESCRIPTORS :: "'a::numeral" where "RAOS_MAX_FILE_DESCRIPTORS \<equiv> 512"
abbreviation (input) RAOS_MAX_PATH :: "'a::numeral" where "RAOS_MAX_PATH \<equiv> 128"

subsection \<open>status.h\<close>

abbreviation (input) RAOS_ALL_OK :: int where "RAOS_ALL_OK \<equiv> 0"
abbreviation (input) EIO :: int where "EIO \<equiv> 1"
abbreviation (input) EINVARG :: int where "EINVARG \<equiv> 2"
abbreviation (input) ENOMEM :: int where "ENOMEM \<equiv> 3"
abbreviation (input) EBADPATH :: int where "EBADPATH \<equiv> 4"
abbreviation (input) EFSNOTUS :: int where "EFSNOTUS \<equiv> 5"
abbreviation (input) ERDONLY :: int where "ERDONLY \<equiv> 6"
abbreviation (input) EUNIMP :: int where "EUNIMP \<equiv> 7"
abbreviation (input) EISTKN :: int where "EISTKN \<equiv> 8"
abbreviation (input) EINFORMAT :: int where "EINFORMAT \<equiv> 9"

subsection \<open>Little-endian cells of the flat memory\<close>

definition load16 :: "mem \<Rightarrow> u32 \<Rightarrow> u16" where
  "load16 m p = (ucast (m p) :: u16) OR push_bit 8 (ucast (m (p + 1)))"

definition store16 :: "mem \<Rightarrow> u32 \<Rightarrow> u16 \<Rightarrow> mem" where
  "store16 m p v = m(p := ucast v, p + 1 := ucast (drop_bit 8 v))"

definition load32 :: "mem \<Rightarrow> u32 \<Rightarrow> u32" where
  "load32 m p = (ucast (m p) :: u32) OR push_bit 8 (ucast (m (p + 1)))
     OR push_bit 16 (ucast (m (p + 2))) OR push_bit 24 (ucast (m (p + 3)))"

definition store32 :: "mem \<Rightarrow> u32 \<Rightarrow> u32 \<Rightarrow> mem" where
  "store32 m p v = m(p := ucast v, p + 1 := ucast (drop_bit 8 v),
     p + 2 := ucast (drop_bit 16 v), p + 3 := ucast (drop_bit 24 v))"

subsection \<open>Regions of the address space\<close>

text \<open>Address \<open>a\<close> lies among the \<open>n\<close> bytes that start at \<open>p\<close> (with wrap-around, as pointers have it).\<close>

definition in_region :: "u32 \<Rightarrow> nat \<Rightarrow> u32 \<Rightarrow> bool" where
  "in_region p n a \<longleftrightarrow> unat (a - p) < n"

definition disjoint_regions :: "u32 \<Rightarrow> nat \<Rightarrow> u32 \<Rightarrow> nat \<Rightarrow> bool" where
  "disjoint_regions p n q k \<longleftrightarrow> n \<le> unat (q - p) \<and> k \<le> unat (p - q)"

lemma unat_u32_bound: "unat (a :: u32) < 2 ^ 32"
  by (rule order_less_le_trans [OF unsigned_less]) simp

lemma in_region_0 [simp]: "\<not> in_region p 0 a"
  by (simp add: in_region_def)

lemma in_region_iff_nat [region_simps]:
  assumes "unat p + n \<le> 2 ^ 32"
  shows "in_region p n a \<longleftrightarrow> unat p \<le> unat a \<and> unat a < unat p + n"
  using assms unat_u32_bound[of a] unat_u32_bound[of p]
  by (auto simp: in_region_def unat_sub_if' split: if_splits)

lemma in_region_offset [simp]: "in_region p n (p + k) \<longleftrightarrow> unat k < n"
  by (simp add: in_region_def)

lemma in_region_self [simp]: "in_region p n p \<longleftrightarrow> 0 < n"
  by (simp add: in_region_def)

lemma disjoint_regions_sym: "disjoint_regions p n q k \<longleftrightarrow> disjoint_regions q k p n"
  by (auto simp: disjoint_regions_def)

lemma disjoint_regionsD:
  assumes "disjoint_regions p n q k" "in_region q k a"
  shows "\<not> in_region p n a"
  using assms unat_u32_bound[of a] unat_u32_bound[of p] unat_u32_bound[of q]
  by (auto simp: disjoint_regions_def in_region_def unat_sub_if' split: if_splits)

lemma disjoint_regionsI_nat:
  assumes "unat p + n \<le> unat q \<or> unat q + k \<le> unat p"
    and "unat p + n \<le> 2 ^ 32" "unat q + k \<le> 2 ^ 32" "0 < n" "0 < k"
  shows "disjoint_regions p n q k"
  using assms unat_u32_bound[of p] unat_u32_bound[of q]
  by (auto simp: disjoint_regions_def unat_sub_if' split: if_splits)

subsection \<open>Stepping a 32-bit index\<close>

lemma u32_suc [simp]: "(i :: u32) < n \<Longrightarrow> unat (i + 1) = Suc (unat i)"
  using unat_u32_bound[of n] by (simp add: word_less_nat_alt unat_word_ariths)

lemma u32_suc_le: "(i :: u32) < n \<Longrightarrow> i + 1 \<le> n"
  by (simp add: word_le_nat_alt word_less_nat_alt Suc_leI)

lemma u32_pred [simp]: "(n :: u32) \<noteq> 0 \<Longrightarrow> unat (n - 1) = unat n - 1"
  by (rule unat_minus_one)

lemma unat_of_nat_u32: "n < 2 ^ 32 \<Longrightarrow> unat (of_nat n :: u32) = n"
  by (simp add: unsigned_of_nat take_bit_nat_eq_self)

subsection \<open>Page alignment\<close>

lemma unat_mod_4096: "unat ((x :: u32) mod 4096) = unat x mod 4096"
  by (simp add: unat_mod)

lemma unat_div_4096: "unat ((x :: u32) div 4096) = unat x div 4096"
  by (simp add: unat_div)

lemma aligned_4096_iff: "(x :: u32) mod 4096 = 0 \<longleftrightarrow> unat x mod 4096 = 0"
  using unat_mod_4096[of x] unat_eq_zero[of "x mod 4096"] by metis

lemma unat_sub_mod_4096: "unat ((x :: u32) - x mod 4096) = unat x - unat x mod 4096"
proof -
  have "x mod 4096 \<le> x" by (simp add: word_le_nat_alt unat_mod_4096)
  then show ?thesis by (simp add: unat_sub unat_mod_4096)
qed

lemma ceil_div_4096:
  fixes x :: nat
  shows "4096 * ((x + 4095) div 4096) = (if x mod 4096 = 0 then x else x - x mod 4096 + 4096)"
proof -
  define q r where "q = x div 4096" and "r = x mod 4096"
  have x: "x = 4096 * q + r" and r: "r < 4096" by (simp_all add: q_def r_def)
  have "(x + 4095) div 4096 = q + (r + 4095) div 4096" unfolding x by simp
  moreover have "(r + 4095) div 4096 = (if r = 0 then 0 else 1)"
    using r by (auto intro!: div_nat_eqI)
  ultimately show ?thesis using x unfolding r_def[symmetric] by auto
qed

lemma mod_4096_top:
  fixes x :: nat
  assumes "2 ^ 32 - 4096 < x" "x < 2 ^ 32"
  shows "x mod 4096 = x - (2 ^ 32 - 4096)"
proof -
  have "x = 4096 * 1048575 + (x - (2 ^ 32 - 4096))" using assms by simp
  moreover have "x - (2 ^ 32 - 4096) < 4096" using assms by simp
  ultimately show ?thesis by (metis mod_less mod_mult_self4)
qed

subsection \<open>Reading back what was stored\<close>

lemma u32_offsets_neq [simp]:
  "(p::u32) + 1 \<noteq> p" "p + 2 \<noteq> p" "p + 3 \<noteq> p" "p \<noteq> p + 1" "p \<noteq> p + 2" "p \<noteq> p + 3"
  by simp_all

lemma load16_store16 [simp, load_store]: "load16 (store16 m p v) p = v"
  unfolding load16_def store16_def
  by (rule bit_word_eqI) (auto simp: bit_simps)

lemma load32_store32 [simp, load_store]: "load32 (store32 m p v) p = v"
proof (rule bit_word_eqI)
  fix n assume "n < LENGTH(32)"
  then consider "n < 8" | "8 \<le> n" "n < 16" | "16 \<le> n" "n < 24" | "24 \<le> n" "n < 32"
    by fastforce
  then show "bit (load32 (store32 m p v) p) n = bit v n"
    by cases (auto simp: load32_def store32_def bit_simps)
qed

lemma store32_outside:
  assumes "\<not> in_region p 4 a"
  shows "store32 m p v a = m a"
proof -
  have "a - p \<noteq> 0" "a - p \<noteq> 1" "a - p \<noteq> 2" "a - p \<noteq> 3"
    using assms by (auto simp: in_region_def)
  then have "a \<noteq> p" "a \<noteq> p + 1" "a \<noteq> p + 2" "a \<noteq> p + 3" by auto
  then show ?thesis by (simp add: store32_def)
qed

lemma store16_outside:
  assumes "\<not> in_region p 2 a"
  shows "store16 m p v a = m a"
proof -
  have "a - p \<noteq> 0" "a - p \<noteq> 1" using assms by (auto simp: in_region_def)
  then have "a \<noteq> p" "a \<noteq> p + 1" by auto
  then show ?thesis by (simp add: store16_def)
qed

lemma load32_cong:
  assumes "\<And>a. in_region p 4 a \<Longrightarrow> m a = m' a"
  shows "load32 m p = load32 m' p"
  using assms[of p] assms[of "p + 1"] assms[of "p + 2"] assms[of "p + 3"]
  by (simp add: load32_def)

lemma load16_cong:
  assumes "\<And>a. in_region p 2 a \<Longrightarrow> m a = m' a"
  shows "load16 m p = load16 m' p"
  using assms[of p] assms[of "p + 1"] by (simp add: load16_def)

lemma load16_upd_other [load_store]: "\<not> in_region p 2 q \<Longrightarrow> load16 (m(q := v)) p = load16 m p"
  by (rule load16_cong) auto

lemma load32_store32_other [load_store]:
  assumes "disjoint_regions p 4 q 4"
  shows "load32 (store32 m p v) q = load32 m q"
  using assms by (intro load32_cong store32_outside) (auto dest: disjoint_regionsD)

lemma load16_store16_other [load_store]:
  assumes "disjoint_regions p 2 q 2"
  shows "load16 (store16 m p v) q = load16 m q"
  using assms by (intro load16_cong store16_outside) (auto dest: disjoint_regionsD)

subsection \<open>Tables of eight-byte descriptors\<close>

lemma entry_offset:
  assumes "i < 2 ^ 29"
  shows "unat (8 * of_nat i :: u32) = 8 * i"
  using assms unat_of_nat_u32[of "8 * i"] by simp

lemma entries_apart:
  assumes "i < n" "j < n" "i \<noteq> j" "n \<le> 2 ^ 29" "in_region (p + 8 * of_nat i) 8 a"
  shows "\<not> in_region (p + 8 * of_nat j) 8 a"
proof -
  define q where "q = a - p"
  have "8 * i \<le> unat q \<and> unat q < 8 * i + 8" if "in_region (p + 8 * of_nat i) 8 a" "i < n" for i
  proof -
    have "unat (8 * of_nat i :: u32) = 8 * i" using that assms(4) by (intro entry_offset) simp
    then show ?thesis
      using that assms(4) in_region_iff_nat[of "8 * of_nat i" 8 q] by (simp add: in_region_def q_def algebra_simps)
  qed
  from this[OF assms(5,1)] this[OF _ assms(2)] show ?thesis using assms(3) by fastforce
qed

lemma entry_in_table:
  assumes "i < n" "n \<le> 2 ^ 29" "in_region (p + 8 * of_nat i) 8 a"
  shows "in_region p (8 * n) a"
proof -
  have "unat (8 * of_nat i :: u32) = 8 * i" using assms by (intro entry_offset) simp
  then show ?thesis
    using assms in_region_iff_nat[of "8 * of_nat i" 8 "a - p"] by (simp add: in_region_def algebra_simps)
qed

subsection \<open>Parts of disjoint regions\<close>

lemma disjoint_regions_sub:
  assumes "disjoint_regions p n q k" "off + j \<le> n" "i \<le> k" "0 < j" "0 < i"
  shows "disjoint_regions (p + of_nat off) j q i"
proof -
  have n: "n \<le> unat (q - p)" "k \<le> unat (p - q)" using assms(1) by (simp_all add: disjoint_regions_def)
  have b: "unat (q - p) < 2 ^ 32" by (rule unat_u32_bound)
  have off: "unat (of_nat off :: u32) = off" using n assms(2,4) b by (intro unat_of_nat_u32) simp
  have le: "of_nat off \<le> q - p" using n assms(2) by (simp add: word_le_nat_alt off)
  have eq: "q - (p + of_nat off) = (q - p) - of_nat off" by (simp only: diff_diff_eq)
  have u1: "unat (q - (p + of_nat off)) = unat (q - p) - off" unfolding eq using unat_sub[OF le] off by simp
  have "unat p \<noteq> unat q" using n assms(2,4) by (auto simp: word_unat_eq_iff[symmetric])
  then have neg: "unat (p - q) = 2 ^ 32 - unat (q - p)"
    using unat_u32_bound[of p] unat_u32_bound[of q] by (auto simp: unat_sub_if')
  have eq': "p + of_nat off - q = (p - q) + of_nat off" by (simp only: diff_add_eq)
  have "unat (p - q) + off < 2 ^ 32" using neg n assms(2,4) b by simp
  then have "unat (p + of_nat off - q) = unat (p - q) + off"
    unfolding eq' unat_word_ariths(1) off by (intro mod_less) simp
  then show ?thesis using u1 n assms by (simp add: disjoint_regions_def)
qed

lemma in_region_sub:
  assumes "in_region (p + of_nat off) j a" "off + j \<le> n" "n \<le> 2 ^ 32"
  shows "in_region p n a"
proof -
  have j: "0 < j" using assms(1) by (simp add: in_region_def)
  have off: "unat (of_nat off :: u32) = off" using assms(2,3) j by (intro unat_of_nat_u32) simp
  have "in_region (of_nat off) j (a - p)" using assms(1) by (simp add: in_region_def diff_diff_eq)
  moreover have "unat (of_nat off :: u32) + j \<le> 2 ^ 32" using off assms(2,3) by simp
  ultimately show ?thesis using in_region_iff_nat[of "of_nat off" j "a - p"] off assms(2) by (simp add: in_region_def)
qed

subsection \<open>First index with a property\<close>

text \<open>What a C loop over \<^verbatim>\<open>0 .. n - 1\<close> with a \<^verbatim>\<open>break\<close> finds.\<close>

lemma find_upt_Some: "find P [0..<n] = Some i \<longleftrightarrow> i < n \<and> P i \<and> (\<forall>j < i. \<not> P j)"
  by (auto simp: find_Some_iff)

lemma find_upt_None: "find P [0..<n] = None \<longleftrightarrow> (\<forall>i < n. \<not> P i)"
  by (auto simp: find_None_iff)

subsection \<open>Arrays of pointers\<close>

lemma slot_offset: "i < 2 ^ 30 \<Longrightarrow> unat (4 * of_nat i :: u32) = 4 * i"
  using unat_of_nat_u32[of "4 * i"] by simp

lemma slot_load32:
  assumes "i < 2 ^ 16" "j < 2 ^ 16"
  shows "load32 (store32 m (p + 4 * of_nat i) v) (p + 4 * of_nat j) = (if i = j then v else load32 m (p + 4 * of_nat j))"
proof (cases "i = j")
  case False
  have u: "unat (4 * of_nat i :: u32) = 4 * i" "unat (4 * of_nat j :: u32) = 4 * j" using assms by (simp_all add: slot_offset)
  have "4 \<le> unat (4 * of_nat j - 4 * of_nat i :: u32)" if "i \<noteq> j" "i < 2 ^ 16" "j < 2 ^ 16"
    "unat (4 * of_nat i :: u32) = 4 * i" "unat (4 * of_nat j :: u32) = 4 * j" for i j :: nat
    using that unat_sub_if'[of "4 * of_nat j :: u32" "4 * of_nat i"] by (auto split: if_splits)
  from this[of i j] this[of j i] have "disjoint_regions (p + 4 * of_nat i) 4 (p + 4 * of_nat j) 4"
    using False assms u by (simp add: disjoint_regions_def)
  then show ?thesis using False by (simp add: load32_store32_other)
qed simp

lemma slot_in_array:
  assumes "i < n" "n \<le> 2 ^ 16" "in_region (p + 4 * of_nat i) 4 a"
  shows "in_region p (4 * n) a"
  using in_region_sub[of p "4 * i" 4 a "4 * n"] assms by simp

end
