(* ===== verification/Memory.thy ===== *)
theory Memory
  imports Prelude
begin

text \<open>
  \<^verbatim>\<open>src/src/memory/memory.c\<close>: the byte routines every other component uses, over the flat memory.
  Each C loop is a recursive function with the loop's own variables as arguments.  The \<^verbatim>\<open>int\<close> index
  of \<^verbatim>\<open>memset\<close> is compared with a \<^verbatim>\<open>size_t\<close>, so the comparison is unsigned and the index is a
  \<open>32 word\<close> here.  The returned pointer of \<^verbatim>\<open>memset\<close> and \<^verbatim>\<open>memcpy\<close> is their argument; the functions
  return the new memory.  The lemmas give the closed form of each routine: the bytes written, the
  bytes left alone, and what the comparison decides.
\<close>

subsection \<open>Definitions\<close>

function memset_loop :: "mem \<Rightarrow> u32 \<Rightarrow> u8 \<Rightarrow> u32 \<Rightarrow> u32 \<Rightarrow> mem" where
  "memset_loop m ptr c i sz =
     (if i < sz then memset_loop (m(ptr + i := c)) ptr c (i + 1) sz else m)"
  by pat_completeness auto
termination
  by (relation "measure (\<lambda>(m, ptr, c, i, sz). unat sz - unat i)")
     (auto simp: word_less_nat_alt)

declare memset_loop.simps [simp del]

definition memset :: "mem \<Rightarrow> u32 \<Rightarrow> u8 \<Rightarrow> u32 \<Rightarrow> mem" where
  "memset m ptr c sz = memset_loop m ptr c 0 sz"

function memcmp :: "mem \<Rightarrow> u32 \<Rightarrow> u32 \<Rightarrow> int \<Rightarrow> int" where
  "memcmp m s1 s2 count =
     (if count > 0
      then if m s1 \<noteq> m s2
           then (if sint (m s1) < sint (m s2) then - 1 else 1)
           else memcmp m (s1 + 1) (s2 + 1) (count - 1)
      else 0)"
  by pat_completeness auto
termination
  by (relation "measure (\<lambda>(m, s1, s2, count). nat count)") auto

declare memcmp.simps [simp del]

function memcpy :: "mem \<Rightarrow> u32 \<Rightarrow> u32 \<Rightarrow> u32 \<Rightarrow> mem" where
  "memcpy m dest src len =
     (if len \<noteq> 0 then memcpy (m(dest := m src)) (dest + 1) (src + 1) (len - 1) else m)"
  by pat_completeness auto
termination
  by (relation "measure (\<lambda>(m, dest, src, len). unat len)")
     (auto simp: unat_gt_0)

declare memcpy.simps [simp del]

subsection \<open>memset\<close>

lemma memset_loop_apply:
  assumes "i \<le> sz"
  shows "memset_loop m ptr c i sz a =
    (if unat i \<le> unat (a - ptr) \<and> unat (a - ptr) < unat sz then c else m a)"
  using assms
proof (induction m ptr c i sz rule: memset_loop.induct)
  case (1 m ptr c i sz)
  show ?case
  proof (cases "i < sz")
    case True
    have "a = ptr + i \<longleftrightarrow> unat (a - ptr) = unat i"
      by (metis add_diff_cancel_left' diff_add_cancel add.commute word_unat_eq_iff)
    moreover have "memset_loop (m(ptr + i := c)) ptr c (i + 1) sz a =
      (if unat (i + 1) \<le> unat (a - ptr) \<and> unat (a - ptr) < unat sz then c
       else (m(ptr + i := c)) a)"
      using True by (intro "1.IH") (auto simp: u32_suc_le)
    moreover have "unat i < unat sz" using True by (simp add: word_less_nat_alt)
    ultimately show ?thesis using True
      by (simp add: memset_loop.simps[of m] del: fun_upd_apply) (auto simp: Suc_le_eq)
  next
    case False
    with 1 show ?thesis by (auto simp: memset_loop.simps[of m] word_le_nat_alt word_less_nat_alt)
  qed
qed

lemma memset_eq: "memset m ptr c sz = (\<lambda>a. if in_region ptr (unat sz) a then c else m a)"
  by (rule ext) (simp add: memset_def memset_loop_apply in_region_def)

lemma memset_inside: "in_region ptr (unat sz) a \<Longrightarrow> memset m ptr c sz a = c"
  by (simp add: memset_eq)

lemma memset_outside: "\<not> in_region ptr (unat sz) a \<Longrightarrow> memset m ptr c sz a = m a"
  by (simp add: memset_eq)

subsection \<open>memcpy\<close>

text \<open>
  The copy runs upwards one byte at a time, so it is exact unless the destination starts strictly
  inside the source: \<open>unat (dest - src)\<close> is then between 1 and \<open>len - 1\<close>.
\<close>

lemma memcpy_apply:
  assumes "dest = src \<or> unat len \<le> unat (dest - src)"
  shows "memcpy m dest src len a =
    (if in_region dest (unat len) a then m (src + (a - dest)) else m a)"
  using assms
proof (induction m dest src len rule: memcpy.induct)
  case (1 m dest src len)
  show ?case
  proof (cases "len = 0")
    case True
    then show ?thesis by (simp add: memcpy.simps)
  next
    case False
    let ?m = "m(dest := m src)"
    have pos: "0 < unat len" using False by (simp add: unat_gt_0)
    have IH: "memcpy ?m (dest + 1) (src + 1) (len - 1) a =
      (if in_region (dest + 1) (unat (len - 1)) a
       then ?m ((src + 1) + (a - (dest + 1))) else ?m a)"
      using False 1 by (intro "1.IH") auto
    have reg: "in_region (dest + 1) (unat (len - 1)) a \<longleftrightarrow>
        in_region dest (unat len) a \<and> a \<noteq> dest"
    proof (cases "a = dest")
      case True
      have "unat (dest - (dest + 1)) = 2 ^ 32 - 1"
        by (simp add: unsigned_minus_1_eq_mask mask_eq_exp_minus_1)
      then show ?thesis using True pos unat_u32_bound[of len] False
        by (simp add: in_region_def)
    next
      case neq: False
      then have "a - dest \<noteq> 0" by simp
      then have "unat (a - dest - 1) = unat (a - dest) - 1" "0 < unat (a - dest)"
        using u32_pred[of "a - dest"] by (simp_all add: unat_gt_0 del: u32_pred)
      then have "unat (a - (dest + 1)) = unat (a - dest) - 1" "0 < unat (a - dest)"
        by (simp_all add: diff_diff_eq)
      then show ?thesis using neq False pos by (auto simp: in_region_def)
    qed
    have src_ok: "src + (a - dest) \<noteq> dest" if "in_region dest (unat len) a" "a \<noteq> dest"
    proof
      assume "src + (a - dest) = dest"
      then have "a - dest = dest - src" by (simp add: algebra_simps)
      with that "1.prems" show False by (auto simp: in_region_def)
    qed
    have "src + 1 + (a - (dest + 1)) = src + (a - dest)" by simp
    then show ?thesis
      using IH reg src_ok pos False by (auto simp: memcpy.simps[of m])
  qed
qed

subsection \<open>memcmp\<close>

lemma memcmp_range: "memcmp m s1 s2 count \<in> {-1, 0, 1}"
  by (induction m s1 s2 count rule: memcmp.induct) (subst memcmp.simps, auto)

lemma memcmp_eq_0_iff:
  "memcmp m s1 s2 count = 0 \<longleftrightarrow> (\<forall>k < nat count. m (s1 + of_nat k) = m (s2 + of_nat k))"
proof (induction m s1 s2 count rule: memcmp.induct)
  case (1 m s1 s2 count)
  show ?case
  proof (cases "count > 0")
    case True
    then obtain c where c: "nat count = Suc c" "c = nat (count - 1)"
      by (metis Suc_nat_eq_nat_zadd1 diff_add_cancel int_one_le_iff_zero_less le_iff_diff_le_0 add.commute diff_ge_0_iff_ge)
    have split: "(\<forall>k < Suc c. m (s1 + of_nat k) = m (s2 + of_nat k)) \<longleftrightarrow>
       m s1 = m s2 \<and> (\<forall>k < c. m (s1 + 1 + of_nat k) = m (s2 + 1 + of_nat k))"
      by (auto simp: algebra_simps less_Suc_eq_0_disj)
    show ?thesis
      using True 1 c split by (auto simp: memcmp.simps[of m s1])
  next
    case False
    then show ?thesis by (simp add: memcmp.simps)
  qed
qed

lemma memcmp_swap: "memcmp m s2 s1 count = - memcmp m s1 s2 count"
proof (induction m s1 s2 count rule: memcmp.induct)
  case (1 m s1 s2 count)
  have neq: "sint (m s1) \<noteq> sint (m s2)" if "m s1 \<noteq> m s2" using that by (metis signed_word_eqI)
  show ?case
  proof (cases "0 < count \<and> m s1 = m s2")
    case True
    then show ?thesis using 1
      by (simp add: memcmp.simps[of m s1 s2 count] memcmp.simps[of m s2 s1 count])
  next
    case False
    then show ?thesis using neq
      by (auto simp: memcmp.simps[of m s1 s2 count] memcmp.simps[of m s2 s1 count])
  qed
qed

lemma memcmp_first_difference:
  "(\<exists>k < nat count. (\<forall>j < k. m (s1 + of_nat j) = m (s2 + of_nat j))
      \<and> m (s1 + of_nat k) \<noteq> m (s2 + of_nat k)
      \<and> memcmp m s1 s2 count = (if sint (m (s1 + of_nat k)) < sint (m (s2 + of_nat k)) then - 1 else 1))
   \<or> (\<forall>k < nat count. m (s1 + of_nat k) = m (s2 + of_nat k)) \<and> memcmp m s1 s2 count = 0"
proof (induction m s1 s2 count rule: memcmp.induct)
  case (1 m s1 s2 count)
  consider "\<not> 0 < count" | "0 < count" "m s1 \<noteq> m s2" | "0 < count" "m s1 = m s2" by blast
  then show ?case
  proof cases
    case 1
    then show ?thesis by (simp add: memcmp.simps)
  next
    case 2
    then show ?thesis
      by (intro disjI1 exI[of _ 0]) (simp add: memcmp.simps[of m s1])
  next
    case 3
    then have eq: "memcmp m s1 s2 count = memcmp m (s1 + 1) (s2 + 1) (count - 1)"
      by (simp add: memcmp.simps[of m s1])
    have shift: "m (s1 + 1 + of_nat k) = m (s1 + of_nat (Suc k))"
      "m (s2 + 1 + of_nat k) = m (s2 + of_nat (Suc k))" for k by (simp_all add: algebra_simps)
    have cnt: "nat count = Suc (nat (count - 1))" using 3 by simp
    have all: "(\<forall>j < Suc k. m (s1 + of_nat j) = m (s2 + of_nat j)) \<longleftrightarrow>
        (\<forall>j < k. m (s1 + of_nat (Suc j)) = m (s2 + of_nat (Suc j)))" for k
      using 3(2) by (auto simp: less_Suc_eq_0_disj)
    have "\<not> m s1 \<noteq> m s2" using 3(2) by simp
    from "1.IH"[OF 3(1) this] show ?thesis
    proof (elim disjE exE conjE)
      fix k assume k: "k < nat (count - 1)" "\<forall>j < k. m (s1 + 1 + of_nat j) = m (s2 + 1 + of_nat j)"
        "m (s1 + 1 + of_nat k) \<noteq> m (s2 + 1 + of_nat k)"
        "memcmp m (s1 + 1) (s2 + 1) (count - 1) =
           (if sint (m (s1 + 1 + of_nat k)) < sint (m (s2 + 1 + of_nat k)) then - 1 else 1)"
      then show ?thesis unfolding eq cnt shift
        by (intro disjI1 exI[of _ "Suc k"] conjI) (simp_all only: all Suc_less_eq not_False_eq_True)
    next
      assume "\<forall>k < nat (count - 1). m (s1 + 1 + of_nat k) = m (s2 + 1 + of_nat k)"
        "memcmp m (s1 + 1) (s2 + 1) (count - 1) = 0"
      then show ?thesis unfolding eq cnt shift all by blast
    qed
  qed
qed

subsection \<open>Properties\<close>

text \<open>
  \<^verbatim>\<open>memcpy\<close> copies \<open>len\<close> bytes from \<open>src\<close> to \<open>dest\<close> and changes nothing else, provided the
  destination does not start inside the source (it may end inside it: the copy runs upwards).
\<close>

theorem memcpy_copies:
  assumes "dest = src \<or> unat len \<le> unat (dest - src)"
  shows "memcpy m dest src len = (\<lambda>a. if in_region dest (unat len) a then m (src + (a - dest)) else m a)"
  using memcpy_apply[OF assms] by (rule ext)

theorem memcpy_copies_witness:
  "memcpy (\<lambda>a. ucast a) 0x0FFE 0x1000 16 =
     (\<lambda>a. if in_region 0x0FFE 16 a then ucast (0x1000 + (a - 0x0FFE)) else ucast a)"
  using memcpy_copies[of "0x0FFE" "0x1000" 16 "\<lambda>a. ucast a"] by simp

text \<open>
  \<^verbatim>\<open>memcmp\<close> finds the first byte where the two areas differ and answers by the order of the two
  bytes as signed characters; it answers 0 exactly when the areas agree.
\<close>

theorem memcmp_orders:
  "((\<exists>k < nat count. (\<forall>j < k. m (s1 + of_nat j) = m (s2 + of_nat j))
        \<and> m (s1 + of_nat k) \<noteq> m (s2 + of_nat k)
        \<and> memcmp m s1 s2 count = (if sint (m (s1 + of_nat k)) < sint (m (s2 + of_nat k)) then - 1 else 1))
     \<or> (\<forall>k < nat count. m (s1 + of_nat k) = m (s2 + of_nat k)) \<and> memcmp m s1 s2 count = 0)
    \<and> memcmp m s2 s1 count = - memcmp m s1 s2 count"
  using memcmp_first_difference memcmp_swap by blast

theorem memcmp_orders_witness:
  "memcmp ((\<lambda>_. 0)(0x12 := 0x80, 0x22 := 0x7F)) 0x20 0x10 4 = 1"
  using memcmp_orders[of 4 "(\<lambda>_. 0)(0x12 := 0x80, 0x22 := 0x7F)" "0x10" "0x20"]
  by (simp add: memcmp.simps)

end
