(* ===== verification/Cstring.thy ===== *)
theory Cstring
  imports Memory
begin

text \<open>
  \<^verbatim>\<open>src/src/string/string.c\<close> over the flat memory.  \<^verbatim>\<open>strlen\<close> and \<^verbatim>\<open>strcpy\<close> run until they meet a NUL
  byte and may never return, so they are \<^theory_text>\<open>partial_function (option)\<close>; the bounded routines are
  total.  \<open>cstr_at m p xs\<close> says that the NUL-terminated string \<open>xs\<close> is stored at \<open>p\<close>; the lemmas
  describe every routine on such strings, including the cases where the bound is hit first.
\<close>

subsection \<open>Definitions\<close>

partial_function (option) strlen_loop :: "mem \<Rightarrow> u32 \<Rightarrow> u32 \<Rightarrow> u32 option" where
  "strlen_loop m ptr cnt =
     (if m ptr \<noteq> 0 then strlen_loop m (ptr + 1) (cnt + 1) else Some cnt)"

definition strlen :: "mem \<Rightarrow> u32 \<Rightarrow> u32 option" where
  "strlen m ptr = strlen_loop m ptr 0"

text \<open>
  The counter of \<^verbatim>\<open>strnlen\<close> is compared after the increment, so a bound of 0 is met only when the
  32-bit counter wraps; the loop ends after at most \<open>2 ^ 32\<close> rounds.
\<close>

function strnlen_loop :: "mem \<Rightarrow> u32 \<Rightarrow> u32 \<Rightarrow> u32 \<Rightarrow> u32" where
  "strnlen_loop m ptr max_len cnt =
     (if m ptr \<noteq> 0
      then (if cnt + 1 = max_len then cnt + 1
            else strnlen_loop m (ptr + 1) max_len (cnt + 1))
      else cnt)"
  by pat_completeness auto
termination
proof (relation "measure (\<lambda>(m, ptr, max_len, cnt). unat (max_len - cnt - 1))", goal_cases)
  case (2 m ptr max_len cnt)
  then have "max_len - cnt - 1 \<noteq> 0" by (auto simp: algebra_simps)
  then show ?case
    using u32_pred[of "max_len - cnt - 1"]
    by (simp add: diff_diff_eq unat_gt_0 add.assoc del: u32_pred)
qed auto

declare strnlen_loop.simps [simp del]

definition strnlen :: "mem \<Rightarrow> u32 \<Rightarrow> u32 \<Rightarrow> u32" where
  "strnlen m ptr max_len = strnlen_loop m ptr max_len 0"

function strnlen_terminator_loop :: "mem \<Rightarrow> u32 \<Rightarrow> u32 \<Rightarrow> u8 \<Rightarrow> u32 \<Rightarrow> u32" where
  "strnlen_terminator_loop m str max_len terminator i =
     (if i < max_len
      then (if m (str + i) = 0 \<or> m (str + i) = terminator then i
            else strnlen_terminator_loop m str max_len terminator (i + 1))
      else i)"
  by pat_completeness auto
termination
  by (relation "measure (\<lambda>(m, str, max_len, t, i). unat max_len - unat i)")
     (auto simp: word_less_nat_alt)

declare strnlen_terminator_loop.simps [simp del]

definition strnlen_terminator :: "mem \<Rightarrow> u32 \<Rightarrow> u32 \<Rightarrow> u8 \<Rightarrow> int" where
  "strnlen_terminator m str max_len terminator =
     sint (strnlen_terminator_loop m str max_len terminator 0)"

partial_function (option) strcpy :: "mem \<Rightarrow> u32 \<Rightarrow> u32 \<Rightarrow> mem option" where
  "strcpy m dest src =
     (if m src \<noteq> 0 then strcpy (m(dest := m src)) (dest + 1) (src + 1)
      else Some (m(dest := 0)))"

function strncpy_loop :: "mem \<Rightarrow> u32 \<Rightarrow> u32 \<Rightarrow> int \<Rightarrow> int \<Rightarrow> mem" where
  "strncpy_loop m dest src n i =
     (if i < n - 1 \<and> m (src + word_of_int i) \<noteq> 0
      then strncpy_loop (m(dest + word_of_int i := m (src + word_of_int i))) dest src n (i + 1)
      else m(dest + word_of_int i := 0))"
  by pat_completeness auto
termination
  by (relation "measure (\<lambda>(m, dest, src, n, i). nat (n - 1 - i))") auto

declare strncpy_loop.simps [simp del]

definition strncpy :: "mem \<Rightarrow> u32 \<Rightarrow> u32 \<Rightarrow> int \<Rightarrow> mem" where
  "strncpy m dest src n = strncpy_loop m dest src n 0"

function strncmp :: "mem \<Rightarrow> u32 \<Rightarrow> u32 \<Rightarrow> int \<Rightarrow> int" where
  "strncmp m str1 str2 n =
     (if n > 0
      then (if m str1 \<noteq> m str2 then uint (m str1) - uint (m str2)
            else if m str1 = 0 then 0
            else strncmp m (str1 + 1) (str2 + 1) (n - 1))
      else 0)"
  by pat_completeness auto
termination
  by (relation "measure (\<lambda>(m, str1, str2, n). nat n)") auto

declare strncmp.simps [simp del]

definition isdigit :: "u8 \<Rightarrow> bool" where
  "isdigit c \<longleftrightarrow> 48 \<le> sint c \<and> sint c \<le> 57"

definition chtoi :: "u8 \<Rightarrow> int" where
  "chtoi c = sint c - 48"

definition tolower :: "u8 \<Rightarrow> u8" where
  "tolower ch = (if 65 \<le> sint ch \<and> sint ch \<le> 90 then ch + 32 else ch)"

function istrncmp :: "mem \<Rightarrow> u32 \<Rightarrow> u32 \<Rightarrow> int \<Rightarrow> int" where
  "istrncmp m str1 str2 n =
     (if n > 0
      then (if m str1 \<noteq> m str2 \<and> tolower (m str1) \<noteq> tolower (m str2)
            then uint (m str1) - uint (m str2)
            else if m str1 = 0 then 0
            else istrncmp m (str1 + 1) (str2 + 1) (n - 1))
      else 0)"
  by pat_completeness auto
termination
  by (relation "measure (\<lambda>(m, str1, str2, n). nat n)") auto

declare istrncmp.simps [simp del]

subsection \<open>Strings in memory\<close>

primrec cstr_at :: "mem \<Rightarrow> u32 \<Rightarrow> u8 list \<Rightarrow> bool" where
  "cstr_at m p [] \<longleftrightarrow> m p = 0"
| "cstr_at m p (x # xs) \<longleftrightarrow> x \<noteq> 0 \<and> m p = x \<and> cstr_at m (p + 1) xs"

lemma cstr_at_iff:
  "cstr_at m p xs \<longleftrightarrow> (\<forall>i < length xs. m (p + of_nat i) = xs ! i) \<and> 0 \<notin> set xs
     \<and> m (p + of_nat (length xs)) = 0"
proof (induction xs arbitrary: p)
  case (Cons x xs)
  have "(\<forall>i < length (x # xs). m (p + of_nat i) = (x # xs) ! i) \<longleftrightarrow>
    m p = x \<and> (\<forall>i < length xs. m (p + 1 + of_nat i) = xs ! i)"
    by (auto simp: less_Suc_eq_0_disj algebra_simps)
  then show ?case using Cons by (auto simp: algebra_simps)
qed simp

lemma cstr_at_cong:
  assumes "\<And>i. i \<le> length xs \<Longrightarrow> m' (p + of_nat i) = m (p + of_nat i)"
  shows "cstr_at m' p xs = cstr_at m p xs"
  using assms by (auto simp: cstr_at_iff)

lemma cstr_at_unique: "cstr_at m p xs \<Longrightarrow> cstr_at m p ys \<Longrightarrow> xs = ys"
proof (induction xs arbitrary: p ys)
  case Nil
  then show ?case by (cases ys) auto
next
  case (Cons x xs)
  then show ?case by (cases ys) auto
qed

subsection \<open>strlen, strnlen\<close>

lemma strlen_loop_cstr: "cstr_at m p xs \<Longrightarrow> strlen_loop m p c = Some (c + of_nat (length xs))"
  by (induction xs arbitrary: p c) (auto simp: strlen_loop.simps[of m] algebra_simps)

lemma strlen_cstr: "cstr_at m p xs \<Longrightarrow> strlen m p = Some (of_nat (length xs))"
  by (simp add: strlen_def strlen_loop_cstr)

lemma strlen_loop_Some:
  assumes "strlen_loop m p c = Some n"
  shows "\<exists>xs. cstr_at m p xs \<and> n = c + of_nat (length xs)"
proof (rule strlen_loop.raw_induct
    [where P = "\<lambda>m p c n. \<exists>xs. cstr_at m p xs \<and> n = c + of_nat (length xs)", OF _ assms])
  fix f m p c n
  assume IH: "\<And>m p c n. f m p c = Some n \<Longrightarrow> \<exists>xs. cstr_at m p xs \<and> n = c + of_nat (length xs)"
    and eq: "(if m p \<noteq> 0 then f m (p + 1) (c + 1) else Some c) = Some n"
  show "\<exists>xs. cstr_at m p xs \<and> n = c + of_nat (length xs)"
  proof (cases "m p = 0")
    case True
    with eq show ?thesis by (intro exI[of _ "[]"]) auto
  next
    case False
    with eq have "f m (p + 1) (c + 1) = Some n" by simp
    then obtain xs where "cstr_at m (p + 1) xs" "n = c + 1 + of_nat (length xs)"
      using IH by blast
    with False show ?thesis by (intro exI[of _ "m p # xs"]) (auto simp: add.assoc)
  qed
qed

lemma strlen_Some_iff: "strlen m p = Some n \<longleftrightarrow> (\<exists>xs. cstr_at m p xs \<and> n = of_nat (length xs))"
  using strlen_loop_Some[of m p 0 n] strlen_cstr by (auto simp: strlen_def)

lemma strnlen_loop_cstr:
  assumes "cstr_at m p xs" "unat c + length xs < 2 ^ 32" "c < max_len"
  shows "unat (strnlen_loop m p max_len c) = min (unat c + length xs) (unat max_len)"
  using assms
proof (induction xs arbitrary: p c)
  case Nil
  then show ?case by (simp add: strnlen_loop.simps[of m p] word_less_nat_alt min_def)
next
  case (Cons x xs)
  then have nz: "m p \<noteq> 0" and suc: "unat (c + 1) = Suc (unat c)" by auto
  show ?case
  proof (cases "c + 1 = max_len")
    case True
    then show ?thesis using nz suc by (auto simp: strnlen_loop.simps[of m p])
  next
    case False
    then have "c + 1 < max_len" using Cons.prems u32_suc_le by (metis order_le_less)
    then show ?thesis using Cons nz suc False
      by (simp add: strnlen_loop.simps[of m p])
  qed
qed

lemma strnlen_cstr:
  assumes "cstr_at m p xs" "length xs < 2 ^ 32" "max_len \<noteq> 0"
  shows "unat (strnlen m p max_len) = min (length xs) (unat max_len)"
  using assms strnlen_loop_cstr[of m p xs 0 max_len]
  by (simp add: strnlen_def word_gt_0)

lemma strnlen_loop_no_bound:
  assumes "cstr_at m p xs" "unat c + length xs < 2 ^ 32"
  shows "strnlen_loop m p 0 c = c + of_nat (length xs)"
  using assms
proof (induction xs arbitrary: p c)
  case Nil
  then show ?case by (simp add: strnlen_loop.simps[of m p])
next
  case (Cons x xs)
  have lt: "unat c + 1 < 2 ^ 32" using Cons.prems by simp
  then have "unat (c + 1) = unat c + 1" by (simp add: unat_word_ariths)
  moreover from this have "c + 1 \<noteq> 0" by (metis add_is_0 one_neq_zero unat_0)
  ultimately show ?case using Cons
    by (simp add: strnlen_loop.simps[of m p] algebra_simps)
qed

lemma strnlen_zero_bound:
  "cstr_at m p xs \<Longrightarrow> length xs < 2 ^ 32 \<Longrightarrow> strnlen m p 0 = of_nat (length xs)"
  using strnlen_loop_no_bound[of m p xs 0] by (simp add: strnlen_def)

subsection \<open>strncpy, strcpy\<close>

lemma strncpy_loop_apply:
  assumes "cstr_at m (src + word_of_int i) xs" "0 \<le> i"
    and "i + int (length xs) < 2 ^ 32" "n \<le> 2 ^ 32" "i < max n 1"
    and "\<And>j k. i \<le> j \<Longrightarrow> j \<le> i + int (length xs) \<Longrightarrow> i \<le> k \<Longrightarrow> k < max n 1 \<Longrightarrow>
           src + word_of_int j \<noteq> dest + word_of_int k"
  shows "cstr_at (strncpy_loop m dest src n i) (dest + word_of_int i) (take (nat (n - 1 - i)) xs)
    \<and> (\<forall>a. (\<forall>k. i \<le> k \<and> k < max n 1 \<longrightarrow> a \<noteq> dest + word_of_int k) \<longrightarrow>
             strncpy_loop m dest src n i a = m a)"
  using assms
proof (induction m dest src n i arbitrary: xs rule: strncpy_loop.induct)
  case (1 m dest src n i)
  show ?case
  proof (cases "i < n - 1 \<and> m (src + word_of_int i) \<noteq> 0")
    case False
    then have "take (nat (n - 1 - i)) xs = []"
      using "1.prems"(1) by (cases xs) auto
    then show ?thesis using False "1.prems"(2,5)
      by (simp only: strncpy_loop.simps[of m] if_False) (auto simp: fun_upd_def)
  next
    case True
    let ?m = "m(dest + word_of_int i := m (src + word_of_int i))"
    obtain x xs' where xs: "xs = x # xs'" "x = m (src + word_of_int i)"
      using True "1.prems"(1) by (cases xs) auto
    have "cstr_at ?m (src + word_of_int (i + 1)) xs'"
    proof -
      have "cstr_at m (src + word_of_int (i + 1)) xs'"
        using "1.prems"(1) xs by (simp add: algebra_simps)
      moreover have "?m (src + word_of_int (i + 1) + of_nat k) =
          m (src + word_of_int (i + 1) + of_nat k)" if "k \<le> length xs'" for k
        using "1.prems"(6)[of "i + 1 + int k" i] that True xs
        by (auto simp: algebra_simps less_max_iff_disj)
      ultimately show ?thesis by (subst cstr_at_cong) auto
    qed
    then have IH: "cstr_at (strncpy_loop ?m dest src n (i + 1)) (dest + word_of_int (i + 1))
        (take (nat (n - 1 - (i + 1))) xs')
      \<and> (\<forall>a. (\<forall>k. i + 1 \<le> k \<and> k < max n 1 \<longrightarrow> a \<noteq> dest + word_of_int k) \<longrightarrow>
             strncpy_loop ?m dest src n (i + 1) a = ?m a)"
      using True "1.prems" xs by (intro "1.IH") (auto simp: fun_upd_def)
    have fresh: "dest + word_of_int i \<noteq> dest + word_of_int k" if "i + 1 \<le> k" "k < max n 1" for k
    proof -
      have "(word_of_int i :: u32) \<noteq> word_of_int k"
        using that "1.prems"(2,4) by (simp add: word_of_int_inj)
      then show ?thesis by simp
    qed
    have at: "strncpy_loop ?m dest src n (i + 1) (dest + word_of_int i) = x"
      using IH fresh xs by auto
    have "nat (n - 1 - i) = Suc (nat (n - 1 - (i + 1)))" using True by linarith
    then have "take (nat (n - 1 - i)) xs = x # take (nat (n - 1 - (i + 1))) xs'" using xs by simp
    then show ?thesis
      using True xs at IH by (simp add: strncpy_loop.simps[of m] algebra_simps) auto
  qed
qed

text \<open>The bytes a bounded copy into a buffer of \<open>n\<close> bytes may write.\<close>

lemma strncpy_cstr:
  assumes "cstr_at m src xs" "0 < n" "n \<le> 2 ^ 32" "length xs < 2 ^ 32"
    and "disjoint_regions dest (nat n) src (Suc (length xs))"
  shows "cstr_at (strncpy m dest src n) dest (take (nat (n - 1)) xs)"
    and "\<not> in_region dest (nat n) a \<Longrightarrow> strncpy m dest src n a = m a"
proof -
  have sep: "src + word_of_int j \<noteq> dest + word_of_int k"
    if "0 \<le> j" "j \<le> 0 + int (length xs)" "0 \<le> k" "k < max n 1" for j k
  proof
    assume eq: "src + word_of_int j = dest + word_of_int k"
    have "unat (word_of_int j :: u32) = nat j"
      using that assms(4) by (simp add: unat_eq_nat_uint uint_word_of_int_eq take_bit_int_eq_self)
    moreover have "unat (word_of_int k :: u32) = nat k"
      using that assms by (simp add: unat_eq_nat_uint uint_word_of_int_eq take_bit_int_eq_self)
    ultimately have j: "in_region src (Suc (length xs)) (src + word_of_int j)"
      and k: "in_region dest (nat n) (dest + word_of_int k)" using that assms(2) by auto
    from disjoint_regionsD[OF assms(5) j] k eq show False by metis
  qed
  note main = strncpy_loop_apply[of m src 0 xs n dest]
  show "cstr_at (strncpy m dest src n) dest (take (nat (n - 1)) xs)"
    using main assms sep by (simp add: strncpy_def)
  assume out: "\<not> in_region dest (nat n) a"
  have "a \<noteq> dest + word_of_int k" if "0 \<le> k" "k < max n 1" for k
    using out that assms(2,3)
    by (auto simp: unat_eq_nat_uint uint_word_of_int_eq take_bit_int_eq_self)
  then show "strncpy m dest src n a = m a"
    using main assms sep by (simp add: strncpy_def)
qed

lemma strcpy_cstr_aux:
  assumes "cstr_at m src xs" "length xs < 2 ^ 32"
    and "\<And>j k. j \<le> length xs \<Longrightarrow> k \<le> length xs \<Longrightarrow> src + of_nat j \<noteq> dest + of_nat k"
  shows "\<exists>m'. strcpy m dest src = Some m' \<and> cstr_at m' dest xs
    \<and> (\<forall>a. (\<forall>k \<le> length xs. a \<noteq> dest + of_nat k) \<longrightarrow> m' a = m a)"
  using assms
proof (induction xs arbitrary: m dest src)
  case Nil
  then show ?case by (subst strcpy.simps) auto
next
  case (Cons x xs)
  let ?m = "m(dest := x)"
  have str: "cstr_at ?m (src + 1) xs"
  proof -
    have "?m (src + 1 + of_nat k) = m (src + 1 + of_nat k)" if "k \<le> length xs" for k
      using Cons.prems(3)[of "Suc k" 0] that by (auto simp: algebra_simps)
    then show ?thesis using Cons.prems(1) by (subst cstr_at_cong[of xs _ _ m]) auto
  qed
  have sep: "src + 1 + of_nat j \<noteq> dest + 1 + of_nat k" if "j \<le> length xs" "k \<le> length xs" for j k
    using Cons.prems(3)[of "Suc j" "Suc k"] that by (simp add: algebra_simps)
  have "length xs < 2 ^ 32" using Cons.prems(2) by simp
  from Cons.IH[OF str this sep] obtain m' where
    m': "strcpy ?m (dest + 1) (src + 1) = Some m'" "cstr_at m' (dest + 1) xs"
      "\<And>a. (\<forall>k \<le> length xs. a \<noteq> dest + 1 + of_nat k) \<Longrightarrow> m' a = ?m a" by blast
  have "dest \<noteq> dest + 1 + of_nat k" if "k \<le> length xs" for k
  proof -
    have "unat (of_nat (Suc k) :: u32) = Suc k"
      using that Cons.prems(2) by (intro unat_of_nat_u32) simp
    then have "(of_nat (Suc k) :: u32) \<noteq> 0" by (metis nat.distinct(1) unat_0)
    then show ?thesis by (simp add: algebra_simps)
  qed
  then have "m' dest = x" using m'(3)[of dest] by simp
  moreover have "strcpy m dest src = Some m'"
    using Cons.prems(1) m'(1) by (subst strcpy.simps) simp
  moreover have "m' a = m a" if "\<forall>k \<le> length (x # xs). a \<noteq> dest + of_nat k" for a
  proof -
    have "a \<noteq> dest" using that[rule_format, of 0] by simp
    moreover have "a \<noteq> dest + 1 + of_nat k" if "k \<le> length xs" for k
      using \<open>\<forall>k \<le> length (x # xs). a \<noteq> dest + of_nat k\<close>[rule_format, of "Suc k"] that
      by (simp add: add.assoc)
    ultimately show ?thesis using m'(3)[of a] by simp
  qed
  ultimately show ?case using m'(2) Cons.prems(1) by auto
qed

lemma in_region_of_nat: "k < 2 ^ 32 \<Longrightarrow> in_region p n (p + of_nat k) \<longleftrightarrow> k < n"
  by (simp add: unat_of_nat_u32)

lemma strcpy_cstr:
  assumes "cstr_at m src xs" "length xs < 2 ^ 32 - 1"
    and "disjoint_regions dest (Suc (length xs)) src (Suc (length xs))"
  shows "\<exists>m'. strcpy m dest src = Some m' \<and> cstr_at m' dest xs
    \<and> (\<forall>a. \<not> in_region dest (Suc (length xs)) a \<longrightarrow> m' a = m a)"
proof -
  have sep: "src + of_nat j \<noteq> dest + of_nat k" if "j \<le> length xs" "k \<le> length xs" for j k
  proof -
    have "in_region src (Suc (length xs)) (src + of_nat j)"
      "in_region dest (Suc (length xs)) (dest + of_nat k)"
      using that assms(2) by (subst in_region_of_nat; simp)+
    then show ?thesis using disjoint_regionsD[OF assms(3), of "src + of_nat j"] by auto
  qed
  have out: "a \<noteq> dest + of_nat k" if "\<not> in_region dest (Suc (length xs)) a" "k \<le> length xs" for a k
    using that assms(2) in_region_of_nat[of k dest "Suc (length xs)"] by auto
  have "length xs < 2 ^ 32" using assms(2) by simp
  from strcpy_cstr_aux[OF assms(1) this sep] obtain m' where
    "strcpy m dest src = Some m'" "cstr_at m' dest xs"
    "\<And>a. \<forall>k \<le> length xs. a \<noteq> dest + of_nat k \<Longrightarrow> m' a = m a" by auto
  then show ?thesis using out by (intro exI[of _ m']) simp
qed

subsection \<open>Comparisons\<close>

lemma tolower_0_iff [simp]: "tolower c = 0 \<longleftrightarrow> c = 0"
proof -
  have "c + 32 \<noteq> 0" if "65 \<le> sint c" "sint c \<le> 90"
  proof
    assume "c + 32 = 0"
    then have "c = - 32" by (simp add: eq_neg_iff_add_eq_0)
    then have "sint c = - 32" by simp
    with that show False by simp
  qed
  then show ?thesis by (auto simp: tolower_def)
qed

lemma tolower_0 [simp]: "tolower 0 = 0" "0 = tolower c \<longleftrightarrow> c = 0"
  by (simp, metis tolower_0_iff)

lemma strncmp_cstr:
  assumes "cstr_at m p xs" "cstr_at m q ys"
  shows "strncmp m p q n = 0 \<longleftrightarrow> take (nat n) xs = take (nat n) ys"
  using assms
proof (induction xs arbitrary: p q ys n)
  case Nil
  then show ?case
    by (cases ys; cases "0 < n") (auto simp: strncmp.simps[of m p] uint_0_iff)
next
  case (Cons x xs)
  show ?case
  proof (cases "0 < n")
    case True
    then have n: "nat n = Suc (nat (n - 1))" by simp
    show ?thesis
    proof (cases ys)
      case Nil
      then show ?thesis using Cons.prems True n by (auto simp: strncmp.simps[of m p] uint_0_iff)
    next
      case (Cons y ys')
      then show ?thesis using Cons.prems True n Cons.IH[of "p + 1" "q + 1" ys' "n - 1"]
        by (auto simp: strncmp.simps[of m p] dest!: unsigned_word_eqI)
    qed
  qed (simp add: strncmp.simps[of m p])
qed

lemma istrncmp_cstr:
  assumes "cstr_at m p xs" "cstr_at m q ys"
  shows "istrncmp m p q n = 0 \<longleftrightarrow>
    map tolower (take (nat n) xs) = map tolower (take (nat n) ys)"
  using assms
proof (induction xs arbitrary: p q ys n)
  case Nil
  then show ?case
    by (cases ys; cases "0 < n") (auto simp: istrncmp.simps[of m p] uint_0_iff)
next
  case (Cons x xs)
  show ?case
  proof (cases "0 < n")
    case True
    then have n: "nat n = Suc (nat (n - 1))" by simp
    show ?thesis
    proof (cases ys)
      case Nil
      have "tolower x \<noteq> tolower 0" using Cons.prems by (metis cstr_at.simps(2) tolower_0_iff)
      then show ?thesis using Nil Cons.prems True n
        by (auto simp: istrncmp.simps[of m p] uint_0_iff)
    next
      case (Cons y ys')
      then show ?thesis using Cons.prems True n Cons.IH[of "p + 1" "q + 1" ys' "n - 1"]
        by (auto simp: istrncmp.simps[of m p] dest!: unsigned_word_eqI)
    qed
  qed (simp add: istrncmp.simps[of m p])
qed

subsection \<open>Properties\<close>

text \<open>
  \<^verbatim>\<open>strlen\<close> returns exactly when a terminator can be reached from the pointer, and then its value
  is the number of bytes before the first one.
\<close>

theorem strlen_returns_iff:
  "strlen m p = Some n \<longleftrightarrow> (\<exists>xs. cstr_at m p xs \<and> n = of_nat (length xs))"
  by (rule strlen_Some_iff)

text \<open>
  \<^verbatim>\<open>strnlen\<close> returns the length of the string cut at \<open>max_len\<close>; with \<open>max_len = 0\<close> it does not
  bound anything and returns the whole length.
\<close>

theorem strnlen_bounded:
  assumes "cstr_at m p xs" "length xs < 2 ^ 32"
  shows "unat (strnlen m p max_len) = (if max_len = 0 then length xs else min (length xs) (unat max_len))"
  using strnlen_cstr[OF assms] strnlen_zero_bound[OF assms] assms(2) by (simp add: unat_of_nat_u32)

theorem strnlen_bounded_witness:
  "unat (strnlen ((\<lambda>_. 0)(0x10 := 97, 0x11 := 98, 0x12 := 99)) 0x10 2) = 2"
  using strnlen_bounded[of "(\<lambda>_. 0)(0x10 := 97, 0x11 := 98, 0x12 := 99)" "0x10" "[97, 98, 99]" 2]
  by simp

text \<open>
  \<^verbatim>\<open>strncpy\<close> always terminates its copy: with \<open>n > 0\<close> and areas that do not overlap, the destination
  holds the first \<open>n - 1\<close> characters of the source, and no byte outside its \<open>n\<close> bytes changes.
\<close>

theorem strncpy_copies:
  assumes "cstr_at m src xs" "0 < n" "n \<le> 2 ^ 32" "length xs < 2 ^ 32"
    and "disjoint_regions dest (nat n) src (Suc (length xs))"
  shows "cstr_at (strncpy m dest src n) dest (take (nat (n - 1)) xs)
    \<and> (\<forall>a. \<not> in_region dest (nat n) a \<longrightarrow> strncpy m dest src n a = m a)"
  using strncpy_cstr[OF assms] by blast

theorem strncpy_copies_witness:
  "cstr_at (strncpy ((\<lambda>_. 0)(0x10 := 97, 0x11 := 98, 0x12 := 99)) 0x40 0x10 3) 0x40 [97, 98]"
  using strncpy_copies[of "(\<lambda>_. 0)(0x10 := 97, 0x11 := 98, 0x12 := 99)" "0x10" "[97, 98, 99]" 3 "0x40"]
  by (simp add: disjoint_regions_def)

text \<open>
  \<^verbatim>\<open>strcpy\<close> terminates on every terminated source that does not overlap its destination, copies it
  with its terminator and changes nothing else.
\<close>

theorem strcpy_copies:
  assumes "cstr_at m src xs" "length xs < 2 ^ 32 - 1"
    and "disjoint_regions dest (Suc (length xs)) src (Suc (length xs))"
  shows "\<exists>m'. strcpy m dest src = Some m' \<and> cstr_at m' dest xs
    \<and> (\<forall>a. \<not> in_region dest (Suc (length xs)) a \<longrightarrow> m' a = m a)"
  using assms by (rule strcpy_cstr)

theorem strcpy_copies_witness:
  "\<exists>m'. strcpy ((\<lambda>_. 0)(0x10 := 97, 0x11 := 98)) 0x40 0x10 = Some m' \<and> cstr_at m' 0x40 [97, 98]"
  using strcpy_copies[of "(\<lambda>_. 0)(0x10 := 97, 0x11 := 98)" "0x10" "[97, 98]" "0x40"]
  by (auto simp: disjoint_regions_def)

text \<open>
  \<^verbatim>\<open>istrncmp\<close> answers 0 exactly for strings that agree on their first \<open>n\<close> characters up to the case
  of ASCII letters; \<^verbatim>\<open>strncmp\<close> exactly for strings that agree on them.
\<close>

theorem string_compare_equal:
  assumes "cstr_at m p xs" "cstr_at m q ys"
  shows "(istrncmp m p q n = 0 \<longleftrightarrow> map tolower (take (nat n) xs) = map tolower (take (nat n) ys))
    \<and> (strncmp m p q n = 0 \<longleftrightarrow> take (nat n) xs = take (nat n) ys)"
  using istrncmp_cstr[OF assms] strncmp_cstr[OF assms] by blast

theorem string_compare_equal_witness:
  "istrncmp ((\<lambda>_. 0)(0x10 := 97, 0x11 := 66, 0x20 := 65, 0x21 := 98)) 0x10 0x20 5 = 0"
  using string_compare_equal[of "(\<lambda>_. 0)(0x10 := 97, 0x11 := 66, 0x20 := 65, 0x21 := 98)" "0x10"
      "[97, 66]" "0x20" "[65, 98]" 5]
  by (simp add: tolower_def)

end
