(* ===== verification/Heap.thy ===== *)
theory Heap
  imports Memory
begin

text \<open>
  \<^verbatim>\<open>src/src/memory/heap/heap.c\<close> and \<^verbatim>\<open>heap.h\<close>: the block allocator.  The table of entry bytes lives
  in the flat memory at \<open>entries\<close>, as in the kernel, so a write outside the table is a write to
  whatever lies beside it.

  The abstract state of the allocator is a map \<open>A\<close> from the first block of each live allocation to
  its length in blocks; \<open>heap_rel h m A\<close> says that the table in \<open>m\<close> represents \<open>A\<close>.  The lemmas show
  that \<open>heap_get_start_block\<close> is first fit where a fit exists (and what it returns where none does),
  that \<open>heap_malloc\<close> adds a fresh, disjoint allocation to \<open>A\<close> and \<open>heap_free\<close> removes one, and that
  neither writes outside the table.
\<close>

subsection \<open>heap.h\<close>

abbreviation (input) HEAP_BLOCK_TABLE_ENTRY_TAKEN :: u8 where "HEAP_BLOCK_TABLE_ENTRY_TAKEN \<equiv> 0x01"
abbreviation (input) HEAP_BLOCK_TABLE_ENTRY_FREE :: u8 where "HEAP_BLOCK_TABLE_ENTRY_FREE \<equiv> 0x00"
abbreviation (input) HEAP_BLOCK_HAS_NEXT :: u8 where "HEAP_BLOCK_HAS_NEXT \<equiv> 0x80"
abbreviation (input) HEAP_BLOCK_IS_FIRST :: u8 where "HEAP_BLOCK_IS_FIRST \<equiv> 0x40"

record heap_table =
  entries :: u32
  total_entries :: u32

record heap =
  heap_tab :: heap_table
  saddr :: u32

subsection \<open>Creation\<close>

definition heap_validate_alignment :: "u32 \<Rightarrow> bool" where
  "heap_validate_alignment ptr \<longleftrightarrow> ptr mod RAOS_HEAP_BLOCK_SIZE = 0"

definition heap_validate_table :: "u32 \<Rightarrow> u32 \<Rightarrow> heap_table \<Rightarrow> int" where
  "heap_validate_table ptr end_ptr table =
     (let table_size = end_ptr - ptr;
          total_blocks = table_size div RAOS_HEAP_BLOCK_SIZE
      in if total_entries table \<noteq> total_blocks then - EINVARG else 0)"

definition heap_create :: "heap \<Rightarrow> u32 \<Rightarrow> u32 \<Rightarrow> heap_table \<Rightarrow> mem \<Rightarrow> int \<times> heap \<times> mem" where
  "heap_create h ptr end_ptr table m =
     (if \<not> heap_validate_alignment ptr \<or> \<not> heap_validate_alignment end_ptr
      then (- EINVARG, h, m)
      else let h' = \<lparr>heap_tab = table, saddr = ptr\<rparr>;
               res = heap_validate_table ptr end_ptr table
           in if res < 0 then (res, h', m)
              else (res, h', memset m (entries table) HEAP_BLOCK_TABLE_ENTRY_FREE
                               (1 * total_entries table)))"

subsection \<open>Allocation\<close>

definition heap_round_value_to_upper :: "u32 \<Rightarrow> u32" where
  "heap_round_value_to_upper val =
     (if val mod RAOS_HEAP_BLOCK_SIZE = 0 then val
      else (val - val mod RAOS_HEAP_BLOCK_SIZE) + RAOS_HEAP_BLOCK_SIZE)"

definition heap_get_entry_type :: "u8 \<Rightarrow> u8" where
  "heap_get_entry_type entry = entry AND 0x0f"

function heap_start_block_loop ::
    "heap_table \<Rightarrow> u32 \<Rightarrow> mem \<Rightarrow> u32 \<Rightarrow> int \<Rightarrow> int \<Rightarrow> int" where
  "heap_start_block_loop table total_blocks m i bc bs =
     (if i < total_entries table
      then if heap_get_entry_type (m (entries table + i)) \<noteq> HEAP_BLOCK_TABLE_ENTRY_FREE
           then heap_start_block_loop table total_blocks m (i + 1) 0 (- 1)
           else let bs' = (if bs = - 1 then sint i else bs); bc' = bc + 1
                in if word_of_int bc' = total_blocks then bs'
                   else heap_start_block_loop table total_blocks m (i + 1) bc' bs'
      else bs)"
  by pat_completeness auto
termination
  by (relation "measure (\<lambda>(table, n, m, i, bc, bs). unat (total_entries table) - unat i)")
     (auto simp: word_less_nat_alt)

declare heap_start_block_loop.simps [simp del]

definition heap_get_start_block :: "heap \<Rightarrow> u32 \<Rightarrow> mem \<Rightarrow> int" where
  "heap_get_start_block h total_blocks m =
     (let bs = heap_start_block_loop (heap_tab h) total_blocks m 0 0 (- 1)
      in if bs = - 1 then - ENOMEM else bs)"

definition heap_block_to_address :: "heap \<Rightarrow> int \<Rightarrow> u32" where
  "heap_block_to_address h block_idx = saddr h + word_of_int (block_idx * RAOS_HEAP_BLOCK_SIZE)"

function heap_mark_taken_loop :: "heap \<Rightarrow> int \<Rightarrow> int \<Rightarrow> u8 \<Rightarrow> mem \<Rightarrow> mem" where
  "heap_mark_taken_loop h end_block i entry m =
     (if i \<le> end_block
      then heap_mark_taken_loop h end_block (i + 1)
             (HEAP_BLOCK_TABLE_ENTRY_TAKEN OR
                (if i \<noteq> end_block - 1 then HEAP_BLOCK_HAS_NEXT else 0))
             (m(entries (heap_tab h) + word_of_int i := entry))
      else m)"
  by pat_completeness auto
termination
  by (relation "measure (\<lambda>(h, e, i, entry, m). nat (e + 1 - i))") auto

declare heap_mark_taken_loop.simps [simp del]

definition heap_mark_blocks_taken :: "heap \<Rightarrow> int \<Rightarrow> int \<Rightarrow> mem \<Rightarrow> mem" where
  "heap_mark_blocks_taken h start_block total_block m =
     (let end_block = (start_block + total_block) - 1;
          entry = HEAP_BLOCK_TABLE_ENTRY_TAKEN OR HEAP_BLOCK_IS_FIRST;
          entry' = (if total_block > 1 then entry OR HEAP_BLOCK_HAS_NEXT else entry)
      in heap_mark_taken_loop h end_block start_block entry' m)"

definition heap_malloc_blocks :: "heap \<Rightarrow> u32 \<Rightarrow> mem \<Rightarrow> u32 \<times> mem" where
  "heap_malloc_blocks h total_blocks m =
     (let start_block = heap_get_start_block h total_blocks m
      in if start_block < 0 then (NULL, m)
         else (heap_block_to_address h start_block,
               heap_mark_blocks_taken h start_block (sint total_blocks) m))"

definition heap_malloc :: "heap \<Rightarrow> u32 \<Rightarrow> mem \<Rightarrow> u32 \<times> mem" where
  "heap_malloc h sz m =
     (let aligned_size = heap_round_value_to_upper sz;
          total_blocks = aligned_size div RAOS_HEAP_BLOCK_SIZE
      in heap_malloc_blocks h total_blocks m)"

subsection \<open>Release\<close>

definition heap_address_to_block :: "heap \<Rightarrow> u32 \<Rightarrow> int" where
  "heap_address_to_block h address = sint (address - saddr h) sdiv RAOS_HEAP_BLOCK_SIZE"

function heap_mark_block_free_loop :: "heap_table \<Rightarrow> int \<Rightarrow> mem \<Rightarrow> mem" where
  "heap_mark_block_free_loop table i m =
     (if i < sint (total_entries table)
      then let entry = m (entries table + word_of_int i);
               m' = m(entries table + word_of_int i := HEAP_BLOCK_TABLE_ENTRY_FREE)
           in if entry AND HEAP_BLOCK_HAS_NEXT = 0 then m'
              else heap_mark_block_free_loop table (i + 1) m'
      else m)"
  by pat_completeness auto
termination
  by (relation "measure (\<lambda>(table, i, m). nat (sint (total_entries table) - i))") auto

declare heap_mark_block_free_loop.simps [simp del]

definition heap_mark_block_free :: "heap \<Rightarrow> int \<Rightarrow> mem \<Rightarrow> mem" where
  "heap_mark_block_free h start_block m = heap_mark_block_free_loop (heap_tab h) start_block m"

definition heap_free :: "heap \<Rightarrow> u32 \<Rightarrow> mem \<Rightarrow> mem" where
  "heap_free h ptr m = heap_mark_block_free h (heap_address_to_block h ptr) m"

subsection \<open>The abstract allocator\<close>

definition run_entry :: "nat \<Rightarrow> nat \<Rightarrow> u8" where
  "run_entry n k = 0x01 OR (if k = 0 then 0x40 else 0) OR (if Suc k < n then 0x80 else 0)"

definition nblocks :: "heap \<Rightarrow> nat" where
  "nblocks h = unat (total_entries (heap_tab h))"

definition tab_entry :: "heap \<Rightarrow> mem \<Rightarrow> nat \<Rightarrow> u8" where
  "tab_entry h m i = m (entries (heap_tab h) + of_nat i)"

definition block_free :: "heap \<Rightarrow> mem \<Rightarrow> nat \<Rightarrow> bool" where
  "block_free h m i \<longleftrightarrow> heap_get_entry_type (tab_entry h m i) = HEAP_BLOCK_TABLE_ENTRY_FREE"

definition block_addr :: "heap \<Rightarrow> nat \<Rightarrow> u32" where
  "block_addr h s = saddr h + of_nat (4096 * s)"

text \<open>The table and the pool lie inside the address space, below the signed-offset limit, and apart.\<close>

definition heap_wf :: "heap \<Rightarrow> bool" where
  "heap_wf h \<longleftrightarrow> saddr h mod 4096 = 0 \<and> 0 < unat (saddr h)
     \<and> 4096 * nblocks h < 2 ^ 31
     \<and> unat (saddr h) + 4096 * nblocks h \<le> 2 ^ 32
     \<and> unat (entries (heap_tab h)) + nblocks h \<le> 2 ^ 32
     \<and> (unat (entries (heap_tab h)) + nblocks h \<le> unat (saddr h)
        \<or> unat (saddr h) + 4096 * nblocks h \<le> unat (entries (heap_tab h)))"

definition taken_by :: "(nat \<rightharpoonup> nat) \<Rightarrow> nat \<Rightarrow> nat \<Rightarrow> bool" where
  "taken_by A i s \<longleftrightarrow> (\<exists>n. A s = Some n \<and> s \<le> i \<and> i < s + n)"

definition allocs_ok :: "nat \<Rightarrow> (nat \<rightharpoonup> nat) \<Rightarrow> bool" where
  "allocs_ok T A \<longleftrightarrow> (\<forall>s n. A s = Some n \<longrightarrow> 0 < n \<and> s + n \<le> T)
     \<and> (\<forall>i s s'. taken_by A i s \<longrightarrow> taken_by A i s' \<longrightarrow> s = s')"

definition heap_rel :: "heap \<Rightarrow> mem \<Rightarrow> (nat \<rightharpoonup> nat) \<Rightarrow> bool" where
  "heap_rel h m A \<longleftrightarrow> heap_wf h \<and> allocs_ok (nblocks h) A
     \<and> (\<forall>s n k. A s = Some n \<longrightarrow> k < n \<longrightarrow> tab_entry h m (s + k) = run_entry n k)
     \<and> (\<forall>i < nblocks h. (\<forall>s. \<not> taken_by A i s) \<longrightarrow> tab_entry h m i = 0)"

definition fits :: "(nat \<Rightarrow> bool) \<Rightarrow> nat \<Rightarrow> nat \<Rightarrow> nat \<Rightarrow> bool" where
  "fits F T n s \<longleftrightarrow> s + n \<le> T \<and> (\<forall>k < n. F (s + k))"

definition first_fit :: "(nat \<Rightarrow> bool) \<Rightarrow> nat \<Rightarrow> nat \<Rightarrow> nat" where
  "first_fit F T n = (LEAST s. fits F T n s)"

text \<open>Where the free blocks at the end of the table start.\<close>

definition tail_start :: "(nat \<Rightarrow> bool) \<Rightarrow> nat \<Rightarrow> nat" where
  "tail_start F T = (LEAST s. \<forall>k. s \<le> k \<and> k < T \<longrightarrow> F k)"

definition blocks_of :: "u32 \<Rightarrow> nat" where
  "blocks_of sz = (unat sz + 4095) div 4096"

subsection \<open>First fit\<close>

lemma heap_wf_nblocks: "heap_wf h \<Longrightarrow> nblocks h < 2 ^ 19"
  by (simp add: heap_wf_def)

lemma sint_of_nat_small: "n < 2 ^ 31 \<Longrightarrow> sint (of_nat n :: u32) = int n"
  by (simp add: signed_of_nat signed_take_bit_eq_if_positive take_bit_int_eq_self bit_iff_odd
      flip: of_nat_eq_id)

lemma heap_start_block_loop_spec:
  fixes h :: heap and m :: mem and total_blocks :: u32
  defines "F \<equiv> block_free h m" and "T \<equiv> nblocks h" and "n \<equiv> unat total_blocks"
  assumes T: "T < 2 ^ 31" and "i \<le> T" "b \<le> i" "0 < n \<Longrightarrow> i - b < n"
    and run: "\<And>k. b \<le> k \<Longrightarrow> k < i \<Longrightarrow> F k"
    and stop: "0 < b \<Longrightarrow> \<not> F (b - 1)"
    and nofit: "\<And>s. 0 < n \<Longrightarrow> s < b \<Longrightarrow> \<not> fits F T n s"
  shows "heap_start_block_loop (heap_tab h) total_blocks m (of_nat i) (int (i - b))
           (if b = i then - 1 else int b) =
         (if 0 < n \<and> (\<exists>s. fits F T n s) then int (first_fit F T n)
          else if 0 < T \<and> F (T - 1) then int (tail_start F T)
          else - 1)"
  using assms(5-)
proof (induction "T - i" arbitrary: i b)
  case 0
  then have iT: "i = T" by simp
  have none: "\<not> (0 < n \<and> (\<exists>s. fits F T n s))"
  proof clarsimp
    fix s assume "0 < n" "fits F T n s"
    then show False using 0 iT by (cases "s < b") (auto simp: fits_def)
  qed
  have loop: "heap_start_block_loop (heap_tab h) total_blocks m (of_nat i) c bs = bs" for c bs
    using iT T unfolding T_def nblocks_def by (subst heap_start_block_loop.simps) simp
  show ?case
  proof (cases "b = i")
    case True
    then show ?thesis using loop none 0 iT by auto
  next
    case False
    have "F (T - 1)" "0 < T" using False 0 iT by auto
    moreover have "tail_start F T = b" unfolding tail_start_def
    proof (rule Least_equality)
      show "\<forall>k. b \<le> k \<and> k < T \<longrightarrow> F k" using 0 iT by auto
      fix y assume y: "\<forall>k. y \<le> k \<and> k < T \<longrightarrow> F k"
      show "b \<le> y"
      proof (rule ccontr)
        assume "\<not> b \<le> y"
        then have "y \<le> b - 1" "b - 1 < T" "0 < b" using 0 iT False by auto
        then show False using y 0(6) by blast
      qed
    qed
    ultimately show ?thesis using loop none False by auto
  qed
next
  case (Suc d)
  then have iT: "i < T" by simp
  have lt: "of_nat i < total_entries (heap_tab h)"
    using iT T unfolding T_def nblocks_def
    by (simp add: word_less_nat_alt unat_of_nat_u32)
  have ty: "heap_get_entry_type (m (entries (heap_tab h) + of_nat i)) = 0 \<longleftrightarrow> F i"
    by (simp add: F_def block_free_def tab_entry_def)
  have si: "sint (of_nat i :: u32) = int i" using iT T by (intro sint_of_nat_small) simp
  note unfold = heap_start_block_loop.simps[of "heap_tab h" total_blocks m "of_nat i"]
  show ?case
  proof (cases "F i")
    case False
    have "heap_start_block_loop (heap_tab h) total_blocks m (of_nat (Suc i)) (int (Suc i - Suc i))
           (if Suc i = Suc i then - 1 else int (Suc i)) =
         (if 0 < n \<and> (\<exists>s. fits F T n s) then int (first_fit F T n)
          else if 0 < T \<and> F (T - 1) then int (tail_start F T)
          else - 1)"
    proof (rule Suc.hyps(1))
      fix s assume s: "0 < n" "s < Suc i"
      show "\<not> fits F T n s"
      proof
        assume fit: "fits F T n s"
        have "b \<le> s" using Suc.prems(6)[of s] s fit by (meson not_le)
        then have "F (s + (i - s))" using fit s Suc.prems(3) unfolding fits_def
          by (metis diff_le_mono2 le_less_trans)
        then show False using False s by simp
      qed
    qed (use False Suc iT in auto)
    then show ?thesis using False lt ty by (simp add: unfold add.commute)
  next
    case True
    have bs: "(if (if b = i then - 1 else int b) = - 1 then sint (of_nat i :: u32)
        else if b = i then - 1 else int b) = int b" using si by simp
    have bc: "int (i - b) + 1 = int (Suc i - b)" using Suc.prems(2) by simp
    have w: "(of_nat (Suc i - b) :: u32) = total_blocks \<longleftrightarrow> Suc i - b = n"
    proof -
      have "unat (of_nat (Suc i - b) :: u32) = Suc i - b"
        using iT T by (intro unat_of_nat_u32) simp
      then show ?thesis unfolding n_def by (metis unsigned_word_eqI)
    qed
    have step: "heap_start_block_loop (heap_tab h) total_blocks m (of_nat i) (int (i - b))
        (if b = i then - 1 else int b) =
      (if Suc i - b = n then int b
       else heap_start_block_loop (heap_tab h) total_blocks m (of_nat (Suc i)) (int (Suc i - b)) (int b))"
      unfolding unfold Let_def bs bc of_int_of_nat_eq w
      using lt ty True by (simp add: add.commute del: of_nat_diff)
    show ?thesis
    proof (cases "Suc i - b = n")
      case eq: True
      have fit: "fits F T n b"
        unfolding fits_def
      proof (intro conjI allI impI)
        show "b + n \<le> T" using eq iT Suc.prems(2) by simp
        fix k assume "k < n"
        then have "b + k = i \<or> b + k < i" using eq by arith
        then show "F (b + k)" using True Suc.prems(4)[of "b + k"] by auto
      qed
      moreover have "first_fit F T n = b" unfolding first_fit_def
      proof (rule Least_equality[of "fits F T n", OF fit])
        fix y assume "fits F T n y"
        moreover have "0 < n" using eq Suc.prems(2) by simp
        ultimately show "b \<le> y" using Suc.prems(6)[of y] by (meson not_le)
      qed
      ultimately show ?thesis unfolding step using eq Suc.prems(2) by auto
    next
      case neq: False
      have "heap_start_block_loop (heap_tab h) total_blocks m (of_nat (Suc i)) (int (Suc i - b))
           (if b = Suc i then - 1 else int b) =
         (if 0 < n \<and> (\<exists>s. fits F T n s) then int (first_fit F T n)
          else if 0 < T \<and> F (T - 1) then int (tail_start F T)
          else - 1)"
        using neq Suc True iT by (intro Suc.hyps(1)) (auto simp: less_Suc_eq)
      then show ?thesis unfolding step using neq Suc.prems(2) by (simp del: of_nat_diff)
    qed
  qed
qed

lemma heap_get_start_block_spec:
  assumes "heap_wf h"
  shows "heap_get_start_block h total_blocks m =
    (if 0 < total_blocks \<and> (\<exists>s. fits (block_free h m) (nblocks h) (unat total_blocks) s)
     then int (first_fit (block_free h m) (nblocks h) (unat total_blocks))
     else if 0 < nblocks h \<and> block_free h m (nblocks h - 1)
     then int (tail_start (block_free h m) (nblocks h))
     else - ENOMEM)"
  using heap_start_block_loop_spec[of h 0 0 total_blocks m] heap_wf_nblocks[OF assms]
  by (auto simp: heap_get_start_block_def Let_def word_gt_0 unat_gt_0)

lemma first_fit_fits: "fits F T n s \<Longrightarrow> fits F T n (first_fit F T n)"
  unfolding first_fit_def by (rule LeastI)

lemma first_fit_least: "fits F T n s \<Longrightarrow> first_fit F T n \<le> s"
  unfolding first_fit_def by (rule Least_le)

lemma tail_start_props:
  assumes "0 < T" "F (T - 1)"
  shows "tail_start F T < T" "\<And>k. tail_start F T \<le> k \<Longrightarrow> k < T \<Longrightarrow> F k"
proof -
  let ?P = "\<lambda>s. \<forall>k. s \<le> k \<and> k < T \<longrightarrow> F k"
  have P: "?P (T - 1)"
  proof (intro allI impI)
    fix k assume "T - 1 \<le> k \<and> k < T"
    then have "k = T - 1" by linarith
    then show "F k" using assms(2) by simp
  qed
  have "?P (LEAST s. ?P s)" using P by (rule LeastI)
  then show "\<And>k. tail_start F T \<le> k \<Longrightarrow> k < T \<Longrightarrow> F k" unfolding tail_start_def by blast
  have "(LEAST s. ?P s) \<le> T - 1" using P by (rule Least_le)
  then show "tail_start F T < T" using assms(1) by (simp add: tail_start_def)
qed

subsection \<open>Marking runs of blocks\<close>

lemma u32_table_index_inj:
  "i < 2 ^ 32 \<Longrightarrow> j < 2 ^ 32 \<Longrightarrow> (p :: u32) + of_nat i = p + of_nat j \<longleftrightarrow> i = j"
  by (metis add_left_cancel unat_of_nat_u32)

lemma run_split:
  assumes "d < n"
  shows "(\<exists>k. n - Suc d \<le> k \<and> k < n \<and> P k) \<longleftrightarrow>
    P (n - Suc d) \<or> (\<exists>k. n - d \<le> k \<and> k < n \<and> P k)"
proof -
  have "n - Suc d \<le> k \<longleftrightarrow> k = n - Suc d \<or> n - d \<le> k" for k using assms by arith
  then show ?thesis using assms by auto
qed

lemma heap_mark_taken_loop_apply:
  assumes "d \<le> n" "s + n < 2 ^ 31"
  shows "heap_mark_taken_loop h (int (s + n) - 1) (int (s + n - d)) (run_entry n (n - d)) m =
    (\<lambda>a. if \<exists>k. n - d \<le> k \<and> k < n \<and> a = entries (heap_tab h) + of_nat (s + k)
         then run_entry n (unat (a - entries (heap_tab h)) - s) else m a)"
  using assms(1)
proof (induction d arbitrary: m)
  case 0
  then show ?case by (auto simp: heap_mark_taken_loop.simps fun_eq_iff)
next
  case (Suc d)
  let ?k = "n - Suc d"
  let ?p = "entries (heap_tab h) + of_nat (s + ?k)"
  have idx: "s + n - Suc d = s + ?k" "int (s + n - Suc d) + 1 = int (s + n - d)"
    using Suc.prems by auto
  have nxt: "(1 :: u8) OR (if int (s + n - Suc d) \<noteq> int (s + n) - 1 - 1 then 0x80 else 0) =
      run_entry n (n - d)" if "0 < d"
    using that Suc.prems by (auto simp: run_entry_def)
  have step: "heap_mark_taken_loop h (int (s + n) - 1) (int (s + n - Suc d))
      (run_entry n (n - Suc d)) m =
      heap_mark_taken_loop h (int (s + n) - 1) (int (s + n - d))
        ((1 :: u8) OR (if int (s + n - Suc d) \<noteq> int (s + n) - 1 - 1 then 0x80 else 0))
        (m(?p := run_entry n ?k))"
  proof -
    have "int (s + n - Suc d) \<le> int (s + n) - 1" using Suc.prems by simp
    moreover have "(word_of_int (int (s + n - Suc d)) :: u32) = of_nat (s + ?k)"
      unfolding idx(1) by (rule of_int_of_nat_eq)
    ultimately show ?thesis
      by (simp only: heap_mark_taken_loop.simps[of h "int (s + n) - 1" "int (s + n - Suc d)"]
          if_True idx(2))
  qed
  have un: "unat (entries (heap_tab h) + of_nat (s + ?k) - entries (heap_tab h)) - s = ?k"
    using assms(2) Suc.prems unat_of_nat_u32[of "s + ?k"] by (simp del: of_nat_add of_nat_diff)
  show ?case
  proof (cases "d = 0")
    case True
    have "heap_mark_taken_loop h (int (s + n) - 1) (int (s + n)) e m' = m'" for e m'
      by (subst heap_mark_taken_loop.simps) simp
    then have "heap_mark_taken_loop h (int (s + n) - 1) (int (s + n - Suc d))
        (run_entry n (n - Suc d)) m = m(?p := run_entry n ?k)"
      using step True by (simp del: of_nat_add)
    moreover have "(\<exists>k. n - Suc d \<le> k \<and> k < n \<and> a = entries (heap_tab h) + of_nat (s + k)) \<longleftrightarrow> a = ?p" for a
    proof
      assume "\<exists>k. n - Suc d \<le> k \<and> k < n \<and> a = entries (heap_tab h) + of_nat (s + k)"
      then obtain k where "n - Suc d \<le> k" "k < n" "a = entries (heap_tab h) + of_nat (s + k)"
        by blast
      moreover from this have "k = ?k" using True by linarith
      ultimately show "a = ?p" by simp
    qed (use True Suc.prems in auto)
    ultimately show ?thesis using un by (auto simp: fun_eq_iff simp del: of_nat_add)
  next
    case False
    have ex: "(\<exists>k. n - Suc d \<le> k \<and> k < n \<and> a = entries (heap_tab h) + of_nat (s + k)) \<longleftrightarrow>
      a = ?p \<or> (\<exists>k. n - d \<le> k \<and> k < n \<and> a = entries (heap_tab h) + of_nat (s + k))" for a
      using Suc.prems by (intro run_split) simp
    show ?thesis
      unfolding step using Suc nxt False un
      by (auto simp: fun_eq_iff ex simp del: of_nat_add)
  qed
qed

lemma heap_mark_blocks_taken_apply:
  assumes "0 < n" "s + n < 2 ^ 31"
  shows "heap_mark_blocks_taken h (int s) (int n) m =
    (\<lambda>a. if \<exists>k < n. a = entries (heap_tab h) + of_nat (s + k)
         then run_entry n (unat (a - entries (heap_tab h)) - s) else m a)"
proof -
  have "heap_mark_blocks_taken h (int s) (int n) m =
    heap_mark_taken_loop h (int (s + n) - 1) (int (s + n - n)) (run_entry n (n - n)) m"
    using assms(1) by (auto simp: heap_mark_blocks_taken_def run_entry_def Let_def)
  also have "\<dots> = (\<lambda>a. if \<exists>k. n - n \<le> k \<and> k < n \<and> a = entries (heap_tab h) + of_nat (s + k)
         then run_entry n (unat (a - entries (heap_tab h)) - s) else m a)"
    using assms by (intro heap_mark_taken_loop_apply) auto
  finally show ?thesis by simp
qed

lemma run_entry_has_next: "run_entry n k AND 0x80 = 0 \<longleftrightarrow> \<not> Suc k < n"
  by (auto simp: run_entry_def)

lemma run_entry_type: "heap_get_entry_type (run_entry n k) \<noteq> 0"
  by (auto simp: run_entry_def heap_get_entry_type_def)

lemma heap_mark_block_free_loop_apply:
  assumes "d \<le> n" "0 < d" "s + n \<le> nblocks h" "nblocks h < 2 ^ 31"
    and "\<And>k. n - d \<le> k \<Longrightarrow> k < n \<Longrightarrow> tab_entry h m (s + k) = run_entry n k"
  shows "heap_mark_block_free_loop (heap_tab h) (int (s + (n - d))) m =
    (\<lambda>a. if \<exists>k. n - d \<le> k \<and> k < n \<and> a = entries (heap_tab h) + of_nat (s + k) then 0 else m a)"
  using assms
proof (induction d arbitrary: m)
  case (Suc d)
  let ?k = "n - Suc d"
  let ?p = "entries (heap_tab h) + of_nat (s + ?k)"
  let ?m = "m(?p := 0)"
  have sT: "sint (total_entries (heap_tab h)) = int (nblocks h)"
    using Suc.prems(4) sint_of_nat_small[of "nblocks h"] by (simp add: nblocks_def)
  have e: "m ?p = run_entry n ?k"
    using Suc.prems(5)[of ?k] Suc.prems(1) unfolding tab_entry_def by simp
  have nxt: "run_entry n ?k AND 0x80 = 0 \<longleftrightarrow> d = 0"
    using Suc.prems(1) by (auto simp: run_entry_has_next)
  have lt: "int (s + ?k) < int (nblocks h)" using Suc.prems(1,3) by simp
  have sk: "int (s + ?k) + 1 = int (s + (n - d))" using Suc.prems(1) by simp
  have step: "heap_mark_block_free_loop (heap_tab h) (int (s + ?k)) m =
      (if d = 0 then ?m else heap_mark_block_free_loop (heap_tab h) (int (s + (n - d))) ?m)"
    unfolding heap_mark_block_free_loop.simps[of "heap_tab h" "int (s + ?k)"] Let_def
      of_int_of_nat_eq e nxt sT sk
    using lt by (simp del: of_nat_add of_nat_diff)
  have ex: "(\<exists>k. ?k \<le> k \<and> k < n \<and> a = entries (heap_tab h) + of_nat (s + k)) \<longleftrightarrow>
      a = ?p \<or> (\<exists>k. n - d \<le> k \<and> k < n \<and> a = entries (heap_tab h) + of_nat (s + k))" for a
    using Suc.prems(1) by (intro run_split) simp
  show ?case
  proof (cases "d = 0")
    case True
    then have "\<not> (\<exists>k. n - d \<le> k \<and> k < n \<and> a = entries (heap_tab h) + of_nat (s + k))" for a
      by simp
    then show ?thesis unfolding step ex using True by (auto simp: fun_eq_iff)
  next
    case False
    have "tab_entry h ?m (s + k) = run_entry n k" if "n - d \<le> k" "k < n" for k
    proof -
      have "s + k < 2 ^ 32" "s + ?k < 2 ^ 32" "s + k \<noteq> s + ?k" using that Suc.prems by auto
      then have "entries (heap_tab h) + of_nat (s + k) \<noteq> ?p" by (simp only: u32_table_index_inj not_False_eq_True)
      then show ?thesis using Suc.prems(5)[of k] that by (simp add: tab_entry_def del: of_nat_add)
    qed
    note IH = Suc.IH[OF _ _ Suc.prems(3,4) this]
    have "heap_mark_block_free_loop (heap_tab h) (int (s + (n - d))) ?m =
      (\<lambda>a. if \<exists>k. n - d \<le> k \<and> k < n \<and> a = entries (heap_tab h) + of_nat (s + k) then 0 else ?m a)"
      by (rule IH) (use Suc.prems(1) False in auto)
    then show ?thesis unfolding step ex using False by (auto simp: fun_eq_iff simp del: of_nat_add)
  qed
qed simp

subsection \<open>Effect on the table\<close>

lemma table_run_iff:
  assumes "i < nblocks h" "s + n \<le> nblocks h"
  shows "(\<exists>k < n. entries (heap_tab h) + of_nat i = entries (heap_tab h) + of_nat (s + k)) \<longleftrightarrow>
    s \<le> i \<and> i < s + n"
proof -
  have b: "nblocks h < 2 ^ 32" unfolding nblocks_def by (rule unat_u32_bound)
  then have "entries (heap_tab h) + of_nat i = entries (heap_tab h) + of_nat (s + k) \<longleftrightarrow> i = s + k"
    if "k < n" for k using assms that by (intro u32_table_index_inj) auto
  moreover have "s \<le> i \<and> i < s + n \<longleftrightarrow> (\<exists>k < n. i = s + k)"
    by (metis add_less_cancel_left le_add1 le_iff_add)
  ultimately show ?thesis by blast
qed

lemma tab_entry_taken:
  assumes "0 < n" "s + n \<le> nblocks h" "nblocks h < 2 ^ 31" "i < nblocks h"
  shows "tab_entry h (heap_mark_blocks_taken h (int s) (int n) m) i =
    (if s \<le> i \<and> i < s + n then run_entry n (i - s) else tab_entry h m i)"
proof -
  have "unat (entries (heap_tab h) + of_nat i - entries (heap_tab h)) = i"
    using assms by (simp add: unat_of_nat_u32)
  then show ?thesis
    using assms table_run_iff[OF assms(4,2)]
    by (simp add: heap_mark_blocks_taken_apply tab_entry_def del: of_nat_add)
qed

lemma tab_entry_freed:
  assumes "heap_rel h m A" "A s = Some n" "i < nblocks h"
  shows "tab_entry h (heap_mark_block_free h (int s) m) i =
    (if s \<le> i \<and> i < s + n then 0 else tab_entry h m i)"
proof -
  have n: "0 < n" "s + n \<le> nblocks h" "nblocks h < 2 ^ 31"
    using assms heap_wf_nblocks[of h] by (auto simp: heap_rel_def allocs_ok_def)
  have "heap_mark_block_free_loop (heap_tab h) (int (s + (n - n))) m =
    (\<lambda>a. if \<exists>k. n - n \<le> k \<and> k < n \<and> a = entries (heap_tab h) + of_nat (s + k) then 0 else m a)"
    using assms n by (intro heap_mark_block_free_loop_apply) (auto simp: heap_rel_def)
  then show ?thesis
    using table_run_iff[OF assms(3) n(2)]
    by (simp add: heap_mark_block_free_def tab_entry_def del: of_nat_add)
qed

lemma heap_rel_block_free:
  assumes "heap_rel h m A" "i < nblocks h"
  shows "block_free h m i \<longleftrightarrow> (\<forall>s. \<not> taken_by A i s)"
proof
  assume "\<forall>s. \<not> taken_by A i s"
  then show "block_free h m i"
    using assms by (simp add: heap_rel_def block_free_def heap_get_entry_type_def)
next
  assume fr: "block_free h m i"
  show "\<forall>s. \<not> taken_by A i s"
  proof (intro allI notI)
    fix s assume "taken_by A i s"
    then obtain n where n: "A s = Some n" "s \<le> i" "i < s + n" by (auto simp: taken_by_def)
    then have "tab_entry h m (s + (i - s)) = run_entry n (i - s)"
      using assms(1) unfolding heap_rel_def by (metis less_diff_conv2 add.commute)
    then show False using fr n run_entry_type by (simp add: block_free_def)
  qed
qed

subsection \<open>Refinement of the abstract allocator\<close>

lemma taken_by_upd:
  "taken_by (A(s \<mapsto> n)) i s' \<longleftrightarrow> (if s' = s then s \<le> i \<and> i < s + n else taken_by A i s')"
  by (auto simp: taken_by_def)

lemma taken_by_del: "taken_by (A(s := None)) i s' \<longleftrightarrow> s' \<noteq> s \<and> taken_by A i s'"
  by (auto simp: taken_by_def)

lemma allocs_ok_upd:
  assumes "allocs_ok T A" "0 < n" "s + n \<le> T"
    and fresh: "\<And>i s'. s \<le> i \<Longrightarrow> i < s + n \<Longrightarrow> \<not> taken_by A i s'"
  shows "allocs_ok T (A(s \<mapsto> n))"
  using assms unfolding allocs_ok_def by (auto simp: taken_by_upd split: if_splits)

lemma allocs_ok_del: "allocs_ok T A \<Longrightarrow> allocs_ok T (A(s := None))"
  unfolding allocs_ok_def by (auto simp: taken_by_del split: if_splits)

lemma fits_fresh:
  assumes "heap_rel h m A" "fits (block_free h m) (nblocks h) n s" "s \<le> i" "i < s + n"
  shows "\<not> taken_by A i s'"
proof -
  have "i - s < n" "i < nblocks h" using assms(2-4) by (auto simp: fits_def)
  moreover from this have "block_free h m (s + (i - s))" using assms(2) unfolding fits_def by blast
  ultimately show ?thesis using heap_rel_block_free[OF assms(1)] assms(3) by simp
qed

lemma heap_rel_taken:
  assumes rel: "heap_rel h m A" and fit: "fits (block_free h m) (nblocks h) n s" and "0 < n"
  shows "heap_rel h (heap_mark_blocks_taken h (int s) (int n) m) (A(s \<mapsto> n))"
proof -
  let ?m = "heap_mark_blocks_taken h (int s) (int n) m"
  have sn: "s + n \<le> nblocks h" using fit by (simp add: fits_def)
  have wf: "heap_wf h" and ok: "allocs_ok (nblocks h) A" using rel by (auto simp: heap_rel_def)
  have T: "nblocks h < 2 ^ 31" using heap_wf_nblocks[OF wf] by simp
  note fresh = fits_fresh[OF rel fit]
  have new: "A s = None"
  proof (rule ccontr)
    assume "A s \<noteq> None"
    then have "taken_by A s s" using ok by (auto simp: taken_by_def allocs_ok_def)
    then show False using fresh[of s s] \<open>0 < n\<close> by simp
  qed
  note ent = tab_entry_taken[OF \<open>0 < n\<close> sn T]
  have runs: "tab_entry h ?m (s' + k) = run_entry n' k"
    if "(A(s \<mapsto> n)) s' = Some n'" "k < n'" for s' n' k
  proof (cases "s' = s")
    case True
    then show ?thesis using that ent[of "s + k"] sn by simp
  next
    case False
    then have A: "A s' = Some n'" using that by simp
    then have "taken_by A (s' + k) s'" using that by (simp add: taken_by_def)
    then have out: "\<not> (s \<le> s' + k \<and> s' + k < s + n)" using fresh by blast
    have "s' + k < nblocks h" using ok A that unfolding allocs_ok_def by (metis add_less_cancel_left less_le_trans)
    then show ?thesis using ent[of "s' + k"] out rel A that by (simp add: heap_rel_def)
  qed
  have frees: "tab_entry h ?m i = 0"
    if "i < nblocks h" "\<forall>s'. \<not> taken_by (A(s \<mapsto> n)) i s'" for i
  proof -
    have out: "\<not> (s \<le> i \<and> i < s + n)" using that(2) by (metis taken_by_upd)
    have "\<not> taken_by A i s'" for s'
    proof (cases "s' = s")
      case True
      then show ?thesis using new by (simp add: taken_by_def)
    qed (use that(2) taken_by_upd in metis)
    then show ?thesis using ent[OF that(1)] out rel that(1) by (simp add: heap_rel_def)
  qed
  show ?thesis
    unfolding heap_rel_def using wf allocs_ok_upd[OF ok \<open>0 < n\<close> sn fresh] runs frees by blast
qed

lemma heap_rel_freed:
  assumes rel: "heap_rel h m A" and A: "A s = Some n"
  shows "heap_rel h (heap_mark_block_free h (int s) m) (A(s := None))"
proof -
  let ?m = "heap_mark_block_free h (int s) m"
  note ent = tab_entry_freed[OF rel A]
  have wf: "heap_wf h" and ok: "allocs_ok (nblocks h) A" using rel by (auto simp: heap_rel_def)
  have runs: "tab_entry h ?m (s' + k) = run_entry n' k"
    if "(A(s := None)) s' = Some n'" "k < n'" for s' n' k
  proof -
    have A': "A s' = Some n'" "s' \<noteq> s" using that by (auto split: if_splits)
    then have "taken_by A (s' + k) s'" using that by (simp add: taken_by_def)
    then have "\<not> taken_by A (s' + k) s" using ok A' unfolding allocs_ok_def by blast
    then have out: "\<not> (s \<le> s' + k \<and> s' + k < s + n)" using A by (simp add: taken_by_def)
    have "s' + k < nblocks h" using ok A' that unfolding allocs_ok_def by (metis add_less_cancel_left less_le_trans)
    then show ?thesis using ent[of "s' + k"] out rel A' that by (simp add: heap_rel_def)
  qed
  have frees: "tab_entry h ?m i = 0"
    if "i < nblocks h" "\<forall>s'. \<not> taken_by (A(s := None)) i s'" for i
  proof (cases "s \<le> i \<and> i < s + n")
    case False
    then have "\<not> taken_by A i s" using A by (simp add: taken_by_def)
    then have "\<forall>s'. \<not> taken_by A i s'" using that(2) by (metis taken_by_del)
    then show ?thesis using ent[OF that(1)] False rel that(1) by (simp add: heap_rel_def)
  qed (simp add: ent that(1))
  show ?thesis
    unfolding heap_rel_def using wf allocs_ok_del[OF ok] runs frees by blast
qed

subsection \<open>Addresses and sizes\<close>

lemma heap_block_to_address_eq: "heap_block_to_address h (int s) = block_addr h s"
  by (simp add: heap_block_to_address_def block_addr_def mult.commute)

lemma heap_address_to_block_eq:
  assumes "heap_wf h" "s < nblocks h"
  shows "heap_address_to_block h (block_addr h s) = int s"
proof -
  have "4096 * s < 2 ^ 31" using assms by (simp add: heap_wf_def)
  then have "sint (of_nat (4096 * s) :: u32) = int (4096 * s)" by (rule sint_of_nat_small)
  moreover have "block_addr h s - saddr h = of_nat (4096 * s)" by (simp add: block_addr_def)
  ultimately show ?thesis
    by (simp add: heap_address_to_block_def signed_divide_int_def sgn_if)
qed

lemma block_addr_unat:
  assumes "heap_wf h" "s < nblocks h"
  shows "unat (block_addr h s) = unat (saddr h) + 4096 * s"
proof -
  have "unat (saddr h) + 4096 * s < 2 ^ 32" using assms by (auto simp: heap_wf_def)
  then show ?thesis
    unfolding block_addr_def by (simp only: unat_word_ariths unat_of_nat_u32) (simp add: unat_of_nat_u32 del: of_nat_mult)
qed

lemma heap_round_unat:
  assumes "unat sz \<le> 2 ^ 32 - 4096"
  shows "unat (heap_round_value_to_upper sz) = 4096 * blocks_of sz"
proof (cases "unat sz mod 4096 = 0")
  case True
  then show ?thesis
    by (simp add: heap_round_value_to_upper_def blocks_of_def aligned_4096_iff ceil_div_4096)
next
  case False
  have "unat sz - unat sz mod 4096 + 4096 < 2 ^ 32"
  proof -
    have "unat sz \<noteq> 2 ^ 32 - 4096" using False by auto
    then show ?thesis using assms False by linarith
  qed
  then have "unat (sz - sz mod 4096 + 4096) = unat sz - unat sz mod 4096 + 4096"
    by (simp add: unat_word_ariths unat_sub_mod_4096)
  then show ?thesis using False
    by (simp add: heap_round_value_to_upper_def blocks_of_def aligned_4096_iff ceil_div_4096)
qed

lemma heap_malloc_blocks_count:
  assumes "unat sz \<le> 2 ^ 32 - 4096"
  shows "unat (heap_round_value_to_upper sz div 4096) = blocks_of sz"
  using heap_round_unat[OF assms] by (simp add: unat_div)

lemma blocks_of_small: "blocks_of sz < 2 ^ 21"
  using unat_u32_bound[of sz] by (simp add: blocks_of_def)

lemma blocks_of_ge: "unat sz \<le> 4096 * blocks_of sz"
proof -
  have "unat sz mod 4096 < 4096" by simp
  then have "unat sz \<le> unat sz - unat sz mod 4096 + 4096" by linarith
  then show ?thesis unfolding blocks_of_def ceil_div_4096 by simp
qed

lemma blocks_of_pos: "0 < sz \<Longrightarrow> 0 < blocks_of sz"
  by (simp add: blocks_of_def word_less_nat_alt)

lemma blocks_of_page: "0 < sz \<Longrightarrow> unat sz \<le> 4096 \<Longrightarrow> blocks_of sz = 1"
  by (simp add: blocks_of_def word_less_nat_alt)

lemma heap_round_wraps:
  assumes "2 ^ 32 - 4096 < unat sz"
  shows "heap_round_value_to_upper sz = 0"
proof -
  have b: "unat sz < 2 ^ 32" by (rule unat_u32_bound)
  then have m: "unat sz mod 4096 = unat sz - (2 ^ 32 - 4096)" "unat sz mod 4096 \<noteq> 0"
    using assms mod_4096_top[of "unat sz"] by auto
  then have "unat (sz - sz mod 4096) = 2 ^ 32 - 4096"
    using assms b by (simp add: unat_sub_mod_4096)
  then have "unat (sz - sz mod 4096 + 4096) = 0" by (simp add: unat_word_ariths)
  then have "sz - sz mod 4096 + 4096 = 0" by (simp only: unat_eq_zero)
  then show ?thesis using m(2) by (simp add: heap_round_value_to_upper_def aligned_4096_iff)
qed

subsection \<open>heap_malloc and heap_free\<close>

lemma heap_malloc_eq:
  assumes "heap_rel h m A" "0 < sz" "unat sz \<le> 2 ^ 32 - 4096"
    and fit: "fits (block_free h m) (nblocks h) (blocks_of sz) s\<^sub>0"
  defines "s \<equiv> first_fit (block_free h m) (nblocks h) (blocks_of sz)"
  shows "heap_malloc h sz m =
    (block_addr h s, heap_mark_blocks_taken h (int s) (int (blocks_of sz)) m)"
proof -
  let ?n = "heap_round_value_to_upper sz div 4096"
  have n: "unat ?n = blocks_of sz" using assms(3) by (rule heap_malloc_blocks_count)
  moreover from this have "0 < ?n" using blocks_of_pos[OF assms(2)] by (simp add: word_less_nat_alt)
  moreover have "heap_wf h" using assms(1) by (simp add: heap_rel_def)
  ultimately have sb: "heap_get_start_block h ?n m = int s"
    using fit unfolding s_def by (auto simp: heap_get_start_block_spec)
  have "?n = of_nat (blocks_of sz)" using n by (metis of_nat_unat ucast_id)
  then have "sint ?n = int (blocks_of sz)" using sint_of_nat_small[of "blocks_of sz"] blocks_of_small[of sz] by simp
  then show ?thesis
    using sb by (simp add: heap_malloc_def heap_malloc_blocks_def Let_def heap_block_to_address_eq)
qed

lemma heap_malloc_refines:
  assumes "heap_rel h m A" "0 < sz" "unat sz \<le> 2 ^ 32 - 4096"
    and "fits (block_free h m) (nblocks h) (blocks_of sz) s\<^sub>0"
  shows "\<exists>s m'. heap_malloc h sz m = (block_addr h s, m') \<and> heap_rel h m' (A(s \<mapsto> blocks_of sz))
    \<and> fits (block_free h m) (nblocks h) (blocks_of sz) s"
proof -
  let ?s = "first_fit (block_free h m) (nblocks h) (blocks_of sz)"
  have fit: "fits (block_free h m) (nblocks h) (blocks_of sz) ?s"
    using assms(4) by (rule first_fit_fits)
  from heap_rel_taken[OF assms(1) fit blocks_of_pos[OF assms(2)]] heap_malloc_eq[OF assms] fit
  show ?thesis by blast
qed

lemma heap_free_eq:
  assumes "heap_rel h m A" "A s = Some n"
  shows "heap_free h (block_addr h s) m = heap_mark_block_free h (int s) m"
proof -
  have "heap_wf h" "s < nblocks h"
    using assms by (auto simp: heap_rel_def allocs_ok_def intro: less_le_trans[of s "s + n"])
  then show ?thesis by (simp add: heap_free_def heap_address_to_block_eq)
qed

lemma heap_free_refines:
  assumes "heap_rel h m A" "A s = Some n"
  shows "heap_rel h (heap_free h (block_addr h s) m) (A(s := None))"
  using heap_rel_freed[OF assms] heap_free_eq[OF assms] by simp

lemma in_table_region:
  "heap_wf h \<Longrightarrow> i < nblocks h \<Longrightarrow> in_region (entries (heap_tab h)) (nblocks h) (entries (heap_tab h) + of_nat i)"
  using heap_wf_nblocks[of h] by (simp add: unat_of_nat_u32)

lemma heap_mark_blocks_taken_frame:
  assumes "heap_wf h" "0 < n" "s + n \<le> nblocks h"
    and "\<not> in_region (entries (heap_tab h)) (nblocks h) a"
  shows "heap_mark_blocks_taken h (int s) (int n) m a = m a"
proof -
  have "\<not> (\<exists>k < n. a = entries (heap_tab h) + of_nat (s + k))"
    using in_table_region[OF assms(1)] assms(3,4) by (metis add_less_cancel_left less_le_trans)
  then show ?thesis
    using assms(2,3) heap_wf_nblocks[OF assms(1)]
    by (auto simp: heap_mark_blocks_taken_apply simp del: of_nat_add)
qed

lemma heap_mark_block_free_frame:
  assumes "heap_rel h m A" "A s = Some n"
    and "\<not> in_region (entries (heap_tab h)) (nblocks h) a"
  shows "heap_mark_block_free h (int s) m a = m a"
proof -
  have wf: "heap_wf h" and n: "0 < n" "s + n \<le> nblocks h"
    using assms by (auto simp: heap_rel_def allocs_ok_def)
  have "heap_mark_block_free_loop (heap_tab h) (int (s + (n - n))) m =
    (\<lambda>a. if \<exists>k. n - n \<le> k \<and> k < n \<and> a = entries (heap_tab h) + of_nat (s + k) then 0 else m a)"
    using assms n heap_wf_nblocks[OF wf]
    by (intro heap_mark_block_free_loop_apply) (auto simp: heap_rel_def)
  moreover have "\<not> (\<exists>k < n. a = entries (heap_tab h) + of_nat (s + k))"
    using in_table_region[OF wf] assms(3) n(2) by (metis add_less_cancel_left less_le_trans)
  ultimately show ?thesis by (auto simp: heap_mark_block_free_def simp del: of_nat_add)
qed

subsection \<open>Where no run is long enough\<close>

lemma heap_malloc_no_fit:
  assumes "heap_wf h" "0 < sz" "unat sz \<le> 2 ^ 32 - 4096"
    and "\<And>s. \<not> fits (block_free h m) (nblocks h) (blocks_of sz) s"
  shows "heap_malloc h sz m =
    (if 0 < nblocks h \<and> block_free h m (nblocks h - 1)
     then (block_addr h (tail_start (block_free h m) (nblocks h)),
           heap_mark_blocks_taken h (int (tail_start (block_free h m) (nblocks h)))
             (int (blocks_of sz)) m)
     else (NULL, m))"
proof -
  let ?n = "heap_round_value_to_upper sz div 4096"
  have n: "unat ?n = blocks_of sz" using assms(3) by (rule heap_malloc_blocks_count)
  then have "?n = of_nat (blocks_of sz)" by (metis of_nat_unat ucast_id)
  then have "sint ?n = int (blocks_of sz)" using sint_of_nat_small[of "blocks_of sz"] blocks_of_small[of sz] by simp
  then show ?thesis
    using assms(1,4) n
    by (auto simp: heap_malloc_def heap_malloc_blocks_def Let_def heap_get_start_block_spec
        heap_block_to_address_eq)
qed

lemma heap_malloc_zero_blocks:
  assumes "heap_wf h" "heap_round_value_to_upper sz = 0"
  shows "heap_malloc h sz m =
    (if 0 < nblocks h \<and> block_free h m (nblocks h - 1)
     then block_addr h (tail_start (block_free h m) (nblocks h)) else NULL, m)"
proof -
  have "heap_mark_blocks_taken h s 0 m = m" for s
    by (simp add: heap_mark_blocks_taken_def heap_mark_taken_loop.simps)
  then show ?thesis
    using assms by (auto simp: heap_malloc_def heap_malloc_blocks_def Let_def
        heap_get_start_block_spec heap_block_to_address_eq)
qed

subsection \<open>Creation\<close>

lemma heap_create_ok:
  assumes "ptr mod 4096 = 0" "end_ptr mod 4096 = 0"
    and "total_entries table = (end_ptr - ptr) div 4096"
  shows "heap_create h ptr end_ptr table m =
    (0, \<lparr>heap_tab = table, saddr = ptr\<rparr>, memset m (entries table) 0 (total_entries table))"
  using assms by (simp add: heap_create_def heap_validate_alignment_def heap_validate_table_def Let_def)

lemma heap_rel_created:
  assumes "heap_wf h"
  shows "heap_rel h (memset m (entries (heap_tab h)) 0 (total_entries (heap_tab h))) Map.empty"
proof -
  have "tab_entry h (memset m (entries (heap_tab h)) 0 (total_entries (heap_tab h))) i = 0"
    if "i < nblocks h" for i
    using in_table_region[OF assms that] unfolding tab_entry_def nblocks_def by (rule memset_inside)
  then show ?thesis using assms by (simp add: heap_rel_def allocs_ok_def taken_by_def)
qed

subsection \<open>The interface of an allocator\<close>

text \<open>
  What the clients of the heap rely on: an allocation is a fresh run of blocks, a release gives the
  run back, and nothing else about the live allocations changes.
\<close>

definition unused :: "(nat \<rightharpoonup> nat) \<Rightarrow> nat \<Rightarrow> bool" where
  "unused A i \<longleftrightarrow> (\<forall>b. \<not> taken_by A i b)"

definition unused_blocks :: "nat \<Rightarrow> (nat \<rightharpoonup> nat) \<Rightarrow> nat set" where
  "unused_blocks T A = {i. i < T \<and> unused A i}"

lemma unused_upd:
  assumes "A b = None"
  shows "unused (A(b \<mapsto> n)) i \<longleftrightarrow> unused A i \<and> \<not> (b \<le> i \<and> i < b + n)"
proof -
  have "\<not> taken_by A i b" using assms by (simp add: taken_by_def)
  then show ?thesis unfolding unused_def taken_by_upd by metis
qed

locale block_allocator =
  fixes malloc :: "u32 \<Rightarrow> 's \<Rightarrow> u32 \<times> 's"
    and free :: "u32 \<Rightarrow> 's \<Rightarrow> 's"
    and live :: "'s \<Rightarrow> (nat \<rightharpoonup> nat) \<Rightarrow> bool"
    and addr_of :: "nat \<Rightarrow> u32"
    and capacity :: nat
  assumes live_ok: "live st A \<Longrightarrow> allocs_ok capacity A"
    and malloc_live: "\<lbrakk>live st A; 0 < sz; unat sz \<le> 2 ^ 32 - 4096;
        fits (unused A) capacity (blocks_of sz) b\<^sub>0\<rbrakk> \<Longrightarrow>
      \<exists>b st'. malloc sz st = (addr_of b, st') \<and> live st' (A(b \<mapsto> blocks_of sz))
        \<and> fits (unused A) capacity (blocks_of sz) b"
    and free_live: "\<lbrakk>live st A; A b = Some n\<rbrakk> \<Longrightarrow> live (free (addr_of b) st) (A(b := None))"
begin

lemma fits_unused_None:
  assumes "live st A" "fits (unused A) capacity n b" "0 < n"
  shows "A b = None"
proof (rule ccontr)
  assume "A b \<noteq> None"
  then have "taken_by A b b" using live_ok[OF assms(1)] by (auto simp: taken_by_def allocs_ok_def)
  moreover have "unused A (b + 0)" using assms(2,3) unfolding fits_def by blast
  ultimately show False by (simp add: unused_def)
qed

lemma malloc_then_free:
  assumes "live st A" "0 < sz" "unat sz \<le> 2 ^ 32 - 4096"
    and "fits (unused A) capacity (blocks_of sz) b\<^sub>0"
  shows "\<exists>b st'. malloc sz st = (addr_of b, st') \<and> live (free (addr_of b) st') A"
proof -
  from malloc_live[OF assms] obtain b st' where
    *: "malloc sz st = (addr_of b, st')" "live st' (A(b \<mapsto> blocks_of sz))"
      "fits (unused A) capacity (blocks_of sz) b" by blast
  have "A b = None" using fits_unused_None[OF assms(1) *(3) blocks_of_pos[OF assms(2)]] .
  then have "(A(b \<mapsto> blocks_of sz))(b := None) = A" by (simp add: fun_upd_idem)
  then have "live (free (addr_of b) st') A"
    using free_live[OF *(2), of b "blocks_of sz"] by simp
  then show ?thesis using * by blast
qed

lemma malloc_disjoint:
  assumes "live st A" "fits (unused A) capacity n b" "A c = Some k" "0 < n"
  shows "b + n \<le> c \<or> c + k \<le> b"
proof (rule ccontr)
  assume *: "\<not> ?thesis"
  have "0 < k" using live_ok[OF assms(1)] assms(3) by (auto simp: allocs_ok_def)
  with * have "b \<le> max b c" "max b c < b + n" "taken_by A (max b c) c"
    using assms(3,4) by (auto simp: taken_by_def)
  moreover have "unused A (b + (max b c - b))"
    using assms(2) calculation unfolding fits_def by (metis less_diff_conv2 add.commute)
  ultimately show False by (simp add: unused_def)
qed

lemma malloc_page:
  assumes "live st A" "unused_blocks capacity A \<noteq> {}" "0 < sz" "unat sz \<le> 4096"
  shows "\<exists>b st'. malloc sz st = (addr_of b, st') \<and> live st' (A(b \<mapsto> 1))
    \<and> b \<in> unused_blocks capacity A
    \<and> unused_blocks capacity (A(b \<mapsto> 1)) = unused_blocks capacity A - {b}"
proof -
  have one: "blocks_of sz = 1" using assms(3,4) by (rule blocks_of_page)
  obtain i where "i < capacity" "unused A i" using assms(2) by (auto simp: unused_blocks_def)
  then have "fits (unused A) capacity (blocks_of sz) i" by (simp add: one fits_def)
  from malloc_live[OF assms(1,3) _ this] obtain b st' where
    *: "malloc sz st = (addr_of b, st')" "live st' (A(b \<mapsto> 1))" "fits (unused A) capacity 1 b"
    using assms(4) by (auto simp: one)
  have "A b = None" using fits_unused_None[OF assms(1) *(3)] by simp
  then have "unused_blocks capacity (A(b \<mapsto> 1)) = unused_blocks capacity A - {b}"
    by (auto simp: unused_blocks_def unused_upd)
  then show ?thesis using * by (auto simp: fits_def unused_blocks_def)
qed

end

lemma heap_rel_unused:
  "heap_rel h m A \<Longrightarrow> i < nblocks h \<Longrightarrow> block_free h m i = unused A i"
  by (simp add: heap_rel_block_free unused_def)

lemma heap_rel_fits:
  "heap_rel h m A \<Longrightarrow> fits (block_free h m) (nblocks h) n s = fits (unused A) (nblocks h) n s"
  using heap_rel_unused by (auto simp: fits_def)

interpretation heap: block_allocator "heap_malloc h" "heap_free h" "heap_rel h" "block_addr h" "nblocks h"
  for h
proof
  show "allocs_ok (nblocks h) A" if "heap_rel h st A" for st A
    using that by (simp add: heap_rel_def)
  show "heap_rel h (heap_free h (block_addr h b) st) (A(b := None))"
    if "heap_rel h st A" "A b = Some n" for st A b n
    using that by (rule heap_free_refines)
  fix st A sz b\<^sub>0
  assume rel: "heap_rel h st A" and sz: "0 < sz" "unat sz \<le> 2 ^ 32 - 4096"
    and "fits (unused A) (nblocks h) (blocks_of sz) b\<^sub>0"
  then have "fits (block_free h st) (nblocks h) (blocks_of sz) b\<^sub>0" by (simp add: heap_rel_fits)
  from heap_malloc_refines[OF rel sz this]
  show "\<exists>b st'. heap_malloc h sz st = (block_addr h b, st') \<and>
      heap_rel h st' (A(b \<mapsto> blocks_of sz)) \<and> fits (unused A) (nblocks h) (blocks_of sz) b"
    by (simp only: heap_rel_fits[OF rel])
qed

lemma heap_rel_memory_eq:
  assumes "heap_rel h m A" "heap_rel h m' A"
    and "\<And>a. \<not> in_region (entries (heap_tab h)) (nblocks h) a \<Longrightarrow> m a = m' a"
  shows "m = m'"
proof
  fix a
  show "m a = m' a"
  proof (cases "in_region (entries (heap_tab h)) (nblocks h) a")
    case False
    then show ?thesis by (rule assms(3))
  next
    case True
    define i where "i = unat (a - entries (heap_tab h))"
    have i: "i < nblocks h" "a = entries (heap_tab h) + of_nat i"
      using True by (simp_all add: i_def in_region_def)
    have "tab_entry h m i = tab_entry h m' i"
    proof (cases "\<exists>s. taken_by A i s")
      case True
      then obtain s n where "A s = Some n" "s \<le> i" "i < s + n" by (auto simp: taken_by_def)
      then show ?thesis
        using assms(1,2) le_add_diff_inverse[of s i] less_diff_conv2[of s i n]
        unfolding heap_rel_def by (metis add.commute)
    next
      case False
      then show ?thesis using assms(1,2) i by (simp add: heap_rel_def)
    qed
    then show ?thesis using i(2) by (simp add: tab_entry_def)
  qed
qed

lemma tail_start_lt:
  assumes "0 < T" "F (T - 1)"
  shows "tail_start F T < T"
proof -
  have "tail_start F T \<le> T - 1" unfolding tail_start_def
  proof (rule Least_le, intro allI impI)
    fix k assume "T - 1 \<le> k \<and> k < T"
    then have "k = T - 1" by auto
    then show "F k" using assms(2) by simp
  qed
  then show ?thesis using assms(1) by simp
qed

lemma tail_start_free:
  assumes "tail_start F T \<le> k" "k < T"
  shows "F k"
proof -
  have "\<forall>k. T \<le> k \<and> k < T \<longrightarrow> F k" by auto
  then have "\<forall>k. tail_start F T \<le> k \<and> k < T \<longrightarrow> F k" unfolding tail_start_def
    by (rule LeastI[of "\<lambda>s. \<forall>k. s \<le> k \<and> k < T \<longrightarrow> F k"])
  then show ?thesis using assms by blast
qed

lemma heap_malloc_overrun:
  assumes "heap_wf h" "0 < n" "n < 2 ^ 21" "\<And>s. \<not> fits (block_free h m) (nblocks h) n s"
    and "0 < nblocks h" "block_free h m (nblocks h - 1)"
  defines "t \<equiv> tail_start (block_free h m) (nblocks h)"
  shows "heap_get_entry_type (heap_mark_blocks_taken h (int t) (int n) m (entries (heap_tab h) + of_nat (nblocks h))) \<noteq> 0"
proof -
  have t: "t < nblocks h" unfolding t_def using assms(5,6) by (rule tail_start_lt)
  have "\<not> t + n \<le> nblocks h"
    using assms(4)[of t] tail_start_free[of "block_free h m" "nblocks h"] by (auto simp: fits_def t_def)
  then have "\<exists>k < n. entries (heap_tab h) + of_nat (nblocks h) = entries (heap_tab h) + of_nat (t + k)"
    using t by (intro exI[of _ "nblocks h - t"]) auto
  moreover have "t + n < 2 ^ 31" using t assms(3) heap_wf_nblocks[OF assms(1)] by simp
  ultimately show ?thesis
    using run_entry_type by (simp add: heap_mark_blocks_taken_apply[OF assms(2)])
qed

text \<open>A pool of four blocks, for concrete instances.\<close>

definition four_blocks :: heap where
  "four_blocks = \<lparr>heap_tab = \<lparr>entries = 0x100, total_entries = 4\<rparr>, saddr = 0x1000\<rparr>"

lemma four_blocks_free: "heap_rel four_blocks (\<lambda>_. 0) Map.empty"
  using heap_rel_created[of four_blocks "\<lambda>_. 0"]
  by (simp add: heap_wf_def nblocks_def memset_eq four_blocks_def)

lemma four_blocks_fit: "n \<le> 4 \<Longrightarrow> fits (unused Map.empty) (nblocks four_blocks) n 0"
  by (simp add: fits_def unused_def taken_by_def nblocks_def four_blocks_def)

subsection \<open>Properties\<close>

text \<open>
  C10.  \<^verbatim>\<open>heap_malloc\<close> is a first-fit allocator: when some run of unused blocks is long enough, it returns
  the address of the first such run, adds exactly that run to the live allocations, and writes only the
  block table.
\<close>

theorem heap_malloc_first_fit:
  assumes "heap_rel h m A" "0 < sz" "unat sz \<le> 2 ^ 32 - 4096"
    and "fits (unused A) (nblocks h) (blocks_of sz) b\<^sub>0"
  shows "\<exists>b m'. heap_malloc h sz m = (block_addr h b, m') \<and> heap_rel h m' (A(b \<mapsto> blocks_of sz))
    \<and> fits (unused A) (nblocks h) (blocks_of sz) b
    \<and> (\<forall>c. fits (unused A) (nblocks h) (blocks_of sz) c \<longrightarrow> b \<le> c)
    \<and> (\<forall>a. \<not> in_region (entries (heap_tab h)) (nblocks h) a \<longrightarrow> m' a = m a)"
proof -
  define b where "b = first_fit (block_free h m) (nblocks h) (blocks_of sz)"
  note F = heap_rel_fits[OF assms(1)]
  have fit: "fits (block_free h m) (nblocks h) (blocks_of sz) b\<^sub>0" using assms(4) F by simp
  have fb: "fits (block_free h m) (nblocks h) (blocks_of sz) b" unfolding b_def using fit by (rule first_fit_fits)
  have pos: "0 < blocks_of sz" using assms(2) by (rule blocks_of_pos)
  have least: "b \<le> c" if "fits (unused A) (nblocks h) (blocks_of sz) c" for c
    using that F unfolding b_def first_fit_def by (simp add: Least_le)
  have frame: "heap_mark_blocks_taken h (int b) (int (blocks_of sz)) m a = m a"
    if "\<not> in_region (entries (heap_tab h)) (nblocks h) a" for a
    using heap_mark_blocks_taken_frame[OF _ pos _ that] assms(1) fb by (simp add: heap_rel_def fits_def)
  show ?thesis
    using heap_malloc_eq[OF assms(1-3) fit] heap_rel_taken[OF assms(1) fb pos] fb F least frame
    unfolding b_def[symmetric] by blast
qed

theorem heap_malloc_first_fit_witness:
  "\<exists>b m'. heap_malloc four_blocks 5000 (\<lambda>_. 0) =
       (block_addr four_blocks b, m') \<and> b = 0"
  using heap_malloc_first_fit[OF four_blocks_free, of 5000 0] four_blocks_fit[of 2]
  by (auto simp: blocks_of_def)

text \<open>
  C11.  \<^verbatim>\<open>heap_free\<close> of the address of a live allocation removes exactly that allocation and writes only
  the block table.
\<close>

theorem heap_free_removes:
  assumes "heap_rel h m A" "A b = Some n"
  shows "heap_rel h (heap_free h (block_addr h b) m) (A(b := None))
    \<and> (\<forall>a. \<not> in_region (entries (heap_tab h)) (nblocks h) a \<longrightarrow> heap_free h (block_addr h b) m a = m a)"
  using heap_free_refines[OF assms] heap_mark_block_free_frame[OF assms] heap_free_eq[OF assms] by simp

theorem heap_free_removes_witness:
  "heap_rel four_blocks (heap_free four_blocks 0x1000 (heap_mark_blocks_taken four_blocks 0 2 (\<lambda>_. 0))) Map.empty"
proof -
  have "heap_rel four_blocks (heap_mark_blocks_taken four_blocks (int 0) (int 2) (\<lambda>_. 0)) [0 \<mapsto> 2]"
    using four_blocks_free four_blocks_fit[of 2]
    by (intro heap_rel_taken) (simp_all add: heap_rel_fits)
  from heap_free_removes[OF this, of 0 2] show ?thesis by (simp add: block_addr_def four_blocks_def)
qed

text \<open>
  Freeing what \<^verbatim>\<open>heap_malloc\<close> has just returned restores every byte of memory.
\<close>

theorem heap_malloc_free_roundtrip:
  assumes "heap_rel h m A" "0 < sz" "unat sz \<le> 2 ^ 32 - 4096"
    and "fits (unused A) (nblocks h) (blocks_of sz) b\<^sub>0"
  shows "heap_free h (fst (heap_malloc h sz m)) (snd (heap_malloc h sz m)) = m"
proof -
  note F = heap_rel_fits[OF assms(1)]
  define b where "b = first_fit (block_free h m) (nblocks h) (blocks_of sz)"
  define m' where "m' = heap_mark_blocks_taken h (int b) (int (blocks_of sz)) m"
  have fit: "fits (block_free h m) (nblocks h) (blocks_of sz) b\<^sub>0" using assms(4) F by simp
  have fb: "fits (block_free h m) (nblocks h) (blocks_of sz) b" unfolding b_def using fit by (rule first_fit_fits)
  have pos: "0 < blocks_of sz" using assms(2) by (rule blocks_of_pos)
  have eq: "heap_malloc h sz m = (block_addr h b, m')"
    using heap_malloc_eq[OF assms(1-3) fit] by (simp add: b_def m'_def)
  have rel: "heap_rel h m' (A(b \<mapsto> blocks_of sz))" unfolding m'_def by (rule heap_rel_taken[OF assms(1) fb pos])
  have none: "A b = None" using heap.fits_unused_None[OF assms(1), of _ b] fb pos F by blast
  have "heap_rel h (heap_free h (block_addr h b) m') A"
    using heap_free_refines[OF rel, of b "blocks_of sz"] none by (simp add: fun_upd_idem)
  moreover have "m a = heap_free h (block_addr h b) m' a" if a: "\<not> in_region (entries (heap_tab h)) (nblocks h) a" for a
    using heap_mark_block_free_frame[OF rel, of b _ a] heap_free_eq[OF rel, of b] a
      heap_mark_blocks_taken_frame[OF _ pos _ a] assms(1) fb by (simp add: heap_rel_def fits_def m'_def)
  ultimately have "m = heap_free h (block_addr h b) m'" by (rule heap_rel_memory_eq[OF assms(1)])
  then show ?thesis unfolding eq fst_conv snd_conv by (rule sym)
qed

theorem heap_malloc_free_roundtrip_witness:
  "heap_free four_blocks 
     (fst (heap_malloc four_blocks 5000 (\<lambda>_. 0)))
     (snd (heap_malloc four_blocks 5000 (\<lambda>_. 0))) = (\<lambda>_. 0)"
  using heap_malloc_free_roundtrip[OF four_blocks_free, of 5000 0] four_blocks_fit[of 2]
  by (simp add: blocks_of_def)

text \<open>
  C38.  What \<^verbatim>\<open>heap_malloc\<close> does when no run of free blocks is long enough.  If the last block of the pool
  is taken it returns NULL and changes nothing.  If the last block is free it does not fail: it returns
  the start of the short run at the end and marks blocks taken past the end of the table.
\<close>

theorem heap_malloc_exhausted:
  assumes "heap_wf h" "0 < nblocks h" "0 < sz" "unat sz \<le> 2 ^ 32 - 4096"
    and "\<And>s. \<not> fits (block_free h m) (nblocks h) (blocks_of sz) s"
  shows "if block_free h m (nblocks h - 1)
    then fst (heap_malloc h sz m) = block_addr h (tail_start (block_free h m) (nblocks h))
      \<and> heap_get_entry_type (snd (heap_malloc h sz m) (entries (heap_tab h) + of_nat (nblocks h))) \<noteq> 0
    else heap_malloc h sz m = (NULL, m)"
  using heap_malloc_no_fit[OF assms(1,3,4,5)] assms(2)
    heap_malloc_overrun[OF assms(1) blocks_of_pos[OF assms(3)] blocks_of_small assms(5,2)] by simp

theorem heap_malloc_exhausted_witness:
  "heap_get_entry_type (snd (heap_malloc four_blocks
     0x5000 (\<lambda>_. 0)) 0x104) \<noteq> 0"
proof -
  have "\<not> fits (block_free four_blocks (\<lambda>_. 0)) (nblocks four_blocks) (blocks_of 0x5000) s" for s
    by (simp add: fits_def nblocks_def blocks_of_def four_blocks_def)
  moreover have "block_free four_blocks (\<lambda>_. 0) (nblocks four_blocks - 1)"
    by (simp add: block_free_def tab_entry_def heap_get_entry_type_def)
  ultimately show ?thesis
    using heap_malloc_exhausted[of four_blocks "0x5000" "\<lambda>_. 0"] by (simp add: heap_wf_def nblocks_def four_blocks_def)
qed

text \<open>
  Requests that round to no block at all (0 bytes, or more than \<^verbatim>\<open>0xFFFFF000\<close>, where the rounding
  wraps) get the start of the free run at the end of the pool without being recorded: the table is
  unchanged, so the same address can be handed out again.
\<close>

theorem heap_malloc_unrecorded:
  assumes "heap_wf h" "sz = 0 \<or> 2 ^ 32 - 4096 < unat sz"
  shows "heap_malloc h sz m =
    (if 0 < nblocks h \<and> block_free h m (nblocks h - 1)
     then block_addr h (tail_start (block_free h m) (nblocks h)) else NULL, m)"
proof -
  have "heap_round_value_to_upper sz = 0"
    using assms(2) heap_round_wraps[of sz] by (cases "sz = 0") (auto simp: heap_round_value_to_upper_def[of 0])
  then show ?thesis by (rule heap_malloc_zero_blocks[OF assms(1)])
qed

theorem heap_malloc_unrecorded_witness:
  "snd (heap_malloc four_blocks 0xFFFFF001 (\<lambda>_. 0)) = (\<lambda>_. 0)"
  using heap_malloc_unrecorded[of "four_blocks" "0xFFFFF001" "\<lambda>_. 0"]
  by (simp add: heap_wf_def nblocks_def four_blocks_def)

end
