(* ===== verification/Terminal.thy ===== *)
theory Terminal
  imports Cstring
begin

text \<open>
  The text console of \<^verbatim>\<open>src/src/kernel.c\<close>: the machine state every later component extends (flat
  memory, video pointer and cursor), \<^verbatim>\<open>terminal_make_char\<close>, \<^verbatim>\<open>terminal_putchar\<close>,
  \<^verbatim>\<open>terminal_writechar\<close>, \<^verbatim>\<open>terminal_initialize\<close>, \<^verbatim>\<open>print\<close> and \<^verbatim>\<open>panic\<close>.  \<open>print_literal\<close> is \<^verbatim>\<open>print\<close>
  applied to a string literal of the kernel image, given by its bytes.  The lemmas show where the
  characters land, that the cursor column stays on the line and that nothing but the cells of the
  text is written.
\<close>

subsection \<open>State\<close>

record machine =
  memory :: mem
  video_mem :: u32
  terminal_row :: u16
  terminal_col :: u16

abbreviation (input) VGA_WIDTH :: "'a::numeral" where "VGA_WIDTH \<equiv> 80"
abbreviation (input) VGA_HEIGHT :: "'a::numeral" where "VGA_HEIGHT \<equiv> 20"

subsection \<open>Operations\<close>

definition terminal_make_char :: "u8 \<Rightarrow> u8 \<Rightarrow> u16" where
  "terminal_make_char ch color = push_bit 8 (scast color) OR scast ch"

definition terminal_putchar :: "u32 \<Rightarrow> u32 \<Rightarrow> u8 \<Rightarrow> u8 \<Rightarrow> 'a machine_scheme \<Rightarrow> 'a machine_scheme" where
  "terminal_putchar x y c color s =
     s\<lparr>memory := store16 (memory s) (video_mem s + 2 * (y * VGA_WIDTH + x))
                   (terminal_make_char c color)\<rparr>"

definition terminal_writechar :: "u8 \<Rightarrow> u8 \<Rightarrow> 'a machine_scheme \<Rightarrow> 'a machine_scheme" where
  "terminal_writechar c color s =
     (if c = 10
      then s\<lparr>terminal_row := terminal_row s + 1, terminal_col := 0\<rparr>
      else let s1 = terminal_putchar (ucast (terminal_col s)) (ucast (terminal_row s)) c color s;
               s2 = s1\<lparr>terminal_col := terminal_col s1 + 1\<rparr>
           in if VGA_WIDTH \<le> terminal_col s2
              then s2\<lparr>terminal_col := 0, terminal_row := terminal_row s2 + 1\<rparr>
              else s2)"

definition terminal_initialize :: "'a machine_scheme \<Rightarrow> 'a machine_scheme" where
  "terminal_initialize s =
     (let s1 = s\<lparr>video_mem := 0xB8000, terminal_row := 0, terminal_col := 0\<rparr>
      in s1\<lparr>memory :=
           fold (\<lambda>y m. fold (\<lambda>x m.
                   store16 m (video_mem s1 + 2 * (of_nat y * VGA_WIDTH + of_nat x))
                     (terminal_make_char 0x20 0)) [0..<VGA_WIDTH] m) [0..<VGA_HEIGHT] (memory s1)\<rparr>)"

function print_loop :: "u32 \<Rightarrow> u32 \<Rightarrow> u32 \<Rightarrow> 'a machine_scheme \<Rightarrow> 'a machine_scheme" where
  "print_loop str len i s =
     (if i < len then print_loop str len (i + 1) (terminal_writechar (memory s (str + i)) 15 s)
      else s)"
  by pat_completeness auto
termination
  by (relation "measure (\<lambda>(str, len, i, s). unat len - unat i)") (auto simp: word_less_nat_alt)

declare print_loop.simps [simp del]

definition print :: "u32 \<Rightarrow> 'a machine_scheme \<Rightarrow> 'a machine_scheme option" where
  "print str s = do {
     len \<leftarrow> strlen (memory s) str;
     Some (print_loop str len 0 s)
   }"

definition print_literal :: "u8 list \<Rightarrow> 'a machine_scheme \<Rightarrow> 'a machine_scheme" where
  "print_literal bs s = fold (\<lambda>c. terminal_writechar c 15) bs s"

text \<open>\<^verbatim>\<open>panic\<close> prints its message and never returns.\<close>

definition panic :: "u8 list \<Rightarrow> 'a machine_scheme \<Rightarrow> 'b option" where
  "panic msg s = (let s' = print_literal msg s in None)"

subsection \<open>Cells\<close>

definition cell_addr :: "nat \<Rightarrow> u32" where
  "cell_addr k = 0xB8000 + of_nat (2 * k)"

definition cell :: "mem \<Rightarrow> nat \<Rightarrow> u16" where
  "cell m k = load16 m (cell_addr k)"

definition cursor :: "'a machine_scheme \<Rightarrow> nat" where
  "cursor s = 80 * unat (terminal_row s) + unat (terminal_col s)"

text \<open>The console is set up and the cursor column is on the line.\<close>

definition term_wf :: "'a machine_scheme \<Rightarrow> bool" where
  "term_wf s \<longleftrightarrow> video_mem s = 0xB8000 \<and> terminal_col s < 80"

lemma cursor_bound: "term_wf s \<Longrightarrow> cursor s < 80 * 2 ^ 16"
proof -
  assume "term_wf s"
  then have "unat (terminal_col s) < 80" by (simp add: term_wf_def word_less_nat_alt)
  moreover have "unat (terminal_row s) < 2 ^ 16" by (rule order_less_le_trans [OF unsigned_less]) simp
  ultimately show ?thesis unfolding cursor_def by linarith
qed

lemma cell_addr_unat: "k < 80 * 2 ^ 16 \<Longrightarrow> unat (cell_addr k) = 0xB8000 + 2 * k"
  unfolding cell_addr_def by (simp add: unat_word_ariths unat_of_nat_u32 del: of_nat_mult)

lemma cells_disjoint:
  assumes "j < 80 * 2 ^ 16" "k < 80 * 2 ^ 16" "j \<noteq> k"
  shows "disjoint_regions (cell_addr j) 2 (cell_addr k) 2"
  using assms by (intro disjoint_regionsI_nat) (auto simp: cell_addr_unat)

lemma cell_store_same: "cell (store16 m (cell_addr k) v) k = v"
  by (simp add: cell_def)

lemma cell_store_other:
  assumes "j < 80 * 2 ^ 16" "k < 80 * 2 ^ 16" "j \<noteq> k"
  shows "cell (store16 m (cell_addr j) v) k = cell m k"
  unfolding cell_def using cells_disjoint[OF assms] by (rule load16_store16_other)

text \<open>
  A character of the basic set keeps its byte and its colour; for a byte with the top bit set the
  sign extension of \<^verbatim>\<open>char\<close> overwrites the colour.
\<close>

lemma terminal_make_char_low: "(ucast (terminal_make_char ch color) :: u8) = ch"
proof (rule bit_word_eqI)
  fix n assume "n < LENGTH(8)"
  then have "n < 8" "min 7 n = n" by auto
  then show "bit (ucast (terminal_make_char ch color) :: u8) n = bit ch n"
    by (simp add: terminal_make_char_def bit_simps)
qed

lemma terminal_make_char_high:
  "(ucast (drop_bit 8 (terminal_make_char ch color)) :: u8) = (if bit ch 7 then - 1 else color)"
proof (rule bit_word_eqI)
  fix n assume "n < LENGTH(8)"
  then have "n < 8" "min 7 n = n" "min 7 (8 + n) = 7" by auto
  then show "bit (ucast (drop_bit 8 (terminal_make_char ch color)) :: u8) n =
      bit (if bit ch 7 then - 1 else color) n"
    by (simp add: terminal_make_char_def bit_simps)
qed

subsection \<open>Writing characters\<close>

lemma terminal_putchar_cell:
  assumes "term_wf s"
  shows "terminal_putchar (ucast (terminal_col s)) (ucast (terminal_row s)) c color s =
    s\<lparr>memory := store16 (memory s) (cell_addr (cursor s)) (terminal_make_char c color)\<rparr>"
proof -
  have "2 * (ucast (terminal_row s) * 80 + ucast (terminal_col s)) = (of_nat (2 * cursor s) :: u32)"
    by (simp add: cursor_def algebra_simps)
  then show ?thesis using assms
    by (simp add: terminal_putchar_def cell_addr_def term_wf_def)
qed

lemma terminal_writechar_cell:
  assumes "term_wf s" "c \<noteq> 10" "cursor s + 1 < 80 * 2 ^ 16"
  shows "memory (terminal_writechar c color s) =
      store16 (memory s) (cell_addr (cursor s)) (terminal_make_char c color)"
    and "cursor (terminal_writechar c color s) = cursor s + 1"
    and "term_wf (terminal_writechar c color s)"
proof -
  have col: "unat (terminal_col s + 1) = unat (terminal_col s) + 1" "unat (terminal_col s) < 80"
    using assms(1) by (auto simp: term_wf_def word_less_nat_alt unat_word_ariths)
  have row: "unat (terminal_row s + 1) = unat (terminal_row s) + 1"
    if "unat (terminal_col s) = 79"
  proof -
    have "unat (terminal_row s) + 1 < 2 ^ 16" using assms(3) that by (simp add: cursor_def)
    then show ?thesis by (simp add: unat_word_ariths)
  qed
  show "memory (terminal_writechar c color s) =
      store16 (memory s) (cell_addr (cursor s)) (terminal_make_char c color)"
    using assms by (simp add: terminal_writechar_def terminal_putchar_cell Let_def)
  have wrap: "80 \<le> terminal_col s + 1 \<longleftrightarrow> unat (terminal_col s) = 79"
    using col by (auto simp: word_le_nat_alt)
  show "cursor (terminal_writechar c color s) = cursor s + 1"
    using assms col row wrap
    by (auto simp: terminal_writechar_def terminal_putchar_cell Let_def cursor_def)
  show "term_wf (terminal_writechar c color s)"
    using assms col wrap
    by (auto simp: terminal_writechar_def terminal_putchar_cell Let_def term_wf_def not_le)
qed

lemma terminal_writechar_newline:
  "memory (terminal_writechar 10 color s) = memory s"
  "terminal_col (terminal_writechar 10 color s) = 0"
  "terminal_row (terminal_writechar 10 color s) = terminal_row s + 1"
  by (simp_all add: terminal_writechar_def)

lemma terminal_writechar_wf: "term_wf s \<Longrightarrow> term_wf (terminal_writechar c color s)"
  by (auto simp: terminal_writechar_def terminal_putchar_cell Let_def term_wf_def not_le)

lemma print_literal_wf: "term_wf s \<Longrightarrow> term_wf (print_literal bs s)"
  unfolding print_literal_def
  by (induction bs arbitrary: s) (auto simp: terminal_writechar_wf)

subsection \<open>Texts\<close>

text \<open>
  Where a text goes, as positions counted along the rows: a newline moves to the start of the next row, every other
  character takes a cell.  \<open>shown\<close> lists the cells with their characters, \<open>text_end\<close> is the position behind the text.
\<close>

definition next_pos :: "u8 \<Rightarrow> nat \<Rightarrow> nat" where
  "next_pos c k = (if c = 10 then 80 * (k div 80 + 1) else k + 1)"

fun text_end :: "nat \<Rightarrow> u8 list \<Rightarrow> nat" where
  "text_end k [] = k"
| "text_end k (c # cs) = text_end (next_pos c k) cs"

fun shown :: "nat \<Rightarrow> u8 list \<Rightarrow> (nat \<times> u8) list" where
  "shown k [] = []"
| "shown k (c # cs) = (if c = 10 then [] else [(k, c)]) @ shown (next_pos c k) cs"

lemma next_pos_gt: "k < next_pos c k"
  unfolding next_pos_def by (simp add: dividend_less_times_div)

lemma text_end_length: "k + length cs \<le> text_end k cs"
proof (induction cs arbitrary: k)
  case (Cons c cs)
  from Cons[of "next_pos c k"] show ?case using next_pos_gt[of k c] by simp
qed simp

lemma shown_bounds: "(j, c) \<in> set (shown k cs) \<Longrightarrow> k \<le> j \<and> j < text_end k cs"
proof (induction cs arbitrary: k)
  case (Cons c' cs)
  then show ?case using next_pos_gt[of k c'] text_end_length[of "next_pos c' k" cs] by (fastforce split: if_splits)
qed simp

lemma shown_append: "shown k (cs @ cs') = shown k cs @ shown (text_end k cs) cs'"
  by (induction cs arbitrary: k) simp_all

lemma text_end_append: "text_end k (cs @ cs') = text_end (text_end k cs) cs'"
  by (induction cs arbitrary: k) simp_all

lemma terminal_writechar_next:
  assumes "term_wf s" "next_pos c (cursor s) < 80 * 2 ^ 16"
  shows "cursor (terminal_writechar c color s) = next_pos c (cursor s)"
    and "memory (terminal_writechar c color s) =
      (if c = 10 then memory s else store16 (memory s) (cell_addr (cursor s)) (terminal_make_char c color))"
proof -
  have newline: "cursor (terminal_writechar 10 color s) = next_pos 10 (cursor s)" if "next_pos 10 (cursor s) < 80 * 2 ^ 16"
  proof -
    have col: "unat (terminal_col s) < 80" using assms(1) by (simp add: term_wf_def word_less_nat_alt)
    then have row: "cursor s div 80 = unat (terminal_row s)" by (simp add: cursor_def)
    then have "unat (terminal_row s) + 1 < 2 ^ 16" using that by (simp add: next_pos_def)
    then have "unat (terminal_row s + 1) = unat (terminal_row s) + 1" by (simp add: unat_word_ariths)
    then show ?thesis using row by (simp add: terminal_writechar_newline cursor_def next_pos_def)
  qed
  show "cursor (terminal_writechar c color s) = next_pos c (cursor s)"
    using newline terminal_writechar_cell(2)[OF assms(1), of c] assms(2) by (cases "c = 10") (simp_all add: next_pos_def)
  show "memory (terminal_writechar c color s) =
      (if c = 10 then memory s else store16 (memory s) (cell_addr (cursor s)) (terminal_make_char c color))"
    using terminal_writechar_cell(1)[OF assms(1), of c] assms(2) by (cases "c = 10") (simp_all add: next_pos_def terminal_writechar_newline)
qed

lemma print_literal_Cons: "print_literal (c # bs) s = print_literal bs (terminal_writechar c 15 s)"
  by (simp add: print_literal_def)

lemma print_literal_text:
  assumes "term_wf s" "text_end (cursor s) bs < 80 * 2 ^ 16"
  shows "cursor (print_literal bs s) = text_end (cursor s) bs
    \<and> (\<forall>k < 80 * 2 ^ 16. cell (memory (print_literal bs s)) k =
        (case map_of (shown (cursor s) bs) k of None \<Rightarrow> cell (memory s) k | Some c \<Rightarrow> terminal_make_char c 15))"
  using assms
proof (induction bs arbitrary: s)
  case Nil
  then show ?case by (simp add: print_literal_def)
next
  case (Cons c bs)
  let ?s = "terminal_writechar c 15 s" and ?k = "next_pos c (cursor s)"
  have k: "cursor s < ?k" "?k < 80 * 2 ^ 16" using next_pos_gt text_end_length[of ?k bs] Cons.prems(2) by simp_all
  note w = terminal_writechar_next[OF Cons.prems(1) k(2), of 15]
  have IH: "cursor (print_literal bs ?s) = text_end ?k bs
    \<and> (\<forall>k < 80 * 2 ^ 16. cell (memory (print_literal bs ?s)) k =
        (case map_of (shown ?k bs) k of None \<Rightarrow> cell (memory ?s) k | Some c \<Rightarrow> terminal_make_char c 15))"
    using Cons.IH[of ?s] Cons.prems(2) terminal_writechar_wf[OF Cons.prems(1)] unfolding w(1) by simp
  have cell: "cell (memory ?s) j = (if c \<noteq> 10 \<and> j = cursor s then terminal_make_char c 15 else cell (memory s) j)"
    if "j < 80 * 2 ^ 16" for j
    using cell_store_same cell_store_other[of "cursor s" j] that k unfolding w(2) by simp
  have "map_of (shown ?k bs) (cursor s) = None"
    using shown_bounds[of "cursor s" _ ?k bs] k(1) by (auto simp: map_of_eq_None_iff)
  then show ?case unfolding print_literal_Cons using IH cell k by (auto split: option.splits)
qed

subsection \<open>Clearing the screen\<close>

lemma fold_store16_cells:
  assumes "set ks \<subseteq> {..<80 * 2 ^ 16}"
  shows "(\<forall>k < 80 * 2 ^ 16. cell (fold (\<lambda>k m. store16 m (cell_addr k) v) ks m) k =
            (if k \<in> set ks then v else cell m k))
    \<and> (\<forall>a. (\<forall>k \<in> set ks. \<not> in_region (cell_addr k) 2 a) \<longrightarrow>
            fold (\<lambda>k m. store16 m (cell_addr k) v) ks m a = m a)"
  using assms
proof (induction ks arbitrary: m)
  case (Cons j ks)
  then have j: "j < 80 * 2 ^ 16" by simp
  have "cell (store16 m (cell_addr j) v) k = (if k = j then v else cell m k)"
    if "k < 80 * 2 ^ 16" for k
    using cell_store_same cell_store_other[OF j that] by auto
  then show ?case using Cons by (auto simp: store16_outside)
qed simp

lemma terminal_initialize_eq:
  "terminal_initialize s = s\<lparr>video_mem := 0xB8000, terminal_row := 0, terminal_col := 0,
     memory := fold (\<lambda>k m. store16 m (cell_addr k) 0x20) [0..<1600] (memory s)\<rparr>"
proof -
  have mc: "terminal_make_char 0x20 0 = 0x20" by (simp add: terminal_make_char_def)
  have row: "fold (\<lambda>x m. store16 m (0xB8000 + (160 * of_nat y + 2 * of_nat x)) v) [0..<n] =
      fold (\<lambda>k m. store16 m (cell_addr k) v) [80 * y..<80 * y + n]" for y n v
    by (induction n) (simp_all add: cell_addr_def algebra_simps)
  have all: "fold (\<lambda>y. fold (\<lambda>k m. store16 m (cell_addr k) v) [80 * y..<80 * y + 80]) [0..<n] m =
      fold (\<lambda>k m. store16 m (cell_addr k) v) [0..<80 * n] m" for n v m
  proof (induction n)
    case (Suc n)
    have "[0..<80 * Suc n] = [0..<80 * n] @ [80 * n..<80 * n + 80]"
      using upt_add_eq_append[of 0 "80 * n" 80] by (simp add: add.commute)
    then show ?case using Suc by (simp add: add.commute)
  qed simp
  show ?thesis
    unfolding terminal_initialize_def Let_def by (simp add: mc row all[of _ 20, simplified])
qed

lemma print_literal_frame:
  assumes "term_wf s" "text_end (cursor s) bs < 80 * 2 ^ 16"
    and "\<forall>(k, c) \<in> set (shown (cursor s) bs). \<not> in_region (cell_addr k) 2 a"
  shows "memory (print_literal bs s) a = memory s a"
  using assms
proof (induction bs arbitrary: s)
  case (Cons c bs)
  let ?s = "terminal_writechar c 15 s"
  have k: "next_pos c (cursor s) < 80 * 2 ^ 16" using text_end_length[of "next_pos c (cursor s)" bs] Cons.prems(2) by simp
  note w = terminal_writechar_next[OF Cons.prems(1) k, of 15]
  have "memory (print_literal bs ?s) a = memory ?s a"
    using Cons.prems terminal_writechar_wf by (intro Cons.IH) (simp_all add: w(1))
  moreover have "memory ?s a = memory s a" unfolding w(2) using Cons.prems(3) store16_outside by auto
  ultimately show ?case by (simp add: print_literal_Cons)
qed (simp add: print_literal_def)

lemma print_loop_literal:
  assumes wf: "term_wf s" "text_end (cursor s) bs < 80 * 2 ^ 16" and str: "cstr_at (memory s) str bs"
    and apart: "\<And>k c i. (k, c) \<in> set (shown (cursor s) bs) \<Longrightarrow> i < length bs \<Longrightarrow> \<not> in_region (cell_addr k) 2 (str + of_nat i)"
  shows "i \<le> length bs \<Longrightarrow>
    print_loop str (of_nat (length bs)) (of_nat i) (print_literal (take i bs) s) = print_literal bs s"
proof (induction "length bs - i" arbitrary: i)
  case 0
  then show ?case by (subst print_loop.simps) simp
next
  case (Suc d)
  then have i: "i < length bs" by simp
  have len: "length bs < 2 ^ 32" using wf(2) text_end_length[of "cursor s" bs] by simp
  have parts: "text_end (cursor s) (take i bs) \<le> text_end (cursor s) bs" "set (shown (cursor s) (take i bs)) \<subseteq> set (shown (cursor s) bs)"
    using text_end_append[of "cursor s" "take i bs" "drop i bs"] text_end_length[of "text_end (cursor s) (take i bs)" "drop i bs"]
      shown_append[of "cursor s" "take i bs" "drop i bs"] by simp_all
  have "memory (print_literal (take i bs) s) (str + of_nat i) = memory s (str + of_nat i)"
    using wf parts apart[OF _ i] by (intro print_literal_frame) auto
  then have ch: "memory (print_literal (take i bs) s) (str + of_nat i) = bs ! i"
    using str i by (simp add: cstr_at_iff)
  have "take (Suc i) bs = take i bs @ [bs ! i]" using i by (rule take_Suc_conv_app_nth)
  then have step: "terminal_writechar (bs ! i) 15 (print_literal (take i bs) s) = print_literal (take (Suc i) bs) s"
    by (simp add: print_literal_def)
  have lt: "(of_nat i :: u32) < of_nat (length bs)"
    using i len by (simp add: word_less_nat_alt unat_of_nat_u32)
  have "print_loop str (of_nat (length bs)) (of_nat (Suc i)) (print_literal (take (Suc i) bs) s) = print_literal bs s"
    using Suc by (intro Suc.hyps(1)) auto
  then show ?case using lt ch step by (subst print_loop.simps) (simp add: add.commute)
qed

subsection \<open>Properties\<close>



text \<open>
  \<^verbatim>\<open>terminal_initialize\<close> puts the cursor at the origin, blanks the 20 rows of 80 cells that the code
  counts and leaves every other byte of memory alone (rows 20 to 24 of the text screen among them).
\<close>

theorem terminal_initialize_clears:
  "term_wf (terminal_initialize s) \<and> cursor (terminal_initialize s) = 0
    \<and> (\<forall>k < 1600. cell (memory (terminal_initialize s)) k = 0x20)
    \<and> (\<forall>a. \<not> in_region 0xB8000 3200 a \<longrightarrow> memory (terminal_initialize s) a = memory s a)"
proof -
  have f: "(\<forall>k < 80 * 2 ^ 16. cell (memory (terminal_initialize s)) k =
        (if k \<in> set [0..<1600] then 0x20 else cell (memory s) k))
    \<and> (\<forall>a. (\<forall>k \<in> set [0..<1600]. \<not> in_region (cell_addr k) 2 a) \<longrightarrow> memory (terminal_initialize s) a = memory s a)"
    using fold_store16_cells[of "[0..<1600]" "0x20" "memory s"]
    by (subst (1 2) terminal_initialize_eq) (auto simp: subset_iff)
  have "\<not> in_region (cell_addr k) 2 a" if "\<not> in_region 0xB8000 3200 a" "k < 1600" for k a
  proof -
    have u: "unat (cell_addr k) = 0xB8000 + 2 * k" using that(2) by (intro cell_addr_unat) simp
    show ?thesis using that unfolding u
      by (subst (asm) in_region_iff_nat, simp, subst in_region_iff_nat) (use u in auto)
  qed
  then show ?thesis using f by (auto simp: terminal_initialize_eq term_wf_def cursor_def)
qed

theorem terminal_initialize_clears_witness:
  "cell (memory (terminal_initialize \<lparr>memory = (\<lambda>_. 7), video_mem = 0, terminal_row = 9, terminal_col = 9\<rparr>)) 1599 = 0x20
    \<and> memory (terminal_initialize \<lparr>memory = (\<lambda>_. 7), video_mem = 0, terminal_row = 9, terminal_col = 9\<rparr>) 0xB8C80 = 7"
  using terminal_initialize_clears[of "\<lparr>memory = (\<lambda>_. 7), video_mem = 0, terminal_row = 9, terminal_col = 9\<rparr>"]
  by (simp add: in_region_def)

end
