(* ===== verification/Kheap.thy ===== *)
theory Kheap
  imports Heap Terminal
begin

text \<open>
  \<^verbatim>\<open>src/src/memory/heap/kheap.c\<close>: the kernel's own heap.  \<open>kstate\<close> extends the machine by the global
  \<^verbatim>\<open>kernel_heap\<close>; the table bytes and the data pool are parts of the flat memory.  \<open>kheap_rel s A\<close> says
  that the global heap of \<open>s\<close> represents the live allocations \<open>A\<close>.  The lemmas show that
  \<^verbatim>\<open>kheap_init\<close> establishes it with no allocation, that \<^verbatim>\<open>kmalloc\<close>, \<^verbatim>\<open>kzalloc\<close> and \<^verbatim>\<open>kfree\<close> keep it, and
  that \<^verbatim>\<open>kzalloc\<close> hands out zeroed memory without touching the table or another allocation.
\<close>

subsection \<open>State and operations\<close>

record kstate = machine +
  kernel_heap :: heap

definition kheap_init :: "'a kstate_scheme \<Rightarrow> 'a kstate_scheme" where
  "kheap_init s =
     (let total_table_entries = RAOS_HEAP_SIZE_BYTES div RAOS_HEAP_BLOCK_SIZE;
          kernel_heap_table = \<lparr>entries = RAOS_HEAP_TABLE_ADDRESS, total_entries = total_table_entries\<rparr>;
          end_ptr = RAOS_HEAP_ADDRESS + RAOS_HEAP_SIZE_BYTES;
          (res, h, m) = heap_create (kernel_heap s) RAOS_HEAP_ADDRESS end_ptr kernel_heap_table (memory s);
          s' = s\<lparr>kernel_heap := h, memory := m\<rparr>
      in if res < 0 then print_literal (map of_char ''Failed to create heap'' @ [10]) s' else s')"

definition kmalloc :: "u32 \<Rightarrow> 'a kstate_scheme \<Rightarrow> u32 \<times> 'a kstate_scheme" where
  "kmalloc sz s = (let (ptr, m) = heap_malloc (kernel_heap s) sz (memory s) in (ptr, s\<lparr>memory := m\<rparr>))"

definition kfree :: "u32 \<Rightarrow> 'a kstate_scheme \<Rightarrow> 'a kstate_scheme" where
  "kfree ptr s = s\<lparr>memory := heap_free (kernel_heap s) ptr (memory s)\<rparr>"

definition kzalloc :: "u32 \<Rightarrow> 'a kstate_scheme \<Rightarrow> u32 \<times> 'a kstate_scheme" where
  "kzalloc sz s =
     (let (ptr, s') = kmalloc sz s
      in if ptr = NULL then (NULL, s')
         else (ptr, s'\<lparr>memory := memset (memory s') ptr 0 sz\<rparr>))"

subsection \<open>The relation to the live allocations\<close>

definition kheap_rel :: "'a kstate_scheme \<Rightarrow> (nat \<rightharpoonup> nat) \<Rightarrow> bool" where
  "kheap_rel s A \<longleftrightarrow> heap_rel (kernel_heap s) (memory s) A"

text \<open>Addresses of the table, and of the bytes of an allocation of \<open>n\<close> blocks at block \<open>b\<close>.\<close>

definition in_table :: "heap \<Rightarrow> u32 \<Rightarrow> bool" where
  "in_table h a \<longleftrightarrow> in_region (entries (heap_tab h)) (nblocks h) a"

definition in_blocks :: "heap \<Rightarrow> nat \<Rightarrow> nat \<Rightarrow> u32 \<Rightarrow> bool" where
  "in_blocks h b n a \<longleftrightarrow> in_region (block_addr h b) (4096 * n) a"

lemma block_region_bound:
  assumes "heap_wf h" "b + n \<le> nblocks h" "0 < n"
  shows "unat (block_addr h b) + 4096 * n \<le> 2 ^ 32"
    "unat (block_addr h b) = unat (saddr h) + 4096 * b"
  using assms block_addr_unat[of h b] by (auto simp: heap_wf_def)

lemma in_blocks_iff:
  assumes "heap_wf h" "b + n \<le> nblocks h" "0 < n"
  shows "in_blocks h b n a \<longleftrightarrow>
    unat (saddr h) + 4096 * b \<le> unat a \<and> unat a < unat (saddr h) + 4096 * (b + n)"
  using block_region_bound[OF assms] unfolding in_blocks_def
  by (simp add: in_region_iff_nat algebra_simps)

lemma in_table_iff:
  assumes "heap_wf h"
  shows "in_table h a \<longleftrightarrow> unat (entries (heap_tab h)) \<le> unat a
    \<and> unat a < unat (entries (heap_tab h)) + nblocks h"
  using assms unfolding in_table_def heap_wf_def by (simp add: in_region_iff_nat)

lemma blocks_not_in_table:
  assumes "heap_wf h" "b + n \<le> nblocks h" "0 < n" "in_blocks h b n a"
  shows "\<not> in_table h a"
proof -
  have "4096 * (b + n) \<le> 4096 * nblocks h" using assms(2) by (rule mult_le_mono2)
  then show ?thesis
    using assms(4) assms(1) unfolding in_blocks_iff[OF assms(1-3)] in_table_iff[OF assms(1)] heap_wf_def
    by linarith
qed

lemma blocks_disjoint:
  assumes "heap_wf h" "b + n \<le> nblocks h" "0 < n" "c + k \<le> nblocks h" "0 < k"
    and "b + n \<le> c \<or> c + k \<le> b" "in_blocks h b n a"
  shows "\<not> in_blocks h c k a"
  using assms(6,7) unfolding in_blocks_iff[OF assms(1-3)] in_blocks_iff[OF assms(1,4,5)] by auto

lemma block_addr_nonzero: "heap_wf h \<Longrightarrow> b < nblocks h \<Longrightarrow> block_addr h b \<noteq> 0"
  using block_addr_unat[of h b] by (auto simp: heap_wf_def)

lemma block_addr_aligned:
  assumes "heap_wf h" "b < nblocks h"
  shows "block_addr h b mod 4096 = 0"
proof -
  have "unat (saddr h) mod 4096 = 0" using assms by (simp add: heap_wf_def aligned_4096_iff)
  then show ?thesis by (simp add: aligned_4096_iff block_addr_unat[OF assms] mod_add_eq[symmetric])
qed

lemma heap_rel_transfer:
  assumes "heap_rel h m A" and "\<And>a. in_table h a \<Longrightarrow> m' a = m a"
  shows "heap_rel h m' A"
proof -
  have wf: "heap_wf h" and ok: "allocs_ok (nblocks h) A" using assms(1) by (auto simp: heap_rel_def)
  have same: "tab_entry h m' i = tab_entry h m i" if "i < nblocks h" for i
    using assms(2) in_table_region[OF wf that] by (simp add: tab_entry_def in_table_def)
  have "tab_entry h m' (s + k) = run_entry n k" if "A s = Some n" "k < n" for s n k
  proof -
    have "s + n \<le> nblocks h" using ok that(1) by (simp add: allocs_ok_def)
    then show ?thesis using same[of "s + k"] that assms(1) by (simp add: heap_rel_def)
  qed
  then show ?thesis using assms(1) same by (simp add: heap_rel_def)
qed

subsection \<open>kheap_init\<close>

definition kernel_heap_layout :: heap where
  "kernel_heap_layout = \<lparr>heap_tab = \<lparr>entries = 0x7E00, total_entries = 25600\<rparr>, saddr = 0x01000000\<rparr>"

lemma kernel_heap_layout_wf: "heap_wf kernel_heap_layout" "nblocks kernel_heap_layout = 25600"
  by (simp_all add: heap_wf_def kernel_heap_layout_def nblocks_def)

lemma kheap_init_eq:
  "kheap_init s = s\<lparr>kernel_heap := kernel_heap_layout, memory := memset (memory s) 0x7E00 0 25600\<rparr>"
  by (simp add: kheap_init_def heap_create_ok kernel_heap_layout_def Let_def)

lemma kheap_init_rel: "kheap_rel (kheap_init s) Map.empty"
  using heap_rel_created[OF kernel_heap_layout_wf(1), of "memory s"]
  by (simp add: kheap_rel_def kheap_init_eq) (simp add: kernel_heap_layout_def)

subsection \<open>kmalloc, kzalloc, kfree\<close>

lemma kmalloc_ok:
  assumes rel: "kheap_rel s A" and sz: "0 < sz" "unat sz \<le> 2 ^ 32 - 4096"
    and fit: "fits (unused A) (nblocks (kernel_heap s)) (blocks_of sz) b\<^sub>0"
  obtains b m where "kmalloc sz s = (block_addr (kernel_heap s) b, s\<lparr>memory := m\<rparr>)"
    "heap_rel (kernel_heap s) m (A(b \<mapsto> blocks_of sz))"
    "fits (unused A) (nblocks (kernel_heap s)) (blocks_of sz) b"
    "\<And>a. \<not> in_table (kernel_heap s) a \<Longrightarrow> m a = memory s a"
proof -
  let ?h = "kernel_heap s"
  have r: "heap_rel ?h (memory s) A" using rel by (simp add: kheap_rel_def)
  define b where "b = first_fit (block_free ?h (memory s)) (nblocks ?h) (blocks_of sz)"
  define m where "m = heap_mark_blocks_taken ?h (int b) (int (blocks_of sz)) (memory s)"
  have fit': "fits (block_free ?h (memory s)) (nblocks ?h) (blocks_of sz) b\<^sub>0"
    using fit heap_rel_fits[OF r] by simp
  have fb: "fits (block_free ?h (memory s)) (nblocks ?h) (blocks_of sz) b"
    unfolding b_def using fit' by (rule first_fit_fits)
  have pos: "0 < blocks_of sz" using blocks_of_pos[OF sz(1)] .
  have eq: "kmalloc sz s = (block_addr ?h b, s\<lparr>memory := m\<rparr>)"
    using heap_malloc_eq[OF r sz fit'] by (simp add: kmalloc_def b_def m_def)
  have rel': "heap_rel ?h m (A(b \<mapsto> blocks_of sz))"
    unfolding m_def using r fb pos by (rule heap_rel_taken)
  have frame: "m a = memory s a" if "\<not> in_table ?h a" for a
    using heap_mark_blocks_taken_frame[of ?h "blocks_of sz" b a "memory s"] that r fb pos
    by (simp add: m_def in_table_def heap_rel_def fits_def)
  show thesis by (rule that[OF eq rel' _ frame]) (use fb heap_rel_fits[OF r] in simp_all)
qed

text \<open>The bytes of a \<open>kzalloc\<close> are zero; outside them and the table nothing changes.\<close>

lemma kzalloc_ok:
  assumes rel: "kheap_rel s A" and sz: "0 < sz" "unat sz \<le> 2 ^ 32 - 4096"
    and fit: "fits (unused A) (nblocks (kernel_heap s)) (blocks_of sz) b\<^sub>0"
  obtains b m where "kzalloc sz s = (block_addr (kernel_heap s) b, s\<lparr>memory := m\<rparr>)"
    "heap_rel (kernel_heap s) m (A(b \<mapsto> blocks_of sz))"
    "fits (unused A) (nblocks (kernel_heap s)) (blocks_of sz) b"
    "\<And>a. in_region (block_addr (kernel_heap s) b) (unat sz) a \<Longrightarrow> m a = 0"
    "\<And>a. \<not> in_table (kernel_heap s) a \<Longrightarrow> \<not> in_region (block_addr (kernel_heap s) b) (unat sz) a
       \<Longrightarrow> m a = memory s a"
proof -
  let ?h = "kernel_heap s"
  obtain b m where km: "kmalloc sz s = (block_addr ?h b, s\<lparr>memory := m\<rparr>)"
    "heap_rel ?h m (A(b \<mapsto> blocks_of sz))" "fits (unused A) (nblocks ?h) (blocks_of sz) b"
    "\<And>a. \<not> in_table ?h a \<Longrightarrow> m a = memory s a"
    using kmalloc_ok[OF assms] by metis
  have wf: "heap_wf ?h" using rel by (simp add: kheap_rel_def heap_rel_def)
  have pos: "0 < blocks_of sz" using blocks_of_pos[OF sz(1)] .
  have bn: "b + blocks_of sz \<le> nblocks ?h" using km(3) by (simp add: fits_def)
  have nz: "block_addr ?h b \<noteq> 0" using block_addr_nonzero[OF wf] bn pos by simp
  let ?m = "memset m (block_addr ?h b) 0 sz"
  have kz: "kzalloc sz s = (block_addr ?h b, s\<lparr>memory := ?m\<rparr>)"
    using km(1) nz by (simp add: kzalloc_def)
  have "unat sz \<le> 4096 * blocks_of sz" by (rule blocks_of_ge)
  then have "in_region (block_addr ?h b) (unat sz) a \<Longrightarrow> in_blocks ?h b (blocks_of sz) a" for a
    by (simp add: in_blocks_def in_region_def)
  then have "?m a = m a" if "in_table ?h a" for a
    using blocks_not_in_table[OF wf bn pos] that by (auto simp: memset_eq)
  then have rel': "heap_rel ?h ?m (A(b \<mapsto> blocks_of sz))"
    using heap_rel_transfer[OF km(2)] by blast
  show thesis
    by (rule that[OF kz rel' km(3)]) (simp_all add: memset_eq km(4))
qed

lemma kfree_ok:
  assumes "kheap_rel s A" "A b = Some n"
  shows "kheap_rel (kfree (block_addr (kernel_heap s) b) s) (A(b := None))"
    and "\<not> in_table (kernel_heap s) a \<Longrightarrow>
      memory (kfree (block_addr (kernel_heap s) b) s) a = memory s a"
  using heap_free_refines[of "kernel_heap s" "memory s" A b n] assms
    heap_free_eq[of "kernel_heap s" "memory s" A b n]
    heap_mark_block_free_frame[of "kernel_heap s" "memory s" A b n a]
  by (simp_all add: kheap_rel_def kfree_def in_table_def)

lemma kalloc_frames [simp]:
  "kernel_heap (kfree p s) = kernel_heap s"
  "kernel_heap (snd (kmalloc sz s)) = kernel_heap s"
  "kernel_heap (snd (kzalloc sz s)) = kernel_heap s"
  by (auto simp: kfree_def kmalloc_def kzalloc_def Let_def split: prod.splits)

subsection \<open>The interface the kernel's clients use\<close>

text \<open>
  An allocator whose blocks come zeroed and whose operations leave the bytes of every other live
  allocation alone.
\<close>

locale page_source = block_allocator malloc free live addr_of capacity
  for malloc :: "u32 \<Rightarrow> 's \<Rightarrow> u32 \<times> 's" and free live addr_of capacity +
  fixes contents :: "'s \<Rightarrow> mem"
  assumes malloc_cleared: "\<lbrakk>live st A; fits (unused A) capacity (blocks_of sz) b\<^sub>0; 0 < sz;
        unat sz \<le> 2 ^ 32 - 4096; malloc sz st = (p, st'); in_region p (unat sz) a\<rbrakk> \<Longrightarrow> contents st' a = 0"
    and malloc_frame: "\<lbrakk>live st A; fits (unused A) capacity (blocks_of sz) b\<^sub>0; 0 < sz;
        unat sz \<le> 2 ^ 32 - 4096; malloc sz st = (p, st'); A c = Some n;
        in_region (addr_of c) (4096 * n) a\<rbrakk> \<Longrightarrow> contents st' a = contents st a"
    and free_frame: "\<lbrakk>live st A; A b = Some n; A c = Some k; in_region (addr_of c) (4096 * k) a\<rbrakk> \<Longrightarrow>
        contents (free (addr_of b) st) a = contents st a"
begin

lemma fresh_page:
  assumes "live st A" "unused_blocks capacity A \<noteq> {}" "0 < sz" "unat sz \<le> 4096"
  shows "\<exists>b st'. malloc sz st = (addr_of b, st') \<and> live st' (A(b \<mapsto> 1)) \<and> b < capacity
    \<and> A b = None \<and> unused_blocks capacity (A(b \<mapsto> 1)) = unused_blocks capacity A - {b}
    \<and> b \<in> unused_blocks capacity A
    \<and> (\<forall>a. in_region (addr_of b) (unat sz) a \<longrightarrow> contents st' a = 0)
    \<and> (\<forall>c n a. A c = Some n \<longrightarrow> in_region (addr_of c) (4096 * n) a \<longrightarrow> contents st' a = contents st a)"
proof -
  obtain b st' where b: "malloc sz st = (addr_of b, st')" "live st' (A(b \<mapsto> 1))"
    "b \<in> unused_blocks capacity A"
    "unused_blocks capacity (A(b \<mapsto> 1)) = unused_blocks capacity A - {b}"
    using malloc_page[OF assms] by blast
  have one: "blocks_of sz = 1" using assms(3,4) by (rule blocks_of_page)
  have sz: "unat sz \<le> 2 ^ 32 - 4096" using assms(4) by simp
  have fit: "fits (unused A) capacity (blocks_of sz) b"
    using b(3) by (simp add: one fits_def unused_blocks_def)
  have "A b = None" using fits_unused_None[OF assms(1), of 1 b] fit by (simp add: one)
  moreover have "contents st' a = 0" if "in_region (addr_of b) (unat sz) a" for a
    using malloc_cleared[OF assms(1) fit assms(3) sz b(1) that] .
  moreover have "contents st' a = contents st a"
    if "A c = Some n" "in_region (addr_of c) (4096 * n) a" for c n a
    using malloc_frame[OF assms(1) fit assms(3) sz b(1) that] .
  ultimately show ?thesis using b by (auto simp: unused_blocks_def)
qed

end

definition klive :: "heap \<Rightarrow> 'a kstate_scheme \<Rightarrow> (nat \<rightharpoonup> nat) \<Rightarrow> bool" where
  "klive h s A \<longleftrightarrow> kernel_heap s = h \<and> kheap_rel s A"

lemma live_block_bounds:
  "heap_rel h m A \<Longrightarrow> A c = Some n \<Longrightarrow> heap_wf h \<and> 0 < n \<and> c + n \<le> nblocks h"
  by (simp add: heap_rel_def allocs_ok_def)

interpretation kz: page_source kzalloc kfree "klive h" "block_addr h" "nblocks h" memory for h
proof
  fix st :: "'a kstate_scheme" and A :: "nat \<rightharpoonup> nat"
  assume live: "klive h st A"
  then have rel: "kheap_rel st A" and h: "kernel_heap st = h" by (auto simp: klive_def)
  then have hr: "heap_rel h (memory st) A" by (simp add: kheap_rel_def)
  show "allocs_ok (nblocks h) A" using hr by (simp add: heap_rel_def)
  show "klive h (kfree (block_addr h b) st) (A(b := None))" if "A b = Some n" for b n
    using kfree_ok(1)[OF rel that] h by (simp add: klive_def)
  show "memory (kfree (block_addr h b) st) a = memory st a"
    if "A b = Some n" "A c = Some k" "in_region (block_addr h c) (4096 * k) a" for b n c k a
  proof -
    have "\<not> in_table h a"
      using live_block_bounds[OF hr that(2)] blocks_not_in_table[of h c k a] that(3)
      by (simp add: in_blocks_def)
    then show ?thesis using kfree_ok(2)[OF rel that(1)] h by simp
  qed
  fix sz b\<^sub>0
  assume sz: "0 < sz" "unat sz \<le> 2 ^ 32 - 4096"
    and fit: "fits (unused A) (nblocks h) (blocks_of sz) b\<^sub>0"
  obtain b m where kz: "kzalloc sz st = (block_addr h b, st\<lparr>memory := m\<rparr>)"
    "heap_rel h m (A(b \<mapsto> blocks_of sz))" "fits (unused A) (nblocks h) (blocks_of sz) b"
    "\<And>a. in_region (block_addr h b) (unat sz) a \<Longrightarrow> m a = 0"
    "\<And>a. \<not> in_table h a \<Longrightarrow> \<not> in_region (block_addr h b) (unat sz) a \<Longrightarrow> m a = memory st a"
    using kzalloc_ok[OF rel sz] fit h by metis
  show "\<exists>b st'. kzalloc sz st = (block_addr h b, st') \<and> klive h st' (A(b \<mapsto> blocks_of sz))
      \<and> fits (unused A) (nblocks h) (blocks_of sz) b"
    using kz h by (auto simp: klive_def kheap_rel_def)
  show "memory st' a = 0" if "kzalloc sz st = (p, st')" "in_region p (unat sz) a" for p st' a
    using kz that by auto
  show "memory st' a = memory st a"
    if "kzalloc sz st = (p, st')" "A c = Some n" "in_region (block_addr h c) (4096 * n) a" for p st' c n a
  proof -
    note bd = live_block_bounds[OF hr that(2)]
    have "\<not> in_table h a" using bd blocks_not_in_table[of h c n a] that(3) by (simp add: in_blocks_def)
    moreover have "\<not> in_region (block_addr h b) (unat sz) a"
    proof
      assume "in_region (block_addr h b) (unat sz) a"
      moreover have "unat sz \<le> 4096 * blocks_of sz" by (rule blocks_of_ge)
      ultimately have "in_blocks h b (blocks_of sz) a" by (simp add: in_blocks_def in_region_def)
      moreover have "b + blocks_of sz \<le> c \<or> c + n \<le> b"
        using heap.malloc_disjoint[OF hr kz(3) that(2) blocks_of_pos[OF sz(1)]] .
      ultimately show False
        using blocks_disjoint[of h b "blocks_of sz" c n a] bd kz(3) blocks_of_pos[OF sz(1)] that(3)
        by (simp add: fits_def in_blocks_def)
    qed
    ultimately show ?thesis using kz(1,5) that(1) by auto
  qed
qed

text \<open>
  Writing inside live allocations keeps the allocator's relation: its table lies elsewhere.
\<close>

lemma klive_frame:
  assumes "klive h s A" "\<And>a. in_table h a \<Longrightarrow> m a = memory s a"
  shows "klive h (s\<lparr>memory := m\<rparr>) A"
proof -
  have rel: "heap_rel h (memory s) A" and h: "kernel_heap s = h"
    using assms(1) by (auto simp: klive_def kheap_rel_def)
  have "heap_rel h m A" using heap_rel_transfer[OF rel] assms(2) by blast
  then show ?thesis using h by (simp add: klive_def kheap_rel_def)
qed

lemma klive_write:
  assumes "klive h s A" "\<And>a. m a \<noteq> memory s a \<Longrightarrow> \<exists>b n. A b = Some n \<and> in_blocks h b n a"
  shows "klive h (s\<lparr>memory := m\<rparr>) A"
proof -
  have rel: "heap_rel h (memory s) A" and h: "kernel_heap s = h"
    using assms(1) by (auto simp: klive_def kheap_rel_def)
  have "m a = memory s a" if "in_table h a" for a
    using assms(2)[of a] that live_block_bounds[OF rel] blocks_not_in_table by metis
  then have "heap_rel h m A" using heap_rel_transfer[OF rel] by blast
  then show ?thesis using h by (simp add: klive_def kheap_rel_def)
qed

lemma klive_block:
  assumes "klive h s A" "A b = Some n"
  shows "heap_wf h" "b < nblocks h" "b + n \<le> nblocks h" "0 < n"
  using live_block_bounds[of h "memory s" A b n] assms by (auto simp: klive_def kheap_rel_def)

lemma kzalloc_memory_only:
  "\<exists>m. snd (kzalloc sz s) = s\<lparr>memory := m\<rparr>"
  by (auto simp: kzalloc_def kmalloc_def Let_def split: prod.splits)

lemma klive_apart:
  assumes "klive h s A" "A b = Some n" "A c = Some k" "b \<noteq> c" "in_blocks h b n a"
  shows "\<not> in_blocks h c k a"
proof -
  have ok: "allocs_ok (nblocks h) A" using assms(1) by (auto simp: klive_def kheap_rel_def heap_rel_def)
  have "b + n \<le> c \<or> c + k \<le> b"
  proof (rule ccontr)
    assume *: "\<not> ?thesis"
    then have "taken_by A (max b c) b" "taken_by A (max b c) c"
      using assms(2,3) klive_block(4)[OF assms(1,2)] klive_block(4)[OF assms(1,3)]
      by (auto simp: taken_by_def)
    then show False using ok assms(4) unfolding allocs_ok_def by blast
  qed
  then show ?thesis
    using blocks_disjoint[of h b n c k a] klive_block[OF assms(1,2)] klive_block[OF assms(1,3)] assms(5)
    by simp
qed

subsection \<open>Clients that take whole pages\<close>

text \<open>
  Every object of the kernel fits in one block, so a client's allocations are pages.  \<open>with_pages A B\<close> adds the
  one-page allocations at the blocks \<open>B\<close>.  \<open>took h A s B s'\<close>: from a state \<open>s\<close> with the live allocations \<open>A\<close> the
  client has come to \<open>s'\<close> where it also holds the pages \<open>B\<close>; nothing outside the table and the blocks that were
  unused in \<open>A\<close> has changed, and no part of the state but memory.
\<close>

definition memory_only :: "'a machine_scheme \<Rightarrow> 'a machine_scheme \<Rightarrow> bool" where
  "memory_only s s' \<longleftrightarrow> s' = s\<lparr>memory := memory s'\<rparr>"

lemma memory_only_upd [simp]:
  "memory_only s s" "memory_only s (s1\<lparr>memory := m\<rparr>) \<longleftrightarrow> memory_only s s1" "memory_only (s\<lparr>memory := m\<rparr>) s1 \<longleftrightarrow> memory_only s s1"
proof -
  show "memory_only s s" by (simp add: memory_only_def)
  have "s1\<lparr>memory := m\<rparr> = s\<lparr>memory := m\<rparr> \<longleftrightarrow> s1 = s\<lparr>memory := memory s1\<rparr>"
    by (cases s; cases s1) simp
  then show "memory_only s (s1\<lparr>memory := m\<rparr>) \<longleftrightarrow> memory_only s s1" by (simp add: memory_only_def)
  show "memory_only (s\<lparr>memory := m\<rparr>) s1 \<longleftrightarrow> memory_only s s1" by (simp add: memory_only_def)
qed

lemma memory_only_trans: "memory_only s s1 \<Longrightarrow> memory_only s1 s2 \<Longrightarrow> memory_only s s2"
  unfolding memory_only_def by (metis memory_only_def memory_only_upd(3))

lemma kfree_memory_only: "\<exists>m. kfree p s = s\<lparr>memory := m\<rparr>"
  by (auto simp: kfree_def)

lemma memory_only_kfree [simp]: "memory_only s (kfree p s1) \<longleftrightarrow> memory_only s s1"
  using kfree_memory_only[of p s1] by auto

definition with_pages :: "(nat \<rightharpoonup> nat) \<Rightarrow> nat set \<Rightarrow> nat \<rightharpoonup> nat" where
  "with_pages A B = (\<lambda>b. if b \<in> B then Some 1 else A b)"

lemma with_pages_simps [simp]:
  "with_pages A {} = A" "(with_pages A B)(b \<mapsto> 1) = with_pages A (insert b B)"
  "b \<in> B \<Longrightarrow> with_pages A B b = Some 1" "b \<notin> B \<Longrightarrow> with_pages A B b = A b"
  by (auto simp: with_pages_def)

lemma with_pages_Un: "with_pages (with_pages A B) C = with_pages A (B \<union> C)"
  by (auto simp: with_pages_def)

lemma unused_with_pages:
  assumes "\<forall>b \<in> B. A b = None"
  shows "unused_blocks T (with_pages A B) = unused_blocks T A - B"
proof -
  have "taken_by (with_pages A B) i c \<longleftrightarrow> (if c \<in> B then i = c else taken_by A i c)" for i c
    by (auto simp: taken_by_def)
  moreover have "\<not> taken_by A i c" if "c \<in> B" for i c using assms that by (auto simp: taken_by_def)
  ultimately show ?thesis by (auto simp: unused_blocks_def unused_def)
qed

definition stable :: "heap \<Rightarrow> (nat \<rightharpoonup> nat) \<Rightarrow> u32 \<Rightarrow> bool" where
  "stable h A a \<longleftrightarrow> \<not> in_table h a \<and> (\<forall>b \<in> unused_blocks (nblocks h) A. \<not> in_blocks h b 1 a)"

definition took :: "heap \<Rightarrow> (nat \<rightharpoonup> nat) \<Rightarrow> 'a kstate_scheme \<Rightarrow> nat set \<Rightarrow> 'a kstate_scheme \<Rightarrow> bool" where
  "took h A s B s' \<longleftrightarrow> klive h s' (with_pages A B) \<and> B \<subseteq> unused_blocks (nblocks h) A
     \<and> unused_blocks (nblocks h) (with_pages A B) = unused_blocks (nblocks h) A - B
     \<and> (\<forall>b \<in> B. A b = None) \<and> (\<forall>a. stable h A a \<longrightarrow> memory s' a = memory s a) \<and> memory_only s s'"

lemma finite_unused_blocks [simp]: "finite (unused_blocks T A)"
  by (simp add: unused_blocks_def)

lemma unused_blocks_upd: "A b = None \<Longrightarrow> unused_blocks T (A(b \<mapsto> 1)) = unused_blocks T A - {b}"
  by (auto simp: unused_blocks_def unused_upd)

lemma took_refl: "klive h s A \<Longrightarrow> took h A s {} s"
  by (simp add: took_def)

lemma kzalloc_page:
  assumes "klive h s A" "unused_blocks (nblocks h) A \<noteq> {}" "0 < sz" "unat sz \<le> 4096"
  obtains b m where "kzalloc sz s = (block_addr h b, s\<lparr>memory := m\<rparr>)" "klive h (s\<lparr>memory := m\<rparr>) (A(b \<mapsto> 1))"
    "A b = None" "b \<in> unused_blocks (nblocks h) A"
    "unused_blocks (nblocks h) (A(b \<mapsto> 1)) = unused_blocks (nblocks h) A - {b}"
    "\<And>a. in_region (block_addr h b) (unat sz) a \<Longrightarrow> m a = 0"
    "\<And>a. \<not> in_table h a \<Longrightarrow> \<not> in_blocks h b 1 a \<Longrightarrow> m a = memory s a"
proof -
  have rel: "kheap_rel s A" and h: "kernel_heap s = h" using assms(1) by (auto simp: klive_def)
  have one: "blocks_of sz = 1" using assms(3,4) by (rule blocks_of_page)
  have sz: "unat sz \<le> 2 ^ 32 - 4096" using assms(4) by simp
  obtain b\<^sub>0 where "b\<^sub>0 < nblocks h" "unused A b\<^sub>0" using assms(2) by (auto simp: unused_blocks_def)
  then have "fits (unused A) (nblocks (kernel_heap s)) (blocks_of sz) b\<^sub>0" by (simp add: fits_def one h)
  from kzalloc_ok[OF rel assms(3) sz this] obtain b m where
    r: "kzalloc sz s = (block_addr h b, s\<lparr>memory := m\<rparr>)" "heap_rel h m (A(b \<mapsto> 1))" "fits (unused A) (nblocks h) 1 b"
    "\<And>a. in_region (block_addr h b) (unat sz) a \<Longrightarrow> m a = 0"
    "\<And>a. \<not> in_table h a \<Longrightarrow> \<not> in_region (block_addr h b) (unat sz) a \<Longrightarrow> m a = memory s a"
    unfolding one h by metis
  have none: "A b = None" using kz.fits_unused_None[OF assms(1) r(3)] by simp
  have b: "b \<in> unused_blocks (nblocks h) A" using r(3) by (simp add: fits_def unused_blocks_def)
  show thesis
  proof (rule that[OF r(1) _ none b _ r(4)])
    show "klive h (s\<lparr>memory := m\<rparr>) (A(b \<mapsto> 1))" using r(2) h by (simp add: klive_def kheap_rel_def)
    show "unused_blocks (nblocks h) (A(b \<mapsto> 1)) = unused_blocks (nblocks h) A - {b}"
      using none by (rule unused_blocks_upd)
    show "m a = memory s a" if "\<not> in_table h a" "\<not> in_blocks h b 1 a" for a
      using r(5) that assms(4) by (auto simp: in_blocks_def in_region_def)
  qed
qed

lemma took_kzalloc:
  assumes "took h A s B s1" "unused_blocks (nblocks h) A - B \<noteq> {}" "0 < sz" "unat sz \<le> 4096"
  obtains b m where "kzalloc sz s1 = (block_addr h b, s1\<lparr>memory := m\<rparr>)" "took h A s (insert b B) (s1\<lparr>memory := m\<rparr>)"
    "b \<notin> B" "b \<in> unused_blocks (nblocks h) A"
    "\<And>a. in_region (block_addr h b) (unat sz) a \<Longrightarrow> m a = 0"
    "\<And>a. \<not> in_table h a \<Longrightarrow> \<not> in_blocks h b 1 a \<Longrightarrow> m a = memory s1 a"
proof -
  have t: "klive h s1 (with_pages A B)" "B \<subseteq> unused_blocks (nblocks h) A"
    "unused_blocks (nblocks h) (with_pages A B) = unused_blocks (nblocks h) A - B"
    "\<forall>b \<in> B. A b = None" "\<And>a. stable h A a \<Longrightarrow> memory s1 a = memory s a"
    using assms(1) by (auto simp: took_def)
  have U: "unused_blocks (nblocks h) (with_pages A B) \<noteq> {}" using assms(2) t(3) by simp
  obtain b m where r: "kzalloc sz s1 = (block_addr h b, s1\<lparr>memory := m\<rparr>)" "klive h (s1\<lparr>memory := m\<rparr>) ((with_pages A B)(b \<mapsto> 1))"
    "with_pages A B b = None" "b \<in> unused_blocks (nblocks h) (with_pages A B)"
    "unused_blocks (nblocks h) ((with_pages A B)(b \<mapsto> 1)) = unused_blocks (nblocks h) (with_pages A B) - {b}"
    "\<And>a. in_region (block_addr h b) (unat sz) a \<Longrightarrow> m a = 0"
    "\<And>a. \<not> in_table h a \<Longrightarrow> \<not> in_blocks h b 1 a \<Longrightarrow> m a = memory s1 a"
    using kzalloc_page[OF t(1) U assms(3,4)] by metis
  have b: "b \<notin> B" "b \<in> unused_blocks (nblocks h) A" "A b = None"
    using r(3,4) t(3) by auto
  have "took h A s (insert b B) (s1\<lparr>memory := m\<rparr>)"
    unfolding took_def
  proof (intro conjI allI impI)
    show "klive h (s1\<lparr>memory := m\<rparr>) (with_pages A (insert b B))" using r(2) by (simp only: with_pages_simps)
    show "unused_blocks (nblocks h) (with_pages A (insert b B)) = unused_blocks (nblocks h) A - insert b B"
      using r(5) t(3) by (simp only: with_pages_simps) auto
    show "memory (s1\<lparr>memory := m\<rparr>) a = memory s a" if "stable h A a" for a
      using r(7)[of a] t(5)[OF that] that b(2) by (simp add: stable_def)
    show "memory_only s (s1\<lparr>memory := m\<rparr>)" using assms(1) by (simp add: took_def)
  qed (use b t in auto)
  then show thesis using that r(1,6,7) b by blast
qed

lemma took_write:
  assumes "took h A s B s1" "\<And>a. m a \<noteq> memory s1 a \<Longrightarrow> \<exists>b \<in> B. in_blocks h b 1 a"
  shows "took h A s B (s1\<lparr>memory := m\<rparr>)"
proof -
  have t: "klive h s1 (with_pages A B)" "B \<subseteq> unused_blocks (nblocks h) A" using assms(1) by (auto simp: took_def)
  have "klive h (s1\<lparr>memory := m\<rparr>) (with_pages A B)"
    by (rule klive_write[OF t(1)]) (use assms(2) with_pages_simps(3)[of _ B A] in blast)
  moreover have "m a = memory s1 a" if "stable h A a" for a
    using assms(2)[of a] that t(2) by (auto simp: stable_def)
  ultimately show ?thesis using assms(1) by (simp add: took_def)
qed

lemma took_kfree:
  assumes "took h A s (insert b B) s1" "b \<notin> B"
  shows "took h A s B (kfree (block_addr h b) s1)"
    and "\<not> in_table h a \<Longrightarrow> memory (kfree (block_addr h b) s1) a = memory s1 a"
proof -
  have t: "klive h s1 (with_pages A (insert b B))" "insert b B \<subseteq> unused_blocks (nblocks h) A"
    "\<forall>b \<in> insert b B. A b = None" "\<And>a. stable h A a \<Longrightarrow> memory s1 a = memory s a"
    "unused_blocks (nblocks h) (with_pages A (insert b B)) = unused_blocks (nblocks h) A - insert b B"
    using assms(1) by (auto simp: took_def)
  have bn: "b < nblocks h" using t(2) by (auto simp: unused_blocks_def)
  have del: "(with_pages A (insert b B))(b := None) = with_pages A B"
    using assms(2) t(3) by (auto simp: with_pages_def)
  have one: "with_pages A (insert b B) b = Some 1" by simp
  have l: "klive h (kfree (block_addr h b) s1) (with_pages A B)"
    using kz.free_live[OF t(1) one] del by simp
  show f: "\<not> in_table h a \<Longrightarrow> memory (kfree (block_addr h b) s1) a = memory s1 a" for a
    using kfree_ok(2)[of s1 "with_pages A (insert b B)" b 1 a] t(1) one by (simp add: klive_def)
  have ok: "allocs_ok (nblocks h) (with_pages A B)" using l by (rule kz.live_ok)
  have nb: "with_pages A B b = None" using assms(2) t(3) by simp
  have "unused_blocks (nblocks h) (with_pages A B) = unused_blocks (nblocks h) A - B"
  proof -
    have "unused_blocks (nblocks h) (with_pages A (insert b B)) = unused_blocks (nblocks h) (with_pages A B) - {b}"
      using unused_blocks_upd[of "with_pages A B" b, OF nb] by (simp only: with_pages_simps)
    moreover have "b \<in> unused_blocks (nblocks h) (with_pages A B)"
    proof -
      have "\<not> taken_by (with_pages A B) b c" for c
      proof
        assume c: "taken_by (with_pages A B) b c"
        then have "c \<noteq> b" using nb by (auto simp: taken_by_def)
        with c have "taken_by (with_pages A (insert b B)) b c"
          by (auto simp: taken_by_def with_pages_def split: if_splits)
        moreover have "taken_by (with_pages A (insert b B)) b b" using one by (simp add: taken_by_def)
        ultimately show False
          using kz.live_ok[OF t(1)] \<open>c \<noteq> b\<close> unfolding allocs_ok_def by blast
      qed
      then show ?thesis using bn by (simp add: unused_blocks_def unused_def)
    qed
    ultimately show ?thesis using t(2,5) assms(2) by auto
  qed
  then show "took h A s B (kfree (block_addr h b) s1)"
    using l t f assms(1) unfolding took_def by (auto simp: stable_def)
qed

subsection \<open>Properties\<close>

text \<open>
  \<^verbatim>\<open>kheap_init\<close> succeeds with the constants of \<^verbatim>\<open>config.h\<close>: the heap it leaves has 25600 blocks from
  16 MiB on, no live allocation, a well-formed layout, and only the bytes of its table were written.
\<close>

theorem kheap_init_establishes:
  "kheap_rel (kheap_init s) Map.empty \<and> nblocks (kernel_heap (kheap_init s)) = 25600
    \<and> saddr (kernel_heap (kheap_init s)) = 0x01000000 \<and> heap_wf (kernel_heap (kheap_init s))
    \<and> (\<forall>a. \<not> in_region 0x7E00 25600 a \<longrightarrow> memory (kheap_init s) a = memory s a)"
  using kheap_init_rel[of s] kernel_heap_layout_wf
  by (simp add: kheap_init_eq memset_eq) (simp add: kernel_heap_layout_def)

text \<open>The kernel's state before anything ran, for concrete instances.\<close>

definition power_on :: kstate where
  "power_on = \<lparr>memory = \<lambda>_. 0, video_mem = 0, terminal_row = 0, terminal_col = 0, kernel_heap = four_blocks\<rparr>"

lemma kheap_init_live: "klive kernel_heap_layout (kheap_init s) Map.empty"
  using kheap_init_rel[of s] by (simp add: klive_def kheap_init_eq)

lemma empty_fits: "n \<le> 25600 \<Longrightarrow> fits (unused Map.empty) (nblocks kernel_heap_layout) n 0"
  by (simp add: fits_def unused_def taken_by_def kernel_heap_layout_wf)

theorem kheap_init_establishes_witness:
  "memory (kheap_init power_on) 0x01000000 = 0"
  using kheap_init_establishes[of power_on] by (simp add: in_region_def power_on_def)

text \<open>
  C33.  \<^verbatim>\<open>kzalloc\<close>, as long as a long enough run of blocks is unused, returns a page-aligned, non-null
  address of fresh blocks whose bytes are zero; it records the allocation and changes no byte of any other
  live allocation.
\<close>

theorem kzalloc_fresh_zeroed:
  assumes "klive h s A" "0 < sz" "unat sz \<le> 2 ^ 32 - 4096"
    and "fits (unused A) (nblocks h) (blocks_of sz) b\<^sub>0"
  shows "\<exists>b s'. kzalloc sz s = (block_addr h b, s') \<and> block_addr h b \<noteq> NULL \<and> block_addr h b mod 4096 = 0
    \<and> klive h s' (A(b \<mapsto> blocks_of sz))
    \<and> (\<forall>a. in_region (block_addr h b) (unat sz) a \<longrightarrow> memory s' a = 0)
    \<and> (\<forall>c n a. A c = Some n \<longrightarrow> in_blocks h c n a \<longrightarrow> memory s' a = memory s a \<and> \<not> in_blocks h b (blocks_of sz) a)"
proof -
  obtain b s' where kz: "kzalloc sz s = (block_addr h b, s')" "klive h s' (A(b \<mapsto> blocks_of sz))"
    "fits (unused A) (nblocks h) (blocks_of sz) b"
    using kz.malloc_live[OF assms] by blast
  have Ab: "(A(b \<mapsto> blocks_of sz)) b = Some (blocks_of sz)" by simp
  have b: "block_addr h b \<noteq> NULL" "block_addr h b mod 4096 = 0"
    using klive_block(1,2)[OF kz(2) Ab] by (simp_all add: block_addr_nonzero block_addr_aligned)
  have none: "A b = None" using kz.fits_unused_None[OF assms(1) kz(3)] blocks_of_pos[OF assms(2)] by blast
  have "memory s' a = memory s a \<and> \<not> in_blocks h b (blocks_of sz) a"
    if c: "A c = Some n" "in_blocks h c n a" for c n a
  proof
    show "memory s' a = memory s a"
      using kz.malloc_frame[OF assms(1,4,2,3) kz(1) c(1)] c(2) by (simp add: in_blocks_def)
    have "c \<noteq> b" using none c(1) by auto
    then show "\<not> in_blocks h b (blocks_of sz) a" using klive_apart[OF kz(2) _ Ab _ c(2)] c(1) by simp
  qed
  moreover have "memory s' a = 0" if "in_region (block_addr h b) (unat sz) a" for a
    using kz.malloc_cleared[OF assms(1,4,2,3) kz(1) that] .
  ultimately show ?thesis using kz(1,2) b by (intro exI[of _ b] exI[of _ s'] conjI) simp_all
qed

theorem kzalloc_fresh_zeroed_witness:
  "\<exists>b s'. kzalloc 5000 (kheap_init power_on) = (block_addr kernel_heap_layout b, s')
     \<and> klive kernel_heap_layout s' [b \<mapsto> 2]"
  using kzalloc_fresh_zeroed[OF kheap_init_live[of power_on], of 5000 0] empty_fits[of 2]
  by (auto simp: blocks_of_def)

end
