(* ===== verification/Paging.thy ===== *)
theory Paging
  imports Kheap
begin

text \<open>
  \<^verbatim>\<open>src/src/memory/paging/paging.c\<close> and \<^verbatim>\<open>paging.h\<close> (with the two register loads of \<^verbatim>\<open>paging.asm\<close>):
  page directories and page tables in the flat memory.  A chunk is the address of its one-field
  struct; its directory and tables are the pages the pointers of the structure lead to.

  \<open>pte m dir v\<close> is the entry that maps virtual page \<open>v\<close>, \<open>chunk_wf\<close> says that the pages of a chunk do
  not overlap, and \<open>mmu_translate\<close> is the two-level walk of the processor.  The lemmas show that
  \<^verbatim>\<open>paging_set\<close> and the mapping loops change exactly the entries of their range, that
  \<^verbatim>\<open>paging_new_4gb\<close> builds the identity mapping out of fresh pages, that \<^verbatim>\<open>paging_free_4gb\<close> gives all of
  them back, and that \<^verbatim>\<open>paging_get_physical_address\<close> agrees with the processor.
\<close>

subsection \<open>paging.h\<close>

abbreviation (input) PAGING_CACHE_DISABLED :: "'a::numeral" where "PAGING_CACHE_DISABLED \<equiv> 0x10"
abbreviation (input) PAGING_WRITE_THROUGH :: "'a::numeral" where "PAGING_WRITE_THROUGH \<equiv> 0x08"
abbreviation (input) PAGING_ACCESS_FROM_ALL :: "'a::numeral" where "PAGING_ACCESS_FROM_ALL \<equiv> 0x04"
abbreviation (input) PAGING_IS_WRITABLE :: "'a::numeral" where "PAGING_IS_WRITABLE \<equiv> 0x02"
abbreviation (input) PAGING_IS_PRESENT :: "'a::one" where "PAGING_IS_PRESENT \<equiv> 1"
abbreviation (input) PAGING_TOTAL_ENTRIES_PER_TABLE :: "'a::numeral" where
  "PAGING_TOTAL_ENTRIES_PER_TABLE \<equiv> 1024"
abbreviation (input) PAGING_PAGE_SIZE :: "'a::numeral" where "PAGING_PAGE_SIZE \<equiv> 4096"

text \<open>
  The only field of \<^verbatim>\<open>struct paging_4gb_chunk\<close> is at offset 0.  \<open>cr3\<close> is the register that
  \<^verbatim>\<open>paging_load_directory\<close> writes and \<open>paging_on\<close> the bit of \<^verbatim>\<open>CR0\<close> that \<^verbatim>\<open>enable_paging\<close> sets.
\<close>

record pstate = kstate +
  current_directory :: u32
  cr3 :: u32
  paging_on :: bool

subsection \<open>Building and switching\<close>

definition paging_fill_table :: "u32 \<Rightarrow> u32 \<Rightarrow> u8 \<Rightarrow> mem \<Rightarrow> mem" where
  "paging_fill_table entry offset flags m =
     fold (\<lambda>pi m. store32 m (entry + 4 * of_nat pi)
             ((offset + of_nat (pi * PAGING_PAGE_SIZE)) OR ucast flags))
       [0..<PAGING_TOTAL_ENTRIES_PER_TABLE] m"

definition paging_new_table ::
    "u32 \<Rightarrow> u8 \<Rightarrow> nat \<Rightarrow> u32 \<times> 'a kstate_scheme \<Rightarrow> u32 \<times> 'a kstate_scheme" where
  "paging_new_table directory flags i = (\<lambda>(offset, s).
     let (entry, s1) = kzalloc (4 * PAGING_TOTAL_ENTRIES_PER_TABLE) s;
         s2 = s1\<lparr>memory := paging_fill_table entry offset flags (memory s1)\<rparr>;
         offset' = offset + PAGING_TOTAL_ENTRIES_PER_TABLE * PAGING_PAGE_SIZE
     in (offset', s2\<lparr>memory := store32 (memory s2) (directory + 4 * of_nat i)
                       (entry OR ucast flags OR PAGING_IS_WRITABLE)\<rparr>))"

definition paging_new_4gb :: "u8 \<Rightarrow> 'a kstate_scheme \<Rightarrow> u32 \<times> 'a kstate_scheme" where
  "paging_new_4gb flags s =
     (let (directory, s1) = kzalloc (4 * PAGING_TOTAL_ENTRIES_PER_TABLE) s;
          (offset, s2) = fold (paging_new_table directory flags)
                           [0..<PAGING_TOTAL_ENTRIES_PER_TABLE] (0, s1);
          (chunk_4gb, s3) = kzalloc 4 s2
      in (chunk_4gb, s3\<lparr>memory := store32 (memory s3) chunk_4gb directory\<rparr>))"

definition paging_load_directory :: "u32 \<Rightarrow> 'a pstate_scheme \<Rightarrow> 'a pstate_scheme" where
  "paging_load_directory directory s = s\<lparr>cr3 := directory\<rparr>"

definition enable_paging :: "'a pstate_scheme \<Rightarrow> 'a pstate_scheme" where
  "enable_paging s = s\<lparr>paging_on := True\<rparr>"

definition paging_switch :: "u32 \<Rightarrow> 'a pstate_scheme \<Rightarrow> 'a pstate_scheme" where
  "paging_switch chunk s =
     (let s' = paging_load_directory (load32 (memory s) chunk) s
      in s'\<lparr>current_directory := load32 (memory s') chunk\<rparr>)"

definition paging_4gb_chunk_get_directory :: "u32 \<Rightarrow> mem \<Rightarrow> u32" where
  "paging_4gb_chunk_get_directory chunk m = load32 m chunk"

subsection \<open>Entries\<close>

definition paging_is_aligned :: "u32 \<Rightarrow> bool" where
  "paging_is_aligned addr \<longleftrightarrow> addr mod PAGING_PAGE_SIZE = 0"

text \<open>The out parameters keep their values when the address is refused.\<close>

definition paging_get_index :: "u32 \<Rightarrow> u32 \<Rightarrow> u32 \<Rightarrow> int \<times> u32 \<times> u32" where
  "paging_get_index virtual_address directory_idx_out table_idx_out =
     (if \<not> paging_is_aligned virtual_address
      then (- EINVARG, directory_idx_out, table_idx_out)
      else (0, virtual_address div (PAGING_TOTAL_ENTRIES_PER_TABLE * PAGING_PAGE_SIZE),
            (virtual_address mod (PAGING_TOTAL_ENTRIES_PER_TABLE * PAGING_PAGE_SIZE))
              div PAGING_PAGE_SIZE))"

definition paging_get :: "u32 \<Rightarrow> u32 \<Rightarrow> mem \<Rightarrow> u32" where
  "paging_get directory virt m =
     (let (res, directory_index, table_index) = paging_get_index virt 0 0;
          entry = load32 m (directory + 4 * directory_index);
          table = entry AND 0xfffff000
      in load32 m (table + 4 * table_index))"

definition paging_set :: "u32 \<Rightarrow> u32 \<Rightarrow> u32 \<Rightarrow> mem \<Rightarrow> int \<times> mem" where
  "paging_set directory virt physic m =
     (if \<not> paging_is_aligned virt then (- EINVARG, m)
      else let (res, directory_idx, table_idx) = paging_get_index virt 0 0
           in if res < 0 then (res, m)
              else let entry = load32 m (directory + 4 * directory_idx);
                       table = entry AND 0xfffff000
                   in (0, store32 m (table + 4 * table_idx) physic))"

definition paging_free_4gb :: "u32 \<Rightarrow> 'a kstate_scheme \<Rightarrow> 'a kstate_scheme" where
  "paging_free_4gb chunk s =
     (let s1 = fold (\<lambda>i s. let entry = load32 (memory s) (load32 (memory s) chunk + 4 * of_nat i);
                                table = entry AND 0xfffff000
                            in kfree table s) [0..<1024] s;
          s2 = kfree (load32 (memory s1) chunk) s1
      in kfree chunk s2)"

definition paging_map :: "u32 \<Rightarrow> u32 \<Rightarrow> u32 \<Rightarrow> int \<Rightarrow> mem \<Rightarrow> int \<times> mem" where
  "paging_map chunk virt phys flags m =
     (if virt mod PAGING_PAGE_SIZE \<noteq> 0 \<or> phys mod PAGING_PAGE_SIZE \<noteq> 0 then (- EINVARG, m)
      else paging_set (load32 m chunk) virt (phys OR word_of_int flags) m)"

function paging_map_range_loop ::
    "u32 \<Rightarrow> u32 \<Rightarrow> u32 \<Rightarrow> int \<Rightarrow> int \<Rightarrow> int \<Rightarrow> int \<Rightarrow> mem \<Rightarrow> int \<times> mem" where
  "paging_map_range_loop chunk virt phys count flags i res m =
     (if i < count
      then let (res', m') = paging_map chunk virt phys flags m
           in if res' < 0 then (res', m')
              else paging_map_range_loop chunk (virt + PAGING_PAGE_SIZE) (phys + PAGING_PAGE_SIZE)
                     count flags (i + 1) res' m'
      else (res, m))"
  by pat_completeness auto
termination
  by (relation "measure (\<lambda>(chunk, virt, phys, count, flags, i, res, m). nat (count - i))") auto

declare paging_map_range_loop.simps [simp del]

definition paging_map_range :: "u32 \<Rightarrow> u32 \<Rightarrow> u32 \<Rightarrow> int \<Rightarrow> int \<Rightarrow> mem \<Rightarrow> int \<times> mem" where
  "paging_map_range chunk virt phys count flags m =
     paging_map_range_loop chunk virt phys count flags 0 0 m"

definition paging_map_to :: "u32 \<Rightarrow> u32 \<Rightarrow> u32 \<Rightarrow> u32 \<Rightarrow> int \<Rightarrow> mem \<Rightarrow> int \<times> mem" where
  "paging_map_to chunk virt phys phys_end flags m =
     (if virt mod PAGING_PAGE_SIZE \<noteq> 0 then (- EINVARG, m)
      else if phys mod PAGING_PAGE_SIZE \<noteq> 0 then (- EINVARG, m)
      else if phys_end mod PAGING_PAGE_SIZE \<noteq> 0 then (- EINVARG, m)
      else if phys_end < phys then (- EINVARG, m)
      else let total_bytes = phys_end - phys;
               total_pages = sint (total_bytes div PAGING_PAGE_SIZE)
           in paging_map_range chunk virt phys total_pages flags m)"

definition paging_align_address :: "u32 \<Rightarrow> u32" where
  "paging_align_address ptr =
     (if ptr mod PAGING_PAGE_SIZE \<noteq> 0 then ptr + PAGING_PAGE_SIZE - ptr mod PAGING_PAGE_SIZE
      else ptr)"

definition paging_align_to_lower_page :: "u32 \<Rightarrow> u32" where
  "paging_align_to_lower_page addr = addr - addr mod PAGING_PAGE_SIZE"

definition paging_get_physical_address :: "u32 \<Rightarrow> u32 \<Rightarrow> mem \<Rightarrow> u32" where
  "paging_get_physical_address directory virt m =
     (let virt_addr_new = paging_align_to_lower_page virt;
          difference = virt - virt_addr_new
      in (paging_get directory virt_addr_new m AND 0xfffff000) + difference)"

subsection \<open>Pages and entries, abstractly\<close>

definition tbl :: "mem \<Rightarrow> u32 \<Rightarrow> nat \<Rightarrow> u32" where
  "tbl m dir i = load32 m (dir + 4 * of_nat i) AND 0xfffff000"

definition pte_addr :: "mem \<Rightarrow> u32 \<Rightarrow> nat \<Rightarrow> u32" where
  "pte_addr m dir v = tbl m dir (v div 1024) + 4 * of_nat (v mod 1024)"

definition pte :: "mem \<Rightarrow> u32 \<Rightarrow> nat \<Rightarrow> u32" where
  "pte m dir v = load32 m (pte_addr m dir v)"

text \<open>The directory is a page, its 1024 tables are different pages and none is the directory.\<close>

definition pd_wf :: "mem \<Rightarrow> u32 \<Rightarrow> bool" where
  "pd_wf m dir \<longleftrightarrow> dir mod 4096 = 0 \<and> (\<forall>i < 1024. tbl m dir i \<noteq> dir)
     \<and> (\<forall>i < 1024. \<forall>j < 1024. tbl m dir i = tbl m dir j \<longrightarrow> i = j)"

definition chunk_wf :: "mem \<Rightarrow> u32 \<Rightarrow> bool" where
  "chunk_wf m chunk \<longleftrightarrow> pd_wf m (load32 m chunk)
     \<and> (\<forall>i < 1024. disjoint_regions (tbl m (load32 m chunk) i) 4096 chunk 4)"

text \<open>The walk of the processor: both entries must be present.\<close>

definition mmu_translate :: "mem \<Rightarrow> u32 \<Rightarrow> u32 \<Rightarrow> u32 option" where
  "mmu_translate m root v =
     (let pde = load32 m ((root AND NOT (mask 12)) + 4 * drop_bit 22 v);
          e = load32 m ((pde AND NOT (mask 12)) + 4 * (drop_bit 12 v AND mask 10))
      in if bit pde 0 \<and> bit e 0 then Some ((e AND NOT (mask 12)) OR (v AND mask 12)) else None)"

subsection \<open>Masks and pages\<close>

lemma page_mask: "(0xfffff000 :: u32) = NOT (mask 12)"
  by (simp add: mask_eq_exp_minus_1)

lemma aligned_bits: "(p :: u32) mod 4096 = 0 \<longleftrightarrow> take_bit 12 p = 0"
  by (simp add: take_bit_eq_mod)

lemma masked_aligned [simp]: "(x AND (0xfffff000 :: u32)) mod 4096 = 0"
  unfolding aligned_bits page_mask by (rule bit_word_eqI) (auto simp: bit_simps)

lemma aligned_not_bit: "(p :: u32) mod 4096 = 0 \<Longrightarrow> n < 12 \<Longrightarrow> \<not> bit p n"
  unfolding aligned_bits by (metis bit_0_eq bit_take_bit_iff bot_apply bot_bool_def)

lemma aligned_mask_id:
  assumes "(p :: u32) mod 4096 = 0"
  shows "p AND 0xfffff000 = p"
  unfolding page_mask
proof (rule bit_word_eqI)
  fix n assume "n < LENGTH(32)"
  then show "bit (p AND NOT (mask 12)) n = bit p n"
    using aligned_not_bit[OF assms, of n] by (cases "n < 12") (auto simp: bit_simps)
qed

lemma aligned_or_mask:
  assumes "(p :: u32) mod 4096 = 0" "f AND 0xfffff000 = 0"
  shows "(p OR f) AND 0xfffff000 = p"
  using assms aligned_mask_id[of p] by (simp add: word_ao_dist)

lemma u8_flags_masked [simp]: "(ucast (f :: u8) :: u32) AND 0xfffff000 = 0"
  unfolding page_mask by (rule bit_word_eqI) (auto simp: bit_simps dest: bit_imp_le_length)

lemma aligned_page_bound: "(p :: u32) mod 4096 = 0 \<Longrightarrow> unat p + 4096 \<le> 2 ^ 32"
proof -
  assume "p mod 4096 = 0"
  then have "unat p mod 4096 = 0" by (simp add: aligned_4096_iff)
  then obtain q where q: "unat p = 4096 * q" by (auto elim: dvdE simp: mod_eq_0_iff_dvd)
  moreover have "unat p < 2 ^ 32" by (rule unat_u32_bound)
  ultimately have "q < 1048576" by simp
  then show ?thesis using q by simp
qed

lemma aligned_pages_apart:
  assumes "(p :: u32) mod 4096 = 0" "q mod 4096 = 0" "p \<noteq> q"
  shows "unat p + 4096 \<le> unat q \<or> unat q + 4096 \<le> unat p"
proof -
  obtain i j where ij: "unat p = 4096 * i" "unat q = 4096 * j"
    using assms(1,2) by (auto elim!: dvdE simp: mod_eq_0_iff_dvd aligned_4096_iff)
  moreover have "i \<noteq> j" using ij assms(3) by (auto simp: word_unat_eq_iff)
  ultimately show ?thesis by auto
qed

lemma page_cell_unat:
  assumes "(p :: u32) mod 4096 = 0" "i < 1024"
  shows "unat (p + 4 * of_nat i) = unat p + 4 * i"
proof -
  have "unat (4 * of_nat i :: u32) = 4 * i"
    using assms(2) unat_of_nat_u32[of "4 * i"] by simp
  then show ?thesis using aligned_page_bound[OF assms(1)] assms(2) by (simp add: unat_word_ariths)
qed

lemma page_cells_disjoint:
  assumes "(p :: u32) mod 4096 = 0" "q mod 4096 = 0" "i < 1024" "j < 1024" "p \<noteq> q \<or> i \<noteq> j"
  shows "disjoint_regions (p + 4 * of_nat i) 4 (q + 4 * of_nat j) 4"
proof (rule disjoint_regionsI_nat)
  note u = page_cell_unat[OF assms(1,3)] page_cell_unat[OF assms(2,4)]
  show "unat (p + 4 * of_nat i) + 4 \<le> unat (q + 4 * of_nat j)
      \<or> unat (q + 4 * of_nat j) + 4 \<le> unat (p + 4 * of_nat i)"
  proof (cases "p = q")
    case False
    then show ?thesis unfolding u using aligned_pages_apart[OF assms(1,2)] assms(3,4) by linarith
  next
    case True
    then show ?thesis unfolding u using assms(5) by auto
  qed
  show "unat (p + 4 * of_nat i) + 4 \<le> 2 ^ 32" "unat (q + 4 * of_nat j) + 4 \<le> 2 ^ 32"
    unfolding u using aligned_page_bound[OF assms(1)] aligned_page_bound[OF assms(2)] assms(3,4) by auto
qed simp_all

lemma page_cell_in_page:
  assumes "(p :: u32) mod 4096 = 0" "i < 1024" "in_region (p + 4 * of_nat i) 4 a"
  shows "in_region p 4096 a"
proof -
  have "unat (p + 4 * of_nat i) + 4 \<le> 2 ^ 32"
    using page_cell_unat[OF assms(1,2)] aligned_page_bound[OF assms(1)] assms(2) by simp
  then show ?thesis
    using assms aligned_page_bound[OF assms(1)] page_cell_unat[OF assms(1,2)]
    by (simp add: in_region_iff_nat)
qed

lemma tbl_aligned [simp]: "tbl m dir i mod 4096 = 0"
  by (simp add: tbl_def)

subsection \<open>Reading and writing one entry\<close>

lemma virt_indices:
  assumes "v < 2 ^ 20"
  shows "paging_get_index (of_nat (4096 * v)) d t = (0, of_nat (v div 1024), of_nat (v mod 1024))"
proof -
  let ?w = "of_nat (4096 * v) :: u32"
  have u: "unat ?w = 4096 * v" using assms by (intro unat_of_nat_u32) simp
  have "paging_is_aligned ?w" unfolding paging_is_aligned_def aligned_4096_iff u by simp
  moreover have "?w div 4194304 = of_nat (v div 1024)"
  proof (rule unsigned_word_eqI)
    have "unat (?w div 4194304) = 4096 * v div 4194304" by (simp add: unat_div u del: of_nat_mult)
    also have "\<dots> = v div 1024" using div_mult_mult1[of 4096 v 1024] by simp
    also have "\<dots> = unat (of_nat (v div 1024) :: u32)"
      using assms by (intro unat_of_nat_u32[symmetric]) simp
    finally show "unat (?w div 4194304) = unat (of_nat (v div 1024) :: u32)" .
  qed
  moreover have "?w mod 4194304 div 4096 = of_nat (v mod 1024)"
  proof (rule unsigned_word_eqI)
    have "unat (?w mod 4194304 div 4096) = 4096 * v mod 4194304 div 4096"
      by (simp add: unat_div unat_mod u del: of_nat_mult)
    also have "\<dots> = v mod 1024" using mod_mult_mult1[of 4096 v 1024] by simp
    also have "\<dots> = unat (of_nat (v mod 1024) :: u32)" by (simp add: unat_of_nat_u32)
    finally show "unat (?w mod 4194304 div 4096) = unat (of_nat (v mod 1024) :: u32)" .
  qed
  ultimately show ?thesis by (simp add: paging_get_index_def del: of_nat_mult)
qed

lemma paging_get_pte:
  "v < 2 ^ 20 \<Longrightarrow> paging_get dir (of_nat (4096 * v)) m = pte m dir v"
  by (simp add: paging_get_def virt_indices pte_def pte_addr_def tbl_def del: of_nat_mult)

lemma paging_set_pte:
  assumes "v < 2 ^ 20"
  shows "paging_set dir (of_nat (4096 * v)) x m = (0, store32 m (pte_addr m dir v) x)"
proof -
  have "paging_is_aligned (of_nat (4096 * v))"
    using virt_indices[OF assms, of 0 0] by (simp add: paging_get_index_def split: if_splits del: of_nat_mult)
  then show ?thesis
    using virt_indices[OF assms, of 0 0]
    by (simp add: paging_set_def pte_addr_def tbl_def del: of_nat_mult)
qed

lemma page_index_cases:
  assumes "v < (2::nat) ^ 20" "w < 2 ^ 20" "v \<noteq> w"
  shows "v div 1024 \<noteq> w div 1024 \<or> v mod 1024 \<noteq> w mod 1024"
  using assms(3) by (metis div_mult_mod_eq)

lemma tbl_store_pte:
  assumes "pd_wf m dir" "v < 2 ^ 20" "i < 1024"
  shows "tbl (store32 m (pte_addr m dir v) x) dir i = tbl m dir i"
proof -
  have "v div 1024 < 1024" using assms(2) by simp
  then have "disjoint_regions (pte_addr m dir v) 4 (dir + 4 * of_nat i) 4"
    unfolding pte_addr_def using assms(1,3)
    by (intro page_cells_disjoint) (auto simp: pd_wf_def)
  then show ?thesis by (simp add: tbl_def load32_store32_other)
qed

lemma pte_store:
  assumes "pd_wf m dir" "v < 2 ^ 20" "w < 2 ^ 20"
  shows "pte (store32 m (pte_addr m dir v) x) dir w = (if w = v then x else pte m dir w)"
proof -
  have lt: "v div 1024 < 1024" "w div 1024 < 1024" using assms(2,3) by simp_all
  have same: "pte_addr (store32 m (pte_addr m dir v) x) dir w = pte_addr m dir w"
    using tbl_store_pte[OF assms(1,2) lt(2)] by (simp add: pte_addr_def)
  show ?thesis
  proof (cases "w = v")
    case True
    then show ?thesis using same by (simp add: pte_def)
  next
    case False
    have "disjoint_regions (pte_addr m dir v) 4 (pte_addr m dir w) 4"
      unfolding pte_addr_def
      using page_index_cases[OF assms(2,3)] False assms(1) lt
      by (intro page_cells_disjoint) (auto simp: pd_wf_def)
    then show ?thesis using same False by (simp add: pte_def load32_store32_other)
  qed
qed

lemma pd_wf_store:
  assumes "pd_wf m dir" "v < 2 ^ 20"
  shows "pd_wf (store32 m (pte_addr m dir v) x) dir"
  using assms(1) tbl_store_pte[OF assms] by (simp add: pd_wf_def)

lemma chunk_dir_store:
  assumes "chunk_wf m chunk" "v < 2 ^ 20"
  shows "load32 (store32 m (pte_addr m (load32 m chunk) v) x) chunk = load32 m chunk"
proof (rule load32_cong, rule store32_outside)
  fix a assume a: "in_region chunk 4 a"
  let ?t = "tbl m (load32 m chunk) (v div 1024)"
  have "v div 1024 < 1024" using assms(2) by simp
  then have "disjoint_regions ?t 4096 chunk 4" using assms(1) by (simp add: chunk_wf_def)
  then have "\<not> in_region ?t 4096 a" using a by (rule disjoint_regionsD)
  then show "\<not> in_region (pte_addr m (load32 m chunk) v) 4 a"
    unfolding pte_addr_def by (meson mod_less_divisor page_cell_in_page tbl_aligned zero_less_numeral)
qed

lemma chunk_wf_store:
  assumes "chunk_wf m chunk" "v < 2 ^ 20"
  shows "chunk_wf (store32 m (pte_addr m (load32 m chunk) v) x) chunk"
  using assms tbl_store_pte[of m "load32 m chunk" v] pd_wf_store[of m "load32 m chunk" v x]
  by (simp add: chunk_wf_def chunk_dir_store)

subsection \<open>Mapping ranges\<close>

lemma aligned_of_nat:
  assumes "v < 2 ^ 20"
  shows "(of_nat (4096 * v) :: u32) mod 4096 = 0"
proof -
  have "unat (of_nat (4096 * v) :: u32) = 4096 * v" using assms by (intro unat_of_nat_u32) simp
  then show ?thesis unfolding aligned_4096_iff by simp
qed

lemma paging_map_pte:
  assumes "v < 2 ^ 20" "p < 2 ^ 20"
  shows "paging_map chunk (of_nat (4096 * v)) (of_nat (4096 * p)) flags m =
    (0, store32 m (pte_addr m (load32 m chunk) v) (of_nat (4096 * p) OR word_of_int flags))"
  unfolding paging_map_def paging_set_pte[OF assms(1)] aligned_of_nat[OF assms(1)]
    aligned_of_nat[OF assms(2)] by simp

text \<open>
  \<open>remapped m m' chunk v p k f\<close>: \<open>m'\<close> is \<open>m\<close> with the \<open>k\<close> virtual pages from \<open>v\<close> on mapped to the
  physical pages from \<open>p\<close> on; nothing else of the address space of the chunk is different, and no
  byte outside its tables.
\<close>

definition remapped :: "mem \<Rightarrow> mem \<Rightarrow> u32 \<Rightarrow> nat \<Rightarrow> nat \<Rightarrow> nat \<Rightarrow> u32 \<Rightarrow> bool" where
  "remapped m m' chunk v p k f \<longleftrightarrow> load32 m' chunk = load32 m chunk
     \<and> (\<forall>i < 1024. tbl m' (load32 m chunk) i = tbl m (load32 m chunk) i)
     \<and> (\<forall>w < 2 ^ 20. pte m' (load32 m chunk) w =
           (if v \<le> w \<and> w < v + k then of_nat (4096 * (p + (w - v))) OR f
            else pte m (load32 m chunk) w))
     \<and> (\<forall>a. (\<forall>i < 1024. \<not> in_region (tbl m (load32 m chunk) i) 4096 a) \<longrightarrow> m' a = m a)"

lemma remapped_refl: "remapped m m chunk v p 0 f"
  unfolding remapped_def by auto

lemma remapped_step:
  assumes "chunk_wf m chunk" "v < 2 ^ 20"
  shows "remapped m (store32 m (pte_addr m (load32 m chunk) v) (of_nat (4096 * p) OR f)) chunk v p 1 f"
proof -
  let ?d = "load32 m chunk"
  have wf: "pd_wf m ?d" using assms(1) by (simp add: chunk_wf_def)
  have lt: "v div 1024 < 1024" using assms(2) by simp
  have "store32 m (pte_addr m ?d v) x a = m a"
    if "\<forall>i < 1024. \<not> in_region (tbl m ?d i) 4096 a" for a x
  proof (rule store32_outside)
    show "\<not> in_region (pte_addr m ?d v) 4 a"
      using that lt page_cell_in_page[of "tbl m ?d (v div 1024)" "v mod 1024" a]
      by (auto simp: pte_addr_def)
  qed
  then show ?thesis
    unfolding remapped_def chunk_dir_store[OF assms]
    using tbl_store_pte[OF wf assms(2)] pte_store[OF wf assms(2)] by auto
qed

lemma remapped_trans:
  assumes "remapped m m1 chunk v p 1 f" "remapped m1 m2 chunk (Suc v) (Suc p) k f"
  shows "remapped m m2 chunk v p (Suc k) f"
proof -
  let ?d = "load32 m chunk"
  have d: "load32 m1 chunk = ?d" "load32 m2 chunk = ?d" using assms by (simp_all add: remapped_def)
  have t: "tbl m1 ?d i = tbl m ?d i" "tbl m2 ?d i = tbl m1 ?d i" if "i < 1024" for i
    using assms that d by (simp_all add: remapped_def)
  have "pte m2 ?d w = (if v \<le> w \<and> w < v + Suc k then of_nat (4096 * (p + (w - v))) OR f else pte m ?d w)"
    if "w < 2 ^ 20" for w
  proof -
    have 1: "pte m1 ?d w = (if w = v then of_nat (4096 * p) OR f else pte m ?d w)"
      using assms(1) that by (auto simp: remapped_def)
    have 2: "pte m2 ?d w = (if Suc v \<le> w \<and> w < Suc v + k
        then of_nat (4096 * (Suc p + (w - Suc v))) OR f else pte m1 ?d w)"
      using assms(2) that d by (simp add: remapped_def)
    have "Suc p + (w - Suc v) = p + (w - v)" if "Suc v \<le> w" using that by simp
    then show ?thesis unfolding 2 1 by auto
  qed
  moreover have "m2 a = m a" if "\<forall>i < 1024. \<not> in_region (tbl m ?d i) 4096 a" for a
    using assms that d t by (simp add: remapped_def)
  ultimately show ?thesis unfolding remapped_def using d t by simp
qed

lemma remapped_chunk_wf: "chunk_wf m chunk \<Longrightarrow> remapped m m' chunk v p k f \<Longrightarrow> chunk_wf m' chunk"
  by (simp add: chunk_wf_def pd_wf_def remapped_def)

lemma paging_map_range_loop_eq:
  assumes "chunk_wf m chunk" "v + k \<le> 2 ^ 20" "p + k \<le> 2 ^ 20" "k = nat (count - i)"
  shows "\<exists>m'. paging_map_range_loop chunk (of_nat (4096 * v)) (of_nat (4096 * p)) count flags i res m
      = (if k = 0 then res else 0, m') \<and> remapped m m' chunk v p k (word_of_int flags)"
  using assms
proof (induction k arbitrary: v p i res m)
  case 0
  then show ?case using remapped_refl
    by (subst paging_map_range_loop.simps) (auto intro: exI[of _ m])
next
  case (Suc k)
  define m1 where "m1 = store32 m (pte_addr m (load32 m chunk) v) (of_nat (4096 * p) OR word_of_int flags)"
  have vp: "v < 2 ^ 20" "p < 2 ^ 20" and i: "i < count" using Suc.prems by simp_all
  have step: "remapped m m1 chunk v p 1 (word_of_int flags)"
    unfolding m1_def by (rule remapped_step[OF Suc.prems(1) vp(1)])
  have wf1: "chunk_wf m1 chunk" using Suc.prems(1) step by (rule remapped_chunk_wf)
  obtain m' where m': "paging_map_range_loop chunk (of_nat (4096 * Suc v)) (of_nat (4096 * Suc p)) count flags
      (i + 1) 0 m1 = (0, m')" "remapped m1 m' chunk (Suc v) (Suc p) k (word_of_int flags)"
  proof -
    have "k = nat (count - (i + 1))" "Suc v + k \<le> 2 ^ 20" "Suc p + k \<le> 2 ^ 20"
      using Suc.prems by simp_all
    then show thesis using that Suc.IH[OF wf1, of "Suc v" "Suc p" "i + 1" 0] by fastforce
  qed
  have suc: "(of_nat (4096 * Suc x) :: u32) = of_nat (4096 * x) + 4096" for x by simp
  have "paging_map_range_loop chunk (of_nat (4096 * v)) (of_nat (4096 * p)) count flags i res m = (0, m')"
    using i m'(1)
    by (subst paging_map_range_loop.simps)
      (simp add: paging_map_pte[OF vp] m1_def[symmetric] suc del: of_nat_mult mult_Suc_right)
  then show ?case using remapped_trans[OF step m'(2)] by auto
qed

lemma paging_map_to_eq:
  assumes "chunk_wf m chunk" "v + (e - p) \<le> 2 ^ 20" "p \<le> e" "e < 2 ^ 20"
  shows "\<exists>m'. paging_map_to chunk (of_nat (4096 * v)) (of_nat (4096 * p)) (of_nat (4096 * e)) flags m = (0, m')
      \<and> remapped m m' chunk v p (e - p) (word_of_int flags)"
proof (cases "v = 2 ^ 20")
  case True
  then have "e = p" using assms by simp
  moreover have "(of_nat (4096 * v) :: u32) = 0" using True by simp
  ultimately show ?thesis
    using aligned_of_nat[of p] assms remapped_refl[of m chunk v p]
    using paging_map_range_loop.simps[of chunk 0 "of_nat (4096 * p)" 0 flags 0 0 m]
    by (simp add: paging_map_to_def paging_map_range_def del: of_nat_mult)
next
  case False
  then have v: "v < 2 ^ 20" using assms by simp
  have p: "p < 2 ^ 20" using assms by simp
  have u: "unat (of_nat (4096 * x) :: u32) = 4096 * x" if "x < 2 ^ 20" for x
    using that by (intro unat_of_nat_u32) simp
  have le: "\<not> (of_nat (4096 * e) :: u32) < of_nat (4096 * p)"
    unfolding word_less_nat_alt u[OF p] u[OF assms(4)] using assms(3) by simp
  then have le': "(of_nat (4096 * p) :: u32) \<le> of_nat (4096 * e)" by (simp only: not_less)
  have "unat ((of_nat (4096 * e) - of_nat (4096 * p) :: u32) div 4096) = (4096 * e - 4096 * p) div 4096"
    by (simp only: unat_div_4096 unat_sub[OF le'] u[OF p] u[OF assms(4)])
  also have "\<dots> = e - p" by (simp add: diff_mult_distrib2[symmetric])
  finally have "unat ((of_nat (4096 * e) - of_nat (4096 * p) :: u32) div 4096) = e - p" .
  then have "(of_nat (4096 * e) - of_nat (4096 * p) :: u32) div 4096 = of_nat (e - p)"
    using assms by (simp only: word_unat_eq_iff) (simp add: unat_of_nat_u32 del: of_nat_mult of_nat_diff)
  moreover have "sint (of_nat (e - p) :: u32) = int (e - p)"
    using assms(4) by (simp add: signed_of_nat signed_take_bit_int_eq_self del: of_nat_diff)
  ultimately have sint: "sint ((of_nat (4096 * e) - of_nat (4096 * p) :: u32) div 4096) = int (e - p)"
    by simp
  obtain m' where "paging_map_range_loop chunk (of_nat (4096 * v)) (of_nat (4096 * p)) (int (e - p)) flags 0 0 m
      = (0, m')" "remapped m m' chunk v p (e - p) (word_of_int flags)"
  proof -
    have "p + (e - p) \<le> 2 ^ 20" using assms(3,4) by simp
    moreover have "e - p = nat (int (e - p) - 0)" by (simp only: diff_zero nat_int)
    ultimately show thesis
      using that paging_map_range_loop_eq[OF assms(1,2), of p "int (e - p)" 0 flags 0] by auto
  qed
  then show ?thesis
    using le aligned_of_nat[OF v] aligned_of_nat[OF p] aligned_of_nat[OF assms(4)]
    by (simp add: paging_map_to_def paging_map_range_def sint del: of_nat_mult of_nat_diff)
qed

subsection \<open>A new address space\<close>

lemma fill_table_upto:
  fixes e off :: u32 and f :: u8
  assumes "e mod 4096 = 0" "n \<le> 1024"
  defines "g \<equiv> \<lambda>k m. fold (\<lambda>pi m. store32 m (e + 4 * of_nat pi) ((off + of_nat (pi * 4096)) OR ucast f)) [0..<k] m"
  shows "(\<forall>j < n. load32 (g n m) (e + 4 * of_nat j) = (off + of_nat (j * 4096)) OR ucast f)
    \<and> (\<forall>a. \<not> in_region e 4096 a \<longrightarrow> g n m a = m a)"
  using assms(2)
proof (induction n)
  case 0
  then show ?case by (simp add: g_def)
next
  case (Suc n)
  have n: "n < 1024" using Suc.prems by simp
  have step: "g (Suc n) m = store32 (g n m) (e + 4 * of_nat n) ((off + of_nat (n * 4096)) OR ucast f)"
    by (simp add: g_def)
  have ih: "\<forall>j < n. load32 (g n m) (e + 4 * of_nat j) = (off + of_nat (j * 4096)) OR ucast f"
    "\<forall>a. \<not> in_region e 4096 a \<longrightarrow> g n m a = m a" using Suc.IH n by auto
  have "load32 (g (Suc n) m) (e + 4 * of_nat j) = (off + of_nat (j * 4096)) OR ucast f"
    if "j < Suc n" for j
  proof (cases "j = n")
    case True
    then show ?thesis unfolding step by simp
  next
    case False
    then have j: "j < n" "j < 1024" using that n by auto
    have "disjoint_regions (e + 4 * of_nat n) 4 (e + 4 * of_nat j) 4"
      by (rule page_cells_disjoint[OF assms(1,1) n j(2)]) (use j in simp)
    then show ?thesis unfolding step using ih(1) j(1) by (simp add: load32_store32_other)
  qed
  moreover have "g (Suc n) m a = m a" if "\<not> in_region e 4096 a" for a
    unfolding step using that ih(2) page_cell_in_page[OF assms(1) n, of a]
    by (subst store32_outside) auto
  ultimately show ?case by blast
qed

lemma paging_fill_table_entry:
  "\<lbrakk>e mod 4096 = 0; j < 1024\<rbrakk> \<Longrightarrow>
     load32 (paging_fill_table e off f m) (e + 4 * of_nat j) = (off + of_nat (j * 4096)) OR ucast f"
  using fill_table_upto[of e 1024 off f m] by (simp add: paging_fill_table_def del: of_nat_mult)

lemma paging_fill_table_outside:
  "\<lbrakk>e mod 4096 = 0; \<not> in_region e 4096 a\<rbrakk> \<Longrightarrow> paging_fill_table e off f m a = m a"
  using fill_table_upto[of e 1024 off f m] by (simp add: paging_fill_table_def del: of_nat_mult)

text \<open>
  \<open>tables_built\<close> describes a directory whose first \<open>length fs\<close> entries lead to filled tables at the blocks \<open>fs\<close>.
\<close>

definition tables_built :: "heap \<Rightarrow> u8 \<Rightarrow> mem \<Rightarrow> u32 \<Rightarrow> nat list \<Rightarrow> bool" where
  "tables_built h f m d fs \<longleftrightarrow> (\<forall>i < length fs.
     load32 m (d + 4 * of_nat i) = block_addr h (fs ! i) OR ucast f OR 2
     \<and> (\<forall>j < 1024. load32 m (block_addr h (fs ! i) + 4 * of_nat j) =
          of_nat (4096 * (1024 * i + j)) OR ucast f))"

lemma page_cell_in_block:
  assumes "klive h s A" "A b = Some 1" "i < 1024" "in_region (block_addr h b + 4 * of_nat i) 4 a"
  shows "in_blocks h b 1 a"
  using page_cell_in_page[OF block_addr_aligned assms(3,4)] klive_block[OF assms(1,2)]
  by (simp add: in_blocks_def)

lemma tables_built_frame:
  assumes "klive h s A" "tables_built h f m d fs" "d = block_addr h bd" "bd \<notin> set fs"
    and "\<forall>b \<in> insert bd (set fs). A b = Some 1" "length fs \<le> 1024"
    and "\<And>b a. b \<in> set fs \<Longrightarrow> in_blocks h b 1 a \<Longrightarrow> m' a = m a"
    and "\<And>i. i < length fs \<Longrightarrow> load32 m' (d + 4 * of_nat i) = load32 m (d + 4 * of_nat i)"
  shows "tables_built h f m' d fs"
proof -
  have "load32 m' (block_addr h (fs ! i) + 4 * of_nat j) = load32 m (block_addr h (fs ! i) + 4 * of_nat j)"
    if "i < length fs" "j < 1024" for i j
  proof (rule load32_cong)
    fix a assume a: "in_region (block_addr h (fs ! i) + 4 * of_nat j) 4 a"
    have mem: "fs ! i \<in> set fs" using that(1) by simp
    then have "A (fs ! i) = Some 1" using assms(5) by blast
    then show "m' a = m a" using page_cell_in_block[OF assms(1) _ that(2) a] assms(7)[OF mem] by blast
  qed
  then show ?thesis using assms(2,8) by (simp add: tables_built_def)
qed

lemma add_table:
  assumes live: "klive h s A" and built: "tables_built h f (memory s) d fs"
    and d: "d = block_addr h bd" "bd \<notin> set fs" and b: "b \<noteq> bd" "b \<notin> set fs" and fs: "length fs < 1024"
    and pages: "\<forall>c \<in> insert b (insert bd (set fs)). A c = Some 1"
  defines "m \<equiv> store32 (paging_fill_table (block_addr h b) (of_nat (4194304 * length fs)) f (memory s))
      (d + 4 * of_nat (length fs)) (block_addr h b OR ucast f OR 2)"
  shows "klive h (s\<lparr>memory := m\<rparr>) A" "tables_built h f m d (fs @ [b])"
    and "\<And>c n a. A c = Some n \<Longrightarrow> c \<noteq> b \<Longrightarrow> c \<noteq> bd \<Longrightarrow> in_blocks h c n a \<Longrightarrow> m a = memory s a"
proof -
  let ?e = "block_addr h b" and ?n = "length fs"
  let ?m1 = "paging_fill_table ?e (of_nat (4194304 * ?n)) f (memory s)"
  have Ab: "A b = Some 1" and Abd: "A bd = Some 1" and Afs: "\<And>c. c \<in> set fs \<Longrightarrow> A c = Some 1"
    using pages by blast+
  have al: "?e mod 4096 = 0" "d mod 4096 = 0"
    using block_addr_aligned klive_block[OF live Ab] klive_block[OF live Abd] d by auto
  have neq: "d \<noteq> ?e" using klive_apart[OF live Ab Abd b(1), of ?e] d(1) by (auto simp: in_blocks_def)
  have m_out: "m a = memory s a" if "\<not> in_blocks h b 1 a" "\<not> in_region (d + 4 * of_nat ?n) 4 a" for a
    unfolding m_def using that
    by (simp add: store32_outside paging_fill_table_outside[OF al(1)] in_blocks_def del: of_nat_mult)
  have in_bd: "in_blocks h bd 1 a" if "in_region (d + 4 * of_nat i) 4 a" "i < 1024" for a i
    using page_cell_in_block[OF live Abd] that d(1) by simp
  show "klive h (s\<lparr>memory := m\<rparr>) A"
  proof (rule klive_write[OF live])
    fix a assume "m a \<noteq> memory s a"
    then have "in_blocks h b 1 a \<or> in_blocks h bd 1 a" using m_out[of a] in_bd[OF _ fs, of a] by blast
    then show "\<exists>b n. A b = Some n \<and> in_blocks h b n a" using Ab Abd by blast
  qed
  show frame: "m a = memory s a" if c: "A c = Some n" "c \<noteq> b" "c \<noteq> bd" "in_blocks h c n a" for c n a
    using klive_apart[OF live c(1) Ab c(2,4)] klive_apart[OF live c(1) Abd c(3,4)] m_out in_bd[OF _ fs]
    by blast
  have dcell: "load32 m (d + 4 * of_nat i) = load32 (memory s) (d + 4 * of_nat i)" if i: "i < ?n" for i
  proof (rule load32_cong)
    fix a assume a: "in_region (d + 4 * of_nat i) 4 a"
    have "disjoint_regions (d + 4 * of_nat ?n) 4 (d + 4 * of_nat i) 4"
      using i fs by (intro page_cells_disjoint al) auto
    then have "\<not> in_region (d + 4 * of_nat ?n) 4 a" using a by (rule disjoint_regionsD)
    moreover have "in_blocks h bd 1 a" by (rule in_bd[OF a]) (use i fs in simp)
    then have "\<not> in_blocks h b 1 a" using klive_apart[OF live Abd Ab] b(1) by blast
    ultimately show "m a = memory s a" using m_out by blast
  qed
  have old: "tables_built h f m d fs"
  proof (rule tables_built_frame[OF live built d])
    show "\<forall>c \<in> insert bd (set fs). A c = Some 1" using pages by blast
    show "m a = memory s a" if "c \<in> set fs" "in_blocks h c 1 a" for c a
      using frame[OF Afs[OF that(1)] _ _ that(2)] that(1) d(2) b(2) by blast
  qed (use fs dcell in simp_all)
  have new: "load32 m (?e + 4 * of_nat j) = of_nat (4096 * (1024 * ?n + j)) OR ucast f" if "j < 1024" for j
  proof -
    have "disjoint_regions (d + 4 * of_nat ?n) 4 (?e + 4 * of_nat j) 4"
      using that fs neq by (intro page_cells_disjoint al) auto
    then have "load32 m (?e + 4 * of_nat j) = load32 ?m1 (?e + 4 * of_nat j)"
      unfolding m_def by (rule load32_store32_other)
    then show ?thesis unfolding paging_fill_table_entry[OF al(1) that] by (simp add: algebra_simps)
  qed
  show "tables_built h f m d (fs @ [b])"
    using old new unfolding tables_built_def by (auto simp: nth_append less_Suc_eq m_def)
qed

text \<open>
  What the first \<open>length fs\<close> rounds of the loop have done to a state whose live allocations were \<open>A\<close>:
  the directory is the page of block \<open>bd\<close>, the tables are the pages of the blocks \<open>fs\<close>, all of them
  fresh, and the contents of the allocations of \<open>A\<close> are those of \<open>m\<^sub>0\<close>.
\<close>

definition building ::
    "heap \<Rightarrow> u8 \<Rightarrow> (nat \<rightharpoonup> nat) \<Rightarrow> mem \<Rightarrow> nat \<Rightarrow> nat list \<Rightarrow> 'a kstate_scheme \<Rightarrow> bool" where
  "building h f A m\<^sub>0 bd fs s \<longleftrightarrow> klive h s (with_pages A (insert bd (set fs)))
     \<and> tables_built h f (memory s) (block_addr h bd) fs \<and> distinct (bd # fs)
     \<and> (\<forall>b \<in> insert bd (set fs). A b = None)
     \<and> card (unused_blocks (nblocks h) A) =
         Suc (length fs) + card (unused_blocks (nblocks h) (with_pages A (insert bd (set fs))))
     \<and> (\<forall>c n a. A c = Some n \<longrightarrow> in_blocks h c n a \<longrightarrow> memory s a = m\<^sub>0 a)"

lemma paging_new_table_step:
  fixes s :: "'a kstate_scheme"
  assumes st: "building h f A m\<^sub>0 bd fs s" and fs: "length fs < 1024"
    and room: "Suc (length fs) < card (unused_blocks (nblocks h) A)"
  shows "\<exists>b m. paging_new_table (block_addr h bd) f (length fs) (of_nat (4194304 * length fs), s) =
        (of_nat (4194304 * Suc (length fs)), s\<lparr>memory := m\<rparr>)
      \<and> building h f A m\<^sub>0 bd (fs @ [b]) (s\<lparr>memory := m\<rparr>)"
proof -
  let ?B = "insert bd (set fs)" and ?n = "length fs"
  let ?A = "with_pages A ?B" and ?U = "unused_blocks (nblocks h)"
  have live: "klive h s ?A" and built: "tables_built h f (memory s) (block_addr h bd) fs"
    and dist: "bd \<notin> set fs" "distinct fs" and fresh: "\<forall>b \<in> ?B. A b = None"
    and cnt: "card (?U A) = Suc ?n + card (?U ?A)"
    and keep: "\<And>c n a. A c = Some n \<Longrightarrow> in_blocks h c n a \<Longrightarrow> memory s a = m\<^sub>0 a"
    using st by (auto simp: building_def)
  have U: "?U ?A \<noteq> {}" using cnt room by auto
  obtain b st' where fp: "kzalloc 4096 s = (block_addr h b, st')" "klive h st' (?A(b \<mapsto> 1))"
    "?A b = None" "?U (?A(b \<mapsto> 1)) = ?U ?A - {b}" "b \<in> ?U ?A"
    "\<And>c n a. ?A c = Some n \<Longrightarrow> in_blocks h c n a \<Longrightarrow> memory st' a = memory s a"
    using kz.fresh_page[OF live U, of 4096] by (auto simp: in_blocks_def)
  let ?A' = "with_pages A (insert b ?B)"
  have live': "klive h st' ?A'" using fp(2) by (simp only: with_pages_simps)
  have bB: "b \<notin> ?B" using fp(3) with_pages_simps(3)[of b ?B A] by auto
  then have b: "b \<noteq> bd" "b \<notin> set fs" "A b = None" using fp(3) by auto
  obtain m0 where m0: "st' = s\<lparr>memory := m0\<rparr>" using kzalloc_memory_only[of 4096 s] fp(1) by auto
  have pages: "\<forall>c \<in> insert b ?B. ?A' c = Some 1" by simp
  have pages0: "?A c = Some 1" if "c \<in> ?B" for c using that by simp
  have built': "tables_built h f (memory st') (block_addr h bd) fs"
  proof (rule tables_built_frame[OF live' built _ dist(1)])
    show "memory st' a = memory s a" if "c \<in> set fs" "in_blocks h c 1 a" for c a
      using fp(6)[OF pages0 that(2)] that(1) by blast
    show "load32 (memory st') (block_addr h bd + 4 * of_nat i) = load32 (memory s) (block_addr h bd + 4 * of_nat i)"
      if "i < ?n" for i
      using that fs by (intro load32_cong fp(6)[OF pages0[of bd]] page_cell_in_block[OF live pages0, of bd i])
        (auto simp: in_blocks_def)
  qed (use fs pages in simp_all)
  note add = add_table[OF live' built' refl dist(1) b(1,2) fs pages]
  define m where "m = store32 (paging_fill_table (block_addr h b) (of_nat (4194304 * ?n)) f m0)
      (block_addr h bd + 4 * of_nat ?n) (block_addr h b OR ucast f OR 2)"
  have mem': "memory st' = m0" using m0 by simp
  note add' = add[unfolded mem', folded m_def]
  have eq: "paging_new_table (block_addr h bd) f ?n (of_nat (4194304 * ?n), s) =
      (of_nat (4194304 * Suc ?n), s\<lparr>memory := m\<rparr>)"
    using fp(1) m0 by (simp add: paging_new_table_def m_def Let_def)
  have "m a = m\<^sub>0 a" if c: "A c = Some n" "in_blocks h c n a" for c n a
  proof -
    have cB: "c \<notin> insert b ?B" using c(1) fresh b by auto
    then have "?A' c = Some n" "?A c = Some n" using c(1) by simp_all
    then show ?thesis using add'(3)[of c n a] cB c fp(6)[of c n a] keep[OF c] mem' by auto
  qed
  moreover have "card (?U ?A) = Suc (card (?U ?A'))"
    using fp(4,5) by (metis card.remove finite_Collect_conjI finite_Collect_less_nat unused_blocks_def with_pages_simps(2))
  moreover have "klive h (s\<lparr>memory := m\<rparr>) ?A'" using add'(1) m0 by simp
  ultimately have "building h f A m\<^sub>0 bd (fs @ [b]) (s\<lparr>memory := m\<rparr>)"
    using add'(2) dist b fresh cnt by (simp add: building_def insert_commute)
  then show ?thesis using eq by blast
qed

lemma paging_new_tables:
  fixes s :: "'a kstate_scheme"
  assumes "building h f A m\<^sub>0 bd [] s" "n \<le> 1024" "n < card (unused_blocks (nblocks h) A)"
  shows "\<exists>fs m. fold (paging_new_table (block_addr h bd) f) [0..<n] (0, s) =
      (of_nat (4194304 * n), s\<lparr>memory := m\<rparr>) \<and> length fs = n \<and> building h f A m\<^sub>0 bd fs (s\<lparr>memory := m\<rparr>)"
  using assms(2,3)
proof (induction n)
  case 0
  then show ?case using assms(1) by (auto intro: exI[of _ "memory s"])
next
  case (Suc n)
  then obtain fs m where IH: "fold (paging_new_table (block_addr h bd) f) [0..<n] (0, s) =
      (of_nat (4194304 * n), s\<lparr>memory := m\<rparr>)" "length fs = n" "building h f A m\<^sub>0 bd fs (s\<lparr>memory := m\<rparr>)"
    by auto
  from paging_new_table_step[OF IH(3)] Suc.prems IH(2)
  obtain b m' where "paging_new_table (block_addr h bd) f n (of_nat (4194304 * n), s\<lparr>memory := m\<rparr>) =
      (of_nat (4194304 * Suc n), s\<lparr>memory := m'\<rparr>)" "building h f A m\<^sub>0 bd (fs @ [b]) (s\<lparr>memory := m'\<rparr>)"
    by auto
  then show ?case using IH(1,2)
    by (intro exI[of _ "fs @ [b]"] exI[of _ m']) (simp del: of_nat_mult mult_Suc_right)
qed

text \<open>
  The pages of an address space: the chunk struct at block \<open>c\<close>, the directory at \<open>bd\<close> and the 1024
  tables at \<open>fs\<close>.
\<close>

definition chunk_pages :: "heap \<Rightarrow> mem \<Rightarrow> nat \<Rightarrow> nat \<Rightarrow> nat list \<Rightarrow> bool" where
  "chunk_pages h m c bd fs \<longleftrightarrow> length fs = 1024 \<and> distinct (c # bd # fs)
     \<and> load32 m (block_addr h c) = block_addr h bd
     \<and> (\<forall>i < 1024. tbl m (block_addr h bd) i = block_addr h (fs ! i))"

lemma flags_masked: "(ucast (f :: u8) OR (2 :: u32)) AND 0xfffff000 = 0"
  by (simp add: word_ao_dist)

lemma tables_built_tbl:
  assumes "klive h s A" "tables_built h f m d fs" "\<forall>b \<in> set fs. A b = Some 1" "i < length fs"
  shows "tbl m d i = block_addr h (fs ! i)"
proof -
  have "A (fs ! i) = Some 1" using assms(3,4) by simp
  then have "block_addr h (fs ! i) mod 4096 = 0"
    using klive_block[OF assms(1)] by (intro block_addr_aligned) auto
  moreover have "load32 m (d + 4 * of_nat i) = block_addr h (fs ! i) OR (ucast f OR 2)"
    using assms(2,4) by (simp add: tables_built_def)
  ultimately show ?thesis unfolding tbl_def using aligned_or_mask[OF _ flags_masked] by simp
qed

lemma tables_built_pte:
  assumes "klive h s A" "tables_built h f m d fs" "\<forall>b \<in> set fs. A b = Some 1" "length fs = 1024" "v < 2 ^ 20"
  shows "pte m d v = of_nat (4096 * v) OR ucast f"
proof -
  have lt: "v div 1024 < 1024" "v mod 1024 < 1024" using assms(5) by simp_all
  have "tbl m d (v div 1024) = block_addr h (fs ! (v div 1024))"
    using tables_built_tbl[OF assms(1-3)] assms(4) lt by simp
  moreover have "load32 m (block_addr h (fs ! (v div 1024)) + 4 * of_nat (v mod 1024)) =
      of_nat (4096 * (1024 * (v div 1024) + v mod 1024)) OR ucast f"
    using assms(2) lt unfolding tables_built_def assms(4) by blast
  ultimately show ?thesis by (simp only: pte_def pte_addr_def mult_div_mod_eq)
qed

text \<open>The chunk struct is allocated last and its field set.\<close>

lemma paging_new_chunk_step:
  fixes s :: "'a kstate_scheme"
  assumes st: "building h f A m\<^sub>0 bd fs s" and fs: "length fs = 1024"
    and room: "1026 \<le> card (unused_blocks (nblocks h) A)"
  shows "\<exists>c s3 m. kzalloc 4 s = (block_addr h c, s3)
    \<and> m = store32 (memory s3) (block_addr h c) (block_addr h bd)
    \<and> klive h (s3\<lparr>memory := m\<rparr>) (with_pages A (set (c # bd # fs)))
    \<and> (\<forall>b \<in> set (c # bd # fs). A b = None) \<and> distinct (c # bd # fs)
    \<and> tables_built h f m (block_addr h bd) fs
    \<and> (\<forall>e n a. A e = Some n \<longrightarrow> in_blocks h e n a \<longrightarrow> m a = m\<^sub>0 a)"
proof -
  let ?U = "unused_blocks (nblocks h)" and ?A2 = "with_pages A (insert bd (set fs))"
  have b: "klive h s ?A2" "tables_built h f (memory s) (block_addr h bd) fs" "distinct (bd # fs)"
    "\<forall>b \<in> insert bd (set fs). A b = None" "card (?U A) = Suc 1024 + card (?U ?A2)"
    "\<And>c n a. A c = Some n \<Longrightarrow> in_blocks h c n a \<Longrightarrow> memory s a = m\<^sub>0 a"
    using st fs by (auto simp: building_def)
  have U2: "?U ?A2 \<noteq> {}" using b(5) room by auto
  obtain c s3 where c: "kzalloc 4 s = (block_addr h c, s3)" "klive h s3 (?A2(c \<mapsto> 1))" "?A2 c = None"
    "\<And>e n a. ?A2 e = Some n \<Longrightarrow> in_blocks h e n a \<Longrightarrow> memory s3 a = memory s a"
    using kz.fresh_page[OF b(1) U2, of 4] by (auto simp: in_blocks_def)
  let ?A3 = "with_pages A (insert c (insert bd (set fs)))"
  define m where "m = store32 (memory s3) (block_addr h c) (block_addr h bd)"
  have live3: "klive h s3 ?A3" using c(2) by (simp only: with_pages_simps)
  have cB: "c \<notin> insert bd (set fs)" using c(3) with_pages_simps(3)[of c "insert bd (set fs)" A] by auto
  have out: "in_blocks h c 1 a" if "m a \<noteq> memory s3 a" for a
  proof -
    have "in_region (block_addr h c) 4 a" using that store32_outside unfolding m_def by blast
    then show ?thesis by (simp add: in_blocks_def in_region_def)
  qed
  have same: "m a = memory s a" if "?A2 e = Some n" "in_blocks h e n a" for e n a
  proof -
    have e: "?A3 e = Some n" "e \<noteq> c" using that(1) c(3) by (auto simp: with_pages_def)
    then have "\<not> in_blocks h c 1 a" using klive_apart[OF live3, of e n c 1 a] that by simp
    then show ?thesis using c(4)[OF that] out by metis
  qed
  have pg: "?A2 e = Some 1" if "e \<in> insert bd (set fs)" for e using that by simp
  have built: "tables_built h f m (block_addr h bd) fs"
  proof (rule tables_built_frame[OF b(1,2)])
    show "load32 m (block_addr h bd + 4 * of_nat i) = load32 (memory s) (block_addr h bd + 4 * of_nat i)"
      if "i < length fs" for i
      using that fs by (intro load32_cong same[OF pg[of bd]] page_cell_in_block[OF b(1) pg, of bd i]) auto
    show "m a = memory s a" if "e \<in> set fs" "in_blocks h e 1 a" for e a using same[OF pg that(2)] that(1) by blast
  qed (use b(3) fs in auto)
  have "klive h (s3\<lparr>memory := m\<rparr>) ?A3"
    using out with_pages_simps(3)[of c] by (intro klive_write[OF live3]) blast
  moreover have "m a = m\<^sub>0 a" if "A e = Some n" "in_blocks h e n a" for e n a
  proof -
    have "e \<notin> insert bd (set fs)" using that(1) b(4) by auto
    then have "?A2 e = Some n" using that(1) by simp
    then show ?thesis using same that b(6) by metis
  qed
  ultimately show ?thesis
    using c(1,3) b(3,4) cB built m_def by (intro exI[of _ c] exI[of _ s3] exI[of _ m]) auto
qed

lemma paging_new_4gb_ok:
  fixes s :: "'a kstate_scheme"
  assumes live: "klive h s A" and room: "1026 \<le> card (unused_blocks (nblocks h) A)"
  shows "\<exists>c bd fs m. paging_new_4gb f s = (block_addr h c, s\<lparr>memory := m\<rparr>)
    \<and> klive h (s\<lparr>memory := m\<rparr>) (with_pages A (set (c # bd # fs)))
    \<and> (\<forall>b \<in> set (c # bd # fs). A b = None) \<and> chunk_pages h m c bd fs
    \<and> (\<forall>v < 2 ^ 20. pte m (block_addr h bd) v = of_nat (4096 * v) OR ucast f)
    \<and> (\<forall>e n a. A e = Some n \<longrightarrow> in_blocks h e n a \<longrightarrow> m a = memory s a)"
proof -
  let ?U = "unused_blocks (nblocks h)"
  have A1: "A(b \<mapsto> 1) = with_pages A {b}" for b
    using with_pages_simps(2)[of A "{}" b] by (simp only: with_pages_simps)
  have U: "?U A \<noteq> {}" using room by auto
  obtain bd s1 where d: "kzalloc 4096 s = (block_addr h bd, s1)" "klive h s1 (with_pages A {bd})"
    "A bd = None" "?U (with_pages A {bd}) = ?U A - {bd}" "bd \<in> ?U A"
    "\<And>c n a. A c = Some n \<Longrightarrow> in_blocks h c n a \<Longrightarrow> memory s1 a = memory s a"
    using kz.fresh_page[OF live U, of 4096] unfolding A1 by (auto simp: in_blocks_def)
  have "finite (?U A)" by (simp add: unused_blocks_def)
  then have "card (?U A) = Suc (card (?U (with_pages A {bd})))" using card.remove[OF _ d(5)] d(4) by simp
  then have "building h f A (memory s) bd [] s1" using d by (simp add: building_def tables_built_def)
  then obtain fs m1 where fs: "fold (paging_new_table (block_addr h bd) f) [0..<1024] (0, s1) =
      (of_nat (4194304 * 1024), s1\<lparr>memory := m1\<rparr>)" "length fs = 1024"
    "building h f A (memory s) bd fs (s1\<lparr>memory := m1\<rparr>)"
    using paging_new_tables[of h f A "memory s" bd s1 1024] room by auto
  let ?s2 = "s1\<lparr>memory := m1\<rparr>"
  obtain c s3 m where c: "kzalloc 4 ?s2 = (block_addr h c, s3)"
    "m = store32 (memory s3) (block_addr h c) (block_addr h bd)"
    and live4: "klive h (s3\<lparr>memory := m\<rparr>) (with_pages A (set (c # bd # fs)))"
    and r: "\<forall>b \<in> set (c # bd # fs). A b = None" "distinct (c # bd # fs)"
    and built: "tables_built h f m (block_addr h bd) fs"
    and keep: "\<forall>e n a. A e = Some n \<longrightarrow> in_blocks h e n a \<longrightarrow> m a = memory s a"
    using paging_new_chunk_step[OF fs(3,2) room] by blast
  have pg: "\<forall>b \<in> set fs. with_pages A (set (c # bd # fs)) b = Some 1" by simp
  obtain m2 where "s3 = s\<lparr>memory := m2\<rparr>"
    using kzalloc_memory_only[of 4096 s] kzalloc_memory_only[of 4 ?s2] d(1) c(1) by auto
  then have "paging_new_4gb f s = (block_addr h c, s\<lparr>memory := m\<rparr>)"
    "klive h (s\<lparr>memory := m\<rparr>) (with_pages A (set (c # bd # fs)))"
    using d(1) fs(1) c live4 by (simp_all add: paging_new_4gb_def Let_def)
  moreover have "chunk_pages h m c bd fs"
    using tables_built_tbl[OF live4 built pg] fs(2) r(2) c(2) by (simp add: chunk_pages_def)
  ultimately show ?thesis using tables_built_pte[OF live4 built pg fs(2)] r(1) keep by blast
qed

lemma block_addr_inj:
  assumes "heap_wf h" "b < nblocks h" "c < nblocks h" "block_addr h b = block_addr h c"
  shows "b = c"
proof -
  have "unat (block_addr h b) = unat (block_addr h c)" by (simp only: assms(4))
  then have "unat (saddr h) + 4096 * b = unat (saddr h) + 4096 * c"
    by (simp only: block_addr_unat[OF assms(1,2)] block_addr_unat[OF assms(1,3)])
  then show ?thesis by simp
qed

lemma chunk_pages_wf:
  assumes live: "klive h s A" and own: "chunk_pages h m c bd fs"
    and pages: "\<forall>b \<in> set (c # bd # fs). A b = Some 1"
  shows "chunk_wf m (block_addr h c)"
proof -
  have bnd: "heap_wf h" "b < nblocks h" if "b \<in> set (c # bd # fs)" for b
    using klive_block[OF live] pages that by blast+
  have mem: "fs ! i \<in> set fs" if "i < 1024" for i using own that by (simp add: chunk_pages_def)
  have dist: "distinct (c # bd # fs)" "length fs = 1024" using own by (simp_all add: chunk_pages_def)
  have inj: "b = b'" if "block_addr h b = block_addr h b'" "b \<in> set (c # bd # fs)" "b' \<in> set (c # bd # fs)" for b b'
    using block_addr_inj[OF bnd(1,2,2)] that by blast
  have dir: "load32 m (block_addr h c) = block_addr h bd"
    and t: "\<And>i. i < 1024 \<Longrightarrow> tbl m (block_addr h bd) i = block_addr h (fs ! i)"
    using own by (simp_all add: chunk_pages_def)
  have "disjoint_regions (block_addr h (fs ! i)) 4096 (block_addr h c) 4" if "i < 1024" for i
  proof -
    have al: "block_addr h (fs ! i) mod 4096 = 0" "block_addr h c mod 4096 = 0"
      using mem[OF that] by (auto intro!: block_addr_aligned bnd)
    have "block_addr h (fs ! i) \<noteq> block_addr h c"
      using inj[of "fs ! i" c] mem[OF that] dist(1) by auto
    then show ?thesis
      using aligned_pages_apart[OF al] aligned_page_bound[OF al(1)] aligned_page_bound[OF al(2)]
      by (intro disjoint_regionsI_nat) auto
  qed
  moreover have "i = j" if "i < 1024" "j < 1024" "block_addr h (fs ! i) = block_addr h (fs ! j)" for i j
    using inj[OF that(3)] mem that dist by (simp add: nth_eq_iff_index_eq)
  moreover have "block_addr h (fs ! i) \<noteq> block_addr h bd" if "i < 1024" for i
    using inj[of "fs ! i" bd] mem[OF that] dist(1) by auto
  ultimately show ?thesis
    using t block_addr_aligned[OF bnd, of bd] by (simp add: chunk_wf_def pd_wf_def dir)
qed

text \<open>Mapping pages leaves the pages of the structure what they are.\<close>

lemma remapped_chunk_pages:
  "chunk_pages h m c bd fs \<Longrightarrow> remapped m m' (block_addr h c) v p k f \<Longrightarrow> chunk_pages h m' c bd fs"
  by (simp add: chunk_pages_def remapped_def)

subsection \<open>Giving an address space back\<close>

lemma kfree_page:
  assumes "klive h s (with_pages A (insert b B))" "b \<notin> B" "A b = None"
  shows "klive h (kfree (block_addr h b) s) (with_pages A B)"
    and "\<not> in_table h a \<Longrightarrow> memory (kfree (block_addr h b) s) a = memory s a"
proof -
  have "(with_pages A (insert b B))(b := None) = with_pages A B"
    using assms(2,3) by (auto simp: with_pages_def)
  then show "klive h (kfree (block_addr h b) s) (with_pages A B)"
    using kz.free_live[OF assms(1), of b 1] by simp
  show "\<not> in_table h a \<Longrightarrow> memory (kfree (block_addr h b) s) a = memory s a"
    using kfree_ok(2)[of s "with_pages A (insert b B)" b 1 a] assms(1) by (simp add: klive_def)
qed

lemma live_cell_eq:
  assumes "klive h s A" "A b = Some 1" "i < 1024" "\<And>a. \<not> in_table h a \<Longrightarrow> m' a = m a"
  shows "load32 m' (block_addr h b + 4 * of_nat i) = load32 m (block_addr h b + 4 * of_nat i)"
proof (rule load32_cong)
  fix a assume "in_region (block_addr h b + 4 * of_nat i) 4 a"
  then have "in_blocks h b 1 a" by (rule page_cell_in_block[OF assms(1-3)])
  then have "\<not> in_table h a" by (rule blocks_not_in_table[OF klive_block(1,3,4)[OF assms(1,2)]])
  then show "m' a = m a" by (rule assms(4))
qed

lemma paging_free_tables:
  fixes s :: "'a kstate_scheme"
  assumes live: "klive h s (with_pages A (set (c # bd # fs)))" and own: "chunk_pages h (memory s) c bd fs"
    and none: "\<forall>b \<in> set (c # bd # fs). A b = None" and n: "n \<le> 1024"
  shows "\<exists>m. fold (\<lambda>i s. let entry = load32 (memory s) (load32 (memory s) (block_addr h c) + 4 * of_nat i);
                             table = entry AND 0xfffff000 in kfree table s) [0..<n] s = s\<lparr>memory := m\<rparr>
    \<and> klive h (s\<lparr>memory := m\<rparr>) (with_pages A (set (c # bd # drop n fs)))
    \<and> (\<forall>a. \<not> in_table h a \<longrightarrow> m a = memory s a)"
  using n
proof (induction n)
  case 0
  then show ?case using live by (intro exI[of _ "memory s"]) simp
next
  case (Suc n)
  then have n: "n < 1024" by simp
  from Suc obtain m where IH: "fold (\<lambda>i s. let entry = load32 (memory s) (load32 (memory s) (block_addr h c) + 4 * of_nat i);
                             table = entry AND 0xfffff000 in kfree table s) [0..<n] s = s\<lparr>memory := m\<rparr>"
    "klive h (s\<lparr>memory := m\<rparr>) (with_pages A (set (c # bd # drop n fs)))"
    "\<And>a. \<not> in_table h a \<Longrightarrow> m a = memory s a" by auto
  have fs: "length fs = 1024" "distinct (c # bd # fs)" using own by (simp_all add: chunk_pages_def)
  have drop: "drop n fs = fs ! n # drop (Suc n) fs" using n fs(1) by (simp add: Cons_nth_drop_Suc)
  have "load32 m (block_addr h c + 4 * of_nat 0) = load32 (memory s) (block_addr h c + 4 * of_nat 0)"
    by (rule live_cell_eq[OF live _ _ IH(3)]) simp_all
  then have dir: "load32 m (block_addr h c) = block_addr h bd" using own by (simp add: chunk_pages_def)
  have "load32 m (block_addr h bd + 4 * of_nat n) = load32 (memory s) (block_addr h bd + 4 * of_nat n)"
    by (rule live_cell_eq[OF live _ n IH(3)]) simp_all
  then have tab: "load32 m (block_addr h bd + 4 * of_nat n) AND 0xfffff000 = block_addr h (fs ! n)"
    using own n by (simp add: chunk_pages_def tbl_def)
  let ?B = "set (c # bd # drop (Suc n) fs)"
  have B: "set (c # bd # drop n fs) = insert (fs ! n) ?B" unfolding drop by auto
  have "distinct (c # bd # drop n fs)" using fs(2) by (auto dest: in_set_dropD)
  then have "fs ! n \<notin> ?B" unfolding drop by auto
  moreover have "A (fs ! n) = None" using none n fs(1) by simp
  ultimately have "klive h (kfree (block_addr h (fs ! n)) (s\<lparr>memory := m\<rparr>)) (with_pages A ?B)"
    "\<And>a. \<not> in_table h a \<Longrightarrow> memory (kfree (block_addr h (fs ! n)) (s\<lparr>memory := m\<rparr>)) a = m a"
    using kfree_page[OF IH(2)[unfolded B]] by simp_all
  then show ?case
    using IH(1,3) dir tab kfree_memory_only[of "block_addr h (fs ! n)" "s\<lparr>memory := m\<rparr>"] by auto
qed

lemma paging_free_4gb_ok:
  fixes s :: "'a kstate_scheme"
  assumes live: "klive h s (with_pages A (set (c # bd # fs)))" and own: "chunk_pages h (memory s) c bd fs"
    and none: "\<forall>b \<in> set (c # bd # fs). A b = None"
  shows "klive h (paging_free_4gb (block_addr h c) s) A"
    and "\<not> in_table h a \<Longrightarrow> memory (paging_free_4gb (block_addr h c) s) a = memory s a"
proof -
  have fs: "length fs = 1024" "distinct (c # bd # fs)" using own by (simp_all add: chunk_pages_def)
  obtain m where m: "fold (\<lambda>i s. let entry = load32 (memory s) (load32 (memory s) (block_addr h c) + 4 * of_nat i);
                             table = entry AND 0xfffff000 in kfree table s) [0..<1024] s = s\<lparr>memory := m\<rparr>"
    "klive h (s\<lparr>memory := m\<rparr>) (with_pages A (insert bd {c}))"
    "\<And>a. \<not> in_table h a \<Longrightarrow> m a = memory s a"
    using paging_free_tables[OF assms, of 1024] fs(1) by (auto simp: insert_commute)
  have "load32 m (block_addr h c + 4 * of_nat 0) = load32 (memory s) (block_addr h c + 4 * of_nat 0)"
    by (rule live_cell_eq[OF live _ _ m(3)]) simp_all
  then have dir: "load32 m (block_addr h c) = block_addr h bd" using own by (simp add: chunk_pages_def)
  have l2: "klive h (kfree (block_addr h bd) (s\<lparr>memory := m\<rparr>)) (with_pages A (insert c {}))"
    using kfree_page(1)[OF m(2)] fs(2) none by auto
  have eq: "paging_free_4gb (block_addr h c) s =
      kfree (block_addr h c) (kfree (block_addr h bd) (s\<lparr>memory := m\<rparr>))"
    using m(1) dir by (simp add: paging_free_4gb_def Let_def)
  show "klive h (paging_free_4gb (block_addr h c) s) A"
    unfolding eq using kfree_page(1)[OF l2] none by simp
  show "memory (paging_free_4gb (block_addr h c) s) a = memory s a" if "\<not> in_table h a"
    unfolding eq using kfree_page(2)[OF l2 _ _ that] kfree_page(2)[OF m(2) _ _ that] fs(2) none m(3)[OF that] by auto
qed

subsection \<open>Physical addresses\<close>

lemma virt_page_lt: "unat (v :: u32) div 4096 < 2 ^ 20"
  using unat_u32_bound[of v] by simp

lemma paging_align_to_lower_page_unat:
  "unat (paging_align_to_lower_page a) = 4096 * (unat a div 4096)"
  using unat_sub_mod_4096[of a] minus_mod_eq_mult_div[of "unat a" 4096]
  unfolding paging_align_to_lower_page_def by (rule trans)

lemma align_lower_eq: "paging_align_to_lower_page v = of_nat (4096 * (unat v div 4096))"
proof (rule word_unat_eq_iff[THEN iffD2])
  have "4096 * (unat v div 4096) < 2 ^ 32" using virt_page_lt[of v] by simp
  then have "unat (of_nat (4096 * (unat v div 4096)) :: u32) = 4096 * (unat v div 4096)"
    by (rule unat_of_nat_u32)
  then show "unat (paging_align_to_lower_page v) = unat (of_nat (4096 * (unat v div 4096)) :: u32)"
    by (simp only: paging_align_to_lower_page_unat)
qed

lemma virt_dir_index: "drop_bit 22 (v :: u32) = of_nat (unat v div 4096 div 1024)"
proof (rule word_unat_eq_iff[THEN iffD2])
  have "unat v div 4096 div 1024 = unat v div 4194304" by (simp add: div_mult2_eq[symmetric])
  then show "unat (drop_bit 22 v) = unat (of_nat (unat v div 4096 div 1024) :: u32)"
    using unat_u32_bound[of v] by (simp add: unat_of_nat_u32 drop_bit_eq_div unat_div)
qed

lemma virt_table_index: "drop_bit 12 (v :: u32) AND mask 10 = of_nat (unat v div 4096 mod 1024)"
proof (rule word_unat_eq_iff[THEN iffD2])
  have "unat (drop_bit 12 v AND mask 10) = unat v div 4096 mod 1024"
    by (simp add: take_bit_eq_mask[symmetric] drop_bit_eq_div take_bit_eq_mod unat_div unat_mod)
  then show "unat (drop_bit 12 v AND mask 10) = unat (of_nat (unat v div 4096 mod 1024) :: u32)"
    by (simp add: unat_of_nat_u32)
qed

lemma page_plus_offset: "((e :: u32) AND 0xfffff000) + v mod 4096 = (e AND NOT (mask 12)) OR (v AND mask 12)"
proof -
  have "v mod 4096 = v AND mask 12" by (simp add: take_bit_eq_mask[symmetric] take_bit_eq_mod)
  moreover have "(e AND NOT (mask 12)) AND (v AND mask 12) = 0"
    by (rule bit_word_eqI) (auto simp: bit_simps)
  ultimately show ?thesis unfolding page_mask by (simp add: disjunctive_add_eq_or)
qed

lemma paging_get_physical_address_eq:
  "paging_get_physical_address dir v m =
     (pte m dir (unat v div 4096) AND NOT (mask 12)) OR (v AND mask 12)"
proof -
  have "v - paging_align_to_lower_page v = v mod 4096" by (simp add: paging_align_to_lower_page_def)
  then show ?thesis
    unfolding paging_get_physical_address_def Let_def
    by (simp only: page_plus_offset align_lower_eq paging_get_pte[OF virt_page_lt])
qed

lemma mmu_translate_eq:
  assumes "dir mod 4096 = 0"
  shows "mmu_translate m dir v =
    (if bit (load32 m (dir + 4 * of_nat (unat v div 4096 div 1024))) 0 \<and> bit (pte m dir (unat v div 4096)) 0
     then Some ((pte m dir (unat v div 4096) AND NOT (mask 12)) OR (v AND mask 12)) else None)"
  using aligned_mask_id[OF assms]
  by (simp add: mmu_translate_def virt_dir_index virt_table_index pte_def pte_addr_def tbl_def page_mask Let_def)

subsection \<open>Rounding addresses to pages\<close>

lemma paging_align_address_unat:
  assumes "unat a \<le> 2 ^ 32 - 4096"
  shows "unat (paging_align_address a) = 4096 * ((unat a + 4095) div 4096)"
proof (cases "a mod 4096 = 0")
  case True
  then show ?thesis by (simp add: paging_align_address_def aligned_4096_iff ceil_div_4096)
next
  case False
  then have nz: "unat a mod 4096 \<noteq> 0" by (simp add: aligned_4096_iff)
  have "unat a \<noteq> 2 ^ 32 - 4096" using nz by auto
  then have "unat a - unat a mod 4096 + 4096 < 2 ^ 32" using assms nz by linarith
  then have "unat ((a - a mod 4096) + 4096) = unat a - unat a mod 4096 + 4096"
    by (subst unat_word_ariths) (simp only: unat_sub_mod_4096, simp)
  moreover have "a + 4096 - a mod 4096 = (a - a mod 4096) + 4096" by (simp only: add_diff_eq diff_add_eq)
  ultimately have "unat (a + 4096 - a mod 4096) = unat a - unat a mod 4096 + 4096" by (simp only:)
  then show ?thesis using False nz by (simp add: paging_align_address_def ceil_div_4096)
qed

subsection \<open>Properties\<close>

text \<open>
  \<^verbatim>\<open>paging_set\<close> on a well-formed directory is an update of one entry: \<^verbatim>\<open>paging_get\<close> reads the new
  value back at that page and the old value at every other page, and the directory stays well formed.
\<close>

theorem paging_set_get:
  assumes "pd_wf m dir" "v < 2 ^ 20" "w < 2 ^ 20"
  shows "\<exists>m'. paging_set dir (of_nat (4096 * v)) x m = (0, m') \<and> pd_wf m' dir
    \<and> paging_get dir (of_nat (4096 * w)) m' = (if w = v then x else paging_get dir (of_nat (4096 * w)) m)"
  unfolding paging_set_pte[OF assms(2)] paging_get_pte[OF assms(3)]
  using pd_wf_store[OF assms(1,2)] pte_store[OF assms] by simp

text \<open>A directory at 1 GiB whose tables follow it, for concrete instances.\<close>

definition linear_directory :: mem where
  "linear_directory a = (let k = unat (a - 0x40000000) in
     if k < 4096 then ucast (drop_bit (8 * (k mod 4)) (0x40001000 + 4096 * of_nat (k div 4) :: u32)) else 0)"

lemma linear_directory_entry:
  assumes "i < 1024"
  shows "load32 linear_directory (0x40000000 + 4 * of_nat i) = 0x40001000 + 4096 * of_nat i"
proof -
  let ?v = "0x40001000 + 4096 * of_nat i :: u32"
  have u: "unat (4 * of_nat i + of_nat k :: u32) = 4 * i + k" if "k < 4" for k
    using assms that unat_of_nat_u32[of "4 * i + k"] by simp
  have byte: "linear_directory (0x40000000 + 4 * of_nat i + of_nat k) = ucast (drop_bit (8 * k) ?v)" if "k < 4" for k
  proof -
    have "4 * i + k < 4096" "(4 * i + k) div 4 = i" "(4 * i + k) mod 4 = k" using assms that by simp_all
    moreover have "unat (0x40000000 + 4 * of_nat i + of_nat k - 0x40000000 :: u32) = 4 * i + k"
      using u[OF that] by (simp add: algebra_simps)
    ultimately show ?thesis by (simp only: linear_directory_def Let_def if_True)
  qed
  have "load32 linear_directory (0x40000000 + 4 * of_nat i) =
      load32 (store32 (\<lambda>_. 0) (0x40000000 + 4 * of_nat i) ?v) (0x40000000 + 4 * of_nat i)"
    using byte[of 0] byte[of 1] byte[of 2] byte[of 3] unfolding load32_def store32_def by simp
  then show ?thesis by simp
qed

lemma linear_directory_tbl:
  assumes "i < 1024"
  shows "unat (tbl linear_directory 0x40000000 i) = 0x40001000 + 4096 * i"
proof -
  have "of_nat (4096 * (262145 + i)) = (0x40001000 + 4096 * of_nat i :: u32)" by simp
  then have "tbl linear_directory 0x40000000 i = of_nat (4096 * (262145 + i))"
    using linear_directory_entry[OF assms] aligned_mask_id[OF aligned_of_nat[of "262145 + i"]] assms
    by (simp only: tbl_def) simp
  moreover have "4096 * (262145 + i) < 2 ^ 32" using assms by simp
  ultimately show ?thesis using unat_of_nat_u32[of "4096 * (262145 + i)"] by (simp del: of_nat_mult)
qed

lemma linear_directory_wf: "pd_wf linear_directory 0x40000000"
proof -
  have "tbl linear_directory 0x40000000 i \<noteq> 0x40000000" if "i < 1024" for i
  proof
    assume "tbl linear_directory 0x40000000 i = 0x40000000"
    then have "unat (tbl linear_directory 0x40000000 i) = unat (0x40000000 :: u32)" by (simp only:)
    then show False unfolding linear_directory_tbl[OF that] by simp
  qed
  moreover have "i = j" if "i < 1024" "j < 1024" "tbl linear_directory 0x40000000 i = tbl linear_directory 0x40000000 j" for i j
  proof -
    have "unat (tbl linear_directory 0x40000000 i) = unat (tbl linear_directory 0x40000000 j)"
      by (simp only: that(3))
    then show ?thesis unfolding linear_directory_tbl[OF that(1)] linear_directory_tbl[OF that(2)] by simp
  qed
  ultimately show ?thesis by (simp add: pd_wf_def)
qed

theorem paging_set_get_witness:
  "\<exists>m'. paging_set 0x40000000 0x400000 0xDEAD7 linear_directory = (0, m')
     \<and> paging_get 0x40000000 0x400000 m' = 0xDEAD7"
  using paging_set_get[OF linear_directory_wf, of 1024 1024 "0xDEAD7"] by auto

text \<open>
  C13.  \<^verbatim>\<open>paging_map_to\<close> maps the physical pages \<open>p .. e - 1\<close> one after the other to the virtual pages from
  \<open>v\<close> on, with the flags, changes no other entry of the address space and no byte outside its tables.
\<close>

theorem paging_map_to_maps:
  assumes "chunk_wf m chunk" "v + (e - p) \<le> 2 ^ 20" "p \<le> e" "e < 2 ^ 20"
  shows "\<exists>m'. paging_map_to chunk (of_nat (4096 * v)) (of_nat (4096 * p)) (of_nat (4096 * e)) flags m = (0, m')
    \<and> remapped m m' chunk v p (e - p) (word_of_int flags) \<and> chunk_wf m' chunk"
  using paging_map_to_eq[OF assms] remapped_chunk_wf[OF assms(1)] by blast

lemma linear_chunk_wf: "chunk_wf (store32 linear_directory 0x1000 0x40000000) 0x1000"
proof -
  let ?m = "store32 linear_directory 0x1000 0x40000000"
  have t: "tbl ?m 0x40000000 i = tbl linear_directory 0x40000000 i" if "i < 1024" for i
  proof -
    have "unat (0x40000000 + 4 * of_nat i :: u32) = 0x40000000 + 4 * i"
      using page_cell_unat[of "0x40000000" i] that by simp
    then have "disjoint_regions 0x1000 4 (0x40000000 + 4 * of_nat i) 4"
      using that by (intro disjoint_regionsI_nat) auto
    then show ?thesis by (simp add: tbl_def load32_store32_other)
  qed
  have "disjoint_regions (tbl linear_directory 0x40000000 i) 4096 0x1000 4" if "i < 1024" for i
    using linear_directory_tbl[OF that] that by (intro disjoint_regionsI_nat) auto
  then show ?thesis using linear_directory_wf t by (simp add: chunk_wf_def pd_wf_def)
qed

theorem paging_map_to_maps_witness:
  "\<exists>m'. paging_map_to 0x1000 0x400000 0x5000 0x7000 7 (store32 linear_directory 0x1000 0x40000000) = (0, m')
     \<and> pte m' 0x40000000 1025 = 0x6007"
proof -
  from paging_map_to_maps[OF linear_chunk_wf, of 1024 7 5 7] obtain m' where
    m': "paging_map_to 0x1000 0x400000 0x5000 0x7000 7 (store32 linear_directory 0x1000 0x40000000) = (0, m')"
    "remapped (store32 linear_directory 0x1000 0x40000000) m' 0x1000 1024 5 2 7" by auto
  then have "pte m' 0x40000000 1025 = 0x6000 OR 7" unfolding remapped_def by (elim conjE allE[of _ 1025]) simp
  then show ?thesis using m'(1) by simp
qed

text \<open>
  C12.  \<^verbatim>\<open>paging_new_4gb\<close>, with 1026 unused blocks, builds out of fresh pages an address space that is
  well formed and maps every one of the \<open>2^20\<close> pages to itself with the given flags; the contents of the
  live allocations are unchanged.
\<close>

theorem paging_new_4gb_identity:
  assumes "klive h s A" "1026 \<le> card (unused_blocks (nblocks h) A)"
  shows "\<exists>c bd fs m. paging_new_4gb f s = (block_addr h c, s\<lparr>memory := m\<rparr>)
    \<and> klive h (s\<lparr>memory := m\<rparr>) (with_pages A (set (c # bd # fs)))
    \<and> (\<forall>b \<in> set (c # bd # fs). A b = None) \<and> chunk_pages h m c bd fs \<and> chunk_wf m (block_addr h c)
    \<and> (\<forall>v < 2 ^ 20. pte m (block_addr h bd) v = of_nat (4096 * v) OR ucast f)
    \<and> (\<forall>e n a. A e = Some n \<longrightarrow> in_blocks h e n a \<longrightarrow> m a = memory s a)"
proof -
  obtain c bd fs m where r: "paging_new_4gb f s = (block_addr h c, s\<lparr>memory := m\<rparr>)"
    "klive h (s\<lparr>memory := m\<rparr>) (with_pages A (set (c # bd # fs)))"
    "\<forall>b \<in> set (c # bd # fs). A b = None" "chunk_pages h m c bd fs"
    "\<forall>v < 2 ^ 20. pte m (block_addr h bd) v = of_nat (4096 * v) OR ucast f"
    "\<forall>e n a. A e = Some n \<longrightarrow> in_blocks h e n a \<longrightarrow> m a = memory s a"
    using paging_new_4gb_ok[OF assms] by blast
  moreover have "chunk_wf m (block_addr h c)" using chunk_pages_wf[OF r(2,4)] by simp
  ultimately show ?thesis by blast
qed

lemma empty_unused: "unused_blocks (nblocks kernel_heap_layout) Map.empty = {..<25600}"
  by (auto simp: unused_blocks_def unused_def taken_by_def kernel_heap_layout_wf)

theorem paging_new_4gb_identity_witness:
  "\<exists>c m. paging_new_4gb 3 (kheap_init power_on) =
      (block_addr kernel_heap_layout c, (kheap_init power_on)\<lparr>memory := m\<rparr>)
    \<and> chunk_wf m (block_addr kernel_heap_layout c)"
  using paging_new_4gb_identity[OF kheap_init_live[of power_on], of 3] unfolding empty_unused by auto

text \<open>
  C14.  \<^verbatim>\<open>paging_free_4gb\<close> gives back exactly the 1026 pages of an address space, whatever was mapped in it
  since it was made, and writes nothing outside the allocator's table.
\<close>

theorem paging_free_4gb_returns:
  assumes "klive h s (with_pages A (set (c # bd # fs)))" "chunk_pages h (memory s) c bd fs"
    and "\<forall>b \<in> set (c # bd # fs). A b = None"
  shows "klive h (paging_free_4gb (block_addr h c) s) A
    \<and> (\<forall>a. \<not> in_table h a \<longrightarrow> memory (paging_free_4gb (block_addr h c) s) a = memory s a)"
  using paging_free_4gb_ok[OF assms] by blast

theorem paging_free_4gb_returns_witness:
  "klive kernel_heap_layout (paging_free_4gb (fst (paging_new_4gb 3 (kheap_init power_on)))
     (snd (paging_new_4gb 3 (kheap_init power_on)))) Map.empty"
proof -
  let ?h = kernel_heap_layout and ?s = "kheap_init power_on"
  have "1026 \<le> card (unused_blocks (nblocks ?h) Map.empty)" unfolding empty_unused by simp
  from paging_new_4gb_ok[OF kheap_init_live this, of 3 power_on] obtain c bd fs m where
    r: "paging_new_4gb 3 ?s = (block_addr ?h c, ?s\<lparr>memory := m\<rparr>)"
    "klive ?h (?s\<lparr>memory := m\<rparr>) (with_pages Map.empty (set (c # bd # fs)))" "chunk_pages ?h m c bd fs" by blast
  then show ?thesis using paging_free_4gb_returns[OF r(2)] by simp
qed

text \<open>
  C36.  The software walk agrees with the hardware: whenever the processor translates an address,
  \<^verbatim>\<open>paging_get_physical_address\<close> computes the address the processor would access.
\<close>

theorem paging_physical_address_agrees:
  assumes "dir mod 4096 = 0" "mmu_translate m dir v = Some p"
  shows "paging_get_physical_address dir v m = p"
  using assms(2) unfolding mmu_translate_eq[OF assms(1)] paging_get_physical_address_eq
  by (auto split: if_splits)

theorem paging_physical_address_agrees_witness:
  "paging_get_physical_address 0x40000000 0x00400123
     ((\<lambda>_. 0)(0x40000004 := 1, 0x40000005 := 0x10, 0x10000 := 0, 0x1000 := 7, 0x1001 := 0x50)) = 0x5123"
  by (rule paging_physical_address_agrees; code_simp)

text \<open>
  \<^verbatim>\<open>paging_get\<close> ignores the error of \<^verbatim>\<open>paging_get_index\<close>: for an address that is not page aligned it
  returns the entry of page 0, while \<^verbatim>\<open>paging_set\<close> refuses the same address.
\<close>

theorem paging_get_unaligned:
  assumes "virt mod 4096 \<noteq> 0"
  shows "paging_get dir virt m = paging_get dir 0 m \<and> paging_set dir virt x m = (- EINVARG, m)"
  using assms by (simp add: paging_get_def paging_set_def paging_get_index_def paging_is_aligned_def Let_def)

theorem paging_get_unaligned_witness:
  "paging_get 0x40000000 0x00400123 linear_directory = paging_get 0x40000000 0 linear_directory"
  using paging_get_unaligned[of "0x00400123" "0x40000000" linear_directory 0] by simp

end
