(* ===== verification/Gdt.thy ===== *)
theory Gdt
  imports Terminal
begin

text \<open>
  \<^verbatim>\<open>src/src/gdt/gdt.c\<close> and \<^verbatim>\<open>gdt.h\<close>: encoding segment descriptors.  \<open>decode_base\<close>, \<open>decode_limit\<close> and
  \<open>decode_access\<close> read a descriptor the way the processor does (20 bits of limit, scaled by pages when the
  granularity bit is set); the lemmas show that encoding followed by decoding gives the structured
  descriptor back, for one entry and for the whole table.
\<close>

subsection \<open>Descriptors\<close>

record gdt_structured =
  seg_base :: u32
  seg_limit :: u32
  seg_type :: u8

text \<open>
  The writes of \<^verbatim>\<open>encode_gdt_entry\<close> in their order; byte 6 is written twice and then completed.  A limit
  that is neither below 64 KiB nor the end of a page ends in \<^verbatim>\<open>panic\<close>, which does not return.
\<close>

definition encode_gdt_entry ::
    "u32 \<Rightarrow> gdt_structured \<Rightarrow> 'a machine_scheme \<Rightarrow> 'a machine_scheme option" where
  "encode_gdt_entry gdt_entry source s =
     (if 65535 < seg_limit source \<and> seg_limit source AND 0xFFF \<noteq> 0xFFF
      then panic (map of_char ''encode_gdt_entry: Invalid argument'' @ [10]) s
      else let m0 = (memory s)(gdt_entry + 6 := 0x40);
               limit = (if 65535 < seg_limit source then drop_bit 12 (seg_limit source) else seg_limit source);
               m1 = (if 65535 < seg_limit source then m0(gdt_entry + 6 := 0xC0) else m0);
               m2 = m1(gdt_entry := ucast (limit AND 0xFF));
               m3 = m2(gdt_entry + 1 := ucast (drop_bit 8 limit AND 0xFF));
               m4 = m3(gdt_entry + 6 := m3 (gdt_entry + 6) OR ucast (drop_bit 16 limit AND 0x0F));
               m5 = m4(gdt_entry + 2 := ucast (seg_base source AND 0xFF));
               m6 = m5(gdt_entry + 3 := ucast (drop_bit 8 (seg_base source) AND 0xFF));
               m7 = m6(gdt_entry + 4 := ucast (drop_bit 16 (seg_base source) AND 0xFF));
               m8 = m7(gdt_entry + 7 := ucast (drop_bit 24 (seg_base source) AND 0xFF));
               m9 = m8(gdt_entry + 5 := seg_type source)
           in Some (s\<lparr>memory := m9\<rparr>))"

text \<open>
  The array argument is the list of its elements; a count past its end reads outside it and has no
  result.
\<close>

function gdt_structured_to_gdt_loop ::
    "u32 \<Rightarrow> gdt_structured list \<Rightarrow> int \<Rightarrow> int \<Rightarrow> 'a machine_scheme \<Rightarrow> 'a machine_scheme option" where
  "gdt_structured_to_gdt_loop gdt structured_gdt total_entires i s =
     (if i < total_entires
      then if nat i < length structured_gdt
           then do {
             s' \<leftarrow> encode_gdt_entry (gdt + 8 * word_of_int i) (structured_gdt ! nat i) s;
             gdt_structured_to_gdt_loop gdt structured_gdt total_entires (i + 1) s'
           }
           else None
      else Some s)"
  by pat_completeness auto
termination
  by (relation "measure (\<lambda>(gdt, ss, n, i, s). nat (n - i))") auto

declare gdt_structured_to_gdt_loop.simps [simp del]

definition gdt_structured_to_gdt ::
    "u32 \<Rightarrow> gdt_structured list \<Rightarrow> int \<Rightarrow> 'a machine_scheme \<Rightarrow> 'a machine_scheme option" where
  "gdt_structured_to_gdt gdt structured_gdt total_entires s =
     gdt_structured_to_gdt_loop gdt structured_gdt total_entires 0 s"

subsection \<open>What the processor reads\<close>

definition decode_base :: "mem \<Rightarrow> u32 \<Rightarrow> u32" where
  "decode_base m p = ucast (m (p + 2)) OR push_bit 8 (ucast (m (p + 3)))
     OR push_bit 16 (ucast (m (p + 4))) OR push_bit 24 (ucast (m (p + 7)))"

definition decode_limit :: "mem \<Rightarrow> u32 \<Rightarrow> u32" where
  "decode_limit m p =
     (let l = ucast (m p) OR push_bit 8 (ucast (m (p + 1))) OR push_bit 16 (ucast (m (p + 6) AND 0x0F))
      in if bit (m (p + 6)) 7 then push_bit 12 l OR 0xFFF else l)"

definition decode_access :: "mem \<Rightarrow> u32 \<Rightarrow> u8" where
  "decode_access m p = m (p + 5)"

definition encodable :: "gdt_structured \<Rightarrow> bool" where
  "encodable g \<longleftrightarrow> seg_limit g \<le> 65535 \<or> seg_limit g AND 0xFFF = 0xFFF"

definition describes :: "mem \<Rightarrow> u32 \<Rightarrow> gdt_structured \<Rightarrow> bool" where
  "describes m p g \<longleftrightarrow> decode_base m p = seg_base g \<and> decode_limit m p = seg_limit g
     \<and> decode_access m p = seg_type g \<and> bit (m (p + 6)) 6"

subsection \<open>One entry\<close>

lemma small_offsets_neq [simp]:
  fixes p :: u32
  shows "p + 4 \<noteq> p" "p + 5 \<noteq> p" "p + 6 \<noteq> p" "p + 7 \<noteq> p" "p \<noteq> p + 4" "p \<noteq> p + 5" "p \<noteq> p + 6" "p \<noteq> p + 7"
  by simp_all

definition entry_byte6 :: "u32 \<Rightarrow> u8" where
  "entry_byte6 l = (if 65535 < l then 0xC0 OR ucast (drop_bit 28 l AND 0x0F) else 0x40 OR ucast (drop_bit 16 l AND 0x0F))"

lemma encode_gdt_entry_eq:
  assumes "encodable g"
  shows "encode_gdt_entry p g s = Some (s\<lparr>memory := (memory s)(
     p := ucast (if 65535 < seg_limit g then drop_bit 12 (seg_limit g) else seg_limit g),
     p + 1 := ucast (drop_bit 8 (if 65535 < seg_limit g then drop_bit 12 (seg_limit g) else seg_limit g)),
     p + 2 := ucast (seg_base g), p + 3 := ucast (drop_bit 8 (seg_base g)),
     p + 4 := ucast (drop_bit 16 (seg_base g)), p + 5 := seg_type g,
     p + 6 := entry_byte6 (seg_limit g), p + 7 := ucast (drop_bit 24 (seg_base g)))\<rparr>)"
proof -
  have low: "(ucast (x AND 0xFF) :: u8) = ucast x" for x :: u32
    by (rule bit_word_eqI) (auto simp: bit_simps bit_numeral_rec nth_Cons' eval_nat_numeral less_Suc_eq)
  have ok: "\<not> (65535 < seg_limit g \<and> seg_limit g AND 0xFFF \<noteq> 0xFFF)"
    using assms by (auto simp: encodable_def not_less)
  show ?thesis
    unfolding encode_gdt_entry_def if_not_P[OF ok] Let_def low
    by (auto simp: entry_byte6_def fun_eq_iff drop_bit_drop_bit)
qed

lemma encode_gdt_entry_outside:
  assumes "encode_gdt_entry p g s = Some s'" "\<not> in_region p 8 a"
  shows "memory s' a = memory s a"
proof -
  have "encodable g" using assms(1) by (auto simp: encode_gdt_entry_def encodable_def panic_def Let_def split: if_splits)
  moreover have "a - p \<noteq> of_nat k" if "k < 8" for k
    using assms(2) that by (auto simp: in_region_def unat_of_nat_u32)
  then have "a \<noteq> p + of_nat k" if "k < 8" for k using that by (metis add_diff_cancel_left')
  from this[of 0] this[of 1] this[of 2] this[of 3] this[of 4] this[of 5] this[of 6] this[of 7]
  have "a \<noteq> p" "a \<noteq> p + 1" "a \<noteq> p + 2" "a \<noteq> p + 3" "a \<noteq> p + 4" "a \<noteq> p + 5" "a \<noteq> p + 6" "a \<noteq> p + 7" by simp_all
  ultimately show ?thesis using assms(1) by (simp add: encode_gdt_entry_eq) auto
qed

lemma u32_of_bytes:
  "ucast (ucast (x :: u32) :: u8) OR push_bit 8 (ucast (ucast (drop_bit 8 x) :: u8))
     OR push_bit 16 (ucast (ucast (drop_bit 16 x) :: u8)) OR push_bit 24 (ucast (ucast (drop_bit 24 x) :: u8)) = x"
  using load32_store32[of "\<lambda>_. 0" 0 x] by (simp add: load32_def store32_def)

lemma nibble_bits: "bit (0x0F :: 'a::len word) n \<longleftrightarrow> n < 4 \<and> n < LENGTH('a)"
  using bit_mask_iff[of 4 n, where ?'a = "'a word"] by (auto simp: mask_eq_exp_minus_1)

text \<open>Twenty bits of limit, with any flags in the upper half of the last byte.\<close>

lemma limit20:
  fixes x :: u32 and c :: u8
  assumes "drop_bit 20 x = 0" "c AND 0x0F = 0"
  shows "ucast (ucast x :: u8) OR push_bit 8 (ucast (ucast (drop_bit 8 x) :: u8))
      OR push_bit 16 (ucast ((c OR ucast (drop_bit 16 x AND 0x0F)) AND 0x0F)) = x"
proof -
  have nib: "n < 4" if "bit (drop_bit 16 x) n" for n
  proof (rule ccontr)
    assume "\<not> n < 4"
    then have "bit (drop_bit 20 x) (n - 4)" using that by (simp add: bit_simps)
    then show False using assms(1) by simp
  qed
  have F: "(0x0F :: u32) = mask 4" "(0x0F :: u8) = mask 4" by (simp_all add: mask_eq_exp_minus_1)
  have "ucast (drop_bit 16 x AND 0x0F) AND (0x0F :: u8) = ucast (drop_bit 16 x)"
    unfolding F by (rule bit_word_eqI) (auto simp: bit_simps dest: nib[unfolded bit_drop_bit_eq comp_def])
  then have last: "(c OR ucast (drop_bit 16 x AND 0x0F)) AND 0x0F = ucast (drop_bit 16 x)"
    using assms(2) by (simp add: word_ao_dist)
  have "drop_bit 24 x = drop_bit 4 (drop_bit 20 x)" by (simp add: drop_bit_drop_bit)
  then have "drop_bit 24 x = 0" using assms(1) by simp
  then show ?thesis unfolding last using u32_of_bytes[of x] by simp
qed

lemma limit_small:
  assumes "l \<le> (65535 :: u32)"
  shows "drop_bit 20 l = 0"
proof -
  have "unat (drop_bit 20 l) = 0" using assms by (simp add: drop_bit_eq_div unat_div word_le_nat_alt)
  then show ?thesis by (simp only: unat_eq_zero)
qed

lemma limit_pages:
  assumes "l AND 0xFFF = (0xFFF :: u32)"
  shows "drop_bit 20 (drop_bit 12 l) = 0" "push_bit 12 (drop_bit 12 l) OR 0xFFF = l"
proof -
  show "drop_bit 20 (drop_bit 12 l) = 0" by (simp add: drop_bit_drop_bit)
  have "push_bit 12 (drop_bit 12 l) OR take_bit 12 l = l"
    by (rule bit_word_eqI) (auto simp: bit_simps)
  moreover have "take_bit 12 l = 0xFFF" using assms by (simp add: take_bit_eq_mask mask_eq_exp_minus_1)
  ultimately show "push_bit 12 (drop_bit 12 l) OR 0xFFF = l" by simp
qed

lemma entry_byte6_bits: "bit (entry_byte6 l) 7 \<longleftrightarrow> 65535 < l" "bit (entry_byte6 l) 6"
  by (auto simp: entry_byte6_def bit_simps nibble_bits)

lemma encode_gdt_entry_describes:
  assumes "encode_gdt_entry p g s = Some s'"
  shows "describes (memory s') p g"
proof -
  have ok: "encodable g" using assms by (auto simp: encode_gdt_entry_def encodable_def panic_def Let_def split: if_splits)
  note m = assms[unfolded encode_gdt_entry_eq[OF ok] option.inject, symmetric]
  have "decode_base (memory s') p = seg_base g" using u32_of_bytes[of "seg_base g"] by (simp add: m decode_base_def)
  moreover have "decode_access (memory s') p = seg_type g" by (simp add: m decode_access_def)
  moreover have "bit (memory s' (p + 6)) 6" by (simp add: m entry_byte6_bits)
  moreover have "decode_limit (memory s') p = seg_limit g"
  proof (cases "65535 < seg_limit g")
    case True
    then have full: "seg_limit g AND 0xFFF = 0xFFF" using ok by (auto simp: encodable_def)
    have b6: "entry_byte6 (seg_limit g) = 0xC0 OR ucast (drop_bit 16 (drop_bit 12 (seg_limit g)) AND 0x0F)"
      using True by (simp add: entry_byte6_def drop_bit_drop_bit)
    note m' = m[unfolded if_P[OF True] b6]
    show ?thesis
      using limit20[OF limit_pages(1)[OF full], of "0xC0"] limit_pages(2)[OF full]
        entry_byte6_bits(1)[of "seg_limit g", unfolded b6] True
      by (simp add: m' decode_limit_def Let_def)
  next
    case False
    have b6: "entry_byte6 (seg_limit g) = 0x40 OR ucast (drop_bit 16 (seg_limit g) AND 0x0F)"
      unfolding entry_byte6_def if_not_P[OF False] ..
    note m' = m[unfolded if_not_P[OF False] b6]
    have "\<not> bit (0x40 OR ucast (drop_bit 16 (seg_limit g) AND 0x0F) :: u8) 7"
      using entry_byte6_bits(1)[of "seg_limit g", unfolded b6] False by blast
    then show ?thesis
      using limit20[OF limit_small, of "seg_limit g" "0x40"] False
      by (simp add: m' decode_limit_def Let_def not_less)
  qed
  ultimately show ?thesis by (simp add: describes_def)
qed

lemma encode_gdt_entry_Some_iff: "(\<exists>s'. encode_gdt_entry p g s = Some s') \<longleftrightarrow> encodable g"
  using encode_gdt_entry_eq[of g p s]
  by (auto simp: encode_gdt_entry_def encodable_def panic_def Let_def not_less split: if_splits)

lemma describes_cong:
  assumes "\<And>a. in_region p 8 a \<Longrightarrow> m' a = m a"
  shows "describes m' p g = describes m p g"
  using assms[of p] assms[of "p + 1"] assms[of "p + 2"] assms[of "p + 3"] assms[of "p + 4"]
    assms[of "p + 5"] assms[of "p + 6"] assms[of "p + 7"]
  by (simp add: describes_def decode_base_def decode_limit_def decode_access_def)

subsection \<open>The table\<close>

lemma gdt_loop_describes:
  assumes "\<forall>g \<in> set gs. encodable g" "length gs \<le> 2 ^ 29" "k \<le> length gs"
    and "\<forall>i < k. describes (memory s) (p + 8 * of_nat i) (gs ! i)"
  shows "\<exists>s'. gdt_structured_to_gdt_loop p gs (int (length gs)) (int k) s = Some s'
    \<and> (\<forall>i < length gs. describes (memory s') (p + 8 * of_nat i) (gs ! i))
    \<and> (\<forall>a. \<not> in_region p (8 * length gs) a \<longrightarrow> memory s' a = memory s a)"
  using assms(3,4)
proof (induction "length gs - k" arbitrary: k s)
  case 0
  then show ?case by (subst gdt_structured_to_gdt_loop.simps) simp
next
  case (Suc d)
  then have k: "k < length gs" by simp
  obtain s1 where s1: "encode_gdt_entry (p + 8 * of_nat k) (gs ! k) s = Some s1"
    using encode_gdt_entry_eq assms(1) k by (metis nth_mem)
  have "describes (memory s1) (p + 8 * of_nat i) (gs ! i)" if "i < Suc k" for i
  proof (cases "i = k")
    case True
    then show ?thesis using encode_gdt_entry_describes[OF s1] by simp
  next
    case False
    then have i: "i < length gs" "i < k" using that k by simp_all
    then have "describes (memory s) (p + 8 * of_nat i) (gs ! i)" using Suc.prems(2) by simp
    moreover have "memory s1 a = memory s a" if "in_region (p + 8 * of_nat i) 8 a" for a
      using entries_apart[OF i(1) k False assms(2) that] by (rule encode_gdt_entry_outside[OF s1])
    ultimately show ?thesis using describes_cong by blast
  qed
  moreover have "d = length gs - Suc k" "Suc k \<le> length gs" using Suc.hyps(2) k by simp_all
  ultimately obtain s' where s': "gdt_structured_to_gdt_loop p gs (int (length gs)) (int (Suc k)) s1 = Some s'"
    "\<forall>i < length gs. describes (memory s') (p + 8 * of_nat i) (gs ! i)"
    "\<forall>a. \<not> in_region p (8 * length gs) a \<longrightarrow> memory s' a = memory s1 a"
    using Suc.hyps(1)[of "Suc k" s1] by blast
  have "memory s' a = memory s a" if "\<not> in_region p (8 * length gs) a" for a
    using s'(3) that encode_gdt_entry_outside[OF s1] entry_in_table[OF k assms(2)] by metis
  moreover have "gdt_structured_to_gdt_loop p gs (int (length gs)) (int k) s = Some s'"
    using k s1 s'(1) by (subst gdt_structured_to_gdt_loop.simps) (simp add: add.commute)
  ultimately show ?case using s'(2) by blast
qed

subsection \<open>Properties\<close>

text \<open>
  C37.  \<^verbatim>\<open>gdt_structured_to_gdt\<close> encodes a table of representable descriptors without panicking; every
  entry of the result, decoded as the processor does, has the base, the limit and the access byte of its
  structured descriptor, is a 32-bit segment, and no byte outside the table is written.
\<close>

theorem gdt_table_decodes:
  assumes "\<forall>g \<in> set gs. encodable g" "length gs \<le> 2 ^ 29"
  shows "\<exists>s'. gdt_structured_to_gdt p gs (int (length gs)) s = Some s'
    \<and> (\<forall>i < length gs. describes (memory s') (p + 8 * of_nat i) (gs ! i))
    \<and> (\<forall>a. \<not> in_region p (8 * length gs) a \<longrightarrow> memory s' a = memory s a)"
  unfolding gdt_structured_to_gdt_def using gdt_loop_describes[OF assms, of 0 s p] by simp

theorem gdt_table_decodes_witness:
  "\<exists>s'. gdt_structured_to_gdt 0x9000
       [\<lparr>seg_base = 0, seg_limit = 0, seg_type = 0\<rparr>, \<lparr>seg_base = 0, seg_limit = 0xFFFFFFFF, seg_type = 0x9A\<rparr>,
        \<lparr>seg_base = 0x123456, seg_limit = 104, seg_type = 0xE9\<rparr>] 3
       \<lparr>memory = \<lambda>_. 0, video_mem = 0, terminal_row = 0, terminal_col = 0\<rparr> = Some s'
     \<and> decode_limit (memory s') 0x9008 = 0xFFFFFFFF \<and> decode_base (memory s') 0x9010 = 0x123456"
proof -
  let ?gs = "[\<lparr>seg_base = 0, seg_limit = 0, seg_type = 0\<rparr>, \<lparr>seg_base = 0, seg_limit = 0xFFFFFFFF, seg_type = 0x9A\<rparr>,
        \<lparr>seg_base = 0x123456, seg_limit = 104, seg_type = 0xE9\<rparr>]"
  let ?s = "\<lparr>memory = \<lambda>_. 0, video_mem = 0, terminal_row = 0, terminal_col = 0\<rparr>"
  have "\<forall>g \<in> set ?gs. encodable g" by (simp add: encodable_def)
  from gdt_table_decodes[OF this, of "0x9000" ?s] obtain s' where
    s': "gdt_structured_to_gdt 0x9000 ?gs 3 ?s = Some s'"
    "\<forall>i < 3. describes (memory s') (0x9000 + 8 * of_nat i) (?gs ! i)" by auto
  have "describes (memory s') 0x9008 (?gs ! 1)" "describes (memory s') 0x9010 (?gs ! 2)"
    using s'(2)[rule_format, of 1] s'(2)[rule_format, of 2] by simp_all
  then show ?thesis using s'(1) by (simp add: describes_def)
qed

end
