(* ===== verification/Io.thy ===== *)
theory Io
  imports Paging
begin

text \<open>
  \<^verbatim>\<open>src/src/io/io.h\<close> (implemented in \<^verbatim>\<open>io.asm\<close> by the \<^verbatim>\<open>in\<close> and \<^verbatim>\<open>out\<close> instructions): the ports of the
  machine, and what the linker decides.

  The devices behind the ports are hardware: a value of the type \<open>'d\<close> that the port operations of a
  parameter \<open>hw\<close> read and change.  The addresses of the kernel's static objects, of its interrupt stubs and
  of its string literals are fixed by the linker: a parameter \<open>lm\<close>.
\<close>

subsection \<open>Ports\<close>

record 'd ports =
  port_out8 :: "u16 \<Rightarrow> u8 \<Rightarrow> 'd \<Rightarrow> 'd"
  port_out16 :: "u16 \<Rightarrow> u16 \<Rightarrow> 'd \<Rightarrow> 'd"
  port_in8 :: "u16 \<Rightarrow> 'd \<Rightarrow> u8 \<times> 'd"
  port_in16 :: "u16 \<Rightarrow> 'd \<Rightarrow> u16 \<times> 'd"

record 'd iostate = pstate +
  idtr :: "u16 \<times> u32"
  interrupts_on :: bool
  device :: 'd

definition outb :: "'d ports \<Rightarrow> u16 \<Rightarrow> u8 \<Rightarrow> ('d, 'a) iostate_scheme \<Rightarrow> ('d, 'a) iostate_scheme" where
  "outb hw port val s = s\<lparr>device := port_out8 hw port val (device s)\<rparr>"

definition outw :: "'d ports \<Rightarrow> u16 \<Rightarrow> u16 \<Rightarrow> ('d, 'a) iostate_scheme \<Rightarrow> ('d, 'a) iostate_scheme" where
  "outw hw port val s = s\<lparr>device := port_out16 hw port val (device s)\<rparr>"

definition insb :: "'d ports \<Rightarrow> u16 \<Rightarrow> ('d, 'a) iostate_scheme \<Rightarrow> u8 \<times> ('d, 'a) iostate_scheme" where
  "insb hw port s = (let (v, d) = port_in8 hw port (device s) in (v, s\<lparr>device := d\<rparr>))"

definition insw :: "'d ports \<Rightarrow> u16 \<Rightarrow> ('d, 'a) iostate_scheme \<Rightarrow> u16 \<times> ('d, 'a) iostate_scheme" where
  "insw hw port s = (let (v, d) = port_in16 hw port (device s) in (v, s\<lparr>device := d\<rparr>))"

subsection \<open>Addresses fixed by the linker\<close>

record linkmap =
  idt_descriptors_at :: u32
  idtr_descriptors_at :: u32
  no_interrupt_at :: u32
  int21h_at :: u32
  disk_at :: u32
  colon_slash_at :: u32

end
