(* ===== verification/Idt.thy ===== *)
theory Idt
  imports Io
begin

text \<open>
  \<^verbatim>\<open>src/src/idt/idt.c\<close> and \<^verbatim>\<open>idt.h\<close>: the interrupt descriptor table.  \<open>gate m p\<close> is the gate at \<open>p\<close> as the
  processor reads it.  The lemmas show that \<^verbatim>\<open>idt_set\<close> writes exactly one gate and that \<^verbatim>\<open>idt_init\<close> routes
  all interrupts to the default stub except the keyboard's, and loads the table.
\<close>

subsection \<open>Operations\<close>

definition idt_set :: "'l linkmap_scheme \<Rightarrow> int \<Rightarrow> u32 \<Rightarrow> mem \<Rightarrow> mem" where
  "idt_set lm interrupt_no address m =
     (let desc = idt_descriptors_at lm + 8 * word_of_int interrupt_no;
          m1 = store16 m desc (ucast (address AND 0x0000ffff));
          m2 = store16 m1 (desc + 2) KERNEL_CODE_SELECTOR;
          m3 = m2(desc + 4 := 0x00);
          m4 = m3(desc + 5 := 0xEE)
      in store16 m4 (desc + 6) (ucast (drop_bit 16 address)))"

definition idt_load :: "u32 \<Rightarrow> ('d, 'a) iostate_scheme \<Rightarrow> ('d, 'a) iostate_scheme" where
  "idt_load ptr s = s\<lparr>idtr := (load16 (memory s) ptr, load32 (memory s) (ptr + 2))\<rparr>"

definition idt_init :: "'l linkmap_scheme \<Rightarrow> ('d, 'a) iostate_scheme \<Rightarrow> ('d, 'a) iostate_scheme" where
  "idt_init lm s =
     (let m0 = memset (memory s) (idt_descriptors_at lm) 0 (8 * RAOS_TOTAL_INTERRUPTS);
          m1 = store16 m0 (idtr_descriptors_at lm) (8 * RAOS_TOTAL_INTERRUPTS - 1);
          m2 = store32 m1 (idtr_descriptors_at lm + 2) (idt_descriptors_at lm);
          m3 = fold (\<lambda>i m. idt_set lm (int i) (no_interrupt_at lm) m) [0..<RAOS_TOTAL_INTERRUPTS] m2;
          m4 = idt_set lm 0x21 (int21h_at lm) m3
      in idt_load (idtr_descriptors_at lm) (s\<lparr>memory := m4\<rparr>))"

definition int21h_handler :: "'d ports \<Rightarrow> ('d, 'a) iostate_scheme \<Rightarrow> ('d, 'a) iostate_scheme" where
  "int21h_handler hw s = outb hw 0x20 0x20 (print_literal (map of_char ''Keyboard pressed.'' @ [10]) s)"

definition no_interrupt_handler :: "'d ports \<Rightarrow> ('d, 'a) iostate_scheme \<Rightarrow> ('d, 'a) iostate_scheme" where
  "no_interrupt_handler hw s = outb hw 0x20 0x20 s"

definition enable_interrupts :: "('d, 'a) iostate_scheme \<Rightarrow> ('d, 'a) iostate_scheme" where
  "enable_interrupts s = s\<lparr>interrupts_on := True\<rparr>"

definition disable_interrupts :: "('d, 'a) iostate_scheme \<Rightarrow> ('d, 'a) iostate_scheme" where
  "disable_interrupts s = s\<lparr>interrupts_on := False\<rparr>"

subsection \<open>Gates as the processor reads them\<close>

text \<open>The handler's address, its selector, the reserved byte and the type byte.\<close>

definition gate :: "mem \<Rightarrow> u32 \<Rightarrow> u32 \<times> u16 \<times> u8 \<times> u8" where
  "gate m p = (ucast (load16 m p) OR push_bit 16 (ucast (load16 m (p + 6))), load16 m (p + 2), m (p + 4), m (p + 5))"

definition gate_addr :: "'l linkmap_scheme \<Rightarrow> nat \<Rightarrow> u32" where
  "gate_addr lm i = idt_descriptors_at lm + 8 * of_nat i"

lemma handler_halves:
  "ucast (ucast (x AND 0xffff) :: u16) OR push_bit 16 (ucast (ucast (drop_bit 16 x) :: u16)) = (x :: u32)"
proof -
  have F: "(0xffff :: u32) = mask 16" by (simp add: mask_eq_exp_minus_1)
  show ?thesis unfolding F
  proof (rule bit_word_eqI)
    fix n assume "n < LENGTH(32)"
    then show "bit (ucast (ucast (x AND mask 16) :: u16) OR push_bit 16 (ucast (ucast (drop_bit 16 x) :: u16)) :: u32) n = bit x n"
      by (cases "n < 16") (auto simp: bit_simps)
  qed
qed

lemma bytes_apart:
  fixes p :: u32
  shows "disjoint_regions (p + 2) 2 p 2" "disjoint_regions (p + 6) 2 p 2" "disjoint_regions (p + 6) 2 (p + 2) 2"
  by (simp_all add: disjoint_regions_def)

lemma gate_idt_set: "gate (idt_set lm (int i) a m) (gate_addr lm i) = (a, 8, 0, 0xEE)"
proof -
  let ?p = "gate_addr lm i"
  have d: "idt_descriptors_at lm + 8 * word_of_int (int i) = ?p" by (simp add: gate_addr_def)
  show ?thesis
    unfolding gate_def idt_set_def Let_def d
    using bytes_apart[of ?p] handler_halves[of a]
    by (simp add: load16_store16_other load16_upd_other in_region_def) (simp add: store16_def)
qed

lemma gate_cong:
  assumes "\<And>a. in_region p 8 a \<Longrightarrow> m' a = m a"
  shows "gate m' p = gate m p"
proof -
  have "load16 m' p = load16 m p" "load16 m' (p + 2) = load16 m (p + 2)" "load16 m' (p + 6) = load16 m (p + 6)"
    using assms[of p] assms[of "p + 1"] assms[of "p + 2"] assms[of "p + 3"] assms[of "p + 6"] assms[of "p + 7"]
    by (simp_all add: load16_def add.assoc)
  then show ?thesis using assms[of "p + 4"] assms[of "p + 5"] by (simp add: gate_def)
qed

lemma idt_set_outside:
  assumes "\<not> in_region (gate_addr lm i) 8 a"
  shows "idt_set lm (int i) x m a = m a"
proof -
  let ?p = "gate_addr lm i"
  have d: "idt_descriptors_at lm + 8 * word_of_int (int i) = ?p" by (simp add: gate_addr_def)
  have "a - ?p \<noteq> of_nat k" if "k < 8" for k using assms that by (auto simp: in_region_def unat_of_nat_u32)
  then have "a \<noteq> ?p + of_nat k" if "k < 8" for k using that by (metis add_diff_cancel_left')
  from this[of 0] this[of 1] this[of 2] this[of 3] this[of 4] this[of 5] this[of 6] this[of 7]
  have "a \<noteq> ?p" "a \<noteq> ?p + 1" "a \<noteq> ?p + 2" "a \<noteq> ?p + 3" "a \<noteq> ?p + 4" "a \<noteq> ?p + 5" "a \<noteq> ?p + 6" "a \<noteq> ?p + 7"
    by simp_all
  then show ?thesis unfolding idt_set_def Let_def d by (simp add: store16_def add.assoc)
qed

lemma gate_idt_set_other:
  assumes "i < n" "j < n" "i \<noteq> j" "n \<le> 2 ^ 29"
  shows "gate (idt_set lm (int i) x m) (gate_addr lm j) = gate m (gate_addr lm j)"
  using entries_apart[OF assms(2,1) assms(3)[symmetric] assms(4)]
  by (intro gate_cong idt_set_outside) (simp add: gate_addr_def)

lemma gate_idt_fill:
  assumes "n \<le> 512"
  shows "(\<forall>i < n. gate (fold (\<lambda>i m. idt_set lm (int i) x m) [0..<n] m) (gate_addr lm i) = (x, 8, 0, 0xEE))
    \<and> (\<forall>a. \<not> in_region (idt_descriptors_at lm) 4096 a \<longrightarrow> fold (\<lambda>i m. idt_set lm (int i) x m) [0..<n] m a = m a)"
  using assms
proof (induction n)
  case (Suc n)
  let ?m = "fold (\<lambda>i m. idt_set lm (int i) x m) [0..<n] m"
  have n: "n < 512" and IH: "\<forall>i < n. gate ?m (gate_addr lm i) = (x, 8, 0, 0xEE)"
    "\<forall>a. \<not> in_region (idt_descriptors_at lm) 4096 a \<longrightarrow> ?m a = m a" using Suc by auto
  have "gate (idt_set lm (int n) x ?m) (gate_addr lm i) = (x, 8, 0, 0xEE)" if "i < Suc n" for i
    using that IH(1) gate_idt_set gate_idt_set_other[of n 512 i lm x ?m] n by (cases "i = n") auto
  moreover have "idt_set lm (int n) x ?m a = m a" if "\<not> in_region (idt_descriptors_at lm) 4096 a" for a
    using entry_in_table[OF n, of "idt_descriptors_at lm" a] that IH(2) idt_set_outside[of lm n a x ?m]
    by (auto simp: gate_addr_def)
  ultimately show ?case by simp
qed simp

lemma idt_init_ok:
  assumes "disjoint_regions (idt_descriptors_at lm) 4096 (idtr_descriptors_at lm) 6"
  shows "\<exists>m. idt_init lm s = s\<lparr>memory := m, idtr := (4095, idt_descriptors_at lm)\<rparr>
    \<and> (\<forall>i < 512. gate m (gate_addr lm i) = (if i = 0x21 then int21h_at lm else no_interrupt_at lm, KERNEL_CODE_SELECTOR, 0, 0xEE))
    \<and> (\<forall>a. \<not> in_region (idt_descriptors_at lm) 4096 a \<longrightarrow> \<not> in_region (idtr_descriptors_at lm) 6 a \<longrightarrow> m a = memory s a)"
proof -
  let ?I = "idt_descriptors_at lm" and ?R = "idtr_descriptors_at lm"
  define m1 where "m1 = store16 (memset (memory s) ?I 0 4096) ?R 4095"
  define m2 where "m2 = store32 m1 (?R + 2) ?I"
  define m3 where "m3 = fold (\<lambda>i m. idt_set lm (int i) (no_interrupt_at lm) m) [0..<512] m2"
  define m4 where "m4 = idt_set lm (int 0x21) (int21h_at lm) m3"
  have eq: "idt_init lm s = s\<lparr>memory := m4, idtr := (load16 m4 ?R, load32 m4 (?R + 2))\<rparr>"
    by (simp add: idt_init_def idt_load_def Let_def m1_def m2_def m3_def m4_def)
  have m3: "\<forall>i < 512. gate m3 (gate_addr lm i) = (no_interrupt_at lm, 8, 0, 0xEE)"
    "\<And>a. \<not> in_region ?I 4096 a \<Longrightarrow> m3 a = m2 a"
    using gate_idt_fill[of 512 lm "no_interrupt_at lm" m2] by (auto simp: m3_def)
  have gates: "gate m4 (gate_addr lm i) = (if i = 0x21 then int21h_at lm else no_interrupt_at lm, 8, 0, 0xEE)"
    if "i < 512" for i
  proof (cases "i = 0x21")
    case True
    then show ?thesis unfolding m4_def by (simp add: gate_idt_set[of lm 33, simplified])
  next
    case False
    then have "gate m4 (gate_addr lm i) = gate m3 (gate_addr lm i)"
      unfolding m4_def using that by (intro gate_idt_set_other[of _ 512]) auto
    then show ?thesis using m3(1) that False by simp
  qed
  have out: "m4 a = m2 a" if "in_region ?R 6 a" for a
  proof -
    have "\<not> in_region ?I 4096 a" using assms that by (rule disjoint_regionsD)
    then show ?thesis
      using m3(2) entry_in_table[of 33 512 ?I a] idt_set_outside[of lm 33 a "int21h_at lm" m3]
      by (auto simp: m4_def gate_addr_def)
  qed
  have "load16 m4 ?R = load16 m2 ?R" by (intro load16_cong out) (simp add: in_region_def)
  also have "\<dots> = load16 m1 ?R"
  proof -
    have "disjoint_regions (?R + 2) 4 ?R 2" by (simp add: disjoint_regions_def)
    then show ?thesis unfolding m2_def by (intro load16_cong store32_outside disjoint_regionsD)
  qed
  also have "\<dots> = 4095" by (simp add: m1_def)
  finally have l: "load16 m4 ?R = 4095" .
  have "load32 m4 (?R + 2) = load32 m2 (?R + 2)"
  proof (intro load32_cong out)
    fix a assume "in_region (?R + 2) 4 a"
    then show "in_region ?R 6 a" using in_region_iff_nat[of 2 4 "a - ?R"] by (simp add: in_region_def algebra_simps)
  qed
  then have "load32 m4 (?R + 2) = ?I" by (simp add: m2_def)
  then have idtr: "idt_init lm s = s\<lparr>memory := m4, idtr := (4095, ?I)\<rparr>" using l unfolding eq by simp
  have "m4 a = memory s a" if "\<not> in_region ?I 4096 a" "\<not> in_region ?R 6 a" for a
  proof -
    have "\<not> in_region ?R 2 a" "\<not> in_region (?R + 2) 4 a" using that(2) in_region_sub[of ?R 0 2 a 6] in_region_sub[of ?R 2 4 a 6] by auto
    then have "m2 a = memory s a" using that(1) by (simp add: m2_def m1_def store32_outside store16_outside memset_eq)
    then show ?thesis
      using that(1) m3(2) entry_in_table[of 33 512 ?I a] idt_set_outside[of lm 33 a "int21h_at lm" m3] by (auto simp: m4_def gate_addr_def)
  qed
  then show ?thesis using gates idtr by blast
qed

subsection \<open>Properties\<close>



end
