(* ===== verification/Disk.thy ===== *)
theory Disk
  imports Io
begin

text \<open>
  \<^verbatim>\<open>src/src/disk/disk.c\<close> and \<^verbatim>\<open>disk.h\<close>: reading sectors of the master ATA disk by programmed input.

  The drive is hardware behind the ports.  What the driver relies on is the named hypothesis \<open>ata_disk\<close>: after
  a LBA28 read command an idle drive delivers, sector by sector, first some status bytes without the data
  request bit, then one with it, then the 256 words of the sector, and is idle again at the end.  Under it
  \<^verbatim>\<open>disk_read_sector\<close> terminates and fills the buffer with the bytes of the image.

  \<^verbatim>\<open>struct disk\<close> is the 20 bytes at \<^verbatim>\<open>&disk\<close>.  Its \<^verbatim>\<open>filesystem\<close> field is set by \<^verbatim>\<open>fs_resolve\<close>, an argument here.
\<close>

subsection \<open>Reading\<close>

partial_function (option) disk_wait ::
    "'d ports \<Rightarrow> ('d, 'a) iostate_scheme \<Rightarrow> ('d, 'a) iostate_scheme option" where
  "disk_wait hw s = (let (c, s1) = insb hw 0x1F7 s in if c AND 0x08 = 0 then disk_wait hw s1 else Some s1)"

primrec disk_words ::
    "'d ports \<Rightarrow> nat \<Rightarrow> u32 \<Rightarrow> ('d, 'a) iostate_scheme \<Rightarrow> ('d, 'a) iostate_scheme" where
  "disk_words hw 0 ptr s = s"
| "disk_words hw (Suc k) ptr s =
     (let (w, s1) = insw hw 0x1F0 s
      in disk_words hw k (ptr + 2) (s1\<lparr>memory := store16 (memory s1) ptr w\<rparr>))"

function disk_sector_loop ::
    "'d ports \<Rightarrow> int \<Rightarrow> int \<Rightarrow> u32 \<Rightarrow> ('d, 'a) iostate_scheme \<Rightarrow> ('d, 'a) iostate_scheme option" where
  "disk_sector_loop hw total_blocks b ptr s =
     (if b < total_blocks
      then do {
        s1 \<leftarrow> disk_wait hw s;
        disk_sector_loop hw total_blocks (b + 1) (ptr + 512) (disk_words hw 256 ptr s1)
      }
      else Some s)"
  by pat_completeness auto
termination
  by (relation "measure (\<lambda>(hw, n, b, ptr, s). nat (n - b))") auto

declare disk_sector_loop.simps [simp del]

definition disk_read_sector ::
    "'d ports \<Rightarrow> int \<Rightarrow> int \<Rightarrow> u32 \<Rightarrow> ('d, 'a) iostate_scheme \<Rightarrow> (int \<times> ('d, 'a) iostate_scheme) option" where
  "disk_read_sector hw lba total_blocks buf s =
     (let s1 = outb hw 0x1F6 (word_of_int (drop_bit 24 lba OR 0xE0)) s;
          s2 = outb hw 0x1F2 (word_of_int total_blocks) s1;
          s3 = outb hw 0x1F3 (word_of_int (lba AND 0xff)) s2;
          s4 = outb hw 0x1F4 (word_of_int (drop_bit 8 lba)) s3;
          s5 = outb hw 0x1F5 (word_of_int (drop_bit 16 lba)) s4;
          s6 = outb hw 0x1F7 0x20 s5
      in do {
        s7 \<leftarrow> disk_sector_loop hw total_blocks 0 buf s6;
        Some (0, s7)
      })"

definition disk_search_and_init ::
    "'l linkmap_scheme \<Rightarrow> (u32 \<Rightarrow> ('d, 'a) iostate_scheme \<Rightarrow> (u32 \<times> ('d, 'a) iostate_scheme) option) \<Rightarrow>
     ('d, 'a) iostate_scheme \<Rightarrow> ('d, 'a) iostate_scheme option" where
  "disk_search_and_init lm fs_resolve s =
     (let m0 = memset (memory s) (disk_at lm) 0 20;
          m1 = store32 m0 (disk_at lm) 0;
          m2 = store32 m1 (disk_at lm + 4) RAOS_SECTOR_SIZE;
          m3 = store32 m2 (disk_at lm + 8) 0
      in do {
        (fs, s1) \<leftarrow> fs_resolve (disk_at lm) (s\<lparr>memory := m3\<rparr>);
        Some (s1\<lparr>memory := store32 (memory s1) (disk_at lm + 12) fs\<rparr>)
      })"

definition disk_get :: "'l linkmap_scheme \<Rightarrow> int \<Rightarrow> u32" where
  "disk_get lm index = (if 0 \<noteq> index then NULL else disk_at lm)"

definition disk_read_block ::
    "'l linkmap_scheme \<Rightarrow> 'd ports \<Rightarrow> u32 \<Rightarrow> u32 \<Rightarrow> int \<Rightarrow> u32 \<Rightarrow> ('d, 'a) iostate_scheme \<Rightarrow>
     (int \<times> ('d, 'a) iostate_scheme) option" where
  "disk_read_block lm hw idisk lba total_blocks buf s =
     (if idisk \<noteq> disk_at lm then Some (- EIO, s)
      else disk_read_sector hw (sint lba) total_blocks buf s)"

subsection \<open>The drive\<close>

primrec polls :: "'d ports \<Rightarrow> nat \<Rightarrow> 'd \<Rightarrow> 'd \<Rightarrow> bool" where
  "polls hw 0 d d' \<longleftrightarrow> fst (port_in8 hw 0x1F7 d) AND 8 \<noteq> 0 \<and> d' = snd (port_in8 hw 0x1F7 d)"
| "polls hw (Suc n) d d' \<longleftrightarrow> fst (port_in8 hw 0x1F7 d) AND 8 = 0 \<and> polls hw n (snd (port_in8 hw 0x1F7 d)) d'"

primrec delivers :: "'d ports \<Rightarrow> u16 list \<Rightarrow> 'd \<Rightarrow> 'd \<Rightarrow> bool" where
  "delivers hw [] d d' \<longleftrightarrow> d' = d"
| "delivers hw (w # ws) d d' \<longleftrightarrow> fst (port_in16 hw 0x1F0 d) = w \<and> delivers hw ws (snd (port_in16 hw 0x1F0 d)) d'"

primrec transfers :: "'d ports \<Rightarrow> u16 list list \<Rightarrow> 'd \<Rightarrow> 'd \<Rightarrow> bool" where
  "transfers hw [] d d' \<longleftrightarrow> d' = d"
| "transfers hw (ws # wss) d d' \<longleftrightarrow> (\<exists>n d1 d2. polls hw n d d1 \<and> delivers hw ws d1 d2 \<and> transfers hw wss d2 d')"

definition sector_words :: "(nat \<Rightarrow> u8) \<Rightarrow> u16 list" where
  "sector_words bs = map (\<lambda>i. ucast (bs (2 * i)) OR push_bit 8 (ucast (bs (2 * i + 1)))) [0..<256]"

definition ata_read_command :: "'d ports \<Rightarrow> nat \<Rightarrow> nat \<Rightarrow> 'd \<Rightarrow> 'd" where
  "ata_read_command hw lba n d =
     port_out8 hw 0x1F7 0x20 (port_out8 hw 0x1F5 (of_nat (lba div 2 ^ 16 mod 256))
       (port_out8 hw 0x1F4 (of_nat (lba div 2 ^ 8 mod 256)) (port_out8 hw 0x1F3 (of_nat (lba mod 256))
         (port_out8 hw 0x1F2 (of_nat n) (port_out8 hw 0x1F6 (of_nat (0xE0 + lba div 2 ^ 24)) d)))))"

definition ata_disk :: "'d ports \<Rightarrow> ('d \<Rightarrow> bool) \<Rightarrow> (nat \<Rightarrow> nat \<Rightarrow> u8) \<Rightarrow> bool" where
  "ata_disk hw idle img \<longleftrightarrow> (\<forall>d lba n. idle d \<longrightarrow> lba + n \<le> 2 ^ 28 \<longrightarrow> 0 < n \<longrightarrow> n < 256 \<longrightarrow>
     (\<exists>d'. idle d' \<and> transfers hw (map (\<lambda>b. sector_words (img (lba + b))) [0..<n]) (ata_read_command hw lba n d) d'))"

text \<open>The bytes of a disk in a row.\<close>

definition disk_byte :: "(nat \<Rightarrow> nat \<Rightarrow> u8) \<Rightarrow> nat \<Rightarrow> u8" where
  "disk_byte img k = img (k div 512) (k mod 512)"

subsection \<open>The loops\<close>

lemma disk_wait_polls: "polls hw n (device s) d' \<Longrightarrow> disk_wait hw s = Some (s\<lparr>device := d'\<rparr>)"
proof (induction n arbitrary: s)
  case 0
  then show ?case by (subst disk_wait.simps) (auto simp: insb_def split: prod.splits)
next
  case (Suc n)
  from Suc.prems have "disk_wait hw (s\<lparr>device := snd (port_in8 hw 0x1F7 (device s))\<rparr>) = Some (s\<lparr>device := d'\<rparr>)"
    using Suc.IH[of "s\<lparr>device := snd (port_in8 hw 0x1F7 (device s))\<rparr>"] by simp
  then show ?case using Suc.prems by (subst disk_wait.simps) (auto simp: insb_def split: prod.splits)
qed

text \<open>Byte \<open>k\<close> of a list of words, in the order the stores put them.\<close>

definition word_byte :: "u16 list \<Rightarrow> nat \<Rightarrow> u8" where
  "word_byte ws k = (if even k then ucast (ws ! (k div 2)) else ucast (drop_bit 8 (ws ! (k div 2))))"

lemma disk_words_delivers:
  assumes "delivers hw ws (device s) d'" "2 * length ws \<le> 2 ^ 32"
  shows "\<exists>m. disk_words hw (length ws) p s = s\<lparr>device := d', memory := m\<rparr>
    \<and> (\<forall>a. m a = (if in_region p (2 * length ws) a then word_byte ws (unat (a - p)) else memory s a))"
  using assms
proof (induction ws arbitrary: p s)
  case Nil
  then show ?case by (auto intro: exI[of _ "memory s"])
next
  case (Cons w ws)
  define s1 where "s1 = s\<lparr>device := snd (port_in16 hw 0x1F0 (device s)), memory := store16 (memory s) p w\<rparr>"
  have "delivers hw ws (device s1) d'" using Cons.prems by (simp add: s1_def)
  then obtain m where m: "disk_words hw (length ws) (p + 2) s1 = s1\<lparr>device := d', memory := m\<rparr>"
    "\<And>a. m a = (if in_region (p + 2) (2 * length ws) a then word_byte ws (unat (a - (p + 2))) else store16 (memory s) p w a)"
    using Cons.IH[of s1 "p + 2"] Cons.prems(2) by (auto simp: s1_def)
  have "m a = (if in_region p (2 * length (w # ws)) a then word_byte (w # ws) (unat (a - p)) else memory s a)" for a
  proof -
    define k where "k = unat (a - p)"
    have ka: "a = p + of_nat k" by (simp add: k_def)
    consider "k = 0" | "k = 1" | j where "k = j + 2" by (metis One_nat_def Suc_1 add_2_eq_Suc' not0_implies_Suc)
    then show ?thesis
    proof cases
      case (3 j)
      have "k < 2 ^ 32" unfolding k_def by (rule unat_u32_bound)
      then have "unat (a - (p + 2)) = j" using 3 ka unat_of_nat_u32[of j] by (simp add: algebra_simps)
      moreover have "\<not> in_region p 2 a" using 3 by (simp add: in_region_def k_def[symmetric])
      ultimately show ?thesis
        unfolding m(2) using 3 by (simp add: in_region_def k_def[symmetric] word_byte_def store16_outside)
    next
      case 1
      then have "a = p" using ka by simp
      moreover have "\<not> in_region (p + 2) (2 * length ws) p" using Cons.prems(2) by (simp add: in_region_def)
      ultimately show ?thesis unfolding m(2) by (simp add: in_region_def word_byte_def store16_def)
    next
      case 2
      then have "a = p + 1" using ka by simp
      moreover have "\<not> in_region (p + 2) (2 * length ws) (p + 1)"
        using Cons.prems(2) by (simp add: in_region_def unsigned_minus_1_eq_mask mask_eq_exp_minus_1)
      ultimately show ?thesis unfolding m(2) by (simp add: in_region_def word_byte_def store16_def)
    qed
  qed
  moreover have "disk_words hw (length (w # ws)) p s = s\<lparr>device := d', memory := m\<rparr>"
    using m(1) Cons.prems(1) by (auto simp: insw_def s1_def split: prod.splits)
  ultimately show ?case by blast
qed

lemma word_byte_sector: "k < 512 \<Longrightarrow> word_byte (sector_words bs) k = bs k"
proof -
  assume k: "k < 512"
  define j where "j = k div 2"
  have j: "j < 256" using k by (simp add: j_def)
  have "(ucast (ucast x OR push_bit 8 (ucast y) :: u16) :: u8) = x"
    "(ucast (drop_bit 8 (ucast x OR push_bit 8 (ucast y) :: u16)) :: u8) = y" for x y :: u8
    by (rule bit_word_eqI; auto simp: bit_simps dest: bit_imp_le_length)+
  moreover have "k = (if even k then 2 * j else 2 * j + 1)" unfolding j_def by simp
  ultimately show ?thesis
    using j by (cases "even k") (simp_all add: word_byte_def sector_words_def j_def[symmetric] del: drop_bit_or)
qed

lemma sector_words_length [simp]: "length (sector_words bs) = 256"
  by (simp add: sector_words_def)

lemma disk_words_sector:
  assumes "delivers hw (sector_words bs) (device s) d'"
  shows "disk_words hw 256 p s = s\<lparr>device := d',
    memory := (\<lambda>a. if in_region p 512 a then bs (unat (a - p)) else memory s a)\<rparr>"
proof -
  obtain m where m: "disk_words hw 256 p s = s\<lparr>device := d', memory := m\<rparr>"
    "\<And>a. m a = (if in_region p 512 a then word_byte (sector_words bs) (unat (a - p)) else memory s a)"
    using disk_words_delivers[OF assms, of p] by auto
  have "m a = (if in_region p 512 a then bs (unat (a - p)) else memory s a)" for a
    unfolding m(2) by (simp add: in_region_def word_byte_sector)
  then show ?thesis using m(1) by presburger
qed

lemma disk_sector_loop_transfers:
  assumes "transfers hw (map (\<lambda>b. sector_words (f b)) [k..<n]) (device s) d'" "k \<le> n" "512 * n \<le> 2 ^ 32"
  shows "disk_sector_loop hw (int n) (int k) (p + of_nat (512 * k)) s = Some (s\<lparr>device := d',
    memory := (\<lambda>a. if 512 * k \<le> unat (a - p) \<and> unat (a - p) < 512 * n
                    then f (unat (a - p) div 512) (unat (a - p) mod 512) else memory s a)\<rparr>)"
  using assms(1,2)
proof (induction "n - k" arbitrary: k s)
  case 0
  then have "k = n" by simp
  moreover have "(\<lambda>a. if 512 * k \<le> unat (a - p) \<and> unat (a - p) < 512 * n
      then f (unat (a - p) div 512) (unat (a - p) mod 512) else memory s a) = memory s"
    using calculation by (intro ext) auto
  ultimately show ?case using 0 by (subst disk_sector_loop.simps) simp
next
  case (Suc j)
  then have k: "k < n" by simp
  have "map (\<lambda>b. sector_words (f b)) [k..<n] = sector_words (f k) # map (\<lambda>b. sector_words (f b)) [Suc k..<n]"
    using k by (simp add: upt_conv_Cons)
  with Suc.prems(1) obtain i d1 d2 where d: "polls hw i (device s) d1" "delivers hw (sector_words (f k)) d1 d2"
    "transfers hw (map (\<lambda>b. sector_words (f b)) [Suc k..<n]) d2 d'" by auto
  let ?p = "p + of_nat (512 * k)"
  define s2 where "s2 = s\<lparr>device := d2, memory := (\<lambda>a. if in_region ?p 512 a then f k (unat (a - ?p)) else memory s a)\<rparr>"
  have s2: "disk_words hw 256 ?p (s\<lparr>device := d1\<rparr>) = s2"
    using disk_words_sector[of hw "f k" "s\<lparr>device := d1\<rparr>" d2 ?p] d(2) by (simp add: s2_def cong: if_cong)
  have "j = n - Suc k" "Suc k \<le> n" using Suc.hyps(2) k by simp_all
  from Suc.hyps(1)[OF this(1) _ this(2), of s2] d(3)
  have IH: "disk_sector_loop hw (int n) (int (Suc k)) (p + of_nat (512 * Suc k)) s2 = Some (s2\<lparr>device := d',
    memory := (\<lambda>a. if 512 * Suc k \<le> unat (a - p) \<and> unat (a - p) < 512 * n
                    then f (unat (a - p) div 512) (unat (a - p) mod 512) else memory s2 a)\<rparr>)"
    by (simp add: s2_def)
  have kb: "512 * k + 512 \<le> 2 ^ 32" using k assms(3) by simp
  have reg: "in_region ?p 512 a \<longleftrightarrow> 512 * k \<le> unat (a - p) \<and> unat (a - p) < 512 * k + 512" for a
  proof -
    have "unat (of_nat (512 * k) :: u32) = 512 * k" using kb by (intro unat_of_nat_u32) simp
    then show ?thesis using in_region_iff_nat[of "of_nat (512 * k)" 512 "a - p"] kb
      by (simp add: in_region_def diff_diff_eq del: of_nat_mult)
  qed
  have off: "unat (a - ?p) = unat (a - p) mod 512 \<and> unat (a - p) div 512 = k" if "in_region ?p 512 a" for a
  proof -
    define q where "q = unat (a - p) - 512 * k"
    have q: "q < 512" "unat (a - p) = 512 * k + q" using that unfolding reg q_def by auto
    then have "a - p = of_nat (512 * k) + of_nat q" by (metis of_nat_add of_nat_unat ucast_id)
    then have "a - ?p = of_nat q" by (simp only: diff_diff_eq[symmetric]) simp
    then show ?thesis using q by (simp add: unat_of_nat_u32)
  qed
  have "(if 512 * Suc k \<le> unat (a - p) \<and> unat (a - p) < 512 * n
         then f (unat (a - p) div 512) (unat (a - p) mod 512) else memory s2 a) =
        (if 512 * k \<le> unat (a - p) \<and> unat (a - p) < 512 * n
         then f (unat (a - p) div 512) (unat (a - p) mod 512) else memory s a)" for a
    using off[of a] reg[of a] k by (auto simp: s2_def)
  then have "disk_sector_loop hw (int n) (int (Suc k)) (p + of_nat (512 * Suc k)) s2 = Some (s\<lparr>device := d',
    memory := (\<lambda>a. if 512 * k \<le> unat (a - p) \<and> unat (a - p) < 512 * n
                    then f (unat (a - p) div 512) (unat (a - p) mod 512) else memory s a)\<rparr>)"
    unfolding IH by (simp add: s2_def)
  then show ?case
    using k s2 disk_wait_polls[OF d(1)]
    by (subst disk_sector_loop.simps) (simp add: algebra_simps)
qed

subsection \<open>disk_read_sector\<close>

lemma read_command_registers:
  assumes "lba < 2 ^ 28"
  shows "(word_of_int (drop_bit 24 (int lba) OR 0xE0) :: u8) = of_nat (0xE0 + lba div 2 ^ 24)"
    "(word_of_int (int lba AND 0xff) :: u8) = of_nat (lba mod 256)"
    "(word_of_int (drop_bit 8 (int lba)) :: u8) = of_nat (lba div 2 ^ 8 mod 256)"
    "(word_of_int (drop_bit 16 (int lba)) :: u8) = of_nat (lba div 2 ^ 16 mod 256)"
proof -
  have m: "(of_nat (x mod 256) :: u8) = of_nat x" for x
    by (simp add: word_unat_eq_iff unsigned_of_nat take_bit_eq_mod)
  have "drop_bit 24 (int lba) AND 0xE0 = 0"
  proof (rule bit_eqI)
    fix n
    have "\<not> bit (drop_bit 24 (int lba)) n" if "4 \<le> n"
    proof -
      have "(2::int) ^ 28 \<le> 2 ^ (24 + n)" using that by (intro power_increasing) auto
      moreover have "int lba < 2 ^ 28" using assms by simp
      ultimately have "int lba < 2 ^ (24 + n)" by (rule less_le_trans[rotated])
      then have "int lba div 2 ^ (24 + n) = 0" by (intro div_pos_pos_trivial) simp_all
      then show ?thesis by (simp add: bit_drop_bit_eq bit_iff_odd del: div_eq_0_iff)
    qed
    moreover have "\<not> bit (0xE0 :: int) n" if "n < 4"
    proof -
      have "n = 0 \<or> n = 1 \<or> n = 2 \<or> n = 3" using that by auto
      then show ?thesis by auto
    qed
    ultimately show "bit (drop_bit 24 (int lba) AND 0xE0) n = bit 0 n" by (cases "n < 4") (auto simp: bit_simps)
  qed
  then have "drop_bit 24 (int lba) OR 0xE0 = int (0xE0 + lba div 2 ^ 24)"
    by (simp add: disjunctive_add_eq_or[symmetric] drop_bit_eq_div zdiv_int)
  then show "(word_of_int (drop_bit 24 (int lba) OR 0xE0) :: u8) = of_nat (0xE0 + lba div 2 ^ 24)" by simp
  have "int lba AND 0xff = int (lba mod 256)"
    using take_bit_eq_mask[of 8 "int lba"] by (simp add: mask_eq_exp_minus_1 take_bit_eq_mod zmod_int)
  then show "(word_of_int (int lba AND 0xff) :: u8) = of_nat (lba mod 256)" by simp
  have z: "drop_bit 8 (int lba) = int (lba div 2 ^ 8)" "drop_bit 16 (int lba) = int (lba div 2 ^ 16)"
    by (simp_all add: drop_bit_eq_div zdiv_int)
  show "(word_of_int (drop_bit 8 (int lba)) :: u8) = of_nat (lba div 2 ^ 8 mod 256)"
    "(word_of_int (drop_bit 16 (int lba)) :: u8) = of_nat (lba div 2 ^ 16 mod 256)"
    unfolding m z by (simp_all only: of_int_of_nat_eq)
qed

lemma disk_read_sector_image:
  assumes "ata_disk hw idle img" "idle (device s)" "lba + n \<le> 2 ^ 28" "0 < n" "n < 256"
  shows "\<exists>d'. idle d' \<and> disk_read_sector hw (int lba) (int n) buf s = Some (0, s\<lparr>device := d',
    memory := (\<lambda>a. if in_region buf (512 * n) a then disk_byte img (512 * lba + unat (a - buf)) else memory s a)\<rparr>)"
proof -
  obtain d' where d': "idle d'"
    "transfers hw (map (\<lambda>b. sector_words (img (lba + b))) [0..<n]) (ata_read_command hw lba n (device s)) d'"
    using assms unfolding ata_disk_def by blast
  have "lba < 2 ^ 28" using assms by simp
  note regs = read_command_registers[OF this]
  have "512 * n \<le> 2 ^ 32" using assms(5) by simp
  from disk_sector_loop_transfers[of hw "\<lambda>b. img (lba + b)" 0 n
      "s\<lparr>device := ata_read_command hw lba n (device s)\<rparr>" d' buf, OF _ _ this] d'(2)
  have loop: "disk_sector_loop hw (int n) 0 buf (s\<lparr>device := ata_read_command hw lba n (device s)\<rparr>) =
    Some (s\<lparr>device := d', memory := (\<lambda>a. if unat (a - buf) < 512 * n
      then img (lba + unat (a - buf) div 512) (unat (a - buf) mod 512) else memory s a)\<rparr>)" by (simp cong: if_cong)
  have "disk_read_sector hw (int lba) (int n) buf s = Some (0, s\<lparr>device := d', memory := (\<lambda>a. if unat (a - buf) < 512 * n
      then img (lba + unat (a - buf) div 512) (unat (a - buf) mod 512) else memory s a)\<rparr>)"
    unfolding disk_read_sector_def Let_def outb_def regs using loop
    by (simp add: ata_read_command_def)
  moreover have "disk_byte img (512 * lba + k) = img (lba + k div 512) (k mod 512)" for k
    by (simp add: disk_byte_def)
  ultimately show ?thesis using d'(1) by (intro exI[of _ d']) (simp add: in_region_def cong: if_cong)
qed

lemma sint_lba: "lba < 2 ^ 28 \<Longrightarrow> sint (of_nat lba :: u32) = int lba"
  by (simp add: sint_of_nat_small)

lemma disk_read_block_image:
  assumes "ata_disk hw idle img" "idle (device s)" "lba + n \<le> 2 ^ 28" "0 < n" "n < 256"
  shows "\<exists>d'. idle d' \<and> disk_read_block lm hw (disk_at lm) (of_nat lba) (int n) buf s = Some (0, s\<lparr>device := d',
    memory := (\<lambda>a. if in_region buf (512 * n) a then disk_byte img (512 * lba + unat (a - buf)) else memory s a)\<rparr>)"
  using disk_read_sector_image[OF assms] assms(3,4) sint_lba[of lba] by (simp add: disk_read_block_def)

subsection \<open>A drive\<close>

text \<open>
  A concrete drive for instances: a register file and the words still to be delivered.  It reports a data
  request while there are any.
\<close>

record drive =
  regs :: "u16 \<Rightarrow> u8"
  pending :: "u16 list"

definition drive_lba :: "drive \<Rightarrow> nat" where
  "drive_lba d = unat (regs d 0x1F3) + 2 ^ 8 * unat (regs d 0x1F4) + 2 ^ 16 * unat (regs d 0x1F5)
     + 2 ^ 24 * (unat (regs d 0x1F6) mod 16)"

definition drive_ports :: "(nat \<Rightarrow> nat \<Rightarrow> u8) \<Rightarrow> drive ports" where
  "drive_ports img = \<lparr>
     port_out8 = (\<lambda>p v d. if p = 0x1F7 \<and> v = 0x20
       then d\<lparr>pending := concat (map (\<lambda>b. sector_words (img (drive_lba d + b))) [0..<unat (regs d 0x1F2)])\<rparr>
       else d\<lparr>regs := (regs d)(p := v)\<rparr>),
     port_out16 = (\<lambda>p v d. d),
     port_in8 = (\<lambda>p d. (if p = 0x1F7 \<and> pending d \<noteq> [] then 8 else 0, d)),
     port_in16 = (\<lambda>p d. (if pending d = [] then 0 else hd (pending d), d\<lparr>pending := tl (pending d)\<rparr>))\<rparr>"

lemma drive_delivers:
  "delivers (drive_ports img) ws (d\<lparr>pending := ws @ rest\<rparr>) (d\<lparr>pending := rest\<rparr>)"
  by (induction ws) (simp_all add: drive_ports_def)

lemma drive_transfers:
  assumes "\<forall>ws \<in> set wss. ws \<noteq> []"
  shows "transfers (drive_ports img) wss (d\<lparr>pending := concat wss\<rparr>) (d\<lparr>pending := []\<rparr>)"
  using assms
proof (induction wss)
  case (Cons ws wss)
  have "polls (drive_ports img) 0 (d\<lparr>pending := concat (ws # wss)\<rparr>) (d\<lparr>pending := ws @ concat wss\<rparr>)"
    using Cons.prems by (simp add: drive_ports_def)
  moreover have "delivers (drive_ports img) ws (d\<lparr>pending := ws @ concat wss\<rparr>) (d\<lparr>pending := concat wss\<rparr>)"
    by (rule drive_delivers)
  moreover have "transfers (drive_ports img) wss (d\<lparr>pending := concat wss\<rparr>) (d\<lparr>pending := []\<rparr>)"
    using Cons by simp
  ultimately show ?case unfolding transfers.simps by blast
qed simp

lemma lba_split:
  fixes lba :: nat
  assumes "lba < 2 ^ 28"
  shows "lba mod 256 + 2 ^ 8 * (lba div 2 ^ 8 mod 256) + 2 ^ 16 * (lba div 2 ^ 16 mod 256) + 2 ^ 24 * (lba div 2 ^ 24) = lba"
proof -
  define a b c where "a = lba div 256" and "b = a div 256" and "c = b div 256"
  have "lba = 256 * a + lba mod 256" "a = 256 * b + a mod 256" "b = 256 * c + b mod 256"
    by (simp_all add: a_def b_def c_def)
  then have "lba mod 256 + 256 * (a mod 256) + 65536 * (b mod 256) + 16777216 * c = lba" by linarith
  moreover have "lba div 2 ^ 8 = a" "lba div 2 ^ 16 = b" "lba div 2 ^ 24 = c"
    by (simp_all add: a_def b_def c_def div_mult2_eq[symmetric])
  ultimately show ?thesis by simp
qed

lemma drive_is_ata_disk: "ata_disk (drive_ports img) (\<lambda>d. pending d = []) img"
  unfolding ata_disk_def
proof (intro allI impI)
  fix d :: drive and lba n assume lba: "lba + n \<le> 2 ^ 28" and n: "0 < (n :: nat)" "n < 256"
  define d6 where "d6 = d\<lparr>regs := (regs d)(0x1F6 := of_nat (0xE0 + lba div 2 ^ 24), 0x1F2 := of_nat n,
    0x1F3 := of_nat (lba mod 256), 0x1F4 := of_nat (lba div 2 ^ 8 mod 256), 0x1F5 := of_nat (lba div 2 ^ 16 mod 256))\<rparr>"
  have hi: "lba div 2 ^ 24 < 16" using lba n by simp
  have "unat (of_nat (0xE0 + lba div 2 ^ 24) :: u8) = 0xE0 + lba div 2 ^ 24"
    using hi unfolding unsigned_of_nat by (simp add: take_bit_nat_eq_self)
  then have "unat (of_nat (0xE0 + lba div 2 ^ 24) :: u8) mod 16 = lba div 2 ^ 24"
    using hi mod_mult_self4[of 16 14 "lba div 2 ^ 24"] by simp
  then have "drive_lba d6 = lba"
    using lba_split[of lba] lba n by (simp add: drive_lba_def d6_def unsigned_of_nat take_bit_nat_eq_self)
  moreover have "unat (regs d6 0x1F2) = n" using n by (simp add: d6_def unsigned_of_nat take_bit_nat_eq_self)
  moreover have "ata_read_command (drive_ports img) lba n d = d6\<lparr>pending := concat (map (\<lambda>b. sector_words (img (drive_lba d6 + b)))
      [0..<unat (regs d6 0x1F2)])\<rparr>"
    by (simp add: ata_read_command_def drive_ports_def d6_def)
  ultimately have "ata_read_command (drive_ports img) lba n d =
      d6\<lparr>pending := concat (map (\<lambda>b. sector_words (img (lba + b))) [0..<n])\<rparr>" by simp
  moreover have "\<forall>ws \<in> set (map (\<lambda>b. sector_words (img (lba + b))) [0..<n]). ws \<noteq> []"
    using sector_words_length by (metis (no_types, lifting) ex_map_conv list.size(3) zero_neq_numeral)
  ultimately have "transfers (drive_ports img) (map (\<lambda>b. sector_words (img (lba + b))) [0..<n])
      (ata_read_command (drive_ports img) lba n d) (d6\<lparr>pending := []\<rparr>)"
    using drive_transfers by presburger
  then show "\<exists>d'. pending d' = [] \<and> transfers (drive_ports img) (map (\<lambda>b. sector_words (img (lba + b))) [0..<n])
      (ata_read_command (drive_ports img) lba n d) d'" by (intro exI[of _ "d6\<lparr>pending := []\<rparr>"]) simp
qed

subsection \<open>Properties\<close>

text \<open>
  With a drive that follows the ATA protocol, \<^verbatim>\<open>disk_read_block\<close> on the kernel's disk terminates with 0,
  the buffer then holds the bytes of the \<open>n\<close> sectors from \<open>lba\<close> on, no other byte of memory has changed and the
  drive is idle again.  On any other disk pointer it returns \<^verbatim>\<open>-EIO\<close> and does nothing.
\<close>

theorem disk_read_block_reads:
  assumes "ata_disk hw idle img" "idle (device s)" "lba + n \<le> 2 ^ 28" "0 < n" "n < 256"
  shows "(\<exists>d'. idle d' \<and> disk_read_block lm hw (disk_at lm) (of_nat lba) (int n) buf s = Some (0, s\<lparr>device := d',
      memory := (\<lambda>a. if in_region buf (512 * n) a then disk_byte img (512 * lba + unat (a - buf)) else memory s a)\<rparr>))
    \<and> (idisk \<noteq> disk_at lm \<longrightarrow> disk_read_block lm hw idisk (of_nat lba) (int n) buf s = Some (- EIO, s))"
  using disk_read_block_image[OF assms] by (simp add: disk_read_block_def)

text \<open>A machine at power-on with a drive, for concrete instances.\<close>

definition demo_links :: linkmap where
  "demo_links = \<lparr>idt_descriptors_at = 0x200000, idtr_descriptors_at = 0x201000, no_interrupt_at = 0x110000,
     int21h_at = 0x110040, disk_at = 0x202000, colon_slash_at = 0x203000\<rparr>"

definition demo_machine :: "drive iostate" where
  "demo_machine = \<lparr>memory = \<lambda>_. 0, video_mem = 0, terminal_row = 0, terminal_col = 0, kernel_heap = four_blocks,
     current_directory = 0, cr3 = 0, paging_on = False, idtr = (0, 0), interrupts_on = False,
     device = \<lparr>regs = \<lambda>_. 0, pending = []\<rparr>\<rparr>"

theorem disk_read_block_reads_witness:
  "\<exists>s'. disk_read_block demo_links (drive_ports (\<lambda>sec k. of_nat (sec + k))) 0x202000 3 2 0x5000 demo_machine = Some (0, s')
     \<and> memory s' 0x5201 = 5 \<and> memory s' 0x5400 = 0"
  using disk_read_block_reads[OF drive_is_ata_disk, of demo_machine 3 2 demo_links "\<lambda>sec k. of_nat (sec + k)" "0x5000" 0]
  by (auto simp: demo_machine_def demo_links_def in_region_def disk_byte_def)

end
