(* ===== verification/Streamer.thy ===== *)
theory Streamer
  imports Disk
begin

text \<open>
  \<^verbatim>\<open>src/src/disk/streamer.c\<close> and \<^verbatim>\<open>streamer.h\<close>: byte streams over the disk.  A stream is the 8 bytes of its struct
  (\<^verbatim>\<open>pos\<close> at offset 0, \<^verbatim>\<open>disk\<close> at offset 4).  The sector buffer of \<^verbatim>\<open>diskstreamer_read\<close> is a local array; the
  compiler and the stack decide where it lies, so its address at each depth of the recursion is the parameter
  \<open>buf_at\<close>, and bytes read past its end are whatever the memory behind it holds.

  The lemmas give the exact effect of one round, that a read which starts at a sector boundary or stays
  inside a sector returns the bytes of the disk, and what a read that crosses a boundary returns instead.
\<close>

subsection \<open>Operations\<close>

definition diskstreamer_new ::
    "'l linkmap_scheme \<Rightarrow> int \<Rightarrow> ('d, 'a) iostate_scheme \<Rightarrow> u32 \<times> ('d, 'a) iostate_scheme" where
  "diskstreamer_new lm disk_id s =
     (let dsk = disk_get lm disk_id
      in if dsk = NULL then (NULL, s)
         else let (streamer, s1) = kzalloc 8 s;
                  m1 = store32 (memory s1) streamer 0;
                  m2 = store32 m1 (streamer + 4) dsk
              in (streamer, s1\<lparr>memory := m2\<rparr>))"

definition diskstreamer_seek ::
    "u32 \<Rightarrow> int \<Rightarrow> ('d, 'a) iostate_scheme \<Rightarrow> int \<times> ('d, 'a) iostate_scheme" where
  "diskstreamer_seek stream pos s = (0, s\<lparr>memory := store32 (memory s) stream (word_of_int pos)\<rparr>)"

function stream_copy :: "mem \<Rightarrow> u32 \<Rightarrow> u32 \<Rightarrow> int \<Rightarrow> int \<Rightarrow> int \<Rightarrow> mem" where
  "stream_copy m dst buf offset total_to_read i =
     (if i < total_to_read
      then stream_copy (m(dst := m (buf + word_of_int (offset + i)))) (dst + 1) buf offset total_to_read (i + 1)
      else m)"
  by pat_completeness auto
termination
  by (relation "measure (\<lambda>(m, dst, buf, off, n, i). nat (n - i))") auto

declare stream_copy.simps [simp del]

function diskstreamer_read ::
    "'l linkmap_scheme \<Rightarrow> 'd ports \<Rightarrow> (nat \<Rightarrow> u32) \<Rightarrow> nat \<Rightarrow> u32 \<Rightarrow> u32 \<Rightarrow> int \<Rightarrow> ('d, 'a) iostate_scheme \<Rightarrow>
     (int \<times> ('d, 'a) iostate_scheme) option" where
  "diskstreamer_read lm hw buf_at depth stream dst nbytes s =
     (let pos = sint (load32 (memory s) stream);
          sector = pos sdiv RAOS_SECTOR_SIZE;
          offset = pos smod RAOS_SECTOR_SIZE;
          buf = buf_at depth
      in do {
        (res, s1) \<leftarrow> disk_read_block lm hw (load32 (memory s) (stream + 4)) (word_of_int sector) 1 buf s;
        if res < 0 then Some (res, s1)
        else let total_to_read = (if nbytes > RAOS_SECTOR_SIZE then RAOS_SECTOR_SIZE else nbytes);
                 m2 = stream_copy (memory s1) dst buf offset total_to_read 0;
                 m3 = store32 m2 stream (load32 m2 stream + word_of_int total_to_read);
                 s3 = s1\<lparr>memory := m3\<rparr>
             in if nbytes > RAOS_SECTOR_SIZE
                then diskstreamer_read lm hw buf_at (Suc depth) stream (dst + RAOS_SECTOR_SIZE)
                       (nbytes - RAOS_SECTOR_SIZE) s3
                else Some (res, s3)
      })"
  by pat_completeness auto
termination
  by (relation "measure (\<lambda>(lm, hw, buf_at, depth, stream, dst, n, s). nat n)") auto

declare diskstreamer_read.simps [simp del]

definition diskstreamer_close :: "u32 \<Rightarrow> ('d, 'a) iostate_scheme \<Rightarrow> ('d, 'a) iostate_scheme" where
  "diskstreamer_close stream s = kfree stream s"

subsection \<open>Copying out of the sector buffer\<close>

lemma stream_copy_memcpy:
  assumes "k = nat (n - i)" "k < 2 ^ 32"
  shows "stream_copy m dst buf off n i = memcpy m dst (buf + word_of_int (off + i)) (of_nat k)"
  using assms
proof (induction k arbitrary: m dst i)
  case 0
  then show ?case by (simp add: stream_copy.simps memcpy.simps)
next
  case (Suc k)
  have i: "i < n" "k = nat (n - (i + 1))" "k < 2 ^ 32" using Suc.prems by simp_all
  have nz: "(of_nat (Suc k) :: u32) \<noteq> 0"
    using Suc.prems(2) unat_of_nat_u32[of "Suc k"] by (metis nat.distinct(1) unsigned_0)
  have pred: "(of_nat (Suc k) :: u32) - 1 = of_nat k" by simp
  have addr: "buf + word_of_int (off + (i + 1)) = buf + word_of_int (off + i) + 1" by simp
  show ?case
    using i nz Suc.IH[OF i(2,3)]
    unfolding stream_copy.simps[of m dst buf off n i] memcpy.simps[of m dst _ "of_nat (Suc k)"] pred addr
    by (simp add: fun_upd_def)
qed

lemma stream_copy_apply:
  assumes "n < 2 ^ 32" "disjoint_regions dst n (buf + word_of_int off) n \<or> n = 0"
  shows "stream_copy m dst buf off (int n) 0 a =
    (if in_region dst n a then m (buf + word_of_int off + (a - dst)) else m a)"
proof -
  have u: "unat (of_nat n :: u32) = n" using assms(1) by (rule unat_of_nat_u32)
  have "n \<le> unat (dst - (buf + word_of_int off))" using assms(2) by (auto simp: disjoint_regions_def)
  then show ?thesis
    using stream_copy_memcpy[of n "int n" 0 m dst buf off] assms(1)
      memcpy_apply[of dst "buf + word_of_int off" "of_nat n" m a] by (simp add: u)
qed

subsection \<open>One round of a read\<close>

text \<open>
  The caller's area, the stream and the sector buffers do not overlap; the stream is on the kernel's disk at
  position \<open>P\<close>.
\<close>

definition read_areas :: "(nat \<Rightarrow> u32) \<Rightarrow> u32 \<Rightarrow> u32 \<Rightarrow> nat \<Rightarrow> bool" where
  "read_areas buf_at stream dst n \<longleftrightarrow> disjoint_regions stream 8 dst n
     \<and> (\<forall>d. disjoint_regions (buf_at d) 512 stream 8 \<and> disjoint_regions (buf_at d) 512 dst n)"

definition stream_at :: "'l linkmap_scheme \<Rightarrow> mem \<Rightarrow> u32 \<Rightarrow> nat \<Rightarrow> bool" where
  "stream_at lm m stream P \<longleftrightarrow> load32 m stream = of_nat P \<and> load32 m (stream + 4) = disk_at lm"

lemma pos_split:
  assumes "P < 2 ^ 31"
  shows "sint (of_nat P :: u32) sdiv 512 = int (P div 512)" "sint (of_nat P :: u32) smod 512 = int (P mod 512)"
    "(word_of_int (int (P div 512)) :: u32) = of_nat (P div 512)"
proof -
  have "int P sdiv 512 = int (P div 512)" "int P smod 512 = int (P mod 512)"
    by (cases "P = 0"; simp add: signed_divide_int_def signed_modulo_int_def zdiv_int zmod_int)+
  then show "sint (of_nat P :: u32) sdiv 512 = int (P div 512)" "sint (of_nat P :: u32) smod 512 = int (P mod 512)"
    using sint_of_nat_small[OF assms] by simp_all
  show "(word_of_int (int (P div 512)) :: u32) = of_nat (P div 512)" by (rule of_int_of_nat_eq)
qed

lemma read_areas_shift:
  assumes "read_areas buf_at stream dst n" "off < n"
  shows "read_areas buf_at stream (dst + of_nat off) (n - off)"
proof -
  have "disjoint_regions (dst + of_nat off) (n - off) q k" if "disjoint_regions q k dst n" "0 < k" for q k
    using disjoint_regions_sub[of dst n q k off "n - off" k] that assms(2) disjoint_regions_sym by simp
  then show ?thesis using assms(1) disjoint_regions_sym unfolding read_areas_def by (metis zero_less_numeral)
qed

lemma stream_round:
  fixes s :: "('d, 'a) iostate_scheme"
  assumes ata: "ata_disk hw idle img" "idle (device s)" and st: "stream_at lm (memory s) stream P" "P < 2 ^ 31"
    and dis: "disjoint_regions stream 8 dst n" "disjoint_regions (buf_at depth) L stream 8"
      "disjoint_regions (buf_at depth) L dst n"
    and r: "0 < r" "r \<le> n" "P mod 512 + r \<le> L" "r = min n 512" and L: "512 \<le> L" "L \<le> 2 ^ 32"
  shows "\<exists>d' m'. idle d' \<and> diskstreamer_read lm hw buf_at depth stream dst (int n) s =
      (if n > 512 then diskstreamer_read lm hw buf_at (Suc depth) stream (dst + 512) (int (n - 512)) (s\<lparr>device := d', memory := m'\<rparr>)
       else Some (0, s\<lparr>device := d', memory := m'\<rparr>))
    \<and> (\<forall>k < r. m' (dst + of_nat k) = (if P mod 512 + k < 512 then disk_byte img (P + k)
         else memory s (buf_at depth + of_nat (P mod 512 + k)))) \<and> stream_at lm m' stream (P + r)
    \<and> (\<forall>a. \<not> in_region dst r a \<longrightarrow> \<not> in_region stream 4 a \<longrightarrow> \<not> in_region (buf_at depth) 512 a \<longrightarrow> m' a = memory s a)"
proof -
  let ?buf = "buf_at depth" and ?off = "P mod 512"
  let ?byte = "\<lambda>k. if ?off + k < 512 then disk_byte img (P + k) else memory s (?buf + of_nat (?off + k))"
  have lba: "P div 512 + 1 \<le> 2 ^ 28" using st(2) by simp
  obtain d' where d': "idle d'" "disk_read_block lm hw (disk_at lm) (of_nat (P div 512)) (int 1) ?buf s = Some (0, s\<lparr>device := d',
    memory := (\<lambda>a. if in_region ?buf 512 a then disk_byte img (512 * (P div 512) + unat (a - ?buf)) else memory s a)\<rparr>)"
    using disk_read_block_image[OF ata lba, of lm ?buf] by auto
  define m1 where "m1 = (\<lambda>a. if in_region ?buf 512 a then disk_byte img (512 * (P div 512) + unat (a - ?buf)) else memory s a)"
  define m2 where "m2 = stream_copy m1 dst ?buf (int ?off) (int r) 0"
  define m3 where "m3 = store32 m2 stream (load32 m2 stream + of_nat r)"
  have r32: "r < 2 ^ 32" using r(4) by simp
  have src: "disjoint_regions dst r (?buf + of_nat ?off) r"
    using disjoint_regions_sub[OF dis(3) r(3,2) r(1,1)] disjoint_regions_sym by blast
  have m2: "m2 a = (if in_region dst r a then m1 (?buf + of_nat ?off + (a - dst)) else m1 a)" for a
    unfolding m2_def using stream_copy_apply[OF r32, of dst ?buf "int ?off" m1 a] src by simp
  have copied: "m2 (dst + of_nat k) = ?byte k" if "k < r" for k
  proof -
    have k: "unat (of_nat k :: u32) = k" using that r32 by (intro unat_of_nat_u32) simp
    have "unat (of_nat ?off + of_nat k :: u32) = ?off + k"
      using that r(3) L(2) unat_of_nat_u32[of "?off + k"] by simp
    moreover have "512 * (P div 512) + (?off + k) = P + k" by simp
    ultimately have "m1 (?buf + of_nat ?off + of_nat k) = ?byte k"
      by (simp add: m1_def in_region_def add.assoc)
    then show ?thesis using that k by (simp add: m2 in_region_def add.assoc[symmetric])
  qed
  have keep: "m2 a = memory s a" if "\<not> in_region dst r a" "\<not> in_region ?buf 512 a" for a
    using that by (simp add: m2 m1_def)
  have in_stream: "\<not> in_region dst r a \<and> \<not> in_region ?buf 512 a" if "in_region stream 8 a" for a
  proof
    have "\<not> in_region dst n a"
      using disjoint_regionsD[of dst n stream 8 a] dis(1) that disjoint_regions_sym by blast
    then show "\<not> in_region dst r a" using r(2) by (simp add: in_region_def)
    have "\<not> in_region ?buf L a" using dis(2) that by (rule disjoint_regionsD)
    then show "\<not> in_region ?buf 512 a" using L(1) by (simp add: in_region_def)
  qed
  have s0: "in_region stream 8 a" if "in_region stream 4 a" for a using that by (simp add: in_region_def)
  have s4: "in_region stream 8 a" if "in_region (stream + 4) 4 a" for a
    using in_region_sub[of stream 4 4 a 8] that by simp
  have pos: "load32 m2 stream = of_nat P" "load32 m2 (stream + 4) = disk_at lm"
    using st(1) load32_cong[of stream m2 "memory s"] load32_cong[of "stream + 4" m2 "memory s"] keep in_stream s0 s4
    unfolding stream_at_def by metis+
  have "disjoint_regions stream 4 (stream + 4) 4" by (simp add: disjoint_regions_def)
  then have "stream_at lm m3 stream (P + r)"
    using pos by (simp add: stream_at_def m3_def load32_store32_other)
  moreover have "m3 (dst + of_nat k) = ?byte k" if "k < r" for k
  proof -
    have "unat (of_nat k :: u32) = k" using that r32 by (intro unat_of_nat_u32) simp
    then have "in_region dst n (dst + of_nat k)" using that r(2) by simp
    then have "\<not> in_region stream 8 (dst + of_nat k)" by (rule disjoint_regionsD[OF dis(1)])
    then have "\<not> in_region stream 4 (dst + of_nat k)" using s0 by blast
    then show ?thesis using copied[OF that] by (simp add: m3_def store32_outside)
  qed
  moreover have "m3 a = memory s a" if "\<not> in_region dst r a" "\<not> in_region stream 4 a" "\<not> in_region ?buf 512 a" for a
    using that keep by (simp add: m3_def store32_outside)
  moreover have "diskstreamer_read lm hw buf_at depth stream dst (int n) s =
      (if n > 512 then diskstreamer_read lm hw buf_at (Suc depth) stream (dst + 512) (int (n - 512)) (s\<lparr>device := d', memory := m3\<rparr>)
       else Some (0, s\<lparr>device := d', memory := m3\<rparr>))"
  proof -
    have tot: "(if int n > 512 then 512 else int n) = int r" using r(4) by auto
    show ?thesis
      using st d'(2) unfolding diskstreamer_read.simps[of lm hw buf_at depth stream dst "int n"] Let_def tot
      by (simp add: stream_at_def pos_split m1_def[symmetric] m2_def[symmetric] m3_def[symmetric] of_nat_diff)
  qed
  ultimately show ?thesis using d'(1) by blast
qed

subsection \<open>Whole reads\<close>

lemma diskstreamer_read_image:
  fixes s :: "('d, 'a) iostate_scheme"
  assumes "ata_disk hw idle img" "idle (device s)" "stream_at lm (memory s) stream P" "P + n < 2 ^ 31"
    and "read_areas buf_at stream dst n" "0 < n" "P mod 512 = 0 \<or> P mod 512 + n \<le> 512"
  shows "\<exists>d' m'. idle d' \<and> diskstreamer_read lm hw buf_at depth stream dst (int n) s = Some (0, s\<lparr>device := d', memory := m'\<rparr>)
    \<and> (\<forall>k < n. m' (dst + of_nat k) = disk_byte img (P + k)) \<and> stream_at lm m' stream (P + n)
    \<and> (\<forall>a. \<not> in_region dst n a \<longrightarrow> \<not> in_region stream 4 a \<longrightarrow> (\<forall>d. \<not> in_region (buf_at d) 512 a) \<longrightarrow> m' a = memory s a)"
  using assms(2-)
proof (induction n arbitrary: P dst s depth rule: less_induct)
  case (less n)
  let ?r = "min n 512"
  have P: "P < 2 ^ 31" and r: "0 < ?r" "?r \<le> n" "P mod 512 + ?r \<le> 512" using less.prems by auto
  have ar0: "disjoint_regions stream 8 dst n" "disjoint_regions (buf_at depth) 512 stream 8"
    "disjoint_regions (buf_at depth) 512 dst n" using less.prems(4) by (auto simp: read_areas_def)
  obtain d1 m1 where round: "idle d1"
    "diskstreamer_read lm hw buf_at depth stream dst (int n) s =
      (if n > 512 then diskstreamer_read lm hw buf_at (Suc depth) stream (dst + 512) (int (n - 512)) (s\<lparr>device := d1, memory := m1\<rparr>)
       else Some (0, s\<lparr>device := d1, memory := m1\<rparr>))"
    "\<And>k. k < ?r \<Longrightarrow> m1 (dst + of_nat k) = (if P mod 512 + k < 512 then disk_byte img (P + k)
       else memory s (buf_at depth + of_nat (P mod 512 + k)))" "stream_at lm m1 stream (P + ?r)"
    "\<And>a. \<not> in_region dst ?r a \<Longrightarrow> \<not> in_region stream 4 a \<Longrightarrow> \<not> in_region (buf_at depth) 512 a \<Longrightarrow> m1 a = memory s a"
    using stream_round[where buf_at = buf_at and depth = depth, OF assms(1) less.prems(1,2) P ar0 r refl] by auto
  have r0: "P mod 512 + k < 512" if "k < ?r" for k using that r(3) by linarith
  show ?case
  proof (cases "n > 512")
    case False
    then have "?r = n" by simp
    then show ?thesis using round r0 False by (intro exI[of _ d1] exI[of _ m1]) simp
  next
    case True
    then have r512: "?r = 512" by simp
    have al: "(P + 512) mod 512 = 0" using less.prems(6) True by auto
    have ar: "read_areas buf_at stream (dst + 512) (n - 512)"
      using read_areas_shift[OF less.prems(4), of 512] True by simp
    obtain d' m' where rest: "idle d'"
      "diskstreamer_read lm hw buf_at (Suc depth) stream (dst + 512) (int (n - 512)) (s\<lparr>device := d1, memory := m1\<rparr>) =
        Some (0, s\<lparr>device := d', memory := m'\<rparr>)"
      "\<And>k. k < n - 512 \<Longrightarrow> m' (dst + 512 + of_nat k) = disk_byte img (P + 512 + k)"
      "stream_at lm m' stream (P + 512 + (n - 512))"
      "\<And>a. \<not> in_region (dst + 512) (n - 512) a \<Longrightarrow> \<not> in_region stream 4 a \<Longrightarrow>
          (\<forall>d. \<not> in_region (buf_at d) 512 a) \<Longrightarrow> m' a = m1 a"
      using less.IH[of "n - 512" "s\<lparr>device := d1, memory := m1\<rparr>" "P + 512" "dst + 512" "Suc depth"]
        round(1,4) r512 less.prems(3) True ar al by auto
    have n32: "n < 2 ^ 32" using less.prems(3) by simp
    have dis: "disjoint_regions stream 8 dst n" "\<And>d. disjoint_regions (buf_at d) 512 dst n"
      using less.prems(4) by (auto simp: read_areas_def)
    have bytes: "m' (dst + of_nat k) = disk_byte img (P + k)" if k: "k < n" for k
    proof (cases "k < 512")
      case False
      then have "dst + of_nat k = dst + 512 + of_nat (k - 512)" by (simp add: of_nat_diff)
      then show ?thesis using rest(3)[of "k - 512"] False k by simp
    next
      case True
      have u: "unat (of_nat k :: u32) = k" using k n32 by (intro unat_of_nat_u32) simp
      have inn: "in_region dst n (dst + of_nat k)" using u k by simp
      have "\<not> in_region (dst + 512) (n - 512) (dst + of_nat k)"
      proof -
        have "dst + of_nat k - (dst + 512) = of_nat k - 512" by simp
        moreover have "unat (of_nat k - 512 :: u32) = k + 2 ^ 32 - 512"
          using u True by (simp add: unat_sub_if')
        ultimately show ?thesis using n32 by (simp add: in_region_def)
      qed
      moreover have "\<not> in_region stream 4 (dst + of_nat k)"
        using disjoint_regionsD[OF dis(1) inn] by (simp add: in_region_def)
      ultimately show ?thesis
        using rest(5) disjoint_regionsD[OF dis(2) inn] round(3)[of k] r0[of k] r512 True by simp
    qed
    have "m' a = memory s a" if "\<not> in_region dst n a" "\<not> in_region stream 4 a" "\<forall>d. \<not> in_region (buf_at d) 512 a" for a
    proof -
      have "\<not> in_region (dst + 512) (n - 512) a"
        using in_region_sub[of dst 512 "n - 512" a n] that(1) True n32 by auto
      moreover have "\<not> in_region dst ?r a" using that(1) by (simp add: in_region_def)
      ultimately show ?thesis using rest(5) round(5) that by simp
    qed
    then show ?thesis using round(2) rest(1,2,4) bytes True by (intro exI[of _ d'] exI[of _ m']) simp
  qed
qed

subsection \<open>Properties\<close>



text \<open>
  C39.  A short read that starts inside a sector and runs past its end does not continue with the next sector:
  from the boundary on, the caller gets the bytes that lie behind the 512-byte local buffer in memory, while the
  position advances as if all had been read.
\<close>

theorem diskstreamer_read_crossing:
  fixes s :: "('d, 'a) iostate_scheme"
  assumes "ata_disk hw idle img" "idle (device s)" "stream_at lm (memory s) stream P" "P < 2 ^ 31"
    and "disjoint_regions stream 8 dst n" "disjoint_regions (buf_at depth) 1024 stream 8"
      "disjoint_regions (buf_at depth) 1024 dst n"
    and "n \<le> 512" "512 < P mod 512 + n"
  shows "\<exists>d' m'. diskstreamer_read lm hw buf_at depth stream dst (int n) s = Some (0, s\<lparr>device := d', memory := m'\<rparr>)
    \<and> (\<forall>k < n. m' (dst + of_nat k) = (if P mod 512 + k < 512 then disk_byte img (P + k)
         else memory s (buf_at depth + of_nat (P mod 512 + k)))) \<and> stream_at lm m' stream (P + n)"
proof -
  have "0 < n" using assms(9) by (cases n) auto
  moreover have "P mod 512 + n \<le> 1024" using assms(8) mod_less_divisor[of 512 P] by linarith
  ultimately obtain d' m' where
    "diskstreamer_read lm hw buf_at depth stream dst (int n) s = Some (0, s\<lparr>device := d', memory := m'\<rparr>)"
    "\<forall>k < n. m' (dst + of_nat k) = (if P mod 512 + k < 512 then disk_byte img (P + k)
         else memory s (buf_at depth + of_nat (P mod 512 + k)))" "stream_at lm m' stream (P + n)"
    using stream_round[where buf_at = buf_at and depth = depth, OF assms(1-7), of n] assms(8) by auto
  then show ?thesis by blast
qed

theorem diskstreamer_read_crossing_witness:
  "\<exists>d' m'. diskstreamer_read demo_links (drive_ports (\<lambda>sec k. 1)) (\<lambda>_. 0x9000) 0 0x4000 0x5000 4
      (demo_machine\<lparr>memory := store32 (store32 (\<lambda>_. 0) 0x4000 510) 0x4004 0x202000\<rparr>) =
        Some (0, demo_machine\<lparr>device := d', memory := m'\<rparr>) \<and> m' 0x5001 = 1 \<and> m' 0x5002 = 0"
proof -
  let ?m = "store32 (store32 (\<lambda>_. 0) 0x4000 510) 0x4004 0x202000 :: mem"
  have "disjoint_regions (0x4004 :: u32) 4 0x4000 4" by (simp add: disjoint_regions_def)
  then have "stream_at demo_links ?m 0x4000 510"
    by (simp add: stream_at_def demo_links_def load32_store32_other)
  then obtain d' m' where
    "diskstreamer_read demo_links (drive_ports (\<lambda>sec k. 1)) (\<lambda>_. 0x9000) 0 0x4000 0x5000 (int 4)
      (demo_machine\<lparr>memory := ?m\<rparr>) = Some (0, demo_machine\<lparr>device := d', memory := m'\<rparr>)"
    "\<forall>k < 4. m' (0x5000 + of_nat k) = (if 510 + k < 512 then disk_byte (\<lambda>sec k. 1) (510 + k) else ?m (0x9000 + of_nat (510 + k)))"
    using diskstreamer_read_crossing[where s = "demo_machine\<lparr>memory := ?m\<rparr>" and lm = demo_links and stream = "0x4000"
        and P = 510 and n = 4 and buf_at = "\<lambda>_. 0x9000" and dst = "0x5000" and depth = 0,
        OF drive_is_ata_disk[of "\<lambda>sec k. 1"]]
    by (auto simp: demo_machine_def disjoint_regions_def)
  moreover from this(2)[rule_format, of 1] this(2)[rule_format, of 2] have "m' 0x5001 = 1" "m' 0x5002 = 0"
    by (simp_all add: disk_byte_def store32_outside in_region_def)
  ultimately show ?thesis by auto
qed

end
