(* ===== verification/Pparser.thy ===== *)
theory Pparser
  imports Kheap Io
begin

text \<open>
  \<^verbatim>\<open>src/src/fs/pparser.c\<close> and \<^verbatim>\<open>pparser.h\<close>: parsing \<^verbatim>\<open>0:/bin/file\<close> into a root with a linked list of parts.  The
  structs are bytes of the kernel heap (\<^verbatim>\<open>path_root\<close>: drive number, first part; \<^verbatim>\<open>path_part\<close>: string, next part).
  The path pointer that the C code advances through a \<^verbatim>\<open>char**\<close> is passed and returned.

  \<open>components\<close> is what the loop recognises: the parts up to the first empty one.  \<open>parts_rel\<close> describes a list
  of parts in memory and the pages that hold it.  The lemmas show that \<^verbatim>\<open>path_parse\<close> builds exactly the list of
  the components out of fresh pages, refuses what is not a path without touching memory, and that
  \<^verbatim>\<open>path_free\<close> gives every page back.
\<close>

subsection \<open>Operations\<close>

definition path_valid_format :: "'l linkmap_scheme \<Rightarrow> u32 \<Rightarrow> mem \<Rightarrow> bool" where
  "path_valid_format lm filename m =
     (let len = strnlen m filename RAOS_MAX_PATH
      in 3 \<le> len \<and> isdigit (m filename) \<and> memcmp m (filename + 1) (colon_slash_at lm) 2 = 0)"

definition path_get_drive_by_path :: "'l linkmap_scheme \<Rightarrow> u32 \<Rightarrow> mem \<Rightarrow> int \<times> u32" where
  "path_get_drive_by_path lm path m =
     (if \<not> path_valid_format lm path m then (- EBADPATH, path) else (chtoi (m path), path + 3))"

definition path_create_root :: "int \<Rightarrow> 'a kstate_scheme \<Rightarrow> u32 \<times> 'a kstate_scheme" where
  "path_create_root driver_no s =
     (let (root, s1) = kzalloc 8 s;
          m1 = store32 (memory s1) root (word_of_int driver_no);
          m2 = store32 m1 (root + 4) NULL
      in (root, s1\<lparr>memory := m2\<rparr>))"

partial_function (option) path_part_loop ::
    "u32 \<Rightarrow> u32 \<Rightarrow> int \<Rightarrow> 'a kstate_scheme \<Rightarrow> (int \<times> u32 \<times> 'a kstate_scheme) option" where
  "path_part_loop path_part path i s =
     (if memory s path \<noteq> 47 \<and> memory s path \<noteq> 0
      then path_part_loop path_part (path + 1) (wrap32 (i + 1))
             (s\<lparr>memory := (memory s)(path_part + word_of_int i := memory s path)\<rparr>)
      else Some (i, path, s))"

definition path_get_path_part :: "u32 \<Rightarrow> 'a kstate_scheme \<Rightarrow> (u32 \<times> u32 \<times> 'a kstate_scheme) option" where
  "path_get_path_part path s =
     (let (path_part, s1) = kzalloc RAOS_MAX_PATH s
      in do {
        (i, path1, s2) \<leftarrow> path_part_loop path_part path 0 s1;
        let path2 = (if memory s2 path1 = 47 then path1 + 1 else path1);
        if i = 0 then Some (NULL, path2, kfree path_part s2) else Some (path_part, path2, s2)
      })"

definition path_parse_path_part ::
    "u32 \<Rightarrow> u32 \<Rightarrow> 'a kstate_scheme \<Rightarrow> (u32 \<times> u32 \<times> 'a kstate_scheme) option" where
  "path_parse_path_part last_part path s = do {
     (path_part_str, path1, s1) \<leftarrow> path_get_path_part path s;
     if path_part_str = NULL then Some (NULL, path1, s1)
     else let (part, s2) = kzalloc 8 s1;
              m1 = store32 (memory s2) part path_part_str;
              m2 = store32 m1 (part + 4) NULL;
              m3 = (if last_part \<noteq> NULL then store32 m2 (last_part + 4) part else m2)
          in Some (part, path1, s2\<lparr>memory := m3\<rparr>)
   }"

partial_function (option) path_parts_loop ::
    "u32 \<Rightarrow> u32 \<Rightarrow> 'a kstate_scheme \<Rightarrow> 'a kstate_scheme option" where
  "path_parts_loop part path s =
     (if part \<noteq> NULL
      then Option.bind (path_parse_path_part part path s) (\<lambda>(part', path', s'). path_parts_loop part' path' s')
      else Some s)"

definition path_parse :: "'l linkmap_scheme \<Rightarrow> u32 \<Rightarrow> u32 \<Rightarrow> 'a kstate_scheme \<Rightarrow> (u32 \<times> 'a kstate_scheme) option" where
  "path_parse lm path cur_directory_path s = do {
     len \<leftarrow> strlen (memory s) path;
     if RAOS_MAX_PATH < len then Some (NULL, s)
     else let (drive_no, str_path) = path_get_drive_by_path lm path (memory s)
          in if drive_no < 0 then Some (NULL, s)
             else let (path_root, s1) = path_create_root drive_no s
                  in if path_root = NULL then Some (path_root, s1)
                     else do {
                       (first_part, path1, s2) \<leftarrow> path_parse_path_part NULL str_path s1;
                       if first_part = NULL then Some (path_root, s2)
                       else do {
                         let s3 = s2\<lparr>memory := store32 (memory s2) (path_root + 4) first_part\<rparr>;
                         (part, path2, s4) \<leftarrow> path_parse_path_part first_part path1 s3;
                         s5 \<leftarrow> path_parts_loop part path2 s4;
                         Some (path_root, s5)
                       }
                     }
   }"

partial_function (option) path_free_loop :: "u32 \<Rightarrow> 'a kstate_scheme \<Rightarrow> 'a kstate_scheme option" where
  "path_free_loop part s =
     (if part \<noteq> NULL
      then let next_part = load32 (memory s) (part + 4);
               s1 = kfree (load32 (memory s) part) s;
               s2 = kfree part s1
           in path_free_loop next_part s2
      else Some s)"

definition path_free :: "u32 \<Rightarrow> 'a kstate_scheme \<Rightarrow> 'a kstate_scheme option" where
  "path_free root s = do {
     s1 \<leftarrow> path_free_loop (load32 (memory s) (root + 4)) s;
     Some (kfree root s1)
   }"

subsection \<open>Paths and lists of parts\<close>

function components :: "u8 list \<Rightarrow> u8 list list" where
  "components xs =
     (let c = takeWhile (\<lambda>x. x \<noteq> 47) xs
      in if c = [] then [] else c # components (drop (Suc (length c)) xs))"
  by pat_completeness auto
termination
  by (relation "measure length") (auto simp: takeWhile_eq_Nil_iff intro!: diff_less Nat.gr0I)

declare components.simps [simp del]

fun parts_rel :: "heap \<Rightarrow> mem \<Rightarrow> u32 \<Rightarrow> (nat \<times> nat) list \<Rightarrow> u8 list list \<Rightarrow> bool" where
  "parts_rel h m p [] [] \<longleftrightarrow> p = NULL"
| "parts_rel h m p ((nb, sb) # bs) (c # cs) \<longleftrightarrow> p = block_addr h nb \<and> load32 m p = block_addr h sb
     \<and> cstr_at m (block_addr h sb) c \<and> parts_rel h m (load32 m (p + 4)) bs cs"
| "parts_rel h m p _ _ \<longleftrightarrow> False"

fun part_blocks :: "(nat \<times> nat) list \<Rightarrow> nat list" where
  "part_blocks [] = []"
| "part_blocks ((nb, sb) # bs) = nb # sb # part_blocks bs"

text \<open>A text at \<open>p\<close> that allocations do not touch.\<close>

definition source_text :: "heap \<Rightarrow> (nat \<rightharpoonup> nat) \<Rightarrow> mem \<Rightarrow> u32 \<Rightarrow> u8 list \<Rightarrow> bool" where
  "source_text h A m p xs \<longleftrightarrow> cstr_at m p xs \<and> (\<forall>i \<le> length xs. stable h A (p + of_nat i))"

subsection \<open>Copying one part\<close>

lemma source_text_Cons:
  assumes "source_text h A m p (x # xs)"
  shows "source_text h A m (p + 1) xs" "m p = x" "x \<noteq> 0" "stable h A p"
proof -
  have "stable h A (p + 1 + of_nat i)" if "i \<le> length xs" for i
  proof -
    have "p + 1 + of_nat i = p + of_nat (Suc i)" by simp
    then show ?thesis using assms that unfolding source_text_def by (metis Suc_le_mono length_Cons)
  qed
  moreover have "stable h A (p + of_nat 0)" using assms unfolding source_text_def by blast
  ultimately show "source_text h A m (p + 1) xs" "m p = x" "x \<noteq> 0" "stable h A p"
    using assms by (auto simp: source_text_def)
qed

lemma source_text_drop:
  assumes "source_text h A m p xs" "k \<le> length xs"
  shows "source_text h A m (p + of_nat k) (drop k xs)"
  using assms
proof (induction k arbitrary: p xs)
  case (Suc k)
  then obtain x ys where xs: "xs = x # ys" by (cases xs) auto
  have "source_text h A m (p + 1 + of_nat k) (drop k ys)"
    using source_text_Cons(1)[of h A m p x ys] Suc xs by (intro Suc.IH) auto
  then show ?case using xs by (simp add: algebra_simps)
qed simp

lemma wrap32_small: "0 \<le> i \<Longrightarrow> i < 2 ^ 31 \<Longrightarrow> wrap32 i = i"
proof -
  assume "0 \<le> i" "i < 2 ^ 31"
  then have "wrap32 (int (nat i)) = int (nat i)" using sint_of_nat_small[of "nat i"] by (simp add: wrap32_def nat_less_iff)
  then show ?thesis using \<open>0 \<le> i\<close> by simp
qed

lemma path_part_loop_ok:
  fixes s :: "'a kstate_scheme"
  assumes "source_text h A (memory s) p xs" "b \<in> unused_blocks (nblocks h) A" "k + length xs < 4096"
  defines "c \<equiv> takeWhile (\<lambda>x. x \<noteq> 47) xs" and "buf \<equiv> block_addr h b"
  shows "\<exists>m. path_part_loop buf p (int k) s = Some (int (k + length c), p + of_nat (length c), s\<lparr>memory := m\<rparr>)
    \<and> (\<forall>j < length c. m (buf + of_nat (k + j)) = c ! j)
    \<and> (\<forall>a. (\<forall>j < length c. a \<noteq> buf + of_nat (k + j)) \<longrightarrow> m a = memory s a)"
  using assms(1,3) unfolding c_def
proof (induction xs arbitrary: p k s)
  case Nil
  then show ?case by (subst path_part_loop.simps) (auto simp: source_text_def intro: exI[of _ "memory s"])
next
  case (Cons x xs)
  note src = source_text_Cons[OF Cons.prems(1)]
  show ?case
  proof (cases "x = 47")
    case True
    then show ?thesis using src by (subst path_part_loop.simps) (auto intro: exI[of _ "memory s"])
  next
    case False
    define s1 where "s1 = s\<lparr>memory := (memory s)(buf + of_nat k := x)\<rparr>"
    have inb: "in_blocks h b 1 (buf + of_nat j)" if "j < 4096" for j
      using that unat_of_nat_u32[of j] by (simp add: in_blocks_def buf_def)
    have "source_text h A (memory s1) (p + 1) xs"
    proof -
      have "memory s1 (p + 1 + of_nat i) = memory s (p + 1 + of_nat i)" if "i \<le> length xs" for i
        using src(1) that inb[of k] assms(2) Cons.prems(2) by (auto simp: s1_def source_text_def stable_def)
      then show ?thesis using src(1) cstr_at_cong unfolding source_text_def by blast
    qed
    from Cons.IH[OF this, of "Suc k"] Cons.prems(2) obtain m where
      m: "path_part_loop buf (p + 1) (int (Suc k)) s1 =
          Some (int (Suc k + length (takeWhile (\<lambda>x. x \<noteq> 47) xs)), p + 1 + of_nat (length (takeWhile (\<lambda>x. x \<noteq> 47) xs)), s1\<lparr>memory := m\<rparr>)"
      "\<forall>j < length (takeWhile (\<lambda>x. x \<noteq> 47) xs). m (buf + of_nat (Suc k + j)) = takeWhile (\<lambda>x. x \<noteq> 47) xs ! j"
      "\<forall>a. (\<forall>j < length (takeWhile (\<lambda>x. x \<noteq> 47) xs). a \<noteq> buf + of_nat (Suc k + j)) \<longrightarrow> m a = memory s1 a"
      by auto
    let ?c = "takeWhile (\<lambda>x. x \<noteq> 47) xs"
    have len: "length ?c \<le> length xs" by (rule length_takeWhile_le)
    have "wrap32 (int k + 1) = int (Suc k)" using Cons.prems(2) wrap32_small[of "int k + 1"] by simp
    then have eq: "path_part_loop buf p (int k) s =
        Some (int (k + length (x # ?c)), p + of_nat (length (x # ?c)), s\<lparr>memory := m\<rparr>)"
      using m(1) src False by (subst path_part_loop.simps) (simp add: s1_def algebra_simps)
    have first: "m (buf + of_nat k) = x"
    proof -
      have "buf + of_nat k \<noteq> buf + of_nat (Suc k + j)" if "j < length ?c" for j
      proof
        assume "buf + of_nat k = buf + of_nat (Suc k + j)"
        then have "unat (of_nat k :: u32) = unat (of_nat (Suc k + j) :: u32)" by (simp only: add_left_cancel)
        moreover have "unat (of_nat k :: u32) = k" "unat (of_nat (Suc k + j) :: u32) = Suc k + j"
          using that len Cons.prems(2) by (intro unat_of_nat_u32; simp)+
        ultimately show False by simp
      qed
      then show ?thesis using m(3) by (simp add: s1_def)
    qed
    have "m (buf + of_nat (k + j)) = (x # ?c) ! j" if "j < length (x # ?c)" for j
      using that first m(2) by (cases j) auto
    moreover have "m a = memory s a" if "\<forall>j < length (x # ?c). a \<noteq> buf + of_nat (k + j)" for a
    proof -
      have "a \<noteq> buf + of_nat k" using that by (auto dest: spec[of _ 0])
      moreover have "a \<noteq> buf + of_nat (Suc k + j)" if "j < length ?c" for j
        using \<open>\<forall>j < length (x # ?c). a \<noteq> buf + of_nat (k + j)\<close>[rule_format, of "Suc j"] that by simp
      ultimately show ?thesis using m(3) by (simp add: s1_def)
    qed
    moreover have tw: "takeWhile (\<lambda>x. x \<noteq> 47) (x # xs) = x # ?c" using False by simp
    ultimately show ?thesis unfolding tw using eq by blast
  qed
qed

lemma block_bytes:
  assumes "in_region (block_addr h b + of_nat off) n a" "off + n \<le> 4096"
  shows "in_blocks h b 1 a"
  using in_region_sub[OF assms(1,2)] by (simp add: in_blocks_def)

lemma took_apart:
  assumes "took h A s B s'" "b \<in> B" "c \<in> B" "b \<noteq> c" "in_blocks h b 1 a"
  shows "\<not> in_blocks h c 1 a"
  using klive_apart[of h s' "with_pages A B" b 1 c 1 a] assms by (simp add: took_def)

lemma took_page:
  assumes "took h A s B s'" "b \<in> B"
  shows "heap_wf h" "b < nblocks h" "block_addr h b \<noteq> NULL" "\<And>a. in_blocks h b 1 a \<Longrightarrow> \<not> in_table h a"
proof -
  have live: "klive h s' (with_pages A B)" "with_pages A B b = Some 1" using assms by (auto simp: took_def)
  show "heap_wf h" "b < nblocks h" using klive_block[OF live] by auto
  then show "block_addr h b \<noteq> NULL" by (rule block_addr_nonzero)
  show "\<not> in_table h a" if "in_blocks h b 1 a" for a
    using blocks_not_in_table[OF klive_block(1,3,4)[OF live] that] .
qed

lemma took_source_text:
  "took h A s B s' \<Longrightarrow> source_text h A (memory s) p xs \<Longrightarrow> source_text h A (memory s') p xs"
  using cstr_at_cong[of xs "memory s'" p "memory s"] by (auto simp: took_def source_text_def)

lemma part_rest:
  assumes "source_text h A m p xs"
  defines "c \<equiv> takeWhile (\<lambda>x. x \<noteq> 47) xs"
  defines "q \<equiv> p + of_nat (length c)"
  shows "source_text h A m (if m q = 47 then q + 1 else q) (drop (Suc (length c)) xs)"
proof -
  have le: "length c \<le> length xs" unfolding c_def by (rule length_takeWhile_le)
  have src: "source_text h A m q (drop (length c) xs)" unfolding q_def using assms(1) le by (rule source_text_drop)
  show ?thesis
  proof (cases "drop (length c) xs")
    case Nil
    then have "m q = 0" "drop (Suc (length c)) xs = []" using src by (auto simp: source_text_def)
    then show ?thesis using src Nil by simp
  next
    case (Cons x ys)
    have "x = 47" using Cons takeWhile_dropWhile_id[of "\<lambda>x. x \<noteq> 47" xs] hd_dropWhile[of "\<lambda>x. x \<noteq> 47" xs]
      by (auto simp: dropWhile_eq_drop c_def)
    moreover have "drop (Suc (length c)) xs = ys" using Cons by (metis drop_Suc list.sel(3) tl_drop)
    ultimately show ?thesis using source_text_Cons[of h A m q x ys] src Cons by simp
  qed
qed

text \<open>
  One part: an empty one costs nothing, another one a page that holds it; pages that were held keep their bytes.
\<close>

lemma path_get_path_part_ok:
  fixes s :: "'a kstate_scheme"
  assumes took: "took h A s0 B s" and src: "source_text h A (memory s0) p xs" and len: "length xs < 128"
    and room: "unused_blocks (nblocks h) A - B \<noteq> {}"
  defines "c \<equiv> takeWhile (\<lambda>x. x \<noteq> 47) xs"
  shows "\<exists>q p' s' B'. path_get_path_part p s = Some (q, p', s') \<and> source_text h A (memory s0) p' (drop (Suc (length c)) xs)
    \<and> took h A s0 B' s' \<and> (\<forall>b \<in> B. \<forall>a. in_blocks h b 1 a \<longrightarrow> memory s' a = memory s a)
    \<and> (if c = [] then q = NULL \<and> B' = B
       else \<exists>b. q = block_addr h b \<and> b \<notin> B \<and> b \<in> unused_blocks (nblocks h) A \<and> B' = insert b B
              \<and> cstr_at (memory s') (block_addr h b) c)"
proof -
  obtain b m1 where kz: "kzalloc 128 s = (block_addr h b, s\<lparr>memory := m1\<rparr>)" and t1: "took h A s0 (insert b B) (s\<lparr>memory := m1\<rparr>)"
    and b: "b \<notin> B" "b \<in> unused_blocks (nblocks h) A"
    and zero: "\<And>a. in_region (block_addr h b) 128 a \<Longrightarrow> m1 a = 0"
    and keep1: "\<And>a. \<not> in_table h a \<Longrightarrow> \<not> in_blocks h b 1 a \<Longrightarrow> m1 a = memory s a"
    using took_kzalloc[OF took room, of 128] by auto
  let ?buf = "block_addr h b"
  have src1: "source_text h A (memory (s\<lparr>memory := m1\<rparr>)) p xs" using took_source_text[OF t1 src] .
  obtain m2 where loop: "path_part_loop ?buf p 0 (s\<lparr>memory := m1\<rparr>) = Some (int (length c), p + of_nat (length c), s\<lparr>memory := m2\<rparr>)"
    and copied: "\<And>j. j < length c \<Longrightarrow> m2 (?buf + of_nat j) = c ! j"
    and keep2: "\<And>a. (\<forall>j < length c. a \<noteq> ?buf + of_nat j) \<Longrightarrow> m2 a = m1 a"
    using path_part_loop_ok[OF src1 b(2), of 0] len by (auto simp: c_def)
  have lc: "length c < 128" using length_takeWhile_le[of "\<lambda>x. x \<noteq> 47" xs] len by (simp add: c_def)
  have inb: "in_blocks h b 1 (?buf + of_nat j)" if "j < 4096" for j
    using that unat_of_nat_u32[of j] by (simp add: in_blocks_def)
  have only: "in_blocks h b 1 a" if ne: "m2 a \<noteq> m1 a" for a
  proof -
    obtain j where "j < length c" "a = ?buf + of_nat j" using keep2[of a] ne by blast
    then show ?thesis using inb[of j] lc by simp
  qed
  have t2: "took h A s0 (insert b B) (s\<lparr>memory := m2\<rparr>)"
  proof -
    have "\<exists>b' \<in> insert b B. in_blocks h b' 1 a" if "m2 a \<noteq> m1 a" for a
      using only[OF that] by blast
    then show ?thesis using took_write[OF t1, of m2] by simp
  qed
  have keep: "m2 a = memory s a" if "c' \<in> B" "in_blocks h c' 1 a" for c' a
  proof -
    have "\<not> in_blocks h b 1 a" using took_apart[OF t1, of c' b a] that b(1) by auto
    moreover have "\<not> in_table h a" using took_page(4)[OF t1, of c' a] that by simp
    ultimately show ?thesis using keep1[of a] only[of a] by metis
  qed
  define p' where "p' = (if m2 (p + of_nat (length c)) = 47 then p + of_nat (length c) + 1 else p + of_nat (length c))"
  have "stable h A (p + of_nat (length c))"
    using src length_takeWhile_le[of "\<lambda>x. x \<noteq> 47" xs] by (simp add: source_text_def c_def)
  then have "m2 (p + of_nat (length c)) = memory s0 (p + of_nat (length c))" using t2 by (simp add: took_def)
  then have rest: "source_text h A (memory s0) p' (drop (Suc (length c)) xs)"
    using part_rest[OF src] unfolding p'_def c_def by (simp only:)
  show ?thesis
  proof (cases "c = []")
    case True
    have "path_get_path_part p s = Some (NULL, p', kfree ?buf (s\<lparr>memory := m2\<rparr>))"
      using kz loop True by (simp add: path_get_path_part_def p'_def)
    moreover have "memory (kfree ?buf (s\<lparr>memory := m2\<rparr>)) a = memory s a" if "c' \<in> B" "in_blocks h c' 1 a" for c' a
      using took_kfree(2)[OF t2 b(1), of a] keep[OF that] took_page(4)[OF took that(1), of a] that(2) by simp
    ultimately show ?thesis using rest took_kfree(1)[OF t2 b(1)] True by auto
  next
    case False
    have "path_get_path_part p s = Some (?buf, p', s\<lparr>memory := m2\<rparr>)"
      using kz loop False by (simp add: path_get_path_part_def p'_def)
    moreover have "cstr_at m2 ?buf c"
    proof -
      have "m2 (?buf + of_nat (length c)) = 0"
      proof -
        have u: "unat (of_nat j :: u32) = j" if "j \<le> length c" for j using that lc by (intro unat_of_nat_u32) simp
        have "?buf + of_nat (length c) \<noteq> ?buf + of_nat j" if "j < length c" for j
          using u[of j] u[of "length c"] that by (metis add_left_cancel less_irrefl less_imp_le order_refl)
        then have "m2 (?buf + of_nat (length c)) = m1 (?buf + of_nat (length c))" using keep2 by blast
        then show ?thesis using zero u[of "length c"] lc by simp
      qed
      moreover have "0 \<notin> set c"
        using src set_takeWhileD[of 0 "\<lambda>x. x \<noteq> 47" xs] unfolding c_def source_text_def cstr_at_iff by blast
      ultimately show ?thesis using copied by (simp add: cstr_at_iff)
    qed
    ultimately show ?thesis using rest t2 keep False b by (intro exI[of _ ?buf] exI[of _ p'] exI[of _ "s\<lparr>memory := m2\<rparr>"]) auto
  qed
qed

subsection \<open>Appending parts\<close>

lemma node_cells_apart: "disjoint_regions (p + 4) 4 p 4" "disjoint_regions p 4 (p + 4) 4" for p :: u32
  by (simp_all add: disjoint_regions_def)

text \<open>
  A part struct in the page \<open>nb\<close> for the string in the page \<open>sb\<close>, not yet followed by another.
\<close>

definition last_node :: "heap \<Rightarrow> mem \<Rightarrow> nat \<Rightarrow> nat \<Rightarrow> u8 list \<Rightarrow> bool" where
  "last_node h m nb sb c \<longleftrightarrow> load32 m (block_addr h nb) = block_addr h sb
     \<and> load32 m (block_addr h nb + 4) = NULL \<and> cstr_at m (block_addr h sb) c"

lemma cell_in_block: "in_region (block_addr h b) 4 a \<Longrightarrow> in_blocks h b 1 a"
  "in_region (block_addr h b + 4) 4 a \<Longrightarrow> in_blocks h b 1 a"
  using block_bytes[of h b 0 4 a] block_bytes[of h b 4 4 a] by simp_all

lemma cstr_in_block:
  assumes "length c < 4096" "\<And>a. in_blocks h b 1 a \<Longrightarrow> m' a = m a"
  shows "cstr_at m' (block_addr h b) c = cstr_at m (block_addr h b) c"
proof (rule cstr_at_cong)
  fix i assume "i \<le> length c"
  then have "unat (of_nat i :: u32) = i" "i < 4096" using assms(1) by (auto intro!: unat_of_nat_u32)
  then show "m' (block_addr h b + of_nat i) = m (block_addr h b + of_nat i)"
    by (intro assms(2)) (simp add: in_blocks_def)
qed

lemma path_parse_path_part_ok:
  fixes s :: "'a kstate_scheme"
  assumes took: "took h A s0 B s" and src: "source_text h A (memory s0) p xs" and len: "length xs < 128"
    and room: "2 \<le> card (unused_blocks (nblocks h) A - B)" and lst: "lp = NULL \<or> (\<exists>lb \<in> B. lp = block_addr h lb)"
  defines "c \<equiv> takeWhile (\<lambda>x. x \<noteq> 47) xs"
  shows "\<exists>q p' s' B'. path_parse_path_part lp p s = Some (q, p', s')
    \<and> source_text h A (memory s0) p' (drop (Suc (length c)) xs) \<and> took h A s0 B' s'
    \<and> (if c = [] then q = NULL \<and> B' = B \<and> (\<forall>b \<in> B. \<forall>a. in_blocks h b 1 a \<longrightarrow> memory s' a = memory s a)
       else \<exists>nb sb. q = block_addr h nb \<and> B' = insert nb (insert sb B) \<and> nb \<noteq> sb \<and> nb \<notin> B \<and> sb \<notin> B
          \<and> {nb, sb} \<subseteq> unused_blocks (nblocks h) A \<and> last_node h (memory s') nb sb c
          \<and> (lp \<noteq> NULL \<longrightarrow> load32 (memory s') (lp + 4) = q)
          \<and> (\<forall>b \<in> B. \<forall>a. in_blocks h b 1 a \<longrightarrow> (lp \<noteq> NULL \<longrightarrow> \<not> in_region (lp + 4) 4 a) \<longrightarrow> memory s' a = memory s a))"
proof -
  let ?U = "unused_blocks (nblocks h) A"
  have "?U - B \<noteq> {}" using room card_gt_0_iff[of "?U - B"] by linarith
  from path_get_path_part_ok[OF took src len this] obtain q p' s1 B1 where
    g: "path_get_path_part p s = Some (q, p', s1)" "source_text h A (memory s0) p' (drop (Suc (length c)) xs)"
    "took h A s0 B1 s1" "\<And>b a. b \<in> B \<Longrightarrow> in_blocks h b 1 a \<Longrightarrow> memory s1 a = memory s a"
    and cases: "if c = [] then q = NULL \<and> B1 = B else \<exists>b. q = block_addr h b \<and> b \<notin> B \<and> b \<in> ?U \<and> B1 = insert b B
              \<and> cstr_at (memory s1) (block_addr h b) c" unfolding c_def by blast
  show ?thesis
  proof (cases "c = []")
    case True
    then show ?thesis using g cases by (auto simp: path_parse_path_part_def)
  next
    case False
    then obtain sb where sb: "q = block_addr h sb" "sb \<notin> B" "sb \<in> ?U" "B1 = insert sb B"
      "cstr_at (memory s1) (block_addr h sb) c" using cases by auto
    have t1: "took h A s0 (insert sb B) s1" using g(3) sb(4) by simp
    have "?U - insert sb B \<noteq> {}"
    proof -
      have "card (?U - insert sb B) = card (?U - B - {sb})" by (simp add: insert_Diff_if Diff_insert[symmetric])
      also have "\<dots> = card (?U - B) - 1" using sb by (subst card_Diff_singleton) auto
      finally show ?thesis using room card_gt_0_iff[of "?U - insert sb B"] by linarith
    qed
    from took_kzalloc[OF t1 this, of 8] obtain nb m where
      kz: "kzalloc 8 s1 = (block_addr h nb, s1\<lparr>memory := m\<rparr>)" and t2: "took h A s0 (insert nb (insert sb B)) (s1\<lparr>memory := m\<rparr>)"
      and nb: "nb \<notin> insert sb B" "nb \<in> ?U" and "\<And>a. in_region (block_addr h nb) 8 a \<Longrightarrow> m a = 0"
      and keep: "\<And>a. \<not> in_table h a \<Longrightarrow> \<not> in_blocks h nb 1 a \<Longrightarrow> m a = memory s1 a" by auto
    let ?n = "block_addr h nb"
    define m2 where "m2 = store32 (store32 m ?n (block_addr h sb)) (?n + 4) NULL"
    define m3 where "m3 = (if lp \<noteq> NULL then store32 m2 (lp + 4) ?n else m2)"
    have qn: "q \<noteq> NULL" using took_page(3)[OF t1, of sb] sb(1) by simp
    have eq: "path_parse_path_part lp p s = Some (?n, p', s1\<lparr>memory := m3\<rparr>)"
      using g(1) qn kz sb(1) by (simp add: path_parse_path_part_def m3_def m2_def Let_def)
    have m2_out: "m2 a = m a" if "\<not> in_blocks h nb 1 a" for a
    proof -
      have "\<not> in_region ?n 4 a" "\<not> in_region (?n + 4) 4 a" using that cell_in_block by blast+
      then show ?thesis by (simp add: m2_def store32_outside)
    qed
    have m3_out: "m3 a = m2 a" if "lp \<noteq> NULL \<longrightarrow> \<not> in_region (lp + 4) 4 a" for a
      using that by (simp add: m3_def store32_outside)
    have lp: "\<exists>lb \<in> B. in_blocks h lb 1 a" if "lp \<noteq> NULL" "in_region (lp + 4) 4 a" for a
      using lst that cell_in_block(2) by blast
    have held: "\<not> in_table h a" "\<not> in_blocks h nb 1 a" if "b \<in> insert sb B" "in_blocks h b 1 a" for b a
      using took_page(4)[OF t2, of b a] took_apart[OF t2, of b nb a] that nb(1) by auto
    have old: "m3 a = memory s a" if "b \<in> B" "in_blocks h b 1 a" "lp \<noteq> NULL \<longrightarrow> \<not> in_region (lp + 4) 4 a" for b a
      using m3_out[OF that(3)] m2_out held[of b a] keep[of a] g(4)[OF that(1,2)] that(1,2) by simp
    have str: "m3 a = memory s1 a" if "in_blocks h sb 1 a" for a
    proof -
      have "lp \<noteq> NULL \<longrightarrow> \<not> in_region (lp + 4) 4 a"
        using lp[of a] took_apart[OF t1, of sb _ a] that sb(2) by auto
      then show ?thesis using m3_out m2_out held[of sb a] keep[of a] that by simp
    qed
    have lc: "length c < 4096" using length_takeWhile_le[of "\<lambda>x. x \<noteq> 47" xs] len by (simp add: c_def)
    have node: "m3 a = m2 a" if "in_blocks h nb 1 a" for a
    proof (rule m3_out, intro impI notI)
      assume "lp \<noteq> NULL" "in_region (lp + 4) 4 a"
      then obtain lb where "lb \<in> B" "in_blocks h lb 1 a" using lp by blast
      then show False using took_apart[OF t2, of nb lb a] that nb(1) by auto
    qed
    have "load32 m3 ?n = load32 m2 ?n" "load32 m3 (?n + 4) = load32 m2 (?n + 4)"
      by (rule load32_cong, rule node, erule cell_in_block)+
    then have "last_node h m3 nb sb c"
      using cstr_in_block[OF lc str] sb(5) node_cells_apart[of ?n]
      by (simp add: last_node_def m2_def load32_store32_other)
    moreover have "lp \<noteq> NULL \<longrightarrow> load32 m3 (lp + 4) = ?n" by (simp add: m3_def)
    moreover have "took h A s0 (insert nb (insert sb B)) (s1\<lparr>memory := m3\<rparr>)"
    proof -
      have "\<exists>b \<in> insert nb (insert sb B). in_blocks h b 1 a" if "m3 a \<noteq> m a" for a
        using m2_out[of a] m3_out[of a] lp[of a] that by (metis insertCI)
      then show ?thesis using took_write[OF t2, of m3] by simp
    qed
    moreover have "{nb, sb} \<subseteq> ?U" "nb \<noteq> sb" "nb \<notin> B" using nb sb(3) by auto
    moreover have "\<forall>b \<in> B. \<forall>a. in_blocks h b 1 a \<longrightarrow> (lp \<noteq> NULL \<longrightarrow> \<not> in_region (lp + 4) 4 a) \<longrightarrow>
        memory (s1\<lparr>memory := m3\<rparr>) a = memory s a" using old by simp
    moreover have "memory (s1\<lparr>memory := m3\<rparr>) = m3" by simp
    ultimately show ?thesis unfolding if_not_P[OF False] using eq g(2) sb(2) by metis
  qed
qed

lemma card_diff_add2:
  assumes "{x, y} \<subseteq> U - B" "x \<noteq> y" "finite U"
  shows "card (U - insert x (insert y B)) = card (U - B) - 2"
proof -
  have "U - insert x (insert y B) = (U - B) - {x, y}" by auto
  then show ?thesis using assms by (simp add: card_Diff_subset)
qed

text \<open>The loop appends the remaining components after the last node, in fresh pages.\<close>

lemma path_parts_loop_ok:
  fixes s :: "'a kstate_scheme"
  assumes "took h A s0 B s" "source_text h A (memory s0) p xs" "length xs < 128" "nb \<in> B"
    and "2 * length (components xs) + 2 \<le> card (unused_blocks (nblocks h) A - B)"
    and "load32 (memory s) (block_addr h nb + 4) = NULL"
  shows "\<exists>s' bs. path_parts_loop (block_addr h nb) p s = Some s' \<and> distinct (part_blocks bs)
    \<and> set (part_blocks bs) \<inter> B = {} \<and> took h A s0 (B \<union> set (part_blocks bs)) s'
    \<and> parts_rel h (memory s') (load32 (memory s') (block_addr h nb + 4)) bs (components xs)
    \<and> (\<forall>b \<in> B. \<forall>a. in_blocks h b 1 a \<longrightarrow> \<not> in_region (block_addr h nb + 4) 4 a \<longrightarrow> memory s' a = memory s a)"
  using assms
proof (induction xs arbitrary: p s B nb rule: components.induct)
  case (1 xs)
  let ?U = "unused_blocks (nblocks h) A" and ?c = "takeWhile (\<lambda>x. x \<noteq> 47) xs" and ?p = "block_addr h nb"
  have p0: "?p \<noteq> NULL" using took_page(3)[OF "1.prems"(1,4)] .
  have lst: "?p = NULL \<or> (\<exists>lb \<in> B. ?p = block_addr h lb)" using "1.prems"(4) by blast
  have room: "2 \<le> card (?U - B)" using "1.prems"(5) by simp
  note step = path_parse_path_part_ok[OF "1.prems"(1-3) room lst]
  show ?case
  proof (cases "?c = []")
    case True
    then have comps: "components xs = []" by (simp add: components.simps)
    from step True obtain p' s' where st: "path_parse_path_part ?p p s = Some (NULL, p', s')" "took h A s0 B s'"
      "\<And>b a. b \<in> B \<Longrightarrow> in_blocks h b 1 a \<Longrightarrow> memory s' a = memory s a" by auto
    have "load32 (memory s') (?p + 4) = load32 (memory s) (?p + 4)"
      using st(3)[OF "1.prems"(4)] cell_in_block(2) by (intro load32_cong) blast
    then have "parts_rel h (memory s') (load32 (memory s') (?p + 4)) [] (components xs)"
      using "1.prems"(6) comps by simp
    moreover have "path_parts_loop ?p p s = Some s'"
      using st(1) p0 path_parts_loop.simps[of ?p p s] path_parts_loop.simps[of NULL p' s'] by simp
    ultimately show ?thesis using st(2,3) by (intro exI[of _ s'] exI[of _ "[]"]) simp
  next
    case False
    let ?xs = "drop (Suc (length ?c)) xs"
    have comps: "components xs = ?c # components ?xs" using False by (subst components.simps) (simp add: Let_def)
    from step False p0 obtain n2 sb p' s1 where
      st: "path_parse_path_part ?p p s = Some (block_addr h n2, p', s1)" "source_text h A (memory s0) p' ?xs"
      "took h A s0 (insert n2 (insert sb B)) s1" "n2 \<noteq> sb" "n2 \<notin> B" "sb \<notin> B" "{n2, sb} \<subseteq> ?U"
      "last_node h (memory s1) n2 sb ?c" "load32 (memory s1) (?p + 4) = block_addr h n2"
      "\<And>b a. b \<in> B \<Longrightarrow> in_blocks h b 1 a \<Longrightarrow> \<not> in_region (?p + 4) 4 a \<Longrightarrow> memory s1 a = memory s a" by auto
    let ?B = "insert n2 (insert sb B)"
    have len: "length ?xs < 128" using "1.prems"(3) by simp
    have "card (?U - ?B) = card (?U - B) - 2"
      using st(4-7) by (intro card_diff_add2) auto
    then have room': "2 * length (components ?xs) + 2 \<le> card (?U - ?B)" using "1.prems"(5) comps by simp
    have nx: "load32 (memory s1) (block_addr h n2 + 4) = NULL" using st(8) by (simp add: last_node_def)
    from "1.IH"[OF refl False st(3,2) len insertI1 room' nx] obtain s' bs where
      ih: "path_parts_loop (block_addr h n2) p' s1 = Some s'" "distinct (part_blocks bs)"
      "set (part_blocks bs) \<inter> ?B = {}" "took h A s0 (?B \<union> set (part_blocks bs)) s'"
      "parts_rel h (memory s') (load32 (memory s') (block_addr h n2 + 4)) bs (components ?xs)"
      "\<And>b a. b \<in> ?B \<Longrightarrow> in_blocks h b 1 a \<Longrightarrow> \<not> in_region (block_addr h n2 + 4) 4 a \<Longrightarrow> memory s' a = memory s1 a" by blast
    have away: "\<not> in_region (block_addr h n2 + 4) 4 a" if "b \<in> insert sb B" "in_blocks h b 1 a" for b a
      using took_apart[OF st(3), of b n2 a] that st(4,5) cell_in_block(2)[of h n2 a] by auto
    have head: "load32 (memory s') (?p + 4) = block_addr h n2"
    proof -
      have "load32 (memory s') (?p + 4) = load32 (memory s1) (?p + 4)"
        using ih(6)[of nb] away[of nb] "1.prems"(4) cell_in_block(2) by (intro load32_cong) blast
      then show ?thesis using st(9) by simp
    qed
    have node: "load32 (memory s') (block_addr h n2) = block_addr h sb"
    proof -
      have "load32 (memory s') (block_addr h n2) = load32 (memory s1) (block_addr h n2)"
        using ih(6)[of n2] cell_in_block(1) node_cells_apart(1) disjoint_regionsD
        by (intro load32_cong) blast
      then show ?thesis using st(8) by (simp add: last_node_def)
    qed
    have "length ?c < 4096" using length_takeWhile_le[of "\<lambda>x. x \<noteq> 47" xs] "1.prems"(3) by simp
    then have str: "cstr_at (memory s') (block_addr h sb) ?c"
      using cstr_in_block[of ?c h sb "memory s'" "memory s1"] ih(6)[of sb] away[of sb] st(8) by (auto simp: last_node_def)
    have "parts_rel h (memory s') (load32 (memory s') (?p + 4)) ((n2, sb) # bs) (components xs)"
      unfolding comps head using node str ih(5) by simp
    moreover have "path_parts_loop ?p p s = Some s'"
      using st(1) ih(1) p0 path_parts_loop.simps[of ?p p s] by simp
    moreover have "memory s' a = memory s a" if "b \<in> B" "in_blocks h b 1 a" "\<not> in_region (?p + 4) 4 a" for b a
      using ih(6)[of b a] away[of b a] st(10)[OF that] that by simp
    moreover have "?B \<union> set (part_blocks bs) = B \<union> set (part_blocks ((n2, sb) # bs))" by auto
    ultimately show ?thesis
      using ih(2-4) st(4-6) by (intro exI[of _ s'] exI[of _ "(n2, sb) # bs"]) auto
  qed
qed

subsection \<open>Whole paths\<close>

definition valid_path :: "u8 list \<Rightarrow> bool" where
  "valid_path xs \<longleftrightarrow> 3 \<le> length xs \<and> length xs \<le> 128 \<and> isdigit (xs ! 0) \<and> xs ! 1 = 58 \<and> xs ! 2 = 47"

lemma path_valid_format_iff:
  assumes "cstr_at m p xs" "length xs \<le> 128" "cstr_at m (colon_slash_at lm) [58, 47]"
  shows "path_valid_format lm p m \<longleftrightarrow> valid_path xs"
proof -
  have "unat (strnlen m p 128) = length xs" using strnlen_cstr[OF assms(1), of 128] assms(2) by simp
  then have len: "3 \<le> strnlen m p 128 \<longleftrightarrow> 3 \<le> length xs" by (simp add: word_le_nat_alt)
  have at: "m (p + of_nat i) = xs ! i" if "i < length xs" for i using assms(1) that by (simp add: cstr_at_iff)
  have lit: "m (colon_slash_at lm) = 58" "m (colon_slash_at lm + 1) = 47" using assms(3) by simp_all
  have two: "(\<forall>k < (2::nat). P k) \<longleftrightarrow> P 0 \<and> P 1" for P by (auto simp: less_Suc_eq numeral_2_eq_2)
  have "memcmp m (p + 1) (colon_slash_at lm) 2 = 0 \<longleftrightarrow> m (p + 1) = 58 \<and> m (p + 1 + 1) = 47"
    using lit two[of "\<lambda>k. m (p + 1 + of_nat k) = m (colon_slash_at lm + of_nat k)"] by (simp add: memcmp_eq_0_iff)
  moreover have "m p = xs ! 0" "m (p + 1) = xs ! 1" "m (p + 1 + 1) = xs ! 2" if three: "3 \<le> length xs"
  proof -
    have "0 < length xs" "1 < length xs" "2 < length xs" using three by linarith+
    from at[OF this(1)] at[OF this(2)] at[OF this(3)]
    show "m p = xs ! 0" "m (p + 1) = xs ! 1" "m (p + 1 + 1) = xs ! 2" by (simp_all add: add.assoc)
  qed
  ultimately show ?thesis using len assms(2) by (auto simp: path_valid_format_def valid_path_def Let_def)
qed

lemma path_create_root_ok:
  fixes s :: "'a kstate_scheme"
  assumes "klive h s A" "unused_blocks (nblocks h) A \<noteq> {}"
  shows "\<exists>rb m. path_create_root d s = (block_addr h rb, s\<lparr>memory := m\<rparr>) \<and> took h A s {rb} (s\<lparr>memory := m\<rparr>)
    \<and> rb \<in> unused_blocks (nblocks h) A
    \<and> load32 m (block_addr h rb) = word_of_int d \<and> load32 m (block_addr h rb + 4) = NULL"
proof -
  have U: "unused_blocks (nblocks h) A - {} \<noteq> {}" using assms(2) by simp
  from took_kzalloc[OF took_refl[OF assms(1)] U, of 8] obtain rb m where
    kz: "kzalloc 8 s = (block_addr h rb, s\<lparr>memory := m\<rparr>)" and t: "took h A s {rb} (s\<lparr>memory := m\<rparr>)"
    and u: "rb \<in> unused_blocks (nblocks h) A"
    and "\<And>a. in_region (block_addr h rb) (unat (8 :: u32)) a \<Longrightarrow> m a = 0"
    and "\<And>a. \<not> in_table h a \<Longrightarrow> \<not> in_blocks h rb 1 a \<Longrightarrow> m a = memory s a"
    by auto
  let ?r = "block_addr h rb"
  define m2 where "m2 = store32 (store32 m ?r (word_of_int d)) (?r + 4) NULL"
  have only: "in_blocks h rb 1 a" if "m2 a \<noteq> m a" for a
  proof (rule ccontr)
    assume "\<not> in_blocks h rb 1 a"
    then have "\<not> in_region ?r 4 a" "\<not> in_region (?r + 4) 4 a" using cell_in_block by blast+
    then show False using that by (simp add: m2_def store32_outside)
  qed
  have "took h A s {rb} (s\<lparr>memory := m2\<rparr>)" using took_write[OF t, of m2] only by simp
  moreover have "load32 m2 ?r = word_of_int d" "load32 m2 (?r + 4) = NULL"
    using node_cells_apart[of ?r] by (simp_all add: m2_def load32_store32_other)
  moreover have "path_create_root d s = (?r, s\<lparr>memory := m2\<rparr>)"
    using kz by (simp add: path_create_root_def m2_def Let_def)
  ultimately show ?thesis using u by blast
qed

text \<open>The parse tree in memory: a root in page \<open>rb\<close> and the parts \<open>cs\<close> in the pages \<open>bs\<close>.\<close>

definition path_tree :: "heap \<Rightarrow> mem \<Rightarrow> nat \<Rightarrow> (nat \<times> nat) list \<Rightarrow> int \<Rightarrow> u8 list list \<Rightarrow> bool" where
  "path_tree h m rb bs d cs \<longleftrightarrow> distinct (rb # part_blocks bs)
     \<and> load32 m (block_addr h rb) = word_of_int d
     \<and> parts_rel h m (load32 m (block_addr h rb + 4)) bs cs"

lemma path_parse_invalid:
  assumes "cstr_at (memory s) p xs" "length xs < 2 ^ 32" "cstr_at (memory s) (colon_slash_at lm) [58, 47]" "\<not> valid_path xs"
  shows "path_parse lm p cur s = Some (NULL, s)"
proof -
  have "128 < (of_nat (length xs) :: u32) \<longleftrightarrow> 128 < length xs"
    using assms(2) by (simp add: word_less_nat_alt unat_of_nat_u32)
  then show ?thesis
    using strlen_cstr[OF assms(1)] path_valid_format_iff[OF assms(1) _ assms(3)] assms(4)
    by (simp add: path_parse_def path_get_drive_by_path_def)
qed

lemma digit_drive: "isdigit c \<Longrightarrow> 0 \<le> chtoi c \<and> chtoi c \<le> 9"
  by (simp add: isdigit_def chtoi_def)

lemma path_parse_valid_eq:
  fixes s :: "'a kstate_scheme"
  assumes "cstr_at (memory s) p xs" "cstr_at (memory s) (colon_slash_at lm) [58, 47]" "valid_path xs"
    and "path_create_root (chtoi (xs ! 0)) s = (r, s1)" "r \<noteq> NULL"
    and "path_parse_path_part NULL (p + 3) s1 = Some (q, p1, s2)"
  shows "path_parse lm p cur s = (if q = NULL then Some (r, s2)
    else map_option (\<lambda>s'. (r, s')) (path_parts_loop q p1 (s2\<lparr>memory := store32 (memory s2) (r + 4) q\<rparr>)))"
proof -
  have v: "length xs \<le> 128" "3 \<le> length xs" "isdigit (xs ! 0)" using assms(3) by (simp_all add: valid_path_def)
  have p0: "memory s p = xs ! 0" using assms(1) v(2) by (auto simp: cstr_at_iff dest: spec[of _ 0])
  have "\<not> 128 < (of_nat (length xs) :: u32)"
    using v(1) by (simp add: word_less_nat_alt unat_of_nat_u32)
  moreover have "path_valid_format lm p (memory s)"
    using path_valid_format_iff[OF assms(1) v(1) assms(2)] assms(3) by simp
  moreover have "\<not> chtoi (xs ! 0) < 0" using digit_drive[OF v(3)] by simp
  ultimately show ?thesis
    using assms(4-6) strlen_cstr[OF assms(1)] p0
      path_parts_loop.simps[of q p1 "s2\<lparr>memory := store32 (memory s2) (r + 4) q\<rparr>"]
    by (cases "path_parse_path_part q p1 (s2\<lparr>memory := store32 (memory s2) (r + 4) q\<rparr>)")
       (auto simp: path_parse_def path_get_drive_by_path_def Let_def map_option_bind split: bind_splits)
qed

lemma source_text_skip3:
  assumes "source_text h A m p xs" "3 \<le> length xs"
  shows "source_text h A m (p + 3) (drop 3 xs)"
  using source_text_drop[OF assms] by simp

lemma components_Nil_iff: "components xs = [] \<longleftrightarrow> takeWhile (\<lambda>x. x \<noteq> 47) xs = []"
  by (subst components.simps) (simp add: Let_def)

lemma components_Cons:
  assumes "takeWhile (\<lambda>x. x \<noteq> 47) xs \<noteq> []"
  shows "components xs = takeWhile (\<lambda>x. x \<noteq> 47) xs
    # components (drop (Suc (length (takeWhile (\<lambda>x. x \<noteq> 47) xs))) xs)"
  using assms by (subst components.simps) (simp add: Let_def)

lemma path_parse_ok:
  fixes s :: "'a kstate_scheme"
  assumes live: "klive h s A" and src: "source_text h A (memory s) p xs" and v: "valid_path xs"
    and lit: "cstr_at (memory s) (colon_slash_at lm) [58, 47]"
    and room: "2 * length (components (drop 3 xs)) + 3 \<le> card (unused_blocks (nblocks h) A)"
  shows "\<exists>rb bs s'. path_parse lm p cur s = Some (block_addr h rb, s')
    \<and> took h A s (set (rb # part_blocks bs)) s'
    \<and> path_tree h (memory s') rb bs (chtoi (xs ! 0)) (components (drop 3 xs))"
proof -
  let ?U = "unused_blocks (nblocks h) A" and ?d = "chtoi (xs ! 0)" and ?ys = "drop 3 xs"
  let ?c = "takeWhile (\<lambda>x. x \<noteq> 47) ?ys"
  have "?U \<noteq> {}" using room by (auto simp: card_eq_0_iff)
  from path_create_root_ok[OF live this, of ?d] obtain rb m where
    root: "path_create_root ?d s = (block_addr h rb, s\<lparr>memory := m\<rparr>)" "took h A s {rb} (s\<lparr>memory := m\<rparr>)" "rb \<in> ?U"
    "load32 m (block_addr h rb) = word_of_int ?d" "load32 m (block_addr h rb + 4) = NULL" by blast
  let ?r = "block_addr h rb" and ?s1 = "s\<lparr>memory := m\<rparr>"
  have r0: "?r \<noteq> NULL" using took_page(3)[OF root(2)] by simp
  have len: "3 \<le> length xs" "length ?ys < 128" using v by (auto simp: valid_path_def)
  have src3: "source_text h A (memory s) (p + 3) ?ys" by (rule source_text_skip3[OF src len(1)])
  have card1: "card (?U - {rb}) = card ?U - 1" using root(3) by simp
  have room2: "2 \<le> card (?U - {rb})" using room card1 by simp
  note step = path_parse_path_part_ok[OF root(2) src3 len(2) room2, of NULL]
  have src_s: "cstr_at (memory s) p xs" using src by (simp add: source_text_def)
  note parse = path_parse_valid_eq[OF src_s lit v root(1) r0, of _ _ _ cur]
  show ?thesis
  proof (cases "?c = []")
    case True
    from step True obtain p1 s2 where st: "path_parse_path_part NULL (p + 3) ?s1 = Some (NULL, p1, s2)"
      "took h A s {rb} s2" "\<And>a. in_blocks h rb 1 a \<Longrightarrow> memory s2 a = m a" by auto
    have "load32 (memory s2) ?r = load32 m ?r" "load32 (memory s2) (?r + 4) = load32 m (?r + 4)"
      by (rule load32_cong, rule st(3), erule cell_in_block)+
    then have "path_tree h (memory s2) rb [] ?d (components ?ys)"
      using root(4,5) True by (simp add: path_tree_def components_Nil_iff[THEN iffD2])
    then show ?thesis using parse[OF st(1)] st(2) by (intro exI[of _ rb] exI[of _ "[]"] exI[of _ s2]) simp
  next
    case False
    let ?zs = "drop (Suc (length ?c)) ?ys"
    from step False obtain nb sb p1 s2 where
      st: "path_parse_path_part NULL (p + 3) ?s1 = Some (block_addr h nb, p1, s2)"
      "source_text h A (memory s) p1 ?zs" "took h A s {nb, sb, rb} s2" "nb \<noteq> sb" "nb \<noteq> rb" "sb \<noteq> rb"
      "{nb, sb} \<subseteq> ?U" "last_node h (memory s2) nb sb ?c" "\<And>a. in_blocks h rb 1 a \<Longrightarrow> memory s2 a = m a" by auto
    let ?B = "{nb, sb, rb}" and ?q = "block_addr h nb"
    define s3 where "s3 = s2\<lparr>memory := store32 (memory s2) (?r + 4) ?q\<rparr>"
    have only: "in_region (?r + 4) 4 a" if "memory s3 a \<noteq> memory s2 a" for a
      using that store32_outside[of "?r + 4" a "memory s2" ?q] by (auto simp: s3_def)
    have t3: "took h A s ?B s3" unfolding s3_def
      by (rule took_write[OF st(3)]) (use only cell_in_block(2)[of h rb] in \<open>auto simp: s3_def\<close>)
    have away: "memory s3 a = memory s2 a" if "b \<in> {nb, sb}" "in_blocks h b 1 a" for b a
      using only[of a] cell_in_block(2)[of h rb a] took_apart[OF st(3), of b rb a] that st(5,6) by auto
    have nx: "load32 (memory s3) (?q + 4) = NULL"
    proof -
      have "load32 (memory s3) (?q + 4) = load32 (memory s2) (?q + 4)"
        using away[of nb] cell_in_block(2) by (intro load32_cong) blast
      then show ?thesis using st(8) by (simp add: last_node_def)
    qed
    have comps: "components ?ys = ?c # components ?zs" by (rule components_Cons[OF False])
    have "?U - ?B = (?U - {rb}) - {nb, sb}" by auto
    then have "card (?U - ?B) = card (?U - {rb}) - 2" using st(4-7) by (simp add: card_Diff_subset)
    then have room3: "2 * length (components ?zs) + 2 \<le> card (?U - ?B)" using room card1 comps by simp
    have zs: "length ?zs < 128" using len(2) by simp
    from path_parts_loop_ok[OF t3 st(2) zs insertI1 room3 nx] obtain s' bs where
      lp: "path_parts_loop ?q p1 s3 = Some s'" "distinct (part_blocks bs)" "set (part_blocks bs) \<inter> ?B = {}"
      "took h A s (?B \<union> set (part_blocks bs)) s'"
      "parts_rel h (memory s') (load32 (memory s') (?q + 4)) bs (components ?zs)"
      "\<And>b a. b \<in> ?B \<Longrightarrow> in_blocks h b 1 a \<Longrightarrow> \<not> in_region (?q + 4) 4 a \<Longrightarrow> memory s' a = memory s3 a" by blast
    have q0: "?q \<noteq> NULL" using took_page(3)[OF t3, of nb] by simp
    have out: "memory s' a = memory s3 a" if "b \<in> {sb, rb}" "in_blocks h b 1 a" for b a
    proof -
      have "\<not> in_region (?q + 4) 4 a"
        using cell_in_block(2)[of h nb a] took_apart[OF st(3), of b nb a] that st(4,5) by auto
      then show ?thesis using lp(6)[of b a] that by simp
    qed
    have "load32 (memory s') ?r = load32 (memory s3) ?r" "load32 (memory s') (?r + 4) = load32 (memory s3) (?r + 4)"
      using out[of rb] cell_in_block[of h rb] by (auto intro!: load32_cong)
    moreover have "load32 (memory s2) ?r = load32 m ?r"
      using st(9) cell_in_block(1) by (intro load32_cong) blast
    ultimately have rt: "load32 (memory s') ?r = word_of_int ?d" "load32 (memory s') (?r + 4) = ?q"
      using root(4) node_cells_apart[of ?r] by (simp_all add: s3_def load32_store32_other)
    have node: "load32 (memory s') ?q = block_addr h sb"
    proof -
      have "load32 (memory s') ?q = load32 (memory s3) ?q"
        using lp(6)[of nb] cell_in_block(1)[of h nb] disjoint_regionsD[OF node_cells_apart(1)[of ?q]]
        by (auto intro!: load32_cong)
      moreover have "load32 (memory s3) ?q = load32 (memory s2) ?q"
        using away[of nb] cell_in_block(1)[of h nb] by (auto intro!: load32_cong)
      ultimately show ?thesis using st(8) by (simp add: last_node_def)
    qed
    have "length ?c < 4096" using length_takeWhile_le[of "\<lambda>x. x \<noteq> 47" ?ys] len(2) by simp
    then have "cstr_at (memory s') (block_addr h sb) ?c"
      using cstr_in_block[of ?c h sb "memory s'" "memory s2"] out[of sb] away[of sb] st(8)
      by (auto simp: last_node_def)
    then have "path_tree h (memory s') rb ((nb, sb) # bs) ?d (components ?ys)"
      unfolding path_tree_def comps rt using node lp(2,3,5) st(4-6) by auto
    moreover have "took h A s (set (rb # part_blocks ((nb, sb) # bs))) s'"
      using lp(4) by (simp add: insert_commute)
    moreover have "path_parse lm p cur s = Some (?r, s')"
      using parse[OF st(1)] q0 lp(1) by (simp add: s3_def)
    ultimately show ?thesis by blast
  qed
qed

subsection \<open>Freeing a path\<close>

lemma parts_rel_cong:
  assumes "parts_rel h m p bs cs" "\<And>b a. b \<in> set (part_blocks bs) \<Longrightarrow> in_blocks h b 1 a \<Longrightarrow> m' a = m a"
    "\<And>c. c \<in> set cs \<Longrightarrow> length c < 4096"
  shows "parts_rel h m' p bs cs"
  using assms
proof (induction h m p bs cs rule: parts_rel.induct)
  case (2 h m p nb sb bs c cs)
  have eq: "load32 m' p = load32 m p" "load32 m' (p + 4) = load32 m (p + 4)"
    using "2.prems"(1,2) cell_in_block[of h nb] by (auto intro!: load32_cong)
  have "cstr_at m' (block_addr h sb) c = cstr_at m (block_addr h sb) c"
    by (rule cstr_in_block) (use "2.prems" in auto)
  then show ?case using "2" eq by auto
qed auto

lemma path_free_loop_ok:
  assumes "took h A s0 (B \<union> set (part_blocks bs)) s" "parts_rel h (memory s) p bs cs"
    and "distinct (part_blocks bs)" "set (part_blocks bs) \<inter> B = {}" "\<And>c. c \<in> set cs \<Longrightarrow> length c < 4096"
  shows "\<exists>s'. path_free_loop p s = Some s' \<and> took h A s0 B s'"
  using assms
proof (induction bs arbitrary: p cs s)
  case Nil
  then have "p = NULL" by (cases cs) auto
  then show ?case using Nil by (subst path_free_loop.simps) simp
next
  case (Cons b0 bs)
  obtain nb sb where b0: "b0 = (nb, sb)" by (cases b0)
  obtain c cs' where cs: "cs = c # cs'" using Cons.prems(2) b0 by (cases cs) auto
  note prems = Cons.prems[unfolded b0 cs]
  let ?R = "B \<union> set (part_blocks bs)"
  have ptr: "p = block_addr h nb" "load32 (memory s) p = block_addr h sb"
    "parts_rel h (memory s) (load32 (memory s) (p + 4)) bs cs'" using prems(2) by auto
  have new: "sb \<notin> insert nb ?R" "nb \<notin> ?R" using prems(3,4) by auto
  have t0: "took h A s0 (insert sb (insert nb ?R)) s" using prems(1) by (simp add: insert_commute)
  define s1 where "s1 = kfree (block_addr h sb) s"
  define s2 where "s2 = kfree (block_addr h nb) s1"
  have t1: "took h A s0 (insert nb ?R) s1" unfolding s1_def by (rule took_kfree(1)[OF t0 new(1)])
  have t2: "took h A s0 ?R s2" unfolding s2_def by (rule took_kfree(1)[OF t1 new(2)])
  have same: "memory s2 a = memory s a" if "b \<in> ?R" "in_blocks h b 1 a" for b a
  proof -
    have "\<not> in_table h a" using took_page(4)[OF t2 that] .
    then show ?thesis using took_kfree(2)[OF t0 new(1), of a] took_kfree(2)[OF t1 new(2), of a]
      by (simp add: s2_def s1_def)
  qed
  have "parts_rel h (memory s2) (load32 (memory s) (p + 4)) bs cs'"
    by (rule parts_rel_cong[OF ptr(3)]) (use same prems(5) in auto)
  then have "\<exists>s'. path_free_loop (load32 (memory s) (p + 4)) s2 = Some s' \<and> took h A s0 B s'"
    by (rule Cons.IH[OF t2]) (use prems in auto)
  moreover have "p \<noteq> NULL" using took_page(3)[OF t0, of nb] ptr(1) by simp
  ultimately show ?case using ptr(1,2)
    by (subst path_free_loop.simps) (simp add: Let_def s1_def s2_def)
qed

lemma components_length: "c \<in> set (components xs) \<Longrightarrow> length c \<le> length xs"
proof (induction xs rule: components.induct)
  case (1 xs)
  show ?case
  proof (cases "takeWhile (\<lambda>x. x \<noteq> 47) xs = []")
    case True
    then show ?thesis using "1.prems" by (simp add: components.simps)
  next
    case False
    then show ?thesis
      using "1.prems" "1.IH"[OF refl False] length_takeWhile_le[of "\<lambda>x. x \<noteq> 47" xs]
      by (auto simp: components_Cons[OF False])
  qed
qed

lemma path_free_ok:
  assumes "took h A s0 (set (rb # part_blocks bs)) s" "path_tree h (memory s) rb bs d cs"
    and "\<And>c. c \<in> set cs \<Longrightarrow> length c < 4096"
  shows "\<exists>s'. path_free (block_addr h rb) s = Some s' \<and> took h A s0 {} s'"
proof -
  have tree: "parts_rel h (memory s) (load32 (memory s) (block_addr h rb + 4)) bs cs"
    "distinct (part_blocks bs)" "set (part_blocks bs) \<inter> {rb} = {}" using assms(2) by (auto simp: path_tree_def)
  have t: "took h A s0 ({rb} \<union> set (part_blocks bs)) s" using assms(1) by simp
  from path_free_loop_ok[OF t tree assms(3)] obtain s1 where
    lp: "path_free_loop (load32 (memory s) (block_addr h rb + 4)) s = Some s1" "took h A s0 (insert rb {}) s1" by auto
  have "took h A s0 {} (kfree (block_addr h rb) s1)" by (rule took_kfree(1)[OF lp(2)]) simp
  then show ?thesis using lp(1) by (simp add: path_free_def)
qed

subsection \<open>Properties\<close>

text \<open>A machine with the path \<^verbatim>\<open>0:/a/bc\<close> at 0x200 and the literal \<^verbatim>\<open>":/"\<close> at 0x100.\<close>

definition path_links :: linkmap where
  "path_links = \<lparr>idt_descriptors_at = 0, idtr_descriptors_at = 0, no_interrupt_at = 0, int21h_at = 0, disk_at = 0,
     colon_slash_at = 0x100\<rparr>"

definition demo_path :: "u8 list" where
  "demo_path = [48, 58, 47, 97, 47, 98, 99]"

definition path_demo :: kstate where
  "path_demo = kheap_init (power_on\<lparr>memory := (\<lambda>_. 0)(0x100 := 58, 0x101 := 47, 0x200 := 48, 0x201 := 58, 0x202 := 47,
     0x203 := 97, 0x204 := 47, 0x205 := 98, 0x206 := 99)\<rparr>)"

text \<open>
  C8.  \<^verbatim>\<open>path_parse\<close> of a valid path ends and returns a non-null root in the kernel heap that holds the drive number
  and the list of the path's components, all in freshly taken pages; no byte outside the heap's table and its
  unused blocks changes.
\<close>

theorem path_parse_builds:
  fixes s :: "'a kstate_scheme"
  assumes "klive h s A" "source_text h A (memory s) p xs" "valid_path xs"
    and "cstr_at (memory s) (colon_slash_at lm) [58, 47]"
    and "2 * length (components (drop 3 xs)) + 3 \<le> card (unused_blocks (nblocks h) A)"
  shows "\<exists>rb bs s'. path_parse lm p cur s = Some (block_addr h rb, s') \<and> block_addr h rb \<noteq> NULL
    \<and> path_tree h (memory s') rb bs (chtoi (xs ! 0)) (components (drop 3 xs))
    \<and> klive h s' (with_pages A (set (rb # part_blocks bs)))
    \<and> (\<forall>a. stable h A a \<longrightarrow> memory s' a = memory s a)"
proof -
  from path_parse_ok[OF assms(1-5)] obtain rb bs s' where
    p: "path_parse lm p cur s = Some (block_addr h rb, s')" "took h A s (set (rb # part_blocks bs)) s'"
    "path_tree h (memory s') rb bs (chtoi (xs ! 0)) (components (drop 3 xs))" by blast
  have "block_addr h rb \<noteq> NULL" using took_page(3)[OF p(2), of rb] by simp
  then show ?thesis using p unfolding took_def by blast
qed

text \<open>
  C9.  Parsing and freeing is a round trip on the heap: after \<^verbatim>\<open>path_free\<close> of what \<^verbatim>\<open>path_parse\<close> returned, exactly
  the allocations that were live before are live again.
\<close>

theorem path_parse_free_roundtrip:
  fixes s :: "'a kstate_scheme"
  assumes "klive h s A" "source_text h A (memory s) p xs" "valid_path xs"
    and "cstr_at (memory s) (colon_slash_at lm) [58, 47]"
    and "2 * length (components (drop 3 xs)) + 3 \<le> card (unused_blocks (nblocks h) A)"
  shows "\<exists>r s1 s2. path_parse lm p cur s = Some (r, s1) \<and> path_free r s1 = Some s2 \<and> klive h s2 A
    \<and> (\<forall>a. stable h A a \<longrightarrow> memory s2 a = memory s a)"
proof -
  from path_parse_ok[OF assms(1-5)] obtain rb bs s' where
    p: "path_parse lm p cur s = Some (block_addr h rb, s')" "took h A s (set (rb # part_blocks bs)) s'"
    "path_tree h (memory s') rb bs (chtoi (xs ! 0)) (components (drop 3 xs))" by blast
  have "length c < 4096" if "c \<in> set (components (drop 3 xs))" for c
    using components_length[OF that] assms(3) by (auto simp: valid_path_def)
  from path_free_ok[OF p(2,3) this] p(1) show ?thesis by (auto simp: took_def)
qed

text \<open>
  \<^verbatim>\<open>path_parse\<close> of a text that is not a path (too short or longer than 128 characters, no drive digit, or no
  \<^verbatim>\<open>":/"\<close> after it) returns a null pointer and leaves the machine as it was.
\<close>

theorem path_parse_rejects:
  assumes "cstr_at (memory s) p xs" "length xs < 2 ^ 32" "cstr_at (memory s) (colon_slash_at lm) [58, 47]" "\<not> valid_path xs"
  shows "path_parse lm p cur s = Some (NULL, s)"
  using assms by (rule path_parse_invalid)

lemma demo_memory:
  "\<not> in_region 0x7E00 25600 a \<Longrightarrow> memory path_demo a = ((\<lambda>_. 0)(0x100 := 58, 0x101 := 47, 0x200 := 48, 0x201 := 58,
     0x202 := 47, 0x203 := 97, 0x204 := 47, 0x205 := 98, 0x206 := 99)) a"
  by (simp add: path_demo_def kheap_init_eq memset_eq power_on_def)

lemma demo_live: "klive kernel_heap_layout path_demo Map.empty"
  unfolding path_demo_def by (rule kheap_init_live)

lemma demo_literal: "cstr_at (memory path_demo) (colon_slash_at path_links) [58, 47]"
  by (simp add: path_links_def demo_memory in_region_def)

lemma demo_stable: "a < 0x7E00 \<Longrightarrow> stable kernel_heap_layout Map.empty a"
proof -
  assume a: "a < 0x7E00"
  have "\<not> in_table kernel_heap_layout a"
    using a by (simp add: in_table_def kernel_heap_layout_def nblocks_def in_region_iff_nat word_less_nat_alt)
  moreover have "\<not> in_blocks kernel_heap_layout b 1 a" if "b < 25600" for b
  proof -
    have "unat (block_addr kernel_heap_layout b) = 0x1000000 + b * 4096"
      using that unat_of_nat_u32[of "0x1000000 + b * 4096"] by (simp add: block_addr_def kernel_heap_layout_def algebra_simps)
    then show ?thesis using a that by (simp add: in_blocks_def in_region_iff_nat word_less_nat_alt)
  qed
  ultimately show ?thesis unfolding stable_def empty_unused by simp
qed

lemma demo_source: "source_text kernel_heap_layout Map.empty (memory path_demo) 0x200 demo_path"
proof -
  have "stable kernel_heap_layout Map.empty (0x200 + of_nat i)" if "i \<le> 7" for i
    by (rule demo_stable) (use that in \<open>simp add: word_less_nat_alt unat_word_ariths unat_of_nat_u32\<close>)
  then show ?thesis by (simp add: source_text_def demo_path_def demo_memory in_region_def)
qed

lemma demo_components: "components (drop 3 demo_path) = [[97], [98, 99]]"
  by (simp add: demo_path_def components.simps)

lemma demo_valid: "valid_path demo_path"
  by (simp add: valid_path_def demo_path_def isdigit_def)

lemma demo_room: "k \<le> 25600 \<Longrightarrow> k \<le> card (unused_blocks (nblocks kernel_heap_layout) Map.empty)"
  unfolding empty_unused by simp

theorem path_parse_builds_witness:
  "\<exists>rb bs s'. path_parse path_links 0x200 0 path_demo = Some (block_addr kernel_heap_layout rb, s')
     \<and> path_tree kernel_heap_layout (memory s') rb bs 0 [[97], [98, 99]]"
proof -
  have d: "chtoi (demo_path ! 0) = 0" by (simp add: demo_path_def chtoi_def)
  show ?thesis
    using path_parse_builds[OF demo_live demo_source demo_valid demo_literal, of 0] demo_room[of 7]
    unfolding demo_components d by auto
qed

theorem path_parse_free_roundtrip_witness:
  "\<exists>r s1 s2. path_parse path_links 0x200 0 path_demo = Some (r, s1) \<and> path_free r s1 = Some s2
     \<and> klive kernel_heap_layout s2 Map.empty"
  using path_parse_free_roundtrip[OF demo_live demo_source demo_valid demo_literal, of 0] demo_room[of 7]
  unfolding demo_components by auto

theorem path_parse_rejects_witness:
  "path_parse path_links 0x203 0 path_demo = Some (NULL, path_demo)"
  using path_parse_rejects[of path_demo "0x203" "[97, 47, 98, 99]" path_links 0] demo_literal
  by (simp add: valid_path_def demo_memory in_region_def)

end
