(* ===== verification/Fat16.thy ===== *)
theory Fat16
  imports Streamer Pparser
begin

text \<open>
  \<^verbatim>\<open>src/src/fs/fat/fat16.c\<close>: the FAT16 driver.  All structs are bytes of the flat memory; the abbreviations name
  the fields of \<^verbatim>\<open>struct disk\<close>, \<^verbatim>\<open>struct fat_private\<close> (with the packed boot-sector headers at its start),
  \<^verbatim>\<open>struct fat_directory\<close>, \<^verbatim>\<open>struct fat_directory_item\<close> (32 packed bytes), \<^verbatim>\<open>struct fat_item\<close> and
  \<^verbatim>\<open>struct fat_file_descriptor\<close> at the offsets the C declarations give them on i686.

  The addresses of the static object \<^verbatim>\<open>fat16_fs\<close>, of its functions, and of the local objects whose address is
  taken are fields of \<open>fslinks\<close>, as are the stale stack words that three functions read without having
  initialised them.  A \<open>None\<close> result is a call that does not return: a loop without end or a division fault.
\<close>

subsection \<open>Addresses decided by the compiler and the linker\<close>

record fslinks = linkmap +
  fat16_fs_at :: u32
  fat16_name_at :: u32
  fat16_resolve_at :: u32
  fat16_open_at :: u32
  fat16_read_at :: u32
  fat16_seek_at :: u32
  fat16_stat_at :: u32
  fat16_close_at :: u32
  stream_buf_at :: "nat \<Rightarrow> u32"
  directory_item_at :: u32
  fat_entry_at :: u32
  tmp_filename_at :: u32
  stale_directory :: u32
  stale_current_item :: u32
  stale_file_descriptor :: u32

subsection \<open>Fields of the structs\<close>

abbreviation (input) disk_sector_size :: "mem \<Rightarrow> u32 \<Rightarrow> int" where "disk_sector_size m d \<equiv> sint (load32 m (d + 4))"
abbreviation (input) disk_id :: "mem \<Rightarrow> u32 \<Rightarrow> int" where "disk_id m d \<equiv> sint (load32 m (d + 8))"
abbreviation (input) disk_fs_private :: "mem \<Rightarrow> u32 \<Rightarrow> u32" where "disk_fs_private m d \<equiv> load32 m (d + 16)"

abbreviation (input) sectors_per_cluster :: "mem \<Rightarrow> u32 \<Rightarrow> int" where "sectors_per_cluster m fp \<equiv> uint (m (fp + 13))"
abbreviation (input) reserved_sectors :: "mem \<Rightarrow> u32 \<Rightarrow> int" where "reserved_sectors m fp \<equiv> uint (load16 m (fp + 14))"
abbreviation (input) fat_copies :: "mem \<Rightarrow> u32 \<Rightarrow> int" where "fat_copies m fp \<equiv> uint (m (fp + 16))"
abbreviation (input) root_dir_entries :: "mem \<Rightarrow> u32 \<Rightarrow> int" where "root_dir_entries m fp \<equiv> uint (load16 m (fp + 17))"
abbreviation (input) sectors_per_fat :: "mem \<Rightarrow> u32 \<Rightarrow> int" where "sectors_per_fat m fp \<equiv> uint (load16 m (fp + 22))"
abbreviation (input) fat_signature :: "mem \<Rightarrow> u32 \<Rightarrow> u8" where "fat_signature m fp \<equiv> m (fp + 38)"
abbreviation (input) root_end_sector :: "mem \<Rightarrow> u32 \<Rightarrow> int" where "root_end_sector m fp \<equiv> sint (load32 m (fp + 76))"
abbreviation (input) cluster_read_stream :: "mem \<Rightarrow> u32 \<Rightarrow> u32" where "cluster_read_stream m fp \<equiv> load32 m (fp + 80)"
abbreviation (input) fat_read_stream :: "mem \<Rightarrow> u32 \<Rightarrow> u32" where "fat_read_stream m fp \<equiv> load32 m (fp + 84)"
abbreviation (input) directory_stream :: "mem \<Rightarrow> u32 \<Rightarrow> u32" where "directory_stream m fp \<equiv> load32 m (fp + 88)"

abbreviation (input) item_attribute :: "mem \<Rightarrow> u32 \<Rightarrow> u8" where "item_attribute m it \<equiv> m (it + 11)"
abbreviation (input) item_filesize :: "mem \<Rightarrow> u32 \<Rightarrow> u32" where "item_filesize m it \<equiv> load32 m (it + 28)"

abbreviation (input) RAOS_FAT16_SIGNATURE :: "'a::numeral" where "RAOS_FAT16_SIGNATURE \<equiv> 0x29"
abbreviation (input) RAOS_FAT16_ENTRY_SIZE :: "'a::numeral" where "RAOS_FAT16_ENTRY_SIZE \<equiv> 2"
abbreviation (input) RAOS_FAT16_BAD_SECTOR :: "'a::numeral" where "RAOS_FAT16_BAD_SECTOR \<equiv> 0xFF7"
abbreviation (input) FAT_ITEM_TYPE_DIRECTORY :: "'a::zero" where "FAT_ITEM_TYPE_DIRECTORY \<equiv> 0"
abbreviation (input) FAT_ITEM_TYPE_FILE :: "'a::one" where "FAT_ITEM_TYPE_FILE \<equiv> 1"
abbreviation (input) FAT_FILE_READ_ONLY :: "'a::one" where "FAT_FILE_READ_ONLY \<equiv> 1"
abbreviation (input) FAT_FILE_SUBDIRECTORY :: "'a::numeral" where "FAT_FILE_SUBDIRECTORY \<equiv> 0x10"
abbreviation (input) FILE_MODE_READ :: "'a::zero" where "FILE_MODE_READ \<equiv> 0"
abbreviation (input) SEEK_SET :: "'a::zero" where "SEEK_SET \<equiv> 0"
abbreviation (input) SEEK_CUR :: "'a::one" where "SEEK_CUR \<equiv> 1"
abbreviation (input) SEEK_END :: "'a::numeral" where "SEEK_END \<equiv> 2"

text \<open>\<^verbatim>\<open>ISERR\<close>, \<^verbatim>\<open>ERROR\<close> of \<^verbatim>\<open>kernel.h\<close> on pointers.\<close>

definition ISERR :: "u32 \<Rightarrow> bool" where
  "ISERR val \<longleftrightarrow> sint val < 0"

definition ERROR :: "int \<Rightarrow> u32" where
  "ERROR val = word_of_int val"

subsection \<open>Binding the file system to a disk\<close>

definition fat16_init :: "'l fslinks_scheme \<Rightarrow> 'a machine_scheme \<Rightarrow> (u32 \<times> 'a machine_scheme) option" where
  "fat16_init lm s = do {
     m \<leftarrow> strcpy (memory s) (fat16_fs_at lm + 24) (fat16_name_at lm);
     Some (fat16_fs_at lm, s\<lparr>memory := m\<rparr>)
   }"

definition fat16_init_private ::
    "'l fslinks_scheme \<Rightarrow> u32 \<Rightarrow> u32 \<Rightarrow> ('d, 'a) iostate_scheme \<Rightarrow> ('d, 'a) iostate_scheme" where
  "fat16_init_private lm disk private s =
     (let s0 = s\<lparr>memory := memset (memory s) private 0 92\<rparr>;
          (st1, s1) = diskstreamer_new lm (disk_id (memory s0) disk) s0;
          s1' = s1\<lparr>memory := store32 (memory s1) (private + 80) st1\<rparr>;
          (st2, s2) = diskstreamer_new lm (disk_id (memory s1') disk) s1';
          s2' = s2\<lparr>memory := store32 (memory s2) (private + 84) st2\<rparr>;
          (st3, s3) = diskstreamer_new lm (disk_id (memory s2') disk) s2'
      in s3\<lparr>memory := store32 (memory s3) (private + 88) st3\<rparr>)"

definition fat16_sector_to_absolute :: "u32 \<Rightarrow> int \<Rightarrow> mem \<Rightarrow> int" where
  "fat16_sector_to_absolute disk sector m = wrap32 (sector * disk_sector_size m disk)"

partial_function (option) fat16_count_items ::
    "'l fslinks_scheme \<Rightarrow> 'd ports \<Rightarrow> u32 \<Rightarrow> int \<Rightarrow> ('d, 'a) iostate_scheme \<Rightarrow>
     (int \<times> ('d, 'a) iostate_scheme) option" where
  "fat16_count_items lm hw stream i s =
     Option.bind (diskstreamer_read lm hw (stream_buf_at lm) 0 stream (directory_item_at lm) 32 s) (\<lambda>(res, s1).
       if res \<noteq> RAOS_ALL_OK then Some (- EIO, s1)
       else let first = memory s1 (directory_item_at lm)
            in if first = 0x00 then Some (i, s1)
               else if first = 0xE5 then fat16_count_items lm hw stream i s1
               else fat16_count_items lm hw stream (wrap32 (i + 1)) s1)"

definition fat16_get_total_items_for_directory ::
    "'l fslinks_scheme \<Rightarrow> 'd ports \<Rightarrow> u32 \<Rightarrow> u32 \<Rightarrow> ('d, 'a) iostate_scheme \<Rightarrow>
     (int \<times> ('d, 'a) iostate_scheme) option" where
  "fat16_get_total_items_for_directory lm hw disk directory_start_sector s =
     (let fat_private = disk_fs_private (memory s) disk;
          directory_start_pos = sint (directory_start_sector * word_of_int (disk_sector_size (memory s) disk));
          stream = directory_stream (memory s) fat_private;
          (res, s1) = diskstreamer_seek stream directory_start_pos s
      in if res \<noteq> RAOS_ALL_OK then Some (- EIO, s1) else fat16_count_items lm hw stream 0 s1)"

definition fat16_get_root_directory ::
    "'l fslinks_scheme \<Rightarrow> 'd ports \<Rightarrow> u32 \<Rightarrow> u32 \<Rightarrow> u32 \<Rightarrow> ('d, 'a) iostate_scheme \<Rightarrow>
     (int \<times> ('d, 'a) iostate_scheme) option" where
  "fat16_get_root_directory lm hw disk fat_private directory s =
     (let m = memory s;
          root_dir_sector_pos = fat_copies m fat_private * sectors_per_fat m fat_private + reserved_sectors m fat_private;
          root_dir_size = root_dir_entries m fat_private * 32
      in do {
        (total_items, s1) \<leftarrow> fat16_get_total_items_for_directory lm hw disk (word_of_int root_dir_sector_pos) s;
        let (dir, s2) = kzalloc (word_of_int root_dir_size) s1;
        if dir = NULL then Some (- ENOMEM, s2)
        else do {
          let stream = directory_stream (memory s2) fat_private;
          let (res1, s3) = diskstreamer_seek stream (fat16_sector_to_absolute disk root_dir_sector_pos (memory s2)) s2;
          if res1 \<noteq> RAOS_ALL_OK then Some (- EIO, s3)
          else do {
            (res2, s4) \<leftarrow> diskstreamer_read lm hw (stream_buf_at lm) 0 stream dir root_dir_size s3;
            if res2 \<noteq> RAOS_ALL_OK then Some (- EIO, s4)
            else let m1 = store32 (memory s4) directory dir;
                     m2 = store32 m1 (directory + 4) (word_of_int total_items);
                     m3 = store32 m2 (directory + 8) (word_of_int root_dir_sector_pos);
                     sector_size = disk_sector_size m3 disk
                 in if sector_size = 0 then None
                    else Some (0, s4\<lparr>memory := store32 m3 (directory + 12)
                           (word_of_int (root_dir_sector_pos + root_dir_size sdiv sector_size))\<rparr>)
          }
        }
      })"

definition fat16_resolve ::
    "'l fslinks_scheme \<Rightarrow> 'd ports \<Rightarrow> u32 \<Rightarrow> ('d, 'a) iostate_scheme \<Rightarrow>
     (int \<times> ('d, 'a) iostate_scheme) option" where
  "fat16_resolve lm hw disk s =
     (let (fat_private, s1) = kzalloc 92 s;
          s2 = s1\<lparr>memory := memset (memory s1) fat_private 0 92\<rparr>;
          s3 = fat16_init_private lm disk fat_private s2;
          m4 = store32 (memory s3) (disk + 16) fat_private;
          s4 = s3\<lparr>memory := store32 m4 (disk + 12) (fat16_fs_at lm)\<rparr>;
          (stream, s5) = diskstreamer_new lm (disk_id (memory s4) disk) s4
      in do {
        (res, s6) \<leftarrow>
          (if stream = NULL then Some (- ENOMEM, s5)
           else do {
             (res1, s7) \<leftarrow> diskstreamer_read lm hw (stream_buf_at lm) 0 stream fat_private 62 s5;
             if res1 \<noteq> RAOS_ALL_OK then Some (- EIO, s7)
             else if fat_signature (memory s7) fat_private \<noteq> RAOS_FAT16_SIGNATURE then Some (- EFSNOTUS, s7)
             else do {
               (res2, s8) \<leftarrow> fat16_get_root_directory lm hw disk fat_private (fat_private + 64) s7;
               Some (if res2 \<noteq> RAOS_ALL_OK then - EIO else 0, s8)
             }
           });
        let s9 = (if stream \<noteq> NULL then diskstreamer_close stream s6 else s6);
        Some (if res < 0
              then (let s10 = kfree fat_private s9
                    in (res, s10\<lparr>memory := store32 (memory s10) (disk + 16) NULL\<rparr>))
              else (res, s9))
      })"

subsection \<open>File names\<close>

partial_function (option) fat16_to_proper_string :: "u32 \<Rightarrow> u32 \<Rightarrow> mem \<Rightarrow> (u32 \<times> mem) option" where
  "fat16_to_proper_string out inp m =
     (if m inp \<noteq> 0x00 \<and> m inp \<noteq> 0x20 then fat16_to_proper_string (out + 1) (inp + 1) (m(out := m inp))
      else Some (out, if m inp = 0x20 then m(out := 0x00) else m))"

definition fat16_get_full_relative_filename :: "u32 \<Rightarrow> u32 \<Rightarrow> int \<Rightarrow> mem \<Rightarrow> mem option" where
  "fat16_get_full_relative_filename item out out_len m = do {
     (out_tmp, m1) \<leftarrow> fat16_to_proper_string out item (memset m out 0 (word_of_int out_len));
     if m1 (item + 8) \<noteq> 0x00 \<and> m1 (item + 8) \<noteq> 0x20
     then do {
       (_, m2) \<leftarrow> fat16_to_proper_string (out_tmp + 1) (item + 8) (m1(out_tmp := 46));
       Some m2
     }
     else Some m1
   }"

subsection \<open>Freeing\<close>

definition fat16_free_directory :: "u32 \<Rightarrow> 'a kstate_scheme \<Rightarrow> 'a kstate_scheme" where
  "fat16_free_directory directory s =
     (if directory = NULL then s
      else let s1 = (if load32 (memory s) directory \<noteq> NULL then kfree (load32 (memory s) directory) s else s)
           in kfree directory s1)"

definition fat16_fat_item_free :: "u32 \<Rightarrow> 'a kstate_scheme \<Rightarrow> 'a kstate_scheme" where
  "fat16_fat_item_free item s =
     (let ty = load32 (memory s) (item + 4);
          s1 = (if ty = FAT_ITEM_TYPE_DIRECTORY then fat16_free_directory (load32 (memory s) item) s
                else if ty = FAT_ITEM_TYPE_FILE then kfree (load32 (memory s) item) s
                else s)
      in kfree item s1)"

subsection \<open>Clusters\<close>

definition fat16_get_first_cluster_for_directory_item :: "u32 \<Rightarrow> mem \<Rightarrow> u32" where
  "fat16_get_first_cluster_for_directory_item item m =
     push_bit 16 (ucast (load16 m (item + 24))) OR ucast (load16 m (item + 26))"

definition fat16_get_fat_entry ::
    "'l fslinks_scheme \<Rightarrow> 'd ports \<Rightarrow> u32 \<Rightarrow> int \<Rightarrow> ('d, 'a) iostate_scheme \<Rightarrow>
     (u32 \<times> ('d, 'a) iostate_scheme) option" where
  "fat16_get_fat_entry lm hw disk cluster_pos s =
     (let m = memory s;
          private = disk_fs_private m disk;
          stream = fat_read_stream m private
      in if stream = NULL then Some (word_of_int (- 1), s)
         else let fat_table_position = (word_of_int (reserved_sectors m private * disk_sector_size m disk) :: u32);
                  (res, s1) = diskstreamer_seek stream
                    (sint (fat_table_position * word_of_int (cluster_pos * RAOS_FAT16_ENTRY_SIZE))) s
              in if res < 0 then Some (word_of_int res, s1)
                 else do {
                   let s2 = s1\<lparr>memory := store32 (memory s1) (fat_entry_at lm) 0\<rparr>;
                   (res2, s3) \<leftarrow> diskstreamer_read lm hw (stream_buf_at lm) 0 stream (fat_entry_at lm) 4 s2;
                   Some (if res2 < 0 then word_of_int res2 else load32 (memory s3) (fat_entry_at lm), s3)
                 })"

text \<open>The loop of \<^verbatim>\<open>fat16_get_cluster_for_offset\<close> with \<open>n\<close> rounds to go.\<close>

primrec fat16_follow_chain ::
    "'l fslinks_scheme \<Rightarrow> 'd ports \<Rightarrow> u32 \<Rightarrow> nat \<Rightarrow> int \<Rightarrow> ('d, 'a) iostate_scheme \<Rightarrow>
     (int \<times> ('d, 'a) iostate_scheme) option" where
  "fat16_follow_chain lm hw disk 0 cluster_pos s = Some (cluster_pos, s)"
| "fat16_follow_chain lm hw disk (Suc n) cluster_pos s =
     Option.bind (fat16_get_fat_entry lm hw disk cluster_pos s) (\<lambda>(e, s1).
       let entry = sint e
       in if entry = 0xFF8 \<or> entry = 0xFFF then Some (- EIO, s1)
          else if entry = RAOS_FAT16_BAD_SECTOR then Some (- EIO, s1)
          else if entry = 0xFF0 \<or> entry = 0xFF6 then Some (- EIO, s1)
          else if entry = 0x00 then Some (- EIO, s1)
          else fat16_follow_chain lm hw disk n entry s1)"

definition fat16_get_cluster_for_offset ::
    "'l fslinks_scheme \<Rightarrow> 'd ports \<Rightarrow> u32 \<Rightarrow> int \<Rightarrow> int \<Rightarrow> ('d, 'a) iostate_scheme \<Rightarrow>
     (int \<times> ('d, 'a) iostate_scheme) option" where
  "fat16_get_cluster_for_offset lm hw disk start_cluster offset s =
     (let m = memory s;
          private = disk_fs_private m disk;
          size_of_cluster_bytes = wrap32 (sectors_per_cluster m private * disk_sector_size m disk)
      in if size_of_cluster_bytes = 0 then None
         else fat16_follow_chain lm hw disk (nat (offset sdiv size_of_cluster_bytes)) start_cluster s)"

partial_function (option) fat16_read_items_of_directory ::
    "'l fslinks_scheme \<Rightarrow> 'd ports \<Rightarrow> u32 \<Rightarrow> int \<Rightarrow> int \<Rightarrow> int \<Rightarrow> u32 \<Rightarrow> ('d, 'a) iostate_scheme \<Rightarrow>
     (int \<times> ('d, 'a) iostate_scheme) option" where
  "fat16_read_items_of_directory lm hw disk start_cluster offset total_bytes out s =
     (let private = disk_fs_private (memory s) disk;
          stream = cluster_read_stream (memory s) private
      in Option.bind (fat16_get_cluster_for_offset lm hw disk start_cluster offset s) (\<lambda>(cluster_pos, s1).
        if cluster_pos < 0 then Some (cluster_pos, s1)
        else let m = memory s1;
                 sector_size = disk_sector_size m disk;
                 size_of_cluster_bytes = wrap32 (sectors_per_cluster m private * sector_size)
             in if size_of_cluster_bytes = 0 then None
                else let offset_from_cluster_pos = offset smod size_of_cluster_bytes;
                         starting_sector = wrap32 (root_end_sector m private
                           + wrap32 ((start_cluster - 2) * sectors_per_cluster m private));
                         starting_pos = wrap32 (wrap32 (starting_sector * sector_size) + offset_from_cluster_pos);
                         total_to_read = (if total_bytes > size_of_cluster_bytes then size_of_cluster_bytes else total_bytes);
                         (res, s2) = diskstreamer_seek stream starting_pos s1
                     in if res \<noteq> RAOS_ALL_OK then Some (res, s2)
                        else Option.bind (diskstreamer_read lm hw (stream_buf_at lm) 0 stream out total_to_read s2) (\<lambda>(res2, s3).
                          if res2 \<noteq> RAOS_ALL_OK then Some (res2, s3)
                          else let rest = wrap32 (total_bytes - total_to_read)
                               in if rest > 0
                                  then fat16_read_items_of_directory lm hw disk start_cluster (wrap32 (offset + total_to_read))
                                         rest (out + word_of_int total_to_read) s3
                                  else Some (res2, s3))))"

subsection \<open>Directories and items\<close>

definition fat16_load_fat_directory ::
    "'l fslinks_scheme \<Rightarrow> 'd ports \<Rightarrow> u32 \<Rightarrow> u32 \<Rightarrow> ('d, 'a) iostate_scheme \<Rightarrow>
     (u32 \<times> ('d, 'a) iostate_scheme) option" where
  "fat16_load_fat_directory lm hw disk item s =
     (if item_attribute (memory s) item AND FAT_FILE_SUBDIRECTORY = 0
      then Some (stale_directory lm, fat16_free_directory (stale_directory lm) s)
      else let (directory, s1) = kzalloc 16 s
           in if directory = NULL then Some (directory, fat16_free_directory directory s1)
              else let m = memory s1;
                       fat_private = disk_fs_private m disk;
                       first_cluster = fat16_get_first_cluster_for_directory_item item m;
                       sector_pos = load32 m (fat_private + 76)
                         + (first_cluster - 2) * word_of_int (sectors_per_cluster m fat_private)
                   in do {
                     (total_items, s2) \<leftarrow> fat16_get_total_items_for_directory lm hw disk sector_pos s1;
                     let s3 = s2\<lparr>memory := store32 (memory s2) (directory + 4) (word_of_int total_items)\<rparr>;
                     let directory_size = wrap32 (sint (load32 (memory s3) (directory + 4)) * 32);
                     let (items, s4) = kzalloc (word_of_int directory_size) s3;
                     let s5 = s4\<lparr>memory := store32 (memory s4) directory items\<rparr>;
                     if items = NULL then Some (directory, fat16_free_directory directory s5)
                     else do {
                       (res, s6) \<leftarrow> fat16_read_items_of_directory lm hw disk (sint first_cluster) 0 directory_size items s5;
                       Some (directory, if res \<noteq> RAOS_ALL_OK then fat16_free_directory directory s6 else s6)
                     }
                   })"

definition fat16_clone_directory_item :: "u32 \<Rightarrow> int \<Rightarrow> 'a kstate_scheme \<Rightarrow> u32 \<times> 'a kstate_scheme" where
  "fat16_clone_directory_item item sz s =
     (if (word_of_int sz :: u32) < 32 then (NULL, s)
      else let (item_copy, s1) = kzalloc (word_of_int sz) s
           in if item_copy = NULL then (NULL, s1)
              else (item_copy, s1\<lparr>memory := memcpy (memory s1) item_copy item (word_of_int sz)\<rparr>))"

definition fat16_new_fat_item_for_directory_item ::
    "'l fslinks_scheme \<Rightarrow> 'd ports \<Rightarrow> u32 \<Rightarrow> u32 \<Rightarrow> ('d, 'a) iostate_scheme \<Rightarrow>
     (u32 \<times> ('d, 'a) iostate_scheme) option" where
  "fat16_new_fat_item_for_directory_item lm hw disk item s =
     (let (f_item, s1) = kzalloc 8 s
      in if f_item = NULL then Some (NULL, s1)
         else if item_attribute (memory s1) item AND FAT_FILE_SUBDIRECTORY \<noteq> 0
         then do {
           (directory, s2) \<leftarrow> fat16_load_fat_directory lm hw disk item s1;
           let m3 = store32 (memory s2) f_item directory;
           Some (f_item, s2\<lparr>memory := store32 m3 (f_item + 4) FAT_ITEM_TYPE_DIRECTORY\<rparr>)
         }
         else let s2 = s1\<lparr>memory := store32 (memory s1) (f_item + 4) FAT_ITEM_TYPE_FILE\<rparr>;
                  (item_copy, s3) = fat16_clone_directory_item item 32 s2
              in Some (f_item, s3\<lparr>memory := store32 (memory s3) f_item item_copy\<rparr>))"

text \<open>The search loop; \<^verbatim>\<open>f_item\<close> is the last match so far.\<close>

partial_function (option) fat16_find_loop ::
    "'l fslinks_scheme \<Rightarrow> 'd ports \<Rightarrow> u32 \<Rightarrow> u32 \<Rightarrow> u32 \<Rightarrow> int \<Rightarrow> u32 \<Rightarrow> ('d, 'a) iostate_scheme \<Rightarrow>
     (u32 \<times> ('d, 'a) iostate_scheme) option" where
  "fat16_find_loop lm hw disk directory name i f_item s =
     (if i < sint (load32 (memory s) (directory + 4))
      then let item = load32 (memory s) directory + 32 * word_of_int i
           in Option.bind (fat16_get_full_relative_filename item (tmp_filename_at lm) RAOS_MAX_PATH (memory s)) (\<lambda>m1.
             let s1 = s\<lparr>memory := m1\<rparr>
             in if istrncmp m1 (tmp_filename_at lm) name RAOS_MAX_PATH = 0
                then Option.bind (fat16_new_fat_item_for_directory_item lm hw disk (load32 m1 directory + 32 * word_of_int i) s1)
                       (\<lambda>(f_item', s2). fat16_find_loop lm hw disk directory name (i + 1) f_item' s2)
                else fat16_find_loop lm hw disk directory name (i + 1) f_item s1)
      else Some (f_item, s))"

definition fat16_find_item_in_directory ::
    "'l fslinks_scheme \<Rightarrow> 'd ports \<Rightarrow> u32 \<Rightarrow> u32 \<Rightarrow> u32 \<Rightarrow> ('d, 'a) iostate_scheme \<Rightarrow>
     (u32 \<times> ('d, 'a) iostate_scheme) option" where
  "fat16_find_item_in_directory lm hw disk directory name s = fat16_find_loop lm hw disk directory name 0 NULL s"

partial_function (option) fat16_walk_parts ::
    "'l fslinks_scheme \<Rightarrow> 'd ports \<Rightarrow> u32 \<Rightarrow> u32 \<Rightarrow> u32 \<Rightarrow> ('d, 'a) iostate_scheme \<Rightarrow>
     (u32 \<times> ('d, 'a) iostate_scheme) option" where
  "fat16_walk_parts lm hw disk next_part current_item s =
     (if next_part \<noteq> NULL
      then if load32 (memory s) (current_item + 4) \<noteq> FAT_ITEM_TYPE_DIRECTORY then Some (NULL, s)
           else Option.bind (fat16_find_item_in_directory lm hw disk (load32 (memory s) current_item)
                              (load32 (memory s) next_part) s) (\<lambda>(tmp_item, s1).
             let s2 = fat16_fat_item_free current_item s1
             in fat16_walk_parts lm hw disk (load32 (memory s2) (next_part + 4)) tmp_item s2)
      else Some (current_item, s))"

definition fat16_get_directory_entry ::
    "'l fslinks_scheme \<Rightarrow> 'd ports \<Rightarrow> u32 \<Rightarrow> u32 \<Rightarrow> ('d, 'a) iostate_scheme \<Rightarrow>
     (u32 \<times> ('d, 'a) iostate_scheme) option" where
  "fat16_get_directory_entry lm hw disk path s = do {
     let fat_private = disk_fs_private (memory s) disk;
     (root_item, s1) \<leftarrow> fat16_find_item_in_directory lm hw disk (fat_private + 64) (load32 (memory s) path) s;
     if root_item = NULL then Some (stale_current_item lm, s1)
     else fat16_walk_parts lm hw disk (load32 (memory s1) (path + 4)) root_item s1
   }"

subsection \<open>The operations of the file system\<close>

definition fat16_open ::
    "'l fslinks_scheme \<Rightarrow> 'd ports \<Rightarrow> u32 \<Rightarrow> u32 \<Rightarrow> u32 \<Rightarrow> ('d, 'a) iostate_scheme \<Rightarrow>
     (u32 \<times> ('d, 'a) iostate_scheme) option" where
  "fat16_open lm hw disk path mode s =
     (let err_out = (\<lambda>err_code file_descriptor s.
            (ERROR err_code, if file_descriptor \<noteq> NULL then kfree file_descriptor s else s))
      in if mode \<noteq> FILE_MODE_READ then Some (err_out (- ERDONLY) (stale_file_descriptor lm) s)
         else let (file_descriptor, s1) = kzalloc 8 s
              in if file_descriptor = NULL then Some (err_out (- ENOMEM) file_descriptor s1)
                 else do {
                   (item, s2) \<leftarrow> fat16_get_directory_entry lm hw disk path s1;
                   let s3 = s2\<lparr>memory := store32 (memory s2) file_descriptor item\<rparr>;
                   if item = NULL then Some (err_out (- EIO) file_descriptor s3)
                   else Some (file_descriptor, s3\<lparr>memory := store32 (memory s3) (file_descriptor + 4) 0\<rparr>)
                 })"

function fat16_read_loop ::
    "'l fslinks_scheme \<Rightarrow> 'd ports \<Rightarrow> u32 \<Rightarrow> u32 \<Rightarrow> u32 \<Rightarrow> u32 \<Rightarrow> u32 \<Rightarrow> int \<Rightarrow> u32 \<Rightarrow> ('d, 'a) iostate_scheme \<Rightarrow>
     (int \<times> ('d, 'a) iostate_scheme) option" where
  "fat16_read_loop lm hw disk item sz nmemb i offset output s =
     (if i < nmemb
      then do {
        (res, s1) \<leftarrow> fat16_read_items_of_directory lm hw disk
                       (sint (fat16_get_first_cluster_for_directory_item item (memory s))) offset (sint sz) output s;
        if res < 0 then Some (res, s1)
        else fat16_read_loop lm hw disk item sz nmemb (i + 1) (wrap32 (offset + uint sz)) (output + sz) s1
      }
      else Some (sint nmemb, s))"
  by pat_completeness auto
termination
  by (relation "measure (\<lambda>(lm, hw, disk, item, sz, nmemb, i, off, out, s). unat nmemb - unat i)")
     (auto simp: word_less_nat_alt)

declare fat16_read_loop.simps [simp del]

definition fat16_read ::
    "'l fslinks_scheme \<Rightarrow> 'd ports \<Rightarrow> u32 \<Rightarrow> u32 \<Rightarrow> u32 \<Rightarrow> u32 \<Rightarrow> u32 \<Rightarrow> ('d, 'a) iostate_scheme \<Rightarrow>
     (int \<times> ('d, 'a) iostate_scheme) option" where
  "fat16_read lm hw disk desc sz nmemb output s =
     (let m = memory s;
          item = load32 m (load32 m desc);
          offset = sint (load32 m (desc + 4))
      in fat16_read_loop lm hw disk item sz nmemb 0 offset output s)"

definition fat16_seek :: "u32 \<Rightarrow> u32 \<Rightarrow> u32 \<Rightarrow> 'a machine_scheme \<Rightarrow> int \<times> 'a machine_scheme" where
  "fat16_seek desc offset seek_mode s =
     (let m = memory s;
          item = load32 m desc
      in if load32 m (item + 4) \<noteq> FAT_ITEM_TYPE_FILE then (- EINVARG, s)
         else let file_item = load32 m item
              in if item_filesize m file_item \<le> offset then (- EIO, s)
                 else if seek_mode = SEEK_SET then (0, s\<lparr>memory := store32 m (desc + 4) offset\<rparr>)
                 else if seek_mode = SEEK_END then (- EUNIMP, s)
                 else if seek_mode = SEEK_CUR then (0, s\<lparr>memory := store32 m (desc + 4) (load32 m (desc + 4) + offset)\<rparr>)
                 else (- EINVARG, s))"

definition fat16_stat :: "u32 \<Rightarrow> u32 \<Rightarrow> u32 \<Rightarrow> 'a machine_scheme \<Rightarrow> int \<times> 'a machine_scheme" where
  "fat16_stat disk desc stat s =
     (let m = memory s;
          item = load32 m desc
      in if load32 m (item + 4) \<noteq> FAT_ITEM_TYPE_FILE then (- EINVARG, s)
         else let file_item = load32 m item;
                  m1 = store32 m (stat + 4) (item_filesize m file_item);
                  m2 = store32 m1 stat 0;
                  m3 = (if item_attribute m2 file_item AND FAT_FILE_READ_ONLY \<noteq> 0
                        then store32 m2 stat (load32 m2 stat OR FAT_FILE_READ_ONLY) else m2)
              in (0, s\<lparr>memory := m3\<rparr>))"

definition free_fat16_file_descriptor :: "u32 \<Rightarrow> 'a kstate_scheme \<Rightarrow> 'a kstate_scheme" where
  "free_fat16_file_descriptor desc s = kfree desc (fat16_fat_item_free (load32 (memory s) desc) s)"

definition fat16_close :: "u32 \<Rightarrow> 'a kstate_scheme \<Rightarrow> int \<times> 'a kstate_scheme" where
  "fat16_close desc s = (0, free_fat16_file_descriptor desc s)"

end
