(* ===== verification/File.thy ===== *)
theory File
  imports Fat16
begin

text \<open>
  \<^verbatim>\<open>src/src/fs/file.c\<close> and \<^verbatim>\<open>file.h\<close>: the layer above the file systems.  The two global pointer arrays
  \<^verbatim>\<open>filesystems\<close> and \<^verbatim>\<open>filedescriptors\<close> are memory at addresses the linker fixes; a \<^verbatim>\<open>struct file_descriptor\<close> is 16
  bytes (index, file system, private data, disk).  A call through a function pointer of \<^verbatim>\<open>struct filesystem\<close>
  compares the pointer with the entry points of the FAT16 driver, the only file system there is; a jump
  anywhere else does not return.
\<close>

subsection \<open>Addresses\<close>

record filelinks = fslinks +
  filesystems_at :: u32
  filedescriptors_at :: u32
  mode_r_at :: u32
  mode_w_at :: u32
  mode_a_at :: u32

abbreviation (input) FILE_MODE_WRITE :: "'a::one" where "FILE_MODE_WRITE \<equiv> 1"
abbreviation (input) FILE_MODE_APPEND :: "'a::numeral" where "FILE_MODE_APPEND \<equiv> 2"
abbreviation (input) FILE_MODE_INVALID :: "'a::numeral" where "FILE_MODE_INVALID \<equiv> 3"

abbreviation (input) filesystem_slot :: "'l filelinks_scheme \<Rightarrow> nat \<Rightarrow> u32" where
  "filesystem_slot lm i \<equiv> filesystems_at lm + 4 * of_nat i"

abbreviation (input) descriptor_slot :: "'l filelinks_scheme \<Rightarrow> nat \<Rightarrow> u32" where
  "descriptor_slot lm i \<equiv> filedescriptors_at lm + 4 * of_nat i"

subsection \<open>Calls through the function pointers of a file system\<close>

definition filesystem_resolve ::
    "'l fslinks_scheme \<Rightarrow> 'd ports \<Rightarrow> u32 \<Rightarrow> u32 \<Rightarrow> ('d, 'a) iostate_scheme \<Rightarrow>
     (int \<times> ('d, 'a) iostate_scheme) option" where
  "filesystem_resolve lm hw fs disk s =
     (if load32 (memory s) fs = fat16_resolve_at lm then fat16_resolve lm hw disk s else None)"

definition filesystem_open ::
    "'l fslinks_scheme \<Rightarrow> 'd ports \<Rightarrow> u32 \<Rightarrow> u32 \<Rightarrow> u32 \<Rightarrow> u32 \<Rightarrow> ('d, 'a) iostate_scheme \<Rightarrow>
     (u32 \<times> ('d, 'a) iostate_scheme) option" where
  "filesystem_open lm hw fs disk path mode s =
     (if load32 (memory s) (fs + 4) = fat16_open_at lm then fat16_open lm hw disk path mode s else None)"

definition filesystem_read ::
    "'l fslinks_scheme \<Rightarrow> 'd ports \<Rightarrow> u32 \<Rightarrow> u32 \<Rightarrow> u32 \<Rightarrow> u32 \<Rightarrow> u32 \<Rightarrow> u32 \<Rightarrow> ('d, 'a) iostate_scheme \<Rightarrow>
     (int \<times> ('d, 'a) iostate_scheme) option" where
  "filesystem_read lm hw fs disk private sz nmemb out s =
     (if load32 (memory s) (fs + 8) = fat16_read_at lm then fat16_read lm hw disk private sz nmemb out s else None)"

definition filesystem_seek ::
    "'l fslinks_scheme \<Rightarrow> u32 \<Rightarrow> u32 \<Rightarrow> u32 \<Rightarrow> u32 \<Rightarrow> 'a machine_scheme \<Rightarrow> (int \<times> 'a machine_scheme) option" where
  "filesystem_seek lm fs private offset whence s =
     (if load32 (memory s) (fs + 12) = fat16_seek_at lm then Some (fat16_seek private offset whence s) else None)"

definition filesystem_stat ::
    "'l fslinks_scheme \<Rightarrow> u32 \<Rightarrow> u32 \<Rightarrow> u32 \<Rightarrow> u32 \<Rightarrow> 'a machine_scheme \<Rightarrow> (int \<times> 'a machine_scheme) option" where
  "filesystem_stat lm fs disk private stat s =
     (if load32 (memory s) (fs + 16) = fat16_stat_at lm then Some (fat16_stat disk private stat s) else None)"

definition filesystem_close ::
    "'l fslinks_scheme \<Rightarrow> u32 \<Rightarrow> u32 \<Rightarrow> 'a kstate_scheme \<Rightarrow> (int \<times> 'a kstate_scheme) option" where
  "filesystem_close lm fs private s =
     (if load32 (memory s) (fs + 20) = fat16_close_at lm then Some (fat16_close private s) else None)"

subsection \<open>File systems\<close>

definition fs_get_free_filesystem :: "'l filelinks_scheme \<Rightarrow> mem \<Rightarrow> u32" where
  "fs_get_free_filesystem lm m =
     (case find (\<lambda>i. load32 m (filesystem_slot lm i) = NULL) [0..<RAOS_MAX_FILESYSTEMS] of
        Some i \<Rightarrow> filesystem_slot lm i
      | None \<Rightarrow> NULL)"

definition fs_insert_filesystem ::
    "'l filelinks_scheme \<Rightarrow> u32 \<Rightarrow> 'a machine_scheme \<Rightarrow> 'a machine_scheme option" where
  "fs_insert_filesystem lm filesystem s =
     (let fs = fs_get_free_filesystem lm (memory s)
      in if fs = NULL
         then let s1 = print_literal (map of_char ''fs_insert_filesystem(): no free filesystem avaliable.'') s in None
         else Some (s\<lparr>memory := store32 (memory s) fs filesystem\<rparr>))"

definition fs_static_load :: "'l filelinks_scheme \<Rightarrow> 'a machine_scheme \<Rightarrow> 'a machine_scheme option" where
  "fs_static_load lm s = do {
     (fs, s1) \<leftarrow> fat16_init lm s;
     fs_insert_filesystem lm fs s1
   }"

definition fs_load :: "'l filelinks_scheme \<Rightarrow> 'a machine_scheme \<Rightarrow> 'a machine_scheme option" where
  "fs_load lm s = fs_static_load lm (s\<lparr>memory := memset (memory s) (filesystems_at lm) 0 (4 * RAOS_MAX_FILESYSTEMS)\<rparr>)"

definition fs_init :: "'l filelinks_scheme \<Rightarrow> 'a machine_scheme \<Rightarrow> 'a machine_scheme option" where
  "fs_init lm s =
     fs_load lm (s\<lparr>memory := memset (memory s) (filedescriptors_at lm) 0 (4 * RAOS_MAX_FILE_DESCRIPTORS)\<rparr>)"

function fs_resolve_loop ::
    "'l filelinks_scheme \<Rightarrow> 'd ports \<Rightarrow> u32 \<Rightarrow> nat \<Rightarrow> ('d, 'a) iostate_scheme \<Rightarrow>
     (u32 \<times> ('d, 'a) iostate_scheme) option" where
  "fs_resolve_loop lm hw disk i s =
     (if i < RAOS_MAX_FILESYSTEMS
      then let fs = load32 (memory s) (filesystem_slot lm i)
           in if fs = NULL then fs_resolve_loop lm hw disk (Suc i) s
              else do {
                (res, s1) \<leftarrow> filesystem_resolve lm hw fs disk s;
                if res = 0 then Some (load32 (memory s1) (filesystem_slot lm i), s1)
                else fs_resolve_loop lm hw disk (Suc i) s1
              }
      else Some (NULL, s))"
  by pat_completeness auto
termination
  by (relation "measure (\<lambda>(lm, hw, disk, i, s). RAOS_MAX_FILESYSTEMS - i)") auto

declare fs_resolve_loop.simps [simp del]

definition fs_resolve ::
    "'l filelinks_scheme \<Rightarrow> 'd ports \<Rightarrow> u32 \<Rightarrow> ('d, 'a) iostate_scheme \<Rightarrow>
     (u32 \<times> ('d, 'a) iostate_scheme) option" where
  "fs_resolve lm hw disk s = fs_resolve_loop lm hw disk 0 s"

subsection \<open>Descriptors\<close>

definition file_new_descriptor ::
    "'l filelinks_scheme \<Rightarrow> 'a kstate_scheme \<Rightarrow> int \<times> u32 option \<times> 'a kstate_scheme" where
  "file_new_descriptor lm s =
     (case find (\<lambda>i. load32 (memory s) (descriptor_slot lm i) = 0) [0..<RAOS_MAX_FILE_DESCRIPTORS] of
        None \<Rightarrow> (- ENOMEM, None, s)
      | Some i \<Rightarrow>
          let (desc, s1) = kzalloc 16 s;
              m1 = store32 (memory s1) desc (of_nat (i + 1));
              m2 = store32 m1 (descriptor_slot lm i) desc
          in (0, Some desc, s1\<lparr>memory := m2\<rparr>))"

definition file_get_descriptor :: "'l filelinks_scheme \<Rightarrow> int \<Rightarrow> mem \<Rightarrow> u32" where
  "file_get_descriptor lm fd m =
     (if fd \<le> 0 \<or> RAOS_MAX_FILE_DESCRIPTORS \<le> fd then 0
      else load32 m (filedescriptors_at lm + 4 * word_of_int (fd - 1)))"

definition file_free_descriptor :: "'l filelinks_scheme \<Rightarrow> u32 \<Rightarrow> 'a kstate_scheme \<Rightarrow> 'a kstate_scheme" where
  "file_free_descriptor lm fdesc s =
     kfree fdesc (s\<lparr>memory := store32 (memory s)
                       (filedescriptors_at lm + 4 * (load32 (memory s) fdesc - 1)) 0\<rparr>)"

definition file_get_mode_by_string :: "'l filelinks_scheme \<Rightarrow> u32 \<Rightarrow> mem \<Rightarrow> u32" where
  "file_get_mode_by_string lm str m =
     (if strncmp m str (mode_r_at lm) 1 = 0 then FILE_MODE_READ
      else if strncmp m str (mode_w_at lm) 1 = 0 then FILE_MODE_WRITE
      else if strncmp m str (mode_a_at lm) 1 = 0 then FILE_MODE_APPEND
      else FILE_MODE_INVALID)"

subsection \<open>Files\<close>

definition fopen ::
    "'l filelinks_scheme \<Rightarrow> 'd ports \<Rightarrow> u32 \<Rightarrow> u32 \<Rightarrow> ('d, 'a) iostate_scheme \<Rightarrow>
     (int \<times> ('d, 'a) iostate_scheme) option" where
  "fopen lm hw filename mode_str s = do {
     (res, s') \<leftarrow> do {
       (root_path, s1) \<leftarrow> path_parse lm filename NULL s;
       if root_path = NULL then Some (- EINVARG, s1)
       else if load32 (memory s1) (root_path + 4) = NULL then Some (- EINVARG, s1)
       else
         let disk = disk_get lm (sint (load32 (memory s1) root_path))
         in if disk = NULL then Some (- EIO, s1)
            else if load32 (memory s1) (disk + 12) = NULL then Some (- EIO, s1)
            else let mode = file_get_mode_by_string lm mode_str (memory s1)
                 in if mode = FILE_MODE_INVALID then Some (- EINVARG, s1)
                    else do {
                      (private, s2) \<leftarrow> filesystem_open lm hw (load32 (memory s1) (disk + 12)) disk
                                         (load32 (memory s1) (root_path + 4)) mode s1;
                      if ISERR private then Some (sint private, s2)
                      else case file_new_descriptor lm s2 of
                             (res, None, s3) \<Rightarrow> Some (res, s3)
                           | (res, Some desc, s3) \<Rightarrow>
                               let m1 = store32 (memory s3) (desc + 4) (load32 (memory s3) (disk + 12));
                                   m2 = store32 m1 (desc + 8) private;
                                   m3 = store32 m2 (desc + 12) disk
                               in Some (sint (load32 m3 desc), s3\<lparr>memory := m3\<rparr>)
                    }
     };
     Some (if res < 0 then 0 else res, s')
   }"

definition fread ::
    "'l filelinks_scheme \<Rightarrow> 'd ports \<Rightarrow> u32 \<Rightarrow> u32 \<Rightarrow> u32 \<Rightarrow> int \<Rightarrow> ('d, 'a) iostate_scheme \<Rightarrow>
     (int \<times> ('d, 'a) iostate_scheme) option" where
  "fread lm hw ptr sz nmemb fd s =
     (if sz = 0 \<or> nmemb = 0 \<or> fd < 1 then Some (- EINVARG, s)
      else let desc = file_get_descriptor lm fd (memory s)
           in if desc = NULL then Some (- EINVARG, s)
              else filesystem_read lm hw (load32 (memory s) (desc + 4)) (load32 (memory s) (desc + 12))
                     (load32 (memory s) (desc + 8)) sz nmemb ptr s)"

definition fseek ::
    "'l filelinks_scheme \<Rightarrow> int \<Rightarrow> int \<Rightarrow> u32 \<Rightarrow> 'a machine_scheme \<Rightarrow> (int \<times> 'a machine_scheme) option" where
  "fseek lm fd offset whence s =
     (let desc = file_get_descriptor lm fd (memory s)
      in if desc = NULL then Some (- EIO, s)
         else filesystem_seek lm (load32 (memory s) (desc + 4)) (load32 (memory s) (desc + 8)) (word_of_int offset) whence s)"

definition fstat ::
    "'l filelinks_scheme \<Rightarrow> int \<Rightarrow> u32 \<Rightarrow> 'a machine_scheme \<Rightarrow> (int \<times> 'a machine_scheme) option" where
  "fstat lm fd stat s =
     (let descriptor = file_get_descriptor lm fd (memory s)
      in if descriptor = NULL then Some (- EIO, s)
         else filesystem_stat lm (load32 (memory s) (descriptor + 4)) (load32 (memory s) (descriptor + 12))
                (load32 (memory s) (descriptor + 8)) stat s)"

definition fclose ::
    "'l filelinks_scheme \<Rightarrow> int \<Rightarrow> 'a kstate_scheme \<Rightarrow> (int \<times> 'a kstate_scheme) option" where
  "fclose lm fd s =
     (let descriptor = file_get_descriptor lm fd (memory s)
      in if descriptor = NULL then Some (- EIO, s)
         else do {
           (res, s1) \<leftarrow> filesystem_close lm (load32 (memory s) (descriptor + 4)) (load32 (memory s) (descriptor + 8)) s;
           Some (if res = RAOS_ALL_OK then (res, file_free_descriptor lm descriptor s1) else (res, s1))
         })"

end
