(* ===== verification/Elf.thy ===== *)
theory Elf
  imports File
begin

text \<open>
  \<^verbatim>\<open>src/src/loader/elf.c\<close>, \<^verbatim>\<open>elf.h\<close>, \<^verbatim>\<open>elfloader.c\<close> and \<^verbatim>\<open>elfloader.h\<close>: loading 32-bit ELF executables.  The packed
  \<^verbatim>\<open>elf_header\<close> (52 bytes), \<^verbatim>\<open>elf32_phdr\<close> (32 bytes) and \<^verbatim>\<open>elf32_shdr\<close> (40 bytes) are read from the loaded image;
  \<^verbatim>\<open>struct elf_file\<close> is 152 bytes of the kernel heap.  \<^verbatim>\<open>elf_load\<close>'s \<^verbatim>\<open>stat\<close> and its \<^verbatim>\<open>"r"\<close> literal have addresses in
  \<open>elflinks\<close>; \<^verbatim>\<open>file_out\<close> is the address the result is stored to.
\<close>

record elflinks = filelinks +
  elf_signature_at :: u32
  elf_mode_at :: u32
  elf_stat_at :: u32

subsection \<open>Fields\<close>

abbreviation (input) e_class :: "mem \<Rightarrow> u32 \<Rightarrow> u8" where "e_class m h \<equiv> m (h + 4)"
abbreviation (input) e_data :: "mem \<Rightarrow> u32 \<Rightarrow> u8" where "e_data m h \<equiv> m (h + 5)"
abbreviation (input) e_type :: "mem \<Rightarrow> u32 \<Rightarrow> u16" where "e_type m h \<equiv> load16 m (h + 16)"
abbreviation (input) e_entry :: "mem \<Rightarrow> u32 \<Rightarrow> u32" where "e_entry m h \<equiv> load32 m (h + 24)"
abbreviation (input) e_phoff :: "mem \<Rightarrow> u32 \<Rightarrow> u32" where "e_phoff m h \<equiv> load32 m (h + 28)"
abbreviation (input) e_shoff :: "mem \<Rightarrow> u32 \<Rightarrow> u32" where "e_shoff m h \<equiv> load32 m (h + 32)"
abbreviation (input) e_phnum :: "mem \<Rightarrow> u32 \<Rightarrow> int" where "e_phnum m h \<equiv> uint (load16 m (h + 44))"
abbreviation (input) e_shstrndx :: "mem \<Rightarrow> u32 \<Rightarrow> u16" where "e_shstrndx m h \<equiv> load16 m (h + 50)"
abbreviation (input) p_type :: "mem \<Rightarrow> u32 \<Rightarrow> u32" where "p_type m ph \<equiv> load32 m ph"
abbreviation (input) p_offset :: "mem \<Rightarrow> u32 \<Rightarrow> u32" where "p_offset m ph \<equiv> load32 m (ph + 4)"
abbreviation (input) p_vaddr :: "mem \<Rightarrow> u32 \<Rightarrow> u32" where "p_vaddr m ph \<equiv> load32 m (ph + 8)"
abbreviation (input) p_filesz :: "mem \<Rightarrow> u32 \<Rightarrow> u32" where "p_filesz m ph \<equiv> load32 m (ph + 16)"
abbreviation (input) p_memsz :: "mem \<Rightarrow> u32 \<Rightarrow> u32" where "p_memsz m ph \<equiv> load32 m (ph + 20)"
abbreviation (input) p_flags :: "mem \<Rightarrow> u32 \<Rightarrow> u32" where "p_flags m ph \<equiv> load32 m (ph + 24)"

abbreviation (input) RAOS_PROGRAM_VIRTUAL_ADDRESS :: "'a::numeral" where "RAOS_PROGRAM_VIRTUAL_ADDRESS \<equiv> 0x400000"
abbreviation (input) ET_EXEC :: "'a::numeral" where "ET_EXEC \<equiv> 2"
abbreviation (input) PT_LOAD :: "'a::one" where "PT_LOAD \<equiv> 1"
abbreviation (input) PF_W :: "'a::numeral" where "PF_W \<equiv> 2"

subsection \<open>elf.c\<close>

definition elf_get_entry_ptr :: "u32 \<Rightarrow> mem \<Rightarrow> u32" where
  "elf_get_entry_ptr elf_header m = e_entry m elf_header"

definition elf_get_entry :: "u32 \<Rightarrow> mem \<Rightarrow> u32" where
  "elf_get_entry elf_header m = e_entry m elf_header"

subsection \<open>Checks\<close>

definition elf_valid_signature :: "'l elflinks_scheme \<Rightarrow> u32 \<Rightarrow> mem \<Rightarrow> bool" where
  "elf_valid_signature lm buffer m \<longleftrightarrow> memcmp m buffer (elf_signature_at lm) 4 = 0"

definition elf_valid_class :: "u32 \<Rightarrow> mem \<Rightarrow> bool" where
  "elf_valid_class header m \<longleftrightarrow> e_class m header = 0 \<or> e_class m header = 1"

definition elf_valid_encoding :: "u32 \<Rightarrow> mem \<Rightarrow> bool" where
  "elf_valid_encoding header m \<longleftrightarrow> e_data m header = 0 \<or> e_data m header = 1"

definition elf_is_executable :: "u32 \<Rightarrow> mem \<Rightarrow> bool" where
  "elf_is_executable header m \<longleftrightarrow> e_type m header = ET_EXEC \<and> RAOS_PROGRAM_VIRTUAL_ADDRESS \<le> e_entry m header"

definition elf_has_program_header :: "u32 \<Rightarrow> mem \<Rightarrow> bool" where
  "elf_has_program_header header m \<longleftrightarrow> e_phoff m header \<noteq> 0"

subsection \<open>Parts of a loaded file\<close>

definition elf_memory :: "u32 \<Rightarrow> mem \<Rightarrow> u32" where
  "elf_memory file m = load32 m (file + 132)"

definition elf_header :: "u32 \<Rightarrow> mem \<Rightarrow> u32" where
  "elf_header file m = load32 m (file + 132)"

definition elf_sheader :: "u32 \<Rightarrow> mem \<Rightarrow> u32" where
  "elf_sheader header m = header + e_shoff m header"

definition elf_pheader :: "u32 \<Rightarrow> mem \<Rightarrow> u32" where
  "elf_pheader header m = (if e_phoff m header = 0 then 0 else header + e_phoff m header)"

definition elf_program_header :: "u32 \<Rightarrow> int \<Rightarrow> mem \<Rightarrow> u32" where
  "elf_program_header header index m = elf_pheader header m + 32 * word_of_int index"

definition elf_section :: "u32 \<Rightarrow> int \<Rightarrow> mem \<Rightarrow> u32" where
  "elf_section header index m = elf_sheader header m + 40 * word_of_int index"

definition elf_phdr_phys_address :: "u32 \<Rightarrow> u32 \<Rightarrow> mem \<Rightarrow> u32" where
  "elf_phdr_phys_address file phdr m = elf_memory file m + p_offset m phdr"

definition elf_str_table :: "u32 \<Rightarrow> mem \<Rightarrow> u32" where
  "elf_str_table header m = header + load32 m (elf_section header (uint (e_shstrndx m header)) m + 16)"

definition elf_virtual_base :: "u32 \<Rightarrow> mem \<Rightarrow> u32" where
  "elf_virtual_base file m = load32 m (file + 136)"

definition elf_virtual_end :: "u32 \<Rightarrow> mem \<Rightarrow> u32" where
  "elf_virtual_end file m = load32 m (file + 140)"

definition elf_phys_base :: "u32 \<Rightarrow> mem \<Rightarrow> u32" where
  "elf_phys_base file m = load32 m (file + 144)"

definition elf_phys_end :: "u32 \<Rightarrow> mem \<Rightarrow> u32" where
  "elf_phys_end file m = load32 m (file + 148)"

definition elf_validate_loaded :: "'l elflinks_scheme \<Rightarrow> u32 \<Rightarrow> mem \<Rightarrow> int" where
  "elf_validate_loaded lm header m =
     (if elf_valid_signature lm header m \<and> elf_valid_class header m \<and> elf_valid_encoding header m
         \<and> elf_has_program_header header m
      then RAOS_ALL_OK else - EINFORMAT)"

subsection \<open>Loading\<close>

definition elf_process_phdr_pt_load :: "u32 \<Rightarrow> u32 \<Rightarrow> mem \<Rightarrow> int \<times> mem" where
  "elf_process_phdr_pt_load elf_file phdr m =
     (let m2 = (if p_vaddr m phdr \<le> load32 m (elf_file + 136) \<or> load32 m (elf_file + 136) = 0
                then let m1 = store32 m (elf_file + 136) (p_vaddr m phdr)
                     in store32 m1 (elf_file + 144) (elf_memory elf_file m1 + p_offset m1 phdr)
                else m);
          end_virtual_address = p_vaddr m2 phdr + p_filesz m2 phdr;
          m4 = (if load32 m2 (elf_file + 140) \<le> end_virtual_address \<or> load32 m2 (elf_file + 140) = 0
                then let m3 = store32 m2 (elf_file + 140) end_virtual_address
                     in store32 m3 (elf_file + 148) (elf_memory elf_file m3 + p_offset m3 phdr + p_filesz m3 phdr)
                else m2)
      in (0, m4))"

definition elf_process_pheader :: "u32 \<Rightarrow> u32 \<Rightarrow> mem \<Rightarrow> int \<times> mem" where
  "elf_process_pheader elf_file phdr m =
     (if p_type m phdr = PT_LOAD then elf_process_phdr_pt_load elf_file phdr m else (0, m))"

function elf_pheaders_loop :: "u32 \<Rightarrow> u32 \<Rightarrow> int \<Rightarrow> int \<Rightarrow> mem \<Rightarrow> int \<times> mem" where
  "elf_pheaders_loop elf_file header i res m =
     (if i < e_phnum m header
      then let phdr = elf_program_header header i m;
               (res', m') = elf_process_pheader elf_file phdr m
           in if res' < 0 then (res', m') else elf_pheaders_loop elf_file header (i + 1) res' m'
      else (res, m))"
  by pat_completeness auto
termination
proof (relation "measure (\<lambda>(f, h, i, r, m). nat (65536 - i))")
  fix header :: u32 and i :: int and m :: mem
  assume "i < e_phnum m header"
  then have "i < 65536" using uint_lt2p[of "load16 m (header + 44)"] by simp
  then show "\<And>x xa y f. ((f, header, i + 1, xa, y), f, header, i, x, m) \<in> measure (\<lambda>(f, h, i, r, m). nat (65536 - i))"
    by simp
qed auto

declare elf_pheaders_loop.simps [simp del]

definition elf_process_pheaders :: "u32 \<Rightarrow> mem \<Rightarrow> int \<times> mem" where
  "elf_process_pheaders elf_file m = elf_pheaders_loop elf_file (elf_header elf_file m) 0 0 m"

definition elf_process_loaded :: "'l elflinks_scheme \<Rightarrow> u32 \<Rightarrow> mem \<Rightarrow> int \<times> mem" where
  "elf_process_loaded lm elf_file m =
     (let res = elf_validate_loaded lm (elf_header elf_file m) m
      in if res < 0 then (res, m) else elf_process_pheaders elf_file m)"

definition elf_load ::
    "'l elflinks_scheme \<Rightarrow> 'd ports \<Rightarrow> u32 \<Rightarrow> u32 \<Rightarrow> ('d, 'a) iostate_scheme \<Rightarrow>
     (int \<times> ('d, 'a) iostate_scheme) option" where
  "elf_load lm hw filename file_out s =
     (let (elf_file, s1) = kzalloc 152 s;
          out = (\<lambda>fd (res, s). do { (_, s') \<leftarrow> fclose lm fd s; Some (res, s') })
      in do {
        (fd, s2) \<leftarrow> fopen lm hw filename (elf_mode_at lm) s1;
        if fd \<le> 0 then out 0 (- EIO, s2)
        else do {
          (res1, s3) \<leftarrow> fstat lm fd (elf_stat_at lm) s2;
          if res1 < 0 then out fd (res1, s3)
          else do {
            let (buf, s4) = kzalloc (load32 (memory s3) (elf_stat_at lm + 4)) s3;
            let s5 = s4\<lparr>memory := store32 (memory s4) (elf_file + 132) buf\<rparr>;
            (res2, s6) \<leftarrow> fread lm hw (load32 (memory s5) (elf_file + 132)) (load32 (memory s5) (elf_stat_at lm + 4)) 1 fd s5;
            if res2 < 0 then out fd (res2, s6)
            else let (res3, m7) = elf_process_loaded lm elf_file (memory s6);
                     s7 = s6\<lparr>memory := m7\<rparr>
                 in if res3 < 0 then out fd (res3, s7)
                    else out fd (res3, s7\<lparr>memory := store32 (memory s7) file_out elf_file\<rparr>)
          }
        }
      })"

definition elf_close :: "u32 \<Rightarrow> 'a kstate_scheme \<Rightarrow> 'a kstate_scheme" where
  "elf_close file s =
     (if file = NULL then s
      else kfree file (kfree (load32 (memory s) (file + 132)) s))"

end
