(* ===== verification/Task.thy ===== *)
theory Task
  imports Elf
begin

text \<open>
  \<^verbatim>\<open>src/src/task/task.c\<close> and \<^verbatim>\<open>task.h\<close>, with \<^verbatim>\<open>kernel_page\<close> of \<^verbatim>\<open>kernel.c\<close>: tasks and the round-robin list.

  \<open>tstate\<close> adds the globals \<^verbatim>\<open>current_task\<close>, \<^verbatim>\<open>task_tail\<close>, \<^verbatim>\<open>task_head\<close> and \<^verbatim>\<open>kernel_chunk\<close>, and the selector in the
  data-segment registers.  A \<^verbatim>\<open>struct task\<close> is 64 bytes: page directory, twelve saved registers, \<^verbatim>\<open>next\<close>, \<^verbatim>\<open>prev\<close>,
  \<^verbatim>\<open>process\<close>.  While a task's page directory is loaded, the kernel's accesses go through it: \<open>vread8\<close> and
  \<open>vwrite8\<close> walk the tables as the processor does, and a page that is not present is a fault the kernel does not
  handle (\<open>None\<close>).  \<^verbatim>\<open>task_return\<close> of \<^verbatim>\<open>task.asm\<close> leaves for user mode: its result is the context it loads.
\<close>

subsection \<open>State\<close>

record 'd tstate = "'d iostate" +
  current_task :: u32
  task_tail :: u32
  task_head :: u32
  kernel_chunk :: u32
  data_segments :: u16

record user_context =
  uc_edi :: u32
  uc_esi :: u32
  uc_ebp :: u32
  uc_ebx :: u32
  uc_edx :: u32
  uc_ecx :: u32
  uc_eax :: u32
  uc_ip :: u32
  uc_cs :: u32
  uc_esp :: u32
  uc_ss :: u32

abbreviation (input) USER_DATA_SEGMENT :: "'a::numeral" where "USER_DATA_SEGMENT \<equiv> 0x23"
abbreviation (input) USER_CODE_SEGMENT :: "'a::numeral" where "USER_CODE_SEGMENT \<equiv> 0x1b"
abbreviation (input) RAOS_PROGRAM_VIRTUAL_STACK_ADDRESS_START :: "'a::numeral" where
  "RAOS_PROGRAM_VIRTUAL_STACK_ADDRESS_START \<equiv> 0x3FF000"
abbreviation (input) PROCESS_FILETYPE_ELF :: "'a::zero" where "PROCESS_FILETYPE_ELF \<equiv> 0"
abbreviation (input) PROCESS_FILETYPE_BINARY :: "'a::one" where "PROCESS_FILETYPE_BINARY \<equiv> 1"

abbreviation (input) task_next_of :: "mem \<Rightarrow> u32 \<Rightarrow> u32" where "task_next_of m t \<equiv> load32 m (t + 52)"
abbreviation (input) task_prev_of :: "mem \<Rightarrow> u32 \<Rightarrow> u32" where "task_prev_of m t \<equiv> load32 m (t + 56)"
abbreviation (input) process_filetype :: "mem \<Rightarrow> u32 \<Rightarrow> u8" where "process_filetype m p \<equiv> m (p + 8328)"
abbreviation (input) process_elf_file :: "mem \<Rightarrow> u32 \<Rightarrow> u32" where "process_elf_file m p \<equiv> load32 m (p + 8332)"

subsection \<open>Memory through the loaded page directory\<close>

definition vphys :: "('d, 'a) iostate_scheme \<Rightarrow> u32 \<Rightarrow> u32 option" where
  "vphys s v = (if paging_on s then mmu_translate (memory s) (cr3 s) v else Some v)"

definition vread8 :: "u32 \<Rightarrow> ('d, 'a) iostate_scheme \<Rightarrow> u8 option" where
  "vread8 v s = map_option (memory s) (vphys s v)"

definition vwrite8 :: "u32 \<Rightarrow> u8 \<Rightarrow> ('d, 'a) iostate_scheme \<Rightarrow> ('d, 'a) iostate_scheme option" where
  "vwrite8 v b s = map_option (\<lambda>p. s\<lparr>memory := (memory s)(p := b)\<rparr>) (vphys s v)"

definition vload32 :: "u32 \<Rightarrow> ('d, 'a) iostate_scheme \<Rightarrow> u32 option" where
  "vload32 v s = do {
     b0 \<leftarrow> vread8 v s;
     b1 \<leftarrow> vread8 (v + 1) s;
     b2 \<leftarrow> vread8 (v + 2) s;
     b3 \<leftarrow> vread8 (v + 3) s;
     Some (ucast b0 OR push_bit 8 (ucast b1) OR push_bit 16 (ucast b2) OR push_bit 24 (ucast b3))
   }"

text \<open>\<^verbatim>\<open>strncpy\<close> while a page directory is loaded.\<close>

function vstrncpy_loop ::
    "u32 \<Rightarrow> u32 \<Rightarrow> int \<Rightarrow> int \<Rightarrow> ('d, 'a) iostate_scheme \<Rightarrow> ('d, 'a) iostate_scheme option" where
  "vstrncpy_loop dest src n i s =
     (if i < n - 1
      then do {
        c \<leftarrow> vread8 (src + word_of_int i) s;
        if c \<noteq> 0
        then do {
          s1 \<leftarrow> vwrite8 (dest + word_of_int i) c s;
          vstrncpy_loop dest src n (i + 1) s1
        }
        else vwrite8 (dest + word_of_int i) 0 s
      }
      else vwrite8 (dest + word_of_int i) 0 s)"
  by pat_completeness auto
termination
  by (relation "measure (\<lambda>(dest, src, n, i, s). nat (n - 1 - i))") auto

declare vstrncpy_loop.simps [simp del]

definition vstrncpy ::
    "u32 \<Rightarrow> u32 \<Rightarrow> int \<Rightarrow> ('d, 'a) iostate_scheme \<Rightarrow> ('d, 'a) iostate_scheme option" where
  "vstrncpy dest src n s = vstrncpy_loop dest src n 0 s"

subsection \<open>Assembly helpers\<close>

definition user_registers :: "('d, 'a) tstate_scheme \<Rightarrow> ('d, 'a) tstate_scheme" where
  "user_registers s = s\<lparr>data_segments := 0x23\<rparr>"

definition kernel_registers :: "('d, 'a) tstate_scheme \<Rightarrow> ('d, 'a) tstate_scheme" where
  "kernel_registers s = s\<lparr>data_segments := 0x10\<rparr>"

definition load_registers :: "mem \<Rightarrow> u32 \<Rightarrow> user_context" where
  "load_registers m rgs =
     \<lparr>uc_edi = load32 m rgs, uc_esi = load32 m (rgs + 4), uc_ebp = load32 m (rgs + 8),
      uc_ebx = load32 m (rgs + 12), uc_edx = load32 m (rgs + 16), uc_ecx = load32 m (rgs + 20),
      uc_eax = load32 m (rgs + 24), uc_ip = load32 m (rgs + 28), uc_cs = load32 m (rgs + 32),
      uc_esp = load32 m (rgs + 40), uc_ss = load32 m (rgs + 44)\<rparr>"

definition task_return ::
    "u32 \<Rightarrow> ('d, 'a) tstate_scheme \<Rightarrow> (user_context \<times> ('d, 'a) tstate_scheme) option" where
  "task_return rgs s =
     Some (load_registers (memory s) rgs,
           s\<lparr>data_segments := ucast (load32 (memory s) (rgs + 44)), interrupts_on := True\<rparr>)"

subsection \<open>kernel.c: the kernel's address space\<close>

definition kernel_page :: "('d, 'a) tstate_scheme \<Rightarrow> ('d, 'a) tstate_scheme" where
  "kernel_page s = (let s1 = kernel_registers s in paging_switch (kernel_chunk s1) s1)"

subsection \<open>The task list\<close>

definition task_get_next :: "('d, 'a) tstate_scheme \<Rightarrow> u32" where
  "task_get_next s =
     (if task_next_of (memory s) (current_task s) = NULL then task_head s
      else task_next_of (memory s) (current_task s))"

definition task_list_remove :: "u32 \<Rightarrow> ('d, 'a) tstate_scheme \<Rightarrow> ('d, 'a) tstate_scheme" where
  "task_list_remove task s =
     (let s1 = (if task_prev_of (memory s) task \<noteq> NULL
                then s\<lparr>memory := store32 (memory s) (task_prev_of (memory s) task + 52) (task_next_of (memory s) task)\<rparr>
                else s);
          s2 = (if task_next_of (memory s1) task \<noteq> NULL
                then s1\<lparr>memory := store32 (memory s1) (task_next_of (memory s1) task + 56) (task_prev_of (memory s1) task)\<rparr>
                else s1);
          s3 = (if task = task_head s2 then s2\<lparr>task_head := task_next_of (memory s2) task\<rparr> else s2);
          s4 = (if task = task_tail s3 then s3\<lparr>task_tail := task_prev_of (memory s3) task\<rparr> else s3)
      in if task = current_task s4 then s4\<lparr>current_task := task_get_next s4\<rparr> else s4)"

definition task_free :: "u32 \<Rightarrow> ('d, 'a) tstate_scheme \<Rightarrow> int \<times> ('d, 'a) tstate_scheme" where
  "task_free task s =
     (let s1 = paging_free_4gb (load32 (memory s) task) s;
          s2 = task_list_remove task s1
      in (0, kfree task s2))"

definition task_init :: "u32 \<Rightarrow> u32 \<Rightarrow> ('d, 'a) tstate_scheme \<Rightarrow> int \<times> ('d, 'a) tstate_scheme" where
  "task_init task process s =
     (let s0 = s\<lparr>memory := memset (memory s) task 0 64\<rparr>;
          (chunk, s1) = paging_new_4gb 5 s0;
          s2 = s1\<lparr>memory := store32 (memory s1) task chunk\<rparr>
      in if load32 (memory s2) task = NULL then (- EIO, s2)
         else let m3 = store32 (memory s2) (task + 32) RAOS_PROGRAM_VIRTUAL_ADDRESS;
                  m4 = (if process_filetype m3 process = PROCESS_FILETYPE_ELF
                        then store32 m3 (task + 32) (e_entry m3 (elf_header (process_elf_file m3 process) m3)) else m3);
                  m5 = store32 m4 (task + 48) USER_DATA_SEGMENT;
                  m6 = store32 m5 (task + 36) USER_CODE_SEGMENT;
                  m7 = store32 m6 (task + 44) RAOS_PROGRAM_VIRTUAL_STACK_ADDRESS_START;
                  m8 = store32 m7 (task + 60) process
              in (0, s2\<lparr>memory := m8\<rparr>))"

text \<open>
  The linking part of \<^verbatim>\<open>task_new\<close>: the first task becomes head, tail and current; a later one is put behind the tail.
\<close>

definition task_link :: "u32 \<Rightarrow> ('d, 'a) tstate_scheme \<Rightarrow> ('d, 'a) tstate_scheme" where
  "task_link task s =
     (if task_head s = 0 then s\<lparr>task_head := task, task_tail := task, current_task := task\<rparr>
      else let m1 = store32 (memory s) (task_tail s + 52) task;
               m2 = store32 m1 (task + 56) (task_tail s)
           in s\<lparr>memory := m2, task_tail := task\<rparr>)"

definition task_new :: "u32 \<Rightarrow> ('d, 'a) tstate_scheme \<Rightarrow> u32 \<times> ('d, 'a) tstate_scheme" where
  "task_new process s =
     (let (task, s1) = kzalloc 64 s;
          (res, s2) = (if task = NULL then (- ENOMEM, s1)
                       else let (res, s') = task_init task process s1
                            in if res \<noteq> RAOS_ALL_OK then (res, s') else (res, task_link task s'))
      in if res < 0 then (ERROR res, snd (task_free task s2)) else (task, s2))"

definition task_current :: "('d, 'a) tstate_scheme \<Rightarrow> u32" where
  "task_current s = current_task s"

subsection \<open>Switching\<close>

definition task_switch :: "u32 \<Rightarrow> ('d, 'a) tstate_scheme \<Rightarrow> int \<times> ('d, 'a) tstate_scheme" where
  "task_switch task s =
     (let s1 = s\<lparr>current_task := task\<rparr>
      in (0, paging_switch (load32 (memory s1) task) s1))"

definition task_next :: "('d, 'a) tstate_scheme \<Rightarrow> (user_context \<times> ('d, 'a) tstate_scheme) option" where
  "task_next s =
     (let next_task = task_get_next s
      in if next_task = NULL then panic (map of_char ''No more tasks!'' @ [10]) s
         else let (_, s1) = task_switch next_task s in task_return (next_task + 4) s1)"

definition task_save_state :: "u32 \<Rightarrow> u32 \<Rightarrow> mem \<Rightarrow> mem" where
  "task_save_state task frame m =
     fold (\<lambda>(off, src) m. store32 m (task + off) (load32 m (frame + src)))
       [(32, 32), (36, 36), (40, 40), (44, 44), (48, 48), (28, 28), (12, 8), (16, 16), (24, 24), (4, 0), (20, 20), (8, 4)] m"

definition task_current_save_stat :: "u32 \<Rightarrow> ('d, 'a) tstate_scheme \<Rightarrow> ('d, 'a) tstate_scheme option" where
  "task_current_save_stat frame s =
     (if task_current s = NULL then panic (map of_char ''No current task to save'' @ [10]) s
      else Some (s\<lparr>memory := task_save_state (task_current s) frame (memory s)\<rparr>))"

definition task_page :: "('d, 'a) tstate_scheme \<Rightarrow> int \<times> ('d, 'a) tstate_scheme" where
  "task_page s = (let s1 = user_registers s; (_, s2) = task_switch (current_task s1) s1 in (0, s2))"

definition task_page_task :: "u32 \<Rightarrow> ('d, 'a) tstate_scheme \<Rightarrow> int \<times> ('d, 'a) tstate_scheme" where
  "task_page_task task s = (let s1 = user_registers s in (0, paging_switch (load32 (memory s1) task) s1))"

definition task_run_first_ever_task ::
    "('d, 'a) tstate_scheme \<Rightarrow> (user_context \<times> ('d, 'a) tstate_scheme) option" where
  "task_run_first_ever_task s =
     (if current_task s = NULL
      then panic (map of_char ''task_run_first_ever_task(): No current task exists!'' @ [10]) s
      else let (_, s1) = task_switch (task_head s) s in task_return (task_head s1 + 4) s1)"

subsection \<open>Reaching into a task's memory\<close>

definition copy_string_from_task ::
    "u32 \<Rightarrow> u32 \<Rightarrow> u32 \<Rightarrow> int \<Rightarrow> ('d, 'a) tstate_scheme \<Rightarrow> (int \<times> ('d, 'a) tstate_scheme) option" where
  "copy_string_from_task task virtual phys max_len s =
     (if max_len \<ge> PAGING_PAGE_SIZE then Some (- EINVARG, s)
      else let (tmp, s1) = kzalloc (word_of_int max_len) s
           in if tmp = NULL then Some (- ENOMEM, s1)
              else let task_directory = load32 (memory s1) (load32 (memory s1) task);
                       old_entry = paging_get task_directory tmp (memory s1);
                       (_, m2) = paging_map (load32 (memory s1) task) tmp tmp 7 (memory s1);
                       s2 = s1\<lparr>memory := m2\<rparr>;
                       s3 = paging_switch (load32 (memory s2) task) s2
                   in do {
                     s4 \<leftarrow> vstrncpy tmp virtual max_len s3;
                     let s5 = kernel_page s4;
                     let (res, m6) = paging_set task_directory tmp old_entry (memory s5);
                     let s6 = s5\<lparr>memory := m6\<rparr>;
                     if res < 0 then Some (- EIO, kfree tmp s6)
                     else Some (res, kfree tmp (s6\<lparr>memory := strncpy (memory s6) phys tmp max_len\<rparr>))
                   })"

definition task_get_stack_item :: "u32 \<Rightarrow> int \<Rightarrow> ('d, 'a) tstate_scheme \<Rightarrow> (u32 \<times> ('d, 'a) tstate_scheme) option" where
  "task_get_stack_item task index s =
     (let sp_ptr = load32 (memory s) (task + 44);
          (_, s1) = task_page_task task s
      in do {
        result \<leftarrow> vload32 (sp_ptr + 4 * word_of_int index) s1;
        Some (result, kernel_page s1)
      })"

definition task_virtual_address_to_physical :: "u32 \<Rightarrow> u32 \<Rightarrow> mem \<Rightarrow> u32" where
  "task_virtual_address_to_physical task virtual_address m =
     paging_get_physical_address (load32 m (load32 m task)) virtual_address m"

end
