(* ===== verification/Process.thy ===== *)
theory Process
  imports Task
begin

text \<open>
  \<^verbatim>\<open>src/src/task/process.c\<close> and \<^verbatim>\<open>process.h\<close>: processes, their allocations, and loading a program.  A \<^verbatim>\<open>struct process\<close>
  is 9384 bytes of the kernel heap (id at 0, file name at 2, task at 132, 1024 allocations of pointer and size
  from 136 on, file type at 8328, program data at 8332, stack at 8336, size at 8340, arguments at 9376);
  \<^verbatim>\<open>processes\<close> is an array of 12 pointers.  Out parameters are addresses.
\<close>

subsection \<open>State and addresses\<close>

record 'd prstate = "'d tstate" +
  current_process :: u32

record processlinks = elflinks +
  processes_at :: u32
  binary_mode_at :: u32
  binary_stat_at :: u32
  elf_file_at :: u32
  stale_process :: u32

abbreviation (input) RAOS_MAX_PROCESSES :: "'a::numeral" where "RAOS_MAX_PROCESSES \<equiv> 12"
abbreviation (input) RAOS_MAX_PROGRAM_ALLOCATIONS :: "'a::numeral" where "RAOS_MAX_PROGRAM_ALLOCATIONS \<equiv> 1024"
abbreviation (input) RAOS_USER_PROGRAM_STACK_SIZE :: "'a::numeral" where "RAOS_USER_PROGRAM_STACK_SIZE \<equiv> 16384"
abbreviation (input) RAOS_PROGRAM_VIRTUAL_STACK_ADDRESS_END :: "'a::numeral" where
  "RAOS_PROGRAM_VIRTUAL_STACK_ADDRESS_END \<equiv> 0x3FB000"

abbreviation (input) allocation_at :: "u32 \<Rightarrow> nat \<Rightarrow> u32" where "allocation_at process i \<equiv> process + 136 + 8 * of_nat i"
abbreviation (input) process_task :: "mem \<Rightarrow> u32 \<Rightarrow> u32" where "process_task m p \<equiv> load32 m (p + 132)"
abbreviation (input) process_directory :: "mem \<Rightarrow> u32 \<Rightarrow> u32" where
  "process_directory m p \<equiv> load32 m (process_task m p)"

subsection \<open>The process table\<close>

definition process_init :: "u32 \<Rightarrow> mem \<Rightarrow> mem" where
  "process_init process m = memset m process 0 9384"

definition process_get :: "'l processlinks_scheme \<Rightarrow> int \<Rightarrow> mem \<Rightarrow> u32" where
  "process_get lm process_id m =
     (if process_id < 0 \<or> RAOS_MAX_PROCESSES \<le> process_id then NULL
      else load32 m (processes_at lm + 4 * word_of_int process_id))"

definition process_current :: "('d, 'a) prstate_scheme \<Rightarrow> u32" where
  "process_current s = current_process s"

definition process_switch :: "u32 \<Rightarrow> ('d, 'a) prstate_scheme \<Rightarrow> int \<times> ('d, 'a) prstate_scheme" where
  "process_switch process s = (0, s\<lparr>current_process := process\<rparr>)"

definition process_get_free_slot :: "'l processlinks_scheme \<Rightarrow> mem \<Rightarrow> int" where
  "process_get_free_slot lm m =
     (case find (\<lambda>i. load32 m (processes_at lm + 4 * of_nat i) = 0) [0..<RAOS_MAX_PROCESSES] of
        Some i \<Rightarrow> int i | None \<Rightarrow> - EISTKN)"

definition process_switch_to_any ::
    "'l processlinks_scheme \<Rightarrow> ('d, 'a) prstate_scheme \<Rightarrow> ('d, 'a) prstate_scheme option" where
  "process_switch_to_any lm s =
     (case find (\<lambda>i. load32 (memory s) (processes_at lm + 4 * of_nat i) \<noteq> 0) [0..<RAOS_MAX_PROCESSES] of
        Some i \<Rightarrow> Some (snd (process_switch (load32 (memory s) (processes_at lm + 4 * of_nat i)) s))
      | None \<Rightarrow> panic (map of_char ''No processes to switch too'' @ [10]) s)"

definition process_unlink ::
    "'l processlinks_scheme \<Rightarrow> u32 \<Rightarrow> ('d, 'a) prstate_scheme \<Rightarrow> ('d, 'a) prstate_scheme option" where
  "process_unlink lm process s =
     (let s1 = s\<lparr>memory := store32 (memory s) (processes_at lm + 4 * ucast (load16 (memory s) process)) 0\<rparr>
      in if current_process s1 = process then process_switch_to_any lm s1 else Some s1)"

subsection \<open>Memory of a process\<close>

definition process_find_free_allocation_index :: "u32 \<Rightarrow> mem \<Rightarrow> int" where
  "process_find_free_allocation_index process m =
     (case find (\<lambda>i. load32 m (allocation_at process i) = 0) [0..<RAOS_MAX_PROGRAM_ALLOCATIONS] of
        Some i \<Rightarrow> int i | None \<Rightarrow> - ENOMEM)"

definition process_malloc :: "u32 \<Rightarrow> u32 \<Rightarrow> 'a kstate_scheme \<Rightarrow> u32 \<times> 'a kstate_scheme" where
  "process_malloc process sz s =
     (let (ptr, s1) = kzalloc sz s;
          out_err = (\<lambda>s. (NULL, if ptr \<noteq> NULL then kfree ptr s else s))
      in if ptr = NULL then out_err s1
         else let index = process_find_free_allocation_index process (memory s1)
              in if index < 0 then out_err s1
                 else let (res, m2) = paging_map_to (process_directory (memory s1) process) ptr ptr
                                        (paging_align_address (ptr + sz)) 7 (memory s1);
                          s2 = s1\<lparr>memory := m2\<rparr>
                      in if res < 0 then out_err s2
                         else let m3 = store32 (memory s2) (process + 136 + 8 * word_of_int index) ptr;
                                  m4 = store32 m3 (process + 136 + 8 * word_of_int index + 4) sz
                              in (ptr, s2\<lparr>memory := m4\<rparr>))"

definition process_is_process_pointer :: "u32 \<Rightarrow> u32 \<Rightarrow> mem \<Rightarrow> bool" where
  "process_is_process_pointer process ptr m \<longleftrightarrow>
     list_ex (\<lambda>i. load32 m (allocation_at process i) = ptr) [0..<RAOS_MAX_PROGRAM_ALLOCATIONS]"

definition process_allocation_unjoin :: "u32 \<Rightarrow> u32 \<Rightarrow> mem \<Rightarrow> mem" where
  "process_allocation_unjoin process ptr m =
     fold (\<lambda>i m. if load32 m (allocation_at process i) = ptr
                 then store32 (store32 m (allocation_at process i) 0) (allocation_at process i + 4) 0 else m)
       [0..<RAOS_MAX_PROGRAM_ALLOCATIONS] m"

definition process_get_allocation_by_addr :: "u32 \<Rightarrow> u32 \<Rightarrow> mem \<Rightarrow> u32" where
  "process_get_allocation_by_addr process addr m =
     (case find (\<lambda>i. load32 m (allocation_at process i) = addr) [0..<RAOS_MAX_PROGRAM_ALLOCATIONS] of
        Some i \<Rightarrow> allocation_at process i | None \<Rightarrow> 0)"

definition process_free :: "u32 \<Rightarrow> u32 \<Rightarrow> 'a kstate_scheme \<Rightarrow> 'a kstate_scheme" where
  "process_free process ptr s =
     (let allocation = process_get_allocation_by_addr process ptr (memory s)
      in if allocation = NULL then s
         else let m = memory s;
                  (res, m1) = paging_map_to (process_directory m process) (load32 m allocation) (load32 m allocation)
                                (paging_align_address (load32 m allocation + load32 m (allocation + 4))) 0 m;
                  s1 = s\<lparr>memory := m1\<rparr>
              in if res < 0 then s1
                 else kfree ptr (s1\<lparr>memory := process_allocation_unjoin process ptr (memory s1)\<rparr>))"

definition process_terminate_allocations :: "u32 \<Rightarrow> 'a kstate_scheme \<Rightarrow> int \<times> 'a kstate_scheme" where
  "process_terminate_allocations process s =
     (0, fold (\<lambda>i s. process_free process (load32 (memory s) (allocation_at process i)) s)
           [0..<RAOS_MAX_PROGRAM_ALLOCATIONS] s)"

subsection \<open>Termination\<close>

definition process_free_binary_data :: "u32 \<Rightarrow> 'a kstate_scheme \<Rightarrow> int \<times> 'a kstate_scheme" where
  "process_free_binary_data process s = (0, kfree (load32 (memory s) (process + 8332)) s)"

definition process_free_elf_data :: "u32 \<Rightarrow> 'a kstate_scheme \<Rightarrow> int \<times> 'a kstate_scheme" where
  "process_free_elf_data process s = (0, elf_close (process_elf_file (memory s) process) s)"

definition process_free_program_data :: "u32 \<Rightarrow> 'a kstate_scheme \<Rightarrow> int \<times> 'a kstate_scheme" where
  "process_free_program_data process s =
     (if process_filetype (memory s) process = PROCESS_FILETYPE_BINARY then process_free_binary_data process s
      else if process_filetype (memory s) process = PROCESS_FILETYPE_ELF then process_free_elf_data process s
      else (- EINVARG, s))"

definition process_terminate ::
    "'l processlinks_scheme \<Rightarrow> u32 \<Rightarrow> ('d, 'a) prstate_scheme \<Rightarrow> (int \<times> ('d, 'a) prstate_scheme) option" where
  "process_terminate lm process s =
     (let (res1, s1) = process_terminate_allocations process s
      in if res1 < 0 then Some (res1, s1)
         else let (res2, s2) = process_free_program_data process s1
              in if res2 < 0 then Some (res2, s2)
                 else let s3 = kfree (load32 (memory s2) (process + 8336)) s2;
                          (_, s4) = task_free (process_task (memory s3) process) s3
                      in do {
                        s5 \<leftarrow> process_unlink lm process s4;
                        Some (res2, s5)
                      })"

subsection \<open>Arguments\<close>

definition process_get_arguments :: "u32 \<Rightarrow> u32 \<Rightarrow> u32 \<Rightarrow> mem \<Rightarrow> mem" where
  "process_get_arguments process argc argv m =
     (let m1 = store32 m argc (load32 m (process + 9376))
      in store32 m1 argv (load32 m1 (process + 9380)))"

partial_function (option) count_arguments_loop :: "u32 \<Rightarrow> int \<Rightarrow> mem \<Rightarrow> int option" where
  "count_arguments_loop current i m =
     (if current \<noteq> NULL then count_arguments_loop (load32 m (current + 512)) (wrap32 (i + 1)) m else Some i)"

definition process_count_command_arguments :: "u32 \<Rightarrow> mem \<Rightarrow> int option" where
  "process_count_command_arguments root_argument m = count_arguments_loop root_argument 0 m"

partial_function (option) inject_arguments_loop ::
    "u32 \<Rightarrow> u32 \<Rightarrow> u32 \<Rightarrow> int \<Rightarrow> 'a kstate_scheme \<Rightarrow> (int \<times> 'a kstate_scheme) option" where
  "inject_arguments_loop process argv current i s =
     (if current \<noteq> NULL
      then let (argument_str, s1) = process_malloc process 512 s
           in if argument_str = NULL then Some (- ENOMEM, s1)
              else let m1 = strncpy (memory s1) argument_str current 512;
                       m2 = store32 m1 (argv + 4 * word_of_int i) argument_str
                   in inject_arguments_loop process argv (load32 m2 (current + 512)) (wrap32 (i + 1)) (s1\<lparr>memory := m2\<rparr>)
      else Some (0, s))"

definition process_inject_arguments :: "u32 \<Rightarrow> u32 \<Rightarrow> 'a kstate_scheme \<Rightarrow> (int \<times> 'a kstate_scheme) option" where
  "process_inject_arguments process root_argument s = do {
     argc \<leftarrow> process_count_command_arguments root_argument (memory s);
     if argc = 0 then Some (- EIO, s)
     else let (argv, s1) = process_malloc process (4 * word_of_int argc) s
          in if argv = NULL then Some (- ENOMEM, s1)
             else do {
               (res, s2) \<leftarrow> inject_arguments_loop process argv root_argument 0 s1;
               if res < 0 then Some (res, s2)
               else let m1 = store32 (memory s2) (process + 9376) (word_of_int argc)
                    in Some (res, s2\<lparr>memory := store32 m1 (process + 9380) argv\<rparr>)
             }
   }"

subsection \<open>Loading\<close>

definition process_load_binary ::
    "'l processlinks_scheme \<Rightarrow> 'd ports \<Rightarrow> u32 \<Rightarrow> u32 \<Rightarrow> ('d, 'a) iostate_scheme \<Rightarrow>
     (int \<times> ('d, 'a) iostate_scheme) option" where
  "process_load_binary lm hw filename process s = do {
     (fd, s1) \<leftarrow> fopen lm hw filename (binary_mode_at lm) s;
     (res, ptr, s2) \<leftarrow>
       (if fd = 0 then Some (- EIO, NULL, s1)
        else do {
          (res1, s3) \<leftarrow> fstat lm fd (binary_stat_at lm) s1;
          if res1 \<noteq> RAOS_ALL_OK then Some (res1, NULL, s3)
          else do {
            let (ptr, s4) = kzalloc (load32 (memory s3) (binary_stat_at lm + 4)) s3;
            if ptr = NULL then Some (- ENOMEM, NULL, s4)
            else do {
              (n, s5) \<leftarrow> fread lm hw ptr (load32 (memory s4) (binary_stat_at lm + 4)) 1 fd s4;
              if n \<noteq> 1 then Some (- EIO, ptr, s5)
              else let m1 = (memory s5)(process + 8328 := PROCESS_FILETYPE_BINARY);
                       m2 = store32 m1 (process + 8332) ptr;
                       m3 = store32 m2 (process + 8340) (load32 m2 (binary_stat_at lm + 4))
                   in Some (res1, ptr, s5\<lparr>memory := m3\<rparr>)
            }
          }
        });
     let s6 = (if res < 0 \<and> ptr \<noteq> NULL then kfree ptr s2 else s2);
     (_, s7) \<leftarrow> fclose lm fd s6;
     Some (res, s7)
   }"

definition process_load_elf ::
    "'l processlinks_scheme \<Rightarrow> 'd ports \<Rightarrow> u32 \<Rightarrow> u32 \<Rightarrow> ('d, 'a) iostate_scheme \<Rightarrow>
     (int \<times> ('d, 'a) iostate_scheme) option" where
  "process_load_elf lm hw filename process s = do {
     (res, s1) \<leftarrow> elf_load lm hw filename (elf_file_at lm) (s\<lparr>memory := store32 (memory s) (elf_file_at lm) 0\<rparr>);
     if res < 0 then Some (res, s1)
     else let m1 = (memory s1)(process + 8328 := PROCESS_FILETYPE_ELF)
          in Some (res, s1\<lparr>memory := store32 m1 (process + 8332) (load32 m1 (elf_file_at lm))\<rparr>)
   }"

definition process_load_data ::
    "'l processlinks_scheme \<Rightarrow> 'd ports \<Rightarrow> u32 \<Rightarrow> u32 \<Rightarrow> ('d, 'a) iostate_scheme \<Rightarrow>
     (int \<times> ('d, 'a) iostate_scheme) option" where
  "process_load_data lm hw filename process s = do {
     (res, s1) \<leftarrow> process_load_elf lm hw filename process s;
     if res = - EINFORMAT then process_load_binary lm hw filename process s1 else Some (res, s1)
   }"

definition process_map_binary :: "u32 \<Rightarrow> mem \<Rightarrow> int \<times> mem" where
  "process_map_binary process m =
     (let ptr = load32 m (process + 8332);
          (_, m1) = paging_map_to (process_directory m process) RAOS_PROGRAM_VIRTUAL_ADDRESS ptr
                      (paging_align_address (ptr + load32 m (process + 8340))) 7 m
      in (0, m1))"

function process_map_elf_loop :: "u32 \<Rightarrow> u32 \<Rightarrow> u32 \<Rightarrow> u32 \<Rightarrow> int \<Rightarrow> int \<Rightarrow> mem \<Rightarrow> int \<times> mem" where
  "process_map_elf_loop process elf_file header phdrs i res m =
     (if i < e_phnum m header
      then let phdr = phdrs + 32 * word_of_int i;
               phdr_phys_address = elf_phdr_phys_address elf_file phdr m;
               flags = (if p_flags m phdr AND PF_W \<noteq> 0 then 7 else 5);
               (res', m') = paging_map_to (process_directory m process) (paging_align_to_lower_page (p_vaddr m phdr))
                              (paging_align_to_lower_page phdr_phys_address)
                              (paging_align_address (phdr_phys_address + p_memsz m phdr)) flags m
           in if res' < 0 then (res', m') else process_map_elf_loop process elf_file header phdrs (i + 1) res' m'
      else (res, m))"
  by pat_completeness auto
termination
proof (relation "measure (\<lambda>(p, f, h, ph, i, r, m). nat (65536 - i))")
  fix header :: u32 and i :: int and m :: mem
  assume "i < e_phnum m header"
  then have "i < 65536" using uint_lt2p[of "load16 m (header + 44)"] by simp
  then show "\<And>p f ph r x y. ((p, f, header, ph, i + 1, x, y), p, f, header, ph, i, r, m)
      \<in> measure (\<lambda>(p, f, h, ph, i, r, m). nat (65536 - i))" by simp
qed auto

declare process_map_elf_loop.simps [simp del]

definition process_map_elf :: "u32 \<Rightarrow> mem \<Rightarrow> int \<times> mem" where
  "process_map_elf process m =
     (let elf_file = process_elf_file m process;
          header = elf_header elf_file m;
          phdrs = elf_pheader header m
      in process_map_elf_loop process elf_file header phdrs 0 0 m)"

definition process_map_memory :: "u32 \<Rightarrow> 'a machine_scheme \<Rightarrow> (int \<times> 'a machine_scheme) option" where
  "process_map_memory process s = do {
     (res, m1) \<leftarrow>
       (if process_filetype (memory s) process = PROCESS_FILETYPE_ELF then Some (process_map_elf process (memory s))
        else if process_filetype (memory s) process = PROCESS_FILETYPE_BINARY then Some (process_map_binary process (memory s))
        else panic (map of_char ''process_map_memory: Invalid filetype'' @ [10]) s);
     if res < 0 then Some (res, s\<lparr>memory := m1\<rparr>)
     else let stack = load32 m1 (process + 8336);
              (_, m2) = paging_map_to (process_directory m1 process) RAOS_PROGRAM_VIRTUAL_STACK_ADDRESS_END stack
                          (paging_align_address (stack + RAOS_USER_PROGRAM_STACK_SIZE)) 7 m1
          in Some (res, s\<lparr>memory := m2\<rparr>)
   }"

definition process_load_for_slot ::
    "'l processlinks_scheme \<Rightarrow> 'd ports \<Rightarrow> u32 \<Rightarrow> u32 \<Rightarrow> int \<Rightarrow> ('d, 'a) tstate_scheme \<Rightarrow>
     (int \<times> ('d, 'a) tstate_scheme) option" where
  "process_load_for_slot lm hw filename process_out process_slot s = do {
     (res, process, s') \<leftarrow>
       (if process_get lm process_slot (memory s) \<noteq> 0 then Some (- EISTKN, stale_process lm, s)
        else let (process, s1) = kzalloc 9384 s
             in if process = NULL then Some (- ENOMEM, process, s1)
                else do {
                  let s2 = s1\<lparr>memory := process_init process (memory s1)\<rparr>;
                  (res1, s3) \<leftarrow> process_load_data lm hw filename process s2;
                  if res1 < 0 then Some (res1, process, s3)
                  else do {
                    let (stack, s4) = kzalloc RAOS_USER_PROGRAM_STACK_SIZE s3;
                    if stack = NULL then Some (- ENOMEM, process, s4)
                    else do {
                      let m5 = strncpy (memory s4) (process + 2) filename RAOS_MAX_PATH;
                      let m6 = store32 m5 (process + 8336) stack;
                      let s6 = s4\<lparr>memory := store16 m6 process (word_of_int process_slot)\<rparr>;
                      let (task, s7) = task_new process s6;
                      if sint task = 0 then Some (sint task, process, s7)
                      else do {
                        let s8 = s7\<lparr>memory := store32 (memory s7) (process + 132) task\<rparr>;
                        (res2, s9) \<leftarrow> process_map_memory process s8;
                        if res2 < 0 then Some (res2, process, s9)
                        else let m10 = store32 (memory s9) process_out process;
                                 m11 = store32 m10 (processes_at lm + 4 * word_of_int process_slot) process
                             in Some (res2, process, s9\<lparr>memory := m11\<rparr>)
                      }
                    }
                  }
                });
     Some (if res < 0 \<and> process \<noteq> NULL \<and> process_task (memory s') process \<noteq> NULL
           then (res, snd (task_free (process_task (memory s') process) s')) else (res, s'))
   }"

definition process_load ::
    "'l processlinks_scheme \<Rightarrow> 'd ports \<Rightarrow> u32 \<Rightarrow> u32 \<Rightarrow> ('d, 'a) tstate_scheme \<Rightarrow>
     (int \<times> ('d, 'a) tstate_scheme) option" where
  "process_load lm hw filename process_out s =
     (let process_slot = process_get_free_slot lm (memory s)
      in if process_slot < 0 then Some (- EISTKN, s)
         else process_load_for_slot lm hw filename process_out process_slot s)"

definition process_load_switch ::
    "'l processlinks_scheme \<Rightarrow> 'd ports \<Rightarrow> u32 \<Rightarrow> u32 \<Rightarrow> ('d, 'a) prstate_scheme \<Rightarrow>
     (int \<times> ('d, 'a) prstate_scheme) option" where
  "process_load_switch lm hw filename process_out s = do {
     (res, s1) \<leftarrow> process_load lm hw filename process_out s;
     Some (if res = 0 then (res, snd (process_switch (load32 (memory s1) process_out) s1)) else (res, s1))
   }"

end
