(* ===== verification/Kernel.thy ===== *)
theory Kernel
  imports Gdt Idt Process
begin

text \<open>
  \<^verbatim>\<open>kernel_main\<close> of \<^verbatim>\<open>src/src/kernel.c\<close>, with \<^verbatim>\<open>struct tss\<close> of \<^verbatim>\<open>task/tss.h\<close>: the boot sequence that brings the components
  up, and the file test at its end.  \<^verbatim>\<open>kernel_main\<close> does not return; the model's result is the state in
  which its final loop spins.  After \<^verbatim>\<open>enable_paging\<close> the kernel runs on a directory that maps every page to
  itself, so its accesses stay physical.  The string literals handed to \<^verbatim>\<open>fopen\<close>, the static tables and the local
  objects have addresses in \<open>kernellinks\<close>.
\<close>

subsection \<open>State and addresses\<close>

record 'd kernelstate = "'d prstate" +
  gdtr :: "u16 \<times> u32"
  task_register :: u16

record kernellinks = processlinks +
  gdt_real_at :: u32
  tss_at :: u32
  message_path_at :: u32
  missing_path_at :: u32
  read_mode_at :: u32
  write_mode_at :: u32
  main_buf_at :: u32
  main_stat_at :: u32

abbreviation (input) RAOS_TOTAL_GDT_SEGMENTS :: "'a::numeral" where "RAOS_TOTAL_GDT_SEGMENTS \<equiv> 6"

definition gdt_segments :: "'l kernellinks_scheme \<Rightarrow> gdt_structured list" where
  "gdt_segments lm =
     [\<lparr>seg_base = 0x00, seg_limit = 0x00, seg_type = 0x00\<rparr>,
      \<lparr>seg_base = 0x00, seg_limit = 0xffffffff, seg_type = 0x9a\<rparr>,
      \<lparr>seg_base = 0x00, seg_limit = 0xffffffff, seg_type = 0x92\<rparr>,
      \<lparr>seg_base = 0x00, seg_limit = 0xffffffff, seg_type = 0xf8\<rparr>,
      \<lparr>seg_base = 0x00, seg_limit = 0xffffffff, seg_type = 0xf2\<rparr>,
      \<lparr>seg_base = tss_at lm, seg_limit = 100, seg_type = 0xE9\<rparr>]"

definition gdt_load :: "u32 \<Rightarrow> int \<Rightarrow> ('d, 'a) kernelstate_scheme \<Rightarrow> ('d, 'a) kernelstate_scheme" where
  "gdt_load gdt sz s = s\<lparr>gdtr := (word_of_int sz, gdt)\<rparr>"

definition tss_load :: "int \<Rightarrow> ('d, 'a) kernelstate_scheme \<Rightarrow> ('d, 'a) kernelstate_scheme" where
  "tss_load tss_segment s = s\<lparr>task_register := word_of_int tss_segment\<rparr>"

subsection \<open>Booting\<close>

definition kernel_boot ::
    "'l kernellinks_scheme \<Rightarrow> 'd ports \<Rightarrow> ('d, 'a) kernelstate_scheme \<Rightarrow> ('d, 'a) kernelstate_scheme option" where
  "kernel_boot lm hw s = do {
     let s1 = terminal_initialize s;
     let s2 = s1\<lparr>memory := memset (memory s1) (gdt_real_at lm) 0 (8 * RAOS_TOTAL_GDT_SEGMENTS)\<rparr>;
     s3 \<leftarrow> gdt_structured_to_gdt (gdt_real_at lm) (gdt_segments lm) RAOS_TOTAL_GDT_SEGMENTS s2;
     let s4 = gdt_load (gdt_real_at lm) (8 * RAOS_TOTAL_GDT_SEGMENTS) s3;
     let s5 = print_literal (map of_char ''Hello RaOS!'' @ [10]) s4;
     let s6 = kheap_init s5;
     s7 \<leftarrow> fs_init lm s6;
     s8 \<leftarrow> disk_search_and_init lm (fs_resolve lm hw) s7;
     let s9 = idt_init lm s8;
     let m10 = memset (memory s9) (tss_at lm) 0 100;
     let m11 = store32 m10 (tss_at lm + 4) 0x600000;
     let s11 = s9\<lparr>memory := store32 m11 (tss_at lm + 8) KERNEL_DATA_SELECTOR\<rparr>;
     let s12 = tss_load 0x28 s11;
     let (chunk, s13) = paging_new_4gb 7 s12;
     let s14 = s13\<lparr>kernel_chunk := chunk\<rparr>;
     let s15 = paging_switch (kernel_chunk s14) s14;
     let s16 = enable_paging s15;
     Some (enable_interrupts s16)
   }"

definition kernel_fopen_test ::
    "'l kernellinks_scheme \<Rightarrow> 'd ports \<Rightarrow> ('d, 'a) kernelstate_scheme \<Rightarrow> ('d, 'a) kernelstate_scheme option" where
  "kernel_fopen_test lm hw s = do {
     (fd, s1) \<leftarrow> fopen lm hw (message_path_at lm) (read_mode_at lm) s;
     s2 \<leftarrow>
       (if fd \<noteq> 0
        then do {
          let t1 = print_literal (map of_char ''File message.txt opened!'' @ [10]) s1;
          (_, t2) \<leftarrow> fread lm hw (main_buf_at lm) 7 1 fd t1;
          t3 \<leftarrow> print (main_buf_at lm) t2;
          let t4 = print_literal ([10] @ map of_char ''After fseek. '' @ [10]) t3;
          (_, t5) \<leftarrow> fseek lm fd 5 SEEK_CUR t4;
          (_, t6) \<leftarrow> fread lm hw (main_buf_at lm) 7 1 fd t5;
          t7 \<leftarrow> print (main_buf_at lm) t6;
          let t8 = print_literal [10, 10] t7;
          (_, t9) \<leftarrow> fstat lm fd (main_stat_at lm) t8;
          (_, t10) \<leftarrow> fclose lm fd t9;
          Some (print_literal (map of_char ''file descriptor closed.'' @ [10]) t10)
        }
        else Some s1);
     (fd2, s3) \<leftarrow> fopen lm hw (missing_path_at lm) (write_mode_at lm) s2;
     Some (if fd2 \<noteq> 0 then print_literal (map of_char ''File not_exit.txt opened!'' @ [10]) s3 else s3)
   }"

definition kernel_main ::
    "'l kernellinks_scheme \<Rightarrow> 'd ports \<Rightarrow> ('d, 'a) kernelstate_scheme \<Rightarrow> ('d, 'a) kernelstate_scheme option" where
  "kernel_main lm hw s = do {
     s1 \<leftarrow> kernel_boot lm hw s;
     kernel_fopen_test lm hw s1
   }"

end
