(* ===== verification/Layout.thy ===== *)
theory Layout
  imports Prelude
begin

text \<open>
  How the compiler lays out a C struct: sizes, alignments and member offsets of the i386 ABI the kernel is built for
  (\<^verbatim>\<open>src/Makefile\<close>: \<^verbatim>\<open>i686-elf-gcc\<close>), packed structs, arrays, unions and anonymous unions included.  The other theories address the
  members of the kernel's structs by their offsets in memory; \<open>Structs\<close> checks those against the declarations.
\<close>

subsection \<open>Types\<close>

datatype ctype = CU8 | CU16 | CU32 | CPointer | CArray nat ctype | CStruct bool "(string \<times> ctype) list" | CUnion "(string \<times> ctype) list"

text \<open>The first argument of \<open>CStruct\<close> says whether the struct is packed; a member with the empty name is an anonymous union.\<close>

abbreviation (input) struct_type :: "(string \<times> ctype) list \<Rightarrow> ctype" where "struct_type \<equiv> CStruct False"
abbreviation (input) packed_type :: "(string \<times> ctype) list \<Rightarrow> ctype" where "packed_type \<equiv> CStruct True"

definition round_up :: "nat \<Rightarrow> nat \<Rightarrow> nat" where
  "round_up n a = (n + (a - 1)) div a * a"

fun alignof :: "ctype \<Rightarrow> nat" and widest :: "(string \<times> ctype) list \<Rightarrow> nat" where
  "alignof CU8 = 1"
| "alignof CU16 = 2"
| "alignof CU32 = 4"
| "alignof CPointer = 4"
| "alignof (CArray n t) = alignof t"
| "alignof (CStruct pk ms) = (if pk then 1 else widest ms)"
| "alignof (CUnion ms) = widest ms"
| "widest [] = 1"
| "widest ((f, t) # ms) = max (alignof t) (widest ms)"

definition member_align :: "bool \<Rightarrow> ctype \<Rightarrow> nat" where
  "member_align pk t = (if pk then 1 else alignof t)"

fun sizeof :: "ctype \<Rightarrow> nat" and struct_end :: "bool \<Rightarrow> nat \<Rightarrow> (string \<times> ctype) list \<Rightarrow> nat" and largest :: "(string \<times> ctype) list \<Rightarrow> nat" where
  "sizeof CU8 = 1"
| "sizeof CU16 = 2"
| "sizeof CU32 = 4"
| "sizeof CPointer = 4"
| "sizeof (CArray n t) = n * sizeof t"
| "sizeof (CStruct pk ms) = round_up (struct_end pk 0 ms) (alignof (CStruct pk ms))"
| "sizeof (CUnion ms) = round_up (largest ms) (widest ms)"
| "struct_end pk n [] = n"
| "struct_end pk n ((f, t) # ms) = struct_end pk (round_up n (member_align pk t) + sizeof t) ms"
| "largest [] = 0"
| "largest ((f, t) # ms) = max (sizeof t) (largest ms)"

text \<open>The offset and the type of a named member.\<close>

fun member :: "ctype \<Rightarrow> string \<Rightarrow> (nat \<times> ctype) option"
  and struct_member :: "bool \<Rightarrow> nat \<Rightarrow> (string \<times> ctype) list \<Rightarrow> string \<Rightarrow> (nat \<times> ctype) option" where
  "member (CStruct pk ms) f = struct_member pk 0 ms f"
| "member (CUnion ms) f = map_option (Pair 0) (map_of ms f)"
| "member _ f = None"
| "struct_member pk n [] f = None"
| "struct_member pk n ((g, t) # ms) f =
     (let p = round_up n (member_align pk t)
      in if g = f then Some (p, t)
         else case if g = [] then member t f else None of
                Some (q, u) \<Rightarrow> Some (p + q, u)
              | None \<Rightarrow> struct_member pk (p + sizeof t) ms f)"

text \<open>The offset of \<^verbatim>\<open>f.g.h\<close> in an object of type \<open>t\<close>, and reading what is there.\<close>

fun offsetof :: "ctype \<Rightarrow> string list \<Rightarrow> nat" where
  "offsetof t [] = 0"
| "offsetof t (f # fs) = (case member t f of Some (n, u) \<Rightarrow> n + offsetof u fs | None \<Rightarrow> sizeof t)"

definition field_at :: "ctype \<Rightarrow> string list \<Rightarrow> u32 \<Rightarrow> u32" where
  "field_at t fs p = p + of_nat (offsetof t fs)"

text \<open>Every member of a struct with its offset, in order.\<close>

fun members_at :: "bool \<Rightarrow> nat \<Rightarrow> (string \<times> ctype) list \<Rightarrow> (nat \<times> ctype) list" where
  "members_at pk n [] = []"
| "members_at pk n ((f, t) # ms) = (let p = round_up n (member_align pk t) in (p, t) # members_at pk (p + sizeof t) ms)"

subsection \<open>Facts of every layout\<close>

lemma alignof_pos: "0 < alignof t" "0 < widest ms"
  by (induction t and ms rule: alignof_widest.induct) auto

lemma member_align_pos [simp]: "0 < member_align pk t"
  by (simp add: member_align_def alignof_pos)

lemma round_up_ge:
  assumes "0 < a"
  shows "n \<le> round_up n a"
proof -
  have "n + (a - 1) = round_up n a + (n + (a - 1)) mod a" by (simp add: round_up_def)
  moreover have "(n + (a - 1)) mod a < a" using assms by simp
  ultimately show ?thesis by linarith
qed

lemma round_up_dvd: "a dvd round_up n a"
  by (simp add: round_up_def)

lemma struct_end_ge: "n \<le> struct_end pk n ms"
proof (induction ms arbitrary: n)
  case (Cons x ms)
  obtain f t where "x = (f, t)" by (cases x)
  then show ?case
    using Cons.IH[of "round_up n (member_align pk t) + sizeof t"] round_up_ge[of "member_align pk t" n] by simp
qed simp

lemma members_at_bounds:
  "(p, t) \<in> set (members_at pk n ms) \<Longrightarrow> n \<le> p \<and> p + sizeof t \<le> struct_end pk n ms \<and> member_align pk t dvd p"
proof (induction ms arbitrary: n)
  case (Cons x ms)
  obtain f u where x: "x = (f, u)" by (cases x)
  let ?q = "round_up n (member_align pk u)"
  have n: "n \<le> ?q" by (simp add: round_up_ge)
  show ?case
    using Cons.prems Cons.IH[of "?q + sizeof u"] struct_end_ge[of "?q + sizeof u" pk ms] round_up_dvd[of "member_align pk u" n] n
    by (auto simp: x Let_def)
qed simp

lemma members_at_apart:
  "i < j \<Longrightarrow> j < length ms \<Longrightarrow> fst (members_at pk n ms ! i) + sizeof (snd (members_at pk n ms ! i)) \<le> fst (members_at pk n ms ! j)"
proof (induction ms arbitrary: n i j)
  case (Cons x ms)
  obtain f u where x: "x = (f, u)" by (cases x)
  let ?q = "round_up n (member_align pk u)"
  have len: "length (members_at pk k ms) = length ms" for k by (induction ms arbitrary: k) (auto simp: Let_def split: prod.splits)
  obtain j' where j: "j = Suc j'" using Cons.prems(1) by (cases j) auto
  then have j': "j' < length ms" using Cons.prems(2) by simp
  show ?case
  proof (cases i)
    case 0
    have "members_at pk (?q + sizeof u) ms ! j' \<in> set (members_at pk (?q + sizeof u) ms)" using j' len by simp
    then show ?thesis using members_at_bounds[of "fst (members_at pk (?q + sizeof u) ms ! j')" "snd (members_at pk (?q + sizeof u) ms ! j')"]
      by (simp add: 0 j x Let_def)
  next
    case (Suc i')
    then show ?thesis using Cons.IH[of i' j'] Cons.prems(1) j j' by (simp add: x Let_def)
  qed
qed simp

text \<open>A struct is laid out properly: its members are aligned, inside the struct, in order and apart from each other.\<close>

fun laid_out :: "ctype \<Rightarrow> bool" where
  "laid_out (CStruct pk ms) \<longleftrightarrow>
     list_all (\<lambda>(p, t). member_align pk t dvd p \<and> p + sizeof t \<le> sizeof (CStruct pk ms)) (members_at pk 0 ms)
     \<and> sorted_wrt (\<lambda>(p, t) (q, u). p + sizeof t \<le> q) (members_at pk 0 ms)"
| "laid_out t \<longleftrightarrow> True"

lemma members_at_length [simp]: "length (members_at pk n ms) = length ms"
  by (induction ms arbitrary: n) (auto simp: Let_def split: prod.splits)

theorem struct_laid_out: "laid_out t"
proof (cases t)
  case (CStruct pk ms)
  have "struct_end pk 0 ms \<le> sizeof t" using round_up_ge[OF alignof_pos(1)] by (simp add: CStruct del: alignof.simps)
  then have "member_align pk u dvd p \<and> p + sizeof u \<le> sizeof t" if "(p, u) \<in> set (members_at pk 0 ms)" for p u
    using members_at_bounds[OF that] by simp
  moreover have "sorted_wrt (\<lambda>(p, t) (q, u). p + sizeof t \<le> q) (members_at pk 0 ms)"
    using members_at_apart[of _ _ ms pk 0] by (auto simp: sorted_wrt_iff_nth_less split_def)
  ultimately show ?thesis unfolding CStruct laid_out.simps list_all_iff by (auto simp: CStruct)
qed simp_all

end
