(* ===== verification/Structs.thy ===== *)
theory Structs
  imports Layout Process Idt
begin

text \<open>
  The structs of the kernel as its headers declare them.  The rest of the development works on the flat memory and addresses the
  members by number; here those numbers are computed from the declarations, and the accessors of the components are shown to
  read the members they are named after.
\<close>

subsection \<open>Tasks and processes\<close>

definition struct_registers :: ctype where
  "struct_registers = struct_type
    [(''edi'', CU32), (''esi'', CU32), (''ebp'', CU32), (''ebx'', CU32), (''edx'', CU32), (''ecx'', CU32), (''eax'', CU32),
     (''ip'', CU32), (''cs'', CU32), (''flags'', CU32), (''esp'', CU32), (''ss'', CU32)]"

definition struct_task :: ctype where
  "struct_task = struct_type
    [(''page_directory'', CPointer), (''registers'', struct_registers), (''next'', CPointer), (''prev'', CPointer),
     (''process'', CPointer)]"

definition struct_tss :: ctype where
  "struct_tss = packed_type
    [(''link'', CU32), (''esp0'', CU32), (''ss0'', CU32), (''esp1'', CU32), (''esp2'', CU32), (''ss2'', CU32), (''sr3'', CU32),
     (''eip'', CU32), (''eflags'', CU32), (''eax'', CU32), (''ecx'', CU32), (''edx'', CU32), (''ebx'', CU32), (''esp'', CU32),
     (''ebp'', CU32), (''esi'', CU32), (''edi'', CU32), (''es'', CU32), (''cs'', CU32), (''ss'', CU32), (''ds'', CU32),
     (''fs'', CU32), (''gs'', CU32), (''ldtr'', CU32), (''iopb'', CU32)]"

definition struct_process_allocation :: ctype where
  "struct_process_allocation = struct_type
    [(''ptr'', CPointer), (''size'', CU32)]"

definition struct_command_argument :: ctype where
  "struct_command_argument = struct_type
    [(''argument'', CArray 512 CU8), (''next'', CPointer)]"

definition struct_process_arguments :: ctype where
  "struct_process_arguments = struct_type
    [(''argc'', CU32), (''argv'', CPointer)]"

definition struct_keyboard_buffer :: ctype where
  "struct_keyboard_buffer = struct_type
    [(''buffer'', CArray 1024 CU8), (''tail'', CU32), (''head'', CU32)]"

definition struct_process :: ctype where
  "struct_process = struct_type
    [(''id'', CU16), (''filename'', CArray RAOS_MAX_PATH CU8), (''task'', CPointer),
     (''allocations'', CArray RAOS_MAX_PROGRAM_ALLOCATIONS struct_process_allocation), (''filetype'', CU8),
     ('''', CUnion [(''ptr'', CPointer), (''elf_file'', CPointer)]), (''stack'', CPointer), (''size'', CU32),
     (''keyboard'', struct_keyboard_buffer), (''arguments'', struct_process_arguments)]"

subsection \<open>Files and disks\<close>

definition struct_path_root :: ctype where
  "struct_path_root = struct_type
    [(''drive_no'', CU32), (''first'', CPointer)]"

definition struct_path_part :: ctype where
  "struct_path_part = struct_type
    [(''part'', CPointer), (''next'', CPointer)]"

definition struct_file_stat :: ctype where
  "struct_file_stat = struct_type
    [(''flags'', CU32), (''size'', CU32)]"

definition struct_filesystem :: ctype where
  "struct_filesystem = struct_type
    [(''resolve'', CPointer), (''open'', CPointer), (''read'', CPointer), (''seek'', CPointer), (''stat'', CPointer),
     (''close'', CPointer), (''name'', CArray 20 CU8)]"

definition struct_file_descriptor :: ctype where
  "struct_file_descriptor = struct_type
    [(''index'', CU32), (''filesystem'', CPointer), (''private_'', CPointer), (''disk'', CPointer)]"

definition struct_disk :: ctype where
  "struct_disk = struct_type
    [(''type'', CU32), (''sector_size'', CU32), (''id'', CU32), (''filesystem'', CPointer), (''fs_private'', CPointer)]"

definition struct_disk_stream :: ctype where
  "struct_disk_stream = struct_type
    [(''pos'', CU32), (''disk'', CPointer)]"

subsection \<open>The FAT16 volume\<close>

definition struct_fat_header_extended :: ctype where
  "struct_fat_header_extended = packed_type
    [(''drive_number'', CU8), (''win_nt_bit'', CU8), (''signature'', CU8), (''volume_id'', CU32),
     (''volume_id_string'', CArray 11 CU8), (''system_id_string'', CArray 8 CU8)]"

definition struct_fat_header :: ctype where
  "struct_fat_header = packed_type
    [(''short_jmp_inst'', CArray 3 CU8), (''oem_indentifier'', CArray 8 CU8), (''bytes_per_sector'', CU16),
     (''sectors_per_cluster'', CU8), (''reserved_sectors'', CU16), (''fat_copies'', CU8), (''root_dir_entries'', CU16),
     (''number_of_sectors'', CU16), (''media_type'', CU8), (''sectors_per_fat'', CU16), (''sectors_per_track'', CU16),
     (''number_of_heads'', CU16), (''hidden_sectors'', CU32), (''sectors_big'', CU32)]"

definition struct_fat_h :: ctype where
  "struct_fat_h = struct_type
    [(''primary_header'', struct_fat_header), (''shared'', CUnion [(''extended_header'', struct_fat_header_extended)])]"

definition struct_fat_directory_item :: ctype where
  "struct_fat_directory_item = packed_type
    [(''filename'', CArray 8 CU8), (''ext'', CArray 3 CU8), (''attribute'', CU8), (''reserved'', CU8),
     (''creation_time_tenths_of_a_sec'', CU8), (''creation_time'', CU16), (''creation_date'', CU16), (''last_access'', CU16),
     (''last_mod_time'', CU16), (''last_mod_date'', CU16), (''high_16_bits_first_cluster'', CU16),
     (''low_16_bits_first_cluster'', CU16), (''filesize'', CU32)]"

definition struct_fat_directory :: ctype where
  "struct_fat_directory = struct_type
    [(''item'', CPointer), (''total'', CU32), (''sector_pos'', CU32), (''end_sector_pos'', CU32)]"

definition struct_fat_item :: ctype where
  "struct_fat_item = struct_type
    [('''', CUnion [(''item'', CPointer), (''directory'', CPointer)]), (''type'', CU32)]"

definition struct_fat_file_descriptor :: ctype where
  "struct_fat_file_descriptor = struct_type
    [(''item'', CPointer), (''pos'', CU32)]"

definition struct_fat_private :: ctype where
  "struct_fat_private = struct_type
    [(''header'', struct_fat_h), (''root_directory'', struct_fat_directory), (''cluster_read_stream'', CPointer),
     (''fat_read_stream'', CPointer), (''directory_stream'', CPointer)]"

subsection \<open>ELF files\<close>

definition struct_elf32_phdr :: ctype where
  "struct_elf32_phdr = packed_type
    [(''p_type'', CU32), (''p_offset'', CU32), (''p_vaddr'', CU32), (''p_paddr'', CU32), (''p_filesz'', CU32),
     (''p_memsz'', CU32), (''p_flags'', CU32), (''p_align'', CU32)]"

definition struct_elf32_shdr :: ctype where
  "struct_elf32_shdr = packed_type
    [(''sh_name'', CU32), (''sh_type'', CU32), (''sh_flags'', CU32), (''sh_addr'', CU32), (''sh_offset'', CU32),
     (''sh_size'', CU32), (''sh_link'', CU32), (''sh_info'', CU32), (''sh_addralign'', CU32), (''sh_entsize'', CU32)]"

definition struct_elf_header :: ctype where
  "struct_elf_header = packed_type
    [(''e_ident'', CArray 16 CU8), (''e_type'', CU16), (''e_machine'', CU16), (''e_version'', CU32), (''e_entry'', CU32),
     (''e_phoff'', CU32), (''e_shoff'', CU32), (''e_flags'', CU32), (''e_ehsize'', CU16), (''e_phentsize'', CU16),
     (''e_phnum'', CU16), (''e_shentsize'', CU16), (''e_shnum'', CU16), (''e_shstrndx'', CU16)]"

definition struct_elf32_dyn :: ctype where
  "struct_elf32_dyn = packed_type
    [(''d_tag'', CU32), (''d_un'', CUnion [(''d_val'', CU32), (''d_ptr'', CU32)])]"

definition struct_elf32_sym :: ctype where
  "struct_elf32_sym = packed_type
    [(''st_name'', CU32), (''st_value'', CU32), (''st_size'', CU32), (''st_info'', CU8), (''st_other'', CU8),
     (''st_shndx'', CU16)]"

definition struct_elf_file :: ctype where
  "struct_elf_file = struct_type
    [(''filename'', CArray RAOS_MAX_PATH CU8), (''in_memory_size'', CU32), (''elf_memory'', CPointer),
     (''virtual_base_address'', CPointer), (''virtual_end_address'', CPointer), (''physical_base_address'', CPointer),
     (''physical_end_address'', CPointer)]"

subsection \<open>The processor and the page tables\<close>

definition struct_idt_desc :: ctype where
  "struct_idt_desc = packed_type
    [(''offset_1'', CU16), (''selector'', CU16), (''zero'', CU8), (''type_attr'', CU8), (''offset_2'', CU16)]"

definition struct_idtr_desc :: ctype where
  "struct_idtr_desc = packed_type
    [(''limit'', CU16), (''base'', CU32)]"

definition struct_interrupt_frame :: ctype where
  "struct_interrupt_frame = packed_type
    [(''edi'', CU32), (''esi'', CU32), (''ebp'', CU32), (''reserved'', CU32), (''ebx'', CU32), (''edx'', CU32),
     (''ecx'', CU32), (''eax'', CU32), (''ip'', CU32), (''cs'', CU32), (''flags'', CU32), (''esp'', CU32), (''ss'', CU32)]"

definition struct_gdt :: ctype where
  "struct_gdt = packed_type
    [(''segment'', CU16), (''base_first'', CU16), (''base'', CU8), (''access'', CU8), (''high_flags'', CU8),
     (''base_24_31_bits'', CU8)]"

definition struct_paging_4gb_chunk :: ctype where
  "struct_paging_4gb_chunk = struct_type
    [(''directory_entry'', CPointer)]"

lemmas struct_defs =
  struct_registers_def struct_task_def struct_tss_def struct_process_allocation_def struct_command_argument_def
  struct_process_arguments_def struct_keyboard_buffer_def struct_process_def struct_path_root_def struct_path_part_def
  struct_file_stat_def struct_filesystem_def struct_file_descriptor_def struct_disk_def struct_disk_stream_def
  struct_fat_header_extended_def struct_fat_header_def struct_fat_h_def struct_fat_directory_item_def struct_fat_directory_def
  struct_fat_item_def struct_fat_file_descriptor_def struct_fat_private_def struct_elf32_phdr_def struct_elf32_shdr_def
  struct_elf_header_def struct_elf32_dyn_def struct_elf32_sym_def struct_elf_file_def struct_idt_desc_def struct_idtr_desc_def
  struct_interrupt_frame_def struct_gdt_def struct_paging_4gb_chunk_def

lemmas layout_simps = field_at_def member_align_def round_up_def

subsection \<open>Sizes and offsets\<close>

definition kernel_structs :: "ctype list" where
  "kernel_structs =
    [struct_registers, struct_task, struct_tss, struct_process_allocation, struct_command_argument, struct_process_arguments,
     struct_keyboard_buffer, struct_process, struct_path_root, struct_path_part, struct_file_stat, struct_filesystem,
     struct_file_descriptor, struct_disk, struct_disk_stream, struct_fat_header_extended, struct_fat_header, struct_fat_h,
     struct_fat_directory_item, struct_fat_directory, struct_fat_item, struct_fat_file_descriptor, struct_fat_private,
     struct_elf32_phdr, struct_elf32_shdr, struct_elf_header, struct_elf32_dyn, struct_elf32_sym, struct_elf_file,
     struct_idt_desc, struct_idtr_desc, struct_interrupt_frame, struct_gdt, struct_paging_4gb_chunk]"

text \<open>
  The sizes of the structs, computed.  \<^verbatim>\<open>struct tss\<close> has 100 bytes where the processor's task state segment has 104: the header
  leaves out \<^verbatim>\<open>ss1\<close>.
\<close>

lemma struct_layouts:
  "map sizeof kernel_structs =
     [48, 64, 100, 8, 516, 8, 1032, 9384, 8, 8, 8, 44, 16, 20, 8, 26, 36, 62, 32, 16, 8, 8, 92, 32, 40, 52, 8, 16, 152, 8, 6, 52, 8, 4]
   \<and> list_all laid_out kernel_structs"
  unfolding kernel_structs_def by (simp add: struct_laid_out struct_defs layout_simps)

text \<open>The accessors of the components, member by member.\<close>

lemma process_members:
  "process_task m p = load32 m (field_at struct_process [''task''] p)"
  "process_filetype m p = m (field_at struct_process [''filetype''] p)"
  "process_elf_file m p = load32 m (field_at struct_process [''elf_file''] p)"
  "allocation_at p i = field_at struct_process [''allocations''] p + of_nat (sizeof struct_process_allocation) * of_nat i"
  "allocation_at p i + 4 = field_at struct_process_allocation [''size''] (allocation_at p i)"
  by (simp_all add: struct_defs layout_simps)

lemma task_members:
  "task_next_of m t = load32 m (field_at struct_task [''next''] t)"
  "task_prev_of m t = load32 m (field_at struct_task [''prev''] t)"
  "field_at struct_task [''registers''] t = t + 4" "field_at struct_task [''registers'', ''ip''] t = t + 32"
  "field_at struct_task [''registers'', ''ss''] t = t + 48" "field_at struct_task [''registers'', ''cs''] t = t + 36"
  "field_at struct_task [''registers'', ''esp''] t = t + 44" "field_at struct_task [''process''] t = t + 60"
  by (simp_all add: struct_defs layout_simps)

lemma elf_members:
  "e_class m p = m (field_at struct_elf_header [''e_ident''] p + 4)" "e_data m p = m (field_at struct_elf_header [''e_ident''] p + 5)"
  "e_type m p = load16 m (field_at struct_elf_header [''e_type''] p)" "e_entry m p = load32 m (field_at struct_elf_header [''e_entry''] p)"
  "e_phoff m p = load32 m (field_at struct_elf_header [''e_phoff''] p)" "e_shoff m p = load32 m (field_at struct_elf_header [''e_shoff''] p)"
  "e_phnum m p = uint (load16 m (field_at struct_elf_header [''e_phnum''] p))"
  "e_shstrndx m p = load16 m (field_at struct_elf_header [''e_shstrndx''] p)"
  "p_type m p = load32 m (field_at struct_elf32_phdr [''p_type''] p)" "p_offset m p = load32 m (field_at struct_elf32_phdr [''p_offset''] p)"
  "p_vaddr m p = load32 m (field_at struct_elf32_phdr [''p_vaddr''] p)" "p_filesz m p = load32 m (field_at struct_elf32_phdr [''p_filesz''] p)"
  "p_memsz m p = load32 m (field_at struct_elf32_phdr [''p_memsz''] p)" "p_flags m p = load32 m (field_at struct_elf32_phdr [''p_flags''] p)"
  by (simp_all add: struct_defs layout_simps)

lemma fat_members:
  "sectors_per_cluster m p = uint (m (field_at struct_fat_private [''header'', ''primary_header'', ''sectors_per_cluster''] p))"
  "reserved_sectors m p = uint (load16 m (field_at struct_fat_private [''header'', ''primary_header'', ''reserved_sectors''] p))"
  "fat_copies m p = uint (m (field_at struct_fat_private [''header'', ''primary_header'', ''fat_copies''] p))"
  "root_dir_entries m p = uint (load16 m (field_at struct_fat_private [''header'', ''primary_header'', ''root_dir_entries''] p))"
  "sectors_per_fat m p = uint (load16 m (field_at struct_fat_private [''header'', ''primary_header'', ''sectors_per_fat''] p))"
  "fat_signature m p = m (field_at struct_fat_private [''header'', ''shared'', ''extended_header'', ''signature''] p)"
  "root_end_sector m p = sint (load32 m (field_at struct_fat_private [''root_directory'', ''end_sector_pos''] p))"
  "cluster_read_stream m p = load32 m (field_at struct_fat_private [''cluster_read_stream''] p)"
  "fat_read_stream m p = load32 m (field_at struct_fat_private [''fat_read_stream''] p)"
  "directory_stream m p = load32 m (field_at struct_fat_private [''directory_stream''] p)"
  "item_attribute m p = m (field_at struct_fat_directory_item [''attribute''] p)"
  "item_filesize m p = load32 m (field_at struct_fat_directory_item [''filesize''] p)"
  "disk_sector_size m p = sint (load32 m (field_at struct_disk [''sector_size''] p))"
  "disk_fs_private m p = load32 m (field_at struct_disk [''fs_private''] p)"
  by (simp_all add: struct_defs layout_simps)

text \<open>
  A check of the models against the declarations: where a definition has a numeric offset or stride, it is that of the member
  or struct the code names.
\<close>

lemma operations_use_members:
  "elf_memory f m = load32 m (field_at struct_elf_file [''elf_memory''] f)
   \<and> elf_virtual_base f m = load32 m (field_at struct_elf_file [''virtual_base_address''] f)
   \<and> elf_virtual_end f m = load32 m (field_at struct_elf_file [''virtual_end_address''] f)
   \<and> elf_phys_base f m = load32 m (field_at struct_elf_file [''physical_base_address''] f)
   \<and> elf_phys_end f m = load32 m (field_at struct_elf_file [''physical_end_address''] f)
   \<and> elf_program_header eh i m = elf_pheader eh m + of_nat (sizeof struct_elf32_phdr) * word_of_int i
   \<and> elf_section eh i m = elf_sheader eh m + of_nat (sizeof struct_elf32_shdr) * word_of_int i
   \<and> elf_str_table eh m = eh + load32 m (field_at struct_elf32_shdr [''sh_offset''] (elf_section eh (uint (e_shstrndx m eh)) m))
   \<and> load_registers m r =
       (let reg = (\<lambda>f. load32 m (field_at struct_registers [f] r))
        in \<lparr>uc_edi = reg ''edi'', uc_esi = reg ''esi'', uc_ebp = reg ''ebp'', uc_ebx = reg ''ebx'', uc_edx = reg ''edx'', uc_ecx = reg ''ecx'',
            uc_eax = reg ''eax'', uc_ip = reg ''ip'', uc_cs = reg ''cs'', uc_esp = reg ''esp'', uc_ss = reg ''ss''\<rparr>)
   \<and> fat16_get_first_cluster_for_directory_item it m =
       push_bit 16 (ucast (load16 m (field_at struct_fat_directory_item [''high_16_bits_first_cluster''] it)))
       OR ucast (load16 m (field_at struct_fat_directory_item [''low_16_bits_first_cluster''] it))
   \<and> process_free_binary_data p s = (0, kfree (load32 (memory s) (field_at struct_process [''ptr''] p)) s)
   \<and> process_get_arguments p argc argv m =
       (let m1 = store32 m argc (load32 m (field_at struct_process [''arguments'', ''argc''] p))
        in store32 m1 argv (load32 m1 (field_at struct_process [''arguments'', ''argv''] p)))
   \<and> idt_set lm n a m =
       (let desc = idt_descriptors_at lm + of_nat (sizeof struct_idt_desc) * word_of_int n;
            m1 = store16 m (field_at struct_idt_desc [''offset_1''] desc) (ucast (a AND 0xffff));
            m2 = store16 m1 (field_at struct_idt_desc [''selector''] desc) KERNEL_CODE_SELECTOR;
            m3 = m2(field_at struct_idt_desc [''zero''] desc := 0);
            m4 = m3(field_at struct_idt_desc [''type_attr''] desc := 0xEE)
        in store16 m4 (field_at struct_idt_desc [''offset_2''] desc) (ucast (drop_bit 16 a)))
   \<and> filesystem_open fl hw fs dk path mode io =
       (if load32 (memory io) (field_at struct_filesystem [''open''] fs) = fat16_open_at fl then fat16_open fl hw dk path mode io else None)
   \<and> filesystem_read fl hw fs dk priv sz nmemb out io =
       (if load32 (memory io) (field_at struct_filesystem [''read''] fs) = fat16_read_at fl then fat16_read fl hw dk priv sz nmemb out io else None)
   \<and> filesystem_close fl fs priv s =
       (if load32 (memory s) (field_at struct_filesystem [''close''] fs) = fat16_close_at fl then Some (fat16_close priv s) else None)"
  by (simp add: struct_defs layout_simps elf_memory_def elf_virtual_base_def elf_virtual_end_def elf_phys_base_def elf_phys_end_def
      elf_program_header_def elf_section_def elf_str_table_def load_registers_def fat16_get_first_cluster_for_directory_item_def
      process_free_binary_data_def process_get_arguments_def idt_set_def filesystem_open_def filesystem_read_def filesystem_close_def Let_def)

end
