(* ===== verification/Scheduler.thy ===== *)
theory Scheduler
  imports Task
begin

text \<open>
  The round-robin list of \<^verbatim>\<open>src/src/task/task.c\<close>.  \<open>dlist\<close> is a segment of a doubly linked list of tasks in memory;
  \<open>run_queue s ts c\<close> says that the globals of \<open>s\<close> and the links in memory represent the tasks \<open>ts\<close> with current task
  \<open>c\<close>.  The lemmas show that linking appends, that removing takes a task out and moves \<^verbatim>\<open>current_task\<close> on, and that
  \<^verbatim>\<open>task_next\<close> goes round the queue so that every task gets the processor.
\<close>

subsection \<open>Cells of tasks\<close>

text \<open>A task is an allocation of the kernel heap, hence at a page boundary.\<close>

definition task_page_at :: "u32 \<Rightarrow> bool" where
  "task_page_at t \<longleftrightarrow> t \<noteq> NULL \<and> t mod 4096 = 0"

lemma pages_apart:
  fixes t u :: u32
  assumes "t mod 4096 = 0" "u mod 4096 = 0" "t \<noteq> u"
  shows "disjoint_regions t 4096 u 4096"
  using aligned_pages_apart[OF assms] aligned_page_bound[OF assms(1)] aligned_page_bound[OF assms(2)]
  by (intro disjoint_regionsI_nat) simp_all

lemma page_cells_apart:
  fixes t u :: u32
  assumes "t mod 4096 = 0" "u mod 4096 = 0" "t \<noteq> u" "i + 4 \<le> 4096" "j + 4 \<le> 4096"
  shows "disjoint_regions (t + of_nat i) 4 (u + of_nat j) 4"
proof -
  have "disjoint_regions (t + of_nat i) 4 u 4096"
    by (rule disjoint_regions_sub[OF pages_apart[OF assms(1-3)]]) (use assms(4) in simp_all)
  then have "disjoint_regions u 4096 (t + of_nat i) 4" by (simp add: disjoint_regions_sym)
  then have "disjoint_regions (u + of_nat j) 4 (t + of_nat i) 4"
    by (rule disjoint_regions_sub) (use assms(5) in simp_all)
  then show ?thesis by (simp add: disjoint_regions_sym)
qed

lemma task_cells [simp]:
  assumes "task_page_at t" "task_page_at u"
  shows "load32 (store32 m (t + 52) v) (u + 52) = (if u = t then v else load32 m (u + 52))"
    and "load32 (store32 m (t + 56) v) (u + 56) = (if u = t then v else load32 m (u + 56))"
    and "load32 (store32 m (t + 52) v) (u + 56) = load32 m (u + 56)"
    and "load32 (store32 m (t + 56) v) (u + 52) = load32 m (u + 52)"
proof -
  note al = assms[unfolded task_page_at_def]
  have other: "disjoint_regions (t + of_nat i) 4 (u + of_nat j) 4" if "t \<noteq> u" "i \<le> 60" "j \<le> 60" for i j
    using page_cells_apart[of t u i j] al that by simp
  have same: "disjoint_regions (t + 52) 4 (t + 56) 4" "disjoint_regions (t + 56) 4 (t + 52) 4"
    by (simp_all add: disjoint_regions_def)
  show "load32 (store32 m (t + 52) v) (u + 52) = (if u = t then v else load32 m (u + 52))"
    using other[of 52 52] by (auto simp: load32_store32_other)
  show "load32 (store32 m (t + 56) v) (u + 56) = (if u = t then v else load32 m (u + 56))"
    using other[of 56 56] by (auto simp: load32_store32_other)
  show "load32 (store32 m (t + 52) v) (u + 56) = load32 m (u + 56)"
    using other[of 52 56] same by (cases "u = t") (auto simp: load32_store32_other)
  show "load32 (store32 m (t + 56) v) (u + 52) = load32 m (u + 52)"
    using other[of 56 52] same by (cases "u = t") (auto simp: load32_store32_other)
qed

subsection \<open>Doubly linked segments\<close>

fun dlist :: "mem \<Rightarrow> u32 \<Rightarrow> u32 list \<Rightarrow> u32 \<Rightarrow> bool" where
  "dlist m pr [] nx \<longleftrightarrow> True"
| "dlist m pr (t # ts) nx \<longleftrightarrow> task_prev_of m t = pr \<and> task_next_of m t = hd (ts @ [nx]) \<and> dlist m t ts nx"

lemma dlist_append:
  "dlist m pr (xs @ ys) nx \<longleftrightarrow> dlist m pr xs (hd (ys @ [nx])) \<and> dlist m (last (pr # xs)) ys nx"
proof (induction xs arbitrary: pr)
  case (Cons x xs)
  then show ?case by (cases xs) auto
qed simp

lemma dlist_cong:
  assumes "\<And>t. t \<in> set ts \<Longrightarrow> task_next_of m' t = task_next_of m t \<and> task_prev_of m' t = task_prev_of m t"
  shows "dlist m' pr ts nx = dlist m pr ts nx"
  using assms by (induction ts arbitrary: pr) auto

definition tasks_ok :: "u32 list \<Rightarrow> bool" where
  "tasks_ok ts \<longleftrightarrow> distinct ts \<and> (\<forall>t \<in> set ts. task_page_at t)"

definition run_queue :: "('d, 'a) tstate_scheme \<Rightarrow> u32 list \<Rightarrow> u32 \<Rightarrow> bool" where
  "run_queue s ts c \<longleftrightarrow> tasks_ok ts \<and> dlist (memory s) NULL ts NULL \<and> task_head s = hd (ts @ [NULL])
     \<and> task_tail s = last (NULL # ts) \<and> current_task s = c \<and> (if ts = [] then c = NULL else c \<in> set ts)"

text \<open>The task that follows \<open>c\<close> in the cyclic order of \<open>ts\<close>.\<close>

definition successor :: "u32 list \<Rightarrow> u32 \<Rightarrow> u32" where
  "successor ts c = (case dropWhile (\<lambda>t. t \<noteq> c) ts of _ # t # _ \<Rightarrow> t | _ \<Rightarrow> hd (ts @ [NULL]))"

lemma successor_split: "c \<notin> set xs \<Longrightarrow> successor (xs @ c # ys) c = hd (ys @ xs @ [c])"
proof -
  assume "c \<notin> set xs"
  then have "dropWhile (\<lambda>t. t \<noteq> c) (xs @ c # ys) = c # ys" by (subst dropWhile_append2) auto
  then show ?thesis by (cases ys; cases xs) (auto simp: successor_def)
qed

subsection \<open>Linking\<close>

lemma task_link_ok:
  assumes "run_queue s ts c" "task_page_at t" "t \<notin> set ts"
    and "task_next_of (memory s) t = NULL" "task_prev_of (memory s) t = NULL"
  shows "run_queue (task_link t s) (ts @ [t]) (if ts = [] then t else c)"
proof (cases "ts = []")
  case True
  then show ?thesis using assms by (auto simp: run_queue_def task_link_def tasks_ok_def)
next
  case False
  then obtain us u where ts: "ts = us @ [u]" by (cases ts rule: rev_cases) auto
  have ok: "tasks_ok ts" and d: "dlist (memory s) NULL ts NULL" and tl: "task_tail s = u"
    and hd0: "task_head s = hd ts" "task_head s \<noteq> 0"
    using assms(1) ts by (auto simp: run_queue_def tasks_ok_def task_page_at_def hd_append split: if_splits)
  have pg: "task_page_at u" "\<And>x. x \<in> set us \<Longrightarrow> task_page_at x" "u \<notin> set us" "t \<noteq> u" "t \<notin> set us"
    using ok ts assms(3) by (auto simp: tasks_ok_def)
  define m where "m = store32 (store32 (memory s) (u + 52) t) (t + 56) u"
  have eq: "task_link t s = s\<lparr>memory := m, task_tail := t\<rparr>"
    using hd0(2) tl by (simp add: task_link_def m_def Let_def)
  have "dlist (memory s) NULL us u" "task_prev_of (memory s) u = last (NULL # us)"
    using d unfolding ts dlist_append by auto
  moreover have "dlist m NULL us u = dlist (memory s) NULL us u"
    by (rule dlist_cong) (use pg assms(2) in \<open>auto simp: m_def\<close>)
  ultimately have "dlist m NULL (us @ [u] @ [t]) NULL"
    using pg assms(2,4) unfolding dlist_append[of _ _ us] by (simp add: m_def)
  then show ?thesis
    using assms(1-3) False hd0 ts unfolding eq by (auto simp: run_queue_def tasks_ok_def hd_append)
qed

subsection \<open>Choosing the next task\<close>

lemma task_get_next_ok:
  assumes "run_queue s ts c" "ts \<noteq> []"
  shows "task_get_next s = successor ts c" "successor ts c \<in> set ts"
proof -
  have c: "c \<in> set ts" "current_task s = c" using assms by (auto simp: run_queue_def)
  obtain xs ys where ts: "ts = xs @ c # ys" "c \<notin> set xs" using split_list_first[OF c(1)] by blast
  have d: "dlist (memory s) NULL (xs @ c # ys) NULL" "task_head s = hd ts"
    using assms ts by (auto simp: run_queue_def hd_append)
  have nx: "task_next_of (memory s) c = hd (ys @ [NULL])" using d(1) by (simp add: dlist_append)
  have "ys \<noteq> [] \<Longrightarrow> hd ys \<noteq> NULL"
    using assms(1) ts by (cases ys) (auto simp: run_queue_def tasks_ok_def task_page_at_def)
  moreover have succ: "successor ts c = hd (ys @ xs @ [c])" using successor_split[OF ts(2)] ts(1) by simp
  ultimately show "task_get_next s = successor ts c"
    unfolding succ using nx d(2) c(2) ts(1) by (cases ys; cases xs) (auto simp: task_get_next_def)
  have "hd (ys @ xs @ [c]) \<in> set (xs @ c # ys)" by (cases ys; cases xs) auto
  then show "successor ts c \<in> set ts" using succ ts(1) by simp
qed

subsection \<open>Removing\<close>

text \<open>The memory after the task between \<open>xs\<close> and \<open>ys\<close> is taken out.\<close>

definition unlinked :: "u32 list \<Rightarrow> u32 list \<Rightarrow> mem \<Rightarrow> mem" where
  "unlinked xs ys m =
     (let m1 = (if xs \<noteq> [] then store32 m (last xs + 52) (hd (ys @ [NULL])) else m)
      in if ys \<noteq> [] then store32 m1 (hd ys + 56) (last (NULL # xs)) else m1)"

lemma run_queue_parts:
  assumes "run_queue s (xs @ t # ys) c"
  shows "task_page_at t" "t \<notin> set xs" "t \<notin> set ys" "x \<in> set xs \<union> set ys \<Longrightarrow> task_page_at x"
    "set xs \<inter> set ys = {}" "distinct xs" "distinct ys" "x \<in> set xs \<union> set ys \<Longrightarrow> x \<noteq> NULL"
    "dlist (memory s) NULL xs t" "task_prev_of (memory s) t = last (NULL # xs)"
    "task_next_of (memory s) t = hd (ys @ [NULL])" "dlist (memory s) t ys NULL"
    "task_head s = hd (xs @ [t])" "task_tail s = last (t # ys)" "current_task s = c" "c \<in> set (xs @ t # ys)"
  using assms by (auto simp: run_queue_def tasks_ok_def task_page_at_def dlist_append hd_append split: if_splits)

lemma unlinked_links:
  assumes "run_queue s (xs @ t # ys) c"
  shows "dlist (unlinked xs ys (memory s)) NULL (xs @ ys) NULL"
    and "task_next_of (unlinked xs ys (memory s)) t = hd (ys @ [NULL])"
    and "task_prev_of (unlinked xs ys (memory s)) t = last (NULL # xs)"
proof -
  note rp = run_queue_parts[OF assms]
  have lx: "xs \<noteq> [] \<Longrightarrow> last xs \<in> set xs" and hy: "ys \<noteq> [] \<Longrightarrow> hd ys \<in> set ys" by simp_all
  let ?m = "unlinked xs ys (memory s)"
  show "task_next_of ?m t = hd (ys @ [NULL])" "task_prev_of ?m t = last (NULL # xs)"
    using rp(1-12) lx hy by (auto simp: unlinked_def Let_def)
  have "dlist ?m NULL xs (hd (ys @ [NULL]))"
  proof (cases xs rule: rev_cases)
    case (snoc us u)
    have "dlist ?m NULL us u = dlist (memory s) NULL us u"
      by (rule dlist_cong) (use rp(1-12) hy snoc in \<open>auto simp: unlinked_def Let_def\<close>)
    then show ?thesis using rp(1-12) hy unfolding snoc dlist_append by (auto simp: snoc unlinked_def Let_def)
  qed simp
  moreover have "dlist ?m (last (NULL # xs)) ys NULL"
  proof (cases ys)
    case (Cons v vs)
    have "last xs \<notin> set vs" if "xs \<noteq> []" using lx[OF that] rp(5) Cons by auto
    then have "dlist ?m v vs NULL = dlist (memory s) v vs NULL"
      by (intro dlist_cong) (use rp(1-12) lx Cons in \<open>auto simp: unlinked_def Let_def\<close>)
    then show ?thesis using rp(1-12) lx unfolding Cons by (auto simp: Cons unlinked_def Let_def)
  qed simp
  ultimately show "dlist ?m NULL (xs @ ys) NULL" by (simp add: dlist_append)
qed

lemma task_list_remove_eq:
  fixes s :: "('d, 'a) tstate_scheme"
  assumes "run_queue s (xs @ t # ys) c"
  shows "task_list_remove t s = s\<lparr>memory := unlinked xs ys (memory s), task_head := hd (xs @ ys @ [NULL]),
    task_tail := last (NULL # xs @ ys), current_task := (if c = t then hd (ys @ xs @ [NULL]) else c)\<rparr>"
proof -
  let ?H = "hd (xs @ ys @ [NULL])" and ?T = "last (NULL # xs @ ys)" and ?C = "if c = t then hd (ys @ xs @ [NULL]) else c"
  note rp = run_queue_parts[OF assms] and m2t = unlinked_links(2,3)[OF assms]
  define m1 where "m1 = (if xs \<noteq> [] then store32 (memory s) (last xs + 52) (hd (ys @ [NULL])) else memory s)"
  define s1 where "s1 = s\<lparr>memory := m1\<rparr>"
  define s2 where "s2 = s\<lparr>memory := unlinked xs ys (memory s)\<rparr>"
  define s3 where "s3 = s2\<lparr>task_head := ?H\<rparr>"
  define s4 where "s4 = s3\<lparr>task_tail := ?T\<rparr>"
  have lx: "xs \<noteq> [] \<Longrightarrow> last xs \<in> set xs" and hy: "ys \<noteq> [] \<Longrightarrow> hd ys \<in> set ys" by simp_all
  have m1t: "load32 m1 (t + 52) = hd (ys @ [NULL])" "load32 m1 (t + 56) = last (NULL # xs)"
    using rp(1-12) lx by (auto simp: m1_def)
  have step1: "(if task_prev_of (memory s) t \<noteq> NULL
      then s\<lparr>memory := store32 (memory s) (task_prev_of (memory s) t + 52) (task_next_of (memory s) t)\<rparr> else s)
      = s1"
    using rp(8,10,11) lx by (auto simp: m1_def s1_def)
  have step2: "(if task_next_of (memory s1) t \<noteq> NULL
      then s1\<lparr>memory := store32 (memory s1) (task_next_of (memory s1) t + 56) (task_prev_of (memory s1) t)\<rparr> else s1)
      = s2"
    using m1t hy rp(8) by (cases ys) (auto simp: unlinked_def Let_def m1_def s1_def s2_def)
  have hx: "(t = task_head s) = (xs = [])" unfolding rp(13) using rp(2) by (cases xs) auto
  have ty: "(t = task_tail s) = (ys = [])"
    unfolding rp(14) using rp(3) last_in_set[of ys] by (cases "ys = []") auto
  have step3: "(if t = task_head s2 then s2\<lparr>task_head := task_next_of (memory s2) t\<rparr> else s2) = s3"
  proof (cases "xs = []")
    case False
    then have "?H = task_head s" unfolding rp(13) by simp
    then show ?thesis using False hx by (simp add: s2_def s3_def)
  qed (use hx m2t in \<open>simp add: s2_def s3_def\<close>)
  have step4: "(if t = task_tail s3 then s3\<lparr>task_tail := task_prev_of (memory s3) t\<rparr> else s3) = s4"
  proof (cases "ys = []")
    case False
    then have "?T = task_tail s" unfolding rp(14) by simp
    then show ?thesis using False ty by (simp add: s2_def s3_def s4_def)
  qed (use ty m2t in \<open>simp add: s2_def s3_def s4_def\<close>)
  have step5: "(if t = current_task s4 then s4\<lparr>current_task := task_get_next s4\<rparr> else s4) = s4\<lparr>current_task := ?C\<rparr>"
  proof (cases "c = t")
    case True
    have "(if hd (ys @ [NULL]) = NULL then ?H else hd (ys @ [NULL])) = hd (ys @ xs @ [NULL])"
      using rp(8) by (cases ys) auto
    then have "task_get_next s4 = hd (ys @ xs @ [NULL])"
      using True rp(15) m2t by (auto simp: task_get_next_def s2_def s3_def s4_def split: if_splits)
    moreover have "current_task s4 = c" using rp(15) by (simp add: s2_def s3_def s4_def)
    ultimately show ?thesis using True by simp
  qed (use rp(15) in \<open>simp add: s2_def s3_def s4_def\<close>)
  have "task_list_remove t s = s4\<lparr>current_task := ?C\<rparr>"
    unfolding task_list_remove_def Let_def step1 step2 step3 step4 step5 by (rule refl)
  then show ?thesis by (simp add: s2_def s3_def s4_def)
qed

lemma task_list_remove_ok:
  assumes "run_queue s (xs @ t # ys) c"
  shows "run_queue (task_list_remove t s) (xs @ ys) (if c = t then hd (ys @ xs @ [NULL]) else c)"
proof -
  have "xs @ ys \<noteq> [] \<Longrightarrow> hd (ys @ xs @ [NULL]) \<in> set (xs @ ys)" by (cases ys; cases xs) auto
  moreover have "tasks_ok (xs @ ys)" using assms by (auto simp: run_queue_def tasks_ok_def)
  ultimately show ?thesis
    using unlinked_links(1)[OF assms] run_queue_parts(16)[OF assms] unfolding task_list_remove_eq[OF assms]
    by (auto simp: run_queue_def split: if_splits)
qed

subsection \<open>Going round\<close>

lemma task_next_ok:
  assumes "run_queue s ts c" "ts \<noteq> []"
  defines "t \<equiv> successor ts c"
  shows "\<exists>s'. task_next s = Some (load_registers (memory s) (t + 4), s') \<and> run_queue s' ts t
    \<and> memory s' = memory s \<and> cr3 s' = load32 (memory s) (load32 (memory s) t)"
proof -
  have t: "task_get_next s = t" "t \<in> set ts" unfolding t_def by (rule task_get_next_ok[OF assms(1,2)])+
  then have "t \<noteq> NULL" using assms(1) by (auto simp: run_queue_def tasks_ok_def task_page_at_def)
  then show ?thesis
    using t assms(1,2)
    by (simp add: task_next_def task_switch_def paging_switch_def paging_load_directory_def task_return_def run_queue_def)
qed

text \<open>\<open>n\<close> calls of \<^verbatim>\<open>task_next\<close> in a row.\<close>

primrec task_nexts :: "nat \<Rightarrow> ('d, 'a) tstate_scheme \<Rightarrow> ('d, 'a) tstate_scheme option" where
  "task_nexts 0 s = Some s"
| "task_nexts (Suc n) s = Option.bind (task_next s) (\<lambda>(_, s'). task_nexts n s')"

lemma task_nexts_ok:
  assumes "run_queue s ts c" "ts \<noteq> []"
  shows "\<exists>s'. task_nexts n s = Some s' \<and> run_queue s' ts ((successor ts ^^ n) c) \<and> memory s' = memory s"
  using assms
proof (induction n arbitrary: s c)
  case (Suc n)
  from task_next_ok[OF Suc.prems] obtain ctx s1 where
    s1: "task_next s = Some (ctx, s1)" "run_queue s1 ts (successor ts c)" "memory s1 = memory s" by blast
  from Suc.IH[OF s1(2) Suc.prems(2)] obtain s' where
    "task_nexts n s1 = Some s'" "run_queue s' ts ((successor ts ^^ n) (successor ts c))" "memory s' = memory s1" by blast
  then show ?case using s1 by (simp add: funpow_swap1)
qed simp

lemma successor_nth:
  assumes "distinct ts" "i < length ts"
  shows "successor ts (ts ! i) = ts ! (Suc i mod length ts)"
proof -
  have ts: "ts = take i ts @ ts ! i # drop (Suc i) ts" by (rule id_take_nth_drop[OF assms(2)])
  have "ts ! i \<notin> set (take i ts)"
    using assms by (auto simp: in_set_conv_nth nth_eq_iff_index_eq)
  from successor_split[OF this, of "drop (Suc i) ts"]
  have "successor ts (ts ! i) = hd (drop (Suc i) ts @ take i ts @ [ts ! i])" using ts by simp
  also have "\<dots> = ts ! (Suc i mod length ts)"
  proof (cases "Suc i < length ts")
    case True
    then show ?thesis by (simp add: hd_append hd_drop_conv_nth)
  next
    case False
    then have "length ts = Suc i" using assms(2) by simp
    then show ?thesis by (cases i; cases ts) auto
  qed
  finally show ?thesis .
qed

lemma successor_funpow_nth:
  assumes "distinct ts" "i < length ts"
  shows "(successor ts ^^ n) (ts ! i) = ts ! ((i + n) mod length ts)"
proof (induction n)
  case (Suc n)
  have "(i + n) mod length ts < length ts" using assms(2) by (intro mod_less_divisor) auto
  from successor_nth[OF assms(1) this] show ?case using Suc by (simp add: mod_Suc_eq)
qed (use assms(2) in simp)

lemma successor_reaches:
  assumes "distinct ts" "c \<in> set ts" "t \<in> set ts"
  shows "\<exists>k < length ts. successor ts ((successor ts ^^ k) c) = t"
proof -
  obtain i j where ij: "i < length ts" "ts ! i = c" "j < length ts" "ts ! j = t"
    using assms(2,3) by (auto simp: in_set_conv_nth)
  define k where "k = (j + length ts - Suc i) mod length ts"
  have "(i + Suc k) mod length ts = (Suc i + (j + length ts - Suc i)) mod length ts"
    using mod_add_right_eq[of "Suc i" "j + length ts - Suc i" "length ts"] unfolding k_def by simp
  also have "Suc i + (j + length ts - Suc i) = j + length ts" using ij(1) by linarith
  also have "(j + length ts) mod length ts = j" using ij(3) by simp
  finally have "(i + Suc k) mod length ts = j" .
  then have "(successor ts ^^ Suc k) c = t" using successor_funpow_nth[OF assms(1) ij(1), of "Suc k"] ij by simp
  moreover have "k < length ts" using ij(1) unfolding k_def by (intro mod_less_divisor) auto
  ultimately show ?thesis by auto
qed

subsection \<open>Saving and restoring registers\<close>

lemma frame_cells_apart:
  fixes task frame i j :: u32
  assumes "disjoint_regions task 64 frame 52" "unat i + 4 \<le> 64" "unat j + 4 \<le> 52"
  shows "disjoint_regions (task + i) 4 (frame + j) 4"
proof -
  have "disjoint_regions (task + of_nat (unat i)) 4 frame 52"
    by (rule disjoint_regions_sub[OF assms(1)]) (use assms(2) in simp_all)
  then have "disjoint_regions frame 52 (task + i) 4" by (simp add: disjoint_regions_sym)
  then have "disjoint_regions (frame + of_nat (unat j)) 4 (task + i) 4"
    by (rule disjoint_regions_sub) (use assms(3) in simp_all)
  then show ?thesis by (simp add: disjoint_regions_sym)
qed

lemma frame_base_apart:
  assumes "disjoint_regions task 64 frame 52" "unat i + 4 \<le> 64"
  shows "disjoint_regions (task + i) 4 frame 4"
  using frame_cells_apart[OF assms, of 0] by simp

lemma same_base_apart:
  fixes p i j :: u32
  assumes "4 \<le> unat (j - i)" "4 \<le> unat (i - j)"
  shows "disjoint_regions (p + i) 4 (p + j) 4"
  using assms by (simp add: disjoint_regions_def)

lemma cell_base_apart:
  fixes p i :: u32
  assumes "4 \<le> unat i" "4 \<le> unat (- i)"
  shows "disjoint_regions (p + i) 4 p 4"
  using assms by (simp add: disjoint_regions_def)

definition frame_context :: "mem \<Rightarrow> u32 \<Rightarrow> user_context" where
  "frame_context m frame =
     \<lparr>uc_edi = load32 m frame, uc_esi = load32 m (frame + 4), uc_ebp = load32 m (frame + 8),
      uc_ebx = load32 m (frame + 16), uc_edx = load32 m (frame + 20), uc_ecx = load32 m (frame + 24),
      uc_eax = load32 m (frame + 28), uc_ip = load32 m (frame + 32), uc_cs = load32 m (frame + 36),
      uc_esp = load32 m (frame + 44), uc_ss = load32 m (frame + 48)\<rparr>"

lemma task_save_state_load:
  assumes "disjoint_regions task 64 frame 52"
  shows "load_registers (task_save_state task frame m) (task + 4) = frame_context m frame"
    and "load32 (task_save_state task frame m) (task + 40) = load32 m (frame + 40)"
    and "load32 (task_save_state task frame m) task = load32 m task"
    and "load32 (task_save_state task frame m) (task + 52) = load32 m (task + 52)"
    and "load32 (task_save_state task frame m) (task + 56) = load32 m (task + 56)"
  using frame_cells_apart[OF assms] frame_base_apart[OF assms]
  by (simp_all add: load_registers_def frame_context_def task_save_state_def load32_store32_other
      same_base_apart cell_base_apart add.commute[of "numeral n" task for n])

subsection \<open>Making a task\<close>

lemma chunk_frame:
  assumes live: "klive h s A" and own: "chunk_pages h m c bd fs" and pages: "\<forall>b \<in> set (c # bd # fs). A b = Some 1"
    and same: "\<And>b a. b \<in> set (c # bd # fs) \<Longrightarrow> in_blocks h b 1 a \<Longrightarrow> m' a = m a"
  shows "chunk_pages h m' c bd fs" "v < 2 ^ 20 \<Longrightarrow> pte m' (block_addr h bd) v = pte m (block_addr h bd) v"
proof -
  have cell: "load32 m' (block_addr h b + 4 * of_nat i) = load32 m (block_addr h b + 4 * of_nat i)"
    if "b \<in> set (c # bd # fs)" "i < 1024" for b i
    using same[OF that(1)] page_cell_in_block[OF live _ that(2), of b] pages that(1) by (intro load32_cong) blast
  have t: "tbl m' (block_addr h bd) i = tbl m (block_addr h bd) i" if "i < 1024" for i
    using cell[of bd i] that by (simp add: tbl_def)
  then show "chunk_pages h m' c bd fs" using own cell[of c 0] by (simp add: chunk_pages_def)
  show "pte m' (block_addr h bd) v = pte m (block_addr h bd) v" if "v < 2 ^ 20"
  proof -
    have i: "v div 1024 < 1024" "v mod 1024 < 1024" using that by simp_all
    have "tbl m (block_addr h bd) (v div 1024) = block_addr h (fs ! (v div 1024))" "fs ! (v div 1024) \<in> set fs"
      using own i(1) by (auto simp: chunk_pages_def)
    then show ?thesis using cell[of "fs ! (v div 1024)" "v mod 1024"] t[OF i(1)] i by (simp add: pte_def pte_addr_def)
  qed
qed

text \<open>Bytes that belong to live allocations.\<close>

definition held :: "heap \<Rightarrow> (nat \<rightharpoonup> nat) \<Rightarrow> u32 \<Rightarrow> nat \<Rightarrow> bool" where
  "held h A p n \<longleftrightarrow> (\<forall>a. in_region p n a \<longrightarrow> (\<exists>e k. A e = Some k \<and> in_blocks h e k a))"

lemma held_load32:
  assumes "held h A p n" "off + 4 \<le> n" "n \<le> 2 ^ 32"
    and "\<And>e k a. A e = Some k \<Longrightarrow> in_blocks h e k a \<Longrightarrow> m' a = m a"
  shows "load32 m' (p + of_nat off) = load32 m (p + of_nat off)"
proof (rule load32_cong)
  fix a assume "in_region (p + of_nat off) 4 a"
  then have "in_region p n a" using assms(2,3) by (rule in_region_sub)
  then show "m' a = m a" using assms(1,4) unfolding held_def by blast
qed

text \<open>The program counter a new task of \<open>process\<close> starts with, and that what it is computed from is held.\<close>

definition entry_point :: "mem \<Rightarrow> u32 \<Rightarrow> u32" where
  "entry_point m process = (if process_filetype m process = 0
     then e_entry m (elf_header (process_elf_file m process) m) else 0x400000)"

definition entry_held :: "heap \<Rightarrow> (nat \<rightharpoonup> nat) \<Rightarrow> mem \<Rightarrow> u32 \<Rightarrow> bool" where
  "entry_held h A m process \<longleftrightarrow> held h A process 9384 \<and> (process_filetype m process = 0 \<longrightarrow>
     held h A (process_elf_file m process) 152 \<and> held h A (elf_header (process_elf_file m process) m) 52)"

lemma entry_reads:
  assumes "entry_held h A m process" "\<And>e k a. A e = Some k \<Longrightarrow> in_blocks h e k a \<Longrightarrow> m' a = m a"
  shows "process_filetype m' process = process_filetype m process"
    and "process_elf_file m' process = process_elf_file m process"
    and "process_filetype m process = 0 \<Longrightarrow>
      elf_header (process_elf_file m process) m' = elf_header (process_elf_file m process) m"
    and "process_filetype m process = 0 \<Longrightarrow>
      e_entry m' (elf_header (process_elf_file m process) m) = e_entry m (elf_header (process_elf_file m process) m)"
proof -
  let ?f = "process_elf_file m process"
  have p: "held h A process 9384" using assms(1) by (simp add: entry_held_def)
  have "in_region process 9384 (process + 8328)" by (simp add: in_region_def)
  then show "m' (process + 8328) = m (process + 8328)" using p assms(2) unfolding held_def by blast
  show "load32 m' (process + 8332) = load32 m (process + 8332)"
    using held_load32[OF p, of 8332 m' m] assms(2) by simp
  assume "process_filetype m process = 0"
  then have e: "held h A ?f 152" "held h A (elf_header ?f m) 52" using assms(1) by (simp_all add: entry_held_def)
  show "elf_header ?f m' = elf_header ?f m"
    using held_load32[OF e(1), of 132 m' m] assms(2) by (simp add: elf_header_def)
  show "e_entry m' (elf_header ?f m) = e_entry m (elf_header ?f m)"
    using held_load32[OF e(2), of 24 m' m] assms(2) by simp
qed

lemma entry_point_frame:
  assumes "entry_held h A m process" "\<And>e k a. A e = Some k \<Longrightarrow> in_blocks h e k a \<Longrightarrow> m' a = m a"
  shows "entry_point m' process = entry_point m process" "entry_held h A m' process"
  using entry_reads[of h A m process m', OF assms] assms(1) by (auto simp: entry_point_def entry_held_def)

lemma store32_twice: "store32 (store32 m p v) p w = store32 m p w"
  by (auto simp: store32_def fun_eq_iff)

definition fresh_context :: "u32 \<Rightarrow> user_context" where
  "fresh_context ip = \<lparr>uc_edi = 0, uc_esi = 0, uc_ebp = 0, uc_ebx = 0, uc_edx = 0, uc_ecx = 0, uc_eax = 0,
     uc_ip = ip, uc_cs = 0x1b, uc_esp = 0x3FF000, uc_ss = 0x23\<rparr>"

lemma zero_cell:
  assumes "\<And>a. in_region t 64 a \<Longrightarrow> m a = 0" "unat i + 4 \<le> 64"
  shows "load32 m (t + i) = 0"
proof -
  have "load32 m (t + of_nat (unat i)) = load32 (\<lambda>_. 0) (t + of_nat (unat i))"
    using in_region_sub[of t "unat i" 4 _ 64] assms by (intro load32_cong) simp
  then show ?thesis by (simp add: load32_def)
qed

text \<open>What \<^verbatim>\<open>task_init\<close> writes after the address space has been made.\<close>

definition task_fields :: "u32 \<Rightarrow> u32 \<Rightarrow> u32 \<Rightarrow> mem \<Rightarrow> mem" where
  "task_fields t process ip m =
     store32 (store32 (store32 (store32 (store32 m (t + 32) ip) (t + 48) 0x23) (t + 36) 0x1b) (t + 44) 0x3FF000) (t + 60) process"

lemma task_fields_outside: "\<not> in_region t 64 a \<Longrightarrow> task_fields t process ip m a = m a"
proof -
  assume out: "\<not> in_region t 64 a"
  have "\<not> in_region (t + of_nat i) 4 a" if "i \<le> 60" for i
    using in_region_sub[of t i 4 a 64] out that by auto
  from this[of 32] this[of 36] this[of 44] this[of 48] this[of 60]
  show ?thesis by (simp add: task_fields_def store32_outside)
qed

lemma task_fields_load:
  assumes "\<And>i. unat i + 4 \<le> 64 \<Longrightarrow> 4 \<le> unat i \<Longrightarrow> load32 m (t + i) = 0"
  shows "load_registers (task_fields t process ip m) (t + 4) = fresh_context ip"
    "load32 (task_fields t process ip m) (t + 52) = 0" "load32 (task_fields t process ip m) (t + 56) = 0"
    "load32 (task_fields t process ip m) (t + 60) = process" "load32 (task_fields t process ip m) t = load32 m t"
  using assms
  by (simp_all add: load_registers_def fresh_context_def task_fields_def load32_store32_other
      same_base_apart cell_base_apart add.commute[of "numeral n" t for n])

lemma task_init_ok:
  fixes s :: "('d, 'a) tstate_scheme"
  assumes live: "klive h s A" and b: "A b = Some 1" and room: "1026 \<le> card (unused_blocks (nblocks h) A)"
    and entry: "entry_held h (A(b := None)) (memory s) process"
  defines "t \<equiv> block_addr h b"
  shows "\<exists>c bd fs m. task_init t process s = (0, s\<lparr>memory := m\<rparr>)
    \<and> klive h (s\<lparr>memory := m\<rparr>) (with_pages A (set (c # bd # fs)))
    \<and> (\<forall>x \<in> set (c # bd # fs). A x = None) \<and> chunk_pages h m c bd fs
    \<and> (\<forall>v < 2 ^ 20. pte m (block_addr h bd) v = of_nat (4096 * v) OR 5)
    \<and> load32 m t = block_addr h c \<and> load_registers m (t + 4) = fresh_context (entry_point (memory s) process)
    \<and> load32 m (t + 52) = 0 \<and> load32 m (t + 56) = 0 \<and> load32 m (t + 60) = process
    \<and> (\<forall>e n a. A e = Some n \<longrightarrow> e \<noteq> b \<longrightarrow> in_blocks h e n a \<longrightarrow> m a = memory s a)"
proof -
  define m0 where "m0 = memset (memory s) t 0 64"
  have inb: "in_blocks h b 1 a" if "in_region t 64 a" for a
    using that by (simp add: in_blocks_def in_region_def t_def)
  have m0: "m0 a = (if in_region t 64 a then 0 else memory s a)" for a by (simp add: m0_def memset_eq)
  have live0: "klive h (s\<lparr>memory := m0\<rparr>) A"
    by (rule klive_write[OF live]) (use inb b in \<open>auto simp: m0 split: if_splits\<close>)
  from paging_new_4gb_ok[OF live0 room, of 5] obtain c bd fs m1 where
    pg: "paging_new_4gb 5 (s\<lparr>memory := m0\<rparr>) = (block_addr h c, s\<lparr>memory := m1\<rparr>)"
    "klive h (s\<lparr>memory := m1\<rparr>) (with_pages A (set (c # bd # fs)))" "\<forall>x \<in> set (c # bd # fs). A x = None"
    "chunk_pages h m1 c bd fs" "\<forall>v < 2 ^ 20. pte m1 (block_addr h bd) v = of_nat (4096 * v) OR 5"
    "\<And>e n a. A e = Some n \<Longrightarrow> in_blocks h e n a \<Longrightarrow> m1 a = m0 a"
    by auto
  let ?P = "with_pages A (set (c # bd # fs))"
  have bP: "?P b = Some 1" and eP: "\<And>e n. A e = Some n \<Longrightarrow> ?P e = Some n"
    using pg(3) b by (auto simp: with_pages_def)
  have pages: "\<forall>x \<in> set (c # bd # fs). ?P x = Some 1" by (auto simp: with_pages_def)
  have c0: "block_addr h c \<noteq> NULL" using klive_block(1,2)[OF pg(2), of c 1] pages by (simp add: block_addr_nonzero)
  define m2 where "m2 = store32 m1 t (block_addr h c)"
  define m where "m = task_fields t process (entry_point m2 process) m2"
  have m2_out: "m2 a = m1 a" if "\<not> in_region t 64 a" for a
    using that in_region_sub[of t 0 4 a 64] by (auto simp: m2_def intro!: store32_outside)
  have m_out: "m a = m1 a" if "\<not> in_blocks h b 1 a" for a
    using that inb[of a] task_fields_outside[of t a process _ m2] m2_out[of a] by (auto simp: m_def)
  have zero: "load32 m2 (t + i) = 0" if "unat i + 4 \<le> 64" "4 \<le> unat i" for i
  proof -
    have "disjoint_regions t 4 (t + i) 4"
      using that unat_sub_if'[of 0 i] by (auto simp: disjoint_regions_def unat_word_ariths)
    then have "load32 m2 (t + i) = load32 m1 (t + i)" by (simp add: m2_def load32_store32_other)
    then show ?thesis
      using zero_cell[of t m1 i] that(1) pg(6)[OF b] inb m0 by simp
  qed
  have other: "m2 a = memory s a" "m a = memory s a" if "A e = Some n" "e \<noteq> b" "in_blocks h e n a" for e n a
  proof -
    have out: "\<not> in_blocks h b 1 a" using klive_apart[OF live that(1) b that(2,3)] .
    then show "m2 a = memory s a" "m a = memory s a"
      using m2_out[of a] m_out[of a] pg(6)[OF that(1,3)] m0[of a] inb[of a] by auto
  qed
  have ip: "entry_point m2 process = entry_point (memory s) process"
    by (rule entry_point_frame(1)[OF entry]) (use other(1) in \<open>auto split: if_splits\<close>)
  have klive_m: "klive h (s\<lparr>memory := m\<rparr>) ?P"
  proof -
    have "\<exists>b n. ?P b = Some n \<and> in_blocks h b n a" if "m a \<noteq> m1 a" for a using m_out[of a] that bP by blast
    then show ?thesis using klive_write[OF pg(2), of m] by simp
  qed
  have frame: "m a = m1 a" if "x \<in> set (c # bd # fs)" "in_blocks h x 1 a" for x a
    using klive_apart[OF pg(2) _ bP _ that(2)] pages that pg(3) b by (intro m_out) fastforce
  have eq: "task_init t process s = (0, s\<lparr>memory := m\<rparr>)"
  proof -
    define m3 where "m3 = store32 m2 (t + 32) 0x400000"
    have "m3 a = m2 a" if "\<not> in_region t 64 a" for a
      using that in_region_sub[of t 32 4 a 64] by (auto simp: m3_def intro!: store32_outside)
    then have "m3 a = memory s a" if "A e = Some n" "e \<noteq> b" "in_blocks h e n a" for e n a
    proof -
      have "\<not> in_region t 64 a" using klive_apart[OF live that(1) b that(2,3)] inb[of a] by blast
      then show ?thesis using other(1)[OF that] \<open>\<And>a. \<not> in_region t 64 a \<Longrightarrow> m3 a = m2 a\<close> by simp
    qed
    then have "entry_point m3 process = entry_point (memory s) process"
      by (intro entry_point_frame(1)[OF entry]) (auto split: if_splits)
    then have m4: "(if process_filetype m3 process = 0
        then store32 m3 (t + 32) (e_entry m3 (elf_header (process_elf_file m3 process) m3)) else m3)
        = store32 m2 (t + 32) (entry_point m2 process)"
      using ip by (auto simp: entry_point_def m3_def store32_twice)
    have "task_init t process s = (0, s\<lparr>memory := task_fields t process (entry_point m2 process) m2\<rparr>)"
      unfolding task_fields_def m4[symmetric]
      using pg(1) c0 by (simp add: task_init_def m0_def m2_def m3_def Let_def)
    then show ?thesis by (simp add: m_def)
  qed
  note task_fields_load[of m2 t process "entry_point m2 process", OF zero, folded m_def]
  moreover have "load32 m2 t = block_addr h c" by (simp add: m2_def)
  ultimately show ?thesis
    using eq klive_m pg(3,5) chunk_frame[OF pg(2,4) pages frame] other(2) ip
    by (intro exI[of _ c] exI[of _ bd] exI[of _ fs] exI[of _ m]) simp
qed

text \<open>
  \<^verbatim>\<open>task_new\<close> on a heap with 1027 unused blocks: a fresh task at the end of the queue with a fresh address space.
\<close>

lemma task_new_ok:
  fixes s :: "('d, 'a) tstate_scheme"
  assumes live: "klive h s A" and room: "1027 \<le> card (unused_blocks (nblocks h) A)"
    and entry: "entry_held h A (memory s) process"
    and queue: "run_queue s ts q" and mine: "\<forall>x \<in> set ts. \<exists>e. A e = Some 1 \<and> x = block_addr h e"
  shows "\<exists>b c bd fs s'. task_new process s = (block_addr h b, s') \<and> A b = None \<and> b \<notin> set (c # bd # fs)
    \<and> klive h s' (with_pages A (set (b # c # bd # fs))) \<and> (\<forall>x \<in> set (b # c # bd # fs). A x = None)
    \<and> run_queue s' (ts @ [block_addr h b]) (if ts = [] then block_addr h b else q)
    \<and> load32 (memory s') (block_addr h b) = block_addr h c \<and> chunk_pages h (memory s') c bd fs
    \<and> (\<forall>v < 2 ^ 20. pte (memory s') (block_addr h bd) v = of_nat (4096 * v) OR 5)
    \<and> load_registers (memory s') (block_addr h b + 4) = fresh_context (entry_point (memory s) process)
    \<and> load32 (memory s') (block_addr h b + 60) = process
    \<and> (\<forall>e n a. A e = Some n \<longrightarrow> in_blocks h e n a \<longrightarrow> (ts \<noteq> [] \<longrightarrow> \<not> in_region (last ts + 52) 4 a) \<longrightarrow>
         memory s' a = memory s a)"
proof -
  let ?U = "unused_blocks (nblocks h)"
  have U: "?U A \<noteq> {}" using room by auto
  obtain b m1 where kz: "kzalloc 64 s = (block_addr h b, s\<lparr>memory := m1\<rparr>)" "klive h (s\<lparr>memory := m1\<rparr>) (A(b \<mapsto> 1))"
    "A b = None" "b \<in> ?U A" "?U (A(b \<mapsto> 1)) = ?U A - {b}" and "\<And>a. in_region (block_addr h b) 64 a \<Longrightarrow> m1 a = 0"
    and kz_out: "\<And>a. \<not> in_table h a \<Longrightarrow> \<not> in_blocks h b 1 a \<Longrightarrow> m1 a = memory s a"
    using kzalloc_page[OF live U, of 64] by auto
  let ?t = "block_addr h b" and ?A = "A(b \<mapsto> 1)"
  have bb: "?A b = Some 1" by simp
  have room1: "1026 \<le> card (?U ?A)" using kz(4,5) room by simp
  have A': "?A(b := None) = A" using kz(3) by auto
  have old: "m1 a = memory s a" if "A e = Some n" "in_blocks h e n a" for e n a
  proof (rule kz_out)
    have e: "?A e = Some n" "e \<noteq> b" using that(1) kz(3) by auto
    show "\<not> in_table h a" using blocks_not_in_table[OF klive_block(1,3,4)[OF kz(2) e(1)] that(2)] .
    show "\<not> in_blocks h b 1 a" using klive_apart[OF kz(2) e(1) bb e(2) that(2)] .
  qed
  have entry1: "entry_held h (?A(b := None)) (memory (s\<lparr>memory := m1\<rparr>)) process"
    unfolding A' using entry_point_frame(2)[OF entry, of m1] old by auto
  define s1 where "s1 = s\<lparr>memory := m1\<rparr>"
  note init = task_init_ok[OF kz(2) bb room1 entry1, folded s1_def]
  from init obtain c bd fs m2 where
    ti': "task_init ?t process s1 = (0, s1\<lparr>memory := m2\<rparr>)"
    "klive h (s1\<lparr>memory := m2\<rparr>) (with_pages ?A (set (c # bd # fs)))" "\<forall>x \<in> set (c # bd # fs). ?A x = None"
    "chunk_pages h m2 c bd fs" "\<forall>v < 2 ^ 20. pte m2 (block_addr h bd) v = of_nat (4096 * v) OR 5"
    "load32 m2 ?t = block_addr h c" "load_registers m2 (?t + 4) = fresh_context (entry_point (memory s1) process)"
    "load32 m2 (?t + 52) = 0" "load32 m2 (?t + 56) = 0" "load32 m2 (?t + 60) = process"
    "\<forall>e n a. ?A e = Some n \<longrightarrow> e \<noteq> b \<longrightarrow> in_blocks h e n a \<longrightarrow> m2 a = memory s1 a" by blast
  note ti = ti'[unfolded s1_def]
  let ?s2 = "s\<lparr>memory := m2\<rparr>" and ?P = "with_pages A (set (b # c # bd # fs))"
  have P: "with_pages ?A (set (c # bd # fs)) = ?P" by (auto simp: with_pages_def fun_eq_iff)
  have keep: "m2 a = memory s a" if "A e = Some n" "in_blocks h e n a" for e n a
  proof -
    have e: "e \<noteq> b" "?A e = Some n" using that(1) kz(3) by auto
    show ?thesis using ti(11)[rule_format, OF e(2,1) that(2)] old[OF that] by simp
  qed
  have ip: "entry_point m1 process = entry_point (memory s) process" by (rule entry_point_frame(1)[OF entry old])
  have t: "task_page_at ?t" using klive_block(1,2)[OF kz(2) bb]
    by (simp add: task_page_at_def block_addr_nonzero block_addr_aligned)
  have new: "?t \<notin> set ts"
  proof
    assume "?t \<in> set ts"
    then obtain e where "A e = Some 1" "?t = block_addr h e" using mine by blast
    then show False
      using block_addr_inj[of h b e] klive_block(1,2)[OF kz(2) bb] klive_block(2)[OF live, of e 1] kz(3) by auto
  qed
  have queue2: "run_queue ?s2 ts q"
  proof -
    have "dlist m2 NULL ts NULL = dlist (memory s) NULL ts NULL"
    proof (rule dlist_cong)
      fix x assume "x \<in> set ts"
      then obtain e where e: "A e = Some 1" "x = block_addr h e" using mine by blast
      have "load32 m2 (x + of_nat i) = load32 (memory s) (x + of_nat i)" if "i + 4 \<le> 4096" for i
        using block_bytes[of h e i 4] keep[OF e(1)] that e(2) by (intro load32_cong) auto
      from this[of 52] this[of 56] show "task_next_of m2 x = task_next_of (memory s) x \<and> task_prev_of m2 x = task_prev_of (memory s) x"
        by simp
    qed
    then show ?thesis using queue by (simp add: run_queue_def)
  qed
  define s' where "s' = task_link ?t ?s2"
  have link: "run_queue s' (ts @ [?t]) (if ts = [] then ?t else q)"
    unfolding s'_def by (rule task_link_ok[OF queue2 t new]) (use ti(8,9) in simp_all)
  have res: "task_new process s = (?t, s')"
    using kz(1) ti(1) t by (simp add: task_new_def task_page_at_def s'_def)
  have out: "memory s' a = m2 a" if "\<not> in_region (?t + 56) 4 a" "ts \<noteq> [] \<longrightarrow> \<not> in_region (last ts + 52) 4 a" for a
    using that queue2 by (auto simp: s'_def task_link_def Let_def run_queue_def store32_outside split: if_splits)
  have klive': "klive h s' ?P"
  proof -
    have "\<exists>e n. ?P e = Some n \<and> in_blocks h e n a" if "memory s' a \<noteq> m2 a" for a
    proof -
      have "in_region (?t + 56) 4 a \<or> ts \<noteq> [] \<and> in_region (last ts + 52) 4 a" using out[of a] that by blast
      then consider "in_region (?t + of_nat 56) 4 a" | "ts \<noteq> []" "in_region (last ts + of_nat 52) 4 a" by auto
      then show ?thesis
      proof cases
        case 1
        then have "in_blocks h b 1 a" by (rule block_bytes) simp
        then show ?thesis by (intro exI[of _ b] exI[of _ 1]) (simp add: with_pages_def)
      next
        case 2
        obtain e where e: "A e = Some 1" "last ts = block_addr h e" using mine last_in_set[OF 2(1)] by blast
        have "in_blocks h e 1 a" using 2(2) unfolding e(2) by (rule block_bytes) simp
        moreover have "?P e = Some 1" using e(1) by (auto simp: with_pages_def)
        ultimately show ?thesis by blast
      qed
    qed
    then have "klive h (?s2\<lparr>memory := memory s'\<rparr>) ?P" using klive_write[OF ti(2)[simplified P]] by simp
    moreover have "kernel_heap s' = kernel_heap s" by (simp add: s'_def task_link_def Let_def)
    ultimately show ?thesis by (auto simp: klive_def kheap_rel_def)
  qed
  have cell: "load32 (memory s') (?t + i) = load32 m2 (?t + i)" if "unat i + 4 \<le> 56 \<or> i = 60" for i
  proof (rule load32_cong, rule out)
    fix a assume a: "in_region (?t + i) 4 a"
    have i: "unat i + 4 \<le> 4096" using that by auto
    have "disjoint_regions (?t + 56) 4 (?t + i) 4"
    proof (cases "i = 60")
      case False
      then have "unat (i - 56) = 2 ^ 32 + unat i - 56" "unat (56 - i) = 56 - unat i" using that by (auto simp: unat_sub_if')
      then show ?thesis using that False by (intro same_base_apart) auto
    qed (simp add: same_base_apart)
    then show "\<not> in_region (?t + 56) 4 a" using a disjoint_regionsD by blast
    show "ts \<noteq> [] \<longrightarrow> \<not> in_region (last ts + 52) 4 a"
    proof
      assume "ts \<noteq> []"
      then have "last ts \<in> set ts" by (rule last_in_set)
      then have l: "last ts \<noteq> ?t" "task_page_at (last ts)" using new queue by (auto simp: run_queue_def tasks_ok_def)
      have "disjoint_regions (last ts + of_nat 52) 4 (?t + of_nat (unat i)) 4"
        using l t i by (intro page_cells_apart) (auto simp: task_page_at_def)
      then show "\<not> in_region (last ts + 52) 4 a" using a disjoint_regionsD by fastforce
    qed
  qed
  have regs': "load_registers (memory s') (?t + 4) = load_registers m2 (?t + 4)"
    using cell by (simp add: load_registers_def add.commute[of "numeral n" ?t for n])
  have dir': "load32 (memory s') ?t = load32 m2 ?t" using cell[of 0] by simp
  have frame: "memory s' a = m2 a" if "x \<in> set (c # bd # fs)" "in_blocks h x 1 a" for x a
  proof (rule out)
    have x: "?P x = Some 1" "?P b = Some 1" "x \<noteq> b" using that(1) ti(3) by (auto simp: with_pages_def split: if_splits)
    have "\<not> in_blocks h b 1 a" using klive_apart[OF ti(2)[unfolded P] x(1,2,3) that(2)] .
    then show "\<not> in_region (?t + 56) 4 a" using block_bytes[of h b 56 4 a] by auto
    show "ts \<noteq> [] \<longrightarrow> \<not> in_region (last ts + 52) 4 a"
    proof (intro impI notI)
      assume ne: "ts \<noteq> []" and a: "in_region (last ts + 52) 4 a"
      obtain e where e: "A e = Some 1" "last ts = block_addr h e" using mine last_in_set[OF ne] by blast
      have "in_blocks h e 1 a" using block_bytes[of h e 52 4 a] a e(2) by simp
      moreover have "?P e = Some 1" "e \<noteq> x" using e(1) that(1) ti(3) by (auto simp: with_pages_def split: if_splits)
      ultimately show False using klive_apart[OF ti(2)[unfolded P] _ x(1), of e 1 a] that(2) by blast
    qed
  qed
  have pages: "\<forall>x \<in> set (c # bd # fs). with_pages ?A (set (c # bd # fs)) x = Some 1" by (auto simp: with_pages_def)
  have ptes': "\<forall>v < 2 ^ 20. pte (memory s') (block_addr h bd) v = of_nat (4096 * v) OR 5"
    using chunk_frame(2)[OF ti(2,4) pages frame] ti(5) by simp
  have ctx': "load_registers (memory s') (?t + 4) = fresh_context (entry_point (memory s) process)"
    using regs' ti(7) ip by simp
  have proc': "load32 (memory s') (?t + 60) = process" using cell[of 60] ti(10) by simp
  have free': "\<forall>x \<in> set (b # c # bd # fs). A x = None" using ti(3) kz(3) by (auto split: if_splits)
  have other': "b \<notin> set (c # bd # fs)" using ti(3) by auto
  have chunk': "load32 (memory s') ?t = block_addr h c" using dir' ti(6) by simp
  have own': "chunk_pages h (memory s') c bd fs" by (rule chunk_frame(1)[OF ti(2,4) pages frame])
  have rest': "\<forall>e n a. A e = Some n \<longrightarrow> in_blocks h e n a \<longrightarrow> (ts \<noteq> [] \<longrightarrow> \<not> in_region (last ts + 52) 4 a) \<longrightarrow>
      memory s' a = memory s a"
  proof (intro allI impI)
    fix e n a assume a: "A e = Some n" "in_blocks h e n a" "ts \<noteq> [] \<longrightarrow> \<not> in_region (last ts + 52) 4 a"
    have "?A e = Some n" "e \<noteq> b" using a(1) kz(3) by auto
    then have "\<not> in_blocks h b 1 a" using klive_apart[OF kz(2) _ bb _ a(2)] by blast
    then have "\<not> in_region (?t + 56) 4 a" using block_bytes[of h b 56 4 a] by auto
    then show "memory s' a = memory s a" using out[of a] a(3) keep[OF a(1,2)] by simp
  qed
  show ?thesis
    by (rule exI[of _ b], rule exI[of _ c], rule exI[of _ bd], rule exI[of _ fs], rule exI[of _ s'], intro conjI)
       (fact res kz(3) other' klive' free' link chunk' own' ptes' ctx' proc' rest')+
qed

subsection \<open>Properties\<close>

text \<open>A kernel that has just set up its heap and has no task yet; a process of type binary lies in the first page.\<close>

definition no_tasks :: "unit tstate" where
  "no_tasks = kheap_init \<lparr>memory = \<lambda>_. 0, video_mem = 0, terminal_row = 0, terminal_col = 0,
     kernel_heap = four_blocks, current_directory = 0, cr3 = 0, paging_on = False, idtr = (0, 0),
     interrupts_on = False, device = (), current_task = 0, task_tail = 0, task_head = 0, kernel_chunk = 0, data_segments = 0x10\<rparr>"

lemma no_tasks_queue: "run_queue no_tasks [] 0"
  by (simp add: run_queue_def no_tasks_def tasks_ok_def kheap_init_eq)

text \<open>
  C28.  \<^verbatim>\<open>task_new\<close> with enough free memory returns a fresh page whose task is the last of the run queue (and the current
  task if it is the only one), has an address space that maps all \<open>2\<^sup>2\<^sup>0\<close> pages to themselves without write access,
  starts at the process's entry point on the user stack with the user segments, and belongs to the process.  Of the
  memory that was live before, only the link cell of the previous last task changes.
\<close>

theorem task_new_appends:
  fixes s :: "('d, 'a) tstate_scheme"
  assumes "klive h s A" "1027 \<le> card (unused_blocks (nblocks h) A)" "entry_held h A (memory s) process"
    and "run_queue s ts q" "\<forall>x \<in> set ts. \<exists>e. A e = Some 1 \<and> x = block_addr h e"
  shows "\<exists>b c bd fs s'. task_new process s = (block_addr h b, s') \<and> A b = None \<and> b \<notin> set (c # bd # fs)
    \<and> klive h s' (with_pages A (set (b # c # bd # fs))) \<and> (\<forall>x \<in> set (b # c # bd # fs). A x = None)
    \<and> run_queue s' (ts @ [block_addr h b]) (if ts = [] then block_addr h b else q)
    \<and> load32 (memory s') (block_addr h b) = block_addr h c \<and> chunk_pages h (memory s') c bd fs
    \<and> (\<forall>v < 2 ^ 20. pte (memory s') (block_addr h bd) v = of_nat (4096 * v) OR 5)
    \<and> load_registers (memory s') (block_addr h b + 4) = fresh_context (entry_point (memory s) process)
    \<and> load32 (memory s') (block_addr h b + 60) = process
    \<and> (\<forall>e n a. A e = Some n \<longrightarrow> in_blocks h e n a \<longrightarrow> (ts \<noteq> [] \<longrightarrow> \<not> in_region (last ts + 52) 4 a) \<longrightarrow>
         memory s' a = memory s a)"
  using assms by (rule task_new_ok)

text \<open>
  \<^verbatim>\<open>task_list_remove\<close> takes exactly one task out of the run queue; if it was the current one the next in the
  cyclic order becomes current, or none when the queue is empty.
\<close>

theorem task_list_remove_removes:
  assumes "run_queue s ts c" "t \<in> set ts"
  shows "run_queue (task_list_remove t s) (remove1 t ts)
    (if c = t then (if ts = [t] then NULL else successor ts t) else c)"
proof -
  obtain xs ys where ts: "ts = xs @ t # ys" "t \<notin> set xs" using split_list_first[OF assms(2)] by blast
  have "t \<notin> set ys" using assms(1) ts(1) by (auto simp: run_queue_def tasks_ok_def)
  then have "remove1 t ts = xs @ ys" using ts by (simp add: remove1_append)
  moreover have "hd (ys @ xs @ [NULL]) = (if ts = [t] then NULL else successor ts t)"
    using successor_split[OF ts(2), of ys] ts(1) by (cases ys; cases xs) auto
  moreover have "run_queue (task_list_remove t s) (xs @ ys) (if c = t then hd (ys @ xs @ [NULL]) else c)"
    using task_list_remove_ok[of s xs t ys c] assms(1) ts(1) by simp
  ultimately show ?thesis by (simp only:)
qed

text \<open>
  C29.  Round robin is fair: within as many calls of \<^verbatim>\<open>task_next\<close> as there are tasks, every task of the queue is switched
  to; the call that does so loads the task's page directory, enters user mode with its saved registers and leaves
  memory as it was.
\<close>

theorem task_next_fair:
  assumes "run_queue s ts c" "t \<in> set ts"
  shows "\<exists>k < length ts. \<exists>s1 s2. task_nexts k s = Some s1
    \<and> task_next s1 = Some (load_registers (memory s) (t + 4), s2) \<and> current_task s2 = t
    \<and> cr3 s2 = load32 (memory s) (load32 (memory s) t) \<and> memory s2 = memory s \<and> run_queue s2 ts t"
proof -
  have ne: "ts \<noteq> []" "distinct ts" "c \<in> set ts" using assms by (auto simp: run_queue_def tasks_ok_def split: if_splits)
  from successor_reaches[OF ne(2,3) assms(2)] obtain k where
    k: "k < length ts" "successor ts ((successor ts ^^ k) c) = t" by blast
  from task_nexts_ok[OF assms(1) ne(1), of k] obtain s1 where
    s1: "task_nexts k s = Some s1" "run_queue s1 ts ((successor ts ^^ k) c)" "memory s1 = memory s" by blast
  from task_next_ok[OF s1(2) ne(1)] k(2) s1 obtain s2 where
    "task_next s1 = Some (load_registers (memory s) (t + 4), s2)" "run_queue s2 ts t" "memory s2 = memory s"
    "cr3 s2 = load32 (memory s) (load32 (memory s) t)" by auto
  moreover from this(2) have "current_task s2 = t" by (simp add: run_queue_def)
  ultimately show ?thesis using k(1) s1(1) by blast
qed


subsection \<open>Instances\<close>

text \<open>Two tasks in the queue.\<close>

definition two_tasks :: "unit tstate" where
  "two_tasks = task_link 0x2001000 (task_link 0x2000000 no_tasks)"

lemma no_tasks_zero: "\<not> in_region 0x7E00 25600 a \<Longrightarrow> memory no_tasks a = 0"
  by (simp add: no_tasks_def kheap_init_eq memset_eq)

lemma two_tasks_queue: "run_queue two_tasks [0x2000000, 0x2001000] 0x2000000"
proof -
  have z: "load32 (memory no_tasks) p = 0" if "\<And>a. in_region p 4 a \<Longrightarrow> \<not> in_region 0x7E00 25600 a" for p
  proof -
    have "load32 (memory no_tasks) p = load32 (\<lambda>_. 0) p" using no_tasks_zero that by (intro load32_cong) blast
    then show ?thesis by (simp add: load32_def)
  qed
  have cells: "load32 (memory no_tasks) 0x2000034 = 0" "load32 (memory no_tasks) 0x2000038 = 0"
    "load32 (memory no_tasks) 0x2001034 = 0" "load32 (memory no_tasks) 0x2001038 = 0"
    by (rule z; simp add: in_region_iff_nat)+
  have pg: "task_page_at 0x2000000" "task_page_at 0x2001000" by (simp_all add: task_page_at_def)
  have one: "run_queue (task_link 0x2000000 no_tasks) ([] @ [0x2000000]) 0x2000000"
    using task_link_ok[OF no_tasks_queue pg(1)] cells by simp
  have same: "memory (task_link 0x2000000 no_tasks) = memory no_tasks"
    using no_tasks_queue by (simp add: task_link_def run_queue_def)
  show ?thesis
    using task_link_ok[OF one pg(2)] cells unfolding two_tasks_def by (simp add: same)
qed

theorem task_list_remove_removes_witness:
  "run_queue (task_list_remove 0x2000000 two_tasks) [0x2001000] 0x2001000"
  using task_list_remove_removes[OF two_tasks_queue, of "0x2000000"] by (simp add: successor_def)

theorem task_next_fair_witness:
  "\<exists>k < 2. \<exists>s1 ctx s2. task_nexts k two_tasks = Some s1 \<and> task_next s1 = Some (ctx, s2) \<and> current_task s2 = 0x2001000"
  using task_next_fair[OF two_tasks_queue, of "0x2001000"] by (auto simp: numeral_2_eq_2)


lemma one_object_room:
  assumes "fits (unused Map.empty) 25600 n b" "n \<le> 16"
  shows "1027 \<le> card (unused_blocks 25600 [b \<mapsto> n])"
proof -
  have "{..<25600} - {b..<b + n} \<subseteq> unused_blocks 25600 [b \<mapsto> n]"
    by (auto simp: unused_blocks_def unused_def taken_by_def split: if_splits)
  moreover have "25600 - n \<le> card ({..<25600} - {b..<b + n})"
    using diff_card_le_card_Diff[of "{b..<b + n}" "{..<25600::nat}"] by simp
  ultimately have "25600 - n \<le> card (unused_blocks 25600 [b \<mapsto> n])"
    by (meson card_mono finite_unused_blocks order_trans)
  then show ?thesis using assms(2) by simp
qed

text \<open>A process of type binary in a fresh heap.\<close>

lemma some_ready_process:
  obtains s :: "unit tstate" and b where "klive kernel_heap_layout s [b \<mapsto> 3]"
    "entry_held kernel_heap_layout [b \<mapsto> 3] (memory s) (block_addr kernel_heap_layout b)"
    "1027 \<le> card (unused_blocks (nblocks kernel_heap_layout) [b \<mapsto> 3])" "run_queue s [] 0"
    "entry_point (memory s) (block_addr kernel_heap_layout b) = 0x400000"
proof -
  let ?h = kernel_heap_layout
  have live: "klive ?h no_tasks Map.empty" unfolding no_tasks_def by (rule kheap_init_live)
  have three: "blocks_of 9384 = 3" by (simp add: blocks_of_def)
  obtain b s1 where kz: "kzalloc 9384 no_tasks = (block_addr ?h b, s1)" "klive ?h s1 [b \<mapsto> 3]"
    "fits (unused Map.empty) (nblocks ?h) 3 b"
    using kz.malloc_live[OF live, of 9384 0] empty_fits[of 3] three by auto
  let ?p = "block_addr ?h b"
  obtain m where s1: "s1 = no_tasks\<lparr>memory := m\<rparr>" using kzalloc_memory_only[of 9384 no_tasks] kz(1) by auto
  define s where "s = s1\<lparr>memory := (memory s1)(?p + 8328 := 1)\<rparr>"
  have inp: "in_blocks ?h b 3 a" if "in_region ?p 9384 a" for a using that by (simp add: in_blocks_def in_region_def)
  have "klive ?h s [b \<mapsto> 3]" unfolding s_def
    by (rule klive_write[OF kz(2)]) (use inp[of "?p + 8328"] in \<open>auto split: if_splits\<close>)
  moreover have "entry_held ?h [b \<mapsto> 3] (memory s) ?p"
    using inp by (auto simp: entry_held_def held_def s_def)
  moreover have "1027 \<le> card (unused_blocks (nblocks ?h) [b \<mapsto> 3])"
    using one_object_room[of 3 b] kz(3) by (simp add: kernel_heap_layout_wf)
  moreover have "run_queue s [] 0" using no_tasks_queue by (simp add: run_queue_def s_def s1)
  moreover have "entry_point (memory s) ?p = 0x400000" by (simp add: entry_point_def s_def)
  ultimately show thesis by (rule that)
qed

theorem task_new_appends_witness:
  "\<exists>(s :: unit tstate) p b s'. run_queue s [] 0 \<and> task_new p s = (block_addr kernel_heap_layout b, s')
     \<and> run_queue s' [block_addr kernel_heap_layout b] (block_addr kernel_heap_layout b)
     \<and> uc_ip (load_registers (memory s') (block_addr kernel_heap_layout b + 4)) = 0x400000"
proof -
  let ?h = kernel_heap_layout
  obtain s :: "unit tstate" and b where s: "klive ?h s [b \<mapsto> 3]" "entry_held ?h [b \<mapsto> 3] (memory s) (block_addr ?h b)"
    "1027 \<le> card (unused_blocks (nblocks ?h) [b \<mapsto> 3])" "run_queue s [] 0" "entry_point (memory s) (block_addr ?h b) = 0x400000"
    by (rule some_ready_process)
  obtain ba s' where "task_new (block_addr ?h b) s = (block_addr ?h ba, s')" "run_queue s' [block_addr ?h ba] (block_addr ?h ba)"
    "load_registers (memory s') (block_addr ?h ba + 4) = fresh_context 0x400000"
    using task_new_appends[OF s(1,3,2,4)] s(5) by auto
  then show ?thesis using s(4) by (intro exI[of _ s] exI[of _ "block_addr ?h b"] exI[of _ ba] exI[of _ s']) (simp add: fresh_context_def)
qed

end
