(* ===== verification/SchedulerRuns.thy ===== *)
theory SchedulerRuns
  imports Scheduler
begin

text \<open>
  Runs of the scheduler of \<^verbatim>\<open>src/src/task/task.c\<close> as a step relation: creating a task (\<^verbatim>\<open>task_new\<close>), switching (\<^verbatim>\<open>task_next\<close>), saving the
  registers of the current task on an interrupt (\<^verbatim>\<open>task_current_save_stat\<close>) and ending a task (\<^verbatim>\<open>task_free\<close>), in any order.  In
  every reachable state the links in memory form a run queue, each queued task owns 1027 pages of its own with a
  well-formed address space in them, and memory of the other parts of the kernel is as it was at the start.
\<close>

subsection \<open>What the tasks own\<close>

text \<open>The page of a task, of its chunk, its directory and its tables.\<close>

type_synonym owned = "nat \<times> nat \<times> nat \<times> nat list"

fun pages_of :: "owned \<Rightarrow> nat list" where
  "pages_of (b, c, bd, fs) = b # c # bd # fs"

fun owns :: "heap \<Rightarrow> mem \<Rightarrow> owned \<Rightarrow> bool" where
  "owns h m (b, c, bd, fs) \<longleftrightarrow> load32 m (block_addr h b) = block_addr h c \<and> chunk_pages h m c bd fs"

abbreviation (input) task_of :: "heap \<Rightarrow> owned \<Rightarrow> u32" where "task_of h ow \<equiv> block_addr h (fst ow)"

definition owned_pages :: "owned list \<Rightarrow> nat list" where
  "owned_pages os = concat (map pages_of os)"

definition sched_inv :: "heap \<Rightarrow> (nat \<rightharpoonup> nat) \<Rightarrow> ('d, 'a) tstate_scheme \<Rightarrow> owned list \<Rightarrow> u32 \<Rightarrow> bool" where
  "sched_inv h A s os q \<longleftrightarrow> klive h s (with_pages A (set (owned_pages os))) \<and> distinct (owned_pages os)
     \<and> (\<forall>x \<in> set (owned_pages os). A x = None) \<and> (\<forall>ow \<in> set os. owns h (memory s) ow)
     \<and> run_queue s (map (task_of h) os) q"

lemma owned_pages_simps [simp]:
  "owned_pages [] = []" "owned_pages (ow # os) = pages_of ow @ owned_pages os"
  "owned_pages (os @ os') = owned_pages os @ owned_pages os'"
  by (simp_all add: owned_pages_def)

lemma fst_in_pages: "fst ow \<in> set (pages_of ow)"
  by (cases ow) simp

lemma owned_page_live: "ow \<in> set os \<Longrightarrow> x \<in> set (pages_of ow) \<Longrightarrow> with_pages A (set (owned_pages os)) x = Some 1"
  by (auto simp: owned_pages_def with_pages_def)

lemma klive_eq: "klive h s A \<Longrightarrow> kernel_heap s' = kernel_heap s \<Longrightarrow> memory s' = memory s \<Longrightarrow> klive h s' A"
  by (auto simp: klive_def kheap_rel_def)

text \<open>What \<open>owns\<close> reads of a task: its first cell and the pages of its address space.\<close>

lemma owns_cong:
  assumes live: "klive h s A" and own: "owns h m ow" and pages: "\<forall>x \<in> set (pages_of ow). A x = Some 1"
    and cell: "\<And>a. in_region (task_of h ow) 4 a \<Longrightarrow> m' a = m a"
    and rest: "\<And>x a. x \<in> set (tl (pages_of ow)) \<Longrightarrow> in_blocks h x 1 a \<Longrightarrow> m' a = m a"
  shows "owns h m' ow"
proof -
  obtain b c bd fs where ow: "ow = (b, c, bd, fs)" by (cases ow)
  have "load32 m' (block_addr h b) = load32 m (block_addr h b)" using cell by (intro load32_cong) (simp add: ow)
  moreover have "chunk_pages h m' c bd fs"
    by (rule chunk_frame(1)[OF live]) (use own pages rest in \<open>auto simp: ow\<close>)
  ultimately show ?thesis using own by (simp add: ow)
qed

lemma run_queue_cong:
  assumes "run_queue s ts q" "task_head s' = task_head s" "task_tail s' = task_tail s" "current_task s' = current_task s"
    and "\<And>t. t \<in> set ts \<Longrightarrow> task_next_of (memory s') t = task_next_of (memory s) t \<and> task_prev_of (memory s') t = task_prev_of (memory s) t"
  shows "run_queue s' ts q"
  using assms dlist_cong[of ts "memory s'" "memory s" NULL NULL] by (simp add: run_queue_def)

text \<open>Cells of the task structs in terms of pages.\<close>

lemma task_cell:
  assumes "klive h s A" "A b = Some 1" "\<And>a. in_blocks h b 1 a \<Longrightarrow> m' a = m a" "i + 4 \<le> 4096"
  shows "load32 m' (block_addr h b + of_nat i) = load32 m (block_addr h b + of_nat i)"
  using block_bytes[of h b i 4] assms(3,4) by (intro load32_cong) blast

subsection \<open>Steps\<close>

inductive queued :: "('d, 'a) tstate_scheme \<Rightarrow> u32 \<Rightarrow> bool" for s where
  head: "task_head s \<noteq> NULL \<Longrightarrow> queued s (task_head s)"
| link: "queued s t \<Longrightarrow> task_next_of (memory s) t \<noteq> NULL \<Longrightarrow> queued s (task_next_of (memory s) t)"

definition free_blocks :: "heap \<Rightarrow> mem \<Rightarrow> nat" where
  "free_blocks h m = card {i. i < nblocks h \<and> block_free h m i}"

text \<open>
  \<open>A\<close> are the allocations of the other parts of the kernel, among them the process objects.  \<^verbatim>\<open>task_next\<close> is called when
  there is a current task.
\<close>

inductive sched_step :: "heap \<Rightarrow> (nat \<rightharpoonup> nat) \<Rightarrow> ('d, 'a) tstate_scheme \<Rightarrow> ('d, 'a) tstate_scheme \<Rightarrow> bool" for h A where
  new: "\<lbrakk>1027 \<le> free_blocks h (memory s); entry_held h A (memory s) process; task_new process s = (t, s')\<rbrakk> \<Longrightarrow> sched_step h A s s'"
| switch: "\<lbrakk>current_task s \<noteq> NULL; task_next s = Some (ctx, s')\<rbrakk> \<Longrightarrow> sched_step h A s s'"
| save: "task_current_save_stat frame s = Some s' \<Longrightarrow> sched_step h A s s'"
| exit: "\<lbrakk>queued s t; task_free t s = (res, s')\<rbrakk> \<Longrightarrow> sched_step h A s s'"

inductive sched_run :: "heap \<Rightarrow> (nat \<rightharpoonup> nat) \<Rightarrow> ('d, 'a) tstate_scheme \<Rightarrow> ('d, 'a) tstate_scheme \<Rightarrow> bool" for h A s where
  start: "sched_run h A s s"
| step: "sched_run h A s s' \<Longrightarrow> sched_step h A s' s'' \<Longrightarrow> sched_run h A s s''"

lemma queued_in_queue:
  assumes "queued s t" "run_queue s ts q"
  shows "t \<in> set ts"
  using assms
proof (induction rule: queued.induct)
  case head
  then show ?case by (cases ts) (auto simp: run_queue_def)
next
  case (link t)
  then have "t \<in> set ts" by blast
  then obtain xs ys where ts: "ts = xs @ t # ys" by (meson split_list)
  then have "task_next_of (memory s) t = hd (ys @ [NULL])" using link.prems by (simp add: run_queue_def dlist_append)
  then show ?case using link.hyps(2) ts by (cases ys) auto
qed

lemma free_blocks_unused: "klive h s A \<Longrightarrow> free_blocks h (memory s) = card (unused_blocks (nblocks h) A)"
  unfolding free_blocks_def unused_blocks_def
  by (rule arg_cong[of _ _ card]) (auto simp: klive_def kheap_rel_def heap_rel_unused)

subsection \<open>Separation\<close>

lemma tables_not_tasks:
  assumes "distinct (owned_pages os)" "ow \<in> set os" "ow' \<in> set os" "x \<in> set (tl (pages_of ow))"
  shows "x \<noteq> fst ow'"
proof -
  obtain xs ys where os: "os = xs @ ow # ys" using split_list[OF assms(2)] by blast
  have "x \<in> set (pages_of ow)" using assms(4) by (cases ow) auto
  then have "x \<notin> set (owned_pages xs)" "x \<notin> set (owned_pages ys)" using assms(1) by (auto simp: os)
  then have "x \<notin> set (pages_of o')" if "o' \<in> set xs \<union> set ys" for o'
    using that unfolding owned_pages_def set_concat set_map by blast
  moreover have "x \<noteq> fst ow" using assms(1,4) by (cases ow) (auto simp: os)
  moreover have "ow' = ow \<or> ow' \<in> set xs \<union> set ys" using assms(3) by (auto simp: os)
  ultimately show ?thesis using fst_in_pages[of ow'] by blast
qed

text \<open>
  A change of memory that only touches, in pages of the tasks, bytes from offset 4 on, and nothing else outside
  the block table, keeps what the tasks own.
\<close>

definition task_bytes :: "heap \<Rightarrow> owned list \<Rightarrow> u32 \<Rightarrow> bool" where
  "task_bytes h os a \<longleftrightarrow> (\<exists>ow \<in> set os. in_blocks h (fst ow) 1 a \<and> \<not> in_region (task_of h ow) 4 a)"

lemma inv_live:
  assumes "sched_inv h A s os q"
  shows "ow \<in> set os \<Longrightarrow> x \<in> set (pages_of ow) \<Longrightarrow> with_pages A (set (owned_pages os)) x = Some 1"
    and "A e = Some n \<Longrightarrow> with_pages A (set (owned_pages os)) e = Some n"
    and "A e = Some n \<Longrightarrow> ow \<in> set os \<Longrightarrow> e \<noteq> fst ow"
proof -
  have none: "\<forall>x \<in> set (owned_pages os). A x = None" using assms by (simp add: sched_inv_def)
  show "ow \<in> set os \<Longrightarrow> x \<in> set (pages_of ow) \<Longrightarrow> with_pages A (set (owned_pages os)) x = Some 1"
    by (rule owned_page_live)
  show "A e = Some n \<Longrightarrow> with_pages A (set (owned_pages os)) e = Some n" using none by (auto simp: with_pages_def)
  show "e \<noteq> fst ow" if "A e = Some n" "ow \<in> set os"
  proof -
    have "fst ow \<in> set (owned_pages os)" using that(2) fst_in_pages[of ow] by (auto simp: owned_pages_def)
    then show ?thesis using none that(1) by auto
  qed
qed

lemma task_bytes_other:
  assumes inv: "sched_inv h A s os q" and x: "with_pages A (set (owned_pages os)) e = Some n" "\<And>ow. ow \<in> set os \<Longrightarrow> e \<noteq> fst ow"
    and a: "in_blocks h e n a"
  shows "\<not> task_bytes h os a"
proof
  assume "task_bytes h os a"
  then obtain ow where ow: "ow \<in> set os" "in_blocks h (fst ow) 1 a" unfolding task_bytes_def by blast
  have live: "klive h s (with_pages A (set (owned_pages os)))" using inv by (simp add: sched_inv_def)
  show False
    using klive_apart[OF live x(1) inv_live(1)[OF inv ow(1) fst_in_pages] x(2)[OF ow(1)] a] ow(2) by blast
qed

lemma task_bytes_cell:
  assumes inv: "sched_inv h A s os q" and ow: "ow \<in> set os" and a: "in_region (task_of h ow) 4 a"
  shows "\<not> task_bytes h os a"
proof
  assume "task_bytes h os a"
  then obtain o' where o': "o' \<in> set os" "in_blocks h (fst o') 1 a" "\<not> in_region (task_of h o') 4 a"
    unfolding task_bytes_def by blast
  have live: "klive h s (with_pages A (set (owned_pages os)))" using inv by (simp add: sched_inv_def)
  have "in_blocks h (fst ow) 1 a" using a by (simp add: in_blocks_def in_region_def)
  moreover have "fst ow \<noteq> fst o'" using a o'(3) by auto
  ultimately show False
    using klive_apart[OF live inv_live(1)[OF inv ow fst_in_pages] inv_live(1)[OF inv o'(1) fst_in_pages]] o'(2) by blast
qed

text \<open>Live bytes other than those stay: then so does what the tasks own, and the memory of the others.\<close>

definition live_same :: "heap \<Rightarrow> (nat \<rightharpoonup> nat) \<Rightarrow> owned list \<Rightarrow> mem \<Rightarrow> mem \<Rightarrow> bool" where
  "live_same h A os m m' \<longleftrightarrow> (\<forall>e n a. with_pages A (set (owned_pages os)) e = Some n \<longrightarrow> in_blocks h e n a \<longrightarrow>
     \<not> task_bytes h os a \<longrightarrow> m' a = m a)"

definition others_same :: "heap \<Rightarrow> (nat \<rightharpoonup> nat) \<Rightarrow> mem \<Rightarrow> mem \<Rightarrow> bool" where
  "others_same h A m m' \<longleftrightarrow> (\<forall>e n a. A e = Some n \<longrightarrow> in_blocks h e n a \<longrightarrow> m' a = m a)"

lemma owns_kept:
  assumes inv: "sched_inv h A s os q" and same: "live_same h A os (memory s) m'" and ow: "ow \<in> set os"
  shows "owns h m' ow"
proof -
  have live: "klive h s (with_pages A (set (owned_pages os)))" and dist: "distinct (owned_pages os)"
    and own: "owns h (memory s) ow" using inv ow by (auto simp: sched_inv_def)
  note P = inv_live(1)[OF inv ow]
  have eq: "m' a = memory s a" if "x \<in> set (pages_of ow)" "in_blocks h x 1 a" "\<not> task_bytes h os a" for x a
    using same P[OF that(1)] that(2,3) unfolding live_same_def by blast
  show ?thesis
  proof (rule owns_cong[OF live own])
    show "\<forall>x \<in> set (pages_of ow). with_pages A (set (owned_pages os)) x = Some 1" using P by blast
    show "m' a = memory s a" if "in_region (task_of h ow) 4 a" for a
      using eq[OF fst_in_pages _ task_bytes_cell[OF inv ow that]] that by (simp add: in_blocks_def in_region_def)
    show "m' a = memory s a" if "x \<in> set (tl (pages_of ow))" "in_blocks h x 1 a" for x a
    proof -
      have x: "x \<in> set (pages_of ow)" using that(1) by (cases ow) auto
      have "\<not> task_bytes h os a"
        using task_bytes_other[OF inv P[OF x] _ that(2)] tables_not_tasks[OF dist ow _ that(1)] by blast
      then show ?thesis using eq[OF x that(2)] by blast
    qed
  qed
qed

lemma others_kept:
  assumes inv: "sched_inv h A s os q" and same: "live_same h A os (memory s) m'"
  shows "others_same h A (memory s) m'"
  unfolding others_same_def
proof (intro allI impI)
  fix e n a assume e: "A e = Some n" "in_blocks h e n a"
  have "\<not> task_bytes h os a" using task_bytes_other[OF inv inv_live(2)[OF inv e(1)] _ e(2)] inv_live(3)[OF inv e(1)] by blast
  then show "m' a = memory s a" using same inv_live(2)[OF inv e(1)] e(2) unfolding live_same_def by blast
qed

subsection \<open>Switching and saving\<close>

lemma link_cells:
  fixes t :: u32
  assumes "\<And>a. in_region (t + 52) 8 a \<Longrightarrow> m' a = m a"
  shows "task_next_of m' t = task_next_of m t \<and> task_prev_of m' t = task_prev_of m t"
proof -
  have e: "t + 52 + of_nat 4 = t + 56" by simp
  have "load32 m' (t + 52) = load32 m (t + 52)" using assms by (intro load32_cong) (simp add: in_region_def)
  moreover have "load32 m' (t + 56) = load32 m (t + 56)"
    using assms in_region_sub[of "t + 52" 4 4 _ 8] unfolding e by (intro load32_cong) simp
  ultimately show ?thesis by simp
qed

lemma inv_switch:
  assumes inv: "sched_inv h A s os q" and cur: "current_task s \<noteq> NULL" and step: "task_next s = Some (ctx, s')"
  shows "\<exists>q'. sched_inv h A s' os q'" "others_same h A (memory s) (memory s')"
proof -
  have rq: "run_queue s (map (task_of h) os) q" and live: "klive h s (with_pages A (set (owned_pages os)))"
    using inv by (simp_all add: sched_inv_def)
  have ne: "map (task_of h) os \<noteq> []" using rq cur by (auto simp: run_queue_def)
  from task_next_ok[OF rq ne] step obtain t where s': "run_queue s' (map (task_of h) os) t" "memory s' = memory s"
    by auto
  have "kernel_heap s' = kernel_heap s"
    using step task_get_next_ok(2)[OF rq ne] rq
    by (auto simp: task_next_def task_switch_def task_return_def paging_switch_def paging_load_directory_def Let_def panic_def split: if_splits)
  then have "klive h s' (with_pages A (set (owned_pages os)))" using klive_eq[OF live] s'(2) by blast
  then show "\<exists>q'. sched_inv h A s' os q'" using inv s' by (auto simp: sched_inv_def)
  show "others_same h A (memory s) (memory s')" using s'(2) by (simp add: others_same_def)
qed

lemma save_state_outside: "\<not> in_region (t + 4) 48 a \<Longrightarrow> task_save_state t frame m a = m a"
proof -
  assume a: "\<not> in_region (t + 4) 48 a"
  have "\<not> in_region (t + off) 4 a" if "off \<in> {4, 8, 12, 16, 20, 24, 28, 32, 36, 40, 44, 48}" for off
    using in_region_sub[of "t + 4" "unat (off - 4)" 4 a 48] a that by auto
  then show ?thesis by (simp add: task_save_state_def store32_outside)
qed

lemma inv_save:
  assumes inv: "sched_inv h A s os q" and step: "task_current_save_stat frame s = Some s'"
  shows "sched_inv h A s' os q" "others_same h A (memory s) (memory s')"
proof -
  let ?m = "task_save_state (current_task s) frame (memory s)" and ?P = "with_pages A (set (owned_pages os))"
  have rq: "run_queue s (map (task_of h) os) q" and live: "klive h s ?P" using inv by (simp_all add: sched_inv_def)
  have s': "s' = s\<lparr>memory := ?m\<rparr>" "current_task s \<noteq> NULL"
    using step by (auto simp: task_current_save_stat_def task_current_def panic_def split: if_splits)
  have "current_task s \<in> set (map (task_of h) os)" using rq s'(2) by (auto simp: run_queue_def split: if_splits)
  then obtain ow where ow: "ow \<in> set os" "current_task s = task_of h ow" by auto
  have bytes: "in_blocks h (fst ow) 1 a \<and> \<not> in_region (task_of h ow) 4 a \<and> \<not> in_region (task_of h ow + 52) 8 a"
    if "in_region (current_task s + 4) 48 a" for a
  proof -
    have "disjoint_regions (task_of h ow) 4 (task_of h ow + 4) 48" "disjoint_regions (task_of h ow + 52) 8 (task_of h ow + 4) 48"
      by (simp_all add: disjoint_regions_def)
    moreover have "in_region (block_addr h (fst ow) + of_nat 4) 48 a" using that ow(2) by simp
    then have "in_blocks h (fst ow) 1 a" by (rule block_bytes) simp
    ultimately show ?thesis using that disjoint_regionsD unfolding ow(2) by blast
  qed
  have same: "live_same h A os (memory s) ?m"
    using save_state_outside[of "current_task s"] bytes ow(1) unfolding task_bytes_def live_same_def by blast
  have "klive h s' ?P" unfolding s'(1)
    by (rule klive_write[OF live]) (use save_state_outside bytes inv_live(1)[OF inv ow(1) fst_in_pages] in blast)
  moreover have "run_queue s' (map (task_of h) os) q"
  proof (rule run_queue_cong[OF rq])
    fix t assume "t \<in> set (map (task_of h) os)"
    then obtain o' where o': "o' \<in> set os" "t = task_of h o'" by auto
    have link: "?m a = memory s a" if "in_region (t + 52) 8 a" for a
    proof (cases "fst o' = fst ow")
      case True
      then show ?thesis using save_state_outside[of "current_task s" a] bytes[of a] that o'(2) by auto
    next
      case False
      have "in_blocks h (fst o') 1 a" using block_bytes[of h "fst o'" 52 8 a] that o'(2) by simp
      then have "\<not> in_blocks h (fst ow) 1 a"
        using klive_apart[OF live inv_live(1)[OF inv o'(1) fst_in_pages] inv_live(1)[OF inv ow(1) fst_in_pages] False] by blast
      then show ?thesis using save_state_outside[of "current_task s" a] bytes[of a] by blast
    qed
    from link_cells[of t ?m "memory s", OF link]
    show "task_next_of (memory s') t = task_next_of (memory s) t \<and> task_prev_of (memory s') t = task_prev_of (memory s) t"
      by (simp add: s'(1))
  qed (simp_all add: s'(1))
  moreover have "\<forall>ow \<in> set os. owns h (memory s') ow" using owns_kept[OF inv same] by (simp add: s'(1))
  ultimately show "sched_inv h A s' os q" using inv by (simp add: sched_inv_def)
  show "others_same h A (memory s) (memory s')"
    using others_kept[OF inv same] by (simp add: s'(1))
qed

subsection \<open>A new task\<close>

lemma entry_held_mono:
  assumes "entry_held h A m p" "\<And>e k. A e = Some k \<Longrightarrow> B e = Some k"
  shows "entry_held h B m p"
proof -
  have "held h A q n \<Longrightarrow> held h B q n" for q n using assms(2) unfolding held_def by blast
  then show ?thesis using assms(1) by (auto simp: entry_held_def)
qed

lemma last_link_bytes:
  assumes "os \<noteq> []" "in_region (last (map (task_of h) os) + 52) 4 a"
  shows "task_bytes h os a"
proof -
  let ?ow = "last os"
  have t: "last (map (task_of h) os) = task_of h ?ow" using assms(1) by (simp add: last_map)
  have "disjoint_regions (task_of h ?ow) 4 (task_of h ?ow + 52) 4" by (simp add: disjoint_regions_def)
  then have "\<not> in_region (task_of h ?ow) 4 a" using assms(2) disjoint_regionsD unfolding t by blast
  moreover have "in_blocks h (fst ?ow) 1 a" using block_bytes[of h "fst ?ow" 52 4 a] assms(2) unfolding t by simp
  ultimately show ?thesis using last_in_set[OF assms(1)] unfolding task_bytes_def by blast
qed

lemma inv_new:
  fixes s :: "('d, 'a) tstate_scheme"
  assumes inv: "sched_inv h A s os q" and room: "1027 \<le> free_blocks h (memory s)" and entry: "entry_held h A (memory s) p"
    and step: "task_new p s = (t, s')"
  shows "\<exists>ow q'. t = task_of h ow \<and> sched_inv h A s' (os @ [ow]) q'" "others_same h A (memory s) (memory s')"
proof -
  let ?P = "with_pages A (set (owned_pages os))" and ?ts = "map (task_of h) os"
  have live: "klive h s ?P" and dist: "distinct (owned_pages os)" and none: "\<forall>x \<in> set (owned_pages os). A x = None"
    and rq: "run_queue s ?ts q" using inv by (simp_all add: sched_inv_def)
  have room': "1027 \<le> card (unused_blocks (nblocks h) ?P)" using room free_blocks_unused[OF live] by simp
  have entry': "entry_held h ?P (memory s) p" using entry_held_mono[OF entry] inv_live(2)[OF inv] by blast
  have mine: "\<forall>x \<in> set ?ts. \<exists>e. ?P e = Some 1 \<and> x = block_addr h e"
  proof
    fix x assume "x \<in> set ?ts"
    then obtain ow where ow: "ow \<in> set os" "x = task_of h ow" by auto
    then show "\<exists>e. ?P e = Some 1 \<and> x = block_addr h e" using inv_live(1)[OF inv ow(1) fst_in_pages] by blast
  qed
  obtain b c bd fs where t: "t = block_addr h b" and r: "b \<notin> set (c # bd # fs)" "klive h s' (with_pages ?P (set (b # c # bd # fs)))"
    "\<forall>x \<in> set (b # c # bd # fs). ?P x = None" "run_queue s' (?ts @ [block_addr h b]) (if ?ts = [] then block_addr h b else q)"
    "load32 (memory s') (block_addr h b) = block_addr h c" "chunk_pages h (memory s') c bd fs"
    and rest: "\<forall>e n a. ?P e = Some n \<longrightarrow> in_blocks h e n a \<longrightarrow> (?ts \<noteq> [] \<longrightarrow> \<not> in_region (last ?ts + 52) 4 a) \<longrightarrow>
         memory s' a = memory s a"
    using task_new_ok[OF live room' entry' rq mine] step by auto
  have same: "live_same h A os (memory s) (memory s')"
    using rest last_link_bytes[of os h] unfolding live_same_def by (metis list.map_disc_iff)
  have "with_pages ?P (set (b # c # bd # fs)) = with_pages A (set (owned_pages (os @ [(b, c, bd, fs)])))"
    unfolding with_pages_Un by simp
  moreover have new: "x \<notin> set (owned_pages os)" "A x = None" if "x \<in> set (b # c # bd # fs)" for x
    using r(3) that by (auto simp: with_pages_def split: if_splits)
  moreover have "distinct (c # bd # fs)" using r(6) by (simp add: chunk_pages_def)
  then have "distinct (owned_pages (os @ [(b, c, bd, fs)]))" using new dist r(1) by auto
  moreover have "\<forall>x \<in> set (owned_pages (os @ [(b, c, bd, fs)])). A x = None" using new(2) none by auto
  moreover have "\<forall>ow \<in> set (os @ [(b, c, bd, fs)]). owns h (memory s') ow" using owns_kept[OF inv same] r(5,6) by auto
  ultimately have "sched_inv h A s' (os @ [(b, c, bd, fs)]) (if ?ts = [] then block_addr h b else q)"
    using r(2,4) by (simp add: sched_inv_def)
  then show "\<exists>ow q'. t = task_of h ow \<and> sched_inv h A s' (os @ [ow]) q'" using t by (metis fst_conv)
  show "others_same h A (memory s) (memory s')" by (rule others_kept[OF inv same])
qed

subsection \<open>The end of a task\<close>

lemma paging_free_memory_only: "\<exists>m. paging_free_4gb chunk s = s\<lparr>memory := m\<rparr>"
proof -
  have "\<exists>m. fold (\<lambda>i s. kfree (f i s) s) is s = s\<lparr>memory := m\<rparr>" for f :: "nat \<Rightarrow> 'a kstate_scheme \<Rightarrow> u32" and "is" and s
  proof (induction "is" arbitrary: s)
    case Nil
    show ?case by (intro exI[of _ "memory s"]) simp
  next
    case (Cons i "is")
    obtain m where m: "kfree (f i s) s = s\<lparr>memory := m\<rparr>" using kfree_memory_only by blast
    from Cons[of "s\<lparr>memory := m\<rparr>"] show ?case by (simp add: m)
  qed
  from this[of "\<lambda>i s. load32 (memory s) (load32 (memory s) chunk + 4 * of_nat i) AND 0xfffff000" "[0..<1024]" s]
  obtain m1 where m1: "fold (\<lambda>i s. let entry = load32 (memory s) (load32 (memory s) chunk + 4 * of_nat i);
      table = entry AND 0xfffff000 in kfree table s) [0..<1024] s = s\<lparr>memory := m1\<rparr>" by (auto simp: Let_def)
  obtain m2 where m2: "kfree (load32 m1 chunk) (s\<lparr>memory := m1\<rparr>) = s\<lparr>memory := m2\<rparr>"
    using kfree_memory_only[of "load32 m1 chunk" "s\<lparr>memory := m1\<rparr>"] by auto
  show ?thesis
    using kfree_memory_only[of chunk "s\<lparr>memory := m2\<rparr>"] m1 m2 by (auto simp: paging_free_4gb_def Let_def)
qed

lemma task_list_remove_frame:
  assumes rq: "run_queue s (xs @ t # ys) c" and a: "\<And>u. u \<in> set xs \<union> set ys \<Longrightarrow> \<not> in_region (u + 52) 8 a"
  shows "memory (task_list_remove t s) a = memory s a"
proof -
  have cell: "\<not> in_region (u + 52) 4 a" "\<not> in_region (u + 56) 4 a" if "u \<in> set xs \<union> set ys" for u
  proof -
    have e: "u + 52 + of_nat 4 = u + 56" by simp
    show "\<not> in_region (u + 52) 4 a" using a[OF that] by (simp add: in_region_def)
    show "\<not> in_region (u + 56) 4 a" using a[OF that] in_region_sub[of "u + 52" 4 4 a 8] unfolding e by auto
  qed
  have "xs \<noteq> [] \<Longrightarrow> last xs \<in> set xs" "ys \<noteq> [] \<Longrightarrow> hd ys \<in> set ys" by simp_all
  then show ?thesis
    using cell unfolding task_list_remove_eq[OF rq] by (auto simp: unlinked_def Let_def store32_outside)
qed

lemma link_bytes:
  assumes "ow \<in> set os" "in_region (task_of h ow + 52) 8 a"
  shows "task_bytes h os a" "in_blocks h (fst ow) 1 a"
proof -
  have "disjoint_regions (task_of h ow) 4 (task_of h ow + 52) 8" by (simp add: disjoint_regions_def)
  then have "\<not> in_region (task_of h ow) 4 a" using assms(2) disjoint_regionsD by blast
  moreover show "in_blocks h (fst ow) 1 a" using block_bytes[of h "fst ow" 52 8 a] assms(2) by simp
  ultimately show "task_bytes h os a" using assms(1) unfolding task_bytes_def by blast
qed

text \<open>Changes of the block table do not reach the links.\<close>

lemma run_queue_off_table:
  assumes rq: "run_queue s (map (task_of h) os) q" and live: "klive h s P" and tasks: "\<And>ow. ow \<in> set os \<Longrightarrow> P (fst ow) = Some 1"
    and same: "\<And>a. \<not> in_table h a \<Longrightarrow> m a = memory s a"
  shows "run_queue (s\<lparr>memory := m\<rparr>) (map (task_of h) os) q"
proof (rule run_queue_cong[OF rq])
  fix t assume "t \<in> set (map (task_of h) os)"
  then obtain ow where ow: "ow \<in> set os" "t = task_of h ow" unfolding set_map by blast
  have "m a = memory s a" if "in_region (t + 52) 8 a" for a
    using same blocks_not_in_table[OF klive_block(1,3,4)[OF live tasks[OF ow(1)]]] link_bytes(2)[OF ow(1)] that ow(2) by simp
  then show "task_next_of (memory (s\<lparr>memory := m\<rparr>)) t = task_next_of (memory s) t
    \<and> task_prev_of (memory (s\<lparr>memory := m\<rparr>)) t = task_prev_of (memory s) t" using link_cells[of t m "memory s"] by simp
qed simp_all

text \<open>The three parts of \<^verbatim>\<open>task_free\<close>: the address space, the queue, the task itself.\<close>

lemma exit_address_space:
  fixes s :: "('d, 'a) tstate_scheme"
  assumes inv: "sched_inv h A s (xs @ (b, c, bd, fs) # ys) q"
  obtains m where "paging_free_4gb (load32 (memory s) (block_addr h b)) s = s\<lparr>memory := m\<rparr>"
    "klive h (s\<lparr>memory := m\<rparr>) (with_pages A (insert b (set (owned_pages (xs @ ys)))))"
    "\<And>a. \<not> in_table h a \<Longrightarrow> m a = memory s a"
    "run_queue (s\<lparr>memory := m\<rparr>) (map (task_of h) (xs @ (b, c, bd, fs) # ys)) q"
proof -
  let ?os = "xs @ (b, c, bd, fs) # ys" and ?A1 = "with_pages A (insert b (set (owned_pages (xs @ ys))))"
  have live: "klive h s (with_pages A (set (owned_pages ?os)))" and dist: "distinct (owned_pages ?os)"
    and none: "\<forall>x \<in> set (owned_pages ?os). A x = None" and rq: "run_queue s (map (task_of h) ?os) q"
    and own: "load32 (memory s) (block_addr h b) = block_addr h c" "chunk_pages h (memory s) c bd fs"
    using inv by (auto simp: sched_inv_def)
  have "with_pages ?A1 (set (c # bd # fs)) = with_pages A (set (owned_pages ?os))"
    unfolding with_pages_Un by (rule arg_cong[of _ _ "with_pages A"]) auto
  then have live': "klive h s (with_pages ?A1 (set (c # bd # fs)))" using live by simp
  have fresh: "\<forall>x \<in> set (c # bd # fs). ?A1 x = None" using dist none by (auto simp: with_pages_def)
  obtain m where m: "paging_free_4gb (block_addr h c) s = s\<lparr>memory := m\<rparr>" using paging_free_memory_only by blast
  have l1: "klive h (s\<lparr>memory := m\<rparr>) ?A1" using paging_free_4gb_ok(1)[OF live' own(2) fresh] m by simp
  have same: "m a = memory s a" if "\<not> in_table h a" for a using paging_free_4gb_ok(2)[OF live' own(2) fresh that] m by simp
  have "run_queue (s\<lparr>memory := m\<rparr>) (map (task_of h) ?os) q"
    by (rule run_queue_off_table[OF rq live inv_live(1)[OF inv _ fst_in_pages] same])
  then show thesis using that m l1 same own(1) by metis
qed

lemma inv_exit:
  fixes s :: "('d, 'a) tstate_scheme"
  assumes inv: "sched_inv h A s (xs @ ow # ys) q"
  shows "\<exists>s' q'. task_free (task_of h ow) s = (0, s') \<and> sched_inv h A s' (xs @ ys) q' \<and> others_same h A (memory s) (memory s')
    \<and> (\<forall>a. \<not> in_table h a \<longrightarrow> (\<forall>o' \<in> set (xs @ ys). \<not> in_region (task_of h o' + 52) 8 a) \<longrightarrow> memory s' a = memory s a)"
proof -
  obtain b c bd fs where ow: "ow = (b, c, bd, fs)" by (cases ow)
  let ?os = "xs @ ow # ys" and ?t = "block_addr h b" and ?R = "set (owned_pages (xs @ ys))"
  have live: "klive h s (with_pages A (set (owned_pages ?os)))" and dist: "distinct (owned_pages ?os)"
    and none: "\<forall>x \<in> set (owned_pages ?os). A x = None" using inv by (simp_all add: sched_inv_def)
  obtain m1 where m1: "paging_free_4gb (load32 (memory s) ?t) s = s\<lparr>memory := m1\<rparr>"
    "klive h (s\<lparr>memory := m1\<rparr>) (with_pages A (insert b ?R))" "\<And>a. \<not> in_table h a \<Longrightarrow> m1 a = memory s a"
    "run_queue (s\<lparr>memory := m1\<rparr>) (map (task_of h) ?os) q"
    by (rule exit_address_space[OF inv[unfolded ow]]) (simp add: ow)
  define s1 where "s1 = s\<lparr>memory := m1\<rparr>"
  define s2 where "s2 = task_list_remove ?t s1"
  have rq1: "run_queue s1 (map (task_of h) xs @ ?t # map (task_of h) ys) q" using m1(4) by (simp add: s1_def ow)
  obtain q' where rq2: "run_queue s2 (map (task_of h) (xs @ ys)) q'" using task_list_remove_ok[OF rq1] by (auto simp: s2_def)
  have rm: "memory s2 a = m1 a" if "\<And>o'. o' \<in> set (xs @ ys) \<Longrightarrow> \<not> in_region (task_of h o' + 52) 8 a" for a
  proof -
    have "\<not> in_region (u + 52) 8 a" if "u \<in> set (map (task_of h) xs) \<union> set (map (task_of h) ys)" for u
      using that \<open>\<And>o'. o' \<in> set (xs @ ys) \<Longrightarrow> \<not> in_region (task_of h o' + 52) 8 a\<close> unfolding set_map set_append by blast
    from task_list_remove_frame[OF rq1 this] show ?thesis by (simp add: s2_def s1_def)
  qed
  have kh: "kernel_heap s2 = kernel_heap s1" unfolding s2_def task_list_remove_eq[OF rq1] by simp
  have "klive h (s1\<lparr>memory := memory s2\<rparr>) (with_pages A (insert b ?R))"
  proof (rule klive_write[OF m1(2)[folded s1_def]])
    fix a assume "memory s2 a \<noteq> memory s1 a"
    then obtain o' where o': "o' \<in> set (xs @ ys)" "in_region (task_of h o' + 52) 8 a" using rm[of a] by (auto simp: s1_def)
    have "fst o' \<in> ?R" using o'(1) fst_in_pages[of o'] unfolding owned_pages_def set_concat set_map by blast
    then have "with_pages A (insert b ?R) (fst o') = Some 1" by (simp add: with_pages_def)
    then show "\<exists>e n. with_pages A (insert b ?R) e = Some n \<and> in_blocks h e n a" using link_bytes(2)[OF o'] by blast
  qed
  then have l2: "klive h s2 (with_pages A (insert b ?R))" by (rule klive_eq) (simp_all add: kh)
  have b: "b \<notin> ?R" "A b = None" using dist none by (auto simp: ow)
  have res: "task_free (task_of h ow) s = (0, kfree ?t s2)" by (simp add: task_free_def m1(1) s2_def s1_def ow)
  have l3: "klive h (kfree ?t s2) (with_pages A ?R)" using kfree_page(1)[OF l2] b by simp
  have s3: "memory (kfree ?t s2) a = memory s2 a" if "\<not> in_table h a" for a using kfree_page(2)[OF l2 b(1,2) that] .
  have frame: "memory (kfree ?t s2) a = memory s a" if "\<not> in_table h a" "\<forall>o' \<in> set (xs @ ys). \<not> in_region (task_of h o' + 52) 8 a" for a
    using rm[of a] s3[of a] m1(3)[of a] that by simp
  have "\<forall>o' \<in> set (xs @ ys). \<not> in_region (task_of h o' + 52) 8 a" if "\<not> task_bytes h ?os a" for a
    using link_bytes(1)[of _ ?os h a] that by auto
  then have same: "live_same h A ?os (memory s) (memory (kfree ?t s2))"
    using frame blocks_not_in_table[OF klive_block(1,3,4)[OF live]] unfolding live_same_def by blast
  have "run_queue (kfree ?t s2) (map (task_of h) (xs @ ys)) q'"
  proof -
    obtain m3 where m3: "kfree ?t s2 = s2\<lparr>memory := m3\<rparr>" using kfree_memory_only by blast
    have "with_pages A (insert b ?R) (fst o') = Some 1" if "o' \<in> set (xs @ ys)" for o'
      using that fst_in_pages[of o'] by (auto simp: with_pages_def owned_pages_def simp del: pages_of.simps)
    then show ?thesis using run_queue_off_table[OF rq2 l2, of m3] s3 m3 by simp
  qed
  moreover have "\<forall>o' \<in> set (xs @ ys). owns h (memory (kfree ?t s2)) o'" using owns_kept[OF inv same] by auto
  ultimately have "sched_inv h A (kfree ?t s2) (xs @ ys) q'" using l3 dist none by (auto simp: sched_inv_def)
  then show ?thesis using res others_kept[OF inv same] frame by blast
qed

subsection \<open>Properties\<close>

text \<open>
  C25.  In every state a run of the scheduler reaches, in whatever order tasks are created, switched to, interrupted and
  ended: the links in memory are a run queue that holds the current task, every queued task owns its own pages
  with a well-formed address space, no page is owned twice, and memory of the other parts of the kernel is
  unchanged since the start.
\<close>

theorem sched_run_invariant:
  assumes "sched_run h A s s'" "klive h s A" "run_queue s [] 0"
  shows "(\<exists>os q. sched_inv h A s' os q) \<and> others_same h A (memory s) (memory s')"
  using assms
proof (induction rule: sched_run.induct)
  case start
  then have "sched_inv h A s [] 0" by (simp add: sched_inv_def)
  then show ?case by (auto simp: others_same_def)
next
  case (step s' s'')
  then obtain os q where inv: "sched_inv h A s' os q" and before: "others_same h A (memory s) (memory s')" by blast
  have "(\<exists>os q. sched_inv h A s'' os q) \<and> others_same h A (memory s') (memory s'')"
    using step.hyps(2)
  proof cases
    case (new p t)
    then show ?thesis using inv_new[OF inv] by blast
  next
    case (switch ctx)
    then show ?thesis using inv_switch[OF inv] by blast
  next
    case (save frame)
    then show ?thesis using inv_save[OF inv] by blast
  next
    case (exit t res)
    have "run_queue s' (map (task_of h) os) q" using inv by (simp add: sched_inv_def)
    then have "t \<in> set (map (task_of h) os)" by (rule queued_in_queue[OF exit(1)])
    then obtain ow where ow: "ow \<in> set os" "t = task_of h ow" unfolding set_map by blast
    obtain xs ys where "os = xs @ ow # ys" using split_list[OF ow(1)] by blast
    then show ?thesis using inv_exit[of h A s' xs ow ys q] inv exit(2) ow(2) by auto
  qed
  then show ?case using before by (auto simp: others_same_def)
qed

text \<open>
  C26.  \<^verbatim>\<open>task_free\<close> of a queued task returns 0, takes exactly that task out of the queue and gives back exactly its 1027 pages;
  the other tasks keep theirs and nobody else's memory changes: outside of the heap's table only the queue links of the
  remaining tasks do.
\<close>

theorem task_free_releases:
  fixes s :: "('d, 'a) tstate_scheme"
  assumes "sched_inv h A s (xs @ ow # ys) q"
  shows "\<exists>s' q'. task_free (task_of h ow) s = (0, s') \<and> sched_inv h A s' (xs @ ys) q'
    \<and> others_same h A (memory s) (memory s')
    \<and> (\<forall>a. \<not> in_table h a \<longrightarrow> (\<forall>o' \<in> set (xs @ ys). \<not> in_region (task_of h o' + 52) 8 a) \<longrightarrow> memory s' a = memory s a)"
  using assms by (rule inv_exit)

text \<open>One task is created for a process, runs, and ends.\<close>

lemma some_task:
  obtains s s1 :: "unit tstate" and A ow q where "klive kernel_heap_layout s A" "run_queue s [] 0"
    "sched_step kernel_heap_layout A s s1" "sched_inv kernel_heap_layout A s1 [ow] q"
proof -
  let ?h = kernel_heap_layout
  obtain s :: "unit tstate" and b where s: "klive ?h s [b \<mapsto> 3]" "entry_held ?h [b \<mapsto> 3] (memory s) (block_addr ?h b)"
    "1027 \<le> card (unused_blocks (nblocks ?h) [b \<mapsto> 3])" "run_queue s [] 0"
    by (rule some_ready_process)
  obtain t s1 where n: "task_new (block_addr ?h b) s = (t, s1)" by (cases "task_new (block_addr ?h b) s")
  have room: "1027 \<le> free_blocks ?h (memory s)" using s(3) free_blocks_unused[OF s(1)] by simp
  have "sched_inv ?h [b \<mapsto> 3] s [] 0" using s(1,4) by (simp add: sched_inv_def)
  from inv_new(1)[OF this room s(2) n] obtain ow q where "sched_inv ?h [b \<mapsto> 3] s1 [ow] q" by auto
  then show thesis using that[OF s(1,4) sched_step.new[OF room s(2) n]] by blast
qed

theorem sched_run_invariant_witness:
  "\<exists>(s :: unit tstate) s' A ow os q. task_free (task_of kernel_heap_layout ow) s = (0, s')
     \<and> sched_inv kernel_heap_layout A s' os q"
proof -
  let ?h = kernel_heap_layout
  obtain s s1 :: "unit tstate" and A ow q where s: "klive ?h s A" "run_queue s [] 0" "sched_step ?h A s s1" "sched_inv ?h A s1 [ow] q"
    by (rule some_task)
  obtain s2 where f: "task_free (task_of ?h ow) s1 = (0, s2)" using inv_exit[of ?h A s1 "[]" ow "[]" q] s(4) by auto
  have "task_head s1 = task_of ?h ow" "task_of ?h ow \<noteq> NULL"
    using s(4) by (auto simp: sched_inv_def run_queue_def tasks_ok_def task_page_at_def)
  then have "queued s1 (task_of ?h ow)" using queued.head[of s1] by simp
  then have "sched_step ?h A s1 s2" using f by (rule sched_step.exit)
  then have "sched_run ?h A s s2" using sched_run.step[OF sched_run.step[OF sched_run.start s(3)]] by blast
  from sched_run_invariant[OF this s(1,2)] f show ?thesis by blast
qed

theorem task_free_releases_witness:
  "\<exists>(s :: unit tstate) s' A ow. task_free (task_of kernel_heap_layout ow) s = (0, s') \<and> run_queue s' [] 0
     \<and> klive kernel_heap_layout s' A"
proof -
  let ?h = kernel_heap_layout
  obtain s s1 :: "unit tstate" and A ow q where s: "klive ?h s A" "run_queue s [] 0" "sched_step ?h A s s1" "sched_inv ?h A s1 [ow] q"
    by (rule some_task)
  obtain s2 q' where f: "task_free (task_of ?h ow) s1 = (0, s2)" "sched_inv ?h A s2 [] q'"
    using task_free_releases[of ?h A s1 "[]" ow "[]" q] s(4) by auto
  then have "run_queue s2 [] 0" "klive ?h s2 A" by (auto simp: sched_inv_def run_queue_def)
  then show ?thesis using f(1) by blast
qed

end
