(* ===== verification/FatVolume.thy ===== *)
theory FatVolume
  imports Fat16
begin

text \<open>
  The FAT16 driver on a real volume: how \<^verbatim>\<open>fat16_get_full_relative_filename\<close> turns the padded name fields of a
  directory entry into a C string, how \<^verbatim>\<open>fat16_get_total_items_for_directory\<close> counts the entries of a directory on
  disk, and what \<^verbatim>\<open>fat16_read\<close> returns from the first cluster of a file.
\<close>

subsection \<open>Names\<close>

fun bytes_then :: "mem \<Rightarrow> u32 \<Rightarrow> u8 list \<Rightarrow> u8 \<Rightarrow> bool" where
  "bytes_then m p [] t \<longleftrightarrow> m p = t"
| "bytes_then m p (x # xs) t \<longleftrightarrow> m p = x \<and> bytes_then m (p + 1) xs t"

definition name_char :: "u8 \<Rightarrow> bool" where
  "name_char c \<longleftrightarrow> c \<noteq> 0x00 \<and> c \<noteq> 0x20"

lemma bytes_then_cong:
  assumes "\<And>i. i \<le> length xs \<Longrightarrow> m' (p + of_nat i) = m (p + of_nat i)"
  shows "bytes_then m' p xs t = bytes_then m p xs t"
  using assms
proof (induction xs arbitrary: p)
  case Nil
  then show ?case using Nil[of 0] by simp
next
  case (Cons x xs)
  have "m' (p + 1 + of_nat i) = m (p + 1 + of_nat i)" if "i \<le> length xs" for i
    using Cons.prems[of "Suc i"] that by (simp add: add.assoc)
  from Cons.IH[OF this] Cons.prems[of 0] show ?case by simp
qed

lemma proper_string_ok:
  assumes "bytes_then m inp xs t" "list_all name_char xs" "t = 0x00 \<or> t = 0x20" "length xs < 2 ^ 16"
    and "\<And>i. i \<le> length xs \<Longrightarrow> \<not> in_region out (Suc (length xs)) (inp + of_nat i)"
  shows "\<exists>m'. fat16_to_proper_string out inp m = Some (out + of_nat (length xs), m')
    \<and> (\<forall>i < length xs. m' (out + of_nat i) = xs ! i)
    \<and> (\<forall>a. \<not> in_region out (length xs) a \<longrightarrow>
         m' a = (if a = out + of_nat (length xs) \<and> t = 0x20 then 0x00 else m a))"
  using assms
proof (induction xs arbitrary: m inp out)
  case Nil
  then show ?case by (subst fat16_to_proper_string.simps) auto
next
  case (Cons x xs)
  define m1 where "m1 = m(out := x)"
  have x: "m inp = x" "x \<noteq> 0" "x \<noteq> 0x20" using Cons.prems(1,2) by (auto simp: name_char_def)
  have out0: "inp + of_nat i \<noteq> out" if "i \<le> length (x # xs)" for i
    using Cons.prems(5)[OF that] by (auto simp: in_region_def)
  have b1: "bytes_then m1 (inp + 1) xs t"
  proof -
    have "m1 (inp + 1 + of_nat i) = m (inp + 1 + of_nat i)" if "i \<le> length xs" for i
      using out0[of "Suc i"] that by (simp add: m1_def add.assoc)
    from bytes_then_cong[of xs m1 "inp + 1" m t, OF this] show ?thesis using Cons.prems(1) by simp
  qed
  have sep: "\<not> in_region (out + 1) (Suc (length xs)) (inp + 1 + of_nat i)" if "i \<le> length xs" for i
  proof
    assume "in_region (out + 1) (Suc (length xs)) (inp + 1 + of_nat i)"
    then have "in_region out (Suc (length (x # xs))) (inp + of_nat (Suc i))"
      using in_region_sub[of out 1 "Suc (length xs)" _ "Suc (Suc (length xs))"] Cons.prems(4) by (simp add: add.assoc)
    then show False using Cons.prems(5)[of "Suc i"] that by simp
  qed
  have "list_all name_char xs" "length xs < 2 ^ 16" using Cons.prems(2,4) by simp_all
  from Cons.IH[OF b1 this(1) Cons.prems(3) this(2) sep] obtain m' where
    ih: "fat16_to_proper_string (out + 1) (inp + 1) m1 = Some (out + 1 + of_nat (length xs), m')"
    "\<And>i. i < length xs \<Longrightarrow> m' (out + 1 + of_nat i) = xs ! i"
    "\<And>a. \<not> in_region (out + 1) (length xs) a \<Longrightarrow>
       m' a = (if a = out + 1 + of_nat (length xs) \<and> t = 0x20 then 0x00 else m1 a)" by blast
  have "fat16_to_proper_string out inp m = Some (out + of_nat (length (x # xs)), m')"
    using ih(1) x by (subst fat16_to_proper_string.simps) (simp add: m1_def add.assoc)
  moreover have first: "m' out = x"
  proof -
    have "unat (0 - 1 :: u32) = 2 ^ 32 - 1" unfolding unat_sub_if' by simp
    then have "\<not> in_region (out + 1) (length xs) out" using Cons.prems(4) by (simp add: in_region_def)
    moreover have "out \<noteq> out + 1 + of_nat (length xs)"
    proof
      assume "out = out + 1 + of_nat (length xs)"
      then have "(of_nat (Suc (length xs)) :: u32) = 0" by (simp add: add.assoc)
      then have "unat (of_nat (Suc (length xs)) :: u32) = 0" by (simp only: unat_0)
      then show False using unat_of_nat_u32[of "Suc (length xs)"] Cons.prems(4) by simp
    qed
    ultimately show ?thesis using ih(3)[of out] by (simp add: m1_def)
  qed
  moreover have "m' (out + of_nat i) = (x # xs) ! i" if "i < length (x # xs)" for i
    using that first ih(2) by (cases i) (auto simp: add.assoc)
  moreover have "m' a = (if a = out + of_nat (length (x # xs)) \<and> t = 0x20 then 0x00 else m a)"
    if out: "\<not> in_region out (length (x # xs)) a" for a
  proof -
    have "\<not> in_region (out + 1) (length xs) a"
      using in_region_sub[of out 1 "length xs" a "Suc (length xs)"] out Cons.prems(4) by auto
    moreover have "a \<noteq> out" using out by (auto simp: in_region_def)
    ultimately show ?thesis using ih(3)[of a] by (simp add: m1_def add.assoc)
  qed
  ultimately show ?case by blast
qed

lemma bytes_then_iff:
  "bytes_then m p xs t \<longleftrightarrow> (\<forall>i < length xs. m (p + of_nat i) = xs ! i) \<and> m (p + of_nat (length xs)) = t"
proof (induction xs arbitrary: p)
  case (Cons x xs)
  have "(\<forall>i < length (x # xs). m (p + of_nat i) = (x # xs) ! i) \<longleftrightarrow>
      m p = x \<and> (\<forall>i < length xs. m (p + 1 + of_nat i) = xs ! i)"
    by (simp add: All_less_Suc2 add.assoc)
  then show ?case using Cons[of "p + 1"] by (simp add: add.assoc)
qed simp

text \<open>
  The name fields of the entry at \<open>p\<close>: \<open>n\<close> padded with blanks to eight bytes and \<open>e\<close> to three.  The driver reads on until a
  blank or a zero, so a name of eight characters would run into the extension, and an extension of three into the
  attribute byte.
\<close>

definition dir_name :: "mem \<Rightarrow> u32 \<Rightarrow> u8 list \<Rightarrow> u8 list \<Rightarrow> bool" where
  "dir_name m p n e \<longleftrightarrow> length n < 8 \<and> length e \<le> 3 \<and> list_all name_char (n @ e)
     \<and> (\<forall>i < 8. m (p + of_nat i) = (if i < length n then n ! i else 0x20))
     \<and> (\<forall>i < 3. m (p + 8 + of_nat i) = (if i < length e then e ! i else 0x20))
     \<and> (length e = 3 \<longrightarrow> m (p + 11) = 0x00 \<or> m (p + 11) = 0x20)"

definition full_name :: "u8 list \<Rightarrow> u8 list \<Rightarrow> u8 list" where
  "full_name n e = n @ (if e = [] then [] else 46 # e)"

lemma dir_name_fields:
  assumes "dir_name m p n e"
  shows "bytes_then m p n 0x20" "\<exists>t. bytes_then m (p + 8) e t \<and> (t = 0x00 \<or> t = 0x20)"
proof -
  show "bytes_then m p n 0x20" using assms by (auto simp: dir_name_def bytes_then_iff)
  have "m (p + 8 + of_nat (length e)) = 0x00 \<or> m (p + 8 + of_nat (length e)) = 0x20"
  proof (cases "length e = 3")
    case True
    then have "p + 8 + of_nat (length e) = p + 11" by simp
    then show ?thesis using assms True by (simp only: dir_name_def)
  qed (use assms in \<open>auto simp: dir_name_def\<close>)
  then show "\<exists>t. bytes_then m (p + 8) e t \<and> (t = 0x00 \<or> t = 0x20)"
    using assms by (auto simp: dir_name_def bytes_then_iff)
qed

lemma out_offset: "i < 2 ^ 16 \<Longrightarrow> unat (of_nat i :: u32) = i"
  by (rule unat_of_nat_u32) simp

lemma out_region:
  assumes "i + j < 2 ^ 16" "q < 2 ^ 16"
  shows "in_region (out + of_nat i) j (out + of_nat q) \<longleftrightarrow> i \<le> q \<and> q < i + j"
    and "out + of_nat i = out + of_nat q \<longleftrightarrow> i = q"
proof -
  have u: "unat (of_nat i :: u32) = i" "unat (of_nat q :: u32) = q" using assms by (simp_all add: out_offset)
  have "unat (of_nat q - of_nat i :: u32) = (if i \<le> q then q - i else 2 ^ 32 + q - i)"
    using u assms by (auto simp: unat_sub_if')
  then show "in_region (out + of_nat i) j (out + of_nat q) \<longleftrightarrow> i \<le> q \<and> q < i + j"
    using assms by (auto simp: in_region_def split: if_splits)
  have "out + of_nat i = out + of_nat q \<longleftrightarrow> unat (of_nat i :: u32) = unat (of_nat q :: u32)"
    unfolding add_left_cancel by (rule word_unat_eq_iff)
  then show "out + of_nat i = out + of_nat q \<longleftrightarrow> i = q" using u by simp
qed

lemma full_relative_filename_ok:
  assumes "dir_name m item n e" "disjoint_regions out 128 item 32"
  shows "\<exists>m'. fat16_get_full_relative_filename item out 128 m = Some m' \<and> cstr_at m' out (full_name n e)
    \<and> (\<forall>a. \<not> in_region out 128 a \<longrightarrow> m' a = m a)"
proof -
  let ?k = "length n" and ?l = "length e"
  have len: "?k < 8" "?l \<le> 3" and ok: "list_all name_char n" "list_all name_char e"
    using assms(1) by (auto simp: dir_name_def)
  define m0 where "m0 = memset m out 0 128"
  have sep: "\<not> in_region out 128 (item + of_nat i)" if "i < 32" for i
    using disjoint_regionsD[OF assms(2)] that out_offset[of i] by simp
  have m0_item: "m0 (item + of_nat i) = m (item + of_nat i)" if "i < 32" for i
    using sep[OF that] by (simp add: m0_def memset_eq)
  have sub: "in_region out 128 a" if "in_region (out + of_nat i) j a" "i + j \<le> 128" for i j a
    using in_region_sub[OF that] by simp
  have b0: "bytes_then m0 item n 0x20"
    using bytes_then_cong[of n m0 item m] m0_item len(1) dir_name_fields(1)[OF assms(1)] by simp
  have sep0: "\<not> in_region out (Suc ?k) (item + of_nat i)" if "i \<le> ?k" for i
    using sep[of i] that len(1) by (simp add: in_region_def)
  obtain m1 where first: "fat16_to_proper_string out item m0 = Some (out + of_nat ?k, m1)"
    "\<And>i. i < ?k \<Longrightarrow> m1 (out + of_nat i) = n ! i"
    "\<And>a. \<not> in_region out ?k a \<Longrightarrow> m1 a = (if a = out + of_nat ?k then 0x00 else m0 a)"
    using proper_string_ok[OF b0 ok(1) _ _ sep0] len(1) by auto
  have m1_out: "m1 a = m a" if "\<not> in_region out 128 a" for a
  proof -
    have "\<not> in_region out ?k a" using that len(1) by (simp add: in_region_def)
    moreover have "a \<noteq> out + of_nat ?k" using that len(1) out_offset[of ?k] by auto
    ultimately show ?thesis using first(3) that by (simp add: m0_def memset_eq)
  qed
  have m1_item: "m1 (item + of_nat i) = m (item + of_nat i)" if "i < 32" for i
    using m1_out sep[OF that] by blast
  have m1_zero: "m1 (out + of_nat i) = 0" if "?k \<le> i" "i < 128" for i
    using first(3)[of "out + of_nat i"] that out_offset[of i] by (auto simp: m0_def memset_eq)
  have nz: "0 \<notin> set n" "0 \<notin> set e" using ok by (auto simp: list_all_iff name_char_def)
  show ?thesis
  proof (cases "e = []")
    case True
    have "m1 (item + 8) = 0x20" using m1_item[of 8] assms(1) True by (auto simp: dir_name_def dest: spec[of _ 0])
    then have "fat16_get_full_relative_filename item out 128 m = Some m1"
      using first(1) by (simp add: fat16_get_full_relative_filename_def m0_def)
    moreover have "cstr_at m1 out n" using first(2) m1_zero[of ?k] nz(1) len(1) by (simp add: cstr_at_iff)
    ultimately show ?thesis using m1_out True by (simp add: full_name_def)
  next
    case False
    define m2 where "m2 = m1(out + of_nat ?k := 46)"
    let ?out = "out + of_nat ?k + 1"
    have o1: "?out = out + of_nat (Suc ?k)" by simp
    have first_ext: "m1 (item + 8) = e ! 0" using m1_item[of 8] assms(1) False by (auto simp: dir_name_def dest: spec[of _ 0])
    have ext: "m1 (item + 8) \<noteq> 0x00 \<and> m1 (item + 8) \<noteq> 0x20"
      using first_ext ok(2) False by (cases e) (auto simp: name_char_def)
    obtain t where t: "bytes_then m (item + 8) e t" "t = 0x00 \<or> t = 0x20" using dir_name_fields(2)[OF assms(1)] by blast
    have m2_ext: "m2 (item + 8 + of_nat i) = m (item + 8 + of_nat i)" if "i \<le> ?l" for i
    proof -
      have e: "item + 8 + of_nat i = item + of_nat (8 + i)" by simp
      have "item + of_nat (8 + i) \<noteq> out + of_nat ?k"
        using sep[of "8 + i"] that len out_offset[of ?k] by (auto simp del: of_nat_add)
      then show ?thesis unfolding e m2_def using m1_item[of "8 + i"] that len by simp
    qed
    have b2: "bytes_then m2 (item + 8) e t" using bytes_then_cong[of e m2 "item + 8" m t, OF m2_ext] t(1) by simp
    have sep2: "\<not> in_region ?out (Suc ?l) (item + 8 + of_nat i)" if "i \<le> ?l" for i
    proof
      assume "in_region ?out (Suc ?l) (item + 8 + of_nat i)"
      then have "in_region out 128 (item + of_nat (8 + i))"
        using sub[of "Suc ?k" "Suc ?l" "item + 8 + of_nat i"] len unfolding o1 by (simp add: add.assoc)
      then show False using sep[of "8 + i"] that len by simp
    qed
    obtain m3 where second: "fat16_to_proper_string ?out (item + 8) m2 = Some (?out + of_nat ?l, m3)"
      "\<And>i. i < ?l \<Longrightarrow> m3 (?out + of_nat i) = e ! i"
      "\<And>a. \<not> in_region ?out ?l a \<Longrightarrow> m3 a = (if a = ?out + of_nat ?l \<and> t = 0x20 then 0x00 else m2 a)"
      using proper_string_ok[OF b2 ok(2) t(2) _ sep2] len(2) by auto
    have "fat16_get_full_relative_filename item out 128 m = Some m3"
      using first(1) second(1) ext by (simp add: fat16_get_full_relative_filename_def m0_def m2_def)
    moreover have "m3 a = m a" if a: "\<not> in_region out 128 a" for a
    proof -
      have "\<not> in_region ?out ?l a" using sub[of "Suc ?k" ?l a] a len unfolding o1 by auto
      moreover have "a \<noteq> out + of_nat q" if "q < 128" for q
        using a that out_offset[of q] by auto
      from this[of ?k] this[of "Suc ?k + ?l"] have "a \<noteq> out + of_nat ?k" "a \<noteq> ?out + of_nat ?l"
        using len by (simp_all add: ac_simps)
      ultimately show ?thesis using second(3)[of a] m1_out[OF a] by (simp add: m2_def)
    qed
    moreover have "cstr_at m3 out (full_name n e)"
      unfolding cstr_at_iff
    proof (intro conjI allI impI)
      have o2: "?out + of_nat i = out + of_nat (Suc ?k + i)" for i by (simp add: add.assoc)
      have low: "m3 (out + of_nat i) = m2 (out + of_nat i)" if "i \<le> ?k" for i
      proof -
        have "\<not> in_region ?out ?l (out + of_nat i)"
          unfolding o1 using out_region(1)[of "Suc ?k" ?l i out] that len by simp
        moreover have "out + of_nat i \<noteq> ?out + of_nat ?l"
          unfolding o2 using out_region(2)[of i 0 "Suc ?k + ?l" out] that len by simp
        ultimately show ?thesis using second(3)[of "out + of_nat i"] by simp
      qed
      fix i assume i: "i < length (full_name n e)"
      then have i11: "i < Suc ?k + ?l" using False by (simp add: full_name_def)
      show "m3 (out + of_nat i) = full_name n e ! i"
      proof (cases "i \<le> ?k")
        case True
        then show ?thesis
          using low[OF True] first(2)[of i] False len out_region(2)[of ?k 0 i out]
          by (auto simp: m2_def full_name_def nth_append)
      next
        case False
        then have "m3 (out + of_nat i) = e ! (i - Suc ?k)"
          using second(2)[of "i - Suc ?k"] i11 unfolding o2 by simp
        then show ?thesis using False \<open>e \<noteq> []\<close> by (simp add: full_name_def nth_append nth_Cons')
      qed
    next
      show "0 \<notin> set (full_name n e)" using nz by (auto simp: full_name_def)
      have o3: "out + of_nat (length (full_name n e)) = out + of_nat (Suc ?k + ?l)"
        using False by (simp add: full_name_def)
      have "m3 (out + of_nat (Suc ?k + ?l)) = 0"
      proof -
        have "\<not> in_region ?out ?l (out + of_nat (Suc ?k + ?l))"
          unfolding o1 using out_region(1)[of "Suc ?k" ?l "Suc ?k + ?l" out] len by simp
        moreover have "m2 (out + of_nat (Suc ?k + ?l)) = 0"
          using m1_zero[of "Suc ?k + ?l"] out_region(2)[of ?k 0 "Suc ?k + ?l" out] len
          by (simp add: m2_def del: of_nat_add of_nat_Suc)
        ultimately show ?thesis using second(3)[of "out + of_nat (Suc ?k + ?l)"] by simp
      qed
      then show "m3 (out + of_nat (length (full_name n e))) = 0" by (simp only: o3)
    qed
    ultimately show ?thesis by blast
  qed
qed

subsection \<open>Counting the entries of a directory\<close>

text \<open>The entries from index \<open>j\<close> on of the directory at byte \<open>D\<close>, up to the blank one at index \<open>N\<close>, that are not deleted.\<close>

definition live_entries :: "(nat \<Rightarrow> nat \<Rightarrow> u8) \<Rightarrow> nat \<Rightarrow> nat \<Rightarrow> nat \<Rightarrow> nat" where
  "live_entries img D j N = length (filter (\<lambda>k. disk_byte img (D + 32 * k) \<noteq> 0xE5) [j..<N])"

definition directory_ends :: "(nat \<Rightarrow> nat \<Rightarrow> u8) \<Rightarrow> nat \<Rightarrow> nat \<Rightarrow> bool" where
  "directory_ends img D N \<longleftrightarrow> (\<forall>j < N. disk_byte img (D + 32 * j) \<noteq> 0x00) \<and> disk_byte img (D + 32 * N) = 0x00"

lemma live_entries_step:
  "j < N \<Longrightarrow> live_entries img D j N = (if disk_byte img (D + 32 * j) = 0xE5 then 0 else 1) + live_entries img D (Suc j) N"
  by (simp add: live_entries_def upt_conv_Cons)

lemma entry_in_sector: "(p :: nat) mod 32 = 0 \<Longrightarrow> p mod 512 + 32 \<le> 512"
proof -
  assume "p mod 32 = 0"
  then have "(p mod 512) mod 32 = 0" by (simp add: mod_mod_cancel)
  then obtain k where k: "p mod 512 = 32 * k" by (auto elim!: dvdE simp: mod_eq_0_iff_dvd)
  have "p mod 512 < 512" by simp
  then have "k < 16" using k by simp
  then show ?thesis using k by simp
qed

lemma count_items_ok:
  fixes s :: "('d, 'a) iostate_scheme"
  assumes ata: "ata_disk hw idle img" and ar: "read_areas (stream_buf_at lm) stream (directory_item_at lm) 32"
    and D: "D mod 32 = 0" "D + 32 * (N + 1) < 2 ^ 31" and ends: "directory_ends img D N"
    and s: "idle (device s)" "stream_at lm (memory s) stream (D + 32 * j)" "j \<le> N" "i + N < 2 ^ 31 + j"
  shows "\<exists>d' m'. idle d'
    \<and> fat16_count_items lm hw stream (int i) s = Some (int (i + live_entries img D j N), s\<lparr>device := d', memory := m'\<rparr>)
    \<and> (\<forall>a. \<not> in_region (directory_item_at lm) 32 a \<longrightarrow> \<not> in_region stream 4 a
         \<longrightarrow> (\<forall>d. \<not> in_region (stream_buf_at lm d) 512 a) \<longrightarrow> m' a = memory s a)"
  using s
proof (induction "N - j" arbitrary: j i s)
  case 0
  let ?P = "D + 32 * j"
  have j: "j = N" using 0 by simp
  have al: "?P mod 512 + 32 \<le> 512" using D(1) by (intro entry_in_sector) (simp add: mod_simps)
  obtain d1 m1 where rd: "idle d1"
    "diskstreamer_read lm hw (stream_buf_at lm) 0 stream (directory_item_at lm) 32 s = Some (0, s\<lparr>device := d1, memory := m1\<rparr>)"
    "\<And>k. k < 32 \<Longrightarrow> m1 (directory_item_at lm + of_nat k) = disk_byte img (?P + k)"
    "\<And>a. \<not> in_region (directory_item_at lm) 32 a \<Longrightarrow> \<not> in_region stream 4 a
         \<Longrightarrow> (\<forall>d. \<not> in_region (stream_buf_at lm d) 512 a) \<Longrightarrow> m1 a = memory s a"
    using diskstreamer_read_image[OF ata "0.prems"(1,2) _ ar, of 0] al D(2) j by auto
  have "m1 (directory_item_at lm) = 0" using rd(3)[of 0] ends j by (simp add: directory_ends_def)
  then have "fat16_count_items lm hw stream (int i) s = Some (int (i + live_entries img D j N), s\<lparr>device := d1, memory := m1\<rparr>)"
    using rd(2) j by (subst fat16_count_items.simps) (simp add: live_entries_def)
  then show ?case using rd(1,4) by blast
next
  case (Suc n)
  let ?P = "D + 32 * j"
  have j: "j < N" using Suc.hyps(2) by simp
  have al: "?P mod 512 + 32 \<le> 512" using D(1) by (intro entry_in_sector) (simp add: mod_simps)
  obtain d1 m1 where rd: "idle d1"
    "diskstreamer_read lm hw (stream_buf_at lm) 0 stream (directory_item_at lm) 32 s = Some (0, s\<lparr>device := d1, memory := m1\<rparr>)"
    "\<And>k. k < 32 \<Longrightarrow> m1 (directory_item_at lm + of_nat k) = disk_byte img (?P + k)"
    "stream_at lm m1 stream (?P + 32)"
    "\<And>a. \<not> in_region (directory_item_at lm) 32 a \<Longrightarrow> \<not> in_region stream 4 a
         \<Longrightarrow> (\<forall>d. \<not> in_region (stream_buf_at lm d) 512 a) \<Longrightarrow> m1 a = memory s a"
    using diskstreamer_read_image[OF ata Suc.prems(1,2) _ ar, of 0] al D(2) j by auto
  let ?s1 = "s\<lparr>device := d1, memory := m1\<rparr>"
  define i' where "i' = (if disk_byte img ?P = 0xE5 then i else Suc i)"
  have first: "m1 (directory_item_at lm) = disk_byte img ?P" using rd(3)[of 0] by simp
  have nz: "disk_byte img ?P \<noteq> 0" using ends j by (simp add: directory_ends_def)
  have st: "stream_at lm m1 stream (D + 32 * Suc j)" using rd(4) by (simp add: algebra_simps)
  have nj: "n = N - Suc j" using Suc.hyps(2) by simp
  have b: "i' + N < 2 ^ 31 + Suc j" using Suc.prems(4) by (simp add: i'_def)
  obtain d' m' where ih: "idle d'"
    "fat16_count_items lm hw stream (int i') ?s1 = Some (int (i' + live_entries img D (Suc j) N), ?s1\<lparr>device := d', memory := m'\<rparr>)"
    "\<And>a. \<not> in_region (directory_item_at lm) 32 a \<Longrightarrow> \<not> in_region stream 4 a
         \<Longrightarrow> (\<forall>d. \<not> in_region (stream_buf_at lm d) 512 a) \<Longrightarrow> m' a = memory ?s1 a"
    using Suc.hyps(1)[of "Suc j" ?s1 i'] rd(1) st j b nj by auto
  have "wrap32 (int i + 1) = int (Suc i)" using Suc.prems(4) j wrap32_small[of "int i + 1"] by simp
  then have "fat16_count_items lm hw stream (int i) s = fat16_count_items lm hw stream (int i') ?s1"
    using rd(2) first nz by (subst fat16_count_items.simps) (simp add: i'_def)
  also have "\<dots> = Some (int (i + live_entries img D j N), s\<lparr>device := d', memory := m'\<rparr>)"
    using ih(2) live_entries_step[OF j, of img D] by (simp add: i'_def)
  finally show ?case using ih(1,3) rd(5) by (intro exI[of _ d'] exI[of _ m']) simp
qed

text \<open>What the driver's own structs hold for a volume bound to the kernel's disk.\<close>

definition volume_at :: "'l fslinks_scheme \<Rightarrow> mem \<Rightarrow> u32 \<Rightarrow> bool" where
  "volume_at lm m fp \<longleftrightarrow> load32 m (disk_at lm + 4) = 512 \<and> load32 m (disk_at lm + 16) = fp"

lemma total_items_ok:
  fixes s :: "('d, 'a) iostate_scheme"
  assumes "ata_disk hw idle img" "idle (device s)" "volume_at lm (memory s) fp"
    and "directory_stream (memory s) fp = stream" "load32 (memory s) (stream + 4) = disk_at lm"
    and "read_areas (stream_buf_at lm) stream (directory_item_at lm) 32"
    and "512 * S + 32 * (N + 1) < 2 ^ 31" "directory_ends img (512 * S) N"
  shows "\<exists>d' m'. idle d' \<and> fat16_get_total_items_for_directory lm hw (disk_at lm) (of_nat S) s =
      Some (int (live_entries img (512 * S) 0 N), s\<lparr>device := d', memory := m'\<rparr>)
    \<and> (\<forall>a. \<not> in_region (directory_item_at lm) 32 a \<longrightarrow> \<not> in_region stream 4 a
         \<longrightarrow> (\<forall>d. \<not> in_region (stream_buf_at lm d) 512 a) \<longrightarrow> m' a = memory s a)"
proof -
  let ?m = "store32 (memory s) stream (of_nat (512 * S))"
  have pos: "sint (of_nat S * word_of_int (sint (512 :: u32)) :: u32) = int (512 * S)"
    using sint_of_nat_small[of "512 * S"] assms(7) by (simp add: mult.commute)
  have st: "stream_at lm (memory (s\<lparr>memory := ?m\<rparr>)) stream (512 * S + 32 * 0)"
    using assms(5) by (simp add: stream_at_def load32_store32_other disjoint_regions_def del: of_nat_mult)
  have al: "512 * S mod 32 = 0" by (simp add: mod_eq_0_iff_dvd)
  obtain d' m' where "idle d'"
    "fat16_count_items lm hw stream 0 (s\<lparr>memory := ?m\<rparr>) = Some (int (live_entries img (512 * S) 0 N), s\<lparr>device := d', memory := m'\<rparr>)"
    "\<And>a. \<not> in_region (directory_item_at lm) 32 a \<Longrightarrow> \<not> in_region stream 4 a
         \<Longrightarrow> (\<forall>d. \<not> in_region (stream_buf_at lm d) 512 a) \<Longrightarrow> m' a = ?m a"
    using count_items_ok[OF assms(1,6) al assms(7,8) _ st, of 0] assms(2,7) by auto
  moreover have "fat16_get_total_items_for_directory lm hw (disk_at lm) (of_nat S) s = fat16_count_items lm hw stream 0 (s\<lparr>memory := ?m\<rparr>)"
    using assms(3,4) pos by (simp add: fat16_get_total_items_for_directory_def volume_at_def diskstreamer_seek_def Let_def)
  ultimately show ?thesis by (auto simp: store32_outside)
qed

subsection \<open>Reading a file\<close>

lemma sdiv_less: "0 \<le> a \<Longrightarrow> a < b \<Longrightarrow> (a :: int) sdiv b = 0"
  by (cases "a = 0") (auto simp: signed_divide_int_def)

lemma smod_less: "0 \<le> a \<Longrightarrow> a < b \<Longrightarrow> (a :: int) smod b = a"
  by (cases "a = 0") (auto simp: signed_modulo_int_def)

lemma wrap32_nat: "n < 2 ^ 31 \<Longrightarrow> wrap32 (int n) = int n"
  by (rule wrap32_small) (simp_all add: less_imp_of_nat_less)

text \<open>
  A volume whose clusters have \<open>c\<close> sectors and whose data area starts at sector \<open>E\<close>; a file position inside the first
  cluster \<open>fc\<close> of the file.
\<close>

definition data_area :: "'l fslinks_scheme \<Rightarrow> mem \<Rightarrow> u32 \<Rightarrow> nat \<Rightarrow> nat \<Rightarrow> bool" where
  "data_area lm m stream c E \<longleftrightarrow> (\<exists>fp. volume_at lm m fp \<and> m (fp + 13) = of_nat c \<and> 0 < c \<and> c < 256
     \<and> load32 m (fp + 76) = of_nat E \<and> load32 m (fp + 80) = stream \<and> load32 m (stream + 4) = disk_at lm)"

definition file_byte :: "(nat \<Rightarrow> nat \<Rightarrow> u8) \<Rightarrow> nat \<Rightarrow> nat \<Rightarrow> nat \<Rightarrow> nat \<Rightarrow> u8" where
  "file_byte img c E fc k = disk_byte img (512 * (E + (fc - 2) * c) + k)"

lemma read_first_cluster:
  fixes s :: "('d, 'a) iostate_scheme"
  assumes "ata_disk hw idle img" "idle (device s)" "data_area lm (memory s) stream c E"
    and "2 \<le> fc" "512 * (E + (fc - 2) * c) + 512 * c < 2 ^ 31" "0 < n" "p + n \<le> 512 * c"
    and "p mod 512 = 0 \<or> p mod 512 + n \<le> 512" "read_areas (stream_buf_at lm) stream out n"
  shows "\<exists>d' m'. idle d'
    \<and> fat16_read_items_of_directory lm hw (disk_at lm) (int fc) (int p) (int n) out s = Some (0, s\<lparr>device := d', memory := m'\<rparr>)
    \<and> (\<forall>k < n. m' (out + of_nat k) = file_byte img c E fc (p + k))
    \<and> (\<forall>a. \<not> in_region out n a \<longrightarrow> \<not> in_region stream 4 a \<longrightarrow> (\<forall>d. \<not> in_region (stream_buf_at lm d) 512 a)
         \<longrightarrow> m' a = memory s a)"
proof -
  let ?B = "512 * (E + (fc - 2) * c)" and ?m = "memory s"
  obtain fp where v: "load32 ?m (disk_at lm + 4) = 512" "load32 ?m (disk_at lm + 16) = fp" "?m (fp + 13) = of_nat c"
    "0 < c" "c < 256" "load32 ?m (fp + 76) = of_nat E" "load32 ?m (fp + 80) = stream" "load32 ?m (stream + 4) = disk_at lm"
    using assms(3) by (auto simp: data_area_def volume_at_def)
  have c: "uint (of_nat c :: u8) = int c" using v(5) by (simp add: uint_nat unsigned_of_nat take_bit_nat_eq_self)
  have E: "sint (of_nat E :: u32) = int E" using assms(5) by (intro sint_of_nat_small) simp
  have spc: "wrap32 (int c * 512) = int (512 * c)" using wrap32_nat[of "512 * c"] v(5) by (simp add: mult.commute)
  have p: "int p < int (512 * c)" using assms(6,7) by simp
  have chain: "fat16_get_cluster_for_offset lm hw (disk_at lm) (int fc) (int p) s = Some (int fc, s)"
    using v(1-5) p sdiv_less[of "int p" "int (512 * c)"]
    by (simp add: fat16_get_cluster_for_offset_def c spc Let_def del: of_nat_mult)
  have sec: "wrap32 (int E + wrap32 ((int fc - 2) * int c)) = int (E + (fc - 2) * c)"
  proof -
    have f: "int fc - 2 = int (fc - 2)" using assms(4) by simp
    have "wrap32 (int ((fc - 2) * c)) = int ((fc - 2) * c)" using assms(5) by (intro wrap32_nat) simp
    moreover have "wrap32 (int (E + (fc - 2) * c)) = int (E + (fc - 2) * c)" using assms(5) by (intro wrap32_nat) simp
    ultimately show ?thesis unfolding f by simp
  qed
  have pos: "wrap32 (wrap32 (int (E + (fc - 2) * c) * 512) + int p smod int (512 * c)) = int (?B + p)"
  proof -
    have x: "int (E + (fc - 2) * c) * 512 = int ?B" by simp
    have "wrap32 (int ?B) = int ?B" using assms(5) by (intro wrap32_nat) simp
    moreover have "int p smod int (512 * c) = int p" using p by (intro smod_less) simp_all
    moreover have "wrap32 (int (?B + p)) = int (?B + p)" using assms(5,7) by (intro wrap32_nat) simp
    ultimately show ?thesis unfolding x by (simp only: of_nat_add)
  qed
  let ?s = "s\<lparr>memory := store32 ?m stream (of_nat (?B + p))\<rparr>"
  have st: "stream_at lm (memory ?s) stream (?B + p)"
    using v(8) by (simp add: stream_at_def load32_store32_other disjoint_regions_def del: of_nat_mult of_nat_add)
  have "(?B + p) mod 512 = p mod 512" by (rule mod_mult_self4)
  then have al: "(?B + p) mod 512 = 0 \<or> (?B + p) mod 512 + n \<le> 512" using assms(8) by simp
  have bound: "?B + p + n < 2 ^ 31" using assms(5,7) by simp
  obtain d' m' where rd: "idle d'"
    "diskstreamer_read lm hw (stream_buf_at lm) 0 stream out (int n) ?s = Some (0, s\<lparr>device := d', memory := m'\<rparr>)"
    "\<And>k. k < n \<Longrightarrow> m' (out + of_nat k) = disk_byte img (?B + p + k)"
    "\<And>a. \<not> in_region out n a \<Longrightarrow> \<not> in_region stream 4 a \<Longrightarrow> (\<forall>d. \<not> in_region (stream_buf_at lm d) 512 a)
         \<Longrightarrow> m' a = memory ?s a"
    using diskstreamer_read_image[OF assms(1) _ st bound assms(9,6) al, of 0] assms(2) by auto
  have "wrap32 0 = 0" using wrap32_nat[of 0] by simp
  then have "fat16_read_items_of_directory lm hw (disk_at lm) (int fc) (int p) (int n) out s = Some (0, s\<lparr>device := d', memory := m'\<rparr>)"
    using chain v(1,2,3,6,7) rd(2) assms(6,7) v(4)
    by (subst fat16_read_items_of_directory.simps)
       (simp add: Let_def c E spc sec pos diskstreamer_seek_def del: of_nat_mult of_nat_add)
  then show ?thesis using rd by (auto simp: file_byte_def add.assoc store32_outside)
qed

lemma sint_small_u32: "n < 2 ^ 31 \<Longrightarrow> sint (of_nat n :: u32) = int n"
  by (rule sint_of_nat_small)

lemma read_element_ok:
  fixes s :: "('d, 'a) iostate_scheme"
  assumes "ata_disk hw idle img" "idle (device s)" "data_area lm (memory s) stream c E"
    and "load32 (memory s) (load32 (memory s) desc) = item" "load32 (memory s) (desc + 4) = of_nat p"
    and "fat16_get_first_cluster_for_directory_item item (memory s) = of_nat fc" "2 \<le> fc"
    and "512 * (E + (fc - 2) * c) + 512 * c < 2 ^ 31" "0 < n" "p + n \<le> 512 * c"
    and "p mod 512 = 0 \<or> p mod 512 + n \<le> 512" "read_areas (stream_buf_at lm) stream out n"
  shows "\<exists>d' m'. idle d' \<and> fat16_read lm hw (disk_at lm) desc (of_nat n) 1 out s = Some (1, s\<lparr>device := d', memory := m'\<rparr>)
    \<and> (\<forall>k < n. m' (out + of_nat k) = file_byte img c E fc (p + k))
    \<and> (\<forall>a. \<not> in_region out n a \<longrightarrow> \<not> in_region stream 4 a \<longrightarrow> (\<forall>d. \<not> in_region (stream_buf_at lm d) 512 a)
         \<longrightarrow> m' a = memory s a)"
proof -
  obtain d' m' where r: "idle d'"
    "fat16_read_items_of_directory lm hw (disk_at lm) (int fc) (int p) (int n) out s = Some (0, s\<lparr>device := d', memory := m'\<rparr>)"
    "\<forall>k < n. m' (out + of_nat k) = file_byte img c E fc (p + k)"
    "\<forall>a. \<not> in_region out n a \<longrightarrow> \<not> in_region stream 4 a \<longrightarrow> (\<forall>d. \<not> in_region (stream_buf_at lm d) 512 a) \<longrightarrow> m' a = memory s a"
    using read_first_cluster[OF assms(1-3,7-12)] by blast
  have c: "0 < c" using assms(3) by (auto simp: data_area_def)
  define X where "X = (fc - 2) * c"
  have "fc - 2 \<le> X" using c by (simp add: X_def)
  moreover have "512 * E + 512 * X + 512 * c < 2147483648" using assms(8) by (simp add: X_def distrib_left)
  ultimately have "fc < 2147483648" "p < 2147483648" "n < 2147483648" using assms(10) by linarith+
  then have "fc < 2 ^ 31" "p < 2 ^ 31" "n < 2 ^ 31" by simp_all
  then have i: "sint (of_nat fc :: u32) = int fc" "sint (of_nat p :: u32) = int p" "sint (of_nat n :: u32) = int n"
    by (simp_all only: sint_small_u32)
  have "fat16_read lm hw (disk_at lm) desc (of_nat n) 1 out s = Some (1, s\<lparr>device := d', memory := m'\<rparr>)"
    unfolding fat16_read_def Let_def assms(4,5)
    by (subst fat16_read_loop.simps) (simp add: assms(6) i r(2) fat16_read_loop.simps)
  then show ?thesis using r by blast
qed

subsection \<open>Properties\<close>

text \<open>
  C31.  \<^verbatim>\<open>fat16_get_full_relative_filename\<close> of an entry whose name has at most seven characters and whose extension does not
  run into a non-blank attribute ends, and leaves \<^verbatim>\<open>NAME.EXT\<close> (\<^verbatim>\<open>NAME\<close> without an extension) as a C string in the buffer,
  with no byte outside the buffer changed.
\<close>

theorem fat16_filename_formats:
  assumes "dir_name m item n e" "disjoint_regions out 128 item 32"
  shows "\<exists>m'. fat16_get_full_relative_filename item out 128 m = Some m' \<and> cstr_at m' out (full_name n e)
    \<and> (\<forall>a. \<not> in_region out 128 a \<longrightarrow> m' a = m a)"
  using assms by (rule full_relative_filename_ok)

text \<open>The entry \<^verbatim>\<open>A.TXT\<close> with the archive attribute at 0x1000.\<close>

definition entry_memory :: mem where
  "entry_memory = (\<lambda>_. 0)(0x1000 := 65, 0x1001 := 32, 0x1002 := 32, 0x1003 := 32, 0x1004 := 32, 0x1005 := 32,
     0x1006 := 32, 0x1007 := 32, 0x1008 := 84, 0x1009 := 88, 0x100A := 84, 0x100B := 32)"

lemma all_less_3: "(\<forall>i < (3 :: nat). P i) \<longleftrightarrow> P 0 \<and> P 1 \<and> P 2"
  by (auto simp: less_Suc_eq numeral_eq_Suc)

lemma all_less_8: "(\<forall>i < (8 :: nat). P i) \<longleftrightarrow> P 0 \<and> P 1 \<and> P 2 \<and> P 3 \<and> P 4 \<and> P 5 \<and> P 6 \<and> P 7"
proof -
  have "(\<forall>i < (8 :: nat). P i) = (\<forall>i \<in> {..<8}. P i)" by (simp only: Ball_def lessThan_iff)
  also have "{..<8} = {0, 1, 2, 3, 4, 5, 6, 7 :: nat}" by (auto simp: lessThan_nat_numeral)
  finally show ?thesis by simp
qed

theorem fat16_filename_formats_witness:
  "\<exists>m'. fat16_get_full_relative_filename 0x1000 0x2000 128 entry_memory = Some m' \<and> cstr_at m' 0x2000 [65, 46, 84, 88, 84]"
proof -
  have "dir_name entry_memory 0x1000 [65] [84, 88, 84]"
    by (simp add: dir_name_def all_less_8 all_less_3 entry_memory_def name_char_def)
  moreover have "disjoint_regions 0x2000 128 0x1000 32" by (simp add: disjoint_regions_def)
  ultimately show ?thesis using fat16_filename_formats[of entry_memory "0x1000" "[65]" "[84, 88, 84]" "0x2000"]
    by (auto simp: full_name_def)
qed

text \<open>
  C30.  On a drive that follows the ATA protocol \<^verbatim>\<open>fat16_get_total_items_for_directory\<close> ends for a directory with a blank entry
  and returns the number of entries before it that are not deleted; only the local entry, the position of the
  directory stream and the sector buffers are written.
\<close>

theorem fat16_total_items_counts:
  fixes s :: "('d, 'a) iostate_scheme"
  assumes "ata_disk hw idle img" "idle (device s)" "volume_at lm (memory s) fp"
    and "directory_stream (memory s) fp = stream" "load32 (memory s) (stream + 4) = disk_at lm"
    and "read_areas (stream_buf_at lm) stream (directory_item_at lm) 32"
    and "512 * S + 32 * (N + 1) < 2 ^ 31" "directory_ends img (512 * S) N"
  shows "\<exists>d' m'. idle d' \<and> fat16_get_total_items_for_directory lm hw (disk_at lm) (of_nat S) s =
      Some (int (live_entries img (512 * S) 0 N), s\<lparr>device := d', memory := m'\<rparr>)
    \<and> (\<forall>a. \<not> in_region (directory_item_at lm) 32 a \<longrightarrow> \<not> in_region stream 4 a
         \<longrightarrow> (\<forall>d. \<not> in_region (stream_buf_at lm d) 512 a) \<longrightarrow> m' a = memory s a)"
  using assms by (rule total_items_ok)

text \<open>
  \<^verbatim>\<open>fat16_read\<close> of one element inside the first cluster of a file (from a sector boundary or within a sector) ends
  with 1 and fills the caller's area with the bytes of the file at the descriptor's position; the position in the
  descriptor stays as it was, and nothing else but the stream's position and the sector buffers is written.
\<close>

theorem fat16_read_returns_file:
  fixes s :: "('d, 'a) iostate_scheme"
  assumes "ata_disk hw idle img" "idle (device s)" "data_area lm (memory s) stream c E"
    and "load32 (memory s) (load32 (memory s) desc) = item" "load32 (memory s) (desc + 4) = of_nat p"
    and "fat16_get_first_cluster_for_directory_item item (memory s) = of_nat fc" "2 \<le> fc"
    and "512 * (E + (fc - 2) * c) + 512 * c < 2 ^ 31" "0 < n" "p + n \<le> 512 * c"
    and "p mod 512 = 0 \<or> p mod 512 + n \<le> 512" "read_areas (stream_buf_at lm) stream out n"
  shows "\<exists>d' m'. idle d' \<and> fat16_read lm hw (disk_at lm) desc (of_nat n) 1 out s = Some (1, s\<lparr>device := d', memory := m'\<rparr>)
    \<and> (\<forall>k < n. m' (out + of_nat k) = file_byte img c E fc (p + k))
    \<and> (\<forall>a. \<not> in_region out n a \<longrightarrow> \<not> in_region stream 4 a \<longrightarrow> (\<forall>d. \<not> in_region (stream_buf_at lm d) 512 a)
         \<longrightarrow> m' a = memory s a)"
  using assms by (rule read_element_ok)

text \<open>A machine with a volume: the kernel's disk at 0x202000, the driver's private data at 0x300000 and a stream at 0x4000.\<close>

definition volume_links :: fslinks where
  "volume_links = \<lparr>idt_descriptors_at = 0x200000, idtr_descriptors_at = 0x201000, no_interrupt_at = 0x110000,
     int21h_at = 0x110040, disk_at = 0x202000, colon_slash_at = 0x203000, fat16_fs_at = 0x204000, fat16_name_at = 0x204100,
     fat16_resolve_at = 0x110100, fat16_open_at = 0x110200, fat16_read_at = 0x110300, fat16_seek_at = 0x110400,
     fat16_stat_at = 0x110500, fat16_close_at = 0x110600, stream_buf_at = \<lambda>_. 0x9000, directory_item_at = 0x5000,
     fat_entry_at = 0x5100, tmp_filename_at = 0x5200, stale_directory = 0, stale_current_item = 0, stale_file_descriptor = 0\<rparr>"

text \<open>Clusters of two sectors; the open file is the item at 0x6100 with first cluster 3, at position 512.\<close>

definition volume_memory :: mem where
  "volume_memory = (\<lambda>_. 0)(0x202005 := 2, 0x202012 := 0x30, 0x30000D := 2, 0x30004C := 10, 0x300051 := 0x40, 0x300059 := 0x40,
     0x4005 := 0x20, 0x4006 := 0x20, 0x6000 := 0x08, 0x6001 := 0x60, 0x6005 := 2, 0x6009 := 0x61, 0x611A := 3)"

definition volume_machine :: "drive iostate" where
  "volume_machine = demo_machine\<lparr>memory := volume_memory\<rparr>"

lemma volume_machine_cells:
  "load32 volume_memory 0x202004 = 512" "load32 volume_memory 0x202010 = 0x300000" "volume_memory 0x30000D = 2"
  "load32 volume_memory 0x30004C = 10" "load32 volume_memory 0x300050 = 0x4000" "load32 volume_memory 0x300058 = 0x4000"
  "load32 volume_memory 0x4004 = 0x202000" "load32 volume_memory 0x6000 = 0x6008" "load32 volume_memory 0x6004 = 512"
  "load32 volume_memory 0x6008 = 0x6100" "load16 volume_memory 0x6118 = 0" "load16 volume_memory 0x611A = 3"
  by (simp_all add: volume_memory_def load32_def load16_def)

theorem fat16_read_returns_file_witness:
  "\<exists>d' m'. fat16_read volume_links (drive_ports (\<lambda>sec k. of_nat (sec + k))) 0x202000 0x6000 7 1 0x5300 volume_machine =
      Some (1, volume_machine\<lparr>device := d', memory := m'\<rparr>) \<and> m' 0x5301 = 14"
proof -
  let ?img = "\<lambda>sec k. of_nat (sec + k) :: u8"
  have area: "data_area volume_links (memory volume_machine) 0x4000 2 10"
    by (simp add: data_area_def volume_at_def volume_machine_def volume_links_def volume_machine_cells exI[of _ "0x300000"])
  have "read_areas (stream_buf_at volume_links) 0x4000 0x5300 7" by (simp add: volume_links_def read_areas_def disjoint_regions_def)
  then obtain d' m' where
    "fat16_read volume_links (drive_ports ?img) (disk_at volume_links) 0x6000 (of_nat 7) 1 0x5300 volume_machine =
      Some (1, volume_machine\<lparr>device := d', memory := m'\<rparr>)"
    "\<forall>k < 7. m' (0x5300 + of_nat k) = file_byte ?img 2 10 3 (512 + k)"
    using fat16_read_returns_file[OF drive_is_ata_disk[of ?img] _ area, of "0x6000" "0x6100" 512 3 7 "0x5300"]
    by (auto simp: volume_machine_def demo_machine_def volume_machine_cells fat16_get_first_cluster_for_directory_item_def)
  moreover from this(2)[rule_format, of 1] have "m' 0x5301 = 14" by (simp add: file_byte_def disk_byte_def)
  ultimately show ?thesis by (auto simp: volume_links_def)
qed

theorem fat16_total_items_counts_witness:
  "\<exists>s'. fat16_get_total_items_for_directory volume_links (drive_ports (\<lambda>sec k. if sec = 20 \<and> k < 96 then (if k = 32 then 0xE5 else 65) else 0))
      0x202000 20 volume_machine = Some (2, s')"
proof -
  let ?img = "\<lambda>sec k. if sec = 20 \<and> k < 96 then (if k = 32 then 0xE5 else 65) else 0 :: u8"
  have "directory_ends ?img (512 * 20) 3"
    by (simp add: directory_ends_def all_less_3 disk_byte_def)
  moreover have "live_entries ?img (512 * 20) 0 3 = 2"
    by (simp add: live_entries_def disk_byte_def upt_rec)
  moreover have "volume_at volume_links (memory volume_machine) 0x300000"
    by (simp add: volume_at_def volume_machine_def volume_links_def volume_machine_cells)
  moreover have "read_areas (stream_buf_at volume_links) 0x4000 (directory_item_at volume_links) 32"
    by (simp add: volume_links_def read_areas_def disjoint_regions_def)
  ultimately show ?thesis
    using fat16_total_items_counts[OF drive_is_ata_disk[of ?img], of volume_machine volume_links "0x300000" "0x4000" 20 3]
    by (auto simp: volume_machine_def demo_machine_def volume_machine_cells volume_links_def)
qed

end
