(* ===== verification/Descriptors.thy ===== *)
theory Descriptors
  imports File
begin

text \<open>
  The descriptor table of \<^verbatim>\<open>src/src/fs/file.c\<close>: \<^verbatim>\<open>file_new_descriptor\<close> takes the first free slot and a fresh page, lookups
  find it and no other lookup changes, and \<^verbatim>\<open>fclose\<close> gives back the slot and the pages of an open FAT16 file.
  The table is static memory that the allocator never touches (\<open>table_stable\<close>).
\<close>

subsection \<open>The table\<close>

definition table_stable :: "'l filelinks_scheme \<Rightarrow> heap \<Rightarrow> (nat \<rightharpoonup> nat) \<Rightarrow> bool" where
  "table_stable lm h A \<longleftrightarrow> (\<forall>a. in_region (filedescriptors_at lm) 2048 a \<longrightarrow> stable h A a)"

definition first_free :: "'l filelinks_scheme \<Rightarrow> mem \<Rightarrow> nat \<Rightarrow> bool" where
  "first_free lm m i \<longleftrightarrow> i < 512 \<and> load32 m (descriptor_slot lm i) = 0 \<and> (\<forall>j < i. load32 m (descriptor_slot lm j) \<noteq> 0)"

lemma slot_in_table: "i < 512 \<Longrightarrow> in_region (descriptor_slot lm i) 4 a \<Longrightarrow> in_region (filedescriptors_at lm) 2048 a"
  using slot_in_array[of i 512 "filedescriptors_at lm" a] by simp

lemma get_descriptor_slot:
  "file_get_descriptor lm fd m = (if 0 < fd \<and> fd < 512 then load32 m (descriptor_slot lm (nat (fd - 1))) else 0)"
proof -
  have "(word_of_int (fd - 1) :: u32) = of_nat (nat (fd - 1))" if "0 < fd"
    using that of_int_of_nat_eq[of "nat (fd - 1)", where 'a = u32] by simp
  then show ?thesis by (auto simp: file_get_descriptor_def)
qed

lemma new_descriptor_ok:
  fixes s :: "'a kstate_scheme"
  assumes live: "klive h s A" and room: "unused_blocks (nblocks h) A \<noteq> {}" and st: "table_stable lm h A"
    and i: "first_free lm (memory s) i"
  shows "\<exists>b m. file_new_descriptor lm s = (0, Some (block_addr h b), s\<lparr>memory := m\<rparr>) \<and> A b = None
    \<and> klive h (s\<lparr>memory := m\<rparr>) (A(b \<mapsto> 1)) \<and> load32 m (block_addr h b) = of_nat (Suc i)
    \<and> (\<forall>j < 512. load32 m (descriptor_slot lm j) = (if j = i then block_addr h b else load32 (memory s) (descriptor_slot lm j)))
    \<and> (\<forall>a. stable h A a \<longrightarrow> \<not> in_region (descriptor_slot lm i) 4 a \<longrightarrow> m a = memory s a)"
proof -
  obtain b m1 where kz: "kzalloc 16 s = (block_addr h b, s\<lparr>memory := m1\<rparr>)" "klive h (s\<lparr>memory := m1\<rparr>) (A(b \<mapsto> 1))"
    "A b = None" "b \<in> unused_blocks (nblocks h) A"
    and "unused_blocks (nblocks h) (A(b \<mapsto> 1)) = unused_blocks (nblocks h) A - {b}"
    and "\<And>a. in_region (block_addr h b) 16 a \<Longrightarrow> m1 a = 0"
    and out: "\<And>a. \<not> in_table h a \<Longrightarrow> \<not> in_blocks h b 1 a \<Longrightarrow> m1 a = memory s a"
    using kzalloc_page[OF live room, of 16] by auto
  let ?d = "block_addr h b" and ?t = "descriptor_slot lm i"
  define m2 where "m2 = store32 m1 ?d (of_nat (i + 1))"
  define m3 where "m3 = store32 m2 ?t ?d"
  have i512: "i < 512" using i by (simp add: first_free_def)
  have find: "find (\<lambda>i. load32 (memory s) (descriptor_slot lm i) = 0) [0..<512] = Some i"
    using i by (simp add: find_upt_Some first_free_def)
  have eq: "file_new_descriptor lm s = (0, Some ?d, s\<lparr>memory := m3\<rparr>)"
    using kz(1) by (simp add: file_new_descriptor_def find m3_def m2_def Let_def)
  have in_d: "in_blocks h b 1 a" if "in_region ?d 4 a" for a using that by (simp add: in_blocks_def in_region_def)
  have apart: "\<not> in_table h a" "\<not> in_blocks h b 1 a" if "stable h A a" for a
    using that kz(4) by (auto simp: stable_def)
  have m2_stable: "m2 a = memory s a" if "stable h A a" for a
  proof -
    have "\<not> in_region ?d 4 a" using apart[OF that] in_d[of a] by blast
    then show ?thesis using apart[OF that] out[of a] by (simp add: m2_def store32_outside)
  qed
  have tab: "stable h A a" if "j < 512" "in_region (descriptor_slot lm j) 4 a" for a j
    using st slot_in_table[OF that] by (simp add: table_stable_def)
  have "m3 a = m1 a" if "in_table h a" for a
  proof -
    have "(A(b \<mapsto> 1)) b = Some 1" by simp
    then have "\<not> in_blocks h b 1 a" using blocks_not_in_table[OF klive_block(1,3,4)[OF kz(2)]] that by blast
    moreover have "\<not> in_region ?t 4 a" using tab[OF i512, of a] that by (auto simp: stable_def)
    moreover from calculation have "\<not> in_region ?d 4 a" using in_d by blast
    ultimately show ?thesis by (simp add: m3_def m2_def store32_outside)
  qed
  then have "klive h (s\<lparr>memory := m3\<rparr>) (A(b \<mapsto> 1))" using klive_frame[OF kz(2), of m3] by simp
  moreover have "load32 m3 ?d = of_nat (Suc i)"
  proof -
    have "\<not> in_region ?t 4 a" if "in_region ?d 4 a" for a
      using tab[OF i512, of a] apart[of a] in_d[OF that] by auto
    then have "load32 m3 ?d = load32 m2 ?d" by (intro load32_cong) (simp add: m3_def store32_outside)
    then show ?thesis by (simp add: m2_def)
  qed
  moreover have "load32 m3 (descriptor_slot lm j) = (if j = i then ?d else load32 (memory s) (descriptor_slot lm j))"
    if "j < 512" for j
  proof -
    have "load32 m2 (descriptor_slot lm j) = load32 (memory s) (descriptor_slot lm j)"
      using m2_stable tab[OF that] by (intro load32_cong) blast
    then show ?thesis using slot_load32[of i j m2 "filedescriptors_at lm" ?d] i512 that by (simp add: m3_def)
  qed
  moreover have "m3 a = memory s a" if "stable h A a" "\<not> in_region ?t 4 a" for a
    using that m2_stable by (simp add: m3_def store32_outside)
  ultimately show ?thesis using eq kz(3) by blast
qed

subsection \<open>Closing a file\<close>

text \<open>
  An open file: descriptor \<open>fd\<close> in the page \<open>db\<close>, its FAT16 descriptor in \<open>fb\<close>, the item in \<open>ib\<close> and the copy of the
  directory entry in \<open>eb\<close>.
\<close>

definition open_file :: "'l filelinks_scheme \<Rightarrow> heap \<Rightarrow> mem \<Rightarrow> nat \<Rightarrow> nat \<Rightarrow> nat \<Rightarrow> nat \<Rightarrow> nat \<Rightarrow> bool" where
  "open_file lm h m fd db fb ib eb \<longleftrightarrow> 0 < fd \<and> fd < 512 \<and> distinct [db, fb, ib, eb]
     \<and> load32 m (descriptor_slot lm (fd - 1)) = block_addr h db
     \<and> load32 m (block_addr h db) = of_nat fd \<and> load32 m (block_addr h db + 4) = fat16_fs_at lm
     \<and> load32 m (block_addr h db + 8) = block_addr h fb \<and> load32 m (fat16_fs_at lm + 20) = fat16_close_at lm
     \<and> load32 m (block_addr h fb) = block_addr h ib
     \<and> load32 m (block_addr h ib) = block_addr h eb \<and> load32 m (block_addr h ib + 4) = 1"

lemma fclose_ok:
  fixes s :: "'a kstate_scheme"
  assumes live: "klive h s (with_pages A {db, fb, ib, eb})" and new: "\<forall>b \<in> {db, fb, ib, eb}. A b = None"
    and op: "open_file lm h (memory s) fd db fb ib eb" and st: "table_stable lm h (with_pages A {db, fb, ib, eb})"
  shows "\<exists>m. fclose lm (int fd) s = Some (0, s\<lparr>memory := m\<rparr>) \<and> klive h (s\<lparr>memory := m\<rparr>) A
    \<and> (\<forall>j < 512. load32 m (descriptor_slot lm j) = (if j = fd - 1 then 0 else load32 (memory s) (descriptor_slot lm j)))
    \<and> (\<forall>a. \<not> in_table h a \<longrightarrow> \<not> in_region (descriptor_slot lm (fd - 1)) 4 a \<longrightarrow> m a = memory s a)"
proof -
  let ?P = "with_pages A {db, fb, ib, eb}" and ?t = "descriptor_slot lm (fd - 1)"
  have d: "db \<noteq> fb" "db \<noteq> ib" "db \<noteq> eb" "fb \<noteq> ib" "fb \<noteq> eb" "ib \<noteq> eb" "0 < fd" "fd < 512"
    using op by (auto simp: open_file_def)
  have l0: "klive h s (with_pages A (insert eb {db, fb, ib}))" using live by (simp add: insert_commute)
  define s1 where "s1 = kfree (block_addr h eb) s"
  define s2 where "s2 = kfree (block_addr h ib) s1"
  define s3 where "s3 = kfree (block_addr h fb) s2"
  have l1: "klive h s1 (with_pages A (insert ib {db, fb}))"
    unfolding s1_def using kfree_page(1)[OF l0] d new by (simp add: insert_commute)
  have l2: "klive h s2 (with_pages A (insert fb {db}))"
    unfolding s2_def using kfree_page(1)[OF l1] d new by (simp add: insert_commute)
  have l3: "klive h s3 (with_pages A (insert db {}))"
    unfolding s3_def using kfree_page(1)[OF l2] d new by simp
  have same: "memory s3 a = memory s a" if "\<not> in_table h a" for a
    using kfree_page(2)[OF l0 _ _ that] kfree_page(2)[OF l1 _ _ that] kfree_page(2)[OF l2 _ _ that] d new
    by (simp add: s1_def s2_def s3_def)
  have page: "\<not> in_table h a" if "in_region (block_addr h db) 4 a" for a
  proof -
    have "in_blocks h db 1 a" using that by (simp add: in_blocks_def in_region_def)
    then show ?thesis using blocks_not_in_table[OF klive_block(1,3,4)[OF live, of db 1]] by simp
  qed
  have slot: "\<not> in_table h a" if "j < 512" "in_region (descriptor_slot lm j) 4 a" for a j
    using st slot_in_table[OF that] by (simp add: table_stable_def stable_def)
  have idx: "load32 (memory s3) (block_addr h db) = of_nat fd"
    using op same page load32_cong[of "block_addr h db" "memory s3" "memory s"] by (simp add: open_file_def)
  have t: "filedescriptors_at lm + 4 * (of_nat fd - 1) = ?t" using d(7) by (simp add: of_nat_diff)
  define s4 where "s4 = s3\<lparr>memory := store32 (memory s3) ?t 0\<rparr>"
  have l4: "klive h s4 (with_pages A (insert db {}))"
    unfolding s4_def by (rule klive_frame[OF l3]) (use slot[of "fd - 1"] d in \<open>auto intro!: store32_outside\<close>)
  have nz: "block_addr h db \<noteq> NULL"
    using klive_block(1,2)[OF live, of db 1] by (simp add: block_addr_nonzero)
  have get: "file_get_descriptor lm (int fd) (memory s) = block_addr h db"
  proof -
    obtain k where "fd = Suc k" using d(7) by (cases fd) auto
    then show ?thesis using op unfolding get_descriptor_slot by (simp add: open_file_def)
  qed
  have "fat16_close (block_addr h fb) s = (0, s3)"
    using op by (simp add: open_file_def fat16_close_def free_fat16_file_descriptor_def fat16_fat_item_free_def
        s1_def s2_def s3_def Let_def)
  then have cl: "filesystem_close lm (fat16_fs_at lm) (block_addr h fb) s = Some (0, s3)"
    using op by (simp add: open_file_def filesystem_close_def)
  have fr: "file_free_descriptor lm (block_addr h db) s3 = kfree (block_addr h db) s4"
    unfolding file_free_descriptor_def idx t s4_def by (rule refl)
  have res: "fclose lm (int fd) s = Some (0, kfree (block_addr h db) s4)"
    using nz cl fr op unfolding fclose_def get Let_def by (simp add: open_file_def)
  have l5: "klive h (kfree (block_addr h db) s4) A" using kfree_page(1)[OF l4] new by simp
  have same5: "memory (kfree (block_addr h db) s4) a = store32 (memory s3) ?t 0 a" if "\<not> in_table h a" for a
    using kfree_page(2)[OF l4 _ _ that] new by (simp add: s4_def)
  obtain m where m: "kfree (block_addr h db) s4 = s\<lparr>memory := m\<rparr>"
  proof -
    obtain m1 where "s1 = s\<lparr>memory := m1\<rparr>" using kfree_memory_only s1_def by blast
    moreover obtain m2 where "s2 = s1\<lparr>memory := m2\<rparr>" using kfree_memory_only s2_def by blast
    moreover obtain m3 where "s3 = s2\<lparr>memory := m3\<rparr>" using kfree_memory_only s3_def by blast
    moreover obtain m5 where "kfree (block_addr h db) s4 = s4\<lparr>memory := m5\<rparr>" using kfree_memory_only by blast
    ultimately show ?thesis using that by (simp add: s4_def)
  qed
  have "load32 m (descriptor_slot lm j) = (if j = fd - 1 then 0 else load32 (memory s) (descriptor_slot lm j))" if "j < 512" for j
  proof -
    have "load32 m (descriptor_slot lm j) = load32 (store32 (memory s3) ?t 0) (descriptor_slot lm j)"
      using same5 slot[OF that] m by (intro load32_cong) auto
    moreover have "load32 (memory s3) (descriptor_slot lm j) = load32 (memory s) (descriptor_slot lm j)"
      using same slot[OF that] by (intro load32_cong) blast
    ultimately show ?thesis
      using slot_load32[of "fd - 1" j "memory s3" "filedescriptors_at lm" 0] that d by (simp del: of_nat_diff)
  qed
  moreover have "m a = memory s a" if "\<not> in_table h a" "\<not> in_region ?t 4 a" for a
    using same5[OF that(1)] same[OF that(1)] store32_outside[OF that(2)] m by simp
  ultimately show ?thesis using res l5 m by auto
qed

subsection \<open>Properties\<close>

text \<open>
  \<^verbatim>\<open>file_new_descriptor\<close> takes the first free slot \<open>i\<close> and a fresh page: the new descriptor carries the index \<open>i + 1\<close>, a
  lookup of \<open>i + 1\<close> finds it and every other lookup gives what it gave before.  The descriptor of the last slot
  is the exception: \<^verbatim>\<open>file_get_descriptor\<close> refuses 512, so it can never be looked up.
\<close>

theorem file_new_descriptor_lookup:
  fixes s :: "'a kstate_scheme"
  assumes "klive h s A" "unused_blocks (nblocks h) A \<noteq> {}" "table_stable lm h A" "first_free lm (memory s) i"
  shows "\<exists>b s'. file_new_descriptor lm s = (0, Some (block_addr h b), s') \<and> A b = None
    \<and> klive h s' (A(b \<mapsto> 1)) \<and> load32 (memory s') (block_addr h b) = of_nat (Suc i)
    \<and> (\<forall>fd. file_get_descriptor lm fd (memory s') =
         (if fd = int (Suc i) \<and> i \<noteq> 511 then block_addr h b else file_get_descriptor lm fd (memory s)))"
proof -
  obtain b m where r: "file_new_descriptor lm s = (0, Some (block_addr h b), s\<lparr>memory := m\<rparr>)" "A b = None"
    "klive h (s\<lparr>memory := m\<rparr>) (A(b \<mapsto> 1))" "load32 m (block_addr h b) = of_nat (Suc i)"
    "\<And>j. j < 512 \<Longrightarrow> load32 m (descriptor_slot lm j) = (if j = i then block_addr h b else load32 (memory s) (descriptor_slot lm j))"
    using new_descriptor_ok[OF assms] by blast
  have "i < 512" using assms(4) by (simp add: first_free_def)
  then have "file_get_descriptor lm fd m =
      (if fd = int (Suc i) \<and> i \<noteq> 511 then block_addr h b else file_get_descriptor lm fd (memory s))" for fd
    using r(5)[of "nat (fd - 1)"] unfolding get_descriptor_slot by auto
  then show ?thesis using r(1-4) by (intro exI[of _ b] exI[of _ "s\<lparr>memory := m\<rparr>"]) simp
qed

text \<open>
  \<^verbatim>\<open>fclose\<close> of an open FAT16 file returns 0, empties its slot, gives back exactly the four pages of the file (the
  descriptor, the driver's descriptor, the item and the copied directory entry) and changes nothing else.
\<close>

theorem fclose_releases:
  fixes s :: "'a kstate_scheme"
  assumes "klive h s (with_pages A {db, fb, ib, eb})" "\<forall>b \<in> {db, fb, ib, eb}. A b = None"
    and "open_file lm h (memory s) fd db fb ib eb" "table_stable lm h (with_pages A {db, fb, ib, eb})"
  shows "\<exists>m. fclose lm (int fd) s = Some (0, s\<lparr>memory := m\<rparr>) \<and> klive h (s\<lparr>memory := m\<rparr>) A
    \<and> (\<forall>j < 512. load32 m (descriptor_slot lm j) = (if j = fd - 1 then 0 else load32 (memory s) (descriptor_slot lm j)))
    \<and> (\<forall>a. \<not> in_table h a \<longrightarrow> \<not> in_region (descriptor_slot lm (fd - 1)) 4 a \<longrightarrow> m a = memory s a)"
  using assms by (rule fclose_ok)

text \<open>Links with the descriptor table at 0x8000 and the file system object at 0x9000; a heap of four blocks.\<close>

definition file_links :: filelinks where
  "file_links = \<lparr>idt_descriptors_at = 0x200000, idtr_descriptors_at = 0x201000, no_interrupt_at = 0x110000,
     int21h_at = 0x110040, disk_at = 0x202000, colon_slash_at = 0x203000, fat16_fs_at = 0x9000, fat16_name_at = 0x204100,
     fat16_resolve_at = 0x110100, fat16_open_at = 0x110200, fat16_read_at = 0x110300, fat16_seek_at = 0x110400,
     fat16_stat_at = 0x110500, fat16_close_at = 0x110600, stream_buf_at = \<lambda>_. 0xA000, directory_item_at = 0xB000,
     fat_entry_at = 0xB100, tmp_filename_at = 0xB200, stale_directory = 0, stale_current_item = 0, stale_file_descriptor = 0,
     filesystems_at = 0x8800, filedescriptors_at = 0x8000, mode_r_at = 0xC000, mode_w_at = 0xC010, mode_a_at = 0xC020\<rparr>"

lemma file_links_table: "table_stable file_links four_blocks A"
  if "unused_blocks 4 A \<subseteq> {0, 1, 2, 3}"
proof -
  have "stable four_blocks A a" if a: "in_region 0x8000 2048 a" for a
  proof -
    have u: "0x8000 \<le> unat a" "unat a < 0x8800" using a by (simp_all add: in_region_iff_nat)
    have "\<not> in_blocks four_blocks b 1 a" if b: "b \<in> {0, 1, 2, 3}" for b
      using b u by (auto simp: in_blocks_def block_addr_def four_blocks_def in_region_iff_nat)
    moreover have "\<not> in_table four_blocks a"
      using u by (simp add: in_table_def four_blocks_def nblocks_def in_region_iff_nat)
    moreover have "nblocks four_blocks = 4" by (simp add: nblocks_def four_blocks_def)
    ultimately show ?thesis using \<open>unused_blocks 4 A \<subseteq> {0, 1, 2, 3}\<close> unfolding stable_def by auto
  qed
  then show ?thesis by (simp add: table_stable_def file_links_def)
qed

lemma unused_four: "unused_blocks 4 A \<subseteq> {0, 1, 2, 3}"
  by (auto simp: unused_blocks_def)

theorem file_new_descriptor_lookup_witness:
  "\<exists>b s'. file_new_descriptor file_links power_on = (0, Some (block_addr four_blocks b), s')
     \<and> file_get_descriptor file_links 1 (memory s') = block_addr four_blocks b"
proof -
  have "klive four_blocks power_on Map.empty"
    using four_blocks_free by (simp add: klive_def kheap_rel_def power_on_def)
  moreover have "unused_blocks (nblocks four_blocks) Map.empty \<noteq> {}"
  proof -
    have "0 \<in> unused_blocks (nblocks four_blocks) Map.empty"
      by (simp add: unused_blocks_def unused_def taken_by_def nblocks_def four_blocks_def)
    then show ?thesis by blast
  qed
  moreover have "first_free file_links (memory power_on) 0"
    by (simp add: first_free_def power_on_def load32_def)
  ultimately show ?thesis
    using file_new_descriptor_lookup[of four_blocks power_on Map.empty file_links 0] file_links_table[OF unused_four]
    by fastforce
qed

text \<open>An open file whose objects are the four blocks of the heap.\<close>

definition open_memory :: mem where
  "open_memory = (\<lambda>_. 0)(0x100 := 0x41, 0x101 := 0x41, 0x102 := 0x41, 0x103 := 0x41,
     0x1000 := 1, 0x1005 := 0x90, 0x1009 := 0x20, 0x2001 := 0x30, 0x3001 := 0x40, 0x3004 := 1,
     0x8001 := 0x10, 0x9015 := 6, 0x9016 := 0x11)"

lemma open_memory_live:
  "klive four_blocks (power_on\<lparr>memory := open_memory\<rparr>) (with_pages Map.empty {0, 1, 2, 3})"
proof -
  have four: "b = 0 \<or> b = 1 \<or> b = 2 \<or> b = 3" if "with_pages Map.empty {0, 1, 2, 3} b = Some n" for b n
    using that by (auto simp: with_pages_def split: if_splits)
  have one: "n = 1" if "with_pages Map.empty {0, 1, 2, 3} b = Some n" for b n
    using that by (auto simp: with_pages_def split: if_splits)
  show ?thesis
    unfolding klive_def kheap_rel_def heap_rel_def
  proof (intro conjI allI impI)
    show "heap_wf (kernel_heap (power_on\<lparr>memory := open_memory\<rparr>))"
      by (simp add: power_on_def heap_wf_def nblocks_def four_blocks_def)
    show "allocs_ok (nblocks (kernel_heap (power_on\<lparr>memory := open_memory\<rparr>))) (with_pages Map.empty {0, 1, 2, 3})"
      unfolding allocs_ok_def
    proof (intro conjI allI impI)
      fix b n assume b: "with_pages Map.empty {0, 1, 2, 3} b = Some n"
      show "0 < n" using one[OF b] by simp
      show "b + n \<le> nblocks (kernel_heap (power_on\<lparr>memory := open_memory\<rparr>))"
        using one[OF b] four[OF b] by (auto simp: power_on_def nblocks_def four_blocks_def)
    next
      fix i b c assume bc: "taken_by (with_pages Map.empty {0, 1, 2, 3}) i b" "taken_by (with_pages Map.empty {0, 1, 2, 3}) i c"
      have "b = i" if t: "taken_by (with_pages Map.empty {0, 1, 2, 3}) i b" for b
      proof -
        obtain n where n: "with_pages Map.empty {0, 1, 2, 3} b = Some n" "b \<le> i" "i < b + n"
          using t unfolding taken_by_def by blast
        then show ?thesis using one[OF n(1)] by linarith
      qed
      from this[OF bc(1)] this[OF bc(2)] show "b = c" by (rule trans[OF _ sym])
    qed
  next
    fix b n k assume b: "with_pages Map.empty {0, 1, 2, 3} b = Some n" "k < n"
    then have "n = 1" "k = 0" using one[OF b(1)] by auto
    then show "tab_entry (kernel_heap (power_on\<lparr>memory := open_memory\<rparr>)) (memory (power_on\<lparr>memory := open_memory\<rparr>)) (b + k)
        = run_entry n k"
      using four[OF b(1)] by (auto simp: tab_entry_def run_entry_def power_on_def four_blocks_def open_memory_def)
  next
    fix i assume i: "i < nblocks (kernel_heap (power_on\<lparr>memory := open_memory\<rparr>))"
      "\<forall>b. \<not> taken_by (with_pages Map.empty {0, 1, 2, 3}) i b"
    then have "i < 4" by (simp add: power_on_def nblocks_def four_blocks_def)
    then have "taken_by (with_pages Map.empty {0, 1, 2, 3}) i i" by (auto simp: taken_by_def with_pages_def)
    then show "tab_entry (kernel_heap (power_on\<lparr>memory := open_memory\<rparr>)) (memory (power_on\<lparr>memory := open_memory\<rparr>)) i = 0"
      using i(2) by blast
  qed (simp add: power_on_def)
qed

theorem fclose_releases_witness:
  "\<exists>m. fclose file_links 1 (power_on\<lparr>memory := open_memory\<rparr>) = Some (0, power_on\<lparr>memory := m\<rparr>)
     \<and> klive four_blocks (power_on\<lparr>memory := m\<rparr>) Map.empty"
proof -
  have "open_file file_links four_blocks (memory (power_on\<lparr>memory := open_memory\<rparr>)) 1 0 1 2 3"
    by (simp add: open_file_def file_links_def block_addr_def four_blocks_def open_memory_def load32_def)
  from fclose_releases[OF open_memory_live _ this file_links_table[OF unused_four]] show ?thesis by auto
qed

end
