(* ===== verification/FileAccess.thy ===== *)
theory FileAccess
  imports FatVolume Descriptors
begin

text \<open>
  Access to an open file through the two layers that provide it: the FAT16 driver (\<^verbatim>\<open>fat16_seek\<close>, \<^verbatim>\<open>fat16_read\<close>,
  \<^verbatim>\<open>fat16_stat\<close> on a driver descriptor) and \<^verbatim>\<open>file.c\<close> (\<^verbatim>\<open>fseek\<close>, \<^verbatim>\<open>fread\<close>, \<^verbatim>\<open>fstat\<close> on a descriptor number, which call the driver
  through the function pointers of \<^verbatim>\<open>struct filesystem\<close>).  Both are instances of one contract, \<open>open_file_ops\<close>; the second
  is derived from the first.
\<close>

subsection \<open>The contract\<close>

text \<open>
  \<open>opened s h k xs\<close>: the handle \<open>h\<close> is an open file with contents \<open>xs\<close> at position \<open>k\<close>.  \<open>readable k n out\<close>: the provider can
  read \<open>n\<close> bytes from position \<open>k\<close> to \<open>out\<close> in one piece.  \<open>keep\<close>: the bytes that no operation changes.
\<close>

locale open_file_ops =
  fixes seek :: "'h \<Rightarrow> u32 \<Rightarrow> u32 \<Rightarrow> 's \<Rightarrow> (int \<times> 's) option"
    and read :: "'h \<Rightarrow> u32 \<Rightarrow> u32 \<Rightarrow> u32 \<Rightarrow> 's \<Rightarrow> (int \<times> 's) option"
    and stat :: "'h \<Rightarrow> u32 \<Rightarrow> 's \<Rightarrow> (int \<times> 's) option"
    and bytes :: "'s \<Rightarrow> mem"
    and opened :: "'s \<Rightarrow> 'h \<Rightarrow> nat \<Rightarrow> u8 list \<Rightarrow> bool"
    and writable :: "u32 \<Rightarrow> nat \<Rightarrow> bool"
    and readable :: "nat \<Rightarrow> nat \<Rightarrow> u32 \<Rightarrow> bool"
    and keep :: "u32 \<Rightarrow> bool"
  assumes seek_set: "\<lbrakk>opened s h k xs; i < length xs\<rbrakk> \<Longrightarrow>
      \<exists>s'. seek h (of_nat i) SEEK_SET s = Some (0, s') \<and> opened s' h i xs \<and> (\<forall>a. keep a \<longrightarrow> bytes s' a = bytes s a)"
    and seek_cur: "\<lbrakk>opened s h k xs; i < length xs; k + i < 2 ^ 32\<rbrakk> \<Longrightarrow>
      \<exists>s'. seek h (of_nat i) SEEK_CUR s = Some (0, s') \<and> opened s' h (k + i) xs \<and> (\<forall>a. keep a \<longrightarrow> bytes s' a = bytes s a)"
    and seek_past: "\<lbrakk>opened s h k xs; length xs \<le> i; i < 2 ^ 32\<rbrakk> \<Longrightarrow> seek h (of_nat i) w s = Some (- EIO, s)"
    and seek_end: "\<lbrakk>opened s h k xs; i < length xs\<rbrakk> \<Longrightarrow> seek h (of_nat i) SEEK_END s = Some (- EUNIMP, s)"
    and read_at: "\<lbrakk>opened s h k xs; 0 < n; k + n \<le> length xs; writable out n; readable k n out\<rbrakk> \<Longrightarrow>
      \<exists>s'. read h (of_nat n) 1 out s = Some (1, s') \<and> opened s' h k xs
        \<and> (\<forall>j < n. bytes s' (out + of_nat j) = xs ! (k + j)) \<and> (\<forall>a. keep a \<longrightarrow> bytes s' a = bytes s a)"
    and stat_size: "\<lbrakk>opened s h k xs; writable buf 8\<rbrakk> \<Longrightarrow>
      \<exists>s'. stat h buf s = Some (0, s') \<and> opened s' h k xs \<and> load32 (bytes s') (buf + 4) = of_nat (length xs)
        \<and> (\<forall>a. keep a \<longrightarrow> bytes s' a = bytes s a)"
begin

lemma seek_then_read:
  assumes "opened s h k xs" "0 < n" "i + n \<le> length xs" "writable out n" "readable i n out"
  shows "\<exists>s1 s2. seek h (of_nat i) SEEK_SET s = Some (0, s1) \<and> read h (of_nat n) 1 out s1 = Some (1, s2)
    \<and> (\<forall>j < n. bytes s2 (out + of_nat j) = xs ! (i + j)) \<and> opened s2 h i xs"
proof -
  have "i < length xs" using assms(2,3) by simp
  from seek_set[OF assms(1) this] obtain s1 where s1: "seek h (of_nat i) SEEK_SET s = Some (0, s1)" "opened s1 h i xs"
    by blast
  from read_at[OF s1(2) assms(2-5)] s1(1) show ?thesis by blast
qed

lemma skip_then_read:
  assumes "opened s h k xs" "0 < n" "k + i + n \<le> length xs" "length xs < 2 ^ 32" "writable out n" "readable (k + i) n out"
  shows "\<exists>s1 s2. seek h (of_nat i) SEEK_CUR s = Some (0, s1) \<and> read h (of_nat n) 1 out s1 = Some (1, s2)
    \<and> (\<forall>j < n. bytes s2 (out + of_nat j) = xs ! (k + i + j)) \<and> opened s2 h (k + i) xs"
proof -
  have "i < length xs" "k + i < 2 ^ 32" using assms(2,3,4) by simp_all
  from seek_cur[OF assms(1) this] obtain s1 where s1: "seek h (of_nat i) SEEK_CUR s = Some (0, s1)" "opened s1 h (k + i) xs"
    by blast
  from read_at[OF s1(2) assms(2,3,5,6)] s1(1) show ?thesis by blast
qed

text \<open>Reading does not move the position: a second read returns the same bytes.\<close>

lemma read_twice:
  assumes "opened s h k xs" "0 < n" "k + n \<le> length xs" "writable out n" "readable k n out" "writable out' n" "readable k n out'"
  shows "\<exists>s1 s2. read h (of_nat n) 1 out s = Some (1, s1) \<and> read h (of_nat n) 1 out' s1 = Some (1, s2)
    \<and> (\<forall>j < n. bytes s1 (out + of_nat j) = xs ! (k + j) \<and> bytes s2 (out' + of_nat j) = xs ! (k + j))
    \<and> opened s2 h k xs"
proof -
  from read_at[OF assms(1-5)] obtain s1 where s1: "read h (of_nat n) 1 out s = Some (1, s1)" "opened s1 h k xs"
    "\<forall>j < n. bytes s1 (out + of_nat j) = xs ! (k + j)" by blast
  from read_at[OF s1(2) assms(2,3,6,7)] obtain s2 where "read h (of_nat n) 1 out' s1 = Some (1, s2)" "opened s2 h k xs"
    "\<forall>j < n. bytes s2 (out' + of_nat j) = xs ! (k + j)" by blast
  then show ?thesis using s1 by blast
qed

text \<open>What a loader does: ask for the size, then read from the start.\<close>

lemma stat_then_read_all:
  assumes "opened s h 0 xs" "xs \<noteq> []" "writable buf 8" "writable out (length xs)" "readable 0 (length xs) out"
  shows "\<exists>s1 s2. stat h buf s = Some (0, s1) \<and> read h (load32 (bytes s1) (buf + 4)) 1 out s1 = Some (1, s2)
    \<and> (\<forall>j < length xs. bytes s2 (out + of_nat j) = xs ! j) \<and> opened s2 h 0 xs"
proof -
  from stat_size[OF assms(1,3)] obtain s1 where s1: "stat h buf s = Some (0, s1)" "opened s1 h 0 xs"
    "load32 (bytes s1) (buf + 4) = of_nat (length xs)" by blast
  from read_at[OF s1(2) _ _ assms(4,5)] assms(2) obtain s2 where
    "read h (of_nat (length xs)) 1 out s1 = Some (1, s2)" "opened s2 h 0 xs"
    "\<forall>j < length xs. bytes s2 (out + of_nat j) = xs ! (0 + j)" by auto
  then show ?thesis using s1 by auto
qed

end

subsection \<open>An open FAT16 file\<close>

record fat_file =
  vol_private :: u32
  vol_stream :: u32
  vol_cluster :: nat
  vol_data :: nat
  file_desc :: u32
  file_item :: u32
  file_entry :: u32
  file_cluster :: nat

definition file_cells :: "'l fslinks_scheme \<Rightarrow> fat_file \<Rightarrow> (u32 \<times> nat) set" where
  "file_cells lm L =
     {(disk_at lm + 4, 4), (disk_at lm + 16, 4), (vol_private L + 13, 1), (vol_private L + 76, 4), (vol_private L + 80, 4),
      (vol_stream L + 4, 4), (file_desc L, 4), (file_item L, 4), (file_item L + 4, 4), (file_entry L + 24, 2),
      (file_entry L + 26, 2), (file_entry L + 28, 4)}"

definition kept :: "(u32 \<Rightarrow> bool) \<Rightarrow> (u32 \<times> nat) set \<Rightarrow> bool" where
  "kept K C \<longleftrightarrow> (\<forall>(p, n) \<in> C. \<forall>a. in_region p n a \<longrightarrow> K a)"

text \<open>
  The driver's objects lie in \<open>K\<close>, apart from the position cell of the descriptor, the position of the stream and the
  sector buffers, which are the only driver memory that accesses write.
\<close>

definition fat_layout :: "'l fslinks_scheme \<Rightarrow> fat_file \<Rightarrow> (u32 \<Rightarrow> bool) \<Rightarrow> bool" where
  "fat_layout lm L K \<longleftrightarrow> kept K (file_cells lm L)
     \<and> (\<forall>a. K a \<or> in_region (file_desc L + 4) 4 a \<longrightarrow>
          \<not> in_region (vol_stream L) 4 a \<and> (\<forall>d. \<not> in_region (stream_buf_at lm d) 512 a))
     \<and> (\<forall>a. K a \<longrightarrow> \<not> in_region (file_desc L + 4) 4 a)
     \<and> 0 < vol_cluster L \<and> vol_cluster L < 256 \<and> 2 \<le> file_cluster L
     \<and> 512 * (vol_data L + (file_cluster L - 2) * vol_cluster L) + 512 * vol_cluster L < 2 ^ 31"

definition fat_objects :: "'l fslinks_scheme \<Rightarrow> fat_file \<Rightarrow> mem \<Rightarrow> nat \<Rightarrow> bool" where
  "fat_objects lm L m sz \<longleftrightarrow> load32 m (disk_at lm + 4) = 512 \<and> load32 m (disk_at lm + 16) = vol_private L
     \<and> m (vol_private L + 13) = of_nat (vol_cluster L) \<and> load32 m (vol_private L + 76) = of_nat (vol_data L)
     \<and> load32 m (vol_private L + 80) = vol_stream L \<and> load32 m (vol_stream L + 4) = disk_at lm
     \<and> load32 m (file_desc L) = file_item L \<and> load32 m (file_item L) = file_entry L
     \<and> load32 m (file_item L + 4) = FAT_ITEM_TYPE_FILE
     \<and> fat16_get_first_cluster_for_directory_item (file_entry L) m = of_nat (file_cluster L)
     \<and> load32 m (file_entry L + 28) = of_nat sz"

definition fat_opened ::
    "'l fslinks_scheme \<Rightarrow> 'd ports \<Rightarrow> ('d \<Rightarrow> bool) \<Rightarrow> (nat \<Rightarrow> nat \<Rightarrow> u8) \<Rightarrow> fat_file \<Rightarrow> (u32 \<Rightarrow> bool) \<Rightarrow>
     ('d, 'a) iostate_scheme \<Rightarrow> u32 \<Rightarrow> nat \<Rightarrow> u8 list \<Rightarrow> bool" where
  "fat_opened lm hw idle img L K s h k xs \<longleftrightarrow> ata_disk hw idle img \<and> fat_layout lm L K \<and> h = file_desc L \<and> idle (device s)
     \<and> fat_objects lm L (memory s) (length xs) \<and> length xs < 2 ^ 32 \<and> load32 (memory s) (file_desc L + 4) = of_nat k
     \<and> (\<forall>i < length xs. i < 512 * vol_cluster L \<longrightarrow>
          xs ! i = file_byte img (vol_cluster L) (vol_data L) (file_cluster L) i)"

definition fat_writable :: "fat_file \<Rightarrow> (u32 \<Rightarrow> bool) \<Rightarrow> u32 \<Rightarrow> nat \<Rightarrow> bool" where
  "fat_writable L K out n \<longleftrightarrow> (\<forall>a. in_region out n a \<longrightarrow> \<not> K a \<and> \<not> in_region (file_desc L + 4) 4 a)"

definition fat_readable :: "'l fslinks_scheme \<Rightarrow> fat_file \<Rightarrow> nat \<Rightarrow> nat \<Rightarrow> u32 \<Rightarrow> bool" where
  "fat_readable lm L k n out \<longleftrightarrow> k + n \<le> 512 * vol_cluster L \<and> (k mod 512 = 0 \<or> k mod 512 + n \<le> 512)
     \<and> read_areas (stream_buf_at lm) (vol_stream L) out n"

lemma kept_load32: "kept K C \<Longrightarrow> (p, 4) \<in> C \<Longrightarrow> (\<And>a. K a \<Longrightarrow> m' a = m a) \<Longrightarrow> load32 m' p = load32 m p"
  by (rule load32_cong) (auto simp: kept_def)

lemma kept_load16: "kept K C \<Longrightarrow> (p, 2) \<in> C \<Longrightarrow> (\<And>a. K a \<Longrightarrow> m' a = m a) \<Longrightarrow> load16 m' p = load16 m p"
  by (rule load16_cong) (auto simp: kept_def)

lemma kept_byte: "kept K C \<Longrightarrow> (p, 1) \<in> C \<Longrightarrow> (\<And>a. K a \<Longrightarrow> m' a = m a) \<Longrightarrow> m' p = m p"
  by (auto simp: kept_def)

lemma fat_objects_cong:
  assumes k: "kept K (file_cells lm L)" and same: "\<And>a. K a \<Longrightarrow> m' a = m a"
  shows "fat_objects lm L m' sz = fat_objects lm L m sz"
proof -
  have l: "load32 m' p = load32 m p" if "(p, 4) \<in> file_cells lm L" for p by (rule kept_load32[OF k that same])
  have w: "load16 m' p = load16 m p" if "(p, 2) \<in> file_cells lm L" for p by (rule kept_load16[OF k that same])
  have b: "m' p = m p" if "(p, 1) \<in> file_cells lm L" for p by (rule kept_byte[OF k that same])
  show ?thesis
    unfolding fat_objects_def fat16_get_first_cluster_for_directory_item_def
    by (simp add: l w b file_cells_def)
qed

lemma fat_opened_step:
  assumes "fat_opened lm hw idle img L K s h k xs" "idle (device s')" "\<And>a. K a \<Longrightarrow> memory s' a = memory s a"
    and "load32 (memory s') (h + 4) = of_nat j"
  shows "fat_opened lm hw idle img L K s' h j xs"
proof -
  have k: "kept K (file_cells lm L)" using assms(1) by (simp add: fat_opened_def fat_layout_def)
  from fat_objects_cong[OF k, of "memory s'" "memory s"] assms show ?thesis by (simp add: fat_opened_def)
qed

lemma fat_move:
  assumes "fat_opened lm hw idle img L K s h k xs"
  shows "fat_opened lm hw idle img L K (s\<lparr>memory := store32 (memory s) (h + 4) (of_nat j)\<rparr>) h j xs"
    and "K a \<Longrightarrow> store32 (memory s) (h + 4) v a = memory s a"
proof -
  have same: "store32 (memory s) (h + 4) v a = memory s a" if "K a" for a v
    using assms that by (auto simp: fat_opened_def fat_layout_def intro!: store32_outside)
  then show "K a \<Longrightarrow> store32 (memory s) (h + 4) v a = memory s a" .
  show "fat_opened lm hw idle img L K (s\<lparr>memory := store32 (memory s) (h + 4) (of_nat j)\<rparr>) h j xs"
    by (rule fat_opened_step[OF assms]) (use assms same in \<open>auto simp: fat_opened_def\<close>)
qed

text \<open>The bound check of \<^verbatim>\<open>fat16_seek\<close> on the file's size.\<close>

lemma fat_seek_branches:
  assumes "fat_opened lm hw idle img L K s h k xs" "i < 2 ^ 32"
  shows "fat16_seek h (of_nat i) w s =
    (if length xs \<le> i then (- EIO, s)
     else if w = SEEK_SET then (0, s\<lparr>memory := store32 (memory s) (h + 4) (of_nat i)\<rparr>)
     else if w = SEEK_END then (- EUNIMP, s)
     else if w = SEEK_CUR then (0, s\<lparr>memory := store32 (memory s) (h + 4) (of_nat (k + i))\<rparr>)
     else (- EINVARG, s))"
proof -
  have "unat (of_nat i :: u32) = i" "unat (of_nat (length xs) :: u32) = length xs"
    using assms by (auto simp: fat_opened_def intro!: unat_of_nat_u32)
  then have "(of_nat (length xs) :: u32) \<le> of_nat i \<longleftrightarrow> length xs \<le> i" by (simp add: word_le_nat_alt)
  then show ?thesis
    using assms(1) by (simp add: fat16_seek_def fat_opened_def fat_objects_def Let_def)
qed

lemma fat_opened_data_area: "fat_opened lm hw idle img L K s h k xs \<Longrightarrow>
    data_area lm (memory s) (vol_stream L) (vol_cluster L) (vol_data L)"
  by (auto simp: fat_opened_def fat_objects_def fat_layout_def data_area_def volume_at_def)

lemma fat_read_exact:
  assumes op: "fat_opened lm hw idle img L K s h k xs" and n: "0 < n" "k + n \<le> length xs"
    and out: "fat_writable L K out n" "fat_readable lm L k n out"
  shows "\<exists>d' m'. fat16_read lm hw (disk_at lm) h (of_nat n) 1 out s = Some (1, s\<lparr>device := d', memory := m'\<rparr>)
    \<and> fat_opened lm hw idle img L K (s\<lparr>device := d', memory := m'\<rparr>) h k xs
    \<and> (\<forall>j < n. m' (out + of_nat j) = xs ! (k + j)) \<and> (\<forall>a. K a \<longrightarrow> m' a = memory s a)"
proof -
  let ?fb = "file_byte img (vol_cluster L) (vol_data L) (file_cluster L)"
  have o: "ata_disk hw idle img" "idle (device s)" "load32 (memory s) (load32 (memory s) h) = file_entry L"
    "load32 (memory s) (h + 4) = of_nat k" "h = file_desc L"
    "fat16_get_first_cluster_for_directory_item (file_entry L) (memory s) = of_nat (file_cluster L)" "2 \<le> file_cluster L"
    "512 * (vol_data L + (file_cluster L - 2) * vol_cluster L) + 512 * vol_cluster L < 2 ^ 31"
    and xs: "\<And>i. i < length xs \<Longrightarrow> i < 512 * vol_cluster L \<Longrightarrow> xs ! i = ?fb i"
    and lay: "fat_layout lm L K"
    using op by (simp_all add: fat_opened_def fat_objects_def fat_layout_def)
  have r: "k + n \<le> 512 * vol_cluster L" "k mod 512 = 0 \<or> k mod 512 + n \<le> 512"
    "read_areas (stream_buf_at lm) (vol_stream L) out n" using out(2) by (simp_all add: fat_readable_def)
  obtain d' m' where rd: "idle d'"
    "fat16_read lm hw (disk_at lm) h (of_nat n) 1 out s = Some (1, s\<lparr>device := d', memory := m'\<rparr>)"
    "\<forall>j < n. m' (out + of_nat j) = ?fb (k + j)"
    "\<And>a. \<not> in_region out n a \<Longrightarrow> \<not> in_region (vol_stream L) 4 a \<Longrightarrow> (\<forall>d. \<not> in_region (stream_buf_at lm d) 512 a)
       \<Longrightarrow> m' a = memory s a"
    using read_element_ok[OF o(1,2) fat_opened_data_area[OF op] o(3,4,6,7,8) n(1) r] by blast
  have same: "m' a = memory s a" if "K a \<or> in_region (file_desc L + 4) 4 a" for a
    using rd(4)[of a] lay out(1) that by (auto simp: fat_layout_def fat_writable_def)
  let ?s = "s\<lparr>device := d', memory := m'\<rparr>"
  have "load32 m' (h + 4) = load32 (memory s) (h + 4)" using same o(5) by (intro load32_cong) blast
  then have "fat_opened lm hw idle img L K ?s h k xs"
    by (intro fat_opened_step[OF op]) (use rd(1) same o(4) in auto)
  moreover have "\<forall>j < n. m' (out + of_nat j) = xs ! (k + j)" using rd(3) xs n(2) r(1) by simp
  ultimately show ?thesis using rd(2) same by auto
qed

lemma fat_read_at:
  assumes "fat_opened lm hw idle img L K s h k xs" "0 < n" "k + n \<le> length xs" "fat_writable L K out n" "fat_readable lm L k n out"
  shows "\<exists>s'. fat16_read lm hw (disk_at lm) h (of_nat n) 1 out s = Some (1, s') \<and> fat_opened lm hw idle img L K s' h k xs
    \<and> (\<forall>j < n. memory s' (out + of_nat j) = xs ! (k + j)) \<and> (\<forall>a. K a \<longrightarrow> memory s' a = memory s a)"
  using fat_read_exact[OF assms] by fastforce

lemma fat_stat_size:
  assumes op: "fat_opened lm hw idle img L K s h k xs" and buf: "fat_writable L K buf 8"
  shows "\<exists>s'. fat16_stat (disk_at lm) h buf s = (0, s') \<and> fat_opened lm hw idle img L K s' h k xs
    \<and> load32 (memory s') (buf + 4) = of_nat (length xs) \<and> (\<forall>a. K a \<longrightarrow> memory s' a = memory s a)"
proof -
  have o: "load32 (memory s) (h + 4) = of_nat k" "h = file_desc L" "idle (device s)"
    "load32 (memory s) h = file_item L" "load32 (memory s) (file_item L + 4) = 1" "load32 (memory s) (file_item L) = file_entry L"
    "load32 (memory s) (file_entry L + 28) = of_nat (length xs)"
    using op by (simp_all add: fat_opened_def fat_objects_def)
  obtain v where st: "fat16_stat (disk_at lm) h buf s =
      (0, s\<lparr>memory := store32 (store32 (memory s) (buf + 4) (of_nat (length xs))) buf v\<rparr>)"
  proof -
    let ?m1 = "store32 (memory s) (buf + 4) (of_nat (length xs))"
    have "store32 (store32 ?m1 buf 0) buf x = store32 ?m1 buf x" for x by (simp add: store32_def fun_eq_iff)
    then show ?thesis
      using o that[of 0] that[of 1] by (cases "item_attribute (store32 ?m1 buf 0) (file_entry L) AND 1 = 0")
        (simp_all add: fat16_stat_def Let_def)
  qed
  define m' where "m' = store32 (store32 (memory s) (buf + 4) (of_nat (length xs))) buf v"
  have apart: "in_region buf 8 a" if "in_region (buf + 4) 4 a \<or> in_region buf 4 a" for a
    using that in_region_sub[of buf 4 4 a 8] by (auto simp: in_region_def)
  have same: "m' a = memory s a" if "K a \<or> in_region (file_desc L + 4) 4 a" for a
  proof -
    have "\<not> in_region buf 8 a" using buf that by (auto simp: fat_writable_def)
    then have "\<not> in_region (buf + 4) 4 a" "\<not> in_region buf 4 a" using apart[of a] by blast+
    then show ?thesis by (simp add: m'_def store32_outside)
  qed
  have "load32 m' (h + 4) = load32 (memory s) (h + 4)" using same o(2) by (intro load32_cong) blast
  then have "fat_opened lm hw idle img L K (s\<lparr>memory := m'\<rparr>) h k xs"
    by (intro fat_opened_step[OF op]) (use same o in auto)
  moreover have "load32 m' (buf + 4) = of_nat (length xs)"
    by (simp add: m'_def load32_store32_other disjoint_regions_def)
  ultimately show ?thesis using st same unfolding m'_def[symmetric] by auto
qed

interpretation fat: open_file_ops "\<lambda>h off w s. Some (fat16_seek h off w s)" "fat16_read lm hw (disk_at lm)"
  "\<lambda>h buf s. Some (fat16_stat (disk_at lm) h buf s)" memory "fat_opened lm hw idle img L K" "fat_writable L K"
  "fat_readable lm L" K for lm hw idle img L K
proof (unfold_locales, goal_cases)
  case (1 s h k xs i)
  then have "i < 2 ^ 32" by (simp add: fat_opened_def)
  then show ?case using fat_seek_branches[OF 1(1)] 1 fat_move[OF 1(1)] by auto
next
  case (2 s h k xs i)
  then have "i < 2 ^ 32" by (simp add: fat_opened_def)
  then show ?case using fat_seek_branches[OF 2(1)] 2 fat_move(1)[OF 2(1), of "k + i"] fat_move(2)[OF 2(1)] by auto
next
  case (3 s h k xs i w)
  then show ?case using fat_seek_branches[OF 3(1)] by simp
next
  case (4 s h k xs i)
  then have "i < 2 ^ 32" by (simp add: fat_opened_def)
  then show ?case using fat_seek_branches[OF 4(1)] 4 by simp
next
  case (5 s h k xs n out)
  then show ?case by (intro fat_read_at)
next
  case (6 s h k xs buf)
  then show ?case using fat_stat_size[OF 6] by auto
qed

subsection \<open>The same file behind a descriptor number\<close>

text \<open>
  Descriptor \<open>fd\<close> at \<open>desc\<close> belongs to the FAT16 file system object, the kernel's disk and the driver's descriptor.
\<close>

definition fd_cells :: "'l filelinks_scheme \<Rightarrow> int \<Rightarrow> u32 \<Rightarrow> (u32 \<times> nat) set" where
  "fd_cells lm fd desc =
     {(descriptor_slot lm (nat (fd - 1)), 4), (desc + 4, 4), (desc + 8, 4), (desc + 12, 4),
      (fat16_fs_at lm + 8, 4), (fat16_fs_at lm + 12, 4), (fat16_fs_at lm + 16, 4)}"

definition fd_objects :: "'l filelinks_scheme \<Rightarrow> fat_file \<Rightarrow> mem \<Rightarrow> int \<Rightarrow> u32 \<Rightarrow> bool" where
  "fd_objects lm L m fd desc \<longleftrightarrow> load32 m (descriptor_slot lm (nat (fd - 1))) = desc \<and> load32 m (desc + 4) = fat16_fs_at lm
     \<and> load32 m (desc + 8) = file_desc L \<and> load32 m (desc + 12) = disk_at lm
     \<and> load32 m (fat16_fs_at lm + 8) = fat16_read_at lm \<and> load32 m (fat16_fs_at lm + 12) = fat16_seek_at lm
     \<and> load32 m (fat16_fs_at lm + 16) = fat16_stat_at lm"

definition fd_opened ::
    "'l filelinks_scheme \<Rightarrow> 'd ports \<Rightarrow> ('d \<Rightarrow> bool) \<Rightarrow> (nat \<Rightarrow> nat \<Rightarrow> u8) \<Rightarrow> fat_file \<Rightarrow> (u32 \<Rightarrow> bool) \<Rightarrow> u32 \<Rightarrow>
     ('d, 'a) iostate_scheme \<Rightarrow> int \<Rightarrow> nat \<Rightarrow> u8 list \<Rightarrow> bool" where
  "fd_opened lm hw idle img L K desc s fd k xs \<longleftrightarrow> fat_opened lm hw idle img L K s (file_desc L) k xs
     \<and> 0 < fd \<and> fd < 512 \<and> desc \<noteq> NULL \<and> kept K (fd_cells lm fd desc) \<and> fd_objects lm L (memory s) fd desc"

lemma fd_objects_cong:
  assumes k: "kept K (fd_cells lm fd desc)" and same: "\<And>a. K a \<Longrightarrow> m' a = m a"
  shows "fd_objects lm L m' fd desc = fd_objects lm L m fd desc"
proof -
  have l: "load32 m' p = load32 m p" if "(p, 4) \<in> fd_cells lm fd desc" for p by (rule kept_load32[OF k that same])
  show ?thesis unfolding fd_objects_def by (simp add: l fd_cells_def)
qed

lemma fd_opened_step:
  assumes "fd_opened lm hw idle img L K desc s fd k xs" "fat_opened lm hw idle img L K s' (file_desc L) j xs"
    and "\<forall>a. K a \<longrightarrow> memory s' a = memory s a"
  shows "fd_opened lm hw idle img L K desc s' fd j xs"
  using assms fd_objects_cong[of K lm fd desc "memory s'" "memory s" L] by (simp add: fd_opened_def)

lemma fd_calls:
  assumes "fd_opened lm hw idle img L K desc s fd k xs"
  shows "fseek lm fd (sint off) w s = Some (fat16_seek (file_desc L) off w s)"
    and "sz \<noteq> 0 \<Longrightarrow> nmemb \<noteq> 0 \<Longrightarrow> fread lm hw out sz nmemb fd s = fat16_read lm hw (disk_at lm) (file_desc L) sz nmemb out s"
    and "fstat lm fd buf s = Some (fat16_stat (disk_at lm) (file_desc L) buf s)"
proof -
  have get: "file_get_descriptor lm fd (memory s) = desc"
    using assms unfolding get_descriptor_slot fd_opened_def fd_objects_def by presburger
  show "fseek lm fd (sint off) w s = Some (fat16_seek (file_desc L) off w s)"
    and "sz \<noteq> 0 \<Longrightarrow> nmemb \<noteq> 0 \<Longrightarrow> fread lm hw out sz nmemb fd s = fat16_read lm hw (disk_at lm) (file_desc L) sz nmemb out s"
    and "fstat lm fd buf s = Some (fat16_stat (disk_at lm) (file_desc L) buf s)"
    using assms
    by (simp_all add: get fd_opened_def fd_objects_def fseek_def fread_def fstat_def filesystem_seek_def
        filesystem_read_def filesystem_stat_def Let_def)
qed

lemmas fd_openedD = fd_opened_def[THEN iffD1, THEN conjunct1]

interpretation fd: open_file_ops "\<lambda>fd off w s. fseek lm fd (sint off) w s" "\<lambda>fd sz nmemb out s. fread lm hw out sz nmemb fd s"
  "fstat lm" memory "fd_opened lm hw idle img L K desc" "fat_writable L K" "fat_readable lm L" K
  for lm hw idle img L K desc
proof (unfold_locales, goal_cases)
  case (1 s fd k xs i)
  with fat.seek_set[OF fd_openedD[OF 1(1)], of i] show ?case
    using fd_calls(1)[OF 1(1)] fd_opened_step[OF 1(1)] by fastforce
next
  case (2 s fd k xs i)
  with fat.seek_cur[OF fd_openedD[OF 2(1)], of i] show ?case
    using fd_calls(1)[OF 2(1)] fd_opened_step[OF 2(1)] by fastforce
next
  case (3 s fd k xs i w)
  with fat.seek_past[OF fd_openedD[OF 3(1)], of i w] show ?case using fd_calls(1)[OF 3(1)] by simp
next
  case (4 s fd k xs i)
  with fat.seek_end[OF fd_openedD[OF 4(1)], of i] show ?case using fd_calls(1)[OF 4(1)] by simp
next
  case (5 s fd k xs n out)
  have "n < 2 ^ 32" using 5 by (simp add: fd_opened_def fat_opened_def)
  then have "(of_nat n :: u32) \<noteq> 0" using 5(2) by (metis unat_0 unat_of_nat_u32 less_numeral_extra(3))
  with fat.read_at[OF fd_openedD[OF 5(1)] 5(2-5)] show ?case
    using fd_calls(2)[OF 5(1)] fd_opened_step[OF 5(1)] by fastforce
next
  case (6 s fd k xs buf)
  with fat.stat_size[OF fd_openedD[OF 6(1)] 6(2)] show ?case
    using fd_calls(3)[OF 6(1)] fd_opened_step[OF 6(1)] by fastforce
qed

subsection \<open>Properties\<close>

lemma readable_sint: "fat_opened lm hw idle img L K s h k xs \<Longrightarrow> fat_readable lm L i n out \<Longrightarrow> sint (of_nat i :: u32) = int i"
  by (intro sint_small_u32) (simp add: fat_opened_def fat_layout_def fat_readable_def)


text \<open>
  C16.  Every outcome of \<^verbatim>\<open>fseek\<close> on an open file: offsets from the size of the file on are refused with \<^verbatim>\<open>-EIO\<close>, whatever the mode;
  \<^verbatim>\<open>SEEK_SET\<close> and \<^verbatim>\<open>SEEK_CUR\<close> set and move the position (modulo \<open>2\<^sup>3\<^sup>2\<close>, so \<^verbatim>\<open>SEEK_CUR\<close> may leave the file), \<^verbatim>\<open>SEEK_END\<close> is
  \<^verbatim>\<open>-EUNIMP\<close> and any other mode \<^verbatim>\<open>-EINVARG\<close>; an error changes nothing.
\<close>

theorem fseek_outcomes:
  assumes "fd_opened lm hw idle img L K desc s fd k xs" "off < 2 ^ 32"
  shows "fseek lm fd (sint (of_nat off :: u32)) w s = Some
    (if length xs \<le> off then (- EIO, s)
     else if w = SEEK_SET then (0, s\<lparr>memory := store32 (memory s) (file_desc L + 4) (of_nat off)\<rparr>)
     else if w = SEEK_CUR then (0, s\<lparr>memory := store32 (memory s) (file_desc L + 4) (of_nat (k + off))\<rparr>)
     else if w = SEEK_END then (- EUNIMP, s) else (- EINVARG, s))"
  unfolding fd_calls(1)[OF assms(1)] fat_seek_branches[OF fd_openedD[OF assms(1)] assms(2)] by auto

text \<open>
  The loaders' sequence on a freshly opened file that fits into one cluster: \<^verbatim>\<open>fstat\<close> returns the size, and \<^verbatim>\<open>fread\<close> of that many
  bytes loads the whole file.
\<close>

theorem fstat_fread_loads:
  assumes "fd_opened lm hw idle img L K desc s fd 0 xs" "xs \<noteq> []"
    and "fat_writable L K buf 8" "fat_writable L K out (length xs)" "fat_readable lm L 0 (length xs) out"
  shows "\<exists>s1 s2. fstat lm fd buf s = Some (0, s1)
    \<and> fread lm hw out (load32 (memory s1) (buf + 4)) 1 fd s1 = Some (1, s2)
    \<and> (\<forall>j < length xs. memory s2 (out + of_nat j) = xs ! j) \<and> fd_opened lm hw idle img L K desc s2 fd 0 xs"
  by (rule fd.stat_then_read_all[OF assms])

subsection \<open>An instance\<close>

text \<open>
  The file of the example volume (\<open>volume_memory\<close>: clusters of two sectors, first cluster 3) with 600 bytes, open as
  descriptor 1.
\<close>

definition access_links :: filelinks where
  "access_links = file_links\<lparr>fat16_fs_at := 0x204000, stream_buf_at := \<lambda>_. 0x9000\<rparr>"

definition access_file :: fat_file where
  "access_file = \<lparr>vol_private = 0x300000, vol_stream = 0x4000, vol_cluster = 2, vol_data = 10, file_desc = 0x6000,
     file_item = 0x6008, file_entry = 0x6100, file_cluster = 3\<rparr>"

definition access_memory :: mem where
  "access_memory = volume_memory(0x600C := 1, 0x6005 := 0, 0x611C := 0x58, 0x611D := 2, 0x8001 := 0x70, 0x7006 := 0x20, 0x7005 := 0x40,
     0x7009 := 0x60, 0x700E := 0x20, 0x700D := 0x20, 0x204009 := 3, 0x20400A := 0x11, 0x20400D := 4, 0x20400E := 0x11,
     0x204011 := 5, 0x204012 := 0x11)"

definition access_cells :: "(u32 \<times> nat) set" where
  "access_cells = file_cells access_links access_file \<union> fd_cells access_links 1 0x7000"

definition access_kept :: "u32 \<Rightarrow> bool" where
  "access_kept a \<longleftrightarrow> (\<exists>(p, n) \<in> access_cells. in_region p n a)"

definition access_image :: "nat \<Rightarrow> nat \<Rightarrow> u8" where
  "access_image sec k = of_nat (sec + k)"

definition access_contents :: "u8 list" where
  "access_contents = map (file_byte access_image 2 10 3) [0..<600]"

definition access_machine :: "drive iostate" where
  "access_machine = demo_machine\<lparr>memory := access_memory\<rparr>"

lemma kept_apart: "\<forall>(p, n) \<in> access_cells. disjoint_regions p n q j \<Longrightarrow> access_kept a \<Longrightarrow> \<not> in_region q j a"
  using disjoint_regionsD[of _ _ q j a] by (fastforce simp: access_kept_def)

lemma access_cells_eq:
  "access_cells = {(0x202004, 4), (0x202010, 4), (0x30000D, 1), (0x30004C, 4), (0x300050, 4), (0x4004, 4), (0x6000, 4),
     (0x6008, 4), (0x600C, 4), (0x6118, 2), (0x611A, 2), (0x611C, 4), (0x8000, 4), (0x7004, 4), (0x7008, 4), (0x700C, 4),
     (0x204008, 4), (0x20400C, 4), (0x204010, 4)}"
  by (simp add: access_cells_def file_cells_def fd_cells_def access_links_def file_links_def access_file_def insert_commute)

lemma access_layout: "fat_layout access_links access_file access_kept"
proof -
  have "kept access_kept (file_cells access_links access_file)"
    by (auto simp: kept_def access_kept_def access_cells_def)
  moreover have "\<not> in_region 0x4000 4 a" "\<not> in_region 0x9000 512 a" "\<not> in_region 0x6004 4 a" if "access_kept a" for a
    by (rule kept_apart[OF _ that]; simp add: access_cells_eq disjoint_regions_def)+
  moreover have "\<not> in_region 0x4000 4 a" "\<not> in_region 0x9000 512 a" if "in_region 0x6004 4 a" for a
    using that by (simp_all add: in_region_iff_nat)
  ultimately show ?thesis
    by (auto simp: fat_layout_def access_links_def file_links_def access_file_def)
qed

lemma access_cell_values:
  "load32 access_memory 0x202004 = 512" "load32 access_memory 0x202010 = 0x300000" "access_memory 0x30000D = 2"
  "load32 access_memory 0x30004C = 10" "load32 access_memory 0x300050 = 0x4000" "load32 access_memory 0x4004 = 0x202000"
  "load32 access_memory 0x6000 = 0x6008" "load32 access_memory 0x6004 = 0" "load32 access_memory 0x6008 = 0x6100"
  "load32 access_memory 0x600C = 1" "load16 access_memory 0x6118 = 0" "load16 access_memory 0x611A = 3"
  "load32 access_memory 0x611C = 600" "load32 access_memory 0x8000 = 0x7000" "load32 access_memory 0x7004 = 0x204000"
  "load32 access_memory 0x7008 = 0x6000" "load32 access_memory 0x700C = 0x202000"
  "load32 access_memory 0x204008 = 0x110300" "load32 access_memory 0x20400C = 0x110400" "load32 access_memory 0x204010 = 0x110500"
  by (simp_all add: access_memory_def volume_memory_def load32_def load16_def)

lemma access_opened:
  "fd_opened access_links (drive_ports access_image) (\<lambda>d. pending d = []) access_image access_file access_kept 0x7000
     access_machine 1 0 access_contents"
proof -
  have "kept access_kept (fd_cells access_links 1 0x7000)"
    by (auto simp: kept_def access_kept_def access_cells_def)
  moreover have "fat_objects access_links access_file access_memory 600"
    by (simp add: fat_objects_def access_links_def file_links_def access_file_def access_cell_values
        fat16_get_first_cluster_for_directory_item_def)
  moreover have "fd_objects access_links access_file access_memory 1 0x7000"
    by (simp add: fd_objects_def access_links_def file_links_def access_file_def access_cell_values)
  ultimately show ?thesis
    using drive_is_ata_disk[of access_image] access_layout
    by (simp add: fd_opened_def fat_opened_def access_machine_def demo_machine_def access_contents_def access_cell_values)
       (simp add: access_file_def access_cell_values)
qed

lemma access_writable: "fat_writable access_file access_kept p n"
  if "\<forall>(q, j) \<in> access_cells. disjoint_regions q j p n" "disjoint_regions 0x6004 4 p n"
  using kept_apart[OF that(1)] disjoint_regionsD[OF that(2)] by (auto simp: fat_writable_def access_file_def)

lemma access_readable: "fat_readable access_links access_file i n 0x5300" if "i + n \<le> 1024" "0 < n" "n < 700" "i mod 512 = 0 \<or> i mod 512 + n \<le> 512"
  using that by (auto simp: fat_readable_def access_file_def access_links_def file_links_def read_areas_def
      intro!: disjoint_regionsI_nat)


theorem fseek_outcomes_witness:
  "fseek access_links 1 600 SEEK_SET access_machine = Some (- EIO, access_machine)
     \<and> (600 :: nat) < 2 ^ 32"
  using fseek_outcomes[OF access_opened, of 600 0] by (simp add: access_contents_def)

theorem fstat_fread_loads_witness:
  "\<exists>s1 s2. fstat access_links 1 0x5000 access_machine = Some (0, s1)
     \<and> fread access_links (drive_ports access_image) 0x5300 (load32 (memory s1) 0x5004) 1 1 s1 = Some (1, s2)
     \<and> memory s2 0x5301 = 13"
proof -
  have w: "fat_writable access_file access_kept 0x5300 600" "fat_writable access_file access_kept 0x5000 8"
    by (rule access_writable; simp add: access_cells_eq disjoint_regions_def)+
  have len: "length access_contents = 600" by (simp add: access_contents_def)
  then have "access_contents \<noteq> []" by auto
  from fstat_fread_loads[OF access_opened this w(2), of "0x5300"] w(1) access_readable[of 0 600] obtain s1 s2 where
    "fstat access_links 1 0x5000 access_machine = Some (0, s1)"
    "fread access_links (drive_ports access_image) 0x5300 (load32 (memory s1) 0x5004) 1 1 s1 = Some (1, s2)"
    "\<forall>j < 600. memory s2 (0x5300 + of_nat j) = access_contents ! j"
    by (auto simp: len)
  moreover from this(3)[rule_format, of 1] have "memory s2 0x5301 = 13"
    by (simp add: access_contents_def file_byte_def disk_byte_def access_image_def)
  ultimately show ?thesis by blast
qed

end
