(* ===== verification/DirectorySearch.thy ===== *)
theory DirectorySearch
  imports FileAccess
begin

text \<open>
  The search of a loaded directory (\<^verbatim>\<open>fat16_find_item_in_directory\<close> of \<^verbatim>\<open>src/src/fs/fat/fat16.c\<close>): the names of the entries
  are formatted into a local buffer and compared without regard to case, and the entry of a file that matches is
  copied into a fresh item.
\<close>

subsection \<open>Pages and scratch memory\<close>

lemma live_page_stable:
  assumes live: "klive h s A" and b: "A b = Some n" and a: "in_blocks h b n a"
  shows "stable h A a"
  unfolding stable_def
proof (intro conjI ballI)
  note bb = klive_block[OF live b]
  show "\<not> in_table h a" using blocks_not_in_table[OF bb(1,3,4) a] .
  fix c assume c: "c \<in> unused_blocks (nblocks h) A"
  then have "\<not> taken_by A c b" and cn: "c < nblocks h" by (auto simp: unused_blocks_def unused_def)
  then have "c < b \<or> b + n \<le> c" using b by (auto simp: taken_by_def)
  then have "c + 1 \<le> b \<or> b + n \<le> c" by auto
  then show "\<not> in_blocks h c 1 a" using blocks_disjoint[of h b n c 1 a] bb cn a by auto
qed

text \<open>
  A local buffer of the driver is memory the allocator never touches.  Writing it changes the state a client started
  from, not what the client took.
\<close>

lemma took_scratch:
  assumes t: "took h A s B s'" and st: "\<And>a. R a \<Longrightarrow> stable h A a" and m: "\<And>a. \<not> R a \<Longrightarrow> m a = memory s' a"
  shows "took h A (s\<lparr>memory := \<lambda>a. if R a then m a else memory s a\<rparr>) B (s'\<lparr>memory := m\<rparr>)"
proof -
  have "klive h (s'\<lparr>memory := m\<rparr>) (with_pages A B)"
    by (rule klive_frame) (use t st m in \<open>auto simp: took_def stable_def\<close>)
  then show ?thesis using t m by (auto simp: took_def)
qed

lemma stable_page: "took h A s B s' \<Longrightarrow> b \<in> B \<Longrightarrow> in_blocks h b 1 a \<Longrightarrow> stable h (with_pages A B) a"
  by (rule live_page_stable[of h s']) (auto simp: took_def)

lemma stable_mono: "took h A s B s' \<Longrightarrow> stable h A a \<Longrightarrow> stable h (with_pages A B) a"
  by (auto simp: took_def stable_def)

lemma took_trans:
  assumes "took h A s B s1" "took h (with_pages A B) s1' C s2" "\<And>a. stable h A a \<Longrightarrow> memory s1' a = memory s' a"
    and "memory_only s' s1'"
  shows "took h A s' (B \<union> C) s2"
proof -
  show ?thesis
    using assms stable_mono[OF assms(1)] memory_only_trans[OF assms(4)] unfolding took_def with_pages_Un
    by (auto simp: with_pages_def split: if_splits)
qed

lemma kept_mono: "kept K C \<Longrightarrow> (\<And>a. K a \<Longrightarrow> K' a) \<Longrightarrow> kept K' C"
  by (fastforce simp: kept_def)

lemma took_new:
  assumes t: "took h A s0 B s1" and b: "with_pages A B b = None" and live: "klive h s2 ((with_pages A B)(b \<mapsto> 1))"
  shows "took h A s2 (insert b B) s2"
proof -
  have nb: "b < nblocks h" using klive_block(2)[OF live, of b 1] by simp
  have "\<not> taken_by (with_pages A B) b c" for c
  proof
    assume c: "taken_by (with_pages A B) b c"
    then have "c \<noteq> b" using b by (auto simp: taken_by_def)
    with c have "taken_by ((with_pages A B)(b \<mapsto> 1)) b c" "taken_by ((with_pages A B)(b \<mapsto> 1)) b b" by (auto simp: taken_by_def)
    then show False using kz.live_ok[OF live] \<open>c \<noteq> b\<close> unfolding allocs_ok_def by blast
  qed
  then have "b \<in> unused_blocks (nblocks h) (with_pages A B)" using nb by (simp add: unused_blocks_def unused_def)
  moreover have "klive h s2 (with_pages A (insert b B))" using live by (simp only: with_pages_simps)
  moreover have "unused_blocks (nblocks h) (with_pages A (insert b B)) = unused_blocks (nblocks h) (with_pages A B) - {b}"
    using unused_blocks_upd[of "with_pages A B" b "nblocks h"] b by (simp only: with_pages_simps)
  ultimately show ?thesis using t b by (auto simp: took_def)
qed

lemma room_after:
  assumes "b \<in> unused_blocks n A" "b \<notin> B" "Suc k \<le> card (unused_blocks n A - B)"
  shows "k \<le> card (unused_blocks n A - insert b B)"
proof -
  have "unused_blocks n A - insert b B = unused_blocks n A - B - {b}" by blast
  then show ?thesis using assms by (simp add: card_Diff_singleton)
qed

lemma room_nonempty: "1 \<le> card X \<Longrightarrow> X \<noteq> {}"
  by auto

lemma disjoint_regionsI:
  assumes "\<And>a. in_region q k a \<Longrightarrow> \<not> in_region p n a" "0 < n" "0 < k"
  shows "disjoint_regions p n q k"
  using assms(1)[of q] assms(1)[of p] assms(2,3) by (auto simp: disjoint_regions_def in_region_def intro: leI)

subsection \<open>Searching a loaded directory\<close>

text \<open>
  The directory at \<open>dir\<close>, loaded at \<open>items\<close>, has the entries \<open>es\<close> (names and extensions).  It and the text searched for lie in
  memory that neither allocations nor the local name buffer of the search touch.
\<close>

definition name_buffer :: "'l fslinks_scheme \<Rightarrow> u32 \<Rightarrow> bool" where
  "name_buffer lm a \<longleftrightarrow> in_region (tmp_filename_at lm) 128 a"

definition directory_of :: "mem \<Rightarrow> u32 \<Rightarrow> u32 \<Rightarrow> (u8 list \<times> u8 list) list \<Rightarrow> bool" where
  "directory_of m dir items es \<longleftrightarrow> load32 m dir = items \<and> load32 m (dir + 4) = of_nat (length es) \<and> length es < 2 ^ 16
     \<and> (\<forall>i < length es. dir_name m (items + 32 * of_nat i) (fst (es ! i)) (snd (es ! i)))"

definition search_cells :: "u32 \<Rightarrow> u32 \<Rightarrow> nat \<Rightarrow> (u32 \<times> nat) set" where
  "search_cells dir items n = {(dir, 8), (items, 32 * n)}"

definition same_name :: "u8 list \<Rightarrow> u8 list \<times> u8 list \<Rightarrow> bool" where
  "same_name c e \<longleftrightarrow> map tolower (full_name (fst e) (snd e)) = map tolower c"

lemma entry_region:
  assumes "i < n" "n < 2 ^ 16" "in_region (items + 32 * of_nat i + of_nat off) j a" "off + j \<le> 32"
  shows "in_region items (32 * n) a"
proof -
  have "items + 32 * of_nat i + of_nat off = items + of_nat (32 * i + off)" by (simp add: add.assoc)
  then have "in_region (items + of_nat (32 * i + off)) j a" using assms(3) by (simp only:)
  then show ?thesis by (rule in_region_sub) (use assms(1,2,4) in simp_all)
qed

lemma dir_name_cong:
  assumes "\<And>i. i < 32 \<Longrightarrow> m' (p + of_nat i) = m (p + of_nat i)"
  shows "dir_name m' p n e = dir_name m p n e"
proof -
  have "m' (p + 8 + of_nat i) = m (p + 8 + of_nat i)" if "i < 3" for i
    using assms[of "8 + i"] that by (simp add: add.assoc)
  moreover have "m' (p + of_nat i) = m (p + of_nat i)" if "i < 8" for i using assms[of i] that by simp
  moreover have "m' (p + 11) = m (p + 11)" using assms[of 11] by simp
  ultimately show ?thesis by (simp add: dir_name_def)
qed

lemma directory_of_cong:
  assumes k: "kept K (search_cells dir items (length es))" and same: "\<And>a. K a \<Longrightarrow> m' a = m a"
  shows "directory_of m' dir items es = directory_of m dir items es"
proof (cases "length es < 2 ^ 16")
  case True
  have d: "K a" if "in_region dir 8 a" for a using k that by (auto simp: kept_def search_cells_def)
  have "load32 m' dir = load32 m dir" by (rule load32_cong) (use d same in \<open>auto simp: in_region_def\<close>)
  moreover have "load32 m' (dir + 4) = load32 m (dir + 4)"
    by (rule load32_cong) (use d same in_region_sub[of dir 4 4 _ 8] in auto)
  moreover have "dir_name m' (items + 32 * of_nat i) n e = dir_name m (items + 32 * of_nat i) n e"
    if i: "i < length es" for i n e
  proof (rule dir_name_cong)
    fix j :: nat assume "j < 32"
    then have "in_region items (32 * length es) (items + 32 * of_nat i + of_nat j)"
      using entry_region[OF i True, of items 0 32] out_offset[of j] by simp
    then show "m' (items + 32 * of_nat i + of_nat j) = m (items + 32 * of_nat i + of_nat j)"
      using k by (intro same) (auto simp: kept_def search_cells_def)
  qed
  ultimately show ?thesis by (simp add: directory_of_def)
qed (simp add: directory_of_def)

text \<open>The search for \<open>c\<close> at \<open>name\<close> reads memory inside \<open>K\<close> only.\<close>

definition searchable ::
    "(u32 \<Rightarrow> bool) \<Rightarrow> mem \<Rightarrow> u32 \<Rightarrow> u32 \<Rightarrow> (u8 list \<times> u8 list) list \<Rightarrow> u32 \<Rightarrow> u8 list \<Rightarrow> bool" where
  "searchable K m dir items es name c \<longleftrightarrow> directory_of m dir items es \<and> kept K (search_cells dir items (length es))
     \<and> cstr_at m name c \<and> (\<forall>i \<le> length c. K (name + of_nat i)) \<and> length c \<le> 128"

lemma searchable_frame:
  assumes "searchable K m dir items es name c" "\<And>a. K a \<Longrightarrow> m' a = m a"
  shows "searchable K m' dir items es name c"
  using assms directory_of_cong[of K dir items es m' m] cstr_at_cong[of c m' name m] by (simp add: searchable_def)

lemma find_loop_step:
  assumes se: "searchable K (memory s) dir items es name c" and K: "\<And>a. K a \<Longrightarrow> \<not> name_buffer lm a" and i: "i < length es"
  shows "\<exists>m. (\<forall>a. \<not> name_buffer lm a \<longrightarrow> m a = memory s a)
    \<and> fat16_find_loop lm hw disk dir name (int i) f s =
       (if same_name c (es ! i)
        then Option.bind (fat16_new_fat_item_for_directory_item lm hw disk (items + 32 * of_nat i) (s\<lparr>memory := m\<rparr>))
               (\<lambda>(f', s'). fat16_find_loop lm hw disk dir name (int (Suc i)) f' s')
        else fat16_find_loop lm hw disk dir name (int (Suc i)) f (s\<lparr>memory := m\<rparr>))"
proof -
  let ?item = "items + 32 * of_nat i" and ?n = "fst (es ! i)" and ?e = "snd (es ! i)"
  have dir: "directory_of (memory s) dir items es" and k: "kept K (search_cells dir items (length es))"
    and c: "cstr_at (memory s) name c" "length c \<le> 128" "\<And>i. i \<le> length c \<Longrightarrow> \<not> name_buffer lm (name + of_nat i)"
    using se K by (auto simp: searchable_def)
  have len: "length es < 2 ^ 16" and d: "load32 (memory s) dir = items" "load32 (memory s) (dir + 4) = of_nat (length es)"
    and nm: "dir_name (memory s) ?item ?n ?e" using dir i by (auto simp: directory_of_def)
  have "\<not> name_buffer lm a" if "in_region ?item 32 a" for a
    using entry_region[OF i len, of items 0 32 a] that k K by (auto simp: kept_def search_cells_def)
  then have "disjoint_regions (tmp_filename_at lm) 128 ?item 32"
    by (intro disjoint_regionsI) (auto simp: name_buffer_def)
  from full_relative_filename_ok[OF nm this] obtain m where
    m: "fat16_get_full_relative_filename ?item (tmp_filename_at lm) 128 (memory s) = Some m"
    "cstr_at m (tmp_filename_at lm) (full_name ?n ?e)" "\<And>a. \<not> name_buffer lm a \<Longrightarrow> m a = memory s a"
    by (auto simp: name_buffer_def)
  have c': "cstr_at m name c" using cstr_at_cong[of c m name "memory s"] c(1) m(3)[OF c(3)] by simp
  have "length (full_name ?n ?e) \<le> 128" using nm by (simp add: dir_name_def full_name_def)
  then have eq: "istrncmp m (tmp_filename_at lm) name 128 = 0 \<longleftrightarrow> same_name c (es ! i)"
    using istrncmp_cstr[OF m(2) c', of 128] c(2) by (simp add: same_name_def)
  have "load32 m dir = items"
    using d(1) load32_cong[of dir m "memory s"] m(3) k K by (auto simp: kept_def search_cells_def in_region_def)
  then show ?thesis
    using m(1,3) eq i d len sint_small_u32[of "length es"]
    by (intro exI[of _ m]) (subst fat16_find_loop.simps, simp add: ac_simps)
qed

lemma find_loop_end:
  assumes "directory_of (memory s) dir items es"
  shows "fat16_find_loop lm hw disk dir name (int (length es)) f s = Some (f, s)"
  using assms sint_small_u32[of "length es"] by (subst fat16_find_loop.simps) (simp add: directory_of_def)

lemma find_loop_skip:
  assumes "searchable K (memory s) dir items es name c" "\<And>a. K a \<Longrightarrow> \<not> name_buffer lm a" "i \<le> k" "k \<le> length es"
    and "\<And>j. i \<le> j \<Longrightarrow> j < k \<Longrightarrow> \<not> same_name c (es ! j)"
  shows "\<exists>m. (\<forall>a. \<not> name_buffer lm a \<longrightarrow> m a = memory s a)
    \<and> fat16_find_loop lm hw disk dir name (int i) f s = fat16_find_loop lm hw disk dir name (int k) f (s\<lparr>memory := m\<rparr>)"
  using assms
proof (induction "k - i" arbitrary: i s)
  case 0
  then have "i = k" by simp
  then show ?case by (intro exI[of _ "memory s"]) simp
next
  case (Suc d)
  have i: "i < length es" "\<not> same_name c (es ! i)" using Suc.prems(4) Suc.prems(5)[of i] Suc.hyps(2) by auto
  obtain m where m: "\<And>a. \<not> name_buffer lm a \<Longrightarrow> m a = memory s a"
    "fat16_find_loop lm hw disk dir name (int i) f s = fat16_find_loop lm hw disk dir name (int (Suc i)) f (s\<lparr>memory := m\<rparr>)"
    using find_loop_step[OF Suc.prems(1,2) i(1), of hw disk f] unfolding if_not_P[OF i(2)] by blast
  have se: "searchable K (memory (s\<lparr>memory := m\<rparr>)) dir items es name c"
    using searchable_frame[OF Suc.prems(1)] m(1) Suc.prems(2) by simp
  have "d = k - Suc i" "Suc i \<le> k" using Suc.hyps(2) by simp_all
  from Suc.hyps(1)[OF this(1) se Suc.prems(2) this(2) Suc.prems(4)] Suc.prems(5) obtain m' where
    "\<And>a. \<not> name_buffer lm a \<Longrightarrow> m' a = m a" "fat16_find_loop lm hw disk dir name (int (Suc i)) f (s\<lparr>memory := m\<rparr>) =
       fat16_find_loop lm hw disk dir name (int k) f (s\<lparr>memory := m'\<rparr>)" by auto
  then show ?case using m by auto
qed

subsection \<open>The item of a file\<close>

text \<open>The item in page \<open>ib\<close> refers to a copy in page \<open>eb\<close> of the directory entry at \<open>p\<close> in \<open>m0\<close>.\<close>

definition file_item_of :: "heap \<Rightarrow> mem \<Rightarrow> nat \<Rightarrow> nat \<Rightarrow> mem \<Rightarrow> u32 \<Rightarrow> bool" where
  "file_item_of h m ib eb m0 p \<longleftrightarrow> load32 m (block_addr h ib) = block_addr h eb
     \<and> load32 m (block_addr h ib + 4) = FAT_ITEM_TYPE_FILE \<and> (\<forall>j < 32. m (block_addr h eb + of_nat j) = m0 (p + of_nat j))"

lemma file_item_of_cong:
  assumes "file_item_of h m ib eb m0 p" "\<And>a. in_blocks h ib 1 a \<or> in_blocks h eb 1 a \<Longrightarrow> m' a = m a"
    and "\<And>j. j < 32 \<Longrightarrow> m0' (p + of_nat j) = m0 (p + of_nat j)"
  shows "file_item_of h m' ib eb m0' p"
proof -
  have "load32 m' (block_addr h ib) = load32 m (block_addr h ib)" "load32 m' (block_addr h ib + 4) = load32 m (block_addr h ib + 4)"
    using assms(2) cell_in_block by (auto intro!: load32_cong)
  moreover have "m' (block_addr h eb + of_nat j) = m (block_addr h eb + of_nat j)" if "j < 32" for j
    using that out_offset[of j] by (intro assms(2)) (simp add: in_blocks_def)
  ultimately show ?thesis using assms(1,3) by (simp add: file_item_of_def)
qed

lemma clone_item_ok:
  assumes t: "took h A s0 B s" and room: "unused_blocks (nblocks h) A - B \<noteq> {}"
    and st: "\<And>a. in_region item 32 a \<Longrightarrow> stable h A a"
  obtains eb m where "fat16_clone_directory_item item 32 s = (block_addr h eb, s\<lparr>memory := m\<rparr>)"
    "took h A s0 (insert eb B) (s\<lparr>memory := m\<rparr>)" "eb \<notin> B" "eb \<in> unused_blocks (nblocks h) A"
    "\<And>j. j < 32 \<Longrightarrow> m (block_addr h eb + of_nat j) = memory s (item + of_nat j)"
    "\<And>a. \<not> in_table h a \<Longrightarrow> \<not> in_blocks h eb 1 a \<Longrightarrow> m a = memory s a"
proof -
  obtain eb m1 where kz: "kzalloc 32 s = (block_addr h eb, s\<lparr>memory := m1\<rparr>)" "took h A s0 (insert eb B) (s\<lparr>memory := m1\<rparr>)"
    "eb \<notin> B" "eb \<in> unused_blocks (nblocks h) A"
    and "\<And>a. in_region (block_addr h eb) (unat (32 :: u32)) a \<Longrightarrow> m1 a = 0"
    and out: "\<And>a. \<not> in_table h a \<Longrightarrow> \<not> in_blocks h eb 1 a \<Longrightarrow> m1 a = memory s a"
    using took_kzalloc[OF t room, of 32] by auto
  let ?e = "block_addr h eb"
  define m where "m = memcpy m1 ?e item 32"
  have page: "in_blocks h eb 1 a" if "in_region ?e 32 a" for a using block_bytes[of h eb 0 32 a] that by simp
  have item: "\<not> in_table h a" "\<not> in_blocks h eb 1 a" if "in_region item 32 a" for a
    using st[OF that] kz(4) by (auto simp: stable_def)
  have "\<not> in_region item 32 ?e" using item(2)[of ?e] page[of ?e] by auto
  then have ap: "unat (32 :: u32) \<le> unat (?e - item)" by (simp add: in_region_def)
  have m: "m a = (if in_region ?e 32 a then m1 (item + (a - ?e)) else m1 a)" for a
    unfolding m_def using memcpy_apply[OF disjI2[OF ap], of m1 a] by simp
  have copy: "m (?e + of_nat j) = memory s (item + of_nat j)" if "j < 32" for j
    using m[of "?e + of_nat j"] out[OF item, of "item + of_nat j"] that out_offset[of j] by simp
  have frame: "m a = m1 a" if "\<not> in_blocks h eb 1 a" for a using m[of a] page[of a] that by auto
  have "took h A s0 (insert eb B) (s\<lparr>memory := m\<rparr>)"
    using took_write[OF kz(2), of m] frame by auto
  moreover have "fat16_clone_directory_item item 32 s = (?e, s\<lparr>memory := m\<rparr>)"
    using kz(1) took_page(3)[OF kz(2), of eb] by (simp add: fat16_clone_directory_item_def m_def)
  ultimately show thesis using that kz(3,4) copy frame out by simp
qed

lemma new_item_ok:
  fixes s :: "('d, 'a) iostate_scheme"
  assumes t: "took h A s0 B s" and room: "2 \<le> card (unused_blocks (nblocks h) A - B)"
    and st: "\<And>a. in_region item 32 a \<Longrightarrow> stable h A a" and ty: "memory s (item + 11) AND 0x10 = 0"
  obtains ib eb m where "fat16_new_fat_item_for_directory_item lm hw disk item s = Some (block_addr h ib, s\<lparr>memory := m\<rparr>)"
    "took h A s0 ({ib, eb} \<union> B) (s\<lparr>memory := m\<rparr>)" "ib \<notin> B" "eb \<notin> B" "ib \<noteq> eb" "file_item_of h m ib eb (memory s) item"
    "\<And>a. \<not> in_table h a \<Longrightarrow> \<not> in_blocks h ib 1 a \<Longrightarrow> \<not> in_blocks h eb 1 a \<Longrightarrow> m a = memory s a"
proof -
  have r0: "unused_blocks (nblocks h) A - B \<noteq> {}" using room by (intro room_nonempty) simp
  obtain ib m1 where kz: "kzalloc 8 s = (block_addr h ib, s\<lparr>memory := m1\<rparr>)" "took h A s0 (insert ib B) (s\<lparr>memory := m1\<rparr>)"
    "ib \<notin> B" "ib \<in> unused_blocks (nblocks h) A"
    and "\<And>a. in_region (block_addr h ib) (unat (8 :: u32)) a \<Longrightarrow> m1 a = 0"
    and o1: "\<And>a. \<not> in_table h a \<Longrightarrow> \<not> in_blocks h ib 1 a \<Longrightarrow> m1 a = memory s a"
    using took_kzalloc[OF t r0, of 8] by auto
  let ?i = "block_addr h ib"
  define m2 where "m2 = store32 m1 (?i + 4) 1"
  have t2: "took h A s0 (insert ib B) (s\<lparr>memory := m2\<rparr>)"
    using took_write[OF kz(2), of m2] store32_outside[of "?i + 4" _ m1 1] cell_in_block(2)[of h ib] by (auto simp: m2_def)
  have r1: "unused_blocks (nblocks h) A - insert ib B \<noteq> {}"
    using room_after[OF kz(4,3), of 1] room by (intro room_nonempty) simp
  obtain eb m3 where cl: "fat16_clone_directory_item item 32 (s\<lparr>memory := m2\<rparr>) = (block_addr h eb, s\<lparr>memory := m3\<rparr>)"
    "took h A s0 (insert eb (insert ib B)) (s\<lparr>memory := m3\<rparr>)" "eb \<notin> insert ib B" "eb \<in> unused_blocks (nblocks h) A"
    "\<And>j. j < 32 \<Longrightarrow> m3 (block_addr h eb + of_nat j) = m2 (item + of_nat j)"
    "\<And>a. \<not> in_table h a \<Longrightarrow> \<not> in_blocks h eb 1 a \<Longrightarrow> m3 a = m2 a"
    using clone_item_ok[OF t2 r1 st] by auto
  define m where "m = store32 m3 ?i (block_addr h eb)"
  have t3: "took h A s0 ({ib, eb} \<union> B) (s\<lparr>memory := m\<rparr>)"
    using took_write[OF cl(2), of m] store32_outside[of ?i _ m3] cell_in_block(1)[of h ib] by (auto simp: m_def insert_commute)
  have m2: "m2 a = m1 a" if "\<not> in_blocks h ib 1 a" for a
    unfolding m2_def by (rule store32_outside) (use that cell_in_block(2) in blast)
  have m: "m a = m3 a" if "\<not> in_blocks h ib 1 a" for a
    unfolding m_def by (rule store32_outside) (use that cell_in_block(1) in blast)
  have out: "m a = memory s a" if "\<not> in_table h a" "\<not> in_blocks h ib 1 a" "\<not> in_blocks h eb 1 a" for a
    using that m m2 cl(6) o1 by simp
  have item: "\<not> in_table h a" "\<not> in_blocks h eb 1 a" "\<not> in_blocks h ib 1 a" if "in_region item 32 a" for a
    using st[OF that] kz(4) cl(4) by (auto simp: stable_def)
  have apart: "\<not> in_blocks h ib 1 a" if "in_blocks h eb 1 a" for a
    using took_apart[OF cl(2), of eb ib] that cl(3) by auto
  have ib_page: "\<not> in_table h a" "\<not> in_blocks h eb 1 a" if "in_blocks h ib 1 a" for a
    using took_page(4)[OF cl(2), of ib] took_apart[OF cl(2), of ib eb] that cl(3) by auto
  have "load32 m (?i + 4) = load32 m2 (?i + 4)"
  proof (rule load32_cong)
    fix a assume a: "in_region (?i + 4) 4 a"
    then have "\<not> in_region ?i 4 a" using disjoint_regionsD[OF node_cells_apart(2)[of ?i]] by blast
    then show "m a = m2 a" using a cl(6)[OF ib_page] cell_in_block(2) by (simp add: m_def store32_outside)
  qed
  moreover have "m (block_addr h eb + of_nat j) = memory s (item + of_nat j)" if "j < 32" for j
  proof -
    have e: "in_blocks h eb 1 (block_addr h eb + of_nat j)" using that out_offset[of j] by (simp add: in_blocks_def)
    have "in_region item 32 (item + of_nat j)" using that out_offset[of j] by simp
    then show ?thesis using m[OF apart[OF e]] cl(5)[OF that] m2 o1 item by simp
  qed
  ultimately have fi: "file_item_of h m ib eb (memory s) item" by (simp add: file_item_of_def m_def m2_def)
  have "in_region item 32 (item + 11)" by simp
  then have "m1 (item + 11) AND 0x10 = 0" using ty o1 item by simp
  then have "fat16_new_fat_item_for_directory_item lm hw disk item s = Some (?i, s\<lparr>memory := m\<rparr>)"
    using kz(1) cl(1) took_page(3)[OF kz(2), of ib]
    by (simp add: fat16_new_fat_item_for_directory_item_def m2_def m_def Let_def)
  then show thesis using that t3 kz(3) cl(3) fi out by simp
qed

subsection \<open>The result of a search\<close>

abbreviation (input) search_memory :: "'l fslinks_scheme \<Rightarrow> heap \<Rightarrow> (nat \<rightharpoonup> nat) \<Rightarrow> u32 \<Rightarrow> bool" where
  "search_memory lm h A \<equiv> \<lambda>a. stable h A a \<and> \<not> name_buffer lm a"

lemma find_item_none:
  assumes "searchable (search_memory lm h A) (memory s) dir items es name c" "\<And>j. j < length es \<Longrightarrow> \<not> same_name c (es ! j)"
  shows "\<exists>m. fat16_find_item_in_directory lm hw disk dir name s = Some (NULL, s\<lparr>memory := m\<rparr>)
    \<and> (\<forall>a. \<not> name_buffer lm a \<longrightarrow> m a = memory s a)"
proof -
  obtain m where m: "\<And>a. \<not> name_buffer lm a \<Longrightarrow> m a = memory s a"
    "fat16_find_loop lm hw disk dir name 0 NULL s = fat16_find_loop lm hw disk dir name (int (length es)) NULL (s\<lparr>memory := m\<rparr>)"
    using find_loop_skip[OF assms(1), of lm 0 "length es" hw disk NULL] assms(2) by auto
  have "searchable (search_memory lm h A) m dir items es name c" by (rule searchable_frame[OF assms(1)]) (simp add: m(1))
  then have "directory_of (memory (s\<lparr>memory := m\<rparr>)) dir items es" by (simp add: searchable_def)
  from find_loop_end[OF this, of lm hw disk name NULL] show ?thesis using m by (auto simp: fat16_find_item_in_directory_def)
qed

lemma find_item_found:
  fixes s :: "('d, 'a) iostate_scheme"
  assumes live: "klive h s A" and room: "2 \<le> card (unused_blocks (nblocks h) A)"
    and se: "searchable (search_memory lm h A) (memory s) dir items es name c"
    and buf: "\<And>a. name_buffer lm a \<Longrightarrow> stable h A a"
    and k: "k < length es" "\<And>j. j < length es \<Longrightarrow> same_name c (es ! j) \<longleftrightarrow> j = k"
    and ty: "memory s (items + 32 * of_nat k + 11) AND 0x10 = 0"
  shows "\<exists>ib eb m m0. fat16_find_item_in_directory lm hw disk dir name s = Some (block_addr h ib, s\<lparr>memory := m\<rparr>)
    \<and> took h A (s\<lparr>memory := m0\<rparr>) {ib, eb} (s\<lparr>memory := m\<rparr>) \<and> ib \<noteq> eb
    \<and> file_item_of h m ib eb (memory s) (items + 32 * of_nat k) \<and> (\<forall>a. \<not> name_buffer lm a \<longrightarrow> m0 a = memory s a)"
proof -
  let ?K = "search_memory lm h A" and ?p = "items + 32 * of_nat k"
  have len: "length es < 2 ^ 16" using se by (simp add: searchable_def directory_of_def)
  have cells: "?K a" if "in_region ?p 32 a" for a
    using entry_region[OF k(1) len, of items 0 32 a] that se by (auto simp: searchable_def kept_def search_cells_def)
  obtain m1 where m1: "\<And>a. \<not> name_buffer lm a \<Longrightarrow> m1 a = memory s a"
    "fat16_find_loop lm hw disk dir name 0 NULL s = fat16_find_loop lm hw disk dir name (int k) NULL (s\<lparr>memory := m1\<rparr>)"
    using find_loop_skip[OF se, of lm 0 k hw disk NULL] k by auto
  have se1: "searchable ?K (memory (s\<lparr>memory := m1\<rparr>)) dir items es name c"
    using searchable_frame[OF se, of m1] m1(1) by simp
  obtain m2 where m2: "\<And>a. \<not> name_buffer lm a \<Longrightarrow> m2 a = m1 a"
    "fat16_find_loop lm hw disk dir name (int k) NULL (s\<lparr>memory := m1\<rparr>) =
       Option.bind (fat16_new_fat_item_for_directory_item lm hw disk ?p (s\<lparr>memory := m2\<rparr>))
         (\<lambda>(f', s'). fat16_find_loop lm hw disk dir name (int (Suc k)) f' s')"
    using find_loop_step[OF se1 _ k(1), of lm hw disk NULL] k by auto
  have same: "m2 a = memory s a" if "\<not> name_buffer lm a" for a using m1(1) m2(1) that by simp
  have t2: "took h A (s\<lparr>memory := m2\<rparr>) {} (s\<lparr>memory := m2\<rparr>)"
    by (rule took_refl, rule klive_frame[OF live]) (use same buf in \<open>auto simp: stable_def\<close>)
  have ty2: "memory (s\<lparr>memory := m2\<rparr>) (?p + 11) AND 0x10 = 0"
    using same[of "?p + 11"] cells[of "?p + 11"] ty by simp
  obtain ib eb m3 where it: "fat16_new_fat_item_for_directory_item lm hw disk ?p (s\<lparr>memory := m2\<rparr>) = Some (block_addr h ib, s\<lparr>memory := m3\<rparr>)"
    "took h A (s\<lparr>memory := m2\<rparr>) {ib, eb} (s\<lparr>memory := m3\<rparr>)" "ib \<noteq> eb" "file_item_of h m3 ib eb m2 ?p"
    "\<And>a. \<not> in_table h a \<Longrightarrow> \<not> in_blocks h ib 1 a \<Longrightarrow> \<not> in_blocks h eb 1 a \<Longrightarrow> m3 a = m2 a"
    using new_item_ok[OF t2 _ _ ty2, of lm hw disk thesis] room cells by auto
  have ibeb: "ib \<in> unused_blocks (nblocks h) A" "eb \<in> unused_blocks (nblocks h) A" using it(2) by (auto simp: took_def)
  have "m3 a = m2 a" if "?K a" for a using it(5)[of a] that ibeb by (auto simp: stable_def)
  then have se3: "searchable ?K (memory (s\<lparr>memory := m3\<rparr>)) dir items es name c"
    using searchable_frame[OF se, of m3] same by simp
  obtain m4 where m4: "\<And>a. \<not> name_buffer lm a \<Longrightarrow> m4 a = m3 a"
    "fat16_find_loop lm hw disk dir name (int (Suc k)) (block_addr h ib) (s\<lparr>memory := m3\<rparr>) =
     fat16_find_loop lm hw disk dir name (int (length es)) (block_addr h ib) (s\<lparr>memory := m4\<rparr>)"
    using find_loop_skip[OF se3, of lm "Suc k" "length es" hw disk "block_addr h ib"] k by auto
  have "searchable ?K m4 dir items es name c" using searchable_frame[OF se3, of m4] m4(1) by simp
  then have "directory_of (memory (s\<lparr>memory := m4\<rparr>)) dir items es" by (simp add: searchable_def)
  from find_loop_end[OF this, of lm hw disk name "block_addr h ib"]
  have res: "fat16_find_item_in_directory lm hw disk dir name s = Some (block_addr h ib, s\<lparr>memory := m4\<rparr>)"
    using m1(2) m2(2) m4(2) it(1) by (simp add: fat16_find_item_in_directory_def)
  define m0 where "m0 = (\<lambda>a. if name_buffer lm a then m4 a else m2 a)"
  have t4: "took h A (s\<lparr>memory := m0\<rparr>) {ib, eb} (s\<lparr>memory := m4\<rparr>)"
    using took_scratch[OF it(2) buf, of "name_buffer lm" m4] m4(1) by (simp add: m0_def cong: if_cong)
  have pages: "\<not> name_buffer lm a" if "in_blocks h ib 1 a \<or> in_blocks h eb 1 a" for a
    using that buf ibeb by (auto simp: stable_def)
  have "file_item_of h m4 ib eb (memory s) ?p"
    by (rule file_item_of_cong[OF it(4)]) (use pages m4(1) same cells out_offset in auto)
  moreover have "\<forall>a. \<not> name_buffer lm a \<longrightarrow> m0 a = memory s a" using same by (simp add: m0_def)
  ultimately show ?thesis using res t4 it(3) by blast
qed

end
