(* ===== verification/FileOpen.thy ===== *)
theory FileOpen
  imports DirectorySearch
begin

text \<open>
  Opening a file of the root directory end to end: \<^verbatim>\<open>fopen\<close> parses the path, the driver searches the loaded root directory
  (\<^verbatim>\<open>fat16_find_item_in_directory\<close>), copies the entry into a fresh item and hands a driver descriptor back, and \<^verbatim>\<open>file.c\<close> files it
  under the first free number.  The state it leaves is the one \<open>FileAccess\<close> and \<open>Descriptors\<close> start from, so opening, reading
  and closing compose.
\<close>

subsection \<open>The driver's descriptor\<close>

lemma fat16_open_found:
  fixes s :: "('d, 'a) iostate_scheme"
  assumes live: "klive h s A" and room: "3 \<le> card (unused_blocks (nblocks h) A)"
    and fp: "load32 (memory s) (disk + 16) = fp" "\<And>a. in_region (disk + 16) 4 a \<Longrightarrow> stable h A a"
    and part: "load32 (memory s) part = name" "load32 (memory s) (part + 4) = NULL"
      "\<And>a. in_region part 4 a \<or> in_region (part + 4) 4 a \<Longrightarrow> search_memory lm h A a"
    and se: "searchable (search_memory lm h A) (memory s) (fp + 64) items es name c"
    and buf: "\<And>a. name_buffer lm a \<Longrightarrow> stable h A a"
    and k: "k < length es" "\<And>j. j < length es \<Longrightarrow> same_name c (es ! j) \<longleftrightarrow> j = k"
    and ty: "memory s (items + 32 * of_nat k + 11) AND 0x10 = 0"
  shows "\<exists>fb ib eb m m0. fat16_open lm hw disk part FILE_MODE_READ s = Some (block_addr h fb, s\<lparr>memory := m\<rparr>)
    \<and> took h A (s\<lparr>memory := m0\<rparr>) {fb, ib, eb} (s\<lparr>memory := m\<rparr>) \<and> distinct [fb, ib, eb]
    \<and> load32 m (block_addr h fb) = block_addr h ib \<and> load32 m (block_addr h fb + 4) = 0
    \<and> file_item_of h m ib eb (memory s) (items + 32 * of_nat k) \<and> (\<forall>a. \<not> name_buffer lm a \<longrightarrow> m0 a = memory s a)"
proof -
  let ?U = "unused_blocks (nblocks h) A" and ?p = "items + 32 * of_nat k"
  have r0: "?U - {} \<noteq> {}" using room by (intro room_nonempty) simp
  obtain fb m1 where kz: "kzalloc 8 s = (block_addr h fb, s\<lparr>memory := m1\<rparr>)" "took h A s {fb} (s\<lparr>memory := m1\<rparr>)" "fb \<in> ?U"
    and "\<And>a. in_region (block_addr h fb) (unat (8 :: u32)) a \<Longrightarrow> m1 a = 0"
    and "\<And>a. \<not> in_table h a \<Longrightarrow> \<not> in_blocks h fb 1 a \<Longrightarrow> m1 a = memory s a"
    using took_kzalloc[OF took_refl[OF live] r0, of 8] by auto
  let ?f = "block_addr h fb" and ?A = "with_pages A {fb}" and ?s1 = "s\<lparr>memory := m1\<rparr>"
  have same1: "m1 a = memory s a" if "stable h A a" for a using kz(2) that by (simp add: took_def)
  have live1: "klive h ?s1 ?A" and u1: "unused_blocks (nblocks h) ?A = ?U - {fb}" using kz(2) by (auto simp: took_def)
  have room1: "2 \<le> card (unused_blocks (nblocks h) ?A)" using room_after[OF kz(3), of "{}" 2] room u1 by simp
  have mono: "stable h ?A a" if "stable h A a" for a by (rule stable_mono[OF kz(2) that])
  have se1: "searchable (search_memory lm h ?A) (memory ?s1) (fp + 64) items es name c"
    using searchable_frame[OF se, of m1] same1 mono by (auto simp: searchable_def kept_def)
  have len: "length es < 2 ^ 16" using se by (simp add: searchable_def directory_of_def)
  have cells: "stable h A a" "\<not> name_buffer lm a" if "in_region ?p 32 a" for a
    using entry_region[OF k(1) len, of items 0 32 a] that se by (auto simp: searchable_def kept_def search_cells_def)
  have ty1: "memory ?s1 (?p + 11) AND 0x10 = 0" using same1[of "?p + 11"] cells[of "?p + 11"] ty by simp
  have buf1: "stable h ?A a" if "name_buffer lm a" for a using mono buf that by blast
  obtain ib eb m2 m0 where fi: "fat16_find_item_in_directory lm hw disk (fp + 64) name ?s1 = Some (block_addr h ib, s\<lparr>memory := m2\<rparr>)"
    "took h ?A (s\<lparr>memory := m0\<rparr>) {ib, eb} (s\<lparr>memory := m2\<rparr>)" "ib \<noteq> eb" "file_item_of h m2 ib eb m1 ?p"
    "\<And>a. \<not> name_buffer lm a \<Longrightarrow> m0 a = m1 a"
    using find_item_found[OF live1 room1 se1 buf1 k ty1, of hw disk] by auto
  have new: "fb \<noteq> ib" "fb \<noteq> eb" "{ib, eb} \<subseteq> ?U" using fi(2) u1 by (auto simp: took_def)
  have t2: "took h A (s\<lparr>memory := \<lambda>a. if name_buffer lm a then m2 a else memory s a\<rparr>) {fb, ib, eb} (s\<lparr>memory := m2\<rparr>)"
  proof -
    have "m0 a = (if name_buffer lm a then m2 a else memory s a)" if "stable h A a" for a
      using fi(2,5) mono[OF that] same1[OF that] by (simp add: took_def)
    then show ?thesis using took_trans[OF kz(2) fi(2)] by (simp add: insert_commute)
  qed
  let ?m0 = "\<lambda>a. if name_buffer lm a then m2 a else memory s a"
  define m where "m = store32 (store32 m2 ?f (block_addr h ib)) (?f + 4) 0"
  have only: "m a = m2 a" if "\<not> in_blocks h fb 1 a" for a
    using that cell_in_block[of h fb a] by (metis m_def store32_outside)
  have t3: "took h A (s\<lparr>memory := ?m0\<rparr>) {fb, ib, eb} (s\<lparr>memory := m\<rparr>)"
    using took_write[OF t2, of m] only by auto
  have item: "file_item_of h m ib eb (memory s) ?p"
  proof (rule file_item_of_cong[OF fi(4)])
    show "m a = m2 a" if "in_blocks h ib 1 a \<or> in_blocks h eb 1 a" for a
      using that took_apart[OF t3, of ib fb a] took_apart[OF t3, of eb fb a] new by (intro only) auto
    show "memory s (?p + of_nat j) = m1 (?p + of_nat j)" if "j < 32" for j
      using same1 cells(1)[of "?p + of_nat j"] that out_offset[of j] by simp
  qed
  have st: "search_memory lm h A a \<Longrightarrow> m2 a = memory s a" for a using t2 by (auto simp: took_def)
  have "load32 m2 (part + 4) = NULL" using part(2,3) st load32_cong[of "part + 4" m2 "memory s"] by simp
  moreover have "load32 m1 part = name" using part(1,3) same1 load32_cong[of part m1 "memory s"] by simp
  moreover have "load32 m1 (disk + 16) = fp" using fp same1 load32_cong[of "disk + 16" m1 "memory s"] by simp
  ultimately have "fat16_get_directory_entry lm hw disk part ?s1 = Some (block_addr h ib, s\<lparr>memory := m2\<rparr>)"
    using fi(1) took_page(3)[OF t3, of ib] by (simp add: fat16_get_directory_entry_def fat16_walk_parts.simps)
  then have "fat16_open lm hw disk part FILE_MODE_READ s = Some (?f, s\<lparr>memory := m\<rparr>)"
    using kz(1) took_page(3)[OF t3, of ib] took_page(3)[OF t3, of fb] by (simp add: fat16_open_def m_def Let_def)
  moreover have "load32 m ?f = block_addr h ib" "load32 m (?f + 4) = 0"
    using node_cells_apart[of ?f] by (simp_all add: m_def load32_store32_other)
  ultimately show ?thesis
    using t3 item new fi(3) by (intro exI[of _ fb] exI[of _ ib] exI[of _ eb] exI[of _ m] exI[of _ ?m0]) simp
qed

subsection \<open>A mounted volume\<close>

definition scratch :: "'l fslinks_scheme \<Rightarrow> u32 \<Rightarrow> u32 \<Rightarrow> bool" where
  "scratch lm st a \<longleftrightarrow> name_buffer lm a \<or> in_region st 4 a \<or> (\<exists>d. in_region (stream_buf_at lm d) 512 a)"

definition fixed :: "'l filelinks_scheme \<Rightarrow> heap \<Rightarrow> (nat \<rightharpoonup> nat) \<Rightarrow> u32 \<Rightarrow> u32 \<Rightarrow> bool" where
  "fixed lm h A st a \<longleftrightarrow> stable h A a \<and> \<not> scratch lm st a \<and> \<not> in_region (filedescriptors_at lm) 2048 a"

definition volume_cells :: "'l fslinks_scheme \<Rightarrow> u32 \<Rightarrow> u32 \<Rightarrow> (u32 \<times> nat) set" where
  "volume_cells lm fp st =
     {(disk_at lm + 4, 4), (disk_at lm + 12, 4), (disk_at lm + 16, 4), (fat16_fs_at lm + 4, 4), (fat16_fs_at lm + 8, 4),
      (fat16_fs_at lm + 12, 4), (fat16_fs_at lm + 16, 4), (fat16_fs_at lm + 20, 4), (fp + 13, 1), (fp + 76, 4), (fp + 80, 4),
      (st + 4, 4)}"

text \<open>The disk, the file system object and the driver's private data as \<^verbatim>\<open>fs_resolve\<close> leaves them.\<close>

definition mounted :: "'l fslinks_scheme \<Rightarrow> mem \<Rightarrow> u32 \<Rightarrow> u32 \<Rightarrow> nat \<Rightarrow> nat \<Rightarrow> bool" where
  "mounted lm m fp st cl dat \<longleftrightarrow> disk_at lm \<noteq> NULL \<and> fat16_fs_at lm \<noteq> NULL
     \<and> load32 m (disk_at lm + 4) = 512 \<and> load32 m (disk_at lm + 12) = fat16_fs_at lm \<and> load32 m (disk_at lm + 16) = fp
     \<and> load32 m (fat16_fs_at lm + 4) = fat16_open_at lm \<and> load32 m (fat16_fs_at lm + 8) = fat16_read_at lm
     \<and> load32 m (fat16_fs_at lm + 12) = fat16_seek_at lm \<and> load32 m (fat16_fs_at lm + 16) = fat16_stat_at lm
     \<and> load32 m (fat16_fs_at lm + 20) = fat16_close_at lm
     \<and> m (fp + 13) = of_nat cl \<and> 0 < cl \<and> cl < 256 \<and> load32 m (fp + 76) = of_nat dat
     \<and> load32 m (fp + 80) = st \<and> load32 m (st + 4) = disk_at lm"

lemma mounted_cong:
  assumes k: "kept K (volume_cells lm fp st)" and same: "\<And>a. K a \<Longrightarrow> m' a = m a"
  shows "mounted lm m' fp st cl dat = mounted lm m fp st cl dat"
proof -
  have l: "load32 m' p = load32 m p" if "(p, 4) \<in> volume_cells lm fp st" for p by (rule kept_load32[OF k that same])
  have "m' (fp + 13) = m (fp + 13)" by (rule kept_byte[OF k _ same]) (simp add: volume_cells_def)
  then show ?thesis unfolding mounted_def by (simp add: l volume_cells_def)
qed

text \<open>
  Ready to open files: the volume is mounted with its root directory loaded, the driver's objects and the descriptor
  table are apart from the scratch buffers, and the allocator touches none of them.
\<close>

definition open_ready ::
    "'l filelinks_scheme \<Rightarrow> heap \<Rightarrow> (nat \<rightharpoonup> nat) \<Rightarrow> mem \<Rightarrow> u32 \<Rightarrow> u32 \<Rightarrow> nat \<Rightarrow> nat \<Rightarrow> u32 \<Rightarrow> (u8 list \<times> u8 list) list \<Rightarrow> bool" where
  "open_ready lm h A m fp st cl dat items es \<longleftrightarrow> mounted lm m fp st cl dat \<and> directory_of m (fp + 64) items es
     \<and> kept (fixed lm h A st) (volume_cells lm fp st \<union> search_cells (fp + 64) items (length es))
     \<and> (\<forall>a. scratch lm st a \<longrightarrow> stable h A a)
     \<and> (\<forall>a. in_region (filedescriptors_at lm) 2048 a \<longrightarrow> stable h A a \<and> \<not> scratch lm st a)
     \<and> (\<forall>b < nblocks h. \<not> ISERR (block_addr h b))"

definition opened_file :: "heap \<Rightarrow> u32 \<Rightarrow> u32 \<Rightarrow> nat \<Rightarrow> nat \<Rightarrow> nat \<Rightarrow> nat \<Rightarrow> nat \<Rightarrow> nat \<Rightarrow> fat_file" where
  "opened_file h fp st cl dat fb ib eb fc =
     \<lparr>vol_private = fp, vol_stream = st, vol_cluster = cl, vol_data = dat, file_desc = block_addr h fb,
      file_item = block_addr h ib, file_entry = block_addr h eb, file_cluster = fc\<rparr>"

definition opened_cells :: "'l filelinks_scheme \<Rightarrow> fat_file \<Rightarrow> nat \<Rightarrow> u32 \<Rightarrow> u32 \<Rightarrow> bool" where
  "opened_cells lm L fd desc a \<longleftrightarrow> (\<exists>(p, n) \<in> file_cells lm L \<union> fd_cells lm (int fd) desc. in_region p n a)"

lemma opened_cells_kept:
  "kept (opened_cells lm L fd desc) (file_cells lm L)" "kept (opened_cells lm L fd desc) (fd_cells lm (int fd) desc)"
  by (auto simp: kept_def opened_cells_def)

lemma opened_cells_cases:
  assumes "opened_cells lm (opened_file h fp st cl dat fb ib eb fc) fd (block_addr h db) a" "0 < fd" "fd < 512"
    and "kept K (volume_cells lm fp st)"
  shows "K a \<or> in_region (filedescriptors_at lm) 2048 a \<or> in_region (block_addr h fb) 4 a
    \<or> in_blocks h ib 1 a \<or> in_blocks h eb 1 a \<or> in_blocks h db 1 a"
proof -
  obtain p n where c: "(p, n) \<in> file_cells lm (opened_file h fp st cl dat fb ib eb fc) \<union> fd_cells lm (int fd) (block_addr h db)"
    and a: "in_region p n a" using assms(1) by (auto simp: opened_cells_def)
  have vol: "K a" if "(p, n) \<in> volume_cells lm fp st" using assms(4) a that by (auto simp: kept_def)
  have fd: "nat (int fd - 1) = fd - 1" using assms(2) by simp
  have slot: "in_region (filedescriptors_at lm) 2048 a" if "p = descriptor_slot lm (fd - 1)" "n = 4"
    using slot_in_table[of "fd - 1" lm a] a that assms(3) by simp
  have blk: "in_blocks h b 1 a" if "p = block_addr h b + of_nat off" "off + n \<le> 4096" for b off
    using block_bytes[of h b off n a] a that by simp
  from c have "(p, n) \<in> volume_cells lm fp st \<or> p = descriptor_slot lm (fd - 1) \<and> n = 4 \<or> p = block_addr h fb \<and> n = 4
    \<or> p = block_addr h ib + of_nat 0 \<and> n = 4 \<or> p = block_addr h ib + of_nat 4 \<and> n = 4
    \<or> p = block_addr h eb + of_nat 24 \<and> n = 2 \<or> p = block_addr h eb + of_nat 26 \<and> n = 2 \<or> p = block_addr h eb + of_nat 28 \<and> n = 4
    \<or> p = block_addr h db + of_nat 4 \<and> n = 4 \<or> p = block_addr h db + of_nat 8 \<and> n = 4 \<or> p = block_addr h db + of_nat 12 \<and> n = 4"
    unfolding file_cells_def fd_cells_def fd by (auto simp: opened_file_def volume_cells_def)
  then show ?thesis
    using vol slot a blk[of ib 0] blk[of ib 4] blk[of eb 24] blk[of eb 26] blk[of eb 28] blk[of db 4] blk[of db 8] blk[of db 12]
    by (elim disjE) simp_all
qed

lemma opened_layout:
  assumes t: "took h A s0 B s'" "{db, fb, ib, eb} \<subseteq> B" "distinct [db, fb, ib, eb]"
    and rd: "open_ready lm h A m fp st cl dat items es" and fd: "0 < fd" "fd < 512"
    and fc: "2 \<le> fc" "512 * (dat + (fc - 2) * cl) + 512 * cl < 2 ^ 31"
  defines "L \<equiv> opened_file h fp st cl dat fb ib eb fc"
  shows "fat_layout lm L (opened_cells lm L fd (block_addr h db))"
proof -
  let ?K = "opened_cells lm L fd (block_addr h db)"
  have vol: "kept (fixed lm h A st) (volume_cells lm fp st)" and cl: "0 < cl" "cl < 256"
    using rd by (auto simp: open_ready_def kept_def mounted_def)
  have page: "\<not> stable h A a" "\<not> scratch lm st a" if "in_blocks h b 1 a" "b \<in> B" for a b
  proof -
    show "\<not> stable h A a" using that t(1) by (auto simp: took_def stable_def)
    then show "\<not> scratch lm st a" using rd by (auto simp: open_ready_def)
  qed
  have tab: "stable h A a \<and> \<not> scratch lm st a" if "in_region (filedescriptors_at lm) 2048 a" for a
    using rd that by (simp add: open_ready_def)
  have cases: "fixed lm h A st a \<or> in_region (filedescriptors_at lm) 2048 a \<or> in_region (block_addr h fb) 4 a
      \<or> in_blocks h ib 1 a \<or> in_blocks h eb 1 a \<or> in_blocks h db 1 a" if "?K a" for a
    using opened_cells_cases[OF that[unfolded L_def] fd vol] .
  have sub: "ib \<in> B" "eb \<in> B" "db \<in> B" "fb \<in> B" using t(2) by auto
  have fbp: "in_blocks h fb 1 a" if "in_region (block_addr h fb) 4 a \<or> in_region (block_addr h fb + 4) 4 a" for a
    using that cell_in_block by blast
  have no_scratch: "\<not> scratch lm st a" if "?K a \<or> in_region (block_addr h fb + 4) 4 a" for a
    using that cases[of a] page(2)[of _ a] tab[of a] fbp[of a] sub by (auto simp: fixed_def)
  have "\<not> in_region (block_addr h fb + 4) 4 a" if "?K a" for a
  proof
    assume a: "in_region (block_addr h fb + 4) 4 a"
    then have b: "in_blocks h fb 1 a" using fbp by blast
    have "\<not> in_blocks h c 1 a" if "c \<in> {ib, eb, db}" for c
      using took_apart[OF t(1), of fb c a] b that sub t(3) by auto
    moreover have "\<not> in_region (block_addr h fb) 4 a" using disjoint_regionsD[OF node_cells_apart(2)[of "block_addr h fb"]] a by blast
    moreover have "\<not> fixed lm h A st a" "\<not> in_region (filedescriptors_at lm) 2048 a"
      using page(1)[OF b sub(4)] tab by (auto simp: fixed_def)
    ultimately show False using cases[OF that] by blast
  qed
  moreover have "file_desc L = block_addr h fb" "vol_stream L = st" "vol_cluster L = cl" "vol_data L = dat" "file_cluster L = fc"
    by (simp_all add: L_def opened_file_def)
  ultimately show ?thesis
    using no_scratch opened_cells_kept(1) cl fc by (auto simp: fat_layout_def scratch_def)
qed

definition file_contents :: "(nat \<Rightarrow> nat \<Rightarrow> u8) \<Rightarrow> nat \<Rightarrow> nat \<Rightarrow> nat \<Rightarrow> nat \<Rightarrow> u8 list" where
  "file_contents img cl dat fc sz = map (file_byte img cl dat fc) [0..<sz]"

text \<open>The objects in memory after the descriptor has been filled in.\<close>

definition descriptor_filled :: "'l filelinks_scheme \<Rightarrow> heap \<Rightarrow> mem \<Rightarrow> nat \<Rightarrow> nat \<Rightarrow> nat \<Rightarrow> u32 \<Rightarrow> bool" where
  "descriptor_filled lm h m fd db fb it \<longleftrightarrow> load32 m (descriptor_slot lm (fd - 1)) = block_addr h db
     \<and> load32 m (block_addr h db) = of_nat fd \<and> load32 m (block_addr h db + 4) = fat16_fs_at lm
     \<and> load32 m (block_addr h db + 8) = block_addr h fb \<and> load32 m (block_addr h db + 12) = disk_at lm
     \<and> load32 m (block_addr h fb) = it \<and> load32 m (block_addr h fb + 4) = 0"

lemma copied_entry:
  assumes "file_item_of h m ib eb m0 p"
  shows "fat16_get_first_cluster_for_directory_item (block_addr h eb) m = fat16_get_first_cluster_for_directory_item p m0"
    and "load32 m (block_addr h eb + 28) = load32 m0 (p + 28)"
proof -
  have b: "m (block_addr h eb + of_nat j) = m0 (p + of_nat j)" if "j < 32" for j using assms that by (simp add: file_item_of_def)
  show "fat16_get_first_cluster_for_directory_item (block_addr h eb) m = fat16_get_first_cluster_for_directory_item p m0"
    using b[of 24] b[of 25] b[of 26] b[of 27] by (simp add: fat16_get_first_cluster_for_directory_item_def load16_def add.assoc)
  show "load32 m (block_addr h eb + 28) = load32 m0 (p + 28)"
    using b[of 28] b[of 29] b[of 30] b[of 31] by (simp add: load32_def add.assoc)
qed

lemma opened_state:
  fixes s' :: "('d, 'a) iostate_scheme"
  assumes t: "took h A s0 B s'" "{db, fb, ib, eb} \<subseteq> B" "distinct [db, fb, ib, eb]"
    and rd: "open_ready lm h A m0 fp st cl dat items es" and fd: "0 < fd" "fd < 512"
    and fc: "2 \<le> fc" "512 * (dat + (fc - 2) * cl) + 512 * cl < 2 ^ 31"
    and entry: "fat16_get_first_cluster_for_directory_item p m0 = of_nat fc" "sz = unat (load32 m0 (p + 28))"
    and same: "\<And>a. fixed lm h A st a \<Longrightarrow> memory s' a = m0 a"
    and fi: "file_item_of h (memory s') ib eb m0 p" and df: "descriptor_filled lm h (memory s') fd db fb (block_addr h ib)"
    and dev: "ata_disk hw idle img" "idle (device s')"
  defines "L \<equiv> opened_file h fp st cl dat fb ib eb fc"
  shows "fd_opened lm hw idle img L (opened_cells lm L fd (block_addr h db)) (block_addr h db) s' (int fd) 0
      (file_contents img cl dat fc sz)"
    and "open_file lm h (memory s') fd db fb ib eb"
proof -
  have "kept (fixed lm h A st) (volume_cells lm fp st)" using rd by (auto simp: open_ready_def kept_def)
  from mounted_cong[OF this, of "memory s'" m0] have mt: "mounted lm (memory s') fp st cl dat"
    using rd same by (auto simp: open_ready_def)
  have sz: "sz < 2 ^ 32" "load32 m0 (p + 28) = of_nat sz" using entry(2) unat_u32_bound[of "load32 m0 (p + 28)"] by simp_all
  have len: "length (file_contents img cl dat fc sz) = sz" by (simp add: file_contents_def)
  have objs: "fat_objects lm L (memory s') sz"
    using mt df fi copied_entry[OF fi] entry(1) sz(2)
    by (simp add: fat_objects_def L_def opened_file_def mounted_def descriptor_filled_def file_item_of_def)
  have lay: "fat_layout lm L (opened_cells lm L fd (block_addr h db))"
    unfolding L_def by (rule opened_layout[OF t rd fd fc])
  have "block_addr h db \<noteq> NULL" using took_page(3)[OF t(1), of db] t(2) by simp
  moreover have "nat (int fd - 1) = fd - 1" using fd by simp
  then have "fd_objects lm L (memory s') (int fd) (block_addr h db)"
    using mt df by (simp add: fd_objects_def mounted_def descriptor_filled_def L_def opened_file_def)
  moreover have "fat_opened lm hw idle img L (opened_cells lm L fd (block_addr h db)) s' (file_desc L) 0 (file_contents img cl dat fc sz)"
    using lay objs dev sz(1) df unfolding fat_opened_def len
    by (simp add: L_def opened_file_def descriptor_filled_def file_contents_def)
  ultimately show "fd_opened lm hw idle img L (opened_cells lm L fd (block_addr h db)) (block_addr h db) s' (int fd) 0
      (file_contents img cl dat fc sz)"
    using opened_cells_kept(2) fd by (simp add: fd_opened_def)
  show "open_file lm h (memory s') fd db fb ib eb"
    using t(3) fd df fi mt by (simp add: open_file_def descriptor_filled_def file_item_of_def mounted_def)
qed

text \<open>A request to open the file \<open>c\<close> of the root directory: the path at \<open>p\<close> and the mode string at \<open>mode\<close>.\<close>

definition open_request :: "'l filelinks_scheme \<Rightarrow> heap \<Rightarrow> (nat \<rightharpoonup> nat) \<Rightarrow> mem \<Rightarrow> u32 \<Rightarrow> u8 list \<Rightarrow> u32 \<Rightarrow> u8 list \<Rightarrow> bool" where
  "open_request lm h A m p xs mode c \<longleftrightarrow> source_text h A m p xs \<and> valid_path xs \<and> xs ! 0 = 48 \<and> components (drop 3 xs) = [c]
     \<and> cstr_at m (colon_slash_at lm) [58, 47] \<and> m mode = 114 \<and> m (mode_r_at lm) = 114
     \<and> stable h A mode \<and> stable h A (mode_r_at lm)"

lemma open_ready_step:
  assumes rd: "open_ready lm h A m fp st cl dat items es" and t: "took h A s0 B s1"
    and same: "\<And>a. fixed lm h A st a \<Longrightarrow> m' a = m a"
  shows "open_ready lm h (with_pages A B) m' fp st cl dat items es"
proof -
  have k: "kept (fixed lm h A st) (volume_cells lm fp st)" "kept (fixed lm h A st) (search_cells (fp + 64) items (length es))"
    using rd by (auto simp: open_ready_def kept_def)
  have mono: "stable h (with_pages A B) a" if "stable h A a" for a by (rule stable_mono[OF t that])
  then have fx: "fixed lm h (with_pages A B) st a" if "fixed lm h A st a" for a using that by (simp add: fixed_def)
  have "mounted lm m' fp st cl dat" using mounted_cong[OF k(1), of m' m cl dat] same rd by (simp add: open_ready_def)
  moreover have "directory_of m' (fp + 64) items es" using directory_of_cong[OF k(2), of m' m] same rd by (simp add: open_ready_def)
  moreover have "kept (fixed lm h (with_pages A B) st) (volume_cells lm fp st \<union> search_cells (fp + 64) items (length es))"
    by (rule kept_mono[of "fixed lm h A st"]) (use rd fx in \<open>auto simp: open_ready_def\<close>)
  ultimately show ?thesis using rd mono by (simp add: open_ready_def)
qed

text \<open>The path parsed: three pages for the root, the part and its text, and nothing else changed.\<close>

lemma request_parsed:
  fixes s :: "('d, 'a) iostate_scheme"
  assumes live: "klive h s A" and rq: "open_request lm h A (memory s) p xs mode c"
    and room: "5 \<le> card (unused_blocks (nblocks h) A)"
  obtains rb nb sb s1 where "path_parse lm p NULL s = Some (block_addr h rb, s1)" "took h A s {rb, nb, sb} s1" "distinct [rb, nb, sb]"
    "load32 (memory s1) (block_addr h rb) = 0" "load32 (memory s1) (block_addr h rb + 4) = block_addr h nb"
    "load32 (memory s1) (block_addr h nb) = block_addr h sb" "load32 (memory s1) (block_addr h nb + 4) = NULL"
    "cstr_at (memory s1) (block_addr h sb) c"
proof -
  have r: "source_text h A (memory s) p xs" "valid_path xs" "xs ! 0 = 48" "components (drop 3 xs) = [c]"
    "cstr_at (memory s) (colon_slash_at lm) [58, 47]" using rq by (simp_all add: open_request_def)
  have "chtoi (xs ! 0) = 0" using r(3) by (simp add: chtoi_def)
  moreover obtain rb bs s1 where p: "path_parse lm p NULL s = Some (block_addr h rb, s1)" "took h A s (set (rb # part_blocks bs)) s1"
    "path_tree h (memory s1) rb bs (chtoi (xs ! 0)) [c]"
    using path_parse_ok[OF live r(1,2,5), of NULL] room r(4) by auto
  moreover from p(3) obtain nb sb where "bs = [(nb, sb)]"
    unfolding path_tree_def by (cases bs; cases "tl bs") auto
  ultimately show thesis using that[of rb s1 nb sb] by (auto simp: path_tree_def)
qed

lemma mode_read:
  assumes "m mode = 114" "m (mode_r_at lm) = 114"
  shows "file_get_mode_by_string lm mode m = FILE_MODE_READ"
proof -
  have "strncmp m mode (mode_r_at lm) 1 = 0" using assms by (simp add: strncmp.simps[of m mode] strncmp.simps[of m _ _ 0])
  then show ?thesis by (simp add: file_get_mode_by_string_def)
qed

text \<open>What \<^verbatim>\<open>fopen\<close> does with the driver's answer.\<close>

definition fopen_finish :: "'l filelinks_scheme \<Rightarrow> u32 \<Rightarrow> ('d, 'a) iostate_scheme \<Rightarrow> int \<times> ('d, 'a) iostate_scheme" where
  "fopen_finish lm private s =
     (if ISERR private then (0, s)
      else case file_new_descriptor lm s of
             (res, None, s') \<Rightarrow> (0, s')
           | (res, Some desc, s') \<Rightarrow>
               let m1 = store32 (memory s') (desc + 4) (load32 (memory s') (disk_at lm + 12));
                   m2 = store32 m1 (desc + 8) private;
                   m3 = store32 m2 (desc + 12) (disk_at lm)
               in (let r = sint (load32 m3 desc) in if r < 0 then 0 else r, s'\<lparr>memory := m3\<rparr>))"

lemma fopen_parsed:
  assumes "path_parse lm p NULL s = Some (r, s1)" "r \<noteq> NULL" "load32 (memory s1) r = 0" "load32 (memory s1) (r + 4) = part" "part \<noteq> NULL"
    and "disk_at lm \<noteq> NULL" "load32 (memory s1) (disk_at lm + 12) = fat16_fs_at lm" "fat16_fs_at lm \<noteq> NULL"
    and "load32 (memory s1) (fat16_fs_at lm + 4) = fat16_open_at lm" "file_get_mode_by_string lm mode (memory s1) = FILE_MODE_READ"
  shows "fopen lm hw p mode s =
    map_option (\<lambda>(private, s2). fopen_finish lm private s2) (fat16_open lm hw (disk_at lm) part FILE_MODE_READ s1)"
proof (cases "fat16_open lm hw (disk_at lm) part FILE_MODE_READ s1")
  case (Some o')
  obtain pr s2 where o': "o' = (pr, s2)" by (cases o')
  obtain res d s3 where d: "file_new_descriptor lm s2 = (res, d, s3)" by (cases "file_new_descriptor lm s2") auto
  have neg: "res < 0" if "d = None"
    using d that by (auto simp: file_new_descriptor_def split: option.splits prod.splits)
  show ?thesis
    using assms Some o' d neg
    by (cases d) (simp_all add: fopen_def disk_get_def filesystem_open_def fopen_finish_def ISERR_def Let_def)
qed (use assms in \<open>simp add: fopen_def disk_get_def filesystem_open_def\<close>)

lemma request_opens:
  fixes s :: "('d, 'a) iostate_scheme"
  assumes live: "klive h s A" and rq: "open_request lm h A (memory s) p xs mode c"
    and rd: "open_ready lm h A (memory s) fp st cl dat items es" and room: "5 \<le> card (unused_blocks (nblocks h) A)"
  obtains rb nb sb s1 where "took h A s {rb, nb, sb} s1" "distinct [rb, nb, sb]"
    "fopen lm hw p mode s =
       map_option (\<lambda>(private, s2). fopen_finish lm private s2) (fat16_open lm hw (disk_at lm) (block_addr h nb) FILE_MODE_READ s1)"
    "open_ready lm h (with_pages A {rb, nb, sb}) (memory s1) fp st cl dat items es"
    "load32 (memory s1) (block_addr h nb) = block_addr h sb" "load32 (memory s1) (block_addr h nb + 4) = NULL"
    "\<And>a. in_region (block_addr h nb) 4 a \<or> in_region (block_addr h nb + 4) 4 a \<Longrightarrow> search_memory lm h (with_pages A {rb, nb, sb}) a"
    "searchable (search_memory lm h (with_pages A {rb, nb, sb})) (memory s1) (fp + 64) items es (block_addr h sb) c"
proof -
  obtain rb nb sb s1 where p: "path_parse lm p NULL s = Some (block_addr h rb, s1)" "took h A s {rb, nb, sb} s1" "distinct [rb, nb, sb]"
    "load32 (memory s1) (block_addr h rb) = 0" "load32 (memory s1) (block_addr h rb + 4) = block_addr h nb"
    "load32 (memory s1) (block_addr h nb) = block_addr h sb" "load32 (memory s1) (block_addr h nb + 4) = NULL"
    "cstr_at (memory s1) (block_addr h sb) c"
    by (rule request_parsed[OF live rq room])
  let ?A = "with_pages A {rb, nb, sb}"
  have same: "memory s1 a = memory s a" if "stable h A a" for a using p(2) that by (simp add: took_def)
  have rd1: "open_ready lm h ?A (memory s1) fp st cl dat items es"
    by (rule open_ready_step[OF rd p(2)]) (simp add: same fixed_def)
  then have mt: "mounted lm (memory s1) fp st cl dat" by (simp add: open_ready_def)
  have "memory s1 mode = 114" "memory s1 (mode_r_at lm) = 114" using rq same by (simp_all add: open_request_def)
  note mode = mode_read[OF this]
  have eq: "fopen lm hw p mode s =
      map_option (\<lambda>(private, s2). fopen_finish lm private s2) (fat16_open lm hw (disk_at lm) (block_addr h nb) FILE_MODE_READ s1)"
    by (rule fopen_parsed[OF p(1) _ p(4,5)]) (use took_page(3)[OF p(2)] mt mode in \<open>simp_all add: mounted_def\<close>)
  have page: "search_memory lm h ?A a" if "in_blocks h b 1 a" "b \<in> {rb, nb, sb}" for a b
  proof -
    have "\<not> stable h A a" using that p(2) by (auto simp: took_def stable_def)
    then have "\<not> name_buffer lm a" using rd by (auto simp: open_ready_def scratch_def)
    then show ?thesis using stable_page[OF p(2) that(2,1)] by blast
  qed
  have c: "length c \<le> 128"
    using rq components_length[of c "drop 3 xs"] by (auto simp: open_request_def valid_path_def)
  have "search_memory lm h ?A (block_addr h sb + of_nat i)" if "i \<le> length c" for i
    using that c out_offset[of i] by (intro page[of sb]) (auto simp: in_blocks_def)
  moreover have "kept (search_memory lm h ?A) (search_cells (fp + 64) items (length es))"
    by (rule kept_mono[of "fixed lm h ?A st"]) (use rd1 in \<open>auto simp: open_ready_def kept_def fixed_def scratch_def\<close>)
  ultimately have se: "searchable (search_memory lm h ?A) (memory s1) (fp + 64) items es (block_addr h sb) c"
    using rd1 p(8) c by (simp add: searchable_def open_ready_def)
  have "search_memory lm h ?A a" if "in_region (block_addr h nb) 4 a \<or> in_region (block_addr h nb + 4) 4 a" for a
    using that cell_in_block[of h nb a] by (intro page[of nb]) auto
  from that[OF p(2,3) eq rd1 p(6,7) this se] show thesis .
qed

lemma finish_ok:
  fixes s :: "('d, 'a) iostate_scheme"
  assumes t: "took h A s0 B s" and room: "1 \<le> card (unused_blocks (nblocks h) A - B)"
    and rd: "open_ready lm h (with_pages A B) (memory s) fp st cl dat items es"
    and tb: "\<And>a. in_region (filedescriptors_at lm) 2048 a \<Longrightarrow> stable h A a"
    and i: "first_free lm (memory s) i" "i < 511" and fb: "fb \<in> B" "load32 (memory s) (block_addr h fb) = it"
      "load32 (memory s) (block_addr h fb + 4) = 0"
  obtains db m where "fopen_finish lm (block_addr h fb) s = (int (Suc i), s\<lparr>memory := m\<rparr>)" "db \<notin> B"
    "took h A (s\<lparr>memory := m\<rparr>) (insert db B) (s\<lparr>memory := m\<rparr>)" "descriptor_filled lm h m (Suc i) db fb it"
    "\<And>j. j < 512 \<Longrightarrow> j \<noteq> i \<Longrightarrow> load32 m (descriptor_slot lm j) = load32 (memory s) (descriptor_slot lm j)"
    "\<And>a. stable h (with_pages A B) a \<Longrightarrow> \<not> in_region (descriptor_slot lm i) 4 a \<Longrightarrow> m a = memory s a"
proof -
  let ?A = "with_pages A B"
  have live: "klive h s ?A" using t by (simp add: took_def)
  have tab: "stable h ?A a" "\<not> scratch lm st a" if "in_region (filedescriptors_at lm) 2048 a" for a
    using rd that by (auto simp: open_ready_def)
  then have ts: "table_stable lm h ?A" by (simp add: table_stable_def)
  have U: "unused_blocks (nblocks h) ?A \<noteq> {}" using room t by (intro room_nonempty) (simp add: took_def)
  obtain db m1 where nd: "file_new_descriptor lm s = (0, Some (block_addr h db), s\<lparr>memory := m1\<rparr>)" "?A db = None"
    "klive h (s\<lparr>memory := m1\<rparr>) (?A(db \<mapsto> 1))" "load32 m1 (block_addr h db) = of_nat (Suc i)"
    "\<And>j. j < 512 \<Longrightarrow> load32 m1 (descriptor_slot lm j) = (if j = i then block_addr h db else load32 (memory s) (descriptor_slot lm j))"
    "\<And>a. stable h ?A a \<Longrightarrow> \<not> in_region (descriptor_slot lm i) 4 a \<Longrightarrow> m1 a = memory s a"
    using new_descriptor_ok[OF live U ts i(1)] by blast
  let ?d = "block_addr h db" and ?slot = "descriptor_slot lm i"
  have t1: "took h A (s\<lparr>memory := m1\<rparr>) (insert db B) (s\<lparr>memory := m1\<rparr>)" by (rule took_new[OF t nd(2,3)])
  have db: "db \<notin> B" using nd(2) by (auto simp: with_pages_def split: if_splits)
  define m where "m = store32 (store32 (store32 m1 (?d + 4) (fat16_fs_at lm)) (?d + 8) (block_addr h fb)) (?d + 12) (disk_at lm)"
  have cell: "in_blocks h db 1 a" if "in_region (?d + of_nat off) 4 a" "off \<le> 4092" for off a
    using block_bytes[OF that(1)] that(2) by simp
  have only: "m a = m1 a" if "\<not> in_blocks h db 1 a" for a
  proof -
    have "\<not> in_region (?d + 4) 4 a" "\<not> in_region (?d + 8) 4 a" "\<not> in_region (?d + 12) 4 a"
      using that cell[of 4 a] cell[of 8 a] cell[of 12 a] by auto
    then show ?thesis by (simp add: m_def store32_outside)
  qed
  have t2: "took h A (s\<lparr>memory := m\<rparr>) (insert db B) (s\<lparr>memory := m\<rparr>)"
    using t1 took_write[OF t1, of m] only by (auto simp: took_def)
  have not_db: "\<not> in_blocks h db 1 a" if "stable h ?A a" for a
  proof -
    have "db \<in> unused_blocks (nblocks h) A" "unused_blocks (nblocks h) ?A = unused_blocks (nblocks h) A - B"
      using t1 t by (auto simp: took_def)
    then show ?thesis using that db by (auto simp: stable_def)
  qed
  have sl: "\<not> in_blocks h db 1 a" "stable h ?A a" if "in_region (descriptor_slot lm j) 4 a" "j < 512" for a j
    using slot_in_table[OF that(2,1)] tab(1) not_db by blast+
  have slot: "load32 m (descriptor_slot lm j) = load32 m1 (descriptor_slot lm j)" if "j < 512" for j
    by (rule load32_cong) (use only sl that in blast)
  have fbp: "stable h ?A a" "\<not> in_region ?slot 4 a" if "in_blocks h fb 1 a" for a
  proof -
    show s1: "stable h ?A a" by (rule stable_page[OF t fb(1) that])
    show "\<not> in_region ?slot 4 a"
    proof
      assume "in_region ?slot 4 a"
      then have "in_region (filedescriptors_at lm) 2048 a" using slot_in_table[of i lm a] i(2) by simp
      then show False using tb[of a] that t fb(1) by (auto simp: took_def stable_def)
    qed
  qed
  have frame: "m a = memory s a" if "stable h ?A a" "\<not> in_region ?slot 4 a" for a
    using nd(6)[OF that] only[OF not_db[OF that(1)]] by simp
  have "load32 m (block_addr h fb) = it" "load32 m (block_addr h fb + 4) = 0"
    using fb load32_cong[of "block_addr h fb" m "memory s"] load32_cong[of "block_addr h fb + 4" m "memory s"]
      frame fbp cell_in_block[of h fb] by auto
  moreover have "load32 m ?d = of_nat (Suc i)" "load32 m (?d + 4) = fat16_fs_at lm" "load32 m (?d + 8) = block_addr h fb"
    "load32 m (?d + 12) = disk_at lm"
    using nd(4) by (simp_all add: m_def load32_store32_other disjoint_regions_def)
  ultimately have df: "descriptor_filled lm h m (Suc i) db fb it"
    using slot[of i] nd(5)[of i] i(2) by (simp add: descriptor_filled_def)
  have "load32 m1 (disk_at lm + 12) = load32 (memory s) (disk_at lm + 12)"
  proof (rule load32_cong)
    fix a assume "in_region (disk_at lm + 12) 4 a"
    then have "fixed lm h ?A st a" using rd by (auto simp: open_ready_def kept_def volume_cells_def)
    then show "m1 a = memory s a" using slot_in_table[of i lm a] i(2) by (intro nd(6)) (auto simp: fixed_def)
  qed
  then have "load32 m1 (disk_at lm + 12) = fat16_fs_at lm" using rd by (simp add: open_ready_def mounted_def)
  moreover have "\<not> ISERR (block_addr h fb)" using rd took_page(2)[OF t fb(1)] by (simp add: open_ready_def)
  moreover have "sint (of_nat (Suc i) :: u32) = int (Suc i)" using i(2) by (intro sint_small_u32) simp
  ultimately have "fopen_finish lm (block_addr h fb) s = (int (Suc i), s\<lparr>memory := m\<rparr>)"
    using nd(1,4) by (simp add: fopen_finish_def Let_def m_def load32_store32_other disjoint_regions_def)
  from that[OF this db t2 df _ frame] slot nd(5) show thesis by simp
qed

subsection \<open>Opening\<close>

text \<open>The entry \<open>k\<close> of the directory is the only one with the name, a plain file whose first cluster \<open>fc\<close> lies on the disk.\<close>

definition entry_found :: "mem \<Rightarrow> u32 \<Rightarrow> (u8 list \<times> u8 list) list \<Rightarrow> u8 list \<Rightarrow> nat \<Rightarrow> bool" where
  "entry_found m items es c k \<longleftrightarrow> k < length es \<and> (\<forall>j < length es. same_name c (es ! j) \<longleftrightarrow> j = k)
     \<and> m (items + 32 * of_nat k + 11) AND 0x10 = 0"

definition cluster_on_disk :: "nat \<Rightarrow> nat \<Rightarrow> nat \<Rightarrow> bool" where
  "cluster_on_disk cl dat fc \<longleftrightarrow> 2 \<le> fc \<and> 512 * (dat + (fc - 2) * cl) + 512 * cl < 2 ^ 31"

lemma fopen_driver:
  fixes s :: "('d, 'a) iostate_scheme"
  assumes live: "klive h s A" and room: "6 \<le> card (unused_blocks (nblocks h) A)"
    and rq: "open_request lm h A (memory s) p xs mode c" and rd: "open_ready lm h A (memory s) fp st cl dat items es"
    and en: "entry_found (memory s) items es c k"
  obtains P fb ib eb s2 where "fopen lm hw p mode s = Some (fopen_finish lm (block_addr h fb) s2)" "card P = 3"
    "took h A s2 (P \<union> {fb, ib, eb}) s2" "P \<inter> {fb, ib, eb} = {}" "distinct [fb, ib, eb]"
    "load32 (memory s2) (block_addr h fb) = block_addr h ib" "load32 (memory s2) (block_addr h fb + 4) = 0"
    "file_item_of h (memory s2) ib eb (memory s) (items + 32 * of_nat k)"
    "open_ready lm h (with_pages A (P \<union> {fb, ib, eb})) (memory s2) fp st cl dat items es"
    "\<And>a. stable h A a \<Longrightarrow> \<not> name_buffer lm a \<Longrightarrow> memory s2 a = memory s a" "memory_only s s2"
proof -
  let ?p = "items + 32 * of_nat k" and ?U = "unused_blocks (nblocks h) A"
  obtain rb nb sb s1 where p: "took h A s {rb, nb, sb} s1" "distinct [rb, nb, sb]"
    and fo: "fopen lm hw p mode s = map_option (\<lambda>(private, s2). fopen_finish lm private s2)
      (fat16_open lm hw (disk_at lm) (block_addr h nb) FILE_MODE_READ s1)"
    and rd1: "open_ready lm h (with_pages A {rb, nb, sb}) (memory s1) fp st cl dat items es"
    and part: "load32 (memory s1) (block_addr h nb) = block_addr h sb" "load32 (memory s1) (block_addr h nb + 4) = NULL"
      "\<And>a. in_region (block_addr h nb) 4 a \<or> in_region (block_addr h nb + 4) 4 a \<Longrightarrow> search_memory lm h (with_pages A {rb, nb, sb}) a"
    and se: "searchable (search_memory lm h (with_pages A {rb, nb, sb})) (memory s1) (fp + 64) items es (block_addr h sb) c"
    by (rule request_opens[OF live rq rd, of hw]) (use room in simp, blast)
  let ?P = "{rb, nb, sb}" let ?A = "with_pages A ?P"
  have P: "card ?P = 3" "?P \<subseteq> ?U" "unused_blocks (nblocks h) ?A = ?U - ?P" using p by (auto simp: took_def)
  have room1: "3 \<le> card (unused_blocks (nblocks h) ?A)" using P room by (simp add: card_Diff_subset)
  have same: "memory s1 a = memory s a" if "stable h A a" for a using p(1) that by (simp add: took_def)
  have len: "length es < 2 ^ 16" using rd by (simp add: open_ready_def directory_of_def)
  have ent: "fixed lm h A st a" if "in_region ?p 32 a" for a
    using entry_region[of k "length es" items 0 32 a] that en rd len
    by (auto simp: entry_found_def open_ready_def kept_def search_cells_def)
  have e1: "memory s1 (?p + of_nat j) = memory s (?p + of_nat j)" if "j < 32" for j
    using ent[of "?p + of_nat j"] that out_offset[of j] same by (simp add: fixed_def)
  have ty: "memory s1 (?p + 11) AND 0x10 = 0" using e1[of 11] en by (simp add: entry_found_def)
  have live1: "klive h s1 ?A" using p(1) by (simp add: took_def)
  have fp: "load32 (memory s1) (disk_at lm + 16) = fp" "\<And>a. in_region (disk_at lm + 16) 4 a \<Longrightarrow> stable h ?A a"
    using rd1 by (auto simp: open_ready_def mounted_def kept_def volume_cells_def fixed_def)
  have buf: "\<And>a. name_buffer lm a \<Longrightarrow> stable h ?A a" using rd1 by (auto simp: open_ready_def scratch_def)
  have k: "k < length es" "\<And>j. j < length es \<Longrightarrow> same_name c (es ! j) \<longleftrightarrow> j = k" using en by (auto simp: entry_found_def)
  obtain fb ib eb m2 m0 where op: "fat16_open lm hw (disk_at lm) (block_addr h nb) FILE_MODE_READ s1 = Some (block_addr h fb, s1\<lparr>memory := m2\<rparr>)"
    "took h ?A (s1\<lparr>memory := m0\<rparr>) {fb, ib, eb} (s1\<lparr>memory := m2\<rparr>)" "distinct [fb, ib, eb]"
    "load32 m2 (block_addr h fb) = block_addr h ib" "load32 m2 (block_addr h fb + 4) = 0"
    "file_item_of h m2 ib eb (memory s1) ?p" "\<And>a. \<not> name_buffer lm a \<Longrightarrow> m0 a = memory s1 a"
    using fat16_open_found[OF live1 room1 fp part se buf k ty, of hw] by blast
  let ?s2 = "s1\<lparr>memory := m2\<rparr>" and ?B = "?P \<union> {fb, ib, eb}"
  have t2: "took h A (s1\<lparr>memory := m0\<rparr>) ?B ?s2" by (rule took_trans[OF p(1) op(2)]) simp_all
  have same2: "m2 a = memory s1 a" if "stable h ?A a" "\<not> name_buffer lm a" for a
    using op(2,7) that by (simp add: took_def)
  have mono: "stable h ?A a" if "stable h A a" for a by (rule stable_mono[OF p(1) that])
  have "open_ready lm h (with_pages ?A {fb, ib, eb}) m2 fp st cl dat items es"
    by (rule open_ready_step[OF rd1 op(2)]) (simp add: same2 fixed_def scratch_def)
  then have rd2: "open_ready lm h (with_pages A ?B) m2 fp st cl dat items es" by (simp only: with_pages_Un)
  have t3: "took h A ?s2 ?B ?s2" using t2 by (simp add: took_def)
  have item: "file_item_of h m2 ib eb (memory s) ?p" by (rule file_item_of_cong[OF op(6)]) (simp_all add: e1)
  have disj: "?P \<inter> {fb, ib, eb} = {}" using op(2) P(3) by (auto simp: took_def)
  have "memory_only s ?s2" using p(1) by (simp add: took_def)
  moreover have "m2 a = memory s a" if "stable h A a" "\<not> name_buffer lm a" for a
    using same2[OF mono] same that by simp
  ultimately show thesis
    using that[of fb ?s2 ?P ib eb] fo op(1,3,4,5) P(1) t3 disj item rd2 by simp
qed

lemma fopen_ok:
  fixes s :: "('d, 'a) iostate_scheme"
  assumes live: "klive h s A" and room: "7 \<le> card (unused_blocks (nblocks h) A)"
    and rq: "open_request lm h A (memory s) p xs mode c" and rd: "open_ready lm h A (memory s) fp st cl dat items es"
    and en: "entry_found (memory s) items es c k"
    and fc: "fat16_get_first_cluster_for_directory_item (items + 32 * of_nat k) (memory s) = of_nat fc" "cluster_on_disk cl dat fc"
    and i: "first_free lm (memory s) i" "i < 511" and dev: "ata_disk hw idle img" "idle (device s)"
  shows "\<exists>P db fb ib eb s'. fopen lm hw p mode s = Some (int (Suc i), s')
    \<and> took h A s' (P \<union> {db, fb, ib, eb}) s' \<and> P \<inter> {db, fb, ib, eb} = {} \<and> card P = 3
    \<and> open_file lm h (memory s') (Suc i) db fb ib eb
    \<and> fd_opened lm hw idle img (opened_file h fp st cl dat fb ib eb fc)
         (opened_cells lm (opened_file h fp st cl dat fb ib eb fc) (Suc i) (block_addr h db)) (block_addr h db) s' (int (Suc i)) 0
         (file_contents img cl dat fc (unat (load32 (memory s) (items + 32 * of_nat k + 28))))
    \<and> (\<forall>j < 512. j \<noteq> i \<longrightarrow> load32 (memory s') (descriptor_slot lm j) = load32 (memory s) (descriptor_slot lm j))
    \<and> (\<forall>a. fixed lm h A st a \<longrightarrow> memory s' a = memory s a) \<and> memory_only s s'"
proof -
  let ?p = "items + 32 * of_nat k"
  have room6: "6 \<le> card (unused_blocks (nblocks h) A)" using room by simp
  obtain P fb ib eb s2 where d: "fopen lm hw p mode s = Some (fopen_finish lm (block_addr h fb) s2)" "card P = 3"
    "took h A s2 (P \<union> {fb, ib, eb}) s2" "P \<inter> {fb, ib, eb} = {}" "distinct [fb, ib, eb]"
    and f: "load32 (memory s2) (block_addr h fb) = block_addr h ib" "load32 (memory s2) (block_addr h fb + 4) = 0"
    and item: "file_item_of h (memory s2) ib eb (memory s) ?p"
    and rd2: "open_ready lm h (with_pages A (P \<union> {fb, ib, eb})) (memory s2) fp st cl dat items es"
    and same: "\<And>a. stable h A a \<Longrightarrow> \<not> name_buffer lm a \<Longrightarrow> memory s2 a = memory s a" and mo: "memory_only s s2"
    by (rule fopen_driver[OF live room6 rq rd en, of hw]) blast
  let ?B = "P \<union> {fb, ib, eb}"
  have tab: "stable h A a" "\<not> name_buffer lm a" if "in_region (filedescriptors_at lm) 2048 a" for a
    using rd that by (auto simp: open_ready_def scratch_def)
  have slot: "load32 (memory s2) (descriptor_slot lm j) = load32 (memory s) (descriptor_slot lm j)" if "j < 512" for j
    by (rule load32_cong) (use same tab slot_in_table[OF that] in blast)
  have i2: "first_free lm (memory s2) i" using i slot by (auto simp: first_free_def)
  have "?B \<subseteq> unused_blocks (nblocks h) A" using d(3) by (simp add: took_def)
  moreover have "card ?B = 6" using d(2,4,5) by (subst card_Un_disjoint) (auto intro: card_ge_0_finite)
  ultimately have room2: "1 \<le> card (unused_blocks (nblocks h) A - ?B)"
    using room by (subst card_Diff_subset) (auto intro: finite_subset)
  have fbB: "fb \<in> ?B" by simp
  obtain db m where fin: "fopen_finish lm (block_addr h fb) s2 = (int (Suc i), s2\<lparr>memory := m\<rparr>)" "db \<notin> ?B"
    "took h A (s2\<lparr>memory := m\<rparr>) (insert db ?B) (s2\<lparr>memory := m\<rparr>)" "descriptor_filled lm h m (Suc i) db fb (block_addr h ib)"
    "\<And>j. j < 512 \<Longrightarrow> j \<noteq> i \<Longrightarrow> load32 m (descriptor_slot lm j) = load32 (memory s2) (descriptor_slot lm j)"
    "\<And>a. stable h (with_pages A ?B) a \<Longrightarrow> \<not> in_region (descriptor_slot lm i) 4 a \<Longrightarrow> m a = memory s2 a"
    by (rule finish_ok[OF d(3) room2 rd2 tab(1) i2 i(2) fbB f], assumption, rule that)
  let ?s = "s2\<lparr>memory := m\<rparr>"
  have not_slot: "\<not> in_region (descriptor_slot lm i) 4 a" if "\<not> in_region (filedescriptors_at lm) 2048 a" for a
    using slot_in_table[of i lm a] i(2) that by auto
  have frame: "m a = memory s a" if "fixed lm h A st a" for a
    using fin(6)[of a] same[of a] stable_mono[OF d(3), of a] not_slot[of a] that by (simp add: fixed_def scratch_def)
  have page: "m a = memory s2 a" if "in_blocks h b 1 a" "b \<in> ?B" for a b
    using fin(6)[OF stable_page[OF d(3) that(2,1)]] not_slot[of a] tab(1)[of a] that d(3) by (auto simp: took_def stable_def)
  have item2: "file_item_of h m ib eb (memory s) ?p"
    by (rule file_item_of_cong[OF item]) (use page in auto)
  have "device s2 = device s" using arg_cong[OF mo[unfolded memory_only_def], of device] by simp
  then have idle: "idle (device ?s)" using dev(2) by simp
  have B: "{db, fb, ib, eb} \<subseteq> insert db ?B" "distinct [db, fb, ib, eb]" using fin(2) d(5) by auto
  have fd: "0 < Suc i" "Suc i < 512" and c2: "2 \<le> fc" "512 * (dat + (fc - 2) * cl) + 512 * cl < 2 ^ 31"
    using i(2) fc(2) by (simp_all add: cluster_on_disk_def)
  note ctx = opened_state[OF fin(3) B rd fd c2 fc(1) refl, where hw = hw and idle = idle and img = img]
  have frame': "memory ?s a = memory s a" if "fixed lm h A st a" for a using frame[OF that] by simp
  have o: "open_file lm h (memory ?s) (Suc i) db fb ib eb"
    by (rule ctx(2)) (use frame item2 fin(4) dev(1) idle in simp_all)
  have fdo: "fd_opened lm hw idle img (opened_file h fp st cl dat fb ib eb fc)
      (opened_cells lm (opened_file h fp st cl dat fb ib eb fc) (Suc i) (block_addr h db)) (block_addr h db) ?s (int (Suc i)) 0
      (file_contents img cl dat fc (unat (load32 (memory s) (?p + 28))))"
    by (rule ctx(1)) (use frame item2 fin(4) dev(1) idle in simp_all)
  have sl: "\<forall>j < 512. j \<noteq> i \<longrightarrow> load32 (memory ?s) (descriptor_slot lm j) = load32 (memory s) (descriptor_slot lm j)"
    using fin(5) slot by simp
  have t: "took h A ?s (P \<union> {db, fb, ib, eb}) ?s" "P \<inter> {db, fb, ib, eb} = {}" using fin(2,3) d(4) by auto
  show ?thesis
    by (rule exI[of _ P], rule exI[of _ db], rule exI[of _ fb], rule exI[of _ ib], rule exI[of _ eb], rule exI[of _ ?s],
        intro conjI) (use d(1,2) fin(1) t o fdo sl frame' mo in simp_all)
qed

subsection \<open>Opening what is not there\<close>

lemma fat16_open_missing:
  fixes s :: "('d, 'a) iostate_scheme"
  assumes live: "klive h s A" and room: "1 \<le> card (unused_blocks (nblocks h) A)"
    and fp: "load32 (memory s) (disk + 16) = fp" "\<And>a. in_region (disk + 16) 4 a \<Longrightarrow> stable h A a"
    and part: "load32 (memory s) part = name" "\<And>a. in_region part 4 a \<Longrightarrow> stable h A a"
    and se: "searchable (search_memory lm h A) (memory s) (fp + 64) items es name c"
    and buf: "\<And>a. name_buffer lm a \<Longrightarrow> stable h A a" and none: "\<And>j. j < length es \<Longrightarrow> \<not> same_name c (es ! j)"
  shows "\<exists>fb m m0. took h A (s\<lparr>memory := m0\<rparr>) {fb} (s\<lparr>memory := m\<rparr>) \<and> (\<forall>a. \<not> name_buffer lm a \<longrightarrow> m0 a = memory s a)
    \<and> load32 m (block_addr h fb) = stale_current_item lm
    \<and> fat16_open lm hw disk part FILE_MODE_READ s =
        Some (if stale_current_item lm = NULL then (ERROR (- EIO), kfree (block_addr h fb) (s\<lparr>memory := m\<rparr>))
              else (block_addr h fb, s\<lparr>memory := store32 m (block_addr h fb + 4) 0\<rparr>))"
proof -
  let ?U = "unused_blocks (nblocks h) A"
  have r0: "?U - {} \<noteq> {}" using room by (intro room_nonempty) simp
  obtain fb m1 where kz: "kzalloc 8 s = (block_addr h fb, s\<lparr>memory := m1\<rparr>)" "took h A s {fb} (s\<lparr>memory := m1\<rparr>)" "fb \<in> ?U"
    and "\<And>a. in_region (block_addr h fb) (unat (8 :: u32)) a \<Longrightarrow> m1 a = 0"
    and "\<And>a. \<not> in_table h a \<Longrightarrow> \<not> in_blocks h fb 1 a \<Longrightarrow> m1 a = memory s a"
    using took_kzalloc[OF took_refl[OF live] r0, of 8] by auto
  let ?f = "block_addr h fb" and ?s1 = "s\<lparr>memory := m1\<rparr>"
  have same1: "m1 a = memory s a" if "stable h A a" for a using kz(2) that by (simp add: took_def)
  have se1: "searchable (search_memory lm h A) (memory ?s1) (fp + 64) items es name c"
    using searchable_frame[OF se, of m1] same1 by simp
  obtain m2 where fi: "fat16_find_item_in_directory lm hw disk (fp + 64) name ?s1 = Some (NULL, s\<lparr>memory := m2\<rparr>)"
    "\<And>a. \<not> name_buffer lm a \<Longrightarrow> m2 a = m1 a"
    using find_item_none[OF se1 none, of hw disk] by auto
  let ?m0 = "\<lambda>a. if name_buffer lm a then m2 a else memory s a"
  have t2: "took h A (s\<lparr>memory := ?m0\<rparr>) {fb} (s\<lparr>memory := m2\<rparr>)"
    using took_scratch[OF kz(2) buf, of "name_buffer lm" m2] fi(2) by simp
  define m where "m = store32 m2 ?f (stale_current_item lm)"
  have t3: "took h A (s\<lparr>memory := ?m0\<rparr>) {fb} (s\<lparr>memory := m\<rparr>)"
    using took_write[OF t2, of m] store32_outside[of ?f _ m2] cell_in_block(1)[of h fb] by (auto simp: m_def)
  have "load32 m1 part = name" using part same1 load32_cong[of part m1 "memory s"] by simp
  moreover have "load32 m1 (disk + 16) = fp" using fp same1 load32_cong[of "disk + 16" m1 "memory s"] by simp
  ultimately have "fat16_get_directory_entry lm hw disk part ?s1 = Some (stale_current_item lm, s\<lparr>memory := m2\<rparr>)"
    using fi(1) by (simp add: fat16_get_directory_entry_def)
  then have "fat16_open lm hw disk part FILE_MODE_READ s =
      Some (if stale_current_item lm = NULL then (ERROR (- EIO), kfree ?f (s\<lparr>memory := m\<rparr>))
            else (?f, s\<lparr>memory := store32 m (?f + 4) 0\<rparr>))"
    using kz(1) took_page(3)[OF t3, of fb] by (simp add: fat16_open_def m_def Let_def)
  then show ?thesis using t3 by (intro exI[of _ fb] exI[of _ m] exI[of _ ?m0]) (simp add: m_def)
qed

lemma missing_driver:
  fixes s :: "('d, 'a) iostate_scheme"
  assumes live: "klive h s A" and room: "5 \<le> card (unused_blocks (nblocks h) A)"
    and rq: "open_request lm h A (memory s) p xs mode c" and rd: "open_ready lm h A (memory s) fp st cl dat items es"
    and none: "\<forall>j < length es. \<not> same_name c (es ! j)"
  obtains P fb s2 where "card P = 3" "fb \<notin> P" "took h A s2 (insert fb P) s2" "load32 (memory s2) (block_addr h fb) = stale_current_item lm"
    "open_ready lm h (with_pages A (insert fb P)) (memory s2) fp st cl dat items es"
    "\<And>a. stable h A a \<Longrightarrow> \<not> name_buffer lm a \<Longrightarrow> memory s2 a = memory s a"
    "fopen lm hw p mode s = Some (if stale_current_item lm = NULL then (0, kfree (block_addr h fb) s2)
       else fopen_finish lm (block_addr h fb) (s2\<lparr>memory := store32 (memory s2) (block_addr h fb + 4) 0\<rparr>))"
proof -
  obtain rb nb sb s1 where p: "took h A s {rb, nb, sb} s1" "distinct [rb, nb, sb]"
    and fo: "fopen lm hw p mode s = map_option (\<lambda>(private, s2). fopen_finish lm private s2)
      (fat16_open lm hw (disk_at lm) (block_addr h nb) FILE_MODE_READ s1)"
    and rd1: "open_ready lm h (with_pages A {rb, nb, sb}) (memory s1) fp st cl dat items es"
    and part: "load32 (memory s1) (block_addr h nb) = block_addr h sb"
      "\<And>a. in_region (block_addr h nb) 4 a \<or> in_region (block_addr h nb + 4) 4 a \<Longrightarrow> search_memory lm h (with_pages A {rb, nb, sb}) a"
    and se: "searchable (search_memory lm h (with_pages A {rb, nb, sb})) (memory s1) (fp + 64) items es (block_addr h sb) c"
    by (rule request_opens[OF live rq rd room, of hw]) blast
  let ?P = "{rb, nb, sb}" let ?A = "with_pages A ?P"
  have P: "card ?P = 3" "?P \<subseteq> unused_blocks (nblocks h) A" "unused_blocks (nblocks h) ?A = unused_blocks (nblocks h) A - ?P"
    using p by (auto simp: took_def)
  have room1: "1 \<le> card (unused_blocks (nblocks h) ?A)" using P room by (simp add: card_Diff_subset)
  have live1: "klive h s1 ?A" using p(1) by (simp add: took_def)
  have fp: "load32 (memory s1) (disk_at lm + 16) = fp" "\<And>a. in_region (disk_at lm + 16) 4 a \<Longrightarrow> stable h ?A a"
    using rd1 by (auto simp: open_ready_def mounted_def kept_def volume_cells_def fixed_def)
  have buf: "\<And>a. name_buffer lm a \<Longrightarrow> stable h ?A a" using rd1 by (auto simp: open_ready_def scratch_def)
  have part2: "stable h ?A a" if "in_region (block_addr h nb) 4 a" for a using part(2) that by blast
  obtain fb m m0 where op: "took h ?A (s1\<lparr>memory := m0\<rparr>) {fb} (s1\<lparr>memory := m\<rparr>)" "load32 m (block_addr h fb) = stale_current_item lm" "\<And>a. \<not> name_buffer lm a \<Longrightarrow> m0 a = memory s1 a"
    "fat16_open lm hw (disk_at lm) (block_addr h nb) FILE_MODE_READ s1 =
        Some (if stale_current_item lm = NULL then (ERROR (- EIO), kfree (block_addr h fb) (s1\<lparr>memory := m\<rparr>))
              else (block_addr h fb, s1\<lparr>memory := store32 m (block_addr h fb + 4) 0\<rparr>))"
    using fat16_open_missing[OF live1 room1 fp part(1) part2 se buf, of hw] none by blast
  let ?s = "s1\<lparr>memory := m\<rparr>"
  have t: "took h A (s1\<lparr>memory := m0\<rparr>) (?P \<union> {fb}) ?s" using took_trans[OF p(1) op(1), of "s1\<lparr>memory := m0\<rparr>"] by simp
  then have t2: "took h A ?s (insert fb ?P) ?s" by (simp add: took_def insert_commute)
  have new: "fb \<notin> ?P" using op(1) P(3) by (auto simp: took_def)
  have same2: "m a = memory s1 a" if "stable h ?A a" "\<not> name_buffer lm a" for a using op(1,3) that by (simp add: took_def)
  have same: "m a = memory s a" if "stable h A a" "\<not> name_buffer lm a" for a
    using same2 stable_mono[OF p(1) that(1)] p(1) that by (simp add: took_def)
  have "open_ready lm h (with_pages ?A {fb}) m fp st cl dat items es"
    by (rule open_ready_step[OF rd1 op(1)]) (simp add: same2 fixed_def scratch_def)
  then have rd2: "open_ready lm h (with_pages A (insert fb ?P)) m fp st cl dat items es"
    by (simp add: with_pages_Un)
  have "ISERR (ERROR (- EIO))" by (simp add: ISERR_def ERROR_def)
  then have "fopen lm hw p mode s = Some (if stale_current_item lm = NULL then (0, kfree (block_addr h fb) ?s)
       else fopen_finish lm (block_addr h fb) (?s\<lparr>memory := store32 (memory ?s) (block_addr h fb + 4) 0\<rparr>))"
    using fo op(4) by (simp add: fopen_finish_def)
  then show thesis using that[of ?P fb ?s] P(1) new t2 op(2) rd2 same by simp
qed

lemma fopen_missing_ok:
  fixes s :: "('d, 'a) iostate_scheme"
  assumes live: "klive h s A" and room: "5 \<le> card (unused_blocks (nblocks h) A)"
    and rq: "open_request lm h A (memory s) p xs mode c" and rd: "open_ready lm h A (memory s) fp st cl dat items es"
    and none: "\<forall>j < length es. \<not> same_name c (es ! j)" and stale: "stale_current_item lm = NULL"
  shows "\<exists>P s'. fopen lm hw p mode s = Some (0, s') \<and> took h A s' P s' \<and> card P = 3
    \<and> (\<forall>a. fixed lm h A st a \<longrightarrow> memory s' a = memory s a)"
proof -
  obtain P fb s2 where d: "card P = 3" "fb \<notin> P" "took h A s2 (insert fb P) s2"
    and same: "\<And>a. stable h A a \<Longrightarrow> \<not> name_buffer lm a \<Longrightarrow> memory s2 a = memory s a"
    and fo: "fopen lm hw p mode s = Some (if stale_current_item lm = NULL then (0, kfree (block_addr h fb) s2)
       else fopen_finish lm (block_addr h fb) (s2\<lparr>memory := store32 (memory s2) (block_addr h fb + 4) 0\<rparr>))"
    by (rule missing_driver[OF live room rq rd none, of hw]) blast
  note k = took_kfree[OF d(3,2)]
  have "memory (kfree (block_addr h fb) s2) a = memory s a" if "fixed lm h A st a" for a
    using k(2)[of a] same[of a] that by (simp add: fixed_def scratch_def stable_def)
  moreover have "took h A (kfree (block_addr h fb) s2) P (kfree (block_addr h fb) s2)" using k(1) by (simp add: took_def)
  ultimately show ?thesis using fo stale d(1) by auto
qed

lemma fopen_stale_ok:
  fixes s :: "('d, 'a) iostate_scheme"
  assumes live: "klive h s A" and room: "5 \<le> card (unused_blocks (nblocks h) A)"
    and rq: "open_request lm h A (memory s) p xs mode c" and rd: "open_ready lm h A (memory s) fp st cl dat items es"
    and none: "\<forall>j < length es. \<not> same_name c (es ! j)" and stale: "stale_current_item lm \<noteq> NULL"
    and i: "first_free lm (memory s) i" "i < 511"
  shows "\<exists>db fb s'. fopen lm hw p mode s = Some (int (Suc i), s')
    \<and> descriptor_filled lm h (memory s') (Suc i) db fb (stale_current_item lm)"
proof -
  obtain P fb s2 where d: "card P = 3" "fb \<notin> P" "took h A s2 (insert fb P) s2" "load32 (memory s2) (block_addr h fb) = stale_current_item lm"
    and rd2: "open_ready lm h (with_pages A (insert fb P)) (memory s2) fp st cl dat items es"
    and same: "\<And>a. stable h A a \<Longrightarrow> \<not> name_buffer lm a \<Longrightarrow> memory s2 a = memory s a"
    and fo: "fopen lm hw p mode s = Some (if stale_current_item lm = NULL then (0, kfree (block_addr h fb) s2)
       else fopen_finish lm (block_addr h fb) (s2\<lparr>memory := store32 (memory s2) (block_addr h fb + 4) 0\<rparr>))"
    by (rule missing_driver[OF live room rq rd none, of hw]) blast
  let ?f = "block_addr h fb"
  define m where "m = store32 (memory s2) (?f + 4) 0"
  have only: "in_blocks h fb 1 a" if "m a \<noteq> memory s2 a" for a
    using that store32_outside[of "?f + 4" a "memory s2" 0] cell_in_block(2)[of h fb a] by (auto simp: m_def)
  have t: "took h A s2 (insert fb P) (s2\<lparr>memory := m\<rparr>)" using took_write[OF d(3), of m] only by blast
  have fbu: "fb \<in> unused_blocks (nblocks h) A" using d(3) by (simp add: took_def)
  have m: "m a = memory s2 a" if "stable h A a" for a using only[of a] that fbu by (auto simp: stable_def)
  have rd3: "open_ready lm h (with_pages A (insert fb P)) (memory (s2\<lparr>memory := m\<rparr>)) fp st cl dat items es"
    using open_ready_step[OF rd d(3), of m] m same by (simp add: fixed_def scratch_def)
  have tab: "stable h A a" "\<not> name_buffer lm a" if "in_region (filedescriptors_at lm) 2048 a" for a
    using rd that by (auto simp: open_ready_def scratch_def)
  have "load32 m (descriptor_slot lm j) = load32 (memory s) (descriptor_slot lm j)" if "j < 512" for j
    by (rule load32_cong) (use m same tab slot_in_table[OF that] in metis)
  then have i2: "first_free lm (memory (s2\<lparr>memory := m\<rparr>)) i" using i by (auto simp: first_free_def)
  have "insert fb P \<subseteq> unused_blocks (nblocks h) A" "card (insert fb P) = 4"
    using d by (auto simp: took_def card_insert_if card_ge_0_finite)
  then have room2: "1 \<le> card (unused_blocks (nblocks h) A - insert fb P)"
    using room by (subst card_Diff_subset) (auto intro: finite_subset)
  have f: "fb \<in> insert fb P" "load32 (memory (s2\<lparr>memory := m\<rparr>)) ?f = stale_current_item lm" "load32 (memory (s2\<lparr>memory := m\<rparr>)) (?f + 4) = 0"
    using d(4) node_cells_apart[of ?f] by (simp_all add: m_def load32_store32_other)
  obtain db m' where "fopen_finish lm ?f (s2\<lparr>memory := m\<rparr>) = (int (Suc i), s2\<lparr>memory := m\<rparr>\<lparr>memory := m'\<rparr>)"
    "descriptor_filled lm h m' (Suc i) db fb (stale_current_item lm)"
    by (rule finish_ok[OF t room2 rd3 tab(1) i2 i(2) f], assumption, rule that)
  then show ?thesis using fo stale by (auto simp: m_def)
qed

end
