(* ===== verification/FileSession.thy ===== *)
theory FileSession
  imports FileOpen
begin

text \<open>
  Whole sessions on a file of the root directory: opening, reading and closing compose, and what is left of a session is
  the parsed path, which \<^verbatim>\<open>fopen\<close> never frees.  With them the outcomes of \<^verbatim>\<open>fopen\<close> on requests it cannot serve.
\<close>

subsection \<open>Reading through a fresh descriptor\<close>

definition reader_memory :: "'l fslinks_scheme \<Rightarrow> fat_file \<Rightarrow> u32 \<Rightarrow> nat \<Rightarrow> u32 \<Rightarrow> bool" where
  "reader_memory lm L out n a \<longleftrightarrow> \<not> in_region (vol_stream L) 4 a \<and> (\<forall>d. \<not> in_region (stream_buf_at lm d) 512 a)
     \<and> \<not> in_region (file_desc L + 4) 4 a \<and> \<not> in_region out n a"

lemma fd_opened_widen:
  assumes "fd_opened lm hw idle img L K desc s fd k xs" "\<And>a. K a \<Longrightarrow> \<not> in_region out n a"
  shows "fd_opened lm hw idle img L (reader_memory lm L out n) desc s fd k xs"
proof -
  have o: "fat_opened lm hw idle img L K s (file_desc L) k xs" "kept K (fd_cells lm fd desc)" using assms(1) by (simp_all add: fd_opened_def)
  then have lay: "fat_layout lm L K" by (simp add: fat_opened_def)
  then have sub: "reader_memory lm L out n a" if "K a" for a using that assms(2) by (auto simp: fat_layout_def reader_memory_def)
  have "kept K (file_cells lm L)" using lay by (simp add: fat_layout_def)
  then have "fat_layout lm L (reader_memory lm L out n)"
    using lay kept_mono[of K "file_cells lm L" "reader_memory lm L out n"] sub by (auto simp: fat_layout_def reader_memory_def)
  then show ?thesis
    using assms(1) o kept_mono[OF o(2) sub] by (simp add: fd_opened_def fat_opened_def)
qed

text \<open>A buffer of the caller, apart from everything the file layer reads or writes.\<close>

definition caller_buffer :: "'l filelinks_scheme \<Rightarrow> heap \<Rightarrow> (nat \<rightharpoonup> nat) \<Rightarrow> u32 \<Rightarrow> u32 \<Rightarrow> u32 \<Rightarrow> nat \<Rightarrow> bool" where
  "caller_buffer lm h A fp st out n \<longleftrightarrow> read_areas (stream_buf_at lm) st out n
     \<and> (\<forall>a. in_region out n a \<longrightarrow> fixed lm h A st a \<and> (\<forall>(p, j) \<in> volume_cells lm fp st. \<not> in_region p j a))"

lemma buffer_apart:
  assumes "took h A s0 B s'" "{db, fb, ib, eb} \<subseteq> B" "caller_buffer lm h A fp st out n" "0 < fd" "fd < 512"
    and K: "opened_cells lm (opened_file h fp st cl dat fb ib eb fc) fd (block_addr h db) a"
  shows "\<not> in_region out n a"
proof
  assume a: "in_region out n a"
  have f: "stable h A a" "\<not> in_region (filedescriptors_at lm) 2048 a" "\<And>p j. (p, j) \<in> volume_cells lm fp st \<Longrightarrow> \<not> in_region p j a"
    using assms(3) a by (auto simp: caller_buffer_def fixed_def)
  have "kept (\<lambda>a. \<exists>(p, j) \<in> volume_cells lm fp st. in_region p j a) (volume_cells lm fp st)" by (auto simp: kept_def)
  from opened_cells_cases[OF K assms(4,5) this] f(2,3) have "\<exists>b \<in> {db, fb, ib, eb}. in_blocks h b 1 a"
    using cell_in_block(1)[of h fb a] by blast
  then show False using f(1) assms(1,2) by (auto simp: took_def stable_def)
qed

text \<open>What reading leaves alone: the heap's table, the descriptor table, the driver's objects and the pages of the file.\<close>

lemma reader_keeps:
  assumes t: "took h A s0 B s'" "{db, fb, ib, eb} \<subseteq> B" "distinct [db, fb, ib, eb]"
    and rd: "open_ready lm h A m fp st cl dat items es" and buf: "caller_buffer lm h A fp st out n"
    and a: "in_table h a \<or> in_region (filedescriptors_at lm) 2048 a \<or> (\<exists>(p, j) \<in> volume_cells lm fp st. in_region p j a)
      \<or> in_blocks h db 1 a \<or> in_blocks h ib 1 a \<or> in_blocks h eb 1 a \<or> in_region (block_addr h fb) 4 a"
  shows "reader_memory lm (opened_file h fp st cl dat fb ib eb fc) out n a"
proof -
  have out: "fixed lm h A st a" "\<forall>(p, j) \<in> volume_cells lm fp st. \<not> in_region p j a" if "in_region out n a"
    using buf that by (auto simp: caller_buffer_def)
  have sub: "db \<in> B" "fb \<in> B" "ib \<in> B" "eb \<in> B" using t(2) by auto
  have page: "\<not> stable h A a" if "in_blocks h b 1 a" "b \<in> B" for b using that t(1) by (auto simp: took_def stable_def)
  have scr: "stable h A a" if "scratch lm st a" using rd that by (auto simp: open_ready_def)
  have vol: "fixed lm h A st a" if "\<exists>(p, j) \<in> volume_cells lm fp st. in_region p j a"
    using rd that by (auto simp: open_ready_def kept_def)
  have tab: "stable h A a" "\<not> scratch lm st a" if "in_region (filedescriptors_at lm) 2048 a" using rd that by (auto simp: open_ready_def)
  have fbp: "in_blocks h fb 1 a" if "in_region (block_addr h fb) 4 a \<or> in_region (block_addr h fb + 4) 4 a"
    using that cell_in_block by blast
  have no_scratch: "\<not> scratch lm st a"
    using a scr page tab(2) vol fbp sub by (auto simp: fixed_def) (auto simp: stable_def)
  have no_out: "\<not> in_region out n a"
    using a out page fbp sub by (auto simp: fixed_def stable_def)
  have "\<not> in_region (block_addr h fb + 4) 4 a"
  proof
    assume f: "in_region (block_addr h fb + 4) 4 a"
    then have b: "in_blocks h fb 1 a" using fbp by blast
    have "\<not> in_blocks h db 1 a" "\<not> in_blocks h ib 1 a" "\<not> in_blocks h eb 1 a"
      using took_apart[OF t(1), of fb db a] took_apart[OF t(1), of fb ib a] took_apart[OF t(1), of fb eb a] b t(3) sub by auto
    moreover have "\<not> in_table h a" using took_page(4)[OF t(1) sub(2) b] .
    moreover have "\<not> in_region (block_addr h fb) 4 a" using disjoint_regionsD[OF node_cells_apart(2)[of "block_addr h fb"]] f by blast
    ultimately show False using a page[OF b sub(2)] tab(1) vol by (auto simp: fixed_def)
  qed
  then show ?thesis using no_scratch no_out by (auto simp: reader_memory_def opened_file_def scratch_def)
qed

lemma open_file_cong:
  assumes "open_file lm h m fd db fb ib eb"
    and "\<And>a. in_region (filedescriptors_at lm) 2048 a \<or> in_region (fat16_fs_at lm + 20) 4 a \<or> in_blocks h db 1 a
      \<or> in_blocks h ib 1 a \<or> in_region (block_addr h fb) 4 a \<Longrightarrow> m' a = m a"
  shows "open_file lm h m' fd db fb ib eb"
proof -
  have fd: "fd - 1 < 512" using assms(1) by (auto simp: open_file_def)
  have c: "load32 m' p = load32 m p" if "\<And>a. in_region p 4 a \<Longrightarrow> in_region (filedescriptors_at lm) 2048 a
      \<or> in_region (fat16_fs_at lm + 20) 4 a \<or> in_blocks h db 1 a \<or> in_blocks h ib 1 a \<or> in_region (block_addr h fb) 4 a" for p
    by (rule load32_cong) (use that assms(2) in blast)
  have "load32 m' (descriptor_slot lm (fd - 1)) = load32 m (descriptor_slot lm (fd - 1))"
    by (rule c) (use slot_in_table[OF fd] in blast)
  moreover have "load32 m' (fat16_fs_at lm + 20) = load32 m (fat16_fs_at lm + 20)" "load32 m' (block_addr h fb) = load32 m (block_addr h fb)"
    by (rule c; blast)+
  moreover have "load32 m' (block_addr h b) = load32 m (block_addr h b)" "load32 m' (block_addr h b + 4) = load32 m (block_addr h b + 4)"
    if "b = db \<or> b = ib" for b by (rule c; use cell_in_block[of h b] that in blast)+
  moreover have "load32 m' (block_addr h db + 8) = load32 m (block_addr h db + 8)"
    by (rule c) (use block_bytes[of h db 8 4] in auto)
  ultimately show ?thesis using assms(1) by (simp add: open_file_def del: of_nat_diff One_nat_def)
qed

lemma buffer_fresh:
  assumes "took h A s0 B s'" "b \<in> B" "caller_buffer lm h A fp st out n" "in_region out n a"
  shows "\<not> in_region (block_addr h b) 4 a" "\<not> in_region (block_addr h b + 4) 4 a"
proof -
  have "stable h A a" using assms(3,4) by (auto simp: caller_buffer_def fixed_def)
  then have "\<not> in_blocks h b 1 a" using assms(1,2) by (auto simp: took_def stable_def)
  then show "\<not> in_region (block_addr h b) 4 a" "\<not> in_region (block_addr h b + 4) 4 a" using cell_in_block by blast+
qed

lemma session_ok:
  fixes s :: "('d, 'a) iostate_scheme"
  assumes live: "klive h s A" and room: "7 \<le> card (unused_blocks (nblocks h) A)"
    and rq: "open_request lm h A (memory s) p xs mode c" and rd: "open_ready lm h A (memory s) fp st cl dat items es"
    and en: "entry_found (memory s) items es c k"
    and fc: "fat16_get_first_cluster_for_directory_item (items + 32 * of_nat k) (memory s) = of_nat fc" "cluster_on_disk cl dat fc"
    and i: "first_free lm (memory s) i" "i < 511" and dev: "ata_disk hw idle img" "idle (device s)"
    and n: "0 < n" "n \<le> unat (load32 (memory s) (items + 32 * of_nat k + 28))" "n \<le> 512 * cl" and buf: "caller_buffer lm h A fp st out n"
  shows "\<exists>s1 s2 s3 P. fopen lm hw p mode s = Some (int (Suc i), s1) \<and> fread lm hw out (of_nat n) 1 (int (Suc i)) s1 = Some (1, s2)
    \<and> fclose lm (int (Suc i)) s2 = Some (0, s3) \<and> (\<forall>j < n. memory s3 (out + of_nat j) = file_byte img cl dat fc j)
    \<and> klive h s3 (with_pages A P) \<and> card P = 3
    \<and> (\<forall>j < 512. load32 (memory s3) (descriptor_slot lm j) = load32 (memory s) (descriptor_slot lm j))"
proof -
  let ?sz = "unat (load32 (memory s) (items + 32 * of_nat k + 28))"
  obtain P db fb ib eb s1 where fo: "fopen lm hw p mode s = Some (int (Suc i), s1)"
    and t: "took h A s1 (P \<union> {db, fb, ib, eb}) s1" "P \<inter> {db, fb, ib, eb} = {}" "card P = 3"
    and opf: "open_file lm h (memory s1) (Suc i) db fb ib eb"
    and fdo: "fd_opened lm hw idle img (opened_file h fp st cl dat fb ib eb fc)
         (opened_cells lm (opened_file h fp st cl dat fb ib eb fc) (Suc i) (block_addr h db)) (block_addr h db) s1 (int (Suc i)) 0
         (file_contents img cl dat fc ?sz)"
    and sl: "\<forall>j < 512. j \<noteq> i \<longrightarrow> load32 (memory s1) (descriptor_slot lm j) = load32 (memory s) (descriptor_slot lm j)"
    using fopen_ok[OF live room rq rd en fc i dev] by blast
  define L where "L = opened_file h fp st cl dat fb ib eb fc"
  let ?K = "reader_memory lm L out n"
  have L: "file_desc L = block_addr h fb" "vol_stream L = st" "vol_cluster L = cl" by (simp_all add: L_def opened_file_def)
  have fd: "0 < Suc i" "Suc i < 512" using i(2) by simp_all
  have sub: "{db, fb, ib, eb} \<subseteq> P \<union> {db, fb, ib, eb}" by blast
  have fdo2: "fd_opened lm hw idle img L ?K (block_addr h db) s1 (int (Suc i)) 0 (file_contents img cl dat fc ?sz)"
    unfolding L_def by (rule fd_opened_widen[OF fdo buffer_apart[OF t(1) sub buf fd]])
  note fat = fd_openedD[OF fdo2]
  have dist: "distinct [db, fb, ib, eb]" using opf by (simp add: open_file_def)
  have keeps: "?K a" if "in_table h a \<or> in_region (filedescriptors_at lm) 2048 a \<or> (\<exists>(p, j) \<in> volume_cells lm fp st. in_region p j a)
      \<or> in_blocks h db 1 a \<or> in_blocks h ib 1 a \<or> in_blocks h eb 1 a \<or> in_region (block_addr h fb) 4 a" for a
    unfolding L_def by (rule reader_keeps[OF t(1) sub dist rd buf that])
  have w: "fat_writable L ?K out n"
    using buffer_fresh[OF t(1) _ buf, of fb] by (auto simp: fat_writable_def reader_memory_def L)
  have r: "fat_readable lm L 0 n out" using buf n(3) by (simp add: fat_readable_def L caller_buffer_def)
  have len: "length (file_contents img cl dat fc ?sz) = ?sz" by (simp add: file_contents_def)
  obtain d' m' where rdm: "fat16_read lm hw (disk_at lm) (file_desc L) (of_nat n) 1 out s1 = Some (1, s1\<lparr>device := d', memory := m'\<rparr>)"
    "\<And>j. j < n \<Longrightarrow> m' (out + of_nat j) = file_contents img cl dat fc ?sz ! j" "\<And>a. ?K a \<Longrightarrow> m' a = memory s1 a"
    using fat_read_exact[OF fat n(1) _ w r] n(2) by (auto simp: len)
  let ?s2 = "s1\<lparr>device := d', memory := m'\<rparr>"
  have "n < 2 ^ 32" using n(2) unat_u32_bound[of "load32 (memory s) (items + 32 * of_nat k + 28)"] by simp
  then have "(of_nat n :: u32) \<noteq> 0" using n(1) by (metis unat_0 unat_of_nat_u32 less_numeral_extra(3))
  then have fr: "fread lm hw out (of_nat n) 1 (int (Suc i)) s1 = Some (1, ?s2)" using fd_calls(2)[OF fdo2] rdm(1) by simp
  have pages: "with_pages (with_pages A P) {db, fb, ib, eb} = with_pages A (P \<union> {db, fb, ib, eb})" by (rule with_pages_Un)
  have "klive h (s1\<lparr>memory := m'\<rparr>) (with_pages A (P \<union> {db, fb, ib, eb}))"
    by (rule klive_frame) (use t(1) rdm(3) keeps in \<open>auto simp: took_def\<close>)
  then have live2: "klive h ?s2 (with_pages (with_pages A P) {db, fb, ib, eb})"
    unfolding pages by (auto simp: klive_def kheap_rel_def)
  have new: "\<forall>b \<in> {db, fb, ib, eb}. with_pages A P b = None" using t(1,2) by (auto simp: took_def with_pages_def)
  have opf2: "open_file lm h (memory ?s2) (Suc i) db fb ib eb"
    by (rule open_file_cong[OF opf]) (use rdm(3) keeps in \<open>auto simp: volume_cells_def\<close>)
  have ts: "table_stable lm h (with_pages (with_pages A P) {db, fb, ib, eb})"
    unfolding pages table_stable_def using rd stable_mono[OF t(1)] by (auto simp: open_ready_def)
  obtain m3 where cl: "fclose lm (int (Suc i)) ?s2 = Some (0, ?s2\<lparr>memory := m3\<rparr>)" "klive h (?s2\<lparr>memory := m3\<rparr>) (with_pages A P)"
    "\<And>j. j < 512 \<Longrightarrow> load32 m3 (descriptor_slot lm j) = (if j = i then 0 else load32 m' (descriptor_slot lm j))"
    "\<And>a. \<not> in_table h a \<Longrightarrow> \<not> in_region (descriptor_slot lm i) 4 a \<Longrightarrow> m3 a = m' a"
    using fclose_ok[OF live2 new opf2 ts] by auto
  have "m3 (out + of_nat j) = file_byte img cl dat fc j" if "j < n" for j
  proof -
    have "in_region out n (out + of_nat j)" using that \<open>n < 2 ^ 32\<close> by (simp add: unat_of_nat_u32)
    then have "fixed lm h A st (out + of_nat j)" using buf by (auto simp: caller_buffer_def)
    then have "m3 (out + of_nat j) = m' (out + of_nat j)"
      using slot_in_table[of i lm] i(2) by (intro cl(4)) (auto simp: fixed_def stable_def)
    then show ?thesis using rdm(2)[OF that] that n(2) by (simp add: file_contents_def)
  qed
  moreover have "load32 m3 (descriptor_slot lm j) = load32 (memory s) (descriptor_slot lm j)" if "j < 512" for j
  proof -
    have "load32 m' (descriptor_slot lm j) = load32 (memory s1) (descriptor_slot lm j)"
      by (rule load32_cong) (use rdm(3) keeps slot_in_table[OF that] in blast)
    then show ?thesis using cl(3)[OF that] sl i that by (auto simp: first_free_def)
  qed
  ultimately show ?thesis using fo fr cl(1,2) t(3) by auto
qed

subsection \<open>A machine with a mounted volume\<close>

text \<open>
  The kernel heap as \<^verbatim>\<open>kheap_init\<close> leaves it, a volume with clusters of two sectors whose root directory holds the files \<^verbatim>\<open>A\<close> and
  \<^verbatim>\<open>HI.TXT\<close> (600 bytes from cluster 3 on), the path \<^verbatim>\<open>0:/hi.txt\<close> at 0x200 and \<^verbatim>\<open>0:/b\<close> at 0x240, and the mode \<^verbatim>\<open>r\<close> at 0x300.
\<close>

definition session_links :: filelinks where
  "session_links = file_links\<lparr>fat16_fs_at := 0x204000, stream_buf_at := \<lambda>_. 0x5000, tmp_filename_at := 0x6000,
     filedescriptors_at := 0x206000, mode_r_at := 0x203010\<rparr>"

definition session_memory :: mem where
  "session_memory = (\<lambda>a. if 0x301000 \<le> a \<and> a < 0x30102C then 0x20 else 0)(
     0x200 := 48, 0x201 := 58, 0x202 := 47, 0x203 := 104, 0x204 := 105, 0x205 := 46, 0x206 := 116, 0x207 := 120, 0x208 := 116,
     0x240 := 48, 0x241 := 58, 0x242 := 47, 0x243 := 98, 0x300 := 114, 0x203000 := 58, 0x203001 := 47, 0x203010 := 114,
     0x202005 := 2, 0x20200D := 0x40, 0x20200E := 0x20, 0x202012 := 0x30,
     0x204005 := 2, 0x204006 := 0x11, 0x204009 := 3, 0x20400A := 0x11, 0x20400D := 4, 0x20400E := 0x11, 0x204011 := 5, 0x204012 := 0x11,
     0x204015 := 6, 0x204016 := 0x11, 0x30000D := 2, 0x300041 := 0x10, 0x300042 := 0x30, 0x300044 := 2, 0x30004C := 10, 0x300051 := 0x40,
     0x4005 := 0x20, 0x4006 := 0x20, 0x301000 := 65, 0x301020 := 72, 0x301021 := 73, 0x301028 := 84, 0x301029 := 88, 0x30102A := 84,
     0x30103A := 3, 0x30103C := 0x58, 0x30103D := 2)"

definition session_machine :: "drive iostate" where
  "session_machine = kheap_init (demo_machine\<lparr>memory := session_memory\<rparr>)"

abbreviation (input) session_ports :: "drive ports" where
  "session_ports \<equiv> drive_ports access_image"

lemma session_mem: "\<not> in_region 0x7E00 25600 a \<Longrightarrow> memory session_machine a = session_memory a"
  by (simp add: session_machine_def kheap_init_eq memset_eq)

lemma session_load32:
  assumes "unat p + 4 \<le> 0x7E00 \<or> 0xE200 \<le> unat p \<and> unat p < 0x400000"
  shows "load32 (memory session_machine) p = load32 session_memory p"
  by (rule load32_cong, rule session_mem) (use assms in \<open>auto simp: in_region_iff_nat\<close>)

lemma session_stable:
  assumes "unat a < 0x7E00 \<or> 0xE200 \<le> unat a \<and> unat a < 0x1000000"
  shows "stable kernel_heap_layout Map.empty a"
proof -
  have "\<not> in_table kernel_heap_layout a"
    using assms by (auto simp: in_table_def kernel_heap_layout_def nblocks_def in_region_iff_nat)
  moreover have "\<not> in_blocks kernel_heap_layout b 1 a" if "b < 25600" for b
  proof -
    have "unat (block_addr kernel_heap_layout b) = 0x1000000 + b * 4096"
      using that unat_of_nat_u32[of "0x1000000 + b * 4096"] by (simp add: block_addr_def kernel_heap_layout_def algebra_simps)
    then show ?thesis using assms that by (auto simp: in_blocks_def in_region_iff_nat)
  qed
  ultimately show ?thesis unfolding stable_def empty_unused by simp
qed

lemma session_live: "klive kernel_heap_layout session_machine Map.empty"
  unfolding session_machine_def by (rule kheap_init_live)

lemma session_room: "k \<le> 25600 \<Longrightarrow> k \<le> card (unused_blocks (nblocks kernel_heap_layout) Map.empty)"
  unfolding empty_unused by simp

lemma session_scratch: "scratch session_links 0x4000 a \<longleftrightarrow> in_region 0x6000 128 a \<or> in_region 0x4000 4 a \<or> in_region 0x5000 512 a"
  by (simp add: scratch_def name_buffer_def session_links_def file_links_def)

lemma session_fixed:
  assumes "0x5200 \<le> unat a \<and> unat a < 0x6000 \<or> unat a < 0x4000 \<or> 0x4004 \<le> unat a \<and> unat a < 0x5000
    \<or> 0xE200 \<le> unat a \<and> unat a < 0x206000 \<or> 0x206800 \<le> unat a \<and> unat a < 0x1000000"
  shows "fixed session_links kernel_heap_layout Map.empty 0x4000 a"
proof -
  have "stable kernel_heap_layout Map.empty a" by (rule session_stable) (use assms in auto)
  moreover have "filedescriptors_at session_links = 0x206000" by (simp add: session_links_def)
  ultimately show ?thesis
    using assms unfolding fixed_def session_scratch by (auto simp: in_region_iff_nat)
qed

definition session_entries :: "(u8 list \<times> u8 list) list" where
  "session_entries = [([65], []), ([72, 73], [84, 88, 84])]"

lemma session_entries_simps:
  "length session_entries = 2" "session_entries ! 0 = ([65], [])" "session_entries ! 1 = ([72, 73], [84, 88, 84])"
  "session_entries ! Suc 0 = ([72, 73], [84, 88, 84])"
  by (simp_all add: session_entries_def)

lemma all_entries: "(\<forall>j < length session_entries. P j) \<longleftrightarrow> P 0 \<and> P 1"
  unfolding session_entries_simps by (auto dest: less_2_cases)

lemma session_mounted: "mounted session_links (memory session_machine) 0x300000 0x4000 2 10"
proof -
  have "load32 session_memory 0x202004 = 512" "load32 session_memory 0x20200C = 0x204000" "load32 session_memory 0x202010 = 0x300000"
    "load32 session_memory 0x204004 = 0x110200" "load32 session_memory 0x204008 = 0x110300" "load32 session_memory 0x20400C = 0x110400"
    "load32 session_memory 0x204010 = 0x110500" "load32 session_memory 0x204014 = 0x110600" "load32 session_memory 0x30004C = 10"
    "load32 session_memory 0x300050 = 0x4000" "load32 session_memory 0x4004 = 0x202000"
    by (simp_all add: session_memory_def load32_def)
  moreover have "memory session_machine 0x30000D = 2" by (simp add: session_mem in_region_iff_nat session_memory_def)
  ultimately show ?thesis by (simp add: mounted_def session_links_def file_links_def session_load32)
qed

lemma session_directory: "directory_of (memory session_machine) 0x300040 0x301000 session_entries"
proof -
  have l: "load32 (memory session_machine) 0x300040 = 0x301000" "load32 (memory session_machine) 0x300044 = 2"
    by (simp_all add: session_load32) (simp_all add: session_memory_def load32_def)
  have "memory session_machine (0x301000 + of_nat i) = session_memory (0x301000 + of_nat i)" if "i < 64" for i
    by (rule session_mem) (use that in \<open>simp add: in_region_iff_nat unat_word_ariths unat_of_nat_u32\<close>)
  from this[of "32 + _"] this have e: "memory session_machine (0x301000 + of_nat i) = session_memory (0x301000 + of_nat i)"
    "memory session_machine (0x301020 + of_nat i) = session_memory (0x301020 + of_nat i)" if "i < 32" for i
    using that by (simp_all add: add.assoc[symmetric])
  have "dir_name (memory session_machine) 0x301000 [65] [] = dir_name session_memory 0x301000 [65] []"
    "dir_name (memory session_machine) 0x301020 [72, 73] [84, 88, 84] = dir_name session_memory 0x301020 [72, 73] [84, 88, 84]"
    using e by (auto intro!: dir_name_cong)
  moreover have "dir_name session_memory 0x301000 [65] []" "dir_name session_memory 0x301020 [72, 73] [84, 88, 84]"
    by (simp_all add: dir_name_def all_less_8 all_less_3 name_char_def session_memory_def)
  ultimately show ?thesis
    using l unfolding directory_of_def all_entries by (simp add: session_entries_simps)
qed

lemma session_ready:
  "open_ready session_links kernel_heap_layout Map.empty (memory session_machine) 0x300000 0x4000 2 10 0x301000 session_entries"
proof -
  have "fixed session_links kernel_heap_layout Map.empty 0x4000 a"
    if "in_region p n a" "unat p = 0x4004 \<and> n = 4 \<or> 0x200000 \<le> unat p \<and> unat p + n \<le> 0x206000 \<or> 0x206800 \<le> unat p \<and> unat p + n \<le> 0x302000"
    for a p n by (rule session_fixed) (use that in \<open>auto simp: in_region_iff_nat\<close>)
  then have "kept (fixed session_links kernel_heap_layout Map.empty 0x4000)
      (volume_cells session_links 0x300000 0x4000 \<union> search_cells (0x300000 + 64) 0x301000 (length session_entries))"
    unfolding kept_def volume_cells_def search_cells_def session_entries_simps
    by (simp add: session_links_def[unfolded file_links_def])
  moreover have "stable kernel_heap_layout Map.empty a" if "scratch session_links 0x4000 a" for a
    by (rule session_stable) (use that in \<open>auto simp: session_scratch in_region_iff_nat\<close>)
  moreover have "stable kernel_heap_layout Map.empty a \<and> \<not> scratch session_links 0x4000 a" if "in_region 0x206000 2048 a" for a
    using that session_stable[of a] by (auto simp: session_scratch in_region_iff_nat)
  moreover have "\<not> ISERR (block_addr kernel_heap_layout b)" if "b < 25600" for b
  proof -
    have "block_addr kernel_heap_layout b = of_nat (0x1000000 + 4096 * b)" by (simp add: block_addr_def kernel_heap_layout_def)
    then show ?thesis using sint_small_u32[of "0x1000000 + 4096 * b"] that by (simp add: ISERR_def del: of_nat_add of_nat_mult)
  qed
  ultimately show ?thesis
    using session_mounted session_directory kernel_heap_layout_wf(2) by (simp add: open_ready_def) (simp add: session_links_def)
qed

lemma session_request:
  "open_request session_links kernel_heap_layout Map.empty (memory session_machine) 0x200 [48, 58, 47, 104, 105, 46, 116, 120, 116] 0x300
     [104, 105, 46, 116, 120, 116]"
  "open_request session_links kernel_heap_layout Map.empty (memory session_machine) 0x240 [48, 58, 47, 98] 0x300 [98]"
proof -
  have st: "stable kernel_heap_layout Map.empty (0x200 + of_nat i)" if "i < 0x1000" for i
    by (rule session_stable) (use that in \<open>simp add: unat_word_ariths unat_of_nat_u32\<close>)
  have mode: "memory session_machine 0x300 = 114" "memory session_machine 0x203010 = 114"
    "stable kernel_heap_layout Map.empty 0x300" "stable kernel_heap_layout Map.empty 0x203010"
    by (auto simp: session_mem in_region_iff_nat session_memory_def intro!: session_stable)
  have lit: "cstr_at (memory session_machine) 0x203000 [58, 47]" by (simp add: session_mem in_region_iff_nat session_memory_def)
  have "cstr_at (memory session_machine) 0x200 [48, 58, 47, 104, 105, 46, 116, 120, 116]"
    "cstr_at (memory session_machine) 0x240 [48, 58, 47, 98]"
    by (simp_all add: session_mem in_region_iff_nat session_memory_def)
  moreover have "stable kernel_heap_layout Map.empty (0x240 + of_nat i)" if "i \<le> 4" for i using st[of "0x40 + i"] that by simp
  ultimately show
    "open_request session_links kernel_heap_layout Map.empty (memory session_machine) 0x200 [48, 58, 47, 104, 105, 46, 116, 120, 116] 0x300
       [104, 105, 46, 116, 120, 116]"
    "open_request session_links kernel_heap_layout Map.empty (memory session_machine) 0x240 [48, 58, 47, 98] 0x300 [98]"
    using st lit mode
    by (auto simp: open_request_def source_text_def valid_path_def isdigit_def components.simps session_links_def file_links_def)
qed

lemma session_found: "entry_found (memory session_machine) 0x301000 session_entries [104, 105, 46, 116, 120, 116] 1"
proof -
  have "memory session_machine 0x30102B = 0x20" by (simp add: session_mem in_region_iff_nat session_memory_def)
  then show ?thesis
    unfolding entry_found_def all_entries by (simp add: session_entries_simps same_name_def full_name_def tolower_def)
qed

lemma session_missing: "\<forall>j < length session_entries. \<not> same_name [98] (session_entries ! j)"
  unfolding all_entries by (simp add: session_entries_simps same_name_def full_name_def tolower_def)

lemma session_entry:
  "fat16_get_first_cluster_for_directory_item 0x301020 (memory session_machine) = 3" "load32 (memory session_machine) 0x30103C = 600"
  "cluster_on_disk 2 10 3" "first_free session_links (memory session_machine) 0"
proof -
  have "load16 (memory session_machine) 0x301038 = 0" "load16 (memory session_machine) 0x30103A = 3"
    by (simp_all add: load16_def session_mem in_region_iff_nat session_memory_def)
  then show "fat16_get_first_cluster_for_directory_item 0x301020 (memory session_machine) = 3"
    by (simp add: fat16_get_first_cluster_for_directory_item_def)
  show "load32 (memory session_machine) 0x30103C = 600"
    by (simp add: session_load32) (simp add: session_memory_def load32_def)
  show "cluster_on_disk 2 10 3" by (simp add: cluster_on_disk_def)
  have "load32 (memory session_machine) 0x206000 = 0"
    by (simp add: session_load32) (simp add: session_memory_def load32_def)
  then show "first_free session_links (memory session_machine) 0" by (simp add: first_free_def session_links_def)
qed

lemma session_device: "ata_disk session_ports (\<lambda>d. pending d = []) access_image" "pending (device session_machine) = []"
  using drive_is_ata_disk by (simp_all add: session_machine_def kheap_init_eq demo_machine_def)

lemma session_buffer: "caller_buffer session_links kernel_heap_layout Map.empty 0x300000 0x4000 0x5800 600"
proof -
  have "fixed session_links kernel_heap_layout Map.empty 0x4000 a" if "in_region 0x5800 600 a" for a
    by (rule session_fixed) (use that in \<open>auto simp: in_region_iff_nat\<close>)
  moreover have "\<not> in_region p j a" if "in_region 0x5800 600 a" "(p, j) \<in> volume_cells session_links 0x300000 0x4000" for p j a
    using that by (auto simp: volume_cells_def session_links_def file_links_def in_region_iff_nat)
  ultimately show ?thesis
    by (auto simp: caller_buffer_def read_areas_def session_links_def intro!: disjoint_regionsI_nat)
qed

subsection \<open>Properties\<close>

text \<open>
  C7.  \<^verbatim>\<open>fopen\<close> of a file of the root directory, by path and without regard to case: it returns the first free number, which
  now is an open FAT16 file at position 0 whose contents are those of the entry on the disk; every other descriptor,
  the volume and the rest of the kernel are as before, and seven fresh pages are taken, three of them for the path.
\<close>

theorem fopen_opens:
  fixes s :: "('d, 'a) iostate_scheme"
  assumes "klive h s A" "7 \<le> card (unused_blocks (nblocks h) A)" "open_request lm h A (memory s) p xs mode c"
    and "open_ready lm h A (memory s) fp st cl dat items es" "entry_found (memory s) items es c k"
    and "fat16_get_first_cluster_for_directory_item (items + 32 * of_nat k) (memory s) = of_nat fc" "cluster_on_disk cl dat fc"
    and "first_free lm (memory s) i" "i < 511" "ata_disk hw idle img" "idle (device s)"
  shows "\<exists>P db fb ib eb L K s'. fopen lm hw p mode s = Some (int (Suc i), s')
    \<and> klive h s' (with_pages A (P \<union> {db, fb, ib, eb})) \<and> P \<inter> {db, fb, ib, eb} = {} \<and> card P = 3
    \<and> open_file lm h (memory s') (Suc i) db fb ib eb
    \<and> fd_opened lm hw idle img L K (block_addr h db) s' (int (Suc i)) 0
         (file_contents img cl dat fc (unat (load32 (memory s) (items + 32 * of_nat k + 28))))
    \<and> (\<forall>j < 512. j \<noteq> i \<longrightarrow> load32 (memory s') (descriptor_slot lm j) = load32 (memory s) (descriptor_slot lm j))
    \<and> (\<forall>a. fixed lm h A st a \<longrightarrow> memory s' a = memory s a)"
proof -
  from fopen_ok[OF assms] obtain P db fb ib eb s' where r: "fopen lm hw p mode s = Some (int (Suc i), s')"
    "took h A s' (P \<union> {db, fb, ib, eb}) s'" "P \<inter> {db, fb, ib, eb} = {}" "card P = 3" "open_file lm h (memory s') (Suc i) db fb ib eb"
    "fd_opened lm hw idle img (opened_file h fp st cl dat fb ib eb fc)
         (opened_cells lm (opened_file h fp st cl dat fb ib eb fc) (Suc i) (block_addr h db)) (block_addr h db) s' (int (Suc i)) 0
         (file_contents img cl dat fc (unat (load32 (memory s) (items + 32 * of_nat k + 28))))"
    "\<forall>j < 512. j \<noteq> i \<longrightarrow> load32 (memory s') (descriptor_slot lm j) = load32 (memory s) (descriptor_slot lm j)"
    "\<forall>a. fixed lm h A st a \<longrightarrow> memory s' a = memory s a" by blast
  from r(2) have "klive h s' (with_pages A (P \<union> {db, fb, ib, eb}))" unfolding took_def by (rule conjunct1)
  with r(1,3-8) show ?thesis by blast
qed

theorem fopen_opens_witness:
  "\<exists>s' L K desc. fopen session_links session_ports 0x200 0x300 session_machine = Some (1, s')
     \<and> fd_opened session_links session_ports (\<lambda>d. pending d = []) access_image L K desc s' 1 0 (file_contents access_image 2 10 3 600)"
proof -
  have e: "fat16_get_first_cluster_for_directory_item (0x301000 + 32 * of_nat 1) (memory session_machine) = of_nat 3"
    "unat (load32 (memory session_machine) (0x301000 + 32 * of_nat 1 + 28)) = 600" using session_entry(1,2) by simp_all
  from fopen_opens[OF session_live session_room session_request(1) session_ready session_found e(1) session_entry(3,4) _ session_device]
  show ?thesis unfolding e(2) by fastforce
qed



text \<open>
  C18.  \<^verbatim>\<open>fopen\<close> of a name that is not in the root directory, when the uninitialised \<^verbatim>\<open>current_item\<close> happens to be null: it returns 0,
  no descriptor is taken and the driver's page is given back; the pages of the path are lost.
\<close>

theorem fopen_missing:
  fixes s :: "('d, 'a) iostate_scheme"
  assumes "klive h s A" "5 \<le> card (unused_blocks (nblocks h) A)" "open_request lm h A (memory s) p xs mode c"
    and "open_ready lm h A (memory s) fp st cl dat items es" "\<forall>j < length es. \<not> same_name c (es ! j)" "stale_current_item lm = NULL"
  shows "\<exists>P s'. fopen lm hw p mode s = Some (0, s') \<and> klive h s' (with_pages A P) \<and> card P = 3
    \<and> (\<forall>a. fixed lm h A st a \<longrightarrow> memory s' a = memory s a)"
proof -
  from fopen_missing_ok[OF assms] obtain P s' where r: "fopen lm hw p mode s = Some (0, s')" "took h A s' P s'" "card P = 3"
    "\<forall>a. fixed lm h A st a \<longrightarrow> memory s' a = memory s a" by blast
  from r(2) have "klive h s' (with_pages A P)" unfolding took_def by (rule conjunct1)
  with r(1,3,4) show ?thesis by blast
qed

theorem fopen_missing_witness:
  "\<exists>s'. fopen session_links session_ports 0x240 0x300 session_machine = Some (0, s')"
proof -
  have "stale_current_item session_links = NULL" by (simp add: session_links_def file_links_def)
  from fopen_missing[OF session_live session_room session_request(2) session_ready session_missing this] show ?thesis by auto
qed

text \<open>
  C19.  The same request when \<^verbatim>\<open>current_item\<close>, which \<^verbatim>\<open>fat16_get_directory_entry\<close> returns without having assigned it, is not null: \<^verbatim>\<open>fopen\<close> succeeds
  on a file that does not exist, and the descriptor it returns refers to whatever the stack held.
\<close>

theorem fopen_missing_stale:
  fixes s :: "('d, 'a) iostate_scheme"
  assumes "klive h s A" "5 \<le> card (unused_blocks (nblocks h) A)" "open_request lm h A (memory s) p xs mode c"
    and "open_ready lm h A (memory s) fp st cl dat items es" "\<forall>j < length es. \<not> same_name c (es ! j)" "stale_current_item lm \<noteq> NULL"
    and "first_free lm (memory s) i" "i < 511"
  shows "\<exists>db fb s'. fopen lm hw p mode s = Some (int (Suc i), s')
    \<and> descriptor_filled lm h (memory s') (Suc i) db fb (stale_current_item lm)"
  using assms by (rule fopen_stale_ok)

lemma stale_irrelevant:
  "open_request (lm\<lparr>stale_current_item := v\<rparr>) h A m p xs mode c = open_request lm h A m p xs mode c"
  "open_ready (lm\<lparr>stale_current_item := v\<rparr>) h A m fp st cl dat items es = open_ready lm h A m fp st cl dat items es"
  "first_free (lm\<lparr>stale_current_item := v\<rparr>) m i = first_free lm m i"
proof -
  have "fixed (lm\<lparr>stale_current_item := v\<rparr>) h A st = fixed lm h A st"
    by (simp add: fun_eq_iff fixed_def scratch_def name_buffer_def)
  then show "open_ready (lm\<lparr>stale_current_item := v\<rparr>) h A m fp st cl dat items es = open_ready lm h A m fp st cl dat items es"
    by (simp add: open_ready_def mounted_def volume_cells_def scratch_def name_buffer_def)
qed (simp_all add: open_request_def first_free_def)

theorem fopen_missing_stale_witness:
  "\<exists>s' db fb. fopen (session_links\<lparr>stale_current_item := 0x1234\<rparr>) session_ports 0x240 0x300 session_machine = Some (1, s')
     \<and> load32 (memory s') (block_addr kernel_heap_layout fb) = 0x1234
     \<and> load32 (memory s') (block_addr kernel_heap_layout db + 8) = block_addr kernel_heap_layout fb"
proof -
  let ?lm = "session_links\<lparr>stale_current_item := 0x1234\<rparr>"
  have r: "open_request ?lm kernel_heap_layout Map.empty (memory session_machine) 0x240 [48, 58, 47, 98] 0x300 [98]"
    unfolding stale_irrelevant by (rule session_request(2))
  have d: "open_ready ?lm kernel_heap_layout Map.empty (memory session_machine) 0x300000 0x4000 2 10 0x301000 session_entries"
    unfolding stale_irrelevant by (rule session_ready)
  have f: "first_free ?lm (memory session_machine) 0" unfolding stale_irrelevant by (rule session_entry(4))
  have st: "stale_current_item ?lm \<noteq> NULL" by simp
  obtain db fb s' where "fopen ?lm session_ports 0x240 0x300 session_machine = Some (int (Suc 0), s')"
    "descriptor_filled ?lm kernel_heap_layout (memory s') (Suc 0) db fb (stale_current_item ?lm)"
    using fopen_missing_stale[OF session_live session_room r d session_missing st f, of session_ports] by auto
  then show ?thesis by (auto simp: descriptor_filled_def)
qed

text \<open>A text that is not a path is refused before anything is touched.\<close>

lemma fopen_rejects:
  assumes "cstr_at (memory s) p xs" "length xs < 2 ^ 32" "cstr_at (memory s) (colon_slash_at lm) [58, 47]" "\<not> valid_path xs"
  shows "fopen lm hw p mode s = Some (0, s)"
  using path_parse_invalid[OF assms, of NULL] by (simp add: fopen_def)

end
