(* ===== verification/FatStreams.thy ===== *)
theory FatStreams
  imports FileOpen
begin

text \<open>
  The first half of mounting a volume, \<^verbatim>\<open>fat16_resolve\<close> of \<^verbatim>\<open>src/src/fs/fat/fat16.c\<close>: the page of the driver's private data, its
  three streams and the temporary one come from the heap, and the disk object is bound to the driver.  The lemmas say where
  these pages lie and that they and the static objects of the kernel do not overlap.
\<close>

subsection \<open>Holding pages\<close>

text \<open>\<open>holds h A B s\<close>: beside the allocations \<open>A\<close> the pages \<open>B\<close> are live.\<close>

definition holds :: "heap \<Rightarrow> (nat \<rightharpoonup> nat) \<Rightarrow> nat set \<Rightarrow> 'a kstate_scheme \<Rightarrow> bool" where
  "holds h A B s \<longleftrightarrow> took h A s B s"

lemma holds_start: "klive h s A \<Longrightarrow> holds h A {} s"
  by (simp add: holds_def took_refl)

lemma holds_live: "holds h A B s \<Longrightarrow> klive h s (with_pages A B)"
  by (simp add: holds_def took_def)

lemma holds_eq:
  "holds h A B s \<Longrightarrow> kernel_heap s' = kernel_heap s \<Longrightarrow> (\<And>a. in_table h a \<Longrightarrow> memory s' a = memory s a) \<Longrightarrow> holds h A B s'"
proof -
  assume a: "holds h A B s" "kernel_heap s' = kernel_heap s" "\<And>a. in_table h a \<Longrightarrow> memory s' a = memory s a"
  have "klive h (s\<lparr>memory := memory s'\<rparr>) (with_pages A B)" by (rule klive_frame[OF holds_live[OF a(1)]]) (rule a(3))
  then have "klive h s' (with_pages A B)" using a(2) by (auto simp: klive_def kheap_rel_def)
  then show ?thesis using a(1) by (simp add: holds_def took_def)
qed

lemma holds_kzalloc:
  fixes s :: "'a kstate_scheme"
  assumes hd: "holds h A B s" and room: "card B < card (unused_blocks (nblocks h) A)" and sz: "0 < sz" "unat sz \<le> 4096"
  obtains b m where "kzalloc sz s = (block_addr h b, s\<lparr>memory := m\<rparr>)" "holds h A (insert b B) (s\<lparr>memory := m\<rparr>)" "b \<notin> B"
    "\<And>a. in_region (block_addr h b) (unat sz) a \<Longrightarrow> m a = 0" "\<And>a. \<not> in_table h a \<Longrightarrow> \<not> in_blocks h b 1 a \<Longrightarrow> m a = memory s a"
proof -
  have t: "took h A s B s" and B: "B \<subseteq> unused_blocks (nblocks h) A" using hd by (simp_all add: holds_def took_def)
  have ne: "unused_blocks (nblocks h) A - B \<noteq> {}"
  proof
    assume "unused_blocks (nblocks h) A - B = {}"
    then have "unused_blocks (nblocks h) A = B" using B by blast
    then show False using room by simp
  qed
  obtain b m where r: "kzalloc sz s = (block_addr h b, s\<lparr>memory := m\<rparr>)" "took h A s (insert b B) (s\<lparr>memory := m\<rparr>)"
    "b \<notin> B" "b \<in> unused_blocks (nblocks h) A" "\<And>a. in_region (block_addr h b) (unat sz) a \<Longrightarrow> m a = 0" "\<And>a. \<not> in_table h a \<Longrightarrow> \<not> in_blocks h b 1 a \<Longrightarrow> m a = memory s a"
    by (rule took_kzalloc[OF t ne sz], rule that)
  have "holds h A (insert b B) (s\<lparr>memory := m\<rparr>)" using r(2) by (simp add: holds_def took_def)
  then show thesis using that r by blast
qed

lemma holds_kfree:
  fixes s :: "'a kstate_scheme"
  assumes hd: "holds h A (insert b B) s" and b: "b \<notin> B"
  obtains m where "kfree (block_addr h b) s = s\<lparr>memory := m\<rparr>" "holds h A B (s\<lparr>memory := m\<rparr>)" "\<And>a. \<not> in_table h a \<Longrightarrow> m a = memory s a"
proof -
  have t: "took h A s (insert b B) s" "A b = None" using hd by (simp_all add: holds_def took_def)
  obtain m where m: "kfree (block_addr h b) s = s\<lparr>memory := m\<rparr>" using kfree_memory_only by blast
  have "holds h A B (s\<lparr>memory := m\<rparr>)" using took_kfree[OF t(1) b] m by (simp add: holds_def took_def)
  then show thesis using that[OF m] kfree_page(2)[OF holds_live[OF hd] b t(2)] m by simp
qed

lemma holds_page:
  assumes "holds h A B s" "b \<in> B"
  shows "with_pages A B b = Some 1" "heap_wf h" "b < nblocks h" "block_addr h b \<noteq> NULL"
proof -
  show one: "with_pages A B b = Some 1" using assms(2) by simp
  note bb = klive_block[OF holds_live[OF assms(1)] one]
  show "heap_wf h" "b < nblocks h" "block_addr h b \<noteq> NULL" using bb block_addr_nonzero[OF bb(1,2)] by auto
qed

lemma holds_apart:
  assumes "holds h A B s" "b \<in> B" "c \<in> B" "b \<noteq> c" "in_blocks h b 1 a"
  shows "\<not> in_blocks h c 1 a"
  using klive_apart[OF holds_live[OF assms(1)] holds_page(1)[OF assms(1,2)] holds_page(1)[OF assms(1,3)] assms(4,5)] .

lemma holds_off_table:
  assumes "holds h A B s" "b \<in> B" "in_blocks h b 1 a"
  shows "\<not> in_table h a"
  using blocks_not_in_table[OF klive_block(1,3,4)[OF holds_live[OF assms(1)] holds_page(1)[OF assms(1,2)]] assms(3)] .

subsection \<open>Where things are\<close>

text \<open>Memory outside of the heap and its table: static objects and the stack.\<close>

definition static_byte :: "heap \<Rightarrow> u32 \<Rightarrow> bool" where
  "static_byte h a \<longleftrightarrow> \<not> in_table h a \<and> (\<forall>b < nblocks h. \<not> in_blocks h b 1 a)"

definition static_area :: "heap \<Rightarrow> u32 \<Rightarrow> nat \<Rightarrow> bool" where
  "static_area h p n \<longleftrightarrow> (\<forall>a. in_region p n a \<longrightarrow> static_byte h a)"

lemma static_stable: "static_byte h a \<Longrightarrow> stable h A a"
  by (auto simp: static_byte_def stable_def unused_blocks_def)

lemma static_not_page: "static_byte h a \<Longrightarrow> holds h A B s \<Longrightarrow> b \<in> B \<Longrightarrow> \<not> in_blocks h b 1 a"
  using holds_page(3)[of h A B s b] by (simp add: static_byte_def)

text \<open>The local buffers of the driver and of the streams.\<close>

definition local_buffer :: "'l fslinks_scheme \<Rightarrow> u32 \<Rightarrow> bool" where
  "local_buffer lm a \<longleftrightarrow> in_region (tmp_filename_at lm) 128 a \<or> in_region (directory_item_at lm) 32 a \<or> (\<exists>d. in_region (stream_buf_at lm d) 512 a)"

text \<open>
  What the linker and the stack guarantee: the kernel's disk object, the file system object, the descriptor table and the local
  buffers lie outside of the heap and apart from each other; heap addresses are not taken for error codes.
\<close>

definition mount_layout :: "'l filelinks_scheme \<Rightarrow> heap \<Rightarrow> bool" where
  "mount_layout lm h \<longleftrightarrow> disk_at lm \<noteq> NULL \<and> fat16_fs_at lm \<noteq> NULL
     \<and> static_area h (disk_at lm) 20 \<and> static_area h (fat16_fs_at lm) 24 \<and> static_area h (filedescriptors_at lm) 2048
     \<and> (\<forall>a. local_buffer lm a \<longrightarrow> static_byte h a)
     \<and> disjoint_regions (disk_at lm) 20 (fat16_fs_at lm) 24 \<and> disjoint_regions (disk_at lm) 20 (filedescriptors_at lm) 2048
     \<and> disjoint_regions (fat16_fs_at lm) 24 (filedescriptors_at lm) 2048
     \<and> (\<forall>a. in_region (disk_at lm) 20 a \<or> in_region (fat16_fs_at lm) 24 a \<or> in_region (filedescriptors_at lm) 2048 a \<longrightarrow> \<not> local_buffer lm a)
     \<and> (\<forall>d. disjoint_regions (stream_buf_at lm d) 512 (directory_item_at lm) 32)
     \<and> (\<forall>b < nblocks h. \<not> ISERR (block_addr h b))"

lemma page_region: "in_region (block_addr h b + of_nat off) n a \<Longrightarrow> off + n \<le> 4096 \<Longrightarrow> in_blocks h b 1 a"
  using in_region_sub[of "block_addr h b" off n a 4096] by (simp add: in_blocks_def)

lemma page_read_areas:
  fixes lm :: "'l filelinks_scheme"
  assumes lay: "mount_layout lm h" and hd: "holds h A B s" and st: "st \<in> B"
    and dst: "\<And>a. in_region dst n a \<Longrightarrow> (\<exists>b \<in> B - {st}. in_blocks h b 1 a) \<or> in_region (directory_item_at lm) 32 a" "0 < n"
  shows "read_areas (stream_buf_at lm) (block_addr h st) dst n"
proof -
  have buf: "static_byte h a" "\<not> in_blocks h b 1 a" if "in_region (stream_buf_at lm d) 512 a" "b \<in> B" for a d b
    using lay that static_not_page[OF _ hd that(2)] by (auto simp: mount_layout_def local_buffer_def)
  have item: "\<not> in_blocks h b 1 a" "\<not> in_region (stream_buf_at lm d) 512 a" if "in_region (directory_item_at lm) 32 a" "b \<in> B" for a b d
  proof -
    show "\<not> in_blocks h b 1 a" using lay that static_not_page[OF _ hd that(2)] by (auto simp: mount_layout_def local_buffer_def)
    have "disjoint_regions (stream_buf_at lm d) 512 (directory_item_at lm) 32" using lay by (simp add: mount_layout_def)
    then show "\<not> in_region (stream_buf_at lm d) 512 a" using disjoint_regionsD that(1) by blast
  qed
  have inst: "in_blocks h st 1 a" if "in_region (block_addr h st) 8 a" for a using page_region[of h st 0 8 a] that by simp
  have "disjoint_regions (block_addr h st) 8 dst n"
  proof (rule disjoint_regionsI)
    fix a assume a: "in_region dst n a"
    show "\<not> in_region (block_addr h st) 8 a" using dst(1)[OF a] holds_apart[OF hd _ st] inst[of a] item(1)[OF _ st] by blast
  qed (use dst(2) in simp_all)
  moreover have "disjoint_regions (stream_buf_at lm d) 512 (block_addr h st) 8" for d
    by (rule disjoint_regionsI) (use inst buf(2)[OF _ st] in auto)
  moreover have "disjoint_regions (stream_buf_at lm d) 512 dst n" for d
  proof (rule disjoint_regionsI)
    fix a assume "in_region dst n a"
    then show "\<not> in_region (stream_buf_at lm d) 512 a" using dst(1) buf(2) item(2)[OF _ st] by blast
  qed (use dst(2) in simp_all)
  ultimately show ?thesis by (simp add: read_areas_def)
qed

subsection \<open>The streams\<close>

lemma new_stream:
  fixes s :: "('d, 'a) iostate_scheme"
  assumes hd: "holds h A B s" and room: "card B < card (unused_blocks (nblocks h) A)" and disk: "disk_at lm \<noteq> NULL"
  obtains b m where "diskstreamer_new lm 0 s = (block_addr h b, s\<lparr>memory := m\<rparr>)" "holds h A (insert b B) (s\<lparr>memory := m\<rparr>)" "b \<notin> B"
    "stream_at lm m (block_addr h b) 0" "\<And>a. \<not> in_table h a \<Longrightarrow> \<not> in_blocks h b 1 a \<Longrightarrow> m a = memory s a"
proof -
  have sz: "0 < (8 :: u32)" "unat (8 :: u32) \<le> 4096" by simp_all
  obtain b m1 where k: "kzalloc 8 s = (block_addr h b, s\<lparr>memory := m1\<rparr>)" "holds h A (insert b B) (s\<lparr>memory := m1\<rparr>)" "b \<notin> B"
    "\<And>a. in_region (block_addr h b) (unat (8 :: u32)) a \<Longrightarrow> m1 a = 0" "\<And>a. \<not> in_table h a \<Longrightarrow> \<not> in_blocks h b 1 a \<Longrightarrow> m1 a = memory s a"
    by (rule holds_kzalloc[OF hd room sz], rule that)
  let ?b = "block_addr h b"
  define m where "m = store32 (store32 m1 ?b 0) (?b + 4) (disk_at lm)"
  have out: "m a = m1 a" if "\<not> in_blocks h b 1 a" for a
  proof -
    have "\<not> in_region ?b 4 a" "\<not> in_region (?b + 4) 4 a" using that page_region[of h b 0 4 a] page_region[of h b 4 4 a] by auto
    then show ?thesis by (simp add: m_def store32_outside)
  qed
  have eq: "diskstreamer_new lm 0 s = (?b, s\<lparr>memory := m\<rparr>)" using disk k(1) by (simp add: diskstreamer_new_def disk_get_def m_def Let_def)
  have hd': "holds h A (insert b B) (s\<lparr>memory := m\<rparr>)"
    by (rule holds_eq[OF k(2)]) (use out holds_off_table[OF k(2), of b] in auto)
  have st: "stream_at lm m ?b 0" by (simp add: stream_at_def m_def load32_store32_other disjoint_regions_def)
  show thesis by (rule that[OF eq hd' k(3) st]) (use out k(5) in auto)
qed

lemma page_store: "\<not> in_blocks h b 1 a \<Longrightarrow> off + 4 \<le> 4096 \<Longrightarrow> store32 m (block_addr h b + of_nat off) v a = m a"
  using page_region[of h b off 4 a] store32_outside[of "block_addr h b + of_nat off" a m v] by blast

lemma page_load:
  assumes "\<And>a. in_blocks h b 1 a \<Longrightarrow> m' a = m a" "off + 4 \<le> 4096"
  shows "load32 m' (block_addr h b + of_nat off) = load32 m (block_addr h b + of_nat off)"
  by (rule load32_cong) (use assms page_region[of h b off 4] in blast)

lemma stream_at_page:
  assumes "\<And>a. in_blocks h b 1 a \<Longrightarrow> m' a = m a"
  shows "stream_at lm m' (block_addr h b) P = stream_at lm m (block_addr h b) P"
  using page_load[OF assms, where off = 0] page_load[OF assms, where off = 4] by (simp add: stream_at_def)

text \<open>Making a stream and storing its address in the private data, as \<^verbatim>\<open>fat16_init_private\<close> does three times.\<close>

definition add_stream :: "'l linkmap_scheme \<Rightarrow> u32 \<Rightarrow> nat \<Rightarrow> ('d, 'a) iostate_scheme \<Rightarrow> ('d, 'a) iostate_scheme" where
  "add_stream lm p off s = (let (st, s1) = diskstreamer_new lm 0 s in s1\<lparr>memory := store32 (memory s1) (p + of_nat off) st\<rparr>)"

lemma add_stream_ok:
  fixes s :: "('d, 'a) iostate_scheme"
  assumes hd: "holds h A B s" and room: "card B < card (unused_blocks (nblocks h) A)" and disk: "disk_at lm \<noteq> NULL"
    and fb: "fb \<in> B" and off: "off + 4 \<le> 4096"
  obtains b m where "add_stream lm (block_addr h fb) off s = s\<lparr>memory := m\<rparr>" "b \<notin> B" "holds h A (insert b B) (s\<lparr>memory := m\<rparr>)"
    "stream_at lm m (block_addr h b) 0" "load32 m (block_addr h fb + of_nat off) = block_addr h b"
    "\<And>a. \<not> in_table h a \<Longrightarrow> \<not> in_blocks h b 1 a \<Longrightarrow> \<not> in_region (block_addr h fb + of_nat off) 4 a \<Longrightarrow> m a = memory s a"
proof -
  obtain b m where n: "diskstreamer_new lm 0 s = (block_addr h b, s\<lparr>memory := m\<rparr>)" "holds h A (insert b B) (s\<lparr>memory := m\<rparr>)" "b \<notin> B"
    "stream_at lm m (block_addr h b) 0" "\<And>a. \<not> in_table h a \<Longrightarrow> \<not> in_blocks h b 1 a \<Longrightarrow> m a = memory s a"
    by (rule new_stream[OF hd room disk], rule that)
  let ?m = "store32 m (block_addr h fb + of_nat off) (block_addr h b)"
  have out: "?m a = m a" if "\<not> in_blocks h fb 1 a" for a using page_store[OF that off] .
  have fb': "fb \<in> insert b B" "fb \<noteq> b" using fb n(3) by auto
  have eq: "add_stream lm (block_addr h fb) off s = s\<lparr>memory := ?m\<rparr>" using n(1) by (simp add: add_stream_def)
  have hd': "holds h A (insert b B) (s\<lparr>memory := ?m\<rparr>)"
    by (rule holds_eq[OF n(2)]) (use out holds_off_table[OF n(2) fb'(1)] in auto)
  have "?m a = m a" if "in_blocks h b 1 a" for a using out[of a] holds_apart[OF n(2) _ fb'(1) fb'(2)[symmetric] that] by simp
  then have st: "stream_at lm ?m (block_addr h b) 0" using stream_at_page[of h b ?m m lm 0] n(4) by simp
  show thesis
    by (rule that[OF eq n(3) hd' st]) (use n(5) store32_outside[of "block_addr h fb + of_nat off" _ m] in auto)
qed

subsection \<open>The driver's private data\<close>

text \<open>What \<^verbatim>\<open>fat16_resolve\<close> does once the streams exist.\<close>

definition resolve_rest ::
    "'l fslinks_scheme \<Rightarrow> 'd ports \<Rightarrow> u32 \<Rightarrow> u32 \<Rightarrow> u32 \<Rightarrow> ('d, 'a) iostate_scheme \<Rightarrow> (int \<times> ('d, 'a) iostate_scheme) option" where
  "resolve_rest lm hw disk fat_private stream s = do {
     (res, s1) \<leftarrow> do {
       (res1, s2) \<leftarrow> diskstreamer_read lm hw (stream_buf_at lm) 0 stream fat_private 62 s;
       if res1 \<noteq> RAOS_ALL_OK then Some (- EIO, s2)
       else if fat_signature (memory s2) fat_private \<noteq> RAOS_FAT16_SIGNATURE then Some (- EFSNOTUS, s2)
       else do {
         (res2, s3) \<leftarrow> fat16_get_root_directory lm hw disk fat_private (fat_private + 64) s2;
         Some (if res2 \<noteq> RAOS_ALL_OK then - EIO else 0, s3)
       }
     };
     let s4 = diskstreamer_close stream s1;
     Some (if res < 0 then (res, (kfree fat_private s4)\<lparr>memory := store32 (memory (kfree fat_private s4)) (disk + 16) NULL\<rparr>) else (res, s4))
   }"

definition private_streams :: "'l fslinks_scheme \<Rightarrow> heap \<Rightarrow> mem \<Rightarrow> nat \<Rightarrow> nat \<Rightarrow> nat \<Rightarrow> nat \<Rightarrow> bool" where
  "private_streams lm h m fb b1 b2 b3 \<longleftrightarrow> load32 m (block_addr h fb + 80) = block_addr h b1 \<and> load32 m (block_addr h fb + 84) = block_addr h b2
     \<and> load32 m (block_addr h fb + 88) = block_addr h b3 \<and> (\<forall>b \<in> {b1, b2, b3}. stream_at lm m (block_addr h b) 0)"

lemma private_streams_cong:
  assumes "\<And>a. in_region (block_addr h fb + 80) 12 a \<Longrightarrow> m' a = m a" "\<And>b a. b \<in> {b1, b2, b3} \<Longrightarrow> in_blocks h b 1 a \<Longrightarrow> m' a = m a"
  shows "private_streams lm h m' fb b1 b2 b3 = private_streams lm h m fb b1 b2 b3"
proof -
  have c: "load32 m' (block_addr h fb + 80 + of_nat k) = load32 m (block_addr h fb + 80 + of_nat k)" if "k + 4 \<le> 12" for k
    by (rule load32_cong) (use assms(1) in_region_sub[OF _ that] in auto)
  have "load32 m' (block_addr h fb + 80) = load32 m (block_addr h fb + 80)" "load32 m' (block_addr h fb + 84) = load32 m (block_addr h fb + 84)"
    "load32 m' (block_addr h fb + 88) = load32 m (block_addr h fb + 88)"
    using c[of 0] c[of 4] c[of 8] by (simp_all add: add.assoc)
  then show ?thesis using stream_at_page[of h _ m' m lm 0] assms(2) by (simp add: private_streams_def)
qed

lemma init_private_steps:
  fixes s :: "('d, 'a) iostate_scheme"
  assumes "s1 = s\<lparr>memory := memset (memory s) p 0 92\<rparr>" "add_stream lm p 80 s1 = s2" "add_stream lm p 84 s2 = s3" "add_stream lm p 88 s3 = s4"
    and "\<forall>t \<in> {s1, s2, s3}. load32 (memory t) (disk_at lm + 8) = 0"
  shows "fat16_init_private lm (disk_at lm) p s = s4"
  using assms by (auto simp: fat16_init_private_def add_stream_def Let_def split: prod.splits)

lemma init_private_ok:
  fixes s :: "('d, 'a) iostate_scheme" and lm :: "'l filelinks_scheme"
  assumes lay: "mount_layout lm h" and h1: "holds h A {fb} s" and room: "5 \<le> card (unused_blocks (nblocks h) A)"
    and id: "load32 (memory s) (disk_at lm + 8) = 0"
  obtains b1 b2 b3 m where "fat16_init_private lm (disk_at lm) (block_addr h fb) s = s\<lparr>memory := m\<rparr>" "distinct [fb, b1, b2, b3]"
    "holds h A {b3, b2, b1, fb} (s\<lparr>memory := m\<rparr>)" "private_streams lm h m fb b1 b2 b3" "\<And>a. static_byte h a \<Longrightarrow> m a = memory s a"
proof -
  have disk: "disk_at lm \<noteq> NULL" and da: "static_area h (disk_at lm) 20" using lay by (simp_all add: mount_layout_def)
  have d8: "static_byte h a" if "in_region (disk_at lm + 8) 4 a" for a
    using da in_region_sub[of "disk_at lm" 8 4 a 20] that by (simp add: static_area_def)
  let ?U = "card (unused_blocks (nblocks h) A)"
  let ?p = "block_addr h fb"
  define m2 where "m2 = memset (memory s) ?p 0 92"
  have o2: "m2 a = memory s a" if "\<not> in_blocks h fb 1 a" for a
    using that page_region[of h fb 0 92 a] by (auto simp: m2_def memset_eq)
  let ?s2 = "s\<lparr>memory := m2\<rparr>"
  have h2: "holds h A {fb} ?s2" by (rule holds_eq[OF h1]) (use o2 holds_off_table[OF h1] in auto)
  have r1: "card {fb} < ?U" and fb1: "fb \<in> {fb}" using room by simp_all
  obtain b1 m3 where a1: "add_stream lm ?p 80 ?s2 = ?s2\<lparr>memory := m3\<rparr>" "b1 \<notin> {fb}" "holds h A {b1, fb} (?s2\<lparr>memory := m3\<rparr>)"
    "stream_at lm m3 (block_addr h b1) 0" "load32 m3 (?p + of_nat 80) = block_addr h b1"
    "\<And>a. \<not> in_table h a \<Longrightarrow> \<not> in_blocks h b1 1 a \<Longrightarrow> \<not> in_region (?p + of_nat 80) 4 a \<Longrightarrow> m3 a = memory ?s2 a"
    by (rule add_stream_ok[OF h2 r1 disk fb1, where off = 80], simp, rule that)
  let ?s3 = "?s2\<lparr>memory := m3\<rparr>"
  have r2: "card {b1, fb} < ?U" and fb2: "fb \<in> {b1, fb}" using room a1(2) by simp_all
  obtain b2 m4 where a2: "add_stream lm ?p 84 ?s3 = ?s3\<lparr>memory := m4\<rparr>" "b2 \<notin> {b1, fb}" "holds h A {b2, b1, fb} (?s3\<lparr>memory := m4\<rparr>)"
    "stream_at lm m4 (block_addr h b2) 0" "load32 m4 (?p + of_nat 84) = block_addr h b2"
    "\<And>a. \<not> in_table h a \<Longrightarrow> \<not> in_blocks h b2 1 a \<Longrightarrow> \<not> in_region (?p + of_nat 84) 4 a \<Longrightarrow> m4 a = memory ?s3 a"
    by (rule add_stream_ok[OF a1(3) r2 disk fb2, where off = 84], simp, rule that)
  let ?s4 = "?s3\<lparr>memory := m4\<rparr>"
  have r3: "card {b2, b1, fb} < ?U" and fb3: "fb \<in> {b2, b1, fb}" using room a1(2) a2(2) by simp_all
  obtain b3 m5 where a3: "add_stream lm ?p 88 ?s4 = ?s4\<lparr>memory := m5\<rparr>" "b3 \<notin> {b2, b1, fb}" "holds h A {b3, b2, b1, fb} (?s4\<lparr>memory := m5\<rparr>)"
    "stream_at lm m5 (block_addr h b3) 0" "load32 m5 (?p + of_nat 88) = block_addr h b3"
    "\<And>a. \<not> in_table h a \<Longrightarrow> \<not> in_blocks h b3 1 a \<Longrightarrow> \<not> in_region (?p + of_nat 88) 4 a \<Longrightarrow> m5 a = memory ?s4 a"
    by (rule add_stream_ok[OF a2(3) r3 disk fb3, where off = 88], simp, rule that)
  have dist: "distinct [fb, b1, b2, b3]" using a1(2) a2(2) a3(2) by auto
  have hold: "holds h A {b3, b2, b1, fb} (s\<lparr>memory := m5\<rparr>)" using a3(3) by simp
  have pg: "\<not> in_table h a \<and> (\<forall>c \<in> {b3, b2, b1, fb}. c \<noteq> b \<longrightarrow> \<not> in_blocks h c 1 a)" if "in_blocks h b 1 a" "b \<in> {b3, b2, b1, fb}" for a b
    using holds_off_table[OF hold that(2,1)] holds_apart[OF hold that(2)] that(1) by blast
  have reg: "in_blocks h fb 1 a" if "in_region (?p + of_nat off) 4 a" "off \<le> 88" for a off using page_region[OF that(1)] that(2) by simp
  have other: "\<not> in_region (?p + of_nat off) 4 a" if "in_blocks h b 1 a" "b \<in> {b3, b2, b1}" "off \<le> 88" for a b off
    using pg[OF that(1)] reg[of off a] that dist by auto
  have ms: "m3 a = memory s a" "m4 a = memory s a" "m5 a = memory s a" if "static_byte h a" for a
  proof -
    note np = static_not_page[OF that hold]
    have out: "\<not> in_table h a" "\<not> in_blocks h fb 1 a" "\<not> in_blocks h b1 1 a" "\<not> in_blocks h b2 1 a" "\<not> in_blocks h b3 1 a"
      using that np by (simp_all add: static_byte_def)
    have "\<not> in_region (?p + of_nat 80) 4 a" "\<not> in_region (?p + of_nat 84) 4 a" "\<not> in_region (?p + of_nat 88) 4 a"
      using out(2) reg[of 80 a] reg[of 84 a] reg[of 88 a] by auto
    then show "m3 a = memory s a" "m4 a = memory s a" "m5 a = memory s a" using a1(6) a2(6) a3(6) out o2 by simp_all
  qed
  have ids: "load32 m2 (disk_at lm + 8) = 0" "load32 m3 (disk_at lm + 8) = 0" "load32 m4 (disk_at lm + 8) = 0"
    using id load32_cong[of "disk_at lm + 8" m2 "memory s"] load32_cong[of "disk_at lm + 8" m3 "memory s"] load32_cong[of "disk_at lm + 8" m4 "memory s"]
      d8 ms o2 static_not_page[OF d8 hold] by auto
  have k4: "m4 a = m3 a" if "in_blocks h b 1 a" "b \<in> {b1, fb}" "b = fb \<longrightarrow> \<not> in_region (?p + of_nat 84) 4 a" for a b
  proof -
    have "\<not> in_table h a" "\<not> in_blocks h b2 1 a" using pg[OF that(1)] that(2) dist by auto
    moreover have "\<not> in_region (?p + of_nat 84) 4 a" using that(2,3) other[OF that(1), of 84] by auto
    ultimately show ?thesis using a2(6)[of a] by simp
  qed
  have k5: "m5 a = m4 a" if "in_blocks h b 1 a" "b \<in> {b1, b2, fb}" "b = fb \<longrightarrow> \<not> in_region (?p + of_nat 88) 4 a" for a b
  proof -
    have "\<not> in_table h a" "\<not> in_blocks h b3 1 a" using pg[OF that(1)] that(2) dist by auto
    moreover have "\<not> in_region (?p + of_nat 88) 4 a" using that(2,3) other[OF that(1), of 88] by auto
    ultimately show ?thesis using a3(6)[of a] by simp
  qed
  have ne: "b1 \<noteq> fb" "b2 \<noteq> fb" using dist by auto
  have "m5 a = m3 a" if "in_blocks h b1 1 a" for a using k4[OF that] k5[OF that] ne by simp
  then have s1: "stream_at lm m5 (block_addr h b1) 0" using a1(4) stream_at_page[of h b1 m5 m3 lm 0] by simp
  have "m5 a = m4 a" if "in_blocks h b2 1 a" for a using k5[OF that] ne by simp
  then have s2: "stream_at lm m5 (block_addr h b2) 0" using a2(4) stream_at_page[of h b2 m5 m4 lm 0] by simp
  have cells: "disjoint_regions (?p + of_nat 84) 4 (?p + of_nat 80) 4" "disjoint_regions (?p + of_nat 88) 4 (?p + of_nat 80) 4"
    "disjoint_regions (?p + of_nat 88) 4 (?p + of_nat 84) 4" by (simp_all add: disjoint_regions_def)
  have "load32 m5 (?p + of_nat 80) = load32 m3 (?p + of_nat 80)"
  proof (rule load32_cong)
    fix a assume a: "in_region (?p + of_nat 80) 4 a"
    then have "in_blocks h fb 1 a" "\<not> in_region (?p + of_nat 84) 4 a" "\<not> in_region (?p + of_nat 88) 4 a"
      using reg[of 80 a] disjoint_regionsD[OF cells(1)] disjoint_regionsD[OF cells(2)] by auto
    then show "m5 a = m3 a" using k4[of fb a] k5[of fb a] by simp
  qed
  then have l1: "load32 m5 (?p + 80) = block_addr h b1" using a1(5) by simp
  have "load32 m5 (?p + of_nat 84) = load32 m4 (?p + of_nat 84)"
  proof (rule load32_cong)
    fix a assume a: "in_region (?p + of_nat 84) 4 a"
    then have "in_blocks h fb 1 a" "\<not> in_region (?p + of_nat 88) 4 a" using reg[of 84 a] disjoint_regionsD[OF cells(3)] by auto
    then show "m5 a = m4 a" using k5[of fb a] by simp
  qed
  then have l2: "load32 m5 (?p + 84) = block_addr h b2" using a2(5) by simp
  have "?s2 = s\<lparr>memory := memset (memory s) ?p 0 92\<rparr>" by (simp add: m2_def)
  from init_private_steps[OF this a1(1) a2(1) a3(1)] ids have eq: "fat16_init_private lm (disk_at lm) ?p s = s\<lparr>memory := m5\<rparr>" by simp
  have ps: "private_streams lm h m5 fb b1 b2 b3" using s1 s2 a3(4,5) l1 l2 by (simp add: private_streams_def)
  show thesis by (rule that[OF eq dist hold ps]) (rule ms(3))
qed

text \<open>The disk object points to the driver and its private data.\<close>

definition bound :: "'l fslinks_scheme \<Rightarrow> mem \<Rightarrow> u32 \<Rightarrow> bool" where
  "bound lm m fp \<longleftrightarrow> load32 m (disk_at lm + 12) = fat16_fs_at lm \<and> load32 m (disk_at lm + 16) = fp"

lemma bound_cong: "(\<And>a. in_region (disk_at lm) 20 a \<Longrightarrow> m' a = m a) \<Longrightarrow> bound lm m' fp = bound lm m fp"
  using load32_cong[of "disk_at lm + 12" m' m] load32_cong[of "disk_at lm + 16" m' m]
    in_region_sub[of "disk_at lm" 12 4 _ 20] in_region_sub[of "disk_at lm" 16 4 _ 20] by (simp add: bound_def)

lemma resolve_unfold:
  fixes s :: "('d, 'a) iostate_scheme"
  assumes "kzalloc 92 s = (p, s1)" "fat16_init_private lm disk p (s1\<lparr>memory := memset (memory s1) p 0 92\<rparr>) = s2"
    and "s3 = s2\<lparr>memory := store32 (store32 (memory s2) (disk + 16) p) (disk + 12) (fat16_fs_at lm)\<rparr>"
    and "diskstreamer_new lm (disk_id (memory s3) disk) s3 = (stream, s4)" "stream \<noteq> NULL"
  shows "fat16_resolve lm hw disk s = resolve_rest lm hw disk p stream s4"
  using assms by (simp add: fat16_resolve_def resolve_rest_def Let_def cong: if_cong)

lemma resolve_starts:
  fixes s :: "('d, 'a) iostate_scheme" and lm :: "'l filelinks_scheme"
  assumes lay: "mount_layout lm h" and live: "klive h s A" and room: "5 \<le> card (unused_blocks (nblocks h) A)"
    and id: "load32 (memory s) (disk_at lm + 8) = 0"
  obtains fb b1 b2 b3 tb m where "fat16_resolve lm hw (disk_at lm) s = resolve_rest lm hw (disk_at lm) (block_addr h fb) (block_addr h tb) (s\<lparr>memory := m\<rparr>)"
    "distinct [fb, b1, b2, b3, tb]" "holds h A {tb, b3, b2, b1, fb} (s\<lparr>memory := m\<rparr>)" "private_streams lm h m fb b1 b2 b3" "bound lm m (block_addr h fb)"
    "stream_at lm m (block_addr h tb) 0"
    "\<And>a. static_byte h a \<Longrightarrow> \<not> in_region (disk_at lm + 12) 8 a \<Longrightarrow> m a = memory s a"
proof -
  have disk: "disk_at lm \<noteq> NULL" and da: "static_area h (disk_at lm) 20" using lay by (simp_all add: mount_layout_def)
  have dcell: "static_byte h a" if "in_region (disk_at lm + of_nat off) 4 a" "off + 4 \<le> 20" for off a
    using da in_region_sub[OF that(1), of 20] that(2) by (simp add: static_area_def)
  let ?U = "card (unused_blocks (nblocks h) A)"
  have sz: "0 < (92 :: u32)" "unat (92 :: u32) \<le> 4096" and none: "card ({} :: nat set) < ?U" using room by simp_all
  obtain fb m1 where k: "kzalloc 92 s = (block_addr h fb, s\<lparr>memory := m1\<rparr>)" "holds h A {fb} (s\<lparr>memory := m1\<rparr>)" "fb \<notin> {}"
    "\<And>a. in_region (block_addr h fb) (unat (92 :: u32)) a \<Longrightarrow> m1 a = 0" "\<And>a. \<not> in_table h a \<Longrightarrow> \<not> in_blocks h fb 1 a \<Longrightarrow> m1 a = memory s a"
    by (rule holds_kzalloc[OF holds_start[OF live] none sz], rule that)
  let ?p = "block_addr h fb"
  define m2 where "m2 = memset m1 ?p 0 92"
  have o2: "m2 a = m1 a" if "\<not> in_blocks h fb 1 a" for a using that page_region[of h fb 0 92 a] by (auto simp: m2_def memset_eq)
  let ?s2 = "s\<lparr>memory := m2\<rparr>"
  have h2: "holds h A {fb} ?s2" by (rule holds_eq[OF k(2)]) (use o2 holds_off_table[OF k(2)] in auto)
  have m2s: "m2 a = memory s a" if "static_byte h a" for a
    using o2 static_not_page[OF that h2] k(5) that by (simp add: static_byte_def)
  have id2: "load32 (memory ?s2) (disk_at lm + 8) = 0" using id load32_cong[of "disk_at lm + of_nat 8" m2 "memory s"] m2s dcell[of 8] by simp
  obtain b1 b2 b3 m3 where i: "fat16_init_private lm (disk_at lm) ?p ?s2 = ?s2\<lparr>memory := m3\<rparr>" "distinct [fb, b1, b2, b3]"
    "holds h A {b3, b2, b1, fb} (?s2\<lparr>memory := m3\<rparr>)" "private_streams lm h m3 fb b1 b2 b3" "\<And>a. static_byte h a \<Longrightarrow> m3 a = memory ?s2 a"
    by (rule init_private_ok[OF lay h2 room id2], rule that)
  define m4 where "m4 = store32 (store32 m3 (disk_at lm + 16) ?p) (disk_at lm + 12) (fat16_fs_at lm)"
  let ?s4 = "?s2\<lparr>memory := m4\<rparr>"
  have o4: "m4 a = m3 a" if "\<not> in_region (disk_at lm + of_nat 12) 4 a" "\<not> in_region (disk_at lm + of_nat 16) 4 a" for a
    using that by (simp add: m4_def store32_outside)
  have dyn: "m4 a = m3 a" if "\<not> static_byte h a" for a using o4[of a] dcell[of 12 a] dcell[of 16 a] that by auto
  have h4: "holds h A {b3, b2, b1, fb} ?s4" by (rule holds_eq[OF i(3)]) (use dyn in \<open>auto simp: static_byte_def\<close>)
  have r4: "card {b3, b2, b1, fb} < ?U" using room i(2) by simp
  obtain tb m where t: "diskstreamer_new lm 0 ?s4 = (block_addr h tb, ?s4\<lparr>memory := m\<rparr>)" "holds h A {tb, b3, b2, b1, fb} (?s4\<lparr>memory := m\<rparr>)"
    "tb \<notin> {b3, b2, b1, fb}" "stream_at lm m (block_addr h tb) 0" "\<And>a. \<not> in_table h a \<Longrightarrow> \<not> in_blocks h tb 1 a \<Longrightarrow> m a = memory ?s4 a"
    by (rule new_stream[OF h4 r4 disk], rule that)
  have hold: "holds h A {tb, b3, b2, b1, fb} (s\<lparr>memory := m\<rparr>)" using t(2) by simp
  have pg: "m a = m3 a" if "in_blocks h b 1 a" "b \<in> {b3, b2, b1, fb}" for a b
  proof -
    have b: "b \<in> {tb, b3, b2, b1, fb}" "b \<noteq> tb" using that(2) t(3) by auto
    have "\<not> static_byte h a" using static_not_page[OF _ hold b(1)] that(1) by blast
    then show ?thesis using t(5)[OF holds_off_table[OF hold b(1) that(1)] holds_apart[OF hold b(1) _ b(2) that(1)]] dyn by simp
  qed
  have st: "m a = m4 a" if "static_byte h a" for a using t(5)[of a] static_not_page[OF that hold, of tb] that by (simp add: static_byte_def)
  have "private_streams lm h m fb b1 b2 b3 = private_streams lm h m3 fb b1 b2 b3"
    by (rule private_streams_cong) (use pg[of fb] pg page_region[of h fb 80 12] in auto)
  then have "private_streams lm h m fb b1 b2 b3" using i(4) by simp
  moreover have "bound lm m4 ?p" by (simp add: bound_def m4_def load32_store32_other disjoint_regions_def)
  then have "bound lm m ?p" using bound_cong[of lm m m4 ?p] st da by (simp add: static_area_def)
  moreover have "m a = memory s a" if "static_byte h a" "\<not> in_region (disk_at lm + 12) 8 a" for a
    using st[OF that(1)] o4[of a] i(5)[OF that(1)] m2s[OF that(1)] that(2) in_region_sub[of "disk_at lm + 12" 0 4 a 8]
      in_region_sub[of "disk_at lm + 12" 4 4 a 8] by (auto simp: add.assoc)
  moreover have "fat16_resolve lm hw (disk_at lm) s = resolve_rest lm hw (disk_at lm) ?p (block_addr h tb) (s\<lparr>memory := m\<rparr>)"
  proof -
    have "load32 m4 (disk_at lm + of_nat 8) = load32 m2 (disk_at lm + of_nat 8)"
    proof (rule load32_cong)
      fix a assume a: "in_region (disk_at lm + of_nat 8) 4 a"
      have "disjoint_regions (disk_at lm + of_nat 12) 4 (disk_at lm + of_nat 8) 4" "disjoint_regions (disk_at lm + of_nat 16) 4 (disk_at lm + of_nat 8) 4"
        by (simp_all add: disjoint_regions_def)
      then show "m4 a = m2 a" using o4[of a] i(5)[OF dcell[OF a]] a disjoint_regionsD by fastforce
    qed
    then have id4: "disk_id (memory ?s4) (disk_at lm) = 0" using id2 by simp
    have e1: "fat16_init_private lm (disk_at lm) ?p ((s\<lparr>memory := m1\<rparr>)\<lparr>memory := memset (memory (s\<lparr>memory := m1\<rparr>)) ?p 0 92\<rparr>) = ?s2\<lparr>memory := m3\<rparr>"
      using i(1) by (simp add: m2_def)
    have e2: "?s4 = (?s2\<lparr>memory := m3\<rparr>)\<lparr>memory := store32 (store32 (memory (?s2\<lparr>memory := m3\<rparr>)) (disk_at lm + 16) ?p) (disk_at lm + 12) (fat16_fs_at lm)\<rparr>"
      by (simp add: m4_def)
    have e3: "diskstreamer_new lm (disk_id (memory ?s4) (disk_at lm)) ?s4 = (block_addr h tb, ?s4\<lparr>memory := m\<rparr>)" using t(1) id4 by simp
    show ?thesis using resolve_unfold[OF k(1) e1 e2 e3 holds_page(4)[OF hold]] by simp
  qed
  moreover have "distinct [fb, b1, b2, b3, tb]" using i(2) t(3) by auto
  ultimately show thesis using that hold t(4) by blast
qed

end
