(* ===== verification/FatMount.thy ===== *)
theory FatMount
  imports FatStreams
begin

text \<open>
  The second half of mounting a volume: \<^verbatim>\<open>fat16_resolve\<close> reads the header, counts and loads the root directory and leaves the disk
  ready for \<^verbatim>\<open>fopen\<close>; a disk without the FAT16 signature is refused.
\<close>

subsection \<open>The driver's cells\<close>

definition driver_cell :: "'l fslinks_scheme \<Rightarrow> heap \<Rightarrow> nat \<Rightarrow> nat set \<Rightarrow> u32 \<Rightarrow> bool" where
  "driver_cell lm h fb St a \<longleftrightarrow> in_region (block_addr h fb + 80) 12 a \<or> (\<exists>b \<in> St. in_region (block_addr h b + 4) 4 a) \<or> in_region (disk_at lm) 20 a"

text \<open>The private data with its three streams, bound to a disk of 512-byte sectors.\<close>

definition private_at :: "'l fslinks_scheme \<Rightarrow> heap \<Rightarrow> mem \<Rightarrow> nat \<Rightarrow> nat \<Rightarrow> nat \<Rightarrow> nat \<Rightarrow> bool" where
  "private_at lm h m fb b1 b2 b3 \<longleftrightarrow> load32 m (block_addr h fb + 80) = block_addr h b1 \<and> load32 m (block_addr h fb + 84) = block_addr h b2
     \<and> load32 m (block_addr h fb + 88) = block_addr h b3 \<and> (\<forall>b \<in> {b1, b2, b3}. load32 m (block_addr h b + 4) = disk_at lm)
     \<and> bound lm m (block_addr h fb) \<and> load32 m (disk_at lm + 4) = 512"

lemma private_atI:
  "private_streams lm h m fb b1 b2 b3 \<Longrightarrow> bound lm m (block_addr h fb) \<Longrightarrow> load32 m (disk_at lm + 4) = 512 \<Longrightarrow> private_at lm h m fb b1 b2 b3"
  by (simp add: private_streams_def private_at_def stream_at_def)

lemma private_at_cong:
  assumes "\<And>a. driver_cell lm h fb {b1, b2, b3} a \<Longrightarrow> m' a = m a"
  shows "private_at lm h m' fb b1 b2 b3 = private_at lm h m fb b1 b2 b3"
proof -
  have c: "load32 m' (block_addr h fb + 80 + of_nat k) = load32 m (block_addr h fb + 80 + of_nat k)" if "k + 4 \<le> 12" for k
    by (rule load32_cong) (use assms in_region_sub[OF _ that] in \<open>auto simp: driver_cell_def\<close>)
  have "load32 m' (block_addr h fb + 80) = load32 m (block_addr h fb + 80)" "load32 m' (block_addr h fb + 84) = load32 m (block_addr h fb + 84)"
    "load32 m' (block_addr h fb + 88) = load32 m (block_addr h fb + 88)"
    using c[of 0] c[of 4] c[of 8] by (simp_all add: add.assoc)
  moreover have "load32 m' (block_addr h b + 4) = load32 m (block_addr h b + 4)" if "b \<in> {b1, b2, b3}" for b
    by (rule load32_cong) (use assms that in \<open>auto simp: driver_cell_def\<close>)
  moreover have "load32 m' (disk_at lm + 4) = load32 m (disk_at lm + 4)"
    by (rule load32_cong) (use assms in_region_sub[of "disk_at lm" 4 4 _ 20] in \<open>auto simp: driver_cell_def\<close>)
  moreover have "bound lm m' (block_addr h fb) = bound lm m (block_addr h fb)"
    by (rule bound_cong) (use assms in \<open>auto simp: driver_cell_def\<close>)
  ultimately show ?thesis by (simp add: private_at_def)
qed

lemma heads_apart: "disjoint_regions (p + 4) 4 (p :: u32) 4" "disjoint_regions p 80 (p + 80) 12"
  by (simp_all add: disjoint_regions_def)

lemma driver_cell_apart:
  fixes lm :: "'l filelinks_scheme"
  assumes lay: "mount_layout lm h" and hd: "holds h A B s" and sub: "insert fb St \<subseteq> B" "fb \<notin> St" and a: "driver_cell lm h fb St a"
  shows "\<not> in_table h a" "\<not> local_buffer lm a" "\<not> in_region (block_addr h fb) 80 a" "c \<in> St \<Longrightarrow> \<not> in_region (block_addr h c) 4 a"
    "c \<in> B \<Longrightarrow> c \<notin> insert fb St \<Longrightarrow> \<not> in_blocks h c 1 a"
proof -
  consider (priv) "in_region (block_addr h fb + of_nat 80) 12 a" | (strm) b where "b \<in> St" "in_region (block_addr h b + of_nat 4) 4 a" | (dsk) "in_region (disk_at lm) 20 a"
    using a by (auto simp: driver_cell_def)
  note cs = this
  have pages: "(\<exists>b \<in> insert fb St. in_blocks h b 1 a) \<or> static_byte h a \<and> \<not> local_buffer lm a"
    using cs
  proof cases
    case priv
    then show ?thesis using page_region[of h fb 80 12 a] by simp
  next
    case (strm b)
    then show ?thesis using page_region[of h b 4 4 a] by auto
  next
    case dsk
    then show ?thesis using lay by (auto simp: mount_layout_def static_area_def)
  qed
  have np: "\<not> static_byte h a" if "in_blocks h b 1 a" "b \<in> insert fb St" for b using static_not_page[OF _ hd, of a b] that sub(1) by blast
  show "\<not> in_table h a" using pages holds_off_table[OF hd] sub(1) by (auto simp: static_byte_def)
  show "\<not> local_buffer lm a" using pages np lay by (auto simp: mount_layout_def)
  show "\<not> in_blocks h c 1 a" if "c \<in> B" "c \<notin> insert fb St"
    using pages holds_apart[OF hd _ that(1)] sub(1) that static_not_page[OF _ hd that(1)] by blast
  have stat: "\<not> in_blocks h c 1 a" if "in_region (disk_at lm) 20 a" "c \<in> B" for c
    using static_not_page[OF _ hd that(2)] lay that(1) by (auto simp: mount_layout_def static_area_def)
  show "\<not> in_region (block_addr h fb) 80 a"
  proof
    assume i: "in_region (block_addr h fb) 80 a"
    then have f: "in_blocks h fb 1 a" using page_region[of h fb 0 80 a] by simp
    show False using cs
    proof cases
      case priv
      then show False using disjoint_regionsD[OF heads_apart(2)[of "block_addr h fb"], of a] i by auto
    next
      case (strm b)
      then show False using holds_apart[OF hd _ _ _ f, of b] page_region[of h b 4 4 a] sub by auto
    qed (use stat f sub(1) in auto)
  qed
  show "\<not> in_region (block_addr h c) 4 a" if "c \<in> St"
  proof
    assume i: "in_region (block_addr h c) 4 a"
    then have f: "in_blocks h c 1 a" using page_region[of h c 0 4 a] by simp
    have c: "c \<in> B" using that sub(1) by auto
    show False using cs
    proof cases
      case priv
      then show False using holds_apart[OF hd c _ _ f, of fb] page_region[of h fb 80 12 a] sub that by auto
    next
      case (strm b)
      then show False using holds_apart[OF hd c _ _ f, of b] page_region[of h b 4 4 a] sub(1)
          disjoint_regionsD[OF heads_apart(1)[of "block_addr h c"], of a] i by (cases "b = c") auto
    qed (use stat f c in auto)
  qed
qed

subsection \<open>Reading into a page\<close>

lemma page_read:
  fixes s :: "('d, 'a) iostate_scheme" and lm :: "'l filelinks_scheme"
  assumes lay: "mount_layout lm h" and hd: "holds h A B s" and x: "x \<in> B" "st \<in> B" "x \<noteq> st" and n: "0 < n" "n \<le> 4096"
    and dev: "ata_disk hw idle img" "idle (device s)" and at: "stream_at lm (memory s) (block_addr h st) (512 * S)" "512 * S + n < 2 ^ 31"
  obtains d' m' where "idle d'" "diskstreamer_read lm hw (stream_buf_at lm) 0 (block_addr h st) (block_addr h x) (int n) s = Some (0, s\<lparr>device := d', memory := m'\<rparr>)"
    "\<And>k. k < n \<Longrightarrow> m' (block_addr h x + of_nat k) = disk_byte img (512 * S + k)" "holds h A B (s\<lparr>device := d', memory := m'\<rparr>)"
    "\<And>a. \<not> in_region (block_addr h x) n a \<Longrightarrow> \<not> in_region (block_addr h st) 4 a \<Longrightarrow> \<not> local_buffer lm a \<Longrightarrow> m' a = memory s a"
proof -
  have ax: "in_blocks h x 1 a" if "in_region (block_addr h x) n a" for a using page_region[of h x 0 n a] that n(2) by simp
  have ast: "in_blocks h st 1 a" if "in_region (block_addr h st) 4 a" for a using page_region[of h st 0 4 a] that by simp
  have ra: "read_areas (stream_buf_at lm) (block_addr h st) (block_addr h x) n"
    by (rule page_read_areas[OF lay hd x(2) _ n(1)]) (use ax x in auto)
  obtain d' m' where r: "idle d'" "diskstreamer_read lm hw (stream_buf_at lm) 0 (block_addr h st) (block_addr h x) (int n) s = Some (0, s\<lparr>device := d', memory := m'\<rparr>)"
    "\<And>k. k < n \<Longrightarrow> m' (block_addr h x + of_nat k) = disk_byte img (512 * S + k)"
    "\<And>a. \<not> in_region (block_addr h x) n a \<Longrightarrow> \<not> in_region (block_addr h st) 4 a \<Longrightarrow> \<forall>d. \<not> in_region (stream_buf_at lm d) 512 a \<Longrightarrow> m' a = memory s a"
    using diskstreamer_read_image[OF dev at ra n(1), where depth = 0] by auto
  have out: "m' a = memory s a" if "\<not> in_region (block_addr h x) n a" "\<not> in_region (block_addr h st) 4 a" "\<not> local_buffer lm a" for a
    using r(4)[OF that(1,2)] that(3) by (simp add: local_buffer_def)
  have "m' a = memory s a" if "in_table h a" for a
    using out[of a] that ax[of a] ast[of a] holds_off_table[OF hd x(1), of a] holds_off_table[OF hd x(2), of a] lay
    by (auto simp: mount_layout_def static_byte_def)
  then have "holds h A B (s\<lparr>device := d', memory := m'\<rparr>)" by (intro holds_eq[OF hd]) simp_all
  then show thesis using that r out by blast
qed

subsection \<open>The volume on the disk\<close>

text \<open>The bytes of the disk from byte \<open>D\<close> on, as a memory.\<close>

definition disk_view :: "(nat \<Rightarrow> nat \<Rightarrow> u8) \<Rightarrow> nat \<Rightarrow> mem" where
  "disk_view img D a = disk_byte img (D + unat a)"

text \<open>
  A FAT16 volume: the signature, \<open>cl\<close> sectors per cluster, the root directory at sector \<open>S\<close> with room for \<open>E\<close> entries (at most a page of
  them) and \<open>N\<close> of them before the blank one; \<open>es\<close> names the entries the driver will search, the first ones of the table, as
  many as are not deleted.
\<close>

definition fat16_volume :: "(nat \<Rightarrow> nat \<Rightarrow> u8) \<Rightarrow> nat \<Rightarrow> nat \<Rightarrow> nat \<Rightarrow> nat \<Rightarrow> (u8 list \<times> u8 list) list \<Rightarrow> bool" where
  "fat16_volume img cl S E N es \<longleftrightarrow> fat_signature (disk_view img 0) 0 = RAOS_FAT16_SIGNATURE
     \<and> disk_view img 0 13 = of_nat cl \<and> 0 < cl \<and> cl < 256
     \<and> fat_copies (disk_view img 0) 0 * sectors_per_fat (disk_view img 0) 0 + reserved_sectors (disk_view img 0) 0 = int S
     \<and> root_dir_entries (disk_view img 0) 0 = int E \<and> 0 < E \<and> E \<le> 128
     \<and> directory_ends img (512 * S) N \<and> 512 * S + 32 * (N + 1) < 2 ^ 31 \<and> 512 * S + 32 * E < 2 ^ 31
     \<and> length es = live_entries img (512 * S) 0 N \<and> length es \<le> E
     \<and> (\<forall>i < length es. dir_name (disk_view img (512 * S)) (32 * of_nat i) (fst (es ! i)) (snd (es ! i)))"

text \<open>The header of the volume is in memory at \<open>p\<close>.\<close>

definition header_at :: "(nat \<Rightarrow> nat \<Rightarrow> u8) \<Rightarrow> mem \<Rightarrow> u32 \<Rightarrow> bool" where
  "header_at img m p \<longleftrightarrow> (\<forall>k < 62. m (p + of_nat k) = disk_byte img k)"

lemma header_byte: "header_at img m p \<Longrightarrow> k < 62 \<Longrightarrow> m (p + of_nat k) = disk_view img 0 (of_nat k)"
  using unat_of_nat_u32[of k] by (simp add: header_at_def disk_view_def)

lemma header_load16: "header_at img m p \<Longrightarrow> k < 61 \<Longrightarrow> load16 m (p + of_nat k) = load16 (disk_view img 0) (of_nat k)"
  using header_byte[of img m p k] header_byte[of img m p "Suc k"] by (simp add: load16_def ac_simps)

lemma header_fields:
  assumes "header_at img m p"
  shows "m (p + 13) = disk_view img 0 13" "m (p + 16) = disk_view img 0 16" "m (p + 38) = disk_view img 0 38"
    "load16 m (p + 14) = load16 (disk_view img 0) 14" "load16 m (p + 17) = load16 (disk_view img 0) 17" "load16 m (p + 22) = load16 (disk_view img 0) 22"
  using header_byte[OF assms, of 13] header_byte[OF assms, of 16] header_byte[OF assms, of 38]
    header_load16[OF assms, of 14] header_load16[OF assms, of 17] header_load16[OF assms, of 22] by simp_all

lemma header_at_cong: "(\<And>a. in_region p 62 a \<Longrightarrow> m' a = m a) \<Longrightarrow> header_at img m' p = header_at img m p"
  using in_region_of_nat[of _ p 62] by (simp add: header_at_def)

subsection \<open>Loading the root directory\<close>

text \<open>The four fields of the loaded directory.\<close>

definition store_directory :: "mem \<Rightarrow> u32 \<Rightarrow> u32 \<Rightarrow> nat \<Rightarrow> nat \<Rightarrow> nat \<Rightarrow> mem" where
  "store_directory m p dir T S D =
     store32 (store32 (store32 (store32 m p dir) (p + 4) (of_nat T)) (p + 8) (of_nat S)) (p + 12) (of_nat D)"

lemma store_directory_out: "\<not> in_region p 16 a \<Longrightarrow> store_directory m p dir T S D a = m a"
proof -
  assume "\<not> in_region p 16 a"
  then have "\<not> in_region p 4 a" "\<not> in_region (p + 4) 4 a" "\<not> in_region (p + 8) 4 a" "\<not> in_region (p + 12) 4 a"
    using in_region_sub[of p 0 4 a 16] in_region_sub[of p 4 4 a 16] in_region_sub[of p 8 4 a 16] in_region_sub[of p 12 4 a 16] by auto
  then show ?thesis by (simp add: store_directory_def store32_outside)
qed

lemma store_directory_fields:
  "load32 (store_directory m p dir T S D) p = dir" "load32 (store_directory m p dir T S D) (p + 4) = of_nat T"
  "load32 (store_directory m p dir T S D) (p + 12) = of_nat D"
  by (simp_all add: store_directory_def load32_store32_other disjoint_regions_def)

lemma root_directory_unfold:
  fixes s :: "('d, 'a) iostate_scheme"
  assumes vol: "fat16_volume img cl S E N es" and hdr: "header_at img (memory s) fp"
    and tot: "fat16_get_total_items_for_directory lm hw disk (of_nat S) s = Some (int T, s1)"
    and kz: "kzalloc (of_nat (32 * E)) s1 = (dir, s2)" "dir \<noteq> NULL"
    and sz: "load32 (memory s2) (disk + 4) = 512" "load32 (memory s2) (fp + 88) = stream"
    and rd: "diskstreamer_read lm hw (stream_buf_at lm) 0 stream dir (int (32 * E)) (s2\<lparr>memory := store32 (memory s2) stream (of_nat (512 * S))\<rparr>) = Some (0, s4)"
    and sz4: "load32 (store32 (store32 (store32 (memory s4) directory dir) (directory + 4) (of_nat T)) (directory + 8) (of_nat S)) (disk + 4) = 512"
  shows "fat16_get_root_directory lm hw disk fp directory s = Some (0, s4\<lparr>memory := store_directory (memory s4) directory dir T S (S + 32 * E div 512)\<rparr>)"
proof -
  note f = header_fields[OF hdr]
  have pos: "uint (memory s (fp + 16)) * uint (load16 (memory s) (fp + 22)) + uint (load16 (memory s) (fp + 14)) = int S"
    and ents: "uint (load16 (memory s) (fp + 17)) = int E" using vol by (simp_all add: fat16_volume_def f)
  have b: "512 * S < 2 ^ 31" using vol by (simp add: fat16_volume_def)
  have w: "(word_of_int (int S) :: u32) = of_nat S" "(word_of_int (int E * 32) :: u32) = of_nat (32 * E)" "int E * 32 = int (32 * E)" by simp_all
  have seek: "(word_of_int (wrap32 (int S * 512)) :: u32) = of_nat (512 * S)" by (simp add: wrap32_def)
  have d: "32 * int E sdiv 512 = int (E div 16)" "32 * E div 512 = E div 16"
    using vol by (simp_all add: fat16_volume_def signed_divide_int_def zdiv_int)
  show ?thesis
    using tot kz sz rd sz4 unfolding fat16_get_root_directory_def Let_def pos ents w(1)
    by (simp add: w d seek fat16_sector_to_absolute_def diskstreamer_seek_def store_directory_def)
qed

text \<open>What the driver writes while it loads the directory: the directory's fields, the positions of the streams, other pages of its own, its buffers.\<close>

definition driver_only :: "'l fslinks_scheme \<Rightarrow> heap \<Rightarrow> nat set \<Rightarrow> nat \<Rightarrow> nat set \<Rightarrow> mem \<Rightarrow> mem \<Rightarrow> bool" where
  "driver_only lm h B fb St m m' \<longleftrightarrow> (\<forall>a. \<not> in_table h a \<longrightarrow> \<not> local_buffer lm a \<longrightarrow> \<not> in_region (block_addr h fb + 64) 16 a
     \<longrightarrow> (\<forall>c \<in> St. \<not> in_region (block_addr h c) 4 a) \<longrightarrow> (\<forall>c \<in> B - insert fb St. \<not> in_blocks h c 1 a) \<longrightarrow> m' a = m a)"

lemma driver_only_trans: "driver_only lm h B fb St m m1 \<Longrightarrow> driver_only lm h B' fb St m1 m2 \<Longrightarrow> B \<subseteq> B' \<Longrightarrow> driver_only lm h B' fb St m m2"
  by (auto simp: driver_only_def subset_eq)

lemma driver_only_keeps:
  fixes lm :: "'l filelinks_scheme"
  assumes lay: "mount_layout lm h" and hd: "holds h A B s" and sub: "{fb, b1, b2, b3} \<subseteq> B" "fb \<notin> {b1, b2, b3}"
    and d: "driver_only lm h B fb {b1, b2, b3} m m'"
  shows "private_at lm h m' fb b1 b2 b3 = private_at lm h m fb b1 b2 b3" "header_at img m' (block_addr h fb) = header_at img m (block_addr h fb)"
    "static_byte h a \<Longrightarrow> \<not> local_buffer lm a \<Longrightarrow> m' a = m a"
proof -
  have page: "in_blocks h fb 1 a" if "in_region (block_addr h fb + 64) 16 a" for a using page_region[of h fb 64 16 a] that by simp
  have head: "in_blocks h c 1 a" if "in_region (block_addr h c) 4 a" for c a using page_region[of h c 0 4 a] that by simp
  have in80: "in_region (block_addr h fb) 80 a" if "in_region (block_addr h fb + 64) 16 a" for a using in_region_sub[of "block_addr h fb" 64 16 a 80] that by simp
  show "m' a = m a" if "static_byte h a" "\<not> local_buffer lm a" for a
    using d page[of a] head[of _ a] static_not_page[OF that(1) hd] sub(1) that by (auto simp: driver_only_def static_byte_def)
  show "private_at lm h m' fb b1 b2 b3 = private_at lm h m fb b1 b2 b3"
  proof (rule private_at_cong)
    fix a assume a: "driver_cell lm h fb {b1, b2, b3} a"
    note ap = driver_cell_apart[OF lay hd sub a]
    show "m' a = m a" using d ap(1,2,4,5) ap(3) in80[of a] unfolding driver_only_def by blast
  qed
  show "header_at img m' (block_addr h fb) = header_at img m (block_addr h fb)"
  proof (rule header_at_cong)
    fix a assume a: "in_region (block_addr h fb) 62 a"
    have f: "in_blocks h fb 1 a" using page_region[of h fb 0 62 a] a by simp
    have "disjoint_regions (block_addr h fb + 64) 16 (block_addr h fb) 62" by (simp add: disjoint_regions_def)
    then have "\<not> in_region (block_addr h fb + 64) 16 a" using disjoint_regionsD a by blast
    have fB: "fb \<in> B" using sub(1) by simp
    have ap: "\<not> in_blocks h c 1 a" if "c \<in> B" "c \<noteq> fb" for c using holds_apart[OF hd fB that(1) _ f] that(2) by auto
    have hs: "\<not> in_region (block_addr h c) 4 a" if "c \<in> {b1, b2, b3}" for c using ap[of c] head[of c a] that sub by auto
    have "\<not> local_buffer lm a" using lay static_not_page[OF _ hd fB, of a] f by (auto simp: mount_layout_def)
    then show "m' a = m a" using d holds_off_table[OF hd fB f] \<open>\<not> in_region (block_addr h fb + 64) 16 a\<close> hs ap unfolding driver_only_def by blast
  qed
qed

lemma count_root:
  fixes s :: "('d, 'a) iostate_scheme" and lm :: "'l filelinks_scheme"
  assumes lay: "mount_layout lm h" and hd: "holds h A B s" and sub: "{fb, b1, b2, b3} \<subseteq> B" "fb \<notin> {b1, b2, b3}"
    and dev: "ata_disk hw idle img" "idle (device s)" and pr: "private_at lm h (memory s) fb b1 b2 b3" and vol: "fat16_volume img cl S E N es"
  obtains d' m' where "idle d'" "fat16_get_total_items_for_directory lm hw (disk_at lm) (of_nat S) s = Some (int (length es), s\<lparr>device := d', memory := m'\<rparr>)"
    "holds h A B (s\<lparr>device := d', memory := m'\<rparr>)" "driver_only lm h B fb {b1, b2, b3} (memory s) m'"
proof -
  have b3: "b3 \<in> B" using sub by simp
  have v: "volume_at lm (memory s) (block_addr h fb)" "directory_stream (memory s) (block_addr h fb) = block_addr h b3"
    "load32 (memory s) (block_addr h b3 + 4) = disk_at lm" using pr by (simp_all add: private_at_def bound_def volume_at_def)
  have ra: "read_areas (stream_buf_at lm) (block_addr h b3) (directory_item_at lm) 32"
    by (rule page_read_areas[OF lay hd b3]) simp_all
  have lim: "512 * S + 32 * (N + 1) < 2 ^ 31" "directory_ends img (512 * S) N" "live_entries img (512 * S) 0 N = length es"
    using vol by (simp_all add: fat16_volume_def)
  obtain d' m' where t: "idle d'" "fat16_get_total_items_for_directory lm hw (disk_at lm) (of_nat S) s = Some (int (length es), s\<lparr>device := d', memory := m'\<rparr>)"
    "\<And>a. \<not> in_region (directory_item_at lm) 32 a \<Longrightarrow> \<not> in_region (block_addr h b3) 4 a \<Longrightarrow> \<forall>d. \<not> in_region (stream_buf_at lm d) 512 a \<Longrightarrow> m' a = memory s a"
    using total_items_ok[OF dev v ra lim(1,2)] lim(3) by auto
  have out: "m' a = memory s a" if "\<not> in_region (block_addr h b3) 4 a" "\<not> local_buffer lm a" for a
    using t(3)[of a] that by (simp add: local_buffer_def)
  have "m' a = memory s a" if "in_table h a" for a
    using out[of a] that page_region[of h b3 0 4 a] holds_off_table[OF hd b3, of a] lay by (auto simp: mount_layout_def static_byte_def)
  then have "holds h A B (s\<lparr>device := d', memory := m'\<rparr>)" by (intro holds_eq[OF hd]) simp_all
  moreover have "driver_only lm h B fb {b1, b2, b3} (memory s) m'" using out by (simp add: driver_only_def)
  ultimately show thesis using that t(1,2) by blast
qed

lemma load_root:
  fixes s :: "('d, 'a) iostate_scheme" and lm :: "'l filelinks_scheme"
  assumes lay: "mount_layout lm h" and hd: "holds h A B s" and sub: "{fb, b1, b2, b3} \<subseteq> B" "fb \<notin> {b1, b2, b3}"
    and room: "card B < card (unused_blocks (nblocks h) A)"
    and dev: "ata_disk hw idle img" "idle (device s)" and pr: "private_at lm h (memory s) fb b1 b2 b3" and E: "0 < E" "E \<le> 128" "512 * S + 32 * E < 2 ^ 31"
  obtains db m2 d' m' where "kzalloc (of_nat (32 * E)) s = (block_addr h db, s\<lparr>memory := m2\<rparr>)" "db \<notin> B" "private_at lm h m2 fb b1 b2 b3"
    "diskstreamer_read lm hw (stream_buf_at lm) 0 (block_addr h b3) (block_addr h db) (int (32 * E)) (s\<lparr>memory := store32 m2 (block_addr h b3) (of_nat (512 * S))\<rparr>)
       = Some (0, s\<lparr>device := d', memory := m'\<rparr>)" "idle d'"
    "holds h A (insert db B) (s\<lparr>device := d', memory := m'\<rparr>)" "driver_only lm h (insert db B) fb {b1, b2, b3} (memory s) m'"
    "\<And>k. k < 32 * E \<Longrightarrow> m' (block_addr h db + of_nat k) = disk_byte img (512 * S + k)"
proof -
  let ?St = "{b1, b2, b3}" and ?t = "block_addr h b3"
  have u: "unat (of_nat (32 * E) :: u32) = 32 * E" using E(2) by (intro unat_of_nat_u32) simp
  have sz: "0 < (of_nat (32 * E) :: u32)" "unat (of_nat (32 * E) :: u32) \<le> 4096" using E u by (simp_all only: word_less_nat_alt) simp_all
  obtain db m2 where k: "kzalloc (of_nat (32 * E)) s = (block_addr h db, s\<lparr>memory := m2\<rparr>)" "holds h A (insert db B) (s\<lparr>memory := m2\<rparr>)" "db \<notin> B"
    "\<And>a. in_region (block_addr h db) (unat (of_nat (32 * E) :: u32)) a \<Longrightarrow> m2 a = 0" "\<And>a. \<not> in_table h a \<Longrightarrow> \<not> in_blocks h db 1 a \<Longrightarrow> m2 a = memory s a"
    by (rule holds_kzalloc[OF hd room sz], rule that)
  let ?B = "insert db B"
  have db: "db \<in> ?B - insert fb ?St" "db \<in> ?B" "b3 \<in> ?B" "db \<noteq> b3" "{fb, b1, b2, b3} \<subseteq> ?B" using k(3) sub by auto
  have o2: "driver_only lm h ?B fb ?St (memory s) m2" using k(5) db(1) by (auto simp: driver_only_def)
  have p2: "private_at lm h m2 fb b1 b2 b3" using driver_only_keeps(1)[OF lay k(2) db(5) sub(2) o2] pr by simp
  define m3 where "m3 = store32 m2 ?t (of_nat (512 * S))"
  let ?s3 = "s\<lparr>memory := m3\<rparr>"
  have "m3 a = m2 a" if "in_table h a" for a
    using page_store[of h b3 a 0 m2] holds_off_table[OF k(2) db(3), of a] that by (auto simp: m3_def)
  then have h3: "holds h A ?B ?s3" by (intro holds_eq[OF k(2)]) simp_all
  have st3: "stream_at lm (memory ?s3) ?t (512 * S)"
    using p2 by (simp add: stream_at_def m3_def private_at_def load32_store32_other disjoint_regions_def)
  have o3: "driver_only lm h ?B fb ?St (memory s) m3"
    by (rule driver_only_trans[OF o2]) (auto simp: driver_only_def m3_def store32_outside)
  have idle3: "idle (device ?s3)" and n: "0 < 32 * E" "32 * E \<le> 4096" using dev(2) E by simp_all
  obtain d4 m4 where r: "idle d4" "diskstreamer_read lm hw (stream_buf_at lm) 0 ?t (block_addr h db) (int (32 * E)) ?s3 = Some (0, ?s3\<lparr>device := d4, memory := m4\<rparr>)"
    "\<And>k. k < 32 * E \<Longrightarrow> m4 (block_addr h db + of_nat k) = disk_byte img (512 * S + k)" "holds h A ?B (?s3\<lparr>device := d4, memory := m4\<rparr>)"
    "\<And>a. \<not> in_region (block_addr h db) (32 * E) a \<Longrightarrow> \<not> in_region ?t 4 a \<Longrightarrow> \<not> local_buffer lm a \<Longrightarrow> m4 a = memory ?s3 a"
    by (rule page_read[OF lay h3 db(2,3,4) n dev(1) idle3 st3 E(3)], rule that)
  have o4: "driver_only lm h ?B fb ?St (memory s) m4"
  proof (rule driver_only_trans[OF o3 _ subset_refl])
    have "in_blocks h db 1 a" if "in_region (block_addr h db) (32 * E) a" for a using page_region[of h db 0 "32 * E" a] that n(2) by simp
    then show "driver_only lm h ?B fb ?St m3 m4" using r(5) db(1) unfolding driver_only_def by auto
  qed
  show thesis by (rule that[OF k(1,3) p2 _ r(1) _ o4 r(3)]) (use r(2,4) in \<open>simp_all add: m3_def\<close>)
qed

lemma root_directory_ok:
  fixes s :: "('d, 'a) iostate_scheme" and lm :: "'l filelinks_scheme"
  assumes lay: "mount_layout lm h" and hd: "holds h A B s" and sub: "{fb, b1, b2, b3} \<subseteq> B" "fb \<notin> {b1, b2, b3}"
    and room: "card B < card (unused_blocks (nblocks h) A)"
    and dev: "ata_disk hw idle img" "idle (device s)" and pr: "private_at lm h (memory s) fb b1 b2 b3" and vol: "fat16_volume img cl S E N es"
    and hdr: "header_at img (memory s) (block_addr h fb)"
  obtains db d' m' where "idle d'" "db \<notin> B"
    "fat16_get_root_directory lm hw (disk_at lm) (block_addr h fb) (block_addr h fb + 64) s = Some (0, s\<lparr>device := d', memory := m'\<rparr>)"
    "holds h A (insert db B) (s\<lparr>device := d', memory := m'\<rparr>)" "driver_only lm h (insert db B) fb {b1, b2, b3} (memory s) m'"
    "load32 m' (block_addr h fb + 64) = block_addr h db" "load32 m' (block_addr h fb + 68) = of_nat (length es)"
    "load32 m' (block_addr h fb + 76) = of_nat (S + 32 * E div 512)" "\<And>k. k < 32 * E \<Longrightarrow> m' (block_addr h db + of_nat k) = disk_byte img (512 * S + k)"
proof -
  let ?p = "block_addr h fb" and ?St = "{b1, b2, b3}" and ?t = "block_addr h b3"
  obtain d1 m1 where c: "idle d1" "fat16_get_total_items_for_directory lm hw (disk_at lm) (of_nat S) s = Some (int (length es), s\<lparr>device := d1, memory := m1\<rparr>)"
    "holds h A B (s\<lparr>device := d1, memory := m1\<rparr>)" "driver_only lm h B fb ?St (memory s) m1"
    by (rule count_root[OF lay hd sub dev pr vol], rule that)
  let ?s1 = "s\<lparr>device := d1, memory := m1\<rparr>"
  have E: "0 < E" "E \<le> 128" "512 * S + 32 * E < 2 ^ 31" using vol by (simp_all add: fat16_volume_def)
  have p1: "idle (device ?s1)" "private_at lm h (memory ?s1) fb b1 b2 b3" using c(1) driver_only_keeps(1)[OF lay hd sub c(4)] pr by simp_all
  obtain db m2 d4 m4 where r: "kzalloc (of_nat (32 * E)) ?s1 = (block_addr h db, ?s1\<lparr>memory := m2\<rparr>)" "db \<notin> B" "private_at lm h m2 fb b1 b2 b3"
    "diskstreamer_read lm hw (stream_buf_at lm) 0 ?t (block_addr h db) (int (32 * E)) (?s1\<lparr>memory := store32 m2 ?t (of_nat (512 * S))\<rparr>)
       = Some (0, ?s1\<lparr>device := d4, memory := m4\<rparr>)" "idle d4"
    "holds h A (insert db B) (?s1\<lparr>device := d4, memory := m4\<rparr>)" "driver_only lm h (insert db B) fb ?St (memory ?s1) m4"
    "\<And>k. k < 32 * E \<Longrightarrow> m4 (block_addr h db + of_nat k) = disk_byte img (512 * S + k)"
    by (rule load_root[OF lay c(3) sub room dev(1) p1 E], rule that)
  let ?B = "insert db B"
  have db: "db \<in> ?B" "fb \<in> ?B" "db \<noteq> fb" "{fb, b1, b2, b3} \<subseteq> ?B" using r(2) sub by auto
  have o4: "driver_only lm h ?B fb ?St (memory s) m4" by (rule driver_only_trans[OF c(4)]) (use r(7) in auto)
  define m5 where "m5 = store_directory m4 (?p + 64) (block_addr h db) (length es) S (S + 32 * E div 512)"
  have off: "m5 a = m4 a" if "\<not> in_region (?p + 64) 16 a" for a using that by (simp add: m5_def store_directory_out)
  have pg: "in_blocks h fb 1 a" if "in_region (?p + 64) 16 a" for a using page_region[of h fb 64 16 a] that by simp
  have "m5 a = m4 a" if "in_table h a" for a using off[of a] pg[of a] holds_off_table[OF r(6) db(2), of a] that by auto
  then have h5: "holds h A ?B (s\<lparr>device := d4, memory := m5\<rparr>)" by (intro holds_eq[OF r(6)]) simp_all
  have o5: "driver_only lm h ?B fb ?St (memory s) m5" by (rule driver_only_trans[OF o4]) (use off in \<open>auto simp: driver_only_def\<close>)
  have bytes: "m5 (block_addr h db + of_nat k) = disk_byte img (512 * S + k)" if "k < 32 * E" for k
  proof -
    have "in_region (block_addr h db + of_nat k) 1 (block_addr h db + of_nat k)" by (simp add: in_region_def)
    then have "in_blocks h db 1 (block_addr h db + of_nat k)" by (rule page_region) (use that E in simp)
    then have "\<not> in_blocks h fb 1 (block_addr h db + of_nat k)" using holds_apart[OF r(6) db(1,2,3)] by auto
    then show ?thesis using off[of "block_addr h db + of_nat k"] pg r(8)[OF that] by auto
  qed
  define m4' where "m4' = store32 (store32 (store32 m4 (?p + 64) (block_addr h db)) (?p + 64 + 4) (of_nat (length es))) (?p + 64 + 8) (of_nat S)"
  have "load32 m4' (disk_at lm + of_nat 4) = load32 m4 (disk_at lm + of_nat 4)"
  proof (rule load32_cong)
    fix a assume "in_region (disk_at lm + of_nat 4) 4 a"
    then have "static_byte h a" using lay in_region_sub[of "disk_at lm" 4 4 a 20] by (auto simp: mount_layout_def static_area_def)
    then have "\<not> in_blocks h fb 1 a" using static_not_page[OF _ r(6) db(2)] by blast
    then show "m4' a = m4 a" using page_store[of h fb a 64] page_store[of h fb a 68] page_store[of h fb a 72] by (simp add: m4'_def add.assoc)
  qed
  moreover have "private_at lm h m4 fb b1 b2 b3" using driver_only_keeps(1)[OF lay r(6) db(4) sub(2) o4] pr by simp
  ultimately have "load32 m4' (disk_at lm + 4) = 512" by (simp add: private_at_def)
  then have eq: "fat16_get_root_directory lm hw (disk_at lm) ?p (?p + 64) s = Some (0, s\<lparr>device := d4, memory := m5\<rparr>)"
    using root_directory_unfold[OF vol hdr c(2) r(1) holds_page(4)[OF r(6) db(1)], of ?t "?s1\<lparr>device := d4, memory := m4\<rparr>" "?p + 64"] r(3,4)
    by (simp add: m5_def m4'_def private_at_def)
  show thesis
    by (rule that[OF r(5,2) eq h5 o5 _ _ _ bytes]) (use store_directory_fields[of m4 "?p + 64"] in \<open>simp_all add: m5_def add.assoc\<close>)
qed

subsection \<open>Ready for \<open>fopen\<close>\<close>

lemma dir_name_transfer: "(\<And>j. j < 12 \<Longrightarrow> m (p + of_nat j) = v (q + of_nat j)) \<Longrightarrow> dir_name v q n e \<Longrightarrow> dir_name m p n e"
proof -
  assume a: "\<And>j. j < 12 \<Longrightarrow> m (p + of_nat j) = v (q + of_nat j)" and d: "dir_name v q n e"
  have "m (p + of_nat i) = v (q + of_nat i)" if "i < 8" for i using a[of i] that by simp
  moreover have "m (p + 8 + of_nat i) = v (q + 8 + of_nat i)" if "i < 3" for i using a[of "8 + i"] that by (simp add: add.assoc)
  moreover have "m (p + 11) = v (q + 11)" using a[of 11] by simp
  ultimately show ?thesis using d by (simp add: dir_name_def)
qed

lemma loaded_directory:
  assumes vol: "fat16_volume img cl S E N es" and ld: "load32 m dir = items" "load32 m (dir + 4) = of_nat (length es)"
    and bytes: "\<And>k. k < 32 * E \<Longrightarrow> m (items + of_nat k) = disk_byte img (512 * S + k)"
  shows "directory_of m dir items es"
proof -
  have len: "length es \<le> E" "E \<le> 128" and nm: "\<And>i. i < length es \<Longrightarrow> dir_name (disk_view img (512 * S)) (32 * of_nat i) (fst (es ! i)) (snd (es ! i))"
    using vol by (simp_all add: fat16_volume_def)
  have "dir_name m (items + 32 * of_nat i) (fst (es ! i)) (snd (es ! i))" if i: "i < length es" for i
  proof (rule dir_name_transfer[OF _ nm[OF i]])
    fix j :: nat assume "j < 12"
    then have b: "32 * i + j < 32 * E" "32 * i + j < 2 ^ 32" using i len by simp_all
    have w: "32 * of_nat i + of_nat j = (of_nat (32 * i + j) :: u32)" by simp
    have "m (items + of_nat (32 * i + j)) = disk_view img (512 * S) (of_nat (32 * i + j))"
      using bytes[OF b(1)] unat_of_nat_u32[OF b(2)] by (simp only: disk_view_def)
    then show "m (items + 32 * of_nat i + of_nat j) = disk_view img (512 * S) (32 * of_nat i + of_nat j)" by (simp only: add.assoc w)
  qed
  then show ?thesis using ld len by (simp add: directory_of_def)
qed

text \<open>The static object \<^verbatim>\<open>fat16_fs\<close> as its initialiser has it: the entry points of the driver.\<close>

definition fs_object :: "'l fslinks_scheme \<Rightarrow> mem \<Rightarrow> bool" where
  "fs_object lm m \<longleftrightarrow> load32 m (fat16_fs_at lm) = fat16_resolve_at lm \<and> load32 m (fat16_fs_at lm + 4) = fat16_open_at lm \<and> load32 m (fat16_fs_at lm + 8) = fat16_read_at lm
     \<and> load32 m (fat16_fs_at lm + 12) = fat16_seek_at lm \<and> load32 m (fat16_fs_at lm + 16) = fat16_stat_at lm
     \<and> load32 m (fat16_fs_at lm + 20) = fat16_close_at lm"

lemma fs_object_cong:
  assumes "\<And>a. in_region (fat16_fs_at lm) 24 a \<Longrightarrow> m' a = m a"
  shows "fs_object lm m' = fs_object lm m"
proof -
  have "load32 m' (fat16_fs_at lm + of_nat k) = load32 m (fat16_fs_at lm + of_nat k)" if "k + 4 \<le> 24" for k
    by (rule load32_cong) (use assms in_region_sub[OF _ that] in auto)
  from this[of 0] this[of 4] this[of 8] this[of 12] this[of 16] this[of 20] show ?thesis by (simp add: fs_object_def)
qed

lemma mounted_cells:
  fixes lm :: "'l filelinks_scheme"
  assumes lay: "mount_layout lm h" and hd: "holds h A B s" and bs: "{fb, b1, db} \<subseteq> B" "distinct [fb, b1, db]" and n: "32 * n \<le> 4096"
  shows "kept (fixed lm h (with_pages A B) (block_addr h b1)) (volume_cells lm (block_addr h fb) (block_addr h b1) \<union> search_cells (block_addr h fb + 64) (block_addr h db) n)"
proof -
  let ?st = "block_addr h b1" and ?K = "fixed lm h (with_pages A B) (block_addr h b1)"
  have B: "fb \<in> B" "b1 \<in> B" "db \<in> B" using bs(1) by auto
  have head: "in_blocks h b1 1 a" if "in_region ?st 4 a" for a using page_region[of h b1 0 4 a] that by simp
  have static: "?K a" if "static_byte h a" "\<not> local_buffer lm a" "\<not> in_region (filedescriptors_at lm) 2048 a" for a
    using that static_stable[OF that(1)] head static_not_page[OF that(1) hd B(2)] by (auto simp: fixed_def scratch_def name_buffer_def local_buffer_def)
  have page: "?K a" if "in_blocks h b 1 a" "b \<in> B" "\<not> in_region ?st 4 a" for a b
  proof -
    have "stable h (with_pages A B) a" using stable_page[of h A s B s b a] hd that by (simp add: holds_def)
    moreover have ns: "\<not> static_byte h a" using static_not_page[OF _ hd that(2)] that(1) by blast
    moreover have "\<not> local_buffer lm a" "\<not> in_region (filedescriptors_at lm) 2048 a" using ns lay by (auto simp: mount_layout_def static_area_def)
    ultimately show ?thesis using that(3) by (auto simp: fixed_def scratch_def name_buffer_def local_buffer_def)
  qed
  have priv: "?K a" if "in_region (block_addr h b + of_nat off) j a" "off + j \<le> 4096" "b \<in> {fb, db}" for a b off j
  proof -
    have i: "in_blocks h b 1 a" "b \<in> B" "b \<noteq> b1" using page_region[OF that(1,2)] that(3) bs by auto
    then show ?thesis using page[OF i(1,2)] holds_apart[OF hd i(2) B(2) i(3,1)] head by blast
  qed
  have disk: "?K a" if "in_region (disk_at lm + of_nat off) 4 a" "off + 4 \<le> 20" for a off
    using static[of a] in_region_sub[OF that] lay disjoint_regionsD[of "disk_at lm" 20 "filedescriptors_at lm" 2048 a] by (auto simp: mount_layout_def static_area_def)
  have fs: "?K a" if "in_region (fat16_fs_at lm + of_nat off) 4 a" "off + 4 \<le> 24" for a off
    using static[of a] in_region_sub[OF that] lay disjoint_regionsD[of "fat16_fs_at lm" 24 "filedescriptors_at lm" 2048 a] by (auto simp: mount_layout_def static_area_def)
  have strm: "?K a" if "in_region (?st + of_nat 4) 4 a" for a
    using page[OF page_region[OF that] B(2)] disjoint_regionsD[OF heads_apart(1)[of ?st], of a] that by auto
  show ?thesis
    using disk[of 4] disk[of 12] disk[of 16] fs[of 4] fs[of 8] fs[of 12] fs[of 16] fs[of 20] priv[of fb 13 1] priv[of fb 76 4] priv[of fb 80 4]
      priv[of fb 64 8] priv[of db 0 "32 * n"] strm n
    by (auto simp: kept_def volume_cells_def search_cells_def)
qed

lemma mount_ready:
  fixes lm :: "'l filelinks_scheme"
  assumes lay: "mount_layout lm h" and hd: "holds h A B s" and bs: "{fb, b1, db} \<subseteq> B" "distinct [fb, b1, db]"
    and pr: "private_at lm h (memory s) fb b1 b2 b3" and fs: "fs_object lm (memory s)" and hdr: "header_at img (memory s) (block_addr h fb)"
    and vol: "fat16_volume img cl S E N es" and ld: "load32 (memory s) (block_addr h fb + 64) = block_addr h db"
      "load32 (memory s) (block_addr h fb + 68) = of_nat (length es)" "load32 (memory s) (block_addr h fb + 76) = of_nat dat"
    and bytes: "\<And>k. k < 32 * E \<Longrightarrow> memory s (block_addr h db + of_nat k) = disk_byte img (512 * S + k)"
  shows "open_ready lm h (with_pages A B) (memory s) (block_addr h fb) (block_addr h b1) cl dat (block_addr h db) es"
proof -
  have "memory s (block_addr h fb + 13) = of_nat cl" "0 < cl" "cl < 256" and n: "32 * length es \<le> 4096"
    using vol header_fields(1)[OF hdr] by (simp_all add: fat16_volume_def)
  then have "mounted lm (memory s) (block_addr h fb) (block_addr h b1) cl dat"
    using pr fs ld(3) lay by (simp add: mounted_def private_at_def bound_def fs_object_def mount_layout_def)
  moreover have "directory_of (memory s) (block_addr h fb + 64) (block_addr h db) es"
    using loaded_directory[OF vol ld(1) _ bytes] ld(2) by (simp add: add.assoc)
  moreover note mounted_cells[OF lay hd bs n]
  moreover have b1: "b1 \<in> B" and head: "\<And>a. in_region (block_addr h b1) 4 a \<Longrightarrow> in_blocks h b1 1 a" using bs(1) page_region[of h b1 0 4] by auto
  moreover have "stable h (with_pages A B) a" if "scratch lm (block_addr h b1) a" for a
    using that lay static_stable[of h a] stable_page[OF hd[unfolded holds_def] b1 head, of a] by (auto simp: scratch_def name_buffer_def mount_layout_def local_buffer_def)
  moreover have "stable h (with_pages A B) a \<and> \<not> scratch lm (block_addr h b1) a" if "in_region (filedescriptors_at lm) 2048 a" for a
  proof -
    have s: "static_byte h a" "\<not> local_buffer lm a" using lay that by (auto simp: mount_layout_def static_area_def)
    then show ?thesis using static_stable[OF s(1)] static_not_page[OF s(1) hd b1] head[of a] by (auto simp: scratch_def name_buffer_def local_buffer_def)
  qed
  ultimately show ?thesis using lay by (auto simp: open_ready_def mount_layout_def)
qed

subsection \<open>Mounting\<close>

text \<open>What \<^verbatim>\<open>fat16_resolve\<close> is given: the kernel's disk object as \<^verbatim>\<open>disk_search_and_init\<close> leaves it, and free pages.\<close>

definition mountable :: "'l filelinks_scheme \<Rightarrow> heap \<Rightarrow> (nat \<rightharpoonup> nat) \<Rightarrow> ('d, 'a) iostate_scheme \<Rightarrow> bool" where
  "mountable lm h A s \<longleftrightarrow> mount_layout lm h \<and> klive h s A \<and> 6 \<le> card (unused_blocks (nblocks h) A)
     \<and> load32 (memory s) (disk_at lm + 4) = 512 \<and> load32 (memory s) (disk_at lm + 8) = 0"

lemma header_step:
  fixes s :: "('d, 'a) iostate_scheme" and lm :: "'l filelinks_scheme"
  assumes mt: "mountable lm h A s" and dev: "ata_disk hw idle img" "idle (device s)"
  obtains fb b1 b2 b3 tb d' m n where "fat16_resolve lm hw (disk_at lm) s = resolve_rest lm hw (disk_at lm) (block_addr h fb) (block_addr h tb) (s\<lparr>memory := n\<rparr>)"
    "diskstreamer_read lm hw (stream_buf_at lm) 0 (block_addr h tb) (block_addr h fb) 62 (s\<lparr>memory := n\<rparr>) = Some (0, s\<lparr>device := d', memory := m\<rparr>)"
    "idle d'" "distinct [fb, b1, b2, b3, tb]" "holds h A {tb, b3, b2, b1, fb} (s\<lparr>device := d', memory := m\<rparr>)" "private_at lm h m fb b1 b2 b3"
    "header_at img m (block_addr h fb)" "\<And>a. static_byte h a \<Longrightarrow> \<not> local_buffer lm a \<Longrightarrow> \<not> in_region (disk_at lm + 12) 8 a \<Longrightarrow> m a = memory s a"
proof -
  have a: "mount_layout lm h" "klive h s A" "5 \<le> card (unused_blocks (nblocks h) A)" "load32 (memory s) (disk_at lm + 8) = 0" using mt by (simp_all add: mountable_def)
  obtain fb b1 b2 b3 tb n where r: "fat16_resolve lm hw (disk_at lm) s = resolve_rest lm hw (disk_at lm) (block_addr h fb) (block_addr h tb) (s\<lparr>memory := n\<rparr>)"
    "distinct [fb, b1, b2, b3, tb]" "holds h A {tb, b3, b2, b1, fb} (s\<lparr>memory := n\<rparr>)" "private_streams lm h n fb b1 b2 b3" "bound lm n (block_addr h fb)"
    "stream_at lm n (block_addr h tb) 0" "\<And>a. static_byte h a \<Longrightarrow> \<not> in_region (disk_at lm + 12) 8 a \<Longrightarrow> n a = memory s a"
    by (rule resolve_starts[OF a, where hw = hw], rule that)
  let ?B = "{tb, b3, b2, b1, fb}" and ?s = "s\<lparr>memory := n\<rparr>"
  have st: "stream_at lm (memory ?s) (block_addr h tb) (512 * 0)" and lim: "(512 * 0 :: nat) + 62 < 2 ^ 31" "0 < (62 :: nat)" "62 \<le> (4096 :: nat)" and dv: "idle (device ?s)"
    and B: "fb \<in> ?B" "tb \<in> ?B" "fb \<noteq> tb" using r(2,6) dev by auto
  obtain d' m where p: "idle d'" "diskstreamer_read lm hw (stream_buf_at lm) 0 (block_addr h tb) (block_addr h fb) (int 62) ?s = Some (0, ?s\<lparr>device := d', memory := m\<rparr>)"
    "\<And>k. k < 62 \<Longrightarrow> m (block_addr h fb + of_nat k) = disk_byte img (512 * 0 + k)" "holds h A ?B (?s\<lparr>device := d', memory := m\<rparr>)"
    "\<And>a. \<not> in_region (block_addr h fb) 62 a \<Longrightarrow> \<not> in_region (block_addr h tb) 4 a \<Longrightarrow> \<not> local_buffer lm a \<Longrightarrow> m a = memory ?s a"
    by (rule page_read[OF a(1) r(3) B lim(2,3) dev(1) dv st lim(1)], rule that)
  have pg: "in_blocks h fb 1 a" if "in_region (block_addr h fb) 62 a" for a using page_region[of h fb 0 62 a] that by simp
  have pt: "in_blocks h tb 1 a" if "in_region (block_addr h tb) 4 a" for a using page_region[of h tb 0 4 a] that by simp
  have stat: "m a = n a" if "static_byte h a" "\<not> local_buffer lm a" for a
    using p(5)[of a] pg[of a] pt[of a] static_not_page[OF that(1) r(3)] that(2) by auto
  have d4: "static_byte h a \<and> \<not> in_region (disk_at lm + 12) 8 a" if "in_region (disk_at lm + of_nat 4) 4 a" for a
  proof -
    have "disjoint_regions (disk_at lm + 12) 8 (disk_at lm + of_nat 4) 4" by (simp add: disjoint_regions_def)
    then show ?thesis using a(1) in_region_sub[OF that, of 20] disjoint_regionsD that by (fastforce simp: mount_layout_def static_area_def)
  qed
  have "load32 n (disk_at lm + of_nat 4) = load32 (memory s) (disk_at lm + of_nat 4)" by (rule load32_cong) (use d4 r(7) in auto)
  then have pr: "private_at lm h n fb b1 b2 b3" using private_atI[OF r(4,5)] mt by (simp add: mountable_def)
  have "private_at lm h m fb b1 b2 b3 = private_at lm h n fb b1 b2 b3"
  proof (rule private_at_cong)
    fix a assume c: "driver_cell lm h fb {b1, b2, b3} a"
    have sub: "insert fb {b1, b2, b3} \<subseteq> ?B" "fb \<notin> {b1, b2, b3}" "tb \<notin> insert fb {b1, b2, b3}" using r(2) by auto
    note ap = driver_cell_apart[OF a(1) r(3) sub(1,2) c]
    have "\<not> in_region (block_addr h fb) 62 a" using ap(3) in_region_sub[of "block_addr h fb" 0 62 a 80] by auto
    then show "m a = n a" using p(5)[of a] ap(2) ap(5)[OF B(2) sub(3)] pt[of a] by auto
  qed
  then show thesis using that[OF r(1) _ p(1) r(2), of m] p(2,3,4) pr stat r(7) by (simp add: header_at_def)
qed

lemma resolve_ok:
  fixes s :: "('d, 'a) iostate_scheme" and lm :: "'l filelinks_scheme"
  assumes mt: "mountable lm h A s" and dev: "ata_disk hw idle img" "idle (device s)" and fs: "fs_object lm (memory s)" and vol: "fat16_volume img cl S E N es"
  obtains fb b1 b2 b3 db d' m' where "fat16_resolve lm hw (disk_at lm) s = Some (0, s\<lparr>device := d', memory := m'\<rparr>)" "idle d'" "distinct [fb, b1, b2, b3, db]"
    "holds h A {fb, b1, b2, b3, db} (s\<lparr>device := d', memory := m'\<rparr>)"
    "open_ready lm h (with_pages A {fb, b1, b2, b3, db}) m' (block_addr h fb) (block_addr h b1) cl (S + 32 * E div 512) (block_addr h db) es"
    "\<And>k. k < 32 * E \<Longrightarrow> m' (block_addr h db + of_nat k) = disk_byte img (512 * S + k)"
    "\<And>a. static_byte h a \<Longrightarrow> \<not> local_buffer lm a \<Longrightarrow> \<not> in_region (disk_at lm + 12) 8 a \<Longrightarrow> m' a = memory s a"
proof -
  have lay: "mount_layout lm h" and room: "6 \<le> card (unused_blocks (nblocks h) A)" using mt by (simp_all add: mountable_def)
  obtain fb b1 b2 b3 tb d1 m1 n where st: "fat16_resolve lm hw (disk_at lm) s = resolve_rest lm hw (disk_at lm) (block_addr h fb) (block_addr h tb) (s\<lparr>memory := n\<rparr>)"
    "diskstreamer_read lm hw (stream_buf_at lm) 0 (block_addr h tb) (block_addr h fb) 62 (s\<lparr>memory := n\<rparr>) = Some (0, s\<lparr>device := d1, memory := m1\<rparr>)"
    "idle d1" "distinct [fb, b1, b2, b3, tb]" "holds h A {tb, b3, b2, b1, fb} (s\<lparr>device := d1, memory := m1\<rparr>)" "private_at lm h m1 fb b1 b2 b3"
    "header_at img m1 (block_addr h fb)" "\<And>a. static_byte h a \<Longrightarrow> \<not> local_buffer lm a \<Longrightarrow> \<not> in_region (disk_at lm + 12) 8 a \<Longrightarrow> m1 a = memory s a"
    by (rule header_step[OF mt dev], rule that)
  let ?B = "{tb, b3, b2, b1, fb}" and ?s1 = "s\<lparr>device := d1, memory := m1\<rparr>"
  have sub: "{fb, b1, b2, b3} \<subseteq> ?B" "fb \<notin> {b1, b2, b3}" and r1: "card ?B < card (unused_blocks (nblocks h) A)" using st(4) room by auto
  have i1: "idle (device ?s1)" "private_at lm h (memory ?s1) fb b1 b2 b3" "header_at img (memory ?s1) (block_addr h fb)" using st by simp_all
  obtain db d2 m2 where rt: "idle d2" "db \<notin> ?B"
    "fat16_get_root_directory lm hw (disk_at lm) (block_addr h fb) (block_addr h fb + 64) ?s1 = Some (0, ?s1\<lparr>device := d2, memory := m2\<rparr>)"
    "holds h A (insert db ?B) (?s1\<lparr>device := d2, memory := m2\<rparr>)" "driver_only lm h (insert db ?B) fb {b1, b2, b3} (memory ?s1) m2"
    "load32 m2 (block_addr h fb + 64) = block_addr h db" "load32 m2 (block_addr h fb + 68) = of_nat (length es)"
    "load32 m2 (block_addr h fb + 76) = of_nat (S + 32 * E div 512)" "\<And>k. k < 32 * E \<Longrightarrow> m2 (block_addr h db + of_nat k) = disk_byte img (512 * S + k)"
    by (rule root_directory_ok[OF lay st(5) sub r1 dev(1) i1(1,2) vol i1(3)], rule that)
  let ?s2 = "s\<lparr>device := d2, memory := m2\<rparr>" and ?C = "{fb, b1, b2, b3, db}"
  have C: "insert db ?B = insert tb ?C" "tb \<notin> ?C" "{fb, b1, b2, b3} \<subseteq> insert db ?B" "distinct [fb, b1, b2, b3, db]" using st(4) rt(2) by auto
  have h2: "holds h A (insert tb ?C) ?s2" using rt(4) C(1) by simp
  obtain m3 where k: "kfree (block_addr h tb) ?s2 = ?s2\<lparr>memory := m3\<rparr>" "holds h A ?C (?s2\<lparr>memory := m3\<rparr>)" "\<And>a. \<not> in_table h a \<Longrightarrow> m3 a = memory ?s2 a"
    by (rule holds_kfree[OF h2 C(2)], rule that)
  let ?s3 = "s\<lparr>device := d2, memory := m3\<rparr>"
  have h3: "holds h A ?C ?s3" using k(2) by simp
  have o3: "driver_only lm h (insert db ?B) fb {b1, b2, b3} (memory ?s1) m3"
    by (rule driver_only_trans[OF rt(5)]) (use k(3) in \<open>auto simp: driver_only_def\<close>)
  note kp = driver_only_keeps[OF lay rt(4) C(3) sub(2) o3]
  have pr3: "private_at lm h (memory ?s3) fb b1 b2 b3" "header_at img (memory ?s3) (block_addr h fb)" using kp(1,2) i1(2,3) by simp_all
  have stat: "m3 a = memory s a" if "static_byte h a" "\<not> local_buffer lm a" "\<not> in_region (disk_at lm + 12) 8 a" for a
    using kp(3)[OF that(1,2)] st(8)[OF that] by simp
  have "fs_object lm m3 = fs_object lm (memory s)"
  proof (rule fs_object_cong)
    fix a assume a: "in_region (fat16_fs_at lm) 24 a"
    have "\<not> in_region (disk_at lm) 20 a" using lay a disjoint_regionsD[of "disk_at lm" 20 "fat16_fs_at lm" 24 a] by (auto simp: mount_layout_def)
    then have "\<not> in_region (disk_at lm + 12) 8 a" using in_region_sub[of "disk_at lm" 12 8 a 20] by auto
    then show "m3 a = memory s a" using stat[of a] lay a by (auto simp: mount_layout_def static_area_def)
  qed
  then have fs3: "fs_object lm (memory ?s3)" using fs by simp
  have pages: "m3 a = m2 a" if "in_blocks h b 1 a" "b \<in> ?C" for a b using k(3)[OF holds_off_table[OF h3 that(2,1)]] by simp
  have ld: "load32 (memory ?s3) (block_addr h fb + of_nat off) = load32 m2 (block_addr h fb + of_nat off)" if "off + 4 \<le> 4096" for off
    using page_load[of h fb m3 m2, OF _ that] pages[of fb] by simp
  have bytes: "memory ?s3 (block_addr h db + of_nat k) = disk_byte img (512 * S + k)" if "k < 32 * E" for k
  proof -
    have "32 * E \<le> 4096" using vol by (simp add: fat16_volume_def)
    then have "in_blocks h db 1 (block_addr h db + of_nat k)" using page_region[of h db k 1 "block_addr h db + of_nat k"] that by (simp add: in_region_def)
    then show ?thesis using pages[of db] rt(9)[OF that] by simp
  qed
  have ready: "open_ready lm h (with_pages A ?C) (memory ?s3) (block_addr h fb) (block_addr h b1) cl (S + 32 * E div 512) (block_addr h db) es"
    by (rule mount_ready[OF lay h3 _ _ pr3(1) fs3 pr3(2) vol _ _ _ bytes])
      (use C(4) rt(6,7,8) ld[of 64] ld[of 68] ld[of 76] in auto)
  have "fat16_resolve lm hw (disk_at lm) s = Some (0, ?s3)"
    using st(1,2,7) rt(3) k(1) vol header_fields(3)[OF st(7)] by (simp add: resolve_rest_def diskstreamer_close_def fat16_volume_def)
  then show thesis using that[OF _ rt(1) C(4) h3] ready bytes stat by simp
qed

text \<open>A disk whose header lacks the signature.\<close>

lemma resolve_refuses:
  fixes s :: "('d, 'a) iostate_scheme" and lm :: "'l filelinks_scheme"
  assumes mt: "mountable lm h A s" and dev: "ata_disk hw idle img" "idle (device s)" and sig: "fat_signature (disk_view img 0) 0 \<noteq> RAOS_FAT16_SIGNATURE"
  obtains b1 b2 b3 d' m' where "fat16_resolve lm hw (disk_at lm) s = Some (- EFSNOTUS, s\<lparr>device := d', memory := m'\<rparr>)" "idle d'" "distinct [b1, b2, b3]"
    "holds h A {b1, b2, b3} (s\<lparr>device := d', memory := m'\<rparr>)" "load32 m' (disk_at lm + 16) = NULL"
    "\<And>a. static_byte h a \<Longrightarrow> \<not> local_buffer lm a \<Longrightarrow> \<not> in_region (disk_at lm + 12) 8 a \<Longrightarrow> m' a = memory s a"
proof -
  have lay: "mount_layout lm h" using mt by (simp add: mountable_def)
  obtain fb b1 b2 b3 tb d1 m1 n where st: "fat16_resolve lm hw (disk_at lm) s = resolve_rest lm hw (disk_at lm) (block_addr h fb) (block_addr h tb) (s\<lparr>memory := n\<rparr>)"
    "diskstreamer_read lm hw (stream_buf_at lm) 0 (block_addr h tb) (block_addr h fb) 62 (s\<lparr>memory := n\<rparr>) = Some (0, s\<lparr>device := d1, memory := m1\<rparr>)"
    "idle d1" "distinct [fb, b1, b2, b3, tb]" "holds h A {tb, b3, b2, b1, fb} (s\<lparr>device := d1, memory := m1\<rparr>)" "private_at lm h m1 fb b1 b2 b3"
    "header_at img m1 (block_addr h fb)" "\<And>a. static_byte h a \<Longrightarrow> \<not> local_buffer lm a \<Longrightarrow> \<not> in_region (disk_at lm + 12) 8 a \<Longrightarrow> m1 a = memory s a"
    by (rule header_step[OF mt dev], rule that)
  let ?s1 = "s\<lparr>device := d1, memory := m1\<rparr>" and ?C = "{b1, b2, b3}"
  have C: "tb \<notin> insert fb ?C" "fb \<notin> ?C" "distinct [b1, b2, b3]" "{tb, b3, b2, b1, fb} = insert tb (insert fb ?C)" using st(4) by auto
  obtain m2 where k2: "kfree (block_addr h tb) ?s1 = ?s1\<lparr>memory := m2\<rparr>" "holds h A (insert fb ?C) (?s1\<lparr>memory := m2\<rparr>)" "\<And>a. \<not> in_table h a \<Longrightarrow> m2 a = memory ?s1 a"
    by (rule holds_kfree[OF st(5)[unfolded C(4)] C(1)], rule that)
  obtain m3 where k3: "kfree (block_addr h fb) (?s1\<lparr>memory := m2\<rparr>) = ?s1\<lparr>memory := m2\<rparr>\<lparr>memory := m3\<rparr>" "holds h A ?C (?s1\<lparr>memory := m2\<rparr>\<lparr>memory := m3\<rparr>)"
    "\<And>a. \<not> in_table h a \<Longrightarrow> m3 a = memory (?s1\<lparr>memory := m2\<rparr>) a"
    by (rule holds_kfree[OF k2(2) C(2)], rule that)
  define m4 where "m4 = store32 m3 (disk_at lm + 16) NULL"
  have o4: "m4 a = m3 a" if "\<not> (static_byte h a \<and> in_region (disk_at lm + 12) 8 a)" for a
  proof -
    have "\<not> in_region (disk_at lm + 16) 4 a"
      using that lay in_region_sub[of "disk_at lm" 16 4 a 20] in_region_sub[of "disk_at lm + 12" 4 4 a 8]
      by (auto simp: mount_layout_def static_area_def add.assoc)
    then show ?thesis by (simp add: m4_def store32_outside)
  qed
  have "m4 a = m3 a" if "in_table h a" for a by (rule o4) (use that in \<open>simp add: static_byte_def\<close>)
  then have h4: "holds h A ?C (s\<lparr>device := d1, memory := m4\<rparr>)" by (intro holds_eq[OF k3(2)]) simp_all
  have "fat16_resolve lm hw (disk_at lm) s = Some (- EFSNOTUS, s\<lparr>device := d1, memory := m4\<rparr>)"
    using st(1,2) sig header_fields(3)[OF st(7)] k2(1) k3(1) by (simp add: resolve_rest_def diskstreamer_close_def m4_def)
  moreover have "m4 a = memory s a" if "static_byte h a" "\<not> local_buffer lm a" "\<not> in_region (disk_at lm + 12) 8 a" for a
    using o4[of a] k3(3)[of a] k2(3)[of a] st(8)[OF that] that by (simp add: static_byte_def)
  ultimately show thesis using that[OF _ st(3) C(3) h4] by (simp add: m4_def)
qed

end
