(* ===== verification/Mount.thy ===== *)
theory Mount
  imports FatMount FileSession
begin

text \<open>
  From \<^verbatim>\<open>fs_init\<close> and \<^verbatim>\<open>disk_search_and_init\<close>, the part of \<^verbatim>\<open>kernel_main\<close> that finds the file system, to the file operations: on a disk with a
  FAT16 volume the files of the root directory can be read; on any other disk \<^verbatim>\<open>fopen\<close> returns 0.
\<close>

subsection \<open>Loading the file systems\<close>

text \<open>The static memory that the two initialisations write.\<close>

definition boot_area :: "'l filelinks_scheme \<Rightarrow> u32 \<Rightarrow> bool" where
  "boot_area lm a \<longleftrightarrow> in_region (filedescriptors_at lm) 2048 a \<or> in_region (filesystems_at lm) 64 a \<or> in_region (fat16_fs_at lm + 24) 20 a
     \<or> in_region (disk_at lm) 20 a"

definition boot_layout :: "'l filelinks_scheme \<Rightarrow> heap \<Rightarrow> bool" where
  "boot_layout lm h \<longleftrightarrow> mount_layout lm h \<and> static_area h (filesystems_at lm) 64 \<and> static_area h (fat16_fs_at lm + 24) 20 \<and> filesystems_at lm \<noteq> NULL
     \<and> disjoint_regions (disk_at lm) 20 (filesystems_at lm) 64 \<and> disjoint_regions (filedescriptors_at lm) 2048 (filesystems_at lm) 64
     \<and> disjoint_regions (fat16_fs_at lm) 24 (filesystems_at lm) 64 \<and> disjoint_regions (fat16_fs_at lm + 24) 20 (filesystems_at lm) 64
     \<and> disjoint_regions (fat16_fs_at lm + 24) 20 (filedescriptors_at lm) 2048
     \<and> (\<forall>a. in_region (filesystems_at lm) 64 a \<longrightarrow> \<not> local_buffer lm a)"

text \<open>Static memory that neither the initialisations nor the driver touch.\<close>

definition quiet :: "'l filelinks_scheme \<Rightarrow> heap \<Rightarrow> u32 \<Rightarrow> bool" where
  "quiet lm h a \<longleftrightarrow> static_byte h a \<and> \<not> local_buffer lm a \<and> \<not> boot_area lm a \<and> \<not> in_region (fat16_fs_at lm) 24 a"

text \<open>The initialised data of the program: the file system object, and its name in memory that satisfies \<open>K\<close>.\<close>

definition boot_data :: "'l filelinks_scheme \<Rightarrow> (u32 \<Rightarrow> bool) \<Rightarrow> mem \<Rightarrow> bool" where
  "boot_data lm K m \<longleftrightarrow> fs_object lm m
     \<and> (\<exists>ns. cstr_at m (fat16_name_at lm) ns \<and> length ns < 20 \<and> (\<forall>i \<le> length ns. K (fat16_name_at lm + of_nat i)))"

lemma load32_blank: "(\<And>a. in_region p 4 a \<Longrightarrow> m a = 0) \<Longrightarrow> load32 m p = 0"
  using load32_cong[of p m "\<lambda>_. 0"] by (simp add: load32_def)

lemma fs_init_ok:
  fixes s :: "'a machine_scheme"
  assumes lay: "boot_layout lm h" and bd: "boot_data lm (quiet lm h) (memory s)"
  obtains m where "fs_init lm s = Some (s\<lparr>memory := m\<rparr>)" "\<And>a. in_region (filedescriptors_at lm) 2048 a \<Longrightarrow> m a = 0"
    "\<And>i. i < 16 \<Longrightarrow> load32 m (filesystem_slot lm i) = (if i = 0 then fat16_fs_at lm else NULL)"
    "\<And>a. \<not> boot_area lm a \<Longrightarrow> m a = memory s a"
proof -
  define m1 where "m1 = memset (memset (memory s) (filedescriptors_at lm) 0 2048) (filesystems_at lm) 0 64"
  obtain ns where ns: "cstr_at (memory s) (fat16_name_at lm) ns" "length ns < 20" "\<forall>i \<le> length ns. \<not> boot_area lm (fat16_name_at lm + of_nat i)"
    using bd by (auto simp: boot_data_def quiet_def)
  have dj: "disjoint_regions (disk_at lm) 20 (filesystems_at lm) 64" "disjoint_regions (disk_at lm) 20 (filedescriptors_at lm) 2048"
    "disjoint_regions (disk_at lm) 20 (fat16_fs_at lm) 24" "disjoint_regions (filedescriptors_at lm) 2048 (filesystems_at lm) 64"
    "disjoint_regions (fat16_fs_at lm + 24) 20 (filesystems_at lm) 64" "disjoint_regions (fat16_fs_at lm + 24) 20 (filedescriptors_at lm) 2048"
    using lay by (simp_all add: boot_layout_def mount_layout_def)
  have m1: "m1 a = (if in_region (filesystems_at lm) 64 a \<or> in_region (filedescriptors_at lm) 2048 a then 0 else memory s a)" for a
    by (simp add: m1_def memset_eq)
  have c1: "cstr_at m1 (fat16_name_at lm) ns" using cstr_at_cong[of ns m1 "fat16_name_at lm" "memory s"] ns(1,3) by (simp add: m1 boot_area_def)
  have "disjoint_regions (fat16_fs_at lm + 24) (Suc (length ns)) (fat16_name_at lm) (Suc (length ns))"
  proof (rule disjoint_regionsI)
    fix a assume a: "in_region (fat16_name_at lm) (Suc (length ns)) a"
    define i where "i = unat (a - fat16_name_at lm)"
    have "a = fat16_name_at lm + of_nat i" "i \<le> length ns" using a by (simp_all add: i_def in_region_def)
    then have "\<not> in_region (fat16_fs_at lm + 24) 20 a" using ns(3) by (simp add: boot_area_def)
    then show "\<not> in_region (fat16_fs_at lm + 24) (Suc (length ns)) a" using ns(2) by (simp add: in_region_def)
  qed simp_all
  from strcpy_cstr[OF c1 _ this] ns(2) obtain m2 where m2: "strcpy m1 (fat16_fs_at lm + 24) (fat16_name_at lm) = Some m2"
    "\<And>a. \<not> in_region (fat16_fs_at lm + 24) (Suc (length ns)) a \<Longrightarrow> m2 a = m1 a" by auto
  have o2: "m2 a = m1 a" if "\<not> in_region (fat16_fs_at lm + 24) 20 a" for a
    by (rule m2(2)) (use that ns(2) in \<open>simp add: in_region_def\<close>)
  have slots: "load32 m2 (filesystem_slot lm i) = 0" if "i < 16" for i
  proof (rule load32_blank)
    fix a assume "in_region (filesystem_slot lm i) 4 a"
    then have a: "in_region (filesystems_at lm) 64 a" using slot_in_array[of i 16 "filesystems_at lm" a] that by simp
    then show "m2 a = 0" using o2[of a] disjoint_regionsD[OF dj(5) a] by (simp add: m1)
  qed
  have free: "fs_get_free_filesystem lm m2 = filesystems_at lm"
  proof -
    have "[0..<16] = 0 # [1..<16 :: nat]" by (simp add: upt_conv_Cons)
    then show ?thesis using slots[of 0] by (simp add: fs_get_free_filesystem_def)
  qed
  define m where "m = store32 m2 (filesystems_at lm) (fat16_fs_at lm)"
  have eq: "fs_init lm s = Some (s\<lparr>memory := m\<rparr>)"
    using m2(1) free lay by (simp add: fs_init_def fs_load_def fs_static_load_def fat16_init_def fs_insert_filesystem_def boot_layout_def m1_def m_def)
  have st: "m a = m2 a" if "\<not> in_region (filesystems_at lm) 64 a" for a
    unfolding m_def by (rule store32_outside) (use that in_region_sub[of "filesystems_at lm" 0 4 a 64] in auto)
  have fds: "m a = 0" if a: "in_region (filedescriptors_at lm) 2048 a" for a
  proof -
    have "\<not> in_region (filesystems_at lm) 64 a" "\<not> in_region (fat16_fs_at lm + 24) 20 a"
      using disjoint_regionsD[OF dj(4)] disjoint_regionsD[OF dj(6) a] a by auto
    then show ?thesis using a o2[of a] st[of a] by (simp add: m1)
  qed
  have sl: "load32 m (filesystem_slot lm i) = (if i = 0 then fat16_fs_at lm else NULL)" if "i < 16" for i
    using slot_load32[of 0 i m2 "filesystems_at lm" "fat16_fs_at lm"] slots[OF that] that by (auto simp: m_def)
  have keep: "m a = memory s a" if "\<not> boot_area lm a" for a
    using that o2[of a] st[of a] by (simp add: boot_area_def m1)
  show thesis by (rule that[OF eq fds sl keep])
qed

text \<open>The state in which \<^verbatim>\<open>disk_search_and_init\<close> asks the file systems.\<close>

definition prepared :: "'l filelinks_scheme \<Rightarrow> heap \<Rightarrow> (nat \<rightharpoonup> nat) \<Rightarrow> ('d, 'a) iostate_scheme \<Rightarrow> bool" where
  "prepared lm h A s \<longleftrightarrow> mountable lm h A s \<and> fs_object lm (memory s)
     \<and> (\<forall>i < 16. load32 (memory s) (filesystem_slot lm i) = (if i = 0 then fat16_fs_at lm else NULL))
     \<and> (\<forall>a. in_region (filedescriptors_at lm) 2048 a \<longrightarrow> memory s a = 0)"

lemma prepared_slot: "prepared lm h A s \<Longrightarrow> i < 16 \<Longrightarrow> load32 (memory s) (filesystem_slot lm i) = (if i = 0 then fat16_fs_at lm else NULL)"
  by (simp add: prepared_def)

lemma boot_area_static: "boot_layout lm h \<Longrightarrow> boot_area lm a \<Longrightarrow> static_byte h a"
  by (auto simp: boot_layout_def mount_layout_def boot_area_def static_area_def)

lemma boot_area_apart: "boot_layout lm h \<Longrightarrow> in_region (fat16_fs_at lm) 24 a \<Longrightarrow> \<not> boot_area lm a"
proof -
  assume l: "boot_layout lm h" and a: "in_region (fat16_fs_at lm) 24 a"
  have "disjoint_regions (fat16_fs_at lm + 24) 20 (fat16_fs_at lm) 24" by (simp add: disjoint_regions_def)
  then have "\<not> in_region (fat16_fs_at lm + 24) 20 a" using a disjoint_regionsD by blast
  moreover have "\<not> in_region (disk_at lm) 20 a" using l a disjoint_regionsD[of "disk_at lm" 20 "fat16_fs_at lm" 24 a] by (simp add: boot_layout_def mount_layout_def)
  moreover have "\<not> in_region (filesystems_at lm) 64 a" "\<not> in_region (filedescriptors_at lm) 2048 a"
    using l a disjoint_regionsD[of "fat16_fs_at lm" 24 "filesystems_at lm" 64 a] disjoint_regionsD[of "fat16_fs_at lm" 24 "filedescriptors_at lm" 2048 a]
    by (auto simp: boot_layout_def mount_layout_def)
  ultimately show ?thesis by (simp add: boot_area_def)
qed

lemma boot_prepares:
  fixes s :: "('d, 'a) iostate_scheme"
  assumes lay: "boot_layout lm h" and live: "klive h s A" and room: "6 \<le> card (unused_blocks (nblocks h) A)" and bd: "boot_data lm (quiet lm h) (memory s)"
  obtains s1 m where "fs_init lm s = Some s1" "prepared lm h A (s\<lparr>memory := m\<rparr>)" "\<And>a. \<not> boot_area lm a \<Longrightarrow> m a = memory s a"
    "\<And>hw. disk_search_and_init lm (fs_resolve lm hw) s1 = do {
       (fs, t) \<leftarrow> fs_resolve_loop lm hw (disk_at lm) 0 (s\<lparr>memory := m\<rparr>);
       Some (t\<lparr>memory := store32 (memory t) (disk_at lm + 12) fs\<rparr>)
     }"
proof -
  obtain m1 where i: "fs_init lm s = Some (s\<lparr>memory := m1\<rparr>)" "\<And>a. in_region (filedescriptors_at lm) 2048 a \<Longrightarrow> m1 a = 0"
    "\<And>i. i < 16 \<Longrightarrow> load32 m1 (filesystem_slot lm i) = (if i = 0 then fat16_fs_at lm else NULL)" "\<And>a. \<not> boot_area lm a \<Longrightarrow> m1 a = memory s a"
    by (rule fs_init_ok[OF lay bd], rule that)
  define m where "m = store32 (store32 (store32 (memset m1 (disk_at lm) 0 20) (disk_at lm) 0) (disk_at lm + 4) 512) (disk_at lm + 8) 0"
  have out: "m a = m1 a" if "\<not> in_region (disk_at lm) 20 a" for a
  proof -
    have "\<not> in_region (disk_at lm) 4 a" "\<not> in_region (disk_at lm + 4) 4 a" "\<not> in_region (disk_at lm + 8) 4 a"
      using that in_region_sub[of "disk_at lm" 0 4 a 20] in_region_sub[of "disk_at lm" 4 4 a 20] in_region_sub[of "disk_at lm" 8 4 a 20] by auto
    then show ?thesis using that by (simp add: m_def memset_eq store32_outside)
  qed
  have keep: "m a = memory s a" if "\<not> boot_area lm a" for a using out[of a] i(4)[of a] that by (simp add: boot_area_def)
  have "\<not> boot_area lm a" if "in_table h a" for a using boot_area_static[OF lay, of a] that by (auto simp: static_byte_def)
  then have "klive h (s\<lparr>memory := m\<rparr>) A" by (intro klive_frame[OF live] keep)
  moreover have "load32 m (disk_at lm + 4) = 512" "load32 m (disk_at lm + 8) = 0"
    by (simp_all add: m_def load32_store32_other disjoint_regions_def)
  moreover have "fs_object lm m = fs_object lm (memory s)" by (rule fs_object_cong) (use boot_area_apart[OF lay] keep in auto)
  moreover have "load32 m (filesystem_slot lm j) = load32 m1 (filesystem_slot lm j)" if "j < 16" for j
  proof (rule load32_cong)
    fix a assume "in_region (filesystem_slot lm j) 4 a"
    then have "in_region (filesystems_at lm) 64 a" using slot_in_array[of j 16 "filesystems_at lm" a] that by simp
    then show "m a = m1 a" using out[of a] lay disjoint_regionsD[of "disk_at lm" 20 "filesystems_at lm" 64 a] by (simp add: boot_layout_def)
  qed
  moreover have "m a = 0" if a: "in_region (filedescriptors_at lm) 2048 a" for a
    using out[of a] i(2)[OF a] lay disjoint_regionsD[of "disk_at lm" 20 "filedescriptors_at lm" 2048 a] a by (simp add: boot_layout_def mount_layout_def)
  ultimately have "prepared lm h A (s\<lparr>memory := m\<rparr>)" using lay room bd i(3) by (simp add: prepared_def mountable_def boot_layout_def boot_data_def)
  then show thesis using that[OF i(1) _ keep] by (simp add: disk_search_and_init_def m_def fs_resolve_def Let_def)
qed

subsection \<open>Finding the file system\<close>

lemma load32_bytes:
  "ucast (load32 m p) = m p" "ucast (drop_bit 8 (load32 m p)) = m (p + 1)" "ucast (drop_bit 16 (load32 m p)) = m (p + 2)"
  "ucast (drop_bit 24 (load32 m p)) = m (p + 3)"
proof -
  have lt: "\<not> bit (b :: u8) n" if "8 \<le> n" for b n using bit_imp_le_length[of b n] that by auto
  show "ucast (load32 m p) = m p" "ucast (drop_bit 8 (load32 m p)) = m (p + 1)" "ucast (drop_bit 16 (load32 m p)) = m (p + 2)"
    "ucast (drop_bit 24 (load32 m p)) = m (p + 3)"
    by (rule bit_word_eqI; auto simp: load32_def bit_simps lt)+
qed

lemma store32_load32: "store32 m p (load32 m p) = m"
  by (simp add: store32_def load32_bytes fun_upd_idem)

lemma boot_slots_kept:
  assumes lay: "boot_layout lm h" and same: "\<forall>a. static_byte h a \<longrightarrow> \<not> local_buffer lm a \<longrightarrow> \<not> in_region (disk_at lm + 12) 8 a \<longrightarrow> m' a = m a"
  shows "i < 16 \<Longrightarrow> load32 m' (filesystem_slot lm i) = load32 m (filesystem_slot lm i)"
    and "in_region (filedescriptors_at lm) 2048 a \<Longrightarrow> m' a = m a"
proof -
  have disk: "\<not> in_region (disk_at lm + 12) 8 a" if "\<not> in_region (disk_at lm) 20 a" for a using in_region_sub[of "disk_at lm" 12 8 a 20] that by auto
  show "load32 m' (filesystem_slot lm i) = load32 m (filesystem_slot lm i)" if "i < 16"
  proof (rule load32_cong)
    fix a assume "in_region (filesystem_slot lm i) 4 a"
    then have "in_region (filesystems_at lm) 64 a" using slot_in_array[of i 16 "filesystems_at lm" a] that by simp
    then show "m' a = m a" using same disk[of a] lay disjoint_regionsD[of "disk_at lm" 20 "filesystems_at lm" 64 a] by (auto simp: boot_layout_def static_area_def)
  qed
  show "m' a = m a" if "in_region (filedescriptors_at lm) 2048 a"
    using same disk[of a] lay that disjoint_regionsD[of "disk_at lm" 20 "filedescriptors_at lm" 2048 a] by (auto simp: boot_layout_def mount_layout_def static_area_def)
qed

lemma boot_mounts_ok:
  fixes s :: "('d, 'a) iostate_scheme"
  assumes lay: "boot_layout lm h" and live: "klive h s A" and room: "6 \<le> card (unused_blocks (nblocks h) A)" and bd: "boot_data lm (quiet lm h) (memory s)"
    and dev: "ata_disk hw idle img" "idle (device s)" and vol: "fat16_volume img cl S E N es"
  obtains s1 fb b1 b2 b3 db d' m' where "fs_init lm s = Some s1" "disk_search_and_init lm (fs_resolve lm hw) s1 = Some (s\<lparr>device := d', memory := m'\<rparr>)" "idle d'"
    "distinct [fb, b1, b2, b3, db]" "holds h A {fb, b1, b2, b3, db} (s\<lparr>device := d', memory := m'\<rparr>)"
    "open_ready lm h (with_pages A {fb, b1, b2, b3, db}) m' (block_addr h fb) (block_addr h b1) cl (S + 32 * E div 512) (block_addr h db) es"
    "\<And>k. k < 32 * E \<Longrightarrow> m' (block_addr h db + of_nat k) = disk_byte img (512 * S + k)"
    "\<And>a. in_region (filedescriptors_at lm) 2048 a \<Longrightarrow> m' a = 0"
    "\<And>a. static_byte h a \<Longrightarrow> \<not> local_buffer lm a \<Longrightarrow> \<not> boot_area lm a \<Longrightarrow> m' a = memory s a"
proof -
  obtain s1 m where b: "fs_init lm s = Some s1" "prepared lm h A (s\<lparr>memory := m\<rparr>)" "\<And>a. \<not> boot_area lm a \<Longrightarrow> m a = memory s a"
    "\<And>hw. disk_search_and_init lm (fs_resolve lm hw) s1 = do {
       (fs, t) \<leftarrow> fs_resolve_loop lm hw (disk_at lm) 0 (s\<lparr>memory := m\<rparr>); Some (t\<lparr>memory := store32 (memory t) (disk_at lm + 12) fs\<rparr>) }"
    by (rule boot_prepares[OF lay live room bd], rule that)
  let ?s = "s\<lparr>memory := m\<rparr>"
  have p: "mountable lm h A ?s" "fs_object lm (memory ?s)" "idle (device ?s)" using b(2) dev(2) by (simp_all add: prepared_def)
  obtain fb b1 b2 b3 db d' m' where r: "fat16_resolve lm hw (disk_at lm) ?s = Some (0, ?s\<lparr>device := d', memory := m'\<rparr>)" "idle d'" "distinct [fb, b1, b2, b3, db]"
    "holds h A {fb, b1, b2, b3, db} (?s\<lparr>device := d', memory := m'\<rparr>)"
    "open_ready lm h (with_pages A {fb, b1, b2, b3, db}) m' (block_addr h fb) (block_addr h b1) cl (S + 32 * E div 512) (block_addr h db) es"
    "\<And>k. k < 32 * E \<Longrightarrow> m' (block_addr h db + of_nat k) = disk_byte img (512 * S + k)"
    "\<And>a. static_byte h a \<Longrightarrow> \<not> local_buffer lm a \<Longrightarrow> \<not> in_region (disk_at lm + 12) 8 a \<Longrightarrow> m' a = memory ?s a"
    by (rule resolve_ok[OF p(1) dev(1) p(3,2) vol], rule that)
  have slot: "load32 m (filesystems_at lm) = fat16_fs_at lm" "load32 m (fat16_fs_at lm) = fat16_resolve_at lm" "fat16_fs_at lm \<noteq> NULL"
    using b(2) prepared_slot[OF b(2), of 0] lay by (simp_all add: prepared_def fs_object_def boot_layout_def mount_layout_def)
  have same: "\<forall>a. static_byte h a \<longrightarrow> \<not> local_buffer lm a \<longrightarrow> \<not> in_region (disk_at lm + 12) 8 a \<longrightarrow> m' a = m a" using r(7) by simp
  have slot': "load32 m' (filesystems_at lm) = fat16_fs_at lm" using boot_slots_kept(1)[OF lay same, of 0] slot(1) by simp
  have "fs_resolve_loop lm hw (disk_at lm) 0 ?s = Some (fat16_fs_at lm, s\<lparr>device := d', memory := m'\<rparr>)"
    using slot slot' r(1) by (subst fs_resolve_loop.simps) (simp add: filesystem_resolve_def Let_def)
  moreover have "load32 m' (disk_at lm + 12) = fat16_fs_at lm" using r(5) by (simp add: open_ready_def mounted_def)
  ultimately have eq: "disk_search_and_init lm (fs_resolve lm hw) s1 = Some (s\<lparr>device := d', memory := m'\<rparr>)"
    using b(4)[of hw] store32_load32[of m' "disk_at lm + 12"] by simp
  have z: "m' a = 0" if "in_region (filedescriptors_at lm) 2048 a" for a using boot_slots_kept(2)[OF lay same that] b(2) that by (simp add: prepared_def)
  have f: "m' a = memory s a" if "static_byte h a" "\<not> local_buffer lm a" "\<not> boot_area lm a" for a
    using r(7)[OF that(1,2)] b(3)[OF that(3)] that(3) in_region_sub[of "disk_at lm" 12 8 a 20] by (auto simp: boot_area_def)
  show thesis by (rule that[OF b(1) eq r(2,3) _ r(5,6) z f]) (use r(4) in simp_all)
qed

subsection \<open>Reading a file of the volume\<close>

text \<open>A request for the file \<open>c\<close> of the root directory: the path at \<open>p\<close>, the mode at \<open>mode\<close>, and the literals of the program, all in \<open>K\<close>.\<close>

definition boot_request :: "'l filelinks_scheme \<Rightarrow> (u32 \<Rightarrow> bool) \<Rightarrow> mem \<Rightarrow> u32 \<Rightarrow> u8 list \<Rightarrow> u32 \<Rightarrow> u8 list \<Rightarrow> bool" where
  "boot_request lm K m p xs mode c \<longleftrightarrow> cstr_at m p xs \<and> (\<forall>i \<le> length xs. K (p + of_nat i))
     \<and> valid_path xs \<and> xs ! 0 = 48 \<and> components (drop 3 xs) = [c]
     \<and> cstr_at m (colon_slash_at lm) [58, 47] \<and> (\<forall>i \<le> 2. K (colon_slash_at lm + of_nat i))
     \<and> m mode = 114 \<and> K mode \<and> m (mode_r_at lm) = 114 \<and> K (mode_r_at lm)"

text \<open>The entry \<open>k\<close> of the root directory is the file \<open>c\<close> of \<open>sz\<close> bytes from cluster \<open>fc\<close> on.\<close>

definition volume_file :: "(nat \<Rightarrow> nat \<Rightarrow> u8) \<Rightarrow> nat \<Rightarrow> (u8 list \<times> u8 list) list \<Rightarrow> u8 list \<Rightarrow> nat \<Rightarrow> nat \<Rightarrow> nat \<Rightarrow> bool" where
  "volume_file img S es c k fc sz \<longleftrightarrow> k < length es \<and> (\<forall>j < length es. same_name c (es ! j) \<longleftrightarrow> j = k)
     \<and> item_attribute (disk_view img (512 * S)) (32 * of_nat k) AND 0x10 = 0
     \<and> fat16_get_first_cluster_for_directory_item (32 * of_nat k) (disk_view img (512 * S)) = of_nat fc
     \<and> unat (item_filesize (disk_view img (512 * S)) (32 * of_nat k)) = sz"

lemma boot_request_opens:
  assumes rq: "boot_request lm K m p xs mode c" and static: "\<And>a. K a \<Longrightarrow> static_byte h a" and same: "\<And>a. K a \<Longrightarrow> m' a = m a"
  shows "open_request lm h A m' p xs mode c"
proof -
  have "cstr_at m' p xs = cstr_at m p xs" "cstr_at m' (colon_slash_at lm) [58, 47] = cstr_at m (colon_slash_at lm) [58, 47]"
    by (rule cstr_at_cong; use rq same in \<open>simp add: boot_request_def\<close>)+
  moreover have "stable h A a" if "K a" for a using static[OF that] static_stable[of h a A] by simp
  ultimately show ?thesis using rq same by (simp add: boot_request_def open_request_def source_text_def)
qed

lemma loaded_entry:
  assumes vol: "fat16_volume img cl S E N es" and fl: "volume_file img S es c k fc sz"
    and bytes: "\<And>k. k < 32 * E \<Longrightarrow> m (items + of_nat k) = disk_byte img (512 * S + k)"
  shows "entry_found m items es c k" "fat16_get_first_cluster_for_directory_item (items + 32 * of_nat k) m = of_nat fc"
    "unat (load32 m (items + 32 * of_nat k + 28)) = sz"
proof -
  let ?v = "disk_view img (512 * S)"
  have k: "k < length es" "length es \<le> E" "E \<le> 128" using vol fl by (simp_all add: fat16_volume_def volume_file_def)
  have b: "m (items + 32 * of_nat k + of_nat j) = ?v (32 * of_nat k + of_nat j)" if "j < 32" for j
  proof -
    have i: "32 * k + j < 32 * E" "32 * k + j < 2 ^ 32" using k that by simp_all
    have w: "32 * of_nat k + of_nat j = (of_nat (32 * k + j) :: u32)" by simp
    have "m (items + of_nat (32 * k + j)) = ?v (of_nat (32 * k + j))" using bytes[OF i(1)] unat_of_nat_u32[OF i(2)] by (simp only: disk_view_def)
    then show ?thesis by (simp only: add.assoc w)
  qed
  have l16: "load16 m (items + 32 * of_nat k + 24) = load16 ?v (32 * of_nat k + 24)" "load16 m (items + 32 * of_nat k + 26) = load16 ?v (32 * of_nat k + 26)"
    using b[of 24] b[of 25] b[of 26] b[of 27] by (simp_all add: load16_def add.assoc)
  have l32: "load32 m (items + 32 * of_nat k + 28) = load32 ?v (32 * of_nat k + 28)"
    using b[of 28] b[of 29] b[of 30] b[of 31] by (simp add: load32_def add.assoc)
  show "entry_found m items es c k" using fl b[of 11] by (simp add: entry_found_def volume_file_def)
  show "fat16_get_first_cluster_for_directory_item (items + 32 * of_nat k) m = of_nat fc"
    using fl by (simp add: fat16_get_first_cluster_for_directory_item_def volume_file_def l16)
  show "unat (load32 m (items + 32 * of_nat k + 28)) = sz" using fl by (simp add: volume_file_def l32)
qed

lemma quiet_buffer:
  fixes lm :: "'l filelinks_scheme"
  assumes lay: "boot_layout lm h" and hd: "holds h A B s" and bs: "fb \<in> B" "b1 \<in> B" and q: "\<forall>a. in_region out n a \<longrightarrow> quiet lm h a" "0 < n"
  shows "caller_buffer lm h (with_pages A B) (block_addr h fb) (block_addr h b1) out n"
proof -
  have np: "\<not> in_region (block_addr h b + of_nat off) j a" if "b \<in> B" "off + j \<le> 4096" "static_byte h a" for b off j a
    using page_region[of h b off j a] static_not_page[OF that(3) hd that(1)] that(2) by blast
  have sb: "static_byte h a" "\<not> local_buffer lm a" "\<not> boot_area lm a" "\<not> in_region (fat16_fs_at lm) 24 a" if "in_region out n a" for a
    using q that by (simp_all add: quiet_def)
  have fx: "fixed lm h (with_pages A B) (block_addr h b1) a" if i: "in_region out n a" for a
    using sb[OF i] static_stable np[OF bs(2), of 0 4 a] by (auto simp: fixed_def scratch_def name_buffer_def local_buffer_def boot_area_def)
  have cells: "\<not> in_region p j a" if i: "in_region out n a" and c: "(p, j) \<in> volume_cells lm (block_addr h fb) (block_addr h b1)" for p j a
  proof -
    have d: "\<not> in_region (disk_at lm + of_nat off) 4 a" if "off + 4 \<le> 20" for off
      using sb(3)[OF i] in_region_sub[of "disk_at lm" off 4 a 20] that by (auto simp: boot_area_def)
    have f: "\<not> in_region (fat16_fs_at lm + of_nat off) 4 a" if "off + 4 \<le> 24" for off
      using sb(4)[OF i] in_region_sub[of "fat16_fs_at lm" off 4 a 24] that by auto
    show ?thesis
      using c d[of 4] d[of 12] d[of 16] f[of 4] f[of 8] f[of 12] f[of 16] f[of 20] np[OF bs(1) _ sb(1)[OF i], of 13 1] np[OF bs(1) _ sb(1)[OF i], of 76 4]
        np[OF bs(1) _ sb(1)[OF i], of 80 4] np[OF bs(2) _ sb(1)[OF i], of 4 4]
      by (auto simp: volume_cells_def)
  qed
  have "disjoint_regions (block_addr h b1) 8 out n"
    by (rule disjoint_regionsI) (use np[OF bs(2), of 0 8] sb(1) q(2) in auto)
  moreover have "disjoint_regions (stream_buf_at lm d) 512 out n" for d
    by (rule disjoint_regionsI) (use sb(2) q(2) in \<open>auto simp: local_buffer_def\<close>)
  moreover have "disjoint_regions (stream_buf_at lm d) 512 (block_addr h b1) 8" for d
  proof (rule disjoint_regionsI)
    fix a assume a: "in_region (block_addr h b1) 8 a"
    then have "\<not> static_byte h a" using np[OF bs(2), of 0 8 a] by auto
    then show "\<not> in_region (stream_buf_at lm d) 512 a" using lay by (auto simp: boot_layout_def mount_layout_def local_buffer_def)
  qed simp_all
  ultimately have "read_areas (stream_buf_at lm) (block_addr h b1) out n" by (simp add: read_areas_def)
  then show ?thesis using fx cells by (auto simp: caller_buffer_def)
qed

lemma boot_session_ok:
  fixes s :: "('d, 'a) iostate_scheme"
  assumes lay: "boot_layout lm h" and live: "klive h s A" and room: "12 \<le> card (unused_blocks (nblocks h) A)" and bd: "boot_data lm (quiet lm h) (memory s)"
    and dev: "ata_disk hw idle img" "idle (device s)" and vol: "fat16_volume img cl S E N es"
    and rq: "boot_request lm (quiet lm h) (memory s) p xs mode c" and fl: "volume_file img S es c k fc sz" "cluster_on_disk cl (S + 32 * E div 512) fc"
    and n: "0 < n" "n \<le> sz" "n \<le> 512 * cl" and buf: "\<forall>a. in_region out n a \<longrightarrow> quiet lm h a"
  shows "\<exists>s1 s2 s3 s4 s5. fs_init lm s = Some s1 \<and> disk_search_and_init lm (fs_resolve lm hw) s1 = Some s2
    \<and> fopen lm hw p mode s2 = Some (1, s3) \<and> fread lm hw out (of_nat n) 1 1 s3 = Some (1, s4) \<and> fclose lm 1 s4 = Some (0, s5)
    \<and> (\<forall>j < n. memory s5 (out + of_nat j) = file_byte img cl (S + 32 * E div 512) fc j)"
proof -
  have r6: "6 \<le> card (unused_blocks (nblocks h) A)" using room by simp
  obtain s1 fb b1 b2 b3 db d' m' where b: "fs_init lm s = Some s1" "disk_search_and_init lm (fs_resolve lm hw) s1 = Some (s\<lparr>device := d', memory := m'\<rparr>)" "idle d'"
    "distinct [fb, b1, b2, b3, db]" "holds h A {fb, b1, b2, b3, db} (s\<lparr>device := d', memory := m'\<rparr>)"
    "open_ready lm h (with_pages A {fb, b1, b2, b3, db}) m' (block_addr h fb) (block_addr h b1) cl (S + 32 * E div 512) (block_addr h db) es"
    "\<And>k. k < 32 * E \<Longrightarrow> m' (block_addr h db + of_nat k) = disk_byte img (512 * S + k)"
    "\<And>a. in_region (filedescriptors_at lm) 2048 a \<Longrightarrow> m' a = 0"
    "\<And>a. static_byte h a \<Longrightarrow> \<not> local_buffer lm a \<Longrightarrow> \<not> boot_area lm a \<Longrightarrow> m' a = memory s a"
    by (rule boot_mounts_ok[OF lay live r6 bd dev vol], rule that)
  let ?s = "s\<lparr>device := d', memory := m'\<rparr>" and ?B = "{fb, b1, b2, b3, db}"
  have "unused_blocks (nblocks h) (with_pages A ?B) = unused_blocks (nblocks h) A - ?B" "?B \<subseteq> unused_blocks (nblocks h) A"
    using b(5) by (simp_all add: holds_def took_def)
  then have room7: "7 \<le> card (unused_blocks (nblocks h) (with_pages A ?B))" using room b(4) by (simp add: card_Diff_subset)
  have rq': "open_request lm h (with_pages A ?B) (memory ?s) p xs mode c"
    by (rule boot_request_opens[OF rq]) (use b(9) in \<open>simp_all add: quiet_def\<close>)
  note en = loaded_entry[where m = m' and items = "block_addr h db", OF vol fl(1) b(7)]
  have free: "first_free lm (memory ?s) 0" using load32_blank[of "filedescriptors_at lm" m'] b(8) in_region_sub[of "filedescriptors_at lm" 0 4 _ 2048] by (simp add: first_free_def)
  have cb: "caller_buffer lm h (with_pages A ?B) (block_addr h fb) (block_addr h b1) out n"
    by (rule quiet_buffer[OF lay b(5) _ _ buf n(1)]) simp_all
  from session_ok[OF holds_live[OF b(5)] room7 rq' _ _ _ fl(2) free _ dev(1) _ n(1) _ n(3) cb, of "block_addr h db" es k] b(3,6) en n(2)
  obtain s3 s4 s5 where "fopen lm hw p mode ?s = Some (1, s3)" "fread lm hw out (of_nat n) 1 1 s3 = Some (1, s4)" "fclose lm 1 s4 = Some (0, s5)"
    "\<forall>j < n. memory s5 (out + of_nat j) = file_byte img cl (S + 32 * E div 512) fc j" by auto
  with b(1,2) show ?thesis by blast
qed

subsection \<open>A disk that is not FAT16\<close>

lemma fs_resolve_blank:
  assumes "\<forall>j < 16. n \<le> j \<longrightarrow> load32 (memory s) (filesystem_slot lm j) = NULL" "n \<le> 16"
  shows "fs_resolve_loop lm hw disk n s = Some (NULL, s)"
  using assms
proof (induction "16 - n" arbitrary: n)
  case 0
  then show ?case by (subst fs_resolve_loop.simps) simp
next
  case (Suc k)
  then have "n < 16" "k = 16 - Suc n" by simp_all
  moreover from this have "fs_resolve_loop lm hw disk (Suc n) s = Some (NULL, s)" using Suc.hyps(1)[of "Suc n"] Suc.prems(1) by simp
  ultimately show ?case using Suc.prems(1) by (subst fs_resolve_loop.simps) (simp add: Let_def)
qed

lemma fopen_no_filesystem:
  fixes s :: "('d, 'a) iostate_scheme"
  assumes live: "klive h s A" and room: "5 \<le> card (unused_blocks (nblocks h) A)" and rq: "open_request lm h A (memory s) p xs mode c"
    and fs: "load32 (memory s) (disk_at lm + 12) = NULL" "disk_at lm \<noteq> NULL" "\<forall>a. in_region (disk_at lm + 12) 4 a \<longrightarrow> stable h A a"
  shows "\<exists>P s'. fopen lm hw p mode s = Some (0, s') \<and> klive h s' (with_pages A P) \<and> card P = 3"
proof -
  obtain rb nb sb s1 where p: "path_parse lm p NULL s = Some (block_addr h rb, s1)" "took h A s {rb, nb, sb} s1" "distinct [rb, nb, sb]"
    "load32 (memory s1) (block_addr h rb) = 0" "load32 (memory s1) (block_addr h rb + 4) = block_addr h nb"
    "load32 (memory s1) (block_addr h nb) = block_addr h sb" "load32 (memory s1) (block_addr h nb + 4) = NULL" "cstr_at (memory s1) (block_addr h sb) c"
    by (rule request_parsed[OF live rq room])
  have "load32 (memory s1) (disk_at lm + 12) = load32 (memory s) (disk_at lm + 12)"
    by (rule load32_cong) (use p(2) fs(3) in \<open>simp add: took_def\<close>)
  then have "fopen lm hw p mode s = Some (0, s1)"
    using p(1,4,5) fs took_page(3)[OF p(2)] by (simp add: fopen_def disk_get_def)
  moreover have "klive h s1 (with_pages A {rb, nb, sb})" "card {rb, nb, sb} = 3" using p(2,3) by (simp_all add: took_def)
  ultimately show ?thesis by blast
qed

lemma boot_refused_ok:
  fixes s :: "('d, 'a) iostate_scheme"
  assumes lay: "boot_layout lm h" and live: "klive h s A" and room: "8 \<le> card (unused_blocks (nblocks h) A)" and bd: "boot_data lm (quiet lm h) (memory s)"
    and dev: "ata_disk hw idle img" "idle (device s)" and sig: "fat_signature (disk_view img 0) 0 \<noteq> RAOS_FAT16_SIGNATURE"
    and rq: "boot_request lm (quiet lm h) (memory s) p xs mode c"
  shows "\<exists>s1 s2 s3 L P. fs_init lm s = Some s1 \<and> disk_search_and_init lm (fs_resolve lm hw) s1 = Some s2
    \<and> load32 (memory s2) (disk_at lm + 12) = NULL \<and> load32 (memory s2) (disk_at lm + 16) = NULL
    \<and> klive h s2 (with_pages A L) \<and> card L = 3 \<and> L \<subseteq> unused_blocks (nblocks h) A
    \<and> fopen lm hw p mode s2 = Some (0, s3) \<and> klive h s3 (with_pages (with_pages A L) P) \<and> card P = 3"
proof -
  have r6: "6 \<le> card (unused_blocks (nblocks h) A)" using room by simp
  obtain s1 m where b: "fs_init lm s = Some s1" "prepared lm h A (s\<lparr>memory := m\<rparr>)" "\<And>a. \<not> boot_area lm a \<Longrightarrow> m a = memory s a"
    "\<And>hw. disk_search_and_init lm (fs_resolve lm hw) s1 = do {
       (fs, t) \<leftarrow> fs_resolve_loop lm hw (disk_at lm) 0 (s\<lparr>memory := m\<rparr>); Some (t\<lparr>memory := store32 (memory t) (disk_at lm + 12) fs\<rparr>) }"
    by (rule boot_prepares[OF lay live r6 bd], rule that)
  let ?s = "s\<lparr>memory := m\<rparr>"
  have p: "mountable lm h A ?s" "idle (device ?s)" using b(2) dev(2) by (simp_all add: prepared_def)
  obtain b1 b2 b3 d' m' where r: "fat16_resolve lm hw (disk_at lm) ?s = Some (- EFSNOTUS, ?s\<lparr>device := d', memory := m'\<rparr>)" "idle d'" "distinct [b1, b2, b3]"
    "holds h A {b1, b2, b3} (?s\<lparr>device := d', memory := m'\<rparr>)" "load32 m' (disk_at lm + 16) = NULL"
    "\<And>a. static_byte h a \<Longrightarrow> \<not> local_buffer lm a \<Longrightarrow> \<not> in_region (disk_at lm + 12) 8 a \<Longrightarrow> m' a = memory ?s a"
    by (rule resolve_refuses[OF p(1) dev(1) p(2) sig], rule that)
  have same: "\<forall>a. static_byte h a \<longrightarrow> \<not> local_buffer lm a \<longrightarrow> \<not> in_region (disk_at lm + 12) 8 a \<longrightarrow> m' a = m a" using r(6) by simp
  have slot: "load32 m (filesystems_at lm) = fat16_fs_at lm" "load32 m (fat16_fs_at lm) = fat16_resolve_at lm" "fat16_fs_at lm \<noteq> NULL" "disk_at lm \<noteq> NULL"
    using b(2) prepared_slot[OF b(2), of 0] lay by (simp_all add: prepared_def fs_object_def boot_layout_def mount_layout_def)
  have "fs_resolve_loop lm hw (disk_at lm) 1 (s\<lparr>device := d', memory := m'\<rparr>) = Some (NULL, s\<lparr>device := d', memory := m'\<rparr>)"
    by (rule fs_resolve_blank) (use boot_slots_kept(1)[OF lay same] prepared_slot[OF b(2)] in simp_all)
  then have "fs_resolve_loop lm hw (disk_at lm) 0 ?s = Some (NULL, s\<lparr>device := d', memory := m'\<rparr>)"
    using slot r(1) by (subst fs_resolve_loop.simps) (simp add: filesystem_resolve_def Let_def)
  moreover define m2 where "m2 = store32 m' (disk_at lm + 12) NULL"
  ultimately have eq: "disk_search_and_init lm (fs_resolve lm hw) s1 = Some (s\<lparr>device := d', memory := m2\<rparr>)" using b(4)[of hw] by (simp add: m2_def)
  let ?s2 = "s\<lparr>device := d', memory := m2\<rparr>" and ?L = "{b1, b2, b3}"
  have cell: "static_byte h a \<and> boot_area lm a" if "in_region (disk_at lm + 12) 4 a" for a
    using in_region_sub[of "disk_at lm" 12 4 a 20] that boot_area_static[OF lay, of a] by (simp add: boot_area_def)
  have out: "m2 a = m' a" if "\<not> (static_byte h a \<and> boot_area lm a)" for a
    unfolding m2_def by (rule store32_outside) (use cell[of a] that in auto)
  have h2: "holds h A ?L ?s2" by (rule holds_eq[OF r(4)]) (use out in \<open>auto simp: static_byte_def\<close>)
  have nul: "load32 m2 (disk_at lm + 12) = NULL" "load32 m2 (disk_at lm + 16) = NULL"
    using r(5) by (simp_all add: m2_def load32_store32_other disjoint_regions_def)
  have keep: "m2 a = memory s a" if "quiet lm h a" for a
    using that out[of a] r(6)[of a] b(3)[of a] in_region_sub[of "disk_at lm" 12 8 a 20] by (auto simp: quiet_def boot_area_def)
  have un: "unused_blocks (nblocks h) (with_pages A ?L) = unused_blocks (nblocks h) A - ?L" "?L \<subseteq> unused_blocks (nblocks h) A"
    using h2 by (simp_all add: holds_def took_def)
  then have r5: "5 \<le> card (unused_blocks (nblocks h) (with_pages A ?L))" using room r(3) by (simp add: card_Diff_subset)
  have rq': "open_request lm h (with_pages A ?L) (memory ?s2) p xs mode c" by (rule boot_request_opens[OF rq]) (use keep in \<open>simp_all add: quiet_def\<close>)
  obtain P s3 where f: "fopen lm hw p mode ?s2 = Some (0, s3)" "klive h s3 (with_pages (with_pages A ?L) P)" "card P = 3"
    using fopen_no_filesystem[OF holds_live[OF h2] r5 rq', of hw] nul slot(4) cell static_stable by auto
  have nul': "load32 (memory ?s2) (disk_at lm + 12) = NULL" "load32 (memory ?s2) (disk_at lm + 16) = NULL" using nul by simp_all
  have "card ?L = 3" using r(3) by simp
  then show ?thesis using b(1) eq nul' holds_live[OF h2] un(2) f by blast
qed

subsection \<open>A machine that starts\<close>

text \<open>
  The program's data after loading and the kernel heap as \<^verbatim>\<open>kheap_init\<close> leaves it, and a disk whose root directory, at sector 5,
  holds the files \<^verbatim>\<open>A\<close> and \<^verbatim>\<open>HI.TXT\<close>.
\<close>

definition mount_links :: filelinks where
  "mount_links = session_links\<lparr>directory_item_at := 0x6100, filesystems_at := 0x207000\<rparr>"

definition mount_memory :: mem where
  "mount_memory = (\<lambda>_. 0)(
     0x200 := 48, 0x201 := 58, 0x202 := 47, 0x203 := 104, 0x204 := 105, 0x205 := 46, 0x206 := 116, 0x207 := 120, 0x208 := 116,
     0x300 := 114, 0x203000 := 58, 0x203001 := 47, 0x203010 := 114,
     0x204001 := 1, 0x204002 := 0x11, 0x204005 := 2, 0x204006 := 0x11, 0x204009 := 3, 0x20400A := 0x11, 0x20400D := 4, 0x20400E := 0x11,
     0x204011 := 5, 0x204012 := 0x11, 0x204015 := 6, 0x204016 := 0x11, 0x204100 := 70, 0x204101 := 65, 0x204102 := 84, 0x204103 := 49, 0x204104 := 54)"

definition mount_machine :: "drive iostate" where
  "mount_machine = kheap_init (demo_machine\<lparr>memory := mount_memory\<rparr>)"

definition mount_header :: "nat \<Rightarrow> u8" where
  "mount_header = (\<lambda>_. 0)(13 := 2, 14 := 1, 16 := 2, 17 := 16, 22 := 2, 38 := 0x29)"

definition mount_root :: "nat \<Rightarrow> u8" where
  "mount_root = (\<lambda>k. if k < 11 \<or> 32 \<le> k \<and> k < 44 then 0x20 else 0)(0 := 65, 32 := 72, 33 := 73, 40 := 84, 41 := 88, 42 := 84, 58 := 3, 60 := 0x58, 61 := 2)"

definition mount_image :: "nat \<Rightarrow> nat \<Rightarrow> u8" where
  "mount_image sec k = (if sec = 0 then mount_header k else if sec = 5 then mount_root k else of_nat (sec + k))"

text \<open>The addresses of this program's objects; the lemmas hold for every link record with them.\<close>

definition demo_addresses :: "'l filelinks_scheme \<Rightarrow> bool" where
  "demo_addresses lm \<longleftrightarrow> disk_at lm = 0x202000 \<and> fat16_fs_at lm = 0x204000 \<and> filedescriptors_at lm = 0x206000 \<and> filesystems_at lm = 0x207000
     \<and> fat16_name_at lm = 0x204100 \<and> colon_slash_at lm = 0x203000 \<and> mode_r_at lm = 0x203010
     \<and> stream_buf_at lm = (\<lambda>_. 0x5000) \<and> tmp_filename_at lm = 0x6000 \<and> directory_item_at lm = 0x6100
     \<and> fat16_resolve_at lm = 0x110100 \<and> fat16_open_at lm = 0x110200 \<and> fat16_read_at lm = 0x110300 \<and> fat16_seek_at lm = 0x110400
     \<and> fat16_stat_at lm = 0x110500 \<and> fat16_close_at lm = 0x110600"

lemma mount_links_demo: "demo_addresses mount_links"
  by (simp add: demo_addresses_def mount_links_def session_links_def file_links_def)

lemma demo_addresses_simps:
  assumes "demo_addresses lm"
  shows "disk_at lm = 0x202000" "fat16_fs_at lm = 0x204000" "filedescriptors_at lm = 0x206000" "filesystems_at lm = 0x207000"
    "fat16_name_at lm = 0x204100" "colon_slash_at lm = 0x203000" "mode_r_at lm = 0x203010"
  using assms by (simp_all add: demo_addresses_def)

lemma demo_local: "demo_addresses lm \<Longrightarrow> local_buffer lm a \<longleftrightarrow> in_region 0x6000 128 a \<or> in_region 0x6100 32 a \<or> in_region 0x5000 512 a"
  by (simp add: local_buffer_def demo_addresses_def)

lemma kernel_static:
  assumes "unat a < 0x7E00 \<or> 0xE200 \<le> unat a \<and> unat a < 0x1000000"
  shows "static_byte kernel_heap_layout a"
proof -
  have "stable kernel_heap_layout Map.empty a" using assms by (rule session_stable)
  then show ?thesis unfolding stable_def static_byte_def empty_unused using kernel_heap_layout_wf(2) by simp
qed

lemma kernel_static_area: "unat p + n \<le> 0x7E00 \<or> 0xE200 \<le> unat p \<and> unat p + n \<le> 0x1000000 \<Longrightarrow> static_area kernel_heap_layout p n"
  unfolding static_area_def by (auto simp: in_region_iff_nat intro!: kernel_static)

lemma demo_boot_layout:
  assumes d: "demo_addresses lm"
  shows "boot_layout lm kernel_heap_layout"
proof -
  have "\<not> ISERR (block_addr kernel_heap_layout b)" if "b < nblocks kernel_heap_layout" for b
    using session_ready that by (simp add: open_ready_def)
  moreover have "static_byte kernel_heap_layout a" if "local_buffer lm a" for a
    by (rule kernel_static) (use that in \<open>auto simp: demo_local[OF d] in_region_iff_nat\<close>)
  moreover have "disjoint_regions (stream_buf_at lm b) 512 (directory_item_at lm) 32" for b
    using d by (simp add: demo_addresses_def disjoint_regions_def)
  ultimately show ?thesis
    unfolding boot_layout_def mount_layout_def demo_addresses_simps[OF d]
    by (auto simp: demo_local[OF d] in_region_iff_nat intro!: kernel_static_area disjoint_regionsI_nat)
qed

lemma demo_quiet:
  assumes d: "demo_addresses lm" and a: "unat a < 0x5000 \<or> 0x5200 \<le> unat a \<and> unat a < 0x6000 \<or> 0xE200 \<le> unat a \<and> unat a < 0x202000
    \<or> 0x203000 \<le> unat a \<and> unat a < 0x204000 \<or> 0x204100 \<le> unat a \<and> unat a < 0x206000 \<or> 0x208000 \<le> unat a \<and> unat a < 0x300000"
  shows "quiet lm kernel_heap_layout a"
proof -
  have "static_byte kernel_heap_layout a" by (rule kernel_static) (use a in auto)
  then show ?thesis using a unfolding quiet_def boot_area_def demo_local[OF d] demo_addresses_simps[OF d] by (auto simp: in_region_iff_nat)
qed

lemma demo_boot_data:
  assumes d: "demo_addresses lm" and K: "\<And>a. 0x204100 \<le> unat a \<Longrightarrow> unat a < 0x206000 \<Longrightarrow> K a"
    and m: "\<And>a. 0x200000 \<le> unat a \<Longrightarrow> unat a < 0x300000 \<Longrightarrow> m a = mount_memory a"
  shows "boot_data lm K m"
proof -
  have l: "load32 m p = load32 mount_memory p" if "0x200000 \<le> unat p" "unat p < 0x210000" for p
    by (rule load32_cong, rule m) (use that in \<open>auto simp: in_region_iff_nat\<close>)
  have "load32 mount_memory 0x204000 = 0x110100" "load32 mount_memory 0x204004 = 0x110200" "load32 mount_memory 0x204008 = 0x110300"
    "load32 mount_memory 0x20400C = 0x110400" "load32 mount_memory 0x204010 = 0x110500" "load32 mount_memory 0x204014 = 0x110600"
    by (simp_all add: mount_memory_def load32_def)
  then have "fs_object lm m" using d by (simp add: fs_object_def demo_addresses_def l)
  moreover have "cstr_at m 0x204100 [70, 65, 84, 49, 54]" by (simp add: m mount_memory_def)
  moreover have "K (0x204100 + of_nat i)" if "i \<le> 5" for i
    by (rule K) (use that in \<open>simp_all add: unat_word_ariths unat_of_nat_u32\<close>)
  ultimately show ?thesis unfolding boot_data_def demo_addresses_simps[OF d] by (intro conjI exI[of _ "[70, 65, 84, 49, 54]"]) auto
qed

lemma demo_request:
  assumes d: "demo_addresses lm" and K: "\<And>a. unat a < 0x5000 \<or> 0x203000 \<le> unat a \<and> unat a < 0x204000 \<Longrightarrow> K a"
    and m: "\<And>a. unat a < 0x5000 \<or> 0x200000 \<le> unat a \<and> unat a < 0x300000 \<Longrightarrow> m a = mount_memory a"
  shows "boot_request lm K m 0x200 [48, 58, 47, 104, 105, 46, 116, 120, 116] 0x300 [104, 105, 46, 116, 120, 116]"
proof -
  have q: "K (0x200 + of_nat i)" "K (0x203000 + of_nat i)" if "i < 0x1000" for i
    by (rule K; use that in \<open>simp add: unat_word_ariths unat_of_nat_u32\<close>)+
  have "cstr_at m 0x200 [48, 58, 47, 104, 105, 46, 116, 120, 116]" "cstr_at m 0x203000 [58, 47]" "m 0x300 = 114" "m 0x203010 = 114"
    by (simp_all add: m mount_memory_def)
  then show ?thesis
    using q q(1)[of "0x100"] q(2)[of "0x10"] unfolding boot_request_def demo_addresses_simps[OF d]
    by (auto simp: valid_path_def isdigit_def components.simps)
qed

lemma mount_mem: "\<not> in_region 0x7E00 25600 a \<Longrightarrow> memory mount_machine a = mount_memory a"
  by (simp add: mount_machine_def kheap_init_eq memset_eq)

lemma mount_live: "klive kernel_heap_layout mount_machine Map.empty"
  unfolding mount_machine_def by (rule kheap_init_live)

lemma mount_device: "ata_disk (drive_ports img) (\<lambda>d. pending d = []) img" "pending (device mount_machine) = []"
  using drive_is_ata_disk by (simp_all add: mount_machine_def kheap_init_eq demo_machine_def)

lemma mount_start:
  "boot_data mount_links (quiet mount_links kernel_heap_layout) (memory mount_machine)"
  "boot_request mount_links (quiet mount_links kernel_heap_layout) (memory mount_machine) 0x200 [48, 58, 47, 104, 105, 46, 116, 120, 116] 0x300 [104, 105, 46, 116, 120, 116]"
proof -
  have "memory mount_machine a = mount_memory a" if "unat a < 0x5000 \<or> 0x200000 \<le> unat a \<and> unat a < 0x300000" for a
    by (rule mount_mem) (use that in \<open>auto simp: in_region_iff_nat\<close>)
  then show "boot_data mount_links (quiet mount_links kernel_heap_layout) (memory mount_machine)"
    "boot_request mount_links (quiet mount_links kernel_heap_layout) (memory mount_machine) 0x200 [48, 58, 47, 104, 105, 46, 116, 120, 116] 0x300 [104, 105, 46, 116, 120, 116]"
    by (intro demo_boot_data demo_request mount_links_demo demo_quiet; auto)+
qed

lemma mount_volume: "fat16_volume mount_image 2 5 16 2 session_entries"
proof -
  let ?v = "disk_view mount_image 0" and ?r = "disk_view mount_image (512 * 5)"
  have "?v 38 = 0x29" "?v 13 = 2" "uint (?v 16) * uint (load16 ?v 22) + uint (load16 ?v 14) = int 5" "uint (load16 ?v 17) = int 16"
    by (simp_all add: disk_view_def disk_byte_def mount_image_def mount_header_def load16_def)
  moreover have "directory_ends mount_image (512 * 5) 2" "live_entries mount_image (512 * 5) 0 2 = 2"
    by (auto simp: directory_ends_def live_entries_def disk_byte_def mount_image_def mount_root_def upt_rec less_2_cases_iff)
  moreover have "dir_name ?r 0 [65] []" "dir_name ?r 32 [72, 73] [84, 88, 84]"
    by (simp_all add: dir_name_def all_less_8 all_less_3 name_char_def disk_view_def disk_byte_def mount_image_def mount_root_def)
  ultimately show ?thesis unfolding fat16_volume_def all_entries by (simp add: session_entries_simps)
qed

lemma mount_file: "volume_file mount_image 5 session_entries [104, 105, 46, 116, 120, 116] 1 3 600"
proof -
  let ?r = "disk_view mount_image (512 * 5)"
  have "?r 43 AND 0x10 = 0" "load16 ?r 56 = 0" "load16 ?r 58 = 3" "load32 ?r 60 = 600"
    by (simp_all add: disk_view_def disk_byte_def mount_image_def mount_root_def load16_def load32_def)
  then show ?thesis
    unfolding volume_file_def all_entries
    by (simp add: session_entries_simps same_name_def full_name_def tolower_def fat16_get_first_cluster_for_directory_item_def)
qed

subsection \<open>Properties\<close>

text \<open>
  From the start to the contents of a file: on a disk with a FAT16 volume \<^verbatim>\<open>fs_init\<close> and \<^verbatim>\<open>disk_search_and_init\<close> find and mount it, and then
  \<^verbatim>\<open>fopen\<close> of a file of the root directory returns 1, \<^verbatim>\<open>fread\<close> fills the caller's buffer with the first \<open>n\<close> bytes of the file on the disk
  and \<^verbatim>\<open>fclose\<close> returns 0.  Nothing is assumed of the driver's state: the header, the directory and the entry are those on the disk.
\<close>

theorem boot_session:
  fixes s :: "('d, 'a) iostate_scheme"
  assumes "boot_layout lm h" "klive h s A" "12 \<le> card (unused_blocks (nblocks h) A)" "boot_data lm (quiet lm h) (memory s)"
    and "ata_disk hw idle img" "idle (device s)" "fat16_volume img cl S E N es"
    and "boot_request lm (quiet lm h) (memory s) p xs mode c" "volume_file img S es c k fc sz" "cluster_on_disk cl (S + 32 * E div 512) fc"
    and "0 < n" "n \<le> sz" "n \<le> 512 * cl" "\<forall>a. in_region out n a \<longrightarrow> quiet lm h a"
  shows "\<exists>s1 s2 s3 s4 s5. fs_init lm s = Some s1 \<and> disk_search_and_init lm (fs_resolve lm hw) s1 = Some s2
    \<and> fopen lm hw p mode s2 = Some (1, s3) \<and> fread lm hw out (of_nat n) 1 1 s3 = Some (1, s4) \<and> fclose lm 1 s4 = Some (0, s5)
    \<and> (\<forall>j < n. memory s5 (out + of_nat j) = file_byte img cl (S + 32 * E div 512) fc j)"
  using assms by (rule boot_session_ok)

theorem boot_session_witness:
  "\<exists>s1 s2 s3 s4 s5. fs_init mount_links mount_machine = Some s1
    \<and> disk_search_and_init mount_links (fs_resolve mount_links (drive_ports mount_image)) s1 = Some s2
    \<and> fopen mount_links (drive_ports mount_image) 0x200 0x300 s2 = Some (1, s3)
    \<and> fread mount_links (drive_ports mount_image) 0x5800 600 1 1 s3 = Some (1, s4) \<and> fclose mount_links 1 s4 = Some (0, s5) \<and> memory s5 0x5801 = 9"
proof -
  have b: "\<forall>a. in_region 0x5800 600 a \<longrightarrow> quiet mount_links kernel_heap_layout a" by (auto intro!: demo_quiet mount_links_demo simp: in_region_iff_nat)
  have c: "cluster_on_disk 2 (5 + 32 * 16 div 512) 3" by (simp add: cluster_on_disk_def)
  from boot_session[OF demo_boot_layout[OF mount_links_demo] mount_live session_room mount_start(1) mount_device mount_volume mount_start(2) mount_file c _ _ _ b]
  obtain s1 s2 s3 s4 s5 where r: "fs_init mount_links mount_machine = Some s1"
    "disk_search_and_init mount_links (fs_resolve mount_links (drive_ports mount_image)) s1 = Some s2"
    "fopen mount_links (drive_ports mount_image) 0x200 0x300 s2 = Some (1, s3)"
    "fread mount_links (drive_ports mount_image) 0x5800 600 1 1 s3 = Some (1, s4)" "fclose mount_links 1 s4 = Some (0, s5)"
    "\<forall>j < 600. memory s5 (0x5800 + of_nat j) = file_byte mount_image 2 (5 + 32 * 16 div 512) 3 j" by auto
  from r(6)[rule_format, of 1] have "memory s5 0x5801 = 9" by (simp add: file_byte_def disk_byte_def mount_image_def)
  with r show ?thesis by blast
qed

text \<open>
  C17.  On a disk without the FAT16 signature the kernel starts without a file system: \<^verbatim>\<open>disk_search_and_init\<close> returns, the disk has neither file system
  nor private data and every \<^verbatim>\<open>fopen\<close> returns 0.  The three streams of the driver stay allocated, and so do the pages of the path.
\<close>

theorem boot_refused:
  fixes s :: "('d, 'a) iostate_scheme"
  assumes "boot_layout lm h" "klive h s A" "8 \<le> card (unused_blocks (nblocks h) A)" "boot_data lm (quiet lm h) (memory s)"
    and "ata_disk hw idle img" "idle (device s)" "fat_signature (disk_view img 0) 0 \<noteq> RAOS_FAT16_SIGNATURE"
    and "boot_request lm (quiet lm h) (memory s) p xs mode c"
  shows "\<exists>s1 s2 s3 L P. fs_init lm s = Some s1 \<and> disk_search_and_init lm (fs_resolve lm hw) s1 = Some s2
    \<and> load32 (memory s2) (disk_at lm + 12) = NULL \<and> load32 (memory s2) (disk_at lm + 16) = NULL
    \<and> klive h s2 (with_pages A L) \<and> card L = 3 \<and> L \<subseteq> unused_blocks (nblocks h) A
    \<and> fopen lm hw p mode s2 = Some (0, s3) \<and> klive h s3 (with_pages (with_pages A L) P) \<and> card P = 3"
  using assms by (rule boot_refused_ok)

theorem boot_refused_witness:
  "\<exists>s1 s2 s3. fs_init mount_links mount_machine = Some s1
    \<and> disk_search_and_init mount_links (fs_resolve mount_links (drive_ports (\<lambda>_ _. 0))) s1 = Some s2
    \<and> load32 (memory s2) 0x20200C = 0 \<and> fopen mount_links (drive_ports (\<lambda>_ _. 0)) 0x200 0x300 s2 = Some (0, s3)"
proof -
  have "fat_signature (disk_view (\<lambda>_ _. 0) 0) 0 \<noteq> RAOS_FAT16_SIGNATURE" by (simp add: disk_view_def disk_byte_def)
  from boot_refused[OF demo_boot_layout[OF mount_links_demo] mount_live session_room mount_start(1) mount_device this mount_start(2)]
  show ?thesis unfolding demo_addresses_simps[OF mount_links_demo] by auto
qed

end
