(* ===== verification/KernelBoot.thy ===== *)
theory KernelBoot
  imports Mount Kernel
begin

text \<open>
  The state that \<^verbatim>\<open>kernel_main\<close> of \<^verbatim>\<open>src/src/kernel.c\<close> has brought up when it reaches its file test: segments, heap, mounted volume, interrupt
  gates, task state segment and the identity address space, all in place at once, and files can be read.
\<close>

subsection \<open>An address space beside static memory\<close>

lemma new_table_stable:
  fixes s :: "'a kstate_scheme"
  assumes live: "klive h s (with_pages A B)" and fresh: "\<forall>b \<in> B. A b = None" and bd: "bd \<in> B" "bd \<in> unused_blocks (nblocks h) A"
    and room: "unused_blocks (nblocks h) (with_pages A B) \<noteq> {}" and i: "i < 1024" and a: "stable h A a"
  shows "memory (snd (paging_new_table (block_addr h bd) f i (off, s))) a = memory s a"
proof -
  have sz: "0 < (4096 :: u32)" "unat (4096 :: u32) \<le> 4096" by simp_all
  obtain b m where k: "kzalloc 4096 s = (block_addr h b, s\<lparr>memory := m\<rparr>)" "klive h (s\<lparr>memory := m\<rparr>) ((with_pages A B)(b \<mapsto> 1))"
    "with_pages A B b = None" "b \<in> unused_blocks (nblocks h) (with_pages A B)"
    "unused_blocks (nblocks h) ((with_pages A B)(b \<mapsto> 1)) = unused_blocks (nblocks h) (with_pages A B) - {b}"
    "\<And>a. in_region (block_addr h b) (unat (4096 :: u32)) a \<Longrightarrow> m a = 0" "\<And>a. \<not> in_table h a \<Longrightarrow> \<not> in_blocks h b 1 a \<Longrightarrow> m a = memory s a"
    by (rule kzalloc_page[OF live room sz], rule that)
  have "b \<in> unused_blocks (nblocks h) A" using k(4) unfolding unused_with_pages[OF fresh] by blast
  then have out: "\<not> in_table h a" "\<not> in_blocks h b 1 a" "\<not> in_blocks h bd 1 a" using a bd(2) by (simp_all add: stable_def)
  have "\<not> in_region (block_addr h bd + 4 * of_nat i) 4 a" using page_cell_in_block[OF live _ i, of bd a] bd(1) out(3) by auto
  moreover have "block_addr h b mod 4096 = 0" using klive_block[OF k(2), of b 1] by (intro block_addr_aligned) auto
  moreover have "\<not> in_region (block_addr h b) 4096 a" using out(2) by (simp add: in_blocks_def)
  ultimately show ?thesis using k(1,7) out(1,2) by (simp add: paging_new_table_def Let_def store32_outside paging_fill_table_outside)
qed

lemma new_tables_stable:
  fixes s :: "'a kstate_scheme"
  assumes st: "building h f A m0 bd [] s" and bd: "bd \<in> unused_blocks (nblocks h) A" and n: "n \<le> 1024" "n < card (unused_blocks (nblocks h) A)"
    and a: "stable h A a"
  shows "memory (snd (fold (paging_new_table (block_addr h bd) f) [0..<n] (0, s))) a = memory s a"
  using n
proof (induction n)
  case (Suc n)
  have le: "n \<le> 1024" "n < card (unused_blocks (nblocks h) A)" using Suc.prems by simp_all
  obtain fs m where t: "fold (paging_new_table (block_addr h bd) f) [0..<n] (0, s) = (of_nat (4194304 * n), s\<lparr>memory := m\<rparr>)" "length fs = n"
    "building h f A m0 bd fs (s\<lparr>memory := m\<rparr>)" using paging_new_tables[OF st le] by auto
  let ?B = "insert bd (set fs)"
  have b: "klive h (s\<lparr>memory := m\<rparr>) (with_pages A ?B)" "\<forall>b \<in> ?B. A b = None"
    "card (unused_blocks (nblocks h) A) = Suc n + card (unused_blocks (nblocks h) (with_pages A ?B))"
    using t(2,3) by (auto simp: building_def)
  have ne: "unused_blocks (nblocks h) (with_pages A ?B) \<noteq> {}" using b(3) Suc.prems(2) by auto
  have "memory (snd (paging_new_table (block_addr h bd) f n (of_nat (4194304 * n), s\<lparr>memory := m\<rparr>))) a = memory (s\<lparr>memory := m\<rparr>) a"
    by (rule new_table_stable[OF b(1,2) _ bd ne _ a]) (use Suc.prems in auto)
  moreover have "m a = memory s a" using Suc.IH[OF le] t(1) by simp
  ultimately show ?case by (simp add: t(1) del: of_nat_mult)
qed simp

lemma first_page_building:
  fixes s :: "'a kstate_scheme"
  assumes live: "klive h s A" and room: "0 < card (unused_blocks (nblocks h) A)"
  obtains bd m where "kzalloc 4096 s = (block_addr h bd, s\<lparr>memory := m\<rparr>)" "building h f A (memory s) bd [] (s\<lparr>memory := m\<rparr>)"
    "bd \<in> unused_blocks (nblocks h) A" "\<And>a. \<not> in_table h a \<Longrightarrow> \<not> in_blocks h bd 1 a \<Longrightarrow> m a = memory s a"
proof -
  have sz: "unused_blocks (nblocks h) A \<noteq> {}" "0 < (4096 :: u32)" "unat (4096 :: u32) \<le> 4096" using room by auto
  obtain b m where k: "kzalloc 4096 s = (block_addr h b, s\<lparr>memory := m\<rparr>)" "klive h (s\<lparr>memory := m\<rparr>) (A(b \<mapsto> 1))"
    "A b = None" "b \<in> unused_blocks (nblocks h) A" "unused_blocks (nblocks h) (A(b \<mapsto> 1)) = unused_blocks (nblocks h) A - {b}"
    "\<And>a. in_region (block_addr h b) (unat (4096 :: u32)) a \<Longrightarrow> m a = 0" "\<And>a. \<not> in_table h a \<Longrightarrow> \<not> in_blocks h b 1 a \<Longrightarrow> m a = memory s a"
    by (rule kzalloc_page[OF live sz], rule that)
  have A1: "A(b \<mapsto> 1) = with_pages A {b}" using with_pages_simps(2)[of A "{}" b] by (simp only: with_pages_simps)
  have "m a = memory s a" if "A c = Some n" "in_blocks h c n a" for c n a
  proof (rule k(7))
    have c: "(A(b \<mapsto> 1)) c = Some n" "c \<noteq> b" using that(1) k(3) by auto
    show "\<not> in_table h a" using blocks_not_in_table[OF klive_block(1,3,4)[OF live that(1)] that(2)] .
    show "\<not> in_blocks h b 1 a" using klive_apart[OF k(2) c(1) _ c(2) that(2), of 1] by simp
  qed
  moreover have "card (unused_blocks (nblocks h) A) = Suc (card (unused_blocks (nblocks h) (with_pages A {b})))"
    using card.remove[OF _ k(4)] k(5) unfolding A1 by simp
  ultimately have "building h f A (memory s) b [] (s\<lparr>memory := m\<rparr>)"
    using k(2,3) unfolding A1 by (simp add: building_def tables_built_def)
  then show thesis using that k(1,4,7) by blast
qed

lemma new_4gb_stable:
  fixes s :: "'a kstate_scheme"
  assumes live: "klive h s A" and room: "1026 \<le> card (unused_blocks (nblocks h) A)" and a: "stable h A a"
  shows "memory (snd (paging_new_4gb f s)) a = memory s a"
proof -
  have r0: "0 < card (unused_blocks (nblocks h) A)" using room by simp
  obtain bd m1 where d: "kzalloc 4096 s = (block_addr h bd, s\<lparr>memory := m1\<rparr>)" "building h f A (memory s) bd [] (s\<lparr>memory := m1\<rparr>)"
    "bd \<in> unused_blocks (nblocks h) A" "\<And>a. \<not> in_table h a \<Longrightarrow> \<not> in_blocks h bd 1 a \<Longrightarrow> m1 a = memory s a"
    by (rule first_page_building[OF live r0], rule that)
  have le: "(1024 :: nat) \<le> 1024" "1024 < card (unused_blocks (nblocks h) A)" using room by simp_all
  obtain fs m2 where t: "fold (paging_new_table (block_addr h bd) f) [0..<1024] (0, s\<lparr>memory := m1\<rparr>) = (of_nat (4194304 * 1024), s\<lparr>memory := m1\<rparr>\<lparr>memory := m2\<rparr>)"
    "length fs = 1024" "building h f A (memory s) bd fs (s\<lparr>memory := m1\<rparr>\<lparr>memory := m2\<rparr>)" using paging_new_tables[OF d(2) le] by auto
  let ?B = "insert bd (set fs)" and ?s2 = "s\<lparr>memory := m2\<rparr>"
  have b: "klive h ?s2 (with_pages A ?B)" "\<forall>b \<in> ?B. A b = None"
    "card (unused_blocks (nblocks h) A) = Suc 1024 + card (unused_blocks (nblocks h) (with_pages A ?B))"
    using t(2,3) by (auto simp: building_def)
  have sz: "unused_blocks (nblocks h) (with_pages A ?B) \<noteq> {}" "0 < (4 :: u32)" "unat (4 :: u32) \<le> 4096" using b(3) room by auto
  obtain c m3 where k: "kzalloc 4 ?s2 = (block_addr h c, ?s2\<lparr>memory := m3\<rparr>)" "klive h (?s2\<lparr>memory := m3\<rparr>) ((with_pages A ?B)(c \<mapsto> 1))"
    "with_pages A ?B c = None" "c \<in> unused_blocks (nblocks h) (with_pages A ?B)"
    "unused_blocks (nblocks h) ((with_pages A ?B)(c \<mapsto> 1)) = unused_blocks (nblocks h) (with_pages A ?B) - {c}"
    "\<And>a. in_region (block_addr h c) (unat (4 :: u32)) a \<Longrightarrow> m3 a = 0" "\<And>a. \<not> in_table h a \<Longrightarrow> \<not> in_blocks h c 1 a \<Longrightarrow> m3 a = memory ?s2 a"
    by (rule kzalloc_page[OF b(1) sz], rule that)
  have "c \<in> unused_blocks (nblocks h) A" using k(4) unfolding unused_with_pages[OF b(2)] by blast
  then have out: "\<not> in_table h a" "\<not> in_blocks h c 1 a" "\<not> in_blocks h bd 1 a" using a d(3) by (simp_all add: stable_def)
  have "\<not> in_region (block_addr h c) 4 a" using out(2) page_region[of h c 0 4 a] by auto
  moreover have "m2 a = m1 a" using new_tables_stable[OF d(2,3) le a] t(1) by simp
  ultimately show ?thesis using d(1,4) t(1) k(1,7) out by (simp add: paging_new_4gb_def Let_def store32_outside del: of_nat_mult)
qed

lemma new_4gb_took:
  fixes s :: "'a kstate_scheme"
  assumes live: "klive h s A" and room: "1026 \<le> card (unused_blocks (nblocks h) A)"
  obtains c bd fs m where "paging_new_4gb f s = (block_addr h c, s\<lparr>memory := m\<rparr>)" "took h A s (set (c # bd # fs)) (s\<lparr>memory := m\<rparr>)"
    "chunk_pages h m c bd fs" "\<forall>v < 2 ^ 20. pte m (block_addr h bd) v = of_nat (4096 * v) OR ucast f"
proof -
  obtain c bd fs m where p: "paging_new_4gb f s = (block_addr h c, s\<lparr>memory := m\<rparr>)" "klive h (s\<lparr>memory := m\<rparr>) (with_pages A (set (c # bd # fs)))"
    "\<forall>b \<in> set (c # bd # fs). A b = None" "chunk_pages h m c bd fs" "\<forall>v < 2 ^ 20. pte m (block_addr h bd) v = of_nat (4096 * v) OR ucast f"
    using paging_new_4gb_ok[OF live room, of f] by blast
  let ?B = "set (c # bd # fs)"
  have keep: "m a = memory s a" if "stable h A a" for a using new_4gb_stable[OF live room that, of f] p(1) by simp
  have "?B \<subseteq> unused_blocks (nblocks h) A"
  proof
    fix b assume b: "b \<in> ?B"
    have one: "with_pages A ?B b = Some 1" using b by (simp only: with_pages_simps)
    have nb: "heap_wf h" "b < nblocks h" using klive_block[OF p(2) one] by auto
    have "\<not> taken_by A b e" for e
    proof
      assume "taken_by A b e"
      then obtain n where e: "A e = Some n" "e \<le> b" "b < e + n" by (auto simp: taken_by_def)
      have ne: "e \<notin> ?B" using e(1) p(3) by auto
      have en: "with_pages A ?B e = Some n" using e(1) ne by simp
      have "in_blocks h e n (block_addr h b)" "in_blocks h b 1 (block_addr h b)"
        using in_blocks_iff[OF klive_block(1,3,4)[OF p(2) en], of "block_addr h b"] in_blocks_iff[OF klive_block(1,3,4)[OF p(2) one], of "block_addr h b"]
          block_addr_unat[OF nb] e(2,3) by auto
      then show False using klive_apart[OF p(2) en one] ne b by blast
    qed
    then show "b \<in> unused_blocks (nblocks h) A" using nb(2) by (simp add: unused_blocks_def unused_def)
  qed
  then have "took h A s ?B (s\<lparr>memory := m\<rparr>)" using p(2,3) keep unused_with_pages[OF p(3)] by (simp add: took_def)
  then show thesis using that p(1,4,5) by blast
qed

subsection \<open>Console, segments and interrupts\<close>

definition console_area :: "u32 \<Rightarrow> bool" where
  "console_area a \<longleftrightarrow> in_region 0xB8000 3200 a"

lemma cell_console: "\<not> console_area a \<Longrightarrow> k < 1600 \<Longrightarrow> \<not> in_region (cell_addr k) 2 a"
  using cell_addr_unat[of k] by (simp add: console_area_def in_region_iff_nat) linarith

lemma console_cleared:
  obtains m where "terminal_initialize s = s\<lparr>video_mem := 0xB8000, terminal_row := 0, terminal_col := 0, memory := m\<rparr>"
    "\<And>a. \<not> console_area a \<Longrightarrow> m a = memory s a"
proof -
  have ks: "set [0..<1600] \<subseteq> {..<80 * 2 ^ 16}" by auto
  show thesis
    by (rule that[OF terminal_initialize_eq]) (use fold_store16_cells[OF ks, of "0x20" "memory s"] cell_console in auto)
qed

lemma print_literal_fields: "\<exists>m r c. print_literal bs s = s\<lparr>memory := m, terminal_row := r, terminal_col := c\<rparr>"
  unfolding print_literal_def
proof (induction bs arbitrary: s)
  case Nil
  then show ?case by (intro exI[of _ "memory s"] exI[of _ "terminal_row s"] exI[of _ "terminal_col s"]) simp
next
  case (Cons b bs)
  let ?s = "terminal_writechar b 15 s"
  have w: "?s = s\<lparr>memory := memory ?s, terminal_row := terminal_row ?s, terminal_col := terminal_col ?s\<rparr>"
    by (cases s) (simp add: terminal_writechar_def terminal_putchar_def Let_def)
  obtain m r c where "fold (\<lambda>c. terminal_writechar c 15) bs ?s = ?s\<lparr>memory := m, terminal_row := r, terminal_col := c\<rparr>" using Cons.IH by blast
  also have "\<dots> = s\<lparr>memory := m, terminal_row := r, terminal_col := c\<rparr>" by (subst w) simp
  finally show ?case by auto
qed

lemma hello_printed:
  assumes "video_mem s = 0xB8000" "terminal_row s = 0" "terminal_col s = 0"
  obtains m r c where "print_literal (map of_char ''Hello RaOS!'' @ [10]) s = s\<lparr>memory := m, terminal_row := r, terminal_col := c\<rparr>"
    "\<And>a. \<not> console_area a \<Longrightarrow> m a = memory s a"
proof -
  define bs :: "u8 list" where "bs = map of_char ''Hello RaOS!'' @ [10]"
  have bs: "text_end 0 bs = 80" unfolding bs_def by code_simp
  obtain m r c where p: "print_literal bs s = s\<lparr>memory := m, terminal_row := r, terminal_col := c\<rparr>" using print_literal_fields by blast
  have c0: "cursor s = 0" "term_wf s" using assms by (simp_all add: cursor_def term_wf_def)
  have "memory (print_literal bs s) a = memory s a" if "\<not> console_area a" for a
  proof (rule print_literal_frame[OF c0(2)])
    show "text_end (cursor s) bs < 80 * 2 ^ 16" by (simp add: c0 bs)
    show "\<forall>(k, c) \<in> set (shown (cursor s) bs). \<not> in_region (cell_addr k) 2 a"
      using cell_console[OF that] shown_bounds[of _ _ 0 bs] unfolding c0 bs by fastforce
  qed
  then show thesis using that p unfolding bs_def by simp
qed

lemma gdt_loop_fields: "gdt_structured_to_gdt_loop p gs n i s = Some s' \<Longrightarrow> \<exists>m. s' = s\<lparr>memory := m\<rparr>"
proof (induction p gs n i s rule: gdt_structured_to_gdt_loop.induct)
  case (1 p gs n i s)
  show ?case
  proof (cases "i < n")
    case False
    then have "s' = s\<lparr>memory := memory s\<rparr>" using "1.prems" by (simp add: gdt_structured_to_gdt_loop.simps[of p gs n i])
    then show ?thesis by blast
  next
    case True
    with "1.prems" obtain t where t: "nat i < length gs" "encode_gdt_entry (p + 8 * word_of_int i) (gs ! nat i) s = Some t"
      "gdt_structured_to_gdt_loop p gs n (i + 1) t = Some s'"
      by (auto simp: gdt_structured_to_gdt_loop.simps[of p gs n i] split: if_splits bind_splits)
    then obtain m where "t = s\<lparr>memory := m\<rparr>" by (auto simp: encode_gdt_entry_def panic_def Let_def split: if_splits)
    moreover obtain m' where "s' = t\<lparr>memory := m'\<rparr>" using "1.IH"[OF True t(1) t(2) t(3)] by blast
    ultimately show ?thesis by auto
  qed
qed

lemma segments_written:
  fixes s :: "'a machine_scheme"
  obtains m where "gdt_structured_to_gdt p (gdt_segments lm) 6 s = Some (s\<lparr>memory := m\<rparr>)"
    "\<forall>i < 6. describes m (p + 8 * of_nat i) (gdt_segments lm ! i)" "\<And>a. \<not> in_region p 48 a \<Longrightarrow> m a = memory s a"
proof -
  have len: "length (gdt_segments lm) = 6" by (simp add: gdt_segments_def)
  have "\<forall>g \<in> set (gdt_segments lm). encodable g" by (simp add: gdt_segments_def encodable_def)
  then obtain s' where "gdt_structured_to_gdt_loop p (gdt_segments lm) 6 0 s = Some s'" "\<forall>i < 6. describes (memory s') (p + 8 * of_nat i) (gdt_segments lm ! i)"
    "\<forall>a. \<not> in_region p 48 a \<longrightarrow> memory s' a = memory s a"
    using gdt_loop_describes[of "gdt_segments lm" 0 s p] len by auto
  moreover obtain m where "s' = s\<lparr>memory := m\<rparr>" using gdt_loop_fields[OF calculation(1)] by blast
  ultimately show thesis using that[of m] by (simp add: gdt_structured_to_gdt_def)
qed

subsection \<open>Up to the heap\<close>

text \<open>The static memory that \<^verbatim>\<open>kernel_main\<close> writes itself: screen, segment table, interrupt table and its register image, task state segment.\<close>

definition kernel_area :: "'l kernellinks_scheme \<Rightarrow> u32 \<Rightarrow> bool" where
  "kernel_area lm a \<longleftrightarrow> console_area a \<or> in_region (gdt_real_at lm) 48 a \<or> in_region (idt_descriptors_at lm) 4096 a
     \<or> in_region (idtr_descriptors_at lm) 6 a \<or> in_region (tss_at lm) 100 a"

definition kernel_layout :: "'l kernellinks_scheme \<Rightarrow> bool" where
  "kernel_layout lm \<longleftrightarrow> boot_layout lm kernel_heap_layout \<and> (\<forall>a. kernel_area lm a \<longrightarrow> quiet lm kernel_heap_layout a)
     \<and> (\<forall>a. console_area a \<longrightarrow> \<not> in_region (gdt_real_at lm) 48 a)
     \<and> disjoint_regions (gdt_real_at lm) 48 (idt_descriptors_at lm) 4096 \<and> disjoint_regions (gdt_real_at lm) 48 (idtr_descriptors_at lm) 6
     \<and> disjoint_regions (gdt_real_at lm) 48 (tss_at lm) 100 \<and> disjoint_regions (idt_descriptors_at lm) 4096 (tss_at lm) 100
     \<and> disjoint_regions (idt_descriptors_at lm) 4096 (idtr_descriptors_at lm) 6"

definition untouched :: "'l kernellinks_scheme \<Rightarrow> u32 \<Rightarrow> bool" where
  "untouched lm a \<longleftrightarrow> quiet lm kernel_heap_layout a \<and> \<not> kernel_area lm a"

text \<open>What follows the search for the disk.\<close>

definition kernel_finish :: "'l kernellinks_scheme \<Rightarrow> ('d, 'a) kernelstate_scheme \<Rightarrow> ('d, 'a) kernelstate_scheme" where
  "kernel_finish lm s8 =
     (let s9 = idt_init lm s8;
          m10 = memset (memory s9) (tss_at lm) 0 100;
          m11 = store32 m10 (tss_at lm + 4) 0x600000;
          s12 = tss_load 0x28 (s9\<lparr>memory := store32 m11 (tss_at lm + 8) KERNEL_DATA_SELECTOR\<rparr>);
          (chunk, s13) = paging_new_4gb 7 s12;
          s14 = s13\<lparr>kernel_chunk := chunk\<rparr>
      in enable_interrupts (enable_paging (paging_switch (kernel_chunk s14) s14)))"

lemma static_off_table: "static_byte h a \<Longrightarrow> \<not> in_table h a"
  by (simp add: static_byte_def)

lemma kernel_starts:
  fixes s :: "('d, 'a) kernelstate_scheme"
  assumes lay: "kernel_layout lm"
  obtains s6 where "kernel_boot lm hw s = do { s7 \<leftarrow> fs_init lm s6; s8 \<leftarrow> disk_search_and_init lm (fs_resolve lm hw) s7; Some (kernel_finish lm s8) }"
    "klive kernel_heap_layout s6 Map.empty" "device s6 = device s" "gdtr s6 = (48, gdt_real_at lm)"
    "\<forall>i < 6. describes (memory s6) (gdt_real_at lm + 8 * of_nat i) (gdt_segments lm ! i)"
    "\<And>a. static_byte kernel_heap_layout a \<Longrightarrow> \<not> kernel_area lm a \<Longrightarrow> memory s6 a = memory s a"
proof -
  let ?g = "gdt_real_at lm"
  obtain m1 where t: "terminal_initialize s = s\<lparr>video_mem := 0xB8000, terminal_row := 0, terminal_col := 0, memory := m1\<rparr>"
    "\<And>a. \<not> console_area a \<Longrightarrow> m1 a = memory s a" by (rule console_cleared[of s], rule that)
  let ?s1 = "s\<lparr>video_mem := 0xB8000, terminal_row := 0, terminal_col := 0, memory := m1\<rparr>"
  let ?s2 = "?s1\<lparr>memory := memset m1 ?g 0 48\<rparr>"
  obtain m3 where g: "gdt_structured_to_gdt ?g (gdt_segments lm) 6 ?s2 = Some (?s2\<lparr>memory := m3\<rparr>)"
    "\<forall>i < 6. describes m3 (?g + 8 * of_nat i) (gdt_segments lm ! i)" "\<And>a. \<not> in_region ?g 48 a \<Longrightarrow> m3 a = memory ?s2 a"
    by (rule segments_written[of ?g lm ?s2], rule that)
  let ?s4 = "gdt_load ?g 48 (?s2\<lparr>memory := m3\<rparr>)"
  have v: "video_mem ?s4 = 0xB8000" "terminal_row ?s4 = 0" "terminal_col ?s4 = 0" by (simp_all add: gdt_load_def)
  obtain m5 r c where p: "print_literal (map of_char ''Hello RaOS!'' @ [10]) ?s4 = ?s4\<lparr>memory := m5, terminal_row := r, terminal_col := c\<rparr>"
    "\<And>a. \<not> console_area a \<Longrightarrow> m5 a = memory ?s4 a" by (rule hello_printed[OF v], rule that)
  let ?s5 = "?s4\<lparr>memory := m5, terminal_row := r, terminal_col := c\<rparr>"
  let ?s6 = "kheap_init ?s5"
  have m6: "memory ?s6 a = m5 a" if "static_byte kernel_heap_layout a" for a
  proof -
    have "\<not> in_region 0x7E00 25600 a" using static_off_table[OF that] by (simp add: in_table_def kernel_heap_layout_def nblocks_def)
    then show ?thesis by (simp add: kheap_init_eq memset_eq)
  qed
  have gd: "memory ?s6 a = m3 a" if "in_region ?g 48 a" for a
  proof -
    have "static_byte kernel_heap_layout a" "\<not> console_area a" using lay that by (auto simp: kernel_layout_def kernel_area_def quiet_def)
    then show ?thesis using m6 p(2) by (simp add: gdt_load_def)
  qed
  have fr: "memory ?s6 a = memory s a" if "static_byte kernel_heap_layout a" "\<not> kernel_area lm a" for a
    using m6[OF that(1)] p(2)[of a] g(3)[of a] t(2)[of a] that(2) by (simp add: kernel_area_def gdt_load_def memset_eq)
  have des: "describes (memory ?s6) (?g + 8 * of_nat i) (gdt_segments lm ! i)" if "i < 6" for i
  proof -
    have "describes (memory ?s6) (?g + 8 * of_nat i) (gdt_segments lm ! i) = describes m3 (?g + 8 * of_nat i) (gdt_segments lm ! i)"
      by (rule describes_cong, rule gd) (use that entry_in_table[of i 6 ?g] in auto)
    then show ?thesis using g(2) that by simp
  qed
  have eq: "kernel_boot lm hw s = do { s7 \<leftarrow> fs_init lm ?s6; s8 \<leftarrow> disk_search_and_init lm (fs_resolve lm hw) s7; Some (kernel_finish lm s8) }"
    using t(1) g(1) p(1) by (simp add: kernel_boot_def kernel_finish_def Let_def split_beta)
  show thesis
    by (rule that[OF eq kheap_init_live]) (use des fr in \<open>simp_all add: kheap_init_eq gdt_load_def\<close>)
qed

subsection \<open>After the disk is found\<close>

text \<open>The volume's cells are neither quiet nor, therefore, in the memory \<^verbatim>\<open>kernel_main\<close> writes itself.\<close>

lemma cells_not_quiet:
  fixes lm :: "'l filelinks_scheme"
  assumes hd: "holds h A B s" and bs: "{fb, b1, db} \<subseteq> B" and n: "32 * n \<le> 4096"
  shows "kept (\<lambda>a. \<not> quiet lm h a) (volume_cells lm (block_addr h fb) (block_addr h b1) \<union> search_cells (block_addr h fb + 64) (block_addr h db) n)"
proof -
  have pg: "\<not> quiet lm h a" if "in_region (block_addr h b + of_nat off) j a" "off + j \<le> 4096" "b \<in> {fb, b1, db}" for a b off j
  proof -
    have "b \<in> B" using that(3) bs by auto
    then show ?thesis using page_region[OF that(1,2)] static_not_page[OF _ hd, of a b] by (auto simp: quiet_def)
  qed
  have d: "\<not> quiet lm h a" if "in_region (disk_at lm + of_nat off) 4 a" "off + 4 \<le> 20" for a off
    using in_region_sub[OF that] by (simp add: quiet_def boot_area_def)
  have f: "\<not> quiet lm h a" if "in_region (fat16_fs_at lm + of_nat off) 4 a" "off + 4 \<le> 24" for a off
    using in_region_sub[OF that] by (simp add: quiet_def)
  show ?thesis
    using d[of 4] d[of 12] d[of 16] f[of 4] f[of 8] f[of 12] f[of 16] f[of 20] pg[of fb 13 1] pg[of fb 76 4] pg[of fb 80 4]
      pg[of fb 64 8] pg[of db 0 "32 * n"] pg[of b1 4 4] n
    by (auto simp: kept_def volume_cells_def search_cells_def)
qed

lemma open_ready_quiet:
  fixes lm :: "'l filelinks_scheme"
  assumes rd: "open_ready lm h A m (block_addr h fb) (block_addr h b1) cl dat (block_addr h db) es"
    and hd: "holds h A' B s" and bs: "{fb, b1, db} \<subseteq> B" and n: "32 * length es \<le> 4096" and same: "\<And>a. \<not> quiet lm h a \<Longrightarrow> m' a = m a"
  shows "open_ready lm h A m' (block_addr h fb) (block_addr h b1) cl dat (block_addr h db) es"
proof -
  have k: "kept (\<lambda>a. \<not> quiet lm h a) (volume_cells lm (block_addr h fb) (block_addr h b1))"
    "kept (\<lambda>a. \<not> quiet lm h a) (search_cells (block_addr h fb + 64) (block_addr h db) (length es))"
    using cells_not_quiet[OF hd bs n, of lm] by (auto simp: kept_def)
  show ?thesis
    using rd mounted_cong[OF k(1), of m' m cl dat] directory_of_cong[OF k(2), of m' m] same by (simp add: open_ready_def)
qed

lemma tables_in_place:
  fixes s :: "('d, 'a) kernelstate_scheme"
  assumes lay: "kernel_layout lm"
  obtains m where "tss_load 0x28 ((idt_init lm s)\<lparr>memory := store32 (store32 (memset (memory (idt_init lm s)) (tss_at lm) 0 100) (tss_at lm + 4) 0x600000)
      (tss_at lm + 8) KERNEL_DATA_SELECTOR\<rparr>) = s\<lparr>memory := m, idtr := (4095, idt_descriptors_at lm), task_register := 0x28\<rparr>"
    "\<forall>i < 512. gate m (gate_addr lm i) = (if i = 0x21 then int21h_at lm else no_interrupt_at lm, KERNEL_CODE_SELECTOR, 0, 0xEE)"
    "load32 m (tss_at lm + 4) = 0x600000" "load32 m (tss_at lm + 8) = KERNEL_DATA_SELECTOR"
    "\<And>a. \<not> kernel_area lm a \<or> in_region (gdt_real_at lm) 48 a \<Longrightarrow> m a = memory s a"
proof -
  let ?t = "tss_at lm"
  have dj: "disjoint_regions (idt_descriptors_at lm) 4096 (idtr_descriptors_at lm) 6" "disjoint_regions (idt_descriptors_at lm) 4096 ?t 100"
    "disjoint_regions (gdt_real_at lm) 48 (idt_descriptors_at lm) 4096" "disjoint_regions (gdt_real_at lm) 48 (idtr_descriptors_at lm) 6"
    "disjoint_regions (gdt_real_at lm) 48 ?t 100" using lay by (simp_all add: kernel_layout_def)
  obtain m9 where i: "idt_init lm s = s\<lparr>memory := m9, idtr := (4095, idt_descriptors_at lm)\<rparr>"
    "\<forall>i < 512. gate m9 (gate_addr lm i) = (if i = 0x21 then int21h_at lm else no_interrupt_at lm, KERNEL_CODE_SELECTOR, 0, 0xEE)"
    "\<forall>a. \<not> in_region (idt_descriptors_at lm) 4096 a \<longrightarrow> \<not> in_region (idtr_descriptors_at lm) 6 a \<longrightarrow> m9 a = memory s a"
    using idt_init_ok[OF dj(1), of s] by blast
  define m where "m = store32 (store32 (memset m9 ?t 0 100) (?t + 4) 0x600000) (?t + 8) KERNEL_DATA_SELECTOR"
  have out: "m a = m9 a" if "\<not> in_region ?t 100 a" for a
  proof -
    have "\<not> in_region (?t + 4) 4 a" "\<not> in_region (?t + 8) 4 a" using that in_region_sub[of ?t 4 4 a 100] in_region_sub[of ?t 8 4 a 100] by auto
    then show ?thesis using that by (simp add: m_def store32_outside memset_eq)
  qed
  have g: "gate m (gate_addr lm i) = gate m9 (gate_addr lm i)" if "i < 512" for i
  proof (rule gate_cong)
    fix a assume "in_region (gate_addr lm i) 8 a"
    then have "in_region (idt_descriptors_at lm) 4096 a" using entry_in_table[of i 512 "idt_descriptors_at lm" a] that by (simp add: gate_addr_def)
    then show "m a = m9 a" using out[of a] disjoint_regionsD[OF dj(2), of a] by auto
  qed
  have fr: "m a = memory s a" if "\<not> kernel_area lm a \<or> in_region (gdt_real_at lm) 48 a" for a
  proof -
    have "\<not> in_region (idt_descriptors_at lm) 4096 a" "\<not> in_region (idtr_descriptors_at lm) 6 a" "\<not> in_region ?t 100 a"
      using that disjoint_regionsD[OF dj(3), of a] disjoint_regionsD[OF dj(4), of a] disjoint_regionsD[OF dj(5), of a] by (auto simp: kernel_area_def)
    then show ?thesis using out i(3) by simp
  qed
  show thesis
    by (rule that[of m, OF _ _ _ _ fr]) (use i(1,2) g in \<open>simp_all add: m_def tss_load_def load32_store32_other disjoint_regions_def\<close>)
qed

text \<open>The processor's tables and the address space are set up: every page maps to itself, gates, segments and task state segment are in place.\<close>

definition kernel_up :: "'l kernellinks_scheme \<Rightarrow> ('d, 'a) kernelstate_scheme \<Rightarrow> bool" where
  "kernel_up lm s \<longleftrightarrow> interrupts_on s \<and> paging_on s \<and> current_directory s = cr3 s \<and> load32 (memory s) (kernel_chunk s) = cr3 s
     \<and> (\<forall>v < 2 ^ 20. pte (memory s) (cr3 s) v = of_nat (4096 * v) OR 7)
     \<and> idtr s = (4095, idt_descriptors_at lm)
     \<and> (\<forall>i < 512. gate (memory s) (gate_addr lm i) = (if i = 0x21 then int21h_at lm else no_interrupt_at lm, KERNEL_CODE_SELECTOR, 0, 0xEE))
     \<and> gdtr s = (48, gdt_real_at lm) \<and> (\<forall>i < 6. describes (memory s) (gdt_real_at lm + 8 * of_nat i) (gdt_segments lm ! i))
     \<and> task_register s = 0x28 \<and> load32 (memory s) (tss_at lm + 4) = 0x600000 \<and> load32 (memory s) (tss_at lm + 8) = KERNEL_DATA_SELECTOR"

lemma kernel_finish_ok:
  fixes s :: "('d, 'a) kernelstate_scheme"
  assumes lay: "kernel_layout lm" and hd: "holds kernel_heap_layout A B s" and room: "1026 + card B \<le> card (unused_blocks (nblocks kernel_heap_layout) A)"
    and gd: "gdtr s = (48, gdt_real_at lm)" "\<forall>i < 6. describes (memory s) (gdt_real_at lm + 8 * of_nat i) (gdt_segments lm ! i)"
  obtains C where "kernel_up lm (kernel_finish lm s)" "holds kernel_heap_layout (with_pages A B) C (kernel_finish lm s)" "device (kernel_finish lm s) = device s"
    "card C = 1026"
    "\<And>a. stable kernel_heap_layout (with_pages A B) a \<Longrightarrow> \<not> kernel_area lm a \<Longrightarrow> memory (kernel_finish lm s) a = memory s a"
proof -
  let ?h = kernel_heap_layout and ?A = "with_pages A B"
  obtain m where t: "tss_load 0x28 ((idt_init lm s)\<lparr>memory := store32 (store32 (memset (memory (idt_init lm s)) (tss_at lm) 0 100) (tss_at lm + 4) 0x600000)
      (tss_at lm + 8) KERNEL_DATA_SELECTOR\<rparr>) = s\<lparr>memory := m, idtr := (4095, idt_descriptors_at lm), task_register := 0x28\<rparr>"
    "\<forall>i < 512. gate m (gate_addr lm i) = (if i = 0x21 then int21h_at lm else no_interrupt_at lm, KERNEL_CODE_SELECTOR, 0, 0xEE)"
    "load32 m (tss_at lm + 4) = 0x600000" "load32 m (tss_at lm + 8) = KERNEL_DATA_SELECTOR"
    "\<And>a. \<not> kernel_area lm a \<or> in_region (gdt_real_at lm) 48 a \<Longrightarrow> m a = memory s a"
    by (rule tables_in_place[OF lay], rule that)
  let ?s = "s\<lparr>memory := m, idtr := (4095, idt_descriptors_at lm), task_register := 0x28\<rparr>"
  have area: "static_byte ?h a" if "kernel_area lm a" for a using lay that by (auto simp: kernel_layout_def quiet_def)
  have "m a = memory s a" if "in_table ?h a" for a using t(5)[of a] area[of a] that by (auto simp: static_byte_def)
  then have h: "holds ?h A B ?s" by (intro holds_eq[OF hd]) simp_all
  have "unused_blocks (nblocks ?h) ?A = unused_blocks (nblocks ?h) A - B" "B \<subseteq> unused_blocks (nblocks ?h) A" using hd by (simp_all add: holds_def took_def)
  then have r: "1026 \<le> card (unused_blocks (nblocks ?h) ?A)" using room finite_subset[OF _ finite_unused_blocks] by (simp add: card_Diff_subset)
  obtain c bd fs m' where p: "paging_new_4gb 7 ?s = (block_addr ?h c, ?s\<lparr>memory := m'\<rparr>)" "took ?h ?A ?s (set (c # bd # fs)) (?s\<lparr>memory := m'\<rparr>)"
    "chunk_pages ?h m' c bd fs" "\<forall>v < 2 ^ 20. pte m' (block_addr ?h bd) v = of_nat (4096 * v) OR ucast (7 :: u8)"
    by (rule new_4gb_took[OF holds_live[OF h] r], rule that)
  have keep: "m' a = m a" if "stable ?h ?A a" for a using p(2) that by (simp add: took_def)
  have ch: "load32 m' (block_addr ?h c) = block_addr ?h bd" "card (set (c # bd # fs)) = 1026"
    using p(3) distinct_card[of "c # bd # fs"] by (simp_all add: chunk_pages_def)
  let ?f = "kernel_finish lm s"
  have eq: "?f = ?s\<lparr>memory := m', kernel_chunk := block_addr ?h c, cr3 := block_addr ?h bd, current_directory := block_addr ?h bd, paging_on := True, interrupts_on := True\<rparr>"
    using t(1) p(1) ch(1) by (simp add: kernel_finish_def Let_def paging_switch_def paging_load_directory_def enable_paging_def enable_interrupts_def)
  have ar: "m' a = m a" if "kernel_area lm a" for a using keep static_stable[OF area[OF that]] by simp
  have g: "gate m' (gate_addr lm i) = gate m (gate_addr lm i)" if "i < 512" for i
    by (rule gate_cong, rule ar) (use that entry_in_table[of i 512 "idt_descriptors_at lm"] in \<open>auto simp: gate_addr_def kernel_area_def\<close>)
  have d: "describes m' (gdt_real_at lm + 8 * of_nat i) (gdt_segments lm ! i)" if i: "i < 6" for i
  proof -
    have "describes m' (gdt_real_at lm + 8 * of_nat i) (gdt_segments lm ! i) = describes (memory s) (gdt_real_at lm + 8 * of_nat i) (gdt_segments lm ! i)"
    proof (rule describes_cong)
      fix a assume "in_region (gdt_real_at lm + 8 * of_nat i) 8 a"
      then have "in_region (gdt_real_at lm) 48 a" using entry_in_table[of i 6 "gdt_real_at lm" a] i by simp
      then show "m' a = memory s a" using ar[of a] t(5)[of a] by (simp add: kernel_area_def)
    qed
    then show ?thesis using gd(2) i by simp
  qed
  have ts: "load32 m' (tss_at lm + of_nat k) = load32 m (tss_at lm + of_nat k)" if "k + 4 \<le> 100" for k
    by (rule load32_cong, rule ar) (use in_region_sub[OF _ that] in \<open>auto simp: kernel_area_def\<close>)
  have up: "kernel_up lm ?f" unfolding eq kernel_up_def using ch(1) p(4) t(2,3,4) g d gd(1) ts[of 4] ts[of 8] by simp
  have "holds ?h ?A (set (c # bd # fs)) (?s\<lparr>memory := m'\<rparr>)" using p(2) by (simp add: holds_def took_def)
  then have hf: "holds ?h ?A (set (c # bd # fs)) ?f" by (rule holds_eq) (simp_all add: eq)
  show thesis
    by (rule that[OF up hf _ ch(2)]) (use keep t(5) in \<open>simp_all add: eq\<close>)
qed

lemma kernel_boots_ok:
  fixes s :: "('d, 'a) kernelstate_scheme"
  assumes lay: "kernel_layout lm" and bd: "boot_data lm (untouched lm) (memory s)"
    and dev: "ata_disk hw idle img" "idle (device s)" and vol: "fat16_volume img cl S E N es"
  obtains s' B C fb b1 db where "kernel_boot lm hw s = Some s'" "kernel_up lm s'" "holds kernel_heap_layout (with_pages Map.empty B) C s'" "holds kernel_heap_layout Map.empty (B \<union> C) s'"
    "card B = 5" "card C = 1026" "{fb, b1, db} \<subseteq> B" "idle (device s')"
    "open_ready lm kernel_heap_layout (with_pages Map.empty (B \<union> C)) (memory s') (block_addr kernel_heap_layout fb) (block_addr kernel_heap_layout b1) cl (S + 32 * E div 512)
       (block_addr kernel_heap_layout db) es"
    "\<And>k. k < 32 * E \<Longrightarrow> memory s' (block_addr kernel_heap_layout db + of_nat k) = disk_byte img (512 * S + k)"
    "\<And>a. in_region (filedescriptors_at lm) 2048 a \<Longrightarrow> memory s' a = 0"
    "\<And>a. untouched lm a \<Longrightarrow> memory s' a = memory s a"
proof -
  let ?h = kernel_heap_layout
  have bl: "boot_layout lm ?h" using lay by (simp add: kernel_layout_def)
  obtain s6 where k: "kernel_boot lm hw s = do { s7 \<leftarrow> fs_init lm s6; s8 \<leftarrow> disk_search_and_init lm (fs_resolve lm hw) s7; Some (kernel_finish lm s8) }"
    "klive ?h s6 Map.empty" "device s6 = device s" "gdtr s6 = (48, gdt_real_at lm)"
    "\<forall>i < 6. describes (memory s6) (gdt_real_at lm + 8 * of_nat i) (gdt_segments lm ! i)"
    "\<And>a. static_byte ?h a \<Longrightarrow> \<not> kernel_area lm a \<Longrightarrow> memory s6 a = memory s a"
    by (rule kernel_starts[OF lay, of hw s], rule that)
  have area: "quiet lm ?h a" if "kernel_area lm a" for a using lay that by (auto simp: kernel_layout_def)
  have fsa: "static_byte ?h a \<and> \<not> kernel_area lm a" if "in_region (fat16_fs_at lm) 24 a" for a
    using bl that area[of a] by (auto simp: boot_layout_def mount_layout_def static_area_def quiet_def)
  have bd6: "boot_data lm (quiet lm ?h) (memory s6)"
  proof -
    obtain ns where ns: "cstr_at (memory s) (fat16_name_at lm) ns" "length ns < 20" "\<forall>i \<le> length ns. untouched lm (fat16_name_at lm + of_nat i)"
      using bd by (auto simp: boot_data_def)
    have "cstr_at (memory s6) (fat16_name_at lm) ns"
      using cstr_at_cong[of ns "memory s6" "fat16_name_at lm" "memory s"] ns(1,3) k(6) by (simp add: untouched_def quiet_def)
    moreover have "fs_object lm (memory s6) = fs_object lm (memory s)" by (rule fs_object_cong) (use k(6) fsa in auto)
    ultimately show ?thesis using bd ns by (auto simp: boot_data_def untouched_def)
  qed
  have room: "6 \<le> card (unused_blocks (nblocks ?h) Map.empty)" by (rule session_room) simp
  have i6: "idle (device s6)" using dev(2) k(3) by simp
  obtain s7 fb b1 b2 b3 db d' m' where b: "fs_init lm s6 = Some s7" "disk_search_and_init lm (fs_resolve lm hw) s7 = Some (s6\<lparr>device := d', memory := m'\<rparr>)" "idle d'"
    "distinct [fb, b1, b2, b3, db]" "holds ?h Map.empty {fb, b1, b2, b3, db} (s6\<lparr>device := d', memory := m'\<rparr>)"
    "open_ready lm ?h (with_pages Map.empty {fb, b1, b2, b3, db}) m' (block_addr ?h fb) (block_addr ?h b1) cl (S + 32 * E div 512) (block_addr ?h db) es"
    "\<And>k. k < 32 * E \<Longrightarrow> m' (block_addr ?h db + of_nat k) = disk_byte img (512 * S + k)"
    "\<And>a. in_region (filedescriptors_at lm) 2048 a \<Longrightarrow> m' a = 0"
    "\<And>a. static_byte ?h a \<Longrightarrow> \<not> local_buffer lm a \<Longrightarrow> \<not> boot_area lm a \<Longrightarrow> m' a = memory s6 a"
    by (rule boot_mounts_ok[OF bl k(2) room bd6 dev(1) i6 vol], rule that)
  let ?s8 = "s6\<lparr>device := d', memory := m'\<rparr>" and ?B = "{fb, b1, b2, b3, db}"
  let ?f = "kernel_finish lm ?s8" and ?A = "with_pages Map.empty ?B"
  have cB: "card ?B = 5" "{fb, b1, db} \<subseteq> ?B" using b(4) by auto
  have r2: "1026 + card ?B \<le> card (unused_blocks (nblocks ?h) Map.empty)" unfolding cB(1) by (rule session_room) simp
  have m8: "m' a = memory s6 a" if "quiet lm ?h a" for a using b(9) that by (simp add: quiet_def)
  have "describes m' (gdt_real_at lm + 8 * of_nat i) (gdt_segments lm ! i)" if "i < 6" for i
  proof -
    have "describes m' (gdt_real_at lm + 8 * of_nat i) (gdt_segments lm ! i) = describes (memory s6) (gdt_real_at lm + 8 * of_nat i) (gdt_segments lm ! i)"
      by (rule describes_cong, rule m8, rule area) (use that entry_in_table[of i 6 "gdt_real_at lm"] in \<open>auto simp: kernel_area_def\<close>)
    then show ?thesis using k(5) that by simp
  qed
  then have gd: "gdtr ?s8 = (48, gdt_real_at lm)" "\<forall>i < 6. describes (memory ?s8) (gdt_real_at lm + 8 * of_nat i) (gdt_segments lm ! i)" using k(4) by simp_all
  obtain C where c: "kernel_up lm ?f" "holds ?h ?A C ?f" "device ?f = device ?s8" "card C = 1026"
    "\<And>a. stable ?h ?A a \<Longrightarrow> \<not> kernel_area lm a \<Longrightarrow> memory ?f a = memory ?s8 a"
    by (rule kernel_finish_ok[OF lay b(5) r2 gd], rule that)
  have eq: "kernel_boot lm hw s = Some ?f" using k(1) b(1,2) by simp
  have UN: "with_pages ?A C = with_pages Map.empty (?B \<union> C)" by (simp only: with_pages_Un)
  have hu: "holds ?h Map.empty (?B \<union> C) ?f"
    unfolding holds_def by (rule took_trans[OF b(5)[unfolded holds_def] c(2)[unfolded holds_def]]) simp_all
  have nk: "\<not> kernel_area lm a" if "\<not> quiet lm ?h a" for a using area that by blast
  define mq where "mq = (\<lambda>a. if quiet lm ?h a then memory ?f a else m' a)"
  have len: "32 * length es \<le> 4096" using vol by (simp add: fat16_volume_def)
  have rq: "open_ready lm ?h ?A mq (block_addr ?h fb) (block_addr ?h b1) cl (S + 32 * E div 512) (block_addr ?h db) es"
    by (rule open_ready_quiet[OF b(6,5) cB(2) len]) (simp add: mq_def)
  have rd: "open_ready lm ?h (with_pages ?A C) (memory ?f) (block_addr ?h fb) (block_addr ?h b1) cl (S + 32 * E div 512) (block_addr ?h db) es"
    by (rule open_ready_step[OF rq c(2)[unfolded holds_def]]) (use c(5) nk in \<open>auto simp: mq_def fixed_def\<close>)
  have bytes: "memory ?f (block_addr ?h db + of_nat j) = disk_byte img (512 * S + j)" if "j < 32 * E" for j
  proof -
    let ?a = "block_addr ?h db + of_nat j"
    have "32 * E \<le> 4096" using vol by (simp add: fat16_volume_def)
    then have p: "in_blocks ?h db 1 ?a" using page_region[of ?h db j 1 ?a] that by (simp add: in_region_def)
    have db: "db \<in> ?B" by simp
    have "stable ?h ?A ?a" using stable_page[OF b(5)[unfolded holds_def] db p] .
    moreover have "\<not> quiet lm ?h ?a" using static_not_page[OF _ b(5) db] p by (auto simp: quiet_def)
    ultimately show ?thesis using c(5) nk b(7)[OF that] by simp
  qed
  have fds: "memory ?f a = 0" if "in_region (filedescriptors_at lm) 2048 a" for a
  proof -
    have "static_byte ?h a" "\<not> quiet lm ?h a" using that bl by (auto simp: boot_layout_def mount_layout_def static_area_def quiet_def boot_area_def)
    then show ?thesis using c(5)[of a] nk[of a] static_stable b(8)[OF that] by simp
  qed
  have un: "memory ?f a = memory s a" if "untouched lm a" for a
    using that c(5)[of a] m8[of a] k(6)[of a] static_stable[of ?h a ?A] by (simp add: untouched_def quiet_def)
  show thesis
    by (rule that[OF eq c(1,2) hu cB(1) c(4) cB(2) _ rd[unfolded UN] bytes fds un]) (use c(3) b(3) in simp)
qed

subsection \<open>A file after the start\<close>

lemma kernel_session_ok:
  fixes s :: "('d, 'a) kernelstate_scheme"
  assumes lay: "kernel_layout lm" and bd: "boot_data lm (untouched lm) (memory s)"
    and dev: "ata_disk hw idle img" "idle (device s)" and vol: "fat16_volume img cl S E N es"
    and rq: "boot_request lm (untouched lm) (memory s) p xs mode c" and fl: "volume_file img S es c k fc sz" "cluster_on_disk cl (S + 32 * E div 512) fc"
    and n: "0 < n" "n \<le> sz" "n \<le> 512 * cl" and buf: "\<forall>a. in_region out n a \<longrightarrow> quiet lm kernel_heap_layout a"
  shows "\<exists>s2 s3 s4 s5. kernel_boot lm hw s = Some s2 \<and> kernel_up lm s2
    \<and> fopen lm hw p mode s2 = Some (1, s3) \<and> fread lm hw out (of_nat n) 1 1 s3 = Some (1, s4) \<and> fclose lm 1 s4 = Some (0, s5)
    \<and> (\<forall>j < n. memory s5 (out + of_nat j) = file_byte img cl (S + 32 * E div 512) fc j)"
proof -
  let ?h = kernel_heap_layout
  have bl: "boot_layout lm ?h" using lay by (simp add: kernel_layout_def)
  obtain s' B C fb b1 db where b: "kernel_boot lm hw s = Some s'" "kernel_up lm s'" "holds ?h (with_pages Map.empty B) C s'" "holds ?h Map.empty (B \<union> C) s'"
    "card B = 5" "card C = 1026" "{fb, b1, db} \<subseteq> B" "idle (device s')"
    "open_ready lm ?h (with_pages Map.empty (B \<union> C)) (memory s') (block_addr ?h fb) (block_addr ?h b1) cl (S + 32 * E div 512) (block_addr ?h db) es"
    "\<And>k. k < 32 * E \<Longrightarrow> memory s' (block_addr ?h db + of_nat k) = disk_byte img (512 * S + k)"
    "\<And>a. in_region (filedescriptors_at lm) 2048 a \<Longrightarrow> memory s' a = 0" "\<And>a. untouched lm a \<Longrightarrow> memory s' a = memory s a"
    by (rule kernel_boots_ok[OF lay bd dev vol], rule that)
  let ?A = "with_pages Map.empty (B \<union> C)"
  have un: "unused_blocks (nblocks ?h) ?A = unused_blocks (nblocks ?h) Map.empty - (B \<union> C)" "B \<union> C \<subseteq> unused_blocks (nblocks ?h) Map.empty"
    using b(4) by (simp_all only: holds_def took_def)
  have "card (B \<union> C) \<le> 1031" using card_Un_le[of B C] b(5,6) by simp
  moreover have "2000 \<le> card (unused_blocks (nblocks ?h) Map.empty)" by (rule session_room) simp
  ultimately have room: "7 \<le> card (unused_blocks (nblocks ?h) ?A)"
    unfolding un(1) using card_Diff_subset[OF finite_subset[OF un(2) finite_unused_blocks] un(2)] by linarith
  have rq': "open_request lm ?h ?A (memory s') p xs mode c"
    by (rule boot_request_opens[OF rq]) (use b(12) in \<open>simp_all add: untouched_def quiet_def\<close>)
  note en = loaded_entry[where m = "memory s'" and items = "block_addr ?h db", OF vol fl(1) b(10)]
  have free: "first_free lm (memory s') 0"
    using load32_blank[of "filedescriptors_at lm" "memory s'"] b(11) in_region_sub[of "filedescriptors_at lm" 0 4 _ 2048] by (simp add: first_free_def)
  have cb: "caller_buffer lm ?h ?A (block_addr ?h fb) (block_addr ?h b1) out n"
    by (rule quiet_buffer[OF bl b(4) _ _ buf n(1)]) (use b(7) in auto)
  from session_ok[OF holds_live[OF b(4)] room rq' b(9) en(1,2) fl(2) free _ dev(1) b(8) n(1) _ n(3) cb] n(2) en(3)
  obtain s3 s4 s5 where "fopen lm hw p mode s' = Some (1, s3)" "fread lm hw out (of_nat n) 1 1 s3 = Some (1, s4)" "fclose lm 1 s4 = Some (0, s5)"
    "\<forall>j < n. memory s5 (out + of_nat j) = file_byte img cl (S + 32 * E div 512) fc j" by auto
  with b(1,2) show ?thesis by blast
qed

subsection \<open>A kernel that starts\<close>

definition kernel_links :: kernellinks where
  "kernel_links = \<lparr>idt_descriptors_at = 0x200000, idtr_descriptors_at = 0x201000, no_interrupt_at = 0x110000,
     int21h_at = 0x110040, disk_at = 0x202000, colon_slash_at = 0x203000, fat16_fs_at = 0x204000, fat16_name_at = 0x204100,
     fat16_resolve_at = 0x110100, fat16_open_at = 0x110200, fat16_read_at = 0x110300, fat16_seek_at = 0x110400,
     fat16_stat_at = 0x110500, fat16_close_at = 0x110600, stream_buf_at = \<lambda>_. 0x5000, directory_item_at = 0x6100,
     fat_entry_at = 0x6200, tmp_filename_at = 0x6000, stale_directory = 0, stale_current_item = 0, stale_file_descriptor = 0,
     filesystems_at = 0x207000, filedescriptors_at = 0x206000, mode_r_at = 0x203010, mode_w_at = 0x203020, mode_a_at = 0x203030,
     elf_signature_at = 0x203040, elf_mode_at = 0x203050, elf_stat_at = 0x6300, processes_at = 0x209000, binary_mode_at = 0x203060,
     binary_stat_at = 0x6310, elf_file_at = 0x6320, stale_process = 0, gdt_real_at = 0x208000, tss_at = 0x208100,
     message_path_at = 0x200, missing_path_at = 0x240, read_mode_at = 0x300, write_mode_at = 0x310, main_buf_at = 0x5800, main_stat_at = 0x5900\<rparr>"

definition kernel_machine :: "drive kernelstate" where
  "kernel_machine = \<lparr>memory = mount_memory, video_mem = 0, terminal_row = 0, terminal_col = 0, kernel_heap = four_blocks,
     current_directory = 0, cr3 = 0, paging_on = False, idtr = (0, 0), interrupts_on = False, device = \<lparr>regs = \<lambda>_. 0, pending = []\<rparr>,
     current_task = 0, task_tail = 0, task_head = 0, kernel_chunk = 0, data_segments = 0, current_process = 0, gdtr = (0, 0), task_register = 0\<rparr>"

lemma kernel_links_demo: "demo_addresses kernel_links"
  by (simp add: demo_addresses_def kernel_links_def)

lemma kernel_links_area: "kernel_area kernel_links a \<longleftrightarrow> in_region 0xB8000 3200 a \<or> in_region 0x208000 48 a \<or> in_region 0x200000 4096 a \<or> in_region 0x201000 6 a \<or> in_region 0x208100 100 a"
  by (simp add: kernel_area_def console_area_def kernel_links_def)

lemma kernel_links_layout: "kernel_layout kernel_links"
proof -
  have "quiet kernel_links kernel_heap_layout a" if "kernel_area kernel_links a" for a
    by (rule demo_quiet[OF kernel_links_demo]) (use that in \<open>auto simp: kernel_links_area in_region_iff_nat\<close>)
  moreover have "\<not> in_region 0x208000 48 a" if "console_area a" for a using that by (auto simp: console_area_def in_region_iff_nat)
  ultimately show ?thesis
    using demo_boot_layout[OF kernel_links_demo]
    by (simp add: kernel_layout_def) (simp add: kernel_links_def disjoint_regions_def)
qed

lemma kernel_untouched:
  assumes "unat a < 0x5000 \<or> 0x203000 \<le> unat a \<and> unat a < 0x204000 \<or> 0x204100 \<le> unat a \<and> unat a < 0x206000"
  shows "untouched kernel_links a"
  unfolding untouched_def kernel_links_area
proof
  show "quiet kernel_links kernel_heap_layout a" by (rule demo_quiet[OF kernel_links_demo]) (use assms in auto)
  show "\<not> (in_region 0xB8000 3200 a \<or> in_region 0x208000 48 a \<or> in_region 0x200000 4096 a \<or> in_region 0x201000 6 a \<or> in_region 0x208100 100 a)"
    using assms by (auto simp: in_region_iff_nat)
qed

lemma kernel_machine_starts:
  "boot_data kernel_links (untouched kernel_links) (memory kernel_machine)"
  "boot_request kernel_links (untouched kernel_links) (memory kernel_machine) 0x200 [48, 58, 47, 104, 105, 46, 116, 120, 116] 0x300 [104, 105, 46, 116, 120, 116]"
  by (intro demo_boot_data demo_request kernel_links_demo kernel_untouched; auto simp: kernel_machine_def)+

lemma kernel_device: "ata_disk (drive_ports img) (\<lambda>d. pending d = []) img" "pending (device kernel_machine) = []"
  using drive_is_ata_disk by (simp_all add: kernel_machine_def)

subsection \<open>Properties\<close>



text \<open>
  C2.  The state the boot sequence leaves: interrupts and paging are on, the directory in the processor's register maps every page to itself, the 512 gates,
  the six segments and the task state segment are in place, the heap holds the live allocations, the volume is mounted, no descriptor is in use, and
  memory that belongs to none of these is as it was.
\<close>

theorem kernel_boots:
  fixes s :: "('d, 'a) kernelstate_scheme"
  assumes "kernel_layout lm" "boot_data lm (untouched lm) (memory s)" "ata_disk hw idle img" "idle (device s)" "fat16_volume img cl S E N es"
  shows "\<exists>s' A fp st items. kernel_boot lm hw s = Some s' \<and> kernel_up lm s' \<and> klive kernel_heap_layout s' A
    \<and> open_ready lm kernel_heap_layout A (memory s') fp st cl (S + 32 * E div 512) items es
    \<and> (\<forall>j < 512. load32 (memory s') (descriptor_slot lm j) = 0) \<and> (\<forall>a. untouched lm a \<longrightarrow> memory s' a = memory s a)"
proof -
  let ?h = kernel_heap_layout
  obtain s' B C fb b1 db where b: "kernel_boot lm hw s = Some s'" "kernel_up lm s'" "holds ?h (with_pages Map.empty B) C s'" "holds ?h Map.empty (B \<union> C) s'"
    "card B = 5" "card C = 1026" "{fb, b1, db} \<subseteq> B" "idle (device s')"
    "open_ready lm ?h (with_pages Map.empty (B \<union> C)) (memory s') (block_addr ?h fb) (block_addr ?h b1) cl (S + 32 * E div 512) (block_addr ?h db) es"
    "\<And>k. k < 32 * E \<Longrightarrow> memory s' (block_addr ?h db + of_nat k) = disk_byte img (512 * S + k)"
    "\<And>a. in_region (filedescriptors_at lm) 2048 a \<Longrightarrow> memory s' a = 0" "\<And>a. untouched lm a \<Longrightarrow> memory s' a = memory s a"
    by (rule kernel_boots_ok[OF assms], rule that)
  have "load32 (memory s') (descriptor_slot lm j) = 0" if "j < 512" for j
    by (rule load32_blank, rule b(11)) (use slot_in_table[OF that] in blast)
  then show ?thesis using b(1,2,9,12) holds_live[OF b(4)] by blast
qed

theorem kernel_boots_witness:
  "\<exists>s'. kernel_boot kernel_links (drive_ports mount_image) kernel_machine = Some s' \<and> paging_on s' \<and> idtr s' = (4095, 0x200000)
     \<and> gate (memory s') 0x200108 = (0x110040, 8, 0, 0xEE) \<and> pte (memory s') (cr3 s') 5 = 0x5007"
proof -
  from kernel_boots[OF kernel_links_layout kernel_machine_starts(1) kernel_device mount_volume]
  obtain s' where s: "kernel_boot kernel_links (drive_ports mount_image) kernel_machine = Some s'" "kernel_up kernel_links s'" by blast
  have "gate (memory s') (gate_addr kernel_links 33) = (0x110040, 8, 0, 0xEE)" "pte (memory s') (cr3 s') 5 = of_nat (4096 * 5) OR 7"
    using s(2) by (simp_all add: kernel_up_def kernel_links_def)
  then have "gate (memory s') 0x200108 = (0x110040, 8, 0, 0xEE)" "pte (memory s') (cr3 s') 5 = 0x5007" by (simp_all add: gate_addr_def kernel_links_def)
  with s show ?thesis by (auto simp: kernel_up_def kernel_links_def)
qed

end
