(* ===== verification/ElfImage.thy ===== *)
theory ElfImage
  imports Elf
begin

text \<open>
  What \<^verbatim>\<open>elf_process_loaded\<close> makes of an image in memory: the bounds of the loadable segments, in virtual and in
  physical addresses, and the refusal of what is not an ELF image.
\<close>

subsection \<open>Segments of an image\<close>

definition phdr_of :: "mem \<Rightarrow> u32 \<Rightarrow> nat \<Rightarrow> u32" where
  "phdr_of m ef i = elf_pheader (elf_header ef m) m + 32 * of_nat i"

definition loadable :: "mem \<Rightarrow> u32 \<Rightarrow> nat \<Rightarrow> bool" where
  "loadable m ef i \<longleftrightarrow> p_type m (phdr_of m ef i) = PT_LOAD"

definition segment_start :: "mem \<Rightarrow> u32 \<Rightarrow> nat \<Rightarrow> u32" where
  "segment_start m ef i = p_vaddr m (phdr_of m ef i)"

definition segment_end :: "mem \<Rightarrow> u32 \<Rightarrow> nat \<Rightarrow> u32" where
  "segment_end m ef i = p_vaddr m (phdr_of m ef i) + p_filesz m (phdr_of m ef i)"

definition segment_data :: "mem \<Rightarrow> u32 \<Rightarrow> nat \<Rightarrow> u32" where
  "segment_data m ef i = elf_memory ef m + p_offset m (phdr_of m ef i)"

definition segments :: "mem \<Rightarrow> u32 \<Rightarrow> nat" where
  "segments m ef = unat (load16 m (elf_header ef m + 44))"

text \<open>
  The 16 bytes of bounds in \<^verbatim>\<open>struct elf_file\<close> lie outside the image's headers; every loadable segment starts above
  0 and does not wrap around.
\<close>

definition image_cell :: "mem \<Rightarrow> u32 \<Rightarrow> u32 \<Rightarrow> bool" where
  "image_cell m ef a \<longleftrightarrow> in_region (ef + 132) 4 a \<or> in_region (elf_header ef m) 52 a
     \<or> (\<exists>i < segments m ef. in_region (phdr_of m ef i) 32 a)"

definition image_apart :: "mem \<Rightarrow> u32 \<Rightarrow> bool" where
  "image_apart m ef \<longleftrightarrow> (\<forall>a. image_cell m ef a \<longrightarrow> \<not> in_region (ef + 136) 16 a)"

definition segments_ok :: "mem \<Rightarrow> u32 \<Rightarrow> bool" where
  "segments_ok m ef \<longleftrightarrow> (\<forall>i < segments m ef. loadable m ef i \<longrightarrow>
     segment_start m ef i \<noteq> 0 \<and> segment_start m ef i \<le> segment_end m ef i)"

text \<open>The bounds after the first \<open>k\<close> program headers.\<close>

definition least_start :: "mem \<Rightarrow> u32 \<Rightarrow> nat \<Rightarrow> u32 \<Rightarrow> u32 \<Rightarrow> bool" where
  "least_start m ef k b pb \<longleftrightarrow> (if \<exists>i < k. loadable m ef i
     then (\<exists>i < k. loadable m ef i \<and> b = segment_start m ef i \<and> pb = segment_data m ef i)
       \<and> (\<forall>i < k. loadable m ef i \<longrightarrow> b \<le> segment_start m ef i)
     else b = 0)"

definition greatest_end :: "mem \<Rightarrow> u32 \<Rightarrow> nat \<Rightarrow> u32 \<Rightarrow> u32 \<Rightarrow> bool" where
  "greatest_end m ef k e pe \<longleftrightarrow> (if \<exists>i < k. loadable m ef i
     then (\<exists>i < k. loadable m ef i \<and> e = segment_end m ef i
         \<and> pe = segment_data m ef i + p_filesz m (phdr_of m ef i))
       \<and> (\<forall>i < k. loadable m ef i \<longrightarrow> segment_end m ef i \<le> e)
     else e = 0)"

lemma least_start_step:
  "loadable m ef k \<Longrightarrow> least_start m ef k b pb \<Longrightarrow> (\<forall>i < k. loadable m ef i \<longrightarrow> segment_start m ef i \<noteq> 0) \<Longrightarrow>
   least_start m ef (Suc k) (if segment_start m ef k \<le> b \<or> b = 0 then segment_start m ef k else b)
     (if segment_start m ef k \<le> b \<or> b = 0 then segment_data m ef k else pb)"
  by (fastforce simp: least_start_def less_Suc_eq split: if_splits)

lemma least_start_skip: "\<not> loadable m ef k \<Longrightarrow> least_start m ef (Suc k) = least_start m ef k"
  by (intro ext) (auto simp: least_start_def less_Suc_eq)

lemma greatest_end_step:
  "loadable m ef k \<Longrightarrow> greatest_end m ef k e pe \<Longrightarrow> (\<forall>i < k. loadable m ef i \<longrightarrow> segment_end m ef i \<noteq> 0) \<Longrightarrow>
   greatest_end m ef (Suc k) (if e \<le> segment_end m ef k \<or> e = 0 then segment_end m ef k else e)
     (if e \<le> segment_end m ef k \<or> e = 0 then segment_data m ef k + p_filesz m (phdr_of m ef k) else pe)"
  by (fastforce simp: greatest_end_def less_Suc_eq split: if_splits)

lemma greatest_end_skip: "\<not> loadable m ef k \<Longrightarrow> greatest_end m ef (Suc k) = greatest_end m ef k"
  by (intro ext) (auto simp: greatest_end_def less_Suc_eq)

subsection \<open>The image does not change while its headers are processed\<close>

definition same_image :: "mem \<Rightarrow> u32 \<Rightarrow> mem \<Rightarrow> bool" where
  "same_image m ef m' \<longleftrightarrow> (\<forall>a. \<not> in_region (ef + 136) 16 a \<longrightarrow> m' a = m a)"

lemma same_image_load32:
  assumes "image_apart m ef" "same_image m ef m'" "\<And>a. in_region p 4 a \<Longrightarrow> image_cell m ef a"
  shows "load32 m' p = load32 m p"
  using assms by (intro load32_cong) (auto simp: image_apart_def same_image_def)

lemma same_image_load16:
  assumes "image_apart m ef" "same_image m ef m'" "\<And>a. in_region p 2 a \<Longrightarrow> image_cell m ef a"
  shows "load16 m' p = load16 m p"
  using assms by (intro load16_cong) (auto simp: image_apart_def same_image_def)

lemma same_image_header:
  assumes "image_apart m ef" "same_image m ef m'"
  shows "load32 m' (ef + 132) = load32 m (ef + 132)"
    and "load16 m' (elf_header ef m + 44) = load16 m (elf_header ef m + 44)"
    and "elf_pheader (elf_header ef m) m' = elf_pheader (elf_header ef m) m"
proof -
  show "load32 m' (ef + 132) = load32 m (ef + 132)"
    by (rule same_image_load32[OF assms]) (simp add: image_cell_def)
  show "load16 m' (elf_header ef m + 44) = load16 m (elf_header ef m + 44)"
    using in_region_sub[of "elf_header ef m" 44 2 _ 52] by (intro same_image_load16[OF assms]) (simp add: image_cell_def)
  have "e_phoff m' (elf_header ef m) = e_phoff m (elf_header ef m)"
    using in_region_sub[of "elf_header ef m" 28 4 _ 52] by (intro same_image_load32[OF assms]) (simp add: image_cell_def)
  then show "elf_pheader (elf_header ef m) m' = elf_pheader (elf_header ef m) m" by (simp add: elf_pheader_def)
qed

lemma same_image_phdr:
  assumes "image_apart m ef" "same_image m ef m'" "i < segments m ef" "k \<le> 28"
  shows "load32 m' (phdr_of m ef i + of_nat k) = load32 m (phdr_of m ef i + of_nat k)"
proof (rule same_image_load32[OF assms(1,2)])
  fix a assume "in_region (phdr_of m ef i + of_nat k) 4 a"
  then have "in_region (phdr_of m ef i) 32 a" using in_region_sub[of "phdr_of m ef i" k 4 a 32] assms(4) by simp
  then show "image_cell m ef a" using assms(3) by (auto simp: image_cell_def)
qed

lemma same_image_store:
  assumes "same_image m ef m'" "136 \<le> k" "k \<le> 148"
  shows "same_image m ef (store32 m' (ef + of_nat k) v)"
proof -
  have "in_region (ef + 136) 16 a" if "in_region (ef + of_nat k) 4 a" for a
    using in_region_sub[of "ef + 136" "k - 136" 4 a 16] that assms(2,3) by simp
  then show ?thesis using assms(1) unfolding same_image_def by (metis store32_outside)
qed

subsection \<open>One program header\<close>

lemma pt_load_ok:
  fixes m :: mem and ef :: u32
  assumes ap: "image_apart m ef" and sm: "same_image m ef m1" and i: "i < segments m ef"
    and bounds: "b = load32 m1 (ef + 136)" "e = load32 m1 (ef + 140)"
  defines "new_b \<equiv> segment_start m ef i \<le> b \<or> b = 0" and "new_e \<equiv> e \<le> segment_end m ef i \<or> e = 0"
  shows "\<exists>m2. elf_process_phdr_pt_load ef (phdr_of m ef i) m1 = (0, m2) \<and> same_image m ef m2
    \<and> load32 m2 (ef + 136) = (if new_b then segment_start m ef i else b)
    \<and> load32 m2 (ef + 144) = (if new_b then segment_data m ef i else load32 m1 (ef + 144))
    \<and> load32 m2 (ef + 140) = (if new_e then segment_end m ef i else e)
    \<and> load32 m2 (ef + 148) = (if new_e then segment_data m ef i + p_filesz m (phdr_of m ef i) else load32 m1 (ef + 148))"
proof -
  have rd: "p_vaddr m' (phdr_of m ef i) = segment_start m ef i"
    "p_filesz m' (phdr_of m ef i) = p_filesz m (phdr_of m ef i)"
    "elf_memory ef m' + p_offset m' (phdr_of m ef i) = segment_data m ef i" if "same_image m ef m'" for m'
    using same_image_phdr[OF ap that i, of 8] same_image_phdr[OF ap that i, of 16] same_image_phdr[OF ap that i, of 4]
      same_image_header(1)[OF ap that]
    by (simp_all add: segment_start_def segment_data_def elf_memory_def)
  note st = same_image_store[of m ef _ 136] same_image_store[of m ef _ 140] same_image_store[of m ef _ 144]
    same_image_store[of m ef _ 148]
  define m2 where "m2 = (if new_b then store32 (store32 m1 (ef + 136) (segment_start m ef i)) (ef + 144) (segment_data m ef i)
    else m1)"
  define m4 where "m4 = (if new_e then store32 (store32 m2 (ef + 140) (segment_end m ef i)) (ef + 148)
    (segment_data m ef i + p_filesz m (phdr_of m ef i)) else m2)"
  have se: "segment_start m ef i + p_filesz m (phdr_of m ef i) = segment_end m ef i"
    by (simp add: segment_start_def segment_end_def)
  have s2: "same_image m ef m2" using sm st by (simp add: m2_def)
  have s4: "same_image m ef m4" using s2 st by (simp add: m4_def)
  have e2: "load32 m2 (ef + 140) = e" "load32 m2 (ef + 148) = load32 m1 (ef + 148)"
    by (simp_all add: m2_def bounds load32_store32_other disjoint_regions_def)
  have "elf_process_phdr_pt_load ef (phdr_of m ef i) m1 = (0, m4)"
  proof -
    have f: "(if p_vaddr m1 (phdr_of m ef i) \<le> load32 m1 (ef + 136) \<or> load32 m1 (ef + 136) = 0
                then let m1' = store32 m1 (ef + 136) (p_vaddr m1 (phdr_of m ef i))
                     in store32 m1' (ef + 144) (elf_memory ef m1' + p_offset m1' (phdr_of m ef i))
                else m1) = m2"
      using st(1)[OF sm] by (simp add: m2_def new_b_def bounds rd sm Let_def)
    show ?thesis
      unfolding elf_process_phdr_pt_load_def
      unfolding f
      using st(2)[OF s2] se by (simp add: m4_def new_e_def rd s2 e2 Let_def)
  qed
  then show ?thesis
    using s4 e2 by (intro exI[of _ m4])
      (simp add: m4_def m2_def bounds load32_store32_other disjoint_regions_def)
qed

subsection \<open>All program headers\<close>

definition bounds_after :: "mem \<Rightarrow> u32 \<Rightarrow> nat \<Rightarrow> mem \<Rightarrow> bool" where
  "bounds_after m ef k m' \<longleftrightarrow> least_start m ef k (elf_virtual_base ef m') (elf_phys_base ef m')
     \<and> greatest_end m ef k (elf_virtual_end ef m') (elf_phys_end ef m')"

lemma pheader_step:
  assumes "image_apart m ef" "segments_ok m ef" "same_image m ef m1" "i < segments m ef" "bounds_after m ef i m1"
  shows "\<exists>m2. elf_process_pheader ef (phdr_of m ef i) m1 = (0, m2) \<and> same_image m ef m2 \<and> bounds_after m ef (Suc i) m2"
proof (cases "loadable m ef i")
  case True
  have nz: "segment_start m ef j \<noteq> 0" "segment_end m ef j \<noteq> 0" if "j < segments m ef" "loadable m ef j" for j
    using assms(2) that by (auto simp: segments_ok_def)
  have "p_type m1 (phdr_of m ef i) = PT_LOAD" using same_image_phdr[OF assms(1,3,4), of 0] True by (simp add: loadable_def)
  then have p: "elf_process_pheader ef (phdr_of m ef i) m1 = elf_process_phdr_pt_load ef (phdr_of m ef i) m1"
    by (simp add: elf_process_pheader_def)
  show ?thesis
    using pt_load_ok[OF assms(1,3,4) refl refl] least_start_step[OF True, of "elf_virtual_base ef m1" "elf_phys_base ef m1"]
      greatest_end_step[OF True, of "elf_virtual_end ef m1" "elf_phys_end ef m1"] assms(4,5) nz unfolding p
    by (auto simp: bounds_after_def elf_virtual_base_def elf_phys_base_def elf_virtual_end_def elf_phys_end_def)
next
  case False
  then have "p_type m1 (phdr_of m ef i) \<noteq> PT_LOAD" using same_image_phdr[OF assms(1,3,4), of 0] by (simp add: loadable_def)
  then show ?thesis
    using assms(3,5) False by (simp add: elf_process_pheader_def bounds_after_def least_start_skip greatest_end_skip)
qed

lemma pheaders_loop_ok:
  assumes "image_apart m ef" "segments_ok m ef" "same_image m ef m1" "i \<le> segments m ef" "bounds_after m ef i m1"
  shows "\<exists>m2. elf_pheaders_loop ef (elf_header ef m) (int i) 0 m1 = (0, m2) \<and> same_image m ef m2
    \<and> bounds_after m ef (segments m ef) m2"
  using assms(3-5)
proof (induction "segments m ef - i" arbitrary: i m1)
  case 0
  then have "i = segments m ef" by simp
  moreover have "e_phnum m1 (elf_header ef m) = int (segments m ef)"
    using same_image_header(2)[OF assms(1) "0.prems"(1)] by (simp add: segments_def)
  ultimately show ?case using 0 by (subst elf_pheaders_loop.simps) auto
next
  case (Suc k)
  have i: "i < segments m ef" using Suc.hyps(2) by simp
  have n: "e_phnum m1 (elf_header ef m) = int (segments m ef)"
    using same_image_header(2)[OF assms(1) Suc.prems(1)] by (simp add: segments_def)
  have ph: "elf_program_header (elf_header ef m) (int i) m1 = phdr_of m ef i"
    using same_image_header(3)[OF assms(1) Suc.prems(1)] by (simp add: elf_program_header_def phdr_of_def)
  obtain m2 where m2: "elf_process_pheader ef (phdr_of m ef i) m1 = (0, m2)" "same_image m ef m2" "bounds_after m ef (Suc i) m2"
    using pheader_step[OF assms(1,2) Suc.prems(1) i Suc.prems(3)] by blast
  have suc: "int (Suc i) = int i + 1" by simp
  have "elf_pheaders_loop ef (elf_header ef m) (int i) 0 m1 = elf_pheaders_loop ef (elf_header ef m) (int (Suc i)) 0 m2"
    unfolding suc using i n m2(1) by (subst elf_pheaders_loop.simps) (simp add: ph)
  then show ?case using Suc.hyps(1)[of "Suc i" m2] Suc.hyps(2) m2 i by auto
qed

subsection \<open>Properties\<close>

definition elf_magic :: "mem \<Rightarrow> u32 \<Rightarrow> bool" where
  "elf_magic m p \<longleftrightarrow> m p = 0x7f \<and> m (p + 1) = 0x45 \<and> m (p + 2) = 0x4c \<and> m (p + 3) = 0x46"

lemma all_less_4: "(\<forall>i < (4 :: nat). P i) \<longleftrightarrow> P 0 \<and> P 1 \<and> P 2 \<and> P 3"
proof -
  have "(\<forall>i < (4 :: nat). P i) = (\<forall>i \<in> {..<4}. P i)" by (simp only: Ball_def lessThan_iff)
  also have "{..<4} = {0, 1, 2, 3 :: nat}" by (auto simp: lessThan_nat_numeral)
  finally show ?thesis by simp
qed

lemma valid_signature_magic:
  assumes "elf_magic m (elf_signature_at lm)"
  shows "elf_valid_signature lm p m \<longleftrightarrow> elf_magic m p"
  using assms by (simp add: elf_valid_signature_def memcmp_eq_0_iff elf_magic_def all_less_4)

lemma validate_loaded_iff:
  assumes "elf_magic m (elf_signature_at lm)"
  shows "elf_validate_loaded lm p m =
    (if elf_magic m p \<and> m (p + 4) \<le> 1 \<and> m (p + 5) \<le> 1 \<and> e_phoff m p \<noteq> 0 then 0 else - EINFORMAT)"
proof -
  have "x = 0 \<or> x = 1 \<longleftrightarrow> x \<le> 1" for x :: u8
    unfolding word_le_nat_alt word_unat_eq_iff by auto
  then show ?thesis
    by (simp add: elf_validate_loaded_def valid_signature_magic[OF assms] elf_valid_class_def elf_valid_encoding_def
        elf_has_program_header_def)
qed

text \<open>
  C23.  \<^verbatim>\<open>elf_process_loaded\<close> of an accepted image into a fresh \<^verbatim>\<open>struct elf_file\<close> returns 0 and records the bounds of the loadable
  segments: the base is the start of a segment and none starts below it, the end is the end of a segment and
  none ends above it, and the physical bounds are where those segments lie in the image.  Only the 16 bytes of
  the four bounds are written.
\<close>

theorem elf_process_loaded_bounds:
  assumes "elf_magic m (elf_signature_at lm)" "elf_magic m (elf_header ef m)" "m (elf_header ef m + 4) \<le> 1"
    and "m (elf_header ef m + 5) \<le> 1" "e_phoff m (elf_header ef m) \<noteq> 0"
    and "image_apart m ef" "segments_ok m ef" "elf_virtual_base ef m = 0" "elf_virtual_end ef m = 0"
    and "\<exists>i < segments m ef. loadable m ef i"
  shows "\<exists>m'. elf_process_loaded lm ef m = (0, m')
    \<and> (\<exists>i < segments m ef. loadable m ef i \<and> elf_virtual_base ef m' = segment_start m ef i
         \<and> elf_phys_base ef m' = segment_data m ef i)
    \<and> (\<exists>i < segments m ef. loadable m ef i \<and> elf_virtual_end ef m' = segment_end m ef i
         \<and> elf_phys_end ef m' = segment_data m ef i + p_filesz m (phdr_of m ef i))
    \<and> (\<forall>i < segments m ef. loadable m ef i \<longrightarrow>
         elf_virtual_base ef m' \<le> segment_start m ef i \<and> segment_end m ef i \<le> elf_virtual_end ef m')
    \<and> (\<forall>a. \<not> in_region (ef + 136) 16 a \<longrightarrow> m' a = m a)"
proof -
  have "bounds_after m ef 0 m" using assms(8,9) by (simp add: bounds_after_def least_start_def greatest_end_def)
  moreover have "same_image m ef m" by (simp add: same_image_def)
  ultimately obtain m' where m': "elf_process_pheaders ef m = (0, m')" "same_image m ef m'" "bounds_after m ef (segments m ef) m'"
    using pheaders_loop_ok[OF assms(6,7), of m 0] by (auto simp: elf_process_pheaders_def)
  have "elf_process_loaded lm ef m = (0, m')"
    using m'(1) assms(1-5) by (simp add: elf_process_loaded_def validate_loaded_iff)
  then show ?thesis
    using m'(2,3) assms(10) unfolding bounds_after_def least_start_def greatest_end_def same_image_def by auto
qed

text \<open>
  C24.  \<^verbatim>\<open>elf_process_loaded\<close> refuses exactly the images without the ELF signature, with a class other than none or 32 bits, an
  encoding other than none or little endian, or without program headers, with \<^verbatim>\<open>-EINFORMAT\<close> and an unchanged
  memory; the type and the entry point are not looked at.
\<close>

theorem elf_process_loaded_refuses:
  assumes "elf_magic m (elf_signature_at lm)" "image_apart m ef" "segments_ok m ef"
    and "elf_virtual_base ef m = 0" "elf_virtual_end ef m = 0"
  shows "elf_process_loaded lm ef m = (- EINFORMAT, m) \<longleftrightarrow>
      \<not> (elf_magic m (elf_header ef m) \<and> m (elf_header ef m + 4) \<le> 1 \<and> m (elf_header ef m + 5) \<le> 1
        \<and> e_phoff m (elf_header ef m) \<noteq> 0)"
proof -
  have "bounds_after m ef 0 m" using assms(4,5) by (simp add: bounds_after_def least_start_def greatest_end_def)
  moreover have "same_image m ef m" by (simp add: same_image_def)
  ultimately obtain m' where m': "elf_process_pheaders ef m = (0, m')"
    using pheaders_loop_ok[OF assms(2,3), of m 0] by (auto simp: elf_process_pheaders_def)
  then show ?thesis
    using m' by (auto simp: elf_process_loaded_def validate_loaded_iff[OF assms(1)])
qed

subsection \<open>An image\<close>

text \<open>
  A \<^verbatim>\<open>struct elf_file\<close> at 0x1000 and an image at 0x2000 with two loadable segments, at 0x401000 and at 0x400000; the
  signature constant at 0x3000.
\<close>

definition image_links :: elflinks where
  "image_links = \<lparr>idt_descriptors_at = 0x200000, idtr_descriptors_at = 0x201000, no_interrupt_at = 0x110000,
     int21h_at = 0x110040, disk_at = 0x202000, colon_slash_at = 0x203000, fat16_fs_at = 0x9000, fat16_name_at = 0x204100,
     fat16_resolve_at = 0x110100, fat16_open_at = 0x110200, fat16_read_at = 0x110300, fat16_seek_at = 0x110400,
     fat16_stat_at = 0x110500, fat16_close_at = 0x110600, stream_buf_at = \<lambda>_. 0xA000, directory_item_at = 0xB000,
     fat_entry_at = 0xB100, tmp_filename_at = 0xB200, stale_directory = 0, stale_current_item = 0, stale_file_descriptor = 0,
     filesystems_at = 0x8800, filedescriptors_at = 0x8000, mode_r_at = 0xC000, mode_w_at = 0xC010, mode_a_at = 0xC020,
     elf_signature_at = 0x3000, elf_mode_at = 0xC030, elf_stat_at = 0xC040\<rparr>"

definition image_memory :: mem where
  "image_memory = (\<lambda>_. 0)(0x1085 := 0x20, 0x3000 := 0x7f, 0x3001 := 0x45, 0x3002 := 0x4c, 0x3003 := 0x46,
     0x2000 := 0x7f, 0x2001 := 0x45, 0x2002 := 0x4c, 0x2003 := 0x46, 0x2004 := 1, 0x2005 := 1, 0x201C := 0x34, 0x202C := 2,
     0x2034 := 1, 0x2039 := 0x10, 0x203D := 0x10, 0x203E := 0x40, 0x2044 := 0x10,
     0x2054 := 1, 0x2059 := 1, 0x205E := 0x40, 0x2064 := 0x20)"

lemma image_values:
  "elf_header 0x1000 image_memory = 0x2000" "elf_virtual_base 0x1000 image_memory = 0" "elf_virtual_end 0x1000 image_memory = 0"
  "segments image_memory 0x1000 = 2" "e_phoff image_memory 0x2000 = 0x34"
  "elf_magic image_memory 0x3000" "elf_magic image_memory 0x2000"
  by (simp_all add: elf_header_def elf_virtual_base_def elf_virtual_end_def segments_def elf_magic_def image_memory_def
      load32_def load16_def)

lemma image_cells:
  "load32 image_memory 0x201C = 0x34" "load32 image_memory 0x2034 = 1" "load32 image_memory 0x203C = 0x401000"
  "load32 image_memory 0x2044 = 0x10" "load32 image_memory 0x2054 = 1" "load32 image_memory 0x205C = 0x400000"
  "load32 image_memory 0x2064 = 0x20"
  by (simp_all add: image_memory_def load32_def)

lemma image_phdrs: "phdr_of image_memory 0x1000 0 = 0x2034" "phdr_of image_memory 0x1000 (Suc 0) = 0x2054"
  by (simp_all add: phdr_of_def elf_pheader_def image_values image_cells)

lemma image_segments:
  "loadable image_memory 0x1000 0" "loadable image_memory 0x1000 (Suc 0)"
  "segment_start image_memory 0x1000 0 = 0x401000" "segment_start image_memory 0x1000 (Suc 0) = 0x400000"
  "segment_end image_memory 0x1000 0 = 0x401010" "segment_end image_memory 0x1000 (Suc 0) = 0x400020"
  by (simp_all add: loadable_def segment_start_def segment_end_def image_phdrs image_cells)

lemma image_below_2: "(\<forall>i < (2 :: nat). P i) \<longleftrightarrow> P 0 \<and> P (Suc 0)" "(\<exists>i < (2 :: nat). P i) \<longleftrightarrow> P 0 \<or> P (Suc 0)"
  by (auto simp: less_2_cases_iff)

lemma image_segments_ok: "segments_ok image_memory 0x1000"
  unfolding segments_ok_def image_values image_below_2 by (simp add: image_segments)

lemma image_apart_ok: "image_apart image_memory 0x1000"
  unfolding image_apart_def image_cell_def image_values image_below_2
  by (auto simp: image_phdrs in_region_iff_nat)

theorem elf_process_loaded_bounds_witness:
  "\<exists>m'. elf_process_loaded image_links 0x1000 image_memory = (0, m') \<and> elf_virtual_base 0x1000 m' = 0x400000
     \<and> elf_virtual_end 0x1000 m' = 0x401010"
proof -
  have "\<exists>i < segments image_memory 0x1000. loadable image_memory 0x1000 i"
    unfolding image_values image_below_2 by (simp add: image_segments)
  moreover have "elf_magic image_memory (elf_signature_at image_links)" by (simp add: image_links_def image_values)
  moreover have "image_memory (0x2000 + 4) \<le> 1" "image_memory (0x2000 + 5) \<le> 1" by (simp_all add: image_memory_def)
  ultimately show ?thesis
    using elf_process_loaded_bounds[of image_memory image_links "0x1000"] image_apart_ok image_segments_ok
    unfolding image_values image_below_2 by (auto simp: image_values image_segments)
qed

theorem elf_process_loaded_refuses_witness:
  "elf_process_loaded image_links 0x1000 (image_memory(0x2004 := 2)) = (- EINFORMAT, image_memory(0x2004 := 2))"
proof -
  let ?m = "image_memory(0x2004 := 2)"
  have v: "elf_header 0x1000 ?m = 0x2000" "elf_virtual_base 0x1000 ?m = 0" "elf_virtual_end 0x1000 ?m = 0"
    "segments ?m 0x1000 = 2" "elf_magic ?m (elf_signature_at image_links)"
    by (simp_all add: elf_header_def elf_virtual_base_def elf_virtual_end_def segments_def elf_magic_def image_memory_def
        load32_def load16_def image_links_def)
  have ph: "phdr_of ?m 0x1000 0 = 0x2034" "phdr_of ?m 0x1000 (Suc 0) = 0x2054"
    by (simp_all add: phdr_of_def elf_pheader_def v) (simp_all add: image_memory_def load32_def)
  have "segments_ok ?m 0x1000"
    unfolding segments_ok_def v image_below_2
    by (simp add: loadable_def segment_start_def segment_end_def ph) (simp add: image_memory_def load32_def)
  moreover have "image_apart ?m 0x1000"
    unfolding image_apart_def image_cell_def v image_below_2 by (auto simp: ph in_region_iff_nat)
  moreover have "\<not> (2 :: u8) \<le> 1" by (simp add: word_le_nat_alt)
  ultimately show ?thesis using elf_process_loaded_refuses[OF v(5), of "0x1000"] v by simp
qed

end
