(* ===== verification/ProcessMemory.thy ===== *)
theory ProcessMemory
  imports Process Scheduler
begin

text \<open>
  Memory of a process: \<^verbatim>\<open>process_malloc\<close> composes the kernel heap with the page tables of the process's task and the
  allocation table of the process.  What it hands out is zeroed, mapped for the program at its own address, and
  recorded; everything else stays as it was.
\<close>

subsection \<open>Pages of the heap\<close>

definition page_of :: "heap \<Rightarrow> nat \<Rightarrow> nat" where
  "page_of h b = unat (saddr h) div 4096 + b"

lemma block_start:
  assumes "heap_wf h"
  shows "unat (saddr h) + 4096 * b = 4096 * page_of h b"
proof -
  have "4096 * (unat (saddr h) div 4096) = unat (saddr h)"
    using assms mult_div_mod_eq[of 4096 "unat (saddr h)"] by (simp add: heap_wf_def aligned_4096_iff)
  then show ?thesis by (simp add: page_of_def distrib_left)
qed

lemma block_addr_page:
  assumes "heap_wf h" "b < nblocks h"
  shows "block_addr h b = of_nat (4096 * page_of h b)"
  using block_addr_unat[OF assms] unfolding block_start[OF assms(1)] by (metis of_nat_unat ucast_id)

definition heap_below_top :: "heap \<Rightarrow> bool" where
  "heap_below_top h \<longleftrightarrow> unat (saddr h) + 4096 * nblocks h < 2 ^ 32"

lemma page_of_bound:
  assumes "heap_wf h" "heap_below_top h" "b + n \<le> nblocks h"
  shows "page_of h b + n < 2 ^ 20"
proof -
  have "4096 * (page_of h b + n) = unat (saddr h) + 4096 * (b + n)"
    using block_start[OF assms(1), of b] by (simp add: distrib_left)
  also have "\<dots> < 2 ^ 32" using assms(2,3) by (auto simp: heap_below_top_def)
  finally show ?thesis by simp
qed

lemma align_block_end:
  assumes "heap_wf h" "heap_below_top h" "b + blocks_of sz \<le> nblocks h" "0 < sz"
  shows "paging_align_address (block_addr h b + sz) = of_nat (4096 * (page_of h b + blocks_of sz))"
proof -
  let ?q = "page_of h b"
  have top: "?q + blocks_of sz < 2 ^ 20" using page_of_bound[OF assms(1-3)] .
  have b: "b < nblocks h" using assms(3) blocks_of_pos[OF assms(4)] by simp
  have le: "unat sz \<le> 4096 * blocks_of sz" by (simp add: blocks_of_def)
  have bd: "4096 * ?q + unat sz \<le> 2 ^ 32 - 4096" using le top by simp
  have "unat (block_addr h b) = 4096 * ?q" using block_addr_unat[OF assms(1) b] block_start[OF assms(1)] by simp
  then have u: "unat (block_addr h b + sz) = 4096 * ?q + unat sz" using bd by (simp add: unat_word_ariths)
  have "unat (paging_align_address (block_addr h b + sz)) = 4096 * ((4096 * ?q + unat sz + 4095) div 4096)"
    using paging_align_address_unat[of "block_addr h b + sz"] u bd by simp
  also have "(4096 * ?q + unat sz + 4095) div 4096 = ?q + blocks_of sz"
    using div_mult_self4[of 4096 ?q "unat sz + 4095"] by (simp add: blocks_of_def add.assoc)
  finally show ?thesis by (metis of_nat_unat ucast_id)
qed

subsection \<open>A process and its address space\<close>

text \<open>
  The process in the three blocks at \<open>pb\<close>, its task in \<open>tb\<close>, the task's address space in \<open>c\<close>, \<open>bd\<close> and \<open>fs\<close>.
\<close>

definition process_space :: "heap \<Rightarrow> (nat \<rightharpoonup> nat) \<Rightarrow> mem \<Rightarrow> nat \<Rightarrow> nat \<Rightarrow> nat \<Rightarrow> nat \<Rightarrow> nat list \<Rightarrow> bool" where
  "process_space h A m pb tb c bd fs \<longleftrightarrow> A pb = Some 3 \<and> A tb = Some 1 \<and> (\<forall>x \<in> set (c # bd # fs). A x = Some 1)
     \<and> tb \<notin> set fs \<and> load32 m (block_addr h pb + 132) = block_addr h tb \<and> load32 m (block_addr h tb) = block_addr h c
     \<and> chunk_pages h m c bd fs"

definition free_allocation :: "mem \<Rightarrow> u32 \<Rightarrow> nat \<Rightarrow> bool" where
  "free_allocation m process i \<longleftrightarrow> i < 1024 \<and> load32 m (allocation_at process i) = 0
     \<and> (\<forall>j < i. load32 m (allocation_at process j) \<noteq> 0)"

lemma free_allocation_index: "free_allocation m p i \<Longrightarrow> process_find_free_allocation_index p m = int i"
  using find_upt_Some[of "\<lambda>i. load32 m (allocation_at p i) = 0" 1024 i]
  by (simp add: free_allocation_def process_find_free_allocation_index_def)

lemma process_cell:
  assumes "off + 4 \<le> 12288" "in_region (block_addr h pb + of_nat off) 4 a"
  shows "in_blocks h pb 3 a"
  using in_region_sub[OF assms(2,1)] by (simp add: in_blocks_def)

lemma allocation_cell:
  assumes "j < 1024" "k \<le> 4" "in_region (allocation_at (block_addr h pb) j + of_nat k) 4 a"
  shows "in_blocks h pb 3 a"
proof (rule process_cell)
  show "136 + 8 * j + k + 4 \<le> 12288" using assms(1,2) by simp
  show "in_region (block_addr h pb + of_nat (136 + 8 * j + k)) 4 a" using assms(3) by (simp add: add.assoc)
qed

lemma process_space_frame:
  assumes live: "klive h s A" and sp: "process_space h A m pb tb c bd fs"
    and eq: "\<forall>e k a. A e = Some k \<longrightarrow> in_blocks h e k a \<longrightarrow> m' a = m a"
  shows "process_space h A m' pb tb c bd fs" "v < 2 ^ 20 \<Longrightarrow> pte m' (block_addr h bd) v = pte m (block_addr h bd) v"
    "free_allocation m (block_addr h pb) i \<Longrightarrow> free_allocation m' (block_addr h pb) i"
    "j < 1024 \<Longrightarrow> load32 m' (allocation_at (block_addr h pb) j) = load32 m (allocation_at (block_addr h pb) j)"
    "j < 1024 \<Longrightarrow> load32 m' (allocation_at (block_addr h pb) j + 4) = load32 m (allocation_at (block_addr h pb) j + 4)"
proof -
  have A: "A pb = Some 3" "A tb = Some 1" "\<forall>x \<in> set (c # bd # fs). A x = Some 1" and own: "chunk_pages h m c bd fs"
    using sp by (simp_all add: process_space_def)
  note same = eq[rule_format]
  have sc: "m' a = m a" if "b \<in> set (c # bd # fs)" "in_blocks h b 1 a" for b a
    using same[of b 1 a] A(3) that by blast
  have "load32 m' (block_addr h pb + 132) = load32 m (block_addr h pb + 132)"
    using process_cell[of 132 h pb] same[OF A(1)] by (intro load32_cong) simp
  moreover have "load32 m' (block_addr h tb) = load32 m (block_addr h tb)"
    using same[OF A(2)] by (intro load32_cong) (simp add: in_blocks_def in_region_def)
  ultimately show "process_space h A m' pb tb c bd fs"
    using sp chunk_frame(1)[OF live own A(3) sc] by (simp add: process_space_def)
  show "pte m' (block_addr h bd) v = pte m (block_addr h bd) v" if "v < 2 ^ 20"
    by (rule chunk_frame(2)[OF live own A(3) sc that])
  show al: "load32 m' (allocation_at (block_addr h pb) j) = load32 m (allocation_at (block_addr h pb) j)" if "j < 1024" for j
    using allocation_cell[OF that, of 0 h pb] same[OF A(1)] by (intro load32_cong) simp
  show "load32 m' (allocation_at (block_addr h pb) j + 4) = load32 m (allocation_at (block_addr h pb) j + 4)" if "j < 1024"
    using allocation_cell[OF that, of 4 h pb] same[OF A(1)] by (intro load32_cong) simp
  show "free_allocation m (block_addr h pb) i \<Longrightarrow> free_allocation m' (block_addr h pb) i"
    using al by (auto simp: free_allocation_def)
qed

subsection \<open>Steps of process_malloc\<close>

lemma kzalloc_run:
  assumes live: "klive h s A" and sz: "0 < sz" "unat sz \<le> 2 ^ 32 - 4096" and fit: "fits (unused A) (nblocks h) (blocks_of sz) b\<^sub>0"
  obtains b m where "kzalloc sz s = (block_addr h b, s\<lparr>memory := m\<rparr>)" "klive h (s\<lparr>memory := m\<rparr>) (A(b \<mapsto> blocks_of sz))"
    "fits (unused A) (nblocks h) (blocks_of sz) b" "A b = None" "\<And>a. in_region (block_addr h b) (unat sz) a \<Longrightarrow> m a = 0"
    "\<And>e k a. A e = Some k \<Longrightarrow> in_blocks h e k a \<Longrightarrow> m a = memory s a"
proof -
  obtain b s' where b: "kzalloc sz s = (block_addr h b, s')" "klive h s' (A(b \<mapsto> blocks_of sz))"
    "fits (unused A) (nblocks h) (blocks_of sz) b" using kz.malloc_live[OF live sz fit] by blast
  obtain m where m: "s' = s\<lparr>memory := m\<rparr>" using kzalloc_memory_only[of sz s] b(1) by auto
  show thesis
  proof (rule that)
    show "kzalloc sz s = (block_addr h b, s\<lparr>memory := m\<rparr>)" "klive h (s\<lparr>memory := m\<rparr>) (A(b \<mapsto> blocks_of sz))"
      "fits (unused A) (nblocks h) (blocks_of sz) b" using b m by simp_all
    show "A b = None" using kz.fits_unused_None[OF live b(3) blocks_of_pos[OF sz(1)]] .
    show "m a = 0" if "in_region (block_addr h b) (unat sz) a" for a
      using kz.malloc_cleared[OF live fit sz b(1) that] m by simp
    show "m a = memory s a" if "A e = Some k" "in_blocks h e k a" for e k a
      using kz.malloc_frame[OF live fit sz b(1) that(1), of a] that(2) m by (simp add: in_blocks_def)
  qed
qed

text \<open>The run of blocks \<open>b\<close> mapped at page \<open>v\<close> of the process.\<close>

lemma map_at:
  assumes live: "klive h s A" and top: "heap_below_top h" and sp: "process_space h A m pb tb c bd fs"
    and b: "b + blocks_of sz \<le> nblocks h" "0 < sz" and v: "v + blocks_of sz \<le> 2 ^ 20"
  obtains m2 where "paging_map_to (block_addr h c) (of_nat (4096 * v)) (block_addr h b) (paging_align_address (block_addr h b + sz)) fl m = (0, m2)"
    "\<And>a. (\<And>x. x \<in> set fs \<Longrightarrow> \<not> in_blocks h x 1 a) \<Longrightarrow> m2 a = m a" "process_space h A m2 pb tb c bd fs"
    "\<And>w. w < 2 ^ 20 \<Longrightarrow> pte m2 (block_addr h bd) w =
       (if v \<le> w \<and> w < v + blocks_of sz then of_nat (4096 * (page_of h b + (w - v))) OR word_of_int fl else pte m (block_addr h bd) w)"
proof -
  have A: "A pb = Some 3" "A tb = Some 1" "\<forall>x \<in> set (c # bd # fs). A x = Some 1" "tb \<notin> set fs" and own: "chunk_pages h m c bd fs"
    using sp by (simp_all add: process_space_def)
  have wf: "heap_wf h" using klive_block(1)[OF live A(1)] .
  have bn: "b < nblocks h" using b blocks_of_pos[OF b(2)] by simp
  let ?q = "page_of h b" and ?n = "blocks_of sz"
  have q: "?q + ?n < 2 ^ 20" using page_of_bound[OF wf top b(1)] .
  have cw: "chunk_wf m (block_addr h c)" using chunk_pages_wf[OF live own A(3)] .
  have dir: "load32 m (block_addr h c) = block_addr h bd" and len: "length fs = 1024"
    and t: "\<And>i. i < 1024 \<Longrightarrow> tbl m (block_addr h bd) i = block_addr h (fs ! i)" using own by (simp_all add: chunk_pages_def)
  obtain m2 where m2: "paging_map_to (block_addr h c) (of_nat (4096 * v)) (of_nat (4096 * ?q)) (of_nat (4096 * (?q + ?n))) fl m = (0, m2)"
    "remapped m m2 (block_addr h c) v ?q (?q + ?n - ?q) (word_of_int fl)"
    using paging_map_to_eq[OF cw, of v "?q + ?n" ?q fl] q v by auto
  have out: "m2 a = m a" if "\<And>x. x \<in> set fs \<Longrightarrow> \<not> in_blocks h x 1 a" for a
  proof -
    have "\<not> in_region (tbl m (load32 m (block_addr h c)) i) 4096 a" if "i < 1024" for i
      using \<open>\<And>x. x \<in> set fs \<Longrightarrow> \<not> in_blocks h x 1 a\<close>[of "fs ! i"] that t[OF that] len dir by (simp add: in_blocks_def)
    then show ?thesis using m2(2) by (simp add: remapped_def)
  qed
  have other: "m2 a = m a" if "A e = Some k" "e \<notin> set fs" "in_blocks h e k a" for e k a
  proof (rule out)
    fix x assume "x \<in> set fs"
    then show "\<not> in_blocks h x 1 a" using klive_apart[OF live that(1) _ _ that(3), of x 1] A(3) that(2) by auto
  qed
  have "pb \<notin> set fs" using A(1,3) by auto
  then have "load32 m2 (block_addr h pb + 132) = load32 m (block_addr h pb + 132)"
    using process_cell[of 132 h pb] other[OF A(1)] by (intro load32_cong) simp
  moreover have "load32 m2 (block_addr h tb) = load32 m (block_addr h tb)"
    using other[OF A(2,4)] by (intro load32_cong) (simp add: in_blocks_def in_region_def)
  ultimately have "process_space h A m2 pb tb c bd fs"
    using sp remapped_chunk_pages[OF own m2(2)] by (simp add: process_space_def)
  moreover have "pte m2 (block_addr h bd) w =
       (if v \<le> w \<and> w < v + ?n then of_nat (4096 * (?q + (w - v))) OR word_of_int fl else pte m (block_addr h bd) w)" if "w < 2 ^ 20" for w
    using m2(2) that dir by (simp add: remapped_def)
  moreover have "paging_map_to (block_addr h c) (of_nat (4096 * v)) (block_addr h b) (paging_align_address (block_addr h b + sz)) fl m = (0, m2)"
    using m2(1) block_addr_page[OF wf bn] align_block_end[OF wf top b] by simp
  ultimately show thesis using that out by blast
qed

lemma map_run:
  assumes live: "klive h s A" and top: "heap_below_top h" and sp: "process_space h A m pb tb c bd fs"
    and b: "b + blocks_of sz \<le> nblocks h" "0 < sz"
  obtains m2 where "paging_map_to (block_addr h c) (block_addr h b) (block_addr h b) (paging_align_address (block_addr h b + sz)) fl m = (0, m2)"
    "\<And>a. (\<And>x. x \<in> set fs \<Longrightarrow> \<not> in_blocks h x 1 a) \<Longrightarrow> m2 a = m a" "process_space h A m2 pb tb c bd fs"
    "\<And>w. w < 2 ^ 20 \<Longrightarrow> pte m2 (block_addr h bd) w =
       (if page_of h b \<le> w \<and> w < page_of h b + blocks_of sz then of_nat (4096 * w) OR word_of_int fl else pte m (block_addr h bd) w)"
proof -
  let ?q = "page_of h b"
  have wf: "heap_wf h" using klive_block(1)[OF live] sp by (auto simp: process_space_def)
  have bn: "b < nblocks h" using b blocks_of_pos[OF b(2)] by simp
  have q: "?q + blocks_of sz \<le> 2 ^ 20" using page_of_bound[OF wf top b(1)] by simp
  obtain m2 where m2: "paging_map_to (block_addr h c) (of_nat (4096 * ?q)) (block_addr h b) (paging_align_address (block_addr h b + sz)) fl m = (0, m2)"
    "\<And>a. (\<And>x. x \<in> set fs \<Longrightarrow> \<not> in_blocks h x 1 a) \<Longrightarrow> m2 a = m a" "process_space h A m2 pb tb c bd fs"
    "\<And>w. w < 2 ^ 20 \<Longrightarrow> pte m2 (block_addr h bd) w =
       (if ?q \<le> w \<and> w < ?q + blocks_of sz then of_nat (4096 * (?q + (w - ?q))) OR word_of_int fl else pte m (block_addr h bd) w)"
    by (rule map_at[OF live top sp b q, of fl]; blast)
  show thesis
  proof (rule that[OF _ m2(2,3)])
    show "paging_map_to (block_addr h c) (block_addr h b) (block_addr h b) (paging_align_address (block_addr h b + sz)) fl m = (0, m2)"
      using m2(1) by (simp only: block_addr_page[OF wf bn])
    show "pte m2 (block_addr h bd) w = (if ?q \<le> w \<and> w < ?q + blocks_of sz then of_nat (4096 * w) OR word_of_int fl else pte m (block_addr h bd) w)"
      if "w < 2 ^ 20" for w using m2(4)[OF that] by (simp only: le_add_diff_inverse cong: if_cong)
  qed
qed

definition recorded :: "mem \<Rightarrow> u32 \<Rightarrow> nat \<Rightarrow> u32 \<Rightarrow> u32 \<Rightarrow> mem \<Rightarrow> bool" where
  "recorded m process i ptr sz m' \<longleftrightarrow> (\<forall>j < 1024.
     load32 m' (allocation_at process j) = (if j = i then ptr else load32 m (allocation_at process j))
   \<and> load32 m' (allocation_at process j + 4) = (if j = i then sz else load32 m (allocation_at process j + 4)))"

lemma allocation_slots_apart:
  fixes p :: u32
  assumes "i < 1024" "j < 1024" "i \<noteq> j" "k \<le> 4" "l \<le> 4"
  shows "disjoint_regions (p + 136 + 8 * of_nat i + of_nat k) 4 (p + 136 + 8 * of_nat j + of_nat l) 4"
proof -
  have u: "4 \<le> unat (8 * of_nat j + of_nat l - (8 * of_nat i + of_nat k) :: u32)"
    if "i < 1024" "j < 1024" "i \<noteq> j" "k \<le> 4" "l \<le> 4" for i j k l :: nat
  proof -
    have "unat (8 * of_nat j + of_nat l :: u32) = 8 * j + l" "unat (8 * of_nat i + of_nat k :: u32) = 8 * i + k"
      using unat_of_nat_u32[of "8 * j + l"] unat_of_nat_u32[of "8 * i + k"] that by simp_all
    then show ?thesis using that by (simp only: unat_sub_if') auto
  qed
  have eq: "p + 136 + 8 * of_nat j + of_nat l - (p + 136 + 8 * of_nat i + of_nat k) = 8 * of_nat j + of_nat l - (8 * of_nat i + of_nat k)"
    for i j k l :: nat by (simp add: algebra_simps)
  show ?thesis
    unfolding disjoint_regions_def eq by (intro conjI u) (use assms in auto)
qed

lemma record_allocation:
  assumes "i < 1024"
  shows "recorded m p i ptr sz (store32 (store32 m (allocation_at p i) ptr) (allocation_at p i + 4) sz)"
proof -
  have "disjoint_regions (p + 136 + 8 * of_nat i + 4) 4 (p + 136 + 8 * of_nat i) 4"
    "disjoint_regions (p + 136 + 8 * of_nat i) 4 (p + 136 + 8 * of_nat i + 4) 4" by (simp_all add: disjoint_regions_def)
  then show ?thesis
    using allocation_slots_apart[of i _ 4 0 p] allocation_slots_apart[of i _ 4 4 p] allocation_slots_apart[of i _ 0 0 p]
      allocation_slots_apart[of i _ 0 4 p] assms
    by (auto simp: recorded_def load32_store32_other)
qed

lemma record_run:
  assumes live: "klive h s A" and sp: "process_space h A m pb tb c bd fs" and i: "i < 1024"
    and m': "m' = store32 (store32 m (allocation_at (block_addr h pb) i) ptr) (allocation_at (block_addr h pb) i + 4) sz"
  shows "process_space h A m' pb tb c bd fs" "w < 2 ^ 20 \<Longrightarrow> pte m' (block_addr h bd) w = pte m (block_addr h bd) w"
    "\<not> in_blocks h pb 3 a \<Longrightarrow> m' a = m a"
proof -
  let ?p = "block_addr h pb"
  have out: "m' a = m a" if "\<not> in_blocks h pb 3 a" for a
  proof -
    have "\<not> in_region (allocation_at ?p i) 4 a" "\<not> in_region (allocation_at ?p i + 4) 4 a"
      using allocation_cell[OF i, of 0 h pb a] allocation_cell[OF i, of 4 h pb a] that by auto
    then show ?thesis by (simp add: m' store32_outside)
  qed
  then show "\<not> in_blocks h pb 3 a \<Longrightarrow> m' a = m a" .
  have A: "A pb = Some 3" "A tb = Some 1" "\<forall>x \<in> set (c # bd # fs). A x = Some 1" and own: "chunk_pages h m c bd fs"
    using sp by (simp_all add: process_space_def)
  have page: "m' a = m a" if "A x = Some 1" "in_blocks h x 1 a" for x a
  proof -
    have "x \<noteq> pb" using A(1) that(1) by auto
    then show ?thesis using klive_apart[OF live that(1) A(1) _ that(2)] out by blast
  qed
  have sc: "m' a = m a" if "b \<in> set (c # bd # fs)" "in_blocks h b 1 a" for b a using page[of b a] A(3) that by blast
  show "pte m' (block_addr h bd) w = pte m (block_addr h bd) w" if "w < 2 ^ 20" by (rule chunk_frame(2)[OF live own A(3) sc that])
  have "disjoint_regions (?p + 136 + of_nat (8 * i + k)) 4 (?p + 132) 4" if "k \<le> 4" for k
    using disjoint_regions_sub[of "?p + 136" 8192 "?p + 132" 4 "8 * i + k" 4 4] i that by (simp add: disjoint_regions_def)
  from this[of 0] this[of 4] have "load32 m' (?p + 132) = load32 m (?p + 132)"
    by (simp add: m' load32_store32_other add.assoc)
  moreover have "load32 m' (block_addr h tb) = load32 m (block_addr h tb)"
    using page[OF A(2)] by (intro load32_cong) (simp add: in_blocks_def in_region_def)
  ultimately show "process_space h A m' pb tb c bd fs"
    using sp chunk_frame(1)[OF live own A(3) sc] by (simp add: process_space_def)
qed

subsection \<open>process_malloc\<close>

lemma process_malloc_ok:
  fixes s :: "'a kstate_scheme"
  assumes live: "klive h s A" and top: "heap_below_top h" and sp: "process_space h A (memory s) pb tb c bd fs"
    and sz: "0 < sz" "unat sz \<le> 2 ^ 32 - 4096" and fit: "fits (unused A) (nblocks h) (blocks_of sz) b\<^sub>0"
    and slot: "free_allocation (memory s) (block_addr h pb) i"
  shows "\<exists>b m. process_malloc (block_addr h pb) sz s = (block_addr h b, s\<lparr>memory := m\<rparr>)
    \<and> fits (unused A) (nblocks h) (blocks_of sz) b \<and> klive h (s\<lparr>memory := m\<rparr>) (A(b \<mapsto> blocks_of sz))
    \<and> (\<forall>a. in_region (block_addr h b) (unat sz) a \<longrightarrow> m a = 0)
    \<and> process_space h (A(b \<mapsto> blocks_of sz)) m pb tb c bd fs
    \<and> (\<forall>w < 2 ^ 20. pte m (block_addr h bd) w =
         (if page_of h b \<le> w \<and> w < page_of h b + blocks_of sz then of_nat (4096 * w) OR 7
          else pte (memory s) (block_addr h bd) w))
    \<and> recorded (memory s) (block_addr h pb) i (block_addr h b) sz m
    \<and> (\<forall>e k a. A e = Some k \<longrightarrow> e \<notin> set (pb # fs) \<longrightarrow> in_blocks h e k a \<longrightarrow> m a = memory s a)"
proof -
  let ?p = "block_addr h pb" and ?d = "block_addr h bd" and ?n = "blocks_of sz"
  have i: "i < 1024" using slot by (simp add: free_allocation_def)
  obtain b m1 where k: "kzalloc sz s = (block_addr h b, s\<lparr>memory := m1\<rparr>)" "klive h (s\<lparr>memory := m1\<rparr>) (A(b \<mapsto> ?n))"
    "fits (unused A) (nblocks h) ?n b" "A b = None" "\<And>a. in_region (block_addr h b) (unat sz) a \<Longrightarrow> m1 a = 0"
    "\<And>e k a. A e = Some k \<Longrightarrow> in_blocks h e k a \<Longrightarrow> m1 a = memory s a"
    using kzalloc_run[OF live sz fit] by blast
  let ?A = "A(b \<mapsto> ?n)"
  have "\<forall>e k a. A e = Some k \<longrightarrow> in_blocks h e k a \<longrightarrow> m1 a = memory s a" using k(6) by blast
  note f1 = process_space_frame[OF live sp this]
  have sp1: "process_space h ?A m1 pb tb c bd fs" using f1(1) k(4) by (auto simp: process_space_def)
  have bn: "b + ?n \<le> nblocks h" using k(3) by (simp add: fits_def)
  obtain m2 where r: "paging_map_to (block_addr h c) (block_addr h b) (block_addr h b) (paging_align_address (block_addr h b + sz)) 7 m1 = (0, m2)"
    "\<And>a. (\<And>x. x \<in> set fs \<Longrightarrow> \<not> in_blocks h x 1 a) \<Longrightarrow> m2 a = m1 a" "process_space h ?A m2 pb tb c bd fs"
    "\<And>w. w < 2 ^ 20 \<Longrightarrow> pte m2 ?d w = (if page_of h b \<le> w \<and> w < page_of h b + ?n then of_nat (4096 * w) OR 7 else pte m1 ?d w)"
    by (rule map_run[OF k(2) top sp1 bn sz(1), of 7]) simp
  define m4 where "m4 = store32 (store32 m2 (allocation_at ?p i) (block_addr h b)) (allocation_at ?p i + 4) sz"
  note f4 = record_run[OF k(2) r(3) i m4_def]
  have A: "?A pb = Some 3" "\<forall>x \<in> set fs. ?A x = Some 1" "?A b = Some ?n" using sp1 by (simp_all add: process_space_def)
  have ne: "b \<notin> set fs" "b \<noteq> pb" "pb \<notin> set fs" using k(4) sp by (auto simp: process_space_def)
  have rest: "m4 a = m1 a" if "?A e = Some l" "e \<notin> set (pb # fs)" "in_blocks h e l a" for e l a
  proof -
    have "\<not> in_blocks h pb 3 a" using klive_apart[OF k(2) that(1) A(1) _ that(3)] that(2) by simp
    moreover have "\<not> in_blocks h x 1 a" if "x \<in> set fs" for x
      using klive_apart[OF k(2) \<open>?A e = Some l\<close> _ _ \<open>in_blocks h e l a\<close>, of x 1] A(2) \<open>e \<notin> set (pb # fs)\<close> that by auto
    ultimately show ?thesis using f4(3)[of a] r(2)[of a] by simp
  qed
  have tabs: "m4 a = m1 a" if "in_table h a" for a
  proof -
    have no: "\<not> in_blocks h e l a" if "?A e = Some l" for e l
      using blocks_not_in_table[OF klive_block(1,3,4)[OF k(2) that]] \<open>in_table h a\<close> by blast
    have "\<And>x. x \<in> set fs \<Longrightarrow> \<not> in_blocks h x 1 a" using no A(2) by simp
    then show ?thesis using f4(3)[OF no[OF A(1)]] r(2)[of a] by simp
  qed
  have "process_malloc ?p sz s = (block_addr h b, s\<lparr>memory := m4\<rparr>)"
  proof -
    have "block_addr h b \<noteq> NULL" using block_addr_nonzero[OF klive_block(1,2)[OF k(2) A(3)]] .
    moreover have "process_directory m1 ?p = block_addr h c" using sp1 by (simp add: process_space_def)
    ultimately show ?thesis
      using k(1) r(1) free_allocation_index[OF f1(3)[OF slot]] by (simp add: process_malloc_def Let_def m4_def)
  qed
  moreover have "klive h (s\<lparr>memory := m4\<rparr>) ?A" using klive_frame[OF k(2), of m4] tabs by simp
  moreover have "m4 a = 0" if "in_region (block_addr h b) (unat sz) a" for a
  proof -
    have "unat sz \<le> 4096 * ?n" by (simp add: blocks_of_def)
    then have "in_blocks h b ?n a" using that by (simp add: in_blocks_def in_region_def)
    then show ?thesis using rest[OF A(3)] k(5)[OF that] ne by simp
  qed
  moreover have "pte m4 ?d w = (if page_of h b \<le> w \<and> w < page_of h b + ?n then of_nat (4096 * w) OR 7 else pte (memory s) ?d w)"
    if "w < 2 ^ 20" for w using f4(2)[OF that] r(4)[OF that] f1(2)[OF that] by simp
  moreover have "recorded (memory s) ?p i (block_addr h b) sz m4"
  proof -
    have same: "m2 a = m1 a" if "in_blocks h pb 3 a" for a
      using klive_apart[OF k(2) A(1) _ _ that] A(2) ne(3) by (intro r(2)) metis
    have "load32 m2 (allocation_at ?p j) = load32 m1 (allocation_at ?p j)"
      "load32 m2 (allocation_at ?p j + 4) = load32 m1 (allocation_at ?p j + 4)" if "j < 1024" for j
      using allocation_cell[OF that, of 0 h pb] allocation_cell[OF that, of 4 h pb] same by (auto intro!: load32_cong)
    then show ?thesis
      using record_allocation[OF i, of m2 ?p "block_addr h b" sz] f1(4,5) unfolding m4_def[symmetric] recorded_def by simp
  qed
  moreover have "m4 a = memory s a" if "A e = Some l" "e \<notin> set (pb # fs)" "in_blocks h e l a" for e l a
    using rest[of e l a] k(6)[OF that(1,3)] that k(4) by (cases "e = b") auto
  ultimately show ?thesis using k(3) f4(1) by blast
qed

subsection \<open>Properties\<close>

text \<open>
  C20.  \<^verbatim>\<open>process_malloc\<close> with a free run of blocks and a free slot \<open>i\<close> in the process's allocation table (the first one) returns
  the address of fresh zeroed blocks; the program sees exactly these pages at their own addresses, writable and
  accessible from user mode, and every other page as before; slot \<open>i\<close> records address and size and no other
  slot changes; the process keeps its task and address space, and no byte of any other live allocation changes.
\<close>

theorem process_malloc_maps:
  assumes "klive h s A" "heap_below_top h" "process_space h A (memory s) pb tb c bd fs" "0 < sz" "unat sz \<le> 2 ^ 32 - 4096"
    and "fits (unused A) (nblocks h) (blocks_of sz) b\<^sub>0" "free_allocation (memory s) (block_addr h pb) i"
  shows "\<exists>b m. process_malloc (block_addr h pb) sz s = (block_addr h b, s\<lparr>memory := m\<rparr>)
    \<and> fits (unused A) (nblocks h) (blocks_of sz) b \<and> klive h (s\<lparr>memory := m\<rparr>) (A(b \<mapsto> blocks_of sz))
    \<and> (\<forall>a. in_region (block_addr h b) (unat sz) a \<longrightarrow> m a = 0)
    \<and> process_space h (A(b \<mapsto> blocks_of sz)) m pb tb c bd fs
    \<and> (\<forall>w < 2 ^ 20. pte m (block_addr h bd) w =
         (if page_of h b \<le> w \<and> w < page_of h b + blocks_of sz then of_nat (4096 * w) OR 7
          else pte (memory s) (block_addr h bd) w))
    \<and> recorded (memory s) (block_addr h pb) i (block_addr h b) sz m
    \<and> (\<forall>e k a. A e = Some k \<longrightarrow> e \<notin> set (pb # fs) \<longrightarrow> in_blocks h e k a \<longrightarrow> m a = memory s a)"
  using assms by (rule process_malloc_ok)

subsection \<open>An instance\<close>

lemma blocks_left:
  assumes "\<And>i. i < 25600 \<Longrightarrow> \<not> unused A i \<Longrightarrow> i \<in> T" "finite T" "card T + k \<le> 25600"
  shows "k \<le> card (unused_blocks 25600 A)"
proof -
  have "{..<25600} - T \<subseteq> unused_blocks 25600 A" using assms(1) by (auto simp: unused_blocks_def)
  then have "card ({..<25600} - T) \<le> card (unused_blocks 25600 A)" by (intro card_mono) auto
  moreover have "25600 - card T \<le> card ({..<25600} - T)" using diff_card_le_card_Diff[OF assms(2), of "{..<25600}"] by simp
  ultimately show ?thesis using assms(3) by linarith
qed

text \<open>Three blocks for a process, a page for a task and an address space in a fresh heap.\<close>

lemma some_objects:
  obtains m :: mem and pb tb c bd fs where "tb \<noteq> pb" "\<forall>x \<in> set (c # bd # fs). x \<noteq> pb \<and> x \<noteq> tb" "chunk_pages kernel_heap_layout m c bd fs"
    "klive kernel_heap_layout ((kheap_init power_on)\<lparr>memory := m\<rparr>) (with_pages [pb \<mapsto> 3, tb \<mapsto> 1] (set (c # bd # fs)))"
    "\<And>a. in_region (block_addr kernel_heap_layout pb) 9384 a \<Longrightarrow> m a = 0"
proof -
  let ?h = kernel_heap_layout and ?s = "kheap_init power_on"
  have n: "nblocks ?h = 25600" by (rule kernel_heap_layout_wf)
  have three: "blocks_of 9384 = 3" by (simp add: blocks_of_def)
  have f3: "fits (unused Map.empty) (nblocks ?h) (blocks_of 9384) 0" using empty_fits[of 3] by (simp add: three)
  have sz: "0 < (9384 :: u32)" "unat (9384 :: u32) \<le> 2 ^ 32 - 4096" by simp_all
  obtain pb m1 where p0: "klive ?h (?s\<lparr>memory := m1\<rparr>) [pb \<mapsto> blocks_of 9384]"
    "fits (unused Map.empty) (nblocks ?h) (blocks_of 9384) pb"
    "\<And>a. in_region (block_addr ?h pb) (unat (9384 :: u32)) a \<Longrightarrow> m1 a = 0"
    by (rule kzalloc_run[OF kheap_init_live[of power_on] sz f3]) blast
  then have p: "klive ?h (?s\<lparr>memory := m1\<rparr>) [pb \<mapsto> 3]" "\<And>a. in_region (block_addr ?h pb) 9384 a \<Longrightarrow> m1 a = 0"
    by (simp_all add: three)
  have room: "unused_blocks (nblocks ?h) [pb \<mapsto> 3] \<noteq> {}"
    using one_object_room[of 3 pb] p0(2) n by (auto simp: three)
  obtain tb m2 where t: "klive ?h ((?s\<lparr>memory := m1\<rparr>)\<lparr>memory := m2\<rparr>) ([pb \<mapsto> 3](tb \<mapsto> 1))" "([pb \<mapsto> 3] :: nat \<rightharpoonup> nat) tb = None"
    "\<And>a. \<not> in_table ?h a \<Longrightarrow> \<not> in_blocks ?h tb 1 a \<Longrightarrow> m2 a = memory (?s\<lparr>memory := m1\<rparr>) a"
    by (rule kzalloc_page[OF p(1) room, of 64]) (simp, simp, blast)
  let ?A = "[pb \<mapsto> 3, tb \<mapsto> 1] :: nat \<rightharpoonup> nat"
  have ne: "tb \<noteq> pb" using t(2) by (auto split: if_splits)
  have l2: "klive ?h (?s\<lparr>memory := m2\<rparr>) ?A" using t(1) by simp
  have used: "i \<in> insert tb {pb..<pb + 3}" if "\<not> unused ?A i" for i
    using that by (auto simp: unused_def taken_by_def split: if_splits)
  have "card (insert tb {pb..<pb + 3}) \<le> 4" using card_insert_le_m1[of 4 "{pb..<pb + 3}" tb] by simp
  then have "1026 \<le> card (unused_blocks (nblocks ?h) ?A)" using blocks_left[of ?A, OF used] n by simp
  from paging_new_4gb_ok[OF l2 this, of 7] obtain c bd fs m3 where
    g: "klive ?h ((?s\<lparr>memory := m2\<rparr>)\<lparr>memory := m3\<rparr>) (with_pages ?A (set (c # bd # fs)))" "\<forall>x \<in> set (c # bd # fs). ?A x = None"
      "chunk_pages ?h m3 c bd fs" and same: "\<forall>e n a. ?A e = Some n \<longrightarrow> in_blocks ?h e n a \<longrightarrow> m3 a = memory (?s\<lparr>memory := m2\<rparr>) a"
    by blast
  have "m3 a = 0" if "in_region (block_addr ?h pb) 9384 a" for a
  proof -
    have a: "in_blocks ?h pb 3 a" using that by (simp add: in_blocks_def in_region_def)
    have A: "?A pb = Some 3" "?A tb = Some 1" using ne by simp_all
    have "m2 a = m1 a"
      using t(3)[of a] klive_apart[OF l2 A ne[symmetric] a] blocks_not_in_table[OF klive_block(1,3,4)[OF l2 A(1)] a] by simp
    then show ?thesis using same A(1) a p(2)[OF that] by auto
  qed
  moreover have "\<forall>x \<in> set (c # bd # fs). x \<noteq> pb \<and> x \<noteq> tb" using g(2) by (auto split: if_splits)
  moreover have "klive ?h (?s\<lparr>memory := m3\<rparr>) (with_pages ?A (set (c # bd # fs)))" using g(1) by simp
  ultimately show thesis using that[OF ne _ g(3)] by blast
qed

text \<open>A process with one task.\<close>

lemma some_process:
  obtains s :: kstate and A pb tb c bd fs b where "klive kernel_heap_layout s A"
    "process_space kernel_heap_layout A (memory s) pb tb c bd fs" "fits (unused A) (nblocks kernel_heap_layout) 1 b"
    "\<And>off. 136 \<le> off \<Longrightarrow> off + 4 \<le> 9384 \<Longrightarrow> load32 (memory s) (block_addr kernel_heap_layout pb + of_nat off) = 0"
proof -
  let ?h = kernel_heap_layout and ?s = "kheap_init power_on"
  obtain m pb tb c bd fs where o: "tb \<noteq> pb" "\<forall>x \<in> set (c # bd # fs). x \<noteq> pb \<and> x \<noteq> tb" "chunk_pages ?h m c bd fs"
    "klive ?h (?s\<lparr>memory := m\<rparr>) (with_pages [pb \<mapsto> 3, tb \<mapsto> 1] (set (c # bd # fs)))"
    "\<And>a. in_region (block_addr ?h pb) 9384 a \<Longrightarrow> m a = 0" by (rule some_objects) blast
  let ?B = "with_pages [pb \<mapsto> 3, tb \<mapsto> 1] (set (c # bd # fs))" and ?t = "block_addr ?h tb" and ?p = "block_addr ?h pb"
  have B: "?B pb = Some 3" "?B tb = Some 1" "\<forall>x \<in> set (c # bd # fs). ?B x = Some 1" "tb \<notin> set fs"
    using o(1,2) by (auto simp: with_pages_def)
  define m' where "m' = store32 (store32 m (?p + 132) ?t) ?t (block_addr ?h c)"
  have inp: "in_blocks ?h pb 3 a" if "in_region (?p + 132) 4 a" for a using process_cell[of 132 ?h pb a] that by simp
  have int: "in_blocks ?h tb 1 a" if "in_region ?t 4 a" for a using that by (simp add: in_blocks_def in_region_def)
  have out: "m' a = m a" if "\<not> in_region (?p + 132) 4 a" "\<not> in_blocks ?h tb 1 a" for a
  proof -
    have "\<not> in_region ?t 4 a" using that(2) int[of a] by blast
    then show ?thesis using that(1) by (simp add: m'_def store32_outside)
  qed
  have "klive ?h ((?s\<lparr>memory := m\<rparr>)\<lparr>memory := m'\<rparr>) ?B"
  proof (rule klive_write[OF o(4)])
    fix a assume "m' a \<noteq> memory (?s\<lparr>memory := m\<rparr>) a"
    then have "in_blocks ?h pb 3 a \<or> in_blocks ?h tb 1 a" using out[of a] inp[of a] by auto
    then show "\<exists>b n. ?B b = Some n \<and> in_blocks ?h b n a" using B(1,2) by blast
  qed
  then have live: "klive ?h (?s\<lparr>memory := m'\<rparr>) ?B" by simp
  have "\<not> in_region (?p + 132) 4 a" "\<not> in_blocks ?h tb 1 a" if "x \<in> set (c # bd # fs)" "in_blocks ?h x 1 a" for x a
    using klive_apart[OF live _ B(1) _ that(2)] klive_apart[OF live _ B(2) _ that(2)] B(3) o(2) that(1) inp[of a] by blast+
  then have cp: "chunk_pages ?h m' c bd fs" using chunk_frame(1)[OF o(4,3) B(3), of m'] out by blast
  have tp: "\<not> in_region ?t 4 a" if "in_blocks ?h pb 3 a" for a
    using klive_apart[OF live B(1,2) o(1)[symmetric] that] int[of a] by blast
  have "load32 m' (?p + 132) = load32 (store32 m (?p + 132) ?t) (?p + 132)"
    unfolding m'_def using tp inp by (intro load32_cong store32_outside) blast
  then have "load32 m' (?p + 132) = ?t" "load32 m' ?t = block_addr ?h c" by (simp_all add: m'_def)
  then have sp: "process_space ?h ?B m' pb tb c bd fs" using B cp by (simp add: process_space_def)
  have z: "load32 m' (?p + of_nat off) = 0" if off: "136 \<le> off" "off + 4 \<le> 9384" for off
  proof -
    have "m' a = 0" if a: "in_region (?p + of_nat off) 4 a" for a
    proof -
      have "disjoint_regions (?p + 136) 9248 (?p + 132) 4" by (simp add: disjoint_regions_def)
      from disjoint_regions_sub[OF this, of "off - 136" 4 4] off have "disjoint_regions (?p + of_nat off) 4 (?p + 132) 4"
        by (simp add: of_nat_diff)
      then have "\<not> in_region (?p + 132) 4 a" using disjoint_regionsD[of "?p + 132" 4 "?p + of_nat off" 4 a] a by (simp add: disjoint_regions_sym)
      moreover have "\<not> in_blocks ?h tb 1 a"
        using klive_apart[OF live B(1,2) o(1)[symmetric]] process_cell[of off ?h pb a] a off by simp
      ultimately show ?thesis using out o(5)[of a] in_region_sub[of ?p off 4 a 9384] a off by simp
    qed
    then have "load32 m' (?p + of_nat off) = load32 (\<lambda>_. 0) (?p + of_nat off)" by (intro load32_cong)
    then show ?thesis by (simp add: load32_def)
  qed
  have nf: "\<exists>b. fits (unused ?B) (nblocks ?h) 1 b"
  proof -
    have "i \<in> insert tb {pb..<pb + 3} \<union> set (c # bd # fs)" if "\<not> unused ?B i" for i
      using that by (auto simp: unused_def taken_by_def with_pages_def less_Suc_eq_le dest: le_antisym split: if_splits)
    moreover have "card (insert tb {pb..<pb + 3} \<union> set (c # bd # fs)) \<le> 1030"
      using card_Un_le[of "insert tb {pb..<pb + 3}" "set (c # bd # fs)"] card_insert_le_m1[of 4 "{pb..<pb + 3}" tb]
        card_length[of "c # bd # fs"] o(3) by (simp add: chunk_pages_def)
    ultimately have "1 \<le> card (unused_blocks 25600 ?B)"
      using blocks_left[of ?B "insert tb {pb..<pb + 3} \<union> set (c # bd # fs)" 1] by simp
    then have "unused_blocks 25600 ?B \<noteq> {}" by auto
    then obtain x where "x < 25600" "unused ?B x" unfolding unused_blocks_def by blast
    then have "fits (unused ?B) (nblocks ?h) 1 x" by (simp add: fits_def kernel_heap_layout_wf)
    then show ?thesis by blast
  qed
  then obtain b where "fits (unused ?B) (nblocks ?h) 1 b" by blast
  then show thesis using that[OF live, of pb tb c bd fs b] sp z by simp
qed

lemma kernel_heap_below_top: "heap_below_top kernel_heap_layout"
  by (simp add: heap_below_top_def kernel_heap_layout_wf) (simp add: kernel_heap_layout_def)

theorem process_malloc_maps_witness:
  "\<exists>(s :: kstate) A pb bd b m. klive kernel_heap_layout s A
     \<and> process_malloc (block_addr kernel_heap_layout pb) 100 s = (block_addr kernel_heap_layout b, s\<lparr>memory := m\<rparr>)
     \<and> klive kernel_heap_layout (s\<lparr>memory := m\<rparr>) (A(b \<mapsto> 1))
     \<and> pte m (block_addr kernel_heap_layout bd) (page_of kernel_heap_layout b) = of_nat (4096 * page_of kernel_heap_layout b) OR 7"
proof -
  let ?h = kernel_heap_layout
  obtain s A pb tb c bd fs b\<^sub>0 where p: "klive ?h (s :: kstate) A" "process_space ?h A (memory s) pb tb c bd fs"
    "fits (unused A) (nblocks ?h) 1 b\<^sub>0" and z: "\<And>off. 136 \<le> off \<Longrightarrow> off + 4 \<le> 9384 \<Longrightarrow> load32 (memory s) (block_addr ?h pb + of_nat off) = 0"
    by (rule some_process, rule that)
  have free: "free_allocation (memory s) (block_addr ?h pb) 0" using z[of 136] by (simp add: free_allocation_def)
  have one: "blocks_of 100 = 1" by (simp add: blocks_of_def)
  have sz: "0 < (100 :: u32)" "unat (100 :: u32) \<le> 2 ^ 32 - 4096" by simp_all
  have fit: "fits (unused A) (nblocks ?h) (blocks_of 100) b\<^sub>0" using p(3) by (simp add: one)
  obtain b m where r: "process_malloc (block_addr ?h pb) 100 s = (block_addr ?h b, s\<lparr>memory := m\<rparr>)"
    "fits (unused A) (nblocks ?h) (blocks_of 100) b" "klive ?h (s\<lparr>memory := m\<rparr>) (A(b \<mapsto> blocks_of 100))"
    "\<forall>w < 2 ^ 20. pte m (block_addr ?h bd) w = (if page_of ?h b \<le> w \<and> w < page_of ?h b + blocks_of 100
       then of_nat (4096 * w) OR 7 else pte (memory s) (block_addr ?h bd) w)"
    using process_malloc_maps[OF p(1) kernel_heap_below_top p(2) sz fit free] by blast
  have "page_of ?h b < 2 ^ 20"
    using page_of_bound[OF kernel_heap_layout_wf(1) kernel_heap_below_top, of b 1] r(2) by (simp add: fits_def one)
  then have "pte m (block_addr ?h bd) (page_of ?h b) = of_nat (4096 * page_of ?h b) OR 7"
    using r(4)[rule_format, of "page_of ?h b"] by (simp add: one)
  then show ?thesis using p(1) r(1,3) unfolding one by blast
qed

end
