(* ===== verification/ProcessRelease.thy ===== *)
theory ProcessRelease
  imports ProcessMemory
begin

text \<open>
  Giving memory of a process back: \<^verbatim>\<open>process_free\<close> undoes what \<^verbatim>\<open>process_malloc\<close> did to the heap and the allocation table and takes the
  pages away from the program, and \<^verbatim>\<open>process_terminate_allocations\<close> does so for every slot, empty slots included.
\<close>

subsection \<open>The allocation table\<close>

definition has_allocation :: "mem \<Rightarrow> u32 \<Rightarrow> nat \<Rightarrow> u32 \<Rightarrow> u32 \<Rightarrow> bool" where
  "has_allocation m process i ptr sz \<longleftrightarrow> i < 1024 \<and> load32 m (allocation_at process i) = ptr
     \<and> load32 m (allocation_at process i + 4) = sz \<and> (\<forall>j < 1024. load32 m (allocation_at process j) = ptr \<longrightarrow> j = i)"

lemma allocation_found:
  assumes "i < 1024" "load32 m (allocation_at process i) = ptr" "\<And>j. j < i \<Longrightarrow> load32 m (allocation_at process j) \<noteq> ptr"
  shows "process_get_allocation_by_addr process ptr m = allocation_at process i"
  using find_upt_Some[of "\<lambda>i. load32 m (allocation_at process i) = ptr" 1024 i] assms
  by (simp add: process_get_allocation_by_addr_def)

lemma has_allocation_found:
  "has_allocation m process i ptr sz \<Longrightarrow> process_get_allocation_by_addr process ptr m = allocation_at process i"
  by (rule allocation_found) (auto simp: has_allocation_def dest: less_trans)

abbreviation (input) clear_slot :: "u32 \<Rightarrow> nat \<Rightarrow> mem \<Rightarrow> mem" where
  "clear_slot process i m \<equiv> store32 (store32 m (allocation_at process i) 0) (allocation_at process i + 4) 0"

lemma unjoin_skip:
  "(\<And>j. j \<in> set js \<Longrightarrow> load32 m (allocation_at process j) \<noteq> ptr) \<Longrightarrow>
   fold (\<lambda>i m. if load32 m (allocation_at process i) = ptr then clear_slot process i m else m) js m = m"
  by (induction js) simp_all

lemma upt_around: "i < n \<Longrightarrow> [0..<n] = [0..<i] @ i # [Suc i..<n]"
  using upt_add_eq_append[of 0 i "n - i"] by (simp add: upt_conv_Cons)

lemma unjoin_one:
  assumes "has_allocation m process i ptr sz" "ptr \<noteq> 0"
  shows "process_allocation_unjoin process ptr m = clear_slot process i m"
proof -
  have i: "i < 1024" "load32 m (allocation_at process i) = ptr" and u: "\<And>j. j < 1024 \<Longrightarrow> load32 m (allocation_at process j) = ptr \<Longrightarrow> j = i"
    using assms(1) by (auto simp: has_allocation_def)
  let ?f = "\<lambda>i m. if load32 m (allocation_at process i) = ptr then clear_slot process i m else m"
  have "[0..<1024] = [0..<i] @ i # [Suc i..<1024]" by (rule upt_around[OF i(1)])
  then have f: "fold ?f [0..<1024] m = fold ?f [Suc i..<1024] (?f i (fold ?f [0..<i] m))" by (simp only: fold_append fold_Cons comp_apply)
  have a: "fold ?f [0..<i] m = m" by (rule unjoin_skip) (use u i(1) in \<open>auto dest: less_trans\<close>)
  have "load32 (clear_slot process i m) (allocation_at process j) \<noteq> ptr" if "j \<in> set [Suc i..<1024]" for j
    using record_allocation[OF i(1), of m process 0 0] u[of j] that assms(2) by (auto simp: recorded_def)
  then have b: "fold ?f [Suc i..<1024] (clear_slot process i m) = clear_slot process i m" by (rule unjoin_skip)
  show ?thesis unfolding process_allocation_unjoin_def f a using i(2) b by simp
qed

subsection \<open>Releasing one allocation\<close>

lemma allocation_nonzero:
  assumes live: "klive h s A" and sp: "process_space h A m pb tb c bd fs" and i: "i < 1024"
  shows "allocation_at (block_addr h pb) i \<noteq> NULL"
proof -
  have A: "A pb = Some 3" using sp by (simp add: process_space_def)
  note pb = klive_block[OF live A]
  have "in_blocks h pb 3 (allocation_at (block_addr h pb) i)"
    using allocation_cell[OF i, of 0 h pb "allocation_at (block_addr h pb) i"] by simp
  then have "unat (block_addr h pb) \<le> unat (allocation_at (block_addr h pb) i)"
    using in_blocks_iff[OF pb(1,3,4)] block_addr_unat[OF pb(1,2)] by simp
  moreover have "unat (block_addr h pb) \<noteq> 0" using block_addr_nonzero[OF pb(1,2)] by (simp add: unat_eq_0)
  ultimately show ?thesis by auto
qed

definition in_allocations :: "u32 \<Rightarrow> u32 \<Rightarrow> bool" where
  "in_allocations process a \<longleftrightarrow> in_region (process + 136) 8192 a"

lemma clear_slot_outside:
  assumes i: "i < 1024" and a: "\<not> in_allocations process a"
  shows "clear_slot process i m a = m a"
proof -
  have e: "process + 136 + of_nat (8 * i) = allocation_at process i" "process + 136 + of_nat (8 * i + 4) = allocation_at process i + 4"
    by (simp_all add: algebra_simps)
  have "\<not> in_region (allocation_at process i) 4 a" "\<not> in_region (allocation_at process i + 4) 4 a"
    using in_region_sub[of "process + 136" "8 * i" 4 a 8192] in_region_sub[of "process + 136" "8 * i + 4" 4 a 8192] i a
    unfolding e in_allocations_def by auto
  then show ?thesis by (simp add: store32_outside)
qed

lemma in_allocations_process: "in_allocations (block_addr h pb) a \<Longrightarrow> in_blocks h pb 3 a"
  using in_region_sub[of "block_addr h pb" 136 8192 a "4096 * 3"] by (simp add: in_allocations_def in_blocks_def)

lemma process_free_ok:
  fixes s :: "'a kstate_scheme"
  assumes live: "klive h s A" and top: "heap_below_top h" and sp: "process_space h A (memory s) pb tb c bd fs"
    and b: "A b = Some (blocks_of sz)" "0 < sz" "b \<notin> set (pb # tb # c # bd # fs)"
    and al: "has_allocation (memory s) (block_addr h pb) i (block_addr h b) sz"
  shows "\<exists>m. process_free (block_addr h pb) (block_addr h b) s = s\<lparr>memory := m\<rparr>
    \<and> klive h (s\<lparr>memory := m\<rparr>) (A(b := None)) \<and> process_space h (A(b := None)) m pb tb c bd fs
    \<and> (\<forall>w < 2 ^ 20. pte m (block_addr h bd) w =
         (if page_of h b \<le> w \<and> w < page_of h b + blocks_of sz then of_nat (4096 * w) else pte (memory s) (block_addr h bd) w))
    \<and> recorded (memory s) (block_addr h pb) i 0 0 m
    \<and> (\<forall>a. \<not> in_table h a \<longrightarrow> (\<forall>e \<in> set fs. \<not> in_blocks h e 1 a) \<longrightarrow> \<not> in_allocations (block_addr h pb) a \<longrightarrow> m a = memory s a)"
proof -
  let ?p = "block_addr h pb" and ?b = "block_addr h b" and ?n = "blocks_of sz" and ?d = "block_addr h bd"
  have i: "i < 1024" "load32 (memory s) (allocation_at ?p i) = ?b" "load32 (memory s) (allocation_at ?p i + 4) = sz"
    using al by (auto simp: has_allocation_def)
  note bb = klive_block[OF live b(1)]
  have bn: "b + ?n \<le> nblocks h" using bb(3) .
  obtain m1 where r: "paging_map_to (block_addr h c) ?b ?b (paging_align_address (?b + sz)) 0 (memory s) = (0, m1)"
    "\<And>a. (\<And>x. x \<in> set fs \<Longrightarrow> \<not> in_blocks h x 1 a) \<Longrightarrow> m1 a = memory s a" "process_space h A m1 pb tb c bd fs"
    "\<And>w. w < 2 ^ 20 \<Longrightarrow> pte m1 ?d w = (if page_of h b \<le> w \<and> w < page_of h b + ?n then of_nat (4096 * w) else pte (memory s) ?d w)"
    by (rule map_run[OF live top sp bn b(2), of 0]) simp
  have A: "A pb = Some 3" "\<forall>x \<in> set fs. A x = Some 1" "pb \<notin> set fs" using sp by (auto simp: process_space_def)
  have pbm: "m1 a = memory s a" if "in_blocks h pb 3 a" for a
    using klive_apart[OF live A(1) _ _ that] A(2,3) by (intro r(2)) metis
  have slots: "load32 m1 (allocation_at ?p j) = load32 (memory s) (allocation_at ?p j)"
    "load32 m1 (allocation_at ?p j + 4) = load32 (memory s) (allocation_at ?p j + 4)" if "j < 1024" for j
    using allocation_cell[OF that, of 0 h pb] allocation_cell[OF that, of 4 h pb] pbm by (auto intro!: load32_cong)
  have al1: "has_allocation m1 ?p i ?b sz" using al slots by (auto simp: has_allocation_def)
  have nz: "?b \<noteq> NULL" using block_addr_nonzero[OF bb(1,2)] .
  define m2 where "m2 = clear_slot ?p i m1"
  note f2 = record_run[OF live r(3) i(1) m2_def]
  let ?s2 = "s\<lparr>memory := m2\<rparr>"
  have no_table: "\<not> in_blocks h e l a" if "A e = Some l" "in_table h a" for e l a
    using blocks_not_in_table[OF klive_block(1,3,4)[OF live that(1)]] that(2) by blast
  have "m2 a = memory s a" if "in_table h a" for a
    using f2(3)[of a] r(2)[of a] no_table[OF _ that] A(1,2) by metis
  then have live2: "klive h ?s2 A" using klive_frame[OF live] by blast
  have nz_at: "allocation_at ?p i \<noteq> NULL" by (rule allocation_nonzero[OF live sp i(1)])
  have eq: "process_free ?p ?b s = kfree ?b ?s2"
    using has_allocation_found[OF al] r(1) i(2,3) sp unjoin_one[OF al1 nz] nz_at
    by (simp add: process_free_def Let_def process_space_def m2_def)
  obtain m where m: "kfree ?b ?s2 = ?s2\<lparr>memory := m\<rparr>" using kfree_memory_only by blast
  have live3: "klive h (s\<lparr>memory := m\<rparr>) (A(b := None))" using kz.free_live[OF live2 b(1)] m by simp
  have fr: "m a = m2 a" if "\<not> in_table h a" for a
    using kfree_ok(2)[of ?s2 A b ?n a] live2 b(1) that m by (simp add: klive_def)
  have "\<forall>e k a. A e = Some k \<longrightarrow> in_blocks h e k a \<longrightarrow> m a = m2 a" using fr no_table by blast
  note f3 = process_space_frame[OF live2 f2(1) this]
  have "process_space h (A(b := None)) m pb tb c bd fs" using f3(1) b(3) by (auto simp: process_space_def)
  moreover have "pte m ?d w = (if page_of h b \<le> w \<and> w < page_of h b + ?n then of_nat (4096 * w) else pte (memory s) ?d w)"
    if "w < 2 ^ 20" for w using f3(2)[OF that] f2(2)[OF that] r(4)[OF that] by simp
  moreover have "recorded (memory s) ?p i 0 0 m"
    using record_allocation[OF i(1), of m1 ?p 0 0] f3(4,5) slots unfolding m2_def[symmetric] recorded_def by simp
  moreover have "m a = memory s a" if "\<not> in_table h a" "\<forall>e \<in> set fs. \<not> in_blocks h e 1 a" "\<not> in_allocations ?p a" for a
    using fr[OF that(1)] clear_slot_outside[OF i(1) that(3), of m1] r(2)[of a] that(2) by (simp add: m2_def)
  ultimately show ?thesis using eq m live3 by (intro exI[of _ m]) simp
qed

subsection \<open>Releasing an empty slot\<close>

text \<open>
  The pointer of an empty slot is null.  \<^verbatim>\<open>process_free\<close> finds that slot, unmaps nothing, and calls \<^verbatim>\<open>kfree\<close> with null, which \<^verbatim>\<open>heap_free\<close>
  takes for a block in front of the pool.  \<^verbatim>\<open>heap_mark_block_free\<close> then clears bytes in front of the heap's table, memory the kernel never
  initialises: from the entry it computes for null (0x6E00 for the kernel's heap) up to the first byte without the bit that
  marks a continued run.  The number of bytes with the bit is \<open>n\<close>.
\<close>

definition null_entry :: "heap \<Rightarrow> u32" where
  "null_entry h = entries (heap_tab h) + word_of_int (heap_address_to_block h 0)"

definition null_run :: "heap \<Rightarrow> mem \<Rightarrow> nat \<Rightarrow> bool" where
  "null_run h m n \<longleftrightarrow> heap_address_to_block h 0 + int n < sint (total_entries (heap_tab h))
     \<and> (\<forall>k < n. m (null_entry h + of_nat k) AND 0x80 \<noteq> 0) \<and> m (null_entry h + of_nat n) AND 0x80 = 0"

definition null_bytes :: "heap \<Rightarrow> nat \<Rightarrow> u32 \<Rightarrow> bool" where
  "null_bytes h n a \<longleftrightarrow> in_region (null_entry h) (Suc n) a"

text \<open>Memory that no live object and no table occupies; the run of cleared bytes lies there.\<close>

definition unowned :: "heap \<Rightarrow> (nat \<rightharpoonup> nat) \<Rightarrow> u32 \<Rightarrow> bool" where
  "unowned h A a \<longleftrightarrow> \<not> in_table h a \<and> (\<forall>e n. A e = Some n \<longrightarrow> \<not> in_blocks h e n a)"

definition null_apart :: "heap \<Rightarrow> (nat \<rightharpoonup> nat) \<Rightarrow> nat \<Rightarrow> bool" where
  "null_apart h A n \<longleftrightarrow> (\<forall>a. null_bytes h n a \<longrightarrow> unowned h A a)"

lemma in_region_Suc:
  assumes "n < 2 ^ 32"
  shows "in_region p (Suc n) a \<longleftrightarrow> a = p \<or> in_region (p + 1) n a"
proof (cases "a = p")
  case False
  then have d: "a - p \<noteq> 0" by simp
  have "unat (a - (p + 1)) = unat (a - p) - 1" using unat_minus_one[OF d] by (simp only: diff_diff_eq)
  moreover have "0 < unat (a - p)" using d by (simp add: unat_gt_0)
  ultimately show ?thesis using False unfolding in_region_def by auto
qed (simp add: in_region_def)

lemma mark_free_run:
  assumes "i + int n < sint (total_entries table)" "n < 2 ^ 32 - 1" "p = entries table + word_of_int i"
    and "\<forall>k < n. m (p + of_nat k) AND 0x80 \<noteq> 0" "m (p + of_nat n) AND 0x80 = 0"
  shows "heap_mark_block_free_loop table i m = (\<lambda>a. if in_region p (Suc n) a then 0 else m a)"
  using assms
proof (induction n arbitrary: i p m)
  case 0
  then show ?case by (auto simp: heap_mark_block_free_loop.simps[of table i m] Let_def in_region_Suc fun_eq_iff)
next
  case (Suc n)
  let ?m = "m(p := 0)"
  have p: "p + 1 + of_nat k \<noteq> p" "(p + 1) + of_nat k = p + of_nat (Suc k)" if "k \<le> n" for k
  proof -
    have "unat (of_nat (Suc k) :: u32) = Suc k" using that Suc.prems(2) by (simp add: unat_of_nat_u32 del: of_nat_Suc)
    then have "(of_nat (Suc k) :: u32) \<noteq> 0" by (metis nat.distinct(1) unat_0)
    moreover show "(p + 1) + of_nat k = p + of_nat (Suc k)" by simp
    ultimately show "p + 1 + of_nat k \<noteq> p" by simp
  qed
  have upd: "?m (p + 1 + of_nat k) = m (p + of_nat (Suc k))" if "k \<le> n" for k
    by (rule trans[OF fun_upd_other[OF p(1)] arg_cong[OF p(2)]]) (rule that)+
  have "heap_mark_block_free_loop table (i + 1) ?m = (\<lambda>a. if in_region (p + 1) (Suc n) a then 0 else ?m a)"
  proof (rule Suc.IH)
    show "?m (p + 1 + of_nat n) AND 0x80 = 0" using Suc.prems(5) by (simp only: upd order_refl)
    show "\<forall>k < n. ?m (p + 1 + of_nat k) AND 0x80 \<noteq> 0"
    proof (intro allI impI)
      fix k assume k: "k < n"
      then have "m (p + of_nat (Suc k)) AND 0x80 \<noteq> 0" by (intro Suc.prems(4)[rule_format] Suc_mono)
      then show "?m (p + 1 + of_nat k) AND 0x80 \<noteq> 0" by (subst upd[OF less_imp_le[OF k]])
    qed
  qed (use Suc.prems in auto)
  moreover have "m p AND 0x80 \<noteq> 0" "i < sint (total_entries table)" using Suc.prems(1,4) by (force, simp)
  ultimately have "heap_mark_block_free_loop table i m = (\<lambda>a. if in_region (p + 1) (Suc n) a then 0 else ?m a)"
    using Suc.prems(3) by (subst heap_mark_block_free_loop.simps) (simp add: Let_def)
  then show ?case using in_region_Suc[of "Suc n" p] Suc.prems(2) by (auto simp: fun_eq_iff)
qed

text \<open>
  A second \<^verbatim>\<open>kfree\<close> of null finds the run cleared.  Both times the result is that the bytes of the run are zero, which is what
  the releases keep of it.
\<close>

definition null_harmless :: "heap \<Rightarrow> (nat \<rightharpoonup> nat) \<Rightarrow> mem \<Rightarrow> nat \<Rightarrow> bool" where
  "null_harmless h A m n \<longleftrightarrow> null_apart h A n
     \<and> (null_run h m n \<or> heap_address_to_block h 0 < sint (total_entries (heap_tab h)) \<and> (\<forall>a. null_bytes h n a \<longrightarrow> m a = 0))"

definition null_cleared :: "heap \<Rightarrow> nat \<Rightarrow> mem \<Rightarrow> mem" where
  "null_cleared h n m = (\<lambda>a. if null_bytes h n a then 0 else m a)"

lemma null_run_harmless: "null_run h m n \<Longrightarrow> null_apart h A n \<Longrightarrow> null_harmless h A m n"
  by (simp add: null_harmless_def)

lemma null_run_bound:
  assumes "null_run h m n"
  shows "n < 2 ^ 32 - 1"
proof -
  have "sint x sdiv 4096 \<ge> - (2 ^ 31)" for x :: u32
    using sint_ge[of x] by (simp add: signed_divide_int_def sgn_if) linarith
  then have "- (2 ^ 31) \<le> heap_address_to_block h 0" by (simp add: heap_address_to_block_def)
  moreover have "sint (total_entries (heap_tab h)) < 2 ^ 31" using sint_lt[of "total_entries (heap_tab h)"] by simp
  ultimately show ?thesis using assms unfolding null_run_def by simp
qed

lemma null_run_cong:
  assumes "\<And>a. null_bytes h n a \<Longrightarrow> m' a = m a"
  shows "null_run h m' n = null_run h m n"
proof -
  have "m' (null_entry h + of_nat k) = m (null_entry h + of_nat k)" if "k \<le> n" for k
    using that by (intro assms) (simp add: null_bytes_def unat_of_nat le_less_trans[OF mod_less_eq_dividend])
  then show ?thesis by (simp add: null_run_def)
qed

lemma null_cleared_frame:
  assumes "null_harmless h A m n"
  shows "null_cleared h n m a \<noteq> m a \<Longrightarrow> unowned h A a"
  using assms by (auto simp: null_cleared_def null_harmless_def null_apart_def split: if_splits)

lemma null_harmless_cleared:
  assumes "null_harmless h A m n"
  shows "null_harmless h A (null_cleared h n m) n"
  using assms by (auto simp: null_harmless_def null_cleared_def null_run_def)

lemma null_harmless_kept:
  assumes "null_harmless h A m n" "\<And>a. null_bytes h n a \<Longrightarrow> m' a = m a" "\<And>e k. B e = Some k \<Longrightarrow> A e = Some k"
  shows "null_harmless h B m' n"
  using assms null_run_cong[of h n m' m, OF assms(2)] unfolding null_harmless_def null_apart_def unowned_def by auto

lemma heap_free_null:
  assumes "null_harmless h A m n"
  shows "heap_free h 0 m = null_cleared h n m"
proof -
  let ?i = "heap_address_to_block h 0" and ?t = "heap_tab h"
  have eq: "heap_free h 0 m = heap_mark_block_free_loop ?t ?i m" by (simp add: heap_free_def heap_mark_block_free_def)
  consider (run) "null_run h m n" | (zero) "?i < sint (total_entries ?t)" "\<And>a. null_bytes h n a \<Longrightarrow> m a = 0"
    using assms unfolding null_harmless_def by blast
  then show ?thesis
  proof cases
    case run
    note b = null_run_bound[OF run]
    have "?i + int n < sint (total_entries ?t)" "\<forall>k < n. m (null_entry h + of_nat k) AND 0x80 \<noteq> 0" "m (null_entry h + of_nat n) AND 0x80 = 0"
      using run by (simp_all add: null_run_def)
    from mark_free_run[OF this(1) b null_entry_def this(2,3)] show ?thesis by (simp add: eq null_cleared_def null_bytes_def)
  next
    case zero
    have "m (null_entry h) = 0" using zero(2)[of "null_entry h"] by (simp add: null_bytes_def)
    then have "heap_mark_block_free_loop ?t ?i m = m"
      using zero(1) by (auto simp: heap_mark_block_free_loop.simps[of ?t ?i m] Let_def null_entry_def fun_eq_iff)
    moreover have "null_cleared h n m = m" using zero(2) by (auto simp: null_cleared_def fun_eq_iff)
    ultimately show ?thesis by (simp add: eq)
  qed
qed

lemma load32_0_iff: "load32 m p = 0 \<longleftrightarrow> m p = 0 \<and> m (p + 1) = 0 \<and> m (p + 2) = 0 \<and> m (p + 3) = 0"
proof -
  have "m p = 0 \<and> m (p + 1) = 0 \<and> m (p + 2) = 0 \<and> m (p + 3) = 0" if "load32 m p = 0"
  proof -
    have b: "bit (load32 m p) n = False" for n using that by simp
    have "m (p + of_nat k) = 0" if "k < 4" for k
    proof (rule bit_word_eqI)
      fix n assume n: "n < LENGTH(8)"
      have "k = 0 \<or> k = 1 \<or> k = 2 \<or> k = 3" using that by auto
      then show "bit (m (p + of_nat k)) n = bit (0 :: u8) n"
        using b[of "8 * k + n"] n by (elim disjE) (simp_all add: load32_def bit_simps)
    qed
    from this[of 0] this[of 1] this[of 2] this[of 3] show ?thesis by simp
  qed
  then show ?thesis by (auto simp: load32_def)
qed

lemma store32_same_0: "load32 m p = 0 \<Longrightarrow> store32 m p 0 = m"
  by (auto simp: load32_0_iff store32_def fun_eq_iff)

lemma unjoin_null:
  assumes "\<And>j. j < 1024 \<Longrightarrow> load32 m (allocation_at process j) = 0 \<Longrightarrow> load32 m (allocation_at process j + 4) = 0"
  shows "process_allocation_unjoin process 0 m = m"
proof -
  have "fold (\<lambda>i m. if load32 m (allocation_at process i) = 0 then clear_slot process i m else m) js m = m" if "set js \<subseteq> {..<1024}" for js
    using that
  proof (induction js)
    case (Cons j js)
    then have "(if load32 m (allocation_at process j) = 0 then clear_slot process j m else m) = m"
      using assms[of j] by (simp add: store32_same_0)
    with Cons show ?case by (simp only: fold_Cons comp_apply) simp
  qed simp
  from this[of "[0..<1024]"] show ?thesis by (simp add: process_allocation_unjoin_def atLeast0LessThan)
qed

lemma process_free_null:
  fixes s :: "'a kstate_scheme"
  assumes live: "klive h s A" and sp: "process_space h A (memory s) pb tb c bd fs" and nl: "null_harmless h A (memory s) n"
    and empty: "i < 1024" "load32 (memory s) (allocation_at (block_addr h pb) i) = 0"
      "\<And>j. j < 1024 \<Longrightarrow> load32 (memory s) (allocation_at (block_addr h pb) j) = 0 \<Longrightarrow> load32 (memory s) (allocation_at (block_addr h pb) j + 4) = 0"
  shows "process_free (block_addr h pb) 0 s = s\<lparr>memory := null_cleared h n (memory s)\<rparr>"
proof -
  let ?p = "block_addr h pb"
  define k where "k = (LEAST j. load32 (memory s) (allocation_at ?p j) = 0)"
  have k: "load32 (memory s) (allocation_at ?p k) = 0" "k \<le> i" "\<And>j. j < k \<Longrightarrow> load32 (memory s) (allocation_at ?p j) \<noteq> 0"
    unfolding k_def using LeastI[of "\<lambda>j. load32 (memory s) (allocation_at ?p j) = 0" i] Least_le[of "\<lambda>j. load32 (memory s) (allocation_at ?p j) = 0" i]
      not_less_Least empty(2) by blast+
  have k1: "k < 1024" using k(2) empty(1) by simp
  have sz: "load32 (memory s) (allocation_at ?p k + 4) = 0" by (rule empty(3)[OF k1 k(1)])
  have pg: "paging_map_to d 0 0 (paging_align_address (0 + 0)) 0 (memory s) = (0, memory s)" for d
    using paging_map_range_loop.simps[of d 0 0 0 0 0 0 "memory s"]
    by (simp add: paging_map_to_def paging_align_address_def paging_map_range_def)
  have kh: "kernel_heap s = h" using live by (simp add: klive_def)
  have "kfree 0 s = s\<lparr>memory := null_cleared h n (memory s)\<rparr>" using heap_free_null[OF nl] kh by (simp add: kfree_def)
  moreover have "allocation_at ?p k \<noteq> NULL" by (rule allocation_nonzero[OF live sp k1])
  ultimately show ?thesis
    using allocation_found[of k "memory s" ?p 0, OF k1 k(1,3)] k(1) sz pg unjoin_null[of "memory s" ?p, OF empty(3)]
    by (simp add: process_free_def Let_def)
qed

subsection \<open>Releasing every slot\<close>

text \<open>
  \<open>R\<close> gives for every slot in use the first block and the size of the allocation; the blocks are live and none of them is
  one of the process's own objects \<open>O\<close>.
\<close>

definition process_allocs ::
    "heap \<Rightarrow> (nat \<rightharpoonup> nat) \<Rightarrow> mem \<Rightarrow> u32 \<Rightarrow> nat set \<Rightarrow> (nat \<rightharpoonup> nat \<times> u32) \<Rightarrow> bool" where
  "process_allocs h A m process Own R \<longleftrightarrow>
     (\<forall>j < 1024. load32 m (allocation_at process j) = (case R j of None \<Rightarrow> 0 | Some (b, sz) \<Rightarrow> block_addr h b)
        \<and> load32 m (allocation_at process j + 4) = (case R j of None \<Rightarrow> 0 | Some (b, sz) \<Rightarrow> sz))
     \<and> (\<forall>j b sz. R j = Some (b, sz) \<longrightarrow> A b = Some (blocks_of sz) \<and> 0 < sz \<and> b \<notin> Own)
     \<and> (\<forall>j k b sz sz'. R j = Some (b, sz) \<longrightarrow> R k = Some (b, sz') \<longrightarrow> j = k)"

fun release :: "(nat \<rightharpoonup> nat) \<Rightarrow> (nat \<times> u32) option \<Rightarrow> nat \<rightharpoonup> nat" where
  "release A None = A"
| "release A (Some (b, sz)) = A(b := None)"

fun covers :: "heap \<Rightarrow> (nat \<times> u32) option \<Rightarrow> nat \<Rightarrow> bool" where
  "covers h None w \<longleftrightarrow> False"
| "covers h (Some (b, sz)) w \<longleftrightarrow> page_of h b \<le> w \<and> w < page_of h b + blocks_of sz"

definition untouched :: "heap \<Rightarrow> nat \<Rightarrow> nat list \<Rightarrow> nat \<Rightarrow> u32 \<Rightarrow> bool" where
  "untouched h pb fs n a \<longleftrightarrow> \<not> in_table h a \<and> (\<forall>e \<in> set fs. \<not> in_blocks h e 1 a) \<and> \<not> in_allocations (block_addr h pb) a \<and> \<not> null_bytes h n a"

lemma allocs_pointer:
  assumes "process_allocs h A m p Own R" "klive h s A" "j < 1024" "R j = Some (b, sz)"
  shows "has_allocation m p j (block_addr h b) sz"
proof -
  have r: "\<And>k. k < 1024 \<Longrightarrow> load32 m (allocation_at p k) = (case R k of None \<Rightarrow> 0 | Some (b, sz) \<Rightarrow> block_addr h b)"
    "load32 m (allocation_at p j + 4) = sz" "A b = Some (blocks_of sz)"
    "\<And>k b' sz'. R k = Some (b', sz') \<Longrightarrow> A b' = Some (blocks_of sz')"
    "\<And>k sz'. R k = Some (b, sz') \<Longrightarrow> k = j"
    using assms(1,3,4) unfolding process_allocs_def by (auto split: option.splits)
  have u: "k = j" if k: "k < 1024" "load32 m (allocation_at p k) = block_addr h b" for k
  proof (cases "R k")
    case None
    then show ?thesis using r(1)[OF k(1)] k(2) block_addr_nonzero[OF klive_block(1,2)[OF assms(2) r(3)]] by simp
  next
    case (Some x)
    obtain b' sz' where x: "x = (b', sz')" by (cases x)
    have "block_addr h b' = block_addr h b" using r(1)[OF k(1)] k(2) Some x by simp
    then have "b' = b"
      using block_addr_unat[OF klive_block(1,2)[OF assms(2) r(3)]]
        block_addr_unat[OF klive_block(1,2)[OF assms(2) r(4)[OF Some[unfolded x]]]] by simp
    then show ?thesis using r(5)[of k] Some x by simp
  qed
  have "load32 m (allocation_at p j) = block_addr h b" using r(1)[OF assms(3)] assms(4) by simp
  then show ?thesis using r(2) assms(3) u unfolding has_allocation_def by blast
qed

lemma allocs_released:
  assumes al: "process_allocs h A m p Own R" and j: "j < 1024"
    and m': "R j \<noteq> None \<longrightarrow> recorded m p j 0 0 m'" "R j = None \<longrightarrow> (\<forall>k < 1024. load32 m' (allocation_at p k) = load32 m (allocation_at p k)
        \<and> load32 m' (allocation_at p k + 4) = load32 m (allocation_at p k + 4))"
  shows "process_allocs h (release A (R j)) m' p Own (R(j := None))"
proof (cases "R j")
  case None
  then have "R(j := None) = R" by auto
  then show ?thesis using al m'(2) None unfolding process_allocs_def by simp
next
  case (Some x)
  obtain b sz where x: "x = (b, sz)" by (cases x)
  have "A b' = Some (blocks_of sz') \<and> 0 < sz' \<and> b' \<notin> Own \<and> b' \<noteq> b" if "(R(j := None)) k = Some (b', sz')" for k b' sz'
    using al that Some x unfolding process_allocs_def by (metis fun_upd_other fun_upd_same option.distinct(1))
  then show ?thesis using al m'(1) Some x unfolding process_allocs_def recorded_def by (auto split: option.splits)
qed

lemma space_clear:
  fixes s :: "'a kstate_scheme"
  assumes live: "klive h s A" and sp: "process_space h A (memory s) pb tb c bd fs" and al: "process_allocs h A (memory s) (block_addr h pb) Own R"
    and out: "\<And>a. m a \<noteq> memory s a \<Longrightarrow> unowned h A a"
  shows "klive h (s\<lparr>memory := m\<rparr>) A" "process_space h A m pb tb c bd fs" "process_allocs h A m (block_addr h pb) Own R"
    "\<forall>w < 2 ^ 20. pte m (block_addr h bd) w = pte (memory s) (block_addr h bd) w"
proof -
  have same: "\<forall>e k a. A e = Some k \<longrightarrow> in_blocks h e k a \<longrightarrow> m a = memory s a" using out unfolding unowned_def by blast
  note f = process_space_frame[OF live sp same]
  show "klive h (s\<lparr>memory := m\<rparr>) A" by (rule klive_frame[OF live]) (use out in \<open>auto simp: unowned_def\<close>)
  show "process_space h A m pb tb c bd fs" "\<forall>w < 2 ^ 20. pte m (block_addr h bd) w = pte (memory s) (block_addr h bd) w"
    by (rule f(1), use f(2) in blast)
  show "process_allocs h A m (block_addr h pb) Own R" using al f(4,5) unfolding process_allocs_def by simp
qed

lemma terminate_step:
  fixes s :: "'a kstate_scheme"
  assumes live: "klive h s A" and top: "heap_below_top h" and sp: "process_space h A (memory s) pb tb c bd fs"
    and al: "process_allocs h A (memory s) (block_addr h pb) (set (pb # tb # c # bd # fs)) R" and nl: "null_harmless h A (memory s) n" and j: "j < 1024"
  shows "\<exists>m. process_free (block_addr h pb) (load32 (memory s) (allocation_at (block_addr h pb) j)) s = s\<lparr>memory := m\<rparr>
    \<and> klive h (s\<lparr>memory := m\<rparr>) (release A (R j)) \<and> process_space h (release A (R j)) m pb tb c bd fs
    \<and> process_allocs h (release A (R j)) m (block_addr h pb) (set (pb # tb # c # bd # fs)) (R(j := None))
    \<and> null_harmless h (release A (R j)) m n \<and> (\<forall>a. null_bytes h n a \<longrightarrow> m a = (if R j = None then 0 else memory s a))
    \<and> (\<forall>w < 2 ^ 20. pte m (block_addr h bd) w = (if covers h (R j) w then of_nat (4096 * w) else pte (memory s) (block_addr h bd) w))
    \<and> (\<forall>a. untouched h pb fs n a \<longrightarrow> m a = memory s a)"
proof (cases "R j")
  case None
  let ?p = "block_addr h pb"
  define m where "m = null_cleared h n (memory s)"
  have mn: "\<And>a. null_bytes h n a \<Longrightarrow> m a = 0" "\<And>a. \<not> null_bytes h n a \<Longrightarrow> m a = memory s a" by (simp_all add: m_def null_cleared_def)
  have z: "load32 (memory s) (allocation_at ?p k) = 0 \<Longrightarrow> load32 (memory s) (allocation_at ?p k + 4) = 0" if "k < 1024" for k
  proof (cases "R k")
    case None
    then show ?thesis using al that unfolding process_allocs_def by simp
  next
    case (Some x)
    obtain b sz where x: "x = (b, sz)" by (cases x)
    have "A b = Some (blocks_of sz)" "load32 (memory s) (allocation_at ?p k) = block_addr h b"
      using al that Some x unfolding process_allocs_def by auto
    then show "load32 (memory s) (allocation_at ?p k) = 0 \<Longrightarrow> load32 (memory s) (allocation_at ?p k + 4) = 0"
      using block_addr_nonzero[OF klive_block(1,2)[OF live]] by metis
  qed
  have p0: "load32 (memory s) (allocation_at ?p j) = 0" using al None j unfolding process_allocs_def by simp
  have eq: "process_free ?p (load32 (memory s) (allocation_at ?p j)) s = s\<lparr>memory := m\<rparr>"
    unfolding p0 m_def by (rule process_free_null[OF live sp nl j p0 z])
  have out: "unowned h A a" if "m a \<noteq> memory s a" for a using null_cleared_frame[OF nl, of a] that by (simp add: m_def)
  note f = space_clear[where m = m, OF live sp al out]
  have "null_harmless h A m n" unfolding m_def by (rule null_harmless_cleared[OF nl])
  moreover have "R(j := None) = R" using None by auto
  ultimately show ?thesis
    using eq f None mn by (intro exI[of _ m]) (auto simp: untouched_def)
next
  case (Some x)
  let ?p = "block_addr h pb"
  obtain b sz where x: "x = (b, sz)" by (cases x)
  have b: "A b = Some (blocks_of sz)" "0 < sz" "b \<notin> set (pb # tb # c # bd # fs)" "load32 (memory s) (allocation_at ?p j) = block_addr h b"
    using al Some x j unfolding process_allocs_def by auto
  obtain m where m: "process_free ?p (block_addr h b) s = s\<lparr>memory := m\<rparr>"
    "klive h (s\<lparr>memory := m\<rparr>) (A(b := None))" "process_space h (A(b := None)) m pb tb c bd fs"
    "\<forall>w < 2 ^ 20. pte m (block_addr h bd) w =
         (if page_of h b \<le> w \<and> w < page_of h b + blocks_of sz then of_nat (4096 * w) else pte (memory s) (block_addr h bd) w)"
    "recorded (memory s) ?p j 0 0 m"
    "\<forall>a. \<not> in_table h a \<longrightarrow> (\<forall>e \<in> set fs. \<not> in_blocks h e 1 a) \<longrightarrow> \<not> in_allocations ?p a \<longrightarrow> m a = memory s a"
    using process_free_ok[OF live top sp b(1-3) allocs_pointer[OF al live j Some[unfolded x]]] by blast
  have "A pb = Some 3" "\<forall>e \<in> set fs. A e = Some 1" using sp by (auto simp: process_space_def)
  then have nn: "m a = memory s a" if "null_bytes h n a" for a
    using m(6) nl that in_allocations_process[of h pb a] unfolding null_harmless_def null_apart_def unowned_def by blast
  then have "null_harmless h (A(b := None)) m n" by (rule null_harmless_kept[OF nl]) (auto split: if_splits)
  moreover have "process_allocs h (A(b := None)) m ?p (set (pb # tb # c # bd # fs)) (R(j := None))"
    using allocs_released[OF al j, of m] m(5) Some x by simp
  ultimately show ?thesis using m Some x b(4) nn by (intro exI[of _ m]) (auto simp: untouched_def)
qed

definition released :: "(nat \<rightharpoonup> nat) \<Rightarrow> (nat \<rightharpoonup> nat \<times> u32) \<Rightarrow> nat \<Rightarrow> nat \<rightharpoonup> nat" where
  "released A R n = (\<lambda>b. if \<exists>k < n. \<exists>sz. R k = Some (b, sz) then None else A b)"

definition slots_from :: "(nat \<rightharpoonup> nat \<times> u32) \<Rightarrow> nat \<Rightarrow> nat \<rightharpoonup> nat \<times> u32" where
  "slots_from R n = (\<lambda>k. if k < n then None else R k)"

lemma released_Suc: "released A R 0 = A" "release (released A R n) (R n) = released A R (Suc n)"
proof -
  show "release (released A R n) (R n) = released A R (Suc n)"
  proof (cases "R n")
    case (Some x)
    then show ?thesis by (cases x) (auto simp: released_def fun_eq_iff less_Suc_eq)
  qed (auto simp: released_def fun_eq_iff less_Suc_eq)
qed (simp add: released_def)

lemma slots_from_Suc: "slots_from R 0 = R" "slots_from R n n = R n" "(slots_from R n)(n := None) = slots_from R (Suc n)"
  by (auto simp: slots_from_def fun_eq_iff)

lemma terminate_slots:
  fixes s :: "'a kstate_scheme"
  assumes live: "klive h s A" and top: "heap_below_top h" and sp: "process_space h A (memory s) pb tb c bd fs"
    and al: "process_allocs h A (memory s) (block_addr h pb) (set (pb # tb # c # bd # fs)) R" and nl: "null_harmless h A (memory s) n" and l: "l \<le> 1024"
  shows "\<exists>m. fold (\<lambda>i s. process_free (block_addr h pb) (load32 (memory s) (allocation_at (block_addr h pb) i)) s) [0..<l] s = s\<lparr>memory := m\<rparr>
    \<and> klive h (s\<lparr>memory := m\<rparr>) (released A R l) \<and> process_space h (released A R l) m pb tb c bd fs
    \<and> process_allocs h (released A R l) m (block_addr h pb) (set (pb # tb # c # bd # fs)) (slots_from R l)
    \<and> null_harmless h (released A R l) m n \<and> (\<forall>a. null_bytes h n a \<longrightarrow> m a = (if \<exists>k < l. R k = None then 0 else memory s a))
    \<and> (\<forall>w < 2 ^ 20. pte m (block_addr h bd) w = (if \<exists>k < l. covers h (R k) w then of_nat (4096 * w) else pte (memory s) (block_addr h bd) w))
    \<and> (\<forall>a. untouched h pb fs n a \<longrightarrow> m a = memory s a)"
  using l
proof (induction l)
  case 0
  then show ?case using live sp al nl by (intro exI[of _ "memory s"]) (simp add: released_Suc slots_from_Suc)
next
  case (Suc l)
  let ?O = "set (pb # tb # c # bd # fs)" and ?p = "block_addr h pb"
  let ?f = "\<lambda>i s. process_free ?p (load32 (memory s) (allocation_at ?p i)) s"
  from Suc obtain m where m: "fold ?f [0..<l] s = s\<lparr>memory := m\<rparr>"
    "klive h (s\<lparr>memory := m\<rparr>) (released A R l)" "process_space h (released A R l) (memory (s\<lparr>memory := m\<rparr>)) pb tb c bd fs"
    "process_allocs h (released A R l) (memory (s\<lparr>memory := m\<rparr>)) ?p ?O (slots_from R l)" "null_harmless h (released A R l) (memory (s\<lparr>memory := m\<rparr>)) n"
    and z: "\<forall>a. null_bytes h n a \<longrightarrow> m a = (if \<exists>k < l. R k = None then 0 else memory s a)"
    and w: "\<forall>w < 2 ^ 20. pte m (block_addr h bd) w = (if \<exists>k < l. covers h (R k) w then of_nat (4096 * w) else pte (memory s) (block_addr h bd) w)"
    and fr: "\<forall>a. untouched h pb fs n a \<longrightarrow> m a = memory s a" by auto
  have l: "l < 1024" using Suc.prems by simp
  from terminate_step[OF m(2) top m(3,4,5) l] obtain m' where
    m': "?f l (s\<lparr>memory := m\<rparr>) = s\<lparr>memory := m'\<rparr>" "klive h (s\<lparr>memory := m'\<rparr>) (released A R (Suc l))"
    "process_space h (released A R (Suc l)) m' pb tb c bd fs" "process_allocs h (released A R (Suc l)) m' ?p ?O (slots_from R (Suc l))"
    "null_harmless h (released A R (Suc l)) m' n" "\<forall>a. null_bytes h n a \<longrightarrow> m' a = (if R l = None then 0 else m a)"
    "\<forall>w < 2 ^ 20. pte m' (block_addr h bd) w = (if covers h (R l) w then of_nat (4096 * w) else pte m (block_addr h bd) w)"
    "\<forall>a. untouched h pb fs n a \<longrightarrow> m' a = m a"
    unfolding slots_from_Suc released_Suc by (auto simp del: list.set cong: if_cong)
  have "fold ?f [0..<Suc l] s = s\<lparr>memory := m'\<rparr>" using m(1) m'(1) by simp
  moreover have "\<forall>w < 2 ^ 20. pte m' (block_addr h bd) w =
      (if \<exists>k < Suc l. covers h (R k) w then of_nat (4096 * w) else pte (memory s) (block_addr h bd) w)"
    using m'(7) w by (auto simp: less_Suc_eq)
  moreover have "\<forall>a. null_bytes h n a \<longrightarrow> m' a = (if \<exists>k < Suc l. R k = None then 0 else memory s a)"
    using m'(6) z by (auto simp: less_Suc_eq)
  ultimately show ?case using m'(2-5,8) fr by (intro exI[of _ m']) simp
qed

subsection \<open>Allocating and releasing\<close>

lemma malloc_allocs:
  assumes al: "process_allocs h A m p Own R" and i: "i < 1024" "R i = None" and b: "A b = None" "0 < sz" "b \<notin> Own"
    and rec: "recorded m p i (block_addr h b) sz m'"
  shows "process_allocs h (A(b \<mapsto> blocks_of sz)) m' p Own (R(i \<mapsto> (b, sz)))"
proof -
  have live: "A b' = Some (blocks_of sz')" "0 < sz'" "b' \<notin> Own" if "R j = Some (b', sz')" for j b' sz'
    using al that unfolding process_allocs_def by blast+
  then have ne: "b' \<noteq> b" if "R j = Some (b', sz')" for j b' sz' using that b(1) by auto
  have inj: "j = k" if "R j = Some (b', sz')" "R k = Some (b', sz'')" for j k b' sz' sz''
    using al that unfolding process_allocs_def by blast
  have "load32 m' (allocation_at p j) = (case (R(i \<mapsto> (b, sz))) j of None \<Rightarrow> 0 | Some (b, sz) \<Rightarrow> block_addr h b)
      \<and> load32 m' (allocation_at p j + 4) = (case (R(i \<mapsto> (b, sz))) j of None \<Rightarrow> 0 | Some (b, sz) \<Rightarrow> sz)" if "j < 1024" for j
    using rec al that unfolding recorded_def process_allocs_def by simp
  moreover have "(A(b \<mapsto> blocks_of sz)) b' = Some (blocks_of sz') \<and> 0 < sz' \<and> b' \<notin> Own" if "(R(i \<mapsto> (b, sz))) j = Some (b', sz')" for j b' sz'
    using that b live[of j b' sz'] ne[of j b' sz'] by (auto split: if_splits)
  moreover have "j = k" if "(R(i \<mapsto> (b, sz))) j = Some (b', sz')" "(R(i \<mapsto> (b, sz))) k = Some (b', sz'')" for j k b' sz' sz''
    using that inj[of j b' sz' k sz''] ne by (auto split: if_splits)
  ultimately show ?thesis unfolding process_allocs_def by blast
qed

lemma free_slot:
  assumes "process_allocs h A m p Own R" "klive h s A" "i < 1024" "R i = None" "\<And>j. j < i \<Longrightarrow> R j \<noteq> None"
  shows "free_allocation m p i"
proof -
  have "load32 m (allocation_at p j) \<noteq> 0" if j: "j < i" for j
  proof -
    obtain b sz where r: "R j = Some (b, sz)" using assms(5)[OF j] by (cases "R j") auto
    have "A b = Some (blocks_of sz)" "load32 m (allocation_at p j) = block_addr h b"
      using assms(1,3) j r unfolding process_allocs_def by auto
    then show ?thesis using block_addr_nonzero[OF klive_block(1,2)[OF assms(2)]] by simp
  qed
  then show ?thesis using assms(1,3,4) unfolding free_allocation_def process_allocs_def by simp
qed

lemma malloc_free_ok:
  fixes s :: "'a kstate_scheme"
  assumes live: "klive h s A" and top: "heap_below_top h" and sp: "process_space h A (memory s) pb tb c bd fs"
    and al: "process_allocs h A (memory s) (block_addr h pb) (set (pb # tb # c # bd # fs)) R"
    and i: "i < 1024" "R i = None" "\<And>j. j < i \<Longrightarrow> R j \<noteq> None"
    and sz: "0 < sz" "unat sz \<le> 2 ^ 32 - 4096" and fit: "fits (unused A) (nblocks h) (blocks_of sz) b\<^sub>0"
  shows "\<exists>b s1 m. process_malloc (block_addr h pb) sz s = (block_addr h b, s1)
    \<and> process_free (block_addr h pb) (block_addr h b) s1 = s\<lparr>memory := m\<rparr>
    \<and> klive h (s\<lparr>memory := m\<rparr>) A \<and> process_space h A m pb tb c bd fs
    \<and> process_allocs h A m (block_addr h pb) (set (pb # tb # c # bd # fs)) R
    \<and> (\<forall>w < 2 ^ 20. pte m (block_addr h bd) w =
         (if page_of h b \<le> w \<and> w < page_of h b + blocks_of sz then of_nat (4096 * w) else pte (memory s) (block_addr h bd) w))
    \<and> (\<forall>e k a. A e = Some k \<longrightarrow> e \<notin> set (pb # fs) \<longrightarrow> in_blocks h e k a \<longrightarrow> m a = memory s a)"
proof -
  let ?p = "block_addr h pb" and ?O = "set (pb # tb # c # bd # fs)" and ?n = "blocks_of sz"
  obtain b m1 where ma: "process_malloc ?p sz s = (block_addr h b, s\<lparr>memory := m1\<rparr>)" "fits (unused A) (nblocks h) ?n b"
    "klive h (s\<lparr>memory := m1\<rparr>) (A(b \<mapsto> ?n))" "process_space h (A(b \<mapsto> ?n)) (memory (s\<lparr>memory := m1\<rparr>)) pb tb c bd fs"
    "\<forall>w < 2 ^ 20. pte m1 (block_addr h bd) w = (if page_of h b \<le> w \<and> w < page_of h b + ?n then of_nat (4096 * w) OR 7
          else pte (memory s) (block_addr h bd) w)"
    "recorded (memory s) ?p i (block_addr h b) sz m1"
    "\<forall>e k a. A e = Some k \<longrightarrow> e \<notin> set (pb # fs) \<longrightarrow> in_blocks h e k a \<longrightarrow> m1 a = memory s a"
    using process_malloc_ok[OF live top sp sz fit free_slot[OF al live i]] by auto
  let ?s1 = "s\<lparr>memory := m1\<rparr>" and ?A = "A(b \<mapsto> ?n)"
  have new: "A b = None" using kz.fits_unused_None[OF live ma(2) blocks_of_pos[OF sz(1)]] .
  have own: "b \<notin> ?O" using sp new by (auto simp: process_space_def)
  have al1: "process_allocs h ?A (memory ?s1) ?p ?O (R(i \<mapsto> (b, sz)))" using malloc_allocs[OF al i(1,2) new sz(1) own ma(6)] by simp
  have ri: "(R(i \<mapsto> (b, sz))) i = Some (b, sz)" and Ab: "?A b = Some ?n" by simp_all
  obtain m where fr: "process_free ?p (block_addr h b) ?s1 = ?s1\<lparr>memory := m\<rparr>"
    "klive h (?s1\<lparr>memory := m\<rparr>) (?A(b := None))" "process_space h (?A(b := None)) m pb tb c bd fs"
    "\<forall>w < 2 ^ 20. pte m (block_addr h bd) w = (if page_of h b \<le> w \<and> w < page_of h b + ?n then of_nat (4096 * w) else pte m1 (block_addr h bd) w)"
    "recorded m1 ?p i 0 0 m"
    "\<forall>a. \<not> in_table h a \<longrightarrow> (\<forall>e \<in> set fs. \<not> in_blocks h e 1 a) \<longrightarrow> \<not> in_allocations ?p a \<longrightarrow> m a = m1 a"
    using process_free_ok[where A = ?A and b = b, OF ma(3) top ma(4) Ab sz(1) own allocs_pointer[OF al1 ma(3) i(1) ri]]
    by (auto cong: if_cong)
  have A: "?A(b := None) = A" using new by auto
  have "process_allocs h (release ?A ((R(i \<mapsto> (b, sz))) i)) m ?p ?O ((R(i \<mapsto> (b, sz)))(i := None))"
    using allocs_released[OF al1 i(1), of m] fr(5) by simp
  moreover have "(R(i \<mapsto> (b, sz)))(i := None) = R" using i(2) by auto
  ultimately have al2: "process_allocs h A m ?p ?O R" using A by simp
  have "m a = memory s a" if e: "A e = Some k" "e \<notin> set (pb # fs)" "in_blocks h e k a" for e k a
  proof -
    have P: "A pb = Some 3" "\<forall>x \<in> set fs. A x = Some 1" using sp by (auto simp: process_space_def)
    have "\<not> in_table h a" using blocks_not_in_table[OF klive_block(1,3,4)[OF live e(1)] e(3)] .
    moreover have "\<not> in_blocks h pb 3 a" using klive_apart[OF live e(1) P(1) _ e(3)] e(2) by auto
    moreover have "\<not> in_blocks h x 1 a" if "x \<in> set fs" for x using klive_apart[OF live e(1) _ _ e(3), of x 1] P(2) e(2) that by auto
    ultimately show ?thesis using fr(6) ma(7) e in_allocations_process by auto
  qed
  then show ?thesis using ma(1) fr(1-3) al2 fr(4) ma(5) unfolding A by (intro exI[of _ b] exI[of _ ?s1] exI[of _ m]) simp
qed

subsection \<open>The round trip and the end of a process\<close>

text \<open>
  C21.  Allocating and releasing is a round trip: \<^verbatim>\<open>process_free\<close> of what \<^verbatim>\<open>process_malloc\<close> handed out gives the blocks back to the heap and
  the slot back to the process's table, takes the pages away from the program and leaves every other live object as it was
  before the allocation.
\<close>

theorem process_malloc_free_roundtrip:
  fixes s :: "'a kstate_scheme"
  assumes "klive h s A" "heap_below_top h" "process_space h A (memory s) pb tb c bd fs"
    and "process_allocs h A (memory s) (block_addr h pb) (set (pb # tb # c # bd # fs)) R"
    and "i < 1024" "R i = None" "\<And>j. j < i \<Longrightarrow> R j \<noteq> None"
    and "0 < sz" "unat sz \<le> 2 ^ 32 - 4096" "fits (unused A) (nblocks h) (blocks_of sz) b\<^sub>0"
  shows "\<exists>b s1 m. process_malloc (block_addr h pb) sz s = (block_addr h b, s1)
    \<and> process_free (block_addr h pb) (block_addr h b) s1 = s\<lparr>memory := m\<rparr>
    \<and> klive h (s\<lparr>memory := m\<rparr>) A \<and> process_space h A m pb tb c bd fs
    \<and> process_allocs h A m (block_addr h pb) (set (pb # tb # c # bd # fs)) R
    \<and> (\<forall>w < 2 ^ 20. pte m (block_addr h bd) w =
         (if page_of h b \<le> w \<and> w < page_of h b + blocks_of sz then of_nat (4096 * w) else pte (memory s) (block_addr h bd) w))
    \<and> (\<forall>e k a. A e = Some k \<longrightarrow> e \<notin> set (pb # fs) \<longrightarrow> in_blocks h e k a \<longrightarrow> m a = memory s a)"
  using assms by (rule malloc_free_ok)

lemma no_allocs:
  assumes "\<And>off. 136 \<le> off \<Longrightarrow> off + 4 \<le> 8328 \<Longrightarrow> load32 m (p + of_nat off) = 0"
  shows "process_allocs h A m p Own Map.empty"
proof -
  have "load32 m (allocation_at p j) = 0 \<and> load32 m (allocation_at p j + 4) = 0" if "j < 1024" for j
    using assms[of "136 + 8 * j"] assms[of "140 + 8 * j"] that by (simp add: algebra_simps)
  then show ?thesis by (simp add: process_allocs_def)
qed

theorem process_malloc_free_roundtrip_witness:
  "\<exists>(s :: kstate) A pb b s1 m. klive kernel_heap_layout s A
     \<and> process_malloc (block_addr kernel_heap_layout pb) 100 s = (block_addr kernel_heap_layout b, s1)
     \<and> process_free (block_addr kernel_heap_layout pb) (block_addr kernel_heap_layout b) s1 = s\<lparr>memory := m\<rparr>
     \<and> klive kernel_heap_layout (s\<lparr>memory := m\<rparr>) A"
proof -
  let ?h = kernel_heap_layout
  obtain s A pb tb c bd fs b\<^sub>0 where p: "klive ?h (s :: kstate) A" "process_space ?h A (memory s) pb tb c bd fs"
    "fits (unused A) (nblocks ?h) 1 b\<^sub>0" and z: "\<And>off. 136 \<le> off \<Longrightarrow> off + 4 \<le> 9384 \<Longrightarrow> load32 (memory s) (block_addr ?h pb + of_nat off) = 0"
    by (rule some_process, rule that)
  have "blocks_of 100 = 1" by (simp add: blocks_of_def)
  then have fit: "fits (unused A) (nblocks ?h) (blocks_of 100) b\<^sub>0" using p(3) by simp
  have na: "process_allocs ?h A (memory s) (block_addr ?h pb) (set (pb # tb # c # bd # fs)) Map.empty" by (rule no_allocs) (rule z, simp_all)
  have "(0 :: nat) < 1024" "(Map.empty :: nat \<rightharpoonup> nat \<times> u32) 0 = None" "0 < (100 :: u32)" "unat (100 :: u32) \<le> 2 ^ 32 - 4096" by simp_all
  from process_malloc_free_roundtrip[OF p(1) kernel_heap_below_top p(2) na this(1,2) _ this(3,4) fit]
  show ?thesis using p(1) by blast
qed

text \<open>
  C22.  \<^verbatim>\<open>process_terminate_allocations\<close> releases every allocation of the process: the blocks go back to the heap, all slots are
  empty, the pages are no longer mapped for the program, and the process and the other objects keep their contents.  It also
  frees the empty slots, if there are any, and \<open>kfree(NULL)\<close> then clears the bytes from \<open>null_entry\<close> (0x6E00 for the kernel's
  heap, in front of the heap's table) up to the first one whose top bit is clear: \<open>n\<close> bytes with the bit and that one.  The
  kernel never initialises these bytes; the theorem assumes that such a byte comes before the table and before every live
  object (\<open>null_run\<close>, \<open>null_apart\<close>).
\<close>

theorem process_terminate_allocations_releases:
  fixes s :: "'a kstate_scheme"
  assumes "klive h s A" "heap_below_top h" "process_space h A (memory s) pb tb c bd fs"
    and "process_allocs h A (memory s) (block_addr h pb) (set (pb # tb # c # bd # fs)) R"
    and "null_run h (memory s) n" "null_apart h A n" "\<And>k. 1024 \<le> k \<Longrightarrow> R k = None"
  shows "\<exists>m. process_terminate_allocations (block_addr h pb) s = (0, s\<lparr>memory := m\<rparr>)
    \<and> klive h (s\<lparr>memory := m\<rparr>) (released A R 1024) \<and> process_space h (released A R 1024) m pb tb c bd fs
    \<and> process_allocs h (released A R 1024) m (block_addr h pb) (set (pb # tb # c # bd # fs)) Map.empty
    \<and> (\<forall>a. null_bytes h n a \<longrightarrow> m a = (if \<exists>k < 1024. R k = None then 0 else memory s a))
    \<and> (\<forall>w < 2 ^ 20. pte m (block_addr h bd) w = (if \<exists>k < 1024. covers h (R k) w then of_nat (4096 * w) else pte (memory s) (block_addr h bd) w))
    \<and> (\<forall>a. untouched h pb fs n a \<longrightarrow> m a = memory s a)"
proof -
  have all: "slots_from R 1024 = Map.empty" using assms(7) by (auto simp: slots_from_def fun_eq_iff not_less)
  from terminate_slots[OF assms(1-4) null_run_harmless[OF assms(5,6)] order_refl] show ?thesis
    unfolding process_terminate_allocations_def all by (elim exE conjE, intro exI conjI) (simp_all only: simp_thms)
qed

lemma kernel_null_entry:
  "null_entry kernel_heap_layout = 0x6E00" "heap_address_to_block kernel_heap_layout 0 < sint (total_entries (heap_tab kernel_heap_layout))"
  by (simp_all add: null_entry_def heap_address_to_block_def kernel_heap_layout_def)

lemma low_unowned:
  assumes "klive kernel_heap_layout s A" "unat a < 0x7E00"
  shows "unowned kernel_heap_layout A a"
proof -
  have "\<not> in_table kernel_heap_layout a" using assms(2) by (simp add: in_table_iff kernel_heap_layout_wf) (simp add: kernel_heap_layout_def)
  moreover have "\<not> in_blocks kernel_heap_layout e n a" if "A e = Some n" for e n
    using assms(2) in_blocks_iff[OF klive_block(1,3,4)[OF assms(1) that], of a] by (simp add: kernel_heap_layout_def)
  ultimately show ?thesis by (simp add: unowned_def)
qed

text \<open>In the kernel's layout any run that ends before the heap's table at 0x7E00 is apart from all objects.\<close>

lemma kernel_null_apart:
  assumes "klive kernel_heap_layout s A" "n < 4096"
  shows "null_apart kernel_heap_layout A n"
  unfolding null_apart_def null_bytes_def kernel_null_entry(1)
  using low_unowned[OF assms(1)] assms(2) by (auto simp: in_region_iff_nat)

theorem process_terminate_allocations_releases_witness:
  "\<exists>(s :: kstate) A pb b m. klive kernel_heap_layout s (A(b \<mapsto> 1)) \<and> A b = None \<and> memory s 0x6E01 = 0x80
     \<and> process_terminate_allocations (block_addr kernel_heap_layout pb) s = (0, s\<lparr>memory := m\<rparr>)
     \<and> klive kernel_heap_layout (s\<lparr>memory := m\<rparr>) A \<and> m 0x6E01 = 0"
proof -
  let ?h = kernel_heap_layout
  obtain s A pb tb c bd fs b\<^sub>0 where p: "klive ?h (s :: kstate) A" "process_space ?h A (memory s) pb tb c bd fs"
    "fits (unused A) (nblocks ?h) 1 b\<^sub>0" and z: "\<And>off. 136 \<le> off \<Longrightarrow> off + 4 \<le> 9384 \<Longrightarrow> load32 (memory s) (block_addr ?h pb + of_nat off) = 0"
    by (rule some_process, rule that)
  let ?O = "set (pb # tb # c # bd # fs)" and ?p = "block_addr ?h pb"
  have one: "blocks_of 100 = 1" and sz: "0 < (100 :: u32)" "unat (100 :: u32) \<le> 2 ^ 32 - 4096" by (simp_all add: blocks_of_def)
  have fit: "fits (unused A) (nblocks ?h) (blocks_of 100) b\<^sub>0" using p(3) by (simp add: one)
  have free: "free_allocation (memory s) ?p 0" using z[of 136] by (simp add: free_allocation_def)
  obtain b m1 where r: "fits (unused A) (nblocks ?h) 1 b" "klive ?h (s\<lparr>memory := m1\<rparr>) (A(b \<mapsto> 1))"
    "process_space ?h (A(b \<mapsto> 1)) (memory (s\<lparr>memory := m1\<rparr>)) pb tb c bd fs" "recorded (memory s) ?p 0 (block_addr ?h b) 100 m1"
    using process_malloc_ok[OF p(1) kernel_heap_below_top p(2) sz fit free] unfolding one by auto
  define m2 where "m2 = m1(0x6E00 := 0x80, 0x6E01 := 0x80, 0x6E02 := 0)"
  let ?A = "A(b \<mapsto> 1)" and ?R = "[0 \<mapsto> (b, 100)] :: nat \<rightharpoonup> nat \<times> u32" and ?s = "s\<lparr>memory := m2\<rparr>"
  have new: "A b = None" using kz.fits_unused_None[OF p(1) r(1)] by simp
  have own: "b \<notin> ?O" using p(2) new by (auto simp: process_space_def)
  have na: "process_allocs ?h A (memory s) ?p ?O Map.empty" by (rule no_allocs) (rule z, simp_all)
  have al: "process_allocs ?h ?A (memory (s\<lparr>memory := m1\<rparr>)) ?p ?O ?R"
    using malloc_allocs[where i = 0 and R = Map.empty and p = ?p, OF na _ _ new sz(1) own r(4)] by (simp add: one del: list.set)
  have out: "unowned ?h ?A a" if "m2 a \<noteq> memory (s\<lparr>memory := m1\<rparr>) a" for a
    by (rule low_unowned[OF r(2)]) (use that in \<open>auto simp: m2_def split: if_splits\<close>)
  note c = space_clear[where A = ?A, OF r(2,3) al out]
  have c': "klive ?h ?s ?A" "process_space ?h ?A (memory ?s) pb tb c bd fs" "process_allocs ?h ?A (memory ?s) ?p ?O ?R" using c(1-3) by simp_all
  have run: "null_run ?h (memory ?s) 2"
    by (auto simp: null_run_def kernel_null_entry less_2_cases_iff m2_def) (simp add: heap_address_to_block_def kernel_heap_layout_def)
  have apart: "null_apart ?h ?A 2" by (rule kernel_null_apart[OF c'(1)]) simp
  have rest: "?R k = None" if "1024 \<le> k" for k using that by simp
  obtain m where m: "process_terminate_allocations ?p ?s = (0, ?s\<lparr>memory := m\<rparr>)" "klive ?h (?s\<lparr>memory := m\<rparr>) (released ?A ?R 1024)"
    "\<forall>a. null_bytes ?h 2 a \<longrightarrow> m a = (if \<exists>k < 1024. ?R k = None then 0 else memory ?s a)"
    by (rule exE[OF process_terminate_allocations_releases[OF c'(1) kernel_heap_below_top c'(2,3) run apart rest]], assumption, elim conjE, rule that)
  have "null_bytes ?h 2 0x6E01" "?R 1 = None" by (simp_all add: null_bytes_def kernel_null_entry in_region_def)
  then have "m 0x6E01 = 0" using m(3) by (metis one_less_numeral_iff semiring_norm(76))
  moreover have "released ?A ?R 1024 = A" using new by (auto simp: released_def fun_eq_iff)
  moreover have "memory ?s 0x6E01 = 0x80" by (simp add: m2_def)
  ultimately show ?thesis using m(1,2) c'(1) new by (intro exI[of _ ?s] exI[of _ A] exI[of _ pb] exI[of _ b] exI[of _ m]) simp
qed

end
