(* ===== verification/ProcessExit.thy ===== *)
theory ProcessExit
  imports ProcessRelease SchedulerRuns
begin

text \<open>
  The end of a process: \<^verbatim>\<open>process_terminate\<close> of \<^verbatim>\<open>src/src/task/process.c\<close> composes the release of the allocations, of the program's data
  and stack, the end of its task and the removal from the process table, on top of the invariant of the scheduler.
\<close>

subsection \<open>The invariant of the scheduler under releases\<close>

lemma inv_frame:
  fixes s :: "('d, 'a) tstate_scheme"
  assumes inv: "sched_inv h A s os q" and live: "klive h (s\<lparr>memory := m\<rparr>) (with_pages A' (set (owned_pages os)))"
    and none: "\<And>x. x \<in> set (owned_pages os) \<Longrightarrow> A' x = None" and own: "\<And>ow. ow \<in> set os \<Longrightarrow> owns h m ow"
    and tasks: "\<And>ow a. ow \<in> set os \<Longrightarrow> in_blocks h (fst ow) 1 a \<Longrightarrow> m a = memory s a"
  shows "sched_inv h A' (s\<lparr>memory := m\<rparr>) os q"
proof -
  have rq: "run_queue s (map (task_of h) os) q" and dist: "distinct (owned_pages os)" using inv by (simp_all add: sched_inv_def)
  have "run_queue (s\<lparr>memory := m\<rparr>) (map (task_of h) os) q"
  proof (rule run_queue_cong[OF rq])
    fix t assume "t \<in> set (map (task_of h) os)"
    then obtain ow where ow: "ow \<in> set os" "t = task_of h ow" unfolding set_map by blast
    have "m a = memory s a" if "in_region (t + 52) 8 a" for a using tasks[OF ow(1)] link_bytes(2)[OF ow(1)] that ow(2) by blast
    then show "task_next_of (memory (s\<lparr>memory := m\<rparr>)) t = task_next_of (memory s) t
      \<and> task_prev_of (memory (s\<lparr>memory := m\<rparr>)) t = task_prev_of (memory s) t" using link_cells[of t m "memory s"] by simp
  qed simp_all
  then show ?thesis using live dist none own by (simp add: sched_inv_def)
qed

lemma inv_same:
  fixes s :: "('d, 'a) tstate_scheme"
  assumes inv: "sched_inv h A s os q" and live: "klive h (s\<lparr>memory := m\<rparr>) (with_pages A' (set (owned_pages os)))"
    and none: "\<And>x. x \<in> set (owned_pages os) \<Longrightarrow> A' x = None"
    and same: "\<And>x a. x \<in> set (owned_pages os) \<Longrightarrow> in_blocks h x 1 a \<Longrightarrow> m a = memory s a"
  shows "sched_inv h A' (s\<lparr>memory := m\<rparr>) os q"
proof -
  have P: "m a = memory s a" if "ow \<in> set os" "x \<in> set (pages_of ow)" "in_blocks h x 1 a" for ow x a
    using same that unfolding owned_pages_def set_concat set_map by blast
  show ?thesis
  proof (rule inv_frame[OF inv live none])
    show "owns h m ow" if ow: "ow \<in> set os" for ow
    proof (rule owns_cong)
      show "klive h s (with_pages A (set (owned_pages os)))" "owns h (memory s) ow" using inv ow by (auto simp: sched_inv_def)
      show "\<forall>x \<in> set (pages_of ow). with_pages A (set (owned_pages os)) x = Some 1" using inv_live(1)[OF inv ow] by blast
      show "m a = memory s a" if "in_region (task_of h ow) 4 a" for a
        using P[OF ow fst_in_pages] that by (simp add: in_blocks_def in_region_def)
      show "m a = memory s a" if "x \<in> set (tl (pages_of ow))" "in_blocks h x 1 a" for x a
        using P[OF ow _ that(2)] that(1) by (cases ow) auto
    qed
  qed (use P fst_in_pages in blast)+
qed

lemma inv_kfree:
  fixes s :: "('d, 'a) tstate_scheme"
  assumes inv: "sched_inv h A s os q" and b: "A b = Some n"
  obtains m where "kfree (block_addr h b) s = s\<lparr>memory := m\<rparr>" "sched_inv h (A(b := None)) (s\<lparr>memory := m\<rparr>) os q"
    "\<And>a. \<not> in_table h a \<Longrightarrow> m a = memory s a"
proof -
  let ?P = "with_pages A (set (owned_pages os))"
  have live: "klive h s ?P" and none: "\<forall>x \<in> set (owned_pages os). A x = None" using inv by (simp_all add: sched_inv_def)
  have Pb: "?P b = Some n" by (rule inv_live(2)[OF inv b])
  obtain m where m: "kfree (block_addr h b) s = s\<lparr>memory := m\<rparr>" using kfree_memory_only by blast
  have "b \<notin> set (owned_pages os)" using none b by auto
  then have "?P(b := None) = with_pages (A(b := None)) (set (owned_pages os))" by (auto simp: with_pages_def fun_eq_iff)
  then have live': "klive h (s\<lparr>memory := m\<rparr>) (with_pages (A(b := None)) (set (owned_pages os)))"
    using kz.free_live[OF live Pb] m by simp
  have out: "m a = memory s a" if "\<not> in_table h a" for a
    using kfree_ok(2)[of s ?P b n a] live Pb that m by (simp add: klive_def)
  have same: "m a = memory s a" if "x \<in> set (owned_pages os)" "in_blocks h x 1 a" for x a
  proof -
    have "?P x = Some 1" using that(1) by (simp add: with_pages_def)
    then show ?thesis using out blocks_not_in_table[OF klive_block(1,3,4)[OF live] that(2)] by blast
  qed
  have "sched_inv h (A(b := None)) (s\<lparr>memory := m\<rparr>) os q" by (rule inv_same[OF inv live' _ same]) (use none in auto)
  then show thesis using that[OF m] out by blast
qed

lemma inv_unowned:
  fixes s :: "('d, 'a) tstate_scheme"
  assumes inv: "sched_inv h A s os q" and out: "\<And>a. m a \<noteq> memory s a \<Longrightarrow> unowned h (with_pages A (set (owned_pages os))) a"
  shows "sched_inv h A (s\<lparr>memory := m\<rparr>) os q"
proof (rule inv_same[OF inv])
  have live: "klive h s (with_pages A (set (owned_pages os)))" using inv by (simp add: sched_inv_def)
  show "klive h (s\<lparr>memory := m\<rparr>) (with_pages A (set (owned_pages os)))"
    by (rule klive_frame[OF live]) (use out in \<open>auto simp: unowned_def\<close>)
  show "m a = memory s a" if "x \<in> set (owned_pages os)" "in_blocks h x 1 a" for x a
  proof -
    have "with_pages A (set (owned_pages os)) x = Some 1" using that(1) by (simp add: with_pages_def)
    then show ?thesis using out[of a] that(2) unfolding unowned_def by blast
  qed
  show "A x = None" if "x \<in> set (owned_pages os)" for x using inv that by (simp add: sched_inv_def)
qed

lemma owned_pages_apart:
  assumes "distinct (owned_pages os)" "ow \<in> set os" "o' \<in> set os" "o' \<noteq> ow" "x \<in> set (pages_of ow)" "y \<in> set (pages_of o')"
  shows "x \<noteq> y"
proof -
  obtain us vs where os: "os = us @ ow # vs" using split_list[OF assms(2)] by blast
  have "o' \<in> set us \<union> set vs" using assms(3,4) by (auto simp: os)
  then have "y \<in> set (owned_pages us) \<union> set (owned_pages vs)" using assms(6) unfolding owned_pages_def set_concat set_map by blast
  then show ?thesis using assms(1,5) by (auto simp: os)
qed

subsection \<open>The parts of a process\<close>

text \<open>
  A loaded process: its struct in the three blocks at \<open>pb\<close>, its task at \<open>tb\<close>, its stack in the blocks at \<open>sb\<close>, its program in the
  blocks \<open>ds\<close> (the data of a flat binary, or the image of an ELF file and the \<^verbatim>\<open>struct elf_file\<close> that holds it), its allocations in
  \<open>R\<close>.  All are allocations of their own.
\<close>

definition program_data :: "heap \<Rightarrow> mem \<Rightarrow> u32 \<Rightarrow> nat list \<Rightarrow> bool" where
  "program_data h m p ds \<longleftrightarrow>
     (case ds of
        [db] \<Rightarrow> process_filetype m p = PROCESS_FILETYPE_BINARY \<and> load32 m (p + 8332) = block_addr h db
      | [ib, eb] \<Rightarrow> process_filetype m p = PROCESS_FILETYPE_ELF \<and> process_elf_file m p = block_addr h eb
          \<and> load32 m (block_addr h eb + 132) = block_addr h ib
      | _ \<Rightarrow> False)"

definition loaded :: "heap \<Rightarrow> (nat \<rightharpoonup> nat) \<Rightarrow> mem \<Rightarrow> nat \<Rightarrow> nat \<Rightarrow> nat \<Rightarrow> nat list \<Rightarrow> (nat \<rightharpoonup> nat \<times> u32) \<Rightarrow> bool" where
  "loaded h A m pb tb sb ds R \<longleftrightarrow> A pb = Some 3 \<and> process_task m (block_addr h pb) = block_addr h tb
     \<and> load32 m (block_addr h pb + 8336) = block_addr h sb \<and> program_data h m (block_addr h pb) ds
     \<and> distinct (pb # sb # ds) \<and> (\<forall>x \<in> set (sb # ds). A x \<noteq> None)
     \<and> process_allocs h A m (block_addr h pb) (set (pb # sb # ds)) R"

lemma allocs_mono:
  assumes "process_allocs h A m p Own R" "\<And>e n. A e = Some n \<Longrightarrow> B e = Some n" "\<And>x. x \<in> Own' \<Longrightarrow> x \<in> Own \<or> A x = None"
  shows "process_allocs h B m p Own' R"
proof -
  have "B b = Some (blocks_of sz) \<and> 0 < sz \<and> b \<notin> Own'" if "R j = Some (b, sz)" for j b sz
  proof -
    have "A b = Some (blocks_of sz)" "0 < sz" "b \<notin> Own" using assms(1) that unfolding process_allocs_def by blast+
    then show ?thesis using assms(2)[of b] assms(3)[of b] by auto
  qed
  then show ?thesis using assms(1) unfolding process_allocs_def by blast
qed

lemma released_pages:
  assumes "process_allocs h A m p Own R" "\<And>x. x \<in> X \<Longrightarrow> A x = None"
  shows "released (with_pages A X) R n = with_pages (released A R n) X"
proof -
  have "x \<notin> X" if "R k = Some (x, sz)" for k x sz
  proof -
    have "A x = Some (blocks_of sz)" using assms(1) that unfolding process_allocs_def by blast
    then show ?thesis using assms(2)[of x] by auto
  qed
  then show ?thesis by (auto simp: released_def with_pages_def fun_eq_iff)
qed

lemma inv_allocations:
  fixes s :: "('d, 'a) tstate_scheme"
  assumes inv: "sched_inv h A s (xs @ (tb, c, bd, fs) # ys) q" and top: "heap_below_top h"
    and ld: "loaded h A (memory s) pb tb sb ds R"
    and nl: "null_harmless h (with_pages A (set (owned_pages (xs @ (tb, c, bd, fs) # ys)))) (memory s) nr"
  obtains m where "process_terminate_allocations (block_addr h pb) s = (0, s\<lparr>memory := m\<rparr>)"
    "sched_inv h (released A R 1024) (s\<lparr>memory := m\<rparr>) (xs @ (tb, c, bd, fs) # ys) q" "\<And>a. untouched h pb fs nr a \<Longrightarrow> m a = memory s a"
    "\<And>x a. x \<in> set (owned_pages (xs @ (tb, c, bd, fs) # ys)) \<Longrightarrow> x \<notin> set fs \<Longrightarrow> in_blocks h x 1 a \<Longrightarrow> m a = memory s a"
proof -
  let ?os = "xs @ (tb, c, bd, fs) # ys" and ?p = "block_addr h pb"
  let ?P = "with_pages A (set (owned_pages ?os))"
  have live: "klive h s ?P" and dist: "distinct (owned_pages ?os)" and none: "\<And>x. x \<in> set (owned_pages ?os) \<Longrightarrow> A x = None"
    and own: "load32 (memory s) (block_addr h tb) = block_addr h c" "chunk_pages h (memory s) c bd fs"
    using inv by (auto simp: sched_inv_def)
  have l: "A pb = Some 3" "process_task (memory s) ?p = block_addr h tb" "process_allocs h A (memory s) ?p (set (pb # sb # ds)) R"
    using ld by (simp_all add: loaded_def)
  have P: "?P pb = Some 3" using inv_live(2)[OF inv l(1)] .
  have pgs: "?P x = Some 1" if "x \<in> set (tb # c # bd # fs)" for x using that by (auto simp: with_pages_def)
  have sp: "process_space h ?P (memory s) pb tb c bd fs"
    using P pgs l(2) own dist unfolding process_space_def by auto
  have al: "process_allocs h ?P (memory s) ?p (set (pb # tb # c # bd # fs)) R"
    by (rule allocs_mono[OF l(3)]) (use inv_live(2)[OF inv] none in auto)
  obtain m where m: "process_terminate_allocations ?p s = (0, s\<lparr>memory := m\<rparr>)" "klive h (s\<lparr>memory := m\<rparr>) (released ?P R 1024)"
    "process_space h (released ?P R 1024) m pb tb c bd fs" "\<forall>a. untouched h pb fs nr a \<longrightarrow> m a = memory s a"
    using terminate_slots[OF live top sp al nl order_refl] unfolding process_terminate_allocations_def by auto
  have rel: "released ?P R 1024 = with_pages (released A R 1024) (set (owned_pages ?os))" by (rule released_pages[OF l(3) none])
  have page: "m a = memory s a" if x: "x \<in> set (owned_pages ?os)" "x \<notin> set fs" "in_blocks h x 1 a" for x a
  proof -
    have Px: "?P x = Some 1" using x(1) by (simp add: with_pages_def)
    have "\<not> in_table h a" using blocks_not_in_table[OF klive_block(1,3,4)[OF live Px] x(3)] .
    moreover have "\<not> in_blocks h e 1 a" if "e \<in> set fs" for e
      using klive_apart[OF live Px pgs[of e] _ x(3)] x(2) that by auto
    moreover have "x \<noteq> pb" using none[OF x(1)] l(1) by auto
    then have "\<not> in_blocks h pb 3 a" using klive_apart[OF live Px P _ x(3)] by blast
    moreover have "\<not> null_bytes h nr a" using nl Px x(3) unfolding null_harmless_def null_apart_def unowned_def by blast
    ultimately show ?thesis using m(4) in_allocations_process unfolding untouched_def by blast
  qed
  have "sched_inv h (released A R 1024) (s\<lparr>memory := m\<rparr>) ?os q"
  proof (rule inv_frame[OF inv])
    show "klive h (s\<lparr>memory := m\<rparr>) (with_pages (released A R 1024) (set (owned_pages ?os)))" using m(2) rel by simp
    show "released A R 1024 x = None" if "x \<in> set (owned_pages ?os)" for x using none[OF that] by (simp add: released_def)
    show "m a = memory s a" if "ow \<in> set ?os" "in_blocks h (fst ow) 1 a" for ow a
    proof -
      have "fst ow \<in> set (owned_pages ?os)" using that(1) fst_in_pages[of ow] unfolding owned_pages_def set_concat set_map by blast
      moreover have "fst ow \<notin> set fs" using tables_not_tasks[OF dist _ that(1), of "(tb, c, bd, fs)"] by auto
      ultimately show ?thesis using page that(2) by blast
    qed
    show "owns h m ow" if ow: "ow \<in> set ?os" for ow
    proof (cases "ow = (tb, c, bd, fs)")
      case True
      then show ?thesis using m(3) by (simp add: process_space_def)
    next
      case False
      have Pw: "\<forall>x \<in> set (pages_of ow). ?P x = Some 1" using inv_live(1)[OF inv ow] by blast
      have other: "m a = memory s a" if "x \<in> set (pages_of ow)" "in_blocks h x 1 a" for x a
      proof -
        have "ow \<in> set xs \<or> ow \<in> set ys" using ow False by auto
        then have "x \<in> set (owned_pages xs) \<or> x \<in> set (owned_pages ys)"
          using that(1) unfolding owned_pages_def set_concat set_map by blast
        then have "x \<in> set (owned_pages ?os)" "x \<notin> set fs" using dist by auto
        then show ?thesis using page that(2) by blast
      qed
      have "owns h (memory s) ow" using inv ow unfolding sched_inv_def by blast
      then show ?thesis
      proof (rule owns_cong[OF live _ Pw])
        show "m a = memory s a" if "in_region (task_of h ow) 4 a" for a
          using other[OF fst_in_pages] that by (simp add: in_blocks_def in_region_def)
        show "m a = memory s a" if "x \<in> set (tl (pages_of ow))" "in_blocks h x 1 a" for x a
          using other[OF _ that(2)] that(1) by (cases ow) auto
      qed
    qed
  qed
  then show thesis by (rule that[OF m(1)]) (use m(4) page in blast)+
qed

subsection \<open>The program and the stack\<close>

lemma inv_program_data:
  fixes s :: "('d, 'a) tstate_scheme"
  assumes inv: "sched_inv h A s os q" and dat: "program_data h (memory s) p ds" and ds: "distinct ds" "\<forall>x \<in> set ds. A x \<noteq> None"
  obtains m where "process_free_program_data p s = (0, s\<lparr>memory := m\<rparr>)" "sched_inv h (A |` (- set ds)) (s\<lparr>memory := m\<rparr>) os q"
    "\<And>a. \<not> in_table h a \<Longrightarrow> m a = memory s a"
proof -
  have live: "klive h s (with_pages A (set (owned_pages os)))" using inv by (simp add: sched_inv_def)
  have nz: "block_addr h b \<noteq> NULL" if "A b = Some n" for b n
    using block_addr_nonzero[OF klive_block(1,2)[OF live inv_live(2)[OF inv that]]] .
  consider (binary) db where "ds = [db]" | (elf) ib eb where "ds = [ib, eb]"
    using dat by (auto simp: program_data_def split: list.splits)
  then show thesis
  proof cases
    case binary
    then obtain n where n: "A db = Some n" using ds(2) by auto
    obtain m where m: "kfree (block_addr h db) s = s\<lparr>memory := m\<rparr>" "sched_inv h (A(db := None)) (s\<lparr>memory := m\<rparr>) os q"
      "\<And>a. \<not> in_table h a \<Longrightarrow> m a = memory s a" by (rule inv_kfree[OF inv n], rule that)
    have "A |` (- set ds) = A(db := None)" using binary by (simp add: restrict_complement_singleton_eq)
    moreover have "process_free_program_data p s = (0, kfree (block_addr h db) s)"
      using dat binary by (simp add: program_data_def process_free_program_data_def process_free_binary_data_def)
    ultimately show thesis using that[of m] m by simp
  next
    case elf
    then obtain n k where n: "A ib = Some n" "A eb = Some k" "ib \<noteq> eb" using ds by auto
    obtain m1 where m1: "kfree (block_addr h ib) s = s\<lparr>memory := m1\<rparr>" "sched_inv h (A(ib := None)) (s\<lparr>memory := m1\<rparr>) os q"
      "\<And>a. \<not> in_table h a \<Longrightarrow> m1 a = memory s a" by (rule inv_kfree[OF inv n(1)], rule that)
    have "(A(ib := None)) eb = Some k" using n by simp
    from inv_kfree[where A = "A(ib := None)", OF m1(2) this] obtain m where m: "kfree (block_addr h eb) (s\<lparr>memory := m1\<rparr>) = s\<lparr>memory := m\<rparr>"
      "sched_inv h (A(ib := None, eb := None)) (s\<lparr>memory := m\<rparr>) os q" "\<And>a. \<not> in_table h a \<Longrightarrow> m a = m1 a" by auto
    have "A |` (- set ds) = A(ib := None, eb := None)" using elf by (auto simp: restrict_map_def)
    moreover have "process_free_program_data p s = (0, kfree (block_addr h eb) (kfree (block_addr h ib) s))"
      using dat elf nz[OF n(2)] by (simp add: program_data_def process_free_program_data_def process_free_elf_data_def elf_close_def)
    ultimately show thesis using that[of m] m m1(1,3) by simp
  qed
qed

lemma inv_data_and_stack:
  fixes s :: "('d, 'a) tstate_scheme"
  assumes inv: "sched_inv h A s os q" and dat: "program_data h (memory s) p ds" and ds: "distinct (sb # ds)" "\<forall>x \<in> set (sb # ds). A x \<noteq> None"
    and st: "load32 (memory s) (p + 8336) = block_addr h sb" "\<And>a. in_region (p + 8336) 4 a \<Longrightarrow> \<not> in_table h a"
  obtains m2 m where "process_free_program_data p s = (0, s\<lparr>memory := m2\<rparr>)"
    "kfree (load32 m2 (p + 8336)) (s\<lparr>memory := m2\<rparr>) = s\<lparr>memory := m\<rparr>"
    "sched_inv h (A |` (- set (sb # ds))) (s\<lparr>memory := m\<rparr>) os q" "\<And>a. \<not> in_table h a \<Longrightarrow> m a = memory s a"
proof -
  have ds': "distinct ds" "\<forall>x \<in> set ds. A x \<noteq> None" using ds by simp_all
  obtain m2 where m2: "process_free_program_data p s = (0, s\<lparr>memory := m2\<rparr>)" "sched_inv h (A |` (- set ds)) (s\<lparr>memory := m2\<rparr>) os q"
    "\<And>a. \<not> in_table h a \<Longrightarrow> m2 a = memory s a" by (rule inv_program_data[OF inv dat ds'], rule that)
  have l: "load32 m2 (p + 8336) = block_addr h sb" using m2(3) st(2) unfolding st(1)[symmetric] by (intro load32_cong) blast
  obtain n where "(A |` (- set ds)) sb = Some n" using ds by (auto simp: restrict_map_def)
  from inv_kfree[OF m2(2) this] obtain m where m: "kfree (block_addr h sb) (s\<lparr>memory := m2\<rparr>) = s\<lparr>memory := m\<rparr>"
    "sched_inv h ((A |` (- set ds))(sb := None)) (s\<lparr>memory := m\<rparr>) os q" "\<And>a. \<not> in_table h a \<Longrightarrow> m a = m2 a" by auto
  have "(A |` (- set ds))(sb := None) = A |` (- set (sb # ds))" by (auto simp: restrict_map_def fun_eq_iff)
  then show thesis using that[of m2 m] m2(1,3) m l by simp
qed

subsection \<open>The process table\<close>

definition process_slot :: "'l processlinks_scheme \<Rightarrow> mem \<Rightarrow> nat \<Rightarrow> u32" where
  "process_slot lm m j = load32 m (processes_at lm + 4 * of_nat j)"

lemma slot_region:
  assumes "j < 12" "in_region (processes_at lm + 4 * of_nat j) 4 a"
  shows "in_region (processes_at lm) 48 a"
  using slot_in_array[of j 12 "processes_at lm" a] assms by simp

lemma process_slot_store:
  assumes "i < 12" "j < 12"
  shows "process_slot lm (store32 m (processes_at lm + 4 * of_nat i) v) j = (if j = i then v else process_slot lm m j)"
  using slot_load32[of i j m "processes_at lm" v] assms by (auto simp: process_slot_def)

text \<open>
  Taking the process of slot \<open>i\<close> out of the table.  When it is the current one, the first process left becomes the current one;
  when none is left, the kernel panics.
\<close>

definition last_process :: "'l processlinks_scheme \<Rightarrow> mem \<Rightarrow> nat \<Rightarrow> bool" where
  "last_process lm m i \<longleftrightarrow> (\<forall>j < 12. j \<noteq> i \<longrightarrow> process_slot lm m j = 0)"

definition next_process :: "'l processlinks_scheme \<Rightarrow> mem \<Rightarrow> nat \<Rightarrow> u32 \<Rightarrow> bool" where
  "next_process lm m i p \<longleftrightarrow> (\<exists>j < 12. j \<noteq> i \<and> process_slot lm m j = p \<and> p \<noteq> 0 \<and> (\<forall>k < j. k \<noteq> i \<longrightarrow> process_slot lm m k = 0))"

lemma process_unlink_ok:
  fixes s :: "('d, 'a) prstate_scheme" and lm :: "'l processlinks_scheme"
  assumes i: "unat (load16 (memory s) p) = i" "i < 12"
  defines "m \<equiv> store32 (memory s) (processes_at lm + 4 * of_nat i) 0"
  shows "current_process s \<noteq> p \<Longrightarrow> process_unlink lm p s = Some (s\<lparr>memory := m\<rparr>)"
    and "current_process s = p \<Longrightarrow> last_process lm (memory s) i \<Longrightarrow> process_unlink lm p s = None"
    and "current_process s = p \<Longrightarrow> \<not> last_process lm (memory s) i \<Longrightarrow>
      \<exists>p'. process_unlink lm p s = Some (s\<lparr>memory := m, current_process := p'\<rparr>) \<and> next_process lm (memory s) i p'"
proof -
  have at: "processes_at lm + 4 * ucast (load16 (memory s) p) = processes_at lm + 4 * of_nat i"
    using i(1) by (metis of_nat_unat)
  have slot: "load32 m (processes_at lm + 4 * of_nat j) = (if j = i then 0 else process_slot lm (memory s) j)" if "j < 12" for j
    using process_slot_store[OF i(2) that, of lm "memory s" 0] unfolding m_def process_slot_def by simp
  let ?Q = "\<lambda>j. load32 m (processes_at lm + 4 * of_nat j) \<noteq> 0"
  have eq: "process_unlink lm p s = (if current_process s = p then process_switch_to_any lm (s\<lparr>memory := m\<rparr>) else Some (s\<lparr>memory := m\<rparr>))"
    unfolding process_unlink_def Let_def at m_def by simp
  then show "current_process s \<noteq> p \<Longrightarrow> process_unlink lm p s = Some (s\<lparr>memory := m\<rparr>)" by simp
  show "process_unlink lm p s = None" if "current_process s = p" "last_process lm (memory s) i"
  proof -
    have "find ?Q [0..<12] = None" using slot that(2) by (auto simp: find_None_iff last_process_def)
    then show ?thesis using eq that(1) by (simp add: process_switch_to_any_def panic_def)
  qed
  show "\<exists>p'. process_unlink lm p s = Some (s\<lparr>memory := m, current_process := p'\<rparr>) \<and> next_process lm (memory s) i p'"
    if "current_process s = p" "\<not> last_process lm (memory s) i"
  proof -
    define j where "j = (LEAST j. j < 12 \<and> ?Q j)"
    have ex: "\<exists>j. j < 12 \<and> ?Q j" using slot that(2) by (auto simp: last_process_def)
    then have j: "j < 12" "?Q j" using LeastI_ex[OF ex] by (auto simp: j_def)
    have before: "\<not> ?Q k" if "k < j" for k using not_less_Least[of k "\<lambda>j. j < 12 \<and> ?Q j"] that j(1) by (auto simp: j_def)
    have "find ?Q [0..<12] = Some j" using find_upt_Some[of ?Q 12 j] j before by simp
    then have "process_unlink lm p s = Some (s\<lparr>memory := m, current_process := process_slot lm (memory s) j\<rparr>)"
      using eq that(1) slot[OF j(1)] j(2) by (auto simp: process_switch_to_any_def process_switch_def)
    moreover have "next_process lm (memory s) i (process_slot lm (memory s) j)"
      unfolding next_process_def
    proof (intro exI conjI allI impI)
      show "process_slot lm (memory s) k = 0" if "k < j" "k \<noteq> i" for k using before[OF that(1)] slot[of k] that j(1) by auto
    qed (use j slot[OF j(1)] in \<open>auto split: if_splits\<close>)
    ultimately show ?thesis by blast
  qed
qed

subsection \<open>All of it\<close>

lemma inv_current_process [simp]: "sched_inv h A (s\<lparr>current_process := p\<rparr>) os q = sched_inv h A s os q"
  by (simp add: sched_inv_def klive_def kheap_rel_def run_queue_def)

lemma task_free_current_process:
  fixes s :: "('d, 'a) prstate_scheme"
  assumes "task_free t s = (r, s')"
  shows "current_process s' = current_process s"
proof -
  have k: "current_process (kfree x u) = current_process u" for x and u :: "('d, 'a) prstate_scheme"
    using kfree_memory_only[of x u] by auto
  have r: "current_process (task_list_remove x u) = current_process u" for x and u :: "('d, 'a) prstate_scheme"
    by (simp add: task_list_remove_def Let_def)
  show ?thesis using assms paging_free_memory_only[of "load32 (memory s) t" s] k r by (auto simp: task_free_def Let_def)
qed

lemma process_cells_same:
  assumes "\<And>a. in_blocks h pb 3 a \<Longrightarrow> \<not> in_allocations (block_addr h pb) a \<Longrightarrow> m' a = m a"
  shows "load16 m' (block_addr h pb) = load16 m (block_addr h pb)" "m' (block_addr h pb + 8328) = m (block_addr h pb + 8328)"
    "off \<in> {132, 8332, 8336} \<Longrightarrow> load32 m' (block_addr h pb + of_nat off) = load32 m (block_addr h pb + of_nat off)"
proof -
  let ?p = "block_addr h pb"
  have cell: "m' a = m a" if "in_region (?p + of_nat off) n a" "off + n \<le> 136 \<or> 8328 \<le> off \<and> off + n \<le> 12288" "0 < n" for off n a
  proof (rule assms)
    show "in_blocks h pb 3 a" using in_region_sub[OF that(1), of "4096 * 3"] that(2) by (auto simp: in_blocks_def)
    have "disjoint_regions ?p 136 (?p + 136) 8192" "disjoint_regions (?p + 8328) 3960 (?p + 136) 8192" by (simp_all add: disjoint_regions_def)
    then have "disjoint_regions (?p + of_nat off) n (?p + 136) 8192"
      using disjoint_regions_sub[of ?p 136 "?p + 136" 8192 off n 8192] disjoint_regions_sub[of "?p + 8328" 3960 "?p + 136" 8192 "off - 8328" n 8192]
        that(2,3) by (auto simp: of_nat_diff)
    then show "\<not> in_allocations ?p a" using disjoint_regionsD[of "?p + of_nat off" n "?p + 136" 8192 a] that(1) by (auto simp: in_allocations_def disjoint_regions_sym)
  qed
  show "load16 m' ?p = load16 m ?p" using cell[of 0 2] by (intro load16_cong) simp
  show "m' (?p + 8328) = m (?p + 8328)" using cell[of 8328 1 "?p + 8328"] by (simp add: in_region_def)
  show "load32 m' (?p + of_nat off) = load32 m (?p + of_nat off)" if "off \<in> {132, 8332, 8336}"
    using cell[of off 4] that by (intro load32_cong) auto
qed

lemma program_data_kept:
  assumes dat: "program_data h m (block_addr h pb) ds"
    and same: "\<And>a. in_blocks h pb 3 a \<Longrightarrow> \<not> in_allocations (block_addr h pb) a \<Longrightarrow> m' a = m a"
      "\<And>x a. x \<in> set ds \<Longrightarrow> in_blocks h x 1 a \<Longrightarrow> m' a = m a"
  shows "program_data h m' (block_addr h pb) ds"
proof -
  note c = process_cells_same[of h pb m' m, OF same(1)]
  have p: "load32 m' (block_addr h pb + 8332) = load32 m (block_addr h pb + 8332)" using c(3)[of 8332] by simp
  consider (binary) db where "ds = [db]" | (elf) ib eb where "ds = [ib, eb]"
    using dat by (auto simp: program_data_def split: list.splits)
  then show ?thesis
  proof cases
    case binary
    then show ?thesis using dat c(2) p by (simp add: program_data_def)
  next
    case elf
    have "m' a = m a" if "in_region (block_addr h eb + of_nat 132) 4 a" for a using same(2)[of eb a] block_bytes[OF that] elf by simp
    then have "load32 m' (block_addr h eb + 132) = load32 m (block_addr h eb + 132)" by (intro load32_cong) simp
    then show ?thesis using dat c(2) p elf by (simp add: program_data_def)
  qed
qed

definition terminated :: "(nat \<rightharpoonup> nat) \<Rightarrow> nat \<Rightarrow> nat list \<Rightarrow> (nat \<rightharpoonup> nat \<times> u32) \<Rightarrow> nat \<rightharpoonup> nat" where
  "terminated A sb ds R = released A R 1024 |` (- set (sb # ds))"

lemma terminated_le: "terminated A sb ds R e = Some n \<Longrightarrow> A e = Some n"
  by (auto simp: terminated_def restrict_map_def released_def split: if_splits)

lemma loaded_released:
  assumes "loaded h A m pb tb sb ds R" "x \<in> set (pb # sb # ds)"
  shows "released A R n x = A x"
proof -
  have "R k \<noteq> Some (x, sz)" for k sz using assms unfolding loaded_def process_allocs_def by blast
  then show ?thesis by (auto simp: released_def)
qed

lemma terminated_process:
  assumes "loaded h A m pb tb sb ds R"
  shows "terminated A sb ds R pb = Some 3"
  using assms loaded_released[OF assms, of pb] by (auto simp: loaded_def terminated_def restrict_map_def)

text \<open>The pages of the other tasks, and which links may lie there.\<close>

lemma other_page:
  assumes inv: "sched_inv h A s (xs @ (tb, c, bd, fs) # ys) q" and ow: "ow \<in> set (xs @ ys)" "x \<in> set (pages_of ow)" and a: "in_blocks h x 1 a"
  shows "\<not> in_table h a" "x \<in> set (owned_pages (xs @ (tb, c, bd, fs) # ys))" "x \<notin> set fs"
    and "o' \<in> set (xs @ ys) \<Longrightarrow> in_region (task_of h o' + 52) 8 a \<Longrightarrow> o' = ow"
proof -
  let ?os = "xs @ (tb, c, bd, fs) # ys"
  let ?P = "with_pages A (set (owned_pages ?os))"
  have live: "klive h s ?P" and dist: "distinct (owned_pages ?os)" using inv by (simp_all add: sched_inv_def)
  have os: "ow \<in> set ?os" using ow(1) by auto
  have Px: "?P x = Some 1" by (rule inv_live(1)[OF inv os ow(2)])
  show "\<not> in_table h a" using blocks_not_in_table[OF klive_block(1,3,4)[OF live Px] a] .
  have "x \<in> set (owned_pages xs) \<or> x \<in> set (owned_pages ys)" using ow unfolding owned_pages_def set_concat set_map by auto
  then show "x \<in> set (owned_pages ?os)" "x \<notin> set fs" using dist by auto
  show "o' = ow" if o': "o' \<in> set (xs @ ys)" "in_region (task_of h o' + 52) 8 a"
  proof (rule ccontr)
    assume ne: "o' \<noteq> ow"
    have in_os: "o' \<in> set ?os" using o'(1) by auto
    have "x \<noteq> fst o'" by (rule owned_pages_apart[OF dist os in_os ne ow(2) fst_in_pages])
    then have "\<not> in_blocks h (fst o') 1 a" using klive_apart[OF live Px inv_live(1)[OF inv in_os fst_in_pages] _ a] by blast
    then show False using link_bytes(2)[OF o'] by blast
  qed
qed

text \<open>The releases of memory, up to the end of the task.\<close>

lemma terminate_memory:
  fixes s :: "('d, 'a) prstate_scheme"
  assumes inv: "sched_inv h A s (xs @ (tb, c, bd, fs) # ys) q" and top: "heap_below_top h"
    and ld: "loaded h A (memory s) pb tb sb ds R"
    and nl: "null_harmless h (with_pages A (set (owned_pages (xs @ (tb, c, bd, fs) # ys)))) (memory s) nr"
  obtains s' q' where "process_terminate lm (block_addr h pb) s = map_option (Pair 0) (process_unlink lm (block_addr h pb) s')"
    "sched_inv h (terminated A sb ds R) s' (xs @ ys) q'" "current_process s' = current_process s"
    "\<And>e n a. terminated A sb ds R e = Some n \<Longrightarrow> in_blocks h e n a \<Longrightarrow> e = pb \<longrightarrow> \<not> in_allocations (block_addr h pb) a \<Longrightarrow>
       memory s' a = memory s a"
    "\<And>ow x a. ow \<in> set (xs @ ys) \<Longrightarrow> x \<in> set (pages_of ow) \<Longrightarrow> in_blocks h x 1 a \<Longrightarrow> \<not> in_region (task_of h ow + 52) 8 a \<Longrightarrow>
       memory s' a = memory s a"
    "\<And>a. unowned h (with_pages A (set (owned_pages (xs @ (tb, c, bd, fs) # ys)))) a \<Longrightarrow> \<not> null_bytes h nr a \<Longrightarrow> memory s' a = memory s a"
proof -
  let ?os = "xs @ (tb, c, bd, fs) # ys" and ?p = "block_addr h pb"
  let ?P = "with_pages A (set (owned_pages ?os))" and ?A = "terminated A sb ds R"
  have live: "klive h s ?P" and none: "\<And>x. x \<in> set (owned_pages ?os) \<Longrightarrow> A x = None" using inv by (auto simp: sched_inv_def)
  have l: "A pb = Some 3" "process_task (memory s) ?p = block_addr h tb" "load32 (memory s) (?p + 8336) = block_addr h sb"
    "program_data h (memory s) ?p ds" "distinct (pb # sb # ds)" "\<forall>x \<in> set (sb # ds). A x \<noteq> None" using ld by (simp_all add: loaded_def)
  obtain m1 where m1: "process_terminate_allocations ?p s = (0, s\<lparr>memory := m1\<rparr>)"
    "sched_inv h (released A R 1024) (s\<lparr>memory := m1\<rparr>) ?os q" "\<And>a. untouched h pb fs nr a \<Longrightarrow> m1 a = memory s a"
    "\<And>x a. x \<in> set (owned_pages ?os) \<Longrightarrow> x \<notin> set fs \<Longrightarrow> in_blocks h x 1 a \<Longrightarrow> m1 a = memory s a"
    by (rule inv_allocations[OF inv top ld nl], rule that)
  have live_frame: "\<not> in_table h a \<and> m1 a = memory s a" if e: "A e = Some n" "in_blocks h e n a" "e = pb \<Longrightarrow> \<not> in_allocations ?p a" for e n a
  proof -
    have Pe: "?P e = Some n" by (rule inv_live(2)[OF inv e(1)])
    have t: "\<not> in_table h a" using blocks_not_in_table[OF klive_block(1,3,4)[OF live Pe] e(2)] .
    moreover have "\<not> in_blocks h x 1 a" if "x \<in> set fs" for x
    proof -
      have "?P x = Some 1" "e \<noteq> x" using none[of x] e(1) that by (auto simp: with_pages_def)
      then show ?thesis using klive_apart[OF live Pe _ _ e(2)] by blast
    qed
    moreover have "\<not> in_allocations ?p a"
      using klive_apart[OF live Pe inv_live(2)[OF inv l(1)] _ e(2)] in_allocations_process[of h pb a] e(3) by blast
    moreover have "\<not> null_bytes h nr a" using nl Pe e(2) unfolding null_harmless_def null_apart_def unowned_def by blast
    ultimately show ?thesis using m1(3)[of a] by (auto simp: untouched_def)
  qed
  have pbs: "m1 a = memory s a" "\<not> in_table h a" if "in_blocks h pb 3 a" "\<not> in_allocations ?p a" for a using live_frame[OF l(1)] that by blast+
  have dss: "m1 a = memory s a" if x: "x \<in> set ds" "in_blocks h x 1 a" for x a
  proof -
    have "A x \<noteq> None" using l(6) x(1) by simp
    then obtain n where n: "A x = Some n" by blast
    have "0 < n" using klive_block(4)[OF live inv_live(2)[OF inv n]] .
    then have "in_blocks h x n a" using x(2) by (simp add: in_blocks_def in_region_def)
    then show ?thesis using live_frame[OF n] x(1) l(5) by auto
  qed
  note c1 = process_cells_same[of h pb m1 "memory s", OF pbs(1)]
  have dat1: "program_data h (memory (s\<lparr>memory := m1\<rparr>)) ?p ds" using program_data_kept[OF l(4), of m1] pbs(1) dss by simp
  have st1: "load32 (memory (s\<lparr>memory := m1\<rparr>)) (?p + 8336) = block_addr h sb" using c1(3)[of 8336] l(3) by simp
  have off: "\<not> in_table h a" if "in_region (?p + 8336) 4 a" for a
    using blocks_not_in_table[OF klive_block(1,3,4)[OF live inv_live(2)[OF inv l(1)]]] in_region_sub[of ?p 8336 4 a "4096 * 3"] that by (simp add: in_blocks_def)
  have ds1: "distinct (sb # ds)" "\<forall>x \<in> set (sb # ds). released A R 1024 x \<noteq> None" using l(5,6) loaded_released[OF ld] by auto
  obtain m2 m3 where m3: "process_free_program_data ?p (s\<lparr>memory := m1\<rparr>) = (0, s\<lparr>memory := m2\<rparr>)"
    "kfree (load32 m2 (?p + 8336)) (s\<lparr>memory := m2\<rparr>) = s\<lparr>memory := m3\<rparr>" "sched_inv h ?A (s\<lparr>memory := m3\<rparr>) ?os q"
    "\<And>a. \<not> in_table h a \<Longrightarrow> m3 a = m1 a"
    using inv_data_and_stack[OF m1(2) dat1 ds1 st1 off] unfolding terminated_def by auto
  obtain s4 q' where s4: "task_free (block_addr h tb) (s\<lparr>memory := m3\<rparr>) = (0, s4)" "sched_inv h ?A s4 (xs @ ys) q'" "others_same h ?A m3 (memory s4)"
    "\<forall>a. \<not> in_table h a \<longrightarrow> (\<forall>o' \<in> set (xs @ ys). \<not> in_region (task_of h o' + 52) 8 a) \<longrightarrow> memory s4 a = m3 a"
    using inv_exit[OF m3(3)] by auto
  have "m3 a = memory s a" if "in_blocks h pb 3 a" "\<not> in_allocations ?p a" for a using m3(4) pbs[OF that] by simp
  note c3 = process_cells_same[of h pb m3 "memory s", OF this]
  have t3: "process_task m3 ?p = block_addr h tb" using c3(3)[of 132] l(2) by simp
  show thesis
  proof (rule that)
    show "process_terminate lm ?p s = map_option (Pair 0) (process_unlink lm ?p s4)"
      using m1(1) m3(1,2) t3 s4(1) by (cases "process_unlink lm ?p s4") (simp_all add: process_terminate_def Let_def)
    show "sched_inv h ?A s4 (xs @ ys) q'" by (rule s4(2))
    show "current_process s4 = current_process s" using task_free_current_process[OF s4(1)] by simp
    show "memory s4 a = memory s a" if e: "?A e = Some n" "in_blocks h e n a" "e = pb \<longrightarrow> \<not> in_allocations ?p a" for e n a
      using s4(3) e(1,2) m3(4)[of a] live_frame[OF terminated_le[OF e(1)] e(2)] e(3) unfolding others_same_def by auto
    show "memory s4 a = memory s a" if a: "ow \<in> set (xs @ ys)" "x \<in> set (pages_of ow)" "in_blocks h x 1 a" "\<not> in_region (task_of h ow + 52) 8 a" for ow x a
    proof -
      note o = other_page[OF inv a(1-3)]
      have "\<forall>o' \<in> set (xs @ ys). \<not> in_region (task_of h o' + 52) 8 a" using o(4) a(4) by blast
      then show ?thesis using s4(4) m3(4)[OF o(1)] m1(4)[OF o(2,3) a(3)] o(1) by simp
    qed
    show "memory s4 a = memory s a" if a: "unowned h ?P a" "\<not> null_bytes h nr a" for a
    proof -
      have "\<not> in_region (task_of h o' + 52) 8 a" if "o' \<in> set (xs @ ys)" for o'
        using a(1) inv_live(1)[OF inv _ fst_in_pages, of o'] link_bytes(2)[of o' ?os h a] that unfolding unowned_def by auto
      moreover have "\<not> in_blocks h x 1 a" if "x \<in> set fs" for x using a(1) that unfolding unowned_def by (auto simp: with_pages_def)
      moreover have "\<not> in_allocations ?p a" using a(1) inv_live(2)[OF inv l(1)] in_allocations_process unfolding unowned_def by blast
      ultimately show ?thesis using a s4(4) m3(4)[of a] m1(3)[of a] by (auto simp: unowned_def untouched_def)
    qed
  qed
qed

text \<open>The process table is a static array of the kernel, apart from the heap.\<close>

definition table_apart :: "'l processlinks_scheme \<Rightarrow> heap \<Rightarrow> (nat \<rightharpoonup> nat) \<Rightarrow> nat \<Rightarrow> bool" where
  "table_apart lm h A nr \<longleftrightarrow> (\<forall>a. in_region (processes_at lm) 48 a \<longrightarrow> unowned h A a \<and> \<not> null_bytes h nr a)"

lemma slots_kept:
  assumes "table_apart lm h A nr" "\<And>a. unowned h A a \<Longrightarrow> \<not> null_bytes h nr a \<Longrightarrow> m' a = m a" "j < 12"
  shows "process_slot lm m' j = process_slot lm m j"
  unfolding process_slot_def
  by (rule load32_cong) (use assms(1,2) slot_region[OF assms(3)] in \<open>auto simp: table_apart_def\<close>)

lemma inv_unlink:
  fixes s :: "('d, 'a) tstate_scheme"
  assumes inv: "sched_inv h A' s os q" and tab: "table_apart lm h P nr" and i: "i < 12"
    and le: "\<forall>e n. with_pages A' (set (owned_pages os)) e = Some n \<longrightarrow> P e = Some n"
  shows "sched_inv h A' (s\<lparr>memory := store32 (memory s) (processes_at lm + 4 * of_nat i) 0\<rparr>) os q"
    "P e = Some n \<Longrightarrow> in_blocks h e n a \<Longrightarrow> store32 (memory s) (processes_at lm + 4 * of_nat i) 0 a = memory s a"
proof -
  have un: "unowned h P a" if "store32 (memory s) (processes_at lm + 4 * of_nat i) 0 a \<noteq> memory s a" for a
    using that tab slot_region[OF i, of lm a] store32_outside[of "processes_at lm + 4 * of_nat i" a "memory s" 0]
    unfolding table_apart_def by blast
  then show "sched_inv h A' (s\<lparr>memory := store32 (memory s) (processes_at lm + 4 * of_nat i) 0\<rparr>) os q"
    by (intro inv_unowned[OF inv]) (use le in \<open>auto simp: unowned_def\<close>)
  show "store32 (memory s) (processes_at lm + 4 * of_nat i) 0 a = memory s a" if "P e = Some n" "in_blocks h e n a"
    using un[of a] that unfolding unowned_def by blast
qed

lemma terminate_ok:
  fixes s :: "('d, 'a) prstate_scheme" and lm :: "'l processlinks_scheme"
  assumes inv: "sched_inv h A s (xs @ (tb, c, bd, fs) # ys) q" and top: "heap_below_top h"
    and ld: "loaded h A (memory s) pb tb sb ds R"
    and nl: "null_harmless h (with_pages A (set (owned_pages (xs @ (tb, c, bd, fs) # ys)))) (memory s) nr"
    and tab: "table_apart lm h (with_pages A (set (owned_pages (xs @ (tb, c, bd, fs) # ys)))) nr"
    and i: "unat (load16 (memory s) (block_addr h pb)) = i" "i < 12"
  shows "current_process s = block_addr h pb \<Longrightarrow> last_process lm (memory s) i \<Longrightarrow> process_terminate lm (block_addr h pb) s = None"
    and "current_process s \<noteq> block_addr h pb \<or> \<not> last_process lm (memory s) i \<Longrightarrow>
      \<exists>s' q'. process_terminate lm (block_addr h pb) s = Some (0, s') \<and> sched_inv h (terminated A sb ds R) s' (xs @ ys) q'
        \<and> (\<forall>j < 12. process_slot lm (memory s') j = (if j = i then 0 else process_slot lm (memory s) j))
        \<and> (if current_process s = block_addr h pb then next_process lm (memory s) i (current_process s') else current_process s' = current_process s)
        \<and> (\<forall>e n a. terminated A sb ds R e = Some n \<longrightarrow> in_blocks h e n a \<longrightarrow> (e = pb \<longrightarrow> \<not> in_allocations (block_addr h pb) a) \<longrightarrow>
             memory s' a = memory s a)
        \<and> (\<forall>ow \<in> set (xs @ ys). \<forall>x \<in> set (pages_of ow). \<forall>a. in_blocks h x 1 a \<longrightarrow> \<not> in_region (task_of h ow + 52) 8 a \<longrightarrow> memory s' a = memory s a)
        \<and> (\<forall>a. unowned h (with_pages A (set (owned_pages (xs @ (tb, c, bd, fs) # ys)))) a \<longrightarrow> \<not> null_bytes h nr a \<longrightarrow>
             \<not> in_region (processes_at lm + 4 * of_nat i) 4 a \<longrightarrow> memory s' a = memory s a)"
proof -
  let ?os = "xs @ (tb, c, bd, fs) # ys" and ?p = "block_addr h pb"
  let ?P = "with_pages A (set (owned_pages ?os))" and ?A = "terminated A sb ds R"
  obtain s1 q' where s1: "process_terminate lm ?p s = map_option (Pair 0) (process_unlink lm ?p s1)"
    "sched_inv h ?A s1 (xs @ ys) q'" "current_process s1 = current_process s"
    "\<And>e n a. ?A e = Some n \<Longrightarrow> in_blocks h e n a \<Longrightarrow> e = pb \<longrightarrow> \<not> in_allocations ?p a \<Longrightarrow> memory s1 a = memory s a"
    "\<And>ow x a. ow \<in> set (xs @ ys) \<Longrightarrow> x \<in> set (pages_of ow) \<Longrightarrow> in_blocks h x 1 a \<Longrightarrow> \<not> in_region (task_of h ow + 52) 8 a \<Longrightarrow> memory s1 a = memory s a"
    "\<And>a. unowned h ?P a \<Longrightarrow> \<not> null_bytes h nr a \<Longrightarrow> memory s1 a = memory s a"
    by (rule terminate_memory[OF inv top ld nl, where lm = lm], rule that)
  have pb: "?A pb = Some 3" by (rule terminated_process[OF ld])
  have i1: "unat (load16 (memory s1) ?p) = i" using process_cells_same(1)[of h pb "memory s1" "memory s"] s1(4)[OF pb] i(1) by simp
  have sl: "process_slot lm (memory s1) j = process_slot lm (memory s) j" if "j < 12" for j using slots_kept[OF tab s1(6) that] .
  have last: "last_process lm (memory s1) i = last_process lm (memory s) i" using sl by (auto simp: last_process_def)
  have nxt: "next_process lm (memory s1) i p' \<Longrightarrow> next_process lm (memory s) i p'" for p'
    using sl unfolding next_process_def by (metis less_trans)
  have le: "?P e = Some n" if "with_pages ?A (set (owned_pages (xs @ ys))) e = Some n" for e n
  proof (cases "e \<in> set (owned_pages (xs @ ys))")
    case True
    then show ?thesis using that by (auto simp: with_pages_def)
  next
    case False
    then have "?A e = Some n" using that by (simp add: with_pages_def)
    then show ?thesis by (rule inv_live(2)[OF inv terminated_le])
  qed
  then have "\<forall>e n. with_pages ?A (set (owned_pages (xs @ ys))) e = Some n \<longrightarrow> ?P e = Some n" by blast
  note u = process_unlink_ok[OF i1 i(2), of lm] and un = inv_unlink[OF s1(2) tab i(2) this]
  let ?m = "store32 (memory s1) (processes_at lm + 4 * of_nat i) 0"
  show "process_terminate lm ?p s = None" if "current_process s = ?p" "last_process lm (memory s) i"
    using u(2) that s1(1,3) last by simp
  have sl': "process_slot lm ?m j = (if j = i then 0 else process_slot lm (memory s) j)" if "j < 12" for j
    unfolding process_slot_store[OF i(2) that] sl[OF that] by (rule refl)
  have fr: "?m a = memory s a" if "?A e = Some n" "in_blocks h e n a" "e = pb \<longrightarrow> \<not> in_allocations ?p a" for e n a
    using un(2)[OF inv_live(2)[OF inv terminated_le[OF that(1)]] that(2)] s1(4)[OF that(1,2)] that(3) by simp
  have tasks: "?m a = memory s a" if "ow \<in> set (xs @ ys)" "x \<in> set (pages_of ow)" "in_blocks h x 1 a" "\<not> in_region (task_of h ow + 52) 8 a" for ow x a
    using un(2)[of x 1 a] other_page(2)[OF inv that(1-3)] s1(5)[OF that] that(3) by (simp add: with_pages_def)
  have rest: "?m a = memory s a" if "unowned h ?P a" "\<not> null_bytes h nr a" "\<not> in_region (processes_at lm + 4 * of_nat i) 4 a" for a
    using store32_outside[OF that(3)] s1(6)[OF that(1,2)] by simp
  assume left: "current_process s \<noteq> ?p \<or> \<not> last_process lm (memory s) i"
  have "\<exists>s'. process_unlink lm ?p s1 = Some s' \<and> memory s' = ?m \<and> sched_inv h ?A s' (xs @ ys) q'
    \<and> (if current_process s = ?p then next_process lm (memory s) i (current_process s') else current_process s' = current_process s)"
  proof (cases "current_process s = ?p")
    case True
    then obtain p' where p': "process_unlink lm ?p s1 = Some (s1\<lparr>memory := ?m, current_process := p'\<rparr>)" "next_process lm (memory s) i p'"
      using u(3) left last nxt s1(3) by auto
    then show ?thesis using un(1) True by (intro exI[of _ "s1\<lparr>memory := ?m, current_process := p'\<rparr>"]) simp
  next
    case False
    then show ?thesis using u(1) un(1) s1(3) by (intro exI[of _ "s1\<lparr>memory := ?m\<rparr>"]) simp
  qed
  then obtain s' where "process_unlink lm ?p s1 = Some s'" "memory s' = ?m" "sched_inv h ?A s' (xs @ ys) q'"
    "if current_process s = ?p then next_process lm (memory s) i (current_process s') else current_process s' = current_process s" by blast
  then show "\<exists>s' q'. process_terminate lm ?p s = Some (0, s') \<and> sched_inv h ?A s' (xs @ ys) q'
      \<and> (\<forall>j < 12. process_slot lm (memory s') j = (if j = i then 0 else process_slot lm (memory s) j))
      \<and> (if current_process s = ?p then next_process lm (memory s) i (current_process s') else current_process s' = current_process s)
      \<and> (\<forall>e n a. ?A e = Some n \<longrightarrow> in_blocks h e n a \<longrightarrow> (e = pb \<longrightarrow> \<not> in_allocations ?p a) \<longrightarrow> memory s' a = memory s a)
      \<and> (\<forall>ow \<in> set (xs @ ys). \<forall>x \<in> set (pages_of ow). \<forall>a. in_blocks h x 1 a \<longrightarrow> \<not> in_region (task_of h ow + 52) 8 a \<longrightarrow> memory s' a = memory s a)
      \<and> (\<forall>a. unowned h ?P a \<longrightarrow> \<not> null_bytes h nr a \<longrightarrow> \<not> in_region (processes_at lm + 4 * of_nat i) 4 a \<longrightarrow> memory s' a = memory s a)"
    using s1(1) sl' fr tasks rest by (intro exI[of _ s'] exI[of _ q'] conjI) simp_all
qed

text \<open>
  C5.  \<^verbatim>\<open>process_terminate\<close> of a loaded process returns 0.  It gives back the process's allocations, the program (flat or ELF), the stack
  and the 1027 pages of the task, takes the task out of the run queue and the process out of the table; when the process was the
  current one, the first process left becomes the current one.  The three blocks of the \<^verbatim>\<open>struct process\<close> itself stay allocated.
  Nothing else changes: every other live object keeps its bytes (of the process's struct all but the allocation table), every
  remaining task its page directory, its page tables and its whole struct, saved registers included, except for the two
  links of the queue, and memory that belongs to nobody keeps its bytes except for the process's slot of the table and the
  run of bytes that \<open>kfree(NULL)\<close> may clear (see \<open>null_run\<close>; as there, the run is assumed to end in front of the heap's table and
  of every object).
\<close>

theorem process_terminate_releases:
  fixes s :: "('d, 'a) prstate_scheme" and lm :: "'l processlinks_scheme"
  assumes "sched_inv h A s (xs @ (tb, c, bd, fs) # ys) q" "heap_below_top h" "loaded h A (memory s) pb tb sb ds R"
    and "null_run h (memory s) nr" "null_apart h (with_pages A (set (owned_pages (xs @ (tb, c, bd, fs) # ys)))) nr"
    and "table_apart lm h (with_pages A (set (owned_pages (xs @ (tb, c, bd, fs) # ys)))) nr"
    and "unat (load16 (memory s) (block_addr h pb)) = i" "i < 12"
    and "current_process s \<noteq> block_addr h pb \<or> \<not> last_process lm (memory s) i"
  shows "\<exists>s' q'. process_terminate lm (block_addr h pb) s = Some (0, s') \<and> sched_inv h (terminated A sb ds R) s' (xs @ ys) q'
    \<and> terminated A sb ds R pb = Some 3
    \<and> (\<forall>j < 12. process_slot lm (memory s') j = (if j = i then 0 else process_slot lm (memory s) j))
    \<and> (if current_process s = block_addr h pb then next_process lm (memory s) i (current_process s') else current_process s' = current_process s)
    \<and> (\<forall>e n a. terminated A sb ds R e = Some n \<longrightarrow> in_blocks h e n a \<longrightarrow> (e = pb \<longrightarrow> \<not> in_allocations (block_addr h pb) a) \<longrightarrow>
         memory s' a = memory s a)
    \<and> (\<forall>ow \<in> set (xs @ ys). \<forall>x \<in> set (pages_of ow). \<forall>a. in_blocks h x 1 a \<longrightarrow> \<not> in_region (task_of h ow + 52) 8 a \<longrightarrow>
         memory s' a = memory s a)
    \<and> (\<forall>a. unowned h (with_pages A (set (owned_pages (xs @ (tb, c, bd, fs) # ys)))) a \<longrightarrow> \<not> null_bytes h nr a \<longrightarrow>
         \<not> in_region (processes_at lm + 4 * of_nat i) 4 a \<longrightarrow> memory s' a = memory s a)"
  using terminate_ok(2)[OF assms(1-3) null_run_harmless[OF assms(4,5)] assms(6-9)] terminated_process[OF assms(3)] by simp

text \<open>
  C27.  When the process is the current one and the only one in the table, \<^verbatim>\<open>process_terminate\<close> does not return: everything is
  released and then the kernel panics, as there is no process to switch to (with the assumption on \<open>kfree(NULL)\<close> of the property
  above).
\<close>

theorem process_terminate_last_panics:
  fixes s :: "('d, 'a) prstate_scheme" and lm :: "'l processlinks_scheme"
  assumes "sched_inv h A s (xs @ (tb, c, bd, fs) # ys) q" "heap_below_top h" "loaded h A (memory s) pb tb sb ds R"
    and "null_run h (memory s) nr" "null_apart h (with_pages A (set (owned_pages (xs @ (tb, c, bd, fs) # ys)))) nr"
    and "table_apart lm h (with_pages A (set (owned_pages (xs @ (tb, c, bd, fs) # ys)))) nr"
    and "unat (load16 (memory s) (block_addr h pb)) = i" "i < 12"
    and "current_process s = block_addr h pb" "last_process lm (memory s) i"
  shows "process_terminate lm (block_addr h pb) s = None"
  by (rule terminate_ok(1)[OF assms(1-3) null_run_harmless[OF assms(4,5)] assms(6-10)])

subsection \<open>A process to end\<close>

text \<open>A flat program of 100 bytes with its stack and its task, in slot 0 of the table.\<close>

definition no_processes :: "unit prstate" where
  "no_processes = kheap_init \<lparr>memory = \<lambda>_. 0, video_mem = 0, terminal_row = 0, terminal_col = 0,
     kernel_heap = four_blocks, current_directory = 0, cr3 = 0, paging_on = False, idtr = (0, 0),
     interrupts_on = False, device = (), current_task = 0, task_tail = 0, task_head = 0, kernel_chunk = 0, data_segments = 0x10,
     current_process = 0\<rparr>"

definition exit_links :: processlinks where
  "exit_links = \<lparr>idt_descriptors_at = 0, idtr_descriptors_at = 0, no_interrupt_at = 0, int21h_at = 0, disk_at = 0,
     colon_slash_at = 0, fat16_fs_at = 0, fat16_name_at = 0, fat16_resolve_at = 0, fat16_open_at = 0, fat16_read_at = 0,
     fat16_seek_at = 0, fat16_stat_at = 0, fat16_close_at = 0, stream_buf_at = \<lambda>_. 0, directory_item_at = 0,
     fat_entry_at = 0, tmp_filename_at = 0, stale_directory = 0, stale_current_item = 0, stale_file_descriptor = 0,
     filesystems_at = 0, filedescriptors_at = 0, mode_r_at = 0, mode_w_at = 0, mode_a_at = 0, elf_signature_at = 0,
     elf_mode_at = 0, elf_stat_at = 0, processes_at = 0x100, binary_mode_at = 0, binary_stat_at = 0, elf_file_at = 0,
     stale_process = 0\<rparr>"

lemma fits_beside:
  assumes "n + 2 * k \<le> 25600"
  shows "fits (unused [b \<mapsto> n]) 25600 k (if k \<le> b then 0 else b + n)"
  using assms by (auto simp: fits_def unused_def taken_by_def split: if_splits)

lemma some_blocks:
  obtains m :: mem and pb sb db where "klive kernel_heap_layout (no_processes\<lparr>memory := m\<rparr>) [pb \<mapsto> 3, sb \<mapsto> 4, db \<mapsto> 1]"
    "distinct [pb, sb, db]" "\<And>a. in_region (block_addr kernel_heap_layout pb) 9384 a \<Longrightarrow> m a = 0"
    "1027 \<le> card (unused_blocks (nblocks kernel_heap_layout) [pb \<mapsto> 3, sb \<mapsto> 4, db \<mapsto> 1])"
proof -
  let ?h = kernel_heap_layout and ?s = no_processes
  have n: "nblocks ?h = 25600" by (rule kernel_heap_layout_wf)
  have bo: "blocks_of 9384 = 3" "blocks_of 16384 = 4" by (simp_all add: blocks_of_def)
  have f3: "fits (unused Map.empty) (nblocks ?h) (blocks_of 9384) 0" using empty_fits[of 3] by (simp add: bo)
  have live: "klive ?h ?s Map.empty" unfolding no_processes_def by (rule kheap_init_live)
  have sz: "0 < (9384 :: u32)" "unat (9384 :: u32) \<le> 2 ^ 32 - 4096" "0 < (16384 :: u32)" "unat (16384 :: u32) \<le> 2 ^ 32 - 4096" by simp_all
  obtain pb m1 where p: "klive ?h (?s\<lparr>memory := m1\<rparr>) [pb \<mapsto> 3]" "\<And>a. in_region (block_addr ?h pb) (unat (9384 :: u32)) a \<Longrightarrow> m1 a = 0"
    by (rule kzalloc_run[OF live sz(1,2) f3]) (simp add: bo)
  have f4: "fits (unused [pb \<mapsto> 3]) (nblocks ?h) (blocks_of 16384) (if 4 \<le> pb then 0 else pb + 3)" using fits_beside[of 3 4 pb] n by (simp add: bo)
  obtain sb m2 where t: "klive ?h (?s\<lparr>memory := m2\<rparr>) ([pb \<mapsto> 3, sb \<mapsto> 4])" "([pb \<mapsto> 3] :: nat \<rightharpoonup> nat) sb = None"
    "\<And>e k a. ([pb \<mapsto> 3] :: nat \<rightharpoonup> nat) e = Some k \<Longrightarrow> in_blocks ?h e k a \<Longrightarrow> m2 a = m1 a"
    by (rule kzalloc_run[OF p(1) sz(3,4) f4]) (simp add: bo)
  let ?B = "[pb \<mapsto> 3, sb \<mapsto> 4] :: nat \<rightharpoonup> nat"
  have ne: "sb \<noteq> pb" using t(2) by (auto split: if_splits)
  have used: "i \<in> {pb..<pb + 3} \<union> {sb..<sb + 4}" if "\<not> unused ?B i" for i
    using that by (auto simp: unused_def taken_by_def split: if_splits)
  have c7: "card ({pb..<pb + 3} \<union> {sb..<sb + 4}) \<le> 7" using card_Un_le[of "{pb..<pb + 3}" "{sb..<sb + 4}"] by simp
  then have big: "1028 \<le> card (unused_blocks (nblocks ?h) ?B)" using blocks_left[of ?B, OF used] n by simp
  then have room: "unused_blocks (nblocks ?h) ?B \<noteq> {}" by auto
  obtain db m3 where d: "klive ?h ((?s\<lparr>memory := m2\<rparr>)\<lparr>memory := m3\<rparr>) (?B(db \<mapsto> 1))" "?B db = None" "db \<in> unused_blocks (nblocks ?h) ?B"
    "unused_blocks (nblocks ?h) (?B(db \<mapsto> 1)) = unused_blocks (nblocks ?h) ?B - {db}"
    "\<And>a. \<not> in_table ?h a \<Longrightarrow> \<not> in_blocks ?h db 1 a \<Longrightarrow> m3 a = m2 a"
    by (rule kzalloc_page[OF t(1) room, of 100]) (simp, simp, simp)
  have l3: "klive ?h (?s\<lparr>memory := m3\<rparr>) (?B(db \<mapsto> 1))" using d(1) by simp
  have nd: "db \<noteq> pb" "db \<noteq> sb" using d(2) by (auto split: if_splits)
  have "m3 a = 0" if "in_region (block_addr ?h pb) 9384 a" for a
  proof -
    have a: "in_blocks ?h pb 3 a" using that by (simp add: in_blocks_def in_region_def)
    have A: "(?B(db \<mapsto> 1)) pb = Some 3" "(?B(db \<mapsto> 1)) db = Some 1" using ne nd by simp_all
    have "m3 a = m2 a"
      using d(5)[of a] klive_apart[OF l3 A nd(1)[symmetric] a] blocks_not_in_table[OF klive_block(1,3,4)[OF l3 A(1)] a] by simp
    then show ?thesis using t(3)[of pb 3 a] a p(2)[of a] that by simp
  qed
  moreover have "1027 \<le> card (unused_blocks (nblocks ?h) (?B(db \<mapsto> 1)))" using big d(3) unfolding d(4) by simp
  ultimately show thesis using that[OF l3] ne nd by auto
qed

text \<open>The fields of the process, written before and after its task is made, and memory outside of the heap cleared.\<close>

definition with_fields :: "u32 \<Rightarrow> u32 \<Rightarrow> u32 \<Rightarrow> mem \<Rightarrow> mem" where
  "with_fields p data stack m = store32 (store32 (m(p + 8328 := 1)) (p + 8332) data) (p + 8336) stack"

lemma with_fields_outside:
  assumes "\<not> in_region (p + 8328) 12 a"
  shows "with_fields p data stack m a = m a"
proof -
  have e: "p + 8328 + of_nat 4 = p + 8332" "p + 8328 + of_nat 8 = p + 8336" by simp_all
  have "\<not> in_region (p + 8332) 4 a" "\<not> in_region (p + 8336) 4 a"
    using assms in_region_sub[of "p + 8328" 4 4 a 12] in_region_sub[of "p + 8328" 8 4 a 12] unfolding e by auto
  moreover have "a \<noteq> p + 8328" using assms by (auto simp: in_region_def)
  ultimately show ?thesis by (simp add: with_fields_def store32_outside)
qed

lemma with_fields_cells:
  "with_fields p data stack m (p + 8328) = 1" "load32 (with_fields p data stack m) (p + 8332) = data"
  "load32 (with_fields p data stack m) (p + 8336) = stack"
  by (simp_all add: with_fields_def load32_store32_other disjoint_regions_def store32_outside in_region_def)

lemma some_ready:
  obtains s :: "unit prstate" and A pb sb db where "sched_inv kernel_heap_layout A s [] 0" "A pb = Some 3" "A sb = Some 4" "A db = Some 1"
    "distinct [pb, sb, db]" "1027 \<le> free_blocks kernel_heap_layout (memory s)"
    "entry_held kernel_heap_layout A (memory s) (block_addr kernel_heap_layout pb)"
    "program_data kernel_heap_layout (memory s) (block_addr kernel_heap_layout pb) [db]"
    "load32 (memory s) (block_addr kernel_heap_layout pb + 8336) = block_addr kernel_heap_layout sb"
    "\<And>a. in_region (block_addr kernel_heap_layout pb) 8328 a \<Longrightarrow> memory s a = 0"
proof -
  let ?h = kernel_heap_layout
  obtain m pb sb db where o: "klive ?h (no_processes\<lparr>memory := m\<rparr>) [pb \<mapsto> 3, sb \<mapsto> 4, db \<mapsto> 1]" "distinct [pb, sb, db]"
    "\<And>a. in_region (block_addr ?h pb) 9384 a \<Longrightarrow> m a = 0"
    "1027 \<le> card (unused_blocks (nblocks ?h) [pb \<mapsto> 3, sb \<mapsto> 4, db \<mapsto> 1])" by (rule some_blocks, rule that)
  let ?A = "[pb \<mapsto> 3, sb \<mapsto> 4, db \<mapsto> 1] :: nat \<rightharpoonup> nat" and ?p = "block_addr ?h pb"
  define m1 where "m1 = with_fields ?p (block_addr ?h db) (block_addr ?h sb) m"
  let ?s = "no_processes\<lparr>memory := m1\<rparr>"
  have A: "?A pb = Some 3" "?A sb = Some 4" "?A db = Some 1" using o(2) by auto
  have inp: "in_blocks ?h pb 3 a" if "in_region (?p + of_nat off) k a" "off + k \<le> 9384" for off k a
    using in_region_sub[OF that(1), of "4096 * 3"] that(2) by (simp add: in_blocks_def)
  have "klive ?h ((no_processes\<lparr>memory := m\<rparr>)\<lparr>memory := m1\<rparr>) ?A"
  proof (rule klive_write[OF o(1)])
    fix a assume "m1 a \<noteq> memory (no_processes\<lparr>memory := m\<rparr>) a"
    then have "in_region (?p + 8328) 12 a" using with_fields_outside[of ?p a "block_addr ?h db" "block_addr ?h sb" m] by (auto simp: m1_def)
    then have "in_blocks ?h pb 3 a" using inp[of 8328 12 a] by simp
    then show "\<exists>b n. ?A b = Some n \<and> in_blocks ?h b n a" using A(1) by blast
  qed
  then have live: "klive ?h ?s ?A" by simp
  have "run_queue ?s [] 0" by (simp add: run_queue_def no_processes_def tasks_ok_def kheap_init_eq)
  then have inv: "sched_inv ?h ?A ?s [] 0" using live by (simp add: sched_inv_def)
  have zero: "memory ?s a = 0" if "in_region ?p 8328 a" for a
  proof -
    have "disjoint_regions ?p 8328 (?p + 8328) 12" by (simp add: disjoint_regions_def)
    then have "\<not> in_region (?p + 8328) 12 a" using disjoint_regionsD[of "?p + 8328" 12 ?p 8328 a] that by (simp add: disjoint_regions_sym)
    moreover have "in_region ?p 9384 a" using that by (simp add: in_region_def)
    ultimately show ?thesis using o(3)[of a] with_fields_outside by (simp add: m1_def)
  qed
  have "in_blocks ?h pb 3 a" if "in_region ?p 9384 a" for a using inp[of 0 9384 a] that by simp
  then have held: "held ?h ?A ?p 9384" using A(1) unfolding held_def by blast
  then have entry: "entry_held ?h ?A (memory ?s) ?p" by (simp add: entry_held_def m1_def with_fields_cells)
  have room: "1027 \<le> free_blocks ?h (memory ?s)" using o(4) free_blocks_unused[OF live] by simp
  have dat: "program_data ?h (memory ?s) ?p [db]" "load32 (memory ?s) (?p + 8336) = block_addr ?h sb"
    by (simp_all add: program_data_def m1_def with_fields_cells)
  show thesis by (rule that[OF inv A o(2) room entry dat zero])
qed

lemma inv_write:
  fixes s :: "('d, 'a) tstate_scheme"
  assumes inv: "sched_inv h A s os q" and b: "A b = Some n" and out: "\<And>a. m a \<noteq> memory s a \<Longrightarrow> in_blocks h b n a"
  shows "sched_inv h A (s\<lparr>memory := m\<rparr>) os q"
proof (rule inv_same[OF inv])
  let ?P = "with_pages A (set (owned_pages os))"
  have live: "klive h s ?P" and none: "\<And>x. x \<in> set (owned_pages os) \<Longrightarrow> A x = None" using inv by (simp_all add: sched_inv_def)
  have Pb: "?P b = Some n" by (rule inv_live(2)[OF inv b])
  show "klive h (s\<lparr>memory := m\<rparr>) ?P" by (rule klive_write[OF live]) (use Pb out in blast)
  show "m a = memory s a" if "x \<in> set (owned_pages os)" "in_blocks h x 1 a" for x a
  proof -
    have "?P x = Some 1" "x \<noteq> b" using that(1) none[OF that(1)] b by (auto simp: with_pages_def)
    then show ?thesis using klive_apart[OF live _ Pb _ that(2)] out[of a] by blast
  qed
  show "A x = None" if "x \<in> set (owned_pages os)" for x by (rule none[OF that])
qed

lemma some_loaded:
  obtains s :: "unit prstate" and A tb c bd fs q pb sb db where "sched_inv kernel_heap_layout A s [(tb, c, bd, fs)] q"
    "loaded kernel_heap_layout A (memory s) pb tb sb [db] Map.empty" "unat (load16 (memory s) (block_addr kernel_heap_layout pb)) = 0"
    "null_run kernel_heap_layout (memory s) 0" "null_apart kernel_heap_layout (with_pages A (set (owned_pages [(tb, c, bd, fs)]))) 0"
    "table_apart exit_links kernel_heap_layout (with_pages A (set (owned_pages [(tb, c, bd, fs)]))) 0"
    "last_process exit_links (memory s) 0" "block_addr kernel_heap_layout pb \<noteq> 0"
proof -
  let ?h = kernel_heap_layout
  obtain s :: "unit prstate" and A pb sb db where o: "sched_inv ?h A s [] 0" "A pb = Some 3" "A sb = Some 4" "A db = Some 1" "distinct [pb, sb, db]"
    "1027 \<le> free_blocks ?h (memory s)" "entry_held ?h A (memory s) (block_addr ?h pb)" "program_data ?h (memory s) (block_addr ?h pb) [db]"
    "load32 (memory s) (block_addr ?h pb + 8336) = block_addr ?h sb" "\<And>a. in_region (block_addr ?h pb) 8328 a \<Longrightarrow> memory s a = 0"
    by (rule some_ready, rule that)
  let ?p = "block_addr ?h pb"
  obtain t s1 where new: "task_new ?p s = (t, s1)" by (cases "task_new ?p s")
  from inv_new[OF o(1,6,7) new] obtain tb c bd fs q where n: "t = block_addr ?h tb" "sched_inv ?h A s1 [(tb, c, bd, fs)] q"
    "others_same ?h A (memory s) (memory s1)" by fastforce
  let ?os = "[(tb, c, bd, fs)]"
  define m2 where "m2 = store32 (memory s1) (?p + 132) (block_addr ?h tb)"
  have in132: "in_blocks ?h pb 3 a" if "in_region (?p + 132) 4 a" for a using in_region_sub[of ?p 132 4 a "4096 * 3"] that by (simp add: in_blocks_def)
  have inv2: "sched_inv ?h A (s1\<lparr>memory := m2\<rparr>) ?os q"
    by (rule inv_write[OF n(2) o(2)]) (unfold m2_def, use in132 store32_outside in blast)
  let ?P = "with_pages A (set (owned_pages ?os))"
  have live2: "klive ?h (s1\<lparr>memory := m2\<rparr>) ?P" using inv2 by (simp add: sched_inv_def)
  define m where "m = (\<lambda>a. if unat a < 0x7E00 then 0 else m2 a)"
  let ?s = "s1\<lparr>memory := m\<rparr>"
  have "sched_inv ?h A ((s1\<lparr>memory := m2\<rparr>)\<lparr>memory := m\<rparr>) ?os q"
    by (rule inv_unowned[OF inv2]) (use low_unowned[OF live2] in \<open>auto simp: m_def split: if_splits\<close>)
  then have inv: "sched_inv ?h A ?s ?os q" by simp
  have heap: "m a = m2 a" if "A e = Some k" "in_blocks ?h e k a" for e k a
    using low_unowned[OF live2, of a] inv_live(2)[OF inv2 that(1)] that(2) unfolding m_def unowned_def by auto
  have same: "m a = memory s a" if "A e = Some k" "in_blocks ?h e k a" "\<not> in_region (?p + 132) 4 a" for e k a
    using heap[OF that(1,2)] n(3) that by (auto simp: others_same_def m2_def store32_outside)
  have cells: "load32 m (?p + of_nat off) = load32 (memory s) (?p + of_nat off)" if "off + 4 \<le> 132 \<or> 136 \<le> off \<and> off + 4 \<le> 12288" for off
  proof (rule load32_cong)
    fix a assume a: "in_region (?p + of_nat off) 4 a"
    have "disjoint_regions ?p 132 (?p + 132) 4" "disjoint_regions (?p + 136) 12152 (?p + 132) 4" by (simp_all add: disjoint_regions_def)
    then have "disjoint_regions (?p + of_nat off) 4 (?p + 132) 4"
      using disjoint_regions_sub[of ?p 132 "?p + 132" 4 off 4 4] disjoint_regions_sub[of "?p + 136" 12152 "?p + 132" 4 "off - 136" 4 4] that
      by (auto simp: of_nat_diff)
    then have "\<not> in_region (?p + 132) 4 a" using disjoint_regionsD[of "?p + of_nat off" 4 "?p + 132" 4 a] a by (auto simp: disjoint_regions_sym)
    moreover have "in_blocks ?h pb 3 a" using in_region_sub[OF a, of "4096 * 3"] that by (auto simp: in_blocks_def)
    ultimately show "m a = memory s a" using same[OF o(2)] by blast
  qed
  have zero: "m a = 0" if "in_region ?p 132 a" for a
  proof -
    have "disjoint_regions (?p + 132) 4 ?p 132" by (simp add: disjoint_regions_def)
    then have "\<not> in_region (?p + 132) 4 a" using disjoint_regionsD that by blast
    moreover have "in_blocks ?h pb 3 a" "in_region ?p 8328 a" using that by (simp_all add: in_blocks_def in_region_def)
    ultimately show ?thesis using same[OF o(2)] o(10) by simp
  qed
  have live: "klive ?h ?s ?P" using inv by (simp add: sched_inv_def)
  have "load32 m (?p + 132) = load32 m2 (?p + 132)" using heap[OF o(2) in132] by (intro load32_cong)
  then have task: "process_task m ?p = block_addr ?h tb" by (simp add: m2_def)
  have "in_blocks ?h pb 3 (?p + 8328)" "\<not> in_region (?p + 132) 4 (?p + 8328)" by (simp_all add: in_blocks_def in_region_def)
  then have dat: "program_data ?h m ?p [db]" using o(8) same[OF o(2)] cells[of 8332] by (simp add: program_data_def)
  have al: "process_allocs ?h A m ?p (set [pb, sb, db]) Map.empty"
  proof (rule no_allocs)
    fix off :: nat assume off: "136 \<le> off" "off + 4 \<le> 8328"
    have "memory s a = (\<lambda>_. 0) a" if "in_region (?p + of_nat off) 4 a" for a using o(10)[of a] in_region_sub[OF that off(2)] by simp
    then have "load32 (memory s) (?p + of_nat off) = load32 (\<lambda>_. 0) (?p + of_nat off)" by (rule load32_cong)
    then show "load32 m (?p + of_nat off) = 0" using cells[of off] off by (simp add: load32_def)
  qed
  have ld: "loaded ?h A (memory ?s) pb tb sb [db] Map.empty"
    using o(2-5,9) task dat al cells[of 8336] by (simp add: loaded_def)
  have id: "unat (load16 (memory ?s) ?p) = 0" using zero[of ?p] zero[of "?p + 1"] by (simp add: load16_def in_region_def)
  have nl: "null_run ?h (memory ?s) 0" "null_apart ?h ?P 0"
    using kernel_null_apart[OF live, of 0] kernel_null_entry by (simp_all add: null_run_def m_def)
  have tab: "unat a < 0x7E00 \<and> \<not> null_bytes ?h 0 a" if "in_region (processes_at exit_links) 48 a" for a
    using that by (auto simp: exit_links_def null_bytes_def in_region_iff_nat kernel_null_entry(1))
  have apart: "table_apart exit_links ?h ?P 0" using tab low_unowned[OF live] unfolding table_apart_def by blast
  have last: "last_process exit_links (memory ?s) 0"
  proof -
    have "process_slot exit_links m j = 0" if "j < 12" for j
    proof -
      have "m a = (\<lambda>_. 0) a" if "in_region (processes_at exit_links + 4 * of_nat j) 4 a" for a
        using tab[OF slot_region[OF \<open>j < 12\<close> that]] by (simp add: m_def)
      then have "process_slot exit_links m j = process_slot exit_links (\<lambda>_. 0) j" unfolding process_slot_def by (rule load32_cong)
      then show ?thesis by (simp add: process_slot_def load32_def)
    qed
    then show ?thesis by (simp add: last_process_def)
  qed
  have "?p \<noteq> 0" using block_addr_nonzero[OF klive_block(1,2)[OF live inv_live(2)[OF inv o(2)]]] .
  then show thesis using that[OF inv ld id nl apart last] by blast
qed

theorem process_terminate_releases_witness:
  "\<exists>(s :: unit prstate) s' A pb sb db tb q'. current_process s \<noteq> block_addr kernel_heap_layout pb
     \<and> process_terminate exit_links (block_addr kernel_heap_layout pb) s = Some (0, s')
     \<and> loaded kernel_heap_layout A (memory s) pb tb sb [db] Map.empty
     \<and> sched_inv kernel_heap_layout (terminated A sb [db] Map.empty) s' [] q' \<and> terminated A sb [db] Map.empty pb = Some 3"
proof -
  let ?h = kernel_heap_layout
  obtain s :: "unit prstate" and A tb c bd fs q pb sb db where o: "sched_inv ?h A s ([] @ (tb, c, bd, fs) # []) q"
    "loaded ?h A (memory s) pb tb sb [db] Map.empty" "unat (load16 (memory s) (block_addr ?h pb)) = 0"
    "null_run ?h (memory s) 0" "null_apart ?h (with_pages A (set (owned_pages ([] @ (tb, c, bd, fs) # [])))) 0"
    "table_apart exit_links ?h (with_pages A (set (owned_pages ([] @ (tb, c, bd, fs) # [])))) 0" "block_addr ?h pb \<noteq> 0"
    by (rule some_loaded) auto
  let ?s = "s\<lparr>current_process := 0\<rparr>"
  have inv: "sched_inv ?h A ?s ([] @ (tb, c, bd, fs) # []) q" and m: "memory ?s = memory s" "current_process ?s \<noteq> block_addr ?h pb"
    using o(1,7) by simp_all
  obtain s' q' where "process_terminate exit_links (block_addr ?h pb) ?s = Some (0, s')" "sched_inv ?h (terminated A sb [db] Map.empty) s' [] q'"
    "terminated A sb [db] Map.empty pb = Some 3"
    using process_terminate_releases[OF inv kernel_heap_below_top, unfolded m(1), OF o(2,4,5,6,3)] m(2) by auto
  moreover have "loaded ?h A (memory ?s) pb tb sb [db] Map.empty" using o(2) by simp
  ultimately show ?thesis using m(2) by blast
qed

theorem process_terminate_last_panics_witness:
  "\<exists>(s :: unit prstate) A pb sb db tb. loaded kernel_heap_layout A (memory s) pb tb sb [db] Map.empty
     \<and> current_process s = block_addr kernel_heap_layout pb
     \<and> process_terminate exit_links (block_addr kernel_heap_layout pb) s = None"
proof -
  let ?h = kernel_heap_layout
  obtain s :: "unit prstate" and A tb c bd fs q pb sb db where o: "sched_inv ?h A s ([] @ (tb, c, bd, fs) # []) q"
    "loaded ?h A (memory s) pb tb sb [db] Map.empty" "unat (load16 (memory s) (block_addr ?h pb)) = 0"
    "null_run ?h (memory s) 0" "null_apart ?h (with_pages A (set (owned_pages ([] @ (tb, c, bd, fs) # [])))) 0"
    "table_apart exit_links ?h (with_pages A (set (owned_pages ([] @ (tb, c, bd, fs) # [])))) 0" "last_process exit_links (memory s) 0"
    by (rule some_loaded) auto
  let ?s = "s\<lparr>current_process := block_addr ?h pb\<rparr>"
  have inv: "sched_inv ?h A ?s ([] @ (tb, c, bd, fs) # []) q" and m: "memory ?s = memory s" "current_process ?s = block_addr ?h pb"
    using o(1) by simp_all
  have "process_terminate exit_links (block_addr ?h pb) ?s = None"
    using process_terminate_last_panics[OF inv kernel_heap_below_top, unfolded m(1), OF o(2,4,5,6,3) _ m(2) o(7)] by simp
  moreover have "loaded ?h A (memory ?s) pb tb sb [db] Map.empty" using o(2) by simp
  ultimately show ?thesis using m(2) by blast
qed

end
