(* ===== verification/ProgramFile.thy ===== *)
theory ProgramFile
  imports FileSession ElfImage Process
begin

text \<open>
  Loading the file of a program: \<^verbatim>\<open>elf_load\<close> of \<^verbatim>\<open>src/src/loader/elfloader.c\<close> and \<^verbatim>\<open>process_load_binary\<close>, \<^verbatim>\<open>process_load_data\<close> of
  \<^verbatim>\<open>src/src/task/process.c\<close>.  Both open the file, ask for its size, allocate that much and read into it.  An open session
  (\<open>session_at\<close>) is kept by every step in between, so each loader is a chain of these steps.
\<close>

subsection \<open>More allocations\<close>

lemma stable_grow: "unused_blocks (nblocks h) A' \<subseteq> unused_blocks (nblocks h) A \<Longrightarrow> stable h A a \<Longrightarrow> stable h A' a"
  by (auto simp: stable_def)

lemma fixed_grow: "unused_blocks (nblocks h) A' \<subseteq> unused_blocks (nblocks h) A \<Longrightarrow> fixed lm h A st a \<Longrightarrow> fixed lm h A' st a"
  using stable_grow[of h A' A a] by (simp add: fixed_def)

lemma open_ready_grow:
  assumes "unused_blocks (nblocks h) A' \<subseteq> unused_blocks (nblocks h) A" "open_ready lm h A m fp st cl dat items es"
  shows "open_ready lm h A' m fp st cl dat items es"
proof -
  have "kept (fixed lm h A' st) (volume_cells lm fp st \<union> search_cells (fp + 64) items (length es))"
    by (rule kept_mono[of "fixed lm h A st"]) (use assms fixed_grow[OF assms(1)] in \<open>auto simp: open_ready_def\<close>)
  then show ?thesis using assms(2) stable_grow[OF assms(1)] by (simp add: open_ready_def)
qed

lemma caller_buffer_grow:
  "unused_blocks (nblocks h) A' \<subseteq> unused_blocks (nblocks h) A \<Longrightarrow> caller_buffer lm h A fp st out n \<Longrightarrow> caller_buffer lm h A' fp st out n"
  using fixed_grow[of h A' A lm st] by (simp add: caller_buffer_def)

lemma unused_new: "A b = None \<Longrightarrow> unused_blocks T (A(b \<mapsto> n)) \<subseteq> unused_blocks T A"
  by (force simp: unused_blocks_def unused_def taken_by_def split: if_splits)

text \<open>A run of free blocks long enough for \<open>d + 1\<close> requests still serves one of them when any \<open>d\<close> blocks are gone.\<close>

lemma fits_spare:
  assumes "fits F T (Suc (card B) * n) s" "finite B" "\<And>x. F x \<Longrightarrow> x \<notin> B \<Longrightarrow> G x"
  shows "\<exists>s'. fits G T n s'"
proof (rule ccontr)
  assume none: "\<not> ?thesis"
  let ?at = "\<lambda>j. s + j * n"
  have "\<exists>x \<in> B. ?at j \<le> x \<and> x < ?at j + n" if j: "j \<le> card B" for j
  proof (rule ccontr)
    assume *: "\<not> ?thesis"
    have le: "j * n + n \<le> Suc (card B) * n" using mult_le_mono1[of "Suc j" "Suc (card B)" n] j by simp
    have "G (?at j + k)" if "k < n" for k
    proof (rule assms(3))
      have "j * n + k < Suc (card B) * n" using le that by linarith
      then show "F (?at j + k)" using assms(1) unfolding fits_def add.assoc by blast
      show "?at j + k \<notin> B" using * that by auto
    qed
    moreover have "?at j + n \<le> T" using assms(1) le unfolding fits_def by linarith
    ultimately have "fits G T n (?at j)" by (simp add: fits_def)
    with none show False by blast
  qed
  then obtain f where f: "\<And>j. j \<le> card B \<Longrightarrow> f j \<in> B \<and> ?at j \<le> f j \<and> f j < ?at j + n" by metis
  have "inj_on f {..card B}"
  proof (rule inj_onI)
    fix i j assume ij: "i \<in> {..card B}" "j \<in> {..card B}" "f i = f j"
    have "\<not> i' < j'" if "?at i' \<le> x" "x < ?at i' + n" "?at j' \<le> x" for i' j' x
      using mult_le_mono1[of "Suc i'" j' n] that by (auto simp: Suc_le_eq)
    then show "i = j" using f[of i] f[of j] ij by (metis atMost_iff linorder_neqE_nat)
  qed
  then have "card {..card B} \<le> card B" using card_inj_on_le[of f "{..card B}" B] f assms(2) by blast
  then show False by simp
qed

lemma tookD:
  assumes "took h A s B s'"
  shows "klive h s' (with_pages A B)" "b \<in> B \<Longrightarrow> A b = None" "B \<subseteq> unused_blocks (nblocks h) A"
  using assms unfolding took_def by blast+

subsection \<open>An open session\<close>

text \<open>
  Descriptor \<open>i + 1\<close> is an open file at position 0; beside the allocations \<open>A\<close> its four pages are live, and the volume, the driver's
  scratch buffers and the descriptor table are not in memory the heap can hand out.
\<close>

definition session_at ::
    "'l filelinks_scheme \<Rightarrow> 'd ports \<Rightarrow> ('d \<Rightarrow> bool) \<Rightarrow> (nat \<Rightarrow> nat \<Rightarrow> u8) \<Rightarrow> heap \<Rightarrow> (nat \<rightharpoonup> nat) \<Rightarrow> u32 \<Rightarrow> u32 \<Rightarrow> nat \<Rightarrow> nat \<Rightarrow> nat \<Rightarrow> nat
     \<Rightarrow> nat \<Rightarrow> nat \<Rightarrow> nat \<Rightarrow> nat \<Rightarrow> u8 list \<Rightarrow> ('d, 'a) iostate_scheme \<Rightarrow> bool" where
  "session_at lm hw idle img h A fp st cl dat fc i db fb ib eb xs s \<longleftrightarrow> i < 511 \<and> took h A s {db, fb, ib, eb} s
     \<and> (\<exists>m items es. open_ready lm h A m fp st cl dat items es) \<and> open_file lm h (memory s) (Suc i) db fb ib eb
     \<and> fd_opened lm hw idle img (opened_file h fp st cl dat fb ib eb fc)
         (opened_cells lm (opened_file h fp st cl dat fb ib eb fc) (Suc i) (block_addr h db)) (block_addr h db) s (int (Suc i)) 0 xs"

text \<open>What a caller may write while the file is open.\<close>

definition spare :: "'l filelinks_scheme \<Rightarrow> heap \<Rightarrow> (nat \<rightharpoonup> nat) \<Rightarrow> u32 \<Rightarrow> u32 \<Rightarrow> u32 \<Rightarrow> bool" where
  "spare lm h A fp st a \<longleftrightarrow> fixed lm h A st a \<and> (\<forall>(p, j) \<in> volume_cells lm fp st. \<not> in_region p j a)"

lemma buffer_spare: "caller_buffer lm h A fp st out n \<Longrightarrow> in_region out n a \<Longrightarrow> spare lm h A fp st a"
  by (auto simp: caller_buffer_def spare_def)

text \<open>The bytes an open session lives in are not spare.\<close>

lemma session_apart:
  assumes t: "took h A s {db, fb, ib, eb} s" and sp: "spare lm h A fp st a"
  shows "\<not> in_table h a" "\<not> in_region (filedescriptors_at lm) 2048 a" "\<not> in_region (fat16_fs_at lm + 20) 4 a"
    and "b \<in> {db, fb, ib, eb} \<Longrightarrow> \<not> in_blocks h b 1 a"
proof -
  show "\<not> in_table h a" "\<not> in_region (filedescriptors_at lm) 2048 a" using sp by (simp_all add: spare_def fixed_def stable_def)
  show "\<not> in_region (fat16_fs_at lm + 20) 4 a" using sp by (auto simp: spare_def volume_cells_def)
  show "\<not> in_blocks h b 1 a" if "b \<in> {db, fb, ib, eb}"
    using sp t that by (auto simp: spare_def fixed_def stable_def took_def)
qed

lemma session_cells_apart:
  assumes t: "took h A s {db, fb, ib, eb} s" and sp: "spare lm h A fp st a" and i: "i < 511"
  shows "\<not> opened_cells lm (opened_file h fp st cl dat fb ib eb fc) (Suc i) (block_addr h db) a"
proof
  assume c: "opened_cells lm (opened_file h fp st cl dat fb ib eb fc) (Suc i) (block_addr h db) a"
  have "kept (\<lambda>a. \<exists>(p, j) \<in> volume_cells lm fp st. in_region p j a) (volume_cells lm fp st)" by (auto simp: kept_def)
  from opened_cells_cases[OF c _ _ this] have "\<exists>b \<in> {db, fb, ib, eb}. in_blocks h b 1 a"
    using i session_apart(2)[OF t sp] sp cell_in_block(1)[of h fb a] by (auto simp: spare_def)
  then show False using session_apart(4)[OF t sp] by blast
qed

lemma session_moved:
  assumes ses: "session_at lm hw idle img h A fp st cl dat fc i db fb ib eb xs s" and t: "took h A' s' {db, fb, ib, eb} s'"
    and rd: "open_ready lm h A' m fp st cl dat items es" and dev: "idle (device s')"
    and pos: "load32 (memory s') (block_addr h fb + 4) = load32 (memory s) (block_addr h fb + 4)"
    and same: "\<And>a. in_region (filedescriptors_at lm) 2048 a \<or> (\<exists>(p, j) \<in> volume_cells lm fp st. in_region p j a)
      \<or> in_region (block_addr h fb) 4 a \<or> in_blocks h ib 1 a \<or> in_blocks h eb 1 a \<or> in_blocks h db 1 a \<Longrightarrow> memory s' a = memory s a"
  shows "session_at lm hw idle img h A' fp st cl dat fc i db fb ib eb xs s'"
proof -
  let ?L = "opened_file h fp st cl dat fb ib eb fc"
  let ?K = "opened_cells lm ?L (Suc i) (block_addr h db)"
  have i: "i < 511" and op: "open_file lm h (memory s) (Suc i) db fb ib eb"
    and fd: "fd_opened lm hw idle img ?L ?K (block_addr h db) s (int (Suc i)) 0 xs"
    using ses by (simp_all add: session_at_def)
  have op': "open_file lm h (memory s') (Suc i) db fb ib eb"
    by (rule open_file_cong[OF op]) (use same in \<open>auto simp: volume_cells_def\<close>)
  have K: "memory s' a = memory s a" if "?K a" for a
  proof (rule same)
    have "kept (\<lambda>a. \<exists>(p, j) \<in> volume_cells lm fp st. in_region p j a) (volume_cells lm fp st)" by (auto simp: kept_def)
    from opened_cells_cases[OF that _ _ this] i show "in_region (filedescriptors_at lm) 2048 a \<or> (\<exists>(p, j) \<in> volume_cells lm fp st. in_region p j a)
      \<or> in_region (block_addr h fb) 4 a \<or> in_blocks h ib 1 a \<or> in_blocks h eb 1 a \<or> in_blocks h db 1 a" by auto
  qed
  have pos': "load32 (memory s') (file_desc ?L + 4) = of_nat 0"
    using fd pos by (simp add: fd_opened_def fat_opened_def opened_file_def)
  have "fat_opened lm hw idle img ?L ?K s' (file_desc ?L) 0 xs" by (rule fat_opened_step[OF fd_openedD[OF fd] dev K pos'])
  then have "fd_opened lm hw idle img ?L ?K (block_addr h db) s' (int (Suc i)) 0 xs"
    by (rule fd_opened_step[OF fd]) (simp add: K)
  then show ?thesis using i t rd op' unfolding session_at_def by blast
qed

lemma session_idle: "session_at lm hw idle img h A fp st cl dat fc i db fb ib eb xs s \<Longrightarrow> idle (device s)"
  by (simp add: session_at_def fd_opened_def fat_opened_def)

lemma session_write:
  assumes ses: "session_at lm hw idle img h A fp st cl dat fc i db fb ib eb xs s"
    and m: "\<And>a. m a \<noteq> memory s a \<Longrightarrow> spare lm h A fp st a"
  shows "session_at lm hw idle img h A fp st cl dat fc i db fb ib eb xs (s\<lparr>memory := m\<rparr>)"
proof -
  obtain m0 items es where t: "took h A s {db, fb, ib, eb} s" and rd: "open_ready lm h A m0 fp st cl dat items es"
    using ses unfolding session_at_def by blast
  note ap = session_apart[OF t m]
  have "klive h (s\<lparr>memory := m\<rparr>) (with_pages A {db, fb, ib, eb})"
    by (rule klive_frame) (use t ap(1) in \<open>auto simp: took_def\<close>)
  then have t': "took h A (s\<lparr>memory := m\<rparr>) {db, fb, ib, eb} (s\<lparr>memory := m\<rparr>)" using t by (simp add: took_def)
  have pg: "m a = memory s a" if "b \<in> {db, fb, ib, eb}" "in_blocks h b 1 a" for a b using ap(4)[of a b] that by blast
  have pos: "load32 m (block_addr h fb + 4) = load32 (memory s) (block_addr h fb + 4)"
    by (rule load32_cong) (use pg[of fb] cell_in_block(2)[of h fb] in blast)
  have "m a = memory s a" if "in_region (filedescriptors_at lm) 2048 a \<or> (\<exists>(p, j) \<in> volume_cells lm fp st. in_region p j a)
      \<or> in_region (block_addr h fb) 4 a \<or> in_blocks h ib 1 a \<or> in_blocks h eb 1 a \<or> in_blocks h db 1 a" for a
    using m[of a] ap(2)[of a] that pg cell_in_block(1)[of h fb a] by (auto simp: spare_def)
  then show ?thesis by (intro session_moved[OF ses t' rd]) (simp_all add: session_idle[OF ses] pos)
qed

subsection \<open>The steps of a session\<close>

lemma tookI: "klive h s (with_pages A B) \<Longrightarrow> \<forall>b \<in> B. A b = None \<Longrightarrow> B \<subseteq> unused_blocks (nblocks h) A \<Longrightarrow> took h A s B s"
  by (simp add: took_def unused_with_pages)

lemma session_open:
  fixes s :: "('d, 'a) iostate_scheme"
  assumes live: "klive h s A" and room: "7 \<le> card (unused_blocks (nblocks h) A)"
    and rq: "open_request lm h A (memory s) p xs mode c" and rd: "open_ready lm h A (memory s) fp st cl dat items es"
    and en: "entry_found (memory s) items es c k"
    and fc: "fat16_get_first_cluster_for_directory_item (items + 32 * of_nat k) (memory s) = of_nat fc" "cluster_on_disk cl dat fc"
    and i: "first_free lm (memory s) i" "i < 511" and dev: "ata_disk hw idle img" "idle (device s)"
  obtains P db fb ib eb s1 where "fopen lm hw p mode s = Some (int (Suc i), s1)"
    "session_at lm hw idle img h (with_pages A P) fp st cl dat fc i db fb ib eb
       (file_contents img cl dat fc (unat (load32 (memory s) (items + 32 * of_nat k + 28)))) s1"
    "card P = 3" "P \<subseteq> unused_blocks (nblocks h) A" "\<forall>b \<in> P. A b = None"
    "\<And>a. fixed lm h A st a \<Longrightarrow> memory s1 a = memory s a"
    "\<And>j. j < 512 \<Longrightarrow> j \<noteq> i \<Longrightarrow> load32 (memory s1) (descriptor_slot lm j) = load32 (memory s) (descriptor_slot lm j)"
    "memory_only s s1"
proof -
  let ?xs = "file_contents img cl dat fc (unat (load32 (memory s) (items + 32 * of_nat k + 28)))"
  obtain P db fb ib eb s1 where fo: "fopen lm hw p mode s = Some (int (Suc i), s1)"
    and t: "took h A s1 (P \<union> {db, fb, ib, eb}) s1" "P \<inter> {db, fb, ib, eb} = {}" "card P = 3"
    and opf: "open_file lm h (memory s1) (Suc i) db fb ib eb"
    and fdo: "fd_opened lm hw idle img (opened_file h fp st cl dat fb ib eb fc)
         (opened_cells lm (opened_file h fp st cl dat fb ib eb fc) (Suc i) (block_addr h db)) (block_addr h db) s1 (int (Suc i)) 0 ?xs"
    and sl: "\<forall>j < 512. j \<noteq> i \<longrightarrow> load32 (memory s1) (descriptor_slot lm j) = load32 (memory s) (descriptor_slot lm j)"
    and fx: "\<forall>a. fixed lm h A st a \<longrightarrow> memory s1 a = memory s a" and mo: "memory_only s s1"
    using fopen_ok[OF assms] by blast
  have new: "\<forall>b \<in> P \<union> {db, fb, ib, eb}. A b = None" and sub: "P \<union> {db, fb, ib, eb} \<subseteq> unused_blocks (nblocks h) A"
    and live1: "klive h s1 (with_pages A (P \<union> {db, fb, ib, eb}))" using t(1) by (simp_all add: took_def)
  have newP: "\<forall>b \<in> P. A b = None" using new by blast
  have newF: "\<forall>b \<in> {db, fb, ib, eb}. with_pages A P b = None" using new t(2) by (auto simp: with_pages_def)
  have U: "unused_blocks (nblocks h) (with_pages A P) = unused_blocks (nblocks h) A - P" by (rule unused_with_pages[OF newP])
  have "took h (with_pages A P) s1 {db, fb, ib, eb} s1"
    by (rule tookI[OF _ newF]) (use live1 sub t(2) in \<open>auto simp: U with_pages_Un\<close>)
  moreover have "open_ready lm h (with_pages A P) (memory s) fp st cl dat items es"
    by (rule open_ready_grow[OF _ rd]) (use U in blast)
  ultimately have "session_at lm hw idle img h (with_pages A P) fp st cl dat fc i db fb ib eb ?xs s1"
    using i(2) opf fdo unfolding session_at_def by blast
  then show thesis using that[OF fo _ t(3) _ newP] sub fx sl mo by blast
qed

lemma fat16_stat_frame:
  "fat16_stat d f buf s = (r, s') \<Longrightarrow> s' = s\<lparr>memory := memory s'\<rparr> \<and> (\<forall>a. \<not> in_region buf 8 a \<longrightarrow> memory s' a = memory s a)"
proof -
  assume r: "fat16_stat d f buf s = (r, s')"
  have "\<not> in_region buf 4 a" "\<not> in_region (buf + 4) 4 a" if "\<not> in_region buf 8 a" for a
    using in_region_sub[of buf 0 4 a 8] in_region_sub[of buf 4 4 a 8] that by auto
  then show ?thesis using r by (auto simp: fat16_stat_def Let_def store32_outside split: if_splits)
qed

lemma session_stat:
  assumes ses: "session_at lm hw idle img h A fp st cl dat fc i db fb ib eb xs s" and buf: "caller_buffer lm h A fp st sb 8"
  obtains m where "fstat lm (int (Suc i)) sb s = Some (0, s\<lparr>memory := m\<rparr>)"
    "session_at lm hw idle img h A fp st cl dat fc i db fb ib eb xs (s\<lparr>memory := m\<rparr>)"
    "load32 m (sb + 4) = of_nat (length xs)" "\<And>a. \<not> in_region sb 8 a \<Longrightarrow> m a = memory s a"
proof -
  let ?L = "opened_file h fp st cl dat fb ib eb fc"
  let ?K = "opened_cells lm ?L (Suc i) (block_addr h db)"
  have t: "took h A s {db, fb, ib, eb} s" and i: "i < 511"
    and fd: "fd_opened lm hw idle img ?L ?K (block_addr h db) s (int (Suc i)) 0 xs" using ses by (simp_all add: session_at_def)
  have "\<not> ?K a \<and> \<not> in_region (file_desc ?L + 4) 4 a" if "in_region sb 8 a" for a
    using session_cells_apart[OF t buffer_spare[OF buf that] i] session_apart(4)[OF t buffer_spare[OF buf that], of fb]
      cell_in_block(2)[of h fb a] by (auto simp: opened_file_def)
  then have w: "fat_writable ?L ?K sb 8" by (simp add: fat_writable_def)
  obtain s' where r: "fat16_stat (disk_at lm) (file_desc ?L) sb s = (0, s')" "load32 (memory s') (sb + 4) = of_nat (length xs)"
    using fat_stat_size[OF fd_openedD[OF fd] w] by blast
  note fr = fat16_stat_frame[OF r(1)]
  have e: "s\<lparr>memory := memory s'\<rparr> = s'" using fr by simp
  have "session_at lm hw idle img h A fp st cl dat fc i db fb ib eb xs (s\<lparr>memory := memory s'\<rparr>)"
    by (rule session_write[OF ses]) (use fr buffer_spare[OF buf] in blast)
  then show thesis using that[of "memory s'"] fd_calls(3)[OF fd, of sb] r fr e by simp
qed

lemma session_read:
  assumes ses: "session_at lm hw idle img h A fp st cl dat fc i db fb ib eb xs s" and buf: "caller_buffer lm h A fp st out n"
    and n: "0 < n" "n \<le> length xs" "n \<le> 512 * cl"
  obtains d' m where "fread lm hw out (of_nat n) 1 (int (Suc i)) s = Some (1, s\<lparr>device := d', memory := m\<rparr>)"
    "session_at lm hw idle img h A fp st cl dat fc i db fb ib eb xs (s\<lparr>device := d', memory := m\<rparr>)"
    "\<And>j. j < n \<Longrightarrow> m (out + of_nat j) = xs ! j" "\<And>a. fixed lm h A st a \<Longrightarrow> \<not> in_region out n a \<Longrightarrow> m a = memory s a"
    "\<And>a. in_region (filedescriptors_at lm) 2048 a \<Longrightarrow> m a = memory s a" "idle d'"
proof -
  define L where "L = opened_file h fp st cl dat fb ib eb fc"
  let ?K = "reader_memory lm L out n" and ?O = "opened_cells lm L (Suc i) (block_addr h db)"
  obtain m0 items es where t: "took h A s {db, fb, ib, eb} s" and i: "i < 511" and rd: "open_ready lm h A m0 fp st cl dat items es"
    and op: "open_file lm h (memory s) (Suc i) db fb ib eb"
    and fd: "fd_opened lm hw idle img L ?O (block_addr h db) s (int (Suc i)) 0 xs"
    using ses unfolding session_at_def L_def by blast
  have L: "file_desc L = block_addr h fb" "vol_stream L = st" "vol_cluster L = cl" by (simp_all add: L_def opened_file_def)
  have dist: "distinct [db, fb, ib, eb]" using op by (simp add: open_file_def)
  have fd2: "fd_opened lm hw idle img L ?K (block_addr h db) s (int (Suc i)) 0 xs"
    by (rule fd_opened_widen[OF fd]) (use session_cells_apart[OF t buffer_spare[OF buf] i] in \<open>auto simp: L_def\<close>)
  have keeps: "?K a" if "in_table h a \<or> in_region (filedescriptors_at lm) 2048 a \<or> (\<exists>(p, j) \<in> volume_cells lm fp st. in_region p j a)
      \<or> in_blocks h db 1 a \<or> in_blocks h ib 1 a \<or> in_blocks h eb 1 a \<or> in_region (block_addr h fb) 4 a" for a
    unfolding L_def by (rule reader_keeps[OF t subset_refl dist rd buf that])
  have w: "fat_writable L ?K out n"
    using buffer_fresh[OF t _ buf, of fb] by (auto simp: fat_writable_def reader_memory_def L)
  have r: "fat_readable lm L 0 n out" using buf n(3) by (simp add: fat_readable_def L caller_buffer_def)
  obtain d' m where rdm: "fat16_read lm hw (disk_at lm) (file_desc L) (of_nat n) 1 out s = Some (1, s\<lparr>device := d', memory := m\<rparr>)"
    "\<And>j. j < n \<Longrightarrow> m (out + of_nat j) = xs ! j" "\<And>a. ?K a \<Longrightarrow> m a = memory s a"
    "fat_opened lm hw idle img L ?K (s\<lparr>device := d', memory := m\<rparr>) (file_desc L) 0 xs"
    using fat_read_exact[OF fd_openedD[OF fd2] n(1) _ w r] n(2) by auto
  let ?s = "s\<lparr>device := d', memory := m\<rparr>"
  have "length xs < 2 ^ 32" using fd by (simp add: fd_opened_def fat_opened_def)
  then have "n < 2 ^ 32" using n(2) by simp
  then have "(of_nat n :: u32) \<noteq> 0" using n(1) by (metis unat_0 unat_of_nat_u32 less_numeral_extra(3))
  then have fr: "fread lm hw out (of_nat n) 1 (int (Suc i)) s = Some (1, ?s)" using fd_calls(2)[OF fd2] rdm(1) by simp
  have "klive h (s\<lparr>memory := m\<rparr>) (with_pages A {db, fb, ib, eb})"
    by (rule klive_frame) (use t rdm(3) keeps in \<open>auto simp: took_def\<close>)
  then have "klive h ?s (with_pages A {db, fb, ib, eb})" by (auto simp: klive_def kheap_rel_def)
  then have "took h A ?s {db, fb, ib, eb} ?s" using t by (simp add: took_def)
  moreover have "load32 m (block_addr h fb + 4) = load32 (memory s) (block_addr h fb + 4)"
    using rdm(4) fd by (simp add: fat_opened_def fd_opened_def L)
  moreover have "memory ?s a = memory s a" if "in_region (filedescriptors_at lm) 2048 a \<or> (\<exists>(p, j) \<in> volume_cells lm fp st. in_region p j a)
      \<or> in_region (block_addr h fb) 4 a \<or> in_blocks h ib 1 a \<or> in_blocks h eb 1 a \<or> in_blocks h db 1 a" for a
    using that rdm(3) keeps by auto
  ultimately have "session_at lm hw idle img h A fp st cl dat fc i db fb ib eb xs ?s"
    using rdm(4) by (intro session_moved[OF ses _ rd]) (simp_all add: fat_opened_def)
  moreover have "m a = memory s a" if "fixed lm h A st a" "\<not> in_region out n a" for a
  proof (rule rdm(3))
    have "\<not> in_blocks h fb 1 a" using that t by (auto simp: fixed_def stable_def took_def)
    then show "?K a" using that cell_in_block(2)[of h fb a] by (auto simp: reader_memory_def fixed_def scratch_def L)
  qed
  moreover have "idle d'" using rdm(4) by (simp add: fat_opened_def)
  ultimately show thesis using that[OF fr] rdm(2,3) keeps by blast
qed

lemma run_block:
  assumes "heap_wf h" "b + n \<le> nblocks h" "in_blocks h b n a"
  shows "\<exists>j < n. in_blocks h (b + j) 1 a"
proof -
  have n: "0 < n" using assms(3) by (cases n) (auto simp: in_blocks_def)
  define k where "k = unat a - (unat (saddr h) + 4096 * b)"
  define j where "j = k div 4096"
  have k: "unat a = unat (saddr h) + 4096 * b + k" "k < 4096 * n"
    using assms(3) unfolding in_blocks_iff[OF assms(1,2) n] k_def by auto
  have "4096 * j \<le> k" "k < 4096 * j + 4096"
    using mult_div_mod_eq[of 4096 k] mod_less_divisor[of 4096 k] unfolding j_def by linarith+
  then have "j < n" "unat (saddr h) + 4096 * (b + j) \<le> unat a" "unat a < unat (saddr h) + 4096 * (b + j + 1)"
    using k by (simp_all add: algebra_simps)
  then show ?thesis using in_blocks_iff[OF assms(1), of "b + j" 1 a] assms(2) by auto
qed

text \<open>Fresh blocks do not meet stable memory.\<close>

lemma run_unstable:
  assumes "heap_wf h" "fits (unused A) (nblocks h) n b" "stable h A a"
  shows "\<not> in_blocks h b n a"
proof
  assume "in_blocks h b n a"
  then obtain j where "j < n" "in_blocks h (b + j) 1 a" using run_block[OF assms(1), of b n a] assms(2) by (auto simp: fits_def)
  moreover from this(1) have "b + j \<in> unused_blocks (nblocks h) A" using assms(2) by (auto simp: fits_def unused_blocks_def)
  ultimately show False using assms(3) by (auto simp: stable_def)
qed

lemma in_region_cut: "in_region p (n + k) a \<Longrightarrow> in_region p n a \<or> in_region (p + of_nat n) k a"
proof -
  assume a: "in_region p (n + k) a"
  show ?thesis
  proof (cases "unat (a - p) < n")
    case False
    have n: "n < 2 ^ 32" using False unat_u32_bound[of "a - p"] by simp
    have "a - (p + of_nat n) = (a - p) - of_nat n" by simp
    also have "unat \<dots> = unat (a - p) - n" using False n by (simp add: unat_sub_if' unat_of_nat_u32)
    finally show ?thesis using a False by (simp add: in_region_def)
  qed (simp add: in_region_def)
qed

lemma sized_in_run: "in_region (block_addr h b) (unat sz) a \<Longrightarrow> in_blocks h b (blocks_of sz) a"
  using blocks_of_ge[of sz] by (simp add: in_blocks_def in_region_def)

text \<open>An allocation while a few pages \<open>F\<close> are held beside \<open>A\<close>.\<close>

lemma alloc_beside:
  assumes t: "took h A s F s" and sz: "0 < sz" "unat sz \<le> 2 ^ 32 - 4096"
    and fit: "fits (unused (with_pages A F)) (nblocks h) (blocks_of sz) b\<^sub>0"
  obtains b m where "kzalloc sz s = (block_addr h b, s\<lparr>memory := m\<rparr>)" "took h (A(b \<mapsto> blocks_of sz)) (s\<lparr>memory := m\<rparr>) F (s\<lparr>memory := m\<rparr>)"
    "fits (unused A) (nblocks h) (blocks_of sz) b" "A b = None" "\<And>a. stable h A a \<Longrightarrow> m a = memory s a"
    "\<And>c a. c \<in> F \<Longrightarrow> in_blocks h c 1 a \<Longrightarrow> m a = memory s a"
proof -
  let ?n = "blocks_of sz" and ?W = "with_pages A F"
  have live: "klive h s ?W" and new: "\<forall>b \<in> F. A b = None" and U: "unused_blocks (nblocks h) ?W = unused_blocks (nblocks h) A - F"
    and sub: "F \<subseteq> unused_blocks (nblocks h) A" using t by (auto simp: took_def)
  have wf: "heap_wf h" and kr: "kheap_rel s ?W" and kh: "kernel_heap s = h" using live by (auto simp: klive_def kheap_rel_def heap_rel_def)
  have n: "0 < ?n" by (rule blocks_of_pos[OF sz(1)])
  obtain b m where kz: "kzalloc sz s = (block_addr h b, s\<lparr>memory := m\<rparr>)" "heap_rel h m (?W(b \<mapsto> ?n))"
    "fits (unused ?W) (nblocks h) ?n b" "\<And>a. \<not> in_table h a \<Longrightarrow> \<not> in_region (block_addr h b) (unat sz) a \<Longrightarrow> m a = memory s a"
    using kzalloc_ok[OF kr sz] fit kh by metis
  let ?s = "s\<lparr>memory := m\<rparr>" and ?A = "A(b \<mapsto> ?n)"
  have fitA: "fits (unused A) (nblocks h) ?n b"
    unfolding fits_def using kz(3) U by (auto simp: fits_def unused_blocks_def set_eq_iff)
  have Wb: "?W b = None" using kz.fits_unused_None[OF live kz(3) n] .
  then have b: "b \<notin> F" "A b = None" by (auto simp: with_pages_def split: if_splits)
  have eq: "?W(b \<mapsto> ?n) = with_pages ?A F" using b(1) by (auto simp: with_pages_def)
  have live': "klive h ?s (with_pages ?A F)" using kz(2) kh unfolding eq by (simp add: klive_def kheap_rel_def)
  have out: "\<not> taken_by ?A x b" if "x \<in> F" for x
  proof
    assume "taken_by ?A x b"
    then obtain j where "j < ?n" "x = b + j" by (auto simp: taken_by_def dest: le_Suc_ex)
    moreover from this have "taken_by ?W (b + j) (b + j)" using that by (simp add: taken_by_def)
    ultimately show False using kz(3) by (auto simp: fits_def unused_def)
  qed
  have "F \<subseteq> unused_blocks (nblocks h) ?A"
  proof
    fix x assume x: "x \<in> F"
    have "\<not> taken_by ?A x c" for c
      using x sub out by (cases "c = b") (auto simp: taken_by_def unused_blocks_def unused_def)
    then show "x \<in> unused_blocks (nblocks h) ?A" using x sub by (auto simp: unused_blocks_def unused_def)
  qed
  then have "took h ?A ?s F ?s" by (intro tookI[OF live']) (use new b in auto)
  moreover have "m a = memory s a" if "stable h A a" for a
    using that run_unstable[OF wf fitA that] sized_in_run by (intro kz(4)) (auto simp: stable_def)
  moreover have "m a = memory s a" if "c \<in> F" "in_blocks h c 1 a" for c a
  proof (rule kz(4))
    show "\<not> in_table h a" by (rule took_page(4)[OF t that])
    have "\<not> in_blocks h b ?n a"
      by (rule klive_apart[OF live', of c 1 b ?n a]) (use that b in \<open>auto simp: with_pages_def\<close>)
    then show "\<not> in_region (block_addr h b) (unat sz) a" using sized_in_run by blast
  qed
  ultimately show thesis using that[OF kz(1) _ fitA b(2)] by blast
qed

text \<open>A fresh run of blocks is a buffer the file can be read into.\<close>

lemma fresh_buffer:
  assumes live: "klive h s (with_pages (A(b \<mapsto> blocks_of sz)) F)" and rd: "open_ready lm h A m0 fp st cl dat items es"
    and buf: "caller_buffer lm h A fp st sb k" and sz: "0 < sz" and fit: "fits (unused A) (nblocks h) (blocks_of sz) b"
    and new: "A b = None" "b \<notin> F"
  shows "caller_buffer lm h (A(b \<mapsto> blocks_of sz)) fp st (block_addr h b) (unat sz)"
proof -
  let ?n = "blocks_of sz" and ?A = "A(b \<mapsto> blocks_of sz)"
  have one: "with_pages ?A F b = Some ?n" using new(2) by (simp add: with_pages_def)
  note blk = klive_block[OF live one]
  have ns: "\<not> stable h A a" if "in_region (block_addr h b) (unat sz) a" for a
    using run_unstable[OF blk(1) fit] sized_in_run[OF that] by blast
  have scr: "stable h A a" if "scratch lm st a \<or> in_region (filedescriptors_at lm) 2048 a" for a using rd that by (auto simp: open_ready_def)
  have vol: "stable h A a" if "\<exists>(p, j) \<in> volume_cells lm fp st. in_region p j a" for a
    using rd that by (auto simp: open_ready_def kept_def fixed_def)
  have stream: "stable h A a" if "in_region st 8 a" for a
  proof -
    have "in_region st 4 a \<or> in_region (st + 4) 4 a" using in_region_cut[of st 4 4 a] that by simp
    then show ?thesis using scr vol by (auto simp: scratch_def volume_cells_def)
  qed
  have "stable h ?A a" if a: "in_region (block_addr h b) (unat sz) a" for a
  proof -
    have ib: "in_blocks h b ?n a" by (rule sized_in_run[OF a])
    have "\<not> in_blocks h c 1 a" if c: "c \<in> unused_blocks (nblocks h) ?A" for c
    proof
      assume ca: "in_blocks h c 1 a"
      have "\<not> (b \<le> c \<and> c < b + ?n)" using c by (auto simp: unused_blocks_def unused_def taken_by_def)
      moreover have "c + 1 \<le> nblocks h" using c by (simp add: unused_blocks_def)
      ultimately show False using blocks_disjoint[OF blk(1,3,4), of c 1 a] ib ca by auto
    qed
    then show ?thesis using blocks_not_in_table[OF blk(1,3,4) ib] by (simp add: stable_def)
  qed
  moreover have "read_areas (stream_buf_at lm) st (block_addr h b) (unat sz)"
  proof -
    have p: "0 < unat sz" using sz by (simp add: word_less_nat_alt)
    have "disjoint_regions (stream_buf_at lm d) 512 st 8" for d using buf by (simp add: caller_buffer_def read_areas_def)
    moreover have "disjoint_regions st 8 (block_addr h b) (unat sz)"
      by (rule disjoint_regionsI) (use ns stream p in auto)
    moreover have "disjoint_regions (stream_buf_at lm d) 512 (block_addr h b) (unat sz)" for d
      by (rule disjoint_regionsI) (use ns scr p in \<open>auto simp: scratch_def\<close>)
    ultimately show ?thesis by (simp add: read_areas_def)
  qed
  moreover have "\<not> in_region p j a" if "in_region (block_addr h b) (unat sz) a" "(p, j) \<in> volume_cells lm fp st" for p j a
    using ns[OF that(1)] vol[of a] that(2) by blast
  moreover have "\<not> scratch lm st a" "\<not> in_region (filedescriptors_at lm) 2048 a" if "in_region (block_addr h b) (unat sz) a" for a
    using ns[OF that] scr[of a] by blast+
  ultimately show ?thesis by (auto simp: caller_buffer_def fixed_def)
qed

lemma session_alloc:
  assumes ses: "session_at lm hw idle img h A fp st cl dat fc i db fb ib eb xs s" and buf: "caller_buffer lm h A fp st sb k"
    and sz: "0 < sz" "unat sz \<le> 2 ^ 32 - 4096" and fit: "fits (unused (with_pages A {db, fb, ib, eb})) (nblocks h) (blocks_of sz) b\<^sub>0"
  obtains b m where "kzalloc sz s = (block_addr h b, s\<lparr>memory := m\<rparr>)" "block_addr h b \<noteq> NULL"
    "session_at lm hw idle img h (A(b \<mapsto> blocks_of sz)) fp st cl dat fc i db fb ib eb xs (s\<lparr>memory := m\<rparr>)"
    "fits (unused A) (nblocks h) (blocks_of sz) b" "A b = None"
    "caller_buffer lm h (A(b \<mapsto> blocks_of sz)) fp st (block_addr h b) (unat sz)"
    "\<And>a. stable h A a \<Longrightarrow> m a = memory s a"
proof -
  let ?F = "{db, fb, ib, eb}" and ?n = "blocks_of sz"
  obtain m0 items es where t: "took h A s ?F s" and rd: "open_ready lm h A m0 fp st cl dat items es"
    and op: "open_file lm h (memory s) (Suc i) db fb ib eb" using ses unfolding session_at_def by blast
  obtain b m where kz: "kzalloc sz s = (block_addr h b, s\<lparr>memory := m\<rparr>)"
    and t': "took h (A(b \<mapsto> ?n)) (s\<lparr>memory := m\<rparr>) ?F (s\<lparr>memory := m\<rparr>)"
    and b: "fits (unused A) (nblocks h) ?n b" "A b = None" and keep: "\<And>a. stable h A a \<Longrightarrow> m a = memory s a"
    and page: "\<And>c a. c \<in> ?F \<Longrightarrow> in_blocks h c 1 a \<Longrightarrow> m a = memory s a" by (rule alloc_beside[OF t sz fit]; blast)
  let ?s = "s\<lparr>memory := m\<rparr>" and ?A = "A(b \<mapsto> ?n)"
  note live' = tookD(1)[OF t']
  have nb: "b \<notin> ?F" using tookD(2)[OF t', of b] by (simp only: fun_upd_same option.distinct) blast
  have blk: "heap_wf h" "b < nblocks h" using klive_block(1,2)[OF live', of b ?n] nb by (auto simp: with_pages_def)
  have grow: "unused_blocks (nblocks h) ?A \<subseteq> unused_blocks (nblocks h) A" by (rule unused_new) (rule b(2))
  have vol: "stable h A a" if "(\<exists>(p, j) \<in> volume_cells lm fp st. in_region p j a) \<or> in_region (filedescriptors_at lm) 2048 a" for a
    using rd that by (auto simp: open_ready_def kept_def fixed_def)
  have pos: "load32 m (block_addr h fb + 4) = load32 (memory s) (block_addr h fb + 4)"
    by (rule load32_cong) (use page[of fb] cell_in_block(2)[of h fb] in blast)
  have "m a = memory s a" if "in_region (filedescriptors_at lm) 2048 a \<or> (\<exists>(p, j) \<in> volume_cells lm fp st. in_region p j a)
      \<or> in_region (block_addr h fb) 4 a \<or> in_blocks h ib 1 a \<or> in_blocks h eb 1 a \<or> in_blocks h db 1 a" for a
    using that keep[OF vol] page cell_in_block(1)[of h fb a] by blast
  then have "session_at lm hw idle img h ?A fp st cl dat fc i db fb ib eb xs ?s"
    by (intro session_moved[OF ses t' open_ready_grow[OF grow rd]]) (simp_all add: session_idle[OF ses] pos)
  moreover have "caller_buffer lm h ?A fp st (block_addr h b) (unat sz)"
    by (rule fresh_buffer[OF live' rd buf sz(1) b nb])
  ultimately show thesis using that[OF kz block_addr_nonzero[OF blk]] b keep by blast
qed

lemma session_close:
  assumes ses: "session_at lm hw idle img h A fp st cl dat fc i db fb ib eb xs s"
  obtains m where "fclose lm (int (Suc i)) s = Some (0, s\<lparr>memory := m\<rparr>)" "klive h (s\<lparr>memory := m\<rparr>) A"
    "\<And>j. j < 512 \<Longrightarrow> load32 m (descriptor_slot lm j) = (if j = i then 0 else load32 (memory s) (descriptor_slot lm j))"
    "\<And>a. fixed lm h A st a \<Longrightarrow> m a = memory s a"
proof -
  let ?F = "{db, fb, ib, eb}"
  obtain m0 items es where t: "took h A s ?F s" and rd: "open_ready lm h A m0 fp st cl dat items es" and i: "i < 511"
    and op: "open_file lm h (memory s) (Suc i) db fb ib eb" using ses unfolding session_at_def by blast
  have l: "klive h s (with_pages A ?F)" "\<forall>b \<in> ?F. A b = None" using t by (simp_all add: took_def)
  have ts: "table_stable lm h (with_pages A ?F)"
    unfolding table_stable_def using rd stable_mono[OF t] by (auto simp: open_ready_def)
  obtain m where cl: "fclose lm (int (Suc i)) s = Some (0, s\<lparr>memory := m\<rparr>)" "klive h (s\<lparr>memory := m\<rparr>) A"
    "\<And>j. j < 512 \<Longrightarrow> load32 m (descriptor_slot lm j) = (if j = i then 0 else load32 (memory s) (descriptor_slot lm j))"
    "\<And>a. \<not> in_table h a \<Longrightarrow> \<not> in_region (descriptor_slot lm i) 4 a \<Longrightarrow> m a = memory s a"
    using fclose_ok[OF l op ts] by auto
  show thesis
    by (rule that[OF cl(1,2)]) (use cl(3,4) slot_in_table[of i lm] i in \<open>auto simp: fixed_def stable_def\<close>)
qed


text \<open>The room the loaders need: whichever pages a session takes, a run for the file is left.\<close>

lemma unused_beside:
  assumes "\<forall>b \<in> B. A b = None" "fits (unused A) (nblocks h) (Suc (card B) * n) b\<^sub>0" "finite B"
  shows "\<exists>b. fits (unused (with_pages A B)) (nblocks h) n b"
proof -
  have "fits (\<lambda>x. x < nblocks h \<and> unused A x) (nblocks h) (Suc (card B) * n) b\<^sub>0" using assms(2) by (auto simp: fits_def)
  moreover have "unused (with_pages A B) x" if "x < nblocks h \<and> unused A x" "x \<notin> B" for x
  proof -
    have "x \<in> unused_blocks (nblocks h) (with_pages A B)" unfolding unused_with_pages[OF assms(1)] using that by (simp add: unused_blocks_def)
    then show ?thesis by (simp add: unused_blocks_def)
  qed
  ultimately show ?thesis using fits_spare[OF _ assms(3)] by blast
qed

lemma unused_beside_run:
  assumes "fits (unused A) (nblocks h) (2 * m + n) b\<^sub>0"
  shows "\<exists>b'. fits (unused (A(b \<mapsto> n))) (nblocks h) m b'"
proof (cases "b\<^sub>0 + m \<le> b")
  case True
  have "unused (A(b \<mapsto> n)) (b\<^sub>0 + k)" if "k < m" for k
    using assms that True by (auto simp: fits_def unused_def taken_by_def)
  then show ?thesis using assms by (intro exI[of _ b\<^sub>0]) (simp add: fits_def)
next
  case False
  have "unused (A(b \<mapsto> n)) (b\<^sub>0 + (m + n) + k)" if "k < m" for k
  proof -
    have "unused A (b\<^sub>0 + (m + n + k))" using assms that unfolding fits_def by (metis add.assoc add.commute mult_2 nat_add_left_cancel_less)
    then show ?thesis using False by (auto simp: unused_def taken_by_def add.assoc)
  qed
  then show ?thesis using assms by (intro exI[of _ "b\<^sub>0 + (m + n)"]) (simp add: fits_def)
qed

lemma fits_shorter: "fits F T n b \<Longrightarrow> k \<le> n \<Longrightarrow> fits F T k b"
  by (simp add: fits_def)

lemma fits_room:
  assumes "fits (unused A) (nblocks h) n b"
  shows "n \<le> card (unused_blocks (nblocks h) A)"
proof -
  have "{b..<b + n} \<subseteq> unused_blocks (nblocks h) A"
  proof
    fix x assume "x \<in> {b..<b + n}"
    then obtain j where "x = b + j" "j < n" by (auto simp: le_iff_add)
    then show "x \<in> unused_blocks (nblocks h) A" using assms by (simp add: fits_def unused_blocks_def)
  qed
  then show ?thesis using card_mono[of "unused_blocks (nblocks h) A" "{b..<b + n}"] by simp
qed

lemma session_sized:
  fixes s :: "('d, 'a) iostate_scheme"
  assumes live: "klive h s A" and rq: "open_request lm h A (memory s) p xs mode c" and rd: "open_ready lm h A (memory s) fp st cl dat items es"
    and en: "entry_found (memory s) items es c k"
    and fc: "fat16_get_first_cluster_for_directory_item (items + 32 * of_nat k) (memory s) = of_nat fc" "cluster_on_disk cl dat fc"
    and i: "first_free lm (memory s) i" "i < 511" and dev: "ata_disk hw idle img" "idle (device s)" and buf: "caller_buffer lm h A fp st sb 8"
    and sz: "0 < sz" "sz = load32 (memory s) (items + 32 * of_nat k + 28)" "unat sz \<le> 2 ^ 32 - 4096"
    and fit: "fits (unused A) (nblocks h) (8 * blocks_of sz) b\<^sub>0"
  obtains P db fb ib eb s1 m2 b m where "fopen lm hw p mode s = Some (int (Suc i), s1)"
    "fstat lm (int (Suc i)) sb s1 = Some (0, s1\<lparr>memory := m2\<rparr>)" "load32 m2 (sb + 4) = sz"
    "kzalloc sz (s1\<lparr>memory := m2\<rparr>) = (block_addr h b, s1\<lparr>memory := m\<rparr>)" "block_addr h b \<noteq> NULL" "load32 m (sb + 4) = sz"
    "session_at lm hw idle img h ((with_pages A P)(b \<mapsto> blocks_of sz)) fp st cl dat fc i db fb ib eb (file_contents img cl dat fc (unat sz)) (s1\<lparr>memory := m\<rparr>)"
    "caller_buffer lm h ((with_pages A P)(b \<mapsto> blocks_of sz)) fp st (block_addr h b) (unat sz)"
    "card P = 3" "\<forall>b \<in> P. A b = None" "with_pages A P b = None" "fits (unused A) (nblocks h) (blocks_of sz) b"
    "\<And>a. fixed lm h A st a \<Longrightarrow> \<not> in_region sb 8 a \<Longrightarrow> m a = memory s a"
    "\<And>j. j < 512 \<Longrightarrow> j \<noteq> i \<Longrightarrow> load32 m (descriptor_slot lm j) = load32 (memory s) (descriptor_slot lm j)" "memory_only s s1"
proof -
  let ?n = "blocks_of sz" and ?xs = "file_contents img cl dat fc (unat sz)"
  have n: "0 < ?n" by (rule blocks_of_pos[OF sz(1)])
  have room: "7 \<le> card (unused_blocks (nblocks h) A)" using fits_room[OF fit] n by linarith
  obtain P db fb ib eb s1 where fo: "fopen lm hw p mode s = Some (int (Suc i), s1)"
    and ses: "session_at lm hw idle img h (with_pages A P) fp st cl dat fc i db fb ib eb ?xs s1"
    and P: "card P = 3" "P \<subseteq> unused_blocks (nblocks h) A" "\<forall>b \<in> P. A b = None"
    and fx: "\<And>a. fixed lm h A st a \<Longrightarrow> memory s1 a = memory s a"
    and sl: "\<And>j. j < 512 \<Longrightarrow> j \<noteq> i \<Longrightarrow> load32 (memory s1) (descriptor_slot lm j) = load32 (memory s) (descriptor_slot lm j)" and mo: "memory_only s s1"
    by (rule session_open[OF live room rq rd en fc i dev, folded sz(2)]; blast)
  have grow: "unused_blocks (nblocks h) (with_pages A P) \<subseteq> unused_blocks (nblocks h) A" unfolding unused_with_pages[OF P(3)] by blast
  note buf' = caller_buffer_grow[OF grow buf]
  obtain m2 where st2: "fstat lm (int (Suc i)) sb s1 = Some (0, s1\<lparr>memory := m2\<rparr>)"
    "session_at lm hw idle img h (with_pages A P) fp st cl dat fc i db fb ib eb ?xs (s1\<lparr>memory := m2\<rparr>)"
    "load32 m2 (sb + 4) = of_nat (length ?xs)" "\<And>a. \<not> in_region sb 8 a \<Longrightarrow> m2 a = memory s1 a"
    by (rule session_stat[OF ses buf']; blast)
  let ?F = "{db, fb, ib, eb}"
  have t: "took h (with_pages A P) s1 ?F s1" and op: "open_file lm h (memory s1) (Suc i) db fb ib eb" using ses by (simp_all add: session_at_def)
  have new: "\<forall>b \<in> P \<union> ?F. A b = None"
  proof
    fix b assume "b \<in> P \<union> ?F"
    then show "A b = None" using P(3) tookD(2)[OF t, of b] by (auto simp: with_pages_def split: if_splits)
  qed
  have "card ?F = 4" "finite P" using op P(1) by (auto simp: open_file_def card_insert_if intro: card_ge_0_finite)
  then have "card (P \<union> ?F) \<le> 7" using card_Un_le[of P ?F] P(1) by simp
  then have "Suc (card (P \<union> ?F)) * ?n \<le> 8 * ?n" by (intro mult_le_mono1) simp
  then have "fits (unused A) (nblocks h) (Suc (card (P \<union> ?F)) * ?n) b\<^sub>0" using fits_shorter[OF fit] by blast
  then obtain b\<^sub>1 where fit1: "fits (unused (with_pages (with_pages A P) ?F)) (nblocks h) ?n b\<^sub>1"
    using unused_beside[OF new] \<open>finite P\<close> unfolding with_pages_Un by blast
  obtain b m where kz: "kzalloc sz (s1\<lparr>memory := m2\<rparr>) = (block_addr h b, s1\<lparr>memory := m2, memory := m\<rparr>)" "block_addr h b \<noteq> NULL"
    "session_at lm hw idle img h ((with_pages A P)(b \<mapsto> ?n)) fp st cl dat fc i db fb ib eb ?xs (s1\<lparr>memory := m2, memory := m\<rparr>)"
    "fits (unused (with_pages A P)) (nblocks h) ?n b" "with_pages A P b = None"
    "caller_buffer lm h ((with_pages A P)(b \<mapsto> ?n)) fp st (block_addr h b) (unat sz)"
    "\<And>a. stable h (with_pages A P) a \<Longrightarrow> m a = memory (s1\<lparr>memory := m2\<rparr>) a"
    by (rule session_alloc[OF st2(2) buf' sz(1,3) fit1]; blast)
  have size: "load32 m2 (sb + 4) = sz" using st2(3) by (simp add: file_contents_def)
  have stb: "stable h (with_pages A P) a" if "stable h A a" for a using stable_grow[OF grow that] .
  have fitA: "fits (unused A) (nblocks h) ?n b"
  proof -
    have "unused A x" if "unused (with_pages A P) x" "x < nblocks h" for x using that grow by (auto simp: unused_blocks_def)
    then show ?thesis using kz(4) by (simp add: fits_def)
  qed
  have "m a = memory s a" if "fixed lm h A st a" "\<not> in_region sb 8 a" for a
    using kz(7)[OF stb, of a] st2(4)[OF that(2)] fx[OF that(1)] that by (simp add: fixed_def)
  moreover have "load32 m (sb + 4) = load32 m2 (sb + 4)"
  proof (rule load32_cong)
    fix a assume "in_region (sb + 4) 4 a"
    then have "in_region sb 8 a" using in_region_sub[of sb 4 4 a 8] by simp
    then show "m a = m2 a" using kz(7)[of a] buffer_spare[OF buf'] by (auto simp: spare_def fixed_def)
  qed
  moreover have "load32 m (descriptor_slot lm j) = load32 (memory s) (descriptor_slot lm j)" if "j < 512" "j \<noteq> i" for j
  proof -
    have "load32 m (descriptor_slot lm j) = load32 (memory s1) (descriptor_slot lm j)"
    proof (rule load32_cong)
      fix a assume "in_region (descriptor_slot lm j) 4 a"
      then have a: "in_region (filedescriptors_at lm) 2048 a" using slot_in_table[OF that(1)] by blast
      then have "stable h A a" using rd by (simp add: open_ready_def)
      moreover have "\<not> in_region sb 8 a" using a buffer_spare[OF buf, of a] by (auto simp: spare_def fixed_def)
      ultimately show "m a = memory s1 a" using kz(7)[OF stb, of a] st2(4)[of a] by simp
    qed
    then show ?thesis using sl[OF that] by simp
  qed
  ultimately show thesis using that[OF fo st2(1) size _ kz(2) _ _ kz(6) P(1,3) kz(5) fitA] kz(1,3) size mo by simp
qed

end
