(* ===== verification/ProgramLoad.thy ===== *)
theory ProgramLoad
  imports ProgramFile
begin

text \<open>
  The two loaders as chains of session steps: \<^verbatim>\<open>process_load_binary\<close> brings a flat program into kernel memory, \<^verbatim>\<open>elf_load\<close> refuses it
  after the same work, and \<^verbatim>\<open>process_load_data\<close> runs the one after the other.
\<close>

subsection \<open>Memory and the device\<close>

text \<open>The file operations change memory and the device; the rest of the machine's state is not theirs.\<close>

definition io_only :: "('d, 'a) iostate_scheme \<Rightarrow> ('d, 'a) iostate_scheme \<Rightarrow> bool" where
  "io_only s s' \<longleftrightarrow> s' = s\<lparr>memory := memory s', device := device s'\<rparr>"

lemma io_only_simps [simp]:
  "io_only s s" "io_only s (s1\<lparr>memory := m\<rparr>) \<longleftrightarrow> io_only s s1" "io_only s (s1\<lparr>device := d\<rparr>) \<longleftrightarrow> io_only s s1"
  "io_only (s\<lparr>memory := m\<rparr>) s1 \<longleftrightarrow> io_only s s1"
proof -
  show "io_only s (s1\<lparr>memory := m\<rparr>) \<longleftrightarrow> io_only s s1" "io_only s (s1\<lparr>device := d\<rparr>) \<longleftrightarrow> io_only s s1" "io_only (s\<lparr>memory := m\<rparr>) s1 \<longleftrightarrow> io_only s s1"
    by (cases s; cases s1; simp add: io_only_def; blast)+
qed (simp add: io_only_def)

lemma io_only_trans: "io_only s s1 \<Longrightarrow> io_only s1 s2 \<Longrightarrow> io_only s s2"
  by (cases s; cases s1; cases s2) (simp add: io_only_def)

lemma memory_only_io: "memory_only s s' \<Longrightarrow> io_only s s'"
  by (cases s; cases s') (simp add: io_only_def memory_only_def)

subsection \<open>A program on the volume\<close>

text \<open>
  The path names entry \<open>k\<close> of the root directory, a file of \<open>sz\<close> bytes that lies in one cluster, the numbered descriptor is free and
  the drive answers.
\<close>

definition program_file ::
    "'l filelinks_scheme \<Rightarrow> 'd ports \<Rightarrow> ('d \<Rightarrow> bool) \<Rightarrow> (nat \<Rightarrow> nat \<Rightarrow> u8) \<Rightarrow> heap \<Rightarrow> (nat \<rightharpoonup> nat) \<Rightarrow> ('d, 'a) iostate_scheme \<Rightarrow> u32 \<Rightarrow> u32 \<Rightarrow> nat \<Rightarrow> nat
     \<Rightarrow> u32 \<Rightarrow> (u8 list \<times> u8 list) list \<Rightarrow> u32 \<Rightarrow> u8 list \<Rightarrow> u8 list \<Rightarrow> nat \<Rightarrow> nat \<Rightarrow> nat \<Rightarrow> u32 \<Rightarrow> u32 \<Rightarrow> bool" where
  "program_file lm hw idle img h A s fp st cl dat items es p xs c k fc i sz mode \<longleftrightarrow> klive h s A
     \<and> open_request lm h A (memory s) p xs mode c \<and> open_ready lm h A (memory s) fp st cl dat items es \<and> entry_found (memory s) items es c k
     \<and> fat16_get_first_cluster_for_directory_item (items + 32 * of_nat k) (memory s) = of_nat fc \<and> cluster_on_disk cl dat fc
     \<and> first_free lm (memory s) i \<and> i < 511 \<and> ata_disk hw idle img \<and> idle (device s)
     \<and> 0 < sz \<and> sz = load32 (memory s) (items + 32 * of_nat k + 28) \<and> unat sz \<le> 512 * cl"

lemma program_fileD:
  assumes "program_file lm hw idle img h A s fp st cl dat items es p xs c k fc i sz mode"
  shows "klive h s A" "open_request lm h A (memory s) p xs mode c" "open_ready lm h A (memory s) fp st cl dat items es"
    "entry_found (memory s) items es c k" "fat16_get_first_cluster_for_directory_item (items + 32 * of_nat k) (memory s) = of_nat fc"
    "cluster_on_disk cl dat fc" "first_free lm (memory s) i" "i < 511" "ata_disk hw idle img" "idle (device s)"
    "0 < sz" "sz = load32 (memory s) (items + 32 * of_nat k + 28)" "unat sz \<le> 2 ^ 32 - 4096" "unat sz \<le> 512 * cl"
proof -
  show "klive h s A" "open_request lm h A (memory s) p xs mode c" "open_ready lm h A (memory s) fp st cl dat items es"
    "entry_found (memory s) items es c k" "fat16_get_first_cluster_for_directory_item (items + 32 * of_nat k) (memory s) = of_nat fc"
    "cluster_on_disk cl dat fc" "first_free lm (memory s) i" "i < 511" "ata_disk hw idle img" "idle (device s)"
    "0 < sz" "sz = load32 (memory s) (items + 32 * of_nat k + 28)" "unat sz \<le> 512 * cl" using assms unfolding program_file_def by blast+
  then have "cl < 256" "unat sz \<le> 512 * cl" by (simp_all add: open_ready_def mounted_def)
  then show "unat sz \<le> 2 ^ 32 - 4096" by simp
qed

lemma slot_kept:
  assumes "open_ready lm h A m0 fp st cl dat items es" "j < 512" "\<And>a. stable h A a \<Longrightarrow> m' a = m a"
  shows "load32 m' (descriptor_slot lm j) = load32 m (descriptor_slot lm j)"
proof (rule load32_cong)
  fix a assume "in_region (descriptor_slot lm j) 4 a"
  then have "in_region (filedescriptors_at lm) 2048 a" by (rule slot_in_table[OF assms(2)])
  then show "m' a = m a" using assms(1,3) by (simp add: open_ready_def)
qed

text \<open>The pointer, the size and the kind of program in \<^verbatim>\<open>struct process\<close>.\<close>

abbreviation (input) program_cells :: "u32 \<Rightarrow> u32" where "program_cells process \<equiv> process + 8328"

lemma program_cells_in:
  "in_region (process + 8332) 4 a \<Longrightarrow> in_region (process + 8328) 16 a" "in_region (process + 8340) 4 a \<Longrightarrow> in_region (process + 8328) 16 a"
  for process a :: u32
  using in_region_sub[of "process + 8328" 4 4 a 16] in_region_sub[of "process + 8328" 12 4 a 16] by (simp_all add: add.assoc)

lemma program_written:
  fixes process :: u32
  shows "\<not> in_region (process + 8328) 16 a \<Longrightarrow> store32 (m(process + 8328 := t)) (process + 8332) v a = m a"
    and "\<not> in_region (process + 8328) 16 a \<Longrightarrow> store32 (store32 (m(process + 8328 := t)) (process + 8332) v) (process + 8340) w a = m a"
    and "store32 (store32 (m(process + 8328 := t)) (process + 8332) v) (process + 8340) w (process + 8328) = t"
    and "load32 (store32 (store32 (m(process + 8328 := t)) (process + 8332) v) (process + 8340) w) (process + 8332) = v"
    and "load32 (store32 (store32 (m(process + 8328 := t)) (process + 8332) v) (process + 8340) w) (process + 8340) = w"
proof -
  show o: "store32 (m(process + 8328 := t)) (process + 8332) v a = m a" if "\<not> in_region (process + 8328) 16 a"
  proof -
    have "a \<noteq> process + 8328" using that by auto
    then show ?thesis using that program_cells_in(1)[of process a] by (subst store32_outside) auto
  qed
  show "store32 (store32 (m(process + 8328 := t)) (process + 8332) v) (process + 8340) w a = m a" if "\<not> in_region (process + 8328) 16 a"
    using that program_cells_in(2)[of process a] o[OF that] by (subst store32_outside) auto
qed (simp_all add: load32_store32_other disjoint_regions_def store32_outside in_region_def)

subsection \<open>Flat programs\<close>

lemma process_load_binary_ok:
  fixes s :: "('d, 'a) iostate_scheme"
  assumes pf: "program_file lm hw idle img h A s fp st cl dat items es p xs c k fc i sz (binary_mode_at lm)"
    and buf: "caller_buffer lm h A fp st (binary_stat_at lm) 8" and pr: "caller_buffer lm h A fp st (process + 8328) 16"
    and ap: "disjoint_regions (binary_stat_at lm) 8 (process + 8328) 16"
    and fit: "fits (unused A) (nblocks h) (8 * blocks_of sz) b\<^sub>0"
  shows "\<exists>P b s'. process_load_binary lm hw p process s = Some (0, s') \<and> klive h s' ((with_pages A P)(b \<mapsto> blocks_of sz))
    \<and> card P = 3 \<and> (\<forall>x \<in> P. A x = None) \<and> with_pages A P b = None \<and> fits (unused A) (nblocks h) (blocks_of sz) b
    \<and> process_filetype (memory s') process = PROCESS_FILETYPE_BINARY \<and> load32 (memory s') (process + 8332) = block_addr h b
    \<and> load32 (memory s') (process + 8340) = sz \<and> (\<forall>j < unat sz. memory s' (block_addr h b + of_nat j) = file_byte img cl dat fc j)
    \<and> (\<forall>j < 512. load32 (memory s') (descriptor_slot lm j) = load32 (memory s) (descriptor_slot lm j))
    \<and> (\<forall>a. fixed lm h A st a \<longrightarrow> \<not> in_region (binary_stat_at lm) 8 a \<longrightarrow> \<not> in_region (process + 8328) 16 a \<longrightarrow> memory s' a = memory s a)
    \<and> idle (device s') \<and> io_only s s'"
proof -
  let ?n = "blocks_of sz" and ?xs = "file_contents img cl dat fc (unat sz)" and ?sb = "binary_stat_at lm"
  note pf' = program_fileD[OF pf]
  obtain P db fb ib eb s1 m2 b m where o: "fopen lm hw p (binary_mode_at lm) s = Some (int (Suc i), s1)"
    "fstat lm (int (Suc i)) ?sb s1 = Some (0, s1\<lparr>memory := m2\<rparr>)" "load32 m2 (?sb + 4) = sz"
    "kzalloc sz (s1\<lparr>memory := m2\<rparr>) = (block_addr h b, s1\<lparr>memory := m\<rparr>)" "block_addr h b \<noteq> NULL" "load32 m (?sb + 4) = sz"
    and ses: "session_at lm hw idle img h ((with_pages A P)(b \<mapsto> ?n)) fp st cl dat fc i db fb ib eb ?xs (s1\<lparr>memory := m\<rparr>)"
    and out: "caller_buffer lm h ((with_pages A P)(b \<mapsto> ?n)) fp st (block_addr h b) (unat sz)"
    and P: "card P = 3" "\<forall>b \<in> P. A b = None" "with_pages A P b = None" "fits (unused A) (nblocks h) ?n b"
    and fr: "\<And>a. fixed lm h A st a \<Longrightarrow> \<not> in_region ?sb 8 a \<Longrightarrow> m a = memory s a"
    "\<And>j. j < 512 \<Longrightarrow> j \<noteq> i \<Longrightarrow> load32 m (descriptor_slot lm j) = load32 (memory s) (descriptor_slot lm j)" and mo: "memory_only s s1"
    by (rule session_sized[OF pf'(1-10) buf pf'(11-13) fit]; blast)
  let ?A = "(with_pages A P)(b \<mapsto> ?n)" and ?s4 = "s1\<lparr>memory := m\<rparr>"
  have grow: "unused_blocks (nblocks h) ?A \<subseteq> unused_blocks (nblocks h) A"
    using unused_new[of "with_pages A P" b "nblocks h" ?n] P(3) unused_with_pages[OF P(2)] by blast
  have n: "0 < unat sz" "unat sz \<le> length ?xs" using pf'(11) by (simp_all add: word_less_nat_alt file_contents_def)
  obtain d' m5 where r: "fread lm hw (block_addr h b) (of_nat (unat sz)) 1 (int (Suc i)) ?s4 = Some (1, ?s4\<lparr>device := d', memory := m5\<rparr>)"
    and ses5: "session_at lm hw idle img h ?A fp st cl dat fc i db fb ib eb ?xs (?s4\<lparr>device := d', memory := m5\<rparr>)"
    and r5: "\<And>j. j < unat sz \<Longrightarrow> m5 (block_addr h b + of_nat j) = ?xs ! j"
    "\<And>a. fixed lm h ?A st a \<Longrightarrow> \<not> in_region (block_addr h b) (unat sz) a \<Longrightarrow> m5 a = memory ?s4 a"
    "\<And>a. in_region (filedescriptors_at lm) 2048 a \<Longrightarrow> m5 a = memory ?s4 a" "idle d'"
    by (rule session_read[OF ses out n pf'(14)]; blast)
  have wf: "heap_wf h" using pf'(1) by (auto simp: klive_def kheap_rel_def heap_rel_def)
  have keep5: "m5 a = m a" if "fixed lm h A st a" for a
  proof -
    have "\<not> in_region (block_addr h b) (unat sz) a"
      using run_unstable[OF wf P(4)] that sized_in_run[of h b sz a] by (auto simp: fixed_def)
    then show ?thesis using r5(2)[OF fixed_grow[OF grow that]] by simp
  qed
  have fixed: "fixed lm h A st a" if "in_region ?sb 8 a \<or> in_region (process + 8328) 16 a" for a
    using that buffer_spare[OF buf] buffer_spare[OF pr] by (auto simp: spare_def)
  have stat: "in_region ?sb 8 a" if "in_region (?sb + 4) 4 a" for a using that in_region_sub[of ?sb 4 4 a 8] by simp
  define m6 where "m6 = store32 (m5(process + 8328 := 1)) (process + 8332) (block_addr h b)"
  define m7 where "m7 = store32 m6 (process + 8340) sz"
  note o6 = program_written(1)[of process _ m5 1 "block_addr h b", folded m6_def]
  note o7 = program_written(2)[of process _ m5 1 "block_addr h b" sz, folded m6_def m7_def]
  note v7 = program_written(3-5)[of m5 process 1 "block_addr h b" sz, folded m6_def m7_def]
  have "load32 m6 (?sb + 4) = load32 m (?sb + 4)"
  proof (rule load32_cong)
    fix a assume "in_region (?sb + 4) 4 a"
    then have a: "in_region ?sb 8 a" by (rule stat)
    then have "\<not> in_region (process + 8328) 16 a" using disjoint_regionsD ap disjoint_regions_sym by blast
    then show "m6 a = m a" using o6 keep5 fixed a by simp
  qed
  then have sz6: "load32 m6 (?sb + 4) = sz" using o(6) by simp
  have ses7: "session_at lm hw idle img h ?A fp st cl dat fc i db fb ib eb ?xs (?s4\<lparr>device := d', memory := m5, memory := m7\<rparr>)"
    by (rule session_write[OF ses5]) (use o7 buffer_spare[OF caller_buffer_grow[OF grow pr]] in auto)
  obtain m8 where c: "fclose lm (int (Suc i)) (?s4\<lparr>device := d', memory := m5, memory := m7\<rparr>) =
        Some (0, ?s4\<lparr>device := d', memory := m5, memory := m7, memory := m8\<rparr>)"
    "klive h (?s4\<lparr>device := d', memory := m5, memory := m7, memory := m8\<rparr>) ?A"
    "\<And>j. j < 512 \<Longrightarrow> load32 m8 (descriptor_slot lm j) = (if j = i then 0 else load32 m7 (descriptor_slot lm j))"
    "\<And>a. fixed lm h ?A st a \<Longrightarrow> m8 a = m7 a"
    by (rule session_close[OF ses7]; simp; blast)
  let ?s8 = "?s4\<lparr>device := d', memory := m5, memory := m7, memory := m8\<rparr>"
  have run: "process_load_binary lm hw p process s = Some (0, ?s8)"
    using r c(1) o sz6 by (simp add: process_load_binary_def Let_def m6_def m7_def)
  have keep8: "m8 a = m7 a" if "fixed lm h A st a" for a using c(4)[OF fixed_grow[OF grow that]] .
  have "m8 (process + 8328) = 1" "load32 m8 (process + 8332) = block_addr h b" "load32 m8 (process + 8340) = sz"
  proof -
    have "m8 a = m7 a" if "in_region (process + 8328) 16 a" for a using that keep8 fixed by blast
    then have "load32 m8 (process + 8332) = load32 m7 (process + 8332)" "load32 m8 (process + 8340) = load32 m7 (process + 8340)"
      "m8 (process + 8328) = m7 (process + 8328)" using program_cells_in[of process] by (auto intro!: load32_cong)
    then show "m8 (process + 8328) = 1" "load32 m8 (process + 8332) = block_addr h b" "load32 m8 (process + 8340) = sz" using v7 by simp_all
  qed
  moreover have "m8 (block_addr h b + of_nat j) = file_byte img cl dat fc j" if "j < unat sz" for j
  proof -
    let ?a = "block_addr h b + of_nat j"
    have a: "in_region (block_addr h b) (unat sz) ?a" using that unat_u32_bound[of sz] by (simp add: unat_of_nat_u32)
    have "fixed lm h ?A st ?a" using buffer_spare[OF out a] by (simp add: spare_def)
    moreover have "\<not> in_region (process + 8328) 16 ?a"
      using fixed run_unstable[OF wf P(4)] sized_in_run[OF a] by (auto simp: fixed_def)
    ultimately show ?thesis using c(4) o7 r5(1)[OF that] that by (simp add: file_contents_def)
  qed
  moreover have "load32 m8 (descriptor_slot lm j) = load32 (memory s) (descriptor_slot lm j)" if j: "j < 512" for j
  proof (cases "j = i")
    case True
    then show ?thesis using c(3)[OF j] pf'(7) by (simp add: first_free_def)
  next
    case False
    have "load32 m7 (descriptor_slot lm j) = load32 m (descriptor_slot lm j)"
    proof (rule load32_cong)
      fix a assume "in_region (descriptor_slot lm j) 4 a"
      then have a: "in_region (filedescriptors_at lm) 2048 a" by (rule slot_in_table[OF j])
      then have "\<not> in_region (process + 8328) 16 a" using fixed by (auto simp: fixed_def)
      then show "m7 a = m a" using o7 r5(3)[OF a] by simp
    qed
    then show ?thesis using c(3)[OF j] fr(2)[OF j False] False by simp
  qed
  moreover have "m8 a = memory s a" if "fixed lm h A st a" "\<not> in_region ?sb 8 a" "\<not> in_region (process + 8328) 16 a" for a
    using keep8 o7 keep5 fr(1) that by simp
  ultimately show ?thesis using run c(2) P r5(4) memory_only_io[OF mo] by (intro exI[of _ P] exI[of _ b] exI[of _ ?s8]) simp
qed

subsection \<open>Loading twice\<close>

text \<open>What both loaders read: the path, the mode and separator literals and the volume with its directory.\<close>

definition source_cell :: "'l processlinks_scheme \<Rightarrow> u32 \<Rightarrow> u32 \<Rightarrow> u32 \<Rightarrow> nat \<Rightarrow> u32 \<Rightarrow> nat \<Rightarrow> u32 \<Rightarrow> bool" where
  "source_cell lm fp st items ne p np a \<longleftrightarrow> (\<exists>i \<le> np. a = p + of_nat i) \<or> a = binary_mode_at lm \<or> a = elf_mode_at lm \<or> a = mode_r_at lm
     \<or> in_region (colon_slash_at lm) 3 a
     \<or> (\<exists>(q, j) \<in> volume_cells lm fp st \<union> search_cells (fp + 64) items ne. in_region q j a)"

lemma entry_byte:
  assumes "k < n" "n < 2 ^ 16" "off < 32"
  shows "in_region items (32 * n) (items + 32 * of_nat k + of_nat off)"
proof -
  have "32 * k + off < 32 * n" using assms(1,3) by linarith
  then have "in_region items (32 * n) (items + of_nat (32 * k + off))" using assms(2) by (simp add: unat_of_nat_u32 del: of_nat_add of_nat_mult)
  then show ?thesis by (simp add: add.assoc)
qed

lemma program_file_later:
  fixes s s' :: "('d, 'a) iostate_scheme"
  assumes pf: "program_file lm hw idle img h A s fp st cl dat items es p xs c k fc i sz mode"
    and same: "\<And>a. source_cell lm fp st items (length es) p (length xs) a \<Longrightarrow> memory s' a = memory s a"
    and live: "klive h s' A'" and grow: "unused_blocks (nblocks h) A' \<subseteq> unused_blocks (nblocks h) A" and dev: "idle (device s')"
    and slots: "\<And>j. j < 512 \<Longrightarrow> load32 (memory s') (descriptor_slot lm j) = load32 (memory s) (descriptor_slot lm j)"
    and mode: "memory s mode' = 114" "stable h A mode'" "mode' = binary_mode_at lm \<or> mode' = elf_mode_at lm"
  shows "program_file lm hw idle img h A' s' fp st cl dat items es p xs c k fc i sz mode'"
proof -
  let ?m = "memory s" and ?m' = "memory s'"
  have f: "open_request lm h A ?m p xs mode c" "open_ready lm h A ?m fp st cl dat items es" "entry_found ?m items es c k"
    "sz = load32 ?m (items + 32 * of_nat k + 28)" using pf by (simp_all add: program_file_def)
  note sc = source_cell_def[of lm fp st items "length es" p "length xs"]
  have path: "cstr_at ?m' p xs = cstr_at ?m p xs" by (rule cstr_at_cong) (use same sc in blast)
  have lit: "cstr_at ?m' (colon_slash_at lm) [58, 47] = cstr_at ?m (colon_slash_at lm) [58, 47]"
    by (rule cstr_at_cong) (rule same, auto simp: sc in_region_offset unat_of_nat_u32)
  have "?m' (mode_r_at lm) = ?m (mode_r_at lm)" "?m' mode' = ?m mode'" using same sc mode(3) by blast+
  then have "open_request lm h A' ?m' p xs mode' c"
    using f(1) path lit stable_grow[OF grow] mode(1,2) by (simp add: open_request_def source_text_def)
  note req = this
  have "kept (source_cell lm fp st items (length es) p (length xs)) (volume_cells lm fp st)"
    "kept (source_cell lm fp st items (length es) p (length xs)) (search_cells (fp + 64) items (length es))"
    unfolding kept_def sc by blast+
  note kv = this
  have "open_ready lm h A ?m' fp st cl dat items es"
    using f(2) mounted_cong[OF kv(1), of ?m' ?m cl dat] directory_of_cong[OF kv(2), of ?m' ?m] same by (simp add: open_ready_def)
  then have rd: "open_ready lm h A' ?m' fp st cl dat items es" by (rule open_ready_grow[OF grow])
  have k: "k < length es" "length es < 2 ^ 16" using f(2,3) by (auto simp: entry_found_def open_ready_def directory_of_def)
  have ent: "?m' a = ?m a" if "in_region items (32 * length es) a" for a using that same unfolding sc by (auto simp: search_cells_def)
  have eb: "?m' (items + 32 * of_nat k + of_nat off) = ?m (items + 32 * of_nat k + of_nat off)" if "off < 32" for off
    by (rule ent) (rule entry_byte[OF k that])
  have w: "load16 ?m' (items + 32 * of_nat k + of_nat off) = load16 ?m (items + 32 * of_nat k + of_nat off)" if "off + 1 < 32" for off
    using eb[of off] eb[of "off + 1"] that by (simp add: load16_def ac_simps)
  have "load32 ?m' (items + 32 * of_nat k + of_nat 28) = load32 ?m (items + 32 * of_nat k + of_nat 28)"
    using eb[of 28] eb[of 29] eb[of 30] eb[of 31] by (simp add: load32_def add.assoc)
  moreover have "entry_found ?m' items es c k" using f(3) eb[of 11] by (simp add: entry_found_def)
  moreover have "fat16_get_first_cluster_for_directory_item (items + 32 * of_nat k) ?m' = fat16_get_first_cluster_for_directory_item (items + 32 * of_nat k) ?m"
    unfolding fat16_get_first_cluster_for_directory_item_def using w[of 20] w[of 26] w[of 24] by (simp add: add.assoc)
  moreover have "first_free lm ?m' i = first_free lm ?m i" using slots by (auto simp: first_free_def)
  ultimately show ?thesis using pf req rd live dev by (auto simp: program_file_def)
qed

subsection \<open>The ELF loader on a flat program\<close>

text \<open>One of the first bytes of the file is not the one of an ELF image.\<close>

definition not_elf :: "(nat \<Rightarrow> u8) \<Rightarrow> u32 \<Rightarrow> bool" where
  "not_elf f sz \<longleftrightarrow> (\<exists>j < 4. j < unat sz \<and> f j \<noteq> [0x7f, 0x45, 0x4c, 0x46] ! j)"

lemma elf_refused:
  assumes "elf_magic m (elf_signature_at lm)" "load32 m (ef + 132) = buf" "not_elf f sz" "\<And>j. j < unat sz \<Longrightarrow> m (buf + of_nat j) = f j"
  shows "elf_process_loaded lm ef m = (- EINFORMAT, m)"
proof -
  obtain j where j: "j < 4" "j < unat sz" "f j \<noteq> [0x7f, 0x45, 0x4c, 0x46] ! j" using assms(3) by (auto simp: not_elf_def)
  then have "\<not> elf_magic m buf" using assms(4)[OF j(2)] by (auto simp: elf_magic_def less_Suc_eq numeral_eq_Suc)
  then show ?thesis
    using validate_loaded_iff[OF assms(1), of buf] assms(2) by (simp add: elf_process_loaded_def elf_header_def Let_def)
qed

text \<open>The buffers of the ELF loader and of its caller, apart from what the loaders read.\<close>

definition elf_buffers :: "'l processlinks_scheme \<Rightarrow> heap \<Rightarrow> (nat \<rightharpoonup> nat) \<Rightarrow> u32 \<Rightarrow> u32 \<Rightarrow> u32 \<Rightarrow> nat \<Rightarrow> u32 \<Rightarrow> nat \<Rightarrow> bool" where
  "elf_buffers lm h A fp st items ne p np \<longleftrightarrow> caller_buffer lm h A fp st (elf_stat_at lm) 8 \<and> caller_buffer lm h A fp st (elf_file_at lm) 4
     \<and> (\<forall>a. source_cell lm fp st items ne p np a \<or> in_region (elf_signature_at lm) 4 a \<longrightarrow>
          fixed lm h A st a \<and> \<not> in_region (elf_stat_at lm) 8 a \<and> \<not> in_region (elf_file_at lm) 4 a)"

lemma elf_page:
  fixes s :: "('d, 'a) iostate_scheme"
  assumes pf: "program_file lm hw idle img h A s fp st cl dat items es p xs c k fc i sz (elf_mode_at lm)"
    and eb: "elf_buffers lm h A fp st items (length es) p (length xs)" and fit: "fits (unused A) (nblocks h) 1 b\<^sub>0"
  obtains ef m where "kzalloc 152 s = (block_addr h ef, s\<lparr>memory := m\<rparr>)" "A ef = None" "fits (unused A) (nblocks h) 1 ef"
    "program_file lm hw idle img h (with_pages A {ef}) (s\<lparr>memory := m\<rparr>) fp st cl dat items es p xs c k fc i sz (elf_mode_at lm)"
    "caller_buffer lm h (with_pages A {ef}) fp st (block_addr h ef) 152" "\<And>a. stable h A a \<Longrightarrow> m a = memory s a"
proof -
  note live = program_fileD(1)[OF pf] and rd = program_fileD(3)[OF pf] and dev = program_fileD(10)[OF pf]
  have e: "0 < (152 :: u32)" "unat (152 :: u32) \<le> 2 ^ 32 - 4096" "blocks_of 152 = 1" by (simp_all add: blocks_of_page)
  have fit0: "fits (unused (with_pages A {})) (nblocks h) (blocks_of 152) b\<^sub>0" using fit by (simp add: e(3))
  obtain ef m1 where k1: "kzalloc 152 s = (block_addr h ef, s\<lparr>memory := m1\<rparr>)"
    "took h (A(ef \<mapsto> blocks_of 152)) (s\<lparr>memory := m1\<rparr>) {} (s\<lparr>memory := m1\<rparr>)" "fits (unused A) (nblocks h) (blocks_of 152) ef" "A ef = None"
    "\<And>a. stable h A a \<Longrightarrow> m1 a = memory s a"
    by (rule alloc_beside[OF took_refl[OF live] e(1,2) fit0]; blast)
  let ?s1 = "s\<lparr>memory := m1\<rparr>" and ?A1 = "A(ef \<mapsto> blocks_of 152)"
  have A1: "?A1 = with_pages A {ef}" by (auto simp: e(3) with_pages_def)
  have live1: "klive h ?s1 ?A1" using tookD(1)[OF k1(2)] by (simp only: with_pages_simps)
  have grow1: "unused_blocks (nblocks h) ?A1 \<subseteq> unused_blocks (nblocks h) A" by (rule unused_new) (rule k1(4))
  have src: "fixed lm h A st a" if "source_cell lm fp st items (length es) p (length xs) a" for a using eb that by (auto simp: elf_buffers_def)
  have slots: "load32 m1 (descriptor_slot lm j) = load32 (memory s) (descriptor_slot lm j)" if "j < 512" for j
    by (rule slot_kept[OF rd that k1(5)])
  have "program_file lm hw idle img h ?A1 ?s1 fp st cl dat items es p xs c k fc i sz (elf_mode_at lm)"
    by (rule program_file_later[OF pf _ live1 grow1])
      (use src k1(5) slots dev program_fileD(2)[OF pf] in \<open>auto simp: fixed_def open_request_def\<close>)
  moreover have "caller_buffer lm h ?A1 fp st (block_addr h ef) (unat (152 :: u32))"
    by (rule fresh_buffer[of h ?s1 A ef 152 "{}" lm _ fp st _ _ _ _ "elf_stat_at lm" 8, OF _ rd _ e(1) k1(3,4)])
      (use live1 eb in \<open>simp_all add: elf_buffers_def\<close>)
  ultimately show thesis using that[OF k1(1,4)] k1(3,5) unfolding A1 by (simp add: e(3))
qed

text \<open>The common part: the file is in memory and the descriptor still open when the image is examined.\<close>

lemma elf_fetch:
  fixes s :: "('d, 'a) iostate_scheme"
  assumes pf: "program_file lm hw idle img h A s fp st cl dat items es p xs c k fc i sz (elf_mode_at lm)"
    and eb: "elf_buffers lm h A fp st items (length es) p (length xs)" and fit: "fits (unused A) (nblocks h) (16 * blocks_of sz) b\<^sub>0"
  obtains ef P b db fb ib eb' s6 where "elf_load lm hw p out s = (let (res, m) = elf_process_loaded lm (block_addr h ef) (memory s6) in do {
      (_, s') \<leftarrow> fclose lm (int (Suc i)) (s6\<lparr>memory := if res < 0 then m else store32 m out (block_addr h ef)\<rparr>);
      Some (res, s')
    })"
    "session_at lm hw idle img h ((with_pages A (insert ef P))(b \<mapsto> blocks_of sz)) fp st cl dat fc i db fb ib eb' (file_contents img cl dat fc (unat sz)) s6"
    "card (insert ef P) = 4" "\<forall>x \<in> insert ef P. A x = None" "with_pages A (insert ef P) b = None"
    "load32 (memory s6) (block_addr h ef + 132) = block_addr h b"
    "\<And>j. j < unat sz \<Longrightarrow> memory s6 (block_addr h b + of_nat j) = file_byte img cl dat fc j"
    "\<And>j. j < 512 \<Longrightarrow> j \<noteq> i \<Longrightarrow> load32 (memory s6) (descriptor_slot lm j) = load32 (memory s) (descriptor_slot lm j)"
    "\<And>a. fixed lm h A st a \<Longrightarrow> \<not> in_region (elf_stat_at lm) 8 a \<Longrightarrow> memory s6 a = memory s a" "io_only s s6"
proof -
  let ?n = "blocks_of sz" and ?xs = "file_contents img cl dat fc (unat sz)" and ?sb = "elf_stat_at lm"
  note live = program_fileD(1)[OF pf] and rd = program_fileD(3)[OF pf] and dev = program_fileD(10)[OF pf] and sz0 = program_fileD(11)[OF pf]
  have n: "0 < ?n" by (rule blocks_of_pos[OF sz0])
  have fit1: "fits (unused A) (nblocks h) 1 b\<^sub>0" using fits_shorter[OF fit, of 1] n by simp
  obtain ef m1 where k1: "kzalloc 152 s = (block_addr h ef, s\<lparr>memory := m1\<rparr>)" "A ef = None" "fits (unused A) (nblocks h) 1 ef"
    and pf1: "program_file lm hw idle img h (with_pages A {ef}) (s\<lparr>memory := m1\<rparr>) fp st cl dat items es p xs c k fc i sz (elf_mode_at lm)"
    and efb: "caller_buffer lm h (with_pages A {ef}) fp st (block_addr h ef) 152" and keep1: "\<And>a. stable h A a \<Longrightarrow> m1 a = memory s a"
    by (rule elf_page[OF pf eb fit1]; blast)
  let ?s1 = "s\<lparr>memory := m1\<rparr>" and ?A1 = "with_pages A {ef}"
  have U1: "unused_blocks (nblocks h) ?A1 = unused_blocks (nblocks h) A - {ef}" by (rule unused_with_pages) (simp add: k1(2))
  then have grow1: "unused_blocks (nblocks h) ?A1 \<subseteq> unused_blocks (nblocks h) A" by blast
  have buf: "caller_buffer lm h A fp st ?sb 8" using eb by (simp add: elf_buffers_def)
  obtain b\<^sub>1 where fit8: "fits (unused ?A1) (nblocks h) (8 * ?n) b\<^sub>1"
    using unused_beside[of "{ef}" A h "8 * ?n" b\<^sub>0] fit k1(2) by auto
  note pf' = program_fileD[OF pf1]
  obtain P db fb ib eb' s2 m2 b m where o: "fopen lm hw p (elf_mode_at lm) ?s1 = Some (int (Suc i), s2)"
    "fstat lm (int (Suc i)) ?sb s2 = Some (0, s2\<lparr>memory := m2\<rparr>)" "load32 m2 (?sb + 4) = sz"
    "kzalloc sz (s2\<lparr>memory := m2\<rparr>) = (block_addr h b, s2\<lparr>memory := m\<rparr>)" "block_addr h b \<noteq> NULL" "load32 m (?sb + 4) = sz"
    and ses: "session_at lm hw idle img h ((with_pages ?A1 P)(b \<mapsto> ?n)) fp st cl dat fc i db fb ib eb' ?xs (s2\<lparr>memory := m\<rparr>)"
    and out: "caller_buffer lm h ((with_pages ?A1 P)(b \<mapsto> ?n)) fp st (block_addr h b) (unat sz)"
    and P: "card P = 3" "\<forall>b \<in> P. ?A1 b = None" "with_pages ?A1 P b = None" "fits (unused ?A1) (nblocks h) ?n b"
    and fr: "\<And>a. fixed lm h ?A1 st a \<Longrightarrow> \<not> in_region ?sb 8 a \<Longrightarrow> m a = memory ?s1 a"
    "\<And>j. j < 512 \<Longrightarrow> j \<noteq> i \<Longrightarrow> load32 m (descriptor_slot lm j) = load32 (memory ?s1) (descriptor_slot lm j)" and mo: "memory_only ?s1 s2"
    by (rule session_sized[OF pf'(1-10) caller_buffer_grow[OF grow1 buf] pf'(11-13) fit8]; blast)
  let ?A2 = "(with_pages ?A1 P)(b \<mapsto> ?n)" and ?s4 = "s2\<lparr>memory := m\<rparr>" and ?f = "block_addr h ef"
  have grow2: "unused_blocks (nblocks h) ?A2 \<subseteq> unused_blocks (nblocks h) ?A1"
    using unused_new[of "with_pages ?A1 P" b "nblocks h" ?n] P(3) unused_with_pages[OF P(2)] by blast
  have wf: "heap_wf h" using pf'(1) by (auto simp: klive_def kheap_rel_def heap_rel_def)
  have in_f: "in_region ?f 152 a" if "in_region (?f + 132) 4 a" for a using that in_region_sub[of ?f 132 4 a 152] by simp
  have not_f: "\<not> in_region ?f 152 a" if "stable h A a" for a
    using run_unstable[OF wf k1(3) that] by (auto simp: in_blocks_def in_region_def)
  have not_b: "\<not> in_region (block_addr h b) (unat sz) a" if "stable h ?A1 a" for a
    using run_unstable[OF wf P(4) that] sized_in_run[of h b sz a] by blast
  have fix1: "fixed lm h ?A1 st a" if "fixed lm h A st a" for a by (rule fixed_grow[OF grow1 that])
  define m5 where "m5 = store32 m (?f + 132) (block_addr h b)"
  have ses5: "session_at lm hw idle img h ?A2 fp st cl dat fc i db fb ib eb' ?xs (?s4\<lparr>memory := m5\<rparr>)"
    by (rule session_write[OF ses])
      (use in_f buffer_spare[OF caller_buffer_grow[OF grow2 efb]] in \<open>auto simp: m5_def dest: store32_outside[of _ _ m]\<close>)
  have keep5: "m5 a = m a" if "stable h A a" for a
    unfolding m5_def by (rule store32_outside) (use in_f not_f[OF that] in blast)
  have szn: "0 < unat sz" "unat sz \<le> length ?xs" using pf'(11) by (simp_all add: word_less_nat_alt file_contents_def)
  obtain d' m6 where r: "fread lm hw (block_addr h b) (of_nat (unat sz)) 1 (int (Suc i)) (?s4\<lparr>memory := m5\<rparr>) =
        Some (1, ?s4\<lparr>memory := m5, device := d', memory := m6\<rparr>)"
    and ses6: "session_at lm hw idle img h ?A2 fp st cl dat fc i db fb ib eb' ?xs (?s4\<lparr>memory := m5, device := d', memory := m6\<rparr>)"
    and r6: "\<And>j. j < unat sz \<Longrightarrow> m6 (block_addr h b + of_nat j) = ?xs ! j"
    "\<And>a. fixed lm h ?A2 st a \<Longrightarrow> \<not> in_region (block_addr h b) (unat sz) a \<Longrightarrow> m6 a = memory (?s4\<lparr>memory := m5\<rparr>) a"
    "\<And>a. in_region (filedescriptors_at lm) 2048 a \<Longrightarrow> m6 a = memory (?s4\<lparr>memory := m5\<rparr>) a" "idle d'"
    by (rule session_read[OF ses5 out szn pf'(14)]; blast)
  have keep6: "m6 a = m5 a" if "fixed lm h ?A1 st a" for a
    using r6(2)[OF fixed_grow[OF grow2 that]] not_b[of a] that by (simp add: fixed_def)
  have keep: "m6 a = memory s a" if "fixed lm h A st a" "\<not> in_region ?sb 8 a" for a
    using keep6[OF fix1] keep5[of a] fr(1)[OF fix1] keep1[of a] that by (simp add: fixed_def)
  have ptr5: "load32 m5 (?f + 132) = block_addr h b" by (simp add: m5_def)
  have "load32 m6 (?f + 132) = load32 m5 (?f + 132)"
    by (rule load32_cong) (use in_f buffer_spare[OF efb] keep6 in \<open>auto simp: spare_def\<close>)
  then have ptr6: "load32 m6 (?f + 132) = block_addr h b" using ptr5 by simp
  have "load32 m5 (?sb + 4) = load32 m (?sb + 4)"
  proof (rule load32_cong)
    fix a assume "in_region (?sb + 4) 4 a"
    then have "in_region ?sb 8 a" using in_region_sub[of ?sb 4 4 a 8] by simp
    then show "m5 a = m a" using keep5 buffer_spare[OF buf] by (auto simp: spare_def fixed_def)
  qed
  then have sz5: "load32 m5 (?sb + 4) = sz" using o(6) by simp
  let ?s6 = "?s4\<lparr>memory := m5, device := d', memory := m6\<rparr>"
  have run: "elf_load lm hw p out s = (let (res, m) = elf_process_loaded lm ?f (memory ?s6) in do {
      (_, s') \<leftarrow> fclose lm (int (Suc i)) (?s6\<lparr>memory := if res < 0 then m else store32 m out ?f\<rparr>);
      Some (res, s')
    })"
    using k1(1) o(1-4) r ptr5 sz5 by (simp add: elf_load_def Let_def m5_def[symmetric] split: prod.splits)
  have slot: "load32 m6 (descriptor_slot lm j) = load32 (memory s) (descriptor_slot lm j)" if j: "j < 512" "j \<noteq> i" for j
  proof -
    have "load32 m6 (descriptor_slot lm j) = load32 m5 (descriptor_slot lm j)"
      by (rule load32_cong) (use r6(3) slot_in_table[OF j(1)] in auto)
    then show ?thesis
      using slot_kept[OF rd j(1) keep5] fr(2)[OF j] slot_kept[OF rd j(1) keep1] by simp
  qed
  have "with_pages ?A1 P = with_pages A (insert ef P)" by (simp add: with_pages_Un)
  moreover have "ef \<notin> P" using P(2) by (auto simp: with_pages_def)
  moreover have "finite P" using P(1) card_ge_0_finite[of P] by simp
  moreover have "A x = None" if "x \<in> P" for x using P(2) that by (auto simp: with_pages_def split: if_splits)
  ultimately show thesis
    using that[OF run] ses6 P k1(2) ptr6 r6(1) slot keep memory_only_io[OF mo] by (simp add: file_contents_def)
qed

lemma elf_load_refuses_ok:
  fixes s :: "('d, 'a) iostate_scheme"
  assumes pf: "program_file lm hw idle img h A s fp st cl dat items es p xs c k fc i sz (elf_mode_at lm)"
    and eb: "elf_buffers lm h A fp st items (length es) p (length xs)" and sig: "elf_magic (memory s) (elf_signature_at lm)"
    and flat: "not_elf (file_byte img cl dat fc) sz" and fit: "fits (unused A) (nblocks h) (16 * blocks_of sz) b\<^sub>0"
  shows "\<exists>P b s'. elf_load lm hw p out s = Some (- EINFORMAT, s') \<and> klive h s' ((with_pages A P)(b \<mapsto> blocks_of sz))
    \<and> card P = 4 \<and> (\<forall>x \<in> P. A x = None) \<and> with_pages A P b = None
    \<and> (\<forall>j < 512. load32 (memory s') (descriptor_slot lm j) = load32 (memory s) (descriptor_slot lm j))
    \<and> (\<forall>a. fixed lm h A st a \<longrightarrow> \<not> in_region (elf_stat_at lm) 8 a \<longrightarrow> memory s' a = memory s a) \<and> idle (device s') \<and> io_only s s'"
proof -
  obtain ef P b db fb ib eb' s6 where run: "elf_load lm hw p out s = (let (res, m) = elf_process_loaded lm (block_addr h ef) (memory s6) in do {
      (_, s') \<leftarrow> fclose lm (int (Suc i)) (s6\<lparr>memory := if res < 0 then m else store32 m out (block_addr h ef)\<rparr>);
      Some (res, s')
    })"
    and ses: "session_at lm hw idle img h ((with_pages A (insert ef P))(b \<mapsto> blocks_of sz)) fp st cl dat fc i db fb ib eb' (file_contents img cl dat fc (unat sz)) s6"
    and P: "card (insert ef P) = 4" "\<forall>x \<in> insert ef P. A x = None" "with_pages A (insert ef P) b = None"
    and v: "load32 (memory s6) (block_addr h ef + 132) = block_addr h b"
    "\<And>j. j < unat sz \<Longrightarrow> memory s6 (block_addr h b + of_nat j) = file_byte img cl dat fc j"
    "\<And>j. j < 512 \<Longrightarrow> j \<noteq> i \<Longrightarrow> load32 (memory s6) (descriptor_slot lm j) = load32 (memory s) (descriptor_slot lm j)"
    "\<And>a. fixed lm h A st a \<Longrightarrow> \<not> in_region (elf_stat_at lm) 8 a \<Longrightarrow> memory s6 a = memory s a" "io_only s s6"
    by (rule elf_fetch[OF pf eb fit]; blast)
  let ?A2 = "(with_pages A (insert ef P))(b \<mapsto> blocks_of sz)"
  have "memory s6 a = memory s a" if "in_region (elf_signature_at lm) 4 a" for a
    by (rule v(4)) (use eb that in \<open>auto simp: elf_buffers_def source_cell_def\<close>)
  then have "elf_magic (memory s6) (elf_signature_at lm)" using sig by (simp add: elf_magic_def)
  from elf_refused[OF this v(1) flat v(2)] have ref: "elf_process_loaded lm (block_addr h ef) (memory s6) = (- EINFORMAT, memory s6)" .
  obtain m where c: "fclose lm (int (Suc i)) s6 = Some (0, s6\<lparr>memory := m\<rparr>)" "klive h (s6\<lparr>memory := m\<rparr>) ?A2"
    "\<And>j. j < 512 \<Longrightarrow> load32 m (descriptor_slot lm j) = (if j = i then 0 else load32 (memory s6) (descriptor_slot lm j))"
    "\<And>a. fixed lm h ?A2 st a \<Longrightarrow> m a = memory s6 a" by (rule session_close[OF ses]; blast)
  have grow: "unused_blocks (nblocks h) ?A2 \<subseteq> unused_blocks (nblocks h) A"
    using unused_new[of "with_pages A (insert ef P)" b "nblocks h" "blocks_of sz"] P(3) unused_with_pages[OF P(2)] by blast
  have "load32 m (descriptor_slot lm j) = load32 (memory s) (descriptor_slot lm j)" if "j < 512" for j
    using c(3)[OF that] v(3)[OF that] program_fileD(7)[OF pf] by (auto simp: first_free_def)
  moreover have "m a = memory s a" if "fixed lm h A st a" "\<not> in_region (elf_stat_at lm) 8 a" for a
    using c(4)[OF fixed_grow[OF grow that(1)]] v(4)[OF that] by simp
  moreover have "idle (device s6)" by (rule session_idle[OF ses])
  moreover have "elf_load lm hw p out s = Some (- EINFORMAT, s6\<lparr>memory := m\<rparr>)" using run ref c(1) by simp
  ultimately show ?thesis
    using c(2) P v(5) by (intro exI[of _ "insert ef P"] exI[of _ b] exI[of _ "s6\<lparr>memory := m\<rparr>"]) simp
qed

subsection \<open>Loading a program that is not an ELF image\<close>

lemma fits_after_load:
  assumes "\<forall>x \<in> P. A x = None" "card P = 4" "fits (unused A) (nblocks h) (85 * n) b\<^sub>0"
  shows "\<exists>b'. fits (unused ((with_pages A P)(b \<mapsto> n))) (nblocks h) (8 * n) b'"
proof -
  have "finite P" using assms(2) card_ge_0_finite[of P] by simp
  moreover have "fits (unused A) (nblocks h) (Suc (card P) * (2 * (8 * n) + n)) b\<^sub>0" using fits_shorter[OF assms(3)] assms(2) by simp
  ultimately obtain b\<^sub>1 where "fits (unused (with_pages A P)) (nblocks h) (2 * (8 * n) + n) b\<^sub>1" using unused_beside[OF assms(1)] by blast
  then show ?thesis by (rule unused_beside_run)
qed

lemma process_load_elf_refuses_ok:
  fixes s :: "('d, 'a) iostate_scheme"
  assumes pf: "program_file lm hw idle img h A s fp st cl dat items es p xs c k fc i sz (elf_mode_at lm)"
    and eb: "elf_buffers lm h A fp st items (length es) p (length xs)" and sig: "elf_magic (memory s) (elf_signature_at lm)"
    and flat: "not_elf (file_byte img cl dat fc) sz" and fit: "fits (unused A) (nblocks h) (16 * blocks_of sz) b\<^sub>0"
  shows "\<exists>P b s'. process_load_elf lm hw p process s = Some (- EINFORMAT, s') \<and> klive h s' ((with_pages A P)(b \<mapsto> blocks_of sz))
    \<and> card P = 4 \<and> (\<forall>x \<in> P. A x = None) \<and> with_pages A P b = None
    \<and> (\<forall>j < 512. load32 (memory s') (descriptor_slot lm j) = load32 (memory s) (descriptor_slot lm j))
    \<and> (\<forall>a. fixed lm h A st a \<longrightarrow> \<not> in_region (elf_stat_at lm) 8 a \<longrightarrow> \<not> in_region (elf_file_at lm) 4 a \<longrightarrow> memory s' a = memory s a)
    \<and> idle (device s') \<and> io_only s s'"
proof -
  let ?m = "store32 (memory s) (elf_file_at lm) 0"
  let ?s = "s\<lparr>memory := ?m\<rparr>"
  have buf: "caller_buffer lm h A fp st (elf_file_at lm) 4"
    and src: "\<And>a. source_cell lm fp st items (length es) p (length xs) a \<Longrightarrow> fixed lm h A st a \<and> \<not> in_region (elf_file_at lm) 4 a"
    using eb by (auto simp: elf_buffers_def)
  have off: "?m a = memory s a" if "\<not> in_region (elf_file_at lm) 4 a" for a using that by (rule store32_outside)
  have fx: "fixed lm h A st a" if "in_region (elf_file_at lm) 4 a" for a using buffer_spare[OF buf that] by (simp add: spare_def)
  have live: "klive h ?s A"
    by (rule klive_frame[OF program_fileD(1)[OF pf]]) (use off fx in \<open>auto simp: fixed_def stable_def\<close>)
  have slots: "load32 ?m (descriptor_slot lm j) = load32 (memory s) (descriptor_slot lm j)" if "j < 512" for j
    by (rule load32_cong, rule off) (use fx slot_in_table[OF that] in \<open>auto simp: fixed_def\<close>)
  have pf0: "program_file lm hw idle img h A ?s fp st cl dat items es p xs c k fc i sz (elf_mode_at lm)"
    by (rule program_file_later[OF pf _ live subset_refl])
      (use src off slots program_fileD(2,10)[OF pf] in \<open>auto simp: open_request_def\<close>)
  have "elf_magic ?m (elf_signature_at lm) = elf_magic (memory s) (elf_signature_at lm)"
    unfolding elf_magic_def using eb by (simp add: off elf_buffers_def)
  with sig have sig0: "elf_magic (memory ?s) (elf_signature_at lm)" by simp
  obtain P b s' where r: "elf_load lm hw p (elf_file_at lm) ?s = Some (- EINFORMAT, s')" "klive h s' ((with_pages A P)(b \<mapsto> blocks_of sz))"
    "card P = 4" "\<forall>x \<in> P. A x = None" "with_pages A P b = None"
    "\<forall>j < 512. load32 (memory s') (descriptor_slot lm j) = load32 (memory ?s) (descriptor_slot lm j)"
    "\<forall>a. fixed lm h A st a \<longrightarrow> \<not> in_region (elf_stat_at lm) 8 a \<longrightarrow> memory s' a = memory ?s a" "idle (device s')" "io_only ?s s'"
    using elf_load_refuses_ok[OF pf0 eb sig0 flat fit] by blast
  from r(1) have "process_load_elf lm hw p process s = Some (- EINFORMAT, s')" by (simp add: process_load_elf_def)
  then show ?thesis using r(2-9) slots off by (intro exI[of _ P] exI[of _ b] exI[of _ s']) simp
qed

text \<open>The allocations of a load: four pages and a run for the refused image, three pages and the run \<open>b\<close> of the program.\<close>

definition load_allocs :: "(nat \<rightharpoonup> nat) \<Rightarrow> nat set \<Rightarrow> nat \<Rightarrow> nat set \<Rightarrow> nat \<Rightarrow> nat \<Rightarrow> nat \<rightharpoonup> nat" where
  "load_allocs A P b\<^sub>1 P' b n = (with_pages ((with_pages A P)(b\<^sub>1 \<mapsto> n)) P')(b \<mapsto> n)"

definition loaded_beside :: "(nat \<rightharpoonup> nat) \<Rightarrow> nat set \<Rightarrow> nat \<Rightarrow> nat set \<Rightarrow> nat \<Rightarrow> nat \<Rightarrow> bool" where
  "loaded_beside A P b\<^sub>1 P' b n \<longleftrightarrow> card P = 4 \<and> (\<forall>x \<in> P. A x = None) \<and> with_pages A P b\<^sub>1 = None \<and> card P' = 3
     \<and> (\<forall>x \<in> P'. ((with_pages A P)(b\<^sub>1 \<mapsto> n)) x = None) \<and> with_pages ((with_pages A P)(b\<^sub>1 \<mapsto> n)) P' b = None"

lemma loaded_nine:
  assumes "loaded_beside A P b\<^sub>1 P' b n"
  defines "A' \<equiv> load_allocs A P b\<^sub>1 P' b n"
  shows "A \<subseteq>\<^sub>m A'" "card (dom A' - dom A) = 9" "A' b = Some n" "A b = None"
proof -
  have l: "card P = 4" "\<forall>x \<in> P. A x = None" "with_pages A P b\<^sub>1 = None" "card P' = 3" "\<forall>x \<in> P'. ((with_pages A P)(b\<^sub>1 \<mapsto> n)) x = None"
    "with_pages ((with_pages A P)(b\<^sub>1 \<mapsto> n)) P' b = None" using assms(1) unfolding loaded_beside_def by blast+
  have fin: "finite P" "finite P'" using l(1,4) card_ge_0_finite[of P] card_ge_0_finite[of P'] by simp_all
  have fr: "b\<^sub>1 \<notin> P" "A b\<^sub>1 = None" "b \<noteq> b\<^sub>1" "b \<notin> P" "b \<notin> P'" "A b = None"
    using l(3,6) by (auto simp: with_pages_def split: if_splits)
  have P': "x \<notin> P \<and> x \<noteq> b\<^sub>1 \<and> A x = None" if "x \<in> P'" for x
    using l(5) that by (auto simp: with_pages_def split: if_splits)
  show "A b = None" "A' b = Some n" using fr by (simp_all add: A'_def load_allocs_def)
  show "A \<subseteq>\<^sub>m A'" unfolding A'_def load_allocs_def map_le_def using fr P' l(2) by (auto simp: with_pages_def)
  have "dom A' - dom A = insert b (insert b\<^sub>1 (P \<union> P'))"
    unfolding A'_def load_allocs_def using fr P' l(2) by (auto simp: with_pages_def split: if_splits)
  moreover have bP: "b\<^sub>1 \<notin> P'" using P'[of b\<^sub>1] by blast
  moreover have "card (P \<union> P') = 7" using card_Un_disjoint[OF fin] P' l(1,4) by auto
  ultimately show "card (dom A' - dom A) = 9" using fr fin bP by simp
qed

lemma process_load_data_ok:
  fixes s :: "('d, 'a) iostate_scheme"
  assumes pf: "program_file lm hw idle img h A s fp st cl dat items es p xs c k fc i sz (elf_mode_at lm)"
    and eb: "elf_buffers lm h A fp st items (length es) p (length xs)" and sig: "elf_magic (memory s) (elf_signature_at lm)"
    and flat: "not_elf (file_byte img cl dat fc) sz" and mode: "memory s (binary_mode_at lm) = 114"
    and buf: "caller_buffer lm h A fp st (binary_stat_at lm) 8" and pr: "caller_buffer lm h A fp st (process + 8328) 16"
    and ap: "disjoint_regions (binary_stat_at lm) 8 (process + 8328) 16"
    and fit: "fits (unused A) (nblocks h) (85 * blocks_of sz) b\<^sub>0"
  shows "\<exists>P b\<^sub>1 P' b s'. process_load_data lm hw p process s = Some (0, s') \<and> loaded_beside A P b\<^sub>1 P' b (blocks_of sz)
    \<and> klive h s' (load_allocs A P b\<^sub>1 P' b (blocks_of sz)) \<and> process_filetype (memory s') process = PROCESS_FILETYPE_BINARY
    \<and> load32 (memory s') (process + 8332) = block_addr h b \<and> load32 (memory s') (process + 8340) = sz
    \<and> (\<forall>j < unat sz. memory s' (block_addr h b + of_nat j) = file_byte img cl dat fc j)
    \<and> (\<forall>j < 512. load32 (memory s') (descriptor_slot lm j) = load32 (memory s) (descriptor_slot lm j))
    \<and> (\<forall>a. fixed lm h A st a \<longrightarrow> (\<forall>(q, j) \<in> {(elf_stat_at lm, 8), (elf_file_at lm, 4), (binary_stat_at lm, 8), (process + 8328, 16)}. \<not> in_region q j a)
         \<longrightarrow> memory s' a = memory s a) \<and> idle (device s') \<and> io_only s s'"
proof -
  let ?n = "blocks_of sz" and ?src = "source_cell lm fp st items (length es) p (length xs)"
  have n: "0 < ?n" by (rule blocks_of_pos[OF program_fileD(11)[OF pf]])
  have fit1: "fits (unused A) (nblocks h) (16 * ?n) b\<^sub>0" using fits_shorter[OF fit] by simp
  obtain P b s1 where r: "process_load_elf lm hw p process s = Some (- EINFORMAT, s1)" "klive h s1 ((with_pages A P)(b \<mapsto> ?n))"
    and P: "card P = 4" "\<forall>x \<in> P. A x = None" "with_pages A P b = None"
    and sl: "\<forall>j < 512. load32 (memory s1) (descriptor_slot lm j) = load32 (memory s) (descriptor_slot lm j)"
    and fr: "\<forall>a. fixed lm h A st a \<longrightarrow> \<not> in_region (elf_stat_at lm) 8 a \<longrightarrow> \<not> in_region (elf_file_at lm) 4 a \<longrightarrow> memory s1 a = memory s a"
    and dev: "idle (device s1)" and io1: "io_only s s1"
    using process_load_elf_refuses_ok[OF pf eb sig flat fit1, of process] by blast
  let ?A = "(with_pages A P)(b \<mapsto> ?n)"
  have grow: "unused_blocks (nblocks h) ?A \<subseteq> unused_blocks (nblocks h) A"
    using unused_new[of "with_pages A P" b "nblocks h" ?n] P(3) unused_with_pages[OF P(2)] by blast
  have src: "fixed lm h A st a" "memory s1 a = memory s a" if "?src a" for a
    using eb that fr by (auto simp: elf_buffers_def)
  have "?src (binary_mode_at lm)" by (simp add: source_cell_def)
  then have md: "stable h A (binary_mode_at lm)" using src(1) by (simp add: fixed_def)
  have pf1: "program_file lm hw idle img h ?A s1 fp st cl dat items es p xs c k fc i sz (binary_mode_at lm)"
    by (rule program_file_later[OF pf src(2) r(2) grow dev _ mode md]) (use sl in auto)
  obtain b\<^sub>1 where fit8: "fits (unused ?A) (nblocks h) (8 * ?n) b\<^sub>1" using fits_after_load[OF P(2,1) fit] by blast
  obtain P' b' s' where r': "process_load_binary lm hw p process s1 = Some (0, s')" "klive h s' ((with_pages ?A P')(b' \<mapsto> ?n))"
    "card P' = 3" "\<forall>x \<in> P'. ?A x = None" "with_pages ?A P' b' = None"
    "process_filetype (memory s') process = PROCESS_FILETYPE_BINARY" "load32 (memory s') (process + 8332) = block_addr h b'"
    "load32 (memory s') (process + 8340) = sz" "\<forall>j < unat sz. memory s' (block_addr h b' + of_nat j) = file_byte img cl dat fc j"
    "\<forall>j < 512. load32 (memory s') (descriptor_slot lm j) = load32 (memory s1) (descriptor_slot lm j)"
    "\<forall>a. fixed lm h ?A st a \<longrightarrow> \<not> in_region (binary_stat_at lm) 8 a \<longrightarrow> \<not> in_region (process + 8328) 16 a \<longrightarrow> memory s' a = memory s1 a"
    "idle (device s')" "io_only s1 s'"
    using process_load_binary_ok[OF pf1 caller_buffer_grow[OF grow buf] caller_buffer_grow[OF grow pr] ap fit8] by blast
  have "loaded_beside A P b P' b' ?n" using P r'(3-5) by (simp add: loaded_beside_def)
  moreover have "process_load_data lm hw p process s = Some (0, s')" using r(1) r'(1) by (simp add: process_load_data_def)
  moreover have "memory s' a = memory s a" if "fixed lm h A st a"
      "\<forall>(q, j) \<in> {(elf_stat_at lm, 8), (elf_file_at lm, 4), (binary_stat_at lm, 8), (process + 8328, 16)}. \<not> in_region q j a" for a
    using r'(11) fixed_grow[OF grow that(1)] fr that by simp
  ultimately show ?thesis
    using r'(2,6-10,12) io_only_trans[OF io1 r'(13)] sl
    by (intro exI[of _ P] exI[of _ b] exI[of _ P'] exI[of _ b'] exI[of _ s']) (simp add: load_allocs_def)
qed

subsection \<open>A machine with a flat program\<close>

text \<open>The machine of the file sessions, with the ELF signature at 0x310; its file \<^verbatim>\<open>hi.txt\<close> serves as a program.\<close>

definition program_links :: processlinks where
  "program_links = filelinks.extend session_links \<lparr>elf_signature_at = 0x310, elf_mode_at = 0x300, elf_stat_at = 0x5300,
     processes_at = 0x209000, binary_mode_at = 0x300, binary_stat_at = 0x5500, elf_file_at = 0x5400, stale_process = 0\<rparr>"

definition program_machine :: "drive iostate" where
  "program_machine = session_machine\<lparr>memory := (memory session_machine)(0x310 := 0x7f, 0x311 := 0x45, 0x312 := 0x4c, 0x313 := 0x46)\<rparr>"

lemma program_links_fields [simp]:
  "disk_at program_links = disk_at session_links" "fat16_fs_at program_links = fat16_fs_at session_links"
  "fat16_open_at program_links = fat16_open_at session_links" "fat16_read_at program_links = fat16_read_at session_links"
  "fat16_seek_at program_links = fat16_seek_at session_links" "fat16_stat_at program_links = fat16_stat_at session_links"
  "fat16_close_at program_links = fat16_close_at session_links" "stream_buf_at program_links = stream_buf_at session_links"
  "tmp_filename_at program_links = tmp_filename_at session_links" "filedescriptors_at program_links = filedescriptors_at session_links"
  "colon_slash_at program_links = colon_slash_at session_links" "mode_r_at program_links = mode_r_at session_links"
  "elf_signature_at program_links = 0x310" "elf_mode_at program_links = 0x300" "binary_mode_at program_links = 0x300"
  "elf_stat_at program_links = 0x5300" "elf_file_at program_links = 0x5400" "binary_stat_at program_links = 0x5500"
  by (simp_all add: program_links_def filelinks.defs session_links_def file_links_def)

lemma program_links_same:
  "scratch program_links = scratch session_links" "fixed program_links = fixed session_links"
  "volume_cells program_links = volume_cells session_links" "open_ready program_links = open_ready session_links"
  "open_request program_links = open_request session_links" "first_free program_links = first_free session_links"
  "caller_buffer program_links = caller_buffer session_links"
proof -
  show scr: "scratch program_links = scratch session_links" by (simp add: fun_eq_iff scratch_def name_buffer_def)
  show fx: "fixed program_links = fixed session_links" by (simp add: fun_eq_iff fixed_def scr)
  show vc: "volume_cells program_links = volume_cells session_links" by (simp add: fun_eq_iff volume_cells_def)
  show "open_ready program_links = open_ready session_links" by (simp add: fun_eq_iff open_ready_def mounted_def scr fx vc)
  show "caller_buffer program_links = caller_buffer session_links" by (simp add: fun_eq_iff caller_buffer_def fx vc)
qed (simp_all add: fun_eq_iff open_request_def first_free_def)

lemma program_buffer:
  assumes "0x5200 \<le> unat q \<and> unat q + n \<le> 0x6000 \<or> 0x302000 \<le> unat q \<and> unat q + n \<le> 0x1000000" "0 < n"
  shows "caller_buffer program_links kernel_heap_layout Map.empty 0x300000 0x4000 q n"
proof -
  have r: "in_region q n a \<longleftrightarrow> unat q \<le> unat a \<and> unat a < unat q + n" for a by (rule in_region_iff_nat) (use assms in auto)
  have "fixed session_links kernel_heap_layout Map.empty 0x4000 a" if "in_region q n a" for a
    by (rule session_fixed) (use that assms in \<open>auto simp: r\<close>)
  moreover have "\<not> in_region p j a" if "in_region q n a" "(p, j) \<in> volume_cells session_links 0x300000 0x4000" for p j a
    using that assms by (auto simp: volume_cells_def session_links_def file_links_def r in_region_iff_nat)
  ultimately show ?thesis
    using assms unfolding program_links_same
    by (auto simp: caller_buffer_def read_areas_def session_links_def intro!: disjoint_regionsI_nat)
qed


lemma program_source:
  assumes "source_cell program_links 0x300000 0x4000 0x301000 2 0x200 9 a \<or> in_region 0x310 4 a"
  shows "unat a < 0x4000 \<or> 0x4004 \<le> unat a \<and> unat a < 0x5000 \<or> 0x200000 \<le> unat a \<and> unat a < 0x206000 \<or> 0x300000 \<le> unat a \<and> unat a < 0x302000"
    "source_cell program_links 0x300000 0x4000 0x301000 2 0x200 9 a \<Longrightarrow> \<not> in_region 0x310 4 a"
proof -
  have path: "unat (0x200 + of_nat i :: u32) = 0x200 + i" if "i \<le> 9" for i using that by (simp add: unat_word_ariths unat_of_nat_u32)
  note d = source_cell_def volume_cells_def search_cells_def session_links_def file_links_def in_region_iff_nat
  show "unat a < 0x4000 \<or> 0x4004 \<le> unat a \<and> unat a < 0x5000 \<or> 0x200000 \<le> unat a \<and> unat a < 0x206000 \<or> 0x300000 \<le> unat a \<and> unat a < 0x302000"
    using assms by (auto simp: d path)
  show "\<not> in_region 0x310 4 a" if "source_cell program_links 0x300000 0x4000 0x301000 2 0x200 9 a"
    using that by (auto simp: d path)
qed

lemma program_machine_ready:
  "program_file program_links session_ports (\<lambda>d. pending d = []) access_image kernel_heap_layout Map.empty program_machine 0x300000 0x4000 2 10 0x301000
     session_entries 0x200 [48, 58, 47, 104, 105, 46, 116, 120, 116] [104, 105, 46, 116, 120, 116] 1 3 0 600 0x300"
  "elf_buffers program_links kernel_heap_layout Map.empty 0x300000 0x4000 0x301000 2 0x200 9"
  "elf_magic (memory program_machine) 0x310" "memory program_machine 0x300 = 114"
proof -
  let ?m = "memory program_machine" and ?xs = "[48, 58, 47, 104, 105, 46, 116, 120, 116] :: u8 list"
  have m: "?m a = memory session_machine a" if "\<not> in_region 0x310 4 a" for a
    using that by (auto simp: program_machine_def in_region_def)
  have fx: "fixed session_links kernel_heap_layout Map.empty 0x4000 a"
    if "source_cell program_links 0x300000 0x4000 0x301000 2 0x200 9 a \<or> in_region 0x310 4 a" for a
    by (rule session_fixed) (use program_source(1)[OF that] in auto)
  have md: "memory session_machine 0x300 = 114" using session_request(1) by (simp add: open_request_def)
  then show "memory program_machine 0x300 = 114" using m[of "0x300"] by (simp add: in_region_def)
  show "elf_magic (memory program_machine) 0x310" by (simp add: elf_magic_def program_machine_def)
  show "elf_buffers program_links kernel_heap_layout Map.empty 0x300000 0x4000 0x301000 2 0x200 9"
    unfolding elf_buffers_def program_links_fields program_links_same(2)
  proof (intro conjI allI impI)
    fix a assume a: "source_cell program_links 0x300000 0x4000 0x301000 2 0x200 9 a \<or> in_region 0x310 4 a"
    show "fixed session_links kernel_heap_layout Map.empty 0x4000 a" by (rule fx[OF a])
    show "\<not> in_region 0x5300 8 a" "\<not> in_region 0x5400 4 a" using program_source(1)[OF a] by (auto simp: in_region_iff_nat)
  qed (auto intro!: program_buffer)
  have len: "length ?xs = 9" by simp
  have e: "fat16_get_first_cluster_for_directory_item (0x301000 + 32 * of_nat 1) (memory session_machine) = of_nat 3"
    "load32 (memory session_machine) (0x301000 + 32 * of_nat 1 + 28) = 600" using session_entry(1,2) by simp_all
  have pf: "program_file program_links session_ports (\<lambda>d. pending d = []) access_image kernel_heap_layout Map.empty session_machine 0x300000 0x4000 2 10 0x301000
      session_entries 0x200 ?xs [104, 105, 46, 116, 120, 116] 1 3 0 600 0x300"
    unfolding program_file_def program_links_same e
    using session_live session_request(1) session_ready session_found session_entry(3,4) session_device by simp
  have "klive kernel_heap_layout (session_machine\<lparr>memory := ?m\<rparr>) Map.empty"
    by (rule klive_frame[OF session_live], rule m) (use fx in \<open>auto simp: fixed_def stable_def\<close>)
  moreover have pm: "session_machine\<lparr>memory := ?m\<rparr> = program_machine" by (simp add: program_machine_def)
  ultimately have live: "klive kernel_heap_layout program_machine Map.empty" by simp
  show "program_file program_links session_ports (\<lambda>d. pending d = []) access_image kernel_heap_layout Map.empty program_machine 0x300000 0x4000 2 10 0x301000
     session_entries 0x200 ?xs [104, 105, 46, 116, 120, 116] 1 3 0 600 0x300"
  proof (rule program_file_later[OF pf _ live subset_refl])
    show "?m a = memory session_machine a" if "source_cell program_links 0x300000 0x4000 0x301000 (length session_entries) 0x200 (length ?xs) a" for a
      by (rule m) (use program_source(2)[of a] that[unfolded session_entries_simps(1) len] in blast)
    show "load32 ?m (descriptor_slot program_links j) = load32 (memory session_machine) (descriptor_slot program_links j)" if "j < 512" for j
    proof (rule load32_cong, rule m)
      fix a assume "in_region (descriptor_slot program_links j) 4 a"
      then have "in_region 0x206000 2048 a" using slot_in_table[OF that, of program_links a] by (simp add: session_links_def)
      then show "\<not> in_region 0x310 4 a" by (auto simp: in_region_iff_nat)
    qed
    show "memory session_machine 0x300 = 114" by (rule md)
    show "stable kernel_heap_layout Map.empty 0x300" by (rule session_stable) simp
  qed (use session_device(2) in \<open>simp_all add: program_machine_def\<close>)
qed


subsection \<open>Properties\<close>

text \<open>
  C6.  Loading a flat program, \<^verbatim>\<open>process_load_data\<close>: the file is first read as an ELF image and refused, then read again; the process records a
  flat program, its size and a fresh block of the heap that holds the bytes of the file, the descriptor table is as before
  and nothing else changes outside the loader's own buffers.  Of the nine new allocations one is the program: the refused ELF
  image, its \<^verbatim>\<open>struct elf_file\<close> and the pages of both paths are never freed.
\<close>

theorem process_load_data_flat:
  fixes s :: "('d, 'a) iostate_scheme"
  assumes "program_file lm hw idle img h A s fp st cl dat items es p xs c k fc i sz (elf_mode_at lm)"
    and "elf_buffers lm h A fp st items (length es) p (length xs)" "elf_magic (memory s) (elf_signature_at lm)"
    and "not_elf (file_byte img cl dat fc) sz" "memory s (binary_mode_at lm) = 114"
    and "caller_buffer lm h A fp st (binary_stat_at lm) 8" "caller_buffer lm h A fp st (process + 8328) 16"
    and "disjoint_regions (binary_stat_at lm) 8 (process + 8328) 16"
    and "fits (unused A) (nblocks h) (85 * blocks_of sz) b\<^sub>0"
  shows "\<exists>A' b s'. process_load_data lm hw p process s = Some (0, s') \<and> klive h s' A' \<and> A \<subseteq>\<^sub>m A' \<and> card (dom A' - dom A) = 9
    \<and> A' b = Some (blocks_of sz) \<and> A b = None \<and> process_filetype (memory s') process = PROCESS_FILETYPE_BINARY
    \<and> load32 (memory s') (process + 8332) = block_addr h b \<and> load32 (memory s') (process + 8340) = sz
    \<and> (\<forall>j < unat sz. memory s' (block_addr h b + of_nat j) = file_byte img cl dat fc j)
    \<and> (\<forall>j < 512. load32 (memory s') (descriptor_slot lm j) = load32 (memory s) (descriptor_slot lm j))
    \<and> (\<forall>a. fixed lm h A st a \<longrightarrow> (\<forall>(q, j) \<in> {(elf_stat_at lm, 8), (elf_file_at lm, 4), (binary_stat_at lm, 8), (process + 8328, 16)}. \<not> in_region q j a)
         \<longrightarrow> memory s' a = memory s a) \<and> idle (device s')"
proof -
  from process_load_data_ok[OF assms] obtain P b\<^sub>1 P' b s' where
    r: "process_load_data lm hw p process s = Some (0, s')" "loaded_beside A P b\<^sub>1 P' b (blocks_of sz)" and rest:
    "klive h s' (load_allocs A P b\<^sub>1 P' b (blocks_of sz)) \<and> process_filetype (memory s') process = PROCESS_FILETYPE_BINARY
    \<and> load32 (memory s') (process + 8332) = block_addr h b \<and> load32 (memory s') (process + 8340) = sz
    \<and> (\<forall>j < unat sz. memory s' (block_addr h b + of_nat j) = file_byte img cl dat fc j)
    \<and> (\<forall>j < 512. load32 (memory s') (descriptor_slot lm j) = load32 (memory s) (descriptor_slot lm j))
    \<and> (\<forall>a. fixed lm h A st a \<longrightarrow> (\<forall>(q, j) \<in> {(elf_stat_at lm, 8), (elf_file_at lm, 4), (binary_stat_at lm, 8), (process + 8328, 16)}. \<not> in_region q j a)
         \<longrightarrow> memory s' a = memory s a) \<and> idle (device s')" by blast
  from rest loaded_nine[OF r(2)] r(1) show ?thesis
    by (intro exI[of _ "load_allocs A P b\<^sub>1 P' b (blocks_of sz)"] exI[of _ b] exI[of _ s']) blast
qed

theorem process_load_data_flat_witness:
  "\<exists>A' b s'. process_load_data program_links session_ports 0x200 0x400000 program_machine = Some (0, s')
     \<and> klive kernel_heap_layout s' A' \<and> card (dom A') = 9 \<and> A' b = Some 1 \<and> load32 (memory s') 0x40208C = block_addr kernel_heap_layout b
     \<and> load32 (memory s') 0x402094 = 600 \<and> memory s' (block_addr kernel_heap_layout b + 1) = 13"
proof -
  have pf: "program_file program_links session_ports (\<lambda>d. pending d = []) access_image kernel_heap_layout Map.empty program_machine 0x300000 0x4000 2 10 0x301000
     session_entries 0x200 [48, 58, 47, 104, 105, 46, 116, 120, 116] [104, 105, 46, 116, 120, 116] 1 3 0 600 (elf_mode_at program_links)"
    using program_machine_ready(1) by simp
  have eb: "elf_buffers program_links kernel_heap_layout Map.empty 0x300000 0x4000 0x301000 (length session_entries) 0x200
      (length [48, 58, 47, 104, 105, 46, 116, 120, 116 :: u8])"
    using program_machine_ready(2) by (simp add: session_entries_simps numeral_eq_Suc)
  have by1: "file_byte access_image 2 10 3 1 = 13" by (simp add: file_byte_def disk_byte_def access_image_def)
  have flat: "not_elf (file_byte access_image 2 10 3) 600" unfolding not_elf_def by (rule exI[of _ 1]) (simp add: by1[simplified])
  have n: "blocks_of 600 = 1" by (simp add: blocks_of_page)
  have fit: "fits (unused Map.empty) (nblocks kernel_heap_layout) (85 * blocks_of 600) 0"
    unfolding n by (rule empty_fits) simp
  have bufs: "caller_buffer program_links kernel_heap_layout Map.empty 0x300000 0x4000 (binary_stat_at program_links) 8"
    "caller_buffer program_links kernel_heap_layout Map.empty 0x300000 0x4000 (0x400000 + 8328) 16"
    "disjoint_regions (binary_stat_at program_links) 8 (0x400000 + 8328) 16"
    by (auto intro!: program_buffer simp: disjoint_regions_def)
  have sig: "elf_magic (memory program_machine) (elf_signature_at program_links)" "memory program_machine (binary_mode_at program_links) = 114"
    using program_machine_ready(3,4) by simp_all
  obtain A' b s' where r: "process_load_data program_links session_ports 0x200 0x400000 program_machine = Some (0, s')"
    "klive kernel_heap_layout s' A'" "card (dom A' - dom (Map.empty :: nat \<rightharpoonup> nat)) = 9" "A' b = Some (blocks_of 600)"
    "load32 (memory s') (0x400000 + 8332) = block_addr kernel_heap_layout b" "load32 (memory s') (0x400000 + 8340) = 600"
    "\<forall>j < unat (600 :: u32). memory s' (block_addr kernel_heap_layout b + of_nat j) = file_byte access_image 2 10 3 j"
    using process_load_data_flat[OF pf eb sig(1) flat sig(2) bufs fit] by blast
  from r(7)[rule_format, of 1] by1 have "memory s' (block_addr kernel_heap_layout b + 1) = 13" by simp
  then show ?thesis using r(1-6) by (intro exI[of _ A'] exI[of _ b] exI[of _ s']) (simp add: n)
qed

end
