(* ===== verification/ProcessLoad.thy ===== *)
theory ProcessLoad
  imports ProgramLoad ProcessMemory SchedulerRuns FatStreams
begin

text \<open>
  \<^verbatim>\<open>process_load_for_slot\<close> of \<^verbatim>\<open>src/src/task/process.c\<close> on a flat program: the struct, the program read from the disk, the stack, the task with its
  address space and the mapping of both, composed from the loaders, the scheduler and the page tables.
\<close>

subsection \<open>The memory of a flat program\<close>

text \<open>Page \<open>w\<close> of a process with program pages from \<open>q\<close> and stack pages from \<open>r\<close> on; all others are as \<open>old\<close> says.\<close>

definition program_page :: "nat \<Rightarrow> nat \<Rightarrow> nat \<Rightarrow> (nat \<Rightarrow> u32) \<Rightarrow> nat \<Rightarrow> u32" where
  "program_page q n r old w =
     (if 0x3FB \<le> w \<and> w < 0x3FF then of_nat (4096 * (r + (w - 0x3FB))) OR 7
      else if 0x400 \<le> w \<and> w < 0x400 + n then of_nat (4096 * (q + (w - 0x400))) OR 7 else old w)"

lemma process_map_memory_ok:
  assumes live: "klive h s A" and top: "heap_below_top h" and sp: "process_space h A (memory s) pb tb c bd fs"
    and prog: "process_filetype (memory s) (block_addr h pb) = PROCESS_FILETYPE_BINARY" "load32 (memory s) (block_addr h pb + 8332) = block_addr h b"
    "load32 (memory s) (block_addr h pb + 8340) = sz" "0 < sz" "A b = Some (blocks_of sz)" "blocks_of sz \<le> 2 ^ 19"
    and stack: "load32 (memory s) (block_addr h pb + 8336) = block_addr h sb" "A sb = Some 4"
  obtains m where "process_map_memory (block_addr h pb) s = Some (0, s\<lparr>memory := m\<rparr>)" "process_space h A m pb tb c bd fs"
    "\<And>a. (\<And>x. x \<in> set fs \<Longrightarrow> \<not> in_blocks h x 1 a) \<Longrightarrow> m a = memory s a"
    "\<And>w. w < 2 ^ 20 \<Longrightarrow> pte m (block_addr h bd) w =
       program_page (page_of h b) (blocks_of sz) (page_of h sb) (pte (memory s) (block_addr h bd)) w"
proof -
  let ?p = "block_addr h pb" and ?n = "blocks_of sz"
  have four: "blocks_of 16384 = 4" "(0 :: u32) < 16384" by (simp_all add: blocks_of_def)
  have bn: "b + ?n \<le> nblocks h" using klive_block(3)[OF live prog(5)] .
  have sn: "sb + blocks_of 16384 \<le> nblocks h" using klive_block(3)[OF live stack(2)] by (simp add: four)
  have dir: "load32 (memory s) (load32 (memory s) (?p + 132)) = block_addr h c" using sp by (simp add: process_space_def)
  have v: "0x400 + ?n \<le> 2 ^ 20" "0x3FB + blocks_of 16384 \<le> 2 ^ 20" using prog(6) by (simp_all add: four)
  obtain m1 where m1: "paging_map_to (block_addr h c) (of_nat (4096 * 0x400)) (block_addr h b) (paging_align_address (block_addr h b + sz)) 7 (memory s) = (0, m1)"
    "\<And>a. (\<And>x. x \<in> set fs \<Longrightarrow> \<not> in_blocks h x 1 a) \<Longrightarrow> m1 a = memory s a" "process_space h A m1 pb tb c bd fs"
    "\<And>w. w < 2 ^ 20 \<Longrightarrow> pte m1 (block_addr h bd) w =
       (if 0x400 \<le> w \<and> w < 0x400 + ?n then of_nat (4096 * (page_of h b + (w - 0x400))) OR word_of_int 7 else pte (memory s) (block_addr h bd) w)"
    by (rule map_at[OF live top sp bn prog(4) v(1), of 7]; blast)
  obtain m2 where m2: "paging_map_to (block_addr h c) (of_nat (4096 * 0x3FB)) (block_addr h sb) (paging_align_address (block_addr h sb + 16384)) 7 m1 = (0, m2)"
    "\<And>a. (\<And>x. x \<in> set fs \<Longrightarrow> \<not> in_blocks h x 1 a) \<Longrightarrow> m2 a = m1 a" "process_space h A m2 pb tb c bd fs"
    "\<And>w. w < 2 ^ 20 \<Longrightarrow> pte m2 (block_addr h bd) w =
       (if 0x3FB \<le> w \<and> w < 0x3FB + blocks_of 16384 then of_nat (4096 * (page_of h sb + (w - 0x3FB))) OR word_of_int 7 else pte m1 (block_addr h bd) w)"
    by (rule map_at[OF live top m1(3) sn four(2) v(2), of 7]; blast)
  have pb: "A pb = Some 3" "\<forall>x \<in> set fs. A x = Some 1" using sp by (simp_all add: process_space_def)
  have "m1 a = memory s a" if "in_blocks h pb 3 a" for a
    by (rule m1(2)) (use klive_apart[OF live pb(1) _ _ that, of _ 1] pb in fastforce)
  then have "load32 m1 (?p + of_nat 8336) = load32 (memory s) (?p + of_nat 8336)"
    by (intro load32_cong) (use process_cell[of 8336 h pb] in auto)
  then have st: "load32 m1 (?p + 8336) = block_addr h sb" using stack(1) by simp
  have dir1: "load32 m1 (load32 m1 (?p + 132)) = block_addr h c" using m1(3) by (simp add: process_space_def)
  have "process_map_memory ?p s = Some (0, s\<lparr>memory := m2\<rparr>)"
    using m1(1) m2(1) prog(1-3) dir dir1 st by (simp add: process_map_memory_def process_map_binary_def Let_def)
  moreover have "pte m2 (block_addr h bd) w = program_page (page_of h b) ?n (page_of h sb) (pte (memory s) (block_addr h bd)) w" if "w < 2 ^ 20" for w
    using m1(4)[OF that] m2(4)[OF that] by (simp add: program_page_def four)
  ultimately show thesis using that m1(2) m2(2,3) by simp
qed

subsection \<open>Room for what follows a load\<close>

lemma room_new:
  "card (unused_blocks T A) \<le> card (unused_blocks T (A(b \<mapsto> n))) + n"
proof -
  have "unused_blocks T A \<subseteq> unused_blocks T (A(b \<mapsto> n)) \<union> {b..<b + n}"
    by (auto simp: unused_blocks_def unused_def taken_by_def)
  then have "card (unused_blocks T A) \<le> card (unused_blocks T (A(b \<mapsto> n)) \<union> {b..<b + n})" by (intro card_mono) simp_all
  also have "\<dots> \<le> card (unused_blocks T (A(b \<mapsto> n))) + n" using card_Un_le[of _ "{b..<b + n}"] by simp
  finally show ?thesis .
qed

lemma room_pages:
  assumes "\<forall>x \<in> P. A x = None" "finite P"
  shows "card (unused_blocks T A) \<le> card (unused_blocks T (with_pages A P)) + card P"
  unfolding unused_with_pages[OF assms(1)] using diff_card_le_card_Diff[OF assms(2), of "unused_blocks T A"] by linarith

lemma loaded_room:
  assumes "loaded_beside A P b\<^sub>1 P' b n"
  shows "card (unused_blocks (nblocks h) A) \<le> card (unused_blocks (nblocks h) (load_allocs A P b\<^sub>1 P' b n)) + 2 * n + 7"
    and "fits (unused A) (nblocks h) (5 * (2 * (4 * (2 * m + n)) + n)) b\<^sub>0 \<Longrightarrow> \<exists>b'. fits (unused (load_allocs A P b\<^sub>1 P' b n)) (nblocks h) m b'"
proof -
  let ?A1 = "with_pages A P" and ?A2 = "(with_pages A P)(b\<^sub>1 \<mapsto> n)"
  let ?A3 = "with_pages ?A2 P'"
  have l: "card P = 4" "\<forall>x \<in> P. A x = None" "card P' = 3" "\<forall>x \<in> P'. ?A2 x = None" using assms unfolding loaded_beside_def by blast+
  have fin: "finite P" "finite P'" using l(1,3) card_ge_0_finite[of P] card_ge_0_finite[of P'] by simp_all
  show "card (unused_blocks (nblocks h) A) \<le> card (unused_blocks (nblocks h) (load_allocs A P b\<^sub>1 P' b n)) + 2 * n + 7"
    unfolding load_allocs_def
    using room_pages[OF l(2) fin(1), of "nblocks h"] room_new[of "nblocks h" ?A1 b\<^sub>1 n] room_pages[OF l(4) fin(2), of "nblocks h"]
      room_new[of "nblocks h" ?A3 b n] l(1,3) by linarith
  assume "fits (unused A) (nblocks h) (5 * (2 * (4 * (2 * m + n)) + n)) b\<^sub>0"
  then have "fits (unused A) (nblocks h) (Suc (card P) * (2 * (4 * (2 * m + n)) + n)) b\<^sub>0" unfolding l(1) by (simp only: numeral_eq_Suc pred_numeral_simps BitM.simps eval_nat_numeral)
  then obtain x1 where "fits (unused ?A1) (nblocks h) (2 * (4 * (2 * m + n)) + n) x1" using unused_beside[OF l(2)] fin(1) by blast
  then obtain x2 where "fits (unused ?A2) (nblocks h) (4 * (2 * m + n)) x2" using unused_beside_run by blast
  then have "fits (unused ?A2) (nblocks h) (Suc (card P') * (2 * m + n)) x2" using l(3) by simp
  then obtain x3 where "fits (unused ?A3) (nblocks h) (2 * m + n) x3" using unused_beside[OF l(4)] fin(2) by blast
  then show "\<exists>b'. fits (unused (load_allocs A P b\<^sub>1 P' b n)) (nblocks h) m b'" unfolding load_allocs_def by (rule unused_beside_run)
qed

subsection \<open>A flat program, ready to be loaded\<close>

definition flat_program ::
    "'l processlinks_scheme \<Rightarrow> 'd ports \<Rightarrow> ('d \<Rightarrow> bool) \<Rightarrow> (nat \<Rightarrow> nat \<Rightarrow> u8) \<Rightarrow> heap \<Rightarrow> (nat \<rightharpoonup> nat) \<Rightarrow> ('d, 'a) iostate_scheme \<Rightarrow> u32 \<Rightarrow> u32 \<Rightarrow> nat \<Rightarrow> nat
     \<Rightarrow> u32 \<Rightarrow> (u8 list \<times> u8 list) list \<Rightarrow> u32 \<Rightarrow> u8 list \<Rightarrow> u8 list \<Rightarrow> nat \<Rightarrow> nat \<Rightarrow> nat \<Rightarrow> u32 \<Rightarrow> bool" where
  "flat_program lm hw idle img h A s fp st cl dat items es p xs c k fc i sz \<longleftrightarrow>
     program_file lm hw idle img h A s fp st cl dat items es p xs c k fc i sz (elf_mode_at lm)
     \<and> elf_buffers lm h A fp st items (length es) p (length xs) \<and> elf_magic (memory s) (elf_signature_at lm)
     \<and> not_elf (file_byte img cl dat fc) sz \<and> memory s (binary_mode_at lm) = 114 \<and> caller_buffer lm h A fp st (binary_stat_at lm) 8"

lemma flat_program_later:
  fixes s s' :: "('d, 'a) iostate_scheme"
  assumes fp: "flat_program lm hw idle img h A s fp st cl dat items es p xs c k fc i sz" and live: "klive h s' A'"
    and grow: "unused_blocks (nblocks h) A' \<subseteq> unused_blocks (nblocks h) A"
    and same: "\<And>a. stable h A a \<Longrightarrow> memory s' a = memory s a" and dev: "device s' = device s"
  shows "flat_program lm hw idle img h A' s' fp st cl dat items es p xs c k fc i sz"
proof -
  note f = fp[unfolded flat_program_def]
  have pf: "program_file lm hw idle img h A s fp st cl dat items es p xs c k fc i sz (elf_mode_at lm)" using f by blast
  have src: "stable h A a" if "source_cell lm fp st items (length es) p (length xs) a \<or> in_region (elf_signature_at lm) 4 a" for a
    using f that by (auto simp: elf_buffers_def fixed_def)
  have "program_file lm hw idle img h A' s' fp st cl dat items es p xs c k fc i sz (elf_mode_at lm)"
    by (rule program_file_later[OF pf _ live grow])
      (use src same dev program_fileD(2,10)[OF pf] slot_kept[OF program_fileD(3)[OF pf] _ same] in \<open>auto simp: open_request_def\<close>)
  moreover have "elf_buffers lm h A' fp st items (length es) p (length xs)"
    using f caller_buffer_grow[OF grow, of lm fp st] fixed_grow[OF grow, of lm st] by (auto simp: elf_buffers_def)
  moreover have "memory s' a = memory s a" if "in_region (elf_signature_at lm) 4 a" for a using same src that by blast
  then have "elf_magic (memory s') (elf_signature_at lm)" using f by (simp add: elf_magic_def)
  moreover have "source_cell lm fp st items (length es) p (length xs) (binary_mode_at lm)" by (simp add: source_cell_def)
  then have "memory s' (binary_mode_at lm) = memory s (binary_mode_at lm)" using same src by blast
  ultimately show ?thesis using f caller_buffer_grow[OF grow, of lm fp st] by (simp add: flat_program_def)
qed

lemma process_struct:
  fixes s :: "('d, 'a) iostate_scheme"
  assumes fp: "flat_program lm hw idle img h A s fp st cl dat items es p xs c k fc i sz" and fit: "fits (unused A) (nblocks h) 3 b\<^sub>0"
  obtains pb m1 m where "kzalloc 9384 s = (block_addr h pb, s\<lparr>memory := m1\<rparr>)" "process_init (block_addr h pb) m1 = m" "A pb = None"
    "fits (unused A) (nblocks h) 3 pb" "flat_program lm hw idle img h (A(pb \<mapsto> 3)) (s\<lparr>memory := m\<rparr>) fp st cl dat items es p xs c k fc i sz"
    "caller_buffer lm h (A(pb \<mapsto> 3)) fp st (block_addr h pb) 9384" "\<And>a. stable h A a \<Longrightarrow> m a = memory s a"
    "\<And>a. in_region (block_addr h pb) 9384 a \<Longrightarrow> m a = 0"
proof -
  note f = fp[unfolded flat_program_def]
  have pf: "program_file lm hw idle img h A s fp st cl dat items es p xs c k fc i sz (elf_mode_at lm)"
    and buf: "caller_buffer lm h A fp st (binary_stat_at lm) 8" using f by blast+
  note live = program_fileD(1)[OF pf] and rd = program_fileD(3)[OF pf]
  have e: "0 < (9384 :: u32)" "unat (9384 :: u32) \<le> 2 ^ 32 - 4096" "blocks_of 9384 = 3" by (simp_all add: blocks_of_def)
  have fit0: "fits (unused (with_pages A {})) (nblocks h) (blocks_of 9384) b\<^sub>0" using fit by (simp add: e(3))
  obtain pb m1 where k1: "kzalloc 9384 s = (block_addr h pb, s\<lparr>memory := m1\<rparr>)"
    "took h (A(pb \<mapsto> blocks_of 9384)) (s\<lparr>memory := m1\<rparr>) {} (s\<lparr>memory := m1\<rparr>)" "fits (unused A) (nblocks h) (blocks_of 9384) pb" "A pb = None"
    "\<And>a. stable h A a \<Longrightarrow> m1 a = memory s a"
    by (rule alloc_beside[OF took_refl[OF live] e(1,2) fit0]; blast)
  let ?A = "A(pb \<mapsto> 3)" and ?p = "block_addr h pb"
  define m where "m = process_init ?p m1"
  have live1: "klive h (s\<lparr>memory := m1\<rparr>) ?A" using tookD(1)[OF k1(2)] by (simp only: with_pages_simps e(3))
  note blk = klive_block[OF live1, of pb 3, simplified]
  have out: "m a = m1 a" if "\<not> in_blocks h pb 3 a" for a
    using that by (auto simp: m_def process_init_def memset_eq in_blocks_def in_region_def)
  have "klive h (s\<lparr>memory := m1, memory := m\<rparr>) ?A"
    by (rule klive_frame[OF live1]) (use out blocks_not_in_table[OF blk(1,3)] in auto)
  then have live2: "klive h (s\<lparr>memory := m\<rparr>) ?A" by simp
  have same: "m a = memory s a" if "stable h A a" for a
    using k1(5)[OF that] out run_unstable[OF blk(1) _ that, of 3 pb] k1(3) by (simp add: e(3))
  have grow: "unused_blocks (nblocks h) ?A \<subseteq> unused_blocks (nblocks h) A" by (rule unused_new) (rule k1(4))
  have "flat_program lm hw idle img h ?A (s\<lparr>memory := m\<rparr>) fp st cl dat items es p xs c k fc i sz"
    by (rule flat_program_later[OF fp live2 grow]) (use same in simp_all)
  moreover have "caller_buffer lm h ?A fp st ?p (unat (9384 :: u32))"
    using fresh_buffer[of h "s\<lparr>memory := m1\<rparr>" A pb 9384 "{}" lm "memory s" fp st cl dat items es "binary_stat_at lm" 8, OF _ rd buf e(1) k1(3,4)] live1
    by (simp add: e(3))
  moreover have "m a = 0" if "in_region ?p 9384 a" for a using that by (simp add: m_def process_init_def memset_eq)
  ultimately show thesis using that[OF k1(1) m_def[symmetric] k1(4)] k1(3) same by (simp add: e(3))
qed

subsection \<open>Filling the struct\<close>

text \<open>The name, the stack and the number, as \<^verbatim>\<open>process_load_for_slot\<close> writes them.\<close>

definition process_named :: "u32 \<Rightarrow> u32 \<Rightarrow> u32 \<Rightarrow> u16 \<Rightarrow> mem \<Rightarrow> mem" where
  "process_named process filename stack slot m = store16 (store32 (strncpy m (process + 2) filename 128) (process + 8336) stack) process slot"

lemma process_named_ok:
  fixes stack :: u32 and slot :: u16
  assumes name: "cstr_at m filename xs" "length xs < 2 ^ 32" and ap: "disjoint_regions process 9384 filename (Suc (length xs))"
  defines "m' \<equiv> process_named process filename stack slot m"
  shows "\<not> in_region process 130 a \<Longrightarrow> \<not> in_region (process + 8336) 4 a \<Longrightarrow> m' a = m a"
    and "load16 m' process = slot" "cstr_at m' (process + 2) (take 127 xs)" "load32 m' (process + 8336) = stack"
proof -
  let ?m1 = "strncpy m (process + 2) filename 128"
  let ?m2 = "store32 ?m1 (process + 8336) stack"
  have "disjoint_regions (process + of_nat 2) 128 filename (Suc (length xs))" by (rule disjoint_regions_sub[OF ap]) simp_all
  then have "disjoint_regions (process + 2) (nat 128) filename (Suc (length xs))" by simp
  note cp = strncpy_cstr[OF name(1) _ _ name(2) this]
  have n2: "in_region process 130 a" if "in_region (process + 2) 128 a" for a using in_region_sub[of process 2 128 a 130] that by simp
  have n0: "in_region process 130 a" if "in_region process 2 a" for a using in_region_sub[of process 0 2 a 130] that by simp
  show out: "m' a = m a" if "\<not> in_region process 130 a" "\<not> in_region (process + 8336) 4 a" for a
    unfolding m'_def process_named_def
    using that n0 n2 cp(2)[of a] by (subst store16_outside, blast) (subst store32_outside, auto)
  show "load16 m' process = slot" by (simp add: m'_def process_named_def)
  have "m' a = ?m1 a" if "in_region (process + 2) 128 a" for a
  proof -
    have "\<not> in_region process 2 a" "\<not> in_region (process + 8336) 4 a"
      by (rule disjoint_regionsD[OF _ that]; simp add: disjoint_regions_def)+
    then show ?thesis unfolding m'_def process_named_def by (subst store16_outside, blast) (subst store32_outside, auto)
  qed
  then have "cstr_at m' (process + 2) (take 127 xs) = cstr_at ?m1 (process + 2) (take 127 xs)"
    by (intro cstr_at_cong) (simp add: unat_of_nat_u32)
  then show "cstr_at m' (process + 2) (take 127 xs)" using cp(1) by simp
  have "disjoint_regions process 2 (process + 8336) 4" by (simp add: disjoint_regions_def)
  then have "load32 m' (process + 8336) = load32 ?m2 (process + 8336)"
    unfolding m'_def process_named_def by (intro load32_cong store16_outside) (auto dest: disjoint_regionsD)
  then show "load32 m' (process + 8336) = stack" by simp
qed

lemma caller_buffer_part:
  assumes buf: "caller_buffer lm h A fp st q n" and o: "off + k \<le> n" "0 < k" "n \<le> 2 ^ 32"
  shows "caller_buffer lm h A fp st (q + of_nat off) k"
proof -
  have sub: "in_region q n a" if "in_region (q + of_nat off) k a" for a using in_region_sub[OF that o(1,3)] .
  have ap: "disjoint_regions r j (q + of_nat off) k" if "disjoint_regions r j q n" "0 < j" for r j
    using disjoint_regions_sub[of q n r j off k j] that o by (simp add: disjoint_regions_sym)
  have "read_areas (stream_buf_at lm) st (q + of_nat off) k" using buf ap by (simp add: caller_buffer_def read_areas_def)
  then show ?thesis using buf sub by (auto simp: caller_buffer_def)
qed

text \<open>The loaders' own buffers.\<close>

definition loader_buffer :: "'l processlinks_scheme \<Rightarrow> u32 \<Rightarrow> bool" where
  "loader_buffer lm a \<longleftrightarrow> in_region (elf_stat_at lm) 8 a \<or> in_region (elf_file_at lm) 4 a \<or> in_region (binary_stat_at lm) 8 a"

lemma loaded_grow:
  assumes "loaded_beside A P b\<^sub>1 P' b n"
  shows "unused_blocks T (load_allocs A P b\<^sub>1 P' b n) \<subseteq> unused_blocks T A"
proof -
  have l: "\<forall>x \<in> P. A x = None" "with_pages A P b\<^sub>1 = None" "\<forall>x \<in> P'. ((with_pages A P)(b\<^sub>1 \<mapsto> n)) x = None"
    "with_pages ((with_pages A P)(b\<^sub>1 \<mapsto> n)) P' b = None" using assms unfolding loaded_beside_def by blast+
  show ?thesis
    unfolding load_allocs_def
    using unused_with_pages[OF l(1), of T] unused_new[of "with_pages A P" b\<^sub>1 T n, OF l(2)] unused_with_pages[OF l(3), of T]
      unused_new[of "with_pages ((with_pages A P)(b\<^sub>1 \<mapsto> n)) P'" b T n, OF l(4)] by blast
qed

lemma process_filled:
  fixes s :: "('d, 'a) iostate_scheme"
  assumes fp: "flat_program lm hw idle img h A s fp st cl dat items es p xs c k fc i sz"
    and pb: "A pb = Some 3" and buf: "caller_buffer lm h A fp st (block_addr h pb) 9384"
    and ap: "\<And>a. in_region (block_addr h pb) 9384 a \<Longrightarrow> \<not> loader_buffer lm a"
    and fit: "fits (unused A) (nblocks h) (85 * blocks_of sz + 320) b\<^sub>0"
  obtains P b\<^sub>1 P' b sb s3 m4 where "process_load_data lm hw p (block_addr h pb) s = Some (0, s3)"
    "kzalloc 16384 s3 = (block_addr h sb, s3\<lparr>memory := m4\<rparr>)" "io_only s s3" "loaded_beside A P b\<^sub>1 P' b (blocks_of sz)"
    "load_allocs A P b\<^sub>1 P' b (blocks_of sz) sb = None" "klive h (s3\<lparr>memory := m4\<rparr>) ((load_allocs A P b\<^sub>1 P' b (blocks_of sz))(sb \<mapsto> 4))"
    "process_filetype m4 (block_addr h pb) = PROCESS_FILETYPE_BINARY" "load32 m4 (block_addr h pb + 8332) = block_addr h b"
    "load32 m4 (block_addr h pb + 8340) = sz" "\<And>j. j < unat sz \<Longrightarrow> m4 (block_addr h b + of_nat j) = file_byte img cl dat fc j"
    "\<And>a. fixed lm h A st a \<Longrightarrow> \<not> loader_buffer lm a \<Longrightarrow> \<not> in_region (block_addr h pb + 8328) 16 a \<Longrightarrow> m4 a = memory s a"
proof -
  let ?p = "block_addr h pb" and ?n = "blocks_of sz"
  note f = fp[unfolded flat_program_def]
  have pr: "caller_buffer lm h A fp st (?p + 8328) 16" using caller_buffer_part[OF buf, of 8328 16] by simp
  have in_p: "in_region ?p 9384 a" if "in_region (?p + 8328) 16 a" for a using in_region_sub[of ?p 8328 16 a 9384] that by simp
  have ap1: "disjoint_regions (binary_stat_at lm) 8 (?p + 8328) 16"
    by (rule disjoint_regionsI) (use ap in_p in \<open>auto simp: loader_buffer_def\<close>)
  have fits: "fits (unused A) (nblocks h) (85 * ?n) b\<^sub>0" "fits (unused A) (nblocks h) (5 * (2 * (4 * (2 * 4 + ?n)) + ?n)) b\<^sub>0"
    by (rule fits_shorter[OF fit]; simp)+
  obtain P b\<^sub>1 P' b s3 where r: "process_load_data lm hw p ?p s = Some (0, s3)" and l: "loaded_beside A P b\<^sub>1 P' b ?n"
    and live3: "klive h s3 (load_allocs A P b\<^sub>1 P' b ?n)" and v: "process_filetype (memory s3) ?p = PROCESS_FILETYPE_BINARY"
    "load32 (memory s3) (?p + 8332) = block_addr h b" "load32 (memory s3) (?p + 8340) = sz"
    "\<forall>j < unat sz. memory s3 (block_addr h b + of_nat j) = file_byte img cl dat fc j"
    and fr: "\<forall>a. fixed lm h A st a \<longrightarrow> (\<forall>(q, j) \<in> {(elf_stat_at lm, 8), (elf_file_at lm, 4), (binary_stat_at lm, 8), (?p + 8328, 16)}. \<not> in_region q j a)
         \<longrightarrow> memory s3 a = memory s a" and io: "io_only s s3"
    using process_load_data_ok[of lm hw idle img h A s fp st cl dat items es p xs c k fc i sz ?p b\<^sub>0] f pr ap1 fits(1) by blast
  let ?A3 = "load_allocs A P b\<^sub>1 P' b ?n"
  have e: "0 < (16384 :: u32)" "unat (16384 :: u32) \<le> 2 ^ 32 - 4096" "blocks_of 16384 = 4" by (simp_all add: blocks_of_def)
  obtain b\<^sub>2 where "fits (unused ?A3) (nblocks h) 4 b\<^sub>2" using loaded_room(2)[OF l fits(2)] by blast
  then have fit4: "fits (unused (with_pages ?A3 {})) (nblocks h) (blocks_of 16384) b\<^sub>2" by (simp add: e(3))
  obtain sb m4 where k: "kzalloc 16384 s3 = (block_addr h sb, s3\<lparr>memory := m4\<rparr>)"
    "took h (?A3(sb \<mapsto> blocks_of 16384)) (s3\<lparr>memory := m4\<rparr>) {} (s3\<lparr>memory := m4\<rparr>)" "fits (unused ?A3) (nblocks h) (blocks_of 16384) sb" "?A3 sb = None"
    "\<And>a. stable h ?A3 a \<Longrightarrow> m4 a = memory s3 a"
    by (rule alloc_beside[OF took_refl[OF live3] e(1,2) fit4]; blast)
  have live4: "klive h (s3\<lparr>memory := m4\<rparr>) (?A3(sb \<mapsto> 4))" using tookD(1)[OF k(2)] by (simp only: with_pages_simps e(3))
  note nine = loaded_nine[OF l]
  have b3: "?A3 pb = Some 3" using nine(1) pb by (auto simp: map_le_def dom_def)
  have proc: "m4 a = memory s3 a" if "in_blocks h pb 3 a" for a by (rule k(5)) (rule live_page_stable[OF live3 b3 that])
  have fields: "load32 m4 (?p + of_nat off) = load32 (memory s3) (?p + of_nat off)" if "off + 4 \<le> 12288" for off
    by (rule load32_cong, rule proc) (rule process_cell[OF that])
  have "m4 (?p + 8328) = memory s3 (?p + 8328)" by (rule proc) (simp add: in_blocks_def)
  then have ft: "process_filetype m4 ?p = PROCESS_FILETYPE_BINARY" using v(1) by simp
  have data: "m4 (block_addr h b + of_nat j) = file_byte img cl dat fc j" if "j < unat sz" for j
  proof -
    have "in_region (block_addr h b) (unat sz) (block_addr h b + of_nat j)" using that unat_u32_bound[of sz] by (simp add: unat_of_nat_u32)
    from k(5)[OF live_page_stable[OF live3 nine(3) sized_in_run[OF this]]] show ?thesis using v(4) that by simp
  qed
  have "m4 a = memory s a" if "fixed lm h A st a" "\<not> loader_buffer lm a" "\<not> in_region (?p + 8328) 16 a" for a
    using k(5)[OF stable_grow[OF loaded_grow[OF l]], of a] fr that by (simp add: fixed_def loader_buffer_def)
  with that[OF r k(1) io l k(4) live4 ft _ _ data] fields[of 8332] fields[of 8340] v(2,3) show thesis by simp
qed

subsection \<open>The task and its memory\<close>

lemma queue_kept:
  fixes s s' :: "('d, 'a) tstate_scheme"
  assumes live: "klive h s A" and queue: "run_queue s ts q" and mine: "\<forall>x \<in> set ts. \<exists>e. e \<in> E \<and> A e = Some 1 \<and> x = block_addr h e"
    and fields: "task_head s' = task_head s" "task_tail s' = task_tail s" "current_task s' = current_task s"
    and same: "\<And>e a. e \<in> E \<Longrightarrow> A e = Some 1 \<Longrightarrow> in_blocks h e 1 a \<Longrightarrow> memory s' a = memory s a"
  shows "run_queue s' ts q"
proof (rule run_queue_cong[OF queue fields])
  fix t assume "t \<in> set ts"
  then obtain e where e: "e \<in> E" "A e = Some 1" "t = block_addr h e" using mine by blast
  show "task_next_of (memory s') t = task_next_of (memory s) t \<and> task_prev_of (memory s') t = task_prev_of (memory s) t"
    using task_cell[OF live e(2), of "memory s'" "memory s" 52] task_cell[OF live e(2), of "memory s'" "memory s" 56] same[OF e(1,2)] e(3) by simp
qed

lemma registers_kept:
  assumes "klive h s A" "A b = Some 1" "\<And>a. in_blocks h b 1 a \<Longrightarrow> m' a = m a"
  shows "load_registers m' (block_addr h b + 4) = load_registers m (block_addr h b + 4)"
proof -
  have "load32 m' (block_addr h b + 4 + of_nat i) = load32 m (block_addr h b + 4 + of_nat i)" if "i \<le> 44" for i
    using task_cell[OF assms(1,2), of m' m "4 + i"] assms(3) that by (simp add: add.assoc)
  from this[of 0] this[of 4] this[of 8] this[of 12] this[of 16] this[of 20] this[of 24] this[of 28] this[of 32] this[of 36] this[of 40] this[of 44]
  show ?thesis by (simp add: load_registers_def)
qed

lemma process_started:
  fixes s :: "('d, 'a) tstate_scheme"
  assumes live: "klive h s A" and top: "heap_below_top h" and room: "1027 \<le> card (unused_blocks (nblocks h) A)" and pb: "A pb = Some 3"
    and prog: "process_filetype (memory s) (block_addr h pb) = PROCESS_FILETYPE_BINARY" "load32 (memory s) (block_addr h pb + 8332) = block_addr h b"
    "load32 (memory s) (block_addr h pb + 8340) = sz" "0 < sz" "A b = Some (blocks_of sz)" "blocks_of sz \<le> 2 ^ 19"
    and stack: "load32 (memory s) (block_addr h pb + 8336) = block_addr h sb" "A sb = Some 4"
    and queue: "run_queue s ts q" and mine: "\<forall>x \<in> set ts. \<exists>e. A e = Some 1 \<and> x = block_addr h e"
  obtains tb c bd fs s7 m where "task_new (block_addr h pb) s = (block_addr h tb, s7)" "block_addr h tb \<noteq> NULL"
    "process_map_memory (block_addr h pb) (s7\<lparr>memory := store32 (memory s7) (block_addr h pb + 132) (block_addr h tb)\<rparr>) = Some (0, s7\<lparr>memory := m\<rparr>)"
    "klive h (s7\<lparr>memory := m\<rparr>) (with_pages A (set (tb # c # bd # fs)))" "\<forall>x \<in> set (tb # c # bd # fs). A x = None"
    "process_space h (with_pages A (set (tb # c # bd # fs))) m pb tb c bd fs"
    "run_queue (s7\<lparr>memory := m\<rparr>) (ts @ [block_addr h tb]) (if ts = [] then block_addr h tb else q)"
    "\<And>w. w < 2 ^ 20 \<Longrightarrow> pte m (block_addr h bd) w =
       program_page (page_of h b) (blocks_of sz) (page_of h sb) (\<lambda>w. of_nat (4096 * w) OR 5) w"
    "load_registers m (block_addr h tb + 4) = fresh_context 0x400000" "load32 m (block_addr h tb + 60) = block_addr h pb"
    "\<And>e n a. A e = Some n \<Longrightarrow> in_blocks h e n a \<Longrightarrow> (ts \<noteq> [] \<longrightarrow> \<not> in_region (last ts + 52) 4 a) \<Longrightarrow>
       \<not> in_region (block_addr h pb + 132) 4 a \<Longrightarrow> m a = memory s a"
proof -
  let ?p = "block_addr h pb"
  have in_p: "in_blocks h pb 3 a" if "in_region ?p 9384 a" for a using that by (simp add: in_blocks_def in_region_def)
  then have entry: "entry_held h A (memory s) ?p" using pb prog(1) by (auto simp: entry_held_def held_def)
  obtain tb c bd fs s7 where t: "task_new ?p s = (block_addr h tb, s7)" "A tb = None" "tb \<notin> set (c # bd # fs)"
    and live7: "klive h s7 (with_pages A (set (tb # c # bd # fs)))" and new: "\<forall>x \<in> set (tb # c # bd # fs). A x = None"
    and q7: "run_queue s7 (ts @ [block_addr h tb]) (if ts = [] then block_addr h tb else q)"
    and dir: "load32 (memory s7) (block_addr h tb) = block_addr h c" "chunk_pages h (memory s7) c bd fs"
    and ident: "\<forall>v < 2 ^ 20. pte (memory s7) (block_addr h bd) v = of_nat (4096 * v) OR 5"
    and regs: "load_registers (memory s7) (block_addr h tb + 4) = fresh_context (entry_point (memory s) ?p)" "load32 (memory s7) (block_addr h tb + 60) = ?p"
    and fr: "\<forall>e n a. A e = Some n \<longrightarrow> in_blocks h e n a \<longrightarrow> (ts \<noteq> [] \<longrightarrow> \<not> in_region (last ts + 52) 4 a) \<longrightarrow> memory s7 a = memory s a"
    using task_new_ok[OF live room entry queue mine] by blast
  let ?N = "set (tb # c # bd # fs)"
  let ?A = "with_pages A ?N"
  have old: "?A e = Some n" if "A e = Some n" for e n using that new by (auto simp: with_pages_def)
  have pbN: "pb \<notin> ?N" using new pb by auto
  define m8 where "m8 = store32 (memory s7) (?p + 132) (block_addr h tb)"
  have cell132: "in_blocks h pb 3 a" if "in_region (?p + 132) 4 a" for a using process_cell[of 132 h pb a] that by simp
  have off8: "m8 a = memory s7 a" if "\<not> in_region (?p + 132) 4 a" for a unfolding m8_def by (rule store32_outside[OF that])
  have page8: "m8 a = memory s7 a" if "?A x = Some n" "x \<noteq> pb" "in_blocks h x n a" for x n a
    by (rule off8) (use klive_apart[OF live7 that(1) old[OF pb] that(2,3)] cell132 in blast)
  have live8: "klive h (s7\<lparr>memory := m8\<rparr>) ?A"
  proof (rule klive_write[OF live7])
    fix a assume "m8 a \<noteq> memory s7 a"
    then have "in_blocks h pb 3 a" using off8 cell132 by blast
    then show "\<exists>b n. ?A b = Some n \<and> in_blocks h b n a" using old[OF pb] by blast
  qed
  have last: "\<not> in_region (last ts + 52) 4 a" if ne: "ts \<noteq> []" and ap: "in_blocks h pb 3 a" for a
  proof
    assume a: "in_region (last ts + 52) 4 a"
    obtain e where e: "A e = Some 1" "last ts = block_addr h e" using bspec[OF mine last_in_set[OF ne]] by blast
    then have "in_blocks h e 1 a" using a block_bytes[of h e 52 4 a] by simp
    moreover have "e \<noteq> pb" using e(1) pb by auto
    ultimately show False using klive_apart[OF live e(1) pb] ap by blast
  qed
  have proc7: "memory s7 a = memory s a" if "in_blocks h pb 3 a" for a using fr[rule_format, OF pb that] last that by simp
  have fields8: "m8 (?p + 8328) = memory s (?p + 8328)" "load32 m8 (?p + 8332) = load32 (memory s) (?p + 8332)"
    "load32 m8 (?p + 8336) = load32 (memory s) (?p + 8336)" "load32 m8 (?p + 8340) = load32 (memory s) (?p + 8340)"
  proof -
    have "m8 a = memory s a" if "in_region (?p + 8328) 16 a" for a
    proof -
      have "disjoint_regions (?p + 132) 4 (?p + 8328) 16" by (simp add: disjoint_regions_def)
      then have "\<not> in_region (?p + 132) 4 a" using disjoint_regionsD that by blast
      moreover have "in_blocks h pb 3 a" using in_p in_region_sub[of ?p 8328 16 a 9384] that by simp
      ultimately show ?thesis using off8 proc7 by simp
    qed
    moreover have "in_region (?p + 8328) 16 a" if "in_region (?p + 8336) 4 a" for a
      using in_region_sub[of "?p + 8328" 8 4 a 16] that by (simp add: add.assoc)
    ultimately show "m8 (?p + 8328) = memory s (?p + 8328)" "load32 m8 (?p + 8332) = load32 (memory s) (?p + 8332)"
      "load32 m8 (?p + 8336) = load32 (memory s) (?p + 8336)" "load32 m8 (?p + 8340) = load32 (memory s) (?p + 8340)"
      using program_cells_in[of ?p] by (auto intro!: load32_cong)
  qed
  have pages: "\<forall>x \<in> set (c # bd # fs). ?A x = Some 1" by simp
  have own_same: "m8 a = memory s7 a" if "x \<in> set (c # bd # fs)" "in_blocks h x 1 a" for x a
    using page8[of x 1 a] pages pbN that by auto
  have own8: "chunk_pages h m8 c bd fs" by (rule chunk_frame(1)[OF live7 dir(2) pages own_same])
  have pte8: "pte m8 (block_addr h bd) v = pte (memory s7) (block_addr h bd) v" if "v < 2 ^ 20" for v
    by (rule chunk_frame(2)[OF live7 dir(2) pages own_same that])
  have tbA: "?A tb = Some 1" "tb \<noteq> pb" using pbN by auto
  have "load32 m8 (block_addr h tb) = block_addr h c" using task_cell[OF live7 tbA(1), of m8 "memory s7" 0] page8[OF tbA] dir(1) by simp
  then have sp8: "process_space h ?A (memory (s7\<lparr>memory := m8\<rparr>)) pb tb c bd fs"
    using old[OF pb] own8 t(3) by (simp add: process_space_def m8_def)
  have f8: "process_filetype (memory (s7\<lparr>memory := m8\<rparr>)) ?p = PROCESS_FILETYPE_BINARY"
    "load32 (memory (s7\<lparr>memory := m8\<rparr>)) (?p + 8332) = block_addr h b" "load32 (memory (s7\<lparr>memory := m8\<rparr>)) (?p + 8340) = sz"
    "load32 (memory (s7\<lparr>memory := m8\<rparr>)) (?p + 8336) = block_addr h sb" using fields8 prog(1-3) stack(1) by simp_all
  obtain m where m: "process_map_memory ?p (s7\<lparr>memory := m8\<rparr>) = Some (0, s7\<lparr>memory := m8, memory := m\<rparr>)" "process_space h ?A m pb tb c bd fs"
    "\<And>a. (\<And>x. x \<in> set fs \<Longrightarrow> \<not> in_blocks h x 1 a) \<Longrightarrow> m a = memory (s7\<lparr>memory := m8\<rparr>) a"
    "\<And>w. w < 2 ^ 20 \<Longrightarrow> pte m (block_addr h bd) w =
       program_page (page_of h b) (blocks_of sz) (page_of h sb) (pte (memory (s7\<lparr>memory := m8\<rparr>)) (block_addr h bd)) w"
    by (rule process_map_memory_ok[OF live8 top sp8 f8(1-3) prog(4) old[OF prog(5)] prog(6) f8(4) old[OF stack(2)]]; blast)
  have apart: "m a = m8 a" if "?A e = Some n" "e \<notin> set fs" "in_blocks h e n a" for e n a
  proof -
    have "\<not> in_blocks h x 1 a" if x: "x \<in> set fs" for x
      by (rule klive_apart[OF live7 \<open>?A e = Some n\<close> _ _ \<open>in_blocks h e n a\<close>]) (use x \<open>e \<notin> set fs\<close> in auto)
    then show ?thesis using m(3)[of a] by simp
  qed
  have live9: "klive h (s7\<lparr>memory := m\<rparr>) ?A"
  proof -
    have "klive h (s7\<lparr>memory := m8, memory := m\<rparr>) ?A"
    proof (rule klive_write[OF live8])
      fix a assume "m a \<noteq> memory (s7\<lparr>memory := m8\<rparr>) a"
      then obtain x where "x \<in> set fs" "in_blocks h x 1 a" using m(3) by blast
      then show "\<exists>b n. ?A b = Some n \<and> in_blocks h b n a" using pages by (intro exI[of _ x] exI[of _ 1]) simp
    qed
    then show ?thesis by simp
  qed
  have q9: "run_queue (s7\<lparr>memory := m\<rparr>) (ts @ [block_addr h tb]) (if ts = [] then block_addr h tb else q)"
  proof (rule queue_kept[OF live7 q7, where E = "- insert pb (set fs)"])
    show "\<forall>x \<in> set (ts @ [block_addr h tb]). \<exists>e. e \<in> - insert pb (set fs) \<and> ?A e = Some 1 \<and> x = block_addr h e"
    proof
      fix x assume "x \<in> set (ts @ [block_addr h tb])"
      then consider "x \<in> set ts" | "x = block_addr h tb" by auto
      then show "\<exists>e. e \<in> - insert pb (set fs) \<and> ?A e = Some 1 \<and> x = block_addr h e"
      proof cases
        case 1
        then obtain e where e: "A e = Some 1" "x = block_addr h e" using bspec[OF mine] by blast
        then have "e \<notin> set fs" "e \<noteq> pb" using new pb by auto
        then show ?thesis using e old[OF e(1)] by blast
      next
        case 2
        then show ?thesis using tbA t(3) by (intro exI[of _ tb]) simp
      qed
    qed
    show "memory (s7\<lparr>memory := m\<rparr>) a = memory s7 a" if "e \<in> - insert pb (set fs)" "?A e = Some 1" "in_blocks h e 1 a" for e a
      using apart[OF that(2) _ that(3)] page8[OF that(2) _ that(3)] that(1) by simp
  qed simp_all
  have tb9: "m a = memory s7 a" if "in_blocks h tb 1 a" for a using apart[OF tbA(1) _ that] page8[OF tbA that] t(3) by simp
  have "load_registers m (block_addr h tb + 4) = fresh_context 0x400000"
    using registers_kept[OF live7 tbA(1), of m "memory s7"] tb9 regs(1) prog(1) by (simp add: entry_point_def)
  moreover have "load32 m (block_addr h tb + 60) = ?p" using task_cell[OF live7 tbA(1), of m "memory s7" 60] tb9 regs(2) by simp
  moreover have "m a = memory s a" if "A e = Some n" "in_blocks h e n a" "ts \<noteq> [] \<longrightarrow> \<not> in_region (last ts + 52) 4 a" "\<not> in_region (?p + 132) 4 a" for e n a
    using apart[OF old[OF that(1)] _ that(2)] off8[OF that(4)] fr that(1-3) new by fastforce
  moreover have "pte m (block_addr h bd) w = program_page (page_of h b) (blocks_of sz) (page_of h sb) (\<lambda>w. of_nat (4096 * w) OR 5) w" if "w < 2 ^ 20" for w
    using m(4)[OF that] pte8[OF that] ident that by (simp add: program_page_def)
  moreover have "process_map_memory ?p (s7\<lparr>memory := store32 (memory s7) (?p + 132) (block_addr h tb)\<rparr>) = Some (0, s7\<lparr>memory := m\<rparr>)"
    using m(1) by (simp add: m8_def)
  moreover have "block_addr h tb \<noteq> NULL" using klive_block(1,2)[OF live7 tbA(1)] by (rule block_addr_nonzero)
  ultimately show thesis using that[OF t(1) _ _ live9 new m(2) q9] by blast
qed

subsection \<open>The struct before its task\<close>

text \<open>Number, name, kind, program, stack and size of a process with no allocations, and the program's bytes.\<close>

definition prepared :: "heap \<Rightarrow> mem \<Rightarrow> nat \<Rightarrow> nat \<Rightarrow> nat \<Rightarrow> u32 \<Rightarrow> u8 list \<Rightarrow> nat \<Rightarrow> (nat \<Rightarrow> u8) \<Rightarrow> bool" where
  "prepared h m pb b sb sz name slot f \<longleftrightarrow> load16 m (block_addr h pb) = of_nat slot \<and> cstr_at m (block_addr h pb + 2) name
     \<and> process_filetype m (block_addr h pb) = PROCESS_FILETYPE_BINARY \<and> load32 m (block_addr h pb + 8332) = block_addr h b
     \<and> load32 m (block_addr h pb + 8336) = block_addr h sb \<and> load32 m (block_addr h pb + 8340) = sz
     \<and> (\<forall>j < 1024. load32 m (allocation_at (block_addr h pb) j) = 0) \<and> (\<forall>j < unat sz. m (block_addr h b + of_nat j) = f j)"

lemma prepared_cong:
  assumes pr: "prepared h m pb b sb sz name slot f" and len: "length name < 128"
    and same: "\<And>a. in_region (block_addr h pb) 9384 a \<Longrightarrow> \<not> in_region (block_addr h pb + 132) 4 a \<Longrightarrow> m' a = m a"
      "\<And>a. in_region (block_addr h b) (unat sz) a \<Longrightarrow> m' a = m a"
  shows "prepared h m' pb b sb sz name slot f"
proof -
  let ?p = "block_addr h pb"
  have byt: "m' (?p + of_nat off) = m (?p + of_nat off)" if "off < 9384" "off < 132 \<or> 136 \<le> off" for off
  proof (rule same(1))
    show "in_region ?p 9384 (?p + of_nat off)" using that(1) by (simp add: unat_of_nat_u32)
    have "?p + of_nat off - (?p + 132) = of_nat off - 132" by simp
    then show "\<not> in_region (?p + 132) 4 (?p + of_nat off)" using that by (auto simp: in_region_def unat_sub_if' unat_of_nat_u32)
  qed
  have w: "load32 m' (?p + of_nat off) = load32 m (?p + of_nat off)" if "136 \<le> off" "off + 4 \<le> 9384" for off
    using byt[of off] byt[of "off + 1"] byt[of "off + 2"] byt[of "off + 3"] that by (simp add: load32_def ac_simps)
  have "load16 m' ?p = load16 m ?p" using byt[of 0] byt[of 1] by (simp add: load16_def)
  moreover have "cstr_at m' (?p + 2) name = cstr_at m (?p + 2) name"
  proof (rule cstr_at_cong)
    fix i assume "i \<le> length name"
    then show "m' (?p + 2 + of_nat i) = m (?p + 2 + of_nat i)" using byt[of "2 + i"] len by (simp add: add.assoc)
  qed
  moreover have "load32 m' (allocation_at ?p j) = load32 m (allocation_at ?p j)" if "j < 1024" for j
    using w[of "136 + 8 * j"] that by (simp add: add.assoc)
  moreover have "m' (block_addr h b + of_nat j) = m (block_addr h b + of_nat j)" if "j < unat sz" for j
    by (rule same(2)) (use that unat_u32_bound[of sz] in \<open>simp add: unat_of_nat_u32\<close>)
  ultimately show ?thesis using pr byt[of 8328] w[of 8332] w[of 8336] w[of 8340] by (simp add: prepared_def)
qed

lemma loader_buffer_fixed:
  "flat_program lm hw idle img h A s fp st cl dat items es p xs c k fc i sz \<Longrightarrow> loader_buffer lm a \<Longrightarrow> fixed lm h A st a"
  using buffer_spare[of lm h A fp st _ _ a] by (auto simp: flat_program_def elf_buffers_def loader_buffer_def spare_def)

lemma program_blocks_small:
  assumes "flat_program lm hw idle img h A s fp st cl dat items es p xs c k fc i sz"
  shows "blocks_of sz \<le> 2 ^ 19" "0 < sz"
proof -
  have pf: "program_file lm hw idle img h A s fp st cl dat items es p xs c k fc i sz (elf_mode_at lm)" using assms by (simp add: flat_program_def)
  have "cl < 256" using program_fileD(3)[OF pf] by (simp add: open_ready_def mounted_def)
  then have "unat sz < 2 ^ 17" using program_fileD(14)[OF pf] by simp
  then have "(unat sz + 4095) div 4096 \<le> 2 ^ 19" by simp
  then show "blocks_of sz \<le> 2 ^ 19" by (simp add: blocks_of_def)
  show "0 < sz" by (rule program_fileD(11)[OF pf])
qed

lemma process_prepared:
  fixes s :: "('d, 'a) tstate_scheme"
  assumes fp: "flat_program lm hw idle img h A s fp st cl dat items es p xs c k fc i sz"
    and path: "\<And>j. j \<le> length xs \<Longrightarrow> \<not> loader_buffer lm (p + of_nat j)"
    and queue: "run_queue s ts q" and tasks: "\<And>x a. x \<in> set ts \<Longrightarrow> in_region x 64 a \<Longrightarrow> fixed lm h A st a \<and> \<not> loader_buffer lm a"
    and fit: "fits (unused A) (nblocks h) (170 * blocks_of sz + 1100) b\<^sub>0"
  obtains pb m1 b sb A' s3 m4 where "kzalloc 9384 s = (block_addr h pb, s\<lparr>memory := m1\<rparr>)"
    "process_load_data lm hw p (block_addr h pb) (s\<lparr>memory := process_init (block_addr h pb) m1\<rparr>) = Some (0, s3)"
    "kzalloc 16384 s3 = (block_addr h sb, s3\<lparr>memory := m4\<rparr>)"
    "klive h (s3\<lparr>memory := process_named (block_addr h pb) p (block_addr h sb) (of_nat slot) m4\<rparr>) A'"
    "A \<subseteq>\<^sub>m A'" "A pb = None" "A' pb = Some 3" "A b = None" "A' b = Some (blocks_of sz)" "A sb = None" "A' sb = Some 4" "b \<noteq> pb"
    "1027 \<le> card (unused_blocks (nblocks h) A')"
    "prepared h (process_named (block_addr h pb) p (block_addr h sb) (of_nat slot) m4) pb b sb sz (take 127 xs) slot (file_byte img cl dat fc)"
    "run_queue (s3\<lparr>memory := process_named (block_addr h pb) p (block_addr h sb) (of_nat slot) m4\<rparr>) ts q"
proof -
  let ?n = "blocks_of sz"
  have fits: "fits (unused A) (nblocks h) 3 b\<^sub>0" "fits (unused A) (nblocks h) (2 * (85 * ?n + 320) + 3) b\<^sub>0"
    by (rule fits_shorter[OF fit]; simp)+
  obtain pb m1 m2 where k1: "kzalloc 9384 s = (block_addr h pb, s\<lparr>memory := m1\<rparr>)" and m2: "process_init (block_addr h pb) m1 = m2"
    and pb: "A pb = None" "fits (unused A) (nblocks h) 3 pb"
    and fp2: "flat_program lm hw idle img h (A(pb \<mapsto> 3)) (s\<lparr>memory := m2\<rparr>) fp st cl dat items es p xs c k fc i sz"
    and buf: "caller_buffer lm h (A(pb \<mapsto> 3)) fp st (block_addr h pb) 9384" and keep2: "\<And>a. stable h A a \<Longrightarrow> m2 a = memory s a"
    and zero: "\<And>a. in_region (block_addr h pb) 9384 a \<Longrightarrow> m2 a = 0"
    by (rule process_struct[OF fp fits(1)]; blast)
  let ?A1 = "A(pb \<mapsto> 3)" and ?p = "block_addr h pb" and ?s2 = "s\<lparr>memory := m2\<rparr>"
  have wf: "heap_wf h" using fp by (auto simp: flat_program_def program_file_def klive_def kheap_rel_def heap_rel_def)
  have grow1: "unused_blocks (nblocks h) ?A1 \<subseteq> unused_blocks (nblocks h) A" by (rule unused_new) (rule pb(1))
  have not_p: "\<not> in_region ?p 9384 a" if "stable h A a" for a
    using run_unstable[OF wf pb(2) that] by (auto simp: in_blocks_def in_region_def)
  have ap: "\<not> loader_buffer lm a" if "in_region ?p 9384 a" for a
    using not_p that loader_buffer_fixed[OF fp] by (auto simp: fixed_def)
  obtain b\<^sub>1 where fit1: "fits (unused ?A1) (nblocks h) (85 * ?n + 320) b\<^sub>1" using unused_beside_run[OF fits(2)] by blast
  have pb1: "?A1 pb = Some 3" by simp
  obtain P c\<^sub>1 P' b sb s3 m4 where d: "process_load_data lm hw p ?p ?s2 = Some (0, s3)"
    "kzalloc 16384 s3 = (block_addr h sb, s3\<lparr>memory := m4\<rparr>)" "io_only ?s2 s3" and l: "loaded_beside ?A1 P c\<^sub>1 P' b ?n"
    "load_allocs ?A1 P c\<^sub>1 P' b ?n sb = None" and live4: "klive h (s3\<lparr>memory := m4\<rparr>) ((load_allocs ?A1 P c\<^sub>1 P' b ?n)(sb \<mapsto> 4))"
    and f4: "process_filetype m4 ?p = PROCESS_FILETYPE_BINARY" "load32 m4 (?p + 8332) = block_addr h b" "load32 m4 (?p + 8340) = sz"
    and data: "\<And>j. j < unat sz \<Longrightarrow> m4 (block_addr h b + of_nat j) = file_byte img cl dat fc j"
    and keep4: "\<And>a. fixed lm h ?A1 st a \<Longrightarrow> \<not> loader_buffer lm a \<Longrightarrow> \<not> in_region (?p + 8328) 16 a \<Longrightarrow> m4 a = memory ?s2 a"
    by (rule process_filled[OF fp2 pb1 buf ap fit1]; blast)
  let ?A3 = "load_allocs ?A1 P c\<^sub>1 P' b ?n"
  let ?A4 = "?A3(sb \<mapsto> 4)"
  note nine = loaded_nine[OF l(1)]
  have le: "A \<subseteq>\<^sub>m ?A4" using nine(1) pb(1) l(2) by (fastforce simp: map_le_def dom_def)
  have A4: "?A4 pb = Some 3" "?A4 b = Some ?n" "b \<noteq> pb" "A b = None" "A sb = None"
    using nine l(2) pb(1) by (force simp: map_le_def dom_def split: if_splits)+
  define m6 where "m6 = process_named ?p p (block_addr h sb) (of_nat slot) m4"
  have pf: "program_file lm hw idle img h A s fp st cl dat items es p xs c k fc i sz (elf_mode_at lm)"
    and eb: "elf_buffers lm h A fp st items (length es) p (length xs)" using fp by (simp_all add: flat_program_def)
  have old: "m4 a = memory s a" if "fixed lm h A st a" "\<not> loader_buffer lm a" for a
    using keep4[OF fixed_grow[OF grow1 that(1)] that(2)] keep2[of a] not_p[of a] in_region_sub[of ?p 8328 16 a 9384] that(1) by (auto simp: fixed_def)
  have pc: "fixed lm h A st (p + of_nat j)" if "j \<le> length xs" for j
    using eb that by (auto simp: elf_buffers_def source_cell_def)
  have "cstr_at m4 p xs = cstr_at (memory s) p xs" by (rule cstr_at_cong) (use old pc path in blast)
  moreover have "valid_path xs" "cstr_at (memory s) p xs" using program_fileD(2)[OF pf] by (simp_all add: open_request_def source_text_def)
  ultimately have name: "cstr_at m4 p xs" "length xs < 2 ^ 32" by (simp_all add: valid_path_def)
  have "\<not> in_region ?p 9384 a" if "in_region p (Suc (length xs)) a" for a
  proof -
    have "a = p + of_nat (unat (a - p))" "unat (a - p) \<le> length xs" using that by (simp_all add: in_region_def)
    then show ?thesis using pc not_p by (metis fixed_def)
  qed
  then have "disjoint_regions ?p 9384 p (Suc (length xs))" by (rule disjoint_regionsI) simp_all
  note pn = process_named_ok[OF name this, where stack = "block_addr h sb" and slot = "of_nat slot", folded m6_def]
  have in_p: "in_region ?p 9384 a" if "in_region ?p 130 a \<or> in_region (?p + 8336) 4 a" for a
    using that in_region_sub[of ?p 0 130 a 9384] in_region_sub[of ?p 8336 4 a 9384] by auto
  have pblk: "in_blocks h pb 3 a" if "in_region ?p 9384 a" for a using that by (simp add: in_blocks_def in_region_def)
  have live6: "klive h (s3\<lparr>memory := m6\<rparr>) ?A4"
  proof -
    have "klive h (s3\<lparr>memory := m4, memory := m6\<rparr>) ?A4"
    proof (rule klive_write[OF live4])
      fix a assume "m6 a \<noteq> memory (s3\<lparr>memory := m4\<rparr>) a"
      then have "in_blocks h pb 3 a" using pn(1)[of a] in_p pblk by auto
      then show "\<exists>b n. ?A4 b = Some n \<and> in_blocks h b n a" using A4(1) by blast
    qed
    then show ?thesis by simp
  qed
  have dat6: "m6 a = m4 a" if "in_region (block_addr h b) (unat sz) a" for a
    using klive_apart[OF live4 A4(2,1,3) sized_in_run[OF that]] pn(1)[of a] in_p[of a] pblk[of a] by blast
  have same6: "m6 (?p + of_nat off) = m4 (?p + of_nat off)" if "130 \<le> off" "off < 8336 \<or> 8340 \<le> off" "off < 9384" for off
  proof (rule pn(1))
    show "\<not> in_region ?p 130 (?p + of_nat off)" using that by (simp add: unat_of_nat_u32)
    have "?p + of_nat off - (?p + 8336) = of_nat off - 8336" by simp
    then show "\<not> in_region (?p + 8336) 4 (?p + of_nat off)" using that by (auto simp: in_region_def unat_sub_if' unat_of_nat_u32)
  qed
  have zero6: "m6 (?p + of_nat off) = 0" if "136 \<le> off" "off < 8328" for off
  proof -
    have r: "in_region ?p 9384 (?p + of_nat off)" using that by (simp add: unat_of_nat_u32)
    have "?p + of_nat off - (?p + 8328) = of_nat off - 8328" by simp
    then have "\<not> in_region (?p + 8328) 16 (?p + of_nat off)" using that by (auto simp: in_region_def unat_sub_if' unat_of_nat_u32)
    then have "m4 (?p + of_nat off) = 0"
      using keep4[of "?p + of_nat off"] buffer_spare[OF buf r] ap[OF r] zero[OF r] by (simp add: spare_def)
    then show ?thesis using same6[of off] that by simp
  qed
  have al6: "load32 m6 (allocation_at ?p j) = 0" if "j < 1024" for j
    using zero6[of "136 + 8 * j"] zero6[of "137 + 8 * j"] zero6[of "138 + 8 * j"] zero6[of "139 + 8 * j"] that
    by (simp add: load32_def ac_simps)
  have f6: "m6 (?p + 8328) = m4 (?p + 8328)" "load32 m6 (?p + 8332) = load32 m4 (?p + 8332)" "load32 m6 (?p + 8340) = load32 m4 (?p + 8340)"
    using same6[of 8328] same6[of 8332] same6[of 8333] same6[of 8334] same6[of 8335] same6[of 8340] same6[of 8341] same6[of 8342] same6[of 8343]
    by (simp_all add: load32_def add.assoc)
  have "m6 (block_addr h b + of_nat j) = file_byte img cl dat fc j" if "j < unat sz" for j
    using dat6[of "block_addr h b + of_nat j"] data[OF that] that unat_u32_bound[of sz] by (simp add: unat_of_nat_u32)
  then have prep: "prepared h m6 pb b sb sz (take 127 xs) slot (file_byte img cl dat fc)"
    using pn(2-4) f4 f6 al6 by (simp add: prepared_def)
  have "m6 a = memory s a" if "fixed lm h A st a" "\<not> loader_buffer lm a" for a
    using pn(1)[of a] in_p[of a] not_p[of a] old[OF that] that(1) by (auto simp: fixed_def)
  then have task: "load32 m6 (x + of_nat off) = load32 (memory s) (x + of_nat off)" if "x \<in> set ts" "off + 4 \<le> 64" for x off
    using tasks[OF that(1)] in_region_sub[of x off 4 _ 64] that(2) by (intro load32_cong) auto
  have s3: "task_head s3 = task_head s" "task_tail s3 = task_tail s" "current_task s3 = current_task s"
    using arg_cong[OF d(3)[unfolded io_only_def], of task_head] arg_cong[OF d(3)[unfolded io_only_def], of task_tail]
      arg_cong[OF d(3)[unfolded io_only_def], of current_task] by simp_all
  have queue6: "run_queue (s3\<lparr>memory := m6\<rparr>) ts q"
    by (rule run_queue_cong[OF queue]) (use s3 task[of _ 52] task[of _ 56] in simp_all)
  have room: "1027 \<le> card (unused_blocks (nblocks h) ?A4)"
    using room_new[of "nblocks h" A pb 3] loaded_room(1)[OF l(1), of h] room_new[of "nblocks h" ?A3 sb 4] fits_room[OF fit] by linarith
  show thesis
    by (rule that[of pb m1 s3 sb m4 ?A4 b]) (use k1 d(1,2) live6 le pb(1) A4 room prep queue6 m2 in \<open>simp_all add: m6_def\<close>)
qed

subsection \<open>A process in its slot\<close>

text \<open>A prepared process with a task: its registers, and an address space that maps program and stack for user code.\<close>

definition loaded_process ::
    "heap \<Rightarrow> (nat \<rightharpoonup> nat) \<Rightarrow> mem \<Rightarrow> nat \<Rightarrow> nat \<Rightarrow> nat \<Rightarrow> nat \<Rightarrow> nat list \<Rightarrow> nat \<Rightarrow> nat \<Rightarrow> u32 \<Rightarrow> u8 list \<Rightarrow> nat \<Rightarrow> (nat \<Rightarrow> u8) \<Rightarrow> bool" where
  "loaded_process h A m pb tb c bd fs b sb sz name slot f \<longleftrightarrow> process_space h A m pb tb c bd fs \<and> prepared h m pb b sb sz name slot f
     \<and> A b = Some (blocks_of sz) \<and> A sb = Some 4 \<and> load_registers m (block_addr h tb + 4) = fresh_context 0x400000
     \<and> load32 m (block_addr h tb + 60) = block_addr h pb
     \<and> (\<forall>w < 2 ^ 20. pte m (block_addr h bd) w = program_page (page_of h b) (blocks_of sz) (page_of h sb) (\<lambda>w. of_nat (4096 * w) OR 5) w)"

lemma loaded_process_cong:
  assumes live: "klive h s A" and lp: "loaded_process h A m pb tb c bd fs b sb sz name slot f" and len: "length name < 128"
    and same: "\<And>e n a. A e = Some n \<Longrightarrow> in_blocks h e n a \<Longrightarrow> m' a = m a"
  shows "loaded_process h A m' pb tb c bd fs b sb sz name slot f"
proof -
  have l: "process_space h A m pb tb c bd fs" "prepared h m pb b sb sz name slot f" "A b = Some (blocks_of sz)" using lp by (simp_all add: loaded_process_def)
  have A: "A pb = Some 3" "A tb = Some 1" using l(1) by (simp_all add: process_space_def)
  have eq: "\<forall>e k a. A e = Some k \<longrightarrow> in_blocks h e k a \<longrightarrow> m' a = m a" using same by blast
  note fr = process_space_frame[OF live l(1) eq]
  have "prepared h m' pb b sb sz name slot f"
  proof (rule prepared_cong[OF l(2) len])
    show "m' a = m a" if "in_region (block_addr h pb) 9384 a" for a
      by (rule same[OF A(1)]) (use that in \<open>simp add: in_blocks_def in_region_def\<close>)
    show "m' a = m a" if "in_region (block_addr h b) (unat sz) a" for a by (rule same[OF l(3) sized_in_run[OF that]])
  qed
  moreover have "load_registers m' (block_addr h tb + 4) = load_registers m (block_addr h tb + 4)"
    by (rule registers_kept[OF live A(2) same[OF A(2)]])
  moreover have "load32 m' (block_addr h tb + 60) = load32 m (block_addr h tb + 60)"
    using task_cell[OF live A(2), of m' m 60] same[OF A(2)] by simp
  ultimately show ?thesis using lp fr(1,2) by (simp add: loaded_process_def)
qed

lemma process_loaded:
  fixes s :: "('d, 'a) tstate_scheme"
  assumes fp: "flat_program lm hw idle img h A s fp st cl dat items es p xs c k fc i sz" and top: "heap_below_top h"
    and path: "\<And>j. j \<le> length xs \<Longrightarrow> \<not> loader_buffer lm (p + of_nat j)"
    and queue: "run_queue s ts q" and mine: "\<forall>x \<in> set ts. \<exists>e. A e = Some 1 \<and> x = block_addr h e"
    and tasks: "\<And>x a. x \<in> set ts \<Longrightarrow> in_region x 64 a \<Longrightarrow> fixed lm h A st a \<and> \<not> loader_buffer lm a"
    and fit: "fits (unused A) (nblocks h) (170 * blocks_of sz + 1100) b\<^sub>0"
    and slot: "slot < 12" "load32 (memory s) (processes_at lm + 4 * of_nat slot) = 0"
  obtains A' pb tb c' bd fs b sb s' where
    "process_load_for_slot lm hw p out (int slot) s =
       Some (0, s'\<lparr>memory := store32 (store32 (memory s') out (block_addr h pb)) (processes_at lm + 4 * of_nat slot) (block_addr h pb)\<rparr>)"
    "klive h s' A'" "A \<subseteq>\<^sub>m A'" "A pb = None" "loaded_process h A' (memory s') pb tb c' bd fs b sb sz (take 127 xs) slot (file_byte img cl dat fc)"
    "run_queue s' (ts @ [block_addr h tb]) (if ts = [] then block_addr h tb else q)"
proof -
  obtain pb m1 b sb A4 s3 m4 where r: "kzalloc 9384 s = (block_addr h pb, s\<lparr>memory := m1\<rparr>)"
    "process_load_data lm hw p (block_addr h pb) (s\<lparr>memory := process_init (block_addr h pb) m1\<rparr>) = Some (0, s3)"
    "kzalloc 16384 s3 = (block_addr h sb, s3\<lparr>memory := m4\<rparr>)"
    and live6: "klive h (s3\<lparr>memory := process_named (block_addr h pb) p (block_addr h sb) (of_nat slot) m4\<rparr>) A4"
    and A4: "A \<subseteq>\<^sub>m A4" "A pb = None" "A4 pb = Some 3" "A b = None" "A4 b = Some (blocks_of sz)" "A sb = None" "A4 sb = Some 4" "b \<noteq> pb"
    and room: "1027 \<le> card (unused_blocks (nblocks h) A4)"
    and prep: "prepared h (process_named (block_addr h pb) p (block_addr h sb) (of_nat slot) m4) pb b sb sz (take 127 xs) slot (file_byte img cl dat fc)"
    and queue6: "run_queue (s3\<lparr>memory := process_named (block_addr h pb) p (block_addr h sb) (of_nat slot) m4\<rparr>) ts q"
    by (rule process_prepared[OF fp path queue tasks fit, where slot = slot]; blast)
  let ?p = "block_addr h pb"
  define m6 where "m6 = process_named ?p p (block_addr h sb) (of_nat slot) m4"
  let ?s6 = "s3\<lparr>memory := m6\<rparr>"
  have f6: "process_filetype (memory ?s6) ?p = PROCESS_FILETYPE_BINARY" "load32 (memory ?s6) (?p + 8332) = block_addr h b"
    "load32 (memory ?s6) (?p + 8340) = sz" "load32 (memory ?s6) (?p + 8336) = block_addr h sb" using prep by (simp_all add: prepared_def m6_def)
  have mine4: "\<forall>x \<in> set ts. \<exists>e. A4 e = Some 1 \<and> x = block_addr h e" using mine A4(1) unfolding map_le_def by (metis domI)
  note small = program_blocks_small[OF fp]
  obtain tb c' bd fs s7 m where t: "task_new ?p ?s6 = (block_addr h tb, s7)" "block_addr h tb \<noteq> NULL"
    "process_map_memory ?p (s7\<lparr>memory := store32 (memory s7) (?p + 132) (block_addr h tb)\<rparr>) = Some (0, s7\<lparr>memory := m\<rparr>)"
    and live9: "klive h (s7\<lparr>memory := m\<rparr>) (with_pages A4 (set (tb # c' # bd # fs)))" and new: "\<forall>x \<in> set (tb # c' # bd # fs). A4 x = None"
    and sp: "process_space h (with_pages A4 (set (tb # c' # bd # fs))) m pb tb c' bd fs"
    and q9: "run_queue (s7\<lparr>memory := m\<rparr>) (ts @ [block_addr h tb]) (if ts = [] then block_addr h tb else q)"
    and pt: "\<And>w. w < 2 ^ 20 \<Longrightarrow> pte m (block_addr h bd) w = program_page (page_of h b) (blocks_of sz) (page_of h sb) (\<lambda>w. of_nat (4096 * w) OR 5) w"
    and regs: "load_registers m (block_addr h tb + 4) = fresh_context 0x400000" "load32 m (block_addr h tb + 60) = ?p"
    and fr: "\<And>e n a. A4 e = Some n \<Longrightarrow> in_blocks h e n a \<Longrightarrow> (ts \<noteq> [] \<longrightarrow> \<not> in_region (last ts + 52) 4 a) \<Longrightarrow>
       \<not> in_region (?p + 132) 4 a \<Longrightarrow> m a = memory ?s6 a"
    by (rule process_started[OF live6[folded m6_def] top room A4(3) f6(1-3) small(2) A4(5) small(1) f6(4) A4(7) queue6[folded m6_def] mine4]; blast)
  let ?A = "with_pages A4 (set (tb # c' # bd # fs))"
  have old: "?A e = Some n" if "A4 e = Some n" for e n using that new by (auto simp: with_pages_def)
  have last: "\<not> in_region (last ts + 52) 4 a" if ne: "ts \<noteq> []" and e: "A x = None" "A4 x = Some n" "in_blocks h x n a" for x n a
  proof
    assume a: "in_region (last ts + 52) 4 a"
    obtain e where e': "A e = Some 1" "last ts = block_addr h e" using bspec[OF mine last_in_set[OF ne]] by blast
    then have "A4 e = Some 1" "e \<noteq> x" using A4(1) e(1) by (auto simp: map_le_def dom_def)
    moreover have "in_blocks h e 1 a" using a e'(2) block_bytes[of h e 52 4 a] by simp
    ultimately show False using klive_apart[OF live6 e(2) _ _ e(3), of e 1] by auto
  qed
  have "prepared h m pb b sb sz (take 127 xs) slot (file_byte img cl dat fc)"
  proof (rule prepared_cong[OF prep[folded m6_def]])
    show "m a = m6 a" if "in_region ?p 9384 a" "\<not> in_region (?p + 132) 4 a" for a
    proof -
      have "in_blocks h pb 3 a" using that(1) by (simp add: in_blocks_def in_region_def)
      then show ?thesis using fr[OF A4(3), of a] last[OF _ A4(2,3), of a] that(2) by simp
    qed
    show "m a = m6 a" if "in_region (block_addr h b) (unat sz) a" for a
    proof -
      note ib = sized_in_run[OF that]
      have "\<not> in_region (?p + 132) 4 a"
        using klive_apart[OF live6 A4(5,3,8) ib] process_cell[of 132 h pb a] by auto
      then show ?thesis using fr[OF A4(5) ib] last[OF _ A4(4,5) ib] by simp
    qed
  qed (simp add: min_def)
  then have lp: "loaded_process h ?A m pb tb c' bd fs b sb sz (take 127 xs) slot (file_byte img cl dat fc)"
    using sp pt regs old[OF A4(5)] old[OF A4(7)] by (simp add: loaded_process_def)
  have le: "A \<subseteq>\<^sub>m ?A"
    using A4(1) old unfolding map_le_def dom_def by (metis (mono_tags, lifting) domIff mem_Collect_eq option.exhaust)
  have run: "process_load_for_slot lm hw p out (int slot) s =
      Some (0, s7\<lparr>memory := m, memory := store32 (store32 m out ?p) (processes_at lm + 4 * of_nat slot) ?p\<rparr>)"
  proof -
    have nz: "?p \<noteq> NULL" "block_addr h sb \<noteq> NULL"
      using block_addr_nonzero[of h] klive_block(1,2)[OF live6 A4(3)] klive_block(1,2)[OF live6 A4(7)] by blast+
    have get: "process_get lm (int slot) (memory s) = 0" using slot by (simp add: process_get_def)
    have m6: "store16 (store32 (strncpy m4 (?p + 2) p 128) (?p + 8336) (block_addr h sb)) ?p (word_of_int (int slot)) = m6"
      by (simp add: m6_def process_named_def)
    have "sint (block_addr h tb) \<noteq> 0" using t(2) by (metis sint_0 signed_word_eqI)
    then show ?thesis
      using get r nz t(1,3) by (simp add: process_load_for_slot_def Let_def m6[simplified])
  qed
  show thesis using that[of "s7\<lparr>memory := m\<rparr>"] run live9 le A4(2) lp q9 by simp
qed

subsection \<open>Writing static memory\<close>

lemma static_not_live:
  assumes "klive h s A" "A e = Some n" "in_blocks h e n a"
  shows "\<not> static_byte h a"
proof -
  note blk = klive_block[OF assms(1,2)]
  obtain j where "j < n" "in_blocks h (e + j) 1 a" using run_block[OF blk(1,3) assms(3)] by blast
  then show ?thesis using blk(3) by (auto simp: static_byte_def)
qed

lemma loaded_static_write:
  fixes s :: "('d, 'a) tstate_scheme"
  assumes live: "klive h s A" and lp: "loaded_process h A (memory s) pb tb c bd fs b sb sz name slot f" and len: "length name < 128"
    and queue: "run_queue s ts q" and mine: "\<forall>x \<in> set ts. \<exists>e. A e = Some 1 \<and> x = block_addr h e"
    and static: "\<And>a. m a \<noteq> memory s a \<Longrightarrow> static_byte h a"
  shows "klive h (s\<lparr>memory := m\<rparr>) A" "loaded_process h A m pb tb c bd fs b sb sz name slot f" "run_queue (s\<lparr>memory := m\<rparr>) ts q"
proof -
  have same: "m a = memory s a" if "A e = Some n" "in_blocks h e n a" for e n a using static static_not_live[OF live that] by blast
  show "klive h (s\<lparr>memory := m\<rparr>) A" by (rule klive_frame[OF live]) (use static in \<open>auto simp: static_byte_def\<close>)
  show "loaded_process h A m pb tb c bd fs b sb sz name slot f" by (rule loaded_process_cong[OF live lp len same])
  show "run_queue (s\<lparr>memory := m\<rparr>) ts q"
    by (rule queue_kept[OF live queue, where E = UNIV]) (use mine same in auto)
qed

subsection \<open>A machine that loads its first process\<close>

definition program_tasks :: "drive tstate" where
  "program_tasks = iostate.extend program_machine \<lparr>current_task = 0, task_tail = 0, task_head = 0, kernel_chunk = 0, data_segments = 0\<rparr>"

lemma program_tasks_fields [simp]:
  "memory program_tasks = memory program_machine" "device program_tasks = device program_machine" "kernel_heap program_tasks = kernel_heap program_machine"
  "run_queue program_tasks [] 0"
  by (simp_all add: program_tasks_def iostate.defs run_queue_def tasks_ok_def)

lemma program_tasks_ready:
  "flat_program program_links session_ports (\<lambda>d. pending d = []) access_image kernel_heap_layout Map.empty program_tasks 0x300000 0x4000 2 10 0x301000
     session_entries 0x200 [48, 58, 47, 104, 105, 46, 116, 120, 116] [104, 105, 46, 116, 120, 116] 1 3 0 600"
proof -
  have "klive kernel_heap_layout program_tasks Map.empty" using program_fileD(1)[OF program_machine_ready(1)] by (auto simp: klive_def kheap_rel_def)
  then have "program_file program_links session_ports (\<lambda>d. pending d = []) access_image kernel_heap_layout Map.empty program_tasks 0x300000 0x4000 2 10 0x301000
     session_entries 0x200 [48, 58, 47, 104, 105, 46, 116, 120, 116] [104, 105, 46, 116, 120, 116] 1 3 0 600 (elf_mode_at program_links)"
    using program_machine_ready(1) unfolding program_file_def by simp
  moreover have "file_byte access_image 2 10 3 1 = 13" by (simp add: file_byte_def disk_byte_def access_image_def)
  then have "not_elf (file_byte access_image 2 10 3) 600" unfolding not_elf_def by (intro exI[of _ 1]) simp
  moreover have "caller_buffer program_links kernel_heap_layout Map.empty 0x300000 0x4000 0x5500 8" by (rule program_buffer) simp_all
  ultimately show ?thesis
    using program_machine_ready(2-4) by (simp add: flat_program_def session_entries_simps numeral_eq_Suc)
qed

lemma program_static:
  assumes "unat q + n \<le> 0x7E00 \<or> 0xE200 \<le> unat q \<and> unat q + n \<le> 0x1000000"
  shows "static_area kernel_heap_layout q n"
  unfolding static_area_def
proof (intro allI impI)
  fix a assume "in_region q n a"
  then have "stable kernel_heap_layout Map.empty a" by (intro session_stable) (use assms in \<open>auto simp: in_region_iff_nat\<close>)
  then show "static_byte kernel_heap_layout a" unfolding stable_def static_byte_def empty_unused by (simp add: kernel_heap_layout_wf)
qed


subsection \<open>Properties\<close>

text \<open>
  C3.  \<^verbatim>\<open>process_load\<close> of a flat program from the disk: it takes the first free slot and succeeds, the table and the caller's pointer name the new process, whose struct
  holds its number, path, program and stack; the program's block holds the bytes of the file; its address space maps the
  program at 0x400000 and the stack at 0x3FB000 for user code and every other page to itself read-only; its task, with the
  registers that start the program, is last in the run queue.  All older allocations stay.
\<close>

theorem process_load_flat:
  fixes s :: "('d, 'a) tstate_scheme"
  assumes "flat_program lm hw idle img h A s fp st cl dat items es p xs c k fc i sz" "heap_below_top h"
    and "\<And>j. j \<le> length xs \<Longrightarrow> \<not> loader_buffer lm (p + of_nat j)"
    and "run_queue s ts q" "\<forall>x \<in> set ts. \<exists>e. A e = Some 1 \<and> x = block_addr h e"
    and "\<And>x a. x \<in> set ts \<Longrightarrow> in_region x 64 a \<Longrightarrow> fixed lm h A st a \<and> \<not> loader_buffer lm a"
    and "fits (unused A) (nblocks h) (170 * blocks_of sz + 1100) b\<^sub>0"
    and "slot < 12" "load32 (memory s) (processes_at lm + 4 * of_nat slot) = 0"
    and "\<And>j. j < slot \<Longrightarrow> load32 (memory s) (processes_at lm + 4 * of_nat j) \<noteq> 0"
    and "static_area h (processes_at lm) 48" "static_area h out 4" "disjoint_regions out 4 (processes_at lm) 48"
  shows "\<exists>A' pb tb c' bd fs b sb s'. process_load lm hw p out s = Some (0, s')
    \<and> load32 (memory s') out = block_addr h pb \<and> load32 (memory s') (processes_at lm + 4 * of_nat slot) = block_addr h pb
    \<and> klive h s' A' \<and> A \<subseteq>\<^sub>m A' \<and> A pb = None
    \<and> loaded_process h A' (memory s') pb tb c' bd fs b sb sz (take 127 xs) slot (file_byte img cl dat fc)
    \<and> run_queue s' (ts @ [block_addr h tb]) (if ts = [] then block_addr h tb else q)"
proof -
  obtain A' pb tb c' bd fs b sb s1 where r: "process_load_for_slot lm hw p out (int slot) s =
      Some (0, s1\<lparr>memory := store32 (store32 (memory s1) out (block_addr h pb)) (processes_at lm + 4 * of_nat slot) (block_addr h pb)\<rparr>)"
    and l: "klive h s1 A'" "A \<subseteq>\<^sub>m A'" "A pb = None"
    and lp: "loaded_process h A' (memory s1) pb tb c' bd fs b sb sz (take 127 xs) slot (file_byte img cl dat fc)"
    and q1: "run_queue s1 (ts @ [block_addr h tb]) (if ts = [] then block_addr h tb else q)"
    by (rule process_loaded[OF assms(1-9), where out = out]; (assumption | rule that, assumption+))
  let ?c = "processes_at lm + 4 * of_nat slot" and ?p = "block_addr h pb"
  define m where "m = store32 (store32 (memory s1) out ?p) ?c ?p"
  have cell: "in_region (processes_at lm) 48 a" if "in_region ?c 4 a" for a using slot_in_array[of slot 12 "processes_at lm" a] assms(8) that by simp
  have st: "static_byte h a" if "m a \<noteq> memory s1 a" for a
  proof -
    have "m a = memory s1 a" if "\<not> in_region out 4 a" "\<not> in_region ?c 4 a"
      unfolding m_def store32_outside[OF that(2)] by (rule store32_outside[OF that(1)])
    then have "in_region out 4 a \<or> in_region ?c 4 a" using that by blast
    then show ?thesis using assms(11,12) cell by (auto simp: static_area_def)
  qed
  have "A' tb = Some 1" using lp by (simp add: loaded_process_def process_space_def)
  then have mine: "\<forall>x \<in> set (ts @ [block_addr h tb]). \<exists>e. A' e = Some 1 \<and> x = block_addr h e"
  proof -
    have "A' e = Some 1" if "A e = Some 1" for e using l(2) that by (auto simp: map_le_def dom_def)
    then have "\<exists>e. A' e = Some 1 \<and> x = block_addr h e" if "x \<in> set ts" for x using bspec[OF assms(5) that] by blast
    then show ?thesis using \<open>A' tb = Some 1\<close> by auto
  qed
  have len: "length (take 127 xs) < 128" by simp
  have fin: "klive h (s1\<lparr>memory := m\<rparr>) A'" "run_queue (s1\<lparr>memory := m\<rparr>) (ts @ [block_addr h tb]) (if ts = [] then block_addr h tb else q)"
    "loaded_process h A' (memory (s1\<lparr>memory := m\<rparr>)) pb tb c' bd fs b sb sz (take 127 xs) slot (file_byte img cl dat fc)"
    using loaded_static_write[OF l(1) lp len q1 mine, of m] st by simp_all
  have "load32 m out = load32 (store32 (memory s1) out ?p) out"
    unfolding m_def
  proof (rule load32_cong, rule store32_outside, rule notI)
    fix a assume "in_region out 4 a" "in_region ?c 4 a"
    then show False using disjoint_regionsD[OF assms(13) cell] by blast
  qed
  then have out: "load32 (memory (s1\<lparr>memory := m\<rparr>)) out = ?p" "load32 (memory (s1\<lparr>memory := m\<rparr>)) ?c = ?p" by (simp_all add: m_def)
  have "process_get_free_slot lm (memory s) = int slot"
    using find_upt_Some[of "\<lambda>i. load32 (memory s) (processes_at lm + 4 * of_nat i) = 0" 12 slot] assms(8-10) by (simp add: process_get_free_slot_def)
  then have run: "process_load lm hw p out s = Some (0, s1\<lparr>memory := m\<rparr>)" using r by (simp add: process_load_def m_def)
  show ?thesis by (intro exI conjI) (rule run out fin l(2,3))+
qed


theorem process_load_flat_witness:
  "\<exists>A' pb tb c bd fs b sb s'. process_load program_links session_ports 0x200 0x5600 program_tasks = Some (0, s')
     \<and> load32 (memory s') 0x209000 = block_addr kernel_heap_layout pb
     \<and> loaded_process kernel_heap_layout A' (memory s') pb tb c bd fs b sb 600 [48, 58, 47, 104, 105, 46, 116, 120, 116] 0 (file_byte access_image 2 10 3)
     \<and> run_queue s' [block_addr kernel_heap_layout tb] (block_addr kernel_heap_layout tb)"
proof -
  let ?xs = "[48, 58, 47, 104, 105, 46, 116, 120, 116] :: u8 list"
  have path: "\<not> loader_buffer program_links (0x200 + of_nat j)" if "j \<le> length ?xs" for j
  proof -
    have "unat (0x200 + of_nat j :: u32) = 0x200 + j" using that by (simp add: unat_word_ariths unat_of_nat_u32)
    then show ?thesis using that by (auto simp: loader_buffer_def in_region_iff_nat)
  qed
  have table: "processes_at program_links = 0x209000" by (simp add: program_links_def filelinks.defs)
  have zero: "load32 (memory program_tasks) (processes_at program_links + 4 * of_nat 0) = 0"
    by (simp add: table load32_def program_machine_def session_mem in_region_iff_nat session_memory_def)
  have fit: "fits (unused Map.empty) (nblocks kernel_heap_layout) (170 * blocks_of 600 + 1100) 0"
    by (rule empty_fits) (simp add: blocks_of_page)
  have st: "static_area kernel_heap_layout (processes_at program_links) 48" "static_area kernel_heap_layout 0x5600 4"
    "disjoint_regions 0x5600 4 (processes_at program_links) 48"
    unfolding table by (rule program_static, simp)+ (simp add: disjoint_regions_def)
  have mine: "\<forall>x \<in> set []. \<exists>e. Map.empty e = Some (1::nat) \<and> x = block_addr kernel_heap_layout e" by simp
  have tasks: "fixed program_links kernel_heap_layout Map.empty 0x4000 a \<and> \<not> loader_buffer program_links a"
    if "x \<in> set []" "in_region x 64 a" for x a using that(1) by simp
  have less: "load32 (memory program_tasks) (processes_at program_links + 4 * of_nat j) \<noteq> 0" if "j < 0" for j using that by simp
  have "\<exists>A' pb tb c bd fs b sb s'. process_load program_links session_ports 0x200 0x5600 program_tasks = Some (0, s')
    \<and> load32 (memory s') 0x5600 = block_addr kernel_heap_layout pb
    \<and> load32 (memory s') (processes_at program_links + 4 * of_nat 0) = block_addr kernel_heap_layout pb
    \<and> klive kernel_heap_layout s' A' \<and> Map.empty \<subseteq>\<^sub>m A' \<and> Map.empty pb = (None :: nat option)
    \<and> loaded_process kernel_heap_layout A' (memory s') pb tb c bd fs b sb 600 (take 127 ?xs) 0 (file_byte access_image 2 10 3)
    \<and> run_queue s' ([] @ [block_addr kernel_heap_layout tb]) (if [] = ([] :: u32 list) then block_addr kernel_heap_layout tb else 0)"
    by (rule process_load_flat[OF program_tasks_ready kernel_heap_below_top path program_tasks_fields(4) mine tasks fit _ zero less st]; simp)
  then obtain A' pb tb c bd fs b sb s' where run: "process_load program_links session_ports 0x200 0x5600 program_tasks = Some (0, s')"
    and raw: "load32 (memory s') (processes_at program_links + 4 * of_nat 0) = block_addr kernel_heap_layout pb"
      "loaded_process kernel_heap_layout A' (memory s') pb tb c bd fs b sb 600 (take 127 ?xs) 0 (file_byte access_image 2 10 3)"
      "run_queue s' ([] @ [block_addr kernel_heap_layout tb]) (if [] = ([] :: u32 list) then block_addr kernel_heap_layout tb else 0)"
    by (elim exE conjE)
  have "load32 (memory s') 0x209000 = block_addr kernel_heap_layout pb" using raw(1) by (simp add: table)
  moreover have "loaded_process kernel_heap_layout A' (memory s') pb tb c bd fs b sb 600 ?xs 0 (file_byte access_image 2 10 3)"
    using raw(2) by (subst (asm) take_all) simp_all
  moreover have "run_queue s' [block_addr kernel_heap_layout tb] (block_addr kernel_heap_layout tb)" using raw(3) by simp
  ultimately show ?thesis using run by (intro exI conjI)
qed

end
