(* ===== verification/Spec2Isabelle.thy ===== *)
theory Spec2Isabelle
  imports Prelude Memory Cstring Heap Terminal Kheap Paging Gdt Io Idt Disk Streamer Pparser Fat16 File Elf Task Process Kernel
    Layout Structs Scheduler SchedulerRuns FatVolume Descriptors FileAccess DirectorySearch FileOpen FileSession
    FatStreams FatMount Mount KernelBoot ElfImage ProcessMemory ProcessRelease ProcessExit ProgramFile ProgramLoad ProcessLoad
begin

text \<open>
  \<^bold>\<open>RaOS, a 32-bit x86 kernel in C: model and proofs.\<close>

  \<^bold>\<open>The program and its parts.\<close>  The sources are under \<^verbatim>\<open>src/src\<close>.  \<^verbatim>\<open>kernel.c\<close> boots: it clears the screen, builds the segment
  table (\<^verbatim>\<open>gdt\<close>), the kernel heap (\<^verbatim>\<open>memory/heap\<close>), the file systems (\<^verbatim>\<open>fs\<close>), the disk (\<^verbatim>\<open>disk\<close>), the interrupt table (\<^verbatim>\<open>idt\<close>), the
  task state segment and an identity address space (\<^verbatim>\<open>memory/paging\<close>), and then opens and reads a file.  A path is
  parsed by \<^verbatim>\<open>fs/pparser.c\<close>; \<^verbatim>\<open>fs/file.c\<close> keeps the descriptors and calls the driver \<^verbatim>\<open>fs/fat/fat16.c\<close> through the function
  pointers of \<^verbatim>\<open>struct filesystem\<close>; the driver reads through \<^verbatim>\<open>disk/streamer.c\<close> and \<^verbatim>\<open>disk/disk.c\<close>.  \<^verbatim>\<open>task/process.c\<close> loads a program
  (\<^verbatim>\<open>loader/elfloader.c\<close> or a flat binary), gives it a task (\<^verbatim>\<open>task/task.c\<close>) with an address space and maps its memory.

  \<^bold>\<open>The machine.\<close>  All objects of the C program live in one flat memory \<open>mem\<close> (32-bit addresses to bytes, theory \<open>Prelude\<close>);
  a struct is the bytes at its fields' offsets, read and written little-endian (\<open>load16\<close>, \<open>load32\<close>, \<open>store32\<close>), so aliasing and
  overlap are those of the code.  Registers and static scalars are record fields, and the records extend each
  other in the order of the imports: \<open>machine\<close> (memory, cursor), \<open>kstate\<close> (the heap object), then paging, interrupts, \<open>iostate\<close> (the
  device behind the ports), \<open>tstate\<close> (task pointers), \<open>prstate\<close>, \<open>kernelstate\<close>.  Unsigned C integers are words with wrap-around; a C
  \<^verbatim>\<open>int\<close> is an \<open>int\<close> with \<open>wrap32\<close> where it can overflow.  Errors are the negative codes of \<^verbatim>\<open>status.h\<close>.  Addresses the linker
  or the stack chooses (static arrays, literals, local buffers, functions whose address is taken, the values of
  uninitialised locals) are fields of the link records (\<open>linkmap\<close>, \<open>fslinks\<close>, \<open>filelinks\<close>, \<open>elflinks\<close>, \<open>processlinks\<close>,
  \<open>kernellinks\<close>).

  \<^bold>\<open>Models, one theory per source part.\<close>
  \<^item> \<open>Memory\<close>, \<open>Cstring\<close>: \<^verbatim>\<open>memory/memory.c\<close>, \<^verbatim>\<open>string/string.c\<close>.
  \<^item> \<open>Heap\<close>, \<open>Kheap\<close>: \<^verbatim>\<open>memory/heap/heap.c\<close>, \<^verbatim>\<open>kheap.c\<close>; the table of block entries is in memory.
  \<^item> \<open>Terminal\<close>, \<open>Gdt\<close>, \<open>Io\<close>, \<open>Idt\<close>: the console half of \<^verbatim>\<open>kernel.c\<close>, \<^verbatim>\<open>gdt/gdt.c\<close>, \<^verbatim>\<open>io/io.h\<close>, \<^verbatim>\<open>idt/idt.c\<close>.
  \<^item> \<open>Paging\<close>: \<^verbatim>\<open>memory/paging/paging.c\<close>; directories and tables in memory.
  \<^item> \<open>Disk\<close>, \<open>Streamer\<close>: \<^verbatim>\<open>disk/disk.c\<close>, \<^verbatim>\<open>disk/streamer.c\<close>; the controller is a parameter (\<open>ports\<close>).
  \<^item> \<open>Pparser\<close>, \<open>Fat16\<close>, \<open>File\<close>: \<^verbatim>\<open>fs/pparser.c\<close>, \<^verbatim>\<open>fs/fat/fat16.c\<close>, \<^verbatim>\<open>fs/file.c\<close>.
  \<^item> \<open>Elf\<close>, \<open>Task\<close>, \<open>Process\<close>, \<open>Kernel\<close>: \<^verbatim>\<open>loader/elf.c\<close> and \<^verbatim>\<open>elfloader.c\<close>, \<^verbatim>\<open>task/task.c\<close>, \<^verbatim>\<open>task/process.c\<close>, \<^verbatim>\<open>kernel_main\<close>.

  \<^item> \<open>Layout\<close>, \<open>Structs\<close>: the compiler's layout rules and the structs of the headers and of \<^verbatim>\<open>fat16.c\<close> as declarations.

  Each definition has the name of the C function it translates, with a suffix where HOL has the name already;
  a loop is a definition of its own named after the function.

  \<^bold>\<open>What is proved.\<close>
  \<^item> Heap: \<^verbatim>\<open>heap_malloc\<close> and \<^verbatim>\<open>heap_free\<close> refine a first-fit allocator over the map of live allocations (\<open>heap_rel\<close>), the
    behaviour when memory is short or a request rounds to nothing, and that \<^verbatim>\<open>kzalloc\<close> returns zeroed memory
    apart from every live allocation.  The contract is the locale \<open>block_allocator\<close>, extended by \<open>page_source\<close>, interpreted on
    \<^verbatim>\<open>heap.c\<close> and on \<^verbatim>\<open>kzalloc\<close>/\<^verbatim>\<open>kfree\<close>; all later components rest on its facts.
  \<^item> Paging: identity address spaces, mapping of ranges, lookups against the processor's own walk, release.
  \<^item> Strings, memory, console, segment and interrupt tables: functional behaviour, bounds, decoding.  Texts of the console may
    contain newlines; nothing in the code stops the rows at the end of the screen.
  \<^item> Disk: with a drive that follows the ATA protocol (\<open>ata_disk\<close>, a hypothesis about the device with an executable
    instance \<open>drive_ports\<close>), sector reads and stream reads return the bytes of the disk, and end.
  \<^item> Paths (\<open>Pparser\<close>): parsing into a linked list of heap pages, its release, refusal of what is not a path.
  \<^item> \<open>FatVolume\<close>: names of directory entries, counting a directory, reading a file's first cluster.
  \<^item> \<open>Descriptors\<close>: the descriptor table and \<^verbatim>\<open>fclose\<close>.  \<open>FileAccess\<close>: the contract \<open>open_file_ops\<close> of an open file, interpreted on
    the FAT16 driver and, from there, on \<^verbatim>\<open>fseek\<close>/\<^verbatim>\<open>fread\<close>/\<^verbatim>\<open>fstat\<close>; its client lemmas are the sequences callers use.
  \<^item> \<open>DirectorySearch\<close>, \<open>FileOpen\<close>, \<open>FileSession\<close>: the search of the root directory, \<^verbatim>\<open>fopen\<close> over the path parser, the driver and the
    descriptor table, and whole sessions (open, read, close); a file that is missing, with the uninitialised local
    the driver then returns.
  \<^item> \<open>FatStreams\<close>, \<open>FatMount\<close>, \<open>Mount\<close>: mounting.  \<^verbatim>\<open>fs_init\<close> and \<^verbatim>\<open>disk_search_and_init\<close> bind the disk to the driver when \<^verbatim>\<open>fat16_resolve\<close> accepts its
    header, count and load the root directory, and files can then be read; on a disk without the signature every \<^verbatim>\<open>fopen\<close>
    returns 0.  The root directory has short names and fits one heap page.
  \<^item> \<open>KernelBoot\<close>: what \<^verbatim>\<open>kernel_main\<close> has established before its file test (segments, heap, mounted volume, interrupt gates, task
    state segment, identity address space, all at once), and a file session after it.
  \<^item> \<open>Structs\<close>: a check of the models, not of the code: the numeric offsets of the definitions are those of the declared members.
  \<^item> \<open>ElfImage\<close>: the bounds of an image and what is refused.
  \<^item> \<open>Scheduler\<close>: the run queue as a doubly linked list, adding and removing a task, fairness of \<^verbatim>\<open>task_next\<close>, and that saved
    registers are the ones restored.  \<open>SchedulerRuns\<close>: runs of the scheduler as a step relation, with the invariant that the
    queue is well formed and no page is owned twice, by rule induction; \<^verbatim>\<open>task_free\<close> gives back what \<^verbatim>\<open>task_new\<close> took.
  \<^item> \<open>ProcessMemory\<close>: \<^verbatim>\<open>process_malloc\<close> over the heap, the page tables and the process's allocation table.  \<open>ProcessRelease\<close>: \<^verbatim>\<open>process_free\<close>
    and the release of all allocations.  \<open>ProcessExit\<close>: \<^verbatim>\<open>process_terminate\<close> over these, the program loader, the scheduler's invariant
    and the process table, with the panic when no process is left, and a frame for the tasks and objects that remain.  Freeing the empty
    slots of a process calls \<open>kfree(NULL)\<close>, which clears bytes in front of the heap's table, from 0x6E00 up to the first one with bit
    7 clear; the kernel never initialises them.  The theorems say which bytes are cleared and assume that the run ends before
    the table at 0x7E00 and touches no object (\<open>null_run\<close>, \<open>null_apart\<close>).
  \<^item> \<open>ProgramFile\<close>, \<open>ProgramLoad\<close>, \<open>ProcessLoad\<close>: loading a flat program from the disk.  \<open>ProgramFile\<close> has the invariant of an open file
    session and that every step (\<^verbatim>\<open>fopen\<close>, \<^verbatim>\<open>fstat\<close>, \<^verbatim>\<open>fread\<close>, an allocation, a write elsewhere, \<^verbatim>\<open>fclose\<close>) keeps it.  \<open>ProgramLoad\<close> composes them into
    \<^verbatim>\<open>elf_load\<close>, which reads a file that is no ELF image and refuses it, and \<^verbatim>\<open>process_load_data\<close>, which then reads it as a flat
    program.  \<open>ProcessLoad\<close> shows \<^verbatim>\<open>process_load\<close> as a whole: the slot, the struct, the bytes of the program, the stack, the mapping
    of both and the new task at the end of the run queue.

  \<^bold>\<open>Bounds and termination.\<close>  Loops with a bound in the code are total functions with a measure or folds over the index range.
  Loops that scan memory or wait for a device are \<^theory_text>\<open>partial_function (option)\<close>: \<open>None\<close> is "does not return", and the
  properties show \<open>Some\<close> under their hypotheses.  \<open>panic\<close> and calls through an unknown function pointer are \<open>None\<close> as well.
  Reads are limited to the first cluster of a file and to elements that start at a sector boundary or stay
  inside a sector, because beyond that the code does not return the bytes of the file.

  \<^bold>\<open>Not modelled.\<close>  The boot loader, the interrupt and entry stubs and the linker script (assembly); the instructions C code
  calls appear as state updates in the theory of their caller.  Interrupts that arrive while C code runs are not
  interleaved with it.  The keyboard buffer of a process has no operation in the sources.  The compiler
  identification file under \<^verbatim>\<open>src/build\<close> is generated.

  \<^bold>\<open>Not proved.\<close>  These operations are defined and run in the models, but no theorem covers them as a whole: loading a process from
  an ELF image on the disk (its parts, the file session, the image checks and bounds, the new task and the mapping of memory, are
  covered one by one), paths with subdirectories, volumes whose root directory needs more than one heap page (over 128 entries) and
  the file test at the end of \<^verbatim>\<open>kernel_main\<close>, which prints a buffer without a terminator.
\<close>

end
